(* ===== verification/Prelude.thy ===== *)
theory Prelude
  imports Main "HOL-Library.Word"
begin

unbundle bit_operations_syntax

text \<open>
  Shared vocabulary of the development: the C integer types as words, the error codes of
  \<^verbatim>\<open>distric_err_t\<close>, C strings held in fixed-size arrays, and the byte order conversions
  (\<^verbatim>\<open>htons\<close>, \<^verbatim>\<open>htonl\<close>, \<^verbatim>\<open>htonll\<close> followed by \<^verbatim>\<open>memcpy\<close>, and the plain
  \<^verbatim>\<open>memcpy\<close> of a host integer) with the round-trip and length facts that the codecs of the
  other theories rest on.
\<close>

section \<open>Collections\<close>

named_theorems wire_simps \<open>unfolding and length facts of byte encodings\<close>

section \<open>C types\<close>

type_synonym u8 = "8 word"
type_synonym u16 = "16 word"
type_synonym u32 = "32 word"
type_synonym u64 = "64 word"

type_synonym bytes = "u8 list"

text \<open>
  A C string is the list of its bytes before the terminating NUL. Every \<^verbatim>\<open>char name[N]\<close>
  member of the modelled structs is zero-initialised and written with
  \<^verbatim>\<open>strncpy(dst, src, N - 1)\<close> only, so it always holds a terminated string and is modelled by
  that string.
\<close>

type_synonym cstr = "u8 list"

datatype distric_err =
    DISTRIC_OK
  | DISTRIC_ERR_INVALID_ARG
  | DISTRIC_ERR_ALLOC_FAILURE
  | DISTRIC_ERR_INIT_FAILED
  | DISTRIC_ERR_REGISTRY_FULL
  | DISTRIC_ERR_NOT_FOUND
  | DISTRIC_ERR_BUFFER_OVERFLOW
  | DISTRIC_ERR_BACKPRESSURE
  | DISTRIC_ERR_INVALID_LABEL
  | DISTRIC_ERR_HIGH_CARDINALITY
  | DISTRIC_ERR_REGISTRY_FROZEN
  | DISTRIC_ERR_NO_MEMORY
  | DISTRIC_ERR_ALREADY_EXISTS
  | DISTRIC_ERR_SHUTDOWN
  | DISTRIC_ERR_IO
  | DISTRIC_ERR_INVALID_STATE
  | DISTRIC_ERR_THREAD
  | DISTRIC_ERR_TIMEOUT
  | DISTRIC_ERR_EOF
  | DISTRIC_ERR_INVALID_FORMAT
  | DISTRIC_ERR_TYPE_MISMATCH
  | DISTRIC_ERR_UNAVAILABLE

text \<open>
  A call that writes its result through an out-parameter and returns \<^verbatim>\<open>distric_err_t\<close> is a
  sum: \<open>Inl e\<close> when it returns the error \<open>e\<close>, \<open>Inr x\<close> when it returns
  \<open>DISTRIC_OK\<close> with \<open>x\<close> stored.
\<close>

type_synonym 'a result = "distric_err + 'a"

section \<open>C strings\<close>

text \<open>\<open>cstr_of\<close> reads a byte buffer as a C string: up to the first NUL.\<close>

definition cstr_of :: "bytes \<Rightarrow> cstr" where
  "cstr_of bs = takeWhile (\<lambda>b. b \<noteq> 0) bs"

text \<open>The character classes that \<^verbatim>\<open>sscanf\<close> and \<^verbatim>\<open>strtoll\<close> use.\<close>

definition is_digit :: "u8 \<Rightarrow> bool" where
  "is_digit c \<longleftrightarrow> 48 \<le> c \<and> c \<le> 57"

definition is_space :: "u8 \<Rightarrow> bool" where
  "is_space c \<longleftrightarrow> c = 32 \<or> 9 \<le> c \<and> c \<le> 13"

text \<open>\<open>strncpy(dst, src, n)\<close> into a zeroed array of more than \<open>n\<close> bytes.\<close>

definition strncpy :: "nat \<Rightarrow> cstr \<Rightarrow> cstr" where
  "strncpy n s = take n (cstr_of s)"

definition wf_cstr :: "nat \<Rightarrow> cstr \<Rightarrow> bool" where
  "wf_cstr n s \<longleftrightarrow> length s < n \<and> 0 \<notin> set s"

lemma cstr_of_append_nul [simp]: "0 \<notin> set s \<Longrightarrow> cstr_of (s @ 0 # r) = s"
  unfolding cstr_of_def by (induction s) auto

lemma cstr_of_id [simp]: "0 \<notin> set s \<Longrightarrow> cstr_of s = s"
  unfolding cstr_of_def by (induction s) auto

lemma no_nul_cstr_of [simp]: "0 \<notin> set (cstr_of s)"
  unfolding cstr_of_def by (auto dest: set_takeWhileD)

lemma strncpy_id: "wf_cstr (Suc n) s \<Longrightarrow> strncpy n s = s"
  by (simp add: strncpy_def wf_cstr_def)

lemma wf_strncpy: "wf_cstr (Suc n) (strncpy n s)"
  using no_nul_cstr_of [of s]
  by (auto simp: wf_cstr_def strncpy_def dest: in_set_takeD simp del: no_nul_cstr_of)

text \<open>String literals, and the conversions \<^verbatim>\<open>%u\<close> and \<^verbatim>\<open>%zu\<close> of \<^verbatim>\<open>snprintf\<close>.\<close>

definition ascii :: "string \<Rightarrow> bytes" where
  "ascii s = map of_char s"

function dec_digits :: "nat \<Rightarrow> bytes" where
  "dec_digits n =
     (if n < 10 then [of_nat (48 + n)] else dec_digits (n div 10) @ [of_nat (48 + n mod 10)])"
  by pat_completeness auto
termination by (relation "measure id") auto

declare dec_digits.simps [simp del]

lemma dec_digits_no_nul: "0 \<notin> set (dec_digits n)"
proof (induction n rule: dec_digits.induct)
  case (1 n)
  have "of_nat (48 + m) \<noteq> (0 :: u8)" if "m < 10" for m
  proof -
    have "unat (of_nat (48 + m) :: u8) = 48 + m" using that by (simp add: unat_of_nat del: of_nat_add)
    then show ?thesis by (auto simp del: of_nat_add)
  qed
  then show ?case using 1 by (subst dec_digits.simps) (auto simp del: of_nat_add)
qed

lemma length_dec_digits: "n < 10 ^ k \<Longrightarrow> 0 < k \<Longrightarrow> length (dec_digits n) \<le> k"
proof (induction k arbitrary: n)
  case 0
  then show ?case by simp
next
  case (Suc k)
  show ?case
  proof (cases "n < 10")
    case True
    then show ?thesis by (subst dec_digits.simps) simp
  next
    case False
    then have "0 < k" using Suc.prems by (cases k) auto
    moreover have "n div 10 < 10 ^ k" using Suc.prems by (simp add: less_mult_imp_div_less mult.commute)
    ultimately show ?thesis using Suc.IH [of "n div 10"] False by (subst dec_digits.simps) simp
  qed
qed

text \<open>The value of a sequence of digits.\<close>

definition digits_val :: "bytes \<Rightarrow> int" where
  "digits_val ds = foldl (\<lambda>a c. 10 * a + (uint c - 48)) 0 ds"

section \<open>Byte order\<close>

text \<open>
  \<open>be_bytes n w\<close> are the \<open>n\<close> low bytes of \<open>w\<close>, most significant first: what
  \<^verbatim>\<open>htonX\<close> followed by \<^verbatim>\<open>memcpy(buf, &v, n)\<close> stores. \<open>be_word\<close> is \<^verbatim>\<open>memcpy\<close>
  followed by \<^verbatim>\<open>ntohX\<close>.
\<close>

fun be_bytes :: "nat \<Rightarrow> 'a::len word \<Rightarrow> bytes" where
  "be_bytes 0 w = []"
| "be_bytes (Suc n) w = be_bytes n (drop_bit 8 w) @ [ucast w]"

definition be_word :: "bytes \<Rightarrow> 'a::len word" where
  "be_word bs = foldl (\<lambda>a b. push_bit 8 a OR ucast b) 0 bs"

text \<open>
  The little-endian counterparts: \<^verbatim>\<open>memcpy\<close> of a host integer on the little-endian hosts the
  project is built for.
\<close>

definition le_bytes :: "nat \<Rightarrow> 'a::len word \<Rightarrow> bytes" where
  "le_bytes n w = rev (be_bytes n w)"

definition le_word :: "bytes \<Rightarrow> 'a::len word" where
  "le_word bs = be_word (rev bs)"

lemma length_be_bytes [simp, wire_simps]: "length (be_bytes n w) = n"
  by (induction n w rule: be_bytes.induct) auto

lemma length_le_bytes [simp, wire_simps]: "length (le_bytes n w) = n"
  by (simp add: le_bytes_def)

lemma be_word_Nil [simp]: "be_word [] = 0"
  by (simp add: be_word_def)

lemma be_word_snoc: "be_word (bs @ [b]) = push_bit 8 (be_word bs) OR ucast b"
  by (simp add: be_word_def)

lemma be_word_be_bytes_take: "be_word (be_bytes n w) = take_bit (8 * n) (w :: 'a::len word)"
proof (induction n w rule: be_bytes.induct)
  case (1 w)
  show ?case by simp
next
  case (2 n w)
  show ?case
    by (rule bit_eqI)
      (auto simp: be_word_snoc 2 bit_simps not_less dest: bit_imp_le_length)
qed

lemma be_word_be_bytes [simp]:
  "LENGTH('a) \<le> 8 * n \<Longrightarrow> be_word (be_bytes n w) = (w :: 'a::len word)"
  by (simp add: be_word_be_bytes_take take_bit_word_eq_self)

lemma le_word_le_bytes [simp]:
  "LENGTH('a) \<le> 8 * n \<Longrightarrow> le_word (le_bytes n w) = (w :: 'a::len word)"
  by (simp add: le_word_def le_bytes_def)

lemma be_bytes_be_word:
  "8 * length bs \<le> LENGTH('a) \<Longrightarrow> be_bytes (length bs) (be_word bs :: 'a::len word) = bs"
proof (induction bs rule: rev_induct)
  case Nil
  show ?case by simp
next
  case (snoc b bs)
  let ?w = "be_word bs :: 'a word"
  have eq: "drop_bit 8 (push_bit 8 (take_bit (8 * length bs) ?w) OR ucast b) = take_bit (8 * length bs) ?w"
    by (rule bit_eqI) (use snoc.prems in \<open>auto simp: bit_simps dest: bit_imp_le_length\<close>)
  have "take_bit (8 * length bs) ?w = ?w"
    using be_word_be_bytes_take [of "length bs" ?w] snoc by simp
  moreover have "ucast (push_bit 8 ?w OR ucast b) = b"
    by (rule bit_eqI) (use snoc.prems in \<open>auto simp: bit_simps dest: bit_imp_le_length\<close>)
  ultimately show ?case
    using snoc eq by (simp add: be_word_snoc)
qed

text \<open>Two encodings of the same width agree only for equal words.\<close>

lemma be_bytes_inj:
  "LENGTH('a) \<le> 8 * n \<Longrightarrow> be_bytes n v = be_bytes n w \<longleftrightarrow> v = (w :: 'a::len word)"
  by (metis be_word_be_bytes)

section \<open>Slices of buffers\<close>

text \<open>\<open>bslice i n bs\<close> is what \<^verbatim>\<open>memcpy(dst, bs + i, n)\<close> reads.\<close>

definition bslice :: "nat \<Rightarrow> nat \<Rightarrow> 'a list \<Rightarrow> 'a list" where
  "bslice i n bs = take n (drop i bs)"

lemma length_bslice [simp, wire_simps]: "i + n \<le> length bs \<Longrightarrow> length (bslice i n bs) = n"
  by (simp add: bslice_def)

lemma bslice_append_skip [simp]: "length xs = i \<Longrightarrow> bslice (i + j) n (xs @ ys) = bslice j n ys"
  by (simp add: bslice_def)

lemma bslice_at [simp]: "i = length xs \<Longrightarrow> n = length ys \<Longrightarrow> bslice i n (xs @ ys @ zs) = ys"
  by (simp add: bslice_def)

lemma bslice_at_end [simp]: "i = length xs \<Longrightarrow> n = length ys \<Longrightarrow> bslice i n (xs @ ys) = ys"
  by (simp add: bslice_def)

lemma bslice_zero: "bslice 0 n xs = take n xs"
  by (simp add: bslice_def)

lemma bslice_inner: "i + n \<le> m \<Longrightarrow> bslice i n (take m xs) = bslice i n xs"
  by (simp add: bslice_def drop_take min_absorb1)

lemma bslice_skip:
  "length xs \<le> i \<Longrightarrow> bslice i n (xs @ ys) = bslice (i - length xs) n ys"
  by (simp add: bslice_def)

lemma bslice_first: "length xs = n \<Longrightarrow> bslice 0 n (xs @ ys) = xs"
  by (simp add: bslice_def)

lemma bslice_first_end: "length xs = n \<Longrightarrow> bslice 0 n xs = xs"
  by (simp add: bslice_def)

lemmas bslice_fields = bslice_skip bslice_first bslice_first_end

lemma be_bytes_bslice:
  "i + n \<le> length buf \<Longrightarrow> 8 * n \<le> LENGTH('a) \<Longrightarrow>
     be_bytes n (be_word (bslice i n buf) :: 'a::len word) = bslice i n buf"
  using be_bytes_be_word [of "bslice i n buf", where ?'a = 'a] by simp

lemma bslice_append_bslice: "bslice i m xs @ bslice (i + m) n xs = bslice i (m + n) xs"
  by (simp add: bslice_def take_add drop_drop add.commute)

section \<open>Words and naturals\<close>

lemma u32_less_conv: "(a :: u32) < b \<longleftrightarrow> unat a < unat b"
  by (simp add: word_less_nat_alt)

lemma u32_le_conv: "(a :: u32) \<le> b \<longleftrightarrow> unat a \<le> unat b"
  by (simp add: word_le_nat_alt)

lemma unat_Suc_u32: "unat (a :: u32) < 2 ^ 32 - 1 \<Longrightarrow> unat (a + 1) = Suc (unat a)"
  by (simp add: unat_word_ariths)

lemma unat_and_mask:
  assumes "k < 32"
  shows "unat ((x :: u32) AND (2 ^ k - 1)) = unat x mod 2 ^ k"
proof -
  have "x AND (2 ^ k - 1) = take_bit k x" by (simp add: take_bit_eq_mask mask_eq_exp_minus_1)
  then have "unat (x AND (2 ^ k - 1)) = take_bit k (unat x)" by (simp only: unsigned_take_bit_eq)
  then show ?thesis by (simp only: take_bit_eq_mod)
qed

section \<open>Lists\<close>

lemma option_case_find_same [simp]: "(case x of None \<Rightarrow> None | Some y \<Rightarrow> Some y) = x"
  by (cases x) auto

lemma list_update_take_drop:
  "n < length xs \<Longrightarrow> xs[n := v] = take n xs @ v # drop (Suc n) xs"
  by (simp add: upd_conv_take_nth_drop)

section \<open>Character array fields\<close>

text \<open>
  \<^verbatim>\<open>strncpy(ptr, s, n)\<close> into a buffer, cut to \<open>n\<close> bytes or padded with zeros; also the bytes of a
  \<^verbatim>\<open>char[n]\<close> member that was cleared before the string was copied in.
\<close>

definition char_field :: "nat \<Rightarrow> cstr \<Rightarrow> bytes" where
  "char_field n s = take n s @ replicate (n - length s) 0"

lemma length_char_field [simp, wire_simps]: "length (char_field n s) = n"
  by (simp add: char_field_def)

lemma strncpy_char_field:
  assumes "wf_cstr (Suc n) s"
  shows "strncpy n (char_field (Suc n) s) = s"
proof -
  obtain m where m: "Suc n - length s = Suc m" using assms by (auto simp: wf_cstr_def less_imp_Suc_add dest!: less_imp_Suc_add)
  have "char_field (Suc n) s = s @ 0 # replicate m 0" using assms m by (simp add: char_field_def wf_cstr_def)
  then show ?thesis using assms by (simp add: strncpy_def wf_cstr_def)
qed

section \<open>Linear search by key\<close>

text \<open>
  \<^verbatim>\<open>for (i = 0; i < n; i++) if (key(array[i]) == x) return i\<close>, the search that the membership list, the
  worker pool and the configuration manager share.
\<close>

fun key_index :: "('a \<Rightarrow> 'k) \<Rightarrow> 'a list \<Rightarrow> 'k \<Rightarrow> nat option" where
  "key_index key [] x = None"
| "key_index key (e # es) x = (if key e = x then Some 0 else map_option Suc (key_index key es x))"

lemma key_index_None: "key_index key es x = None \<longleftrightarrow> x \<notin> set (map key es)"
  by (induction es) auto

lemma key_index_Some: "key_index key es x = Some i \<Longrightarrow> i < length es \<and> key (es ! i) = x"
  by (induction es arbitrary: i) (auto split: if_splits)

lemma key_index_nth: "distinct (map key es) \<Longrightarrow> i < length es \<Longrightarrow> key_index key es (key (es ! i)) = Some i"
proof (induction es arbitrary: i)
  case (Cons e es)
  show ?case
  proof (cases i)
    case (Suc j)
    then have "key (es ! j) \<in> key ` set es" using Cons.prems(2) by simp
    then show ?thesis using Cons Suc by auto
  qed simp
qed simp

lemma key_index_distinct:
  "distinct (map key es) \<Longrightarrow> key_index key es x = Some i \<longleftrightarrow> i < length es \<and> key (es ! i) = x"
  using key_index_Some [of key es x i] key_index_nth [of key es i] by auto

lemma key_index_cong: "map key es = map key es' \<Longrightarrow> key_index key es x = key_index key es' x"
proof (induction es arbitrary: es')
  case (Cons e es)
  then show ?case by (cases es') auto
qed simp

lemma key_index_append:
  "key_index key (es @ fs) x
    = (case key_index key es x of Some i \<Rightarrow> Some i | None \<Rightarrow> map_option (\<lambda>i. length es + i) (key_index key fs x))"
  by (induction es; cases "key_index key fs x") (auto split: option.splits)

section \<open>Ring arithmetic\<close>

lemma mod_wrap:
  assumes "tail < (n :: nat)" and "i < n"
  shows "(tail + i) mod n = (if tail + i < n then tail + i else tail + i - n)"
  using assms by (auto simp: mod_if [of "tail + i" n])

text \<open>The slots that a linear probe of a table of \<open>n\<close> slots visits, from any start: each one once.\<close>

lemma mod_probe:
  assumes "0 < (n :: nat)"
  shows "distinct (map (\<lambda>i. (h + i) mod n) [0..<n])" and "set (map (\<lambda>i. (h + i) mod n) [0..<n]) = {..<n}"
proof -
  have m: "(h + i) mod n = (h mod n + i) mod n" for i by (simp add: mod_add_left_eq)
  have inj: "inj_on (\<lambda>i. (h + i) mod n) {0..<n}"
  proof (rule inj_onI)
    fix i j assume "i \<in> {0..<n}" "j \<in> {0..<n}" "(h + i) mod n = (h + j) mod n"
    moreover have "h mod n < n" using assms by simp
    ultimately show "i = j" by (auto simp: m [of i] m [of j] mod_wrap simp del: mod_add_left_eq split: if_splits)
  qed
  then show "distinct (map (\<lambda>i. (h + i) mod n) [0..<n])" by (simp add: distinct_map)
  have "set (map (\<lambda>i. (h + i) mod n) [0..<n]) \<subseteq> {..<n}" using assms by auto
  moreover have "card (set (map (\<lambda>i. (h + i) mod n) [0..<n])) = n" using inj by (simp add: card_image)
  ultimately show "set (map (\<lambda>i. (h + i) mod n) [0..<n]) = {..<n}" by (simp add: card_subset_eq)
qed

end
