(* ===== verification/Crc32.thy ===== *)
theory Crc32
  imports Prelude
begin

unbundle bit_operations_syntax

text \<open>
  CRC-32 as the program computes it twice: table-driven in
  \<^verbatim>\<open>libs/distric_protocol/src/crc32.c\<close> (every wire message) and bit by bit in
  \<^verbatim>\<open>libs/distric_raft/src/raft_persistence.c\<close> (snapshot files). The table is the literal of
  the source. The lemmas show that the two routines are the same function, that the
  incremental interface composes, and that a corruption confined to four consecutive bytes is always detected.
\<close>

section \<open>The two routines\<close>

definition crc32_table :: "u32 list" where
  "crc32_table = [
     0x00000000, 0x77073096, 0xEE0E612C, 0x990951BA,
     0x076DC419, 0x706AF48F, 0xE963A535, 0x9E6495A3,
     0x0EDB8832, 0x79DCB8A4, 0xE0D5E91E, 0x97D2D988,
     0x09B64C2B, 0x7EB17CBD, 0xE7B82D07, 0x90BF1D91,
     0x1DB71064, 0x6AB020F2, 0xF3B97148, 0x84BE41DE,
     0x1ADAD47D, 0x6DDDE4EB, 0xF4D4B551, 0x83D385C7,
     0x136C9856, 0x646BA8C0, 0xFD62F97A, 0x8A65C9EC,
     0x14015C4F, 0x63066CD9, 0xFA0F3D63, 0x8D080DF5,
     0x3B6E20C8, 0x4C69105E, 0xD56041E4, 0xA2677172,
     0x3C03E4D1, 0x4B04D447, 0xD20D85FD, 0xA50AB56B,
     0x35B5A8FA, 0x42B2986C, 0xDBBBC9D6, 0xACBCF940,
     0x32D86CE3, 0x45DF5C75, 0xDCD60DCF, 0xABD13D59,
     0x26D930AC, 0x51DE003A, 0xC8D75180, 0xBFD06116,
     0x21B4F4B5, 0x56B3C423, 0xCFBA9599, 0xB8BDA50F,
     0x2802B89E, 0x5F058808, 0xC60CD9B2, 0xB10BE924,
     0x2F6F7C87, 0x58684C11, 0xC1611DAB, 0xB6662D3D,
     0x76DC4190, 0x01DB7106, 0x98D220BC, 0xEFD5102A,
     0x71B18589, 0x06B6B51F, 0x9FBFE4A5, 0xE8B8D433,
     0x7807C9A2, 0x0F00F934, 0x9609A88E, 0xE10E9818,
     0x7F6A0DBB, 0x086D3D2D, 0x91646C97, 0xE6635C01,
     0x6B6B51F4, 0x1C6C6162, 0x856530D8, 0xF262004E,
     0x6C0695ED, 0x1B01A57B, 0x8208F4C1, 0xF50FC457,
     0x65B0D9C6, 0x12B7E950, 0x8BBEB8EA, 0xFCB9887C,
     0x62DD1DDF, 0x15DA2D49, 0x8CD37CF3, 0xFBD44C65,
     0x4DB26158, 0x3AB551CE, 0xA3BC0074, 0xD4BB30E2,
     0x4ADFA541, 0x3DD895D7, 0xA4D1C46D, 0xD3D6F4FB,
     0x4369E96A, 0x346ED9FC, 0xAD678846, 0xDA60B8D0,
     0x44042D73, 0x33031DE5, 0xAA0A4C5F, 0xDD0D7CC9,
     0x5005713C, 0x270241AA, 0xBE0B1010, 0xC90C2086,
     0x5768B525, 0x206F85B3, 0xB966D409, 0xCE61E49F,
     0x5EDEF90E, 0x29D9C998, 0xB0D09822, 0xC7D7A8B4,
     0x59B33D17, 0x2EB40D81, 0xB7BD5C3B, 0xC0BA6CAD,
     0xEDB88320, 0x9ABFB3B6, 0x03B6E20C, 0x74B1D29A,
     0xEAD54739, 0x9DD277AF, 0x04DB2615, 0x73DC1683,
     0xE3630B12, 0x94643B84, 0x0D6D6A3E, 0x7A6A5AA8,
     0xE40ECF0B, 0x9309FF9D, 0x0A00AE27, 0x7D079EB1,
     0xF00F9344, 0x8708A3D2, 0x1E01F268, 0x6906C2FE,
     0xF762575D, 0x806567CB, 0x196C3671, 0x6E6B06E7,
     0xFED41B76, 0x89D32BE0, 0x10DA7A5A, 0x67DD4ACC,
     0xF9B9DF6F, 0x8EBEEFF9, 0x17B7BE43, 0x60B08ED5,
     0xD6D6A3E8, 0xA1D1937E, 0x38D8C2C4, 0x4FDFF252,
     0xD1BB67F1, 0xA6BC5767, 0x3FB506DD, 0x48B2364B,
     0xD80D2BDA, 0xAF0A1B4C, 0x36034AF6, 0x41047A60,
     0xDF60EFC3, 0xA867DF55, 0x316E8EEF, 0x4669BE79,
     0xCB61B38C, 0xBC66831A, 0x256FD2A0, 0x5268E236,
     0xCC0C7795, 0xBB0B4703, 0x220216B9, 0x5505262F,
     0xC5BA3BBE, 0xB2BD0B28, 0x2BB45A92, 0x5CB36A04,
     0xC2D7FFA7, 0xB5D0CF31, 0x2CD99E8B, 0x5BDEAE1D,
     0x9B64C2B0, 0xEC63F226, 0x756AA39C, 0x026D930A,
     0x9C0906A9, 0xEB0E363F, 0x72076785, 0x05005713,
     0x95BF4A82, 0xE2B87A14, 0x7BB12BAE, 0x0CB61B38,
     0x92D28E9B, 0xE5D5BE0D, 0x7CDCEFB7, 0x0BDBDF21,
     0x86D3D2D4, 0xF1D4E242, 0x68DDB3F8, 0x1FDA836E,
     0x81BE16CD, 0xF6B9265B, 0x6FB077E1, 0x18B74777,
     0x88085AE6, 0xFF0F6A70, 0x66063BCA, 0x11010B5C,
     0x8F659EFF, 0xF862AE69, 0x616BFFD3, 0x166CCF45,
     0xA00AE278, 0xD70DD2EE, 0x4E048354, 0x3903B3C2,
     0xA7672661, 0xD06016F7, 0x4969474D, 0x3E6E77DB,
     0xAED16A4A, 0xD9D65ADC, 0x40DF0B66, 0x37D83BF0,
     0xA9BCAE53, 0xDEBB9EC5, 0x47B2CF7F, 0x30B5FFE9,
     0xBDBDF21C, 0xCABAC28A, 0x53B39330, 0x24B4A3A6,
     0xBAD03605, 0xCDD70693, 0x54DE5729, 0x23D967BF,
     0xB3667A2E, 0xC4614AB8, 0x5D681B02, 0x2A6F2B94,
     0xB40BBE37, 0xC30C8EA1, 0x5A05DF1B, 0x2D02EF8D]"

text \<open>\<^verbatim>\<open>compute_crc32_incremental\<close>: one table step per byte.\<close>

definition crc32_update :: "u32 \<Rightarrow> u8 \<Rightarrow> u32" where
  "crc32_update crc b =
     (let idx = (ucast ((crc XOR ucast b) AND 0xFF) :: u8)
      in drop_bit 8 crc XOR crc32_table ! unat idx)"

definition compute_crc32_incremental :: "bytes \<Rightarrow> u32 \<Rightarrow> u32" where
  "compute_crc32_incremental data crc = foldl crc32_update crc data"

definition compute_crc32 :: "bytes \<Rightarrow> u32" where
  "compute_crc32 data =
     (if data = [] then 0 else NOT (compute_crc32_incremental data 0xFFFFFFFF))"

text \<open>\<^verbatim>\<open>crc32_compute\<close> of the persistence layer: eight conditional shifts per byte.\<close>

definition crc32_bit :: "u32 \<Rightarrow> u32" where
  "crc32_bit crc = (if crc AND 1 \<noteq> 0 then drop_bit 1 crc XOR 0xEDB88320 else drop_bit 1 crc)"

fun crc32_bits :: "nat \<Rightarrow> u32 \<Rightarrow> u32" where
  "crc32_bits 0 crc = crc"
| "crc32_bits (Suc j) crc = crc32_bits j (crc32_bit crc)"

definition crc32_compute :: "bytes \<Rightarrow> u32" where
  "crc32_compute data = NOT (foldl (\<lambda>crc b. crc32_bits 8 (crc XOR ucast b)) 0xFFFFFFFF data)"

section \<open>The bit step is linear and injective\<close>

lemma and_one_neq_zero [simp]: "(x :: u32) AND 1 \<noteq> 0 \<longleftrightarrow> odd x"
  by (simp add: and_one_eq odd_iff_mod_2_eq_one even_iff_mod_2_eq_zero)

lemma odd_xor: "odd ((a :: u32) XOR b) \<longleftrightarrow> odd a \<noteq> odd b"
  using bit_xor_iff [of a b 0] by (simp add: bit_0)

lemma xor_right_cancel: "(a :: u32) XOR c = b XOR c \<longleftrightarrow> a = b"
proof
  assume "a XOR c = b XOR c"
  then have "(a XOR c) XOR c = (b XOR c) XOR c" by simp
  then show "a = b" by (simp add: xor.assoc)
qed simp

lemma crc32_bit_xor: "crc32_bit (a XOR b) = crc32_bit a XOR crc32_bit b"
proof -
  have "drop_bit 1 (a XOR b) = drop_bit 1 a XOR drop_bit 1 b"
    by (simp add: drop_bit_xor)
  then show ?thesis
    by (auto simp: crc32_bit_def odd_xor xor.assoc xor.left_commute xor.commute)
qed

lemma crc32_bits_xor: "crc32_bits j (a XOR b) = crc32_bits j a XOR crc32_bits j b"
  by (induction j arbitrary: a b) (simp_all add: crc32_bit_xor)

lemma crc32_bit_eq_0: "crc32_bit x = 0 \<Longrightarrow> x = 0"
proof -
  assume z: "crc32_bit x = 0"
  have "even x"
  proof (rule ccontr)
    assume "\<not> even x"
    with z have "drop_bit 1 x XOR 0xEDB88320 = 0" by (simp add: crc32_bit_def)
    then have "\<not> bit (drop_bit 1 x XOR 0xEDB88320 :: u32) 31" by simp
    moreover have "\<not> bit (drop_bit 1 x) 31"
      using bit_imp_le_length [of x 32] by (auto simp: bit_simps)
    ultimately show False by (simp add: bit_xor_iff)
  qed
  with z have "drop_bit 1 x = 0" by (simp add: crc32_bit_def)
  with \<open>even x\<close> show "x = 0"
    using bits_ident [of 1 x] by (simp add: take_bit_Suc even_iff_mod_2_eq_zero)
qed

lemma crc32_bits_eq_0: "crc32_bits j x = 0 \<Longrightarrow> x = 0"
  by (induction j arbitrary: x) (auto dest: crc32_bit_eq_0)

lemma crc32_bits_inj: "crc32_bits j a = crc32_bits j b \<longleftrightarrow> a = b"
proof
  assume "crc32_bits j a = crc32_bits j b"
  then have "crc32_bits j (a XOR b) = 0" by (simp add: crc32_bits_xor)
  then have "a XOR b = 0" by (rule crc32_bits_eq_0)
  then have "(a XOR b) XOR b = b" by simp
  then show "a = b" by (simp add: xor.assoc)
qed simp

lemma crc32_bits_shift: "crc32_bits j (push_bit j x) = x" if "\<And>n. bit x n \<Longrightarrow> n + j < 32"
  using that
proof (induction j arbitrary: x)
  case 0
  then show ?case by simp
next
  case (Suc j)
  have "even (push_bit (Suc j) x)"
    by (simp add: even_push_bit_iff)
  moreover have "drop_bit 1 (push_bit (Suc j) x) = push_bit j x"
  proof (rule bit_eqI)
    fix n
    show "bit (drop_bit 1 (push_bit (Suc j) x)) n \<longleftrightarrow> bit (push_bit j x) n"
      using Suc.prems [of "n - j"] bit_imp_le_length [of x "n - j"]
      by (auto simp: bit_simps Suc_diff_le simp del: push_bit_Suc)
  qed
  ultimately have "crc32_bit (push_bit (Suc j) x) = push_bit j x"
    by (simp add: crc32_bit_def del: push_bit_Suc)
  with Suc.IH [of x] Suc.prems show ?case by (simp del: push_bit_Suc add: Suc_lessD)
qed

section \<open>The table holds the eight-step values\<close>

lemma nat_less_8_cases:
  "k < (8::nat) \<Longrightarrow> k = 0 \<or> k = 1 \<or> k = 2 \<or> k = 3 \<or> k = 4 \<or> k = 5 \<or> k = 6 \<or> k = 7"
  by arith

lemma crc32_table_segment:
  "k < 8 \<Longrightarrow> take (2 ^ k) (drop (2 ^ k) crc32_table)
     = map ((XOR) (crc32_table ! (2 ^ k))) (take (2 ^ k) crc32_table)"
  by (drule nat_less_8_cases) (elim disjE; simp add: crc32_table_def)

lemma length_crc32_table: "length crc32_table = 256"
  by (simp add: crc32_table_def)

lemma crc32_table_doubles:
  assumes "k < 8" and "i < 2 ^ k"
  shows "crc32_table ! (2 ^ k + i) = crc32_table ! (2 ^ k) XOR crc32_table ! i"
proof -
  have "(2::nat) ^ Suc k \<le> 2 ^ 8" using assms(1) by (intro power_increasing) auto
  then have k: "2 ^ k + 2 ^ k \<le> (256::nat)" by simp
  have "take (2 ^ k) (drop (2 ^ k) crc32_table) ! i = crc32_table ! (2 ^ k + i)"
    using assms k by (simp add: length_crc32_table)
  moreover have "map ((XOR) (crc32_table ! (2 ^ k))) (take (2 ^ k) crc32_table) ! i
      = crc32_table ! (2 ^ k) XOR crc32_table ! i"
    using assms k by (simp add: length_crc32_table)
  ultimately show ?thesis by (simp add: crc32_table_segment [OF assms(1)])
qed

lemma crc32_bits_8:
  "crc32_bits 8 c = crc32_bit (crc32_bit (crc32_bit (crc32_bit
     (crc32_bit (crc32_bit (crc32_bit (crc32_bit c)))))))"
  by (simp add: numeral_eq_Suc)

lemma crc32_table_powers: "k < 8 \<Longrightarrow> crc32_table ! (2 ^ k) = crc32_bits 8 (2 ^ k)"
  by (drule nat_less_8_cases) (elim disjE; simp add: crc32_table_def crc32_bits_8 crc32_bit_def)


lemma crc32_table_bits: "i < 2 ^ k \<Longrightarrow> k \<le> 8 \<Longrightarrow> crc32_table ! i = crc32_bits 8 (word_of_nat i)"
proof (induction k arbitrary: i)
  case 0
  have "crc32_table ! 0 = 0" by (simp add: crc32_table_def)
  moreover have "crc32_bits 8 0 = 0" by (simp add: crc32_bits_8 crc32_bit_def)
  ultimately show ?case using 0 by simp
next
  case (Suc k)
  show ?case
  proof (cases "i < 2 ^ k")
    case True
    with Suc show ?thesis by simp
  next
    case False
    define m where "m = i - 2 ^ k"
    from False Suc.prems have i: "i = 2 ^ k + m" and m: "m < 2 ^ k" and k: "k < 8"
      by (auto simp: m_def)
    have "\<not> bit m n" if "n \<ge> k" for n
      using m that by (metis bit_take_bit_iff linorder_not_less take_bit_nat_eq_self)
    then have "2 ^ k AND m = 0"
      by (intro bit_eqI) (auto simp: bit_simps)
    then have "i = 2 ^ k XOR m"
      unfolding i by (rule disjunctive_add_eq_xor)
    then have "word_of_nat i = (2 ^ k XOR word_of_nat m :: u32)"
      by (simp add: of_nat_xor_eq)
    moreover have "crc32_table ! i = crc32_table ! (2 ^ k) XOR crc32_table ! m"
      unfolding i using k m by (rule crc32_table_doubles)
    ultimately show ?thesis
      using Suc.IH [OF m] k by (simp add: crc32_bits_xor crc32_table_powers)
  qed
qed

lemma and_0xFF: "(x :: u32) AND 0xFF = take_bit 8 x"
  by (simp add: take_bit_eq_mask mask_eq_exp_minus_1)

lemma unat_and_0xFF: "unat ((x :: u32) AND 0xFF) < 256"
  using take_bit_nat_less_exp [of 8 "unat x"] by (simp add: and_0xFF unsigned_take_bit_eq)

section \<open>The table step is the eight-bit step\<close>

lemma crc32_update_eq: "crc32_update crc b = crc32_bits 8 (crc XOR ucast b)"
proof -
  let ?c = "crc XOR ucast b :: u32"
  let ?lo = "?c AND 0xFF"
  have split: "?c = ?lo XOR push_bit 8 (drop_bit 8 ?c)"
  proof (rule bit_word_eqI)
    fix n
    assume "n < LENGTH(32)"
    then show "bit ?c n \<longleftrightarrow> bit (?lo XOR push_bit 8 (drop_bit 8 ?c)) n"
      unfolding and_0xFF by (cases "8 \<le> n") (auto simp: bit_simps)
  qed
  have hi: "crc32_bits 8 (push_bit 8 (drop_bit 8 ?c)) = drop_bit 8 ?c"
    by (rule crc32_bits_shift) (auto simp: bit_simps dest: bit_imp_le_length)
  have dc: "drop_bit 8 ?c = drop_bit 8 crc"
    by (rule bit_eqI) (auto simp: bit_simps dest: bit_imp_le_length)
  have "unat ?lo < 2 ^ 8"
    using unat_and_0xFF [of ?c] by simp
  moreover from this have lo: "unat (ucast ?lo :: u8) = unat ?lo"
    by (simp add: unsigned_ucast_eq take_bit_nat_eq_self)
  ultimately have "crc32_table ! unat (ucast ?lo :: u8) = crc32_bits 8 ?lo"
    using crc32_table_bits [of "unat ?lo" 8] by simp
  then have "crc32_update crc b = crc32_bits 8 ?lo XOR drop_bit 8 crc"
    by (simp add: crc32_update_def xor.commute)
  also have "\<dots> = crc32_bits 8 ?lo XOR crc32_bits 8 (push_bit 8 (drop_bit 8 ?c))"
    by (subst hi) (simp only: dc)
  also have "\<dots> = crc32_bits 8 ?c"
    unfolding crc32_bits_xor [symmetric] split [symmetric] ..
  finally show ?thesis .
qed

lemma compute_crc32_incremental_bits:
  "compute_crc32_incremental data crc = foldl (\<lambda>c b. crc32_bits 8 (c XOR ucast b)) crc data"
  by (simp add: compute_crc32_incremental_def crc32_update_eq [abs_def])

lemma compute_crc32_incremental_append:
  "compute_crc32_incremental (xs @ ys) crc
     = compute_crc32_incremental ys (compute_crc32_incremental xs crc)"
  by (simp add: compute_crc32_incremental_def)

lemma compute_crc32_incremental_Nil [simp]: "compute_crc32_incremental [] crc = crc"
  by (simp add: compute_crc32_incremental_def)

section \<open>Error detection\<close>

text \<open>Equal-length data processed from different register values end in different ones.\<close>

lemma compute_crc32_incremental_inj:
  "compute_crc32_incremental xs c = compute_crc32_incremental xs d \<longleftrightarrow> c = d"
proof (induction xs arbitrary: c d)
  case Nil
  show ?case by simp
next
  case (Cons b xs)
  have "compute_crc32_incremental xs (crc32_bits 8 (c XOR ucast b))
          = compute_crc32_incremental xs (crc32_bits 8 (d XOR ucast b))
        \<longleftrightarrow> c XOR ucast b = d XOR ucast b"
    by (simp add: Cons.IH crc32_bits_inj)
  also have "\<dots> \<longleftrightarrow> c = d" by (rule xor_right_cancel)
  finally show ?case
    by (simp add: compute_crc32_incremental_def crc32_update_eq)
qed

text \<open>Up to four bytes act on the register as one word of that many bits.\<close>

lemma le_word_Cons: "le_word (b # bs) = push_bit 8 (le_word bs) OR ucast b"
  by (simp add: le_word_def be_word_snoc)

lemma le_word_bound: "bit (le_word bs :: u32) n \<Longrightarrow> n < 8 * length bs"
proof (induction bs arbitrary: n)
  case Nil
  then show ?case by (simp add: le_word_def)
next
  case (Cons b bs)
  then have "8 \<le> n \<and> bit (le_word bs :: u32) (n - 8) \<or> bit b n"
    by (auto simp: le_word_Cons bit_simps)
  with Cons.IH [of "n - 8"] show ?case
    by (auto dest: bit_imp_le_length)
qed

lemma crc32_bits_add: "crc32_bits (m + n) c = crc32_bits n (crc32_bits m c)"
  by (induction m arbitrary: c) simp_all

lemma compute_crc32_incremental_word:
  "length w \<le> 4 \<Longrightarrow>
     compute_crc32_incremental w crc = crc32_bits (8 * length w) (crc XOR le_word w)"
proof (induction w arbitrary: crc)
  case Nil
  show ?case by (simp add: le_word_def)
next
  case (Cons b w)
  let ?r = "le_word w :: u32"
  have hi: "crc32_bits 8 (push_bit 8 ?r) = ?r"
    by (rule crc32_bits_shift) (use Cons.prems in \<open>auto dest!: le_word_bound\<close>)
  have disj: "push_bit 8 ?r OR ucast b = ucast b XOR push_bit 8 ?r"
    by (rule bit_eqI) (auto simp: bit_simps dest: bit_imp_le_length)
  have "compute_crc32_incremental (b # w) crc
      = compute_crc32_incremental w (crc32_bits 8 (crc XOR ucast b))"
    by (simp add: compute_crc32_incremental_def crc32_update_eq)
  also have "\<dots> = crc32_bits (8 * length w) (crc32_bits 8 (crc XOR ucast b) XOR ?r)"
    using Cons by simp
  also have "crc32_bits 8 (crc XOR ucast b) XOR ?r = crc32_bits 8 (crc XOR le_word (b # w))"
    by (simp add: le_word_Cons disj crc32_bits_xor hi xor.assoc)
  finally show ?case by (simp add: crc32_bits_add [symmetric])
qed

lemma be_bytes_le_word:
  assumes "length v \<le> 4"
  shows "be_bytes (length v) (le_word v :: u32) = rev v"
proof -
  from assms have "8 * length (rev v) \<le> LENGTH(32)" by simp
  from be_bytes_be_word [OF this] show ?thesis unfolding le_word_def length_rev .
qed

lemma le_word_inj:
  assumes "length v = length w" and "length w \<le> 4" and "(le_word v :: u32) = le_word w"
  shows "v = w"
proof -
  have "length v \<le> 4" using assms(1,2) by simp
  from be_bytes_le_word [OF this] have "rev v = be_bytes (length w) (le_word w :: u32)"
    unfolding assms(1,3) by (rule sym)
  also have "\<dots> = rev w" by (rule be_bytes_le_word [OF assms(2)])
  finally show ?thesis by (simp only: rev_is_rev_conv)
qed

lemma crc32_incremental_burst:
  assumes "length v = length w" "length w \<le> 4" "v \<noteq> w"
  shows "compute_crc32_incremental (xs @ v @ ys) c \<noteq> compute_crc32_incremental (xs @ w @ ys) c"
proof -
  let ?c = "compute_crc32_incremental xs c"
  have "?c XOR le_word v \<noteq> ?c XOR le_word w"
    using le_word_inj [OF assms(1,2)] assms(3) xor_right_cancel [of "le_word v" ?c "le_word w"]
    by (auto simp: xor.commute)
  then show ?thesis
    using assms
    by (simp add: compute_crc32_incremental_append compute_crc32_incremental_inj
        compute_crc32_incremental_word crc32_bits_inj)
qed

section \<open>Properties\<close>

text \<open>
  The table-driven checksum of the wire protocol and the bit-by-bit checksum of the
  snapshot files are the same function on every input, the empty one included.
\<close>

lemma crc32_routines_agree: "crc32_compute data = compute_crc32 data"
  by (simp add: crc32_compute_def compute_crc32_def compute_crc32_incremental_bits)

text \<open>
  C8. Any corruption confined to at most four consecutive bytes changes the CRC: data that
  differ only in a window of up to four bytes never have the same checksum.
\<close>

theorem crc32_detects_burst:
  assumes "length v = length w" and "length w \<le> 4" and "v \<noteq> w"
  shows "compute_crc32 (xs @ v @ ys) \<noteq> compute_crc32 (xs @ w @ ys)"
proof -
  have "v \<noteq> []" "w \<noteq> []" using assms by auto
  then show ?thesis
    using crc32_incremental_burst [OF assms, of xs ys "0xFFFFFFFF"]
    by (simp add: compute_crc32_def)
qed

theorem crc32_detects_burst_witness:
  "compute_crc32 ([1, 2] @ [0xFF, 0] @ [7]) \<noteq> compute_crc32 ([1, 2] @ [0, 0xFF] @ [7])"
  by (rule crc32_detects_burst) simp_all

text \<open>
  The check value of the source's test vector: the CRC of the nine ASCII digits
  \<^verbatim>\<open>123456789\<close>.
\<close>

lemma crc32_known_vector:
  "compute_crc32 [0x31, 0x32, 0x33, 0x34, 0x35, 0x36, 0x37, 0x38, 0x39] = 0xCBF43926"
  by (simp add: compute_crc32_def compute_crc32_incremental_def crc32_update_def crc32_table_def)

end
