(* ===== verification/Wire.thy ===== *)
theory Wire
  imports Crc32
begin

unbundle bit_operations_syntax

text \<open>
  The 32-byte message header of the wire protocol (\<^verbatim>\<open>libs/distric_protocol/src/binary.c\<close>):
  initialisation with message-id generation, big-endian serialisation, validation, and the
  CRC over header and payload. The lemmas show that serialisation is a bijection onto
  32-byte buffers, that a freshly initialised header is accepted by the validator, that a
  sealed message verifies, and that a corrupted frame does not.
\<close>

section \<open>Constants and types\<close>

definition PROTOCOL_MAGIC :: u32 where
  "PROTOCOL_MAGIC = 0xD15C0000"

definition PROTOCOL_VERSION :: u16 where
  "PROTOCOL_VERSION = 0x0101"

definition MESSAGE_HEADER_SIZE :: nat where
  "MESSAGE_HEADER_SIZE = 32"

definition PROTOCOL_MAX_PAYLOAD_SIZE :: u32 where
  "PROTOCOL_MAX_PAYLOAD_SIZE = 64 * 1024 * 1024"

datatype message_type =
    MSG_RAFT_REQUEST_VOTE
  | MSG_RAFT_VOTE_RESPONSE
  | MSG_RAFT_APPEND_ENTRIES
  | MSG_RAFT_APPEND_RESPONSE
  | MSG_RAFT_INSTALL_SNAPSHOT
  | MSG_RAFT_SNAPSHOT_RESPONSE
  | MSG_GOSSIP_PING
  | MSG_GOSSIP_ACK
  | MSG_GOSSIP_PING_REQ
  | MSG_GOSSIP_MEMBERSHIP_UPDATE
  | MSG_TASK_ASSIGNMENT
  | MSG_TASK_RESULT
  | MSG_TASK_STATUS
  | MSG_CLIENT_SUBMIT
  | MSG_CLIENT_RESPONSE
  | MSG_CLIENT_QUERY
  | MSG_CLIENT_ERROR
  | MSG_CAPABILITY

text \<open>The enumeration values, as the cast \<^verbatim>\<open>(uint16_t)msg_type\<close> stores them.\<close>

fun msg_type_code :: "message_type \<Rightarrow> u16" where
  "msg_type_code MSG_RAFT_REQUEST_VOTE = 0x1001"
| "msg_type_code MSG_RAFT_VOTE_RESPONSE = 0x1002"
| "msg_type_code MSG_RAFT_APPEND_ENTRIES = 0x1003"
| "msg_type_code MSG_RAFT_APPEND_RESPONSE = 0x1004"
| "msg_type_code MSG_RAFT_INSTALL_SNAPSHOT = 0x1005"
| "msg_type_code MSG_RAFT_SNAPSHOT_RESPONSE = 0x1006"
| "msg_type_code MSG_GOSSIP_PING = 0x2001"
| "msg_type_code MSG_GOSSIP_ACK = 0x2002"
| "msg_type_code MSG_GOSSIP_PING_REQ = 0x2003"
| "msg_type_code MSG_GOSSIP_MEMBERSHIP_UPDATE = 0x2004"
| "msg_type_code MSG_TASK_ASSIGNMENT = 0x3001"
| "msg_type_code MSG_TASK_RESULT = 0x3002"
| "msg_type_code MSG_TASK_STATUS = 0x3003"
| "msg_type_code MSG_CLIENT_SUBMIT = 0x4001"
| "msg_type_code MSG_CLIENT_RESPONSE = 0x4002"
| "msg_type_code MSG_CLIENT_QUERY = 0x4003"
| "msg_type_code MSG_CLIENT_ERROR = 0x4004"
| "msg_type_code MSG_CAPABILITY = 0x4F01"

definition MSG_FLAG_NONE :: u16 where
  "MSG_FLAG_NONE = 0x0000"

record message_header =
  h_magic :: u32
  h_version :: u16
  h_msg_type :: u16
  h_flags :: u16
  h_reserved :: u16
  h_payload_len :: u32
  h_message_id :: u64
  h_timestamp_s :: u32
  h_crc32 :: u32

text \<open>What one \<^verbatim>\<open>clock_gettime(CLOCK_REALTIME)\<close> call returns.\<close>

record timespec =
  tv_sec :: u64
  tv_nsec :: u64

section \<open>Message ids and initialisation\<close>

definition get_timestamp_us :: "timespec \<Rightarrow> u64" where
  "get_timestamp_us ts = tv_sec ts * 1000000 + tv_nsec ts div 1000"

definition get_timestamp_s :: "timespec \<Rightarrow> u32" where
  "get_timestamp_s ts = ucast (tv_sec ts)"

text \<open>The counter is \<^verbatim>\<open>message_id_counter\<close>; the second component is its new value.\<close>

definition generate_message_id :: "timespec \<Rightarrow> u64 \<Rightarrow> u64 \<times> u64" where
  "generate_message_id now counter =
     (let ts = get_timestamp_us now div 1000000
      in (push_bit 32 ts OR (counter AND 0xFFFFFFFF), counter + 1))"

text \<open>The message type is the enumeration value, \<^verbatim>\<open>(uint16_t)msg_type\<close>.\<close>

definition message_header_init ::
  "timespec \<Rightarrow> timespec \<Rightarrow> u64 \<Rightarrow> u16 \<Rightarrow> u32 \<Rightarrow> (message_header \<times> u64) result" where
  "message_header_init now1 now2 counter mt plen =
     (if plen > PROTOCOL_MAX_PAYLOAD_SIZE then Inl DISTRIC_ERR_INVALID_ARG
      else let (mid, counter') = generate_message_id now1 counter
        in Inr (\<lparr>h_magic = PROTOCOL_MAGIC, h_version = PROTOCOL_VERSION,
                 h_msg_type = mt, h_flags = MSG_FLAG_NONE, h_reserved = 0,
                 h_payload_len = plen, h_message_id = mid,
                 h_timestamp_s = get_timestamp_s now2, h_crc32 = 0\<rparr>, counter'))"

section \<open>Serialisation\<close>

definition serialize_header :: "message_header \<Rightarrow> bytes" where
  "serialize_header h =
     be_bytes 4 (h_magic h) @ be_bytes 2 (h_version h) @ be_bytes 2 (h_msg_type h)
     @ be_bytes 2 (h_flags h) @ be_bytes 2 (h_reserved h) @ be_bytes 4 (h_payload_len h)
     @ be_bytes 8 (h_message_id h) @ be_bytes 4 (h_timestamp_s h) @ be_bytes 4 (h_crc32 h)"

text \<open>
  The caller supplies at least \<open>MESSAGE_HEADER_SIZE\<close> bytes, as the receive paths do; the
  function itself checks nothing and does not fail.
\<close>

definition deserialize_header :: "bytes \<Rightarrow> message_header" where
  "deserialize_header buf =
     \<lparr>h_magic = be_word (bslice 0 4 buf), h_version = be_word (bslice 4 2 buf),
      h_msg_type = be_word (bslice 6 2 buf), h_flags = be_word (bslice 8 2 buf),
      h_reserved = be_word (bslice 10 2 buf), h_payload_len = be_word (bslice 12 4 buf),
      h_message_id = be_word (bslice 16 8 buf), h_timestamp_s = be_word (bslice 24 4 buf),
      h_crc32 = be_word (bslice 28 4 buf)\<rparr>"

section \<open>Validation\<close>

definition validate_message_header :: "message_header \<Rightarrow> bool" where
  "validate_message_header h =
     (let our_major = (ucast (drop_bit 8 PROTOCOL_VERSION) :: u8);
          peer_major = (ucast (drop_bit 8 (h_version h)) :: u8)
      in if h_magic h \<noteq> PROTOCOL_MAGIC then False
         else if peer_major \<noteq> our_major then False
         else if h_msg_type h = 0 \<or> h_msg_type h > 0x4FFF then False
         else if h_payload_len h > PROTOCOL_MAX_PAYLOAD_SIZE then False
         else True)"

definition message_type_to_string :: "u16 \<Rightarrow> string" where
  "message_type_to_string c =
     (if c = msg_type_code MSG_RAFT_REQUEST_VOTE then ''RAFT_REQUEST_VOTE''
      else if c = msg_type_code MSG_RAFT_VOTE_RESPONSE then ''RAFT_VOTE_RESPONSE''
      else if c = msg_type_code MSG_RAFT_APPEND_ENTRIES then ''RAFT_APPEND_ENTRIES''
      else if c = msg_type_code MSG_RAFT_APPEND_RESPONSE then ''RAFT_APPEND_RESPONSE''
      else if c = msg_type_code MSG_RAFT_INSTALL_SNAPSHOT then ''RAFT_INSTALL_SNAPSHOT''
      else if c = msg_type_code MSG_RAFT_SNAPSHOT_RESPONSE then ''RAFT_SNAPSHOT_RESPONSE''
      else if c = msg_type_code MSG_GOSSIP_PING then ''GOSSIP_PING''
      else if c = msg_type_code MSG_GOSSIP_ACK then ''GOSSIP_ACK''
      else if c = msg_type_code MSG_GOSSIP_PING_REQ then ''GOSSIP_PING_REQ''
      else if c = msg_type_code MSG_GOSSIP_MEMBERSHIP_UPDATE then ''GOSSIP_MEMBERSHIP_UPDATE''
      else if c = msg_type_code MSG_TASK_ASSIGNMENT then ''TASK_ASSIGNMENT''
      else if c = msg_type_code MSG_TASK_RESULT then ''TASK_RESULT''
      else if c = msg_type_code MSG_TASK_STATUS then ''TASK_STATUS''
      else if c = msg_type_code MSG_CLIENT_SUBMIT then ''CLIENT_SUBMIT''
      else if c = msg_type_code MSG_CLIENT_RESPONSE then ''CLIENT_RESPONSE''
      else if c = msg_type_code MSG_CLIENT_QUERY then ''CLIENT_QUERY''
      else if c = msg_type_code MSG_CLIENT_ERROR then ''CLIENT_ERROR''
      else ''UNKNOWN'')"

section \<open>CRC over header and payload\<close>

text \<open>The payload pointer may be NULL (\<open>None\<close>); its length is a separate argument.\<close>

definition compute_header_crc32 ::
  "message_header \<Rightarrow> bytes option \<Rightarrow> nat \<Rightarrow> message_header result" where
  "compute_header_crc32 h payload plen =
     (if plen > 0 \<and> payload = None then Inl DISTRIC_ERR_INVALID_ARG
      else
        let h0 = h\<lparr>h_crc32 := 0\<rparr>;
            crc = compute_crc32_incremental (serialize_header h0) 0xFFFFFFFF;
            crc = (case payload of
                     None \<Rightarrow> crc
                   | Some p \<Rightarrow> if plen > 0 then compute_crc32_incremental (take plen p) crc
                              else crc)
        in Inr (h0\<lparr>h_crc32 := NOT crc\<rparr>))"

definition verify_message_crc32 :: "message_header \<Rightarrow> bytes option \<Rightarrow> nat \<Rightarrow> bool" where
  "verify_message_crc32 h payload plen =
     (case compute_header_crc32 h payload plen of
        Inl _ \<Rightarrow> False
      | Inr tmp \<Rightarrow> h_crc32 tmp = h_crc32 h)"

section \<open>Serialisation lemmas\<close>

lemma length_serialize_header [simp, wire_simps]:
  "length (serialize_header h) = MESSAGE_HEADER_SIZE"
  by (simp add: serialize_header_def MESSAGE_HEADER_SIZE_def)

lemma deserialize_serialize_header:
  "deserialize_header (serialize_header h @ rest) = h"
  by (simp add: deserialize_header_def serialize_header_def bslice_fields)

lemma serialize_deserialize_prefix:
  assumes "MESSAGE_HEADER_SIZE \<le> length buf"
  shows "serialize_header ((deserialize_header buf)\<lparr>h_crc32 := c\<rparr>)
    = take 28 buf @ be_bytes 4 c"
proof -
  have "serialize_header ((deserialize_header buf)\<lparr>h_crc32 := c\<rparr>)
      = bslice 0 4 buf @ bslice 4 2 buf @ bslice 6 2 buf @ bslice 8 2 buf @ bslice 10 2 buf
        @ bslice 12 4 buf @ bslice 16 8 buf @ bslice 24 4 buf @ be_bytes 4 c"
    using assms
    by (simp add: serialize_header_def deserialize_header_def be_bytes_bslice MESSAGE_HEADER_SIZE_def)
  also have "\<dots> = bslice 0 28 buf @ be_bytes 4 c"
    using bslice_append_bslice [of 0 4 buf 2, symmetric] bslice_append_bslice [of 0 6 buf 2, symmetric]
      bslice_append_bslice [of 0 8 buf 2, symmetric] bslice_append_bslice [of 0 10 buf 2, symmetric]
      bslice_append_bslice [of 0 12 buf 4, symmetric] bslice_append_bslice [of 0 16 buf 8, symmetric]
      bslice_append_bslice [of 0 24 buf 4, symmetric]
    by simp
  finally show ?thesis by (simp add: bslice_zero)
qed

section \<open>CRC lemmas\<close>

lemma compute_header_crc32_Inr:
  "compute_header_crc32 h (Some p) (length p)
     = Inr (h\<lparr>h_crc32 := NOT (compute_crc32_incremental
                (serialize_header (h\<lparr>h_crc32 := 0\<rparr>) @ p) 0xFFFFFFFF)\<rparr>)"
  by (cases "p = []")
    (simp_all add: compute_header_crc32_def Let_def compute_crc32_incremental_append)

lemma verify_message_crc32_iff:
  "verify_message_crc32 h (Some p) (length p) \<longleftrightarrow>
     h_crc32 h = NOT (compute_crc32_incremental
       (serialize_header (h\<lparr>h_crc32 := 0\<rparr>) @ p) 0xFFFFFFFF)"
  by (auto simp: verify_message_crc32_def compute_header_crc32_Inr)

text \<open>The digest of a whole frame: header with a zeroed checksum field, then the payload.\<close>

definition frame_digest :: "bytes \<Rightarrow> u32" where
  "frame_digest f
     = NOT (compute_crc32_incremental (take 28 f @ [0, 0, 0, 0] @ drop 32 f) 0xFFFFFFFF)"

text \<open>
  What the receivers in \<^verbatim>\<open>rpc.c\<close> make of the bytes of a stream: the first 32 are the header, its field
  \<^verbatim>\<open>payload_len\<close> says how many follow, and the checksum is computed over both.
\<close>

definition verify_frame :: "bytes \<Rightarrow> bool" where
  "verify_frame f =
     (let h = deserialize_header (take MESSAGE_HEADER_SIZE f);
          n = unat (h_payload_len h);
          p = take n (drop MESSAGE_HEADER_SIZE f)
      in length f \<ge> MESSAGE_HEADER_SIZE \<and> length p = n
         \<and> verify_message_crc32 h (if h_payload_len h > 0 then Some p else None) n)"

text \<open>The end of the frame that starts a stream.\<close>

definition frame_end :: "bytes \<Rightarrow> nat" where
  "frame_end f = MESSAGE_HEADER_SIZE + unat (be_word (bslice 12 4 f) :: u32)"

lemma be_bytes_4_zero: "be_bytes 4 (0 :: u32) = [0, 0, 0, 0]"
  by (simp add: numeral_eq_Suc)

lemma deserialize_header_take:
  "deserialize_header (take MESSAGE_HEADER_SIZE f) = deserialize_header f"
  by (simp add: deserialize_header_def MESSAGE_HEADER_SIZE_def bslice_inner)

lemma be_word_bslice_eq_iff:
  assumes "i + 4 \<le> length f"
  shows "be_word (bslice i 4 f) = (w :: u32) \<longleftrightarrow> bslice i 4 f = be_bytes 4 w"
proof
  assume "be_word (bslice i 4 f) = w"
  then show "bslice i 4 f = be_bytes 4 w"
    using be_bytes_bslice [of i 4 f, where ?'a = 32] assms by simp
qed simp

lemma verify_no_payload: "verify_message_crc32 h None 0 = verify_message_crc32 h (Some []) 0"
  by (simp add: verify_message_crc32_def compute_header_crc32_def)

lemma frame_end_header:
  "MESSAGE_HEADER_SIZE \<le> length f \<Longrightarrow> frame_end f = MESSAGE_HEADER_SIZE + unat (h_payload_len (deserialize_header f))"
  by (simp add: frame_end_def deserialize_header_def)

lemma verify_frame_iff:
  "verify_frame f \<longleftrightarrow> MESSAGE_HEADER_SIZE \<le> length f \<and> frame_end f \<le> length f
     \<and> bslice 28 4 f = be_bytes 4 (frame_digest (take (frame_end f) f))"
proof (cases "MESSAGE_HEADER_SIZE \<le> length f")
  case True
  let ?h = "deserialize_header f" and ?n = "unat (h_payload_len (deserialize_header f))"
  let ?p = "take ?n (drop MESSAGE_HEADER_SIZE f)"
  have crc: "h_crc32 ?h = w \<longleftrightarrow> bslice 28 4 f = be_bytes 4 w" for w
    using True be_word_bslice_eq_iff [of 28 f w]
    by (simp add: deserialize_header_def MESSAGE_HEADER_SIZE_def)
  have head: "serialize_header (?h\<lparr>h_crc32 := 0\<rparr>) = take 28 f @ [0, 0, 0, 0]"
    using serialize_deserialize_prefix [OF True] by (simp add: be_bytes_4_zero)
  have payload: "drop 32 (take (frame_end f) f) = ?p"
    using frame_end_header [OF True] by (simp add: MESSAGE_HEADER_SIZE_def drop_take)
  have cut: "take 28 (take (frame_end f) f) = take 28 f" by (simp add: frame_end_def MESSAGE_HEADER_SIZE_def)
  have opt: "(if h_payload_len ?h > 0 then Some ?p else None) = Some ?p \<or> ?n = 0"
    by (simp add: word_less_nat_alt)
  have len: "length ?p = ?n \<longleftrightarrow> frame_end f \<le> length f"
    using True frame_end_header [OF True] by auto
  have "verify_message_crc32 ?h (if h_payload_len ?h > 0 then Some ?p else None) ?n = verify_message_crc32 ?h (Some ?p) ?n"
    using opt verify_no_payload [of ?h] by auto
  moreover have "verify_message_crc32 ?h (Some ?p) ?n \<longleftrightarrow> bslice 28 4 f = be_bytes 4 (frame_digest (take (frame_end f) f))"
    if l: "length ?p = ?n"
    using verify_message_crc32_iff [of ?h ?p] unfolding l crc head frame_digest_def payload cut by simp
  ultimately show ?thesis
    using True len by (auto simp: verify_frame_def Let_def deserialize_header_take)
qed (simp add: verify_frame_def)

lemma frame_digest_crc_window:
  "28 \<le> length xs \<Longrightarrow> length xs + length v \<le> 32 \<Longrightarrow> length v = length w \<Longrightarrow>
     frame_digest (xs @ v @ ys) = frame_digest (xs @ w @ ys)"
  by (simp add: frame_digest_def)

lemma not_inject_u32: "NOT (a :: u32) = NOT b \<longleftrightarrow> a = b"
  by (metis bit.double_compl)

lemma frame_digest_head_window:
  assumes "length xs + length v \<le> 28" "length v = length w" "length w \<le> 4" "v \<noteq> w"
  shows "frame_digest (xs @ v @ ys) \<noteq> frame_digest (xs @ w @ ys)"
proof -
  let ?r = "take (28 - length xs - length w) ys @ [0, 0, 0, 0] @ drop (32 - length xs - length w) ys"
  from crc32_incremental_burst [OF assms(2,3,4), of xs ?r "0xFFFFFFFF"] assms show ?thesis
    by (simp add: frame_digest_def not_inject_u32)
qed

lemma frame_digest_payload_window:
  assumes "32 \<le> length xs" "length v = length w" "length w \<le> 4" "v \<noteq> w"
  shows "frame_digest (xs @ v @ ys) \<noteq> frame_digest (xs @ w @ ys)"
  using crc32_incremental_burst [OF assms(2,3,4), of "take 28 xs @ [0, 0, 0, 0] @ drop 32 xs" ys
      "0xFFFFFFFF"] assms(1)
  by (simp add: frame_digest_def not_inject_u32)

lemma bslice_crc_outside:
  "length v = length w \<Longrightarrow> length xs + length v \<le> 28 \<or> 32 \<le> length xs \<Longrightarrow>
     bslice 28 4 (xs @ v @ ys) = bslice 28 4 (xs @ w @ ys)"
  by (auto simp: bslice_def)

lemma bslice_crc_inside:
  assumes "length v = length w" "28 \<le> length xs" "length xs + length w \<le> 32" "v \<noteq> w"
  shows "bslice 28 4 (xs @ v @ ys) \<noteq> bslice 28 4 (xs @ w @ ys)"
  using assms by (simp add: bslice_def)

section \<open>Message id lemmas\<close>

lemma and_0xFFFFFFFF: "(x :: u64) AND 0xFFFFFFFF = take_bit 32 x"
  by (simp add: take_bit_eq_mask mask_eq_exp_minus_1)

lemma message_id_low: "take_bit 32 (fst (generate_message_id now c)) = take_bit 32 c"
  unfolding generate_message_id_def Let_def fst_conv and_0xFFFFFFFF
  by (rule bit_word_eqI) (auto simp: bit_simps)

section \<open>Properties\<close>

text \<open>
  Header serialisation and deserialisation are inverse: decoding what was written gives the
  header back whatever follows it in the buffer, and every 32-byte buffer is the
  serialisation of the header it decodes to, so no bits are lost or normalised.
\<close>

lemma header_roundtrip:
  "deserialize_header (serialize_header h @ rest) = h \<and>
   (length buf = MESSAGE_HEADER_SIZE \<longrightarrow> serialize_header (deserialize_header buf) = buf)"
proof (intro conjI impI)
  show "deserialize_header (serialize_header h @ rest) = h"
    by (rule deserialize_serialize_header)
next
  assume len: "length buf = MESSAGE_HEADER_SIZE"
  let ?h = "deserialize_header buf"
  have "serialize_header (?h\<lparr>h_crc32 := h_crc32 ?h\<rparr>) = take 28 buf @ be_bytes 4 (h_crc32 ?h)"
    using len by (intro serialize_deserialize_prefix) simp
  also have "be_bytes 4 (h_crc32 ?h) = bslice 28 4 buf"
    using len by (simp add: deserialize_header_def be_bytes_bslice MESSAGE_HEADER_SIZE_def)
  also have "take 28 buf @ bslice 28 4 buf = buf"
    using len by (simp add: bslice_def MESSAGE_HEADER_SIZE_def)
  finally show "serialize_header ?h = buf" by simp
qed

lemma header_roundtrip_witness:
  "serialize_header (deserialize_header (replicate 32 7)) = replicate 32 7"
  using header_roundtrip [of undefined undefined "replicate 32 7"]
  by (simp add: MESSAGE_HEADER_SIZE_def)

text \<open>
  A header accepted by the initialiser is accepted by the receiver's validator, for every
  message type of the protocol, and an oversized payload is refused.
\<close>

lemma header_init_validates:
  "case message_header_init now1 now2 counter (msg_type_code mt) plen of
     Inl e \<Rightarrow> plen > PROTOCOL_MAX_PAYLOAD_SIZE \<and> e = DISTRIC_ERR_INVALID_ARG
   | Inr (h, counter') \<Rightarrow> validate_message_header h \<and> h_payload_len h = plen
       \<and> h_msg_type h = msg_type_code mt \<and> counter' = counter + 1"
  by (cases mt)
    (auto simp: message_header_init_def validate_message_header_def generate_message_id_def Let_def)

lemma validate_message_header_magic:
  assumes "validate_message_header h"
  shows "h_magic h = PROTOCOL_MAGIC" and "drop_bit 8 (h_version h) AND 0xFF = drop_bit 8 PROTOCOL_VERSION AND 0xFF"
proof -
  have "w AND 0xFF = take_bit 8 w" for w :: u16 by (simp add: take_bit_eq_mask mask_eq_exp_minus_1)
  moreover have "(ucast v :: u8) = ucast w \<longleftrightarrow> take_bit 8 v = take_bit 8 w" for v w :: u16
    by transfer (simp add: min_def)
  ultimately show "h_magic h = PROTOCOL_MAGIC" and "drop_bit 8 (h_version h) AND 0xFF = drop_bit 8 PROTOCOL_VERSION AND 0xFF"
    using assms by (auto simp: validate_message_header_def Let_def split: if_splits)
qed

text \<open>
  C9. Any corruption of an accepted frame that is confined to at most four consecutive bytes is rejected by the
  receiver, wherever the window lies in header or payload, unless it touches the length field (bytes 12 to 15,
  after which the receiver reads another number of bytes) or straddles the border of the checksum field.
\<close>

theorem frame_burst_rejected:
  assumes "verify_frame (xs @ v @ ys)" and "length xs + length v \<le> frame_end (xs @ v @ ys)"
    and "length v = length w" and "length w \<le> 4" and "v \<noteq> w"
    and "length xs + length w \<le> 12 \<or> 16 \<le> length xs"
    and "length xs + length w \<le> 28 \<or> 28 \<le> length xs \<and> length xs + length w \<le> 32 \<or> 32 \<le> length xs"
  shows "\<not> verify_frame (xs @ w @ ys)"
proof
  assume bad: "verify_frame (xs @ w @ ys)"
  have same: "frame_end (xs @ w @ ys) = frame_end (xs @ v @ ys)"
    using assms(3,6) by (auto simp: frame_end_def bslice_def)
  define zs where "zs = take (frame_end (xs @ v @ ys) - (length xs + length v)) ys"
  have cut: "take (frame_end (xs @ v @ ys)) (xs @ v @ ys) = xs @ v @ zs"
    "take (frame_end (xs @ v @ ys)) (xs @ w @ ys) = xs @ w @ zs"
    using assms(2,3) by (simp_all add: zs_def)
  have slice: "bslice 28 4 (xs @ u @ ys) = bslice 28 4 (xs @ u @ zs)" if "length u = length v" for u
  proof -
    have "bslice 28 4 (take (frame_end (xs @ v @ ys)) (xs @ u @ ys)) = bslice 28 4 (xs @ u @ ys)"
      by (rule bslice_inner) (simp add: frame_end_def MESSAGE_HEADER_SIZE_def)
    moreover have "take (frame_end (xs @ v @ ys)) (xs @ u @ ys) = xs @ u @ zs" using assms(2) that by (simp add: zs_def)
    ultimately show ?thesis by simp
  qed
  have w: "bslice 28 4 (xs @ w @ zs) = be_bytes 4 (frame_digest (xs @ w @ zs))"
    using bad slice [of w] assms(3) unfolding verify_frame_iff same cut by simp
  have v: "bslice 28 4 (xs @ v @ zs) = be_bytes 4 (frame_digest (xs @ v @ zs))"
    using assms(1) slice [of v] unfolding verify_frame_iff cut by simp
  from assms(7) show False
  proof (elim disjE)
    assume c: "length xs + length w \<le> 28"
    then have "frame_digest (xs @ v @ zs) = frame_digest (xs @ w @ zs)"
      using v w bslice_crc_outside [of v w xs zs] assms(3) be_bytes_inj [of 4, where ?'a = 32] by simp
    with frame_digest_head_window [of xs v w zs] c assms(3-5) show False by simp
  next
    assume c: "28 \<le> length xs \<and> length xs + length w \<le> 32"
    then have "bslice 28 4 (xs @ v @ zs) = bslice 28 4 (xs @ w @ zs)"
      using v w frame_digest_crc_window [of xs v w zs] assms(3) by simp
    with bslice_crc_inside [of v w xs zs] c assms(3-5) show False by simp
  next
    assume c: "32 \<le> length xs"
    then have "frame_digest (xs @ v @ zs) = frame_digest (xs @ w @ zs)"
      using v w bslice_crc_outside [of v w xs zs] assms(3) be_bytes_inj [of 4, where ?'a = 32] by simp
    with frame_digest_payload_window [of xs v w zs] c assms(3-5) show False by simp
  qed
qed

lemma verify_frame_sealed:
  assumes "compute_header_crc32 h (Some p) (length p) = Inr h'" and "unat (h_payload_len h) = length p"
  shows "verify_frame (serialize_header h' @ p @ rest)"
proof -
  have h': "h_payload_len h' = h_payload_len h" "verify_message_crc32 h' (Some p) (length p)"
    using assms(1) by (auto simp: compute_header_crc32_Inr verify_message_crc32_iff)
  have ok: "verify_message_crc32 h' (if h_payload_len h' > 0 then Some p else None) (length p)"
  proof (cases "h_payload_len h' > 0")
    case False
    then have "p = []" using h'(1) assms(2) by (simp add: word_less_nat_alt)
    then show ?thesis using h'(2) verify_no_payload [of h'] False by simp
  qed (use h'(2) in simp)
  have head: "deserialize_header (take MESSAGE_HEADER_SIZE (serialize_header h' @ p @ rest)) = h'"
    using deserialize_serialize_header [of h' "[]"] by (simp add: MESSAGE_HEADER_SIZE_def)
  show ?thesis
    unfolding verify_frame_def head Let_def
    using ok h'(1) assms(2) by (cases "0 < h_payload_len h") (simp_all add: MESSAGE_HEADER_SIZE_def)
qed

definition sample_header :: message_header where
  "sample_header = \<lparr>h_magic = PROTOCOL_MAGIC, h_version = PROTOCOL_VERSION,
     h_msg_type = msg_type_code MSG_GOSSIP_PING, h_flags = MSG_FLAG_NONE, h_reserved = 0,
     h_payload_len = 1, h_message_id = 1, h_timestamp_s = 5, h_crc32 = 0x2a\<rparr>"

theorem frame_burst_rejected_witness:
  "case compute_header_crc32 sample_header (Some [7]) 1 of
     Inl _ \<Rightarrow> False | Inr h \<Rightarrow> \<not> verify_frame (serialize_header h @ [8])"
proof -
  obtain h where h: "compute_header_crc32 sample_header (Some [7]) (length [7 :: u8]) = Inr h"
    using compute_header_crc32_Inr by blast
  have ok: "verify_frame (serialize_header h @ [7] @ [])"
    by (rule verify_frame_sealed [OF h]) (simp add: sample_header_def)
  have "h_payload_len h = 1" using h by (auto simp: compute_header_crc32_def sample_header_def Let_def)
  then have "frame_end (serialize_header h @ [7] @ []) = 33"
    using deserialize_serialize_header [of h "[7]"]
    by (subst frame_end_header) (simp_all add: MESSAGE_HEADER_SIZE_def)
  then have "\<not> verify_frame (serialize_header h @ [8] @ [])"
    by (intro frame_burst_rejected [OF ok]) (simp_all add: MESSAGE_HEADER_SIZE_def)
  with h show ?thesis by simp
qed

text \<open>
  A sealed message verifies after transmission: computing the checksum, writing the header, appending the
  payload and running the receive-side check succeeds whatever follows, and the header the receiver decodes is
  the sealed one.
\<close>

lemma sealed_frame_verifies:
  assumes "unat (h_payload_len h) = length p"
  shows "\<exists>h'. compute_header_crc32 h (Some p) (length p) = Inr h'
      \<and> verify_frame (serialize_header h' @ p @ rest)
      \<and> deserialize_header (serialize_header h' @ p @ rest) = h'
      \<and> h'\<lparr>h_crc32 := 0\<rparr> = h\<lparr>h_crc32 := 0\<rparr>"
  using verify_frame_sealed [OF compute_header_crc32_Inr, of h p] assms
  by (auto simp: compute_header_crc32_Inr deserialize_serialize_header)

text \<open>
  Message ids do not repeat: two ids generated in one process differ whenever fewer than
  \<open>2 ^ 32\<close> ids lie between them, whatever the clock does in the meantime.
\<close>

lemma message_ids_distinct:
  assumes "0 < k" and "k < 2 ^ 32"
  shows "fst (generate_message_id now counter) \<noteq> fst (generate_message_id now' (counter + of_nat k))"
proof
  assume eq: "fst (generate_message_id now counter) = fst (generate_message_id now' (counter + of_nat k))"
  have "take_bit 32 counter = take_bit 32 (counter + of_nat k)"
    using arg_cong [OF eq, of "take_bit 32"] by (simp only: message_id_low)
  then have "take_bit 32 (uint counter) = take_bit 32 (uint (counter + of_nat k))"
    by (metis unsigned_take_bit_eq)
  also have "counter + of_nat k = word_of_int (uint counter + int k)"
    by simp
  also have "take_bit 32 (uint \<dots>) = take_bit 32 (uint counter + int k)"
    unfolding uint_word_of_int_eq by simp
  finally have "uint counter mod 2 ^ 32 = (uint counter + int k) mod 2 ^ 32"
    by (simp only: take_bit_eq_mod)
  then have "2 ^ 32 dvd int k"
    by (metis add_diff_cancel_left' mod_eq_dvd_iff)
  with assms show False
    by (metis int_dvd_int_iff nat_dvd_not_less of_nat_numeral of_nat_power)
qed

lemma message_ids_distinct_witness:
  "fst (generate_message_id \<lparr>tv_sec = 9, tv_nsec = 0\<rparr> 0)
     \<noteq> fst (generate_message_id \<lparr>tv_sec = 3, tv_nsec = 5\<rparr> (0 + of_nat 4))"
  by (rule message_ids_distinct) simp_all

end
