(* ===== verification/Tlv.thy ===== *)
theory Tlv
  imports Wire
begin

unbundle bit_operations_syntax

text \<open>
  The TLV layer (\<^verbatim>\<open>libs/distric_protocol/src/tlv.c\<close>): the growing encoder, the bounded
  decoder with its resource limits, linear and indexed lookup, the value extractors and the
  structural validator. The lemmas show that every decoded field lies inside the buffer, that
  the decode loops terminate, that encoding a sequence of fields and decoding it gives the
  sequence back, that the validator accepts exactly the concatenations of encoded fields, and
  that the indexed lookup finds what the linear scan finds.
\<close>

section \<open>Constants and types\<close>

definition TLV_MAX_FIELD_SIZE :: nat where
  "TLV_MAX_FIELD_SIZE = 16 * 1024 * 1024"

definition TLV_HEADER_SIZE :: nat where
  "TLV_HEADER_SIZE = 7"

text \<open>
  The type codes. A decoder casts any byte to \<^verbatim>\<open>tlv_type_t\<close>, so a type is a byte here.
\<close>

definition TLV_UINT8 :: u8 where "TLV_UINT8 = 0x01"
definition TLV_UINT16 :: u8 where "TLV_UINT16 = 0x02"
definition TLV_UINT32 :: u8 where "TLV_UINT32 = 0x03"
definition TLV_UINT64 :: u8 where "TLV_UINT64 = 0x04"
definition TLV_INT8 :: u8 where "TLV_INT8 = 0x05"
definition TLV_INT16 :: u8 where "TLV_INT16 = 0x06"
definition TLV_INT32 :: u8 where "TLV_INT32 = 0x07"
definition TLV_INT64 :: u8 where "TLV_INT64 = 0x08"
definition TLV_FLOAT :: u8 where "TLV_FLOAT = 0x09"
definition TLV_DOUBLE :: u8 where "TLV_DOUBLE = 0x0A"
definition TLV_BOOL :: u8 where "TLV_BOOL = 0x0B"
definition TLV_STRING :: u8 where "TLV_STRING = 0x10"
definition TLV_BYTES :: u8 where "TLV_BYTES = 0x11"
definition TLV_ARRAY :: u8 where "TLV_ARRAY = 0x20"
definition TLV_MAP :: u8 where "TLV_MAP = 0x21"

lemmas tlv_type_defs =
  TLV_UINT8_def TLV_UINT16_def TLV_UINT32_def TLV_UINT64_def TLV_INT8_def TLV_INT16_def
  TLV_INT32_def TLV_INT64_def TLV_FLOAT_def TLV_DOUBLE_def TLV_BOOL_def TLV_STRING_def
  TLV_BYTES_def TLV_ARRAY_def TLV_MAP_def

text \<open>
  The encoder's \<^verbatim>\<open>buffer\<close> is modelled by its first \<^verbatim>\<open>offset\<close> bytes: the bytes beyond are
  never read. After \<^verbatim>\<open>tlv_encoder_detach\<close> the capacity is 0.
\<close>

record tlv_encoder =
  enc_buffer :: bytes
  enc_capacity :: nat

record protocol_limits =
  max_fields :: u32
  max_string_len :: u32
  max_total_alloc :: u32
  max_nesting :: u32

text \<open>
  \<open>dec_buffer\<close> is what can be read through the decoder's buffer pointer; the decoder works on
  its first \<open>dec_length\<close> bytes (a nested decoder runs on a part of an outer buffer).
\<close>

record tlv_decoder =
  dec_buffer :: bytes
  dec_length :: nat
  dec_offset :: nat
  dec_max_fields :: u32
  dec_max_string_len :: u32
  dec_fields_decoded :: u32
  dec_index :: "(u16 \<times> nat) list option"

text \<open>
  A borrowed field. \<^verbatim>\<open>value\<close> is a pointer into the decoder's buffer; it is modelled by what
  can be read through it, the suffix of the buffer that starts there (a string extractor reads
  up to a NUL, whatever the field's length).
\<close>

record tlv_field =
  f_type :: u8
  f_tag :: u16
  f_length :: u32
  f_value :: bytes

section \<open>Wire header\<close>

definition write_tlv_header :: "u8 \<Rightarrow> u16 \<Rightarrow> u32 \<Rightarrow> bytes" where
  "write_tlv_header ty tag len = [ty] @ be_bytes 2 tag @ be_bytes 4 len"

definition read_tlv_header :: "bytes \<Rightarrow> u8 \<times> u16 \<times> u32" where
  "read_tlv_header buf = (buf ! 0, be_word (bslice 1 2 buf), be_word (bslice 3 4 buf))"

section \<open>Encoder\<close>

definition tlv_encoder_create :: "nat \<Rightarrow> tlv_encoder" where
  "tlv_encoder_create initial_capacity =
     \<lparr>enc_buffer = [], enc_capacity = (if initial_capacity = 0 then 256 else initial_capacity)\<rparr>"

definition tlv_encoder_size :: "tlv_encoder \<Rightarrow> nat" where
  "tlv_encoder_size enc = length (enc_buffer enc)"

definition tlv_encoder_reset :: "tlv_encoder \<Rightarrow> tlv_encoder" where
  "tlv_encoder_reset enc = enc\<lparr>enc_buffer := []\<rparr>"

text \<open>The doubling loop of \<^verbatim>\<open>ensure_capacity\<close>; it is entered with a positive capacity.\<close>

function grow_capacity :: "nat \<Rightarrow> nat \<Rightarrow> nat" where
  "grow_capacity new_cap need =
     (if new_cap = 0 \<or> need \<le> new_cap then new_cap else grow_capacity (new_cap * 2) need)"
  by pat_completeness auto
termination by (relation "measure (\<lambda>(c, n). n - c)") auto

declare grow_capacity.simps [simp del]

definition ensure_capacity :: "tlv_encoder \<Rightarrow> nat \<Rightarrow> tlv_encoder" where
  "ensure_capacity enc required =
     (if length (enc_buffer enc) + required \<le> enc_capacity enc then enc
      else let new_cap = (if enc_capacity enc \<noteq> 0 then enc_capacity enc else 256)
        in enc\<lparr>enc_capacity := grow_capacity new_cap (length (enc_buffer enc) + required)\<rparr>)"

text \<open>\<open>data\<close> is a nullable pointer with a separate length.\<close>

definition tlv_encode_raw ::
  "tlv_encoder \<Rightarrow> u8 \<Rightarrow> u16 \<Rightarrow> bytes option \<Rightarrow> nat \<Rightarrow> tlv_encoder result" where
  "tlv_encode_raw enc ty tag data len =
     (if len > 0 \<and> data = None then Inl DISTRIC_ERR_INVALID_ARG
      else if len > TLV_MAX_FIELD_SIZE then Inl DISTRIC_ERR_INVALID_ARG
      else let enc = ensure_capacity enc (TLV_HEADER_SIZE + len);
               enc = enc\<lparr>enc_buffer := enc_buffer enc @ write_tlv_header ty tag (of_nat len)\<rparr>
        in Inr (if len > 0 then enc\<lparr>enc_buffer := enc_buffer enc @ take len (the data)\<rparr>
                else enc))"

definition tlv_encode_uint8 :: "tlv_encoder \<Rightarrow> u16 \<Rightarrow> u8 \<Rightarrow> tlv_encoder result" where
  "tlv_encode_uint8 enc tag v = tlv_encode_raw enc TLV_UINT8 tag (Some [v]) 1"

definition tlv_encode_uint16 :: "tlv_encoder \<Rightarrow> u16 \<Rightarrow> u16 \<Rightarrow> tlv_encoder result" where
  "tlv_encode_uint16 enc tag v = tlv_encode_raw enc TLV_UINT16 tag (Some (be_bytes 2 v)) 2"

definition tlv_encode_uint32 :: "tlv_encoder \<Rightarrow> u16 \<Rightarrow> u32 \<Rightarrow> tlv_encoder result" where
  "tlv_encode_uint32 enc tag v = tlv_encode_raw enc TLV_UINT32 tag (Some (be_bytes 4 v)) 4"

definition tlv_encode_uint64 :: "tlv_encoder \<Rightarrow> u16 \<Rightarrow> u64 \<Rightarrow> tlv_encoder result" where
  "tlv_encode_uint64 enc tag v = tlv_encode_raw enc TLV_UINT64 tag (Some (be_bytes 8 v)) 8"

text \<open>Signed values are kept as their two's complement words and read with \<open>sint\<close>.\<close>

definition tlv_encode_int32 :: "tlv_encoder \<Rightarrow> u16 \<Rightarrow> 32 word \<Rightarrow> tlv_encoder result" where
  "tlv_encode_int32 enc tag v = tlv_encode_raw enc TLV_INT32 tag (Some (be_bytes 4 v)) 4"

definition tlv_encode_int64 :: "tlv_encoder \<Rightarrow> u16 \<Rightarrow> 64 word \<Rightarrow> tlv_encoder result" where
  "tlv_encode_int64 enc tag v = tlv_encode_raw enc TLV_INT64 tag (Some (be_bytes 8 v)) 8"

definition tlv_encode_bool :: "tlv_encoder \<Rightarrow> u16 \<Rightarrow> bool \<Rightarrow> tlv_encoder result" where
  "tlv_encode_bool enc tag v = tlv_encode_raw enc TLV_BOOL tag (Some [if v then 1 else 0]) 1"

text \<open>\<open>str\<close> is the string before its NUL; \<open>strlen\<close> is its length, and the NUL is sent.\<close>

definition tlv_encode_string :: "tlv_encoder \<Rightarrow> u16 \<Rightarrow> cstr option \<Rightarrow> tlv_encoder result" where
  "tlv_encode_string enc tag str =
     (case str of
        None \<Rightarrow> Inl DISTRIC_ERR_INVALID_ARG
      | Some s \<Rightarrow>
          let len = length s
          in if len \<ge> TLV_MAX_FIELD_SIZE then Inl DISTRIC_ERR_INVALID_ARG
             else tlv_encode_raw enc TLV_STRING tag (Some (s @ [0])) (len + 1))"

definition tlv_encode_bytes ::
  "tlv_encoder \<Rightarrow> u16 \<Rightarrow> bytes option \<Rightarrow> nat \<Rightarrow> tlv_encoder result" where
  "tlv_encode_bytes enc tag data len = tlv_encode_raw enc TLV_BYTES tag data len"

text \<open>\<^verbatim>\<open>tlv_encoder_finalize\<close> keeps the buffer, \<^verbatim>\<open>tlv_encoder_detach\<close> hands it over.\<close>

definition tlv_encoder_finalize :: "tlv_encoder \<Rightarrow> bytes" where
  "tlv_encoder_finalize enc = enc_buffer enc"

definition tlv_encoder_detach :: "tlv_encoder \<Rightarrow> bytes \<times> tlv_encoder" where
  "tlv_encoder_detach enc = (enc_buffer enc, \<lparr>enc_buffer = [], enc_capacity = 0\<rparr>)"

section \<open>Decoder\<close>

definition protocol_limits_max_fields :: "protocol_limits option \<Rightarrow> u32" where
  "protocol_limits_max_fields l =
     (case l of Some l \<Rightarrow> if max_fields l \<noteq> 0 then max_fields l else 512 | None \<Rightarrow> 512)"

definition protocol_limits_max_string :: "protocol_limits option \<Rightarrow> u32" where
  "protocol_limits_max_string l =
     (case l of Some l \<Rightarrow> if max_string_len l \<noteq> 0 then max_string_len l else push_bit 20 1
      | None \<Rightarrow> push_bit 20 1)"

definition protocol_limits_max_alloc :: "protocol_limits option \<Rightarrow> u32" where
  "protocol_limits_max_alloc l =
     (case l of Some l \<Rightarrow> if max_total_alloc l \<noteq> 0 then max_total_alloc l else push_bit 20 16
      | None \<Rightarrow> push_bit 20 16)"

text \<open>\<open>None\<close> is the NULL that the constructor returns for an empty buffer.\<close>

definition tlv_decoder_create_with_limits ::
  "bytes \<Rightarrow> nat \<Rightarrow> protocol_limits option \<Rightarrow> tlv_decoder option" where
  "tlv_decoder_create_with_limits buffer len limits =
     (if len = 0 then None
      else Some \<lparr>dec_buffer = buffer, dec_length = len, dec_offset = 0,
                 dec_max_fields = protocol_limits_max_fields limits,
                 dec_max_string_len = protocol_limits_max_string limits,
                 dec_fields_decoded = 0, dec_index = None\<rparr>)"

definition tlv_decoder_create :: "bytes \<Rightarrow> nat \<Rightarrow> tlv_decoder option" where
  "tlv_decoder_create buffer len = tlv_decoder_create_with_limits buffer len None"

definition tlv_decoder_position :: "tlv_decoder \<Rightarrow> nat" where
  "tlv_decoder_position d = dec_offset d"

definition tlv_decoder_has_more :: "tlv_decoder \<Rightarrow> bool" where
  "tlv_decoder_has_more d \<longleftrightarrow> dec_offset d + TLV_HEADER_SIZE \<le> dec_length d"

definition tlv_decoder_reset :: "tlv_decoder \<Rightarrow> tlv_decoder" where
  "tlv_decoder_reset d = d\<lparr>dec_offset := 0, dec_fields_decoded := 0\<rparr>"

text \<open>
  The core step: the new decoder, type, tag, length and the offset of the value. The
  diagnostics written by \<^verbatim>\<open>distric_set_error_info\<close> are left out.
\<close>

definition decode_next_internal ::
  "tlv_decoder \<Rightarrow> (tlv_decoder \<times> u8 \<times> u16 \<times> u32 \<times> nat) result" where
  "decode_next_internal d =
     (let len = dec_length d; off = dec_offset d
      in if off \<ge> len then Inl DISTRIC_ERR_EOF
         else if off + TLV_HEADER_SIZE > len then Inl DISTRIC_ERR_INVALID_FORMAT
         else if dec_max_fields d > 0 \<and> dec_fields_decoded d \<ge> dec_max_fields d
           then Inl DISTRIC_ERR_INVALID_FORMAT
         else
           let (ty, tag, flen) = read_tlv_header (drop off (dec_buffer d))
           in if unat flen > TLV_MAX_FIELD_SIZE then Inl DISTRIC_ERR_INVALID_FORMAT
              else if dec_max_string_len d > 0 \<and> (ty = TLV_STRING \<or> ty = TLV_BYTES)
                      \<and> flen > dec_max_string_len d
                then Inl DISTRIC_ERR_INVALID_FORMAT
              else if unat flen > len - off - TLV_HEADER_SIZE
                then Inl DISTRIC_ERR_INVALID_FORMAT
              else Inr (d\<lparr>dec_offset := off + TLV_HEADER_SIZE + unat flen,
                          dec_fields_decoded := dec_fields_decoded d + 1\<rparr>,
                        ty, tag, flen, off + TLV_HEADER_SIZE))"

definition tlv_decode_next :: "tlv_decoder \<Rightarrow> (tlv_decoder \<times> tlv_field) result" where
  "tlv_decode_next d =
     (case decode_next_internal d of
        Inl e \<Rightarrow> Inl e
      | Inr (d', ty, tag, flen, voff) \<Rightarrow>
          Inr (d', \<lparr>f_type = ty, f_tag = tag, f_length = flen, f_value = drop voff (dec_buffer d)\<rparr>))"

text \<open>The owned variant copies exactly \<^verbatim>\<open>length\<close> bytes (NULL, here \<open>[]\<close>, for length 0).\<close>

definition tlv_decode_next_owned :: "tlv_decoder \<Rightarrow> (tlv_decoder \<times> tlv_field) result" where
  "tlv_decode_next_owned d =
     (case decode_next_internal d of
        Inl e \<Rightarrow> Inl e
      | Inr (d', ty, tag, flen, voff) \<Rightarrow>
          Inr (d', \<lparr>f_type = ty, f_tag = tag, f_length = flen,
                    f_value = (if flen > 0 then bslice voff (unat flen) (dec_buffer d) else [])\<rparr>))"

lemma decode_next_internal_Inr:
  assumes "decode_next_internal d = Inr (d', ty, tag, flen, voff)"
  shows "voff = dec_offset d + TLV_HEADER_SIZE"
    and "dec_offset d' = dec_offset d + TLV_HEADER_SIZE + unat flen"
    and "dec_offset d' \<le> dec_length d"
    and "dec_buffer d' = dec_buffer d"
    and "dec_length d' = dec_length d"
    and "dec_offset d < dec_offset d'"
  using assms
  by (auto simp: decode_next_internal_def Let_def TLV_HEADER_SIZE_def split: prod.splits if_splits)

lemma tlv_decode_next_Inr:
  assumes "tlv_decode_next d = Inr (d', f)"
  shows "dec_buffer d' = dec_buffer d"
    and "dec_length d' = dec_length d"
    and "f_value f = drop (dec_offset d + TLV_HEADER_SIZE) (dec_buffer d)"
    and "dec_offset d' = dec_offset d + TLV_HEADER_SIZE + unat (f_length f)"
    and "dec_offset d' \<le> dec_length d"
  using assms
  by (auto simp: tlv_decode_next_def split: sum.splits prod.splits dest: decode_next_internal_Inr)

definition dec_remaining :: "tlv_decoder \<Rightarrow> nat" where
  "dec_remaining d = dec_length d - dec_offset d"

lemma tlv_decode_next_decreases [simp]:
  "tlv_decode_next d = Inr (d', f) \<Longrightarrow> dec_remaining d' < dec_remaining d"
  using tlv_decode_next_Inr [of d d' f] by (auto simp: dec_remaining_def TLV_HEADER_SIZE_def)

text \<open>
  The loop \<^verbatim>\<open>while (tlv_decode_next(dec, &field) == DISTRIC_OK)\<close> of the message decoders: the
  fields it delivers, in order.
\<close>

function tlv_decode_all :: "tlv_decoder \<Rightarrow> tlv_field list" where
  "tlv_decode_all d =
     (case tlv_decode_next d of Inl _ \<Rightarrow> [] | Inr (d', f) \<Rightarrow> f # tlv_decode_all d')"
  by pat_completeness auto
termination by (relation "measure dec_remaining") auto

function tlv_find_field :: "tlv_decoder \<Rightarrow> u16 \<Rightarrow> tlv_decoder \<times> tlv_field result" where
  "tlv_find_field d tag =
     (case tlv_decode_next d of
        Inl _ \<Rightarrow> (d, Inl DISTRIC_ERR_NOT_FOUND)
      | Inr (d', f) \<Rightarrow> if f_tag f = tag then (d', Inr f) else tlv_find_field d' tag)"
  by pat_completeness auto
termination by (relation "measure (\<lambda>(d, t). dec_remaining d)") auto

declare tlv_decode_all.simps [simp del] tlv_find_field.simps [simp del]

definition tlv_skip_field :: "tlv_decoder \<Rightarrow> tlv_decoder result" where
  "tlv_skip_field d = (case tlv_decode_next d of Inl e \<Rightarrow> Inl e | Inr (d', _) \<Rightarrow> Inr d')"

section \<open>Indexed decoder\<close>

text \<open>
  The scan of \<^verbatim>\<open>tlv_decoder_build_index\<close>; \<open>index_size\<close> is the number of entries so far. The
  growth of the index array has no effect on its contents.
\<close>

function build_index_loop ::
  "bytes \<Rightarrow> nat \<Rightarrow> u32 \<Rightarrow> nat \<Rightarrow> u32 \<Rightarrow> (u16 \<times> nat) list" where
  "build_index_loop buf len maxf off index_size =
     (if off + TLV_HEADER_SIZE \<le> len then
        if maxf > 0 \<and> index_size \<ge> maxf then []
        else let (ty, tag, flen) = read_tlv_header (drop off buf)
          in if unat flen > TLV_MAX_FIELD_SIZE then []
             else if unat flen > len - off - TLV_HEADER_SIZE then []
             else (tag, off)
                  # build_index_loop buf len maxf (off + TLV_HEADER_SIZE + unat flen) (index_size + 1)
      else [])"
  by pat_completeness auto
termination
  by (relation "measure (\<lambda>(buf, len, m, off, s). len - off)") (auto simp: TLV_HEADER_SIZE_def)

declare build_index_loop.simps [simp del]

text \<open>\<^verbatim>\<open>qsort\<close> with \<^verbatim>\<open>idx_cmp\<close> sorts by tag; \<open>sort_key\<close> is the stable such order.\<close>

definition tlv_decoder_build_index :: "tlv_decoder \<Rightarrow> tlv_decoder" where
  "tlv_decoder_build_index d =
     (let idx = build_index_loop (dec_buffer d) (dec_length d) (dec_max_fields d) 0 0
      in tlv_decoder_reset (d\<lparr>dec_index := Some (sort_key fst idx)\<rparr>))"

text \<open>\<^verbatim>\<open>bsearch\<close> on the half-open range from \<open>lo\<close> to \<open>hi\<close>.\<close>

function bsearch :: "u16 \<Rightarrow> (u16 \<times> nat) list \<Rightarrow> nat \<Rightarrow> nat \<Rightarrow> (u16 \<times> nat) option" where
  "bsearch key idx lo hi =
     (if lo < hi then
        let mid = (lo + hi) div 2
        in if key < fst (idx ! mid) then bsearch key idx lo mid
           else if key > fst (idx ! mid) then bsearch key idx (mid + 1) hi
           else Some (idx ! mid)
      else None)"
  by pat_completeness auto
termination by (relation "measure (\<lambda>(k, i, lo, hi). hi - lo)") auto

declare bsearch.simps [simp del]

definition tlv_decoder_find_indexed :: "tlv_decoder \<Rightarrow> u16 \<Rightarrow> tlv_field result" where
  "tlv_decoder_find_indexed d tag =
     (case dec_index d of
        None \<Rightarrow> Inl DISTRIC_ERR_INVALID_STATE
      | Some idx \<Rightarrow>
          (case bsearch tag idx 0 (length idx) of
             None \<Rightarrow> Inl DISTRIC_ERR_NOT_FOUND
           | Some (_, off) \<Rightarrow>
               let (ty, ftag, flen) = read_tlv_header (drop off (dec_buffer d))
               in Inr \<lparr>f_type = ty, f_tag = ftag, f_length = flen,
                       f_value = drop (off + TLV_HEADER_SIZE) (dec_buffer d)\<rparr>))"

section \<open>Value extractors\<close>

definition tlv_field_get_uint8 :: "tlv_field \<Rightarrow> u8" where
  "tlv_field_get_uint8 f =
     (if f_type f \<noteq> TLV_UINT8 \<or> f_length f < 1 then 0 else f_value f ! 0)"

definition tlv_field_get_uint16 :: "tlv_field \<Rightarrow> u16" where
  "tlv_field_get_uint16 f =
     (if f_type f \<noteq> TLV_UINT16 \<or> f_length f < 2 then 0 else be_word (bslice 0 2 (f_value f)))"

definition tlv_field_get_uint32 :: "tlv_field \<Rightarrow> u32" where
  "tlv_field_get_uint32 f =
     (if f_type f \<noteq> TLV_UINT32 \<or> f_length f < 4 then 0 else be_word (bslice 0 4 (f_value f)))"

definition tlv_field_get_uint64 :: "tlv_field \<Rightarrow> u64" where
  "tlv_field_get_uint64 f =
     (if f_type f \<noteq> TLV_UINT64 \<or> f_length f < 8 then 0 else be_word (bslice 0 8 (f_value f)))"

definition tlv_field_get_int32 :: "tlv_field \<Rightarrow> 32 word" where
  "tlv_field_get_int32 f =
     (if f_type f \<noteq> TLV_INT32 \<or> f_length f < 4 then 0 else be_word (bslice 0 4 (f_value f)))"

definition tlv_field_get_int64 :: "tlv_field \<Rightarrow> 64 word" where
  "tlv_field_get_int64 f =
     (if f_type f \<noteq> TLV_INT64 \<or> f_length f < 8 then 0 else be_word (bslice 0 8 (f_value f)))"

definition tlv_field_get_bool :: "tlv_field \<Rightarrow> bool" where
  "tlv_field_get_bool f =
     (if f_type f \<noteq> TLV_BOOL \<or> f_length f < 1 then False else f_value f ! 0 \<noteq> 0)"

text \<open>The returned pointer: NULL, or what can be read through it.\<close>

definition tlv_field_get_string :: "tlv_field \<Rightarrow> bytes option" where
  "tlv_field_get_string f =
     (if f_type f \<noteq> TLV_STRING \<or> f_length f = 0 then None else Some (f_value f))"

definition tlv_field_get_bytes :: "tlv_field \<Rightarrow> (bytes option \<times> nat)" where
  "tlv_field_get_bytes f =
     (if f_type f \<noteq> TLV_BYTES then (None, 0) else (Some (f_value f), unat (f_length f)))"

definition tlv_field_as_uint32 :: "tlv_field \<Rightarrow> u32" where
  "tlv_field_as_uint32 f =
     (if f_type f = TLV_UINT32 \<and> f_length f \<ge> 4 then tlv_field_get_uint32 f
      else if f_type f = TLV_UINT16 \<and> f_length f \<ge> 2 then ucast (tlv_field_get_uint16 f)
      else if f_type f = TLV_UINT8 \<and> f_length f \<ge> 1 then ucast (tlv_field_get_uint8 f)
      else 0)"

definition tlv_field_as_uint64 :: "tlv_field \<Rightarrow> u64" where
  "tlv_field_as_uint64 f =
     (if f_type f = TLV_UINT64 \<and> f_length f \<ge> 8 then tlv_field_get_uint64 f
      else ucast (tlv_field_as_uint32 f))"

definition tlv_field_as_string :: "tlv_field \<Rightarrow> bytes" where
  "tlv_field_as_string f =
     (case tlv_field_get_string f of Some s \<Rightarrow> s | None \<Rightarrow> [0])"

section \<open>Validation\<close>

function validate_loop :: "bytes \<Rightarrow> nat \<Rightarrow> bool" where
  "validate_loop buf off =
     (if off < length buf then
        if off + TLV_HEADER_SIZE > length buf then False
        else let (ty, tag, flen) = read_tlv_header (drop off buf)
          in if unat flen > TLV_MAX_FIELD_SIZE then False
             else if unat flen > length buf - off - TLV_HEADER_SIZE then False
             else validate_loop buf (off + TLV_HEADER_SIZE + unat flen)
      else True)"
  by pat_completeness auto
termination
  by (relation "measure (\<lambda>(buf, off). length buf - off)") (auto simp: TLV_HEADER_SIZE_def)

declare validate_loop.simps [simp del]

definition tlv_validate_buffer :: "bytes \<Rightarrow> bool" where
  "tlv_validate_buffer buf = (if buf = [] then True else validate_loop buf 0)"

definition tlv_type_to_string :: "u8 \<Rightarrow> string" where
  "tlv_type_to_string ty =
     (if ty = TLV_UINT8 then ''UINT8'' else if ty = TLV_UINT16 then ''UINT16''
      else if ty = TLV_UINT32 then ''UINT32'' else if ty = TLV_UINT64 then ''UINT64''
      else if ty = TLV_INT8 then ''INT8'' else if ty = TLV_INT16 then ''INT16''
      else if ty = TLV_INT32 then ''INT32'' else if ty = TLV_INT64 then ''INT64''
      else if ty = TLV_FLOAT then ''FLOAT'' else if ty = TLV_DOUBLE then ''DOUBLE''
      else if ty = TLV_BOOL then ''BOOL'' else if ty = TLV_STRING then ''STRING''
      else if ty = TLV_BYTES then ''BYTES'' else if ty = TLV_ARRAY then ''ARRAY''
      else if ty = TLV_MAP then ''MAP'' else ''UNKNOWN'')"

section \<open>Encoded fields\<close>

text \<open>
  A field as a value: type, tag and payload. \<open>field_bytes\<close> is its encoding, \<open>encodes\<close> that of
  a sequence.
\<close>

type_synonym raw_field = "u8 \<times> u16 \<times> bytes"

fun field_bytes :: "raw_field \<Rightarrow> bytes" where
  "field_bytes (ty, tag, v) = write_tlv_header ty tag (of_nat (length v)) @ v"

definition encodes :: "raw_field list \<Rightarrow> bytes" where
  "encodes fs = concat (map field_bytes fs)"

fun field_fits :: "nat \<Rightarrow> raw_field \<Rightarrow> bool" where
  "field_fits maxs (ty, tag, v) \<longleftrightarrow>
     length v \<le> TLV_MAX_FIELD_SIZE \<and> (ty = TLV_STRING \<or> ty = TLV_BYTES \<longrightarrow> length v \<le> maxs)"

text \<open>What the decoder delivers for an encoded sequence.\<close>

fun views :: "raw_field list \<Rightarrow> bytes \<Rightarrow> tlv_field list" where
  "views [] rest = []"
| "views ((ty, tag, v) # fs) rest =
     \<lparr>f_type = ty, f_tag = tag, f_length = of_nat (length v), f_value = v @ encodes fs @ rest\<rparr>
     # views fs rest"

lemma encodes_Nil [simp]: "encodes [] = []"
  by (simp add: encodes_def)

lemma encodes_Cons [simp]: "encodes (f # fs) = field_bytes f @ encodes fs"
  by (simp add: encodes_def)

lemma encodes_append: "encodes (fs @ gs) = encodes fs @ encodes gs"
  by (simp add: encodes_def)

lemma length_write_tlv_header [simp, wire_simps]:
  "length (write_tlv_header ty tag len) = TLV_HEADER_SIZE"
  by (simp add: write_tlv_header_def TLV_HEADER_SIZE_def)

lemma read_write_tlv_header [simp]:
  "read_tlv_header (write_tlv_header ty tag len @ rest) = (ty, tag, len)"
  by (simp add: read_tlv_header_def write_tlv_header_def bslice_def)

lemma read_tlv_header_inv:
  assumes "TLV_HEADER_SIZE \<le> length bs" "read_tlv_header bs = (ty, tag, len)"
  shows "bs = write_tlv_header ty tag len @ drop TLV_HEADER_SIZE bs"
proof -
  have "be_bytes 2 tag = bslice 1 2 bs" "be_bytes 4 len = bslice 3 4 bs"
    using assms by (auto simp: read_tlv_header_def TLV_HEADER_SIZE_def be_bytes_bslice)
  moreover have "[ty] = bslice 0 1 bs"
    using assms by (cases bs) (auto simp: read_tlv_header_def TLV_HEADER_SIZE_def bslice_def)
  moreover have "bslice 0 1 bs @ bslice 1 2 bs @ bslice 3 4 bs = take 7 bs"
    using bslice_append_bslice [of 0 1 bs 2] bslice_append_bslice [of 0 3 bs 4, symmetric]
    by (simp add: bslice_zero numeral_3_eq_3)
  ultimately show ?thesis
    by (simp add: write_tlv_header_def TLV_HEADER_SIZE_def)
qed

lemma unat_of_nat_field [simp]:
  "n \<le> TLV_MAX_FIELD_SIZE \<Longrightarrow> unat (of_nat n :: u32) = n"
  by (simp add: unat_of_nat TLV_MAX_FIELD_SIZE_def)

section \<open>Encoder lemmas\<close>

lemma grow_capacity_ge: "0 < c \<Longrightarrow> need \<le> grow_capacity c need \<and> c \<le> grow_capacity c need"
proof (induction c need rule: grow_capacity.induct)
  case (1 c need)
  show ?case
    using 1 by (subst (1 2) grow_capacity.simps) fastforce
qed

lemma enc_buffer_ensure_capacity [simp]: "enc_buffer (ensure_capacity enc n) = enc_buffer enc"
  by (simp add: ensure_capacity_def Let_def)

lemma ensure_capacity_room:
  "length (enc_buffer enc) + n \<le> enc_capacity (ensure_capacity enc n)"
  using grow_capacity_ge [of "enc_capacity enc"] grow_capacity_ge [of 256]
  by (auto simp: ensure_capacity_def Let_def)

lemma tlv_encode_raw_Some:
  "length v \<le> TLV_MAX_FIELD_SIZE \<Longrightarrow>
     \<exists>enc'. tlv_encode_raw enc ty tag (Some v) (length v) = Inr enc'
          \<and> enc_buffer enc' = enc_buffer enc @ field_bytes (ty, tag, v)"
  by (auto simp: tlv_encode_raw_def Let_def)

section \<open>Decoder lemmas\<close>

lemma u32_suc_le:
  assumes "(a :: u32) < m"
  shows "unat (a + 1) = Suc (unat a)"
proof (rule unat_Suc_u32)
  have "unat m < 2 ^ LENGTH(32)" by (rule unsigned_less)
  with assms show "unat a < 2 ^ 32 - 1" by (simp add: word_less_nat_alt)
qed

lemma TLV_HEADER_SIZE_pos [simp]: "0 < TLV_HEADER_SIZE" "TLV_HEADER_SIZE \<noteq> 0"
  by (simp_all add: TLV_HEADER_SIZE_def)

lemma tlv_decode_next_at:
  assumes buf: "dec_buffer d = pre @ field_bytes (ty, tag, v) @ rest"
    and len: "length (pre @ field_bytes (ty, tag, v)) \<le> dec_length d"
    and off: "dec_offset d = length pre"
    and fits: "field_fits (unat (dec_max_string_len d)) (ty, tag, v)"
    and lt: "dec_fields_decoded d < dec_max_fields d"
  shows "tlv_decode_next d
    = Inr (d\<lparr>dec_offset := length (pre @ field_bytes (ty, tag, v)),
             dec_fields_decoded := dec_fields_decoded d + 1\<rparr>,
           \<lparr>f_type = ty, f_tag = tag, f_length = of_nat (length v), f_value = v @ rest\<rparr>)"
proof -
  have "ty = TLV_STRING \<or> ty = TLV_BYTES \<Longrightarrow> \<not> dec_max_string_len d < of_nat (length v)"
    using fits by (simp add: word_less_nat_alt not_less)
  moreover have "\<not> dec_max_fields d \<le> dec_fields_decoded d"
    using lt by simp
  moreover have "\<not> dec_length d \<le> length pre" "\<not> dec_length d < length pre + TLV_HEADER_SIZE"
      "\<not> dec_length d - (length pre + TLV_HEADER_SIZE) < length v"
    using len TLV_HEADER_SIZE_pos(1) by (simp_all del: TLV_HEADER_SIZE_pos)
  ultimately show ?thesis
    using buf off fits by (simp add: tlv_decode_next_def decode_next_internal_def Let_def) blast
qed

lemma tlv_decode_next_end:
  "dec_length d \<le> dec_offset d \<Longrightarrow> tlv_decode_next d = Inl DISTRIC_ERR_EOF"
  by (simp add: tlv_decode_next_def decode_next_internal_def)

lemma tlv_decode_all_prefix:
  assumes "dec_buffer d = pre @ encodes fs @ rest" and "length (pre @ encodes fs) \<le> dec_length d"
    and "dec_offset d = length pre"
    and "\<forall>f\<in>set fs. field_fits (unat (dec_max_string_len d)) f"
    and "unat (dec_fields_decoded d) + length fs \<le> unat (dec_max_fields d)"
  shows "tlv_decode_all d = views fs rest
    @ tlv_decode_all (d\<lparr>dec_offset := length (pre @ encodes fs),
                        dec_fields_decoded := dec_fields_decoded d + of_nat (length fs)\<rparr>)"
  using assms
proof (induction fs arbitrary: d pre)
  case Nil
  have "d\<lparr>dec_offset := length pre, dec_fields_decoded := dec_fields_decoded d\<rparr> = d"
    using Nil.prems by simp
  then show ?case by simp
next
  case (Cons f fs)
  obtain ty tag v where f: "f = (ty, tag, v)" by (cases f)
  have lt: "dec_fields_decoded d < dec_max_fields d"
    using Cons.prems by (simp add: word_less_nat_alt)
  let ?d = "d\<lparr>dec_offset := length (pre @ field_bytes f),
              dec_fields_decoded := dec_fields_decoded d + 1\<rparr>"
  let ?e = "?d\<lparr>dec_offset := length ((pre @ field_bytes f) @ encodes fs),
              dec_fields_decoded := dec_fields_decoded ?d + of_nat (length fs)\<rparr>"
  have "tlv_decode_all ?d = views fs rest @ tlv_decode_all ?e"
    by (rule Cons.IH) (use Cons.prems u32_suc_le [OF lt] in simp_all)
  moreover have "tlv_decode_next d
      = Inr (?d, \<lparr>f_type = ty, f_tag = tag, f_length = of_nat (length v),
                  f_value = v @ encodes fs @ rest\<rparr>)"
    unfolding f by (rule tlv_decode_next_at) (use Cons.prems lt f in simp_all)
  ultimately show ?case
    by (subst tlv_decode_all.simps) (simp add: f ac_simps)
qed

lemma tlv_decode_all_stop: "tlv_decode_next d = Inl e \<Longrightarrow> tlv_decode_all d = []"
  by (subst tlv_decode_all.simps) simp

lemma tlv_decode_all_views:
  assumes "dec_buffer d = pre @ encodes fs @ rest" and "dec_length d = length (pre @ encodes fs)"
    and "dec_offset d = length pre"
    and "\<forall>f\<in>set fs. field_fits (unat (dec_max_string_len d)) f"
    and "unat (dec_fields_decoded d) + length fs \<le> unat (dec_max_fields d)"
  shows "tlv_decode_all d = views fs rest"
  using tlv_decode_all_prefix [of d pre fs rest] assms
  by (simp add: tlv_decode_all_stop [OF tlv_decode_next_end])

text \<open>A string or bytes field above the decoder's limit ends the loop.\<close>

lemma tlv_decode_next_oversized:
  assumes "dec_buffer d = pre @ field_bytes (ty, tag, v) @ rest" and "dec_offset d = length pre"
    and "ty = TLV_STRING \<or> ty = TLV_BYTES" and "0 < dec_max_string_len d"
    and "unat (dec_max_string_len d) < length v" and "length v \<le> TLV_MAX_FIELD_SIZE"
  shows "\<exists>e. tlv_decode_next d = Inl e"
proof -
  have "dec_max_string_len d < of_nat (length v)"
    using assms by (simp add: word_less_nat_alt)
  with assms show ?thesis
    by (simp add: tlv_decode_next_def decode_next_internal_def Let_def)
qed

section \<open>Validator lemmas\<close>

lemma field_bytes_of_header:
  assumes "TLV_HEADER_SIZE \<le> length bs" "read_tlv_header bs = (ty, tag, flen)"
    and "unat flen \<le> length bs - TLV_HEADER_SIZE"
  defines "v \<equiv> take (unat flen) (drop TLV_HEADER_SIZE bs)"
  shows "bs = field_bytes (ty, tag, v) @ drop (TLV_HEADER_SIZE + unat flen) bs"
    and "length v = unat flen"
proof -
  show len: "length v = unat flen" using assms by (simp add: v_def)
  have "bs = write_tlv_header ty tag flen @ v @ drop (unat flen) (drop TLV_HEADER_SIZE bs)"
    unfolding v_def append_take_drop_id by (rule read_tlv_header_inv [OF assms(1,2)])
  with len show "bs = field_bytes (ty, tag, v) @ drop (TLV_HEADER_SIZE + unat flen) bs"
    by (simp add: add.commute)
qed

lemma validate_loop_sound:
  "validate_loop buf off \<Longrightarrow> off \<le> length buf \<Longrightarrow>
     \<exists>fs. (\<forall>f\<in>set fs. length (snd (snd f)) \<le> TLV_MAX_FIELD_SIZE) \<and> drop off buf = encodes fs"
proof (induction buf off rule: validate_loop.induct)
  case (1 buf off)
  show ?case
  proof (cases "off < length buf")
    case False
    then show ?thesis by (auto intro!: exI [of _ "[]"])
  next
    case True
    obtain ty tag flen where h: "read_tlv_header (drop off buf) = (ty, tag, flen)"
      by (cases "read_tlv_header (drop off buf)")
    from 1(2) True h have b: "off + TLV_HEADER_SIZE \<le> length buf" "unat flen \<le> TLV_MAX_FIELD_SIZE"
        "unat flen \<le> length buf - off - TLV_HEADER_SIZE"
        "validate_loop buf (off + TLV_HEADER_SIZE + unat flen)"
      by (subst (asm) validate_loop.simps, force simp: not_less split: if_splits)+
    then have "off + TLV_HEADER_SIZE + unat flen \<le> length buf" by linarith
    with 1(1) [OF True _ h [symmetric] refl refl] b obtain fs where
      fs: "\<forall>f\<in>set fs. length (snd (snd f)) \<le> TLV_MAX_FIELD_SIZE"
        "drop (off + TLV_HEADER_SIZE + unat flen) buf = encodes fs"
      by (auto simp: not_less)
    have room: "TLV_HEADER_SIZE \<le> length (drop off buf)"
        "unat flen \<le> length (drop off buf) - TLV_HEADER_SIZE"
      using b by simp_all
    obtain v where fb: "drop off buf = field_bytes (ty, tag, v)
          @ drop (TLV_HEADER_SIZE + unat flen) (drop off buf)" "length v = unat flen"
      using field_bytes_of_header [OF room(1) h room(2)] by blast
    note fb(1)
    also have "drop (TLV_HEADER_SIZE + unat flen) (drop off buf) = encodes fs"
      using fs(2) by (simp add: ac_simps)
    finally have "drop off buf = encodes ((ty, tag, v) # fs)"
      by (simp only: encodes_Cons)
    moreover have "\<forall>f\<in>set ((ty, tag, v) # fs). length (snd (snd f)) \<le> TLV_MAX_FIELD_SIZE"
      using fb(2) b(2) fs(1) by simp
    ultimately show ?thesis by blast
  qed
qed

lemma validate_loop_complete:
  "\<forall>f\<in>set fs. length (snd (snd f)) \<le> TLV_MAX_FIELD_SIZE \<Longrightarrow>
     validate_loop (pre @ encodes fs) (length pre)"
proof (induction fs arbitrary: pre)
  case Nil
  show ?case by (subst validate_loop.simps) simp
next
  case (Cons f fs)
  obtain ty tag v where f: "f = (ty, tag, v)" by (cases f)
  have "validate_loop ((pre @ field_bytes f) @ encodes fs) (length (pre @ field_bytes f))"
    by (rule Cons.IH) (use Cons.prems in simp)
  then show ?case
    using Cons.prems f by (subst validate_loop.simps) (simp add: ac_simps)
qed

section \<open>Lookup lemmas\<close>

lemma tlv_find_field_find:
  "snd (tlv_find_field d tag)
     = (case find (\<lambda>f. f_tag f = tag) (tlv_decode_all d) of
          Some f \<Rightarrow> Inr f | None \<Rightarrow> Inl DISTRIC_ERR_NOT_FOUND)"
proof (induction d tag rule: tlv_find_field.induct)
  case (1 d tag)
  show ?case
    using 1
    by (subst tlv_find_field.simps, subst tlv_decode_all.simps) (auto split: sum.split prod.split)
qed

fun offsets :: "nat \<Rightarrow> raw_field list \<Rightarrow> (u16 \<times> nat) list" where
  "offsets off [] = []"
| "offsets off ((ty, tag, v) # fs) = (tag, off) # offsets (off + TLV_HEADER_SIZE + length v) fs"

definition field_at :: "bytes \<Rightarrow> nat \<Rightarrow> tlv_field" where
  "field_at buf off =
     (let (ty, tag, flen) = read_tlv_header (drop off buf)
      in \<lparr>f_type = ty, f_tag = tag, f_length = flen, f_value = drop (off + TLV_HEADER_SIZE) buf\<rparr>)"

lemma build_index_loop_offsets:
  "\<forall>f\<in>set fs. length (snd (snd f)) \<le> TLV_MAX_FIELD_SIZE \<Longrightarrow>
   unat n + length fs \<le> unat maxf \<Longrightarrow>
     build_index_loop (pre @ encodes fs) (length (pre @ encodes fs)) maxf (length pre) n
       = offsets (length pre) fs"
proof (induction fs arbitrary: pre n)
  case Nil
  then show ?case by (subst build_index_loop.simps) simp
next
  case (Cons f fs)
  obtain ty tag v where f: "f = (ty, tag, v)" by (cases f)
  have lt: "n < maxf" using Cons.prems by (simp add: word_less_nat_alt)
  have "build_index_loop ((pre @ field_bytes f) @ encodes fs) (length ((pre @ field_bytes f) @ encodes fs))
        maxf (length (pre @ field_bytes f)) (n + 1)
      = offsets (length (pre @ field_bytes f)) fs"
    by (rule Cons.IH) (use Cons.prems u32_suc_le [OF lt] in simp_all)
  then show ?case
    using Cons.prems f lt by (subst build_index_loop.simps) (simp add: ac_simps not_le)
qed

lemma map_field_at_offsets:
  "\<forall>f\<in>set fs. length (snd (snd f)) \<le> TLV_MAX_FIELD_SIZE \<Longrightarrow>
     map (\<lambda>(t, off). (t, field_at (pre @ encodes fs) off)) (offsets (length pre) fs)
       = map (\<lambda>f. (f_tag f, f)) (views fs [])"
proof (induction fs arbitrary: pre)
  case Nil
  show ?case by simp
next
  case (Cons f fs)
  obtain ty tag v where f: "f = (ty, tag, v)" by (cases f)
  from Cons.IH [of "pre @ field_bytes f"] Cons.prems f show ?case
    by (simp add: field_at_def ac_simps)
qed

lemma bsearch_Some:
  "bsearch key idx lo hi = Some e \<Longrightarrow> hi \<le> length idx \<Longrightarrow> e \<in> set idx \<and> fst e = key"
proof (induction key idx lo hi rule: bsearch.induct)
  case (1 key idx lo hi)
  let ?mid = "(lo + hi) div 2"
  have "lo < hi" using 1(3) by (subst (asm) bsearch.simps) (auto split: if_splits)
  moreover from this have "?mid < length idx" using 1(4) by auto
  ultimately show ?case
    using 1 by (subst (asm) (3) bsearch.simps) (auto simp: Let_def not_less split: if_splits)
qed

lemma bsearch_None:
  "bsearch key idx lo hi = None \<Longrightarrow> hi \<le> length idx \<Longrightarrow> sorted (map fst idx) \<Longrightarrow>
     lo \<le> i \<Longrightarrow> i < hi \<Longrightarrow> fst (idx ! i) \<noteq> key"
proof (induction key idx lo hi rule: bsearch.induct)
  case (1 key idx lo hi)
  let ?mid = "(lo + hi) div 2"
  have lohi: "lo < hi" and mid: "?mid < hi" "lo \<le> ?mid" using 1 by auto
  have mono: "fst (idx ! j) \<le> fst (idx ! k)" if "j \<le> k" "k < hi" for j k
    using sorted_nth_mono [OF 1(5), of j k] that 1(4) by simp
  consider "key < fst (idx ! ?mid)" | "key > fst (idx ! ?mid)" | "key = fst (idx ! ?mid)"
    by fastforce
  then show ?case
  proof cases
    case a: 1
    have "bsearch key idx lo ?mid = None"
      using 1(3) lohi a by (subst (asm) bsearch.simps) (simp add: Let_def)
    then show ?thesis
      using 1(1) [OF lohi refl a] 1(4,5,6,7) mono [of ?mid i] a mid by (cases "i < ?mid") auto
  next
    case a: 2
    have "bsearch key idx (?mid + 1) hi = None"
      using 1(3) lohi a order_less_not_sym [OF a] by (subst (asm) bsearch.simps) (simp add: Let_def)
    then show ?thesis
      using 1(2) [OF lohi refl _ a] 1(4,5,6,7) mono [of i ?mid] a mid
      by (cases "?mid < i") auto
  next
    case 3
    then show ?thesis
      using 1(3) lohi by (subst (asm) bsearch.simps) (simp add: Let_def)
  qed
qed

lemma bsearch_full_None:
  "sorted (map fst idx) \<Longrightarrow> bsearch key idx 0 (length idx) = None \<Longrightarrow> key \<notin> fst ` set idx"
  using bsearch_None [of key idx 0 "length idx"] by (fastforce simp: in_set_conv_nth)

lemma find_indexed_unsorted:
  assumes "distinct (map fst idx)" "dec_index d = Some (sort_key fst idx)"
  shows "tlv_decoder_find_indexed d tag
    = (case map_of (map (\<lambda>(t, off). (t, field_at (dec_buffer d) off)) idx) tag of
         Some f \<Rightarrow> Inr f | None \<Rightarrow> Inl DISTRIC_ERR_NOT_FOUND)"
proof (cases "bsearch tag (sort_key fst idx) 0 (length (sort_key fst idx))")
  case None
  then have "tag \<notin> fst ` set idx"
    using bsearch_full_None [OF _ None] by simp
  then have "map_of (map (\<lambda>(t, off). (t, field_at (dec_buffer d) off)) idx) tag = None"
    by (simp add: map_of_map map_of_eq_None_iff)
  with None assms show ?thesis by (simp add: tlv_decoder_find_indexed_def)
next
  case (Some e)
  obtain off where "e = (tag, off)" "(tag, off) \<in> set idx"
    using bsearch_Some [OF Some] by (cases e) simp
  then have "map_of (map (\<lambda>(t, off). (t, field_at (dec_buffer d) off)) idx) tag
      = Some (field_at (dec_buffer d) (snd e))"
    using assms(1) by (simp add: map_of_map)
  with Some assms \<open>e = (tag, off)\<close> show ?thesis
    by (simp add: tlv_decoder_find_indexed_def field_at_def split: prod.split)
qed

lemma find_map_of:
  "find (\<lambda>f. f_tag f = tag) fs = map_of (map (\<lambda>f. (f_tag f, f)) fs) tag"
  by (induction fs) auto

lemma field_fits_size:
  "\<forall>f\<in>set fs. field_fits m f \<Longrightarrow> \<forall>f\<in>set fs. length (snd (snd f)) \<le> TLV_MAX_FIELD_SIZE"
  by fastforce

lemma map_f_tag_views: "map f_tag (views fs rest) = map (fst \<circ> snd) fs"
  by (induction fs rest rule: views.induct) auto

section \<open>Properties\<close>

text \<open>
  Memory safety of decoding: a field the decoder delivers lies inside the buffer, the decoder
  stays inside it and advances by exactly the bytes of that field, and re-encoding the field
  gives the bytes that were consumed.
\<close>

lemma tlv_decode_next_safe:
  assumes "tlv_decode_next d = Inr (d', f)" and "dec_length d \<le> length (dec_buffer d)"
  shows "dec_offset d < dec_offset d' \<and> dec_offset d' \<le> dec_length d'
    \<and> dec_buffer d' = dec_buffer d \<and> dec_length d' = dec_length d
    \<and> dec_offset d + TLV_HEADER_SIZE + unat (f_length f) = dec_offset d'
    \<and> bslice (dec_offset d) (dec_offset d' - dec_offset d) (dec_buffer d)
        = field_bytes (f_type f, f_tag f, take (unat (f_length f)) (f_value f))"
proof -
  let ?bs = "drop (dec_offset d) (dec_buffer d)"
  have hd: "read_tlv_header ?bs = (f_type f, f_tag f, f_length f)"
    and l: "dec_offset d + TLV_HEADER_SIZE \<le> dec_length d"
      "unat (f_length f) \<le> dec_length d - dec_offset d - TLV_HEADER_SIZE"
    using assms(1)
    by (auto simp: tlv_decode_next_def decode_next_internal_def Let_def not_less
        split: if_splits prod.splits sum.splits)
  note facts = tlv_decode_next_Inr [OF assms(1)]
  have room: "TLV_HEADER_SIZE \<le> length ?bs" "unat (f_length f) \<le> length ?bs - TLV_HEADER_SIZE"
    using l assms(2) by simp_all
  from field_bytes_of_header [OF room(1) hd room(2)]
  have "take (TLV_HEADER_SIZE + unat (f_length f)) ?bs
      = field_bytes (f_type f, f_tag f, take (unat (f_length f)) (drop TLV_HEADER_SIZE ?bs))"
    by (metis append_eq_conv_conj field_bytes.simps length_append length_write_tlv_header)
  with facts l show ?thesis
    by (simp add: bslice_def add.commute)
qed

lemma tlv_decode_next_safe_witness:
  "case tlv_decoder_create (encodes [(TLV_UINT8, 5, [9])]) 8 of
     None \<Rightarrow> False
   | Some d \<Rightarrow> (case tlv_decode_next d of
        Inl _ \<Rightarrow> False | Inr (d', f) \<Rightarrow> dec_offset d' \<le> dec_length d')"
proof -
  define d where "d = \<lparr>dec_buffer = encodes [(TLV_UINT8, 5, [9])], dec_length = 8, dec_offset = 0,
    dec_max_fields = 512, dec_max_string_len = push_bit 20 1, dec_fields_decoded = 0, dec_index = None\<rparr>"
  obtain d' f where nxt: "tlv_decode_next d = Inr (d', f)"
    using tlv_decode_next_at [of d "[]" TLV_UINT8 5 "[9]" "[]"]
    by (simp add: d_def tlv_type_defs TLV_MAX_FIELD_SIZE_def TLV_HEADER_SIZE_def)
  have "tlv_decoder_create (encodes [(TLV_UINT8, 5, [9])]) 8 = Some d"
    by (simp add: tlv_decoder_create_def tlv_decoder_create_with_limits_def d_def
        protocol_limits_max_fields_def protocol_limits_max_string_def)
  moreover have "dec_length d \<le> length (dec_buffer d)"
    by (simp add: d_def TLV_HEADER_SIZE_def)
  ultimately show ?thesis
    using nxt tlv_decode_next_safe [OF nxt] by simp
qed

text \<open>A caller that encodes one field after the other with \<^verbatim>\<open>tlv_encode_raw\<close>.\<close>

fun encode_fields :: "tlv_encoder \<Rightarrow> raw_field list \<Rightarrow> tlv_encoder result" where
  "encode_fields enc [] = Inr enc"
| "encode_fields enc ((ty, tag, v) # fs) =
     (case tlv_encode_raw enc ty tag (Some v) (length v) of
        Inl e \<Rightarrow> Inl e
      | Inr enc \<Rightarrow> encode_fields enc fs)"

lemma encode_fields_Inr:
  "\<forall>f\<in>set fs. field_fits m f \<Longrightarrow>
     \<exists>enc'. encode_fields enc fs = Inr enc' \<and> enc_buffer enc' = enc_buffer enc @ encodes fs"
proof (induction fs arbitrary: enc)
  case (Cons f fs)
  obtain ty tag v where f: "f = (ty, tag, v)" by (cases f)
  obtain enc1 where e: "tlv_encode_raw enc ty tag (Some v) (length v) = Inr enc1"
      "enc_buffer enc1 = enc_buffer enc @ field_bytes (ty, tag, v)"
    using Cons.prems f tlv_encode_raw_Some [of v enc ty tag] by auto
  obtain enc2 where "encode_fields enc1 fs = Inr enc2" "enc_buffer enc2 = enc_buffer enc1 @ encodes fs"
    using Cons.IH [of enc1] Cons.prems by auto
  with e f show ?case by simp
qed simp

text \<open>
  C10. Encode/decode round trip: a sequence of fields that respects the limits of the decoder is encoded
  without an error, whatever the initial capacity, and the decode loop run on the finalised buffer delivers
  exactly these fields, in order.
\<close>

theorem tlv_roundtrip:
  assumes "\<forall>f\<in>set fs. field_fits (unat (protocol_limits_max_string limits)) f"
    and "length fs \<le> unat (protocol_limits_max_fields limits)" and "fs \<noteq> []"
  shows "case encode_fields (tlv_encoder_create cap) fs of
      Inl e \<Rightarrow> False
    | Inr enc \<Rightarrow>
        (case tlv_decoder_create_with_limits (tlv_encoder_finalize enc) (length (tlv_encoder_finalize enc)) limits of
           None \<Rightarrow> False
         | Some d \<Rightarrow> map (\<lambda>f. (f_type f, f_tag f, take (unat (f_length f)) (f_value f))) (tlv_decode_all d) = fs)"
proof -
  obtain enc where enc: "encode_fields (tlv_encoder_create cap) fs = Inr enc" "enc_buffer enc = encodes fs"
    using encode_fields_Inr [OF assms(1), of "tlv_encoder_create cap"] by (auto simp: tlv_encoder_create_def)
  have ne: "encodes fs \<noteq> []"
  proof -
    obtain ty tag v gs where "fs = (ty, tag, v) # gs" using assms(3) by (cases fs) auto
    then have "7 \<le> length (encodes fs)" by (simp add: TLV_HEADER_SIZE_def)
    then show ?thesis by auto
  qed
  have "map (\<lambda>f. (f_type f, f_tag f, take (unat (f_length f)) (f_value f))) (views fs rest) = fs"
    if "\<forall>f\<in>set fs. field_fits m f" for m rest
    using that by (induction fs rest rule: views.induct) auto
  note views = this [OF assms(1)]
  have "tlv_decode_all \<lparr>dec_buffer = encodes fs, dec_length = length (encodes fs), dec_offset = 0,
      dec_max_fields = protocol_limits_max_fields limits, dec_max_string_len = protocol_limits_max_string limits,
      dec_fields_decoded = 0, dec_index = None\<rparr> = views fs []"
    using assms(1,2) by (intro tlv_decode_all_views [of _ "[]"]) simp_all
  then show ?thesis using enc ne views by (simp add: tlv_decoder_create_with_limits_def tlv_encoder_finalize_def)
qed

theorem tlv_roundtrip_witness:
  "let fs = [(TLV_BOOL, 1, [1]), (TLV_STRING, 2, [65, 0])] in
   case encode_fields (tlv_encoder_create 0) fs of
      Inl e \<Rightarrow> False
    | Inr enc \<Rightarrow>
        (case tlv_decoder_create_with_limits (tlv_encoder_finalize enc) (length (tlv_encoder_finalize enc)) None of
           None \<Rightarrow> False
         | Some d \<Rightarrow> map (\<lambda>f. (f_type f, f_tag f, take (unat (f_length f)) (f_value f))) (tlv_decode_all d) = fs)"
  unfolding Let_def
  by (rule tlv_roundtrip) (simp_all add: protocol_limits_max_fields_def protocol_limits_max_string_def TLV_MAX_FIELD_SIZE_def)

text \<open>
  The structural validator is exact: it accepts a buffer if and only if the buffer is a
  concatenation of encoded fields none of which exceeds the field size limit.
\<close>

lemma tlv_validate_buffer_exact:
  "tlv_validate_buffer buf \<longleftrightarrow>
     (\<exists>fs. (\<forall>f\<in>set fs. length (snd (snd f)) \<le> TLV_MAX_FIELD_SIZE) \<and> buf = encodes fs)"
proof
  assume "tlv_validate_buffer buf"
  then show "\<exists>fs. (\<forall>f\<in>set fs. length (snd (snd f)) \<le> TLV_MAX_FIELD_SIZE) \<and> buf = encodes fs"
    using validate_loop_sound [of buf 0]
    by (cases "buf = []") (auto simp: tlv_validate_buffer_def intro: exI [of _ "[]"])
next
  assume "\<exists>fs. (\<forall>f\<in>set fs. length (snd (snd f)) \<le> TLV_MAX_FIELD_SIZE) \<and> buf = encodes fs"
  then show "tlv_validate_buffer buf"
    using validate_loop_complete [of _ "[]"] by (auto simp: tlv_validate_buffer_def)
qed

lemma tlv_validate_buffer_exact_witness:
  "tlv_validate_buffer (encodes [(TLV_UINT8, 3, [1])]) \<and> \<not> tlv_validate_buffer [1, 2, 3]"
proof
  have "\<exists>fs. (\<forall>f\<in>set fs. length (snd (snd f)) \<le> TLV_MAX_FIELD_SIZE)
      \<and> encodes [(TLV_UINT8, 3, [1])] = encodes fs"
    by (rule exI [of _ "[(TLV_UINT8, 3, [1])]"]) (simp add: TLV_MAX_FIELD_SIZE_def)
  then show "tlv_validate_buffer (encodes [(TLV_UINT8, 3, [1])])"
    by (simp only: tlv_validate_buffer_exact)
  show "\<not> tlv_validate_buffer [1, 2, 3]"
    by (simp add: tlv_validate_buffer_def validate_loop.simps TLV_HEADER_SIZE_def)
qed

text \<open>
  The binary search over the sorted index returns, for every tag, what the linear scan from the
  start of the buffer returns, when tags are distinct and the fields respect the decoder's limits.
\<close>

lemma tlv_indexed_eq_linear:
  assumes "dec_buffer d = encodes fs" and "dec_length d = length (encodes fs)"
    and "distinct (map (fst \<circ> snd) fs)"
    and "\<forall>f\<in>set fs. field_fits (unat (dec_max_string_len d)) f"
    and "length fs \<le> unat (dec_max_fields d)"
  shows "tlv_decoder_find_indexed (tlv_decoder_build_index d) tag
    = snd (tlv_find_field (tlv_decoder_reset d) tag)"
proof -
  let ?d = "tlv_decoder_build_index d" and ?idx = "offsets 0 fs"
  note size = field_fits_size [OF assms(4)]
  have idx: "build_index_loop (encodes fs) (length (encodes fs)) (dec_max_fields d) 0 0 = ?idx"
    using build_index_loop_offsets [OF size, of 0 "dec_max_fields d" "[]"] assms(5) by simp
  have fields: "map (\<lambda>(t, off). (t, field_at (encodes fs) off)) ?idx
      = map (\<lambda>f. (f_tag f, f)) (views fs [])"
    using map_field_at_offsets [OF size, of "[]"] by simp
  have "map fst ?idx = map f_tag (views fs [])"
    using arg_cong [OF fields, of "map fst"] by (simp add: comp_def case_prod_unfold)
  then have "distinct (map fst ?idx)" using assms(3) by (simp add: map_f_tag_views)
  moreover have "dec_index ?d = Some (sort_key fst ?idx)" "dec_buffer ?d = encodes fs"
    using assms(1,2) idx by (simp_all add: tlv_decoder_build_index_def tlv_decoder_reset_def)
  ultimately have "tlv_decoder_find_indexed ?d tag
      = (case find (\<lambda>f. f_tag f = tag) (views fs []) of
           Some f \<Rightarrow> Inr f | None \<Rightarrow> Inl DISTRIC_ERR_NOT_FOUND)"
    by (simp add: find_indexed_unsorted fields find_map_of)
  moreover have "tlv_decode_all (tlv_decoder_reset d) = views fs []"
    by (rule tlv_decode_all_views [where pre = "[]"]) (use assms in \<open>simp_all add: tlv_decoder_reset_def\<close>)
  ultimately show ?thesis by (simp add: tlv_find_field_find)
qed

lemma tlv_indexed_eq_linear_witness:
  "let d = the (tlv_decoder_create (encodes [(TLV_BOOL, 7, [1]), (TLV_STRING, 2, [65, 0])]) 17)
   in tlv_decoder_find_indexed (tlv_decoder_build_index d) 7
        = snd (tlv_find_field (tlv_decoder_reset d) 7)"
  unfolding Let_def
  by (rule tlv_indexed_eq_linear [where fs = "[(TLV_BOOL, 7, [1]), (TLV_STRING, 2, [65, 0])]"])
    (simp_all add: TLV_HEADER_SIZE_def tlv_decoder_create_def tlv_decoder_create_with_limits_def
        protocol_limits_max_fields_def protocol_limits_max_string_def TLV_MAX_FIELD_SIZE_def)

text \<open>
  The encoder never writes past its allocation and a refused field leaves it unchanged: after
  \<^verbatim>\<open>tlv_encode_raw\<close> the written bytes fit the capacity, the capacity never shrinks, and the
  call fails exactly for a NULL payload of positive length or one above the size limit.
\<close>

lemma tlv_encode_raw_capacity:
  assumes "length (enc_buffer enc) \<le> enc_capacity enc" and "\<forall>v. data = Some v \<longrightarrow> length v = len"
  shows "case tlv_encode_raw enc ty tag data len of
      Inl e \<Rightarrow> e = DISTRIC_ERR_INVALID_ARG \<and> (0 < len \<and> data = None \<or> TLV_MAX_FIELD_SIZE < len)
    | Inr enc' \<Rightarrow> length (enc_buffer enc') \<le> enc_capacity enc'
        \<and> enc_capacity enc \<le> enc_capacity enc'
        \<and> enc_buffer enc' = enc_buffer enc @ field_bytes (ty, tag, case data of Some v \<Rightarrow> v | None \<Rightarrow> [])"
  using assms ensure_capacity_room [of enc "TLV_HEADER_SIZE + len"]
    grow_capacity_ge [of "enc_capacity enc" "length (enc_buffer enc) + (TLV_HEADER_SIZE + len)"]
  by (cases data) (auto simp: tlv_encode_raw_def Let_def ensure_capacity_def)

end
