(* ===== verification/MessageCodec.thy ===== *)
theory MessageCodec
  imports Tlv
begin

unbundle bit_operations_syntax

text \<open>
  The frame shared by the serialisers and deserialisers of
  \<^verbatim>\<open>libs/distric_protocol/src/messages.c\<close>: field tags, the encoder calls whose return value the
  serialisers ignore, the decode loop with its \<^verbatim>\<open>seen\<close> bitmask and the required-field check.
  The locale \<open>tlv_message\<close> states what a message type has to provide (its field list, its decode
  step, the bound on fields) and derives the round trip, that the encoding is accepted by the
  validator, and that different messages have different encodings. Every message type of the
  protocol interprets it.
\<close>

section \<open>Field tags\<close>

abbreviation (input) FIELD_NODE_ID :: u16 where "FIELD_NODE_ID \<equiv> 0x0002"
abbreviation (input) FIELD_TIMESTAMP :: u16 where "FIELD_TIMESTAMP \<equiv> 0x0003"
abbreviation (input) FIELD_SEQUENCE_NUMBER :: u16 where "FIELD_SEQUENCE_NUMBER \<equiv> 0x0004"
abbreviation (input) FIELD_TERM :: u16 where "FIELD_TERM \<equiv> 0x0101"
abbreviation (input) FIELD_CANDIDATE_ID :: u16 where "FIELD_CANDIDATE_ID \<equiv> 0x0102"
abbreviation (input) FIELD_LAST_LOG_INDEX :: u16 where "FIELD_LAST_LOG_INDEX \<equiv> 0x0103"
abbreviation (input) FIELD_LAST_LOG_TERM :: u16 where "FIELD_LAST_LOG_TERM \<equiv> 0x0104"
abbreviation (input) FIELD_VOTE_GRANTED :: u16 where "FIELD_VOTE_GRANTED \<equiv> 0x0105"
abbreviation (input) FIELD_LEADER_ID :: u16 where "FIELD_LEADER_ID \<equiv> 0x0106"
abbreviation (input) FIELD_PREV_LOG_INDEX :: u16 where "FIELD_PREV_LOG_INDEX \<equiv> 0x0107"
abbreviation (input) FIELD_PREV_LOG_TERM :: u16 where "FIELD_PREV_LOG_TERM \<equiv> 0x0108"
abbreviation (input) FIELD_ENTRIES :: u16 where "FIELD_ENTRIES \<equiv> 0x0109"
abbreviation (input) FIELD_LEADER_COMMIT :: u16 where "FIELD_LEADER_COMMIT \<equiv> 0x010A"
abbreviation (input) FIELD_SUCCESS :: u16 where "FIELD_SUCCESS \<equiv> 0x010B"
abbreviation (input) FIELD_SNAPSHOT_INDEX :: u16 where "FIELD_SNAPSHOT_INDEX \<equiv> 0x010C"
abbreviation (input) FIELD_SNAPSHOT_TERM :: u16 where "FIELD_SNAPSHOT_TERM \<equiv> 0x010D"
abbreviation (input) FIELD_SNAPSHOT_DATA :: u16 where "FIELD_SNAPSHOT_DATA \<equiv> 0x010E"
abbreviation (input) FIELD_MATCH_INDEX :: u16 where "FIELD_MATCH_INDEX \<equiv> 0x010F"
abbreviation (input) FIELD_ENTRY_INDEX :: u16 where "FIELD_ENTRY_INDEX \<equiv> 0x0110"
abbreviation (input) FIELD_ENTRY_TERM :: u16 where "FIELD_ENTRY_TERM \<equiv> 0x0111"
abbreviation (input) FIELD_ENTRY_TYPE :: u16 where "FIELD_ENTRY_TYPE \<equiv> 0x0112"
abbreviation (input) FIELD_ENTRY_DATA :: u16 where "FIELD_ENTRY_DATA \<equiv> 0x0113"
abbreviation (input) FIELD_CONFIG_CHANGE_TYPE :: u16 where "FIELD_CONFIG_CHANGE_TYPE \<equiv> 0x0120"
abbreviation (input) FIELD_NEW_SERVERS :: u16 where "FIELD_NEW_SERVERS \<equiv> 0x0123"
abbreviation (input) FIELD_OLD_SERVERS :: u16 where "FIELD_OLD_SERVERS \<equiv> 0x0124"
abbreviation (input) FIELD_INCARNATION :: u16 where "FIELD_INCARNATION \<equiv> 0x0201"
abbreviation (input) FIELD_NODE_STATE :: u16 where "FIELD_NODE_STATE \<equiv> 0x0202"
abbreviation (input) FIELD_NODE_ADDRESS :: u16 where "FIELD_NODE_ADDRESS \<equiv> 0x0203"
abbreviation (input) FIELD_NODE_PORT :: u16 where "FIELD_NODE_PORT \<equiv> 0x0204"
abbreviation (input) FIELD_NODE_ROLE :: u16 where "FIELD_NODE_ROLE \<equiv> 0x0205"
abbreviation (input) FIELD_TARGET_ID :: u16 where "FIELD_TARGET_ID \<equiv> 0x0208"
abbreviation (input) FIELD_NODE_INFO :: u16 where "FIELD_NODE_INFO \<equiv> 0x020C"
abbreviation (input) FIELD_CPU_USAGE :: u16 where "FIELD_CPU_USAGE \<equiv> 0x0220"
abbreviation (input) FIELD_MEMORY_USAGE :: u16 where "FIELD_MEMORY_USAGE \<equiv> 0x0221"
abbreviation (input) FIELD_TASK_ID :: u16 where "FIELD_TASK_ID \<equiv> 0x0301"
abbreviation (input) FIELD_WORKFLOW_ID :: u16 where "FIELD_WORKFLOW_ID \<equiv> 0x0302"
abbreviation (input) FIELD_TASK_TYPE :: u16 where "FIELD_TASK_TYPE \<equiv> 0x0303"
abbreviation (input) FIELD_TASK_CONFIG :: u16 where "FIELD_TASK_CONFIG \<equiv> 0x0304"
abbreviation (input) FIELD_TASK_INPUT :: u16 where "FIELD_TASK_INPUT \<equiv> 0x0305"
abbreviation (input) FIELD_TASK_OUTPUT :: u16 where "FIELD_TASK_OUTPUT \<equiv> 0x0306"
abbreviation (input) FIELD_TASK_STATUS :: u16 where "FIELD_TASK_STATUS \<equiv> 0x0307"
abbreviation (input) FIELD_TASK_ERROR :: u16 where "FIELD_TASK_ERROR \<equiv> 0x0308"
abbreviation (input) FIELD_TIMEOUT_SEC :: u16 where "FIELD_TIMEOUT_SEC \<equiv> 0x0309"
abbreviation (input) FIELD_RETRY_COUNT :: u16 where "FIELD_RETRY_COUNT \<equiv> 0x030A"
abbreviation (input) FIELD_WORKER_ID :: u16 where "FIELD_WORKER_ID \<equiv> 0x030B"
abbreviation (input) FIELD_STARTED_AT :: u16 where "FIELD_STARTED_AT \<equiv> 0x030C"
abbreviation (input) FIELD_COMPLETED_AT :: u16 where "FIELD_COMPLETED_AT \<equiv> 0x030D"
abbreviation (input) FIELD_EXIT_CODE :: u16 where "FIELD_EXIT_CODE \<equiv> 0x030E"
abbreviation (input) FIELD_MESSAGE_ID :: u16 where "FIELD_MESSAGE_ID \<equiv> 0x0401"
abbreviation (input) FIELD_EVENT_TYPE :: u16 where "FIELD_EVENT_TYPE \<equiv> 0x0402"
abbreviation (input) FIELD_MESSAGE_PAYLOAD :: u16 where "FIELD_MESSAGE_PAYLOAD \<equiv> 0x0403"
abbreviation (input) FIELD_RESPONSE_CODE :: u16 where "FIELD_RESPONSE_CODE \<equiv> 0x0404"
abbreviation (input) FIELD_RESPONSE_MESSAGE :: u16 where "FIELD_RESPONSE_MESSAGE \<equiv> 0x0405"
abbreviation (input) FIELD_TRIGGERED :: u16 where "FIELD_TRIGGERED \<equiv> 0x0406"

section \<open>Encoder calls of the serialisers\<close>

text \<open>
  A statement such as \<^verbatim>\<open>tlv_encode_uint32(enc, tag, v);\<close> ignores the returned error; a refused
  field leaves the encoder as it was.
\<close>

definition enc_ignore :: "tlv_encoder \<Rightarrow> tlv_encoder result \<Rightarrow> tlv_encoder" where
  "enc_ignore enc r = (case r of Inl _ \<Rightarrow> enc | Inr enc' \<Rightarrow> enc')"

definition put_uint8 :: "u16 \<Rightarrow> u8 \<Rightarrow> tlv_encoder \<Rightarrow> tlv_encoder" where
  "put_uint8 tag v enc = enc_ignore enc (tlv_encode_uint8 enc tag v)"

definition put_uint32 :: "u16 \<Rightarrow> u32 \<Rightarrow> tlv_encoder \<Rightarrow> tlv_encoder" where
  "put_uint32 tag v enc = enc_ignore enc (tlv_encode_uint32 enc tag v)"

definition put_uint64 :: "u16 \<Rightarrow> u64 \<Rightarrow> tlv_encoder \<Rightarrow> tlv_encoder" where
  "put_uint64 tag v enc = enc_ignore enc (tlv_encode_uint64 enc tag v)"

definition put_int32 :: "u16 \<Rightarrow> 32 word \<Rightarrow> tlv_encoder \<Rightarrow> tlv_encoder" where
  "put_int32 tag v enc = enc_ignore enc (tlv_encode_int32 enc tag v)"

definition put_bool :: "u16 \<Rightarrow> bool \<Rightarrow> tlv_encoder \<Rightarrow> tlv_encoder" where
  "put_bool tag v enc = enc_ignore enc (tlv_encode_bool enc tag v)"

definition put_string :: "u16 \<Rightarrow> cstr \<Rightarrow> tlv_encoder \<Rightarrow> tlv_encoder" where
  "put_string tag s enc = enc_ignore enc (tlv_encode_string enc tag (Some s))"

definition put_bytes :: "u16 \<Rightarrow> bytes \<Rightarrow> tlv_encoder \<Rightarrow> tlv_encoder" where
  "put_bytes tag v enc = enc_ignore enc (tlv_encode_bytes enc tag (Some v) (length v))"

text \<open>\<^verbatim>\<open>if (p && len > 0) tlv_encode_bytes(...)\<close> and \<^verbatim>\<open>if (s) tlv_encode_string(...)\<close>.\<close>

definition put_opt_bytes :: "u16 \<Rightarrow> bytes option \<Rightarrow> tlv_encoder \<Rightarrow> tlv_encoder" where
  "put_opt_bytes tag d enc =
     (case d of None \<Rightarrow> enc | Some v \<Rightarrow> if length v > 0 then put_bytes tag v enc else enc)"

definition put_opt_string :: "u16 \<Rightarrow> cstr option \<Rightarrow> tlv_encoder \<Rightarrow> tlv_encoder" where
  "put_opt_string tag d enc = (case d of None \<Rightarrow> enc | Some s \<Rightarrow> put_string tag s enc)"

text \<open>The last statements of every serialiser: the encoder's buffer is handed to the caller.\<close>

definition finish_encoder :: "tlv_encoder \<Rightarrow> bytes result" where
  "finish_encoder enc = Inr (fst (tlv_encoder_detach enc))"

section \<open>The decode loop\<close>

text \<open>
  The frame of every \<^verbatim>\<open>deserialize_*\<close>: argument and structure checks, an optional first pass over
  the fields (its result is the first argument of the step; single-pass messages ignore it),
  the loop over the fields with the \<^verbatim>\<open>seen\<close> mask, and \<^verbatim>\<open>CHECK_REQUIRED\<close>.
\<close>

definition decode_message ::
  "(tlv_field list \<Rightarrow> 'm \<times> u32 \<Rightarrow> tlv_field \<Rightarrow> 'm \<times> u32) \<Rightarrow> 'm \<Rightarrow> u32 \<Rightarrow> bytes \<Rightarrow> 'm result" where
  "decode_message step msg0 required buf =
     (if length buf = 0 then Inl DISTRIC_ERR_INVALID_ARG
      else if \<not> tlv_validate_buffer buf then Inl DISTRIC_ERR_INVALID_FORMAT
      else (case tlv_decoder_create buf (length buf) of
              None \<Rightarrow> Inl DISTRIC_ERR_NO_MEMORY
            | Some dec \<Rightarrow>
                let first = tlv_decode_all dec;
                    (msg, seen) = foldl (step first) (msg0, 0) (tlv_decode_all (tlv_decoder_reset dec))
                in if seen AND required \<noteq> required then Inl DISTRIC_ERR_INVALID_FORMAT
                   else Inr msg))"

text \<open>
  \<^verbatim>\<open>tlv_decoder_create(field.value, field.length)\<close> and the loop over a nested blob; a NULL
  decoder (length 0) skips the loop.
\<close>

definition decode_nested :: "('e \<Rightarrow> tlv_field \<Rightarrow> 'e) \<Rightarrow> 'e \<Rightarrow> tlv_field \<Rightarrow> 'e" where
  "decode_nested step e f =
     (case tlv_decoder_create (f_value f) (unat (f_length f)) of
        None \<Rightarrow> e
      | Some nd \<Rightarrow> foldl step e (tlv_decode_all nd))"

text \<open>
  \<^verbatim>\<open>s = tlv_field_get_string(&f); if (s) strncpy(dst, s, n)\<close> and the copies of optional
  heap-allocated strings (\<^verbatim>\<open>strdup\<close>) and byte blobs (\<^verbatim>\<open>malloc\<close> and \<^verbatim>\<open>memcpy\<close>).
\<close>

definition get_cstr :: "nat \<Rightarrow> tlv_field \<Rightarrow> cstr \<Rightarrow> cstr" where
  "get_cstr n f old = (case tlv_field_get_string f of None \<Rightarrow> old | Some s \<Rightarrow> strncpy n s)"

definition get_strdup :: "tlv_field \<Rightarrow> cstr option \<Rightarrow> cstr option" where
  "get_strdup f old = (case tlv_field_get_string f of None \<Rightarrow> old | Some s \<Rightarrow> Some (cstr_of s))"

definition get_blob :: "tlv_field \<Rightarrow> bytes option \<Rightarrow> bytes option" where
  "get_blob f old =
     (case tlv_field_get_bytes f of
        (None, dlen) \<Rightarrow> old
      | (Some d, dlen) \<Rightarrow> if dlen > 0 then Some (take dlen d) else old)"

definition count_tag :: "u16 \<Rightarrow> tlv_field list \<Rightarrow> nat" where
  "count_tag tag fs = length (filter (\<lambda>f. f_tag f = tag) fs)"

section \<open>Encoder lemmas\<close>

definition fstring :: "u16 \<Rightarrow> cstr \<Rightarrow> raw_field" where
  "fstring tag s = (TLV_STRING, tag, s @ [0])"

definition opt_field :: "('a \<Rightarrow> raw_field) \<Rightarrow> 'a option \<Rightarrow> raw_field list" where
  "opt_field mk d = (case d of None \<Rightarrow> [] | Some v \<Rightarrow> [mk v])"

lemma enc_ignore_raw:
  "length v \<le> TLV_MAX_FIELD_SIZE \<Longrightarrow> n = length v \<Longrightarrow>
     enc_buffer (enc_ignore enc (tlv_encode_raw enc ty tag (Some v) n))
       = enc_buffer enc @ field_bytes (ty, tag, v)"
  using tlv_encode_raw_Some [of v enc ty tag] by (auto simp: enc_ignore_def)

lemma enc_buffer_put [simp]:
  "enc_buffer (put_uint8 tag a enc) = enc_buffer enc @ field_bytes (TLV_UINT8, tag, [a])"
  "enc_buffer (put_uint32 tag b enc) = enc_buffer enc @ field_bytes (TLV_UINT32, tag, be_bytes 4 b)"
  "enc_buffer (put_uint64 tag c enc) = enc_buffer enc @ field_bytes (TLV_UINT64, tag, be_bytes 8 c)"
  "enc_buffer (put_int32 tag b enc) = enc_buffer enc @ field_bytes (TLV_INT32, tag, be_bytes 4 b)"
  "enc_buffer (put_bool tag t enc)
     = enc_buffer enc @ field_bytes (TLV_BOOL, tag, [if t then 1 else 0])"
  by (simp_all only: put_uint8_def put_uint32_def put_uint64_def put_int32_def put_bool_def
      tlv_encode_uint8_def tlv_encode_uint32_def tlv_encode_uint64_def tlv_encode_int32_def
      tlv_encode_bool_def) (subst enc_ignore_raw; simp add: TLV_MAX_FIELD_SIZE_def)+

lemma enc_buffer_put_string [simp]:
  "length s < TLV_MAX_FIELD_SIZE \<Longrightarrow>
     enc_buffer (put_string tag s enc) = enc_buffer enc @ field_bytes (fstring tag s)"
  by (simp only: put_string_def tlv_encode_string_def option.case Let_def fstring_def not_le
      if_not_P if_False linorder_not_less [symmetric] not_not)
    (subst enc_ignore_raw; simp)

lemma enc_buffer_put_bytes [simp]:
  "length v \<le> TLV_MAX_FIELD_SIZE \<Longrightarrow>
     enc_buffer (put_bytes tag v enc) = enc_buffer enc @ field_bytes (TLV_BYTES, tag, v)"
  unfolding put_bytes_def tlv_encode_bytes_def by (subst enc_ignore_raw) simp_all

lemma enc_buffer_put_opt_bytes:
  "d \<noteq> Some [] \<Longrightarrow> (\<And>v. d = Some v \<Longrightarrow> length v \<le> TLV_MAX_FIELD_SIZE) \<Longrightarrow>
     enc_buffer (put_opt_bytes tag d enc)
       = enc_buffer enc @ encodes (opt_field (\<lambda>v. (TLV_BYTES, tag, v)) d)"
  by (cases d) (auto simp: put_opt_bytes_def opt_field_def)

lemma enc_buffer_put_opt_string:
  "(\<And>s. d = Some s \<Longrightarrow> length s < TLV_MAX_FIELD_SIZE) \<Longrightarrow>
     enc_buffer (put_opt_string tag d enc) = enc_buffer enc @ encodes (opt_field (fstring tag) d)"
  by (cases d) (auto simp: put_opt_string_def opt_field_def)

lemma enc_buffer_create [simp]: "enc_buffer (tlv_encoder_create n) = []"
  by (simp add: tlv_encoder_create_def)

lemma finish_encoder_Inr [simp]: "finish_encoder enc = Inr (enc_buffer enc)"
  by (simp add: finish_encoder_def tlv_encoder_detach_def)

lemma views_fstring [simp]:
  "views (fstring tag s # fs) rest =
     \<lparr>f_type = TLV_STRING, f_tag = tag, f_length = 1 + of_nat (length s),
      f_value = s @ 0 # encodes fs @ rest\<rparr> # views fs rest"
  by (simp add: fstring_def)

section \<open>Extractor lemmas\<close>

text \<open>What the extractors read from a field that the matching encoder call wrote.\<close>

lemma get_uint8_view [simp]:
  "tlv_field_get_uint8 \<lparr>f_type = TLV_UINT8, f_tag = t, f_length = 1, f_value = v # r\<rparr> = v"
  by (simp add: tlv_field_get_uint8_def)

lemma get_uint32_view [simp]:
  "tlv_field_get_uint32 \<lparr>f_type = TLV_UINT32, f_tag = t, f_length = 4, f_value = be_bytes 4 v @ r\<rparr> = v"
  by (simp add: tlv_field_get_uint32_def bslice_first)

lemma get_uint64_view [simp]:
  "tlv_field_get_uint64 \<lparr>f_type = TLV_UINT64, f_tag = t, f_length = 8, f_value = be_bytes 8 v @ r\<rparr> = v"
  by (simp add: tlv_field_get_uint64_def bslice_first)

lemma get_int32_view [simp]:
  "tlv_field_get_int32 \<lparr>f_type = TLV_INT32, f_tag = t, f_length = 4, f_value = be_bytes 4 v @ r\<rparr> = v"
  by (simp add: tlv_field_get_int32_def bslice_first)

lemma get_bool_view [simp]:
  "tlv_field_get_bool \<lparr>f_type = TLV_BOOL, f_tag = t, f_length = 1,
     f_value = (if b then 1 else 0) # r\<rparr> = b"
  by (simp add: tlv_field_get_bool_def)

lemma get_string_view:
  "length s < TLV_MAX_FIELD_SIZE \<Longrightarrow>
     tlv_field_get_string \<lparr>f_type = TLV_STRING, f_tag = t, f_length = 1 + of_nat (length s),
       f_value = s @ 0 # r\<rparr> = Some (s @ 0 # r)"
  using unat_of_nat_field [of "Suc (length s)"]
  by (auto simp: tlv_field_get_string_def simp del: unat_of_nat_field)

lemma get_cstr_view [simp]:
  "wf_cstr (Suc n) s \<Longrightarrow> n < TLV_MAX_FIELD_SIZE \<Longrightarrow>
     get_cstr n \<lparr>f_type = TLV_STRING, f_tag = t, f_length = 1 + of_nat (length s),
       f_value = s @ 0 # r\<rparr> old = s"
  by (simp add: get_cstr_def get_string_view wf_cstr_def strncpy_def)

lemma get_strdup_view [simp]:
  "0 \<notin> set s \<Longrightarrow> length s < TLV_MAX_FIELD_SIZE \<Longrightarrow>
     get_strdup \<lparr>f_type = TLV_STRING, f_tag = t, f_length = 1 + of_nat (length s),
       f_value = s @ 0 # r\<rparr> old = Some s"
  by (simp add: get_strdup_def get_string_view)

lemma get_blob_view [simp]:
  "v \<noteq> [] \<Longrightarrow> length v \<le> TLV_MAX_FIELD_SIZE \<Longrightarrow>
     get_blob \<lparr>f_type = TLV_BYTES, f_tag = t, f_length = of_nat (length v), f_value = v @ r\<rparr> old
       = Some v"
  by (simp add: get_blob_def tlv_field_get_bytes_def)

lemmas get_view_end [simp] =
  get_uint32_view [where r = "[]", simplified] get_uint64_view [where r = "[]", simplified]
  get_int32_view [where r = "[]", simplified] get_blob_view [where r = "[]", simplified]

section \<open>Decoding an encoded field list\<close>

definition default_string_limit :: nat where
  "default_string_limit = 2 ^ 20"

text \<open>Strings in fixed-size arrays always fit the decoder's default limit.\<close>

lemma wf_cstr_size [simp]:
  "wf_cstr n s \<Longrightarrow> n \<le> default_string_limit \<Longrightarrow> length s < TLV_MAX_FIELD_SIZE"
  by (simp add: wf_cstr_def default_string_limit_def TLV_MAX_FIELD_SIZE_def)

lemma field_fits_fstring:
  "length s < default_string_limit \<Longrightarrow> field_fits default_string_limit (fstring tag s)"
  by (simp add: fstring_def default_string_limit_def TLV_MAX_FIELD_SIZE_def)

lemma field_fits_wf_cstr [simp]:
  "wf_cstr n s \<Longrightarrow> n \<le> default_string_limit \<Longrightarrow> field_fits default_string_limit (fstring tag s)"
  by (rule field_fits_fstring) (simp add: wf_cstr_def)

lemma field_fits_bytes:
  "length v \<le> default_string_limit \<Longrightarrow> field_fits default_string_limit (ty, tag, v)"
  by (simp add: default_string_limit_def TLV_MAX_FIELD_SIZE_def)

lemma field_fits_fixed [simp]:
  "field_fits default_string_limit (ty, tag, [a])"
  "field_fits default_string_limit (ty, tag, be_bytes 4 b)"
  "field_fits default_string_limit (ty, tag, be_bytes 8 c)"
  by (simp_all add: default_string_limit_def TLV_MAX_FIELD_SIZE_def)

lemma limit_numerals [simp]:
  "64 \<le> default_string_limit" "128 \<le> default_string_limit" "256 \<le> default_string_limit"
  "63 < TLV_MAX_FIELD_SIZE" "127 < TLV_MAX_FIELD_SIZE" "255 < TLV_MAX_FIELD_SIZE"
  by (simp_all add: default_string_limit_def TLV_MAX_FIELD_SIZE_def)

lemma create_default:
  "0 < n \<Longrightarrow> tlv_decoder_create buf n
     = Some \<lparr>dec_buffer = buf, dec_length = n, dec_offset = 0, dec_max_fields = 512,
             dec_max_string_len = 0x100000, dec_fields_decoded = 0, dec_index = None\<rparr>"
  by (simp add: tlv_decoder_create_def tlv_decoder_create_with_limits_def
      protocol_limits_max_fields_def protocol_limits_max_string_def)

lemma default_views:
  assumes "tlv_decoder_create (encodes fs @ rest) (length (encodes fs)) = Some dec"
    and "\<forall>f\<in>set fs. field_fits default_string_limit f" and "length fs \<le> 512"
  shows "tlv_decode_all dec = views fs rest"
    and "tlv_decode_all (tlv_decoder_reset dec) = views fs rest"
proof -
  have len: "0 < length (encodes fs)"
    using assms(1)
    by (auto simp: tlv_decoder_create_def tlv_decoder_create_with_limits_def split: if_splits)
  note dec = assms(1) [unfolded create_default [OF len], simplified]
  show "tlv_decode_all dec = views fs rest"
    using assms(2,3) dec
    by (intro tlv_decode_all_views [where pre = "[]"])
      (auto simp: default_string_limit_def)
  show "tlv_decode_all (tlv_decoder_reset dec) = views fs rest"
    using assms(2,3) dec
    by (intro tlv_decode_all_views [where pre = "[]"])
      (auto simp: default_string_limit_def tlv_decoder_reset_def)
qed

lemma encodes_not_Nil: "fs \<noteq> [] \<Longrightarrow> 0 < length (encodes fs)"
  by (cases fs) (auto simp: write_tlv_header_def)

lemma decode_message_encodes:
  assumes "fs \<noteq> []" "length fs \<le> 512" "\<forall>f\<in>set fs. field_fits default_string_limit f"
    and "foldl (step (views fs [])) (msg0, 0) (views fs []) = (m, seen)"
    and "seen AND required = required"
  shows "decode_message step msg0 required (encodes fs) = Inr m"
proof -
  note len = encodes_not_Nil [OF assms(1)]
  obtain dec where dec: "tlv_decoder_create (encodes fs @ []) (length (encodes fs)) = Some dec"
    using create_default [OF len] by simp
  note v = default_views [OF dec assms(3,2)]
  have "tlv_validate_buffer (encodes fs)"
    using validate_loop_complete [OF field_fits_size [OF assms(3)], of "[]"]
    by (simp add: tlv_validate_buffer_def)
  with dec v len assms(4,5) show ?thesis
    by (simp add: decode_message_def Let_def)
qed

lemma decode_nested_encodes:
  assumes "fs \<noteq> []" "length fs \<le> 512" "\<forall>f\<in>set fs. field_fits default_string_limit f"
    and "length (encodes fs) \<le> TLV_MAX_FIELD_SIZE"
  shows "decode_nested step e \<lparr>f_type = ty, f_tag = t, f_length = of_nat (length (encodes fs)),
           f_value = encodes fs @ r\<rparr> = foldl step e (views fs r)"
proof -
  note len = encodes_not_Nil [OF assms(1)]
  obtain dec where dec: "tlv_decoder_create (encodes fs @ r) (length (encodes fs)) = Some dec"
    using create_default [OF len] by simp
  from default_views(1) [OF dec assms(3,2)] dec assms(4) show ?thesis
    by (simp add: decode_nested_def)
qed

lemma decode_message_format:
  "decode_message step msg0 required buf = Inr m \<Longrightarrow> tlv_validate_buffer buf \<and> buf \<noteq> []"
  by (auto simp: decode_message_def split: if_splits)

section \<open>Optional and repeated parts\<close>

definition wf_opt_string :: "cstr option \<Rightarrow> bool" where
  "wf_opt_string d \<longleftrightarrow>
     (case d of None \<Rightarrow> True | Some s \<Rightarrow> length s < default_string_limit \<and> 0 \<notin> set s)"

text \<open>A non-NULL pointer with length 0 is sent like NULL, so it is not a normal form.\<close>

definition wf_opt_bytes :: "bytes option \<Rightarrow> bool" where
  "wf_opt_bytes d \<longleftrightarrow>
     (case d of None \<Rightarrow> True | Some v \<Rightarrow> v \<noteq> [] \<and> length v \<le> default_string_limit)"

lemma size_limits [simp]:
  "length s < default_string_limit \<Longrightarrow> length s < TLV_MAX_FIELD_SIZE"
  "length v \<le> default_string_limit \<Longrightarrow> length v \<le> TLV_MAX_FIELD_SIZE"
  by (simp_all add: default_string_limit_def TLV_MAX_FIELD_SIZE_def)

lemmas opt_field_simps = opt_field_def wf_opt_string_def wf_opt_bytes_def put_opt_string_def
  put_opt_bytes_def field_fits_fstring field_fits_bytes

lemma views_append: "views (fs @ gs) rest = views fs (encodes gs @ rest) @ views gs rest"
  by (induction fs rest rule: views.induct) (auto simp: encodes_append)

lemma count_tag_views: "count_tag tag (views fs rest) = length (filter (\<lambda>f. fst (snd f) = tag) fs)"
  by (induction fs rest rule: views.induct) (auto simp: count_tag_def)

declare field_fits.simps [simp del]

section \<open>The message interface\<close>

text \<open>
  A message type: its well-formed values, its encoded field list, its serialiser, and the step,
  initial value and required mask of its deserialiser.
\<close>

locale tlv_message =
  fixes wf :: "'m \<Rightarrow> bool"
    and fields :: "'m \<Rightarrow> raw_field list"
    and ser :: "'m \<Rightarrow> bytes result"
    and step :: "tlv_field list \<Rightarrow> 'm \<times> u32 \<Rightarrow> tlv_field \<Rightarrow> 'm \<times> u32"
    and msg0 :: 'm
    and required :: u32
  assumes ser_fields: "wf m \<Longrightarrow> ser m = Inr (encodes (fields m))"
    and fields_ne: "wf m \<Longrightarrow> fields m \<noteq> []"
    and fields_count: "wf m \<Longrightarrow> length (fields m) \<le> 512"
    and fields_fit: "wf m \<Longrightarrow> f \<in> set (fields m) \<Longrightarrow> field_fits default_string_limit f"
    and step_fields: "wf m \<Longrightarrow>
      \<exists>seen. foldl (step (views (fields m) [])) (msg0, 0) (views (fields m) []) = (m, seen)
           \<and> seen AND required = required"
begin

lemma roundtrip: "wf m \<Longrightarrow> \<exists>buf. ser m = Inr buf \<and> decode_message step msg0 required buf = Inr m"
  using ser_fields fields_ne fields_count fields_fit step_fields
  by (metis decode_message_encodes)

lemma ser_validated: "wf m \<Longrightarrow> ser m = Inr buf \<Longrightarrow> tlv_validate_buffer buf \<and> buf \<noteq> []"
  using roundtrip [of m] by (auto dest: decode_message_format)

lemma ser_inject: "wf m \<Longrightarrow> wf m' \<Longrightarrow> ser m = ser m' \<Longrightarrow> m = m'"
  using roundtrip [of m] roundtrip [of m'] by force

end

end
