(* ===== verification/PeerMessages.thy ===== *)
theory PeerMessages
  imports MessageCodec
begin

unbundle bit_operations_syntax

text \<open>
  The gossip, task and client messages of \<^verbatim>\<open>libs/distric_protocol/src/messages.c\<close>, in the same
  form as the Raft messages; each interprets the locale \<open>tlv_message\<close>.
\<close>

section \<open>Ping\<close>

record gossip_ping =
  gp_sender_id :: cstr
  gp_incarnation :: u64
  gp_sequence_number :: u32

definition GP_REQUIRED :: u32 where
  "GP_REQUIRED = 1 OR 2 OR 4"

definition serialize_gossip_ping :: "gossip_ping \<Rightarrow> bytes result" where
  "serialize_gossip_ping msg =
     (let enc = tlv_encoder_create 128;
          enc = put_string FIELD_NODE_ID (gp_sender_id msg) enc;
          enc = put_uint64 FIELD_INCARNATION (gp_incarnation msg) enc;
          enc = put_uint32 FIELD_SEQUENCE_NUMBER (gp_sequence_number msg) enc
      in finish_encoder enc)"

definition gp_zero :: gossip_ping where
  "gp_zero = \<lparr>gp_sender_id = [], gp_incarnation = 0, gp_sequence_number = 0\<rparr>"

fun gp_step :: "gossip_ping \<times> u32 \<Rightarrow> tlv_field \<Rightarrow> gossip_ping \<times> u32" where
  "gp_step (msg, seen) f =
     (if f_tag f = FIELD_NODE_ID then
        (msg\<lparr>gp_sender_id := get_cstr 63 f (gp_sender_id msg)\<rparr>, seen OR 1)
      else if f_tag f = FIELD_INCARNATION then
        (msg\<lparr>gp_incarnation := tlv_field_get_uint64 f\<rparr>, seen OR 2)
      else if f_tag f = FIELD_SEQUENCE_NUMBER then
        (msg\<lparr>gp_sequence_number := tlv_field_get_uint32 f\<rparr>, seen OR 4)
      else (msg, seen))"

definition deserialize_gossip_ping :: "bytes \<Rightarrow> gossip_ping result" where
  "deserialize_gossip_ping = decode_message (\<lambda>_. gp_step) gp_zero GP_REQUIRED"

definition gp_wf :: "gossip_ping \<Rightarrow> bool" where
  "gp_wf m \<longleftrightarrow> wf_cstr 64 (gp_sender_id m)"

definition gp_fields :: "gossip_ping \<Rightarrow> raw_field list" where
  "gp_fields m =
     [fstring FIELD_NODE_ID (gp_sender_id m),
      (TLV_UINT64, FIELD_INCARNATION, be_bytes 8 (gp_incarnation m)),
      (TLV_UINT32, FIELD_SEQUENCE_NUMBER, be_bytes 4 (gp_sequence_number m))]"

lemmas gp_defs = gp_wf_def gp_fields_def gp_zero_def GP_REQUIRED_def serialize_gossip_ping_def

interpretation gp: tlv_message gp_wf gp_fields serialize_gossip_ping "\<lambda>_. gp_step" gp_zero GP_REQUIRED
  by unfold_locales (auto simp: gp_defs Let_def)

section \<open>Ack\<close>

record gossip_ack =
  ga_sender_id :: cstr
  ga_incarnation :: u64
  ga_sequence_number :: u32

definition GA_REQUIRED :: u32 where
  "GA_REQUIRED = 1 OR 2 OR 4"

definition serialize_gossip_ack :: "gossip_ack \<Rightarrow> bytes result" where
  "serialize_gossip_ack msg =
     (let enc = tlv_encoder_create 128;
          enc = put_string FIELD_NODE_ID (ga_sender_id msg) enc;
          enc = put_uint64 FIELD_INCARNATION (ga_incarnation msg) enc;
          enc = put_uint32 FIELD_SEQUENCE_NUMBER (ga_sequence_number msg) enc
      in finish_encoder enc)"

definition ga_zero :: gossip_ack where
  "ga_zero = \<lparr>ga_sender_id = [], ga_incarnation = 0, ga_sequence_number = 0\<rparr>"

fun ga_step :: "gossip_ack \<times> u32 \<Rightarrow> tlv_field \<Rightarrow> gossip_ack \<times> u32" where
  "ga_step (msg, seen) f =
     (if f_tag f = FIELD_NODE_ID then
        (msg\<lparr>ga_sender_id := get_cstr 63 f (ga_sender_id msg)\<rparr>, seen OR 1)
      else if f_tag f = FIELD_INCARNATION then
        (msg\<lparr>ga_incarnation := tlv_field_get_uint64 f\<rparr>, seen OR 2)
      else if f_tag f = FIELD_SEQUENCE_NUMBER then
        (msg\<lparr>ga_sequence_number := tlv_field_get_uint32 f\<rparr>, seen OR 4)
      else (msg, seen))"

definition deserialize_gossip_ack :: "bytes \<Rightarrow> gossip_ack result" where
  "deserialize_gossip_ack = decode_message (\<lambda>_. ga_step) ga_zero GA_REQUIRED"

definition ga_wf :: "gossip_ack \<Rightarrow> bool" where
  "ga_wf m \<longleftrightarrow> wf_cstr 64 (ga_sender_id m)"

definition ga_fields :: "gossip_ack \<Rightarrow> raw_field list" where
  "ga_fields m =
     [fstring FIELD_NODE_ID (ga_sender_id m),
      (TLV_UINT64, FIELD_INCARNATION, be_bytes 8 (ga_incarnation m)),
      (TLV_UINT32, FIELD_SEQUENCE_NUMBER, be_bytes 4 (ga_sequence_number m))]"

lemmas ga_defs = ga_wf_def ga_fields_def ga_zero_def GA_REQUIRED_def serialize_gossip_ack_def

interpretation ga: tlv_message ga_wf ga_fields serialize_gossip_ack "\<lambda>_. ga_step" ga_zero GA_REQUIRED
  by unfold_locales (auto simp: ga_defs Let_def)

section \<open>Indirect ping\<close>

record gossip_indirect_ping =
  gip_sender_id :: cstr
  gip_target_id :: cstr
  gip_sequence_number :: u32

definition GIP_REQUIRED :: u32 where
  "GIP_REQUIRED = 1 OR 2 OR 4"

definition serialize_gossip_indirect_ping :: "gossip_indirect_ping \<Rightarrow> bytes result" where
  "serialize_gossip_indirect_ping msg =
     (let enc = tlv_encoder_create 128;
          enc = put_string FIELD_NODE_ID (gip_sender_id msg) enc;
          enc = put_string FIELD_TARGET_ID (gip_target_id msg) enc;
          enc = put_uint32 FIELD_SEQUENCE_NUMBER (gip_sequence_number msg) enc
      in finish_encoder enc)"

definition gip_zero :: gossip_indirect_ping where
  "gip_zero = \<lparr>gip_sender_id = [], gip_target_id = [], gip_sequence_number = 0\<rparr>"

fun gip_step :: "gossip_indirect_ping \<times> u32 \<Rightarrow> tlv_field \<Rightarrow> gossip_indirect_ping \<times> u32" where
  "gip_step (msg, seen) f =
     (if f_tag f = FIELD_NODE_ID then
        (msg\<lparr>gip_sender_id := get_cstr 63 f (gip_sender_id msg)\<rparr>, seen OR 1)
      else if f_tag f = FIELD_TARGET_ID then
        (msg\<lparr>gip_target_id := get_cstr 63 f (gip_target_id msg)\<rparr>, seen OR 2)
      else if f_tag f = FIELD_SEQUENCE_NUMBER then
        (msg\<lparr>gip_sequence_number := tlv_field_get_uint32 f\<rparr>, seen OR 4)
      else (msg, seen))"

definition deserialize_gossip_indirect_ping :: "bytes \<Rightarrow> gossip_indirect_ping result" where
  "deserialize_gossip_indirect_ping = decode_message (\<lambda>_. gip_step) gip_zero GIP_REQUIRED"

definition gip_wf :: "gossip_indirect_ping \<Rightarrow> bool" where
  "gip_wf m \<longleftrightarrow> wf_cstr 64 (gip_sender_id m)
     \<and> wf_cstr 64 (gip_target_id m)"

definition gip_fields :: "gossip_indirect_ping \<Rightarrow> raw_field list" where
  "gip_fields m =
     [fstring FIELD_NODE_ID (gip_sender_id m),
      fstring FIELD_TARGET_ID (gip_target_id m),
      (TLV_UINT32, FIELD_SEQUENCE_NUMBER, be_bytes 4 (gip_sequence_number m))]"

lemmas gip_defs = gip_wf_def gip_fields_def gip_zero_def GIP_REQUIRED_def serialize_gossip_indirect_ping_def

interpretation gip: tlv_message gip_wf gip_fields serialize_gossip_indirect_ping "\<lambda>_. gip_step" gip_zero GIP_REQUIRED
  by unfold_locales (auto simp: gip_defs Let_def)

section \<open>Membership update\<close>

record gossip_node_info_wire =
  ni_node_id :: cstr
  ni_address :: cstr
  ni_port :: u16
  ni_state :: u32
  ni_role :: u32
  ni_incarnation :: u64
  ni_cpu_usage :: u8
  ni_memory_usage :: u8

record gossip_membership_update =
  gmu_sender_id :: cstr
  gmu_updates :: "gossip_node_info_wire list"

definition GMU_REQUIRED :: u32 where
  "GMU_REQUIRED = 1"

definition encode_node_info :: "gossip_node_info_wire \<Rightarrow> bytes" where
  "encode_node_info node =
     (let ne = tlv_encoder_create 256;
          ne = put_string FIELD_NODE_ID (ni_node_id node) ne;
          ne = put_string FIELD_NODE_ADDRESS (ni_address node) ne;
          ne = put_uint32 FIELD_NODE_PORT (ucast (ni_port node)) ne;
          ne = put_uint32 FIELD_NODE_STATE (ni_state node) ne;
          ne = put_uint32 FIELD_NODE_ROLE (ni_role node) ne;
          ne = put_uint64 FIELD_INCARNATION (ni_incarnation node) ne;
          ne = put_uint8 FIELD_CPU_USAGE (ni_cpu_usage node) ne;
          ne = put_uint8 FIELD_MEMORY_USAGE (ni_memory_usage node) ne
      in fst (tlv_encoder_detach ne))"

definition serialize_gossip_membership_update :: "gossip_membership_update \<Rightarrow> bytes result" where
  "serialize_gossip_membership_update msg =
     (let enc = tlv_encoder_create 512;
          enc = put_string FIELD_NODE_ID (gmu_sender_id msg) enc;
          enc = foldl (\<lambda>enc node. put_bytes FIELD_NODE_INFO (encode_node_info node) enc) enc
                  (gmu_updates msg)
      in finish_encoder enc)"

definition ni_zero :: gossip_node_info_wire where
  "ni_zero = \<lparr>ni_node_id = [], ni_address = [], ni_port = 0, ni_state = 0, ni_role = 0,
     ni_incarnation = 0, ni_cpu_usage = 0, ni_memory_usage = 0\<rparr>"

definition gmu_zero :: gossip_membership_update where
  "gmu_zero = \<lparr>gmu_sender_id = [], gmu_updates = []\<rparr>"

definition ni_step :: "gossip_node_info_wire \<Rightarrow> tlv_field \<Rightarrow> gossip_node_info_wire" where
  "ni_step n nf =
     (if f_tag nf = FIELD_NODE_ID then n\<lparr>ni_node_id := get_cstr 63 nf (ni_node_id n)\<rparr>
      else if f_tag nf = FIELD_NODE_ADDRESS then n\<lparr>ni_address := get_cstr 255 nf (ni_address n)\<rparr>
      else if f_tag nf = FIELD_NODE_PORT then n\<lparr>ni_port := ucast (tlv_field_get_uint32 nf)\<rparr>
      else if f_tag nf = FIELD_NODE_STATE then n\<lparr>ni_state := tlv_field_get_uint32 nf\<rparr>
      else if f_tag nf = FIELD_NODE_ROLE then n\<lparr>ni_role := tlv_field_get_uint32 nf\<rparr>
      else if f_tag nf = FIELD_INCARNATION then n\<lparr>ni_incarnation := tlv_field_get_uint64 nf\<rparr>
      else if f_tag nf = FIELD_CPU_USAGE then n\<lparr>ni_cpu_usage := tlv_field_get_uint8 nf\<rparr>
      else if f_tag nf = FIELD_MEMORY_USAGE then n\<lparr>ni_memory_usage := tlv_field_get_uint8 nf\<rparr>
      else n)"

fun gmu_step :: "tlv_field list \<Rightarrow> gossip_membership_update \<times> u32 \<Rightarrow> tlv_field
    \<Rightarrow> gossip_membership_update \<times> u32" where
  "gmu_step first (msg, seen) f =
     (if f_tag f = FIELD_NODE_ID then
        (msg\<lparr>gmu_sender_id := get_cstr 63 f (gmu_sender_id msg)\<rparr>, seen OR 1)
      else if f_tag f = FIELD_NODE_INFO then
        (if length (gmu_updates msg) \<ge> count_tag FIELD_NODE_INFO first then (msg, seen)
         else (msg\<lparr>gmu_updates := gmu_updates msg @ [decode_nested ni_step ni_zero f]\<rparr>, seen))
      else (msg, seen))"

definition deserialize_gossip_membership_update :: "bytes \<Rightarrow> gossip_membership_update result" where
  "deserialize_gossip_membership_update = decode_message gmu_step gmu_zero GMU_REQUIRED"

definition ni_wf :: "gossip_node_info_wire \<Rightarrow> bool" where
  "ni_wf n \<longleftrightarrow> wf_cstr 64 (ni_node_id n) \<and> wf_cstr 256 (ni_address n)"

definition gmu_wf :: "gossip_membership_update \<Rightarrow> bool" where
  "gmu_wf m \<longleftrightarrow> wf_cstr 64 (gmu_sender_id m) \<and> length (gmu_updates m) \<le> 511
     \<and> (\<forall>n\<in>set (gmu_updates m). ni_wf n)"

definition ni_fields :: "gossip_node_info_wire \<Rightarrow> raw_field list" where
  "ni_fields n =
     [fstring FIELD_NODE_ID (ni_node_id n), fstring FIELD_NODE_ADDRESS (ni_address n),
      (TLV_UINT32, FIELD_NODE_PORT, be_bytes 4 (ucast (ni_port n) :: u32)),
      (TLV_UINT32, FIELD_NODE_STATE, be_bytes 4 (ni_state n)),
      (TLV_UINT32, FIELD_NODE_ROLE, be_bytes 4 (ni_role n)),
      (TLV_UINT64, FIELD_INCARNATION, be_bytes 8 (ni_incarnation n)),
      (TLV_UINT8, FIELD_CPU_USAGE, [ni_cpu_usage n]),
      (TLV_UINT8, FIELD_MEMORY_USAGE, [ni_memory_usage n])]"

definition node_field :: "gossip_node_info_wire \<Rightarrow> raw_field" where
  "node_field n = (TLV_BYTES, FIELD_NODE_INFO, encodes (ni_fields n))"

definition gmu_fields :: "gossip_membership_update \<Rightarrow> raw_field list" where
  "gmu_fields m = fstring FIELD_NODE_ID (gmu_sender_id m) # map node_field (gmu_updates m)"

lemma ucast_port_u32 [simp]: "ucast (ucast (p :: u16) :: u32) = p"
  by (rule bit_word_eqI) (simp add: bit_simps)

lemma length_ni_fields: "ni_wf n \<Longrightarrow> length (encodes (ni_fields n)) \<le> default_string_limit"
  by (simp add: ni_fields_def ni_wf_def wf_cstr_def fstring_def TLV_HEADER_SIZE_def
      default_string_limit_def)

lemma encode_node_info_fields: "ni_wf n \<Longrightarrow> encode_node_info n = encodes (ni_fields n)"
  by (auto simp: encode_node_info_def ni_fields_def ni_wf_def Let_def tlv_encoder_detach_def)

lemma decode_node_info:
  assumes "ni_wf n"
  shows "decode_nested ni_step ni_zero
    \<lparr>f_type = ty, f_tag = t, f_length = of_nat (length (encodes (ni_fields n))),
     f_value = encodes (ni_fields n) @ r\<rparr> = n"
proof -
  have "foldl ni_step ni_zero (views (ni_fields n) r) = n"
    using assms by (cases n) (simp add: ni_fields_def ni_wf_def ni_step_def ni_zero_def)
  moreover have "\<forall>f\<in>set (ni_fields n). field_fits default_string_limit f"
    using assms by (auto simp: ni_fields_def ni_wf_def)
  moreover have "ni_fields n \<noteq> []" "length (ni_fields n) \<le> 512"
    by (simp_all add: ni_fields_def)
  ultimately show ?thesis
    using length_ni_fields [OF assms] by (subst decode_nested_encodes) simp_all
qed

lemma foldl_put_nodes:
  "\<forall>n\<in>set ns. ni_wf n \<Longrightarrow>
     enc_buffer (foldl (\<lambda>enc node. put_bytes FIELD_NODE_INFO (encode_node_info node) enc) enc ns)
       = enc_buffer enc @ encodes (map node_field ns)"
  by (induction ns arbitrary: enc)
    (simp_all add: encode_node_info_fields length_ni_fields node_field_def)

lemma foldl_gmu_nodes:
  "\<forall>n\<in>set ns. ni_wf n \<Longrightarrow> length (gmu_updates m) + length ns \<le> count_tag FIELD_NODE_INFO first \<Longrightarrow>
     foldl (gmu_step first) (m, seen) (views (map node_field ns) rest)
       = (m\<lparr>gmu_updates := gmu_updates m @ ns\<rparr>, seen)"
  by (induction ns arbitrary: m) (simp_all add: node_field_def decode_node_info)

lemma count_node_fields: "count_tag FIELD_NODE_INFO (views (gmu_fields m) rest) = length (gmu_updates m)"
  unfolding count_tag_views
  by (simp add: gmu_fields_def fstring_def node_field_def filter_map comp_def)

interpretation gmu: tlv_message gmu_wf gmu_fields serialize_gossip_membership_update gmu_step
  gmu_zero GMU_REQUIRED
proof
  fix m f
  assume wf: "gmu_wf m"
  then show "serialize_gossip_membership_update m = Inr (encodes (gmu_fields m))"
    by (auto simp: serialize_gossip_membership_update_def gmu_wf_def gmu_fields_def Let_def foldl_put_nodes)
  show "gmu_fields m \<noteq> []" "length (gmu_fields m) \<le> 512"
    using wf by (simp_all add: gmu_wf_def gmu_fields_def)
  show "f \<in> set (gmu_fields m) \<Longrightarrow> field_fits default_string_limit f"
    using wf by (auto simp: gmu_wf_def gmu_fields_def node_field_def length_ni_fields field_fits_bytes)
  show "\<exists>seen. foldl (gmu_step (views (gmu_fields m) [])) (gmu_zero, 0) (views (gmu_fields m) [])
      = (m, seen) \<and> seen AND GMU_REQUIRED = GMU_REQUIRED"
    using wf count_node_fields [of m "[]"]
    by (subst (2) gmu_fields_def) (auto simp: gmu_wf_def gmu_zero_def GMU_REQUIRED_def foldl_gmu_nodes)
qed

section \<open>Task assignment\<close>

record task_assignment =
  ta_task_id :: cstr
  ta_workflow_id :: cstr
  ta_task_type :: cstr
  ta_config_json :: "cstr option"
  ta_input_data :: "bytes option"
  ta_timeout_sec :: u32
  ta_retry_count :: u32

definition TA_REQUIRED :: u32 where
  "TA_REQUIRED = 1 OR 2 OR 4 OR 8"

definition serialize_task_assignment :: "task_assignment \<Rightarrow> bytes result" where
  "serialize_task_assignment msg =
     (let enc = tlv_encoder_create 512;
          enc = put_string FIELD_TASK_ID (ta_task_id msg) enc;
          enc = put_string FIELD_WORKFLOW_ID (ta_workflow_id msg) enc;
          enc = put_string FIELD_TASK_TYPE (ta_task_type msg) enc;
          enc = put_uint32 FIELD_TIMEOUT_SEC (ta_timeout_sec msg) enc;
          enc = put_uint32 FIELD_RETRY_COUNT (ta_retry_count msg) enc;
          enc = put_opt_string FIELD_TASK_CONFIG (ta_config_json msg) enc;
          enc = put_opt_bytes FIELD_TASK_INPUT (ta_input_data msg) enc
      in finish_encoder enc)"

definition ta_zero :: task_assignment where
  "ta_zero = \<lparr>ta_task_id = [], ta_workflow_id = [], ta_task_type = [], ta_config_json = None,
     ta_input_data = None, ta_timeout_sec = 0, ta_retry_count = 0\<rparr>"

fun ta_step :: "task_assignment \<times> u32 \<Rightarrow> tlv_field \<Rightarrow> task_assignment \<times> u32" where
  "ta_step (msg, seen) f =
     (if f_tag f = FIELD_TASK_ID then
        (msg\<lparr>ta_task_id := get_cstr 127 f (ta_task_id msg)\<rparr>, seen OR 1)
      else if f_tag f = FIELD_WORKFLOW_ID then
        (msg\<lparr>ta_workflow_id := get_cstr 127 f (ta_workflow_id msg)\<rparr>, seen OR 2)
      else if f_tag f = FIELD_TASK_TYPE then
        (msg\<lparr>ta_task_type := get_cstr 63 f (ta_task_type msg)\<rparr>, seen OR 4)
      else if f_tag f = FIELD_TIMEOUT_SEC then
        (msg\<lparr>ta_timeout_sec := tlv_field_get_uint32 f\<rparr>, seen OR 8)
      else if f_tag f = FIELD_RETRY_COUNT then
        (msg\<lparr>ta_retry_count := tlv_field_get_uint32 f\<rparr>, seen)
      else if f_tag f = FIELD_TASK_CONFIG then
        (msg\<lparr>ta_config_json := get_strdup f (ta_config_json msg)\<rparr>, seen)
      else if f_tag f = FIELD_TASK_INPUT then
        (msg\<lparr>ta_input_data := get_blob f (ta_input_data msg)\<rparr>, seen)
      else (msg, seen))"

definition deserialize_task_assignment :: "bytes \<Rightarrow> task_assignment result" where
  "deserialize_task_assignment = decode_message (\<lambda>_. ta_step) ta_zero TA_REQUIRED"

definition ta_wf :: "task_assignment \<Rightarrow> bool" where
  "ta_wf m \<longleftrightarrow> wf_cstr 128 (ta_task_id m)
     \<and> wf_cstr 128 (ta_workflow_id m)
     \<and> wf_cstr 64 (ta_task_type m)
     \<and> wf_opt_string (ta_config_json m)
     \<and> wf_opt_bytes (ta_input_data m)"

definition ta_fields :: "task_assignment \<Rightarrow> raw_field list" where
  "ta_fields m =
     [fstring FIELD_TASK_ID (ta_task_id m),
      fstring FIELD_WORKFLOW_ID (ta_workflow_id m),
      fstring FIELD_TASK_TYPE (ta_task_type m),
      (TLV_UINT32, FIELD_TIMEOUT_SEC, be_bytes 4 (ta_timeout_sec m)),
      (TLV_UINT32, FIELD_RETRY_COUNT, be_bytes 4 (ta_retry_count m))]
     @ opt_field (fstring FIELD_TASK_CONFIG) (ta_config_json m)
     @ opt_field (\<lambda>v. (TLV_BYTES, FIELD_TASK_INPUT, v)) (ta_input_data m)"

lemmas ta_defs = ta_wf_def ta_fields_def ta_zero_def TA_REQUIRED_def serialize_task_assignment_def

interpretation ta: tlv_message ta_wf ta_fields serialize_task_assignment "\<lambda>_. ta_step" ta_zero TA_REQUIRED
  by unfold_locales (auto simp: ta_defs Let_def opt_field_simps split: option.splits)

section \<open>Task result\<close>

record task_result =
  tr_task_id :: cstr
  tr_worker_id :: cstr
  tr_status :: u32
  tr_output_data :: "bytes option"
  tr_error_message :: "cstr option"
  tr_exit_code :: "32 word"
  tr_started_at :: u64
  tr_completed_at :: u64

definition TR_REQUIRED :: u32 where
  "TR_REQUIRED = 1 OR 2 OR 4"

definition serialize_task_result :: "task_result \<Rightarrow> bytes result" where
  "serialize_task_result msg =
     (let enc = tlv_encoder_create 1024;
          enc = put_string FIELD_TASK_ID (tr_task_id msg) enc;
          enc = put_string FIELD_WORKER_ID (tr_worker_id msg) enc;
          enc = put_uint32 FIELD_TASK_STATUS (tr_status msg) enc;
          enc = put_opt_bytes FIELD_TASK_OUTPUT (tr_output_data msg) enc;
          enc = put_opt_string FIELD_TASK_ERROR (tr_error_message msg) enc;
          enc = put_int32 FIELD_EXIT_CODE (tr_exit_code msg) enc;
          enc = put_uint64 FIELD_STARTED_AT (tr_started_at msg) enc;
          enc = put_uint64 FIELD_COMPLETED_AT (tr_completed_at msg) enc
      in finish_encoder enc)"

definition tr_zero :: task_result where
  "tr_zero = \<lparr>tr_task_id = [], tr_worker_id = [], tr_status = 0, tr_output_data = None,
     tr_error_message = None, tr_exit_code = 0, tr_started_at = 0, tr_completed_at = 0\<rparr>"

fun tr_step :: "task_result \<times> u32 \<Rightarrow> tlv_field \<Rightarrow> task_result \<times> u32" where
  "tr_step (msg, seen) f =
     (if f_tag f = FIELD_TASK_ID then
        (msg\<lparr>tr_task_id := get_cstr 127 f (tr_task_id msg)\<rparr>, seen OR 1)
      else if f_tag f = FIELD_WORKER_ID then
        (msg\<lparr>tr_worker_id := get_cstr 63 f (tr_worker_id msg)\<rparr>, seen OR 2)
      else if f_tag f = FIELD_TASK_STATUS then
        (msg\<lparr>tr_status := tlv_field_get_uint32 f\<rparr>, seen OR 4)
      else if f_tag f = FIELD_TASK_OUTPUT then
        (msg\<lparr>tr_output_data := get_blob f (tr_output_data msg)\<rparr>, seen)
      else if f_tag f = FIELD_TASK_ERROR then
        (msg\<lparr>tr_error_message := get_strdup f (tr_error_message msg)\<rparr>, seen)
      else if f_tag f = FIELD_EXIT_CODE then
        (msg\<lparr>tr_exit_code := tlv_field_get_int32 f\<rparr>, seen)
      else if f_tag f = FIELD_STARTED_AT then
        (msg\<lparr>tr_started_at := tlv_field_get_uint64 f\<rparr>, seen)
      else if f_tag f = FIELD_COMPLETED_AT then
        (msg\<lparr>tr_completed_at := tlv_field_get_uint64 f\<rparr>, seen)
      else (msg, seen))"

definition deserialize_task_result :: "bytes \<Rightarrow> task_result result" where
  "deserialize_task_result = decode_message (\<lambda>_. tr_step) tr_zero TR_REQUIRED"

definition tr_wf :: "task_result \<Rightarrow> bool" where
  "tr_wf m \<longleftrightarrow> wf_cstr 128 (tr_task_id m)
     \<and> wf_cstr 64 (tr_worker_id m)
     \<and> wf_opt_bytes (tr_output_data m)
     \<and> wf_opt_string (tr_error_message m)"

definition tr_fields :: "task_result \<Rightarrow> raw_field list" where
  "tr_fields m =
     [fstring FIELD_TASK_ID (tr_task_id m),
      fstring FIELD_WORKER_ID (tr_worker_id m),
      (TLV_UINT32, FIELD_TASK_STATUS, be_bytes 4 (tr_status m))]
     @ opt_field (\<lambda>v. (TLV_BYTES, FIELD_TASK_OUTPUT, v)) (tr_output_data m)
     @ opt_field (fstring FIELD_TASK_ERROR) (tr_error_message m)
     @ [(TLV_INT32, FIELD_EXIT_CODE, be_bytes 4 (tr_exit_code m)),
      (TLV_UINT64, FIELD_STARTED_AT, be_bytes 8 (tr_started_at m)),
      (TLV_UINT64, FIELD_COMPLETED_AT, be_bytes 8 (tr_completed_at m))]"

lemmas tr_defs = tr_wf_def tr_fields_def tr_zero_def TR_REQUIRED_def serialize_task_result_def

interpretation tr: tlv_message tr_wf tr_fields serialize_task_result "\<lambda>_. tr_step" tr_zero TR_REQUIRED
  by unfold_locales (auto simp: tr_defs Let_def opt_field_simps split: option.splits)

section \<open>Client submit\<close>

record client_submit =
  cs_message_id :: cstr
  cs_event_type :: cstr
  cs_payload_json :: "cstr option"
  cs_timestamp :: u64

definition CS_REQUIRED :: u32 where
  "CS_REQUIRED = 1 OR 2 OR 4"

definition serialize_client_submit :: "client_submit \<Rightarrow> bytes result" where
  "serialize_client_submit msg =
     (let enc = tlv_encoder_create 512;
          enc = put_string FIELD_MESSAGE_ID (cs_message_id msg) enc;
          enc = put_string FIELD_EVENT_TYPE (cs_event_type msg) enc;
          enc = put_uint64 FIELD_TIMESTAMP (cs_timestamp msg) enc;
          enc = put_opt_string FIELD_MESSAGE_PAYLOAD (cs_payload_json msg) enc
      in finish_encoder enc)"

definition cs_zero :: client_submit where
  "cs_zero = \<lparr>cs_message_id = [], cs_event_type = [],
     cs_payload_json = None, cs_timestamp = 0\<rparr>"

fun cs_step :: "client_submit \<times> u32 \<Rightarrow> tlv_field \<Rightarrow> client_submit \<times> u32" where
  "cs_step (msg, seen) f =
     (if f_tag f = FIELD_MESSAGE_ID then
        (msg\<lparr>cs_message_id := get_cstr 127 f (cs_message_id msg)\<rparr>, seen OR 1)
      else if f_tag f = FIELD_EVENT_TYPE then
        (msg\<lparr>cs_event_type := get_cstr 63 f (cs_event_type msg)\<rparr>, seen OR 2)
      else if f_tag f = FIELD_TIMESTAMP then
        (msg\<lparr>cs_timestamp := tlv_field_get_uint64 f\<rparr>, seen OR 4)
      else if f_tag f = FIELD_MESSAGE_PAYLOAD then
        (msg\<lparr>cs_payload_json := get_strdup f (cs_payload_json msg)\<rparr>, seen)
      else (msg, seen))"

definition deserialize_client_submit :: "bytes \<Rightarrow> client_submit result" where
  "deserialize_client_submit = decode_message (\<lambda>_. cs_step) cs_zero CS_REQUIRED"

definition cs_wf :: "client_submit \<Rightarrow> bool" where
  "cs_wf m \<longleftrightarrow> wf_cstr 128 (cs_message_id m)
     \<and> wf_cstr 64 (cs_event_type m)
     \<and> wf_opt_string (cs_payload_json m)"

definition cs_fields :: "client_submit \<Rightarrow> raw_field list" where
  "cs_fields m =
     [fstring FIELD_MESSAGE_ID (cs_message_id m),
      fstring FIELD_EVENT_TYPE (cs_event_type m),
      (TLV_UINT64, FIELD_TIMESTAMP, be_bytes 8 (cs_timestamp m))]
     @ opt_field (fstring FIELD_MESSAGE_PAYLOAD) (cs_payload_json m)"

lemmas cs_defs = cs_wf_def cs_fields_def cs_zero_def CS_REQUIRED_def serialize_client_submit_def

interpretation cs: tlv_message cs_wf cs_fields serialize_client_submit "\<lambda>_. cs_step" cs_zero CS_REQUIRED
  by unfold_locales (auto simp: cs_defs Let_def opt_field_simps split: option.splits)

section \<open>Client response\<close>

text \<open>\<^verbatim>\<open>workflows_triggered\<close> is an array of nullable strings; NULL slots are not sent.\<close>

record client_response =
  cr_message_id :: cstr
  cr_response_code :: u32
  cr_response_message :: "cstr option"
  cr_workflows_triggered :: "cstr option list"

definition CR_REQUIRED :: u32 where
  "CR_REQUIRED = 1 OR 2"

definition serialize_client_response :: "client_response \<Rightarrow> bytes result" where
  "serialize_client_response msg =
     (let enc = tlv_encoder_create 512;
          enc = put_string FIELD_MESSAGE_ID (cr_message_id msg) enc;
          enc = put_uint32 FIELD_RESPONSE_CODE (cr_response_code msg) enc;
          enc = put_opt_string FIELD_RESPONSE_MESSAGE (cr_response_message msg) enc;
          enc = foldl (\<lambda>enc w. put_opt_string FIELD_TRIGGERED w enc) enc (cr_workflows_triggered msg)
      in finish_encoder enc)"

definition cr_zero :: client_response where
  "cr_zero = \<lparr>cr_message_id = [], cr_response_code = 0, cr_response_message = None,
     cr_workflows_triggered = []\<rparr>"

fun cr_step :: "tlv_field list \<Rightarrow> client_response \<times> u32 \<Rightarrow> tlv_field \<Rightarrow> client_response \<times> u32" where
  "cr_step first (msg, seen) f =
     (if f_tag f = FIELD_MESSAGE_ID then
        (msg\<lparr>cr_message_id := get_cstr 127 f (cr_message_id msg)\<rparr>, seen OR 1)
      else if f_tag f = FIELD_RESPONSE_CODE then
        (msg\<lparr>cr_response_code := tlv_field_get_uint32 f\<rparr>, seen OR 2)
      else if f_tag f = FIELD_RESPONSE_MESSAGE then
        (msg\<lparr>cr_response_message := get_strdup f (cr_response_message msg)\<rparr>, seen)
      else if f_tag f = FIELD_TRIGGERED then
        (if length (cr_workflows_triggered msg) < count_tag FIELD_TRIGGERED first then
           (case get_strdup f None of
              None \<Rightarrow> (msg, seen)
            | Some s \<Rightarrow>
                (msg\<lparr>cr_workflows_triggered := cr_workflows_triggered msg @ [Some s]\<rparr>, seen))
         else (msg, seen))
      else (msg, seen))"

definition deserialize_client_response :: "bytes \<Rightarrow> client_response result" where
  "deserialize_client_response = decode_message cr_step cr_zero CR_REQUIRED"

definition cr_wf :: "client_response \<Rightarrow> bool" where
  "cr_wf m \<longleftrightarrow> wf_cstr 128 (cr_message_id m) \<and> wf_opt_string (cr_response_message m)
     \<and> (\<forall>w\<in>set (cr_workflows_triggered m). w \<noteq> None \<and> wf_opt_string w)
     \<and> length (cr_workflows_triggered m) \<le> 509"

definition workflow_fields :: "cstr option list \<Rightarrow> raw_field list" where
  "workflow_fields ws = concat (map (opt_field (fstring FIELD_TRIGGERED)) ws)"

definition cr_fields :: "client_response \<Rightarrow> raw_field list" where
  "cr_fields m =
     [fstring FIELD_MESSAGE_ID (cr_message_id m),
      (TLV_UINT32, FIELD_RESPONSE_CODE, be_bytes 4 (cr_response_code m))]
     @ opt_field (fstring FIELD_RESPONSE_MESSAGE) (cr_response_message m)
     @ workflow_fields (cr_workflows_triggered m)"

lemma enc_buffer_opt_wf:
  "wf_opt_string w \<Longrightarrow>
     enc_buffer (put_opt_string tag w enc) = enc_buffer enc @ encodes (opt_field (fstring tag) w)"
  by (auto simp: opt_field_simps split: option.splits)

lemma foldl_put_workflows:
  "\<forall>w\<in>set ws. w \<noteq> None \<and> wf_opt_string w \<Longrightarrow>
     enc_buffer (foldl (\<lambda>enc w. put_opt_string FIELD_TRIGGERED w enc) enc ws)
       = enc_buffer enc @ encodes (workflow_fields ws)"
  by (induction ws arbitrary: enc)
    (simp_all add: enc_buffer_opt_wf workflow_fields_def encodes_append)

lemma length_workflow_fields:
  "\<forall>w\<in>set ws. w \<noteq> None \<and> wf_opt_string w \<Longrightarrow> length (workflow_fields ws) = length ws"
  by (induction ws) (auto simp: workflow_fields_def opt_field_def)

lemma count_workflow_fields:
  assumes "\<forall>w\<in>set (cr_workflows_triggered m). w \<noteq> None \<and> wf_opt_string w"
  shows "count_tag FIELD_TRIGGERED (views (cr_fields m) rest) = length (cr_workflows_triggered m)"
proof -
  have "filter (\<lambda>f. fst (snd f) = FIELD_TRIGGERED) (workflow_fields ws) = workflow_fields ws" for ws
    by (induction ws) (auto simp: workflow_fields_def opt_field_def fstring_def split: option.splits)
  then show ?thesis
    using length_workflow_fields [OF assms] unfolding count_tag_views
    by (auto simp: cr_fields_def opt_field_def fstring_def split: option.splits)
qed

lemma foldl_cr_workflows:
  "\<forall>w\<in>set ws. w \<noteq> None \<and> wf_opt_string w \<Longrightarrow>
   length (cr_workflows_triggered m) + length ws \<le> count_tag FIELD_TRIGGERED first \<Longrightarrow>
     foldl (cr_step first) (m, seen) (views (workflow_fields ws) rest)
       = (m\<lparr>cr_workflows_triggered := cr_workflows_triggered m @ ws\<rparr>, seen)"
proof (induction ws arbitrary: m)
  case Nil
  show ?case by (simp add: workflow_fields_def)
next
  case (Cons w ws)
  then obtain s where w: "w = Some s" "length s < default_string_limit" "0 \<notin> set s"
    by (cases w) (auto simp: wf_opt_string_def)
  with Cons show ?case
    by (simp add: workflow_fields_def opt_field_def)
qed

lemma opt_string_fit:
  "f \<in> set (opt_field (fstring tag) w) \<Longrightarrow> wf_opt_string w \<Longrightarrow> field_fits default_string_limit f"
  by (auto simp: opt_field_simps split: option.splits)

lemma workflow_fields_fit:
  "f \<in> set (workflow_fields ws) \<Longrightarrow> \<forall>w\<in>set ws. w \<noteq> None \<and> wf_opt_string w \<Longrightarrow>
     field_fits default_string_limit f"
  by (auto simp: workflow_fields_def dest: opt_string_fit)

interpretation cr: tlv_message cr_wf cr_fields serialize_client_response cr_step cr_zero CR_REQUIRED
proof
  fix m f
  assume wf: "cr_wf m"
  then show "serialize_client_response m = Inr (encodes (cr_fields m))"
    by (auto simp: serialize_client_response_def cr_wf_def cr_fields_def Let_def foldl_put_workflows
        enc_buffer_opt_wf encodes_append)
  show "cr_fields m \<noteq> []" "length (cr_fields m) \<le> 512"
    using wf by (auto simp: cr_wf_def cr_fields_def opt_field_def length_workflow_fields split: option.splits)
  show "f \<in> set (cr_fields m) \<Longrightarrow> field_fits default_string_limit f"
    using wf by (auto simp: cr_wf_def cr_fields_def dest: workflow_fields_fit opt_string_fit)
  show "\<exists>seen. foldl (cr_step (views (cr_fields m) [])) (cr_zero, 0) (views (cr_fields m) [])
      = (m, seen) \<and> seen AND CR_REQUIRED = CR_REQUIRED"
    using wf count_workflow_fields [of m "[]"]
    by (subst (2) cr_fields_def, cases "cr_response_message m")
      (auto simp: cr_wf_def cr_zero_def CR_REQUIRED_def foldl_cr_workflows opt_field_def wf_opt_string_def)
qed

section \<open>Names of states, roles and statuses\<close>

definition node_state_to_string :: "u32 \<Rightarrow> string" where
  "node_state_to_string st =
     (if st = 0 then ''ALIVE'' else if st = 1 then ''SUSPECTED'' else if st = 2 then ''FAILED''
      else if st = 3 then ''LEFT'' else ''UNKNOWN'')"

definition node_role_to_string :: "u32 \<Rightarrow> string" where
  "node_role_to_string r =
     (if r = 0 then ''COORDINATOR'' else if r = 1 then ''WORKER'' else ''UNKNOWN'')"

definition task_status_to_string :: "u32 \<Rightarrow> string" where
  "task_status_to_string st =
     (if st = 0 then ''PENDING'' else if st = 1 then ''RUNNING'' else if st = 2 then ''COMPLETED''
      else if st = 3 then ''FAILED'' else if st = 4 then ''TIMEOUT'' else if st = 5 then ''CANCELLED''
      else ''UNKNOWN'')"

section \<open>Properties\<close>

text \<open>
  Gossip messages round-trip on all well-formed values, membership updates with their nested
  node records included.
\<close>

lemma gossip_messages_roundtrip:
  "(gp_wf m1 \<longrightarrow> (\<exists>buf. serialize_gossip_ping m1 = Inr buf \<and> deserialize_gossip_ping buf = Inr m1))
   \<and> (ga_wf m2 \<longrightarrow> (\<exists>buf. serialize_gossip_ack m2 = Inr buf \<and> deserialize_gossip_ack buf = Inr m2))
   \<and> (gip_wf m3 \<longrightarrow> (\<exists>buf. serialize_gossip_indirect_ping m3 = Inr buf
      \<and> deserialize_gossip_indirect_ping buf = Inr m3))
   \<and> (gmu_wf m4 \<longrightarrow> (\<exists>buf. serialize_gossip_membership_update m4 = Inr buf
      \<and> deserialize_gossip_membership_update buf = Inr m4))"
  unfolding deserialize_gossip_ping_def deserialize_gossip_ack_def
    deserialize_gossip_indirect_ping_def deserialize_gossip_membership_update_def
  by (intro conjI impI gp.roundtrip ga.roundtrip gip.roundtrip gmu.roundtrip)

lemma gossip_messages_roundtrip_witness:
  "let m = \<lparr>gmu_sender_id = [97], gmu_updates = [\<lparr>ni_node_id = [98], ni_address = [49, 48], ni_port = 7000,
     ni_state = 1, ni_role = 0, ni_incarnation = 12, ni_cpu_usage = 50, ni_memory_usage = 20\<rparr>]\<rparr>
   in \<exists>buf. serialize_gossip_membership_update m = Inr buf
        \<and> deserialize_gossip_membership_update buf = Inr m"
  unfolding Let_def
  using gossip_messages_roundtrip [of undefined undefined undefined "\<lparr>gmu_sender_id = [97],
     gmu_updates = [\<lparr>ni_node_id = [98], ni_address = [49, 48], ni_port = 7000, ni_state = 1,
       ni_role = 0, ni_incarnation = 12, ni_cpu_usage = 50, ni_memory_usage = 20\<rparr>]\<rparr>"]
  by (simp add: gmu_wf_def ni_wf_def wf_cstr_def)

text \<open>
  Task and client messages round-trip on all well-formed values, optional strings, blobs and
  workflow lists included.
\<close>

lemma task_client_messages_roundtrip:
  "(ta_wf m1 \<longrightarrow> (\<exists>buf. serialize_task_assignment m1 = Inr buf
      \<and> deserialize_task_assignment buf = Inr m1))
   \<and> (tr_wf m2 \<longrightarrow> (\<exists>buf. serialize_task_result m2 = Inr buf \<and> deserialize_task_result buf = Inr m2))
   \<and> (cs_wf m3 \<longrightarrow> (\<exists>buf. serialize_client_submit m3 = Inr buf
      \<and> deserialize_client_submit buf = Inr m3))
   \<and> (cr_wf m4 \<longrightarrow> (\<exists>buf. serialize_client_response m4 = Inr buf
      \<and> deserialize_client_response buf = Inr m4))"
  unfolding deserialize_task_assignment_def deserialize_task_result_def
    deserialize_client_submit_def deserialize_client_response_def
  by (intro conjI impI ta.roundtrip tr.roundtrip cs.roundtrip cr.roundtrip)

lemma task_client_messages_roundtrip_witness:
  "let m = \<lparr>cr_message_id = [97], cr_response_code = 200, cr_response_message = Some [79, 75],
     cr_workflows_triggered = [Some [119]]\<rparr>
   in \<exists>buf. serialize_client_response m = Inr buf \<and> deserialize_client_response buf = Inr m"
  unfolding Let_def
  using task_client_messages_roundtrip [of undefined undefined undefined "\<lparr>cr_message_id = [97],
     cr_response_code = 200, cr_response_message = Some [79, 75], cr_workflows_triggered = [Some [119]]\<rparr>"]
  by (simp add: cr_wf_def wf_cstr_def wf_opt_string_def default_string_limit_def)

end
