(* ===== verification/RaftPersist.thy ===== *)
theory RaftPersist
  imports Crc32
begin

unbundle bit_operations_syntax

text \<open>
  The storage layer of the Raft library (\<^verbatim>\<open>libs/distric_raft/src/raft_persistence.c\<close>) at byte
  level: the state file with its printf/strstr/atoi format, the binary log file, the snapshot file
  with its checksum. A write may fail: the persistence record carries the outcomes of the coming
  writes. The locale \<open>stable_log\<close> is the contract the consensus core relies on, interpreted on the
  byte-level operations.
\<close>

section \<open>Data\<close>

text \<open>Entry types are the values of \<^verbatim>\<open>raft_entry_type_t\<close>; a loaded file may hold any byte.\<close>

abbreviation (input) RAFT_ENTRY_COMMAND :: u8 where "RAFT_ENTRY_COMMAND \<equiv> 0"
abbreviation (input) RAFT_ENTRY_CONFIG :: u8 where "RAFT_ENTRY_CONFIG \<equiv> 1"
abbreviation (input) RAFT_ENTRY_NOOP :: u8 where "RAFT_ENTRY_NOOP \<equiv> 2"

text \<open>\<open>None\<close> is the NULL data pointer with length 0.\<close>

record raft_log_entry =
  e_index :: u32
  e_term :: u32
  e_type :: u8
  e_data :: "bytes option"

definition LOG_FILE_MAGIC :: u32 where "LOG_FILE_MAGIC = 0x52414654"
definition LOG_FILE_VERSION :: u32 where "LOG_FILE_VERSION = 1"
definition SNAPSHOT_MAGIC :: u32 where "SNAPSHOT_MAGIC = 0x534E4150"
definition SNAPSHOT_VERSION :: u32 where "SNAPSHOT_VERSION = 1"

text \<open>
  The files of the data directory (\<open>None\<close>: the file does not exist) and the outcomes of the coming
  write calls: \<open>None\<close> is success, \<open>Some k\<close> a failure after \<open>k\<close> bytes reached the file. An
  exhausted list means that writes succeed. Reads of existing files succeed.
\<close>

record raft_persistence =
  rp_state_file :: "bytes option"
  rp_log_file :: bytes
  rp_snapshot_file :: "bytes option"
  rp_faults :: "nat option list"

definition next_fault :: "raft_persistence \<Rightarrow> nat option \<times> raft_persistence" where
  "next_fault p =
     (case rp_faults p of [] \<Rightarrow> (None, p) | f # fs \<Rightarrow> (f, p\<lparr>rp_faults := fs\<rparr>))"

section \<open>State file\<close>

text \<open>\<^verbatim>\<open>strstr\<close>: the suffix that starts at the first occurrence.\<close>

fun strstr :: "bytes \<Rightarrow> bytes \<Rightarrow> bytes option" where
  "strstr needle hay =
     (if take (length needle) hay = needle then Some hay
      else case hay of [] \<Rightarrow> None | _ # t \<Rightarrow> strstr needle t)"

declare strstr.simps [simp del]

text \<open>
  \<^verbatim>\<open>atoi\<close>: blanks, an optional sign, digits. The C function is defined only when the value fits
  an \<^verbatim>\<open>int\<close>; the properties below keep to that range.
\<close>

definition atoi :: "bytes \<Rightarrow> int" where
  "atoi s =
     (let s = dropWhile is_space s
      in case s of
           [] \<Rightarrow> 0
         | c # t \<Rightarrow>
             if c = 45 then - digits_val (takeWhile is_digit t)
             else if c = 43 then digits_val (takeWhile is_digit t)
             else digits_val (takeWhile is_digit s))"

definition parse_state_file :: "bytes \<Rightarrow> u32 \<times> cstr" where
  "parse_state_file content =
     (let content = cstr_of content
      in if content = [] then (0, [])
         else
           let t = (case strstr (ascii ''\"term\":'') content of
                      None \<Rightarrow> 0
                    | Some s \<Rightarrow> word_of_int (atoi (drop 7 s)));
               v = (case strstr (ascii ''\"voted_for\":\"'') content of
                      None \<Rightarrow> []
                    | Some s \<Rightarrow>
                        let vote_str = drop 13 s; len = length (takeWhile (\<lambda>c. c \<noteq> 34) vote_str)
                        in if len < length vote_str \<and> len > 0 \<and> len < 64 then take len vote_str
                           else [])
           in (t, v))"

definition format_state_file :: "u32 \<Rightarrow> cstr \<Rightarrow> bytes result" where
  "format_state_file t voted_for =
     (let content = ascii ''{\"term\":'' @ dec_digits (unat t) @ ascii '',\"voted_for\":\"''
                      @ voted_for @ ascii ''\"}''
      in if length content \<ge> 256 then Inl DISTRIC_ERR_BUFFER_OVERFLOW else Inr content)"

text \<open>Temporary file, \<^verbatim>\<open>fsync\<close>, \<^verbatim>\<open>rename\<close>: the file changes as a whole or not at all.\<close>

definition raft_persistence_save_state ::
  "raft_persistence \<Rightarrow> u32 \<Rightarrow> cstr \<Rightarrow> distric_err \<times> raft_persistence" where
  "raft_persistence_save_state p t voted_for =
     (case format_state_file t voted_for of
        Inl e \<Rightarrow> (e, p)
      | Inr content \<Rightarrow>
          (case next_fault p of
             (None, p) \<Rightarrow> (DISTRIC_OK, p\<lparr>rp_state_file := Some content\<rparr>)
           | (Some _, p) \<Rightarrow> (DISTRIC_ERR_INIT_FAILED, p)))"

text \<open>A missing or empty file gives \<open>DISTRIC_ERR_NOT_FOUND\<close> with zeroed out-parameters.\<close>

definition raft_persistence_load_state :: "raft_persistence \<Rightarrow> (u32 \<times> cstr) result" where
  "raft_persistence_load_state p =
     (case rp_state_file p of
        None \<Rightarrow> Inl DISTRIC_ERR_NOT_FOUND
      | Some content \<Rightarrow>
          if content = [] then Inl DISTRIC_ERR_NOT_FOUND else Inr (parse_state_file content))"

definition raft_persistence_save_term ::
  "raft_persistence \<Rightarrow> u32 \<Rightarrow> distric_err \<times> raft_persistence" where
  "raft_persistence_save_term p t =
     (let voted_for = (case raft_persistence_load_state p of Inl _ \<Rightarrow> [] | Inr (_, v) \<Rightarrow> v)
      in raft_persistence_save_state p t voted_for)"

definition raft_persistence_save_vote ::
  "raft_persistence \<Rightarrow> cstr \<Rightarrow> distric_err \<times> raft_persistence" where
  "raft_persistence_save_vote p voted_for =
     (let t = (case raft_persistence_load_state p of Inl _ \<Rightarrow> 0 | Inr (t, _) \<Rightarrow> t)
      in raft_persistence_save_state p t voted_for)"

section \<open>Log file\<close>

definition log_header :: bytes where
  "log_header = le_bytes 4 LOG_FILE_MAGIC @ le_bytes 4 LOG_FILE_VERSION"

text \<open>\<^verbatim>\<open>read_log_header\<close>: a file shorter than the header gets a fresh one.\<close>

definition read_log_header :: "raft_persistence \<Rightarrow> distric_err \<times> raft_persistence" where
  "read_log_header p =
     (if length (rp_log_file p) < 8 then
        (case next_fault p of
           (None, p) \<Rightarrow> (DISTRIC_OK, p\<lparr>rp_log_file := log_header\<rparr>)
         | (Some k, p) \<Rightarrow>
             (DISTRIC_ERR_INIT_FAILED,
              p\<lparr>rp_log_file := take k log_header @ drop (min k 8) (rp_log_file p)\<rparr>))
      else if le_word (bslice 0 4 (rp_log_file p)) \<noteq> LOG_FILE_MAGIC
        then (DISTRIC_ERR_INVALID_FORMAT, p)
      else if le_word (bslice 4 4 (rp_log_file p)) \<noteq> LOG_FILE_VERSION
        then (DISTRIC_ERR_INVALID_FORMAT, p)
      else (DISTRIC_OK, p))"

text \<open>
  \<^verbatim>\<open>raft_persistence_init\<close> on an accessible data directory; a missing log file is created empty.
\<close>

definition raft_persistence_init :: "raft_persistence \<Rightarrow> raft_persistence result" where
  "raft_persistence_init p =
     (case read_log_header p of (e, p) \<Rightarrow> if e = DISTRIC_OK then Inr p else Inl e)"

definition entry_data :: "raft_log_entry \<Rightarrow> bytes" where
  "entry_data e = (case e_data e of None \<Rightarrow> [] | Some d \<Rightarrow> d)"

definition log_record :: "raft_log_entry \<Rightarrow> bytes" where
  "log_record e =
     le_bytes 4 (e_index e) @ le_bytes 4 (e_term e) @ [e_type e]
     @ le_bytes 4 (of_nat (length (entry_data e)) :: u32) @ entry_data e"

definition raft_persistence_append_log ::
  "raft_persistence \<Rightarrow> raft_log_entry \<Rightarrow> distric_err \<times> raft_persistence" where
  "raft_persistence_append_log p e =
     (case next_fault p of
        (None, p) \<Rightarrow> (DISTRIC_OK, p\<lparr>rp_log_file := rp_log_file p @ log_record e\<rparr>)
      | (Some k, p) \<Rightarrow>
          (DISTRIC_ERR_INIT_FAILED, p\<lparr>rp_log_file := rp_log_file p @ take k (log_record e)\<rparr>))"

text \<open>
  The counting pass of \<^verbatim>\<open>raft_persistence_load_log\<close> on the bytes after the read position. \<^verbatim>\<open>lseek\<close>
  may move past the end of the file; the next read then returns 0. \<open>None\<close> is \<^verbatim>\<open>read_error\<close>.
\<close>

function count_records :: "bytes \<Rightarrow> nat option" where
  "count_records rest =
     (if rest = [] then Some 0
      else if length rest < 13 then None
      else let data_len = unat (le_word (bslice 9 4 rest) :: u32)
        in map_option Suc (count_records (drop (13 + data_len) rest)))"
  by pat_completeness auto
termination by (relation "measure length") auto

declare count_records.simps [simp del]

text \<open>The second pass reads exactly the counted number of records.\<close>

fun read_records :: "nat \<Rightarrow> bytes \<Rightarrow> raft_log_entry list result" where
  "read_records 0 rest = Inr []"
| "read_records (Suc n) rest =
     (if length rest < 13 then Inl DISTRIC_ERR_INIT_FAILED
      else
        let data_len = unat (le_word (bslice 9 4 rest) :: u32);
            body = drop 13 rest
        in if length body < data_len then Inl DISTRIC_ERR_INIT_FAILED
           else
             let e = \<lparr>e_index = le_word (bslice 0 4 rest), e_term = le_word (bslice 4 4 rest),
                      e_type = rest ! 8,
                      e_data = (if data_len > 0 then Some (take data_len body) else None)\<rparr>
             in (case read_records n (drop data_len body) of
                   Inl err \<Rightarrow> Inl err
                 | Inr es \<Rightarrow> Inr (e # es)))"

definition raft_persistence_load_log :: "raft_persistence \<Rightarrow> raft_log_entry list result" where
  "raft_persistence_load_log p =
     (let rest = drop 8 (rp_log_file p)
      in case count_records rest of
           None \<Rightarrow> Inl DISTRIC_ERR_INIT_FAILED
         | Some n \<Rightarrow> if n = 0 then Inr [] else read_records n rest)"

text \<open>The rewrite loop of \<^verbatim>\<open>raft_persistence_truncate_log\<close>: the first failed append ends it.\<close>

fun rewrite_entries ::
  "u32 \<Rightarrow> raft_log_entry list \<Rightarrow> raft_persistence \<Rightarrow> distric_err \<times> raft_persistence" where
  "rewrite_entries from_index [] p = (DISTRIC_OK, p)"
| "rewrite_entries from_index (e # es) p =
     (if e_index e < from_index then
        (case raft_persistence_append_log p e of
           (err, p) \<Rightarrow> if err \<noteq> DISTRIC_OK then (err, p) else rewrite_entries from_index es p)
      else rewrite_entries from_index es p)"

definition raft_persistence_truncate_log ::
  "raft_persistence \<Rightarrow> u32 \<Rightarrow> distric_err \<times> raft_persistence" where
  "raft_persistence_truncate_log p from_index =
     (case raft_persistence_load_log p of
        Inl e \<Rightarrow> (e, p)
      | Inr entries \<Rightarrow>
          (case next_fault p of
             (Some k, p) \<Rightarrow> (DISTRIC_ERR_INIT_FAILED, p\<lparr>rp_log_file := take k log_header\<rparr>)
           | (None, p) \<Rightarrow> rewrite_entries from_index entries (p\<lparr>rp_log_file := log_header\<rparr>)))"

section \<open>Snapshot file\<close>

definition snapshot_image :: "u32 \<Rightarrow> u32 \<Rightarrow> bytes \<Rightarrow> bytes" where
  "snapshot_image idx t data =
     le_bytes 4 SNAPSHOT_MAGIC @ le_bytes 4 SNAPSHOT_VERSION @ le_bytes 4 idx @ le_bytes 4 t
     @ le_bytes 4 (of_nat (length data) :: u32) @ le_bytes 4 (crc32_compute data) @ data"

definition raft_persistence_save_snapshot ::
  "raft_persistence \<Rightarrow> u32 \<Rightarrow> u32 \<Rightarrow> bytes \<Rightarrow> distric_err \<times> raft_persistence" where
  "raft_persistence_save_snapshot p idx t data =
     (case next_fault p of
        (None, p) \<Rightarrow> (DISTRIC_OK, p\<lparr>rp_snapshot_file := Some (snapshot_image idx t data)\<rparr>)
      | (Some _, p) \<Rightarrow> (DISTRIC_ERR_INIT_FAILED, p))"

definition raft_persistence_load_snapshot ::
  "raft_persistence \<Rightarrow> (u32 \<times> u32 \<times> bytes) result" where
  "raft_persistence_load_snapshot p =
     (case rp_snapshot_file p of
        None \<Rightarrow> Inl DISTRIC_ERR_NOT_FOUND
      | Some f \<Rightarrow>
          if length f < 24 then Inl DISTRIC_ERR_INIT_FAILED
          else if le_word (bslice 0 4 f) \<noteq> SNAPSHOT_MAGIC then Inl DISTRIC_ERR_INVALID_FORMAT
          else if le_word (bslice 4 4 f) \<noteq> SNAPSHOT_VERSION then Inl DISTRIC_ERR_INVALID_FORMAT
          else
            let data_len = unat (le_word (bslice 16 4 f) :: u32);
                stored_crc32 = le_word (bslice 20 4 f);
                data = take data_len (drop 24 f)
            in if length data \<noteq> data_len then Inl DISTRIC_ERR_INIT_FAILED
               else if crc32_compute data \<noteq> stored_crc32 then Inl DISTRIC_ERR_INVALID_FORMAT
               else Inr (le_word (bslice 8 4 f), le_word (bslice 12 4 f), data))"

section \<open>Decimal numbers\<close>

lemma digit_byte: "n < 10 \<Longrightarrow> uint (of_nat (48 + n) :: u8) = 48 + int n"
  by (simp add: uint_nat unat_of_nat del: of_nat_add)

lemma is_digit_byte: "n < 10 \<Longrightarrow> is_digit (of_nat (48 + n))"
  using digit_byte [of n] by (simp add: is_digit_def word_le_def)

lemma dec_digits_all: "c \<in> set (dec_digits n) \<Longrightarrow> is_digit c"
proof (induction n rule: dec_digits.induct)
  case (1 n)
  then show ?case
    by (subst (asm) dec_digits.simps) (auto simp del: of_nat_add split: if_splits intro: is_digit_byte)
qed

lemma dec_digits_Cons: "\<exists>c cs. dec_digits n = c # cs \<and> is_digit c"
proof -
  have "dec_digits n \<noteq> []" by (subst dec_digits.simps) simp
  then show ?thesis using dec_digits_all [of _ n] by (cases "dec_digits n") auto
qed

lemma digits_val_snoc: "digits_val (ds @ [c]) = 10 * digits_val ds + (uint c - 48)"
  by (simp add: digits_val_def)

lemma digits_val_dec: "digits_val (dec_digits n) = int n"
proof (induction n rule: dec_digits.induct)
  case (1 n)
  show ?case
  proof (cases "n < 10")
    case True
    then show ?thesis
      using digit_byte [OF True] by (subst dec_digits.simps) (simp add: digits_val_def del: of_nat_add)
  next
    case False
    have "digits_val (dec_digits n) = 10 * int (n div 10) + int (n mod 10)"
      using 1 [OF False] digit_byte [of "n mod 10"] False
      by (subst dec_digits.simps) (simp add: digits_val_snoc del: of_nat_add)
    also have "\<dots> = int (10 * (n div 10) + n mod 10)" by (simp only: of_nat_add of_nat_mult of_nat_numeral)
    finally show ?thesis by (simp only: mult_div_mod_eq)
  qed
qed

lemma takeWhile_digits:
  "(\<And>c. c \<in> set ds \<Longrightarrow> is_digit c) \<Longrightarrow> \<not> is_digit x \<Longrightarrow> takeWhile is_digit (ds @ x # r) = ds"
  by (induction ds) auto

lemma is_digit_not_special: "is_digit c \<Longrightarrow> \<not> is_space c \<and> c \<noteq> 45 \<and> c \<noteq> 43 \<and> c \<noteq> 34 \<and> c \<noteq> 0"
  by (auto simp: is_digit_def is_space_def word_le_nat_alt)

lemma atoi_dec_digits:
  assumes "\<not> is_digit x"
  shows "atoi (dec_digits n @ x # r) = int n"
proof -
  obtain c cs where d: "dec_digits n = c # cs" "is_digit c" using dec_digits_Cons by blast
  have "takeWhile is_digit (dec_digits n @ x # r) = dec_digits n"
    using dec_digits_all assms by (rule takeWhile_digits)
  then show ?thesis
    using d is_digit_not_special [OF d(2)] digits_val_dec [of n] by (simp add: atoi_def)
qed

section \<open>State file lemmas\<close>

lemma strstr_skip:
  "needle = c # cs \<Longrightarrow> c \<notin> set xs \<Longrightarrow> strstr needle (xs @ ys) = strstr needle ys"
proof (induction xs)
  case (Cons x xs)
  then show ?case by (subst strstr.simps) auto
qed simp

lemma strstr_here: "strstr needle (needle @ ys) = Some (needle @ ys)"
  by (subst strstr.simps) simp

lemma ascii_keys:
  "ascii ''\"term\":'' = [34, 116, 101, 114, 109, 34, 58]"
  "ascii ''{\"term\":'' = 123 # [34, 116, 101, 114, 109, 34, 58]"
  "ascii ''\"voted_for\":\"'' = [34, 118, 111, 116, 101, 100, 95, 102, 111, 114, 34, 58, 34]"
  "ascii '',\"voted_for\":\"'' = 44 # [34, 118, 111, 116, 101, 100, 95, 102, 111, 114, 34, 58, 34]"
  "ascii ''\"}'' = [34, 125]"
  by (simp_all add: ascii_def of_char_def horner_sum_simps)

definition wf_vote :: "cstr \<Rightarrow> bool" where
  "wf_vote v \<longleftrightarrow> wf_cstr 64 v \<and> 34 \<notin> set v"

lemma format_state_file_Inr:
  assumes "wf_vote v"
  shows "format_state_file t v = Inr (ascii ''{\"term\":'' @ dec_digits (unat t)
    @ ascii '',\"voted_for\":\"'' @ v @ ascii ''\"}'')"
proof -
  have "unat t < 2 ^ LENGTH(32)" by (rule unsigned_less)
  then have "unat t < 10 ^ 10" by simp
  then have "length (dec_digits (unat t)) \<le> 10" by (rule length_dec_digits) simp
  then show ?thesis
    using assms by (simp add: format_state_file_def ascii_keys wf_vote_def wf_cstr_def)
qed

lemma parse_format_state:
  assumes "wf_vote v"
  shows "parse_state_file (ascii ''{\"term\":'' @ dec_digits (unat t)
    @ ascii '',\"voted_for\":\"'' @ v @ ascii ''\"}'') = (t, v)"
proof -
  let ?ds = "dec_digits (unat t)"
  let ?tail = "ascii '',\"voted_for\":\"'' @ v @ ascii ''\"}''"
  let ?c = "ascii ''{\"term\":'' @ ?ds @ ?tail"
  have nul: "0 \<notin> set ?c"
    using assms dec_digits_all [of 0 "unat t"]
    by (auto simp: ascii_keys wf_vote_def wf_cstr_def is_digit_def)
  have "strstr (ascii ''\"term\":'') ?c = strstr (ascii ''\"term\":'') (ascii ''\"term\":'' @ ?ds @ ?tail)"
    by (simp add: ascii_keys strstr.simps)
  then have t: "strstr (ascii ''\"term\":'') ?c = Some (ascii ''\"term\":'' @ ?ds @ ?tail)"
    by (simp only: strstr_here)
  have q: "34 \<notin> set (?ds @ [44])"
    using dec_digits_all [of 34 "unat t"] by (auto simp: is_digit_def)
  have "strstr (ascii ''\"voted_for\":\"'') ?c = strstr (ascii ''\"voted_for\":\"'')
      ((?ds @ [44]) @ ascii ''\"voted_for\":\"'' @ v @ ascii ''\"}'')"
    by (simp add: ascii_keys strstr.simps)
  also have "\<dots> = strstr (ascii ''\"voted_for\":\"'') (ascii ''\"voted_for\":\"'' @ v @ ascii ''\"}'')"
    by (rule strstr_skip [OF ascii_keys(3) q])
  finally have v: "strstr (ascii ''\"voted_for\":\"'') ?c = Some (ascii ''\"voted_for\":\"'' @ v @ ascii ''\"}'')"
    by (simp only: strstr_here)
  have "atoi (?ds @ ?tail) = int (unat t)"
    unfolding ascii_keys append_Cons by (rule atoi_dec_digits) (simp add: is_digit_def)
  then have "word_of_int (atoi (drop 7 (ascii ''\"term\":'' @ ?ds @ ?tail))) = t"
    by (simp add: ascii_keys)
  moreover have "takeWhile (\<lambda>c. c \<noteq> 34) (v @ ascii ''\"}'') = v"
    using assms by (induction v) (auto simp: ascii_keys wf_vote_def wf_cstr_def)
  moreover have "drop 13 (ascii ''\"voted_for\":\"'' @ v @ ascii ''\"}'') = v @ ascii ''\"}''"
    by (simp add: ascii_keys)
  ultimately show ?thesis
    using nul t v assms
    by (simp add: parse_state_file_def Let_def wf_vote_def wf_cstr_def) (auto simp: ascii_keys)
qed

section \<open>Log file lemmas\<close>

definition wf_entry :: "raft_log_entry \<Rightarrow> bool" where
  "wf_entry e \<longleftrightarrow> e_data e \<noteq> Some [] \<and> length (entry_data e) < 2 ^ 32"

definition log_image :: "raft_log_entry list \<Rightarrow> bytes" where
  "log_image es = log_header @ concat (map log_record es)"

lemma length_log_header [simp]: "length log_header = 8"
  by (simp add: log_header_def)

lemma length_log_record: "length (log_record e) = 13 + length (entry_data e)"
  by (simp add: log_record_def)

lemma log_record_ne [simp]: "log_record e \<noteq> []"
  by (simp add: log_record_def)

lemma le_word_bslice_le_bytes:
  "length xs = i \<Longrightarrow> bslice i 4 (xs @ le_bytes 4 (w :: u32) @ r) = le_bytes 4 w"
  by (simp add: bslice_def)

lemma record_fields:
  "bslice 0 4 (log_record e @ r) = le_bytes 4 (e_index e)"
  "bslice 4 4 (log_record e @ r) = le_bytes 4 (e_term e)"
  "(log_record e @ r) ! 8 = e_type e"
  "bslice 9 4 (log_record e @ r) = le_bytes 4 (of_nat (length (entry_data e)) :: u32)"
  "drop 13 (log_record e @ r) = entry_data e @ r"
  by (simp_all add: log_record_def bslice_def nth_append)

lemma unat_data_len: "wf_entry e \<Longrightarrow> unat (of_nat (length (entry_data e)) :: u32) = length (entry_data e)"
  by (simp add: wf_entry_def unat_of_nat)

lemma count_records_Cons:
  assumes "wf_entry e"
  shows "count_records (log_record e @ tail) = map_option Suc (count_records tail)"
proof -
  have "drop (13 + length (entry_data e)) (log_record e @ tail) = tail"
    by (simp add: length_log_record)
  then show ?thesis
    using assms
    by (subst count_records.simps)
      (simp add: record_fields unat_data_len Let_def length_log_record del: drop_append)
qed

lemma read_records_Cons:
  assumes "wf_entry e"
  shows "read_records (Suc n) (log_record e @ tail)
    = (case read_records n tail of Inl err \<Rightarrow> Inl err | Inr es \<Rightarrow> Inr (e # es))"
proof -
  have "entry_data e \<noteq> [] \<Longrightarrow> \<lparr>e_index = e_index e, e_term = e_term e, e_type = e_type e,
      e_data = Some (entry_data e)\<rparr> = e"
    "entry_data e = [] \<Longrightarrow> \<lparr>e_index = e_index e, e_term = e_term e, e_type = e_type e,
      e_data = None\<rparr> = e"
    using assms by (cases e; auto simp: wf_entry_def entry_data_def split: option.splits)+
  moreover have "take (length (entry_data e)) (entry_data e @ tail) = entry_data e"
    "drop (length (entry_data e)) (entry_data e @ tail) = tail"
    by simp_all
  ultimately show ?thesis
    using assms
    by (cases "read_records n tail")
      (simp_all add: record_fields unat_data_len Let_def length_log_record del: drop_append take_append)
qed

lemma count_records_log:
  "\<forall>e\<in>set es. wf_entry e \<Longrightarrow>
     count_records (concat (map log_record es) @ rest)
       = (case count_records rest of None \<Rightarrow> None | Some n \<Rightarrow> Some (length es + n))"
  by (induction es) (simp_all add: count_records_Cons split: option.split)

lemma read_records_log:
  "\<forall>e\<in>set es. wf_entry e \<Longrightarrow>
     read_records (length es + n) (concat (map log_record es) @ rest)
       = (case read_records n rest of Inl err \<Rightarrow> Inl err | Inr es' \<Rightarrow> Inr (es @ es'))"
  by (induction es) (simp_all add: read_records_Cons split: sum.split del: read_records.simps)

lemma load_log_image:
  assumes "\<forall>e\<in>set es. wf_entry e" and "rp_log_file p = log_image es"
  shows "raft_persistence_load_log p = Inr es"
proof -
  have "drop 8 (rp_log_file p) = concat (map log_record es)"
    using assms(2) by (simp add: log_image_def)
  moreover have "count_records (concat (map log_record es)) = Some (length es)"
    using count_records_log [OF assms(1), of "[]"] by (simp add: count_records.simps)
  moreover have "read_records (length es) (concat (map log_record es)) = Inr es"
    using read_records_log [OF assms(1), of 0 "[]"] by simp
  ultimately show ?thesis by (simp add: raft_persistence_load_log_def)
qed

lemma log_image_snoc: "log_image (es @ [e]) = log_image es @ log_record e"
  by (simp add: log_image_def)

text \<open>A healthy store: no write fails and the log file is the image of well-formed entries.\<close>

definition healthy :: "raft_persistence \<Rightarrow> bool" where
  "healthy p \<longleftrightarrow> rp_faults p = []
     \<and> (\<exists>es. (\<forall>e\<in>set es. wf_entry e) \<and> rp_log_file p = log_image es)"

lemma next_fault_healthy [simp]: "rp_faults p = [] \<Longrightarrow> next_fault p = (None, p)"
  by (simp add: next_fault_def)

lemma rewrite_entries_healthy:
  "\<forall>e\<in>set es. wf_entry e \<Longrightarrow> rp_faults p = [] \<Longrightarrow> rp_log_file p = log_image kept \<Longrightarrow>
     rewrite_entries k es p
       = (DISTRIC_OK, p\<lparr>rp_log_file := log_image (kept @ filter (\<lambda>e. e_index e < k) es)\<rparr>)"
proof (induction es arbitrary: p kept)
  case Nil
  then show ?case by simp
next
  case (Cons e es)
  show ?case
  proof (cases "e_index e < k")
    case True
    have "raft_persistence_append_log p e
        = (DISTRIC_OK, p\<lparr>rp_log_file := log_image (kept @ [e])\<rparr>)"
      using Cons.prems by (simp add: raft_persistence_append_log_def log_image_snoc)
    with True Cons.IH [of "p\<lparr>rp_log_file := log_image (kept @ [e])\<rparr>" "kept @ [e]"] Cons.prems
    show ?thesis by simp
  next
    case False
    with Cons show ?thesis by simp
  qed
qed

section \<open>The storage contract\<close>

locale stable_log =
  fixes ok :: "'s \<Rightarrow> bool"
    and wfe :: "'e \<Rightarrow> bool"
    and index :: "'e \<Rightarrow> u32"
    and append :: "'s \<Rightarrow> 'e \<Rightarrow> distric_err \<times> 's"
    and truncate :: "'s \<Rightarrow> u32 \<Rightarrow> distric_err \<times> 's"
    and load :: "'s \<Rightarrow> 'e list result"
  assumes load_ok: "ok s \<Longrightarrow> \<exists>es. load s = Inr es"
    and append_ok: "ok s \<Longrightarrow> wfe e \<Longrightarrow> load s = Inr es \<Longrightarrow>
      \<exists>s'. append s e = (DISTRIC_OK, s') \<and> ok s' \<and> load s' = Inr (es @ [e])"
    and truncate_ok: "ok s \<Longrightarrow> load s = Inr es \<Longrightarrow>
      \<exists>s'. truncate s k = (DISTRIC_OK, s') \<and> ok s' \<and> load s' = Inr (filter (\<lambda>e. index e < k) es)"
begin

lemma appends:
  "ok s \<Longrightarrow> load s = Inr es \<Longrightarrow> \<forall>e\<in>set ns. wfe e \<Longrightarrow>
     let s' = foldl (\<lambda>s e. snd (append s e)) s ns in ok s' \<and> load s' = Inr (es @ ns)"
proof (induction ns arbitrary: s es)
  case Nil
  then show ?case by simp
next
  case (Cons n ns)
  then obtain s1 where "append s n = (DISTRIC_OK, s1)" "ok s1" "load s1 = Inr (es @ [n])"
    using append_ok [of s n es] by auto
  with Cons.IH [of s1 "es @ [n]"] Cons.prems show ?case by (simp add: Let_def)
qed

text \<open>Conflict resolution on disk: cutting the tail from an index and writing the new entries.\<close>

lemma truncate_then_appends:
  "ok s \<Longrightarrow> load s = Inr es \<Longrightarrow> \<forall>e\<in>set ns. wfe e \<Longrightarrow>
     let s' = foldl (\<lambda>s e. snd (append s e)) (snd (truncate s k)) ns
     in ok s' \<and> load s' = Inr (filter (\<lambda>e. index e < k) es @ ns)"
  using truncate_ok [of s es k] appends by (metis snd_conv)

end

lemma healthy_load: "healthy p \<Longrightarrow> raft_persistence_load_log p = Inr es \<Longrightarrow>
    rp_faults p = [] \<and> (\<forall>e\<in>set es. wf_entry e) \<and> rp_log_file p = log_image es"
  unfolding healthy_def using load_log_image by (metis sum.inject(2))

interpretation raft_store: stable_log healthy wf_entry e_index raft_persistence_append_log
  raft_persistence_truncate_log raft_persistence_load_log
proof
  fix p e es k
  assume h: "healthy p"
  then show "\<exists>es. raft_persistence_load_log p = Inr es"
    unfolding healthy_def using load_log_image by blast
  assume l: "raft_persistence_load_log p = Inr es"
  note f = healthy_load [OF h l]
  let ?kept = "filter (\<lambda>e. e_index e < k) es"
  have "raft_persistence_truncate_log p k = (DISTRIC_OK, p\<lparr>rp_log_file := log_image ?kept\<rparr>)"
    using f l rewrite_entries_healthy [of es "p\<lparr>rp_log_file := log_header\<rparr>" "[]" k]
    by (simp add: raft_persistence_truncate_log_def log_image_def)
  moreover have "raft_persistence_load_log (p\<lparr>rp_log_file := log_image ?kept\<rparr>) = Inr ?kept"
    "healthy (p\<lparr>rp_log_file := log_image ?kept\<rparr>)"
    unfolding healthy_def using f by (auto intro!: load_log_image exI [of _ ?kept])
  ultimately show "\<exists>s'. raft_persistence_truncate_log p k = (DISTRIC_OK, s') \<and> healthy s'
      \<and> raft_persistence_load_log s' = Inr ?kept"
    by blast
  assume e: "wf_entry e"
  let ?p = "p\<lparr>rp_log_file := log_image (es @ [e])\<rparr>"
  have "raft_persistence_append_log p e = (DISTRIC_OK, ?p)"
    using f by (simp add: raft_persistence_append_log_def log_image_snoc)
  moreover have "raft_persistence_load_log ?p = Inr (es @ [e])"
    using f e by (intro load_log_image) auto
  moreover have "healthy ?p"
    unfolding healthy_def using f e by (auto intro!: exI [of _ "es @ [e]"])
  ultimately show "\<exists>s'. raft_persistence_append_log p e = (DISTRIC_OK, s') \<and> healthy s'
      \<and> raft_persistence_load_log s' = Inr (es @ [e])"
    by blast
qed

section \<open>Torn records\<close>

lemma torn_count:
  assumes "wf_entry e" "0 < k" "k < length (log_record e)"
  shows "count_records (take k (log_record e)) = (if k < 13 then None else Some 1)"
proof (cases "k < 13")
  case True
  then show ?thesis using assms by (subst count_records.simps) (auto simp: length_log_record)
next
  case False
  have "bslice 9 4 (take k (log_record e)) = bslice 9 4 (log_record e @ [])"
    using False by (simp add: bslice_inner)
  then have "bslice 9 4 (take k (log_record e)) = le_bytes 4 (of_nat (length (entry_data e)) :: u32)"
    by (simp only: record_fields)
  moreover have "take k (log_record e) \<noteq> []" "\<not> length (take k (log_record e)) < 13"
    using False assms by auto
  moreover have "drop (13 + length (entry_data e)) (take k (log_record e)) = []"
    using assms(3) by (simp add: length_log_record)
  ultimately show ?thesis
    using False assms(1)
    by (subst count_records.simps) (simp add: unat_data_len Let_def count_records.simps [of "[]"])
qed

lemma torn_read:
  assumes "wf_entry e" "13 \<le> k" "k < length (log_record e)"
  shows "read_records 1 (take k (log_record e)) = Inl DISTRIC_ERR_INIT_FAILED"
proof -
  have "bslice 9 4 (take k (log_record e)) = bslice 9 4 (log_record e @ [])"
    using assms(2) by (simp add: bslice_inner)
  then have "bslice 9 4 (take k (log_record e)) = le_bytes 4 (of_nat (length (entry_data e)) :: u32)"
    by (simp only: record_fields)
  then show ?thesis
    using assms by (simp add: unat_data_len Let_def length_log_record)
qed

lemma load_log_torn:
  assumes "\<forall>e\<in>set es. wf_entry e" "wf_entry e" "0 < k" "k < length (log_record e)"
    and "rp_log_file p = log_image es @ take k (log_record e)"
  shows "raft_persistence_load_log p = Inl DISTRIC_ERR_INIT_FAILED"
proof -
  have d: "drop 8 (rp_log_file p) = concat (map log_record es) @ take k (log_record e)"
    using assms(5) by (simp add: log_image_def)
  note c = count_records_log [OF assms(1), of "take k (log_record e)"]
    read_records_log [OF assms(1), of 1 "take k (log_record e)"]
  show ?thesis
    using c torn_count [OF assms(2,3,4)] torn_read [OF assms(2) _ assms(4)] d
    by (cases "k < 13") (simp_all add: raft_persistence_load_log_def)
qed

section \<open>Snapshot lemmas\<close>

lemma length_snapshot_image: "length (snapshot_image i t d) = 24 + length d"
  by (simp add: snapshot_image_def)

lemma snapshot_fields:
  "bslice 0 4 (snapshot_image i t d) = le_bytes 4 SNAPSHOT_MAGIC"
  "bslice 4 4 (snapshot_image i t d) = le_bytes 4 SNAPSHOT_VERSION"
  "bslice 8 4 (snapshot_image i t d) = le_bytes 4 i"
  "bslice 12 4 (snapshot_image i t d) = le_bytes 4 t"
  "bslice 16 4 (snapshot_image i t d) = le_bytes 4 (of_nat (length d) :: u32)"
  "bslice 20 4 (snapshot_image i t d) = le_bytes 4 (crc32_compute d)"
  "drop 24 (snapshot_image i t d) = d"
  by (simp_all add: snapshot_image_def bslice_fields)

lemma load_snapshot_image:
  "rp_snapshot_file p = Some (snapshot_image i t d) \<Longrightarrow> length d < 2 ^ 32 \<Longrightarrow>
     raft_persistence_load_snapshot p = Inr (i, t, d)"
  by (simp add: raft_persistence_load_snapshot_def length_snapshot_image snapshot_fields Let_def
      unat_of_nat)

lemma load_snapshot_bad_crc:
  assumes "rp_snapshot_file p = Some (take 24 (snapshot_image i t d) @ d')"
    and "length d' = length d" and "length d < 2 ^ 32" and "crc32_compute d' \<noteq> crc32_compute d"
  shows "raft_persistence_load_snapshot p = Inl DISTRIC_ERR_INVALID_FORMAT"
proof -
  let ?g = "take 24 (snapshot_image i t d) @ d'"
  have "bslice j 4 ?g = bslice j 4 (snapshot_image i t d)" if "j \<le> 20" for j
    using that bslice_inner [of j 4 24 "snapshot_image i t d"]
    by (simp add: bslice_def length_snapshot_image)
  moreover have "drop 24 ?g = d'" "length ?g = 24 + length d"
    using assms(2) by (simp_all add: length_snapshot_image)
  ultimately show ?thesis
    using assms
    by (simp add: raft_persistence_load_snapshot_def snapshot_fields Let_def unat_of_nat del: drop_append)
qed

section \<open>Properties\<close>

text \<open>
  Durable vote: once \<^verbatim>\<open>raft_persistence_save_state\<close> returns success, loading gives back exactly
  the saved term and vote, for every term that fits an \<^verbatim>\<open>int\<close> and every vote without a quote.
\<close>

lemma saved_state_is_loaded:
  assumes "raft_persistence_save_state p t v = (DISTRIC_OK, p')"
    and "wf_vote v" and "unat t < 2 ^ 31"
  shows "raft_persistence_load_state p' = Inr (t, v)"
proof -
  let ?c = "ascii ''{\"term\":'' @ dec_digits (unat t) @ ascii '',\"voted_for\":\"'' @ v @ ascii ''\"}''"
  have "rp_state_file p' = Some ?c"
    using assms(1) format_state_file_Inr [OF assms(2), of t]
    by (auto simp: raft_persistence_save_state_def split: prod.splits option.splits)
  moreover have "?c \<noteq> []" by (simp add: ascii_keys)
  ultimately show ?thesis
    using parse_format_state [OF assms(2), of t] by (simp add: raft_persistence_load_state_def)
qed

definition empty_store :: raft_persistence where
  "empty_store = \<lparr>rp_state_file = None, rp_log_file = log_header, rp_snapshot_file = None, rp_faults = []\<rparr>"

lemma saved_state_is_loaded_witness:
  "raft_persistence_load_state (snd (raft_persistence_save_state empty_store 42 [110, 45, 51]))
     = Inr (42, [110, 45, 51])"
proof (rule saved_state_is_loaded)
  show "raft_persistence_save_state empty_store 42 [110, 45, 51]
      = (DISTRIC_OK, snd (raft_persistence_save_state empty_store 42 [110, 45, 51]))"
    using format_state_file_Inr [of "[110, 45, 51]" 42]
    by (simp add: raft_persistence_save_state_def empty_store_def wf_vote_def wf_cstr_def)
qed (simp_all add: wf_vote_def wf_cstr_def)

text \<open>
  C7. Log durability: on a healthy store, truncating from an index and appending entries leaves a
  log file from which exactly the kept entries followed by the new ones are loaded.
\<close>

theorem log_file_roundtrip:
  assumes "healthy p" and "raft_persistence_load_log p = Inr es" and "\<forall>e\<in>set ns. wf_entry e"
  shows "raft_persistence_load_log
      (foldl (\<lambda>p e. snd (raft_persistence_append_log p e)) (snd (raft_persistence_truncate_log p k)) ns)
    = Inr (filter (\<lambda>e. e_index e < k) es @ ns)"
  using raft_store.truncate_then_appends [OF assms, of k] by (simp add: Let_def)

theorem log_file_roundtrip_witness:
  "raft_persistence_load_log
      (foldl (\<lambda>p e. snd (raft_persistence_append_log p e)) (snd (raft_persistence_truncate_log empty_store 3))
        [\<lparr>e_index = 1, e_term = 1, e_type = 0, e_data = Some [7]\<rparr>])
    = Inr (filter (\<lambda>e. e_index e < 3) [] @ [\<lparr>e_index = 1, e_term = 1, e_type = 0, e_data = Some [7]\<rparr>])"
proof (rule log_file_roundtrip)
  have img: "rp_log_file empty_store = log_image []" by (simp add: empty_store_def log_image_def)
  then show "healthy empty_store"
    unfolding healthy_def by (auto simp: empty_store_def intro!: exI [of _ "[]"])
  show "raft_persistence_load_log empty_store = Inr []"
    by (rule load_log_image) (simp_all add: img)
qed (simp add: wf_entry_def entry_data_def)

text \<open>
  A failed append poisons the log: when a write fails after part of a record has reached the
  file, the call reports an error, and from then on the whole log file can no longer be loaded.
\<close>

lemma torn_append_poisons_log:
  assumes "rp_log_file p = log_image es" and "\<forall>e\<in>set es. wf_entry e" and "wf_entry e"
    and "rp_faults p = Some k # fs" and "0 < k" and "k < length (log_record e)"
  shows "fst (raft_persistence_append_log p e) = DISTRIC_ERR_INIT_FAILED
    \<and> raft_persistence_load_log (snd (raft_persistence_append_log p e)) = Inl DISTRIC_ERR_INIT_FAILED"
proof -
  have "raft_persistence_append_log p e = (DISTRIC_ERR_INIT_FAILED,
      p\<lparr>rp_faults := fs, rp_log_file := log_image es @ take k (log_record e)\<rparr>)"
    using assms by (simp add: raft_persistence_append_log_def next_fault_def)
  then show ?thesis using load_log_torn [OF assms(2,3,5,6)] by simp
qed

lemma torn_append_poisons_log_witness:
  "let e = \<lparr>e_index = 1, e_term = 1, e_type = 0, e_data = Some [7]\<rparr>; p = empty_store\<lparr>rp_faults := [Some 5]\<rparr>
   in fst (raft_persistence_append_log p e) = DISTRIC_ERR_INIT_FAILED
    \<and> raft_persistence_load_log (snd (raft_persistence_append_log p e)) = Inl DISTRIC_ERR_INIT_FAILED"
  unfolding Let_def
  by (rule torn_append_poisons_log [where es = "[]" and k = 5 and fs = "[]"])
    (simp_all add: empty_store_def log_image_def wf_entry_def entry_data_def length_log_record)

text \<open>
  Snapshots: a saved snapshot is loaded with its index, term and data, and any corruption of
  the stored data confined to four consecutive bytes is detected at load time.
\<close>

lemma snapshot_roundtrip_and_detection:
  assumes "raft_persistence_save_snapshot p i t (xs @ v @ ys) = (DISTRIC_OK, p')"
    and "length (xs @ v @ ys) < 2 ^ 32" and "length v = length w" and "length w \<le> 4" and "v \<noteq> w"
  shows "raft_persistence_load_snapshot p' = Inr (i, t, xs @ v @ ys)
    \<and> raft_persistence_load_snapshot (p'\<lparr>rp_snapshot_file :=
          map_option (\<lambda>f. take 24 f @ xs @ w @ ys) (rp_snapshot_file p')\<rparr>)
        = Inl DISTRIC_ERR_INVALID_FORMAT"
proof -
  let ?d = "xs @ v @ ys"
  have p': "rp_snapshot_file p' = Some (snapshot_image i t ?d)"
    using assms(1) by (auto simp: raft_persistence_save_snapshot_def split: prod.splits option.splits)
  have "crc32_compute (xs @ w @ ys) \<noteq> crc32_compute ?d"
    using crc32_incremental_burst [OF assms(3,4,5), of xs ys "0xFFFFFFFF"]
    by (auto simp: crc32_compute_def compute_crc32_incremental_bits)
  then show ?thesis
    using load_snapshot_image [OF p' assms(2)] load_snapshot_bad_crc [of _ i t ?d "xs @ w @ ys"]
      p' assms(2,3) by simp
qed

lemma snapshot_roundtrip_and_detection_witness:
  "let p' = snd (raft_persistence_save_snapshot empty_store 9 2 ([1] @ [2, 3] @ [4]))
   in raft_persistence_load_snapshot p' = Inr (9, 2, [1] @ [2, 3] @ [4])
    \<and> raft_persistence_load_snapshot (p'\<lparr>rp_snapshot_file :=
          map_option (\<lambda>f. take 24 f @ [1] @ [3, 3] @ [4]) (rp_snapshot_file p')\<rparr>)
        = Inl DISTRIC_ERR_INVALID_FORMAT"
  unfolding Let_def
  by (rule snapshot_roundtrip_and_detection [where p = empty_store])
    (simp_all add: raft_persistence_save_snapshot_def empty_store_def)

end
