(* ===== verification/RaftLog.thy ===== *)
theory RaftLog
  imports RaftPersist
begin

text \<open>
  The in-memory log of a Raft node (\<^verbatim>\<open>raft_log_t\<close> in \<^verbatim>\<open>libs/distric_raft/src/raft_core.c\<close>): append
  with persistence and rollback, lookup, truncation, last index and term. The lemmas show that the
  log behaves as a list indexed from the snapshot base, that every stored entry carries its own
  index, and what a failed write leaves behind.
\<close>

section \<open>Operations\<close>

text \<open>\<open>l_entries\<close> are the first \<^verbatim>\<open>count\<close> elements of the array.\<close>

record raft_log =
  l_entries :: "raft_log_entry list"
  l_capacity :: nat
  l_base_index :: u32
  l_base_term :: u32

definition raft_log_init :: raft_log where
  "raft_log_init = \<lparr>l_entries = [], l_capacity = 1024, l_base_index = 0, l_base_term = 0\<rparr>"

definition log_count :: "raft_log \<Rightarrow> nat" where
  "log_count l = length (l_entries l)"

text \<open>The growth step of \<^verbatim>\<open>log_append\<close> and the entry it builds at the next position.\<close>

definition log_grow :: "raft_log \<Rightarrow> raft_log" where
  "log_grow l = (if log_count l \<ge> l_capacity l then l\<lparr>l_capacity := l_capacity l * 2\<rparr> else l)"

definition new_entry :: "raft_log \<Rightarrow> u32 \<Rightarrow> u8 \<Rightarrow> bytes option \<Rightarrow> raft_log_entry" where
  "new_entry l t ty data =
     \<lparr>e_index = l_base_index l + of_nat (log_count l) + 1, e_term = t, e_type = ty,
      e_data = (case data of None \<Rightarrow> None | Some d \<Rightarrow> if length d > 0 then Some d else None)\<rparr>"

text \<open>
  \<^verbatim>\<open>log_append\<close>. The last argument is the node's persistence handle; NULL (no node, or no
  persistence) is \<open>None\<close>. A failed write takes the entry back out of memory.
\<close>

definition log_append ::
  "raft_log \<Rightarrow> u32 \<Rightarrow> u8 \<Rightarrow> bytes option \<Rightarrow> raft_persistence option
     \<Rightarrow> distric_err \<times> raft_log \<times> raft_persistence option" where
  "log_append l t ty data pers =
     (let l = log_grow l; e = new_entry l t ty data; l' = l\<lparr>l_entries := l_entries l @ [e]\<rparr>
      in case pers of
           None \<Rightarrow> (DISTRIC_OK, l', None)
         | Some p \<Rightarrow>
             (case raft_persistence_append_log p e of
                (err, p') \<Rightarrow> if err \<noteq> DISTRIC_OK then (err, l, Some p')
                            else (DISTRIC_OK, l', Some p')))"

definition log_get :: "raft_log \<Rightarrow> u32 \<Rightarrow> raft_log_entry option" where
  "log_get l index =
     (if index \<le> l_base_index l then None
      else let offset = index - l_base_index l - 1
        in if unat offset \<ge> log_count l then None else Some (l_entries l ! unat offset))"

definition log_last_index :: "raft_log \<Rightarrow> u32" where
  "log_last_index l =
     (if log_count l = 0 then l_base_index l else l_base_index l + of_nat (log_count l))"

definition log_last_term :: "raft_log \<Rightarrow> u32" where
  "log_last_term l =
     (if log_count l = 0 then l_base_term l else e_term (l_entries l ! (log_count l - 1)))"

definition log_truncate ::
  "raft_log \<Rightarrow> u32 \<Rightarrow> raft_persistence option \<Rightarrow> raft_log \<times> raft_persistence option" where
  "log_truncate l from_index pers =
     (if from_index \<le> l_base_index l then (l, pers)
      else let offset = from_index - l_base_index l - 1
        in if unat offset \<ge> log_count l then (l, pers)
           else (l\<lparr>l_entries := take (unat offset) (l_entries l)\<rparr>,
                 map_option (\<lambda>p. snd (raft_persistence_truncate_log p from_index)) pers))"

section \<open>The log as a list\<close>

text \<open>
  A well-formed log: every entry carries the index of its position, the array is large enough and
  the indices do not wrap.
\<close>

definition wf_log :: "raft_log \<Rightarrow> bool" where
  "wf_log l \<longleftrightarrow> unat (l_base_index l) + log_count l < 2 ^ 32 - 1
     \<and> 0 < l_capacity l \<and> log_count l \<le> l_capacity l
     \<and> (\<forall>i < log_count l. unat (e_index (l_entries l ! i)) = unat (l_base_index l) + i + 1)"

lemma wf_raft_log_init: "wf_log raft_log_init"
  by (simp add: wf_log_def raft_log_init_def log_count_def)

lemma unat_index_sum:
  "unat (b :: u32) + n < 2 ^ 32 \<Longrightarrow> unat (b + of_nat n) = unat b + n"
  by (simp add: unat_word_ariths unat_of_nat)

lemma unat_last_index: "wf_log l \<Longrightarrow> unat (log_last_index l) = unat (l_base_index l) + log_count l"
  by (simp add: wf_log_def log_last_index_def unat_index_sum)

lemma unat_offset:
  "(b :: u32) < i \<Longrightarrow> unat (i - b - 1) = unat i - unat b - 1"
proof -
  assume lt: "b < i"
  then have "b \<le> i" by simp
  then have "unat (i - b) = unat i - unat b" by (rule unat_sub)
  moreover have "1 \<le> i - b"
    using lt calculation by (simp add: word_le_nat_alt word_less_nat_alt)
  then have "unat (i - b - 1) = unat (i - b) - unat (1 :: u32)" by (rule unat_sub)
  ultimately show ?thesis by simp
qed

text \<open>Lookup by index is list lookup by position.\<close>

lemma log_get_eq:
  "log_get l i =
     (if unat (l_base_index l) < unat i \<and> unat i - unat (l_base_index l) - 1 < log_count l
      then Some (l_entries l ! (unat i - unat (l_base_index l) - 1)) else None)"
proof (cases "i \<le> l_base_index l")
  case True
  then show ?thesis by (simp add: log_get_def word_le_nat_alt)
next
  case False
  then show ?thesis
    using unat_offset [of "l_base_index l" i] not_le_imp_less [OF False]
    by (auto simp: log_get_def Let_def word_le_nat_alt)
qed

lemma log_get_Some_iff:
  "(\<exists>e. log_get l i = Some e) \<longleftrightarrow>
     unat (l_base_index l) < unat i \<and> unat i \<le> unat (l_base_index l) + log_count l"
  by (auto simp: log_get_eq)

lemma log_truncate_fst:
  "fst (log_truncate l k pers) =
     (if unat (l_base_index l) < unat k
      then l\<lparr>l_entries := take (unat k - unat (l_base_index l) - 1) (l_entries l)\<rparr> else l)"
proof (cases "k \<le> l_base_index l")
  case True
  then show ?thesis by (simp add: log_truncate_def word_le_nat_alt)
next
  case False
  then show ?thesis
    using unat_offset [of "l_base_index l" k] not_le_imp_less [OF False]
    by (auto simp: log_truncate_def Let_def word_le_nat_alt log_count_def)
qed

lemma wf_log_truncate: "wf_log l \<Longrightarrow> wf_log (fst (log_truncate l k pers))"
  by (auto simp: log_truncate_fst wf_log_def log_count_def)

text \<open>Truncation keeps everything below the index and removes everything from it on.\<close>

lemma log_get_truncate:
  assumes "unat (l_base_index l) < unat k"
  shows "log_get (fst (log_truncate l k pers)) i = (if unat i < unat k then log_get l i else None)"
  using assms by (auto simp: log_truncate_fst log_get_eq log_count_def)

text \<open>The outcome of an append: one more entry, or the log as before when the write failed.\<close>

lemma log_grow_simps [simp]:
  "l_entries (log_grow l) = l_entries l" "log_count (log_grow l) = log_count l"
  "l_base_index (log_grow l) = l_base_index l" "l_base_term (log_grow l) = l_base_term l"
  "new_entry (log_grow l) t ty data = new_entry l t ty data"
  by (simp_all add: log_grow_def log_count_def new_entry_def)

lemma log_grow_capacity:
  "0 < l_capacity l \<Longrightarrow> log_count l \<le> l_capacity l \<Longrightarrow> log_count l < l_capacity (log_grow l)"
  by (simp add: log_grow_def)

lemma log_append_cases:
  obtains (ok) pers' where "log_append l t ty data pers
      = (DISTRIC_OK, (log_grow l)\<lparr>l_entries := l_entries l @ [new_entry l t ty data]\<rparr>, pers')"
  | (failed) err pers' where "log_append l t ty data pers = (err, log_grow l, pers')"
      "err \<noteq> DISTRIC_OK" "pers \<noteq> None"
proof (cases pers)
  case None
  then show ?thesis by (intro ok) (simp add: log_append_def Let_def)
next
  case (Some p)
  obtain err p' where ap: "raft_persistence_append_log p (new_entry l t ty data) = (err, p')"
    by fastforce
  show ?thesis
  proof (cases "err = DISTRIC_OK")
    case True
    with Some ap show ?thesis by (intro ok) (simp add: log_append_def Let_def)
  next
    case False
    with Some ap show ?thesis by (intro failed) (auto simp: log_append_def Let_def)
  qed
qed

lemma log_append_in_memory:
  "log_append l t ty data None
     = (DISTRIC_OK, (log_grow l)\<lparr>l_entries := l_entries l @ [new_entry l t ty data]\<rparr>, None)"
  by (simp add: log_append_def Let_def)

lemma wf_log_append:
  assumes "wf_log l" and "unat (l_base_index l) + log_count l < 2 ^ 32 - 2"
  shows "wf_log (fst (snd (log_append l t ty data pers)))"
proof -
  have idx: "unat (l_base_index l + of_nat (log_count l) + 1) = unat (l_base_index l) + log_count l + 1"
    using assms(2) unat_index_sum [of "l_base_index l" "Suc (log_count l)"] by (simp add: ac_simps)
  show ?thesis
  proof (cases rule: log_append_cases [of l t ty data pers])
    case (ok pers')
    with assms idx log_grow_capacity [of l] show ?thesis
      by (auto simp: wf_log_def log_count_def new_entry_def nth_append less_Suc_eq)
  next
    case (failed err pers')
    with assms log_grow_capacity [of l] show ?thesis by (auto simp: wf_log_def)
  qed
qed

text \<open>What was appended is found at the new last index, and nothing else changes.\<close>

lemma log_get_append:
  assumes "wf_log l" and "l_entries l' = l_entries l @ [e]" and "l_base_index l' = l_base_index l"
  shows "log_get l' i = (if unat i = unat (l_base_index l) + log_count l + 1 then Some e else log_get l i)"
  using assms by (auto simp: log_get_eq log_count_def nth_append)

lemma log_last_term_snoc: "l_entries l = es @ [e] \<Longrightarrow> log_last_term l = e_term e"
  by (simp add: log_last_term_def log_count_def)

end
