(* ===== verification/RaftNode.thy ===== *)
theory RaftNode
  imports RaftLog
begin

text \<open>
  A Raft node (\<^verbatim>\<open>libs/distric_raft/src/raft_core.c\<close>): its state, the transitions between follower,
  candidate and leader, the timer tick, the RPC handlers, replication bookkeeping, commitment,
  application to the state machine and snapshots. Every operation that the source runs under the
  node's lock is one function. The clock (\<open>now\<close>) and \<^verbatim>\<open>rand()\<close> (\<open>rnd\<close>) are arguments; log output,
  metrics and the state-change callback are left out. \<open>n_applied\<close> records the calls of the apply
  callback.
\<close>

section \<open>Data\<close>

datatype raft_state = RAFT_STATE_FOLLOWER | RAFT_STATE_CANDIDATE | RAFT_STATE_LEADER

record raft_peer =
  p_node_id :: cstr
  p_address :: cstr
  p_port :: u16

text \<open>\<open>cfg_apply_fn\<close>: an apply callback is configured.\<close>

record raft_config =
  cfg_node_id :: cstr
  cfg_peers :: "raft_peer list"
  cfg_election_timeout_min_ms :: u32
  cfg_election_timeout_max_ms :: u32
  cfg_heartbeat_interval_ms :: u32
  cfg_apply_fn :: bool

record raft_node =
  n_config :: raft_config
  n_current_term :: u32
  n_voted_for :: cstr
  n_log :: raft_log
  n_commit_index :: u32
  n_last_applied :: u32
  n_next_index :: "u32 list"
  n_match_index :: "u32 list"
  n_state :: raft_state
  n_current_leader :: cstr
  n_election_timeout_ms :: u64
  n_last_heartbeat_ms :: u64
  n_last_election_ms :: u64
  n_last_heartbeat_sent_ms :: u64
  n_persistence :: "raft_persistence option"
  n_running :: bool
  n_applied :: "raft_log_entry list"

definition peer_count :: "raft_node \<Rightarrow> nat" where
  "peer_count n = length (cfg_peers (n_config n))"

text \<open>\<^verbatim>\<open>(peer_count + 1) / 2 + 1\<close>.\<close>

definition majority :: "raft_node \<Rightarrow> nat" where
  "majority n = (peer_count n + 1) div 2 + 1"

section \<open>Timing and persistence helpers\<close>

text \<open>The configuration has \<open>min_ms < max_ms\<close>; an empty range divides by zero in the source.\<close>

definition random_election_timeout :: "u32 \<Rightarrow> u32 \<Rightarrow> u32 \<Rightarrow> u64" where
  "random_election_timeout rnd min_ms max_ms =
     (let range = max_ms - min_ms in ucast (min_ms + rnd mod range))"

text \<open>An error of the storage layer is logged only.\<close>

definition persist_state :: "raft_node \<Rightarrow> raft_node" where
  "persist_state n =
     (case n_persistence n of
        None \<Rightarrow> n
      | Some p \<Rightarrow>
          n\<lparr>n_persistence := Some (snd (raft_persistence_save_state p (n_current_term n) (n_voted_for n)))\<rparr>)"

text \<open>\<^verbatim>\<open>log_append(&node->log, ..., node)\<close> with its returned error.\<close>

definition node_log_append ::
  "raft_node \<Rightarrow> u32 \<Rightarrow> u8 \<Rightarrow> bytes option \<Rightarrow> distric_err \<times> raft_node" where
  "node_log_append n t ty data =
     (case log_append (n_log n) t ty data (n_persistence n) of
        (err, l, pers) \<Rightarrow> (err, n\<lparr>n_log := l, n_persistence := pers\<rparr>))"

definition node_log_truncate :: "raft_node \<Rightarrow> u32 \<Rightarrow> raft_node" where
  "node_log_truncate n from_index =
     (case log_truncate (n_log n) from_index (n_persistence n) of
        (l, pers) \<Rightarrow> n\<lparr>n_log := l, n_persistence := pers\<rparr>)"

section \<open>State transitions\<close>

definition transition_to_follower :: "u64 \<Rightarrow> raft_node \<Rightarrow> u32 \<Rightarrow> raft_node" where
  "transition_to_follower now n t =
     persist_state (n\<lparr>n_current_term := t, n_state := RAFT_STATE_FOLLOWER, n_voted_for := [],
       n_current_leader := [], n_last_heartbeat_ms := now\<rparr>)"

definition transition_to_candidate :: "u64 \<Rightarrow> u32 \<Rightarrow> raft_node \<Rightarrow> raft_node" where
  "transition_to_candidate now rnd n =
     persist_state (n\<lparr>n_current_term := n_current_term n + 1, n_state := RAFT_STATE_CANDIDATE,
       n_voted_for := strncpy 63 (cfg_node_id (n_config n)), n_current_leader := [],
       n_last_election_ms := now,
       n_election_timeout_ms := random_election_timeout rnd
         (cfg_election_timeout_min_ms (n_config n)) (cfg_election_timeout_max_ms (n_config n))\<rparr>)"

text \<open>The error of the no-op append is ignored.\<close>

definition transition_to_leader :: "u64 \<Rightarrow> raft_node \<Rightarrow> raft_node" where
  "transition_to_leader now n =
     (let last_index = log_last_index (n_log n);
          n = n\<lparr>n_state := RAFT_STATE_LEADER,
                n_current_leader := strncpy 63 (cfg_node_id (n_config n)),
                n_next_index := replicate (peer_count n) (last_index + 1),
                n_match_index := replicate (peer_count n) 0\<rparr>;
          n = snd (node_log_append n (n_current_term n) RAFT_ENTRY_NOOP None)
      in n\<lparr>n_last_heartbeat_sent_ms := now\<rparr>)"

section \<open>Applying and committing\<close>

lemma u32_less_suc: "(a :: u32) < b \<Longrightarrow> unat (a + 1) = Suc (unat a)"
proof -
  assume "a < b"
  then have "unat a < unat b" by (simp add: word_less_nat_alt)
  moreover have "unat b < 2 ^ LENGTH(32)" by (rule unsigned_less)
  ultimately show ?thesis by (intro unat_Suc_u32) simp
qed

text \<open>
  The loop of \<^verbatim>\<open>apply_committed_entries\<close>. The lock is released around the callback; the model
  runs the loop without interleaving.
\<close>

function apply_loop :: "u32 \<Rightarrow> raft_node \<Rightarrow> raft_node" where
  "apply_loop commit_index n =
     (if n_last_applied n < commit_index then
        let n = n\<lparr>n_last_applied := n_last_applied n + 1\<rparr>
        in case log_get (n_log n) (n_last_applied n) of
             None \<Rightarrow> n
           | Some e \<Rightarrow>
               if e_type e = RAFT_ENTRY_NOOP then apply_loop commit_index n
               else apply_loop commit_index (n\<lparr>n_applied := n_applied n @ [e]\<rparr>)
      else n)"
  by pat_completeness auto
termination
  by (relation "measure (\<lambda>(c, n). unat c - unat (n_last_applied n))")
    (auto simp: u32_less_suc word_less_nat_alt)

declare apply_loop.simps [simp del]

definition apply_committed_entries :: "raft_node \<Rightarrow> raft_node" where
  "apply_committed_entries n =
     (if \<not> cfg_apply_fn (n_config n) then n else apply_loop (n_commit_index n) n)"

text \<open>
  \<^verbatim>\<open>update_commit_index\<close>: one pass over the indices above the commit index. Indices stay below
  \<open>2 ^ 32 - 1\<close>, where the counter of the source would wrap.
\<close>

definition replicas :: "raft_node \<Rightarrow> u32 \<Rightarrow> nat" where
  "replicas n i = 1 + length (filter (\<lambda>m. m \<ge> i) (n_match_index n))"

definition committable :: "raft_node \<Rightarrow> u32 \<Rightarrow> bool" where
  "committable n i \<longleftrightarrow>
     (case log_get (n_log n) i of
        None \<Rightarrow> False
      | Some e \<Rightarrow> e_term e = n_current_term n \<and> replicas n i \<ge> majority n)"

definition commit_step :: "raft_node \<Rightarrow> nat \<Rightarrow> raft_node" where
  "commit_step n i = (if committable n (of_nat i) then n\<lparr>n_commit_index := of_nat i\<rparr> else n)"

definition update_commit_index :: "raft_node \<Rightarrow> raft_node" where
  "update_commit_index n =
     (if n_state n \<noteq> RAFT_STATE_LEADER then n
      else
        let old_commit = n_commit_index n; last_log_index = log_last_index (n_log n)
        in if peer_count n = 0 then
             (if last_log_index > old_commit then n\<lparr>n_commit_index := last_log_index\<rparr> else n)
           else foldl commit_step n [unat old_commit + 1 ..< unat last_log_index + 1])"

definition get_replication_batch_size :: "raft_node \<Rightarrow> nat" where
  "get_replication_batch_size n = 100"

section \<open>Lifecycle\<close>

text \<open>
  \<^verbatim>\<open>raft_create\<close>: \<open>store\<close> is the content of the configured data directory, if one is configured.
  A failing initialisation of the store fails the call; errors while loading are logged only.
  Restored entries are appended without being written again.
\<close>

definition restore_entry :: "raft_log \<Rightarrow> raft_log_entry \<Rightarrow> raft_log" where
  "restore_entry l e = fst (snd (log_append l (e_term e) (e_type e) (e_data e) None))"

definition fresh_node :: "raft_config \<Rightarrow> u64 \<Rightarrow> u32 \<Rightarrow> raft_node" where
  "fresh_node cfg now rnd =
     \<lparr>n_config = cfg, n_current_term = 0, n_voted_for = [], n_log = raft_log_init,
      n_commit_index = 0, n_last_applied = 0,
      n_next_index = replicate (length (cfg_peers cfg)) 0,
      n_match_index = replicate (length (cfg_peers cfg)) 0,
      n_state = RAFT_STATE_FOLLOWER, n_current_leader = [],
      n_election_timeout_ms = random_election_timeout rnd
        (cfg_election_timeout_min_ms cfg) (cfg_election_timeout_max_ms cfg),
      n_last_heartbeat_ms = now, n_last_election_ms = 0, n_last_heartbeat_sent_ms = now,
      n_persistence = None, n_running = False, n_applied = []\<rparr>"

definition load_persistent :: "raft_node \<Rightarrow> raft_persistence \<Rightarrow> raft_node" where
  "load_persistent n p =
     (let n = n\<lparr>n_persistence := Some p\<rparr>;
          n = (case raft_persistence_load_state p of
                 Inr (t, v) \<Rightarrow> n\<lparr>n_current_term := t, n_voted_for := strncpy 63 v\<rparr>
               | Inl _ \<Rightarrow> n)
      in case raft_persistence_load_log p of
           Inr entries \<Rightarrow> n\<lparr>n_log := foldl restore_entry (n_log n) entries\<rparr>
         | Inl _ \<Rightarrow> n)"

definition raft_create ::
  "raft_config \<Rightarrow> u64 \<Rightarrow> u32 \<Rightarrow> raft_persistence option \<Rightarrow> raft_node result" where
  "raft_create cfg now rnd store =
     (case store of
        None \<Rightarrow> Inr (fresh_node cfg now rnd)
      | Some s \<Rightarrow>
          (case raft_persistence_init s of
             Inl err \<Rightarrow> Inl err
           | Inr p \<Rightarrow> Inr (load_persistent (fresh_node cfg now rnd) p)))"

definition raft_start :: "u64 \<Rightarrow> raft_node \<Rightarrow> raft_node" where
  "raft_start now n = n\<lparr>n_running := True, n_last_heartbeat_ms := now, n_last_election_ms := now\<rparr>"

definition raft_stop :: "raft_node \<Rightarrow> raft_node" where
  "raft_stop n = n\<lparr>n_running := False\<rparr>"

section \<open>Election and tick\<close>

definition start_election :: "u64 \<Rightarrow> u32 \<Rightarrow> raft_node \<Rightarrow> raft_node" where
  "start_election now rnd n =
     (let n = transition_to_candidate now rnd n; votes_needed = majority n
      in if votes_needed = 1 then transition_to_leader now n else n)"

definition raft_tick :: "u64 \<Rightarrow> u32 \<Rightarrow> raft_node \<Rightarrow> distric_err \<times> raft_node" where
  "raft_tick now rnd n =
     (if \<not> n_running n then (DISTRIC_ERR_INVALID_ARG, n)
      else (DISTRIC_OK,
        case n_state n of
          RAFT_STATE_FOLLOWER \<Rightarrow>
            let elapsed = now - n_last_heartbeat_ms n;
                n = (if elapsed > n_election_timeout_ms n then start_election now rnd n else n)
            in apply_committed_entries n
        | RAFT_STATE_CANDIDATE \<Rightarrow>
            let elapsed = now - n_last_election_ms n;
                n = (if elapsed > n_election_timeout_ms n then start_election now rnd n else n)
            in apply_committed_entries n
        | RAFT_STATE_LEADER \<Rightarrow>
            update_commit_index (apply_committed_entries n)))"

section \<open>RPC handlers\<close>

text \<open>The result: node, \<^verbatim>\<open>vote_granted\<close>, \<^verbatim>\<open>term\<close>.\<close>

definition raft_handle_request_vote ::
  "u64 \<Rightarrow> raft_node \<Rightarrow> cstr \<Rightarrow> u32 \<Rightarrow> u32 \<Rightarrow> u32 \<Rightarrow> raft_node \<times> bool \<times> u32" where
  "raft_handle_request_vote now n candidate_id t last_log_index last_log_term =
     (let n = (if t > n_current_term n then transition_to_follower now n t else n);
          term_out = n_current_term n
      in if t < n_current_term n then (n, False, term_out)
         else if \<not> (n_voted_for n = [] \<or> n_voted_for n = candidate_id) then (n, False, term_out)
         else
           let our_last_index = log_last_index (n_log n);
               our_last_term = log_last_term (n_log n);
               log_ok = (last_log_term > our_last_term
                 \<or> last_log_term = our_last_term \<and> last_log_index \<ge> our_last_index)
           in if log_ok then
                (persist_state (n\<lparr>n_voted_for := strncpy 63 candidate_id, n_last_heartbeat_ms := now\<rparr>),
                 True, term_out)
              else (n, False, term_out))"

text \<open>One iteration over the received entries; append errors are ignored.\<close>

definition ae_entry_step :: "raft_node \<Rightarrow> raft_log_entry \<Rightarrow> raft_node" where
  "ae_entry_step n e =
     (let n = (case log_get (n_log n) (e_index e) of
                 Some existing \<Rightarrow>
                   if e_term existing \<noteq> e_term e then node_log_truncate n (e_index e) else n
               | None \<Rightarrow> n)
      in if log_get (n_log n) (e_index e) = None
         then snd (node_log_append n (e_term e) (e_type e) (e_data e)) else n)"

text \<open>The result: node, \<^verbatim>\<open>success\<close>, \<^verbatim>\<open>term\<close>, \<^verbatim>\<open>last_log_index\<close>.\<close>

definition raft_handle_append_entries ::
  "u64 \<Rightarrow> raft_node \<Rightarrow> cstr \<Rightarrow> u32 \<Rightarrow> u32 \<Rightarrow> u32 \<Rightarrow> raft_log_entry list \<Rightarrow> u32
     \<Rightarrow> raft_node \<times> bool \<times> u32 \<times> u32" where
  "raft_handle_append_entries now n leader_id t prev_log_index prev_log_term entries leader_commit =
     (let n = (if t > n_current_term n then transition_to_follower now n t else n);
          term_out = n_current_term n;
          last_out = log_last_index (n_log n)
      in if t < n_current_term n then (n, False, term_out, last_out)
         else
           let n = n\<lparr>n_last_heartbeat_ms := now, n_current_leader := strncpy 63 leader_id\<rparr>;
               n = (if n_state n = RAFT_STATE_CANDIDATE then transition_to_follower now n t else n)
           in if prev_log_index > 0
                 \<and> (case log_get (n_log n) prev_log_index of
                      None \<Rightarrow> True | Some e \<Rightarrow> e_term e \<noteq> prev_log_term)
              then (n, False, term_out, last_out)
              else
                let n = foldl ae_entry_step n entries;
                    n = (if leader_commit > n_commit_index n
                         then n\<lparr>n_commit_index := (if leader_commit < log_last_index (n_log n)
                                                   then leader_commit else log_last_index (n_log n))\<rparr>
                         else n)
                in (n, True, term_out, log_last_index (n_log n)))"

section \<open>Client and query operations\<close>

definition raft_append_entry ::
  "raft_node \<Rightarrow> bytes option \<Rightarrow> raft_node \<times> u32 result" where
  "raft_append_entry n data =
     (if n_state n \<noteq> RAFT_STATE_LEADER then (n, Inl DISTRIC_ERR_NOT_FOUND)
      else case node_log_append n (n_current_term n) RAFT_ENTRY_COMMAND data of
             (err, n) \<Rightarrow> if err \<noteq> DISTRIC_OK then (n, Inl err)
                        else (n, Inr (log_last_index (n_log n))))"

text \<open>
  \<^verbatim>\<open>raft_wait_committed\<close> on the sequence of observations (commit index, clock) that its polling
  loop makes; \<open>None\<close>: still waiting when the observations end.
\<close>

fun raft_wait_committed :: "u64 \<Rightarrow> u32 \<Rightarrow> u32 \<Rightarrow> (u32 \<times> u64) list \<Rightarrow> distric_err option" where
  "raft_wait_committed start index timeout_ms [] = None"
| "raft_wait_committed start index timeout_ms ((commit_index, now) # obs) =
     (if commit_index \<ge> index then Some DISTRIC_OK
      else if now - start \<ge> ucast timeout_ms then Some DISTRIC_ERR_TIMEOUT
      else raft_wait_committed start index timeout_ms obs)"

definition raft_get_state :: "raft_node \<Rightarrow> raft_state" where
  "raft_get_state n = n_state n"

definition raft_get_term :: "raft_node \<Rightarrow> u32" where
  "raft_get_term n = n_current_term n"

definition raft_get_commit_index :: "raft_node \<Rightarrow> u32" where
  "raft_get_commit_index n = n_commit_index n"

definition raft_get_last_log_index :: "raft_node \<Rightarrow> u32" where
  "raft_get_last_log_index n = log_last_index (n_log n)"

definition raft_get_last_log_term :: "raft_node \<Rightarrow> u32" where
  "raft_get_last_log_term n = log_last_term (n_log n)"

definition raft_get_config :: "raft_node \<Rightarrow> raft_config" where
  "raft_get_config n = n_config n"

definition raft_get_node_id :: "raft_node \<Rightarrow> cstr" where
  "raft_get_node_id n = cfg_node_id (n_config n)"

definition raft_is_leader :: "raft_node \<Rightarrow> bool" where
  "raft_is_leader n \<longleftrightarrow> n_state n = RAFT_STATE_LEADER"

definition raft_get_leader :: "raft_node \<Rightarrow> cstr result" where
  "raft_get_leader n =
     (if n_current_leader n = [] then Inl DISTRIC_ERR_NOT_FOUND else Inr (n_current_leader n))"

definition raft_get_log_term :: "raft_node \<Rightarrow> u32 \<Rightarrow> u32" where
  "raft_get_log_term n index = (case log_get (n_log n) index of Some e \<Rightarrow> e_term e | None \<Rightarrow> 0)"

definition raft_state_to_string :: "raft_state \<Rightarrow> string" where
  "raft_state_to_string st =
     (case st of RAFT_STATE_FOLLOWER \<Rightarrow> ''FOLLOWER'' | RAFT_STATE_CANDIDATE \<Rightarrow> ''CANDIDATE''
      | RAFT_STATE_LEADER \<Rightarrow> ''LEADER'')"

text \<open>The entries found in the range from \<open>start_index\<close> up to, not including, \<open>end_index\<close>.\<close>

definition raft_get_log_entries :: "raft_node \<Rightarrow> u32 \<Rightarrow> u32 \<Rightarrow> raft_log_entry list" where
  "raft_get_log_entries n start_index end_index =
     List.map_filter (\<lambda>i. log_get (n_log n) (of_nat i)) [unat start_index ..< unat end_index]"

section \<open>Replication bookkeeping\<close>

definition raft_get_peer_next_index :: "raft_node \<Rightarrow> nat \<Rightarrow> u32" where
  "raft_get_peer_next_index n i = (if i \<ge> peer_count n then 0 else n_next_index n ! i)"

definition raft_update_peer_indices ::
  "raft_node \<Rightarrow> nat \<Rightarrow> u32 \<Rightarrow> u32 \<Rightarrow> distric_err \<times> raft_node" where
  "raft_update_peer_indices n i next match =
     (if i \<ge> peer_count n then (DISTRIC_ERR_INVALID_ARG, n)
      else (DISTRIC_OK, n\<lparr>n_next_index := (n_next_index n)[i := next],
                          n_match_index := (n_match_index n)[i := match]\<rparr>))"

definition raft_decrement_peer_next_index :: "raft_node \<Rightarrow> nat \<Rightarrow> distric_err \<times> raft_node" where
  "raft_decrement_peer_next_index n i =
     (if i \<ge> peer_count n then (DISTRIC_ERR_INVALID_ARG, n)
      else (DISTRIC_OK,
        if n_next_index n ! i > 1 then n\<lparr>n_next_index := (n_next_index n)[i := n_next_index n ! i - 1]\<rparr>
        else n))"

definition raft_step_down :: "u64 \<Rightarrow> raft_node \<Rightarrow> u32 \<Rightarrow> raft_node" where
  "raft_step_down now n t = (if t > n_current_term n then transition_to_follower now n t else n)"

definition raft_should_replicate_to_peer :: "raft_node \<Rightarrow> nat \<Rightarrow> bool" where
  "raft_should_replicate_to_peer n i \<longleftrightarrow>
     i < peer_count n \<and> n_state n = RAFT_STATE_LEADER \<and> n_next_index n ! i \<le> log_last_index (n_log n)"

definition raft_should_send_heartbeat :: "u64 \<Rightarrow> raft_node \<Rightarrow> bool" where
  "raft_should_send_heartbeat now n \<longleftrightarrow>
     n_state n = RAFT_STATE_LEADER
     \<and> now - n_last_heartbeat_sent_ms n \<ge> ucast (cfg_heartbeat_interval_ms (n_config n))"

definition raft_mark_heartbeat_sent :: "u64 \<Rightarrow> raft_node \<Rightarrow> raft_node" where
  "raft_mark_heartbeat_sent now n = n\<lparr>n_last_heartbeat_sent_ms := now\<rparr>"

definition raft_handle_append_entries_response ::
  "u64 \<Rightarrow> raft_node \<Rightarrow> nat \<Rightarrow> bool \<Rightarrow> u32 \<Rightarrow> u32 \<Rightarrow> distric_err \<times> raft_node" where
  "raft_handle_append_entries_response now n i success peer_term match_index =
     (if i \<ge> peer_count n then (DISTRIC_ERR_INVALID_ARG, n)
      else if peer_term > n_current_term n then (DISTRIC_OK, raft_step_down now n peer_term)
      else if peer_term < n_current_term n then (DISTRIC_OK, n)
      else
        let n = (if success then
                   n\<lparr>n_next_index := (n_next_index n)[i := match_index + 1],
                     n_match_index := (n_match_index n)[i := match_index]\<rparr>
                 else if n_next_index n ! i > 1 then
                   n\<lparr>n_next_index := (n_next_index n)[i := n_next_index n ! i - 1]\<rparr>
                 else n)
        in (DISTRIC_OK, update_commit_index n))"

text \<open>The result: entries, \<^verbatim>\<open>prev_log_index\<close>, \<^verbatim>\<open>prev_log_term\<close>.\<close>

definition raft_get_entries_for_peer ::
  "raft_node \<Rightarrow> nat \<Rightarrow> (raft_log_entry list \<times> u32 \<times> u32) result" where
  "raft_get_entries_for_peer n i =
     (if i \<ge> peer_count n then Inl DISTRIC_ERR_INVALID_ARG
      else
        let next_index = n_next_index n ! i;
            last_log_index = log_last_index (n_log n);
            prev_log_index = (if next_index > 1 then next_index - 1 else 0);
            prev_log_term = (if prev_log_index > 0
              then (case log_get (n_log n) prev_log_index of
                      Some e \<Rightarrow> e_term e | None \<Rightarrow> l_base_term (n_log n))
              else 0)
        in if next_index > last_log_index then Inr ([], prev_log_index, prev_log_term)
           else
             let end_index = next_index + of_nat (get_replication_batch_size n);
                 end_index = (if end_index > last_log_index + 1 then last_log_index + 1 else end_index)
             in Inr (raft_get_log_entries n next_index end_index, prev_log_index, prev_log_term))"

text \<open>The backward search for the last entry of \<open>conflict_term\<close>.\<close>

fun find_conflict :: "raft_log \<Rightarrow> u32 \<Rightarrow> nat \<Rightarrow> u32" where
  "find_conflict l conflict_term 0 = 1"
| "find_conflict l conflict_term (Suc i) =
     (case log_get l (of_nat (Suc i)) of
        Some e \<Rightarrow> if e_term e = conflict_term then of_nat (Suc i) + 1 else find_conflict l conflict_term i
      | None \<Rightarrow> find_conflict l conflict_term i)"

definition raft_handle_log_conflict ::
  "raft_node \<Rightarrow> nat \<Rightarrow> u32 \<Rightarrow> u32 \<Rightarrow> distric_err \<times> raft_node" where
  "raft_handle_log_conflict n i conflict_index conflict_term =
     (if i \<ge> peer_count n then (DISTRIC_ERR_INVALID_ARG, n)
      else
        let new_next_index = (if conflict_term > 0
              then find_conflict (n_log n) conflict_term (unat conflict_index) else conflict_index)
        in (DISTRIC_OK, n\<lparr>n_next_index := (n_next_index n)[i := new_next_index]\<rparr>))"

definition raft_get_peer_lag :: "raft_node \<Rightarrow> nat \<Rightarrow> u32" where
  "raft_get_peer_lag n i =
     (if i \<ge> peer_count n then 0
      else let last_log_index = log_last_index (n_log n); match_index = n_match_index n ! i
        in if last_log_index > match_index then last_log_index - match_index else 0)"

record replication_stats =
  rs_last_log_index :: u32
  rs_commit_index :: u32
  rs_min_match_index :: u32
  rs_max_match_index :: u32
  rs_peers_up_to_date :: nat
  rs_peers_lagging :: nat

definition stats_step :: "replication_stats \<Rightarrow> u32 \<Rightarrow> replication_stats" where
  "stats_step st match =
     (let st = (if match < rs_min_match_index st then st\<lparr>rs_min_match_index := match\<rparr> else st);
          st = (if match > rs_max_match_index st then st\<lparr>rs_max_match_index := match\<rparr> else st)
      in if match = rs_last_log_index st
         then st\<lparr>rs_peers_up_to_date := rs_peers_up_to_date st + 1\<rparr>
         else st\<lparr>rs_peers_lagging := rs_peers_lagging st + 1\<rparr>)"

definition raft_get_replication_stats :: "raft_node \<Rightarrow> replication_stats result" where
  "raft_get_replication_stats n =
     (if n_state n \<noteq> RAFT_STATE_LEADER then Inl DISTRIC_ERR_INVALID_ARG
      else
        let st = foldl stats_step
              \<lparr>rs_last_log_index = log_last_index (n_log n), rs_commit_index = n_commit_index n,
               rs_min_match_index = 0xFFFFFFFF, rs_max_match_index = 0, rs_peers_up_to_date = 0,
               rs_peers_lagging = 0\<rparr> (n_match_index n)
        in Inr (if peer_count n = 0 then st\<lparr>rs_min_match_index := 0\<rparr> else st))"

section \<open>Election completion and snapshots\<close>

definition raft_process_election_result :: "u64 \<Rightarrow> raft_node \<Rightarrow> u32 \<Rightarrow> raft_node" where
  "raft_process_election_result now n votes_received =
     (if n_state n \<noteq> RAFT_STATE_CANDIDATE then n
      else if unat votes_received \<ge> majority n then transition_to_leader now n
      else n)"

text \<open>\<open>data\<close> is nullable; without persistence snapshots are refused.\<close>

definition raft_create_snapshot :: "raft_node \<Rightarrow> bytes option \<Rightarrow> distric_err \<times> raft_node" where
  "raft_create_snapshot n data =
     (case (data, n_persistence n) of
        (Some d, Some p) \<Rightarrow>
          let idx = n_commit_index n;
              t = (if idx = 0 then
                     (if l_base_term (n_log n) = 0 then n_current_term n else l_base_term (n_log n))
                   else case log_get (n_log n) idx of
                          Some e \<Rightarrow> e_term e | None \<Rightarrow> l_base_term (n_log n))
          in (case raft_persistence_save_snapshot p idx t d of
                (err, p') \<Rightarrow>
                  let n = n\<lparr>n_persistence := Some p'\<rparr>
                  in if err \<noteq> DISTRIC_OK then (err, n)
                     else (DISTRIC_OK,
                       n\<lparr>n_log := (n_log n)\<lparr>l_base_index := idx, l_base_term := t\<rparr>,
                         n_last_applied := (if idx > n_last_applied n then idx else n_last_applied n)\<rparr>))
      | _ \<Rightarrow> (DISTRIC_ERR_INVALID_ARG, n))"

definition raft_install_snapshot ::
  "raft_node \<Rightarrow> u32 \<Rightarrow> u32 \<Rightarrow> bytes option \<Rightarrow> distric_err \<times> raft_node" where
  "raft_install_snapshot n idx t data =
     (case (data, n_persistence n) of
        (Some d, Some p) \<Rightarrow>
          (case raft_persistence_save_snapshot p idx t d of
             (err, p') \<Rightarrow>
               let n = n\<lparr>n_persistence := Some p'\<rparr>
               in if err \<noteq> DISTRIC_OK then (err, n)
                  else
                    let l = (n_log n)\<lparr>l_base_index := idx, l_base_term := t\<rparr>;
                        l = fst (log_truncate l (idx + 1) None)
                    in (DISTRIC_OK,
                      n\<lparr>n_log := l,
                        n_commit_index := (if idx > n_commit_index n then idx else n_commit_index n),
                        n_last_applied := (if idx > n_last_applied n then idx else n_last_applied n)\<rparr>))
      | _ \<Rightarrow> (DISTRIC_ERR_INVALID_ARG, n))"

section \<open>What the helpers leave unchanged\<close>

lemma persist_state_sel [simp]:
  "n_config (persist_state n) = n_config n" "n_current_term (persist_state n) = n_current_term n"
  "n_voted_for (persist_state n) = n_voted_for n" "n_log (persist_state n) = n_log n"
  "n_commit_index (persist_state n) = n_commit_index n"
  "n_last_applied (persist_state n) = n_last_applied n"
  "n_next_index (persist_state n) = n_next_index n"
  "n_match_index (persist_state n) = n_match_index n" "n_state (persist_state n) = n_state n"
  "n_current_leader (persist_state n) = n_current_leader n"
  "n_running (persist_state n) = n_running n" "n_applied (persist_state n) = n_applied n"
  by (simp_all add: persist_state_def split: option.split)

lemma node_log_append_sel [simp]:
  "n_config (snd (node_log_append n t ty d)) = n_config n"
  "n_current_term (snd (node_log_append n t ty d)) = n_current_term n"
  "n_voted_for (snd (node_log_append n t ty d)) = n_voted_for n"
  "n_commit_index (snd (node_log_append n t ty d)) = n_commit_index n"
  "n_last_applied (snd (node_log_append n t ty d)) = n_last_applied n"
  "n_state (snd (node_log_append n t ty d)) = n_state n"
  "n_running (snd (node_log_append n t ty d)) = n_running n"
  "n_applied (snd (node_log_append n t ty d)) = n_applied n"
  by (simp_all add: node_log_append_def split: prod.split)

lemma node_log_truncate_sel [simp]:
  "n_config (node_log_truncate n k) = n_config n"
  "n_current_term (node_log_truncate n k) = n_current_term n"
  "n_voted_for (node_log_truncate n k) = n_voted_for n"
  "n_commit_index (node_log_truncate n k) = n_commit_index n"
  "n_last_applied (node_log_truncate n k) = n_last_applied n"
  "n_state (node_log_truncate n k) = n_state n"
  "n_running (node_log_truncate n k) = n_running n"
  "n_applied (node_log_truncate n k) = n_applied n"
  by (simp_all add: node_log_truncate_def split: prod.split)

lemma transition_to_follower_sel [simp]:
  "n_config (transition_to_follower now n t) = n_config n"
  "n_current_term (transition_to_follower now n t) = t"
  "n_voted_for (transition_to_follower now n t) = []"
  "n_log (transition_to_follower now n t) = n_log n"
  "n_commit_index (transition_to_follower now n t) = n_commit_index n"
  "n_last_applied (transition_to_follower now n t) = n_last_applied n"
  "n_state (transition_to_follower now n t) = RAFT_STATE_FOLLOWER"
  "n_current_leader (transition_to_follower now n t) = []"
  "n_running (transition_to_follower now n t) = n_running n"
  "n_applied (transition_to_follower now n t) = n_applied n"
  by (simp_all add: transition_to_follower_def)

lemma transition_to_candidate_sel [simp]:
  "n_config (transition_to_candidate now rnd n) = n_config n"
  "n_current_term (transition_to_candidate now rnd n) = n_current_term n + 1"
  "n_voted_for (transition_to_candidate now rnd n) = strncpy 63 (cfg_node_id (n_config n))"
  "n_log (transition_to_candidate now rnd n) = n_log n"
  "n_state (transition_to_candidate now rnd n) = RAFT_STATE_CANDIDATE"
  by (simp_all add: transition_to_candidate_def)

lemma transition_to_leader_sel [simp]:
  "n_config (transition_to_leader now n) = n_config n"
  "n_current_term (transition_to_leader now n) = n_current_term n"
  "n_voted_for (transition_to_leader now n) = n_voted_for n"
  "n_commit_index (transition_to_leader now n) = n_commit_index n"
  "n_state (transition_to_leader now n) = RAFT_STATE_LEADER"
  by (simp_all add: transition_to_leader_def Let_def)

section \<open>The node's log and its file\<close>

text \<open>The log in memory is the log on disk (when the node has a store), and the store is healthy.\<close>

definition log_synced :: "raft_node \<Rightarrow> bool" where
  "log_synced n \<longleftrightarrow>
     (case n_persistence n of
        None \<Rightarrow> True
      | Some p \<Rightarrow> healthy p \<and> raft_persistence_load_log p = Inr (l_entries (n_log n)))"

lemma save_state_keeps_log:
  "healthy p \<Longrightarrow> healthy (snd (raft_persistence_save_state p t v))
     \<and> raft_persistence_load_log (snd (raft_persistence_save_state p t v)) = raft_persistence_load_log p"
  by (auto simp: raft_persistence_save_state_def healthy_def next_fault_def
      raft_persistence_load_log_def split: sum.split)

lemma log_synced_persist_state [simp]: "log_synced n \<Longrightarrow> log_synced (persist_state n)"
  using save_state_keeps_log
  by (auto simp: log_synced_def persist_state_def split: option.splits)

lemma log_synced_cong:
  "n_persistence n' = n_persistence n \<Longrightarrow> n_log n' = n_log n \<Longrightarrow> log_synced n' = log_synced n"
  by (simp add: log_synced_def split: option.split)

lemma log_synced_transition_to_follower [simp]:
  "log_synced n \<Longrightarrow> log_synced (transition_to_follower now n t)"
  unfolding transition_to_follower_def
  by (intro log_synced_persist_state) (simp add: log_synced_def split: option.splits)

lemma node_log_append_synced:
  assumes "log_synced n" and "wf_entry (new_entry (n_log n) t ty d)"
  shows "\<exists>n'. node_log_append n t ty d = (DISTRIC_OK, n') \<and> log_synced n'
    \<and> n_log n' = (log_grow (n_log n))\<lparr>l_entries := l_entries (n_log n) @ [new_entry (n_log n) t ty d]\<rparr>"
proof (cases "n_persistence n")
  case None
  then show ?thesis
    by (simp add: node_log_append_def log_append_in_memory log_synced_def)
next
  case (Some p)
  with assms(1) have "healthy p" "raft_persistence_load_log p = Inr (l_entries (n_log n))"
    by (simp_all add: log_synced_def)
  with raft_store.append_ok [OF _ assms(2)] obtain p' where
    "raft_persistence_append_log p (new_entry (n_log n) t ty d) = (DISTRIC_OK, p')" "healthy p'"
    "raft_persistence_load_log p' = Inr (l_entries (n_log n) @ [new_entry (n_log n) t ty d])"
    by blast
  with Some show ?thesis
    by (simp add: node_log_append_def log_append_def Let_def log_synced_def)
qed

lemma filter_below_index:
  assumes "wf_log l" and "unat (l_base_index l) < unat k"
  shows "filter (\<lambda>e. e_index e < k) (l_entries l) = take (unat k - unat (l_base_index l) - 1) (l_entries l)"
proof -
  let ?j = "unat k - unat (l_base_index l) - 1" and ?es = "l_entries l"
  have idx: "unat (e_index (?es ! i)) = unat (l_base_index l) + i + 1" if "i < length ?es" for i
    using assms(1) that by (simp add: wf_log_def log_count_def)
  have "filter (\<lambda>e. e_index e < k) (take ?j ?es) = take ?j ?es"
    using assms(2) idx by (intro filter_True) (auto simp: in_set_conv_nth u32_less_conv)
  moreover have "filter (\<lambda>e. e_index e < k) (drop ?j ?es) = []"
    using assms(2) idx by (intro filter_False) (auto simp: in_set_conv_nth u32_less_conv)
  ultimately show ?thesis by (metis append_take_drop_id filter_append self_append_conv)
qed

lemma node_log_truncate_synced:
  assumes "log_synced n" and "wf_log (n_log n)" and "unat (l_base_index (n_log n)) < unat k"
  shows "log_synced (node_log_truncate n k)
    \<and> n_log (node_log_truncate n k)
      = (n_log n)\<lparr>l_entries := take (unat k - unat (l_base_index (n_log n)) - 1) (l_entries (n_log n))\<rparr>"
proof -
  let ?l = "fst (log_truncate (n_log n) k (n_persistence n))"
  have l: "n_log (node_log_truncate n k) = ?l"
    by (simp add: node_log_truncate_def split: prod.split)
  have "log_synced (node_log_truncate n k)"
  proof (cases "log_truncate (n_log n) k (n_persistence n) = (n_log n, n_persistence n)")
    case True
    with assms(1) show ?thesis by (simp add: node_log_truncate_def log_synced_def split: option.splits)
  next
    case False
    then have tr: "log_truncate (n_log n) k (n_persistence n)
        = (?l, map_option (\<lambda>p. snd (raft_persistence_truncate_log p k)) (n_persistence n))"
      by (auto simp: log_truncate_def Let_def split: if_splits)
    show ?thesis
    proof (cases "n_persistence n")
      case None
      with tr have "node_log_truncate n k = n\<lparr>n_log := ?l, n_persistence := None\<rparr>"
        by (auto simp: node_log_truncate_def split: prod.split)
      then show ?thesis by (simp add: log_synced_def)
    next
      case (Some p)
      with assms(1) raft_store.truncate_ok [of p "l_entries (n_log n)" k]
      obtain p' where "raft_persistence_truncate_log p k = (DISTRIC_OK, p')" "healthy p'"
        "raft_persistence_load_log p' = Inr (filter (\<lambda>e. e_index e < k) (l_entries (n_log n)))"
        by (auto simp: log_synced_def)
      with tr Some filter_below_index [OF assms(2,3)] assms(3) show ?thesis
        by (simp add: node_log_truncate_def log_synced_def log_truncate_fst)
    qed
  qed
  with l assms(3) show ?thesis by (simp add: log_truncate_fst)
qed

text \<open>No operation gives up the store.\<close>

lemma has_store_persist_state [simp]: "n_persistence (persist_state n) = None \<longleftrightarrow> n_persistence n = None"
  by (simp add: persist_state_def split: option.split)

lemma has_store_transition_to_follower [simp]:
  "n_persistence (transition_to_follower now n t) = None \<longleftrightarrow> n_persistence n = None"
  by (simp add: transition_to_follower_def)

lemma has_store_append [simp]:
  "n_persistence (snd (node_log_append n t ty d)) = None \<longleftrightarrow> n_persistence n = None"
  by (auto simp: node_log_append_def log_append_def Let_def split: option.split prod.split)

lemma has_store_truncate [simp]:
  "n_persistence (node_log_truncate n k) = None \<longleftrightarrow> n_persistence n = None"
  by (auto simp: node_log_truncate_def log_truncate_def Let_def)

section \<open>AppendEntries as a merge of lists\<close>

text \<open>
  The specification of log replication on lists aligned at the same index: entries with the same
  term are kept, and from the first entry that is missing or of another term on the received
  entries replace the rest.
\<close>

fun ae_merge :: "raft_log_entry list \<Rightarrow> raft_log_entry list \<Rightarrow> raft_log_entry list" where
  "ae_merge old [] = old"
| "ae_merge [] new = new"
| "ae_merge (x # xs) (y # ys) = (if e_term x = e_term y then x # ae_merge xs ys else y # ys)"

text \<open>Entries numbered consecutively after index \<open>i\<close>.\<close>

definition consecutive :: "nat \<Rightarrow> raft_log_entry list \<Rightarrow> bool" where
  "consecutive i es \<longleftrightarrow> (\<forall>j < length es. unat (e_index (es ! j)) = i + j + 1)"

lemma consecutive_Cons:
  "consecutive i (e # es) \<longleftrightarrow> unat (e_index e) = i + 1 \<and> consecutive (i + 1) es"
  by (auto simp: consecutive_def nth_Cons split: nat.splits)

lemma new_entry_eq:
  assumes "unat (e_index e) = unat (l_base_index l) + log_count l + 1" and "wf_entry e"
  shows "new_entry l (e_term e) (e_type e) (e_data e) = e"
proof -
  have "e_index e = of_nat (unat (l_base_index l) + log_count l + 1)"
    using assms(1) by (metis of_nat_unat ucast_id)
  then have "e_index e = l_base_index l + of_nat (log_count l) + 1" by simp
  with assms(2) show ?thesis
    by (cases e) (auto simp: new_entry_def wf_entry_def split: option.split)
qed

lemma append_at_end:
  assumes "wf_log (n_log n)" and "log_synced n" and "wf_entry e"
    and "unat (e_index e) = unat (l_base_index (n_log n)) + log_count (n_log n) + 1"
    and "unat (e_index e) < 2 ^ 32 - 1"
  shows "let n' = snd (node_log_append n (e_term e) (e_type e) (e_data e))
    in wf_log (n_log n') \<and> log_synced n' \<and> l_base_index (n_log n') = l_base_index (n_log n)
       \<and> l_entries (n_log n') = l_entries (n_log n) @ [e]"
proof -
  have "new_entry (n_log n) (e_term e) (e_type e) (e_data e) = e"
    using assms(3,4) by (intro new_entry_eq)
  with node_log_append_synced [OF assms(2), of "e_term e" "e_type e" "e_data e"] assms(3)
  obtain n' where "node_log_append n (e_term e) (e_type e) (e_data e) = (DISTRIC_OK, n')"
    "log_synced n'" and l: "n_log n' = (log_grow (n_log n))\<lparr>l_entries := l_entries (n_log n) @ [e]\<rparr>"
    by auto
  moreover from this have "n_log n' = fst (snd (log_append (n_log n) (e_term e) (e_type e) (e_data e)
      (n_persistence n)))"
    by (auto simp: node_log_append_def split: prod.splits)
  with assms have "wf_log (n_log n')" by (simp add: wf_log_append)
  ultimately show ?thesis by (simp add: Let_def)
qed

lemma ae_entry_step_spec:
  assumes "wf_log (n_log n)" and "log_synced n" and "wf_entry e"
    and "unat (e_index e) = unat (l_base_index (n_log n)) + j + 1"
    and "j \<le> log_count (n_log n)" and "unat (e_index e) < 2 ^ 32 - 1"
  shows "let n' = ae_entry_step n e; l = n_log n; l' = n_log n'
    in wf_log l' \<and> log_synced n' \<and> l_base_index l' = l_base_index l
       \<and> l_entries l' = take j (l_entries l) @ ae_merge (drop j (l_entries l)) [e]"
proof (cases "j < log_count (n_log n)")
  case True
  let ?x = "l_entries (n_log n) ! j" and ?n = "node_log_truncate n (e_index e)"
  have get: "log_get (n_log n) (e_index e) = Some ?x"
    using assms(4) True by (simp add: log_get_eq)
  have drop: "drop j (l_entries (n_log n)) = ?x # drop (Suc j) (l_entries (n_log n))"
    using True by (simp add: Cons_nth_drop_Suc log_count_def)
  show ?thesis
  proof (cases "e_term ?x = e_term e")
    case True
    with get drop assms(1,2) show ?thesis
      by (simp add: ae_entry_step_def Let_def) (metis append_take_drop_id)
  next
    case False
    have tr: "log_synced ?n" "n_log ?n = (n_log n)\<lparr>l_entries := take j (l_entries (n_log n))\<rparr>"
      using node_log_truncate_synced [OF assms(2,1), of "e_index e"] assms(4) by simp_all
    have wf: "wf_log (n_log ?n)"
      using wf_log_truncate [OF assms(1), of "e_index e" "n_persistence n"]
      by (auto simp: node_log_truncate_def split: prod.splits)
    have "log_get (n_log ?n) (e_index e) = None" "log_count (n_log ?n) = j"
      using tr(2) assms(4) True by (simp_all add: log_get_eq log_count_def)
    with append_at_end [OF wf tr(1) assms(3)] tr(2) assms(4,6) get drop False show ?thesis
      by (simp add: ae_entry_step_def Let_def)
  qed
next
  case False
  with assms(5) have j: "j = log_count (n_log n)" by simp
  then have "log_get (n_log n) (e_index e) = None" using assms(4) by (simp add: log_get_eq)
  with append_at_end [OF assms(1-3)] assms(4,6) j show ?thesis
    by (simp add: ae_entry_step_def Let_def log_count_def)
qed

lemma ae_merge_Cons:
  assumes "j \<le> length es"
  shows "take (Suc j) (take j es @ ae_merge (drop j es) [e])
      @ ae_merge (drop (Suc j) (take j es @ ae_merge (drop j es) [e])) ns
    = take j es @ ae_merge (drop j es) (e # ns)"
  using assms by (cases "drop j es"; cases ns) (auto simp: min_def)

lemma ae_fold_spec:
  assumes "wf_log (n_log n)" and "log_synced n" and "\<forall>e\<in>set es. wf_entry e"
    and "consecutive (unat (l_base_index (n_log n)) + j) es" and "j \<le> log_count (n_log n)"
    and "unat (l_base_index (n_log n)) + j + length es < 2 ^ 32 - 1"
  shows "let n' = foldl ae_entry_step n es; l = n_log n; l' = n_log n'
    in wf_log l' \<and> log_synced n' \<and> l_base_index l' = l_base_index l
       \<and> l_entries l' = take j (l_entries l) @ ae_merge (drop j (l_entries l)) es"
  using assms
proof (induction es arbitrary: n j)
  case Nil
  then show ?case by (simp add: Let_def)
next
  case (Cons e es)
  let ?n = "ae_entry_step n e"
  have step: "wf_log (n_log ?n)" "log_synced ?n" "l_base_index (n_log ?n) = l_base_index (n_log n)"
    "l_entries (n_log ?n) = take j (l_entries (n_log n)) @ ae_merge (drop j (l_entries (n_log n))) [e]"
    using ae_entry_step_spec [of n e j] Cons.prems by (simp_all add: consecutive_Cons Let_def)
  have "Suc j \<le> log_count (n_log ?n)"
    using step(4) Cons.prems(5) by (cases "drop j (l_entries (n_log n))") (auto simp: log_count_def)
  then show ?case
    using Cons.IH [of ?n "Suc j"] step Cons.prems ae_merge_Cons [of j "l_entries (n_log n)" e es]
    by (simp add: consecutive_Cons Let_def log_count_def)
qed

lemma ae_entry_step_sel [simp]:
  "n_config (ae_entry_step n e) = n_config n"
  "n_current_term (ae_entry_step n e) = n_current_term n"
  "n_voted_for (ae_entry_step n e) = n_voted_for n"
  "n_commit_index (ae_entry_step n e) = n_commit_index n"
  "n_last_applied (ae_entry_step n e) = n_last_applied n"
  "n_state (ae_entry_step n e) = n_state n"
  "n_running (ae_entry_step n e) = n_running n"
  by (simp_all add: ae_entry_step_def Let_def split: option.split)

lemma ae_fold_sel [simp]:
  "n_config (foldl ae_entry_step n es) = n_config n"
  "n_current_term (foldl ae_entry_step n es) = n_current_term n"
  "n_voted_for (foldl ae_entry_step n es) = n_voted_for n"
  "n_commit_index (foldl ae_entry_step n es) = n_commit_index n"
  "n_last_applied (foldl ae_entry_step n es) = n_last_applied n"
  "n_state (foldl ae_entry_step n es) = n_state n"
  "n_running (foldl ae_entry_step n es) = n_running n"
  by (induction es arbitrary: n) simp_all

lemma has_store_ae_fold [simp]:
  "n_persistence (foldl ae_entry_step n es) = None \<longleftrightarrow> n_persistence n = None"
proof (induction es arbitrary: n)
  case (Cons e es)
  then show ?case by (simp add: ae_entry_step_def Let_def split: option.split)
qed simp

text \<open>
  The handler's state after the term check, with the election timer reset and a candidate turned
  back into a follower.
\<close>

definition ae_accept :: "u64 \<Rightarrow> raft_node \<Rightarrow> cstr \<Rightarrow> u32 \<Rightarrow> raft_node" where
  "ae_accept now n leader_id t =
     (let n = (if t > n_current_term n then transition_to_follower now n t else n);
          n = n\<lparr>n_last_heartbeat_ms := now, n_current_leader := strncpy 63 leader_id\<rparr>
      in if n_state n = RAFT_STATE_CANDIDATE then transition_to_follower now n t else n)"

lemma ae_accept_sel [simp]:
  "n_config (ae_accept now n leader_id t) = n_config n"
  "n_log (ae_accept now n leader_id t) = n_log n"
  "n_commit_index (ae_accept now n leader_id t) = n_commit_index n"
  "n_last_applied (ae_accept now n leader_id t) = n_last_applied n"
  "n_running (ae_accept now n leader_id t) = n_running n"
  by (simp_all add: ae_accept_def Let_def)

lemma has_store_ae_accept [simp]:
  "n_persistence (ae_accept now n leader_id t) = None \<longleftrightarrow> n_persistence n = None"
  by (simp add: ae_accept_def Let_def)

lemma ae_accept_term: "n_current_term n \<le> t \<Longrightarrow> n_current_term (ae_accept now n leader_id t) = t"
  by (auto simp: ae_accept_def Let_def)

lemma ae_accept_synced: "log_synced n \<Longrightarrow> log_synced (ae_accept now n leader_id t)"
proof -
  assume "log_synced n"
  then have "log_synced (if t > n_current_term n then transition_to_follower now n t else n)" (is "log_synced ?n")
    by simp
  then have "log_synced (?n\<lparr>n_last_heartbeat_ms := now, n_current_leader := strncpy 63 leader_id\<rparr>)"
    by (subst log_synced_cong [of _ ?n]) simp_all
  then show ?thesis by (simp add: ae_accept_def Let_def)
qed

definition prev_matches :: "raft_log \<Rightarrow> u32 \<Rightarrow> u32 \<Rightarrow> bool" where
  "prev_matches l i t \<longleftrightarrow> i = 0 \<or> (\<exists>e. log_get l i = Some e \<and> e_term e = t)"

lemma prev_check:
  "(i > 0 \<and> (case log_get l i of None \<Rightarrow> True | Some e \<Rightarrow> e_term e \<noteq> t)) = (\<not> prev_matches l i t)"
  by (auto simp: prev_matches_def word_gt_0 split: option.splits)

lemma min_conv: "(if a < b then a else b) = min a (b :: u32)"
  by (auto simp: min_def)

lemma max_conv: "(if b < a then a else b) = max a (b :: u32)"
  by (auto simp: max_def)

lemma raft_handle_append_entries_alt:
  "raft_handle_append_entries now n leader_id t prev prev_term es lc =
     (if t < n_current_term n then (n, False, n_current_term n, log_last_index (n_log n))
      else
        let m = ae_accept now n leader_id t
        in if \<not> prev_matches (n_log n) prev prev_term then (m, False, t, log_last_index (n_log n))
           else let n' = foldl ae_entry_step m es; last = log_last_index (n_log n')
             in (if lc > n_commit_index n then n'\<lparr>n_commit_index := min lc last\<rparr> else n', True, t, last))"
proof (cases t "n_current_term n" rule: linorder_cases)
  case less
  then show ?thesis by (auto simp: raft_handle_append_entries_def Let_def)
next
  case equal
  then show ?thesis
    unfolding raft_handle_append_entries_def ae_accept_def Let_def prev_check min_conv
    by (cases "n_state n") auto
next
  case greater
  then have "\<not> t < n_current_term n" by simp
  with greater show ?thesis
    unfolding raft_handle_append_entries_def ae_accept_def Let_def prev_check min_conv by simp
qed

lemma has_store_append_entries:
  "raft_handle_append_entries now n leader t prev pt es lc = (n', ok, t', li) \<Longrightarrow>
     n_persistence n' = None \<longleftrightarrow> n_persistence n = None"
  by (auto simp: raft_handle_append_entries_alt Let_def split: if_splits)

lemma prev_matches_position:
  assumes "prev_matches l prev pt" and "unat (l_base_index l) \<le> unat prev"
  shows "unat prev - unat (l_base_index l) \<le> log_count l"
  using assms by (auto simp: prev_matches_def log_get_eq split: if_splits)

lemma append_entries_log:
  assumes "wf_log (n_log n)" and "log_synced n" and "n_current_term n \<le> t"
    and "prev_matches (n_log n) prev pt" and "unat (l_base_index (n_log n)) \<le> unat prev"
    and "\<forall>e\<in>set es. wf_entry e" and "consecutive (unat prev) es"
    and "unat prev + length es < 2 ^ 32 - 1"
    and "raft_handle_append_entries now n leader t prev pt es lc = (n', ok, t', li)"
  defines "k \<equiv> unat prev - unat (l_base_index (n_log n))" and "old \<equiv> l_entries (n_log n)"
  shows "ok" and "t' = t" and "n_current_term n' = t" and "li = log_last_index (n_log n')"
    and "l_entries (n_log n') = take k old @ ae_merge (drop k old) es"
    and "wf_log (n_log n')" and "log_synced n'" and "l_base_index (n_log n') = l_base_index (n_log n)"
    and "n_commit_index n' = (if lc > n_commit_index n then min lc li else n_commit_index n)"
proof -
  let ?m = "foldl ae_entry_step (ae_accept now n leader t) es"
  have res: "n' = (if lc > n_commit_index n
      then ?m\<lparr>n_commit_index := min lc (log_last_index (n_log ?m))\<rparr> else ?m)"
    "ok" "t' = t" "li = log_last_index (n_log ?m)"
    using assms(3,4,9) by (auto simp: raft_handle_append_entries_alt Let_def split: if_splits)
  have fold: "wf_log (n_log ?m)" "log_synced ?m" "l_base_index (n_log ?m) = l_base_index (n_log n)"
    "l_entries (n_log ?m) = take k old @ ae_merge (drop k old) es"
    using ae_fold_spec [of "ae_accept now n leader t" es k] ae_accept_synced [OF assms(2)]
      prev_matches_position [OF assms(4,5)] assms by (simp_all add: Let_def)
  have log: "n_log n' = n_log ?m" using res(1) by simp
  have pers: "n_persistence n' = n_persistence ?m" using res(1) by simp
  show "ok" "t' = t" "li = log_last_index (n_log n')" using res log by simp_all
  show "n_current_term n' = t" using res(1) ae_accept_term [OF assms(3)] by simp
  show "l_entries (n_log n') = take k old @ ae_merge (drop k old) es" "wf_log (n_log n')"
    "l_base_index (n_log n') = l_base_index (n_log n)"
    using log fold by simp_all
  show "log_synced n'" using fold(2) log_synced_cong [OF pers log] by simp
  show "n_commit_index n' = (if lc > n_commit_index n then min lc li else n_commit_index n)"
    using res by simp
qed

text \<open>What the merge guarantees: agreement with the sender, idempotence, and a stable matching prefix.\<close>

lemma ae_merge_nth:
  "j < length new \<Longrightarrow> j < length (ae_merge old new) \<and> e_term (ae_merge old new ! j) = e_term (new ! j)"
proof (induction old new arbitrary: j rule: ae_merge.induct)
  case (3 x xs y ys)
  then show ?case by (cases j) auto
qed auto

text \<open>After a successful request the follower holds an entry of the received term at every received index.\<close>

lemma append_entries_terms:
  assumes "wf_log (n_log n)" and "log_synced n" and "n_current_term n \<le> t"
    and "prev_matches (n_log n) prev pt" and "unat (l_base_index (n_log n)) \<le> unat prev"
    and "\<forall>e\<in>set es. wf_entry e" and "consecutive (unat prev) es"
    and "unat prev + length es < 2 ^ 32 - 1"
    and h: "raft_handle_append_entries now n leader t prev pt es lc = (n', ok, t', li)"
    and j: "j < length es"
  shows "map_option e_term (log_get (n_log n') (prev + 1 + of_nat j)) = Some (e_term (es ! j))"
proof -
  define k where "k = unat prev - unat (l_base_index (n_log n))"
  define old where "old = l_entries (n_log n)"
  note r = append_entries_log [OF assms(1-8) h, folded k_def old_def]
  have "unat (prev + of_nat (Suc j)) = unat prev + Suc j"
    using j assms(8) by (intro unat_index_sum) simp
  then have idx: "unat (prev + 1 + of_nat j) = unat prev + Suc j" by (simp add: add.assoc)
  have k: "k \<le> length old"
    using prev_matches_position [OF assms(4,5)] by (simp add: k_def old_def log_count_def)
  have "l_entries (n_log n') ! (k + j) = ae_merge (drop k old) es ! j"
    using r(5) k by (simp add: nth_append)
  moreover have "k + j < log_count (n_log n')"
    using r(5) k ae_merge_nth [OF j, of "drop k old"] by (simp add: log_count_def)
  ultimately show ?thesis
    using idx r(8) assms(5) ae_merge_nth [OF j, of "drop k old"]
    by (simp add: log_get_eq k_def add.commute Nat.diff_add_assoc2)
qed

lemma ae_merge_idem: "ae_merge (ae_merge old new) new = ae_merge old new"
proof -
  have same: "ae_merge ys ys = ys" for ys by (induction ys) auto
  show ?thesis
    by (induction old new rule: ae_merge.induct) (auto simp: same)
qed

lemma ae_merge_prefix:
  "\<forall>i < m. i < length old \<longrightarrow> i < length new \<longrightarrow> e_term (old ! i) = e_term (new ! i) \<Longrightarrow>
     m \<le> length old \<Longrightarrow> take m (ae_merge old new) = take m old"
proof (induction old new arbitrary: m rule: ae_merge.induct)
  case (3 x xs y ys)
  show ?case
  proof (cases m)
    case (Suc k)
    have "e_term x = e_term y" using 3 Suc by force
    moreover have "take k (ae_merge xs ys) = take k xs"
    proof (rule "3.IH" [OF \<open>e_term x = e_term y\<close>])
      show "\<forall>i<k. i < length xs \<longrightarrow> i < length ys \<longrightarrow> e_term (xs ! i) = e_term (ys ! i)"
        using 3(2) Suc by auto
      show "k \<le> length xs" using 3(3) Suc by simp
    qed
    ultimately show ?thesis using Suc by simp
  qed simp
qed auto

section \<open>State durability and restart\<close>

definition state_synced :: "raft_node \<Rightarrow> bool" where
  "state_synced n \<longleftrightarrow>
     (case n_persistence n of
        None \<Rightarrow> True
      | Some p \<Rightarrow>
          (case raft_persistence_load_state p of
             Inr (t, v) \<Rightarrow> t = n_current_term n \<and> v = n_voted_for n
           | Inl _ \<Rightarrow> n_current_term n = 0 \<and> n_voted_for n = []))"

lemma save_state_ok:
  assumes "rp_faults p = []" and "wf_vote v"
  shows "raft_persistence_load_state (snd (raft_persistence_save_state p t v)) = Inr (t, v)"
  using assms format_state_file_Inr [OF assms(2), of t] parse_format_state [OF assms(2), of t]
  by (simp add: raft_persistence_save_state_def raft_persistence_load_state_def ascii_keys)

lemma persist_state_synced:
  assumes "log_synced n" and "wf_vote (n_voted_for n)"
  shows "state_synced (persist_state n)"
  using assms save_state_ok
  by (auto simp: log_synced_def state_synced_def persist_state_def healthy_def split: option.splits)

lemma init_healthy: "healthy p \<Longrightarrow> raft_persistence_init p = Inr p"
proof -
  assume "healthy p"
  then obtain es where f: "rp_log_file p = log_header @ concat (map log_record es)"
    by (auto simp: healthy_def log_image_def)
  have "le_word (bslice 0 4 (rp_log_file p)) = LOG_FILE_MAGIC"
    "le_word (bslice 4 4 (rp_log_file p)) = LOG_FILE_VERSION"
    unfolding f log_header_def by (simp_all add: bslice_fields del: bslice_at bslice_at_end)
  moreover have "\<not> length (rp_log_file p) < 8" unfolding f by simp
  ultimately show ?thesis by (simp add: raft_persistence_init_def read_log_header_def)
qed

lemma restore_entries:
  assumes "\<forall>e\<in>set es. wf_entry e" and "consecutive (log_count l) es" and "l_base_index l = 0"
  shows "l_entries (foldl restore_entry l es) = l_entries l @ es \<and> l_base_index (foldl restore_entry l es) = 0"
  using assms
proof (induction es arbitrary: l)
  case Nil
  then show ?case by simp
next
  case (Cons e es)
  have "new_entry l (e_term e) (e_type e) (e_data e) = e"
    using Cons.prems by (intro new_entry_eq) (simp_all add: consecutive_Cons)
  then have "l_entries (restore_entry l e) = l_entries l @ [e]" "l_base_index (restore_entry l e) = 0"
    using Cons.prems by (simp_all add: restore_entry_def log_append_in_memory)
  with Cons.IH [of "restore_entry l e"] Cons.prems show ?case
    by (simp add: consecutive_Cons log_count_def)
qed

lemma wf_log_consecutive: "wf_log l \<Longrightarrow> consecutive (unat (l_base_index l)) (l_entries l)"
  by (simp add: wf_log_def consecutive_def log_count_def)

lemma restart_log:
  assumes "n_persistence n = Some p" and "log_synced n" and "wf_log (n_log n)"
    and "l_base_index (n_log n) = 0"
  shows "\<exists>n'. raft_create cfg now rnd (Some p) = Inr n' \<and> l_entries (n_log n') = l_entries (n_log n)
    \<and> l_base_index (n_log n') = 0 \<and> n_state n' = RAFT_STATE_FOLLOWER \<and> n_commit_index n' = 0
    \<and> n_persistence n' = Some p
    \<and> (n_current_term n', n_voted_for n') = (case raft_persistence_load_state p of
          Inr (t, v) \<Rightarrow> (t, strncpy 63 v) | Inl _ \<Rightarrow> (0, []))"
proof -
  let ?es = "l_entries (n_log n)"
  have h: "healthy p" "raft_persistence_load_log p = Inr ?es"
    using assms(1,2) by (simp_all add: log_synced_def)
  have c: "consecutive 0 ?es" using wf_log_consecutive [OF assms(3)] assms(4) by simp
  have log: "l_entries (foldl restore_entry raft_log_init ?es) = ?es"
    "l_base_index (foldl restore_entry raft_log_init ?es) = 0"
    using restore_entries [of ?es raft_log_init] c healthy_load [OF h]
    by (simp_all add: raft_log_init_def log_count_def)
  show ?thesis
    using h log
    by (cases "raft_persistence_load_state p")
      (auto simp: raft_create_def init_healthy load_persistent_def fresh_node_def Let_def)
qed

lemma restart_state:
  assumes "n_persistence n = Some p" and "state_synced n" and "wf_cstr 64 (n_voted_for n)"
  shows "(case raft_persistence_load_state p of Inr (t, v) \<Rightarrow> (t, strncpy 63 v) | Inl _ \<Rightarrow> (0, []))
    = (n_current_term n, n_voted_for n)"
proof -
  have "strncpy 63 (n_voted_for n) = n_voted_for n"
    using assms(3) by (intro strncpy_id) simp
  with assms(1,2) show ?thesis by (auto simp: state_synced_def split: sum.splits)
qed

section \<open>Votes\<close>

definition log_up_to_date :: "raft_log \<Rightarrow> u32 \<Rightarrow> u32 \<Rightarrow> bool" where
  "log_up_to_date l last_log_index last_log_term \<longleftrightarrow>
     last_log_term > log_last_term l
     \<or> last_log_term = log_last_term l \<and> last_log_index \<ge> log_last_index l"

text \<open>The vote handler as a decision followed by an update.\<close>

lemma raft_handle_request_vote_alt:
  "raft_handle_request_vote now n c t li lt =
     (let m = raft_step_down now n t;
          granted = (t = n_current_term m \<and> (n_voted_for m = [] \<or> n_voted_for m = c)
            \<and> log_up_to_date (n_log n) li lt)
      in (if granted then persist_state (m\<lparr>n_voted_for := strncpy 63 c, n_last_heartbeat_ms := now\<rparr>) else m,
          granted, n_current_term m))"
  by (auto simp: raft_handle_request_vote_def raft_step_down_def log_up_to_date_def Let_def not_less)

lemma raft_step_down_sel [simp]:
  "n_config (raft_step_down now n t) = n_config n" "n_log (raft_step_down now n t) = n_log n"
  "n_current_term (raft_step_down now n t) = max t (n_current_term n)"
  "n_commit_index (raft_step_down now n t) = n_commit_index n"
  "n_last_applied (raft_step_down now n t) = n_last_applied n"
  by (auto simp: raft_step_down_def max_def)

lemma raft_step_down_voted_for:
  "n_voted_for (raft_step_down now n t) = (if t > n_current_term n then [] else n_voted_for n)"
  by (simp add: raft_step_down_def)

lemma raft_step_down_synced:
  assumes "log_synced n" and "state_synced n"
  shows "log_synced (raft_step_down now n t)" "state_synced (raft_step_down now n t)"
proof -
  let ?m = "n\<lparr>n_current_term := t, n_state := RAFT_STATE_FOLLOWER, n_voted_for := [],
       n_current_leader := [], n_last_heartbeat_ms := now\<rparr>"
  have "log_synced ?m" using assms(1) by (subst log_synced_cong [of _ n]) simp_all
  then have "state_synced (persist_state ?m)"
    by (rule persist_state_synced) (simp add: wf_vote_def wf_cstr_def)
  with assms show "log_synced (raft_step_down now n t)" "state_synced (raft_step_down now n t)"
    by (simp_all add: raft_step_down_def transition_to_follower_def [symmetric])
qed

section \<open>Commitment and application\<close>

lemma committable_commit [simp]: "committable (n\<lparr>n_commit_index := c\<rparr>) i = committable n i"
  by (simp add: committable_def replicas_def majority_def peer_count_def split: option.split)

lemma commit_fold:
  "foldl commit_step n is = n\<lparr>n_commit_index :=
     (let xs = filter (\<lambda>i. committable n (of_nat i)) is
      in if xs = [] then n_commit_index n else of_nat (last xs))\<rparr>"
proof (induction "is" rule: rev_induct)
  case Nil
  then show ?case by simp
next
  case (snoc i "is")
  then show ?case by (simp add: commit_step_def Let_def)
qed

lemma committable_majority:
  assumes "committable n i" and "length (n_match_index n) = peer_count n"
  shows "\<exists>e. log_get (n_log n) i = Some e \<and> e_term e = n_current_term n
    \<and> 2 * (1 + card {j. j < peer_count n \<and> n_match_index n ! j \<ge> i}) > peer_count n + 1"
  using assms
  by (auto simp: committable_def replicas_def majority_def length_filter_conv_card split: option.splits)

lemma sorted_le_last: "sorted xs \<Longrightarrow> (x :: nat) \<in> set xs \<Longrightarrow> x \<le> last xs"
  by (induction xs) auto

lemma update_commit_index_max:
  assumes "n_state n = RAFT_STATE_LEADER" and "peer_count n > 0" and "wf_log (n_log n)"
    and "c' = n_commit_index (update_commit_index n)"
  shows "c' = n_commit_index n \<or> n_commit_index n < c' \<and> committable n c'"
    and "n_commit_index n < i \<Longrightarrow> committable n i \<Longrightarrow> i \<le> c'"
proof -
  let ?c = "unat (n_commit_index n)" and ?l = "unat (log_last_index (n_log n))"
  define xs where "xs = filter (\<lambda>i. committable n (of_nat i)) [?c + 1 ..< ?l + 1]"
  have c': "c' = (if xs = [] then n_commit_index n else of_nat (last xs))"
    using assms by (simp add: update_commit_index_def Let_def commit_fold xs_def)
  have set_xs: "i \<in> set xs \<longleftrightarrow> ?c < i \<and> i \<le> ?l \<and> committable n (of_nat i)" for i
    by (auto simp: xs_def)
  have bound: "i < 2 ^ 32" if "i \<in> set xs" for i
    using that unat_last_index [OF assms(3)] assms(3) by (auto simp: xs_def wf_log_def)
  have un: "unat (of_nat i :: u32) = i" if "i \<in> set xs" for i
    using bound [OF that] by (simp add: unat_of_nat)
  have "sorted xs" unfolding xs_def by (intro sorted_wrt_filter sorted_upt)
  then have le: "i \<le> last xs" if "i \<in> set xs" for i
    using that by (rule sorted_le_last)
  show "c' = n_commit_index n \<or> n_commit_index n < c' \<and> committable n c'"
  proof (cases xs)
    case (Cons x ys)
    then have "last xs \<in> set xs" by simp
    then have "committable n (of_nat (last xs))" "?c < last xs"
      using set_xs [of "last xs"] by blast+
    with un [OF \<open>last xs \<in> set xs\<close>] Cons show ?thesis
      by (simp add: c' u32_less_conv)
  qed (simp add: c')
  assume i: "n_commit_index n < i" "committable n i"
  then have "unat i \<le> ?l"
    using unat_last_index [OF assms(3)] by (auto simp: committable_def log_get_eq split: option.splits if_splits)
  with i have mem: "unat i \<in> set xs" by (simp add: set_xs u32_less_conv)
  then have "unat i \<le> last xs" "xs \<noteq> []" using le by auto
  moreover have "last xs \<in> set xs" using mem by (cases xs) auto
  ultimately show "i \<le> c'"
    using un [of "last xs"] by (simp add: c' u32_le_conv)
qed

text \<open>The entries between two indices, both given as numbers.\<close>

definition log_slice :: "raft_log \<Rightarrow> nat \<Rightarrow> nat \<Rightarrow> raft_log_entry list" where
  "log_slice l i j = take (j - i) (drop (i - unat (l_base_index l)) (l_entries l))"

lemma log_slice_step:
  assumes "unat (l_base_index l) \<le> i" and "i < j" and "j \<le> unat (l_base_index l) + log_count l"
  shows "log_slice l i j = l_entries l ! (i - unat (l_base_index l)) # log_slice l (Suc i) j"
proof -
  have "i - unat (l_base_index l) < length (l_entries l)"
    using assms by (simp add: log_count_def)
  then have "drop (i - unat (l_base_index l)) (l_entries l)
      = l_entries l ! (i - unat (l_base_index l)) # drop (Suc i - unat (l_base_index l)) (l_entries l)"
    using assms(1) by (metis Cons_nth_drop_Suc Suc_diff_le)
  with assms(2) show ?thesis
    by (simp add: log_slice_def Suc_diff_Suc [symmetric])
qed

lemma apply_loop_spec:
  assumes "unat (l_base_index (n_log n)) \<le> unat (n_last_applied n)"
    and "unat (n_last_applied n) \<le> unat c"
    and "unat c \<le> unat (l_base_index (n_log n)) + log_count (n_log n)"
  shows "apply_loop c n = n\<lparr>n_last_applied := c, n_applied := n_applied n
    @ filter (\<lambda>e. e_type e \<noteq> RAFT_ENTRY_NOOP) (log_slice (n_log n) (unat (n_last_applied n)) (unat c))\<rparr>"
  using assms
proof (induction c n rule: apply_loop.induct)
  case (1 c n)
  show ?case
  proof (cases "n_last_applied n < c")
    case False
    with 1 have "n_last_applied n = c" by (simp add: u32_less_conv word_unat_eq_iff)
    then show ?thesis by (subst apply_loop.simps) (simp add: log_slice_def)
  next
    case True
    have suc: "unat (n_last_applied n + 1) = Suc (unat (n_last_applied n))"
      using True by (rule u32_less_suc)
    let ?e = "l_entries (n_log n) ! (unat (n_last_applied n) - unat (l_base_index (n_log n)))"
    have get: "log_get (n_log n) (n_last_applied n + 1) = Some ?e"
      using 1 True suc by (auto simp: log_get_eq u32_less_conv)
    have slice: "log_slice (n_log n) (unat (n_last_applied n)) (unat c)
        = ?e # log_slice (n_log n) (unat (n_last_applied n + 1)) (unat c)"
      using 1 True suc by (simp add: log_slice_step u32_less_conv)
    have "unat (n_last_applied n + 1) \<le> unat c"
      using True suc by (simp add: u32_less_conv)
    then show ?thesis
      using True get slice suc 1
      by (subst apply_loop.simps) (simp add: Let_def)
  qed
qed

section \<open>What a leader sends\<close>

lemma raft_get_log_entries_slice:
  assumes "unat (l_base_index (n_log n)) < unat i" and "unat i \<le> unat j"
    and "unat j \<le> unat (l_base_index (n_log n)) + log_count (n_log n) + 1"
  shows "raft_get_log_entries n i j = log_slice (n_log n) (unat i - 1) (unat j - 1)"
proof -
  let ?l = "n_log n"
  have "List.map_filter (\<lambda>k. log_get ?l (of_nat k)) [a..<unat j] = log_slice ?l (a - 1) (unat j - 1)"
    if "unat (l_base_index ?l) < a" "a \<le> unat j" for a
    using that
  proof (induction "unat j - a" arbitrary: a)
    case 0
    then show ?case by (simp add: log_slice_def List.map_filter_simps)
  next
    case (Suc d)
    have "unat j < 2 ^ LENGTH(32)" by (rule unsigned_less)
    with Suc have "unat (of_nat a :: u32) = a" by (simp add: unat_of_nat)
    then have "log_get ?l (of_nat a) = Some (l_entries ?l ! (a - 1 - unat (l_base_index ?l)))"
      using Suc assms(3) by (simp add: log_get_eq)
    moreover have "[a..<unat j] = a # [Suc a..<unat j]"
      using Suc by (simp add: upt_conv_Cons)
    moreover have "log_slice ?l (a - 1) (unat j - 1)
        = l_entries ?l ! (a - 1 - unat (l_base_index ?l)) # log_slice ?l (Suc (a - 1)) (unat j - 1)"
      using Suc assms(3) by (intro log_slice_step) auto
    ultimately show ?case
      using Suc by (simp add: List.map_filter_simps)
  qed
  from this [of "unat i"] assms(1,2) show ?thesis by (simp add: raft_get_log_entries_def)
qed

lemma log_slice_consecutive:
  assumes "wf_log l" and "unat (l_base_index l) \<le> i"
  shows "consecutive i (log_slice l i j)"
  using assms by (auto simp: consecutive_def log_slice_def wf_log_def log_count_def)

lemma length_log_slice:
  "unat (l_base_index l) \<le> i \<Longrightarrow> j \<le> unat (l_base_index l) + log_count l \<Longrightarrow> length (log_slice l i j) = j - i"
  by (auto simp: log_slice_def log_count_def)

lemma get_entries_for_peer_spec:
  assumes "wf_log (n_log n)" and "i < peer_count n"
    and "unat (l_base_index (n_log n)) < unat (n_next_index n ! i)"
    and "unat (n_next_index n ! i) \<le> unat (log_last_index (n_log n)) + 1"
    and "unat (log_last_index (n_log n)) < 2 ^ 32 - 200"
  defines "prev \<equiv> n_next_index n ! i - 1"
  shows "raft_get_entries_for_peer n i =
    Inr (log_slice (n_log n) (unat prev) (min (unat prev + 100) (unat (log_last_index (n_log n)))), prev,
      if prev = 0 then 0
      else case log_get (n_log n) prev of Some e \<Rightarrow> e_term e | None \<Rightarrow> l_base_term (n_log n))"
proof -
  let ?x = "n_next_index n ! i" and ?l = "log_last_index (n_log n)"
  have x: "1 \<le> ?x" using assms(3) by (simp add: u32_le_conv)
  then have p: "unat prev = unat ?x - 1" unfolding prev_def by (simp add: unat_sub)
  have prev: "(if ?x > 1 then ?x - 1 else 0) = prev"
    using x by (auto simp: prev_def)
  have gt: "(prev > 0) = (prev \<noteq> 0)" by (simp add: word_gt_0)
  have last: "unat ?l = unat (l_base_index (n_log n)) + log_count (n_log n)"
    using assms(1) by (rule unat_last_index)
  have l1: "unat (?l + 1) = unat ?l + 1" using assms(5) unat_index_sum [of ?l 1] by simp
  show ?thesis
  proof (cases "?x > ?l")
    case True
    then have "log_slice (n_log n) (unat prev) (min (unat prev + 100) (unat ?l)) = []"
      using p by (simp add: log_slice_def u32_less_conv)
    with True prev assms(2) gt show ?thesis
      by (simp add: raft_get_entries_for_peer_def Let_def prev_def)
  next
    case False
    let ?e = "if ?x + 100 > ?l + 1 then ?l + 1 else ?x + 100"
    have "unat ?x \<le> unat ?l" using False by (simp add: u32_less_conv)
    then have "unat (?x + 100) = unat ?x + 100"
      using assms(5) unat_index_sum [of ?x 100] by simp
    then have e: "unat ?e = min (unat ?x + 100) (unat ?l + 1)"
      using l1 by (auto simp: u32_less_conv)
    have "raft_get_log_entries n ?x ?e = log_slice (n_log n) (unat ?x - 1) (unat ?e - 1)"
      using False assms(3) e last by (intro raft_get_log_entries_slice) (auto simp: u32_less_conv)
    moreover have "unat ?e - 1 = min (unat prev + 100) (unat ?l)" using e p x by (simp add: u32_le_conv)
    ultimately show ?thesis
      using False prev assms(2) gt p
      by (simp add: raft_get_entries_for_peer_def Let_def get_replication_batch_size_def)
  qed
qed

section \<open>A sample node\<close>

text \<open>
  A node \<^verbatim>\<open>n1\<close> of a three-node cluster in term 2, whose log holds a no-op and a command of term 1,
  both on disk. It instantiates the hypotheses of the properties below.
\<close>

definition sample_entry :: "u32 \<Rightarrow> u32 \<Rightarrow> bytes \<Rightarrow> raft_log_entry" where
  "sample_entry i t d = \<lparr>e_index = i, e_term = t, e_type = RAFT_ENTRY_COMMAND, e_data = Some d\<rparr>"

definition sample_entries :: "raft_log_entry list" where
  "sample_entries =
     [\<lparr>e_index = 1, e_term = 1, e_type = RAFT_ENTRY_NOOP, e_data = None\<rparr>, sample_entry 2 1 [65]]"

definition sample_config :: raft_config where
  "sample_config =
     \<lparr>cfg_node_id = [110, 49],
      cfg_peers = [\<lparr>p_node_id = [110, 50], p_address = [104], p_port = 7000\<rparr>,
                   \<lparr>p_node_id = [110, 51], p_address = [104], p_port = 7001\<rparr>],
      cfg_election_timeout_min_ms = 150, cfg_election_timeout_max_ms = 300,
      cfg_heartbeat_interval_ms = 50, cfg_apply_fn = True\<rparr>"

definition sample_node :: raft_node where
  "sample_node = persist_state ((fresh_node sample_config 1000 7)
     \<lparr>n_current_term := 2, n_log := raft_log_init\<lparr>l_entries := sample_entries\<rparr>,
      n_persistence := Some (empty_store\<lparr>rp_log_file := log_image sample_entries\<rparr>)\<rparr>)"

lemma sample_node_sel [simp]:
  "n_current_term sample_node = 2" "n_voted_for sample_node = []" "n_commit_index sample_node = 0"
  "n_log sample_node = raft_log_init\<lparr>l_entries := sample_entries\<rparr>" "n_config sample_node = sample_config"
  "n_state sample_node = RAFT_STATE_FOLLOWER" "n_last_applied sample_node = 0"
  by (simp_all add: sample_node_def fresh_node_def)

lemma sample_entries_wf: "\<forall>e\<in>set sample_entries. wf_entry e"
  by (simp add: sample_entries_def sample_entry_def wf_entry_def entry_data_def)

lemma sample_node_ok:
  "wf_log (n_log sample_node)" "log_synced sample_node" "state_synced sample_node"
proof -
  show "wf_log (n_log sample_node)"
    by (simp add: raft_log_init_def wf_log_def log_count_def sample_entries_def sample_entry_def
        All_less_Suc)
  let ?p = "empty_store\<lparr>rp_log_file := log_image sample_entries\<rparr>"
  have "healthy ?p" "raft_persistence_load_log ?p = Inr sample_entries"
    using sample_entries_wf by (auto simp: healthy_def empty_store_def intro: load_log_image)
  then have raw: "log_synced ((fresh_node sample_config 1000 7)
     \<lparr>n_current_term := 2, n_log := raft_log_init\<lparr>l_entries := sample_entries\<rparr>,
      n_persistence := Some ?p\<rparr>)"
    by (simp add: log_synced_def)
  then show "log_synced sample_node" unfolding sample_node_def by simp
  show "state_synced sample_node" unfolding sample_node_def
    by (rule persist_state_synced [OF raw]) (simp add: fresh_node_def wf_vote_def wf_cstr_def)
qed

lemma sample_request:
  "wf_log (n_log sample_node)" "log_synced sample_node"
  "prev_matches (n_log sample_node) 1 1" "unat (l_base_index (n_log sample_node)) = 0"
  "wf_entry (sample_entry 2 3 [66])" "consecutive (unat (1 :: u32)) [sample_entry 2 3 [66]]"
  using sample_node_ok(1,2)
  by (simp_all add: prev_matches_def log_get_def raft_log_init_def log_count_def
      sample_entries_def sample_entry_def wf_entry_def entry_data_def consecutive_def)

section \<open>Properties\<close>

text \<open>
  C2. AppendEntries: for consecutive entries after a matching previous entry, the handler succeeds
  and the follower's log becomes the list merge of its own entries with the received ones. The log
  stays well formed, stays equal to the log file, holds at every received index an entry of the
  received term, and the commit index advances to the leader's but never past the last entry.
\<close>

theorem append_entries_merges:
  assumes "wf_log (n_log n)" and "log_synced n" and "n_current_term n \<le> t"
    and "prev_matches (n_log n) prev pt" and "unat (l_base_index (n_log n)) \<le> unat prev"
    and "\<forall>e\<in>set es. wf_entry e" and "consecutive (unat prev) es"
    and "unat prev + length es < 2 ^ 32 - 1"
  defines "k \<equiv> unat prev - unat (l_base_index (n_log n))" and "old \<equiv> l_entries (n_log n)"
  shows "case raft_handle_append_entries now n leader t prev pt es lc of (n', ok, t', li) \<Rightarrow>
    ok \<and> t' = t \<and> n_current_term n' = t \<and> li = log_last_index (n_log n')
    \<and> l_entries (n_log n') = take k old @ ae_merge (drop k old) es
    \<and> wf_log (n_log n') \<and> log_synced n'
    \<and> (\<forall>j < length es. map_option e_term (log_get (n_log n') (prev + 1 + of_nat j)) = Some (e_term (es ! j)))
    \<and> n_commit_index n' = (if lc > n_commit_index n then min lc li else n_commit_index n)"
proof -
  obtain n' ok t' li where h: "raft_handle_append_entries now n leader t prev pt es lc = (n', ok, t', li)"
    by (metis prod_cases4)
  note r = append_entries_log [OF assms(1-8) h, folded k_def old_def]
  note terms = append_entries_terms [OF assms(1-8) h]
  from h r terms show ?thesis by simp
qed

theorem append_entries_merges_witness:
  "case raft_handle_append_entries 2000 sample_node [110, 50] 3 1 1 [sample_entry 2 3 [66]] 2 of
     (n', ok, t', li) \<Rightarrow> ok \<and> l_entries (n_log n') = [sample_entries ! 0, sample_entry 2 3 [66]]
       \<and> log_synced n' \<and> n_commit_index n' = min 2 li"
proof -
  have "case raft_handle_append_entries 2000 sample_node [110, 50] 3 1 1 [sample_entry 2 3 [66]] 2 of
     (n', ok, t', li) \<Rightarrow> ok \<and> t' = 3 \<and> n_current_term n' = 3 \<and> li = log_last_index (n_log n')
      \<and> l_entries (n_log n') = take (unat (1 :: u32) - unat (l_base_index (n_log sample_node)))
            (l_entries (n_log sample_node))
          @ ae_merge (drop (unat (1 :: u32) - unat (l_base_index (n_log sample_node)))
            (l_entries (n_log sample_node))) [sample_entry 2 3 [66]]
      \<and> wf_log (n_log n') \<and> log_synced n'
      \<and> (\<forall>j < length [sample_entry 2 3 [66]]. map_option e_term (log_get (n_log n') (1 + 1 + of_nat j))
            = Some (e_term ([sample_entry 2 3 [66]] ! j)))
      \<and> n_commit_index n' = (if 2 > n_commit_index sample_node then min 2 li else n_commit_index sample_node)"
    by (rule append_entries_merges) (use sample_request in simp_all)
  then show ?thesis
    by (auto simp: raft_log_init_def sample_entries_def sample_entry_def)
qed

text \<open>
  Retransmission: a follower that handles the same AppendEntries request twice accepts it twice
  and its log after the second time is the log after the first.
\<close>

lemma append_entries_retransmission:
  assumes "wf_log (n_log n)" and "log_synced n" and "n_current_term n \<le> t"
    and "prev_matches (n_log n) prev pt" and "unat (l_base_index (n_log n)) \<le> unat prev"
    and "\<forall>e\<in>set es. wf_entry e" and "consecutive (unat prev) es"
    and "unat prev + length es < 2 ^ 32 - 1"
  shows "case raft_handle_append_entries now n leader t prev pt es lc of (n1, ok1, t1, li1) \<Rightarrow>
    case raft_handle_append_entries now' n1 leader t prev pt es lc of (n2, ok2, t2, li2) \<Rightarrow>
      ok1 \<and> ok2 \<and> l_entries (n_log n2) = l_entries (n_log n1) \<and> li2 = li1"
proof -
  obtain n1 ok1 t1 li1 where h1: "raft_handle_append_entries now n leader t prev pt es lc = (n1, ok1, t1, li1)"
    by (metis prod_cases4)
  obtain n2 ok2 t2 li2 where h2: "raft_handle_append_entries now' n1 leader t prev pt es lc = (n2, ok2, t2, li2)"
    by (metis prod_cases4)
  let ?k = "unat prev - unat (l_base_index (n_log n))" and ?old = "l_entries (n_log n)"
  note r = append_entries_log [OF assms h1]
  have k: "?k \<le> length ?old"
    using prev_matches_position [OF assms(4,5)] by (simp add: log_count_def)
  have "log_get (n_log n1) prev = log_get (n_log n) prev" if "prev \<noteq> 0"
    using assms(4) that k r(5,8)
    by (auto simp: prev_matches_def log_get_eq log_count_def nth_append split: if_splits)
  then have pm: "prev_matches (n_log n1) prev pt" using assms(4) by (auto simp: prev_matches_def)
  have "n_current_term n1 \<le> t" "unat (l_base_index (n_log n1)) \<le> unat prev"
    using r(3,8) assms(5) by simp_all
  note r2 = append_entries_log [OF r(6,7) this(1) pm this(2) assms(6-8) h2]
  have "l_entries (n_log n2) = l_entries (n_log n1)"
    using r2(5) r(5,8) k by (simp add: ae_merge_idem)
  moreover have "log_last_index (n_log n2) = log_last_index (n_log n1)"
    using calculation r2(8) by (simp add: log_last_index_def log_count_def)
  ultimately show ?thesis using h1 h2 r2(1,4) r(1,4) by simp
qed

lemma append_entries_retransmission_witness:
  "case raft_handle_append_entries 2000 sample_node [110, 50] 3 1 1 [sample_entry 2 3 [66]] 2 of
     (n1, ok1, t1, li1) \<Rightarrow>
     case raft_handle_append_entries 2001 n1 [110, 50] 3 1 1 [sample_entry 2 3 [66]] 2 of
       (n2, ok2, t2, li2) \<Rightarrow> ok1 \<and> ok2 \<and> l_entries (n_log n2) = l_entries (n_log n1) \<and> li2 = li1"
  by (rule append_entries_retransmission) (use sample_request in simp_all)

text \<open>
  AppendEntries refused: a request of an older term changes nothing, and a request whose
  previous entry is missing or of another term leaves log, commit index and log file as they were;
  both are answered with failure, the node's term and its last index.
\<close>

lemma append_entries_refusals:
  assumes "t < n_current_term n \<or> (n_current_term n \<le> t \<and> \<not> prev_matches (n_log n) prev pt)"
  shows "case raft_handle_append_entries now n leader t prev pt es lc of (n', ok, t', li) \<Rightarrow>
    \<not> ok \<and> t' = max t (n_current_term n) \<and> n_current_term n' = t' \<and> li = log_last_index (n_log n)
    \<and> n_log n' = n_log n \<and> n_commit_index n' = n_commit_index n
    \<and> (if t < n_current_term n then n' = n else log_synced n \<longrightarrow> log_synced n')"
  using assms ae_accept_term [of n t now leader] ae_accept_synced [of n now leader t]
  by (auto simp: raft_handle_append_entries_alt Let_def max_def)

lemma append_entries_refusals_witness:
  "case raft_handle_append_entries 2000 sample_node [110, 50] 3 2 7 [] 2 of (n', ok, t', li) \<Rightarrow>
     \<not> ok \<and> t' = 3 \<and> li = 2 \<and> n_log n' = n_log sample_node"
proof -
  have "2 < n_current_term sample_node \<or> (n_current_term sample_node \<le> 3
      \<and> \<not> prev_matches (n_log sample_node) 2 7)"
    by (simp add: prev_matches_def log_get_def raft_log_init_def log_count_def
        sample_entries_def sample_entry_def)
  then show ?thesis
    using append_entries_refusals [of 3 sample_node 2 7 2000 "[110, 50]" "[]" 2]
    by (auto simp: max_def log_last_index_def log_count_def raft_log_init_def sample_entries_def)
qed

text \<open>
  C3. Acknowledged entries survive a crash: after a successful AppendEntries on a node with a
  healthy store, creating the node again from the same store restores exactly the log it had when
  it answered.
\<close>

theorem acknowledged_entries_survive_restart:
  assumes "n_persistence n \<noteq> None" and "l_base_index (n_log n) = 0"
    and "wf_log (n_log n)" and "log_synced n" and "n_current_term n \<le> t"
    and "prev_matches (n_log n) prev pt" and "\<forall>e\<in>set es. wf_entry e"
    and "consecutive (unat prev) es" and "unat prev + length es < 2 ^ 32 - 1"
  shows "case raft_handle_append_entries now n leader t prev pt es lc of (n', ok, t', li) \<Rightarrow>
    ok \<and> (\<exists>r. raft_create cfg now' rnd (n_persistence n') = Inr r
      \<and> l_entries (n_log r) = take (unat prev) (l_entries (n_log n))
          @ ae_merge (drop (unat prev) (l_entries (n_log n))) es)"
proof -
  obtain n' ok t' li where h: "raft_handle_append_entries now n leader t prev pt es lc = (n', ok, t', li)"
    by (metis prod_cases4)
  have base: "unat (l_base_index (n_log n)) \<le> unat prev" using assms(2) by simp
  note r = append_entries_log [OF assms(3-6) base assms(7-9) h]
  from has_store_append_entries [OF h] assms(1) obtain p where p: "n_persistence n' = Some p" by auto
  with restart_log [OF p r(7,6), of cfg now' rnd] r(1,5,8) assms(2) h show ?thesis by auto
qed

theorem acknowledged_entries_survive_restart_witness:
  "case raft_handle_append_entries 2000 sample_node [110, 50] 3 1 1 [sample_entry 2 3 [66]] 2 of
     (n', ok, t', li) \<Rightarrow> ok \<and> (\<exists>r. raft_create sample_config 9000 3 (n_persistence n') = Inr r
       \<and> l_entries (n_log r) = take (unat (1 :: u32)) (l_entries (n_log sample_node))
          @ ae_merge (drop (unat (1 :: u32)) (l_entries (n_log sample_node))) [sample_entry 2 3 [66]])"
  by (rule acknowledged_entries_survive_restart)
    (use sample_request in \<open>simp_all add: sample_node_def raft_log_init_def\<close>)

text \<open>
  C4. A granted vote is kept across a crash: if the handler grants candidate \<open>c\<close> the vote of term
  \<open>t\<close>, the node created again from the same store is in term \<open>t\<close> with that vote and the same log,
  and refuses every other candidate of the same term.
\<close>

theorem vote_survives_restart:
  assumes "n_persistence n \<noteq> None" and "l_base_index (n_log n) = 0"
    and "wf_log (n_log n)" and "log_synced n"
    and "wf_vote c" and "c \<noteq> []" and "c2 \<noteq> c" and "unat t < 2 ^ 31"
    and "fst (snd (raft_handle_request_vote now n c t li lt))"
  shows "\<exists>r. raft_create cfg now' rnd (n_persistence (fst (raft_handle_request_vote now n c t li lt))) = Inr r
    \<and> n_current_term r = t \<and> n_voted_for r = c \<and> l_entries (n_log r) = l_entries (n_log n)
    \<and> \<not> fst (snd (raft_handle_request_vote now2 r c2 t li2 lt2))"
proof -
  let ?n = "fst (raft_handle_request_vote now n c t li lt)"
  let ?m = "(raft_step_down now n t)\<lparr>n_voted_for := strncpy 63 c, n_last_heartbeat_ms := now\<rparr>"
  have c: "strncpy 63 c = c" using assms(5) by (intro strncpy_id) (simp add: wf_vote_def)
  have n: "?n = persist_state ?m" and t: "n_current_term ?m = t"
    using assms(9) by (auto simp: raft_handle_request_vote_alt Let_def split: if_splits)
  have "log_synced (raft_step_down now n t)" using assms(4) by (simp add: raft_step_down_def)
  then have m: "log_synced ?m" by (subst log_synced_cong [of _ "raft_step_down now n t"]) simp_all
  then have sync: "log_synced ?n" "state_synced ?n"
    unfolding n using assms(5) c by (auto intro: persist_state_synced)
  have "n_persistence ?n \<noteq> None" unfolding n using assms(1)
    by (auto simp: raft_step_down_def simp del: not_None_eq)
  then obtain p where p: "n_persistence ?n = Some p" by auto
  have sel: "n_log ?n = n_log n" "n_voted_for ?n = c" "n_current_term ?n = t"
    unfolding n using c t by simp_all
  have wf: "wf_cstr 64 (n_voted_for ?n)" using assms(5) sel by (simp add: wf_vote_def)
  obtain r where r: "raft_create cfg now' rnd (Some p) = Inr r" "l_entries (n_log r) = l_entries (n_log n)"
    "n_current_term r = t" "n_voted_for r = c"
    using restart_log [OF p sync(1), of cfg now' rnd] restart_state [OF p sync(2) wf] sel assms(2,3) by auto
  moreover have "\<not> fst (snd (raft_handle_request_vote now2 r c2 t li2 lt2))"
    using r(3,4) assms(6,7) by (auto simp: raft_handle_request_vote_alt Let_def raft_step_down_def)
  ultimately show ?thesis using p by auto
qed

theorem vote_survives_restart_witness:
  "\<exists>r. raft_create sample_config 9000 3
      (n_persistence (fst (raft_handle_request_vote 2000 sample_node [110, 50] 3 2 1))) = Inr r
    \<and> n_current_term r = 3 \<and> n_voted_for r = [110, 50] \<and> l_entries (n_log r) = l_entries (n_log sample_node)
    \<and> \<not> fst (snd (raft_handle_request_vote 9001 r [110, 51] 3 5 3))"
  by (rule vote_survives_restart)
    (use sample_node_ok in \<open>simp_all add: sample_node_def raft_log_init_def wf_vote_def wf_cstr_def
      raft_handle_request_vote_alt log_up_to_date_def log_last_term_def log_last_index_def log_count_def
      sample_entries_def sample_entry_def Let_def raft_step_down_def fresh_node_def\<close>)

text \<open>
  C5. Commit rule: on a leader with peers, \<^verbatim>\<open>update_commit_index\<close> changes nothing but the commit
  index; it never moves it back, moves it only to an entry of the leader's own term that is stored
  on a strict majority of the cluster, and moves it to the highest such entry.
\<close>

theorem commit_index_is_highest_majority:
  assumes "n_state n = RAFT_STATE_LEADER" and "peer_count n > 0" and "wf_log (n_log n)"
    and "length (n_match_index n) = peer_count n"
  defines "c' \<equiv> n_commit_index (update_commit_index n)"
  shows "update_commit_index n = n\<lparr>n_commit_index := c'\<rparr> \<and> n_commit_index n \<le> c'
    \<and> (c' \<noteq> n_commit_index n \<longrightarrow>
        (\<exists>e. log_get (n_log n) c' = Some e \<and> e_term e = n_current_term n
          \<and> 2 * (1 + card {j. j < peer_count n \<and> n_match_index n ! j \<ge> c'}) > peer_count n + 1))
    \<and> (\<forall>i e. n_commit_index n < i \<and> log_get (n_log n) i = Some e \<and> e_term e = n_current_term n
          \<and> 2 * (1 + card {j. j < peer_count n \<and> n_match_index n ! j \<ge> i}) > peer_count n + 1
        \<longrightarrow> i \<le> c')"
proof (intro conjI impI allI)
  note m = update_commit_index_max [OF assms(1-3) meta_eq_to_obj_eq [OF c'_def]]
  show "update_commit_index n = n\<lparr>n_commit_index := c'\<rparr>"
    using assms(1,2) by (simp add: c'_def update_commit_index_def Let_def commit_fold)
  show "n_commit_index n \<le> c'" using m(1) by auto
  show "\<exists>e. log_get (n_log n) c' = Some e \<and> e_term e = n_current_term n
      \<and> 2 * (1 + card {j. j < peer_count n \<and> n_match_index n ! j \<ge> c'}) > peer_count n + 1"
    if "c' \<noteq> n_commit_index n"
    using m(1) that by (intro committable_majority [OF _ assms(4)]) simp
  fix i e
  assume i: "n_commit_index n < i \<and> log_get (n_log n) i = Some e \<and> e_term e = n_current_term n
      \<and> 2 * (1 + card {j. j < peer_count n \<and> n_match_index n ! j \<ge> i}) > peer_count n + 1"
  then have "committable n i"
    using assms(4) by (auto simp: committable_def replicas_def majority_def length_filter_conv_card)
  with m(2) i show "i \<le> c'" by blast
qed

definition sample_leader :: raft_node where
  "sample_leader = (fresh_node sample_config 1000 7)
     \<lparr>n_current_term := 1, n_log := raft_log_init\<lparr>l_entries := sample_entries\<rparr>,
      n_state := RAFT_STATE_LEADER, n_next_index := [3, 2], n_match_index := [2, 0]\<rparr>"

lemma sample_leader_wf: "wf_log (n_log sample_leader)"
  using sample_node_ok(1) by (simp add: sample_leader_def)

theorem commit_index_is_highest_majority_witness:
  "update_commit_index sample_leader = sample_leader\<lparr>n_commit_index := 2\<rparr>"
proof -
  let ?c = "n_commit_index (update_commit_index sample_leader)"
  have e: "log_get (n_log sample_leader) 2 = Some (sample_entry 2 1 [65])"
    "e_term (sample_entry 2 1 [65]) = n_current_term sample_leader"
    by (simp_all add: sample_leader_def sample_entries_def sample_entry_def log_get_def raft_log_init_def
        log_count_def)
  have p: "peer_count sample_leader = 2"
    by (simp add: sample_leader_def peer_count_def fresh_node_def sample_config_def)
  have "{j. j < (2 :: nat) \<and> (2 :: u32) \<le> [2, 0] ! j} = {0}"
    by (auto simp: less_2_cases_iff)
  then have card: "card {j. j < peer_count sample_leader \<and> n_match_index sample_leader ! j \<ge> 2} = 1"
    by (simp only: p) (simp add: sample_leader_def)
  have facts: "update_commit_index sample_leader = sample_leader\<lparr>n_commit_index := ?c\<rparr>"
    "n_commit_index sample_leader < 2 \<Longrightarrow> 2 \<le> ?c"
    "?c \<noteq> n_commit_index sample_leader \<Longrightarrow> \<exists>e. log_get (n_log sample_leader) ?c = Some e"
    using commit_index_is_highest_majority [OF _ _ sample_leader_wf] e card p
    by (auto simp: sample_leader_def)
  have "n_commit_index sample_leader = 0" by (simp add: sample_leader_def fresh_node_def)
  with facts(2) have c: "2 \<le> ?c" by simp
  then have "?c \<noteq> 0" by auto
  with facts(3) \<open>n_commit_index sample_leader = 0\<close>
  have "\<exists>e. log_get (n_log sample_leader) ?c = Some e" by simp
  with c have "unat ?c = 2"
    by (auto simp: log_get_eq sample_leader_def raft_log_init_def sample_entries_def log_count_def
        u32_le_conv split: if_splits)
  then have "?c = 2" by (metis of_nat_numeral of_nat_unat ucast_id)
  with facts(1) show ?thesis by simp
qed

text \<open>
  C6. Apply exactly once and in order: when the commit index lies within the log, applying moves
  \<^verbatim>\<open>last_applied\<close> to the commit index and calls the callback for each entry in between that is not
  a no-op, in index order and once; applying again calls it for none.
\<close>

theorem committed_entries_applied_once:
  assumes "cfg_apply_fn (n_config n)"
    and "unat (l_base_index (n_log n)) \<le> unat (n_last_applied n)"
    and "n_last_applied n \<le> n_commit_index n"
    and "unat (n_commit_index n) \<le> unat (l_base_index (n_log n)) + log_count (n_log n)"
  defines "n' \<equiv> apply_committed_entries n"
  shows "n' = n\<lparr>n_last_applied := n_commit_index n, n_applied := n_applied n
      @ filter (\<lambda>e. e_type e \<noteq> RAFT_ENTRY_NOOP)
          (log_slice (n_log n) (unat (n_last_applied n)) (unat (n_commit_index n)))\<rparr>
    \<and> apply_committed_entries n' = n'"
proof -
  have "n' = n\<lparr>n_last_applied := n_commit_index n, n_applied := n_applied n
      @ filter (\<lambda>e. e_type e \<noteq> RAFT_ENTRY_NOOP)
          (log_slice (n_log n) (unat (n_last_applied n)) (unat (n_commit_index n)))\<rparr>"
    using assms(1-4) apply_loop_spec [of n "n_commit_index n"]
    by (simp add: n'_def apply_committed_entries_def u32_le_conv)
  moreover from this have "apply_committed_entries n' = n'"
    by (subst apply_committed_entries_def) (simp add: apply_loop.simps)
  ultimately show ?thesis by blast
qed

theorem committed_entries_applied_once_witness:
  "n_applied (apply_committed_entries (sample_leader\<lparr>n_commit_index := 2\<rparr>)) = [sample_entry 2 1 [65]]"
proof -
  have "apply_committed_entries (sample_leader\<lparr>n_commit_index := 2\<rparr>)
      = (sample_leader\<lparr>n_commit_index := 2\<rparr>)\<lparr>n_last_applied := 2, n_applied := n_applied sample_leader
        @ filter (\<lambda>e. e_type e \<noteq> RAFT_ENTRY_NOOP) (log_slice (n_log sample_leader) 0 2)\<rparr>"
    using committed_entries_applied_once [of "sample_leader\<lparr>n_commit_index := 2\<rparr>"]
    by (simp add: sample_leader_def fresh_node_def sample_config_def raft_log_init_def log_count_def
        sample_entries_def)
  then show ?thesis
    by (simp add: sample_leader_def fresh_node_def log_slice_def raft_log_init_def sample_entries_def
        sample_entry_def)
qed

text \<open>
  What a leader sends: for a peer whose next index lies in the log or just behind it, the leader
  sends at most 100 consecutive entries starting at that index, as many as it has, together with
  the index before and, where the log holds it, the term of the entry there.
\<close>

lemma leader_sends_consecutive_batch:
  assumes "wf_log (n_log n)" and "i < peer_count n"
    and "unat (l_base_index (n_log n)) < unat (n_next_index n ! i)"
    and "unat (n_next_index n ! i) \<le> unat (log_last_index (n_log n)) + 1"
    and "unat (log_last_index (n_log n)) < 2 ^ 32 - 200"
  shows "case raft_get_entries_for_peer n i of Inl _ \<Rightarrow> False
    | Inr (es, prev, pt) \<Rightarrow> prev + 1 = n_next_index n ! i \<and> consecutive (unat prev) es
        \<and> length es = min 100 (unat (log_last_index (n_log n)) - unat prev)
        \<and> (\<forall>j < length es. log_get (n_log n) (prev + 1 + of_nat j) = Some (es ! j))
        \<and> (case log_get (n_log n) prev of Some e \<Rightarrow> pt = e_term e
             | None \<Rightarrow> pt = (if prev = 0 then 0 else l_base_term (n_log n)))"
proof -
  let ?x = "n_next_index n ! i" and ?l = "n_log n"
  let ?es = "log_slice ?l (unat (?x - 1)) (min (unat (?x - 1) + 100) (unat (log_last_index ?l)))"
  have p: "unat (?x - 1) = unat ?x - 1" using assms(3) by (simp add: unat_sub u32_le_conv)
  have last: "unat (log_last_index ?l) = unat (l_base_index ?l) + log_count ?l"
    using assms(1) by (rule unat_last_index)
  have len: "length ?es = min 100 (unat (log_last_index ?l) - unat (?x - 1))"
    using assms(3) p last by (subst length_log_slice) auto
  have "log_get ?l (?x - 1 + 1 + of_nat j) = Some (?es ! j)" if j: "j < length ?es" for j
  proof -
    have "unat (?x - 1 + of_nat (Suc j)) = unat (?x - 1) + Suc j"
      using j len assms(5) by (intro unat_index_sum) auto
    then have "unat (?x + of_nat j) = unat ?x + j" using p assms(3) by simp
    then show ?thesis
      using j len p assms(3) last by (auto simp: log_get_eq log_slice_def log_count_def add.commute)
  qed
  moreover have "consecutive (unat (?x - 1)) ?es"
    using p assms(3) by (intro log_slice_consecutive [OF assms(1)]) simp
  moreover have "log_get ?l 0 = None" by (simp add: log_get_eq)
  ultimately show ?thesis
    unfolding get_entries_for_peer_spec [OF assms] using len
    by (auto split: option.split)
qed

text \<open>
  Taking a snapshot renumbers the log: \<^verbatim>\<open>raft_create_snapshot\<close> moves the base index to the
  commit index without discarding the entries up to it. Every entry is then found \<open>commit_index\<close>
  positions too high, the last index grows by the commit index, and the log no longer is well
  formed.
\<close>

lemma snapshot_renumbers_log:
  assumes "wf_log (n_log n)" and "l_base_index (n_log n) = 0" and "n_commit_index n > 0"
    and "unat (n_commit_index n) \<le> log_count (n_log n)" and "2 * log_count (n_log n) < 2 ^ 32 - 1"
    and "n_persistence n = Some p" and "rp_faults p = []" and "j < log_count (n_log n)"
  shows "case raft_create_snapshot n (Some d) of (err, n') \<Rightarrow> err = DISTRIC_OK
    \<and> l_entries (n_log n') = l_entries (n_log n)
    \<and> log_last_index (n_log n') = n_commit_index n + log_last_index (n_log n)
    \<and> log_get (n_log n') (n_commit_index n + 1 + of_nat j) = log_get (n_log n) (1 + of_nat j)
    \<and> \<not> wf_log (n_log n')"
proof -
  let ?c = "n_commit_index n" and ?l = "n_log n"
  define t where "t = (if ?c = 0 then (if l_base_term ?l = 0 then n_current_term n else l_base_term ?l)
    else case log_get ?l ?c of Some e \<Rightarrow> e_term e | None \<Rightarrow> l_base_term ?l)"
  have r: "raft_create_snapshot n (Some d) = (DISTRIC_OK,
      n\<lparr>n_persistence := Some (p\<lparr>rp_snapshot_file := Some (snapshot_image ?c t d)\<rparr>),
        n_log := ?l\<lparr>l_base_index := ?c, l_base_term := t\<rparr>,
        n_last_applied := (if ?c > n_last_applied n then ?c else n_last_applied n)\<rparr>)"
    using assms(6,7)
    by (simp add: raft_create_snapshot_def raft_persistence_save_snapshot_def Let_def t_def)
  have u: "unat (?c + of_nat (Suc j)) = unat ?c + Suc j" "unat (0 + of_nat (Suc j) :: u32) = unat (0 :: u32) + Suc j"
    using assms(4,5,8) by (intro unat_index_sum; simp)+
  have c: "unat ?c > 0" using assms(3) by (simp add: u32_less_conv)
  have "log_get (?l\<lparr>l_base_index := ?c, l_base_term := t\<rparr>) (?c + 1 + of_nat j) = log_get ?l (1 + of_nat j)"
    using u assms(2,8) by (simp add: log_get_eq log_count_def add.assoc)
  moreover have "\<not> wf_log (?l\<lparr>l_base_index := ?c, l_base_term := t\<rparr>)"
    using assms(1,2,8) c by (auto simp: wf_log_def log_count_def)
  ultimately show ?thesis
    using r assms(2,8) by (auto simp: log_last_index_def log_count_def)
qed

lemma snapshot_renumbers_log_witness:
  "case raft_create_snapshot (sample_node\<lparr>n_commit_index := 2, n_persistence := Some empty_store\<rparr>) (Some [1]) of
     (err, n') \<Rightarrow> err = DISTRIC_OK \<and> log_last_index (n_log n') = 4"
  using snapshot_renumbers_log [of "sample_node\<lparr>n_commit_index := 2, n_persistence := Some empty_store\<rparr>"
      empty_store 0 "[1]"] sample_node_ok(1)
  by (auto simp: raft_log_init_def log_count_def sample_entries_def log_last_index_def empty_store_def)

text \<open>
  Installing a snapshot discards the whole log: on success no entry is left, whatever the
  follower held after the snapshot's last index, the log starts at the snapshot's index and term,
  and commit index and last applied index are at least the snapshot's index.
\<close>

lemma install_snapshot_discards_log:
  assumes "n_persistence n = Some p" and "rp_faults p = []" and "unat idx < 2 ^ 32 - 1"
  shows "case raft_install_snapshot n idx t (Some d) of (err, n') \<Rightarrow> err = DISTRIC_OK
    \<and> l_entries (n_log n') = [] \<and> log_last_index (n_log n') = idx \<and> log_last_term (n_log n') = t
    \<and> n_commit_index n' = max idx (n_commit_index n) \<and> n_last_applied n' = max idx (n_last_applied n)
    \<and> n_current_term n' = n_current_term n
    \<and> map_option raft_persistence_load_snapshot (n_persistence n')
        = Some (raft_persistence_load_snapshot (p\<lparr>rp_snapshot_file := Some (snapshot_image idx t d)\<rparr>))"
proof -
  have "unat (idx + 1) = Suc (unat idx)" using assms(3) by (rule unat_Suc_u32)
  then have "l_entries (fst (log_truncate (l\<lparr>l_base_index := idx, l_base_term := t\<rparr>) (idx + 1) None)) = []"
    "l_base_index (fst (log_truncate (l\<lparr>l_base_index := idx, l_base_term := t\<rparr>) (idx + 1) None)) = idx"
    "l_base_term (fst (log_truncate (l\<lparr>l_base_index := idx, l_base_term := t\<rparr>) (idx + 1) None)) = t" for l
    by (simp_all add: log_truncate_fst)
  with assms(1,2) show ?thesis
    by (simp add: raft_install_snapshot_def raft_persistence_save_snapshot_def Let_def
        log_last_index_def log_last_term_def log_count_def max_conv)
qed

lemma install_snapshot_discards_log_witness:
  "case raft_install_snapshot (sample_node\<lparr>n_persistence := Some empty_store\<rparr>) 1 1 (Some [1]) of
     (err, n') \<Rightarrow> err = DISTRIC_OK \<and> l_entries (n_log n') = [] \<and> log_last_index (n_log n') = 1"
  using install_snapshot_discards_log [of "sample_node\<lparr>n_persistence := Some empty_store\<rparr>" empty_store 1 1 "[1]"]
  by (auto simp: empty_store_def)

end
