(* ===== verification/RaftCluster.thy ===== *)
theory RaftCluster
  imports RaftNode
begin

text \<open>
  A cluster of Raft nodes exchanging votes, as an interleaving of the operations of
  \<^verbatim>\<open>raft_core.c\<close>. Each node is driven by one thread that calls \<^verbatim>\<open>raft_tick\<close>, then
  \<^verbatim>\<open>raft_rpc_broadcast_request_vote\<close> and \<^verbatim>\<open>raft_process_election_result\<close>, while its RPC server
  threads run the handlers at any time. A vote broadcast is not atomic: it is opened (term and last
  log position are read and the requests sent), the peers handle the request and their answers are
  collected one by one, and it is closed with the number of votes. Requests may be delayed,
  repeated or lost, answers may be lost. AppendEntries requests, answers to them, snapshots, client
  requests and terms learnt from peers are arbitrary. The main result is election safety: no two
  nodes are leader in the same term.
\<close>

section \<open>Cluster state\<close>

record vote_request =
  vr_candidate_id :: cstr
  vr_term :: u32
  vr_last_log_index :: u32
  vr_last_log_term :: u32

text \<open>
  \<open>cl_round i\<close> is the open broadcast of node \<open>i\<close> with the peers whose vote has been counted.
  \<open>cl_answers\<close> are the granted requests with their voter. \<open>cl_grants\<close> (term, voter, candidate) and
  \<open>cl_leaders\<close> (term, leader) record the history.
\<close>

record cluster =
  cl_node :: "cstr \<Rightarrow> raft_node"
  cl_round :: "cstr \<Rightarrow> (vote_request \<times> cstr set) option"
  cl_requests :: "vote_request set"
  cl_answers :: "(vote_request \<times> cstr) set"
  cl_grants :: "(u32 \<times> cstr \<times> cstr) set"
  cl_leaders :: "(u32 \<times> cstr) set"

definition set_node :: "cstr \<Rightarrow> raft_node \<Rightarrow> cluster \<Rightarrow> cluster" where
  "set_node i n c = c\<lparr>cl_node := (cl_node c)(i := n)\<rparr>"

text \<open>\<open>set_node\<close> for the thread that drives the node: becoming leader or voting for itself is recorded.\<close>

definition drive_node :: "cstr \<Rightarrow> raft_node \<Rightarrow> cluster \<Rightarrow> cluster" where
  "drive_node i n c =
     (let old = cl_node c i; t = n_current_term n
      in (set_node i n c)
        \<lparr>cl_grants := (if n_current_term old \<noteq> t then insert (t, i, i) (cl_grants c) else cl_grants c),
         cl_leaders := (if n_state n = RAFT_STATE_LEADER then insert (t, i) (cl_leaders c)
                        else cl_leaders c)\<rparr>)"

text \<open>The request that \<^verbatim>\<open>raft_rpc_broadcast_request_vote\<close> sends to every peer.\<close>

definition vote_request_of :: "raft_node \<Rightarrow> vote_request" where
  "vote_request_of n =
     \<lparr>vr_candidate_id = strncpy 63 (cfg_node_id (n_config n)), vr_term = n_current_term n,
      vr_last_log_index = log_last_index (n_log n), vr_last_log_term = log_last_term (n_log n)\<rparr>"

definition open_round :: "cstr \<Rightarrow> cluster \<Rightarrow> cluster" where
  "open_round i c =
     (let req = vote_request_of (cl_node c i)
      in c\<lparr>cl_round := (cl_round c)(i := Some (req, {})), cl_requests := insert req (cl_requests c)\<rparr>)"

definition deliver_vote_request :: "u64 \<Rightarrow> vote_request \<Rightarrow> cstr \<Rightarrow> cluster \<Rightarrow> cluster" where
  "deliver_vote_request now req j c =
     (case raft_handle_request_vote now (cl_node c j) (vr_candidate_id req) (vr_term req)
             (vr_last_log_index req) (vr_last_log_term req) of
        (n, granted, _) \<Rightarrow>
          if granted then
            (set_node j n c)
              \<lparr>cl_grants := insert (vr_term req, j, vr_candidate_id req) (cl_grants c),
               cl_answers := insert (req, j) (cl_answers c)\<rparr>
          else set_node j n c)"

definition collect_vote :: "cstr \<Rightarrow> cstr \<Rightarrow> cluster \<Rightarrow> cluster" where
  "collect_vote i j c =
     (case cl_round c i of
        None \<Rightarrow> c
      | Some (req, voters) \<Rightarrow> c\<lparr>cl_round := (cl_round c)(i := Some (req, insert j voters))\<rparr>)"

definition close_round :: "u64 \<Rightarrow> cstr \<Rightarrow> cluster \<Rightarrow> cluster" where
  "close_round now i c =
     (case cl_round c i of
        None \<Rightarrow> c
      | Some (req, voters) \<Rightarrow>
          drive_node i (raft_process_election_result now (cl_node c i) (1 + of_nat (card voters)))
            (c\<lparr>cl_round := (cl_round c)(i := None)\<rparr>))"

section \<open>Steps\<close>

text \<open>
  \<open>start_election\<close> is a step of its own as well: the tick reads the state and the timers before it
  starts the election, and handlers may run in between. The term counter stays below its maximum.
\<close>

inductive cluster_step :: "cstr set \<Rightarrow> cluster \<Rightarrow> cluster \<Rightarrow> bool" for ids where
  tick: "i \<in> ids \<Longrightarrow> cl_round c i = None \<Longrightarrow> n_current_term (cl_node c i) < - 1 \<Longrightarrow>
    cluster_step ids c (drive_node i (snd (raft_tick now rnd (cl_node c i))) c)"
| start_election: "i \<in> ids \<Longrightarrow> cl_round c i = None \<Longrightarrow> n_current_term (cl_node c i) < - 1 \<Longrightarrow>
    cluster_step ids c (drive_node i (start_election now rnd (cl_node c i)) c)"
| open_round: "i \<in> ids \<Longrightarrow> cl_round c i = None \<Longrightarrow> cluster_step ids c (open_round i c)"
| deliver: "req \<in> cl_requests c \<Longrightarrow> j \<in> ids \<Longrightarrow> j \<noteq> vr_candidate_id req \<Longrightarrow>
    cluster_step ids c (deliver_vote_request now req j c)"
| collect: "i \<in> ids \<Longrightarrow> cl_round c i = Some (req, voters) \<Longrightarrow> (req, j) \<in> cl_answers c \<Longrightarrow>
    cluster_step ids c (collect_vote i j c)"
| close_round: "i \<in> ids \<Longrightarrow> cluster_step ids c (close_round now i c)"
| step_down: "i \<in> ids \<Longrightarrow> cluster_step ids c (set_node i (raft_step_down now (cl_node c i) t) c)"
| append_entries: "i \<in> ids \<Longrightarrow> cluster_step ids c (set_node i (fst
    (raft_handle_append_entries now (cl_node c i) leader_id t prev pt es lc)) c)"
| append_entries_response: "i \<in> ids \<Longrightarrow> cluster_step ids c (set_node i (snd
    (raft_handle_append_entries_response now (cl_node c i) k success t match)) c)"
| update_peer: "i \<in> ids \<Longrightarrow>
    cluster_step ids c (set_node i (snd (raft_update_peer_indices (cl_node c i) k nxt match)) c)"
| decrement_peer: "i \<in> ids \<Longrightarrow>
    cluster_step ids c (set_node i (snd (raft_decrement_peer_next_index (cl_node c i) k)) c)"
| log_conflict: "i \<in> ids \<Longrightarrow>
    cluster_step ids c (set_node i (snd (raft_handle_log_conflict (cl_node c i) k ci ct)) c)"
| client_append: "i \<in> ids \<Longrightarrow>
    cluster_step ids c (set_node i (fst (raft_append_entry (cl_node c i) data)) c)"
| heartbeat_sent: "i \<in> ids \<Longrightarrow>
    cluster_step ids c (set_node i (raft_mark_heartbeat_sent now (cl_node c i)) c)"
| create_snapshot: "i \<in> ids \<Longrightarrow>
    cluster_step ids c (set_node i (snd (raft_create_snapshot (cl_node c i) data)) c)"
| install_snapshot: "i \<in> ids \<Longrightarrow>
    cluster_step ids c (set_node i (snd (raft_install_snapshot (cl_node c i) idx t data)) c)"
| stop: "i \<in> ids \<Longrightarrow> cluster_step ids c (set_node i (raft_stop (cl_node c i)) c)"
| restart: "i \<in> ids \<Longrightarrow> n_persistence (cl_node c i) = Some p \<Longrightarrow> state_synced (cl_node c i) \<Longrightarrow>
    raft_create (n_config (cl_node c i)) now rnd (Some p) = Inr n \<Longrightarrow>
    cluster_step ids c (set_node i (raft_start now n) (c\<lparr>cl_round := (cl_round c)(i := None)\<rparr>))"

text \<open>The configuration of a cluster: distinct names that fit \<^verbatim>\<open>char[64]\<close>, every node knows the others.\<close>

definition cluster_config :: "cstr set \<Rightarrow> (cstr \<Rightarrow> raft_config) \<Rightarrow> bool" where
  "cluster_config ids cfg \<longleftrightarrow> finite ids \<and> card ids < 2 ^ 32
     \<and> (\<forall>i\<in>ids. wf_cstr 64 i \<and> i \<noteq> [] \<and> cfg_node_id (cfg i) = i
          \<and> p_node_id ` set (cfg_peers (cfg i)) = ids - {i} \<and> distinct (map p_node_id (cfg_peers (cfg i))))"

definition cluster_init :: "cstr set \<Rightarrow> (cstr \<Rightarrow> raft_config) \<Rightarrow> cluster \<Rightarrow> bool" where
  "cluster_init ids cfg c \<longleftrightarrow> cl_round c = (\<lambda>_. None) \<and> cl_requests c = {} \<and> cl_answers c = {}
     \<and> cl_grants c = {} \<and> cl_leaders c = {}
     \<and> (\<forall>i\<in>ids. \<exists>now rnd store n. raft_create (cfg i) now rnd store = Inr n
          \<and> n_voted_for n = [] \<and> cl_node c i = raft_start now n)"

inductive cluster_reachable :: "cstr set \<Rightarrow> (cstr \<Rightarrow> raft_config) \<Rightarrow> cluster \<Rightarrow> bool" for ids cfg where
  init: "cluster_config ids cfg \<Longrightarrow> cluster_init ids cfg c \<Longrightarrow> cluster_reachable ids cfg c"
| step: "cluster_reachable ids cfg c \<Longrightarrow> cluster_step ids c c' \<Longrightarrow> cluster_reachable ids cfg c'"

section \<open>Majorities\<close>

locale quorum_system =
  fixes quorum :: "'a set \<Rightarrow> 'a set \<Rightarrow> bool"
  assumes quorums_meet: "quorum V Q \<Longrightarrow> quorum V R \<Longrightarrow> Q \<inter> R \<noteq> {}"
begin

text \<open>When no voter supports two candidates, two candidates with a quorum are the same.\<close>

lemma unique_winner:
  assumes "quorum V Q" and "quorum V R" and "\<And>k. k \<in> Q \<Longrightarrow> k \<in> R \<Longrightarrow> a = b"
  shows "a = b"
  using quorums_meet [OF assms(1,2)] assms(3) by blast

end

definition is_majority :: "'a set \<Rightarrow> 'a set \<Rightarrow> bool" where
  "is_majority V Q \<longleftrightarrow> finite V \<and> Q \<subseteq> V \<and> card V div 2 + 1 \<le> card Q"

interpretation majorities: quorum_system is_majority
proof
  fix V Q R :: "'a set"
  assume "is_majority V Q" "is_majority V R"
  then have f: "finite V" "Q \<subseteq> V" "R \<subseteq> V" and c: "card V < card Q + card R"
    by (auto simp: is_majority_def)
  have "card Q + card R = card (Q \<union> R)" if "Q \<inter> R = {}"
    using that f finite_subset by (metis card_Un_disjoint)
  moreover have "card (Q \<union> R) \<le> card V" using f by (intro card_mono) auto
  ultimately show "Q \<inter> R \<noteq> {}" using c by auto
qed

section \<open>Moves of a node\<close>

text \<open>
  Every operation but an election, a granted vote and a won election moves a node passively: it
  keeps term and vote and at most falls back to follower, or it enters a higher term without a
  vote, or as a candidate it falls back to follower and loses its vote for itself.
\<close>

definition passive_move :: "raft_node \<Rightarrow> raft_node \<Rightarrow> bool" where
  "passive_move n n' \<longleftrightarrow> n_config n' = n_config n
     \<and> (n_current_term n' = n_current_term n \<and> n_voted_for n' = n_voted_for n
          \<and> (n_state n' = n_state n \<or> n_state n' = RAFT_STATE_FOLLOWER)
        \<or> n_current_term n' > n_current_term n \<and> n_voted_for n' = [] \<and> n_state n' = RAFT_STATE_FOLLOWER
        \<or> n_current_term n' = n_current_term n \<and> n_state n = RAFT_STATE_CANDIDATE
          \<and> n_voted_for n' = [] \<and> n_state n' = RAFT_STATE_FOLLOWER)"

lemma passiveI [intro]:
  "n_config n' = n_config n \<Longrightarrow> n_current_term n' = n_current_term n \<Longrightarrow> n_voted_for n' = n_voted_for n \<Longrightarrow>
     n_state n' = n_state n \<Longrightarrow> passive_move n n'"
  by (simp add: passive_move_def)

lemma passive_refl [simp]: "passive_move n n"
  by (simp add: passive_move_def)

lemma passive_step_down: "passive_move n (raft_step_down now n t)"
  by (auto simp: passive_move_def raft_step_down_def)

lemma update_commit_index_sel [simp]:
  "n_config (update_commit_index n) = n_config n"
  "n_current_term (update_commit_index n) = n_current_term n"
  "n_voted_for (update_commit_index n) = n_voted_for n"
  "n_state (update_commit_index n) = n_state n"
  by (simp_all add: update_commit_index_def Let_def commit_fold)

lemma apply_loop_sel:
  "n_config (apply_loop i n) = n_config n \<and> n_current_term (apply_loop i n) = n_current_term n
   \<and> n_voted_for (apply_loop i n) = n_voted_for n \<and> n_state (apply_loop i n) = n_state n"
proof (induction i n rule: apply_loop.induct)
  case (1 i n)
  then show ?case
    by (subst (1 2 3 4) apply_loop.simps) (simp add: Let_def split: option.split)
qed

lemma apply_committed_entries_sel [simp]:
  "n_config (apply_committed_entries n) = n_config n"
  "n_current_term (apply_committed_entries n) = n_current_term n"
  "n_voted_for (apply_committed_entries n) = n_voted_for n"
  "n_state (apply_committed_entries n) = n_state n"
  by (simp_all add: apply_committed_entries_def apply_loop_sel)

lemma passive_append_entries:
  "passive_move n (fst (raft_handle_append_entries now n leader_id t prev pt es lc))"
proof -
  let ?m = "ae_accept now n leader_id t"
  have m: "passive_move n ?m" if "\<not> t < n_current_term n"
    using that by (auto simp: passive_move_def ae_accept_def Let_def)
  moreover have "passive_move n n' " if "passive_move n ?m" "n_config n' = n_config ?m"
    "n_current_term n' = n_current_term ?m" "n_voted_for n' = n_voted_for ?m" "n_state n' = n_state ?m" for n'
    using that by (simp add: passive_move_def)
  ultimately show ?thesis
    by (auto simp: raft_handle_append_entries_alt Let_def)
qed

lemma passive_ops:
  "passive_move n (snd (raft_handle_append_entries_response now n k success t match))"
  "passive_move n (snd (raft_update_peer_indices n k nxt match))"
  "passive_move n (snd (raft_decrement_peer_next_index n k))"
  "passive_move n (snd (raft_handle_log_conflict n k ci ct))"
  "passive_move n (fst (raft_append_entry n data))"
  "passive_move n (raft_mark_heartbeat_sent now n)"
  "passive_move n (snd (raft_create_snapshot n data))"
  "passive_move n (snd (raft_install_snapshot n idx t data))"
  "passive_move n (raft_stop n)"
proof -
  show "passive_move n (snd (raft_handle_append_entries_response now n k success t match))"
    using passive_step_down [of n now t]
    by (auto simp: raft_handle_append_entries_response_def Let_def)
  show "passive_move n (fst (raft_append_entry n data))"
  proof -
    have "fst (raft_append_entry n data) = (if n_state n \<noteq> RAFT_STATE_LEADER then n
        else snd (node_log_append n (n_current_term n) RAFT_ENTRY_COMMAND data))"
      by (simp add: raft_append_entry_def split: prod.split)
    then show ?thesis by auto
  qed
  show "passive_move n (snd (raft_create_snapshot n data))"
    by (auto simp: raft_create_snapshot_def Let_def split: option.split prod.split)
  show "passive_move n (snd (raft_install_snapshot n idx t data))"
    by (auto simp: raft_install_snapshot_def Let_def split: option.split prod.split)
qed (auto simp: raft_update_peer_indices_def raft_decrement_peer_next_index_def raft_handle_log_conflict_def
    raft_mark_heartbeat_sent_def raft_stop_def Let_def)

lemma raft_create_state:
  "raft_create cfg now rnd store = Inr n \<Longrightarrow> n_config n = cfg \<and> n_state n = RAFT_STATE_FOLLOWER
     \<and> wf_cstr 64 (n_voted_for n)"
  using wf_strncpy [of 63]
  by (auto simp: raft_create_def load_persistent_def fresh_node_def Let_def wf_cstr_def
      split: option.splits sum.splits)

lemma init_keeps_state_file:
  "raft_persistence_init p = Inr p' \<Longrightarrow> rp_state_file p' = rp_state_file p"
  by (auto simp: raft_persistence_init_def read_log_header_def next_fault_def split: list.splits if_splits option.splits)

lemma passive_restart:
  assumes "n_persistence n = Some p" and "state_synced n" and "wf_cstr 64 (n_voted_for n)"
    and "raft_create (n_config n) now rnd (Some p) = Inr n'"
  shows "passive_move n (raft_start now' n')"
proof -
  obtain p' where p': "raft_persistence_init p = Inr p'"
    and n': "n' = load_persistent (fresh_node (n_config n) now rnd) p'"
    using assms(4) by (auto simp: raft_create_def split: sum.splits)
  have "raft_persistence_load_state p' = raft_persistence_load_state p"
    by (simp add: raft_persistence_load_state_def init_keeps_state_file [OF p'])
  then have "(n_current_term n', n_voted_for n') =
      (case raft_persistence_load_state p of Inr (t, v) \<Rightarrow> (t, strncpy 63 v) | Inl _ \<Rightarrow> (0, []))"
    unfolding n' by (auto simp: load_persistent_def fresh_node_def Let_def split: sum.split)
  with restart_state [OF assms(1-3)] raft_create_state [OF assms(4)] show ?thesis
    by (simp add: passive_move_def raft_start_def)
qed

section \<open>The invariant\<close>

text \<open>What is fixed: names and cluster size. Votes fit their array.\<close>

definition node_ok :: "cstr set \<Rightarrow> cstr \<Rightarrow> raft_node \<Rightarrow> bool" where
  "node_ok ids i n \<longleftrightarrow> wf_cstr 64 i \<and> i \<noteq> [] \<and> cfg_node_id (n_config n) = i
     \<and> peer_count n + 1 = card ids \<and> wf_cstr 64 (n_voted_for n)"

definition inv_config :: "cstr set \<Rightarrow> cluster \<Rightarrow> bool" where
  "inv_config ids c \<longleftrightarrow> finite ids \<and> card ids < 2 ^ 32 \<and> (\<forall>i\<in>ids. node_ok ids i (cl_node c i))"

text \<open>
  Votes: they are never in the future, a node supports at most one other node in a term, and in its
  current term this is the vote it has stored. Candidates and leaders have voted for themselves.
\<close>

definition voter_ok :: "cstr set \<Rightarrow> (u32 \<times> cstr \<times> cstr) set \<Rightarrow> cstr \<Rightarrow> raft_node \<Rightarrow> bool" where
  "voter_ok ids G j n \<longleftrightarrow>
     (\<forall>t k. (t, j, k) \<in> G \<longrightarrow> t \<le> n_current_term n \<and> k \<in> ids)
     \<and> (\<forall>t k k'. (t, j, k) \<in> G \<longrightarrow> (t, j, k') \<in> G \<longrightarrow> k \<noteq> j \<longrightarrow> k' \<noteq> j \<longrightarrow> k = k')
     \<and> (\<forall>k. (n_current_term n, j, k) \<in> G \<longrightarrow> k \<noteq> j \<longrightarrow>
          n_voted_for n = k \<and> n_state n \<noteq> RAFT_STATE_CANDIDATE)
     \<and> (n_state n \<noteq> RAFT_STATE_FOLLOWER \<longrightarrow> n_voted_for n = j)"

text \<open>Leaders: they had a majority, gave no vote away, and keep their vote while in that term.\<close>

definition leader_ok :: "cstr set \<Rightarrow> (u32 \<times> cstr \<times> cstr) set \<Rightarrow> u32 \<Rightarrow> cstr \<Rightarrow> raft_node \<Rightarrow> bool" where
  "leader_ok ids G t i n \<longleftrightarrow> t \<le> n_current_term n
     \<and> (t = n_current_term n \<longrightarrow> n_voted_for n = i \<and> n_state n \<noteq> RAFT_STATE_CANDIDATE)
     \<and> (\<forall>k. (t, i, k) \<in> G \<longrightarrow> k = i)
     \<and> (\<exists>Q. is_majority ids Q \<and> i \<in> Q \<and> (\<forall>k\<in>Q. k \<noteq> i \<longrightarrow> (t, k, i) \<in> G))"

definition inv_votes :: "cstr set \<Rightarrow> cluster \<Rightarrow> bool" where
  "inv_votes ids c \<longleftrightarrow> (\<forall>j\<in>ids. voter_ok ids (cl_grants c) j (cl_node c j))"

definition inv_leaders :: "cstr set \<Rightarrow> cluster \<Rightarrow> bool" where
  "inv_leaders ids c \<longleftrightarrow>
     (\<forall>(t, i)\<in>cl_leaders c. i \<in> ids \<and> leader_ok ids (cl_grants c) t i (cl_node c i))
     \<and> (\<forall>i\<in>ids. n_state (cl_node c i) = RAFT_STATE_LEADER \<longrightarrow>
          (n_current_term (cl_node c i), i) \<in> cl_leaders c)"

lemma leader_ok_mono:
  "leader_ok ids G t i n \<Longrightarrow> G \<subseteq> H \<Longrightarrow> (\<And>k. (t, i, k) \<in> H \<Longrightarrow> (t, i, k) \<in> G \<or> k = i) \<Longrightarrow> leader_ok ids H t i n"
  unfolding leader_ok_def by blast

lemma voter_ok_other: "voter_ok ids G j n \<Longrightarrow> i \<noteq> j \<Longrightarrow> voter_ok ids (insert (t, i, k) G) j n"
  unfolding voter_ok_def by auto

text \<open>Rounds: counted votes were given, and a candidate's open round is of its current term.\<close>

definition round_ok ::
  "cstr set \<Rightarrow> (u32 \<times> cstr \<times> cstr) set \<Rightarrow> cstr \<Rightarrow> raft_node \<Rightarrow> (vote_request \<times> cstr set) option \<Rightarrow> bool" where
  "round_ok ids G i n r \<longleftrightarrow>
     (case r of
        None \<Rightarrow> True
      | Some (req, voters) \<Rightarrow>
          vr_candidate_id req = i \<and> voters \<subseteq> ids - {i} \<and> (\<forall>j\<in>voters. (vr_term req, j, i) \<in> G)
          \<and> (n_state n = RAFT_STATE_CANDIDATE \<longrightarrow> vr_term req = n_current_term n))"

definition answer_ok :: "cstr set \<Rightarrow> (u32 \<times> cstr \<times> cstr) set \<Rightarrow> vote_request \<times> cstr \<Rightarrow> bool" where
  "answer_ok ids G a \<longleftrightarrow>
     (case a of (req, j) \<Rightarrow> j \<in> ids \<and> j \<noteq> vr_candidate_id req \<and> (vr_term req, j, vr_candidate_id req) \<in> G)"

definition inv_rounds :: "cstr set \<Rightarrow> cluster \<Rightarrow> bool" where
  "inv_rounds ids c \<longleftrightarrow> (\<forall>req\<in>cl_requests c. vr_candidate_id req \<in> ids)
     \<and> (\<forall>a\<in>cl_answers c. answer_ok ids (cl_grants c) a)
     \<and> (\<forall>i\<in>ids. round_ok ids (cl_grants c) i (cl_node c i) (cl_round c i))"

lemma round_ok_None [simp]: "round_ok ids G i n None"
  by (simp add: round_ok_def)

lemma round_ok_mono: "round_ok ids G i n r \<Longrightarrow> G \<subseteq> H \<Longrightarrow> round_ok ids H i n r"
  unfolding round_ok_def by (auto split: option.splits)

lemma answer_ok_mono: "answer_ok ids G a \<Longrightarrow> G \<subseteq> H \<Longrightarrow> answer_ok ids H a"
  unfolding answer_ok_def by (auto split: prod.splits)

definition cluster_inv :: "cstr set \<Rightarrow> cluster \<Rightarrow> bool" where
  "cluster_inv ids c \<longleftrightarrow> inv_config ids c \<and> inv_votes ids c \<and> inv_leaders ids c \<and> inv_rounds ids c"

lemma set_node_sel [simp]:
  "cl_node (set_node i n c) = (cl_node c)(i := n)" "cl_round (set_node i n c) = cl_round c"
  "cl_requests (set_node i n c) = cl_requests c" "cl_answers (set_node i n c) = cl_answers c"
  "cl_grants (set_node i n c) = cl_grants c" "cl_leaders (set_node i n c) = cl_leaders c"
  by (simp_all add: set_node_def)

lemma drive_node_sel [simp]:
  "cl_node (drive_node i n c) = (cl_node c)(i := n)" "cl_round (drive_node i n c) = cl_round c"
  "cl_requests (drive_node i n c) = cl_requests c" "cl_answers (drive_node i n c) = cl_answers c"
  by (simp_all add: drive_node_def Let_def)

lemma drive_node_history:
  "cl_grants (drive_node i n c) = (if n_current_term (cl_node c i) \<noteq> n_current_term n
     then insert (n_current_term n, i, i) (cl_grants c) else cl_grants c)"
  "cl_leaders (drive_node i n c) = (if n_state n = RAFT_STATE_LEADER
     then insert (n_current_term n, i) (cl_leaders c) else cl_leaders c)"
  by (simp_all add: drive_node_def Let_def)

lemma wf_cstr_Nil [simp]: "wf_cstr (Suc m) []"
  by (simp add: wf_cstr_def)

text \<open>Passive moves keep the invariant.\<close>

lemma node_ok_passive: "node_ok ids i n \<Longrightarrow> passive_move n n' \<Longrightarrow> node_ok ids i n'"
  unfolding node_ok_def passive_move_def peer_count_def by (auto simp: wf_cstr_def)

lemma inv_passive_config:
  "inv_config ids c \<Longrightarrow> passive_move (cl_node c i) n \<Longrightarrow> inv_config ids (set_node i n c)"
  unfolding inv_config_def by (auto intro: node_ok_passive)

lemma passive_cases:
  assumes "passive_move n n'"
  obtains (same) "n_current_term n' = n_current_term n" "n_voted_for n' = n_voted_for n"
      "n_state n' = n_state n \<or> n_state n' = RAFT_STATE_FOLLOWER"
  | (higher) "n_current_term n < n_current_term n'" "n_state n' = RAFT_STATE_FOLLOWER"
  | (demoted) "n_current_term n' = n_current_term n" "n_state n = RAFT_STATE_CANDIDATE"
      "n_state n' = RAFT_STATE_FOLLOWER"
  using assms unfolding passive_move_def by blast

lemma voter_ok_passive:
  assumes "voter_ok ids G i n" and "passive_move n n'"
  shows "voter_ok ids G i n'"
  using assms(2)
proof (cases rule: passive_cases)
  case same
  with assms(1) show ?thesis unfolding voter_ok_def by metis
next
  case higher
  have "(n_current_term n', i, k) \<notin> G" for k
    using assms(1) higher(1) unfolding voter_ok_def by (meson leD)
  moreover have "t \<le> n_current_term n'" if "(t, i, k) \<in> G" for t k
    using assms(1) higher(1) that unfolding voter_ok_def by (meson less_imp_le order_trans)
  ultimately show ?thesis using assms(1) higher unfolding voter_ok_def by metis
next
  case demoted
  with assms(1) show ?thesis unfolding voter_ok_def by metis
qed

lemma leader_ok_passive:
  assumes "leader_ok ids G t i n" and "passive_move n n'"
  shows "leader_ok ids G t i n'"
  using assms(2)
proof (cases rule: passive_cases)
  case same
  with assms(1) show ?thesis unfolding leader_ok_def by auto
next
  case higher
  with assms(1) have "t < n_current_term n'" unfolding leader_ok_def by auto
  with assms(1) show ?thesis unfolding leader_ok_def by auto
next
  case demoted
  with assms(1) show ?thesis unfolding leader_ok_def by auto
qed

lemma inv_passive_votes:
  "inv_votes ids c \<Longrightarrow> passive_move (cl_node c i) n \<Longrightarrow> inv_votes ids (set_node i n c)"
  unfolding inv_votes_def by (auto intro: voter_ok_passive)

lemma inv_passive_leaders:
  assumes "inv_leaders ids c" and "passive_move (cl_node c i) n"
  shows "inv_leaders ids (set_node i n c)"
proof -
  have "(n_current_term n, i) \<in> cl_leaders c" if "n_state n = RAFT_STATE_LEADER" "i \<in> ids"
    using assms that unfolding passive_move_def inv_leaders_def by auto
  then show ?thesis
    using assms leader_ok_passive unfolding inv_leaders_def by fastforce
qed

lemma round_ok_passive: "round_ok ids G i n r \<Longrightarrow> passive_move n n' \<Longrightarrow> round_ok ids G i n' r"
  unfolding round_ok_def passive_move_def by (auto split: option.splits)

lemma inv_passive_rounds:
  "inv_rounds ids c \<Longrightarrow> passive_move (cl_node c i) n \<Longrightarrow> inv_rounds ids (set_node i n c)"
  unfolding inv_rounds_def by (auto intro: round_ok_passive)

lemma inv_passive:
  "cluster_inv ids c \<Longrightarrow> passive_move (cl_node c i) n \<Longrightarrow> cluster_inv ids (set_node i n c)"
  using inv_passive_config inv_passive_votes inv_passive_leaders inv_passive_rounds
  unfolding cluster_inv_def by blast

lemma inv_round_irrelevant [simp]:
  "inv_config ids (c\<lparr>cl_round := r\<rparr>) = inv_config ids c" "inv_votes ids (c\<lparr>cl_round := r\<rparr>) = inv_votes ids c"
  "inv_leaders ids (c\<lparr>cl_round := r\<rparr>) = inv_leaders ids c"
  by (simp_all add: inv_config_def inv_votes_def inv_leaders_def)

lemma inv_drop_round: "cluster_inv ids c \<Longrightarrow> cluster_inv ids (c\<lparr>cl_round := (cl_round c)(i := None)\<rparr>)"
  unfolding cluster_inv_def by (simp add: inv_rounds_def)

text \<open>Starting an election.\<close>

definition becomes_candidate :: "cstr \<Rightarrow> raft_node \<Rightarrow> raft_node \<Rightarrow> bool" where
  "becomes_candidate i n n' \<longleftrightarrow> n_config n' = n_config n
     \<and> n_current_term n < n_current_term n' \<and> n_voted_for n' = i
     \<and> (n_state n' = RAFT_STATE_CANDIDATE \<or> n_state n' = RAFT_STATE_LEADER \<and> peer_count n = 0)"

lemma voter_ok_candidate:
  assumes "voter_ok ids G i n" and "becomes_candidate i n n'" and "i \<in> ids"
  shows "voter_ok ids (insert (n_current_term n', i, i) G) i n'" and "(n_current_term n', i, k) \<notin> G"
proof -
  have lt: "n_current_term n < n_current_term n'" using assms(2) by (simp add: becomes_candidate_def)
  then have none: "(n_current_term n', i, k) \<notin> G" for k
    using assms(1) unfolding voter_ok_def by (meson leD)
  then show "(n_current_term n', i, k) \<notin> G" .
  have "t \<le> n_current_term n'" if "(t, i, k) \<in> G" for t k
    using assms(1) lt that unfolding voter_ok_def by (meson less_imp_le order_trans)
  then show "voter_ok ids (insert (n_current_term n', i, i) G) i n'"
    using assms none unfolding voter_ok_def becomes_candidate_def by auto
qed

lemma leader_ok_candidate:
  "leader_ok ids G t i n \<Longrightarrow> becomes_candidate i n n' \<Longrightarrow> leader_ok ids G t i n'"
  unfolding leader_ok_def becomes_candidate_def by auto

lemma candidate_history:
  "becomes_candidate i (cl_node c i) n \<Longrightarrow>
     cl_grants (drive_node i n c) = insert (n_current_term n, i, i) (cl_grants c)"
  by (auto simp: drive_node_history becomes_candidate_def)

lemma inv_candidate_leaders:
  assumes "inv_config ids c" and "inv_votes ids c" and "inv_leaders ids c" and "i \<in> ids"
    and "becomes_candidate i (cl_node c i) n"
  shows "inv_leaders ids (drive_node i n c)"
proof -
  let ?t = "n_current_term n" and ?G = "insert (n_current_term n, i, i) (cl_grants c)"
  have none: "(?t, i, k) \<notin> cl_grants c" for k
    using assms(2,4,5) voter_ok_candidate(2) unfolding inv_votes_def by blast
  have old: "leader_ok ids ?G t k (((cl_node c)(i := n)) k) \<and> k \<in> ids" if "(t, k) \<in> cl_leaders c" for t k
  proof -
    have l: "k \<in> ids" "leader_ok ids (cl_grants c) t k (cl_node c k)"
      using assms(3) that unfolding inv_leaders_def by blast+
    then have "leader_ok ids (cl_grants c) t k (((cl_node c)(i := n)) k)"
      using leader_ok_candidate assms(5) by auto
    then show ?thesis using l(1) by (auto intro: leader_ok_mono)
  qed
  have new: "leader_ok ids ?G ?t i n" if "n_state n = RAFT_STATE_LEADER"
  proof -
    have "card ids = 1" using that assms(1,4,5) by (auto simp: becomes_candidate_def inv_config_def node_ok_def)
    then have "is_majority ids {i}" using assms(4) by (auto simp: is_majority_def card_1_singleton_iff)
    then show ?thesis
      using none that assms(4,5) unfolding leader_ok_def becomes_candidate_def by auto
  qed
  have "leader_ok ids ?G t k (((cl_node c)(i := n)) k) \<and> k \<in> ids" if "(t, k) \<in> cl_leaders (drive_node i n c)" for t k
  proof (cases "(t, k) \<in> cl_leaders c")
    case False
    with that have "t = ?t" "k = i" "n_state n = RAFT_STATE_LEADER"
      by (auto simp: drive_node_history split: if_splits)
    with new assms(4) show ?thesis by simp
  qed (rule old)
  moreover have "(n_current_term (((cl_node c)(i := n)) k), k) \<in> cl_leaders (drive_node i n c)"
    if "n_state (((cl_node c)(i := n)) k) = RAFT_STATE_LEADER" "k \<in> ids" for k
    using assms(3) that unfolding inv_leaders_def by (auto simp: drive_node_history split: if_splits)
  ultimately show ?thesis
    unfolding inv_leaders_def candidate_history [OF assms(5)] drive_node_sel by blast
qed

lemma inv_candidate:
  assumes "cluster_inv ids c" and "i \<in> ids" and "cl_round c i = None"
    and "becomes_candidate i (cl_node c i) n"
  shows "cluster_inv ids (drive_node i n c)"
proof -
  have "node_ok ids i n"
    using assms unfolding cluster_inv_def inv_config_def node_ok_def becomes_candidate_def peer_count_def
    by auto
  then have "inv_config ids (drive_node i n c)"
    using assms(1) unfolding cluster_inv_def inv_config_def by auto
  moreover have "cl_grants c \<subseteq> cl_grants (drive_node i n c)" by (auto simp: drive_node_history)
  then have "inv_rounds ids (drive_node i n c)"
    using assms(1,3) round_ok_mono answer_ok_mono unfolding cluster_inv_def inv_rounds_def by auto
  moreover have "inv_votes ids (drive_node i n c)"
    using assms voter_ok_candidate(1) voter_ok_other
    unfolding cluster_inv_def inv_votes_def candidate_history [OF assms(4)] by auto
  ultimately show ?thesis
    using assms inv_candidate_leaders unfolding cluster_inv_def by blast
qed

text \<open>Granting a vote.\<close>

lemma inv_grant:
  assumes inv: "cluster_inv ids c" and ids: "j \<in> ids" "k \<in> ids" "k \<noteq> j"
    and can: "n_voted_for (cl_node c j) = [] \<or> n_voted_for (cl_node c j) = k"
    and n: "n_config n = n_config (cl_node c j)" "n_current_term n = n_current_term (cl_node c j)"
      "n_voted_for n = k" "n_state n = n_state (cl_node c j)"
    and req: "vr_term req = n_current_term n" "vr_candidate_id req = k"
  shows "cluster_inv ids ((set_node j n c)\<lparr>cl_grants := insert (vr_term req, j, k) (cl_grants c),
    cl_answers := insert (req, j) (cl_answers c)\<rparr>)" (is "cluster_inv ids ?d")
proof -
  let ?m = "cl_node c j" and ?t = "n_current_term n"
  note [simp] = n req
  from inv have i: "inv_config ids c" "inv_votes ids c" "inv_leaders ids c" "inv_rounds ids c"
    by (simp_all add: cluster_inv_def)
  have k: "k \<noteq> []" "j \<noteq> []" "wf_cstr 64 k" using i(1) ids unfolding inv_config_def node_ok_def by auto
  have v: "voter_ok ids (cl_grants c) j ?m" using i(2) ids unfolding inv_votes_def by blast
  then have state: "n_state ?m = RAFT_STATE_FOLLOWER"
    using ids can k unfolding voter_ok_def by metis
  have given: "x = k" if "(?t, j, x) \<in> cl_grants c" "x \<noteq> j" for x
  proof -
    have "n_voted_for ?m = x" "x \<in> ids" using v that unfolding voter_ok_def by auto
    moreover from this(2) have "x \<noteq> []" using i(1) unfolding inv_config_def node_ok_def by auto
    ultimately show ?thesis using can by auto
  qed
  have not_leader: "(?t, j) \<notin> cl_leaders c"
  proof
    assume "(?t, j) \<in> cl_leaders c"
    then have "n_voted_for ?m = j" using i(3) unfolding inv_leaders_def leader_ok_def by auto
    with can ids(3) k show False by auto
  qed
  have "leader_ok ids (insert (?t, j, k) (cl_grants c)) t' i' (((cl_node c)(j := n)) i')"
    if "(t', i') \<in> cl_leaders c" for t' i'
  proof (rule leader_ok_mono)
    have "leader_ok ids (cl_grants c) t' i' (cl_node c i')" using i(3) that unfolding inv_leaders_def by blast
    then show "leader_ok ids (cl_grants c) t' i' (((cl_node c)(j := n)) i')"
      using not_leader that unfolding leader_ok_def by auto
  qed (use not_leader that in auto)
  moreover have "(n_current_term (((cl_node c)(j := n)) i'), i') \<in> cl_leaders c"
    if "n_state (((cl_node c)(j := n)) i') = RAFT_STATE_LEADER" "i' \<in> ids" for i'
    using i(3) state that unfolding inv_leaders_def by (auto split: if_splits)
  ultimately have leaders: "inv_leaders ids ?d"
    using i(3) unfolding inv_leaders_def by (simp del: fun_upd_apply) blast
  have "voter_ok ids (insert (?t, j, k) (cl_grants c)) j n"
    using v given state ids unfolding voter_ok_def by auto
  then have "inv_votes ids ?d"
    using i(2) voter_ok_other unfolding inv_votes_def by auto
  moreover have "node_ok ids j n"
    using i(1) ids k unfolding inv_config_def node_ok_def peer_count_def by auto
  then have "inv_config ids ?d" using i(1) unfolding inv_config_def by auto
  moreover have "round_ok ids (insert (?t, j, k) (cl_grants c)) i' (((cl_node c)(j := n)) i') (cl_round c i')"
    if "i' \<in> ids" for i'
  proof -
    have "round_ok ids (cl_grants c) i' (cl_node c i') (cl_round c i')"
      using i(4) that unfolding inv_rounds_def by blast
    then have "round_ok ids (cl_grants c) i' (((cl_node c)(j := n)) i') (cl_round c i')"
      unfolding round_ok_def by (auto split: option.splits)
    then show ?thesis by (rule round_ok_mono) auto
  qed
  then have "inv_rounds ids ?d"
    using i(4) ids unfolding inv_rounds_def
    by (simp del: fun_upd_apply) (auto simp: answer_ok_def)
  ultimately show ?thesis using leaders by (simp add: cluster_inv_def)
qed

lemma inv_deliver:
  assumes "cluster_inv ids c" and "req \<in> cl_requests c" and "j \<in> ids" and "j \<noteq> vr_candidate_id req"
  shows "cluster_inv ids (deliver_vote_request now req j c)"
proof -
  let ?k = "vr_candidate_id req" and ?m = "raft_step_down now (cl_node c j) (vr_term req)"
  let ?c = "set_node j ?m c"
  have inv: "cluster_inv ids ?c" using assms(1) passive_step_down by (rule inv_passive)
  have k: "?k \<in> ids" using assms(1,2) unfolding cluster_inv_def inv_rounds_def by blast
  then have "wf_cstr 64 ?k" using assms(1) unfolding cluster_inv_def inv_config_def node_ok_def by blast
  then have cp: "strncpy 63 ?k = ?k" by (intro strncpy_id) simp
  obtain n granted t where h: "raft_handle_request_vote now (cl_node c j) ?k (vr_term req)
      (vr_last_log_index req) (vr_last_log_term req) = (n, granted, t)" by (metis prod_cases3)
  show ?thesis
  proof (cases granted)
    case False
    then have "deliver_vote_request now req j c = ?c"
      using h by (simp add: deliver_vote_request_def) (simp add: raft_handle_request_vote_alt Let_def split: if_splits)
    with inv show ?thesis by simp
  next
    case True
    then have n: "n = persist_state (?m\<lparr>n_voted_for := ?k, n_last_heartbeat_ms := now\<rparr>)"
      "vr_term req = n_current_term ?m" "n_voted_for ?m = [] \<or> n_voted_for ?m = ?k"
      using h cp by (auto simp: raft_handle_request_vote_alt Let_def split: if_splits)
    have "cluster_inv ids ((set_node j n ?c)\<lparr>cl_grants := insert (vr_term req, j, ?k) (cl_grants ?c),
        cl_answers := insert (req, j) (cl_answers ?c)\<rparr>)"
      using n k assms(3,4) by (intro inv_grant [OF inv]) simp_all
    moreover have "set_node j n ?c = set_node j n c" by (simp add: set_node_def)
    ultimately show ?thesis using h True by (simp add: deliver_vote_request_def)
  qed
qed

text \<open>Opening a broadcast, counting a vote, closing the broadcast.\<close>

lemma inv_open_round:
  assumes "cluster_inv ids c" and "i \<in> ids"
  shows "cluster_inv ids (open_round i c)"
proof -
  let ?r = "vote_request_of (cl_node c i)"
  have "wf_cstr 64 i" "cfg_node_id (n_config (cl_node c i)) = i"
    using assms unfolding cluster_inv_def inv_config_def node_ok_def by blast+
  then have r: "vr_candidate_id ?r = i" "vr_term ?r = n_current_term (cl_node c i)"
    using strncpy_id [of 63 i] by (simp_all add: vote_request_of_def)
  let ?c = "c\<lparr>cl_round := (cl_round c)(i := Some (?r, {}))\<rparr>"
  have "inv_rounds ids (?c\<lparr>cl_requests := insert ?r (cl_requests c)\<rparr>)"
    using assms r unfolding cluster_inv_def inv_rounds_def by (auto simp: round_ok_def)
  moreover have "inv_config ids (?c\<lparr>cl_requests := insert ?r (cl_requests c)\<rparr>)"
    "inv_votes ids (?c\<lparr>cl_requests := insert ?r (cl_requests c)\<rparr>)"
    "inv_leaders ids (?c\<lparr>cl_requests := insert ?r (cl_requests c)\<rparr>)"
    using assms(1) by (simp_all add: cluster_inv_def inv_config_def inv_votes_def inv_leaders_def)
  ultimately show ?thesis by (simp add: open_round_def Let_def cluster_inv_def)
qed

lemma inv_collect:
  assumes "cluster_inv ids c" and "i \<in> ids" and "cl_round c i = Some (req, voters)"
    and "(req, j) \<in> cl_answers c"
  shows "cluster_inv ids (collect_vote i j c)"
proof -
  have r: "inv_rounds ids c" using assms(1) by (simp add: cluster_inv_def)
  have "round_ok ids (cl_grants c) i (cl_node c i) (Some (req, voters))" "answer_ok ids (cl_grants c) (req, j)"
    using r assms(2-4) unfolding inv_rounds_def by metis+
  then have "round_ok ids (cl_grants c) i (cl_node c i) (Some (req, insert j voters))"
    by (auto simp: round_ok_def answer_ok_def)
  then have "inv_rounds ids (c\<lparr>cl_round := (cl_round c)(i := Some (req, insert j voters))\<rparr>)"
    using r unfolding inv_rounds_def by simp
  with assms(1,3) show ?thesis by (simp add: collect_vote_def cluster_inv_def)
qed

lemma process_election_result_cases:
  obtains (unchanged) "raft_process_election_result now n v = n"
  | (won) "raft_process_election_result now n v = transition_to_leader now n"
      "n_state n = RAFT_STATE_CANDIDATE" "majority n \<le> unat v"
proof (cases "n_state n = RAFT_STATE_CANDIDATE \<and> majority n \<le> unat v")
  case True
  then show ?thesis by (intro won) (simp_all add: raft_process_election_result_def)
next
  case False
  then show ?thesis by (intro unchanged) (auto simp: raft_process_election_result_def)
qed

lemma inv_win:
  assumes inv: "cluster_inv ids c" and i: "i \<in> ids" and cand: "n_state (cl_node c i) = RAFT_STATE_CANDIDATE"
    and q: "is_majority ids (insert i voters)"
    and votes: "\<forall>j\<in>voters. (n_current_term (cl_node c i), j, i) \<in> cl_grants c"
  shows "cluster_inv ids (drive_node i (transition_to_leader now (cl_node c i)) c)"
proof -
  let ?n = "cl_node c i" and ?l = "transition_to_leader now (cl_node c i)"
  let ?d = "drive_node i ?l c" and ?t = "n_current_term (cl_node c i)"
  have h: "cl_grants ?d = cl_grants c" "cl_leaders ?d = insert (?t, i) (cl_leaders c)"
    by (simp_all add: drive_node_history)
  from inv have I: "inv_config ids c" "inv_votes ids c" "inv_leaders ids c" "inv_rounds ids c"
    by (simp_all add: cluster_inv_def)
  have v: "voter_ok ids (cl_grants c) i ?n" using I(2) i unfolding inv_votes_def by blast
  then have self: "n_voted_for ?n = i" "\<forall>k. (?t, i, k) \<in> cl_grants c \<longrightarrow> k = i"
    using cand unfolding voter_ok_def by auto
  have "voter_ok ids (cl_grants c) i ?l" using v self unfolding voter_ok_def by auto
  then have "inv_votes ids ?d" using I(2) h unfolding inv_votes_def by simp
  moreover have "leader_ok ids (cl_grants c) ?t i ?l"
    using self q votes unfolding leader_ok_def by auto
  moreover have "leader_ok ids (cl_grants c) t i ?l" if "leader_ok ids (cl_grants c) t i ?n" for t
    using that self unfolding leader_ok_def by auto
  ultimately have "inv_votes ids ?d" "inv_leaders ids ?d"
    using I(3) h i unfolding inv_leaders_def by auto
  moreover have "inv_config ids ?d" using I(1) unfolding inv_config_def node_ok_def peer_count_def by simp
  moreover have "round_ok ids (cl_grants c) i ?l (cl_round c i)" if "round_ok ids (cl_grants c) i ?n (cl_round c i)"
    using that unfolding round_ok_def by (auto split: option.splits)
  then have "inv_rounds ids ?d" using I(4) h unfolding inv_rounds_def by simp
  ultimately show ?thesis by (simp add: cluster_inv_def)
qed

lemma drive_node_same:
  "cluster_inv ids c \<Longrightarrow> i \<in> ids \<Longrightarrow> passive_move (cl_node c i) n \<Longrightarrow>
     n_current_term n = n_current_term (cl_node c i) \<Longrightarrow> drive_node i n c = set_node i n c"
  by (auto simp: drive_node_def Let_def cluster_inv_def inv_leaders_def passive_move_def insert_absorb)

lemma inv_close:
  assumes "cluster_inv ids c" and "i \<in> ids"
  shows "cluster_inv ids (close_round now i c)"
proof (cases "cl_round c i")
  case None
  with assms show ?thesis by (simp add: close_round_def)
next
  case (Some r)
  obtain req voters where r: "cl_round c i = Some (req, voters)" using Some by (cases r) auto
  let ?c = "c\<lparr>cl_round := (cl_round c)(i := None)\<rparr>" and ?n = "cl_node c i"
  have inv: "cluster_inv ids ?c" using assms(1) by (rule inv_drop_round)
  have "round_ok ids (cl_grants c) i ?n (cl_round c i)"
    using assms unfolding cluster_inv_def inv_rounds_def by blast
  then have rd: "voters \<subseteq> ids - {i}" "\<forall>j\<in>voters. (vr_term req, j, i) \<in> cl_grants c"
    "n_state ?n = RAFT_STATE_CANDIDATE \<longrightarrow> vr_term req = n_current_term ?n"
    using \<open>round_ok ids (cl_grants c) i ?n (cl_round c i)\<close> r by (simp_all add: round_ok_def)
  have cfg: "finite ids" "card ids < 2 ^ 32" "peer_count ?n + 1 = card ids"
    using assms unfolding cluster_inv_def inv_config_def node_ok_def by blast+
  have fin: "finite voters" using rd(1) cfg(1) by (meson finite_Diff finite_subset)
  have card: "card voters < card ids"
    using rd(1) cfg(1) assms(2) by (intro psubset_card_mono) auto
  show ?thesis
  proof (cases rule: process_election_result_cases [of now ?n "1 + of_nat (card voters)"])
    case unchanged
    then have "close_round now i c = set_node i ?n ?c"
      using r drive_node_same [OF inv assms(2), of ?n] by (simp add: close_round_def)
    with inv_passive [OF inv, of i ?n] show ?thesis by simp
  next
    case won
    have "unat (1 + of_nat (card voters) :: u32) = 1 + card voters"
      using unat_index_sum [of 1 "card voters"] card cfg(2) by simp
    with won(3) cfg(3) have "card ids div 2 + 1 \<le> 1 + card voters" by (simp add: majority_def)
    moreover have "i \<notin> voters" using rd(1) by blast
    then have "card (insert i voters) = 1 + card voters" using fin by simp
    ultimately have "is_majority ids (insert i voters)"
      using rd(1) cfg(1) assms(2) by (auto simp: is_majority_def)
    then have "cluster_inv ids (drive_node i (transition_to_leader now ?n) ?c)"
      using inv_win [OF inv assms(2), of voters now] won(2) rd by simp
    with r won(1) show ?thesis by (simp add: close_round_def)
  qed
qed

section \<open>Every step keeps the invariant\<close>

lemma start_election_candidate:
  assumes "node_ok ids i n" and "n_current_term n < - 1"
  shows "becomes_candidate i n (start_election now rnd n)"
proof -
  have "strncpy 63 (cfg_node_id (n_config n)) = i"
    using assms(1) strncpy_id [of 63 i] by (simp add: node_ok_def)
  moreover have "n_current_term n < n_current_term n + 1"
    using assms(2) u32_less_suc [of "n_current_term n" "- 1"] by (simp add: u32_less_conv)
  moreover have "majority (transition_to_candidate now rnd n) = 1 \<longleftrightarrow> peer_count n = 0"
    by (cases "cfg_peers (n_config n)") (simp_all add: majority_def peer_count_def)
  ultimately show ?thesis
    by (simp add: becomes_candidate_def start_election_def Let_def)
qed

lemma tick_result:
  "snd (raft_tick now rnd n)
     \<in> {n, apply_committed_entries n, update_commit_index (apply_committed_entries n),
        apply_committed_entries (start_election now rnd n)}"
  by (cases "n_state n") (simp_all add: raft_tick_def Let_def)

lemma tick_cases:
  obtains (quiet) "passive_move n (snd (raft_tick now rnd n))"
      "n_current_term (snd (raft_tick now rnd n)) = n_current_term n"
  | (elected) "snd (raft_tick now rnd n) = apply_committed_entries (start_election now rnd n)"
proof -
  have "passive_move n n'" "n_current_term n' = n_current_term n"
    if "n' \<in> {n, apply_committed_entries n, update_commit_index (apply_committed_entries n)}" for n'
    using that by auto
  with quiet elected tick_result [of now rnd n] show ?thesis by blast
qed

lemma inv_step:
  assumes "cluster_inv ids c" and "cluster_step ids c c'"
  shows "cluster_inv ids c'"
  using assms(2)
proof cases
  case (tick i now rnd)
  have ok: "node_ok ids i (cl_node c i)"
    using assms(1) tick by (auto simp: cluster_inv_def inv_config_def)
  show ?thesis
  proof (cases rule: tick_cases [of "cl_node c i" now rnd])
    case quiet
    with tick assms(1) show ?thesis by (simp add: drive_node_same inv_passive)
  next
    case elected
    have "becomes_candidate i (cl_node c i) (apply_committed_entries (start_election now rnd (cl_node c i)))"
      using start_election_candidate [OF ok] tick by (simp add: becomes_candidate_def)
    with tick elected assms(1) show ?thesis by (simp add: inv_candidate)
  qed
next
  case (start_election i now rnd)
  then have "node_ok ids i (cl_node c i)"
    using assms(1) by (auto simp: cluster_inv_def inv_config_def)
  with start_election assms(1) start_election_candidate show ?thesis by (auto intro: inv_candidate)
next
  case (restart i p now rnd n)
  have "wf_cstr 64 (n_voted_for (cl_node c i))"
    using assms(1) restart by (auto simp: cluster_inv_def inv_config_def node_ok_def)
  then have "passive_move (cl_node c i) (raft_start now n)"
    using restart by (intro passive_restart)
  with inv_passive [OF inv_drop_round [OF assms(1)], of i] restart show ?thesis by simp
qed (use assms(1) in \<open>auto intro: inv_open_round inv_deliver inv_collect inv_close inv_passive
      passive_step_down passive_append_entries passive_ops\<close>)

lemma inv_init:
  assumes "cluster_config ids cfg" and "cluster_init ids cfg c"
  shows "cluster_inv ids c"
proof -
  have node: "node_ok ids i (cl_node c i) \<and> n_state (cl_node c i) = RAFT_STATE_FOLLOWER" if i: "i \<in> ids" for i
  proof -
    from assms(2) i obtain now rnd store n where n: "raft_create (cfg i) now rnd store = Inr n"
      "n_voted_for n = []" "cl_node c i = raft_start now n"
      unfolding cluster_init_def by blast
    have cfg: "wf_cstr 64 i" "i \<noteq> []" "cfg_node_id (cfg i) = i" "p_node_id ` set (cfg_peers (cfg i)) = ids - {i}"
      "distinct (map p_node_id (cfg_peers (cfg i)))" "finite ids"
      using assms(1) i unfolding cluster_config_def by blast+
    have "length (cfg_peers (cfg i)) = card (p_node_id ` set (cfg_peers (cfg i)))"
      using distinct_card [OF cfg(5)] by simp
    then have "length (cfg_peers (cfg i)) + 1 = card ids"
      using cfg(4,6) i by (metis Suc_eq_plus1 card_Suc_Diff1)
    with cfg n raft_create_state [OF n(1)] show ?thesis
      by (simp add: node_ok_def raft_start_def peer_count_def)
  qed
  then have "inv_votes ids c" "inv_leaders ids c" "inv_rounds ids c"
    using assms(2) by (simp_all add: cluster_init_def inv_votes_def voter_ok_def inv_leaders_def inv_rounds_def)
  moreover have "inv_config ids c" using node assms(1) by (simp add: inv_config_def cluster_config_def)
  ultimately show ?thesis by (simp add: cluster_inv_def)
qed

lemma reachable_inv: "cluster_reachable ids cfg c \<Longrightarrow> cluster_inv ids c"
  by (induction rule: cluster_reachable.induct) (auto intro: inv_init inv_step)

lemma leaders_unique:
  assumes "cluster_inv ids c" and "(t, i) \<in> cl_leaders c" and "(t, j) \<in> cl_leaders c"
  shows "i = j"
proof -
  have ok: "leader_ok ids (cl_grants c) t i (cl_node c i)" "leader_ok ids (cl_grants c) t j (cl_node c j)"
    using assms unfolding cluster_inv_def inv_leaders_def by blast+
  then obtain Q R where q: "is_majority ids Q" "\<forall>k\<in>Q. k \<noteq> i \<longrightarrow> (t, k, i) \<in> cl_grants c"
    and r: "is_majority ids R" "\<forall>k\<in>R. k \<noteq> j \<longrightarrow> (t, k, j) \<in> cl_grants c"
    unfolding leader_ok_def by blast
  show ?thesis
  proof (rule majorities.unique_winner [OF q(1) r(1)])
    fix k
    assume k: "k \<in> Q" "k \<in> R"
    have v: "voter_ok ids (cl_grants c) k (cl_node c k)"
      using assms(1) q(1) k unfolding cluster_inv_def inv_votes_def is_majority_def by blast
    show "i = j"
    proof (cases "k = i \<or> k = j")
      case True
      then show ?thesis using ok q(2) r(2) k unfolding leader_ok_def by metis
    next
      case False
      then have "(t, k, i) \<in> cl_grants c" "(t, k, j) \<in> cl_grants c" using q(2) r(2) k by blast+
      with v False show ?thesis unfolding voter_ok_def by metis
    qed
  qed
qed

section \<open>A sample run\<close>

text \<open>Three nodes; the first one times out, is voted for by the second one and becomes leader.\<close>

definition demo_ids :: "cstr set" where
  "demo_ids = {[110, 49], [110, 50], [110, 51]}"

definition demo_peer :: "cstr \<Rightarrow> raft_peer" where
  "demo_peer i = \<lparr>p_node_id = i, p_address = [104], p_port = 7000\<rparr>"

definition demo_cfg :: "cstr \<Rightarrow> raft_config" where
  "demo_cfg i =
     \<lparr>cfg_node_id = i,
      cfg_peers = map demo_peer (filter (\<lambda>j. j \<noteq> i) [[110, 49], [110, 50], [110, 51]]),
      cfg_election_timeout_min_ms = 150, cfg_election_timeout_max_ms = 300,
      cfg_heartbeat_interval_ms = 50, cfg_apply_fn = False\<rparr>"

definition demo_start :: cluster where
  "demo_start =
     \<lparr>cl_node = \<lambda>i. raft_start 0 (fresh_node (demo_cfg i) 0 0), cl_round = \<lambda>_. None,
      cl_requests = {}, cl_answers = {}, cl_grants = {}, cl_leaders = {}\<rparr>"

definition demo_request :: vote_request where
  "demo_request = \<lparr>vr_candidate_id = [110, 49], vr_term = 1, vr_last_log_index = 0, vr_last_log_term = 0\<rparr>"

definition demo_voted :: cluster where
  "demo_voted = collect_vote [110, 49] [110, 50] (deliver_vote_request 1001 demo_request [110, 50]
     (open_round [110, 49] (drive_node [110, 49]
        (snd (raft_tick 1000 0 (cl_node demo_start [110, 49]))) demo_start)))"

lemma demo_config: "cluster_config demo_ids demo_cfg"
  by (auto simp: cluster_config_def demo_ids_def demo_cfg_def demo_peer_def wf_cstr_def)

lemma demo_init: "cluster_init demo_ids demo_cfg demo_start"
  unfolding cluster_init_def
proof (intro conjI ballI)
  fix i
  have "raft_create (demo_cfg i) 0 0 None = Inr (fresh_node (demo_cfg i) 0 0)"
    "n_voted_for (fresh_node (demo_cfg i) 0 0) = []"
    "cl_node demo_start i = raft_start 0 (fresh_node (demo_cfg i) 0 0)"
    by (simp_all add: raft_create_def fresh_node_def demo_start_def)
  then show "\<exists>now rnd store n. raft_create (demo_cfg i) now rnd store = Inr n
      \<and> n_voted_for n = [] \<and> cl_node demo_start i = raft_start now n"
    by blast
qed (simp_all add: demo_start_def)

lemma demo_tick:
  "snd (raft_tick 1000 0 (cl_node demo_start [110, 49]))
     = transition_to_candidate 1000 0 (cl_node demo_start [110, 49])"
  by (simp add: raft_tick_def demo_start_def raft_start_def fresh_node_def random_election_timeout_def
      demo_cfg_def start_election_def Let_def majority_def peer_count_def apply_committed_entries_def)

lemma demo_candidate: 
  "vote_request_of (transition_to_candidate 1000 0 (cl_node demo_start [110, 49])) = demo_request"
  by (simp add: vote_request_of_def demo_request_def demo_start_def raft_start_def fresh_node_def demo_cfg_def
      log_last_index_def log_last_term_def log_count_def raft_log_init_def strncpy_def)

lemma demo_request_sel [simp]:
  "vr_candidate_id demo_request = [110, 49]" "vr_term demo_request = 1"
  "vr_last_log_index demo_request = 0" "vr_last_log_term demo_request = 0"
  by (simp_all add: demo_request_def)

lemma demo_grant:
  "fst (snd (raft_handle_request_vote 1001 (cl_node demo_start [110, 50]) [110, 49] 1 0 0))"
  by (simp add: raft_handle_request_vote_alt raft_step_down_def demo_start_def raft_start_def
      fresh_node_def log_up_to_date_def log_last_index_def log_last_term_def log_count_def raft_log_init_def)

lemma demo_voted_state:
  "cl_node demo_voted [110, 49] = transition_to_candidate 1000 0 (cl_node demo_start [110, 49])"
  "cl_round demo_voted [110, 49] = Some (demo_request, {[110, 50]})"
  "(demo_request, [110, 50]) \<in> cl_answers (deliver_vote_request 1001 demo_request [110, 50]
     (open_round [110, 49] (drive_node [110, 49]
        (snd (raft_tick 1000 0 (cl_node demo_start [110, 49]))) demo_start)))"
  using demo_grant
  by (auto simp: demo_voted_def collect_vote_def deliver_vote_request_def open_round_def demo_tick
      demo_candidate Let_def split: prod.split)

lemma demo_reachable: "cluster_reachable demo_ids demo_cfg demo_voted"
proof -
  let ?n1 = "[110, 49] :: cstr" and ?n2 = "[110, 50] :: cstr"
  let ?c1 = "drive_node ?n1 (snd (raft_tick 1000 0 (cl_node demo_start ?n1))) demo_start"
  let ?c2 = "open_round ?n1 ?c1" and ?c3 = "deliver_vote_request 1001 demo_request ?n2 (open_round ?n1 ?c1)"
  have ids: "?n1 \<in> demo_ids" "?n2 \<in> demo_ids" by (simp_all add: demo_ids_def)
  have "cluster_reachable demo_ids demo_cfg demo_start"
    using demo_config demo_init by (rule cluster_reachable.init)
  moreover have "cluster_step demo_ids demo_start ?c1"
    using ids by (intro cluster_step.tick) (simp_all add: demo_start_def raft_start_def fresh_node_def word_gt_0)
  moreover have "cluster_step demo_ids ?c1 ?c2"
    using ids by (intro cluster_step.open_round) (simp_all add: demo_start_def)
  moreover have "cluster_step demo_ids ?c2 ?c3"
    using ids by (intro cluster_step.deliver)
      (simp_all add: open_round_def demo_tick demo_candidate Let_def)
  moreover have "cl_round ?c3 ?n1 = Some (demo_request, {})"
    using demo_grant by (auto simp: deliver_vote_request_def open_round_def demo_tick demo_candidate Let_def
        split: prod.split)
  then have "cluster_step demo_ids ?c3 demo_voted"
    unfolding demo_voted_def using ids demo_voted_state(3) by (intro cluster_step.collect)
  ultimately show ?thesis by (blast intro: cluster_reachable.step)
qed

lemma demo_leader:
  "cluster_reachable demo_ids demo_cfg (close_round 1002 [110, 49] demo_voted)"
  "raft_is_leader (cl_node (close_round 1002 [110, 49] demo_voted) [110, 49])"
  "n_current_term (cl_node (close_round 1002 [110, 49] demo_voted) [110, 49]) = 1"
proof -
  let ?n = "transition_to_candidate 1000 0 (cl_node demo_start [110, 49])"
  have "majority ?n = 2"
    by (simp add: majority_def peer_count_def demo_start_def raft_start_def fresh_node_def demo_cfg_def)
  then have "raft_process_election_result 1002 ?n 2 = transition_to_leader 1002 ?n"
    by (simp add: raft_process_election_result_def)
  then have n: "cl_node (close_round 1002 [110, 49] demo_voted) [110, 49] = transition_to_leader 1002 ?n"
    by (simp add: close_round_def demo_voted_state)
  show "raft_is_leader (cl_node (close_round 1002 [110, 49] demo_voted) [110, 49])"
    "n_current_term (cl_node (close_round 1002 [110, 49] demo_voted) [110, 49]) = 1"
    by (simp_all add: n raft_is_leader_def demo_start_def raft_start_def fresh_node_def)
  have "cluster_step demo_ids demo_voted (close_round 1002 [110, 49] demo_voted)"
    by (intro cluster_step.close_round) (simp add: demo_ids_def)
  with demo_reachable show "cluster_reachable demo_ids demo_cfg (close_round 1002 [110, 49] demo_voted)"
    by (rule cluster_reachable.step)
qed

section \<open>Properties\<close>

text \<open>
  C1. Election safety: in every reachable state of a cluster, two nodes that are both leader in the
  same term are the same node, however requests and answers are delayed, repeated or lost, whatever
  AppendEntries requests arrive, and across restarts of nodes whose stored term and vote are current.
\<close>

theorem election_safety:
  assumes "cluster_reachable ids cfg c" and "i \<in> ids" and "j \<in> ids"
    and "raft_is_leader (cl_node c i)" and "raft_is_leader (cl_node c j)"
    and "n_current_term (cl_node c i) = n_current_term (cl_node c j)"
  shows "i = j"
proof -
  have inv: "cluster_inv ids c" using assms(1) by (rule reachable_inv)
  have "(n_current_term (cl_node c i), i) \<in> cl_leaders c" "(n_current_term (cl_node c j), j) \<in> cl_leaders c"
    using inv assms(2-5) unfolding cluster_inv_def inv_leaders_def raft_is_leader_def by blast+
  with leaders_unique [OF inv] assms(6) show ?thesis by simp
qed

theorem election_safety_witness:
  "\<exists>c. cluster_reachable demo_ids demo_cfg c
     \<and> {j \<in> demo_ids. raft_is_leader (cl_node c j) \<and> n_current_term (cl_node c j) = 1} = {[110, 49]}"
proof -
  let ?c = "close_round 1002 [110, 49] demo_voted"
  have "[110, 49] \<in> demo_ids" by (simp add: demo_ids_def)
  then have "{j \<in> demo_ids. raft_is_leader (cl_node ?c j) \<and> n_current_term (cl_node ?c j) = 1} = {[110, 49]}"
    using demo_leader election_safety [OF demo_leader(1)] by auto
  with demo_leader(1) show ?thesis by blast
qed

end
