(* ===== verification/RaftMessages.thy ===== *)
theory RaftMessages
  imports MessageCodec
begin

unbundle bit_operations_syntax

text \<open>
  The Raft messages of \<^verbatim>\<open>libs/distric_protocol/src/messages.c\<close>: vote requests and responses,
  AppendEntries with its nested log entries, snapshots, and configuration changes. Each message
  is a record, its serialiser the sequence of encoder calls of the source, its deserialiser the
  switch over field tags. Each interprets the locale \<open>tlv_message\<close>.
\<close>

section \<open>RequestVote\<close>

record raft_request_vote =
  rv_term :: u32
  rv_candidate_id :: cstr
  rv_last_log_index :: u32
  rv_last_log_term :: u32

definition RV_REQUIRED :: u32 where
  "RV_REQUIRED = 1 OR 2 OR 4 OR 8"

definition serialize_raft_request_vote :: "raft_request_vote \<Rightarrow> bytes result" where
  "serialize_raft_request_vote msg =
     (let enc = tlv_encoder_create 256;
          enc = put_uint32 FIELD_TERM (rv_term msg) enc;
          enc = put_string FIELD_CANDIDATE_ID (rv_candidate_id msg) enc;
          enc = put_uint32 FIELD_LAST_LOG_INDEX (rv_last_log_index msg) enc;
          enc = put_uint32 FIELD_LAST_LOG_TERM (rv_last_log_term msg) enc
      in finish_encoder enc)"

definition rv_zero :: raft_request_vote where
  "rv_zero = \<lparr>rv_term = 0, rv_candidate_id = [],
     rv_last_log_index = 0, rv_last_log_term = 0\<rparr>"

fun rv_step :: "raft_request_vote \<times> u32 \<Rightarrow> tlv_field \<Rightarrow> raft_request_vote \<times> u32" where
  "rv_step (msg, seen) f =
     (if f_tag f = FIELD_TERM then
        (msg\<lparr>rv_term := tlv_field_get_uint32 f\<rparr>, seen OR 1)
      else if f_tag f = FIELD_CANDIDATE_ID then
        (msg\<lparr>rv_candidate_id := get_cstr 63 f (rv_candidate_id msg)\<rparr>, seen OR 2)
      else if f_tag f = FIELD_LAST_LOG_INDEX then
        (msg\<lparr>rv_last_log_index := tlv_field_get_uint32 f\<rparr>, seen OR 4)
      else if f_tag f = FIELD_LAST_LOG_TERM then
        (msg\<lparr>rv_last_log_term := tlv_field_get_uint32 f\<rparr>, seen OR 8)
      else (msg, seen))"

definition deserialize_raft_request_vote :: "bytes \<Rightarrow> raft_request_vote result" where
  "deserialize_raft_request_vote = decode_message (\<lambda>_. rv_step) rv_zero RV_REQUIRED"

definition rv_wf :: "raft_request_vote \<Rightarrow> bool" where
  "rv_wf m \<longleftrightarrow> wf_cstr 64 (rv_candidate_id m)"

definition rv_fields :: "raft_request_vote \<Rightarrow> raw_field list" where
  "rv_fields m =
     [(TLV_UINT32, FIELD_TERM, be_bytes 4 (rv_term m)),
      fstring FIELD_CANDIDATE_ID (rv_candidate_id m),
      (TLV_UINT32, FIELD_LAST_LOG_INDEX, be_bytes 4 (rv_last_log_index m)),
      (TLV_UINT32, FIELD_LAST_LOG_TERM, be_bytes 4 (rv_last_log_term m))]"

lemmas rv_defs = rv_wf_def rv_fields_def rv_zero_def RV_REQUIRED_def serialize_raft_request_vote_def

interpretation rv: tlv_message rv_wf rv_fields serialize_raft_request_vote "\<lambda>_. rv_step" rv_zero RV_REQUIRED
  by unfold_locales (auto simp: rv_defs Let_def)

section \<open>RequestVote response\<close>

record raft_request_vote_response =
  rvr_term :: u32
  rvr_vote_granted :: bool
  rvr_node_id :: cstr

definition RVR_REQUIRED :: u32 where
  "RVR_REQUIRED = 1 OR 2 OR 4"

definition serialize_raft_request_vote_response :: "raft_request_vote_response \<Rightarrow> bytes result" where
  "serialize_raft_request_vote_response msg =
     (let enc = tlv_encoder_create 128;
          enc = put_uint32 FIELD_TERM (rvr_term msg) enc;
          enc = put_bool FIELD_VOTE_GRANTED (rvr_vote_granted msg) enc;
          enc = put_string FIELD_NODE_ID (rvr_node_id msg) enc
      in finish_encoder enc)"

definition rvr_zero :: raft_request_vote_response where
  "rvr_zero = \<lparr>rvr_term = 0, rvr_vote_granted = False, rvr_node_id = []\<rparr>"

fun rvr_step :: "raft_request_vote_response \<times> u32 \<Rightarrow> tlv_field \<Rightarrow> raft_request_vote_response \<times> u32" where
  "rvr_step (msg, seen) f =
     (if f_tag f = FIELD_TERM then
        (msg\<lparr>rvr_term := tlv_field_get_uint32 f\<rparr>, seen OR 1)
      else if f_tag f = FIELD_VOTE_GRANTED then
        (msg\<lparr>rvr_vote_granted := tlv_field_get_bool f\<rparr>, seen OR 2)
      else if f_tag f = FIELD_NODE_ID then
        (msg\<lparr>rvr_node_id := get_cstr 63 f (rvr_node_id msg)\<rparr>, seen OR 4)
      else (msg, seen))"

definition deserialize_raft_request_vote_response :: "bytes \<Rightarrow> raft_request_vote_response result" where
  "deserialize_raft_request_vote_response = decode_message (\<lambda>_. rvr_step) rvr_zero RVR_REQUIRED"

definition rvr_wf :: "raft_request_vote_response \<Rightarrow> bool" where
  "rvr_wf m \<longleftrightarrow> wf_cstr 64 (rvr_node_id m)"

definition rvr_fields :: "raft_request_vote_response \<Rightarrow> raw_field list" where
  "rvr_fields m =
     [(TLV_UINT32, FIELD_TERM, be_bytes 4 (rvr_term m)),
      (TLV_BOOL, FIELD_VOTE_GRANTED, [if (rvr_vote_granted m) then 1 else 0]),
      fstring FIELD_NODE_ID (rvr_node_id m)]"

lemmas rvr_defs = rvr_wf_def rvr_fields_def rvr_zero_def RVR_REQUIRED_def serialize_raft_request_vote_response_def

interpretation rvr: tlv_message rvr_wf rvr_fields serialize_raft_request_vote_response "\<lambda>_. rvr_step" rvr_zero RVR_REQUIRED
  by unfold_locales (auto simp: rvr_defs Let_def)

section \<open>AppendEntries\<close>

text \<open>A log entry on the wire; a NULL \<^verbatim>\<open>data\<close> pointer is \<open>None\<close>.\<close>

record raft_log_entry_wire =
  we_term :: u32
  we_index :: u32
  we_entry_type :: u8
  we_data :: "bytes option"

record raft_append_entries =
  ae_term :: u32
  ae_leader_id :: cstr
  ae_prev_log_index :: u32
  ae_prev_log_term :: u32
  ae_entries :: "raft_log_entry_wire list"
  ae_leader_commit :: u32

definition AE_REQUIRED :: u32 where
  "AE_REQUIRED = 1 OR 2 OR 4 OR 8 OR 16"

text \<open>The nested encoder run for one entry.\<close>

definition encode_entry :: "raft_log_entry_wire \<Rightarrow> bytes" where
  "encode_entry e =
     (let enc = tlv_encoder_create 128;
          enc = put_uint32 FIELD_ENTRY_INDEX (we_index e) enc;
          enc = put_uint32 FIELD_ENTRY_TERM (we_term e) enc;
          enc = put_uint8 FIELD_ENTRY_TYPE (we_entry_type e) enc;
          enc = put_opt_bytes FIELD_ENTRY_DATA (we_data e) enc
      in fst (tlv_encoder_detach enc))"

definition serialize_raft_append_entries :: "raft_append_entries \<Rightarrow> bytes result" where
  "serialize_raft_append_entries msg =
     (let enc = tlv_encoder_create 512;
          enc = put_uint32 FIELD_TERM (ae_term msg) enc;
          enc = put_string FIELD_LEADER_ID (ae_leader_id msg) enc;
          enc = put_uint32 FIELD_PREV_LOG_INDEX (ae_prev_log_index msg) enc;
          enc = put_uint32 FIELD_PREV_LOG_TERM (ae_prev_log_term msg) enc;
          enc = put_uint32 FIELD_LEADER_COMMIT (ae_leader_commit msg) enc;
          enc = foldl (\<lambda>enc e. put_bytes FIELD_ENTRIES (encode_entry e) enc) enc (ae_entries msg)
      in finish_encoder enc)"

definition ae_zero :: raft_append_entries where
  "ae_zero = \<lparr>ae_term = 0, ae_leader_id = [], ae_prev_log_index = 0, ae_prev_log_term = 0,
     ae_entries = [], ae_leader_commit = 0\<rparr>"

definition we_zero :: raft_log_entry_wire where
  "we_zero = \<lparr>we_term = 0, we_index = 0, we_entry_type = 0, we_data = None\<rparr>"

definition we_step :: "raft_log_entry_wire \<Rightarrow> tlv_field \<Rightarrow> raft_log_entry_wire" where
  "we_step e nf =
     (if f_tag nf = FIELD_ENTRY_INDEX then e\<lparr>we_index := tlv_field_get_uint32 nf\<rparr>
      else if f_tag nf = FIELD_ENTRY_TERM then e\<lparr>we_term := tlv_field_get_uint32 nf\<rparr>
      else if f_tag nf = FIELD_ENTRY_TYPE then e\<lparr>we_entry_type := tlv_field_get_uint8 nf\<rparr>
      else if f_tag nf = FIELD_ENTRY_DATA then e\<lparr>we_data := get_blob nf (we_data e)\<rparr>
      else e)"

text \<open>
  The second pass. \<^verbatim>\<open>entry_idx\<close> is the number of entries stored so far; the first pass counted
  the entry fields.
\<close>

fun ae_step ::
  "tlv_field list \<Rightarrow> raft_append_entries \<times> u32 \<Rightarrow> tlv_field \<Rightarrow> raft_append_entries \<times> u32" where
  "ae_step first (msg, seen) f =
     (if f_tag f = FIELD_TERM then
        (msg\<lparr>ae_term := tlv_field_get_uint32 f\<rparr>, seen OR 1)
      else if f_tag f = FIELD_LEADER_ID then
        (msg\<lparr>ae_leader_id := get_cstr 63 f (ae_leader_id msg)\<rparr>, seen OR 2)
      else if f_tag f = FIELD_PREV_LOG_INDEX then
        (msg\<lparr>ae_prev_log_index := tlv_field_get_uint32 f\<rparr>, seen OR 4)
      else if f_tag f = FIELD_PREV_LOG_TERM then
        (msg\<lparr>ae_prev_log_term := tlv_field_get_uint32 f\<rparr>, seen OR 8)
      else if f_tag f = FIELD_LEADER_COMMIT then
        (msg\<lparr>ae_leader_commit := tlv_field_get_uint32 f\<rparr>, seen OR 16)
      else if f_tag f = FIELD_ENTRIES then
        (if length (ae_entries msg) \<ge> count_tag FIELD_ENTRIES first then (msg, seen)
         else (msg\<lparr>ae_entries := ae_entries msg @ [decode_nested we_step we_zero f]\<rparr>, seen))
      else (msg, seen))"

definition deserialize_raft_append_entries :: "bytes \<Rightarrow> raft_append_entries result" where
  "deserialize_raft_append_entries = decode_message ae_step ae_zero AE_REQUIRED"

text \<open>An entry's encoding takes 37 bytes beside its data and has to fit the string limit.\<close>

definition we_wf :: "raft_log_entry_wire \<Rightarrow> bool" where
  "we_wf e \<longleftrightarrow>
     (case we_data e of None \<Rightarrow> True | Some d \<Rightarrow> d \<noteq> [] \<and> length d + 37 \<le> default_string_limit)"

definition ae_wf :: "raft_append_entries \<Rightarrow> bool" where
  "ae_wf m \<longleftrightarrow> wf_cstr 64 (ae_leader_id m) \<and> length (ae_entries m) \<le> 507
     \<and> (\<forall>e\<in>set (ae_entries m). we_wf e)"

definition we_fields :: "raft_log_entry_wire \<Rightarrow> raw_field list" where
  "we_fields e =
     [(TLV_UINT32, FIELD_ENTRY_INDEX, be_bytes 4 (we_index e)),
      (TLV_UINT32, FIELD_ENTRY_TERM, be_bytes 4 (we_term e)),
      (TLV_UINT8, FIELD_ENTRY_TYPE, [we_entry_type e])]
     @ opt_field (\<lambda>v. (TLV_BYTES, FIELD_ENTRY_DATA, v)) (we_data e)"

definition entry_field :: "raft_log_entry_wire \<Rightarrow> raw_field" where
  "entry_field e = (TLV_BYTES, FIELD_ENTRIES, encodes (we_fields e))"

definition ae_fields :: "raft_append_entries \<Rightarrow> raw_field list" where
  "ae_fields m =
     [(TLV_UINT32, FIELD_TERM, be_bytes 4 (ae_term m)),
      fstring FIELD_LEADER_ID (ae_leader_id m),
      (TLV_UINT32, FIELD_PREV_LOG_INDEX, be_bytes 4 (ae_prev_log_index m)),
      (TLV_UINT32, FIELD_PREV_LOG_TERM, be_bytes 4 (ae_prev_log_term m)),
      (TLV_UINT32, FIELD_LEADER_COMMIT, be_bytes 4 (ae_leader_commit m))]
     @ map entry_field (ae_entries m)"

lemma length_we_fields: "we_wf e \<Longrightarrow> length (encodes (we_fields e)) \<le> default_string_limit"
  by (auto simp: we_fields_def we_wf_def opt_field_def TLV_HEADER_SIZE_def default_string_limit_def
      split: option.splits)

lemma encode_entry_fields: "we_wf e \<Longrightarrow> encode_entry e = encodes (we_fields e)"
  by (auto simp: encode_entry_def we_fields_def we_wf_def Let_def opt_field_def put_opt_bytes_def
      tlv_encoder_detach_def split: option.splits)

lemma we_fields_fit: "we_wf e \<Longrightarrow> \<forall>f\<in>set (we_fields e). field_fits default_string_limit f"
  by (auto simp: we_fields_def we_wf_def opt_field_def field_fits_bytes split: option.splits)

lemma decode_entry:
  assumes "we_wf e"
  shows "decode_nested we_step we_zero
    \<lparr>f_type = ty, f_tag = t, f_length = of_nat (length (encodes (we_fields e))),
     f_value = encodes (we_fields e) @ r\<rparr> = e"
proof -
  have "foldl we_step we_zero (views (we_fields e) r) = e"
    using assms
    by (cases e) (auto simp: we_fields_def we_wf_def we_step_def we_zero_def opt_field_def
        split: option.splits)
  moreover have "we_fields e \<noteq> []" "length (we_fields e) \<le> 512"
    by (auto simp: we_fields_def opt_field_def split: option.splits)
  ultimately show ?thesis
    using we_fields_fit [OF assms] length_we_fields [OF assms] by (subst decode_nested_encodes) simp_all
qed

lemma foldl_put_entries:
  "\<forall>e\<in>set es. we_wf e \<Longrightarrow>
     enc_buffer (foldl (\<lambda>enc e. put_bytes FIELD_ENTRIES (encode_entry e) enc) enc es)
       = enc_buffer enc @ encodes (map entry_field es)"
  by (induction es arbitrary: enc)
    (simp_all add: encode_entry_fields length_we_fields entry_field_def)

lemma foldl_ae_entries:
  "\<forall>e\<in>set es. we_wf e \<Longrightarrow> length (ae_entries m) + length es \<le> count_tag FIELD_ENTRIES first \<Longrightarrow>
     foldl (ae_step first) (m, seen) (views (map entry_field es) rest)
       = (m\<lparr>ae_entries := ae_entries m @ es\<rparr>, seen)"
  by (induction es arbitrary: m) (simp_all add: entry_field_def decode_entry)

lemma count_entry_fields: "count_tag FIELD_ENTRIES (views (ae_fields m) rest) = length (ae_entries m)"
  unfolding count_tag_views
  by (simp add: ae_fields_def fstring_def entry_field_def filter_map comp_def)

lemmas ae_defs = ae_wf_def ae_fields_def ae_zero_def AE_REQUIRED_def
  serialize_raft_append_entries_def

interpretation ae: tlv_message ae_wf ae_fields serialize_raft_append_entries ae_step ae_zero
  AE_REQUIRED
proof
  fix m f
  assume wf: "ae_wf m"
  then show "serialize_raft_append_entries m = Inr (encodes (ae_fields m))"
    by (auto simp: ae_defs Let_def foldl_put_entries)
  show "ae_fields m \<noteq> []" "length (ae_fields m) \<le> 512"
    using wf by (simp_all add: ae_defs)
  show "f \<in> set (ae_fields m) \<Longrightarrow> field_fits default_string_limit f"
    using wf by (auto simp: ae_defs entry_field_def length_we_fields field_fits_bytes)
  have "length (ae_entries m) \<le> count_tag FIELD_ENTRIES (views (ae_fields m) [])"
    by (simp add: count_entry_fields)
  then show "\<exists>seen. foldl (ae_step (views (ae_fields m) [])) (ae_zero, 0) (views (ae_fields m) [])
      = (m, seen) \<and> seen AND AE_REQUIRED = AE_REQUIRED"
    using wf
    by (subst (2) ae_fields_def) (auto simp: ae_wf_def ae_zero_def AE_REQUIRED_def foldl_ae_entries)
qed

section \<open>AppendEntries response\<close>

record raft_append_entries_response =
  aer_term :: u32
  aer_success :: bool
  aer_node_id :: cstr
  aer_match_index :: u32

definition AER_REQUIRED :: u32 where
  "AER_REQUIRED = 1 OR 2 OR 4"

definition serialize_raft_append_entries_response :: "raft_append_entries_response \<Rightarrow> bytes result" where
  "serialize_raft_append_entries_response msg =
     (let enc = tlv_encoder_create 128;
          enc = put_uint32 FIELD_TERM (aer_term msg) enc;
          enc = put_bool FIELD_SUCCESS (aer_success msg) enc;
          enc = put_string FIELD_NODE_ID (aer_node_id msg) enc;
          enc = put_uint32 FIELD_MATCH_INDEX (aer_match_index msg) enc
      in finish_encoder enc)"

definition aer_zero :: raft_append_entries_response where
  "aer_zero = \<lparr>aer_term = 0, aer_success = False,
     aer_node_id = [], aer_match_index = 0\<rparr>"

fun aer_step :: "raft_append_entries_response \<times> u32 \<Rightarrow> tlv_field \<Rightarrow> raft_append_entries_response \<times> u32" where
  "aer_step (msg, seen) f =
     (if f_tag f = FIELD_TERM then
        (msg\<lparr>aer_term := tlv_field_get_uint32 f\<rparr>, seen OR 1)
      else if f_tag f = FIELD_SUCCESS then
        (msg\<lparr>aer_success := tlv_field_get_bool f\<rparr>, seen OR 2)
      else if f_tag f = FIELD_NODE_ID then
        (msg\<lparr>aer_node_id := get_cstr 63 f (aer_node_id msg)\<rparr>, seen OR 4)
      else if f_tag f = FIELD_MATCH_INDEX then
        (msg\<lparr>aer_match_index := tlv_field_get_uint32 f\<rparr>, seen)
      else (msg, seen))"

definition deserialize_raft_append_entries_response :: "bytes \<Rightarrow> raft_append_entries_response result" where
  "deserialize_raft_append_entries_response = decode_message (\<lambda>_. aer_step) aer_zero AER_REQUIRED"

definition aer_wf :: "raft_append_entries_response \<Rightarrow> bool" where
  "aer_wf m \<longleftrightarrow> wf_cstr 64 (aer_node_id m)"

definition aer_fields :: "raft_append_entries_response \<Rightarrow> raw_field list" where
  "aer_fields m =
     [(TLV_UINT32, FIELD_TERM, be_bytes 4 (aer_term m)),
      (TLV_BOOL, FIELD_SUCCESS, [if (aer_success m) then 1 else 0]),
      fstring FIELD_NODE_ID (aer_node_id m),
      (TLV_UINT32, FIELD_MATCH_INDEX, be_bytes 4 (aer_match_index m))]"

lemmas aer_defs = aer_wf_def aer_fields_def aer_zero_def AER_REQUIRED_def serialize_raft_append_entries_response_def

interpretation aer: tlv_message aer_wf aer_fields serialize_raft_append_entries_response "\<lambda>_. aer_step" aer_zero AER_REQUIRED
  by unfold_locales (auto simp: aer_defs Let_def)

section \<open>InstallSnapshot\<close>

record raft_install_snapshot =
  ins_term :: u32
  ins_leader_id :: cstr
  ins_last_included_index :: u32
  ins_last_included_term :: u32
  ins_data :: "bytes option"

definition INS_REQUIRED :: u32 where
  "INS_REQUIRED = 1 OR 2 OR 4 OR 8"

definition serialize_raft_install_snapshot :: "raft_install_snapshot \<Rightarrow> bytes result" where
  "serialize_raft_install_snapshot msg =
     (let enc = tlv_encoder_create 512;
          enc = put_uint32 FIELD_TERM (ins_term msg) enc;
          enc = put_string FIELD_LEADER_ID (ins_leader_id msg) enc;
          enc = put_uint32 FIELD_SNAPSHOT_INDEX (ins_last_included_index msg) enc;
          enc = put_uint32 FIELD_SNAPSHOT_TERM (ins_last_included_term msg) enc;
          enc = put_opt_bytes FIELD_SNAPSHOT_DATA (ins_data msg) enc
      in finish_encoder enc)"

definition ins_zero :: raft_install_snapshot where
  "ins_zero = \<lparr>ins_term = 0, ins_leader_id = [], ins_last_included_index = 0,
     ins_last_included_term = 0, ins_data = None\<rparr>"

fun ins_step :: "raft_install_snapshot \<times> u32 \<Rightarrow> tlv_field \<Rightarrow> raft_install_snapshot \<times> u32" where
  "ins_step (msg, seen) f =
     (if f_tag f = FIELD_TERM then
        (msg\<lparr>ins_term := tlv_field_get_uint32 f\<rparr>, seen OR 1)
      else if f_tag f = FIELD_LEADER_ID then
        (msg\<lparr>ins_leader_id := get_cstr 63 f (ins_leader_id msg)\<rparr>, seen OR 2)
      else if f_tag f = FIELD_SNAPSHOT_INDEX then
        (msg\<lparr>ins_last_included_index := tlv_field_get_uint32 f\<rparr>, seen OR 4)
      else if f_tag f = FIELD_SNAPSHOT_TERM then
        (msg\<lparr>ins_last_included_term := tlv_field_get_uint32 f\<rparr>, seen OR 8)
      else if f_tag f = FIELD_SNAPSHOT_DATA then
        (msg\<lparr>ins_data := get_blob f (ins_data msg)\<rparr>, seen)
      else (msg, seen))"

definition deserialize_raft_install_snapshot :: "bytes \<Rightarrow> raft_install_snapshot result" where
  "deserialize_raft_install_snapshot = decode_message (\<lambda>_. ins_step) ins_zero INS_REQUIRED"

definition ins_wf :: "raft_install_snapshot \<Rightarrow> bool" where
  "ins_wf m \<longleftrightarrow> wf_cstr 64 (ins_leader_id m)
     \<and> wf_opt_bytes (ins_data m)"

definition ins_fields :: "raft_install_snapshot \<Rightarrow> raw_field list" where
  "ins_fields m =
     [(TLV_UINT32, FIELD_TERM, be_bytes 4 (ins_term m)),
      fstring FIELD_LEADER_ID (ins_leader_id m),
      (TLV_UINT32, FIELD_SNAPSHOT_INDEX, be_bytes 4 (ins_last_included_index m)),
      (TLV_UINT32, FIELD_SNAPSHOT_TERM, be_bytes 4 (ins_last_included_term m))]
     @ opt_field (\<lambda>v. (TLV_BYTES, FIELD_SNAPSHOT_DATA, v)) (ins_data m)"

lemmas ins_defs = ins_wf_def ins_fields_def ins_zero_def INS_REQUIRED_def serialize_raft_install_snapshot_def

interpretation ins: tlv_message ins_wf ins_fields serialize_raft_install_snapshot "\<lambda>_. ins_step" ins_zero INS_REQUIRED
  by unfold_locales (auto simp: ins_defs Let_def opt_field_simps split: option.splits)

section \<open>InstallSnapshot response\<close>

record raft_install_snapshot_response =
  isr_term :: u32
  isr_node_id :: cstr
  isr_success :: bool

definition ISR_REQUIRED :: u32 where
  "ISR_REQUIRED = 1 OR 2 OR 4"

definition serialize_raft_install_snapshot_response :: "raft_install_snapshot_response \<Rightarrow> bytes result" where
  "serialize_raft_install_snapshot_response msg =
     (let enc = tlv_encoder_create 128;
          enc = put_uint32 FIELD_TERM (isr_term msg) enc;
          enc = put_string FIELD_NODE_ID (isr_node_id msg) enc;
          enc = put_bool FIELD_SUCCESS (isr_success msg) enc
      in finish_encoder enc)"

definition isr_zero :: raft_install_snapshot_response where
  "isr_zero = \<lparr>isr_term = 0, isr_node_id = [], isr_success = False\<rparr>"

fun isr_step :: "raft_install_snapshot_response \<times> u32 \<Rightarrow> tlv_field \<Rightarrow> raft_install_snapshot_response \<times> u32" where
  "isr_step (msg, seen) f =
     (if f_tag f = FIELD_TERM then
        (msg\<lparr>isr_term := tlv_field_get_uint32 f\<rparr>, seen OR 1)
      else if f_tag f = FIELD_NODE_ID then
        (msg\<lparr>isr_node_id := get_cstr 63 f (isr_node_id msg)\<rparr>, seen OR 2)
      else if f_tag f = FIELD_SUCCESS then
        (msg\<lparr>isr_success := tlv_field_get_bool f\<rparr>, seen OR 4)
      else (msg, seen))"

definition deserialize_raft_install_snapshot_response :: "bytes \<Rightarrow> raft_install_snapshot_response result" where
  "deserialize_raft_install_snapshot_response = decode_message (\<lambda>_. isr_step) isr_zero ISR_REQUIRED"

definition isr_wf :: "raft_install_snapshot_response \<Rightarrow> bool" where
  "isr_wf m \<longleftrightarrow> wf_cstr 64 (isr_node_id m)"

definition isr_fields :: "raft_install_snapshot_response \<Rightarrow> raw_field list" where
  "isr_fields m =
     [(TLV_UINT32, FIELD_TERM, be_bytes 4 (isr_term m)),
      fstring FIELD_NODE_ID (isr_node_id m),
      (TLV_BOOL, FIELD_SUCCESS, [if (isr_success m) then 1 else 0])]"

lemmas isr_defs = isr_wf_def isr_fields_def isr_zero_def ISR_REQUIRED_def serialize_raft_install_snapshot_response_def

interpretation isr: tlv_message isr_wf isr_fields serialize_raft_install_snapshot_response "\<lambda>_. isr_step" isr_zero ISR_REQUIRED
  by unfold_locales (auto simp: isr_defs Let_def)

section \<open>Configuration change\<close>

record raft_server_info =
  si_node_id :: cstr
  si_address :: cstr
  si_port :: u16
  si_role :: u32

record raft_configuration_change =
  cc_type :: u32
  cc_node_info :: raft_server_info
  cc_old_servers :: "raft_server_info list"
  cc_new_servers :: "raft_server_info list"

definition CC_REQUIRED :: u32 where
  "CC_REQUIRED = 1 OR 2"

definition encode_server_info :: "raft_server_info \<Rightarrow> tlv_encoder \<Rightarrow> tlv_encoder" where
  "encode_server_info s enc =
     (let enc = put_string FIELD_NODE_ID (si_node_id s) enc;
          enc = put_string FIELD_NODE_ADDRESS (si_address s) enc;
          enc = put_uint32 FIELD_NODE_PORT (ucast (si_port s)) enc;
          enc = put_uint32 FIELD_NODE_ROLE (si_role s) enc
      in enc)"

text \<open>One iteration of the loops over \<^verbatim>\<open>old_servers\<close> and \<^verbatim>\<open>new_servers\<close>.\<close>

definition put_server :: "u16 \<Rightarrow> tlv_encoder \<Rightarrow> raft_server_info \<Rightarrow> tlv_encoder" where
  "put_server tag enc s =
     put_bytes tag (fst (tlv_encoder_detach (encode_server_info s (tlv_encoder_create 256)))) enc"

definition serialize_raft_configuration_change :: "raft_configuration_change \<Rightarrow> bytes result" where
  "serialize_raft_configuration_change msg =
     (let enc = tlv_encoder_create 512;
          enc = put_uint32 FIELD_CONFIG_CHANGE_TYPE (cc_type msg) enc;
          enc = encode_server_info (cc_node_info msg) enc;
          enc = foldl (put_server FIELD_OLD_SERVERS) enc (cc_old_servers msg);
          enc = foldl (put_server FIELD_NEW_SERVERS) enc (cc_new_servers msg)
      in finish_encoder enc)"

definition si_zero :: raft_server_info where
  "si_zero = \<lparr>si_node_id = [], si_address = [], si_port = 0, si_role = 0\<rparr>"

definition cc_zero :: raft_configuration_change where
  "cc_zero = \<lparr>cc_type = 0, cc_node_info = si_zero, cc_old_servers = [], cc_new_servers = []\<rparr>"

definition si_step :: "raft_server_info \<Rightarrow> tlv_field \<Rightarrow> raft_server_info" where
  "si_step s nf =
     (if f_tag nf = FIELD_NODE_ID then s\<lparr>si_node_id := get_cstr 63 nf (si_node_id s)\<rparr>
      else if f_tag nf = FIELD_NODE_ADDRESS then s\<lparr>si_address := get_cstr 255 nf (si_address s)\<rparr>
      else if f_tag nf = FIELD_NODE_PORT then s\<lparr>si_port := ucast (tlv_field_get_uint32 nf)\<rparr>
      else if f_tag nf = FIELD_NODE_ROLE then s\<lparr>si_role := tlv_field_get_uint32 nf\<rparr>
      else s)"

text \<open>\<^verbatim>\<open>decode_server_info\<close> into a zeroed slot.\<close>

definition decode_server_info :: "tlv_field \<Rightarrow> raft_server_info" where
  "decode_server_info f = decode_nested si_step si_zero f"

fun cc_step :: "tlv_field list \<Rightarrow> raft_configuration_change \<times> u32 \<Rightarrow> tlv_field
    \<Rightarrow> raft_configuration_change \<times> u32" where
  "cc_step first (msg, seen) f =
     (if f_tag f = FIELD_CONFIG_CHANGE_TYPE then
        (msg\<lparr>cc_type := tlv_field_get_uint32 f\<rparr>, seen OR 1)
      else if f_tag f = FIELD_NODE_ID then
        (msg\<lparr>cc_node_info := si_step (cc_node_info msg) f\<rparr>, seen OR 2)
      else if f_tag f = FIELD_NODE_ADDRESS \<or> f_tag f = FIELD_NODE_PORT \<or> f_tag f = FIELD_NODE_ROLE then
        (msg\<lparr>cc_node_info := si_step (cc_node_info msg) f\<rparr>, seen)
      else if f_tag f = FIELD_OLD_SERVERS then
        (if length (cc_old_servers msg) < count_tag FIELD_OLD_SERVERS first
         then (msg\<lparr>cc_old_servers := cc_old_servers msg @ [decode_server_info f]\<rparr>, seen)
         else (msg, seen))
      else if f_tag f = FIELD_NEW_SERVERS then
        (if length (cc_new_servers msg) < count_tag FIELD_NEW_SERVERS first
         then (msg\<lparr>cc_new_servers := cc_new_servers msg @ [decode_server_info f]\<rparr>, seen)
         else (msg, seen))
      else (msg, seen))"

definition deserialize_raft_configuration_change :: "bytes \<Rightarrow> raft_configuration_change result" where
  "deserialize_raft_configuration_change = decode_message cc_step cc_zero CC_REQUIRED"

definition si_wf :: "raft_server_info \<Rightarrow> bool" where
  "si_wf s \<longleftrightarrow> wf_cstr 64 (si_node_id s) \<and> wf_cstr 256 (si_address s)"

definition cc_wf :: "raft_configuration_change \<Rightarrow> bool" where
  "cc_wf m \<longleftrightarrow> si_wf (cc_node_info m) \<and> (\<forall>s\<in>set (cc_old_servers m). si_wf s)
     \<and> (\<forall>s\<in>set (cc_new_servers m). si_wf s)
     \<and> length (cc_old_servers m) + length (cc_new_servers m) \<le> 507"

definition si_fields :: "raft_server_info \<Rightarrow> raw_field list" where
  "si_fields s =
     [fstring FIELD_NODE_ID (si_node_id s), fstring FIELD_NODE_ADDRESS (si_address s),
      (TLV_UINT32, FIELD_NODE_PORT, be_bytes 4 (ucast (si_port s) :: u32)),
      (TLV_UINT32, FIELD_NODE_ROLE, be_bytes 4 (si_role s))]"

definition server_field :: "u16 \<Rightarrow> raft_server_info \<Rightarrow> raw_field" where
  "server_field tag s = (TLV_BYTES, tag, encodes (si_fields s))"

definition cc_fields :: "raft_configuration_change \<Rightarrow> raw_field list" where
  "cc_fields m =
     (TLV_UINT32, FIELD_CONFIG_CHANGE_TYPE, be_bytes 4 (cc_type m)) # si_fields (cc_node_info m)
     @ map (server_field FIELD_OLD_SERVERS) (cc_old_servers m)
     @ map (server_field FIELD_NEW_SERVERS) (cc_new_servers m)"

lemma enc_buffer_server_info:
  "si_wf s \<Longrightarrow> enc_buffer (encode_server_info s enc) = enc_buffer enc @ encodes (si_fields s)"
  by (auto simp: encode_server_info_def si_fields_def si_wf_def Let_def)

lemma length_si_fields: "si_wf s \<Longrightarrow> length (encodes (si_fields s)) \<le> default_string_limit"
  by (simp add: si_fields_def si_wf_def wf_cstr_def fstring_def TLV_HEADER_SIZE_def
      default_string_limit_def)

lemma si_fields_fit: "si_wf s \<Longrightarrow> \<forall>f\<in>set (si_fields s). field_fits default_string_limit f"
  by (auto simp: si_fields_def si_wf_def)

lemma ucast_port [simp]: "ucast (ucast (p :: u16) :: u32) = p"
  by (rule bit_word_eqI) (simp add: bit_simps)

lemma foldl_si_step: "si_wf s \<Longrightarrow> foldl si_step si_zero (views (si_fields s) r) = s"
  by (cases s) (simp add: si_fields_def si_wf_def si_step_def si_zero_def)

lemma decode_server_field:
  assumes "si_wf s"
  shows "decode_server_info
    \<lparr>f_type = ty, f_tag = t, f_length = of_nat (length (encodes (si_fields s))),
     f_value = encodes (si_fields s) @ r\<rparr> = s"
proof -
  have "si_fields s \<noteq> []" "length (si_fields s) \<le> 512"
    by (simp_all add: si_fields_def)
  then show ?thesis
    using si_fields_fit [OF assms] length_si_fields [OF assms] foldl_si_step [OF assms]
    unfolding decode_server_info_def by (subst decode_nested_encodes) simp_all
qed

lemma foldl_put_servers:
  "\<forall>s\<in>set ss. si_wf s \<Longrightarrow>
     enc_buffer (foldl (put_server tag) enc ss) = enc_buffer enc @ encodes (map (server_field tag) ss)"
  by (induction ss arbitrary: enc)
    (simp_all add: put_server_def server_field_def tlv_encoder_detach_def enc_buffer_server_info
      length_si_fields)

lemma foldl_cc_old:
  "\<forall>s\<in>set ss. si_wf s \<Longrightarrow> length (cc_old_servers m) + length ss \<le> count_tag FIELD_OLD_SERVERS first \<Longrightarrow>
     foldl (cc_step first) (m, seen) (views (map (server_field FIELD_OLD_SERVERS) ss) rest)
       = (m\<lparr>cc_old_servers := cc_old_servers m @ ss\<rparr>, seen)"
  by (induction ss arbitrary: m) (simp_all add: server_field_def decode_server_field)

lemma foldl_cc_new:
  "\<forall>s\<in>set ss. si_wf s \<Longrightarrow> length (cc_new_servers m) + length ss \<le> count_tag FIELD_NEW_SERVERS first \<Longrightarrow>
     foldl (cc_step first) (m, seen) (views (map (server_field FIELD_NEW_SERVERS) ss) rest)
       = (m\<lparr>cc_new_servers := cc_new_servers m @ ss\<rparr>, seen)"
  by (induction ss arbitrary: m) (simp_all add: server_field_def decode_server_field)

lemma count_server_fields:
  "count_tag FIELD_OLD_SERVERS (views (cc_fields m) rest) = length (cc_old_servers m)"
  "count_tag FIELD_NEW_SERVERS (views (cc_fields m) rest) = length (cc_new_servers m)"
  unfolding count_tag_views
  by (simp_all add: cc_fields_def si_fields_def fstring_def server_field_def filter_map comp_def)

interpretation cc: tlv_message cc_wf cc_fields serialize_raft_configuration_change cc_step cc_zero
  CC_REQUIRED
proof
  fix m f
  assume wf: "cc_wf m"
  then show "serialize_raft_configuration_change m = Inr (encodes (cc_fields m))"
    by (auto simp: serialize_raft_configuration_change_def cc_fields_def cc_wf_def Let_def
        foldl_put_servers enc_buffer_server_info encodes_append)
  show "cc_fields m \<noteq> []" "length (cc_fields m) \<le> 512"
    using wf by (simp_all add: cc_wf_def cc_fields_def si_fields_def)
  show "f \<in> set (cc_fields m) \<Longrightarrow> field_fits default_string_limit f"
    using wf si_fields_fit [of "cc_node_info m"]
    by (auto simp: cc_wf_def cc_fields_def server_field_def length_si_fields field_fits_bytes)
  let ?first = "views (cc_fields m) []"
  have "foldl (cc_step ?first) (cc_zero\<lparr>cc_type := cc_type m\<rparr>, 1) (views (si_fields (cc_node_info m)) r)
      = (cc_zero\<lparr>cc_type := cc_type m, cc_node_info := cc_node_info m\<rparr>, 3)" for r
    using wf
    by (cases "cc_node_info m")
      (simp add: cc_wf_def si_wf_def si_fields_def si_step_def cc_zero_def si_zero_def)
  then show "\<exists>seen. foldl (cc_step ?first) (cc_zero, 0) ?first = (m, seen)
      \<and> seen AND CC_REQUIRED = CC_REQUIRED"
    using wf count_server_fields [of m "[]"]
    by (subst (2) cc_fields_def)
      (simp add: views_append cc_wf_def cc_zero_def CC_REQUIRED_def foldl_cc_old foldl_cc_new)
qed

section \<open>Names of entry types and configuration changes\<close>

definition raft_entry_type_to_string :: "u8 \<Rightarrow> string" where
  "raft_entry_type_to_string ty =
     (if ty = 0 then ''NORMAL'' else if ty = 1 then ''CONFIG'' else if ty = 2 then ''NOOP''
      else ''UNKNOWN'')"

definition config_change_type_to_string :: "u32 \<Rightarrow> string" where
  "config_change_type_to_string ty =
     (if ty = 0 then ''ADD_NODE'' else if ty = 1 then ''REMOVE_NODE'' else if ty = 2 then ''REPLACE''
      else ''UNKNOWN'')"

section \<open>Required fields and limits\<close>

text \<open>A bit of the \<^verbatim>\<open>seen\<close> mask is set only by a field with the corresponding tag.\<close>

definition rv_mask :: "u16 \<Rightarrow> u32" where
  "rv_mask tag =
     (if tag = FIELD_TERM then 1 else if tag = FIELD_CANDIDATE_ID then 2
      else if tag = FIELD_LAST_LOG_INDEX then 4 else if tag = FIELD_LAST_LOG_TERM then 8 else 0)"

lemma snd_rv_step: "snd (rv_step st f) = snd st OR rv_mask (f_tag f)"
  by (cases st) (simp add: rv_mask_def)

lemma rv_seen_mask:
  "bit (snd (foldl rv_step st fs)) n \<Longrightarrow> bit (snd st) n \<or> (\<exists>f\<in>set fs. bit (rv_mask (f_tag f)) n)"
proof (induction fs arbitrary: st)
  case Nil
  then show ?case by simp
next
  case (Cons f fs)
  then have "bit (snd (foldl rv_step (rv_step st f) fs)) n" by (simp only: foldl.simps)
  from Cons.IH [OF this] show ?case by (auto simp only: snd_rv_step bit_or_iff list.set)
qed

lemma rv_mask_bits:
  "bit (rv_mask tag) 0 \<Longrightarrow> tag = FIELD_TERM"
  "bit (rv_mask tag) 1 \<Longrightarrow> tag = FIELD_CANDIDATE_ID"
  "bit (rv_mask tag) 2 \<Longrightarrow> tag = FIELD_LAST_LOG_INDEX"
  "bit (rv_mask tag) 3 \<Longrightarrow> tag = FIELD_LAST_LOG_TERM"
  by (simp_all add: rv_mask_def split: if_splits)

lemma rv_seen_tags:
  assumes "foldl rv_step (m, 0) fs = (m', seen)"
  shows "bit seen 0 \<Longrightarrow> FIELD_TERM \<in> f_tag ` set fs"
    and "bit seen 1 \<Longrightarrow> FIELD_CANDIDATE_ID \<in> f_tag ` set fs"
    and "bit seen 2 \<Longrightarrow> FIELD_LAST_LOG_INDEX \<in> f_tag ` set fs"
    and "bit seen 3 \<Longrightarrow> FIELD_LAST_LOG_TERM \<in> f_tag ` set fs"
proof -
  have tag: "\<exists>f\<in>set fs. bit (rv_mask (f_tag f)) n" if "bit seen n" for n
    using rv_seen_mask [of "(m, 0)" fs n] assms that by simp
  show "bit seen 0 \<Longrightarrow> FIELD_TERM \<in> f_tag ` set fs" using tag rv_mask_bits(1) by (metis image_eqI)
  show "bit seen 1 \<Longrightarrow> FIELD_CANDIDATE_ID \<in> f_tag ` set fs" using tag rv_mask_bits(2) by (metis image_eqI)
  show "bit seen 2 \<Longrightarrow> FIELD_LAST_LOG_INDEX \<in> f_tag ` set fs" using tag rv_mask_bits(3) by (metis image_eqI)
  show "bit seen 3 \<Longrightarrow> FIELD_LAST_LOG_TERM \<in> f_tag ` set fs" using tag rv_mask_bits(4) by (metis image_eqI)
qed

lemma required_bits:
  "(seen :: u32) AND RV_REQUIRED = RV_REQUIRED \<Longrightarrow> bit seen 0 \<and> bit seen 1 \<and> bit seen 2 \<and> bit seen 3"
proof -
  assume "seen AND RV_REQUIRED = RV_REQUIRED"
  then have "bit RV_REQUIRED n \<Longrightarrow> bit seen n" for n by (metis bit_and_iff)
  moreover have "bit RV_REQUIRED 0" "bit RV_REQUIRED 1" "bit RV_REQUIRED 2" "bit RV_REQUIRED 3"
    by (simp_all add: RV_REQUIRED_def)
  ultimately show ?thesis by blast
qed

text \<open>A snapshot whose data exceed the decoder's string limit, without its last field.\<close>

lemma decode_all_oversized_tail:
  assumes "\<forall>f\<in>set fs. field_fits default_string_limit f" "fs \<noteq> []" "length fs < 512"
    and "default_string_limit < length v" "length v \<le> TLV_MAX_FIELD_SIZE"
    and "tlv_decoder_create (encodes (fs @ [(TLV_BYTES, tag, v)]))
           (length (encodes (fs @ [(TLV_BYTES, tag, v)]))) = Some dec"
  shows "tlv_decode_all dec = views fs (field_bytes (TLV_BYTES, tag, v))"
    and "tlv_decode_all (tlv_decoder_reset dec) = views fs (field_bytes (TLV_BYTES, tag, v))"
proof -
  let ?big = "(TLV_BYTES, tag, v)"
  have dec: "dec = \<lparr>dec_buffer = encodes fs @ field_bytes ?big,
      dec_length = length (encodes fs @ field_bytes ?big), dec_offset = 0, dec_max_fields = 512,
      dec_max_string_len = 0x100000, dec_fields_decoded = 0, dec_index = None\<rparr>"
    using assms(6) encodes_not_Nil [OF assms(2)] by (simp add: create_default encodes_append)
  show all: "tlv_decode_all dec = views fs (field_bytes ?big)"
  proof -
    let ?d = "dec\<lparr>dec_offset := length ([] @ encodes fs),
                  dec_fields_decoded := dec_fields_decoded dec + of_nat (length fs)\<rparr>"
    have "tlv_decode_all dec = views fs (field_bytes ?big) @ tlv_decode_all ?d"
      by (rule tlv_decode_all_prefix) (use assms(1,3) in \<open>simp_all add: dec default_string_limit_def\<close>)
    moreover have "\<exists>e. tlv_decode_next ?d = Inl e"
      by (rule tlv_decode_next_oversized [where pre = "encodes fs" and rest = "[]"])
        (use assms(4,5) in \<open>auto simp: dec default_string_limit_def\<close>)
    ultimately show ?thesis by (auto simp: tlv_decode_all_stop)
  qed
  moreover have "tlv_decoder_reset dec = dec" by (simp add: dec tlv_decoder_reset_def)
  ultimately show "tlv_decode_all (tlv_decoder_reset dec) = views fs (field_bytes ?big)" by simp
qed

section \<open>Properties\<close>

text \<open>
  AppendEntries round trip: every message with at most 507 entries whose encodings fit the
  decoder's limit is decoded to the same message, nested log entries included, and heartbeats
  (no entries) too.
\<close>

lemma append_entries_roundtrip:
  assumes "ae_wf m"
  shows "\<exists>buf. serialize_raft_append_entries m = Inr buf
    \<and> deserialize_raft_append_entries buf = Inr m"
  unfolding deserialize_raft_append_entries_def by (rule ae.roundtrip [OF assms])

lemma append_entries_roundtrip_witness:
  "let m = \<lparr>ae_term = 7, ae_leader_id = [110, 49], ae_prev_log_index = 3, ae_prev_log_term = 6,
     ae_entries = [\<lparr>we_term = 7, we_index = 4, we_entry_type = 0, we_data = Some [1, 2]\<rparr>,
                   \<lparr>we_term = 7, we_index = 5, we_entry_type = 2, we_data = None\<rparr>],
     ae_leader_commit = 3\<rparr>
   in \<exists>buf. serialize_raft_append_entries m = Inr buf \<and> deserialize_raft_append_entries buf = Inr m"
  unfolding Let_def
  by (rule append_entries_roundtrip)
    (simp add: ae_wf_def we_wf_def wf_cstr_def default_string_limit_def)

text \<open>
  The other Raft messages round-trip on all well-formed values: vote requests and responses,
  AppendEntries responses, snapshots and their responses, configuration changes.
\<close>

lemma raft_messages_roundtrip:
  "(rv_wf m1 \<longrightarrow> (\<exists>buf. serialize_raft_request_vote m1 = Inr buf
      \<and> deserialize_raft_request_vote buf = Inr m1))
   \<and> (rvr_wf m2 \<longrightarrow> (\<exists>buf. serialize_raft_request_vote_response m2 = Inr buf
      \<and> deserialize_raft_request_vote_response buf = Inr m2))
   \<and> (aer_wf m3 \<longrightarrow> (\<exists>buf. serialize_raft_append_entries_response m3 = Inr buf
      \<and> deserialize_raft_append_entries_response buf = Inr m3))
   \<and> (ins_wf m4 \<longrightarrow> (\<exists>buf. serialize_raft_install_snapshot m4 = Inr buf
      \<and> deserialize_raft_install_snapshot buf = Inr m4))
   \<and> (isr_wf m5 \<longrightarrow> (\<exists>buf. serialize_raft_install_snapshot_response m5 = Inr buf
      \<and> deserialize_raft_install_snapshot_response buf = Inr m5))
   \<and> (cc_wf m6 \<longrightarrow> (\<exists>buf. serialize_raft_configuration_change m6 = Inr buf
      \<and> deserialize_raft_configuration_change buf = Inr m6))"
  unfolding deserialize_raft_request_vote_def deserialize_raft_request_vote_response_def
    deserialize_raft_append_entries_response_def deserialize_raft_install_snapshot_def
    deserialize_raft_install_snapshot_response_def deserialize_raft_configuration_change_def
  by (intro conjI impI rv.roundtrip rvr.roundtrip aer.roundtrip ins.roundtrip isr.roundtrip cc.roundtrip)

lemma raft_messages_roundtrip_witness:
  "\<exists>buf. serialize_raft_request_vote \<lparr>rv_term = 5, rv_candidate_id = [65, 66], rv_last_log_index = 9,
       rv_last_log_term = 4\<rparr> = Inr buf
     \<and> deserialize_raft_request_vote buf = Inr \<lparr>rv_term = 5, rv_candidate_id = [65, 66],
         rv_last_log_index = 9, rv_last_log_term = 4\<rparr>"
  using raft_messages_roundtrip [of "\<lparr>rv_term = 5, rv_candidate_id = [65, 66], rv_last_log_index = 9,
       rv_last_log_term = 4\<rparr>"]
  by (simp add: rv_wf_def wf_cstr_def)

text \<open>
  A vote request is accepted only when it is structurally valid and carries all four required
  fields: anything else is refused with an error.
\<close>

lemma request_vote_requires_fields:
  assumes "deserialize_raft_request_vote buf = Inr m"
  shows "tlv_validate_buffer buf \<and>
    {FIELD_TERM, FIELD_CANDIDATE_ID, FIELD_LAST_LOG_INDEX, FIELD_LAST_LOG_TERM}
      \<subseteq> f_tag ` set (tlv_decode_all (the (tlv_decoder_create buf (length buf))))"
proof -
  have buf: "tlv_validate_buffer buf" "0 < length buf"
    using decode_message_format [OF assms [unfolded deserialize_raft_request_vote_def]] by simp_all
  then obtain dec where dec: "tlv_decoder_create buf (length buf) = Some dec"
    "tlv_decoder_reset dec = dec"
    by (simp add: create_default tlv_decoder_reset_def)
  obtain seen where "foldl rv_step (rv_zero, 0) (tlv_decode_all dec) = (m, seen)"
    "seen AND RV_REQUIRED = RV_REQUIRED"
    using assms buf dec
    by (auto simp: deserialize_raft_request_vote_def decode_message_def split: if_splits prod.splits)
  from rv_seen_tags [OF this(1)] required_bits [OF this(2)] buf dec show ?thesis by simp
qed

text \<open>
  Snapshot data between 1 MiB and 16 MiB are accepted by the encoder and lost by the decoder:
  the deserialiser reports success and delivers the message without its data.
\<close>

lemma install_snapshot_drops_large_data:
  assumes "wf_cstr 64 (ins_leader_id m)" and "ins_data m = Some d"
    and "default_string_limit < length d" and "length d \<le> TLV_MAX_FIELD_SIZE"
  shows "\<exists>buf. serialize_raft_install_snapshot m = Inr buf
    \<and> deserialize_raft_install_snapshot buf = Inr (m\<lparr>ins_data := None\<rparr>)"
proof -
  let ?m = "m\<lparr>ins_data := None\<rparr>"
  let ?fs = "ins_fields ?m" and ?big = "(TLV_BYTES, FIELD_SNAPSHOT_DATA, d)"
  have wf: "ins_wf ?m" using assms(1) by (simp add: ins_wf_def wf_opt_bytes_def)
  have ser: "serialize_raft_install_snapshot m = Inr (encodes (?fs @ [?big]))"
    using assms by (auto simp: ins_defs Let_def opt_field_simps)
  have fits: "\<forall>f\<in>set ?fs. field_fits default_string_limit f" using ins.fields_fit [OF wf] by blast
  have len: "?fs \<noteq> []" "length ?fs < 512" by (simp_all add: ins_fields_def opt_field_def)
  have pos: "0 < length (encodes (?fs @ [?big]))" by (rule encodes_not_Nil) simp
  then obtain dec where
    dec: "tlv_decoder_create (encodes (?fs @ [?big])) (length (encodes (?fs @ [?big]))) = Some dec"
    by (simp only: create_default option.inject ex_simps simp_thms)
  note all = decode_all_oversized_tail [OF fits len assms(3,4) dec]
  have fold: "\<exists>seen. foldl ins_step (ins_zero, 0) (views ?fs (field_bytes ?big)) = (?m, seen)
      \<and> seen AND INS_REQUIRED = INS_REQUIRED"
    using assms(1) by (cases m) (simp add: ins_defs opt_field_def)
  have "tlv_validate_buffer (encodes (?fs @ [?big]))"
    using validate_loop_complete [of "?fs @ [?big]" "[]"] field_fits_size [OF fits] assms(4)
    by (fastforce simp: tlv_validate_buffer_def)
  with dec pos all fold have "deserialize_raft_install_snapshot (encodes (?fs @ [?big])) = Inr ?m"
    by (auto simp: deserialize_raft_install_snapshot_def decode_message_def)
  with ser show ?thesis by blast
qed

lemma install_snapshot_drops_large_data_witness:
  "let m = \<lparr>ins_term = 1, ins_leader_id = [65], ins_last_included_index = 2,
     ins_last_included_term = 1, ins_data = Some (replicate (2 ^ 20 + 1) 0)\<rparr>
   in \<exists>buf. serialize_raft_install_snapshot m = Inr buf
        \<and> deserialize_raft_install_snapshot buf = Inr (m\<lparr>ins_data := None\<rparr>)"
  unfolding Let_def
  by (rule install_snapshot_drops_large_data [where d = "replicate (2 ^ 20 + 1) 0"])
    (simp_all add: wf_cstr_def default_string_limit_def TLV_MAX_FIELD_SIZE_def length_replicate)

end
