(* ===== verification/SendQueue.thy ===== *)
theory SendQueue
  imports Prelude
begin

text \<open>
  The per-connection send queue of \<^verbatim>\<open>libs/distric_transport/src/send_queue.c\<close>: a ring buffer
  of fixed capacity, written in at most two segments and read one contiguous segment at a time.
  The locale \<open>byte_queue\<close> is the contract the connection code relies on; the ring buffer is shown
  to satisfy it, with the queued bytes read off the ring by \<open>sq_contents\<close>. Sizes are \<^verbatim>\<open>size_t\<close>
  values bounded by the allocated buffer and are modelled by natural numbers.
\<close>

section \<open>State and operations\<close>

record send_queue =
  sq_buf :: bytes
  sq_capacity :: nat
  sq_hwm :: nat
  sq_head :: nat
  sq_len :: nat

definition SEND_QUEUE_DEFAULT_CAPACITY :: nat where
  "SEND_QUEUE_DEFAULT_CAPACITY = 64 * 1024"

definition SEND_QUEUE_DEFAULT_HWM :: nat where
  "SEND_QUEUE_DEFAULT_HWM = 48 * 1024"

text \<open>\<open>mem\<close> is what \<^verbatim>\<open>malloc(capacity)\<close> returned; \<open>None\<close> models the return value -1.\<close>

definition send_queue_init :: "bytes option \<Rightarrow> nat \<Rightarrow> nat \<Rightarrow> send_queue option" where
  "send_queue_init mem capacity hwm =
     (if capacity = 0 \<or> hwm > capacity then None
      else case mem of
             None \<Rightarrow> None
           | Some b \<Rightarrow> Some \<lparr>sq_buf = b, sq_capacity = capacity, sq_hwm = hwm, sq_head = 0, sq_len = 0\<rparr>)"

definition send_queue_destroy :: "send_queue \<Rightarrow> send_queue" where
  "send_queue_destroy q = q\<lparr>sq_buf := [], sq_capacity := 0, sq_len := 0, sq_head := 0\<rparr>"

definition memcpy_at :: "bytes \<Rightarrow> nat \<Rightarrow> bytes \<Rightarrow> bytes" where
  "memcpy_at buf off data = take off buf @ data @ drop (off + length data) buf"

definition send_queue_push :: "send_queue \<Rightarrow> bytes \<Rightarrow> send_queue option" where
  "send_queue_push q data =
     (let len = length data
      in if len = 0 then None
         else if len > sq_capacity q - sq_len q then None
         else
           let tail = (sq_head q + sq_len q) mod sq_capacity q;
               to_end = sq_capacity q - tail;
               buf = (if len \<le> to_end then memcpy_at (sq_buf q) tail data
                      else memcpy_at (memcpy_at (sq_buf q) tail (take to_end data)) 0 (drop to_end data))
           in Some (q\<lparr>sq_buf := buf, sq_len := sq_len q + len\<rparr>))"

text \<open>The contiguous segment at the head: \<open>*avail\<close> bytes from \<open>*out\<close>; empty when \<open>*out\<close> is NULL.\<close>

definition send_queue_peek :: "send_queue \<Rightarrow> bytes" where
  "send_queue_peek q =
     (if sq_len q = 0 then []
      else
        let to_end = sq_capacity q - sq_head q;
            avail = (if sq_len q < to_end then sq_len q else to_end)
        in take avail (drop (sq_head q) (sq_buf q)))"

definition send_queue_consume :: "send_queue \<Rightarrow> nat \<Rightarrow> send_queue" where
  "send_queue_consume q n =
     (if n = 0 then q
      else
        let n = (if n > sq_len q then sq_len q else n);
            q = q\<lparr>sq_head := (sq_head q + n) mod sq_capacity q, sq_len := sq_len q - n\<rparr>
        in if sq_len q = 0 then q\<lparr>sq_head := 0\<rparr> else q)"

definition send_queue_empty :: "send_queue \<Rightarrow> bool" where
  "send_queue_empty q \<longleftrightarrow> sq_len q = 0"

definition send_queue_above_hwm :: "send_queue \<Rightarrow> bool" where
  "send_queue_above_hwm q \<longleftrightarrow> sq_len q \<ge> sq_hwm q"

definition send_queue_pending :: "send_queue \<Rightarrow> nat" where
  "send_queue_pending q = sq_len q"

definition send_queue_free :: "send_queue \<Rightarrow> nat" where
  "send_queue_free q = sq_capacity q - sq_len q"

section \<open>Invariant and abstraction\<close>

definition sq_ok :: "send_queue \<Rightarrow> bool" where
  "sq_ok q \<longleftrightarrow> 0 < sq_capacity q \<and> length (sq_buf q) = sq_capacity q \<and> sq_head q < sq_capacity q
     \<and> sq_len q \<le> sq_capacity q \<and> sq_hwm q \<le> sq_capacity q"

definition ring_nth :: "send_queue \<Rightarrow> nat \<Rightarrow> u8" where
  "ring_nth q i = sq_buf q ! ((sq_head q + i) mod sq_capacity q)"

definition sq_contents :: "send_queue \<Rightarrow> bytes" where
  "sq_contents q = map (ring_nth q) [0..<sq_len q]"

lemma length_sq_contents [simp]: "length (sq_contents q) = sq_len q"
  by (simp add: sq_contents_def)

lemma nth_sq_contents [simp]: "i < sq_len q \<Longrightarrow> sq_contents q ! i = ring_nth q i"
  by (simp add: sq_contents_def)

lemma sq_contents_eq_Nil [simp]: "sq_contents q = [] \<longleftrightarrow> sq_len q = 0"
  by (simp add: sq_contents_def)

section \<open>The contract of a byte queue\<close>

text \<open>
  What the connection code relies on: a push of a non-empty chunk that fits appends it, one that
  does not fit is refused, the segment offered for sending is a non-empty prefix of what is
  queued, and consuming part of it removes exactly that part.
\<close>

locale byte_queue =
  fixes valid :: "'q \<Rightarrow> bool"
    and contents :: "'q \<Rightarrow> bytes"
    and room :: "'q \<Rightarrow> nat"
    and push :: "'q \<Rightarrow> bytes \<Rightarrow> 'q option"
    and peek :: "'q \<Rightarrow> bytes"
    and consume :: "'q \<Rightarrow> nat \<Rightarrow> 'q"
  assumes push_fits: "valid q \<Longrightarrow> data \<noteq> [] \<Longrightarrow> length data \<le> room q
      \<Longrightarrow> \<exists>q'. push q data = Some q' \<and> valid q' \<and> contents q' = contents q @ data
            \<and> room q' = room q - length data"
    and push_refused: "data = [] \<or> room q < length data \<Longrightarrow> push q data = None"
    and peek_prefix: "valid q \<Longrightarrow> peek q = take (length (peek q)) (contents q)"
    and peek_nonempty: "valid q \<Longrightarrow> contents q \<noteq> [] \<Longrightarrow> peek q \<noteq> []"
    and consume_drops: "valid q \<Longrightarrow> contents (consume q n) = drop n (contents q)"
    and consume_valid: "valid q \<Longrightarrow> valid (consume q n)"
begin

lemma push_Some_iff:
  "valid q \<Longrightarrow> (\<exists>q'. push q data = Some q') \<longleftrightarrow> data \<noteq> [] \<and> length data \<le> room q"
  using push_fits [of q data] push_refused [of data q] by force

lemma push_SomeD:
  assumes "valid q" and "push q data = Some q'"
  shows "valid q'" and "contents q' = contents q @ data" and "data \<noteq> []"
proof -
  have "data \<noteq> []" "length data \<le> room q" using assms push_Some_iff by auto
  then show "valid q'" "contents q' = contents q @ data" "data \<noteq> []"
    using push_fits [OF assms(1), of data] assms(2) by auto
qed

lemma send_step:
  assumes "valid q" and "k \<le> length (peek q)"
  shows "take k (peek q) @ contents (consume q k) = contents q"
proof -
  have "take k (peek q) = take k (contents q)"
    using assms peek_prefix [OF assms(1)] by (metis min_def take_take)
  then show ?thesis using consume_drops [OF assms(1)] by simp
qed

lemma peek_length: "valid q \<Longrightarrow> length (peek q) \<le> length (contents q)"
  using peek_prefix [of q] by (metis length_take min.cobounded1 nat_le_linear take_all)

lemma send_step_shrinks:
  assumes "valid q" and "contents q \<noteq> []" and "0 < k"
  shows "length (contents (consume q k)) < length (contents q)"
  using consume_drops [OF assms(1)] assms(2,3) by (simp add: diff_less)

end

section \<open>The ring buffer satisfies the contract\<close>

lemma nth_memcpy_at:
  assumes "off + length data \<le> length buf" and "j < length buf"
  shows "memcpy_at buf off data ! j
    = (if off \<le> j \<and> j < off + length data then data ! (j - off) else buf ! j)"
  using assms by (auto simp: memcpy_at_def nth_append)

lemma length_memcpy_at [simp]:
  "off + length data \<le> length buf \<Longrightarrow> length (memcpy_at buf off data) = length buf"
  by (simp add: memcpy_at_def)

definition ring_write :: "bytes \<Rightarrow> nat \<Rightarrow> bytes \<Rightarrow> bytes" where
  "ring_write buf tail data =
     (if length data \<le> length buf - tail then memcpy_at buf tail data
      else memcpy_at (memcpy_at buf tail (take (length buf - tail) data)) 0
             (drop (length buf - tail) data))"

lemma length_ring_write [simp]:
  assumes "tail < length buf" and "length data \<le> length buf"
  shows "length (ring_write buf tail data) = length buf"
  using assms by (simp add: ring_write_def)

lemma nth_ring_write:
  assumes "tail < length buf" and "length data \<le> length buf" and "i < length buf"
  shows "ring_write buf tail data ! ((tail + i) mod length buf)
    = (if i < length data then data ! i else buf ! ((tail + i) mod length buf))"
proof (cases "length data \<le> length buf - tail")
  case True
  then show ?thesis
    using assms by (auto simp: ring_write_def nth_memcpy_at mod_wrap)
next
  case False
  let ?e = "length buf - tail"
  have "memcpy_at buf tail (take ?e data) ! j
      = (if tail \<le> j then data ! (j - tail) else buf ! j)" if "j < length buf" for j
    using that False assms by (auto simp: nth_memcpy_at)
  then show ?thesis
    using assms False by (auto simp: ring_write_def nth_memcpy_at mod_wrap)
qed

lemma send_queue_push_alt:
  assumes "sq_ok q" and "data \<noteq> []" and "length data \<le> sq_capacity q - sq_len q"
  shows "send_queue_push q data = Some (q\<lparr>sq_buf := ring_write (sq_buf q)
      ((sq_head q + sq_len q) mod sq_capacity q) data, sq_len := sq_len q + length data\<rparr>)"
  using assms by (simp add: send_queue_push_def ring_write_def Let_def sq_ok_def)

lemma send_queue_push_contents:
  assumes ok: "sq_ok q" and ne: "data \<noteq> []" and fits: "length data \<le> sq_capacity q - sq_len q"
    and q': "send_queue_push q data = Some q'"
  shows "sq_ok q' \<and> sq_contents q' = sq_contents q @ data"
proof -
  let ?c = "sq_capacity q" and ?t = "(sq_head q + sq_len q) mod sq_capacity q"
  let ?b = "ring_write (sq_buf q) ?t data"
  have q'_def: "q' = q\<lparr>sq_buf := ?b, sq_len := sq_len q + length data\<rparr>"
    using send_queue_push_alt [OF ok ne fits] q' by simp
  have c: "0 < ?c" "length (sq_buf q) = ?c" "sq_len q \<le> ?c" "?t < ?c"
    using ok by (auto simp: sq_ok_def)
  have nth: "?b ! ((?t + i) mod ?c)
      = (if i < length data then data ! i else sq_buf q ! ((?t + i) mod ?c))" if "i < ?c" for i
    using nth_ring_write [of ?t "sq_buf q" data i] c fits that by simp
  have old: "ring_nth q' i = ring_nth q i" if "i < sq_len q" for i
  proof -
    have "(?t + (?c - sq_len q + i)) mod ?c = (sq_head q + i) mod ?c"
    proof -
      have "sq_head q + sq_len q + (?c - sq_len q + i) = sq_head q + i + ?c" using c that by simp
      then show ?thesis by (metis mod_add_left_eq mod_add_self2)
    qed
    moreover obtain j where j: "j = ?c - sq_len q + i" by blast
    moreover have "j < ?c" "\<not> j < length data" using j that c(3) fits by auto
    ultimately show ?thesis
      using nth [of j] by (simp add: ring_nth_def q'_def)
  qed
  have new: "ring_nth q' (sq_len q + i) = data ! i" if "i < length data" for i
    using nth [of i] that c fits
    by (simp add: ring_nth_def q'_def mod_add_left_eq add.assoc)
  have "sq_contents q' = sq_contents q @ data"
  proof (rule nth_equalityI)
    show "length (sq_contents q') = length (sq_contents q @ data)" by (simp add: q'_def)
  next
    fix i assume "i < length (sq_contents q')"
    then have i: "i < sq_len q + length data" by (simp add: q'_def)
    then show "sq_contents q' ! i = (sq_contents q @ data) ! i"
      using old [of i] new [of "i - sq_len q"] by (auto simp: nth_append q'_def)
  qed
  moreover have "sq_ok q'" using ok c fits by (simp add: sq_ok_def q'_def)
  ultimately show ?thesis by blast
qed

lemma send_queue_peek_prefix:
  assumes "sq_ok q"
  shows "send_queue_peek q = take (min (sq_len q) (sq_capacity q - sq_head q)) (sq_contents q)"
  using assms
  by (auto simp: send_queue_peek_def sq_ok_def ring_nth_def Let_def intro!: nth_equalityI)

lemma sq_ok_consume: "sq_ok q \<Longrightarrow> sq_ok (send_queue_consume q n)"
  by (auto simp: send_queue_consume_def sq_ok_def Let_def)

lemma send_queue_consume_contents:
  assumes "sq_ok q"
  shows "sq_contents (send_queue_consume q n) = drop n (sq_contents q)"
proof (rule nth_equalityI)
  show "length (sq_contents (send_queue_consume q n)) = length (drop n (sq_contents q))"
    by (simp add: send_queue_consume_def Let_def)
next
  fix i assume "i < length (sq_contents (send_queue_consume q n))"
  then have i: "n + i < sq_len q" by (auto simp: send_queue_consume_def Let_def split: if_splits)
  then have "ring_nth (send_queue_consume q n) i = ring_nth q (n + i)"
    by (auto simp: send_queue_consume_def Let_def ring_nth_def mod_add_left_eq add.assoc)
  moreover have "i < sq_len (send_queue_consume q n)"
    using i by (auto simp: send_queue_consume_def Let_def)
  ultimately show "sq_contents (send_queue_consume q n) ! i = drop n (sq_contents q) ! i"
    using i by simp
qed

interpretation sq: byte_queue sq_ok sq_contents send_queue_free send_queue_push send_queue_peek
  send_queue_consume
proof unfold_locales
  fix q and data :: bytes
  assume a: "sq_ok q" "data \<noteq> []" "length data \<le> send_queue_free q"
  then show "\<exists>q'. send_queue_push q data = Some q' \<and> sq_ok q' \<and> sq_contents q' = sq_contents q @ data
      \<and> send_queue_free q' = send_queue_free q - length data"
    using send_queue_push_alt [of q data] send_queue_push_contents [of q data]
    by (auto simp: send_queue_free_def)
next
  fix q and data :: bytes assume "data = [] \<or> send_queue_free q < length data"
  then show "send_queue_push q data = None"
    by (auto simp: send_queue_push_def send_queue_free_def Let_def)
next
  fix q assume "sq_ok q"
  then show "send_queue_peek q = take (length (send_queue_peek q)) (sq_contents q)"
    by (simp add: send_queue_peek_prefix)
next
  fix q assume "sq_ok q" "sq_contents q \<noteq> []"
  then show "send_queue_peek q \<noteq> []" by (simp add: send_queue_peek_prefix sq_ok_def)
next
  fix q n assume "sq_ok q"
  then show "sq_contents (send_queue_consume q n) = drop n (sq_contents q)"
    by (rule send_queue_consume_contents)
next
  fix q n assume "sq_ok q"
  then show "sq_ok (send_queue_consume q n)" by (rule sq_ok_consume)
qed

lemma send_queue_init_ok:
  assumes "length b = capacity" and "send_queue_init (Some b) capacity hwm = Some q"
  shows "sq_ok q \<and> sq_contents q = []"
  using assms by (auto simp: send_queue_init_def sq_ok_def split: if_splits)

lemma send_queue_free_eq: "sq_ok q \<Longrightarrow> length (sq_contents q) + send_queue_free q = sq_capacity q"
  by (simp add: send_queue_free_def sq_ok_def)

end
