(* ===== verification/Tcp.thy ===== *)
theory Tcp
  imports SendQueue
begin

text \<open>
  The data path of a TCP connection (\<^verbatim>\<open>libs/distric_transport/src/tcp.c\<close>): \<^verbatim>\<open>tcp_send\<close> with
  its queue, \<^verbatim>\<open>tcp_flush\<close>, \<^verbatim>\<open>tcp_recv\<close> and the queue queries. The operating system is an
  explicit script: each connection carries what its next \<^verbatim>\<open>send\<close> calls do and what its next
  \<^verbatim>\<open>epoll_wait\<close>/\<^verbatim>\<open>recv\<close> calls observe, so that every theorem quantifies over all kernel
  behaviours. The lemmas show that the bytes on the wire followed by the queued bytes are always
  the accepted data in order.
\<close>

section \<open>Error codes as C integers\<close>

text \<open>\<^verbatim>\<open>tcp_send\<close> and \<^verbatim>\<open>tcp_recv\<close> return an \<^verbatim>\<open>int\<close>: a byte count or a negative error code.\<close>

fun err_code :: "distric_err \<Rightarrow> int" where
  "err_code DISTRIC_OK = 0"
| "err_code DISTRIC_ERR_INVALID_ARG = -1"
| "err_code DISTRIC_ERR_ALLOC_FAILURE = -2"
| "err_code DISTRIC_ERR_INIT_FAILED = -3"
| "err_code DISTRIC_ERR_REGISTRY_FULL = -4"
| "err_code DISTRIC_ERR_NOT_FOUND = -5"
| "err_code DISTRIC_ERR_BUFFER_OVERFLOW = -6"
| "err_code DISTRIC_ERR_BACKPRESSURE = -7"
| "err_code DISTRIC_ERR_INVALID_LABEL = -8"
| "err_code DISTRIC_ERR_HIGH_CARDINALITY = -9"
| "err_code DISTRIC_ERR_REGISTRY_FROZEN = -10"
| "err_code DISTRIC_ERR_NO_MEMORY = -11"
| "err_code DISTRIC_ERR_ALREADY_EXISTS = -12"
| "err_code DISTRIC_ERR_SHUTDOWN = -13"
| "err_code DISTRIC_ERR_IO = -14"
| "err_code DISTRIC_ERR_INVALID_STATE = -15"
| "err_code DISTRIC_ERR_THREAD = -16"
| "err_code DISTRIC_ERR_TIMEOUT = -17"
| "err_code DISTRIC_ERR_EOF = -18"
| "err_code DISTRIC_ERR_INVALID_FORMAT = -19"
| "err_code DISTRIC_ERR_TYPE_MISMATCH = -20"
| "err_code DISTRIC_ERR_UNAVAILABLE = -21"

lemma err_code_nonpos: "err_code e \<le> 0"
  by (cases e) auto

lemma err_code_eq_0 [simp]: "err_code e = 0 \<longleftrightarrow> e = DISTRIC_OK"
  by (cases e) auto

section \<open>Connection state\<close>

text \<open>
  One scripted outcome per \<^verbatim>\<open>send\<close> call: the kernel accepts up to \<open>k + 1\<close> bytes, would block,
  or fails; when the script is used up the socket buffer stays full.
\<close>

datatype send_outcome = Accepts nat | Would_block | Send_fails

text \<open>One scripted observation per \<^verbatim>\<open>tcp_recv\<close> call; an exhausted script is a closed peer.\<close>

datatype recv_outcome =
  Poll_timeout | Poll_hangup | Recv_data bytes | Recv_closed | Recv_again | Recv_error

record tcp_connection =
  tc_queue :: send_queue
  tc_kernel :: "send_outcome list"
  tc_wire :: bytes
  tc_incoming :: "recv_outcome list"

section \<open>Send path\<close>

text \<open>
  \<^verbatim>\<open>send(fd, data, len, MSG_DONTWAIT | MSG_NOSIGNAL)\<close> for a non-empty buffer: the number of
  accepted bytes, 0 for EAGAIN, -1 for any other failure.
\<close>

definition os_send :: "tcp_connection \<Rightarrow> bytes \<Rightarrow> int \<times> tcp_connection" where
  "os_send c data =
     (case tc_kernel c of
        [] \<Rightarrow> (0, c)
      | Accepts k # ks \<Rightarrow>
          let n = min (Suc k) (length data)
          in (int n, c\<lparr>tc_kernel := ks, tc_wire := tc_wire c @ take n data\<rparr>)
      | Would_block # ks \<Rightarrow> (0, c\<lparr>tc_kernel := ks\<rparr>)
      | Send_fails # ks \<Rightarrow> (-1, c\<lparr>tc_kernel := ks\<rparr>))"

lemma os_send_queue: "os_send c data = (r, c') \<Longrightarrow> tc_queue c' = tc_queue c"
  by (auto simp: os_send_def Let_def split: list.splits send_outcome.splits)

lemma consume_shrinks:
  "sq_len q \<noteq> 0 \<Longrightarrow> 0 < n \<Longrightarrow> sq_len (send_queue_consume q n) < sq_len q"
  by (simp add: send_queue_consume_def Let_def)

function flush_send_queue_locked :: "tcp_connection \<Rightarrow> int \<times> tcp_connection" where
  "flush_send_queue_locked c =
     (if send_queue_empty (tc_queue c) then (0, c)
      else
        let seg = send_queue_peek (tc_queue c)
        in if seg = [] then (0, c)
           else case os_send c seg of
                  (sent, c) \<Rightarrow>
                    if sent > 0 then
                      flush_send_queue_locked
                        (c\<lparr>tc_queue := send_queue_consume (tc_queue c) (nat sent)\<rparr>)
                    else if sent = 0 then (0, c)
                    else (-1, c))"
  by pat_completeness auto
termination
  by (relation "measure (\<lambda>c. sq_len (tc_queue c))")
    (auto simp: send_queue_empty_def dest!: os_send_queue [OF sym] intro!: consume_shrinks)

declare flush_send_queue_locked.simps [simp del]

text \<open>
  Buffering a chunk: refused above the high-water mark or when it does not fit.
\<close>

definition tcp_buffer :: "tcp_connection \<Rightarrow> bytes \<Rightarrow> tcp_connection option" where
  "tcp_buffer c data =
     (if send_queue_above_hwm (tc_queue c) then None
      else case send_queue_push (tc_queue c) data of
             None \<Rightarrow> None
           | Some q \<Rightarrow> Some (c\<lparr>tc_queue := q\<rparr>))"

text \<open>The code casts the length to \<^verbatim>\<open>int\<close> for its result: messages are taken to be shorter than \<open>2 ^ 31\<close> bytes.\<close>

definition tcp_send :: "tcp_connection \<Rightarrow> bytes \<Rightarrow> int \<times> tcp_connection" where
  "tcp_send c data =
     (if data = [] then (err_code DISTRIC_ERR_INVALID_ARG, c)
      else case (if send_queue_empty (tc_queue c) then (0, c) else flush_send_queue_locked c) of
        (rc, c) \<Rightarrow>
          if rc < 0 then (err_code DISTRIC_ERR_IO, c)
          else if \<not> send_queue_empty (tc_queue c) then
            (case tcp_buffer c data of
               None \<Rightarrow> (err_code DISTRIC_ERR_BACKPRESSURE, c)
             | Some c \<Rightarrow> (int (length data), c))
          else case os_send c data of
            (sent, c) \<Rightarrow>
              if sent > 0 then
                if nat sent < length data then
                  (case tcp_buffer c (drop (nat sent) data) of
                     None \<Rightarrow> (err_code DISTRIC_ERR_BACKPRESSURE, c)
                   | Some c \<Rightarrow> (int (length data), c))
                else (int (length data), c)
              else if sent = 0 then
                (case tcp_buffer c data of
                   None \<Rightarrow> (err_code DISTRIC_ERR_BACKPRESSURE, c)
                 | Some c \<Rightarrow> (int (length data), c))
              else (err_code DISTRIC_ERR_IO, c))"

definition tcp_flush :: "tcp_connection \<Rightarrow> distric_err \<times> tcp_connection" where
  "tcp_flush c =
     (case flush_send_queue_locked c of
        (rc, c) \<Rightarrow> (if rc = 0 then DISTRIC_OK else DISTRIC_ERR_IO, c))"

section \<open>Receive path\<close>

text \<open>
  The result: return value, bytes stored in the buffer, remaining script. A positive timeout
  polls, 0 blocks until an event, a negative one reads directly.
\<close>

fun tcp_recv :: "recv_outcome list \<Rightarrow> nat \<Rightarrow> int \<Rightarrow> int \<times> bytes \<times> recv_outcome list" where
  "tcp_recv rx 0 timeout_ms = (err_code DISTRIC_ERR_INVALID_ARG, [], rx)"
| "tcp_recv [] (Suc len) timeout_ms = (err_code DISTRIC_ERR_IO, [], [])"
| "tcp_recv (Poll_timeout # rx) (Suc len) timeout_ms =
     (if timeout_ms = 0 then tcp_recv rx (Suc len) timeout_ms else (0, [], rx))"
| "tcp_recv (Poll_hangup # rx) (Suc len) timeout_ms = (err_code DISTRIC_ERR_IO, [], rx)"
| "tcp_recv (Recv_data bs # rx) (Suc len) timeout_ms =
     (if bs = [] then (err_code DISTRIC_ERR_IO, [], rx)
      else (int (min (Suc len) (length bs)), take (Suc len) bs,
            if Suc len < length bs then Recv_data (drop (Suc len) bs) # rx else rx))"
| "tcp_recv (Recv_closed # rx) (Suc len) timeout_ms = (err_code DISTRIC_ERR_IO, [], rx)"
| "tcp_recv (Recv_again # rx) (Suc len) timeout_ms = (0, [], rx)"
| "tcp_recv (Recv_error # rx) (Suc len) timeout_ms = (err_code DISTRIC_ERR_IO, [], rx)"

definition tcp_is_writable :: "tcp_connection \<Rightarrow> bool" where
  "tcp_is_writable c \<longleftrightarrow> \<not> send_queue_above_hwm (tc_queue c)"

definition tcp_send_queue_depth :: "tcp_connection \<Rightarrow> nat" where
  "tcp_send_queue_depth c = send_queue_pending (tc_queue c)"

section \<open>The byte stream\<close>

text \<open>What has been handed to the connection and not been lost: on the wire, then queued.\<close>

definition stream_of :: "tcp_connection \<Rightarrow> bytes" where
  "stream_of c = tc_wire c @ sq_contents (tc_queue c)"

abbreviation conn_ok :: "tcp_connection \<Rightarrow> bool" where
  "conn_ok c \<equiv> sq_ok (tc_queue c)"

lemma os_send_cases:
  assumes "os_send c data = (r, c')" and "data \<noteq> []"
  obtains (accepted) n where "0 < n" "n \<le> length data" "r = int n" "tc_wire c' = tc_wire c @ take n data"
  | (refused) "r \<le> 0" "tc_wire c' = tc_wire c"
proof (cases "tc_kernel c")
  case Nil
  then show ?thesis using assms refused by (simp add: os_send_def)
next
  case (Cons k ks)
  show ?thesis
  proof (cases k)
    case (Accepts j)
    then show ?thesis
      using assms Cons accepted [of "min (Suc j) (length data)"] by (auto simp: os_send_def Let_def)
  qed (use assms Cons refused in \<open>auto simp: os_send_def\<close>)
qed

lemma flush_stop:
  "send_queue_empty (tc_queue c) \<or> send_queue_peek (tc_queue c) = []
     \<Longrightarrow> flush_send_queue_locked c = (0, c)"
  by (subst flush_send_queue_locked.simps) (auto simp: Let_def)

lemma flush_sent:
  assumes "\<not> send_queue_empty (tc_queue c)" and "send_queue_peek (tc_queue c) \<noteq> []"
    and "os_send c (send_queue_peek (tc_queue c)) = (sent, d)"
  shows "flush_send_queue_locked c =
    (if sent > 0 then
       flush_send_queue_locked (d\<lparr>tc_queue := send_queue_consume (tc_queue d) (nat sent)\<rparr>)
     else if sent = 0 then (0, d) else (-1, d))"
  using assms by (subst flush_send_queue_locked.simps) (simp add: Let_def)

lemma flush_spec:
  assumes "flush_send_queue_locked c = (r, c')" and "conn_ok c"
  shows "conn_ok c' \<and> stream_of c' = stream_of c
    \<and> (r = 0 \<or> r = -1) \<and> sq_len (tc_queue c') \<le> sq_len (tc_queue c)
    \<and> sq_capacity (tc_queue c') = sq_capacity (tc_queue c)
    \<and> sq_hwm (tc_queue c') = sq_hwm (tc_queue c)"
  using assms
proof (induction c arbitrary: r c' rule: flush_send_queue_locked.induct)
  case (1 c)
  let ?seg = "send_queue_peek (tc_queue c)"
  show ?case
  proof (cases "send_queue_empty (tc_queue c) \<or> ?seg = []")
    case True
    then show ?thesis using "1.prems" flush_stop [of c] by simp
  next
    case False
    obtain sent d where s: "os_send c ?seg = (sent, d)" by (cases "os_send c ?seg")
    have q: "tc_queue d = tc_queue c" using s by (rule os_send_queue)
    show ?thesis
    proof (cases "sent > 0")
      case True
      let ?d = "d\<lparr>tc_queue := send_queue_consume (tc_queue d) (nat sent)\<rparr>"
      have rec: "flush_send_queue_locked ?d = (r, c')"
        using "1.prems"(1) flush_sent [OF _ _ s] False True by simp
      have ok: "conn_ok ?d" using "1.prems"(2) q by (simp add: sq.consume_valid)
      obtain n where n: "n \<le> length ?seg" "sent = int n" "tc_wire d = tc_wire c @ take n ?seg"
        using False True by (cases rule: os_send_cases [OF s]) auto
      have "stream_of ?d = stream_of c"
        using sq.send_step [OF "1.prems"(2) n(1)] n(2,3) q by (simp add: stream_of_def)
      moreover have "sq_len (tc_queue ?d) \<le> sq_len (tc_queue c)"
        "sq_capacity (tc_queue ?d) = sq_capacity (tc_queue c)"
        "sq_hwm (tc_queue ?d) = sq_hwm (tc_queue c)"
        using q by (auto simp: send_queue_consume_def Let_def)
      ultimately show ?thesis
        using "1.IH" [OF _ refl _ s [symmetric] True rec ok] False by auto
    next
      case neg: False
      have "tc_wire d = tc_wire c" using False neg by (cases rule: os_send_cases [OF s]) auto
      then show ?thesis
        using "1.prems" flush_sent [OF _ _ s] False neg q
        by (auto simp: stream_of_def split: if_splits)
    qed
  qed
qed

lemma tcp_buffer_spec:
  assumes "tcp_buffer c data = Some c'" and "conn_ok c"
  shows "conn_ok c' \<and> stream_of c' = stream_of c @ data"
  using assms sq.push_SomeD [of "tc_queue c" data]
  by (auto simp: tcp_buffer_def stream_of_def split: if_splits option.splits)

lemma tcp_send_spec:
  assumes r: "tcp_send c data = (r, c')" and ok: "conn_ok c" and ne: "data \<noteq> []"
  shows "conn_ok c' \<and> (\<exists>k \<le> length data. stream_of c' = stream_of c @ take k data
    \<and> (if k = length data then r = int (length data)
       else r = err_code DISTRIC_ERR_BACKPRESSURE \<or> r = err_code DISTRIC_ERR_IO))"
proof -
  obtain rc d where f: "(if send_queue_empty (tc_queue c) then (0, c) else flush_send_queue_locked c)
      = (rc, d)"
    by force
  have d: "conn_ok d" "stream_of d = stream_of c"
    using f ok flush_spec [of c rc d] by (auto split: if_splits)
  let ?P = "\<lambda>r c' k. conn_ok c' \<and> k \<le> length data \<and> stream_of c' = stream_of c @ take k data
    \<and> (if k = length data then r = int (length data)
       else r = err_code DISTRIC_ERR_BACKPRESSURE \<or> r = err_code DISTRIC_ERR_IO)"
  have buf: "\<exists>k. ?P r c' k"
    if "(case tcp_buffer e (drop n data) of None \<Rightarrow> (err_code DISTRIC_ERR_BACKPRESSURE, e)
         | Some c \<Rightarrow> (int (length data), c)) = (r, c')"
      and "conn_ok e" and "stream_of e = stream_of c @ take n data" and "n < length data" for n e
  proof (cases "tcp_buffer e (drop n data)")
    case None
    then show ?thesis using that by (intro exI [of _ n]) auto
  next
    case (Some e')
    then have "conn_ok e'" "stream_of e' = stream_of c @ data"
      using tcp_buffer_spec [OF Some] that by auto
    then show ?thesis using that Some by (intro exI [of _ "length data"]) auto
  qed
  consider (fails) "rc < 0" | (busy) "\<not> rc < 0" "\<not> send_queue_empty (tc_queue d)"
    | (idle) "\<not> rc < 0" "send_queue_empty (tc_queue d)"
    by blast
  then have "\<exists>k. ?P r c' k"
  proof cases
    case fails
    then show ?thesis using r ne f d by (intro exI [of _ 0]) (auto simp: tcp_send_def)
  next
    case busy
    then show ?thesis using r ne f d buf [of d 0] by (simp add: tcp_send_def)
  next
    case False: idle
    obtain sent e where s: "os_send d data = (sent, e)" by (cases "os_send d data")
    have e: "conn_ok e" using d(1) os_send_queue [OF s] by simp
    have r': "(if sent > 0 then if nat sent < length data then
          (case tcp_buffer e (drop (nat sent) data) of
             None \<Rightarrow> (err_code DISTRIC_ERR_BACKPRESSURE, e) | Some c \<Rightarrow> (int (length data), c))
          else (int (length data), e)
        else if sent = 0 then
          (case tcp_buffer e data of
             None \<Rightarrow> (err_code DISTRIC_ERR_BACKPRESSURE, e) | Some c \<Rightarrow> (int (length data), c))
        else (err_code DISTRIC_ERR_IO, e)) = (r, c')"
      using r ne f s False by (simp add: tcp_send_def)
    have empty: "sq_contents (tc_queue d) = []" using False by (simp add: send_queue_empty_def)
    show ?thesis
    proof (cases rule: os_send_cases [OF s ne])
      case n: (1 n)
      have "stream_of e = stream_of c @ take n data"
        using n(4) empty d(2) os_send_queue [OF s] by (simp add: stream_of_def del: sq_contents_eq_Nil)
      then show ?thesis
        using r' n buf [of e n] e by (cases "n < length data") (auto intro!: exI [of _ n])
    next
      case refused: 2
      then have "stream_of e = stream_of c" using d(2) os_send_queue [OF s] by (simp add: stream_of_def)
      then show ?thesis
        using r' refused e ne buf [of e 0]
        by (cases "sent = 0") (auto intro!: exI [of _ 0] split: if_splits)
    qed
  qed
  then show ?thesis by blast
qed


section \<open>Properties\<close>

text \<open>A caller's sequence of sends: the return values and the final connection.\<close>

fun tcp_sends :: "tcp_connection \<Rightarrow> bytes list \<Rightarrow> int list \<times> tcp_connection" where
  "tcp_sends c [] = ([], c)"
| "tcp_sends c (d # ds) =
     (case tcp_send c d of (r, c) \<Rightarrow> case tcp_sends c ds of (rs, c) \<Rightarrow> (r # rs, c))"

text \<open>
  C11. The send path is a FIFO byte stream. Whatever the kernel does with each \<^verbatim>\<open>send\<close>, after any
  sequence of \<^verbatim>\<open>tcp_send\<close> calls the bytes on the wire followed by the bytes in the ring buffer are
  the earlier stream followed by a prefix of each chunk in call order, and the prefix is the whole
  chunk exactly when the call returned the chunk's length; the ring invariant is kept.
\<close>

theorem tcp_stream_in_order:
  assumes "conn_ok c" and "tcp_sends c chunks = (rs, c')" and "[] \<notin> set chunks"
  shows "conn_ok c' \<and> (\<exists>ks. length ks = length chunks \<and> length rs = length chunks
    \<and> tc_wire c' @ sq_contents (tc_queue c')
        = (tc_wire c @ sq_contents (tc_queue c)) @ concat (map2 take ks chunks)
    \<and> (\<forall>i < length chunks. (ks ! i \<ge> length (chunks ! i)) = (rs ! i = int (length (chunks ! i)))))"
  using assms
proof (induction chunks arbitrary: c rs)
  case Nil
  then show ?case by simp
next
  case (Cons d ds)
  obtain r e where r: "tcp_send c d = (r, e)" by (cases "tcp_send c d")
  obtain qs where qs: "tcp_sends e ds = (qs, c')" "rs = r # qs"
    using Cons.prems(2) r by (auto split: prod.splits)
  obtain k where k: "conn_ok e" "k \<le> length d" "stream_of e = stream_of c @ take k d"
    "if k = length d then r = int (length d)
     else r = err_code DISTRIC_ERR_BACKPRESSURE \<or> r = err_code DISTRIC_ERR_IO"
    using tcp_send_spec [OF r Cons.prems(1)] Cons.prems(3) by auto
  obtain ks where ks: "conn_ok c'" "length ks = length ds" "length qs = length ds"
    "tc_wire c' @ sq_contents (tc_queue c') = stream_of e @ concat (map2 take ks ds)"
    "\<forall>i < length ds. (ks ! i \<ge> length (ds ! i)) = (qs ! i = int (length (ds ! i)))"
    using Cons.IH [OF k(1) qs(1)] Cons.prems(3) by (auto simp: stream_of_def)
  have "(length d \<le> k) = (r = int (length d))" using k(2,4) by (auto split: if_splits)
  then show ?case
    using ks k(3) qs(2)
    by (intro conjI exI [of _ "k # ks"]) (auto simp: stream_of_def nth_Cons split: nat.split)
qed

definition sample_queue :: "nat \<Rightarrow> send_queue" where
  "sample_queue n = \<lparr>sq_buf = replicate n 0, sq_capacity = n, sq_hwm = n, sq_head = 0, sq_len = 0\<rparr>"

definition sample_conn :: "nat \<Rightarrow> send_outcome list \<Rightarrow> tcp_connection" where
  "sample_conn n ks = \<lparr>tc_queue = sample_queue n, tc_kernel = ks, tc_wire = [], tc_incoming = []\<rparr>"

lemma sample_conn_ok: "0 < n \<Longrightarrow> conn_ok (sample_conn n ks)"
  by (simp add: sample_conn_def sample_queue_def sq_ok_def)

theorem tcp_stream_in_order_witness:
  "case tcp_sends (sample_conn 4 [Accepts 0]) [[1, 2, 3], [4, 5, 6], [7, 8]] of
     (rs, c') \<Rightarrow> conn_ok c' \<and> rs = [3, err_code DISTRIC_ERR_BACKPRESSURE, 2]
       \<and> tc_wire c' @ sq_contents (tc_queue c') = [1, 2, 3, 7, 8]"
proof -
  obtain rs c' where s: "tcp_sends (sample_conn 4 [Accepts 0]) [[1, 2, 3], [4, 5, 6], [7, 8]] = (rs, c')"
    by (cases "tcp_sends (sample_conn 4 [Accepts 0]) [[1, 2, 3], [4, 5, 6], [7, 8]]")
  have "fst (tcp_sends (sample_conn 4 [Accepts 0]) [[1, 2, 3], [4, 5, 6], [7, 8]])
      = [3, err_code DISTRIC_ERR_BACKPRESSURE, 2]"
    "stream_of (snd (tcp_sends (sample_conn 4 [Accepts 0]) [[1, 2, 3], [4, 5, 6], [7, 8]]))
      = [1, 2, 3, 7, 8]"
    by code_simp+
  then have rs: "rs = [3, err_code DISTRIC_ERR_BACKPRESSURE, 2]" 
    and st: "tc_wire c' @ sq_contents (tc_queue c') = [1, 2, 3, 7, 8]"
    unfolding s by (simp_all add: stream_of_def)
  have "conn_ok c'"
    using tcp_stream_in_order [OF sample_conn_ok s] by simp
  then show ?thesis using s rs st by simp
qed


text \<open>
  The return value of \<^verbatim>\<open>tcp_send\<close> is never 0, the value of \<^verbatim>\<open>DISTRIC_OK\<close>: it is the length of
  the data or a negative code.
\<close>

lemma tcp_send_nonzero: "tcp_send c data = (r, c') \<Longrightarrow> r \<noteq> 0"
  by (auto simp: tcp_send_def split: prod.splits if_splits option.splits)

text \<open>
  A message that the kernel takes only in part and whose rest does not fit into the send queue
  is reported as not accepted (\<^verbatim>\<open>DISTRIC_ERR_BACKPRESSURE\<close>) although its first bytes are already
  on the wire: the peer's stream then contains a fragment of it.
\<close>

lemma backpressure_after_partial_send:
  assumes "sq_len (tc_queue c) = 0" and "tc_kernel c = Accepts k # ks"
    and "Suc k < length data" and "length data - Suc k > send_queue_free (tc_queue c)"
  shows "tcp_send c data
    = (err_code DISTRIC_ERR_BACKPRESSURE,
       c\<lparr>tc_kernel := ks, tc_wire := tc_wire c @ take (Suc k) data\<rparr>)"
proof -
  have "send_queue_push (tc_queue c) (drop (Suc k) data) = None"
    using assms(4) by (intro sq.push_refused) simp
  moreover have "nat (1 + int k) = Suc k" by simp
  ultimately show ?thesis
    using assms(1-3)
    by (auto simp: tcp_send_def os_send_def tcp_buffer_def send_queue_empty_def Let_def)
qed

lemma backpressure_after_partial_send_witness:
  "tcp_send (sample_conn 2 [Accepts 0]) [1, 2, 3, 4]
    = (err_code DISTRIC_ERR_BACKPRESSURE, (sample_conn 2 [])\<lparr>tc_wire := [1]\<rparr>)"
  using backpressure_after_partial_send [of "sample_conn 2 [Accepts 0]" 0 "[]" "[1, 2, 3, 4]"]
  by (simp add: sample_conn_def sample_queue_def send_queue_free_def)

section \<open>Sending does not touch the receive side\<close>

lemma os_send_incoming: "os_send c data = (r, c') \<Longrightarrow> tc_incoming c' = tc_incoming c"
  by (auto simp: os_send_def Let_def split: list.splits send_outcome.splits)

lemma flush_incoming:
  "flush_send_queue_locked c = (r, c') \<Longrightarrow> tc_incoming c' = tc_incoming c"
proof (induction c arbitrary: r c' rule: flush_send_queue_locked.induct)
  case (1 c)
  let ?seg = "send_queue_peek (tc_queue c)"
  show ?case
  proof (cases "send_queue_empty (tc_queue c) \<or> ?seg = []")
    case True
    then show ?thesis using "1.prems" flush_stop [of c] by simp
  next
    case False
    obtain sent d where s: "os_send c ?seg = (sent, d)" by (cases "os_send c ?seg")
    then show ?thesis
      using "1.IH" [OF _ refl _ s [symmetric], of r c'] "1.prems" flush_sent [OF _ _ s] False
        os_send_incoming [OF s]
      by (auto split: if_splits)
  qed
qed

lemma tcp_send_incoming: "tcp_send c data = (r, c') \<Longrightarrow> tc_incoming c' = tc_incoming c"
  by (auto simp: tcp_send_def tcp_buffer_def split: prod.splits if_splits option.splits
      dest!: os_send_incoming flush_incoming)

section \<open>Reading a byte stream\<close>

lemma tcp_recv_result:
  "tcp_recv rx len t = (r, bs, rx') \<Longrightarrow>
     (0 < r \<and> r = int (length bs) \<and> length bs \<le> len) \<or> (r \<le> 0 \<and> bs = [])"
  by (induction rx len t rule: tcp_recv.induct) (auto split: if_splits)

end
