(* ===== verification/HandlerTable.thy ===== *)
theory HandlerTable
  imports Prelude
begin

text \<open>
  The dispatch table of the RPC server (\<^verbatim>\<open>libs/distric_protocol/src/rpc.c\<close>): 64 slots, open
  addressing with linear probing and tombstones. The locale \<open>registry\<close> is the contract of a
  finite map of bounded size; the table satisfies it for all message types other than the two
  sentinels, under the invariant that every live key is reachable along its probe sequence.
\<close>

section \<open>Slots and operations\<close>

text \<open>A handler together with its \<^verbatim>\<open>userdata\<close> is a value of type \<open>'h\<close>; \<open>None\<close> is NULL.\<close>

record 'h handler_slot =
  hs_msg_type :: u16
  hs_handler :: "'h option"

type_synonym 'h handler_table = "'h handler_slot list"

definition HANDLER_TABLE_SIZE :: nat where
  "HANDLER_TABLE_SIZE = 64"

definition HANDLER_TABLE_MASK :: nat where
  "HANDLER_TABLE_MASK = HANDLER_TABLE_SIZE - 1"

definition HANDLER_TOMBSTONE :: u16 where
  "HANDLER_TOMBSTONE = 0xFFFF"

definition empty_slot :: "'h handler_slot" where
  "empty_slot = \<lparr>hs_msg_type = 0, hs_handler = None\<rparr>"

definition empty_table :: "'h handler_table" where
  "empty_table = replicate HANDLER_TABLE_SIZE empty_slot"

definition handler_hash :: "u16 \<Rightarrow> nat" where
  "handler_hash msg_type = unat (drop_bit (32 - 6) (ucast msg_type * 2654435769 :: u32))"

text \<open>The positions that the three loops visit, in order.\<close>

definition probe_seq :: "u16 \<Rightarrow> nat list" where
  "probe_seq msg_type =
     (let idx = handler_hash msg_type AND HANDLER_TABLE_MASK
      in map (\<lambda>i. (idx + i) AND HANDLER_TABLE_MASK) [0..<HANDLER_TABLE_SIZE])"

fun find_from :: "'h handler_table \<Rightarrow> u16 \<Rightarrow> nat list \<Rightarrow> nat option" where
  "find_from table msg_type [] = None"
| "find_from table msg_type (p # ps) =
     (if hs_msg_type (table ! p) = 0 then None
      else if hs_msg_type (table ! p) = HANDLER_TOMBSTONE then find_from table msg_type ps
      else if hs_msg_type (table ! p) = msg_type then Some p
      else find_from table msg_type ps)"

definition handler_table_find :: "'h handler_table \<Rightarrow> u16 \<Rightarrow> 'h handler_slot option" where
  "handler_table_find table msg_type =
     map_option ((!) table) (find_from table msg_type (probe_seq msg_type))"

text \<open>The slot an insertion writes; \<open>tomb\<close> is the first tombstone seen.\<close>

fun insert_scan :: "'h handler_table \<Rightarrow> u16 \<Rightarrow> nat option \<Rightarrow> nat list \<Rightarrow> nat option" where
  "insert_scan table msg_type tomb [] = tomb"
| "insert_scan table msg_type tomb (p # ps) =
     (if hs_msg_type (table ! p) = msg_type then Some p
      else
        let tomb = (if hs_msg_type (table ! p) = HANDLER_TOMBSTONE \<and> tomb = None then Some p else tomb)
        in if hs_msg_type (table ! p) = 0 then Some (case tomb of Some q \<Rightarrow> q | None \<Rightarrow> p)
           else insert_scan table msg_type tomb ps)"

definition handler_table_insert ::
  "'h handler_table \<Rightarrow> u16 \<Rightarrow> 'h \<Rightarrow> distric_err \<times> 'h handler_table" where
  "handler_table_insert table msg_type handler =
     (case insert_scan table msg_type None (probe_seq msg_type) of
        None \<Rightarrow> (DISTRIC_ERR_REGISTRY_FULL, table)
      | Some p \<Rightarrow>
          (DISTRIC_OK, table[p := \<lparr>hs_msg_type = msg_type, hs_handler = Some handler\<rparr>]))"

definition handler_table_remove :: "'h handler_table \<Rightarrow> u16 \<Rightarrow> distric_err \<times> 'h handler_table" where
  "handler_table_remove table msg_type =
     (case find_from table msg_type (probe_seq msg_type) of
        None \<Rightarrow> (DISTRIC_ERR_NOT_FOUND, table)
      | Some p \<Rightarrow>
          (DISTRIC_OK, table[p := \<lparr>hs_msg_type = HANDLER_TOMBSTONE, hs_handler = None\<rparr>]))"

text \<open>What the dispatch of the server does with the slot it finds.\<close>

definition lookup_handler :: "'h handler_table \<Rightarrow> u16 \<Rightarrow> 'h option" where
  "lookup_handler table msg_type =
     (case handler_table_find table msg_type of None \<Rightarrow> None | Some slot \<Rightarrow> hs_handler slot)"

section \<open>The contract of a bounded registry\<close>

text \<open>
  \<open>key\<close>: the admissible keys; \<open>size\<close>: the number of registered keys; \<open>bound\<close>: the capacity. A registration
  replaces or adds unless the registry is full, a removal of a registered key forgets it, and
  neither touches other keys.
\<close>

locale registry =
  fixes valid :: "'t \<Rightarrow> bool"
    and key :: "'k \<Rightarrow> bool"
    and lookup :: "'t \<Rightarrow> 'k \<Rightarrow> 'h option"
    and add :: "'t \<Rightarrow> 'k \<Rightarrow> 'h \<Rightarrow> distric_err \<times> 't"
    and remove :: "'t \<Rightarrow> 'k \<Rightarrow> distric_err \<times> 't"
    and bound :: nat
  assumes keys_finite: "valid t \<Longrightarrow> finite {k. key k \<and> lookup t k \<noteq> None}"
    and add_ok: "valid t \<Longrightarrow> key k
      \<Longrightarrow> lookup t k \<noteq> None \<or> card {k. key k \<and> lookup t k \<noteq> None} < bound
      \<Longrightarrow> \<exists>t'. add t k h = (DISTRIC_OK, t') \<and> valid t'
            \<and> (\<forall>k'. key k' \<longrightarrow> lookup t' k' = (if k' = k then Some h else lookup t k'))"
    and add_full: "valid t \<Longrightarrow> key k
      \<Longrightarrow> \<not> (lookup t k \<noteq> None \<or> card {k. key k \<and> lookup t k \<noteq> None} < bound)
      \<Longrightarrow> add t k h = (DISTRIC_ERR_REGISTRY_FULL, t)"
    and remove_ok: "valid t \<Longrightarrow> key k \<Longrightarrow> lookup t k \<noteq> None
      \<Longrightarrow> \<exists>t'. remove t k = (DISTRIC_OK, t') \<and> valid t'
            \<and> (\<forall>k'. key k' \<longrightarrow> lookup t' k' = (if k' = k then None else lookup t k'))"
    and remove_absent: "valid t \<Longrightarrow> key k \<Longrightarrow> lookup t k = None
      \<Longrightarrow> remove t k = (DISTRIC_ERR_NOT_FOUND, t)"
begin

text \<open>The finite map a registry stands for, restricted to the admissible keys.\<close>

definition view :: "'t \<Rightarrow> 'k \<Rightarrow> 'h option" where
  "view t k = (if key k then lookup t k else None)"

lemma dom_view: "dom (view t) = {k. key k \<and> lookup t k \<noteq> None}"
  by (auto simp: view_def split: if_splits)

lemma view_add:
  assumes "valid t" and "key k"
  shows "valid (snd (add t k h)) \<and>
    (if view t k \<noteq> None \<or> card (dom (view t)) < bound
     then fst (add t k h) = DISTRIC_OK \<and> view (snd (add t k h)) = (view t)(k \<mapsto> h)
     else fst (add t k h) = DISTRIC_ERR_REGISTRY_FULL \<and> view (snd (add t k h)) = view t)"
proof (cases "lookup t k \<noteq> None \<or> card (dom (view t)) < bound")
  case True
  then obtain t' where "add t k h = (DISTRIC_OK, t')" "valid t'"
    "\<forall>k'. key k' \<longrightarrow> lookup t' k' = (if k' = k then Some h else lookup t k')"
    using add_ok [OF assms] unfolding dom_view by blast
  then show ?thesis using True assms by (auto simp: view_def)
next
  case False
  then show ?thesis
    using add_full [OF assms, of h] assms unfolding dom_view by (simp add: view_def)
qed

lemma view_remove:
  assumes "valid t" and "key k"
  shows "valid (snd (remove t k)) \<and> view (snd (remove t k)) = (view t)(k := None)
    \<and> (fst (remove t k) = DISTRIC_OK) = (view t k \<noteq> None)"
proof (cases "lookup t k")
  case None
  then show ?thesis using remove_absent [OF assms] assms by (auto simp: view_def)
next
  case (Some h)
  then show ?thesis using remove_ok [OF assms] assms by (auto simp: view_def)
qed

end

section \<open>Probe sequences\<close>

lemma and_mask_mod: "i AND HANDLER_TABLE_MASK = i mod HANDLER_TABLE_SIZE"
proof -
  have "HANDLER_TABLE_MASK = mask 6" by (simp add: HANDLER_TABLE_MASK_def HANDLER_TABLE_SIZE_def mask_eq_exp_minus_1)
  then have "i AND HANDLER_TABLE_MASK = take_bit 6 i" by (simp add: take_bit_eq_mask)
  then show ?thesis by (simp add: HANDLER_TABLE_SIZE_def take_bit_eq_mod)
qed

lemma probe_seq_props:
  shows "distinct (probe_seq m)" and "set (probe_seq m) = {..<HANDLER_TABLE_SIZE}"
proof -
  let ?n = HANDLER_TABLE_SIZE
  let ?h = "handler_hash m mod ?n"
  have seq: "probe_seq m = map (\<lambda>i. (?h + i) mod ?n) [0..<?n]"
    by (simp add: probe_seq_def and_mask_mod Let_def)
  have "0 < ?n" by (simp add: HANDLER_TABLE_SIZE_def)
  then show "distinct (probe_seq m)" "set (probe_seq m) = {..<HANDLER_TABLE_SIZE}"
    unfolding seq by (rule mod_probe)+
qed

section \<open>Invariant\<close>

definition user_key :: "u16 \<Rightarrow> bool" where
  "user_key m \<longleftrightarrow> m \<noteq> 0 \<and> m \<noteq> HANDLER_TOMBSTONE"

abbreviation key_at :: "'h handler_table \<Rightarrow> nat \<Rightarrow> u16" where
  "key_at t p \<equiv> hs_msg_type (t ! p)"

text \<open>Every live key has a handler, occurs once, and is reachable along its probe sequence.\<close>

definition reachable_key :: "'h handler_table \<Rightarrow> u16 \<Rightarrow> bool" where
  "reachable_key t m \<longleftrightarrow>
     (\<forall>xs p ys. probe_seq m = xs @ p # ys \<longrightarrow> key_at t p = m \<longrightarrow> (\<forall>x \<in> set xs. key_at t x \<noteq> 0))"

definition table_ok :: "'h handler_table \<Rightarrow> bool" where
  "table_ok t \<longleftrightarrow> length t = HANDLER_TABLE_SIZE
     \<and> (\<forall>m. user_key m \<longrightarrow> reachable_key t m)
     \<and> (\<forall>p < HANDLER_TABLE_SIZE. user_key (key_at t p) \<longrightarrow> hs_handler (t ! p) \<noteq> None)
     \<and> (\<forall>p < HANDLER_TABLE_SIZE. \<forall>q < HANDLER_TABLE_SIZE.
          user_key (key_at t p) \<longrightarrow> key_at t p = key_at t q \<longrightarrow> p = q)"

lemma table_ok_unique:
  "table_ok t \<Longrightarrow> p < HANDLER_TABLE_SIZE \<Longrightarrow> q < HANDLER_TABLE_SIZE \<Longrightarrow> user_key (key_at t p)
     \<Longrightarrow> key_at t q = key_at t p \<Longrightarrow> q = p"
  unfolding table_ok_def by metis

lemma find_from_absent: "user_key m \<Longrightarrow> m \<notin> key_at t ` set ps \<Longrightarrow> find_from t m ps = None"
  by (induction ps) auto

lemma find_from_hit:
  "user_key m \<Longrightarrow> key_at t p = m \<Longrightarrow> \<forall>x \<in> set xs. key_at t x \<noteq> 0 \<and> key_at t x \<noteq> m
     \<Longrightarrow> find_from t m (xs @ p # ys) = Some p"
  by (induction xs) (auto simp: user_key_def)

lemma scan_hit:
  "user_key m \<Longrightarrow> key_at t p = m \<Longrightarrow> \<forall>x \<in> set xs. key_at t x \<noteq> 0 \<and> key_at t x \<noteq> m
     \<Longrightarrow> insert_scan t m tomb (xs @ p # ys) = Some p"
  by (induction xs arbitrary: tomb) (auto simp: user_key_def)

lemma scan_absent:
  assumes "m \<notin> key_at t ` set ps" and "insert_scan t m tomb ps = Some q"
  shows "tomb = Some q \<or> (tomb = None \<and>
    (\<exists>xs ys. ps = xs @ q # ys \<and> \<not> user_key (key_at t q) \<and> (\<forall>x \<in> set xs. key_at t x \<noteq> 0)))"
  using assms
proof (induction ps arbitrary: tomb)
  case (Cons p ps)
  let ?tomb = "if key_at t p = HANDLER_TOMBSTONE \<and> tomb = None then Some p else tomb"
  have here: ?case if "tomb = None" "q = p" "\<not> user_key (key_at t p)"
    using that by (intro disjI2 conjI exI [of _ "[]"] exI [of _ ps]) auto
  show ?case
  proof (cases "key_at t p = 0")
    case True
    then show ?thesis
      using Cons.prems here by (auto simp: user_key_def Let_def split: option.splits if_splits)
  next
    case False
    then have s: "insert_scan t m ?tomb ps = Some q"
      using Cons.prems by (auto simp: Let_def)
    have "m \<notin> key_at t ` set ps" using Cons.prems(1) by simp
    from Cons.IH [OF this s] consider "?tomb = Some q"
      | xs ys where "?tomb = None" "ps = xs @ q # ys" "\<not> user_key (key_at t q)" "\<forall>x \<in> set xs. key_at t x \<noteq> 0"
      by blast
    then show ?thesis
    proof cases
      case 1
      then show ?thesis using here by (auto simp: user_key_def split: if_splits)
    next
      case 2
      then show ?thesis using False by (intro disjI2 conjI exI [of _ "p # xs"] exI [of _ ys]) (auto split: if_splits)
    qed
  qed
qed simp

lemma scan_tomb: "insert_scan t m (Some q) ps \<noteq> None"
  by (induction ps) (auto simp: Let_def)

lemma scan_full:
  assumes "m \<notin> key_at t ` set ps" and "insert_scan t m tomb ps = None"
  shows "\<forall>p \<in> set ps. user_key (key_at t p)"
  using assms
  by (induction ps arbitrary: tomb) (auto simp: Let_def user_key_def scan_tomb split: if_splits)

lemma probe_split:
  assumes "p < HANDLER_TABLE_SIZE"
  obtains xs ys where "probe_seq m = xs @ p # ys" and "p \<notin> set xs"
  using assms split_list_first [of p "probe_seq m"] probe_seq_props(2) [of m] by auto

lemma find_spec:
  assumes ok: "table_ok t" and m: "user_key m"
  shows "find_from t m (probe_seq m) = Some p \<longleftrightarrow> p < HANDLER_TABLE_SIZE \<and> key_at t p = m"
proof (cases "\<exists>q < HANDLER_TABLE_SIZE. key_at t q = m")
  case True
  then obtain q where q: "q < HANDLER_TABLE_SIZE" "key_at t q = m" by blast
  obtain xs ys where s: "probe_seq m = xs @ q # ys" "q \<notin> set xs" using q(1) by (rule probe_split)
  have "key_at t x \<noteq> m" if "x \<in> set xs" for x
  proof -
    have "x < HANDLER_TABLE_SIZE" "x \<noteq> q"
      using that s probe_seq_props(2) [of m] by (auto simp flip: lessThan_iff)
    then show ?thesis using table_ok_unique [OF ok q(1), of x] q(2) m by auto
  qed
  moreover have "\<forall>x \<in> set xs. key_at t x \<noteq> 0"
    using ok m s(1) q(2) by (auto simp: table_ok_def reachable_key_def)
  ultimately have f: "find_from t m (probe_seq m) = Some q"
    using find_from_hit [OF m q(2), of xs ys] s(1) by simp
  have "p < HANDLER_TABLE_SIZE \<and> key_at t p = m \<longleftrightarrow> p = q"
    using table_ok_unique [OF ok q(1), of p] q m by metis
  then show ?thesis unfolding f by auto
next
  case False
  then have "m \<notin> key_at t ` set (probe_seq m)" by (auto simp: probe_seq_props)
  then have "find_from t m (probe_seq m) = None" by (rule find_from_absent [OF m])
  then show ?thesis using False by (metis option.distinct(1))
qed


lemma lookup_handler_eq:
  assumes "table_ok t" and "user_key m"
  shows "lookup_handler t m = Some h \<longleftrightarrow>
    (\<exists>p < HANDLER_TABLE_SIZE. key_at t p = m \<and> hs_handler (t ! p) = Some h)"
proof (cases "find_from t m (probe_seq m)")
  case None
  then show ?thesis
    using find_spec [OF assms] by (auto simp: lookup_handler_def handler_table_find_def)
next
  case (Some p)
  then show ?thesis
    using find_spec [OF assms, of p] table_ok_unique [OF assms(1), of p] assms(2)
    by (auto simp: lookup_handler_def handler_table_find_def)
qed

lemma lookup_handler_None:
  assumes "table_ok t" and "user_key m"
  shows "lookup_handler t m = None \<longleftrightarrow> (\<forall>p < HANDLER_TABLE_SIZE. key_at t p \<noteq> m)"
  using lookup_handler_eq [OF assms] assms unfolding table_ok_def
  by (metis not_None_eq)

section \<open>Updates\<close>

text \<open>Overwriting slot \<open>q\<close>, which is free or holds \<open>m\<close>, with the live key \<open>m\<close>.\<close>

lemma table_ok_write:
  assumes ok: "table_ok t" and m: "user_key m" and q: "q < HANDLER_TABLE_SIZE"
    and chain: "probe_seq m = xs @ q # ys" "\<forall>x \<in> set xs. key_at t x \<noteq> 0"
    and only: "\<forall>p < HANDLER_TABLE_SIZE. p \<noteq> q \<longrightarrow> key_at t p \<noteq> m"
    and t': "t' = t[q := \<lparr>hs_msg_type = m, hs_handler = Some h\<rparr>]"
  shows "table_ok t'"
proof -
  have len: "length t = HANDLER_TABLE_SIZE" using ok by (simp add: table_ok_def)
  have k: "key_at t' p = (if p = q then m else key_at t p)" for p
    using q len by (simp add: t')
  have "reachable_key t' k'" if k': "user_key k'" for k'
    unfolding reachable_key_def
  proof (intro allI impI ballI)
    fix us p vs x
    assume s: "probe_seq k' = us @ p # vs" and p: "key_at t' p = k'" and x: "x \<in> set us"
    show "key_at t' x \<noteq> 0"
    proof (cases "k' = m")
      case True
      have "p \<in> set (probe_seq m)" using s True by simp
      then have "p = q" using p True only k probe_seq_props(2) [of m] by (auto split: if_splits)
      moreover have "q \<notin> set us" "q \<notin> set vs"
        using probe_seq_props(1) [of m] unfolding s [unfolded True] using \<open>p = q\<close> by simp_all
      ultimately have "us = xs"
        using s chain(1) True append_Cons_eq_iff [of q us vs xs ys] by auto
      then show ?thesis using x chain(2) m by (auto simp: k user_key_def)
    next
      case False
      then have "key_at t p = k'" using p k by (auto split: if_splits)
      then show ?thesis
        using ok k' s x m by (auto simp: k table_ok_def reachable_key_def user_key_def)
    qed
  qed
  moreover have "p1 = p2" if "p1 < HANDLER_TABLE_SIZE" "p2 < HANDLER_TABLE_SIZE"
    "user_key (key_at t' p1)" "key_at t' p1 = key_at t' p2" for p1 p2
    using that only table_ok_unique [OF ok, of p2 p1] by (auto simp: k split: if_splits)
  moreover have "hs_handler (t' ! p) \<noteq> None" if "p < HANDLER_TABLE_SIZE" "user_key (key_at t' p)" for p
    using that ok len by (cases "p = q") (auto simp: t' table_ok_def)
  moreover have "length t' = HANDLER_TABLE_SIZE" using len by (simp add: t')
  ultimately show ?thesis unfolding table_ok_def by blast
qed


lemma table_ok_tombstone:
  assumes ok: "table_ok t" and q: "q < HANDLER_TABLE_SIZE"
    and t': "t' = t[q := \<lparr>hs_msg_type = HANDLER_TOMBSTONE, hs_handler = None\<rparr>]"
  shows "table_ok t'"
proof -
  have len: "length t = HANDLER_TABLE_SIZE" using ok by (simp add: table_ok_def)
  have k: "key_at t' p = (if p = q then HANDLER_TOMBSTONE else key_at t p)" for p
    using q len by (simp add: t')
  have live: "key_at t p = k'" if "key_at t' p = k'" "user_key k'" for p k'
    using that by (auto simp: k user_key_def split: if_splits)
  have "reachable_key t' k'" if k': "user_key k'" for k'
    unfolding reachable_key_def
  proof (intro allI impI ballI)
    fix us p vs x
    assume s: "probe_seq k' = us @ p # vs" and p: "key_at t' p = k'" and x: "x \<in> set us"
    have "key_at t x \<noteq> 0"
      using ok k' s x live [OF p k'] by (auto simp: table_ok_def reachable_key_def)
    then show "key_at t' x \<noteq> 0" by (simp add: k HANDLER_TOMBSTONE_def)
  qed
  moreover have "p1 = p2" if "p1 < HANDLER_TABLE_SIZE" "p2 < HANDLER_TABLE_SIZE"
    "user_key (key_at t' p1)" "key_at t' p1 = key_at t' p2" for p1 p2
    using table_ok_unique [OF ok that(2,1)] live [of p1 "key_at t' p1"] live [of p2 "key_at t' p1"] that
    by simp
  moreover have "hs_handler (t' ! p) \<noteq> None" if "p < HANDLER_TABLE_SIZE" "user_key (key_at t' p)" for p
    using that ok len by (cases "p = q") (auto simp: t' table_ok_def user_key_def)
  moreover have "length t' = HANDLER_TABLE_SIZE" using len by (simp add: t')
  ultimately show ?thesis unfolding table_ok_def by blast
qed

text \<open>The slot chosen by an insertion.\<close>

lemma insert_slot:
  assumes ok: "table_ok t" and m: "user_key m"
    and s: "insert_scan t m None (probe_seq m) = Some q"
  shows "q < HANDLER_TABLE_SIZE \<and> (\<exists>xs ys. probe_seq m = xs @ q # ys \<and> (\<forall>x \<in> set xs. key_at t x \<noteq> 0))
    \<and> (\<forall>p < HANDLER_TABLE_SIZE. p \<noteq> q \<longrightarrow> key_at t p \<noteq> m)
    \<and> (key_at t q = m \<or> \<not> user_key (key_at t q))"
proof (cases "find_from t m (probe_seq m)")
  case (Some p)
  then have p: "p < HANDLER_TABLE_SIZE" "key_at t p = m" using find_spec [OF ok m] by auto
  have uniq: "\<forall>p' < HANDLER_TABLE_SIZE. p' \<noteq> p \<longrightarrow> key_at t p' \<noteq> m"
    using table_ok_unique [OF ok p(1)] p(2) m by metis
  obtain xs ys where c: "probe_seq m = xs @ p # ys" "p \<notin> set xs" using p(1) by (rule probe_split)
  have nz: "\<forall>x \<in> set xs. key_at t x \<noteq> 0"
    using ok m c(1) p(2) by (auto simp: table_ok_def reachable_key_def)
  have "\<forall>x \<in> set xs. x < HANDLER_TABLE_SIZE" using c(1) probe_seq_props(2) [of m] by auto
  then have "\<forall>x \<in> set xs. key_at t x \<noteq> m" using uniq c(2) by blast
  then have "q = p" using scan_hit [OF m p(2), of xs None ys] nz s c(1) by auto
  then show ?thesis using p c(1) nz uniq by blast
next
  case None
  then have absent: "\<forall>p < HANDLER_TABLE_SIZE. key_at t p \<noteq> m"
    using find_spec [OF ok m] by (metis option.distinct(1))
  then have "m \<notin> key_at t ` set (probe_seq m)" by (auto simp: probe_seq_props)
  from scan_absent [OF this s] obtain xs ys where
    "probe_seq m = xs @ q # ys" "\<not> user_key (key_at t q)" "\<forall>x \<in> set xs. key_at t x \<noteq> 0"
    by blast
  moreover have "q < HANDLER_TABLE_SIZE" using calculation(1) probe_seq_props(2) [of m] by auto
  ultimately show ?thesis using absent by blast
qed

text \<open>The keys in use, and the count that decides whether an insertion finds room.\<close>

definition live_keys :: "'h handler_table \<Rightarrow> u16 set" where
  "live_keys t = {m. user_key m \<and> lookup_handler t m \<noteq> None}"

lemma live_keys_eq:
  assumes "table_ok t"
  shows "live_keys t = key_at t ` {p. p < HANDLER_TABLE_SIZE \<and> user_key (key_at t p)}"
  using lookup_handler_None [OF assms] by (fastforce simp: live_keys_def)

lemma finite_live_keys: "table_ok t \<Longrightarrow> finite (live_keys t)"
  by (simp add: live_keys_eq)

lemma card_live_keys:
  assumes ok: "table_ok t"
  shows "card (live_keys t) = card {p. p < HANDLER_TABLE_SIZE \<and> user_key (key_at t p)}"
proof -
  have "inj_on (key_at t) {p. p < HANDLER_TABLE_SIZE \<and> user_key (key_at t p)}"
    by (rule inj_onI) (use table_ok_unique [OF ok] in blast)
  then show ?thesis by (simp add: live_keys_eq [OF ok] card_image)
qed


lemma insert_finds_room:
  assumes ok: "table_ok t" and m: "user_key m"
  shows "insert_scan t m None (probe_seq m) = None
    \<longleftrightarrow> \<not> (lookup_handler t m \<noteq> None \<or> card (live_keys t) < HANDLER_TABLE_SIZE)"
proof -
  let ?L = "{p. p < HANDLER_TABLE_SIZE \<and> user_key (key_at t p)}"
  have all: "card ?L < HANDLER_TABLE_SIZE \<longleftrightarrow> ?L \<noteq> {..<HANDLER_TABLE_SIZE}"
  proof -
    have "?L \<subseteq> {..<HANDLER_TABLE_SIZE}" by auto
    then show ?thesis
      by (metis card_lessThan card_seteq finite_lessThan le_eq_less_or_eq nat_less_le not_le psubset_card_mono psubset_eq)
  qed
  show ?thesis
  proof (cases "insert_scan t m None (probe_seq m)")
    case None
    have absent: "\<forall>p < HANDLER_TABLE_SIZE. key_at t p \<noteq> m"
    proof (rule ccontr)
      assume "\<not> ?thesis"
      then obtain p where p: "p < HANDLER_TABLE_SIZE" "key_at t p = m" by blast
      then have f: "find_from t m (probe_seq m) = Some p" using find_spec [OF ok m] by blast
      obtain xs ys where c: "probe_seq m = xs @ p # ys" "p \<notin> set xs" using p(1) by (rule probe_split)
      have "\<forall>x \<in> set xs. key_at t x \<noteq> 0"
        using ok m c(1) p(2) by (auto simp: table_ok_def reachable_key_def)
      moreover have "\<forall>x \<in> set xs. key_at t x \<noteq> m"
        using find_spec [OF ok m] f c probe_seq_props(2) [of m]
        by (metis Un_iff lessThan_iff option.inject set_append)
      ultimately show False using scan_hit [OF m p(2), of xs None ys] None c(1) by auto
    qed
    then have "m \<notin> key_at t ` set (probe_seq m)" by (auto simp: probe_seq_props)
    from scan_full [OF this None] have "?L = {..<HANDLER_TABLE_SIZE}"
      using probe_seq_props(2) [of m] by auto
    then show ?thesis
      using None absent lookup_handler_None [OF ok m] card_live_keys [OF ok] all by simp
  next
    case (Some q)
    then show ?thesis
      using insert_slot [OF ok m Some] lookup_handler_None [OF ok m] card_live_keys [OF ok] all m
      by auto
  qed
qed

lemma lookup_after_insert:
  assumes ok: "table_ok t" and m: "user_key m"
    and s: "insert_scan t m None (probe_seq m) = Some q"
    and t': "t' = t[q := \<lparr>hs_msg_type = m, hs_handler = Some h\<rparr>]"
  shows "table_ok t'"
    and "user_key k \<Longrightarrow> lookup_handler t' k = (if k = m then Some h else lookup_handler t k)"
proof -
  have q: "q < HANDLER_TABLE_SIZE" "\<forall>p < HANDLER_TABLE_SIZE. p \<noteq> q \<longrightarrow> key_at t p \<noteq> m"
    "key_at t q = m \<or> \<not> user_key (key_at t q)"
    using insert_slot [OF ok m s] by auto
  show ok': "table_ok t'"
    using insert_slot [OF ok m s] table_ok_write [OF ok m q(1) _ _ q(2) t'] by blast
  have len: "length t = HANDLER_TABLE_SIZE" using ok by (simp add: table_ok_def)
  have k: "t' ! p = (if p = q then \<lparr>hs_msg_type = m, hs_handler = Some h\<rparr> else t ! p)" for p
    using q(1) len by (simp add: t')
  show "lookup_handler t' k = (if k = m then Some h else lookup_handler t k)" if uk: "user_key k"
  proof (cases "k = m")
    case True
    then show ?thesis using lookup_handler_eq [OF ok' m, of h] q(1) by (auto simp: k)
  next
    case False
    have "lookup_handler t' k = Some h' \<longleftrightarrow> lookup_handler t k = Some h'" for h'
      unfolding lookup_handler_eq [OF ok' uk] lookup_handler_eq [OF ok uk]
      using False q(3) uk by (auto simp: k)
    then show ?thesis using False by (metis option.exhaust)
  qed
qed

lemma lookup_after_remove:
  assumes ok: "table_ok t" and m: "user_key m"
    and s: "find_from t m (probe_seq m) = Some q"
    and t': "t' = t[q := \<lparr>hs_msg_type = HANDLER_TOMBSTONE, hs_handler = None\<rparr>]"
  shows "table_ok t'"
    and "user_key k \<Longrightarrow> lookup_handler t' k = (if k = m then None else lookup_handler t k)"
proof -
  have q: "q < HANDLER_TABLE_SIZE" "key_at t q = m" using find_spec [OF ok m] s by auto
  show ok': "table_ok t'" using table_ok_tombstone [OF ok q(1) t'] .
  have len: "length t = HANDLER_TABLE_SIZE" using ok by (simp add: table_ok_def)
  have k: "t' ! p = (if p = q then \<lparr>hs_msg_type = HANDLER_TOMBSTONE, hs_handler = None\<rparr> else t ! p)" for p
    using q(1) len by (simp add: t')
  show "lookup_handler t' k = (if k = m then None else lookup_handler t k)" if uk: "user_key k"
  proof (cases "k = m")
    case True
    have "key_at t' p \<noteq> m" if "p < HANDLER_TABLE_SIZE" for p
      using find_spec [OF ok m, of p] s m that by (cases "p = q") (auto simp: k user_key_def)
    then show ?thesis using lookup_handler_None [OF ok' m] True by simp
  next
    case False
    have "lookup_handler t' k = Some h' \<longleftrightarrow> lookup_handler t k = Some h'" for h'
      unfolding lookup_handler_eq [OF ok' uk] lookup_handler_eq [OF ok uk]
      using False q(2) uk by (auto simp: k user_key_def)
    then show ?thesis using False by (metis option.exhaust)
  qed
qed

interpretation ht: registry table_ok user_key lookup_handler handler_table_insert handler_table_remove
  HANDLER_TABLE_SIZE
proof unfold_locales
  fix t :: "'h handler_table" assume "table_ok t"
  then show "finite {k. user_key k \<and> lookup_handler t k \<noteq> None}"
    using finite_live_keys by (simp add: live_keys_def)
next
  fix t :: "'h handler_table" and k h
  assume a: "table_ok t" "user_key k"
    "lookup_handler t k \<noteq> None \<or> card {k. user_key k \<and> lookup_handler t k \<noteq> None} < HANDLER_TABLE_SIZE"
  then obtain q where "insert_scan t k None (probe_seq k) = Some q"
    using insert_finds_room [OF a(1,2)] by (auto simp: live_keys_def)
  then show "\<exists>t'. handler_table_insert t k h = (DISTRIC_OK, t') \<and> table_ok t'
      \<and> (\<forall>k'. user_key k' \<longrightarrow> lookup_handler t' k' = (if k' = k then Some h else lookup_handler t k'))"
    using lookup_after_insert [OF a(1,2)] by (auto simp: handler_table_insert_def)
next
  fix t :: "'h handler_table" and k h
  assume a: "table_ok t" "user_key k"
    "\<not> (lookup_handler t k \<noteq> None \<or> card {k. user_key k \<and> lookup_handler t k \<noteq> None} < HANDLER_TABLE_SIZE)"
  then have "insert_scan t k None (probe_seq k) = None"
    using insert_finds_room [OF a(1,2)] by (simp add: live_keys_def)
  then show "handler_table_insert t k h = (DISTRIC_ERR_REGISTRY_FULL, t)"
    by (simp add: handler_table_insert_def)
next
  fix t :: "'h handler_table" and k
  assume a: "table_ok t" "user_key k" "lookup_handler t k \<noteq> None"
  then obtain q where "find_from t k (probe_seq k) = Some q"
    by (auto simp: lookup_handler_def handler_table_find_def split: option.splits)
  then show "\<exists>t'. handler_table_remove t k = (DISTRIC_OK, t') \<and> table_ok t'
      \<and> (\<forall>k'. user_key k' \<longrightarrow> lookup_handler t' k' = (if k' = k then None else lookup_handler t k'))"
    using lookup_after_remove [OF a(1,2)] by (auto simp: handler_table_remove_def)
next
  fix t :: "'h handler_table" and k
  assume a: "table_ok t" "user_key k" "lookup_handler t k = None"
  then have "find_from t k (probe_seq k) = None"
    using lookup_handler_None [OF a(1,2)] find_spec [OF a(1,2)] by (metis not_None_eq)
  then show "handler_table_remove t k = (DISTRIC_ERR_NOT_FOUND, t)"
    by (simp add: handler_table_remove_def)
qed

lemma table_ok_empty: "table_ok (empty_table :: 'h handler_table)"
proof -
  have k: "key_at (empty_table :: 'h handler_table) p = 0" if "p < HANDLER_TABLE_SIZE" for p
    using that by (simp add: empty_table_def empty_slot_def)
  have "reachable_key (empty_table :: 'h handler_table) m" if "user_key m" for m
    unfolding reachable_key_def
  proof (intro allI impI)
    fix xs p ys assume s: "probe_seq m = xs @ p # ys" and p: "key_at (empty_table :: 'h handler_table) p = m"
    have "p < HANDLER_TABLE_SIZE" using s probe_seq_props(2) [of m] by auto
    then have "m = 0" using p k by simp
    then show "\<forall>x \<in> set xs. key_at (empty_table :: 'h handler_table) x \<noteq> 0"
      using that by (simp add: user_key_def)
  qed
  moreover have "length (empty_table :: 'h handler_table) = HANDLER_TABLE_SIZE" by (simp add: empty_table_def)
  ultimately show ?thesis using k by (simp add: table_ok_def user_key_def)
qed

lemma lookup_empty: "user_key m \<Longrightarrow> lookup_handler empty_table m = None"
  by (simp add: lookup_handler_None [OF table_ok_empty])
    (simp add: empty_table_def empty_slot_def user_key_def)


section \<open>Refinement of a bounded map\<close>

text \<open>A history of registrations and removals, on the table and on the map it stands for.\<close>

datatype 'h table_op = Register u16 'h | Unregister u16

fun op_key :: "'h table_op \<Rightarrow> u16" where
  "op_key (Register m h) = m"
| "op_key (Unregister m) = m"

fun table_step :: "'h handler_table \<Rightarrow> 'h table_op \<Rightarrow> 'h handler_table" where
  "table_step t (Register m h) = snd (handler_table_insert t m h)"
| "table_step t (Unregister m) = snd (handler_table_remove t m)"

fun map_step :: "(u16 \<Rightarrow> 'h option) \<Rightarrow> 'h table_op \<Rightarrow> (u16 \<Rightarrow> 'h option)" where
  "map_step f (Register m h) =
     (if f m \<noteq> None \<or> card (dom f) < HANDLER_TABLE_SIZE then f(m \<mapsto> h) else f)"
| "map_step f (Unregister m) = f(m := None)"

lemma table_step_refines:
  assumes "table_ok t" and "user_key (op_key x)"
  shows "table_ok (table_step t x) \<and> ht.view (table_step t x) = map_step (ht.view t) x"
proof (cases x)
  case (Register m h)
  then show ?thesis using ht.view_add [OF assms(1), of m h] assms(2) by (auto split: if_splits)
next
  case (Unregister m)
  then show ?thesis using ht.view_remove [OF assms(1), of m] assms(2) by simp
qed

lemma table_run_refines:
  assumes "list_all (\<lambda>x. user_key (op_key x)) xs"
  shows "table_ok (foldl table_step empty_table xs)
    \<and> ht.view (foldl table_step empty_table xs) = foldl map_step Map.empty xs"
  using assms
proof (induction xs rule: rev_induct)
  case Nil
  then show ?case using table_ok_empty by (auto simp: ht.view_def lookup_empty)
next
  case (snoc x xs)
  then show ?case using table_step_refines [of "foldl table_step empty_table xs" x] by simp
qed

text \<open>
  C12. The dispatch table of the RPC server refines a finite map bounded by 64 entries: after any
  sequence of \<^verbatim>\<open>rpc_server_register_handler\<close> and \<^verbatim>\<open>rpc_server_unregister_handler\<close> calls, with
  tombstones recycled and probe sequences wrapping around, the lookup of every message type finds
  exactly the handler last registered and not removed; a registration is refused only when all 64
  slots hold other live handlers.
\<close>

theorem dispatch_table_refines_map:
  assumes "list_all (\<lambda>x. user_key (op_key x)) xs" and "user_key m"
  shows "lookup_handler (foldl table_step empty_table xs) m = foldl map_step Map.empty xs m"
proof -
  have "ht.view (foldl table_step empty_table xs) m = foldl map_step Map.empty xs m"
    using table_run_refines [OF assms(1)] by simp
  then show ?thesis using assms(2) by (simp add: ht.view_def)
qed

definition sample_ops :: "nat table_op list" where
  "sample_ops = [Register 0x1001 1, Register 0x1003 2, Unregister 0x1001, Register 0x1005 3, Register 0x1003 4]"

theorem dispatch_table_refines_map_witness:
  "map (lookup_handler (foldl table_step empty_table sample_ops)) [0x1001, 0x1003, 0x1005]
     = [None, Some 4, Some 3]"
proof -
  have k: "list_all (\<lambda>x. user_key (op_key x)) sample_ops"
    by (simp add: sample_ops_def user_key_def HANDLER_TOMBSTONE_def)
  have "lookup_handler (foldl table_step empty_table sample_ops) m = foldl map_step Map.empty sample_ops m"
    if "user_key m" for m
    using dispatch_table_refines_map [OF k that] .
  then show ?thesis
    by (simp add: user_key_def HANDLER_TOMBSTONE_def) (simp add: sample_ops_def HANDLER_TABLE_SIZE_def dom_def)
qed

end
