(* ===== verification/Rpc.thy ===== *)
theory Rpc
  imports Wire Tcp HandlerTable
begin

text \<open>
  The RPC framework (\<^verbatim>\<open>libs/distric_protocol/src/rpc.c\<close>): error classes, the server's
  per-connection loop from the bytes of a request to the response, admission control, the
  synchronous client call and its retry loop with budget and jitter. Handlers are functions on an
  application state \<open>'s\<close>. Metrics, logs and spans are left out; \<^verbatim>\<open>accepting_requests\<close> does not
  change while a connection is served; the connection pool appears as the result of
  \<^verbatim>\<open>tcp_pool_acquire\<close>.
\<close>

section \<open>Error classes\<close>

datatype rpc_error_class =
    RPC_ERR_CLASS_OK
  | RPC_ERR_CLASS_TIMEOUT
  | RPC_ERR_CLASS_UNAVAILABLE
  | RPC_ERR_CLASS_OVERLOADED
  | RPC_ERR_CLASS_BACKPRESSURE
  | RPC_ERR_CLASS_INVALID
  | RPC_ERR_CLASS_INTERNAL

fun rpc_error_class_to_string :: "rpc_error_class \<Rightarrow> string" where
  "rpc_error_class_to_string RPC_ERR_CLASS_OK = ''ok''"
| "rpc_error_class_to_string RPC_ERR_CLASS_TIMEOUT = ''timeout''"
| "rpc_error_class_to_string RPC_ERR_CLASS_UNAVAILABLE = ''unavailable''"
| "rpc_error_class_to_string RPC_ERR_CLASS_OVERLOADED = ''overloaded''"
| "rpc_error_class_to_string RPC_ERR_CLASS_BACKPRESSURE = ''backpressure''"
| "rpc_error_class_to_string RPC_ERR_CLASS_INVALID = ''invalid''"
| "rpc_error_class_to_string RPC_ERR_CLASS_INTERNAL = ''internal''"

text \<open>The argument is the C value of a \<^verbatim>\<open>distric_err_t\<close>, which need not be an enumerator.\<close>

definition rpc_error_classify :: "int \<Rightarrow> rpc_error_class" where
  "rpc_error_classify err =
     (if err = err_code DISTRIC_OK then RPC_ERR_CLASS_OK
      else if err = err_code DISTRIC_ERR_TIMEOUT then RPC_ERR_CLASS_TIMEOUT
      else if err = err_code DISTRIC_ERR_UNAVAILABLE \<or> err = err_code DISTRIC_ERR_IO
              \<or> err = err_code DISTRIC_ERR_INIT_FAILED then RPC_ERR_CLASS_UNAVAILABLE
      else if err = err_code DISTRIC_ERR_BACKPRESSURE then RPC_ERR_CLASS_BACKPRESSURE
      else if err = err_code DISTRIC_ERR_INVALID_ARG \<or> err = err_code DISTRIC_ERR_INVALID_FORMAT
              \<or> err = err_code DISTRIC_ERR_TYPE_MISMATCH then RPC_ERR_CLASS_INVALID
      else RPC_ERR_CLASS_INTERNAL)"

text \<open>\<^verbatim>\<open>ETIMEDOUT\<close>, \<^verbatim>\<open>EAGAIN\<close> and \<^verbatim>\<open>EWOULDBLOCK\<close> have their Linux values.\<close>

definition translate_recv_error :: "int \<Rightarrow> int \<Rightarrow> distric_err" where
  "translate_recv_error rc timeout_ms =
     (if rc = err_code DISTRIC_ERR_TIMEOUT then DISTRIC_ERR_TIMEOUT
      else if rc = err_code DISTRIC_ERR_EOF then DISTRIC_ERR_EOF
      else if rc = -110 \<or> rc = -11 then DISTRIC_ERR_TIMEOUT
      else if rc = 0 \<and> timeout_ms > 0 then DISTRIC_ERR_TIMEOUT
      else if rc = 0 then DISTRIC_ERR_EOF
      else DISTRIC_ERR_IO)"

section \<open>Server state\<close>

type_synonym 's rpc_handler = "'s \<Rightarrow> bytes option \<Rightarrow> 's \<times> int \<times> bytes"

record 's rpc_server =
  srv_handler_table :: "'s rpc_handler handler_table"
  srv_active_requests :: u64
  srv_max_inflight_requests :: u32
  srv_active_handlers_count :: nat
  srv_accepting_requests :: bool
  srv_drain_timeout_ms :: u32
  srv_max_message_size :: u32

record rpc_server_config =
  sc_max_inflight_requests :: u32
  sc_drain_timeout_ms :: u32
  sc_max_message_size :: u32

definition RPC_MAX_MESSAGE_SIZE :: u32 where
  "RPC_MAX_MESSAGE_SIZE = 16 * 1024 * 1024"

definition RPC_DEFAULT_MAX_INFLIGHT :: u32 where
  "RPC_DEFAULT_MAX_INFLIGHT = 1024"

definition RPC_DEFAULT_DRAIN_TIMEOUT_MS :: u32 where
  "RPC_DEFAULT_DRAIN_TIMEOUT_MS = 5000"

definition RPC_DEFAULT_POOL_ACQUIRE_TIMEOUT_MS :: u32 where
  "RPC_DEFAULT_POOL_ACQUIRE_TIMEOUT_MS = 5000"

definition RPC_DEFAULT_MAX_CONCURRENT_CALLS :: u32 where
  "RPC_DEFAULT_MAX_CONCURRENT_CALLS = 64"

definition RECV_LOOP_TIMEOUT_MS :: int where
  "RECV_LOOP_TIMEOUT_MS = 1000"

text \<open>A configured value, unless there is no configuration or the value is 0.\<close>

definition config_or :: "'c option \<Rightarrow> ('c \<Rightarrow> u32) \<Rightarrow> u32 \<Rightarrow> u32" where
  "config_or config field dflt =
     (case config of None \<Rightarrow> dflt | Some c \<Rightarrow> if field c \<noteq> 0 then field c else dflt)"

definition server_create_internal :: "rpc_server_config option \<Rightarrow> 's rpc_server" where
  "server_create_internal config =
     \<lparr>srv_handler_table = empty_table, srv_active_requests = 0,
      srv_max_inflight_requests = config_or config sc_max_inflight_requests RPC_DEFAULT_MAX_INFLIGHT,
      srv_active_handlers_count = 0, srv_accepting_requests = False,
      srv_drain_timeout_ms = config_or config sc_drain_timeout_ms RPC_DEFAULT_DRAIN_TIMEOUT_MS,
      srv_max_message_size = config_or config sc_max_message_size RPC_MAX_MESSAGE_SIZE\<rparr>"

definition rpc_server_create :: "'s rpc_server" where
  "rpc_server_create = server_create_internal None"

definition rpc_server_create_with_config :: "rpc_server_config \<Rightarrow> 's rpc_server" where
  "rpc_server_create_with_config config = server_create_internal (Some config)"

definition rpc_server_register_handler ::
  "'s rpc_server \<Rightarrow> message_type \<Rightarrow> 's rpc_handler \<Rightarrow> distric_err \<times> 's rpc_server" where
  "rpc_server_register_handler srv mt h =
     (case handler_table_insert (srv_handler_table srv) (msg_type_code mt) h of
        (err, t) \<Rightarrow> (err, srv\<lparr>srv_handler_table := t\<rparr>))"

definition rpc_server_unregister_handler ::
  "'s rpc_server \<Rightarrow> message_type \<Rightarrow> distric_err \<times> 's rpc_server" where
  "rpc_server_unregister_handler srv mt =
     (case handler_table_remove (srv_handler_table srv) (msg_type_code mt) of
        (err, t) \<Rightarrow> (err, srv\<lparr>srv_handler_table := t\<rparr>))"

text \<open>\<open>started\<close>: what \<^verbatim>\<open>tcp_server_start\<close> returned.\<close>

definition rpc_server_start :: "distric_err \<Rightarrow> 's rpc_server \<Rightarrow> distric_err \<times> 's rpc_server" where
  "rpc_server_start started srv = (started, srv\<lparr>srv_accepting_requests := True\<rparr>)"

text \<open>
  \<^verbatim>\<open>rpc_server_stop\<close> closes the gate and waits for the handlers; \<open>drain\<close> are the handler counts it
  observes at its wake-ups until the count is 0 or the deadline passes. The result says whether
  the drain completed.
\<close>

fun drain_wait :: "nat list \<Rightarrow> bool" where
  "drain_wait [] = False"
| "drain_wait (n # ns) = (if n = 0 then True else drain_wait ns)"

definition rpc_server_stop :: "nat list \<Rightarrow> 's rpc_server \<Rightarrow> bool \<times> 's rpc_server" where
  "rpc_server_stop drain srv = (drain_wait drain, srv\<lparr>srv_accepting_requests := False\<rparr>)"

definition server_request_inc :: "'s rpc_server \<Rightarrow> u32 \<times> 's rpc_server" where
  "server_request_inc srv =
     (ucast (srv_active_requests srv) + 1,
      srv\<lparr>srv_active_requests := srv_active_requests srv + 1\<rparr>)"

definition server_request_dec :: "'s rpc_server \<Rightarrow> 's rpc_server" where
  "server_request_dec srv = srv\<lparr>srv_active_requests := srv_active_requests srv - 1\<rparr>"

section \<open>Receiving a request\<close>

fun outcome_size :: "recv_outcome \<Rightarrow> nat" where
  "outcome_size (Recv_data bs) = Suc (length bs)"
| "outcome_size _ = 1"

definition rx_size :: "recv_outcome list \<Rightarrow> nat" where
  "rx_size rx = sum_list (map outcome_size rx)"

lemma tcp_recv_code:
  "tcp_recv rx len t = (r, bs, rx') \<Longrightarrow>
     r \<in> {0, err_code DISTRIC_ERR_IO, err_code DISTRIC_ERR_INVALID_ARG} \<or> 0 < r"
  by (induction rx len t rule: tcp_recv.induct) (auto split: if_splits)

lemma tcp_recv_shrinks: "tcp_recv rx len t = (r, bs, rx') \<Longrightarrow> 0 < r \<Longrightarrow> rx_size rx' < rx_size rx"
  by (induction rx len t rule: tcp_recv.induct) (auto simp: rx_size_def split: if_splits)

lemma tcp_recv_le: "tcp_recv rx len t = (r, bs, rx') \<Longrightarrow> rx_size rx' \<le> rx_size rx"
  by (induction rx len t rule: tcp_recv.induct) (auto simp: rx_size_def split: if_splits)

lemma tcp_recv_not_timeout: "(- 17, bs, rx') = tcp_recv rx len t \<Longrightarrow> False"
  using tcp_recv_code [of rx len t "- 17" bs rx'] by simp

lemma tcp_recv_progress:
  "(r, bs, rx') = tcp_recv rx len t \<Longrightarrow> r \<noteq> 0 \<Longrightarrow> \<not> r < 0 \<Longrightarrow> rx_size rx' < rx_size rx"
  using tcp_recv_shrinks [of rx len t r bs rx'] by simp

datatype header_recv = Header bytes | Clean_eof | Connection_error

function server_recv_header :: "recv_outcome list \<Rightarrow> bytes \<Rightarrow> header_recv \<times> recv_outcome list" where
  "server_recv_header rx acc =
     (if length acc \<ge> MESSAGE_HEADER_SIZE then (Header acc, rx)
      else case tcp_recv rx (MESSAGE_HEADER_SIZE - length acc) RECV_LOOP_TIMEOUT_MS of
             (r, bs, rx) \<Rightarrow>
               if r = 0 \<or> r = err_code DISTRIC_ERR_EOF then (Clean_eof, rx)
               else if r = err_code DISTRIC_ERR_TIMEOUT then server_recv_header rx acc
               else if r < 0 then (Connection_error, rx)
               else server_recv_header rx (acc @ bs))"
  by pat_completeness auto
termination
  by (relation "measure (\<lambda>(rx, acc). rx_size rx)")
    (auto dest: tcp_recv_not_timeout tcp_recv_progress)

function server_recv_payload :: "recv_outcome list \<Rightarrow> nat \<Rightarrow> bytes \<Rightarrow> bytes \<times> recv_outcome list" where
  "server_recv_payload rx len acc =
     (if length acc \<ge> len then (acc, rx)
      else case tcp_recv rx (len - length acc) RECV_LOOP_TIMEOUT_MS of
             (r, bs, rx) \<Rightarrow>
               if r = err_code DISTRIC_ERR_TIMEOUT then server_recv_payload rx len acc
               else if r = 0 \<or> r = err_code DISTRIC_ERR_EOF then (acc, rx)
               else if r < 0 then (acc, rx)
               else server_recv_payload rx len (acc @ bs))"
  by pat_completeness auto
termination
  by (relation "measure (\<lambda>(rx, len, acc). rx_size rx)")
    (auto dest: tcp_recv_not_timeout tcp_recv_progress)

declare server_recv_header.simps [simp del] server_recv_payload.simps [simp del]


section \<open>Serving a connection\<close>

text \<open>
  Sending a response. \<open>junk\<close> is the content of the uninitialised header variable that the code goes
  on to use when \<^verbatim>\<open>message_header_init\<close> refuses an oversized response. The first component is
  whether the connection loop goes on, the second the message id counter.
\<close>

definition rpc_send_response ::
  "timespec \<Rightarrow> message_header \<Rightarrow> u64 \<Rightarrow> tcp_connection \<Rightarrow> u16 \<Rightarrow> bytes
     \<Rightarrow> bool \<times> u64 \<times> tcp_connection" where
  "rpc_send_response now junk counter c mt response =
     (let payload = (if response = [] then None else Some response);
          (hdr, counter) = (case message_header_init now now counter mt (of_nat (length response)) of
                              Inl _ \<Rightarrow> (junk, counter)
                            | Inr x \<Rightarrow> x);
          hdr = (case compute_header_crc32 hdr payload (length response) of Inl _ \<Rightarrow> hdr | Inr h \<Rightarrow> h)
      in case tcp_send c (serialize_header hdr) of
           (send_err, c) \<Rightarrow>
             if send_err \<noteq> err_code DISTRIC_OK then (False, counter, c)
             else if response = [] then (True, counter, c)
             else case tcp_send c response of
                    (psend_err, c) \<Rightarrow> (psend_err = err_code DISTRIC_OK, counter, c))"

text \<open>
  One iteration of the loop of \<^verbatim>\<open>rpc_server_handle_connection\<close>: whether to continue, the server,
  the message id counter, the application state, the connection.
\<close>

definition rpc_server_handle_request ::
  "timespec \<Rightarrow> message_header \<Rightarrow> 's rpc_server \<Rightarrow> u64 \<Rightarrow> 's \<Rightarrow> tcp_connection
     \<Rightarrow> bool \<times> 's rpc_server \<times> u64 \<times> 's \<times> tcp_connection" where
  "rpc_server_handle_request now junk srv counter s c =
     (case server_recv_header (tc_incoming c) [] of
        (Header header_buf, rx) \<Rightarrow>
          let c = c\<lparr>tc_incoming := rx\<rparr>;
              header = deserialize_header header_buf
          in if \<not> validate_message_header header then (False, srv, counter, s, c)
             else if h_payload_len header > srv_max_message_size srv then (False, srv, counter, s, c)
             else case server_request_inc srv of
               (current, srv) \<Rightarrow>
                 if current > srv_max_inflight_requests srv
                 then (False, server_request_dec srv, counter, s, c)
                 else case server_recv_payload rx (unat (h_payload_len header)) [] of
                   (received, rx) \<Rightarrow>
                     let c = c\<lparr>tc_incoming := rx\<rparr>;
                         payload = (if h_payload_len header > 0 then Some received else None)
                     in if length received \<noteq> unat (h_payload_len header)
                        then (False, server_request_dec srv, counter, s, c)
                        else if \<not> verify_message_crc32 header payload (unat (h_payload_len header))
                        then (False, server_request_dec srv, counter, s, c)
                        else case lookup_handler (srv_handler_table srv) (h_msg_type header) of
                          None \<Rightarrow> (True, server_request_dec srv, counter, s, c)
                        | Some handler_fn \<Rightarrow>
                            (case handler_fn s payload of
                               (s, handler_result, response) \<Rightarrow>
                                 if handler_result = 0
                                 then (case rpc_send_response now junk counter c (h_msg_type header) response of
                                         (go, counter, c) \<Rightarrow> (go, server_request_dec srv, counter, s, c))
                                 else (True, server_request_dec srv, counter, s, c))
      | (_, rx) \<Rightarrow> (False, srv, counter, s, c\<lparr>tc_incoming := rx\<rparr>))"

lemma recv_header_shrinks:
  "server_recv_header rx acc = (Header hb, rx') \<Longrightarrow> length acc < MESSAGE_HEADER_SIZE
     \<Longrightarrow> rx_size rx' < rx_size rx"
proof (induction rx acc rule: server_recv_header.induct)
  case (1 rx acc)
  obtain r bs rx1 where t: "tcp_recv rx (MESSAGE_HEADER_SIZE - length acc) RECV_LOOP_TIMEOUT_MS = (r, bs, rx1)"
    by (cases "tcp_recv rx (MESSAGE_HEADER_SIZE - length acc) RECV_LOOP_TIMEOUT_MS")
  have rec: "server_recv_header rx1 (acc @ bs) = (Header hb, rx')" and r: "0 < r"
    using "1.prems" t tcp_recv_code [OF t]
    by (auto simp: server_recv_header.simps [of rx] split: if_splits)
  have less: "rx_size rx1 < rx_size rx" using t r by (rule tcp_recv_shrinks)
  show ?case
  proof (cases "length (acc @ bs) < MESSAGE_HEADER_SIZE")
    case True
    then show ?thesis using "1.IH"(2) [OF _ t [symmetric] refl _ _ _ rec] "1.prems"(2) r less by simp
  next
    case False
    then have "rx' = rx1" using rec by (simp add: server_recv_header.simps [of rx1])
    then show ?thesis using less by simp
  qed
qed

lemma recv_payload_le: "server_recv_payload rx len acc = (bs, rx') \<Longrightarrow> rx_size rx' \<le> rx_size rx"
proof (induction rx len acc rule: server_recv_payload.induct)
  case (1 rx len acc)
  show ?case
  proof (cases "length acc \<ge> len")
    case True
    then show ?thesis using "1.prems" by (simp add: server_recv_payload.simps [of rx])
  next
    case False
    obtain r ds rx1 where t: "tcp_recv rx (len - length acc) RECV_LOOP_TIMEOUT_MS = (r, ds, rx1)"
      by (cases "tcp_recv rx (len - length acc) RECV_LOOP_TIMEOUT_MS")
    have le: "rx_size rx1 \<le> rx_size rx" using t by (rule tcp_recv_le)
    show ?thesis
    proof (cases "0 < r")
      case True
      then have "server_recv_payload rx1 len (acc @ ds) = (bs, rx')"
        using "1.prems" t False by (simp add: server_recv_payload.simps [of rx])
      then show ?thesis using "1.IH"(2) [OF False t [symmetric] refl] True le by auto
    next
      case neg: False
      then show ?thesis
        using "1.prems" t False le tcp_recv_code [OF t]
        by (auto simp: server_recv_payload.simps [of rx])
    qed
  qed
qed


lemma send_response_incoming:
  "rpc_send_response now junk counter c mt resp = (go, counter', c') \<Longrightarrow> tc_incoming c' = tc_incoming c"
  by (auto simp: rpc_send_response_def Let_def split: prod.splits if_splits dest!: tcp_send_incoming)

lemma handle_request_shrinks:
  assumes "rpc_server_handle_request now junk srv counter s c = (True, srv', counter', s', c')"
  shows "rx_size (tc_incoming c') < rx_size (tc_incoming c)"
proof -
  obtain hb rx where h: "server_recv_header (tc_incoming c) [] = (Header hb, rx)"
    using assms by (auto simp: rpc_server_handle_request_def split: prod.splits header_recv.splits)
  obtain bs rx' where p: "server_recv_payload rx (unat (h_payload_len (deserialize_header hb))) [] = (bs, rx')"
    by (cases "server_recv_payload rx (unat (h_payload_len (deserialize_header hb))) []")
  have "tc_incoming c' = rx'"
    using assms h p
    by (auto simp: rpc_server_handle_request_def Let_def split: prod.splits if_splits option.splits
        dest!: send_response_incoming)
  moreover have "rx_size rx < rx_size (tc_incoming c)"
    using recv_header_shrinks [OF h] by (simp add: MESSAGE_HEADER_SIZE_def)
  ultimately show ?thesis using recv_payload_le [OF p] by simp
qed

text \<open>The loop; \<open>clock i\<close> is the time at the response of the \<open>i\<close>-th request.\<close>

function rpc_server_loop ::
  "(nat \<Rightarrow> timespec) \<Rightarrow> message_header \<Rightarrow> nat \<Rightarrow> 's rpc_server \<Rightarrow> u64 \<Rightarrow> 's \<Rightarrow> tcp_connection
     \<Rightarrow> 's rpc_server \<times> u64 \<times> 's \<times> tcp_connection" where
  "rpc_server_loop clock junk i srv counter s c =
     (if srv_accepting_requests srv then
        (case rpc_server_handle_request (clock i) junk srv counter s c of
           (go, srv, counter, s, c) \<Rightarrow>
             if go then rpc_server_loop clock junk (Suc i) srv counter s c
             else (srv, counter, s, c))
      else (srv, counter, s, c))"
  by pat_completeness auto
termination
  by (relation "measure (\<lambda>(clock, junk, i, srv, counter, s, c). rx_size (tc_incoming c))")
    (auto dest!: handle_request_shrinks [OF sym])

declare rpc_server_loop.simps [simp del]

definition rpc_server_handle_connection ::
  "(nat \<Rightarrow> timespec) \<Rightarrow> message_header \<Rightarrow> 's rpc_server \<Rightarrow> u64 \<Rightarrow> 's \<Rightarrow> tcp_connection
     \<Rightarrow> 's rpc_server \<times> u64 \<times> 's \<times> tcp_connection" where
  "rpc_server_handle_connection clock junk srv counter s c =
     (let srv = srv\<lparr>srv_active_handlers_count := srv_active_handlers_count srv + 1\<rparr>
      in case rpc_server_loop clock junk 0 srv counter s c of
           (srv, counter, s, c) \<Rightarrow>
             (srv\<lparr>srv_active_handlers_count := srv_active_handlers_count srv - 1\<rparr>, counter, s, c))"

section \<open>Client\<close>

record rpc_client =
  cl_use_sem :: bool
  cl_acquire_sem :: nat
  cl_pool_acquire_timeout_ms :: u32
  cl_total_timeout_ms :: u32

record rpc_client_config =
  cc_max_concurrent_calls :: u32
  cc_pool_acquire_timeout_ms :: u32
  cc_total_timeout_ms :: u32

definition client_create_internal :: "rpc_client_config option \<Rightarrow> rpc_client" where
  "client_create_internal config =
     (let max_concurrent = config_or config cc_max_concurrent_calls RPC_DEFAULT_MAX_CONCURRENT_CALLS
      in \<lparr>cl_use_sem = (max_concurrent > 0),
          cl_acquire_sem = (if max_concurrent > 0 then unat max_concurrent else 0),
          cl_pool_acquire_timeout_ms =
            config_or config cc_pool_acquire_timeout_ms RPC_DEFAULT_POOL_ACQUIRE_TIMEOUT_MS,
          cl_total_timeout_ms = config_or config cc_total_timeout_ms 0\<rparr>)"

definition rpc_client_create :: rpc_client where
  "rpc_client_create = client_create_internal None"

definition rpc_client_create_with_config :: "rpc_client_config \<Rightarrow> rpc_client" where
  "rpc_client_create_with_config config = client_create_internal (Some config)"

text \<open>
  The two accumulating receive loops of \<^verbatim>\<open>rpc_call\<close>. Every result of \<^verbatim>\<open>tcp_recv\<close> goes through
  \<^verbatim>\<open>translate_recv_error\<close>; the loop goes on only when that is \<^verbatim>\<open>DISTRIC_OK\<close>.
\<close>

lemma translate_recv_error_not_ok: "translate_recv_error rc t \<noteq> DISTRIC_OK"
  by (simp add: translate_recv_error_def)

function client_recv ::
  "recv_outcome list \<Rightarrow> int \<Rightarrow> nat \<Rightarrow> bytes \<Rightarrow> bytes result \<times> recv_outcome list" where
  "client_recv rx timeout_ms len acc =
     (if length acc \<ge> len then (Inr acc, rx)
      else case tcp_recv rx (len - length acc) timeout_ms of
             (r, bs, rx) \<Rightarrow>
               let rerr = translate_recv_error r timeout_ms
               in if rerr = DISTRIC_ERR_TIMEOUT then (Inl DISTRIC_ERR_TIMEOUT, rx)
                  else if rerr = DISTRIC_ERR_EOF \<or> rerr \<noteq> DISTRIC_OK then (Inl rerr, rx)
                  else client_recv rx timeout_ms len (acc @ bs))"
  by pat_completeness auto
termination
  by (relation "measure (\<lambda>(rx, t, len, acc). rx_size rx)") (auto simp: translate_recv_error_not_ok)

declare client_recv.simps [simp del]

text \<open>
  The outcome of a call: return value, response, client, and the connection as it goes back to the
  pool, marked as failed or not; no connection when none was acquired.
\<close>

record rpc_outcome =
  ro_code :: int
  ro_response :: bytes
  ro_client :: rpc_client
  ro_conn :: "tcp_connection option"
  ro_failed :: bool
  ro_counter :: u64

text \<open>Leaving with an error after the connection was acquired: mark failed, release, post.\<close>

definition rpc_fail :: "rpc_client \<Rightarrow> u64 \<Rightarrow> tcp_connection \<Rightarrow> int \<Rightarrow> rpc_outcome" where
  "rpc_fail client counter conn code =
     \<lparr>ro_code = code, ro_response = [],
      ro_client = (if cl_use_sem client then client\<lparr>cl_acquire_sem := cl_acquire_sem client + 1\<rparr>
                   else client),
      ro_conn = Some conn, ro_failed = True, ro_counter = counter\<rparr>"

definition rpc_receive_response ::
  "rpc_client \<Rightarrow> u64 \<Rightarrow> tcp_connection \<Rightarrow> int \<Rightarrow> rpc_outcome" where
  "rpc_receive_response client counter conn timeout_ms =
     (case client_recv (tc_incoming conn) timeout_ms MESSAGE_HEADER_SIZE [] of
        (Inl rerr, rx) \<Rightarrow> rpc_fail client counter (conn\<lparr>tc_incoming := rx\<rparr>) (err_code rerr)
      | (Inr resp_hdr_buf, rx) \<Rightarrow>
          let resp_hdr = deserialize_header resp_hdr_buf; conn = conn\<lparr>tc_incoming := rx\<rparr>
          in if h_payload_len resp_hdr > RPC_MAX_MESSAGE_SIZE
             then rpc_fail client counter conn (err_code DISTRIC_ERR_INVALID_FORMAT)
             else case client_recv rx timeout_ms (unat (h_payload_len resp_hdr)) [] of
               (Inl rerr, rx) \<Rightarrow> rpc_fail client counter (conn\<lparr>tc_incoming := rx\<rparr>) (err_code rerr)
             | (Inr response, rx) \<Rightarrow>
                 let conn = conn\<lparr>tc_incoming := rx\<rparr>;
                     payload = (if h_payload_len resp_hdr > 0 then Some response else None)
                 in if \<not> verify_message_crc32 resp_hdr payload (unat (h_payload_len resp_hdr))
                    then rpc_fail client counter conn (err_code DISTRIC_ERR_INVALID_FORMAT)
                    else (rpc_fail client counter conn (err_code DISTRIC_OK))
                           \<lparr>ro_response := response, ro_failed := False\<rparr>)"

text \<open>
  \<^verbatim>\<open>rpc_call\<close>: \<open>pool\<close> is the result of \<^verbatim>\<open>tcp_pool_acquire\<close>. The semaphore wait succeeds when a slot
  is free.
\<close>

definition rpc_call ::
  "timespec \<Rightarrow> u64 \<Rightarrow> rpc_client \<Rightarrow> tcp_connection result \<Rightarrow> message_type \<Rightarrow> bytes \<Rightarrow> int
     \<Rightarrow> rpc_outcome" where
  "rpc_call now counter client pool mt request timeout_ms =
     (let refuse = (\<lambda>code client. \<lparr>ro_code = code, ro_response = [], ro_client = client,
                      ro_conn = None, ro_failed = False, ro_counter = counter\<rparr>)
      in if length request > unat RPC_MAX_MESSAGE_SIZE
         then refuse (err_code DISTRIC_ERR_INVALID_ARG) client
         else if cl_use_sem client \<and> cl_acquire_sem client = 0
         then refuse (err_code DISTRIC_ERR_TIMEOUT) client
         else
           let held = (if cl_use_sem client
                       then client\<lparr>cl_acquire_sem := cl_acquire_sem client - 1\<rparr> else client)
           in case pool of
                Inl err \<Rightarrow> refuse (err_code err) client
              | Inr conn \<Rightarrow>
                  (case message_header_init now now counter (msg_type_code mt) (of_nat (length request)) of
                     Inl err \<Rightarrow> refuse (err_code err) client
                   | Inr (req_hdr, counter) \<Rightarrow>
                       let payload = (if request = [] then None else Some request);
                           req_hdr = (case compute_header_crc32 req_hdr payload (length request) of
                                        Inl _ \<Rightarrow> req_hdr | Inr h \<Rightarrow> h)
                       in case tcp_send conn (serialize_header req_hdr) of
                         (send_err, conn) \<Rightarrow>
                           if send_err \<noteq> err_code DISTRIC_OK then rpc_fail held counter conn send_err
                           else if request = [] then rpc_receive_response held counter conn timeout_ms
                           else case tcp_send conn request of
                             (send_err, conn) \<Rightarrow>
                               if send_err \<noteq> err_code DISTRIC_OK
                               then rpc_fail held counter conn send_err
                               else rpc_receive_response held counter conn timeout_ms))"


section \<open>Retry\<close>

definition BUDGET_MIN_TIMEOUT_MS :: int where
  "BUDGET_MIN_TIMEOUT_MS = 50"

text \<open>
  The environment of \<^verbatim>\<open>rpc_call_with_retry\<close>: what each attempt returns for the timeout it gets, the
  clock readings at the budget check and at the back-off of each attempt, and the values of
  \<^verbatim>\<open>rand_r\<close>.
\<close>

record retry_env =
  re_call :: "nat \<Rightarrow> int \<Rightarrow> int"
  re_check_us :: "nat \<Rightarrow> u64"
  re_sleep_us :: "nat \<Rightarrow> u64"
  re_rand :: "nat \<Rightarrow> u32"

definition remaining_ms :: "u64 \<Rightarrow> u64 \<Rightarrow> u64 \<Rightarrow> int" where
  "remaining_ms budget_us wall_start t =
     (let elapsed_us = t - wall_start
      in if budget_us > elapsed_us then uint (budget_us - elapsed_us) div 1000 else 0)"

definition retry_delay :: "retry_env \<Rightarrow> u64 \<Rightarrow> u64 \<Rightarrow> nat \<Rightarrow> int \<Rightarrow> int" where
  "retry_delay env budget_us wall_start attempt backoff =
     (if attempt = 0 then 0
      else
        let half = backoff div 2;
            jitter = uint (re_rand env attempt) mod (half + 1);
            delay_ms = half + jitter
        in if budget_us \<noteq> -1 then min delay_ms (remaining_ms budget_us wall_start (re_sleep_us env attempt))
           else delay_ms)"

text \<open>
  The loop with the number of attempts left. Beside the return value it yields the timeout and the
  delay before each attempt made.
\<close>

fun retry_loop ::
  "retry_env \<Rightarrow> u64 \<Rightarrow> u64 \<Rightarrow> nat \<Rightarrow> nat \<Rightarrow> int \<Rightarrow> int \<Rightarrow> int \<Rightarrow> int \<times> (int \<times> int) list" where
  "retry_loop env budget_us wall_start 0 attempt timeout_ms backoff err = (err, [])"
| "retry_loop env budget_us wall_start (Suc left) attempt timeout_ms backoff err =
     (let limited = budget_us \<noteq> -1;
          elapsed_us = re_check_us env attempt - wall_start;
          remaining = remaining_ms budget_us wall_start (re_check_us env attempt)
      in if limited \<and> elapsed_us \<ge> budget_us then (err_code DISTRIC_ERR_TIMEOUT, [])
         else if limited \<and> remaining < BUDGET_MIN_TIMEOUT_MS then (err_code DISTRIC_ERR_TIMEOUT, [])
         else
           let timeout_ms = (if limited \<and> timeout_ms > 0 \<and> remaining < timeout_ms
                             then remaining else timeout_ms);
               delay = retry_delay env budget_us wall_start attempt backoff;
               backoff = (if attempt = 0 then backoff
                          else if backoff * 2 < 5000 then backoff * 2 else 5000);
               err = re_call env attempt timeout_ms
           in if err = err_code DISTRIC_OK then (err, [(timeout_ms, delay)])
              else if rpc_error_classify err = RPC_ERR_CLASS_INVALID
                    \<or> rpc_error_classify err = RPC_ERR_CLASS_INTERNAL then (err, [(timeout_ms, delay)])
              else case retry_loop env budget_us wall_start left (Suc attempt) timeout_ms backoff err of
                     (r, tr) \<Rightarrow> (r, (timeout_ms, delay) # tr))"

definition rpc_call_with_retry ::
  "retry_env \<Rightarrow> rpc_client \<Rightarrow> u64 \<Rightarrow> int \<Rightarrow> int \<Rightarrow> int \<times> (int \<times> int) list" where
  "rpc_call_with_retry env client wall_start timeout_ms max_retries =
     (let budget_us = (if cl_total_timeout_ms client > 0
                       then ucast (cl_total_timeout_ms client) * 1000 else -1)
      in retry_loop env budget_us wall_start (nat (max_retries + 1)) 0 timeout_ms 50
           (err_code DISTRIC_OK))"

section \<open>Client lemmas\<close>

lemma client_recv_fails:
  "length acc < len \<Longrightarrow> \<exists>e rx'. client_recv rx t len acc = (Inl e, rx') \<and> e \<noteq> DISTRIC_OK"
  by (subst client_recv.simps)
    (auto simp: Let_def translate_recv_error_not_ok split: prod.splits)

lemma receive_response_fails: "ro_code (rpc_receive_response client counter conn t) \<noteq> err_code DISTRIC_OK"
proof -
  obtain e rx where "client_recv (tc_incoming conn) t MESSAGE_HEADER_SIZE [] = (Inl e, rx)" "e \<noteq> DISTRIC_OK"
    using client_recv_fails [of "[]" MESSAGE_HEADER_SIZE "tc_incoming conn" t]
    by (auto simp: MESSAGE_HEADER_SIZE_def)
  then show ?thesis by (simp add: rpc_receive_response_def rpc_fail_def)
qed

text \<open>Requests within the RPC limit are within the limit of \<^verbatim>\<open>message_header_init\<close>.\<close>

lemma header_init_small:
  assumes "length request \<le> unat RPC_MAX_MESSAGE_SIZE"
  shows "\<exists>h counter'. message_header_init now1 now2 counter mt (of_nat (length request)) = Inr (h, counter')"
proof -
  have "length request \<le> 16777216" using assms by (simp add: RPC_MAX_MESSAGE_SIZE_def)
  then have "unat (of_nat (length request) :: u32) \<le> 16777216"
    by (simp add: unat_of_nat take_bit_eq_mod)
  then have "\<not> (of_nat (length request) :: u32) > PROTOCOL_MAX_PAYLOAD_SIZE"
    by (simp add: word_less_nat_alt PROTOCOL_MAX_PAYLOAD_SIZE_def)
  then show ?thesis by (simp add: message_header_init_def split: prod.split)
qed

lemma receive_response_client:
  "ro_client (rpc_receive_response client counter conn t)
    = (if cl_use_sem client then client\<lparr>cl_acquire_sem := cl_acquire_sem client + 1\<rparr> else client)"
  by (auto simp: rpc_receive_response_def rpc_fail_def Let_def split: prod.splits sum.splits)

text \<open>
  Once a connection is acquired, the call ends with the return value of the first \<^verbatim>\<open>tcp_send\<close>,
  which is the length of the header or a negative code.
\<close>

lemma rpc_call_after_acquire:
  assumes "length request \<le> unat RPC_MAX_MESSAGE_SIZE"
    and "\<not> (cl_use_sem client \<and> cl_acquire_sem client = 0)"
  obtains hdr counter' r conn' held where
    "tcp_send conn (serialize_header hdr) = (r, conn')" and "r \<noteq> 0"
    and "rpc_call now counter client (Inr conn) mt request t = rpc_fail held counter' conn' r"
    and "ro_client (rpc_fail held counter' conn' r) = client"
proof -
  obtain h counter' where h: "message_header_init now now counter (msg_type_code mt)
      (of_nat (length request)) = Inr (h, counter')"
    using header_init_small [OF assms(1)] by blast
  let ?p = "if request = [] then None else Some request"
  let ?hdr = "case compute_header_crc32 h ?p (length request) of Inl _ \<Rightarrow> h | Inr h \<Rightarrow> h"
  let ?held = "if cl_use_sem client then client\<lparr>cl_acquire_sem := cl_acquire_sem client - 1\<rparr> else client"
  obtain r conn' where s: "tcp_send conn (serialize_header ?hdr) = (r, conn')"
    by (cases "tcp_send conn (serialize_header ?hdr)")
  have r: "r \<noteq> 0" using s by (rule tcp_send_nonzero)
  have "rpc_call now counter client (Inr conn) mt request t = rpc_fail ?held counter' conn' r"
    using assms h s r by (cases "cl_use_sem client") (simp_all add: rpc_call_def Let_def)
  moreover have "ro_client (rpc_fail ?held counter' conn' r) = client"
    using assms(2) by (auto simp: rpc_fail_def)
  ultimately show ?thesis using that s r by blast
qed

lemma rpc_call_outcome:
  assumes "pool \<noteq> Inl DISTRIC_OK"
  shows "ro_code (rpc_call now counter client pool mt request t) \<noteq> err_code DISTRIC_OK
    \<and> ro_client (rpc_call now counter client pool mt request t) = client"
proof -
  let ?r = "rpc_call now counter client pool mt request t"
  show ?thesis
  proof (cases "length request > unat RPC_MAX_MESSAGE_SIZE \<or> cl_use_sem client \<and> cl_acquire_sem client = 0")
    case True
    then show ?thesis by (auto simp: rpc_call_def Let_def)
  next
    case False
    show ?thesis
    proof (cases pool)
      case (Inl e)
      then show ?thesis using False assms by (auto simp: rpc_call_def Let_def)
    next
      case (Inr conn)
      have "length request \<le> unat RPC_MAX_MESSAGE_SIZE" "\<not> (cl_use_sem client \<and> cl_acquire_sem client = 0)"
        using False by auto
      then obtain r counter' conn' held where
        "r \<noteq> 0" "?r = rpc_fail held counter' conn' r" "ro_client (rpc_fail held counter' conn' r) = client"
        unfolding Inr by (rule rpc_call_after_acquire)
      then show ?thesis by (simp add: rpc_fail_def)
    qed
  qed
qed

lemmas rpc_call_code_nonzero = rpc_call_outcome [THEN conjunct1]

text \<open>
  C14. No call ever succeeds. Whatever the network does, \<^verbatim>\<open>rpc_call\<close> returns something other than
  \<^verbatim>\<open>DISTRIC_OK\<close>: the positive byte count that \<^verbatim>\<open>tcp_send\<close> returns for an accepted header is
  taken for an error, and the receive loop would treat every received byte count as an I/O error.
  The concurrency permit is returned on every path.
\<close>

theorem rpc_call_never_succeeds:
  assumes "pool \<noteq> Inl DISTRIC_OK"
  shows "ro_code (rpc_call now counter client pool mt request timeout_ms) \<noteq> err_code DISTRIC_OK
    \<and> ro_client (rpc_call now counter client pool mt request timeout_ms) = client
    \<and> ro_code (rpc_receive_response client counter conn timeout_ms) \<noteq> err_code DISTRIC_OK"
  using rpc_call_outcome [OF assms] receive_response_fails by blast

theorem rpc_call_never_succeeds_witness:
  "ro_code (rpc_call \<lparr>tv_sec = 5, tv_nsec = 0\<rparr> 0 rpc_client_create
      (Inr (sample_conn 64 [Accepts 99, Accepts 99])) MSG_RAFT_REQUEST_VOTE [1, 2] 1000) \<noteq> err_code DISTRIC_OK"
  by (rule rpc_call_never_succeeds [THEN conjunct1]) simp


section \<open>Server lemmas\<close>

lemma user_key_msg_type: "user_key (msg_type_code mt)"
  by (cases mt) (simp_all add: user_key_def HANDLER_TOMBSTONE_def)

lemma lookup_registered:
  assumes "table_ok t" and "card (live_keys t) < HANDLER_TABLE_SIZE" and "srv_handler_table srv = t"
  shows "lookup_handler (srv_handler_table (snd (rpc_server_register_handler srv mt f))) (msg_type_code mt)
    = Some f"
  using ht.add_ok [OF assms(1) user_key_msg_type, of mt f] assms(2,3)
  by (auto simp: rpc_server_register_handler_def live_keys_def user_key_msg_type)

lemma live_keys_empty: "live_keys empty_table = {}"
  by (auto simp: live_keys_def lookup_empty)

lemma inc_dec [simp]: "server_request_dec (snd (server_request_inc srv)) = srv"
  by (simp add: server_request_inc_def server_request_dec_def)

text \<open>
  \<open>delivers rx bs rest\<close>: the script delivers the bytes \<open>bs\<close>, in non-empty pieces of any size, and
  goes on with \<open>rest\<close>.
\<close>

definition delivers :: "recv_outcome list \<Rightarrow> bytes \<Rightarrow> recv_outcome list \<Rightarrow> bool" where
  "delivers rx bs rest \<longleftrightarrow>
     (\<exists>chunks. rx = map Recv_data chunks @ rest \<and> concat chunks = bs \<and> [] \<notin> set chunks)"

lemma delivers_Nil [simp]: "delivers rx [] rest \<longleftrightarrow> rx = rest"
proof
  assume "delivers rx [] rest"
  then obtain chunks where c: "rx = map Recv_data chunks @ rest" "concat chunks = []" "[] \<notin> set chunks"
    by (auto simp: delivers_def)
  then have "chunks = []" by (cases chunks) auto
  then show "rx = rest" using c by simp
qed (auto simp: delivers_def intro: exI [of _ "[]"])

lemma delivers_recv:
  assumes "delivers rx bs rest" and "bs \<noteq> []" and "0 < len"
  obtains n rx' where "tcp_recv rx len t = (int n, take n bs, rx')" and "0 < n" and "n \<le> len"
    and "n \<le> length bs" and "delivers rx' (drop n bs) rest"
proof -
  obtain b chunks where c: "rx = Recv_data b # map Recv_data chunks @ rest" "b @ concat chunks = bs"
    "b \<noteq> []" "[] \<notin> set chunks"
  proof -
    obtain cs where cs: "rx = map Recv_data cs @ rest" "concat cs = bs" "[] \<notin> set cs"
      using assms(1) by (auto simp: delivers_def)
    show ?thesis using cs assms(2) that by (cases cs) auto
  qed
  obtain l where l: "len = Suc l" using assms(3) by (cases len) auto
  let ?n = "min len (length b)"
  let ?rx = "if len < length b then Recv_data (drop len b) # map Recv_data chunks @ rest
    else map Recv_data chunks @ rest"
  have "tcp_recv rx len t = (int ?n, take ?n bs, ?rx)" using c l by (auto simp: min_def)
  moreover have "delivers ?rx (drop ?n bs) rest"
    using c unfolding delivers_def
    by (cases "len < length b") (auto intro: exI [of _ "drop len b # chunks"] exI [of _ chunks])
  ultimately show ?thesis using that c(2,3) l by (auto simp: min_def)
qed

lemma take_split: "n \<le> m \<Longrightarrow> take n bs @ take (m - n) (drop n bs) = take m bs"
  using take_add [of n "m - n" bs] by simp

lemma drop_split: "n \<le> m \<Longrightarrow> drop (m - n) (drop n bs) = drop m bs"
  by simp

lemma recv_header_delivers:
  assumes "delivers rx bs rest" and "length acc \<le> MESSAGE_HEADER_SIZE"
    and "MESSAGE_HEADER_SIZE \<le> length acc + length bs"
  obtains rx' where "server_recv_header rx acc
      = (Header (acc @ take (MESSAGE_HEADER_SIZE - length acc) bs), rx')"
    and "delivers rx' (drop (MESSAGE_HEADER_SIZE - length acc) bs) rest"
proof -
  have "\<exists>rx'. server_recv_header rx acc
      = (Header (acc @ take (MESSAGE_HEADER_SIZE - length acc) bs), rx')
    \<and> delivers rx' (drop (MESSAGE_HEADER_SIZE - length acc) bs) rest"
    using assms
  proof (induction "MESSAGE_HEADER_SIZE - length acc" arbitrary: rx acc bs rule: less_induct)
    case less
    show ?case
    proof (cases "length acc = MESSAGE_HEADER_SIZE")
      case True
      then show ?thesis using less.prems by (simp add: server_recv_header.simps)
    next
      case False
      then have *: "bs \<noteq> []" "0 < MESSAGE_HEADER_SIZE - length acc" using less.prems by auto
      obtain n rx1 where n: "tcp_recv rx (MESSAGE_HEADER_SIZE - length acc) RECV_LOOP_TIMEOUT_MS
          = (int n, take n bs, rx1)" "0 < n" "n \<le> MESSAGE_HEADER_SIZE - length acc" "n \<le> length bs"
          "delivers rx1 (drop n bs) rest"
        by (rule delivers_recv [OF less.prems(1) *])
      let ?acc = "acc @ take n bs"
      have "\<exists>rx'. server_recv_header rx1 ?acc
          = (Header (?acc @ take (MESSAGE_HEADER_SIZE - length ?acc) (drop n bs)), rx')
        \<and> delivers rx' (drop (MESSAGE_HEADER_SIZE - length ?acc) (drop n bs)) rest"
        using n(2-5) less.prems * by (intro less.hyps) auto
      moreover have "server_recv_header rx acc = server_recv_header rx1 ?acc"
        using n(1,2) * by (subst server_recv_header.simps) simp
      moreover have "take n bs @ take (MESSAGE_HEADER_SIZE - length ?acc) (drop n bs)
          = take (MESSAGE_HEADER_SIZE - length acc) bs"
        using n(3,4) take_split [of n "MESSAGE_HEADER_SIZE - length acc" bs] by (simp add: min_absorb2)
      moreover have "drop (MESSAGE_HEADER_SIZE - length ?acc) (drop n bs)
          = drop (MESSAGE_HEADER_SIZE - length acc) bs"
        using n(3,4) drop_split [of n "MESSAGE_HEADER_SIZE - length acc" bs]
        by (simp add: min_absorb2 del: drop_drop)
      ultimately show ?thesis by (simp del: drop_drop)
    qed
  qed
  then show ?thesis using that by blast
qed

lemma recv_payload_delivers:
  assumes "delivers rx bs rest" and "length acc \<le> len" and "len \<le> length acc + length bs"
  obtains rx' where "server_recv_payload rx len acc = (acc @ take (len - length acc) bs, rx')"
    and "delivers rx' (drop (len - length acc) bs) rest"
proof -
  have "\<exists>rx'. server_recv_payload rx len acc = (acc @ take (len - length acc) bs, rx')
    \<and> delivers rx' (drop (len - length acc) bs) rest"
    using assms
  proof (induction "len - length acc" arbitrary: rx acc bs rule: less_induct)
    case less
    show ?case
    proof (cases "length acc = len")
      case True
      then show ?thesis using less.prems by (simp add: server_recv_payload.simps)
    next
      case False
      then have *: "bs \<noteq> []" "0 < len - length acc" using less.prems by auto
      obtain n rx1 where n: "tcp_recv rx (len - length acc) RECV_LOOP_TIMEOUT_MS
          = (int n, take n bs, rx1)" "0 < n" "n \<le> len - length acc" "n \<le> length bs"
          "delivers rx1 (drop n bs) rest"
        by (rule delivers_recv [OF less.prems(1) *])
      let ?acc = "acc @ take n bs"
      have "\<exists>rx'. server_recv_payload rx1 len ?acc
          = (?acc @ take (len - length ?acc) (drop n bs), rx')
        \<and> delivers rx' (drop (len - length ?acc) (drop n bs)) rest"
        using n(2-5) less.prems * by (intro less.hyps) auto
      moreover have "server_recv_payload rx len acc = server_recv_payload rx1 len ?acc"
        using n(1,2) * by (subst server_recv_payload.simps) simp
      moreover have "take n bs @ take (len - length ?acc) (drop n bs) = take (len - length acc) bs"
        using n(3,4) take_split [of n "len - length acc" bs] by (simp add: min_absorb2)
      moreover have "drop (len - length ?acc) (drop n bs) = drop (len - length acc) bs"
        using n(3,4) drop_split [of n "len - length acc" bs] by (simp add: min_absorb2 del: drop_drop)
      ultimately show ?thesis by (simp del: drop_drop)
    qed
  qed
  then show ?thesis using that by blast
qed

text \<open>
  A complete frame is reassembled and dispatched however the network splits it. When the bytes
  of a valid, sealed request arrive in pieces of any size, its size and the number of requests in
  flight are within the limits and a handler is registered for its type, then that handler runs
  exactly once on exactly the payload, the rest of the incoming stream is left untouched, and the
  server state is as before.
\<close>

lemma request_reaches_handler:
  assumes d: "delivers (tc_incoming c) (serialize_header h @ payload) rest"
    and h: "validate_message_header h" "h_payload_len h \<le> srv_max_message_size srv"
    and len: "length payload = unat (h_payload_len h)"
    and room: "fst (server_request_inc srv) \<le> srv_max_inflight_requests srv"
    and crc: "verify_message_crc32 h (if payload = [] then None else Some payload) (length payload)"
    and f: "lookup_handler (srv_handler_table srv) (h_msg_type h) = Some f"
    and r: "f s (if payload = [] then None else Some payload) = (s', rc, response)"
  shows "\<exists>go counter' c'. rpc_server_handle_request now junk srv counter s c = (go, srv, counter', s', c')
    \<and> tc_incoming c' = rest"
proof -
  obtain rx where rx: "server_recv_header (tc_incoming c) [] = (Header (serialize_header h), rx)"
    "delivers rx payload rest"
    by (rule recv_header_delivers [OF d, of "[]"]) (auto simp: wire_simps)
  have rp: "server_recv_payload rx (unat (h_payload_len h)) [] = (payload, rest)"
    by (rule recv_payload_delivers [OF rx(2), of "[]" "unat (h_payload_len h)"]) (auto simp: len)
  have hd: "deserialize_header (serialize_header h) = h"
    using deserialize_serialize_header [of h "[]"] by simp
  obtain cur srv1 where i: "server_request_inc srv = (cur, srv1)" by (cases "server_request_inc srv")
  have srv1: "server_request_dec srv1 = srv" "srv_handler_table srv1 = srv_handler_table srv"
    "srv_max_inflight_requests srv1 = srv_max_inflight_requests srv"
    using i by (auto simp: server_request_inc_def server_request_dec_def)
  have p: "(if h_payload_len h > 0 then Some payload else None) = (if payload = [] then None else Some payload)"
    using len by (auto simp: word_gt_0 unat_eq_zero)
  show ?thesis
    using h room crc f r rp
    by (auto simp: rpc_server_handle_request_def rx(1) hd i srv1 p len [symmetric] Let_def not_less
        dest!: send_response_incoming split: prod.splits)
qed

definition sample_server :: "nat rpc_server" where
  "sample_server = snd (rpc_server_register_handler rpc_server_create MSG_GOSSIP_PING
     (\<lambda>s p. (s + length (the p), 0, [42])))"

lemma request_reaches_handler_witness:
  "case compute_header_crc32 sample_header (Some [7]) 1 of
     Inl _ \<Rightarrow> False
   | Inr h \<Rightarrow>
       (case rpc_server_handle_request \<lparr>tv_sec = 5, tv_nsec = 0\<rparr> h sample_server 1 10
               ((sample_conn 64 [])\<lparr>tc_incoming :=
                  [Recv_data (take 5 (serialize_header h)), Recv_data (drop 5 (serialize_header h) @ [7]),
                   Recv_closed]\<rparr>) of
          (go, srv, counter, s, c) \<Rightarrow> s = 11 \<and> tc_incoming c = [Recv_closed])"
proof -
  obtain h where h: "compute_header_crc32 sample_header (Some [7]) 1 = Inr h"
    using compute_header_crc32_Inr [of sample_header "[7]"] by auto
  have h': "validate_message_header h" "h_payload_len h = 1" "h_msg_type h = msg_type_code MSG_GOSSIP_PING"
    "verify_message_crc32 h (Some [7]) 1"
    using h verify_message_crc32_iff [of h "[7]"] compute_header_crc32_Inr [of sample_header "[7]"]
    by (auto simp: sample_header_def validate_message_header_def PROTOCOL_MAX_PAYLOAD_SIZE_def)
  let ?rx = "[Recv_data (take 5 (serialize_header h)), Recv_data (drop 5 (serialize_header h) @ [7]), Recv_closed]"
  let ?c = "(sample_conn 64 [])\<lparr>tc_incoming := ?rx\<rparr>"
  have ne: "take 5 (serialize_header h) \<noteq> []"
    using length_serialize_header [of h] by (auto simp: MESSAGE_HEADER_SIZE_def simp del: length_serialize_header)
  have d: "delivers (tc_incoming ?c) (serialize_header h @ [7]) [Recv_closed]"
    unfolding delivers_def
    by (rule exI [of _ "[take 5 (serialize_header h), drop 5 (serialize_header h) @ [7]]"]) (use ne in auto)
  have l: "lookup_handler (srv_handler_table sample_server) (msg_type_code MSG_GOSSIP_PING)
      = Some (\<lambda>s p. (s + length (the p), 0, [42]))"
    unfolding sample_server_def
    by (rule lookup_registered [OF table_ok_empty])
      (simp_all add: live_keys_empty HANDLER_TABLE_SIZE_def rpc_server_create_def server_create_internal_def)
  have "\<exists>go counter' c'. rpc_server_handle_request \<lparr>tv_sec = 5, tv_nsec = 0\<rparr> h sample_server 1 10 ?c
      = (go, sample_server, counter', 11, c') \<and> tc_incoming c' = [Recv_closed]"
    by (rule request_reaches_handler [OF d h'(1) _ _ _ _ l [folded h'(3)], where rc = 0 and response = "[42]"])
      (use h' l in \<open>auto simp: sample_server_def rpc_server_register_handler_def rpc_server_create_def
        server_create_internal_def config_or_def server_request_inc_def RPC_MAX_MESSAGE_SIZE_def
        RPC_DEFAULT_MAX_INFLIGHT_def split: prod.splits\<close>)
  then show ?thesis using h by auto
qed

text \<open>The bytes that a connection will deliver, in order.\<close>

fun delivered_bytes :: "recv_outcome list \<Rightarrow> bytes" where
  "delivered_bytes [] = []"
| "delivered_bytes (Recv_data bs # rx) = bs @ delivered_bytes rx"
| "delivered_bytes (_ # rx) = delivered_bytes rx"

lemma tcp_recv_at_most: "tcp_recv rx len t = (r, bs, rx') \<Longrightarrow> length bs \<le> len"
  by (induction rx len t rule: tcp_recv.induct) (auto split: if_splits)

lemma tcp_recv_delivers: "tcp_recv rx len t = (r, bs, rx') \<Longrightarrow> 0 < r \<Longrightarrow> delivered_bytes rx = bs @ delivered_bytes rx'"
  by (induction rx len t rule: tcp_recv.induct) (auto split: if_splits)

lemma server_header_delivers:
  "server_recv_header rx acc = (Header hb, rx') \<Longrightarrow> length acc \<le> MESSAGE_HEADER_SIZE
     \<Longrightarrow> length hb = MESSAGE_HEADER_SIZE \<and> acc @ delivered_bytes rx = hb @ delivered_bytes rx'"
proof (induction rx acc rule: server_recv_header.induct)
  case (1 rx acc)
  show ?case
  proof (cases "length acc \<ge> MESSAGE_HEADER_SIZE")
    case True
    then show ?thesis using "1.prems" by (simp add: server_recv_header.simps [of rx])
  next
    case False
    obtain r bs rx1 where t: "tcp_recv rx (MESSAGE_HEADER_SIZE - length acc) RECV_LOOP_TIMEOUT_MS = (r, bs, rx1)"
      by (cases "tcp_recv rx (MESSAGE_HEADER_SIZE - length acc) RECV_LOOP_TIMEOUT_MS")
    have rec: "server_recv_header rx1 (acc @ bs) = (Header hb, rx')" and r: "0 < r"
      using "1.prems" False t tcp_recv_code [OF t]
      by (auto simp: server_recv_header.simps [of rx] split: if_splits)
    have len: "length (acc @ bs) \<le> MESSAGE_HEADER_SIZE" using tcp_recv_at_most [OF t] False by simp
    show ?thesis using "1.IH"(2) [OF False t [symmetric] refl _ _ _ rec len] r tcp_recv_delivers [OF t r] by simp
  qed
qed

lemma server_payload_delivers:
  "server_recv_payload rx len acc = (bs, rx') \<Longrightarrow> length acc \<le> len \<Longrightarrow> length bs = len
     \<Longrightarrow> acc @ delivered_bytes rx = bs @ delivered_bytes rx'"
proof (induction rx len acc rule: server_recv_payload.induct)
  case (1 rx len acc)
  show ?case
  proof (cases "length acc \<ge> len")
    case True
    then have "server_recv_payload rx len acc = (acc, rx)" by (subst server_recv_payload.simps) simp
    then show ?thesis using "1.prems"(1) by simp
  next
    case False
    obtain r ds rx1 where t: "tcp_recv rx (len - length acc) RECV_LOOP_TIMEOUT_MS = (r, ds, rx1)"
      by (cases "tcp_recv rx (len - length acc) RECV_LOOP_TIMEOUT_MS")
    show ?thesis
    proof (cases "0 < r")
      case True
      have "server_recv_payload rx len acc = server_recv_payload rx1 len (acc @ ds)"
        by (subst server_recv_payload.simps) (use True False t in simp)
      then have rec: "server_recv_payload rx1 len (acc @ ds) = (bs, rx')" using "1.prems"(1) by simp
      have len: "length (acc @ ds) \<le> len" using tcp_recv_at_most [OF t] False by simp
      show ?thesis
        using "1.IH"(2) [OF False t [symmetric] refl _ _ _ rec len "1.prems"(3)] True tcp_recv_delivers [OF t True] by simp
    next
      case neg: False
      then have "server_recv_payload rx len acc = (acc, rx1)"
        by (subst server_recv_payload.simps) (use False t tcp_recv_code [OF t] in auto)
      then show ?thesis using "1.prems" False by simp
    qed
  qed
qed

text \<open>
  C13. A handler runs only on a request that passed every check. If serving one request changes the
  application state, then the first 32 bytes that the connection delivered are a valid header, as many bytes
  as it announces, at most the server's limit, followed, its checksum is right for them, and the change is
  what the registered handler of its message type does with exactly these bytes. The count of requests in
  flight is the same after every path, so no admission slot leaks.
\<close>

theorem handler_runs_only_on_verified_request:
  "case rpc_server_handle_request now junk srv counter s c of
     (go, srv', counter', s', c') \<Rightarrow>
       srv' = srv \<and> (s' = s \<or>
         (let stream = delivered_bytes (tc_incoming c);
              header = deserialize_header (take MESSAGE_HEADER_SIZE stream);
              bs = take (unat (h_payload_len header)) (drop MESSAGE_HEADER_SIZE stream);
              payload = (if h_payload_len header > 0 then Some bs else None)
          in MESSAGE_HEADER_SIZE \<le> length stream \<and> h_magic header = PROTOCOL_MAGIC
            \<and> (drop_bit 8 (h_version header) AND 0xFF) = (drop_bit 8 PROTOCOL_VERSION AND 0xFF)
            \<and> validate_message_header header \<and> h_payload_len header \<le> srv_max_message_size srv
            \<and> length bs = unat (h_payload_len header)
            \<and> verify_message_crc32 header payload (unat (h_payload_len header))
            \<and> (case lookup_handler (srv_handler_table srv) (h_msg_type header) of
                 None \<Rightarrow> False
               | Some handler \<Rightarrow> s' = fst (handler s payload))))"
proof -
  obtain go srv' counter' s' c' where
    t: "rpc_server_handle_request now junk srv counter s c = (go, srv', counter', s', c')"
    by (cases "rpc_server_handle_request now junk srv counter s c")
  obtain hr rx where h: "server_recv_header (tc_incoming c) [] = (hr, rx)"
    by (cases "server_recv_header (tc_incoming c) []")
  show ?thesis
  proof (cases hr)
    case (Header hb)
    let ?h = "deserialize_header hb"
    obtain cur srv1 where i: "server_request_inc srv = (cur, srv1)" by (cases "server_request_inc srv")
    have srv1: "server_request_dec srv1 = srv" "srv_handler_table srv1 = srv_handler_table srv"
      using i by (auto simp: server_request_inc_def server_request_dec_def)
    obtain bs rx' where p: "server_recv_payload rx (unat (h_payload_len ?h)) [] = (bs, rx')"
      by (cases "server_recv_payload rx (unat (h_payload_len ?h)) []")
    let ?p = "if h_payload_len ?h > 0 then Some bs else None"
    show ?thesis
    proof (cases "validate_message_header ?h \<and> h_payload_len ?h \<le> srv_max_message_size srv
        \<and> cur \<le> srv_max_inflight_requests srv1 \<and> length bs = unat (h_payload_len ?h)
        \<and> verify_message_crc32 ?h ?p (unat (h_payload_len ?h))
        \<and> lookup_handler (srv_handler_table srv) (h_msg_type ?h) \<noteq> None")
      case True
      then obtain f where f: "lookup_handler (srv_handler_table srv) (h_msg_type ?h) = Some f" by auto
      have eff: "srv' = srv" "s' = fst (f s ?p)"
        using t True f
        by (auto simp: rpc_server_handle_request_def h Header Let_def i p srv1 split: prod.splits if_splits)
      have hd: "length hb = MESSAGE_HEADER_SIZE" "delivered_bytes (tc_incoming c) = hb @ delivered_bytes rx"
        using server_header_delivers [of "tc_incoming c" "[]" hb rx] h Header by simp_all
      have "delivered_bytes rx = bs @ delivered_bytes rx'"
        using server_payload_delivers [OF p] True by simp
      then have "take MESSAGE_HEADER_SIZE (delivered_bytes (tc_incoming c)) = hb"
        "take (unat (h_payload_len ?h)) (drop MESSAGE_HEADER_SIZE (delivered_bytes (tc_incoming c))) = bs"
        using hd True by simp_all
      moreover have "MESSAGE_HEADER_SIZE \<le> length (delivered_bytes (tc_incoming c))" using hd by simp
      moreover have "h_magic ?h = PROTOCOL_MAGIC" "drop_bit 8 (h_version ?h) AND 0xFF = drop_bit 8 PROTOCOL_VERSION AND 0xFF"
        using validate_message_header_magic True by blast+
      ultimately show ?thesis using True f eff unfolding t prod.case Let_def by (auto simp only: option.case)
    next
      case False
      then have "srv' = srv \<and> s' = s"
        using t
        by (auto simp: rpc_server_handle_request_def h Header Let_def i p srv1
            split: prod.splits if_splits option.splits)
      then show ?thesis unfolding t by simp
    qed
  qed (use h in \<open>auto simp: rpc_server_handle_request_def\<close>)
qed

text \<open>
  The server never completes a response: the positive return value of \<^verbatim>\<open>tcp_send\<close> for the
  response header counts as a failure, so the connection is closed after at most the 32 bytes of
  the header; no byte of a response payload is ever handed to the connection.
\<close>

lemma response_payload_never_sent:
  assumes "conn_ok c"
  shows "case rpc_send_response now junk counter c mt response of
    (go, counter', c') \<Rightarrow> \<not> go \<and> (\<exists>hdr k. stream_of c' = stream_of c @ take k (serialize_header hdr))"
proof -
  obtain go counter' c' where r: "rpc_send_response now junk counter c mt response = (go, counter', c')"
    by (cases "rpc_send_response now junk counter c mt response")
  then obtain hdr e where s: "tcp_send c (serialize_header hdr) = (e, c')" "\<not> go"
    using tcp_send_nonzero by (fastforce simp: rpc_send_response_def Let_def split: prod.splits if_splits)
  have "serialize_header hdr \<noteq> []"
    using length_serialize_header [of hdr] by (auto simp: MESSAGE_HEADER_SIZE_def simp del: length_serialize_header)
  then show ?thesis using tcp_send_spec [OF s(1) assms] r s(2) by auto
qed

lemma remaining_ms_nonneg: "0 \<le> remaining_ms b w t"
  by (simp add: remaining_ms_def Let_def pos_imp_zdiv_nonneg_iff)

lemma retry_delay_bounds:
  assumes "0 \<le> backoff" and "backoff \<le> 5000"
  shows "0 \<le> retry_delay env b w attempt backoff \<and> retry_delay env b w attempt backoff \<le> 5000"
proof -
  let ?j = "uint (re_rand env attempt) mod (backoff div 2 + 1)"
  have "0 \<le> ?j" "?j < backoff div 2 + 1"
    using assms pos_mod_sign [of "backoff div 2 + 1"] pos_mod_bound [of "backoff div 2 + 1"] by auto
  then have "0 \<le> backoff div 2 + ?j" "backoff div 2 + ?j \<le> 5000" using assms by linarith+
  then show ?thesis
    using remaining_ms_nonneg [of b w "re_sleep_us env attempt"] by (auto simp: retry_delay_def Let_def)
qed

text \<open>What one attempt contributes to the trace, given what the rest of the loop does.\<close>

definition trace_ok :: "retry_env \<Rightarrow> nat \<Rightarrow> int \<Rightarrow> nat \<Rightarrow> int \<Rightarrow> int \<times> (int \<times> int) list \<Rightarrow> bool" where
  "trace_ok env attempt timeout_ms left err res \<longleftrightarrow>
     (case res of (r, tr) \<Rightarrow> length tr \<le> left
       \<and> list_all (\<lambda>(t, d). t \<le> timeout_ms \<and> 0 \<le> d \<and> d \<le> 5000) tr
       \<and> (if tr = [] then r = err \<and> left = 0 \<or> r \<noteq> 0
          else r \<noteq> 0 \<or> re_call env (attempt + length tr - 1) (fst (last tr)) = 0))"

lemma trace_ok_cons:
  assumes "trace_ok env (Suc attempt) t left e res" and "t \<le> timeout_ms" and "0 \<le> d" and "d \<le> 5000"
    and "e = re_call env attempt t"
  shows "trace_ok env attempt timeout_ms (Suc left) err (fst res, (t, d) # snd res)"
proof -
  have "list_all (\<lambda>(t, d). t \<le> timeout_ms \<and> 0 \<le> d \<and> d \<le> 5000) (snd res)"
    using assms(1,2) by (auto simp: trace_ok_def list_all_iff split: prod.splits)
  then show ?thesis using assms by (auto simp: trace_ok_def split: prod.splits)
qed

lemma retry_step:
  "retry_loop env b w (Suc left) attempt timeout_ms backoff err =
    (let remaining = remaining_ms b w (re_check_us env attempt);
         t = (if b \<noteq> -1 \<and> timeout_ms > 0 \<and> remaining < timeout_ms then remaining else timeout_ms);
         d = retry_delay env b w attempt backoff;
         bo = (if attempt = 0 then backoff else if backoff * 2 < 5000 then backoff * 2 else 5000);
         e = re_call env attempt t;
         rest = retry_loop env b w left (Suc attempt) t bo e
     in if b \<noteq> -1 \<and> (re_check_us env attempt - w \<ge> b \<or> remaining < BUDGET_MIN_TIMEOUT_MS)
        then (err_code DISTRIC_ERR_TIMEOUT, [])
        else if e = 0 \<or> rpc_error_classify e = RPC_ERR_CLASS_INVALID
                \<or> rpc_error_classify e = RPC_ERR_CLASS_INTERNAL then (e, [(t, d)])
        else (fst rest, (t, d) # snd rest))"
  unfolding retry_loop.simps Let_def by (simp only: err_code.simps split_beta disj_assoc if_cancel split: if_split) blast

lemma retry_loop_ok:
  assumes "50 \<le> backoff" and "backoff \<le> 5000"
  shows "trace_ok env attempt timeout_ms left err
    (retry_loop env b w left attempt timeout_ms backoff err)"
  using assms
proof (induction left arbitrary: attempt timeout_ms backoff err)
  case 0
  then show ?case by (simp add: trace_ok_def)
next
  case (Suc left)
  define remaining where "remaining = remaining_ms b w (re_check_us env attempt)"
  define t where "t = (if b \<noteq> -1 \<and> timeout_ms > 0 \<and> remaining < timeout_ms then remaining else timeout_ms)"
  define d where "d = retry_delay env b w attempt backoff"
  define bo where "bo = (if attempt = 0 then backoff else if backoff * 2 < 5000 then backoff * 2 else 5000)"
  define e where "e = re_call env attempt t"
  define rest where "rest = retry_loop env b w left (Suc attempt) t bo e"
  have d: "0 \<le> d" "d \<le> 5000"
    using retry_delay_bounds [of backoff env b w attempt] Suc.prems by (auto simp: d_def)
  have t: "t \<le> timeout_ms" by (simp add: t_def)
  have "50 \<le> bo" "bo \<le> 5000" using Suc.prems by (auto simp: bo_def)
  then have "trace_ok env (Suc attempt) t left e rest" unfolding rest_def by (rule Suc.IH)
  note rec = trace_ok_cons [OF this t d e_def, of err]
  have stop: "trace_ok env attempt timeout_ms (Suc left) err (e, [(t, d)])"
    using t d by (auto simp: trace_ok_def e_def)
  have out: "trace_ok env attempt timeout_ms (Suc left) err (err_code DISTRIC_ERR_TIMEOUT, [])"
    by (simp add: trace_ok_def)
  show ?case
    unfolding retry_step Let_def remaining_def [symmetric] t_def [symmetric] d_def [symmetric]
      bo_def [symmetric] e_def [symmetric] rest_def [symmetric]
    using rec stop out by simp
qed

text \<open>
  The retry loop is bounded: it makes at most \<open>max_retries + 1\<close> attempts, no attempt gets more
  time than the caller's timeout, every back-off lies between 0 and 5000 ms, and it returns success
  only if the last attempt returned success or no attempt was made because the number of
  retries was negative.
\<close>

lemma retry_bounded:
  "case rpc_call_with_retry env client wall_start timeout_ms max_retries of
     (r, tr) \<Rightarrow> length tr \<le> nat (max_retries + 1)
       \<and> list_all (\<lambda>(t, d). t \<le> timeout_ms \<and> 0 \<le> d \<and> d \<le> 5000) tr
       \<and> (if r = 0 then if tr = [] then max_retries < 0
                        else re_call env (length tr - 1) (fst (last tr)) = 0
           else True)"
proof -
  obtain r tr where r: "rpc_call_with_retry env client wall_start timeout_ms max_retries = (r, tr)"
    by (cases "rpc_call_with_retry env client wall_start timeout_ms max_retries")
  have "trace_ok env 0 timeout_ms (nat (max_retries + 1)) (err_code DISTRIC_OK) (r, tr)"
    unfolding r [symmetric] rpc_call_with_retry_def Let_def by (rule retry_loop_ok) simp_all
  then show ?thesis unfolding r by (auto simp: trace_ok_def split: if_splits)
qed

end
