(* ===== verification/RaftRpc.thy ===== *)
theory RaftRpc
  imports RaftMessages RaftNode Rpc
begin

text \<open>
  Raft over RPC (\<^verbatim>\<open>libs/distric_raft/src/raft_rpc.c\<close>): the three handlers from request bytes to
  response bytes, the client operations with retry and send filter, the broadcasts of vote requests
  and of log entries, and the set-up of the server. The network is the parameter \<open>net\<close>: what
  \<^verbatim>\<open>rpc_call\<close> returns for the \<open>k\<close>-th attempt of a call (return value and response). The
  lemmas connect the bytes on the wire with the node operations of the theory \<open>RaftNode\<close>.
\<close>

section \<open>Context\<close>

record raft_rpc_config =
  rc_rpc_timeout_ms :: u32
  rc_max_retries :: u32

record raft_rpc_context =
  ctx_config :: raft_rpc_config
  ctx_send_filter :: "(cstr \<Rightarrow> u16 \<Rightarrow> bool) option"
  ctx_running :: bool

type_synonym network = "nat \<Rightarrow> cstr \<Rightarrow> u16 \<Rightarrow> message_type \<Rightarrow> bytes \<Rightarrow> int \<Rightarrow> int \<times> bytes"

section \<open>Handlers\<close>

text \<open>
  The request is NULL (\<open>None\<close>) for an empty payload. The result: node, return value, response.
  Members the code leaves out of the response initialiser are zero.
\<close>

definition handle_request_vote_rpc :: "u64 \<Rightarrow> raft_node \<Rightarrow> bytes option \<Rightarrow> raft_node \<times> int \<times> bytes" where
  "handle_request_vote_rpc now n request =
     (case request of
        None \<Rightarrow> (n, -1, [])
      | Some buf \<Rightarrow>
          (case deserialize_raft_request_vote buf of
             Inl err \<Rightarrow> (n, -1, [])
           | Inr rv \<Rightarrow>
               (case raft_handle_request_vote now n (rv_candidate_id rv) (rv_term rv)
                       (rv_last_log_index rv) (rv_last_log_term rv) of
                  (n, vote_granted, t) \<Rightarrow>
                    (case serialize_raft_request_vote_response
                            \<lparr>rvr_term = t, rvr_vote_granted = vote_granted, rvr_node_id = []\<rparr> of
                       Inl err \<Rightarrow> (n, -1, [])
                     | Inr response \<Rightarrow> (n, 0, response)))))"

definition entry_of_wire :: "raft_log_entry_wire \<Rightarrow> raft_log_entry" where
  "entry_of_wire w = \<lparr>e_index = we_index w, e_term = we_term w, e_type = we_entry_type w, e_data = we_data w\<rparr>"

definition wire_of_entry :: "raft_log_entry \<Rightarrow> raft_log_entry_wire" where
  "wire_of_entry e = \<lparr>we_term = e_term e, we_index = e_index e, we_entry_type = e_type e, we_data = e_data e\<rparr>"

definition handle_append_entries_rpc :: "u64 \<Rightarrow> raft_node \<Rightarrow> bytes option \<Rightarrow> raft_node \<times> int \<times> bytes" where
  "handle_append_entries_rpc now n request =
     (case request of
        None \<Rightarrow> (n, -1, [])
      | Some buf \<Rightarrow>
          (case deserialize_raft_append_entries buf of
             Inl err \<Rightarrow> (n, -1, [])
           | Inr ae \<Rightarrow>
               (case raft_handle_append_entries now n (ae_leader_id ae) (ae_term ae)
                       (ae_prev_log_index ae) (ae_prev_log_term ae)
                       (map entry_of_wire (ae_entries ae)) (ae_leader_commit ae) of
                  (n, success, t, last_log_index) \<Rightarrow>
                    (case serialize_raft_append_entries_response
                            \<lparr>aer_term = t, aer_success = success, aer_node_id = [],
                             aer_match_index = last_log_index\<rparr> of
                       Inl err \<Rightarrow> (n, -1, [])
                     | Inr response \<Rightarrow> (n, 0, response)))))"

definition handle_install_snapshot_rpc :: "raft_node \<Rightarrow> bytes option \<Rightarrow> raft_node \<times> int \<times> bytes" where
  "handle_install_snapshot_rpc n request =
     (case request of
        None \<Rightarrow> (n, -1, [])
      | Some buf \<Rightarrow>
          (case deserialize_raft_install_snapshot buf of
             Inl err \<Rightarrow> (n, -1, [])
           | Inr ins \<Rightarrow>
               (case RaftNode.raft_install_snapshot n (ins_last_included_index ins)
                       (ins_last_included_term ins) (ins_data ins) of
                  (err, n) \<Rightarrow>
                    (case serialize_raft_install_snapshot_response
                            \<lparr>isr_term = raft_get_term n, isr_node_id = [], isr_success = (err = DISTRIC_OK)\<rparr> of
                       Inl err \<Rightarrow> (n, -1, [])
                     | Inr response \<Rightarrow> (n, 0, response)))))"

section \<open>Set-up\<close>

text \<open>
  \<open>tcp_err\<close> and \<open>pool_err\<close>: what \<^verbatim>\<open>tcp_server_create\<close> and \<^verbatim>\<open>tcp_pool_create\<close> return. \<open>clock\<close> is the
  time at which a handler runs.
\<close>

definition raft_rpc_create ::
  "raft_rpc_config \<Rightarrow> distric_err \<Rightarrow> distric_err \<Rightarrow> u64
     \<Rightarrow> (raft_rpc_context \<times> raft_node rpc_server \<times> rpc_client) result" where
  "raft_rpc_create config tcp_err pool_err clock =
     (if tcp_err \<noteq> DISTRIC_OK then Inl tcp_err
      else if pool_err \<noteq> DISTRIC_OK then Inl pool_err
      else
        let srv = rpc_server_create; client = rpc_client_create
        in case rpc_server_register_handler srv MSG_RAFT_REQUEST_VOTE (handle_request_vote_rpc clock) of
             (err, srv) \<Rightarrow>
               if err \<noteq> DISTRIC_OK then Inl err
               else case rpc_server_register_handler srv MSG_RAFT_APPEND_ENTRIES (handle_append_entries_rpc clock) of
                 (err, srv) \<Rightarrow>
                   if err \<noteq> DISTRIC_OK then Inl err
                   else case rpc_server_register_handler srv MSG_RAFT_INSTALL_SNAPSHOT handle_install_snapshot_rpc of
                     (err, srv) \<Rightarrow>
                       if err \<noteq> DISTRIC_OK then Inl err
                       else Inr (\<lparr>ctx_config = config, ctx_send_filter = None, ctx_running = False\<rparr>, srv, client))"

definition raft_rpc_start ::
  "distric_err \<Rightarrow> raft_rpc_context \<Rightarrow> 's rpc_server \<Rightarrow> distric_err \<times> raft_rpc_context \<times> 's rpc_server" where
  "raft_rpc_start started ctx srv =
     (case rpc_server_start started srv of
        (err, srv) \<Rightarrow> if err \<noteq> DISTRIC_OK then (err, ctx, srv)
                     else (DISTRIC_OK, ctx\<lparr>ctx_running := True\<rparr>, srv))"

definition raft_rpc_stop ::
  "nat list \<Rightarrow> raft_rpc_context \<Rightarrow> 's rpc_server \<Rightarrow> raft_rpc_context \<times> 's rpc_server" where
  "raft_rpc_stop drain ctx srv = (ctx\<lparr>ctx_running := False\<rparr>, snd (rpc_server_stop drain srv))"

definition raft_rpc_set_send_filter ::
  "raft_rpc_context \<Rightarrow> (cstr \<Rightarrow> u16 \<Rightarrow> bool) option \<Rightarrow> raft_rpc_context" where
  "raft_rpc_set_send_filter ctx send_filter = ctx\<lparr>ctx_send_filter := send_filter\<rparr>"

section \<open>Client operations\<close>

definition send_allowed :: "raft_rpc_context \<Rightarrow> cstr \<Rightarrow> u16 \<Rightarrow> bool" where
  "send_allowed ctx address port =
     (case ctx_send_filter ctx of None \<Rightarrow> True | Some allow \<Rightarrow> allow address port)"

text \<open>
  The retry loop: attempts \<open>k\<close>, \<open>k + 1\<close>, \dots until one succeeds or none is left. \<^verbatim>\<open>max_retries\<close> is below
  \<open>2 ^ 32 - 1\<close>, where the counter of the source wraps.
\<close>

fun call_with_retries :: "(nat \<Rightarrow> int \<times> bytes) \<Rightarrow> nat \<Rightarrow> nat \<Rightarrow> int \<times> bytes" where
  "call_with_retries call k 0 = call k"
| "call_with_retries call k (Suc retries) =
     (case call k of
        (err, response) \<Rightarrow>
          if err = err_code DISTRIC_OK then (err, response) else call_with_retries call (Suc k) retries)"

text \<open>The results: \<open>Inl\<close> the error returned, or \<open>Inr\<close> the values stored through the out-parameters.\<close>

definition raft_rpc_send_request_vote ::
  "raft_rpc_context \<Rightarrow> network \<Rightarrow> cstr \<Rightarrow> u16 \<Rightarrow> cstr \<Rightarrow> u32 \<Rightarrow> u32 \<Rightarrow> u32 \<Rightarrow> int + bool \<times> u32" where
  "raft_rpc_send_request_vote ctx net address port candidate_id t last_log_index last_log_term =
     (if \<not> send_allowed ctx address port then Inl (err_code DISTRIC_ERR_UNAVAILABLE)
      else
        case serialize_raft_request_vote
               \<lparr>rv_term = t, rv_candidate_id = strncpy 63 candidate_id,
                rv_last_log_index = last_log_index, rv_last_log_term = last_log_term\<rparr> of
          Inl err \<Rightarrow> Inl (err_code err)
        | Inr request \<Rightarrow>
            (case call_with_retries
                    (\<lambda>k. net k address port MSG_RAFT_REQUEST_VOTE request (sint (rc_rpc_timeout_ms (ctx_config ctx))))
                    0 (unat (rc_max_retries (ctx_config ctx))) of
               (err, response_buf) \<Rightarrow>
                 if err \<noteq> err_code DISTRIC_OK then Inl err
                 else case deserialize_raft_request_vote_response response_buf of
                        Inl err \<Rightarrow> Inl (err_code err)
                      | Inr response \<Rightarrow> Inr (rvr_vote_granted response, rvr_term response)))"

definition raft_rpc_send_append_entries ::
  "raft_rpc_context \<Rightarrow> network \<Rightarrow> cstr \<Rightarrow> u16 \<Rightarrow> cstr \<Rightarrow> u32 \<Rightarrow> u32 \<Rightarrow> u32 \<Rightarrow> raft_log_entry list
     \<Rightarrow> u32 \<Rightarrow> int + bool \<times> u32 \<times> u32" where
  "raft_rpc_send_append_entries ctx net address port leader_id t prev_log_index prev_log_term entries
       leader_commit =
     (if \<not> send_allowed ctx address port then Inl (err_code DISTRIC_ERR_UNAVAILABLE)
      else
        case serialize_raft_append_entries
               \<lparr>ae_term = t, ae_leader_id = strncpy 63 leader_id, ae_prev_log_index = prev_log_index,
                ae_prev_log_term = prev_log_term, ae_entries = map wire_of_entry entries,
                ae_leader_commit = leader_commit\<rparr> of
          Inl err \<Rightarrow> Inl (err_code err)
        | Inr request \<Rightarrow>
            (case net 0 address port MSG_RAFT_APPEND_ENTRIES request (sint (rc_rpc_timeout_ms (ctx_config ctx))) of
               (err, response_buf) \<Rightarrow>
                 if err \<noteq> err_code DISTRIC_OK then Inl err
                 else case deserialize_raft_append_entries_response response_buf of
                        Inl err \<Rightarrow> Inl (err_code err)
                      | Inr response \<Rightarrow> Inr (aer_success response, aer_term response, aer_match_index response)))"

definition raft_rpc_send_install_snapshot ::
  "raft_rpc_context \<Rightarrow> network \<Rightarrow> cstr \<Rightarrow> u16 \<Rightarrow> cstr \<Rightarrow> u32 \<Rightarrow> u32 \<Rightarrow> u32 \<Rightarrow> bytes option
     \<Rightarrow> int + bool \<times> u32" where
  "raft_rpc_send_install_snapshot ctx net address port leader_id t last_included_index
       last_included_term snapshot_data =
     (if \<not> send_allowed ctx address port then Inl (err_code DISTRIC_ERR_UNAVAILABLE)
      else
        case serialize_raft_install_snapshot
               \<lparr>ins_term = t, ins_leader_id = strncpy 63 leader_id,
                ins_last_included_index = last_included_index,
                ins_last_included_term = last_included_term, ins_data = snapshot_data\<rparr> of
          Inl err \<Rightarrow> Inl (err_code err)
        | Inr request \<Rightarrow>
            (case net 0 address port MSG_RAFT_INSTALL_SNAPSHOT request
                    (sint (rc_rpc_timeout_ms (ctx_config ctx) * 10)) of
               (err, response_buf) \<Rightarrow>
                 if err \<noteq> err_code DISTRIC_OK then Inl err
                 else case deserialize_raft_install_snapshot_response response_buf of
                        Inl err \<Rightarrow> Inl (err_code err)
                      | Inr response \<Rightarrow> Inr (isr_success response, isr_term response)))"

section \<open>Broadcasts\<close>

text \<open>
  The threads of the vote broadcast share nothing but their argument blocks, so their order does
  not matter; the results are counted after all have been joined.
\<close>

definition request_vote_thread ::
  "raft_rpc_context \<Rightarrow> network \<Rightarrow> cstr \<Rightarrow> u32 \<Rightarrow> u32 \<Rightarrow> u32 \<Rightarrow> raft_peer \<Rightarrow> (bool \<times> u32) option" where
  "request_vote_thread ctx net candidate_id t last_log_index last_log_term peer =
     (case raft_rpc_send_request_vote ctx net (p_address peer) (p_port peer) candidate_id t
             last_log_index last_log_term of
        Inl err \<Rightarrow> None
      | Inr r \<Rightarrow> Some r)"

definition count_vote :: "u64 \<Rightarrow> u32 \<Rightarrow> u32 \<times> raft_node \<Rightarrow> (bool \<times> u32) option \<Rightarrow> u32 \<times> raft_node" where
  "count_vote now t acc result =
     (case (acc, result) of
        ((votes, n), None) \<Rightarrow> (votes, n)
      | ((votes, n), Some (vote_granted, peer_term)) \<Rightarrow>
          (if vote_granted then votes + 1 else votes,
           if peer_term > t then raft_step_down now n peer_term else n))"

definition raft_rpc_broadcast_request_vote ::
  "u64 \<Rightarrow> raft_rpc_context \<Rightarrow> network \<Rightarrow> raft_node \<Rightarrow> u32 \<times> raft_node" where
  "raft_rpc_broadcast_request_vote now ctx net n =
     (if cfg_peers (raft_get_config n) = [] then (1, n)
      else
        let t = raft_get_term n;
            last_log_index = raft_get_last_log_index n;
            last_log_term = raft_get_last_log_term n;
            node_id = strncpy 63 (raft_get_node_id n)
        in foldl (count_vote now t) (1, n)
             (map (request_vote_thread ctx net node_id t last_log_index last_log_term)
                (cfg_peers (raft_get_config n))))"

text \<open>
  \<^verbatim>\<open>append_entries_thread\<close> in two parts: what it reads from the node and sends, and what it
  does with the reply. In between the lock is free and other threads may run.
\<close>

definition append_entries_send ::
  "raft_rpc_context \<Rightarrow> network \<Rightarrow> raft_node \<Rightarrow> nat \<Rightarrow> u32 \<times> (int + bool \<times> u32 \<times> u32)" where
  "append_entries_send ctx net n peer_index =
     (let peer = cfg_peers (raft_get_config n) ! peer_index;
          next_index = raft_get_peer_next_index n peer_index;
          last_log_index = raft_get_last_log_index n;
          entries = (if next_index \<le> last_log_index
                     then raft_get_log_entries n next_index (last_log_index + 1) else []);
          prev_log_index = (if next_index > 1 then next_index - 1 else 0);
          prev_log_term = (if prev_log_index > 0 then raft_get_log_term n prev_log_index else 0);
          t = raft_get_term n
      in (t, raft_rpc_send_append_entries ctx net (p_address peer) (p_port peer) (raft_get_node_id n) t
               prev_log_index prev_log_term entries (raft_get_commit_index n)))"

definition append_entries_finish ::
  "u64 \<Rightarrow> raft_node \<Rightarrow> nat \<Rightarrow> u32 \<Rightarrow> (int + bool \<times> u32 \<times> u32) \<Rightarrow> raft_node \<times> bool" where
  "append_entries_finish now n peer_index t result =
     (case result of
        Inl err \<Rightarrow> (n, False)
      | Inr (success, peer_term, match_index) \<Rightarrow>
          (if success then snd (raft_update_peer_indices n peer_index (match_index + 1) match_index)
           else if peer_term > t then raft_step_down now n peer_term
           else snd (raft_decrement_peer_next_index n peer_index), True))"

definition append_entries_thread ::
  "u64 \<Rightarrow> raft_rpc_context \<Rightarrow> network \<Rightarrow> raft_node \<Rightarrow> nat \<Rightarrow> raft_node \<times> bool" where
  "append_entries_thread now ctx net n peer_index =
     (case append_entries_send ctx net n peer_index of
        (t, result) \<Rightarrow> append_entries_finish now n peer_index t result)"

text \<open>
  The broadcast runs one thread per peer; a schedule lists their two parts in the order in which
  they happen. A reply that has not been sent for is ignored.
\<close>

datatype thread_event = Thread_send nat | Thread_finish nat

type_synonym pending = "nat \<Rightarrow> (u32 \<times> (int + bool \<times> u32 \<times> u32)) option"

fun broadcast_step ::
  "u64 \<Rightarrow> raft_rpc_context \<Rightarrow> network \<Rightarrow> raft_node \<times> pending \<Rightarrow> thread_event \<Rightarrow> raft_node \<times> pending" where
  "broadcast_step now ctx net (n, pend) (Thread_send i) = (n, pend(i \<mapsto> append_entries_send ctx net n i))"
| "broadcast_step now ctx net (n, pend) (Thread_finish i) =
     (case pend i of
        None \<Rightarrow> (n, pend)
      | Some (t, result) \<Rightarrow> (fst (append_entries_finish now n i t result), pend(i := None)))"

definition raft_rpc_broadcast_append_entries ::
  "u64 \<Rightarrow> raft_rpc_context \<Rightarrow> network \<Rightarrow> thread_event list \<Rightarrow> raft_node \<Rightarrow> raft_node" where
  "raft_rpc_broadcast_append_entries now ctx net schedule n =
     (if cfg_peers (raft_get_config n) = [] then n
      else fst (foldl (broadcast_step now ctx net) (n, Map.empty) schedule))"


section \<open>The wire is transparent\<close>

text \<open>
  A network that answers one request to a peer with one response at the first attempt; about any other request,
  peer or attempt nothing is said.
\<close>

definition answers :: "network \<Rightarrow> cstr \<Rightarrow> u16 \<Rightarrow> message_type \<Rightarrow> bytes \<Rightarrow> bytes \<Rightarrow> bool" where
  "answers net address port mt request response \<longleftrightarrow>
     (\<forall>timeout. net 0 address port mt request timeout = (err_code DISTRIC_OK, response))"

lemma call_with_retries_first:
  "call k = (err_code DISTRIC_OK, response) \<Longrightarrow> call_with_retries call k r = (err_code DISTRIC_OK, response)"
  by (cases r) auto

lemma wf_strncpy_63: "wf_cstr 64 (strncpy 63 s)"
  using wf_strncpy [of 63 s] by simp

lemma entry_wire [simp]: "entry_of_wire (wire_of_entry e) = e"
  by (simp add: entry_of_wire_def wire_of_entry_def)

lemma map_entry_wire [simp]: "map (entry_of_wire \<circ> wire_of_entry) es = es"
  by (induction es) auto

lemma vote_request_decodes:
  obtains request where
    "serialize_raft_request_vote \<lparr>rv_term = t, rv_candidate_id = strncpy 63 c, rv_last_log_index = li,
       rv_last_log_term = lt\<rparr> = Inr request"
    and "deserialize_raft_request_vote request
      = Inr \<lparr>rv_term = t, rv_candidate_id = strncpy 63 c, rv_last_log_index = li, rv_last_log_term = lt\<rparr>"
  using rv.roundtrip [of "\<lparr>rv_term = t, rv_candidate_id = strncpy 63 c, rv_last_log_index = li,
    rv_last_log_term = lt\<rparr>"] wf_strncpy_63
  unfolding deserialize_raft_request_vote_def by (auto simp: rv_wf_def)

lemma vote_response_decodes:
  obtains response where
    "serialize_raft_request_vote_response \<lparr>rvr_term = t, rvr_vote_granted = g, rvr_node_id = []\<rparr> = Inr response"
    and "deserialize_raft_request_vote_response response
      = Inr \<lparr>rvr_term = t, rvr_vote_granted = g, rvr_node_id = []\<rparr>"
  using rvr.roundtrip [of "\<lparr>rvr_term = t, rvr_vote_granted = g, rvr_node_id = []\<rparr>"]
  unfolding deserialize_raft_request_vote_response_def by (auto simp: rvr_wf_def wf_cstr_def)

lemma append_response_decodes:
  obtains response where
    "serialize_raft_append_entries_response
       \<lparr>aer_term = t, aer_success = ok, aer_node_id = [], aer_match_index = li\<rparr> = Inr response"
    and "deserialize_raft_append_entries_response response
      = Inr \<lparr>aer_term = t, aer_success = ok, aer_node_id = [], aer_match_index = li\<rparr>"
  using aer.roundtrip [of "\<lparr>aer_term = t, aer_success = ok, aer_node_id = [], aer_match_index = li\<rparr>"]
  unfolding deserialize_raft_append_entries_response_def by (auto simp: aer_wf_def wf_cstr_def)

text \<open>Entries that pass the decoder's limits: at most 507 of them, with data of at most 1 MiB - 37 bytes.\<close>

definition sendable :: "raft_log_entry list \<Rightarrow> bool" where
  "sendable es \<longleftrightarrow> length es \<le> 507 \<and> list_all (\<lambda>e. we_wf (wire_of_entry e)) es"

lemma append_request_decodes:
  assumes "sendable es"
  obtains request where
    "serialize_raft_append_entries
       \<lparr>ae_term = t, ae_leader_id = strncpy 63 l, ae_prev_log_index = p, ae_prev_log_term = pt,
        ae_entries = map wire_of_entry es, ae_leader_commit = lc\<rparr> = Inr request"
    and "deserialize_raft_append_entries request
      = Inr \<lparr>ae_term = t, ae_leader_id = strncpy 63 l, ae_prev_log_index = p, ae_prev_log_term = pt,
        ae_entries = map wire_of_entry es, ae_leader_commit = lc\<rparr>"
proof -
  have "ae_wf \<lparr>ae_term = t, ae_leader_id = strncpy 63 l, ae_prev_log_index = p, ae_prev_log_term = pt,
        ae_entries = map wire_of_entry es, ae_leader_commit = lc\<rparr>"
    using assms wf_strncpy_63 by (simp add: ae_wf_def sendable_def list_all_iff)
  from ae.roundtrip [OF this] show ?thesis
    using that unfolding deserialize_raft_append_entries_def by blast
qed

lemma send_request_vote_answered:
  assumes "send_allowed ctx address port"
    and h: "raft_handle_request_vote now peer (strncpy 63 c) t li lt = (peer', g, t')"
  shows "\<exists>request response. handle_request_vote_rpc now peer (Some request) = (peer', 0, response)
    \<and> (\<forall>net. answers net address port MSG_RAFT_REQUEST_VOTE request response \<longrightarrow>
         raft_rpc_send_request_vote ctx net address port c t li lt = Inr (g, t'))"
proof -
  obtain request where request:
    "serialize_raft_request_vote \<lparr>rv_term = t, rv_candidate_id = strncpy 63 c, rv_last_log_index = li,
       rv_last_log_term = lt\<rparr> = Inr request"
    "deserialize_raft_request_vote request
      = Inr \<lparr>rv_term = t, rv_candidate_id = strncpy 63 c, rv_last_log_index = li, rv_last_log_term = lt\<rparr>"
    by (rule vote_request_decodes)
  obtain response where response:
    "serialize_raft_request_vote_response \<lparr>rvr_term = t', rvr_vote_granted = g, rvr_node_id = []\<rparr> = Inr response"
    "deserialize_raft_request_vote_response response
      = Inr \<lparr>rvr_term = t', rvr_vote_granted = g, rvr_node_id = []\<rparr>"
    by (rule vote_response_decodes)
  have "handle_request_vote_rpc now peer (Some request) = (peer', 0, response)"
    using request(2) response(1) h by (simp add: handle_request_vote_rpc_def)
  moreover have "raft_rpc_send_request_vote ctx net address port c t li lt = Inr (g, t')"
    if "answers net address port MSG_RAFT_REQUEST_VOTE request response" for net
    using that assms(1) request(1) response(2)
    by (simp add: raft_rpc_send_request_vote_def answers_def call_with_retries_first [of _ _ response])
  ultimately show ?thesis by blast
qed

lemma send_append_entries_answered:
  assumes "send_allowed ctx address port" and "sendable es"
    and h: "raft_handle_append_entries now peer (strncpy 63 l) t p pt es lc = (peer', ok, t', li)"
  shows "\<exists>request response. handle_append_entries_rpc now peer (Some request) = (peer', 0, response)
    \<and> (\<forall>net. answers net address port MSG_RAFT_APPEND_ENTRIES request response \<longrightarrow>
         raft_rpc_send_append_entries ctx net address port l t p pt es lc = Inr (ok, t', li))"
proof -
  obtain request where request:
    "serialize_raft_append_entries
       \<lparr>ae_term = t, ae_leader_id = strncpy 63 l, ae_prev_log_index = p, ae_prev_log_term = pt,
        ae_entries = map wire_of_entry es, ae_leader_commit = lc\<rparr> = Inr request"
    "deserialize_raft_append_entries request
      = Inr \<lparr>ae_term = t, ae_leader_id = strncpy 63 l, ae_prev_log_index = p, ae_prev_log_term = pt,
        ae_entries = map wire_of_entry es, ae_leader_commit = lc\<rparr>"
    by (rule append_request_decodes [OF assms(2)])
  obtain response where response:
    "serialize_raft_append_entries_response
       \<lparr>aer_term = t', aer_success = ok, aer_node_id = [], aer_match_index = li\<rparr> = Inr response"
    "deserialize_raft_append_entries_response response
      = Inr \<lparr>aer_term = t', aer_success = ok, aer_node_id = [], aer_match_index = li\<rparr>"
    by (rule append_response_decodes)
  have "handle_append_entries_rpc now peer (Some request) = (peer', 0, response)"
    using request(2) response(1) h by (simp add: handle_append_entries_rpc_def)
  moreover have "raft_rpc_send_append_entries ctx net address port l t p pt es lc = Inr (ok, t', li)"
    if "answers net address port MSG_RAFT_APPEND_ENTRIES request response" for net
    using that assms(1) request(1) response(2)
    by (simp add: raft_rpc_send_append_entries_def answers_def)
  ultimately show ?thesis by blast
qed

section \<open>Counting votes\<close>

lemma step_down_keeps:
  "t < n_current_term n \<Longrightarrow> n_state n = RAFT_STATE_FOLLOWER
     \<Longrightarrow> t < n_current_term (raft_step_down now n t') \<and> n_state (raft_step_down now n t') = RAFT_STATE_FOLLOWER"
  by (auto simp: raft_step_down_def transition_to_follower_def Let_def)

lemma step_down_higher:
  "n_current_term n < t' \<Longrightarrow> n_current_term (raft_step_down now n t') = t'
     \<and> n_state (raft_step_down now n t') = RAFT_STATE_FOLLOWER"
  by (simp add: raft_step_down_def transition_to_follower_def Let_def)


definition vote_of :: "(bool \<times> u32) option \<Rightarrow> bool" where
  "vote_of r = (case r of Some (g, t) \<Rightarrow> g | None \<Rightarrow> False)"

definition outdated :: "u32 \<Rightarrow> (bool \<times> u32) option \<Rightarrow> bool" where
  "outdated t r = (case r of Some (g, t') \<Rightarrow> t' > t | None \<Rightarrow> False)"

lemma count_vote_alt:
  "count_vote now t (v, n) r =
     (if vote_of r then v + 1 else v,
      if outdated t r then raft_step_down now n (snd (the r)) else n)"
  by (auto simp: count_vote_def vote_of_def outdated_def split: option.splits prod.splits)

lemma count_votes_fst:
  "fst (foldl (count_vote now t) (v, n) rs) = v + of_nat (length (filter vote_of rs))"
  by (induction rs arbitrary: v n) (auto simp: count_vote_alt add.assoc)

lemma count_votes_stepped:
  "t < n_current_term n \<Longrightarrow> n_state n = RAFT_STATE_FOLLOWER
    \<Longrightarrow> t < n_current_term (snd (foldl (count_vote now t) (v, n) rs))
      \<and> n_state (snd (foldl (count_vote now t) (v, n) rs)) = RAFT_STATE_FOLLOWER"
  by (induction rs arbitrary: v n) (auto simp: count_vote_alt dest: step_down_keeps)

lemma count_votes_snd:
  assumes "n_current_term n = t"
  shows "if \<exists>r \<in> set rs. outdated t r
    then t < n_current_term (snd (foldl (count_vote now t) (v, n) rs))
      \<and> n_state (snd (foldl (count_vote now t) (v, n) rs)) = RAFT_STATE_FOLLOWER
    else snd (foldl (count_vote now t) (v, n) rs) = n"
proof (induction rs arbitrary: v)
  case (Cons r rs)
  show ?case
  proof (cases "outdated t r")
    case True
    then have "n_current_term n < snd (the r)" using assms by (auto simp: outdated_def split: option.splits)
    from step_down_higher [OF this, of now] True this show ?thesis
      using count_votes_stepped [of t "raft_step_down now n (snd (the r))"] assms
      by (simp add: count_vote_alt)
  next
    case False
    then show ?thesis using Cons by (auto simp: count_vote_alt)
  qed
qed simp

lemma call_with_retries_fails:
  assumes "\<And>k. fst (call k) \<noteq> err_code DISTRIC_OK"
  shows "fst (call_with_retries call k r) \<noteq> err_code DISTRIC_OK"
proof (induction r arbitrary: k)
  case (Suc r)
  then show ?case using assms [of k] by (cases "call k") auto
qed (use assms in simp)

lemma request_vote_thread_fails:
  assumes "\<And>k a p m r t. fst (net k a p m r t) \<noteq> err_code DISTRIC_OK"
  shows "request_vote_thread ctx net c t li lt peer = None"
proof -
  have "\<exists>e. raft_rpc_send_request_vote ctx net a p c t li lt = Inl e" for a p
    using call_with_retries_fails [of "\<lambda>k. net k a p MSG_RAFT_REQUEST_VOTE _ _"] assms
    by (auto simp: raft_rpc_send_request_vote_def split: sum.splits prod.splits)
      (metis err_code.simps(1) fst_conv)+
  from this [of "p_address peer" "p_port peer"] show ?thesis
    by (auto simp: request_vote_thread_def)
qed

section \<open>One replication round\<close>

lemma append_entries_send_spec:
  assumes "wf_log (n_log n)" and "i < peer_count n"
    and "unat (l_base_index (n_log n)) < unat (n_next_index n ! i)"
    and "unat (n_next_index n ! i) \<le> unat (log_last_index (n_log n)) + 1"
  defines "prev \<equiv> n_next_index n ! i - 1" and "peer \<equiv> cfg_peers (n_config n) ! i"
  shows "append_entries_send ctx net n i = (n_current_term n,
    raft_rpc_send_append_entries ctx net (p_address peer) (p_port peer) (cfg_node_id (n_config n))
      (n_current_term n) prev (if prev = 0 then 0 else raft_get_log_term n prev)
      (log_slice (n_log n) (unat prev) (unat (log_last_index (n_log n)))) (n_commit_index n))"
proof -
  let ?x = "n_next_index n ! i" and ?l = "log_last_index (n_log n)"
  have x: "1 \<le> ?x" using assms(3) by (simp add: u32_le_conv)
  then have p: "unat prev = unat ?x - 1" unfolding prev_def by (simp add: unat_sub)
  have prev: "(if ?x > 1 then ?x - 1 else 0) = prev" using x by (auto simp: prev_def)
  have gt: "(prev > 0) = (prev \<noteq> 0)" by (simp add: word_gt_0)
  have last: "unat ?l = unat (l_base_index (n_log n)) + log_count (n_log n)"
    using assms(1) by (rule unat_last_index)
  have l1: "unat (?l + 1) = unat ?l + 1"
    using assms(1) last unat_index_sum [of ?l 1] by (simp add: wf_log_def)
  have "(if ?x \<le> ?l then raft_get_log_entries n ?x (?l + 1) else []) = log_slice (n_log n) (unat prev) (unat ?l)"
  proof (cases "?x \<le> ?l")
    case True
    then have "raft_get_log_entries n ?x (?l + 1) = log_slice (n_log n) (unat ?x - 1) (unat (?l + 1) - 1)"
      using assms(3) l1 last by (intro raft_get_log_entries_slice) (auto simp: u32_le_conv)
    then show ?thesis using True p l1 by simp
  next
    case False
    then show ?thesis using p by (simp add: log_slice_def u32_le_conv)
  qed
  then show ?thesis
    using prev gt assms(2)
    by (auto simp: append_entries_send_def Let_def raft_get_config_def raft_get_term_def
        raft_get_last_log_index_def raft_get_node_id_def raft_get_commit_index_def
        raft_get_peer_next_index_def peer_def)
qed

text \<open>
  The situation of a replication round: a leader that tracks a peer within its log, a follower that
  holds the previous entry, and entries that respect the decoder's limits.
\<close>

definition round_ready :: "raft_rpc_context \<Rightarrow> raft_node \<Rightarrow> nat \<Rightarrow> raft_node \<Rightarrow> bool" where
  "round_ready ctx n i f \<longleftrightarrow>
     (let prev = n_next_index n ! i - 1; last = log_last_index (n_log n);
          es = log_slice (n_log n) (unat prev) (unat last);
          peer = cfg_peers (n_config n) ! i
      in wf_log (n_log n) \<and> i < peer_count n
         \<and> unat (l_base_index (n_log n)) < unat (n_next_index n ! i)
         \<and> unat (n_next_index n ! i) \<le> unat last + 1
         \<and> send_allowed ctx (p_address peer) (p_port peer) \<and> sendable es \<and> list_all wf_entry es
         \<and> wf_log (n_log f) \<and> log_synced f \<and> n_current_term f \<le> n_current_term n
         \<and> unat (l_base_index (n_log f)) \<le> unat prev
         \<and> prev_matches (n_log f) prev (if prev = 0 then 0 else raft_get_log_term n prev))"

lemma replication_round:
  assumes "round_ready ctx n i f"
  defines "prev \<equiv> n_next_index n ! i - 1" and "lst \<equiv> log_last_index (n_log n)"
  defines "es \<equiv> log_slice (n_log n) (unat prev) (unat lst)"
  obtains f' request response where
    "raft_handle_append_entries now f (strncpy 63 (cfg_node_id (n_config n))) (n_current_term n) prev
       (if prev = 0 then 0 else raft_get_log_term n prev) es (n_commit_index n)
       = (f', True, n_current_term n, log_last_index (n_log f'))"
    and "handle_append_entries_rpc now f (Some request) = (f', 0, response)"
    and "\<And>net. answers net (p_address (cfg_peers (n_config n) ! i)) (p_port (cfg_peers (n_config n) ! i))
        MSG_RAFT_APPEND_ENTRIES request response \<Longrightarrow>
      append_entries_thread now' ctx net n i
      = (snd (raft_update_peer_indices n i (log_last_index (n_log f') + 1) (log_last_index (n_log f'))), True)"
    and "wf_log (n_log f')" and "log_synced f'" and "l_base_index (n_log f') = l_base_index (n_log f)"
    and "l_entries (n_log f') = take (unat prev - unat (l_base_index (n_log f))) (l_entries (n_log f))
      @ ae_merge (drop (unat prev - unat (l_base_index (n_log f))) (l_entries (n_log f))) es"
    and "\<And>j. j < length es \<Longrightarrow>
      map_option e_term (log_get (n_log f') (prev + 1 + of_nat j)) = Some (e_term (es ! j))"
    and "length es = unat lst - unat prev"
proof -
  let ?pt = "if prev = 0 then 0 else raft_get_log_term n prev" and ?t = "n_current_term n"
  let ?id = "cfg_node_id (n_config n)"
  have a: "wf_log (n_log n)" "i < peer_count n" "unat (l_base_index (n_log n)) < unat (n_next_index n ! i)"
    "unat (n_next_index n ! i) \<le> unat (log_last_index (n_log n)) + 1"
    "send_allowed ctx (p_address (cfg_peers (n_config n) ! i)) (p_port (cfg_peers (n_config n) ! i))"
    "sendable es" "\<forall>e \<in> set es. wf_entry e" "wf_log (n_log f)" "log_synced f" "n_current_term f \<le> ?t"
    "unat (l_base_index (n_log f)) \<le> unat prev" "prev_matches (n_log f) prev ?pt"
    using assms(1) unfolding round_ready_def Let_def prev_def [symmetric] lst_def [symmetric] es_def [symmetric]
    by (auto simp: list_all_iff lst_def)
  have p: "unat prev = unat (n_next_index n ! i) - 1" unfolding prev_def using a(3)
    by (subst unat_sub) (simp_all add: u32_le_conv)
  have lst: "unat lst = unat (l_base_index (n_log n)) + log_count (n_log n)" "unat lst < 2 ^ 32 - 1"
    using unat_last_index [OF a(1)] a(1) by (simp_all add: lst_def wf_log_def)
  have len: "length es = unat lst - unat prev"
    unfolding es_def using lst(1) p a(3) by (intro length_log_slice) auto
  have cons: "consecutive (unat prev) es"
    unfolding es_def using p a(3) by (intro log_slice_consecutive [OF a(1)]) simp
  have bound: "unat prev + length es < 2 ^ 32 - 1" using len lst p a(4) lst_def by simp
  obtain f' ok t' li where h: "raft_handle_append_entries now f (strncpy 63 ?id) ?t prev ?pt es (n_commit_index n)
      = (f', ok, t', li)"
    by (metis prod_cases4)
  note r = append_entries_log [OF a(8-10,12,11,7) cons bound h]
  note terms = append_entries_terms [OF a(8-10,12,11,7) cons bound h]
  let ?peer = "cfg_peers (n_config n) ! i"
  obtain request response where w: "handle_append_entries_rpc now f (Some request) = (f', 0, response)"
    "\<And>net. answers net (p_address ?peer) (p_port ?peer) MSG_RAFT_APPEND_ENTRIES request response \<Longrightarrow>
       raft_rpc_send_append_entries ctx net (p_address ?peer) (p_port ?peer) ?id ?t prev ?pt es (n_commit_index n)
       = Inr (ok, t', li)"
    using send_append_entries_answered [OF a(5,6) h] by blast
  have "append_entries_thread now' ctx net n i = (snd (raft_update_peer_indices n i (li + 1) li), True)"
    if "answers net (p_address ?peer) (p_port ?peer) MSG_RAFT_APPEND_ENTRIES request response" for net
  proof -
    have "append_entries_send ctx net n i = (?t, Inr (ok, t', li))"
      unfolding append_entries_send_spec [OF a(1-4), folded prev_def lst_def, folded es_def] w(2) [OF that]
      by (rule refl)
    then show ?thesis using r(1) by (simp add: append_entries_thread_def append_entries_finish_def)
  qed
  with h r terms len w(1) show ?thesis by (intro that [of f' request response]) simp_all
qed

section \<open>Properties\<close>

text \<open>
  C15. The wire is transparent for the protocol: sending a vote request or log entries through serialisation,
  the peer's RPC handler and the response decoder has the effect and the answer of the direct call. For all
  arguments (ids cut to 63 bytes, entries within the decoder's limits) there are the bytes of a request, on which
  the peer's handler leaves the peer in exactly the state of the direct call, and the bytes of its response, such
  that every network that carries the two makes the sender return what the direct call returns.
\<close>

theorem rpc_equals_direct_call:
  assumes "send_allowed ctx address port" and "sendable es"
  shows "(\<exists>request response.
       handle_request_vote_rpc now peer (Some request)
         = (fst (raft_handle_request_vote now peer (strncpy 63 c) t li lt), 0, response)
       \<and> (\<forall>net. answers net address port MSG_RAFT_REQUEST_VOTE request response \<longrightarrow>
            raft_rpc_send_request_vote ctx net address port c t li lt
              = Inr (snd (raft_handle_request_vote now peer (strncpy 63 c) t li lt))))
    \<and> (\<exists>request response.
       handle_append_entries_rpc now peer (Some request)
         = (fst (raft_handle_append_entries now peer (strncpy 63 l) t p pt es lc), 0, response)
       \<and> (\<forall>net. answers net address port MSG_RAFT_APPEND_ENTRIES request response \<longrightarrow>
            raft_rpc_send_append_entries ctx net address port l t p pt es lc
              = Inr (snd (raft_handle_append_entries now peer (strncpy 63 l) t p pt es lc))))"
  using send_request_vote_answered [OF assms(1), of now peer c t li lt]
    send_append_entries_answered [OF assms, of now peer l t p pt lc]
  by (cases "raft_handle_request_vote now peer (strncpy 63 c) t li lt",
      cases "raft_handle_append_entries now peer (strncpy 63 l) t p pt es lc") simp

definition sample_context :: raft_rpc_context where
  "sample_context = \<lparr>ctx_config = \<lparr>rc_rpc_timeout_ms = 1000, rc_max_retries = 3\<rparr>, ctx_send_filter = None,
     ctx_running = True\<rparr>"

theorem rpc_equals_direct_call_witness:
  "\<exists>request response.
     handle_append_entries_rpc 2000 sample_node (Some request)
       = (fst (raft_handle_append_entries 2000 sample_node (strncpy 63 [110, 50]) 3 1 1 [sample_entry 2 3 [66]] 2), 0, response)
     \<and> raft_rpc_send_append_entries sample_context (\<lambda>k a p mt r tmo. (err_code DISTRIC_OK, response)) [104] 7000
         [110, 50] 3 1 1 [sample_entry 2 3 [66]] 2
       = Inr (snd (raft_handle_append_entries 2000 sample_node (strncpy 63 [110, 50]) 3 1 1 [sample_entry 2 3 [66]] 2))"
proof -
  have "send_allowed sample_context [104] 7000" "sendable [sample_entry 2 3 [66]]"
    by (simp_all add: send_allowed_def sample_context_def sendable_def we_wf_def wire_of_entry_def sample_entry_def
        default_string_limit_def)
  from rpc_equals_direct_call [OF this, of 2000 sample_node "[]" 3 0 0 "[110, 50]" 1 1 2, THEN conjunct2]
  show ?thesis unfolding answers_def by fast
qed

text \<open>
  The vote broadcast reports one vote for the candidate itself plus one for each peer whose
  reply arrived and granted the vote. If a reply carries a term above the candidate's, the node
  ends as a follower in a higher term; otherwise it is unchanged.
\<close>

lemma broadcast_counts_granted_votes:
  "case raft_rpc_broadcast_request_vote now ctx net n of (votes, n') \<Rightarrow>
     let replies = map (request_vote_thread ctx net (strncpy 63 (cfg_node_id (n_config n)))
            (n_current_term n) (log_last_index (n_log n)) (log_last_term (n_log n))) (cfg_peers (n_config n))
     in votes = 1 + of_nat (length (filter vote_of replies))
        \<and> (if list_ex (outdated (n_current_term n)) replies
           then n_current_term n < n_current_term n' \<and> n_state n' = RAFT_STATE_FOLLOWER
           else n' = n)"
proof -
  define replies where "replies = map (request_vote_thread ctx net (strncpy 63 (cfg_node_id (n_config n)))
    (n_current_term n) (log_last_index (n_log n)) (log_last_term (n_log n))) (cfg_peers (n_config n))"
  have "raft_rpc_broadcast_request_vote now ctx net n = foldl (count_vote now (n_current_term n)) (1, n) replies"
    by (auto simp: raft_rpc_broadcast_request_vote_def Let_def raft_get_config_def raft_get_term_def
        raft_get_last_log_index_def raft_get_last_log_term_def raft_get_node_id_def replies_def)
  then show ?thesis
    using count_votes_fst [of now "n_current_term n" 1 n replies]
      count_votes_snd [of n "n_current_term n" replies now 1]
    unfolding Let_def replies_def [symmetric] by (simp add: split_beta list_ex_iff)
qed


text \<open>
  C16. One replication round over the wire: when a leader's thread sends the rest of its log to a follower that
  holds the previous entry, there are a request and a response, carried by the network, such that the handler of
  the follower turns the request into a node with a well formed log that is on disk, unchanged up to the previous
  index, merged with the leader's entries from there on, and with an entry of the leader's term at every index up
  to the leader's last. Every network that carries the two makes the leader record the follower's last index as
  matched; nothing else of the leader changes.
\<close>

theorem replication_round_over_wire:
  assumes "round_ready ctx n i f" and "length (n_next_index n) = peer_count n"
    and "length (n_match_index n) = peer_count n"
  defines "prev \<equiv> n_next_index n ! i - 1" and "peer \<equiv> cfg_peers (n_config n) ! i"
  shows "\<exists>request response f'. handle_append_entries_rpc now f (Some request) = (f', 0, response)
    \<and> (\<forall>net. answers net (p_address peer) (p_port peer) MSG_RAFT_APPEND_ENTRIES request response \<longrightarrow>
         fst (append_entries_thread now' ctx net n i)
         = n\<lparr>n_next_index := (n_next_index n)[i := log_last_index (n_log f') + 1],
             n_match_index := (n_match_index n)[i := log_last_index (n_log f')]\<rparr>)
    \<and> wf_log (n_log f') \<and> log_synced f'
    \<and> (\<forall>k. k \<le> prev \<longrightarrow> log_get (n_log f') k = log_get (n_log f) k)
    \<and> drop (unat prev - unat (l_base_index (n_log f))) (l_entries (n_log f'))
      = ae_merge (drop (unat prev - unat (l_base_index (n_log f))) (l_entries (n_log f)))
          (log_slice (n_log n) (unat prev) (unat (log_last_index (n_log n))))
    \<and> (\<forall>k. prev < k \<and> k \<le> log_last_index (n_log n) \<longrightarrow>
         map_option e_term (log_get (n_log f') k) = map_option e_term (log_get (n_log n) k)
         \<and> log_get (n_log n) k \<noteq> None)"
proof -
  let ?lst = "log_last_index (n_log n)" and ?b = "l_base_index (n_log n)"
  let ?es = "log_slice (n_log n) (unat prev) (unat ?lst)" and ?c = "unat prev - unat (l_base_index (n_log f))"
  obtain f' request response where call: "raft_handle_append_entries now f (strncpy 63 (cfg_node_id (n_config n)))
      (n_current_term n) prev (if prev = 0 then 0 else raft_get_log_term n prev) ?es (n_commit_index n)
      = (f', True, n_current_term n, log_last_index (n_log f'))"
    and f'1: "handle_append_entries_rpc now f (Some request) = (f', 0, response)"
    and f'2: "\<And>net. answers net (p_address peer) (p_port peer) MSG_RAFT_APPEND_ENTRIES request response \<Longrightarrow>
      append_entries_thread now' ctx net n i
      = (snd (raft_update_peer_indices n i (log_last_index (n_log f') + 1) (log_last_index (n_log f'))), True)"
    and f'3: "wf_log (n_log f')" and f'4: "log_synced f'"
    and merged: "l_base_index (n_log f') = l_base_index (n_log f)"
    "l_entries (n_log f') = take ?c (l_entries (n_log f)) @ ae_merge (drop ?c (l_entries (n_log f))) ?es"
    and f'5: "\<And>j. j < length ?es \<Longrightarrow>
      map_option e_term (log_get (n_log f') (prev + 1 + of_nat j)) = Some (e_term (?es ! j))"
    and f'6: "length ?es = unat ?lst - unat prev"
    by (rule replication_round [OF assms(1), of now now', folded prev_def peer_def], rule that; blast)
  have matched: "wf_log (n_log f)" "unat (l_base_index (n_log f)) \<le> unat prev"
      "prev_matches (n_log f) prev (if prev = 0 then 0 else raft_get_log_term n prev)"
    using assms(1) by (auto simp: round_ready_def Let_def prev_def)
  have held: "?c \<le> log_count (n_log f)" using prev_matches_position [OF matched(3,2)] by (simp add: log_count_def)
  then have rest: "drop ?c (l_entries (n_log f')) = ae_merge (drop ?c (l_entries (n_log f))) ?es"
    using merged(2) by (simp add: log_count_def)
  have kept: "log_get (n_log f') k = log_get (n_log f) k" if k: "k \<le> prev" for k
  proof -
    have "unat k - unat (l_base_index (n_log f)) - 1 < ?c" if "unat (l_base_index (n_log f)) < unat k"
      using k that by (simp add: u32_le_conv)
    then show ?thesis
      using held merged by (auto simp: log_get_eq log_count_def nth_append)
  qed
  have r: "wf_log (n_log n)" "i < peer_count n" "unat ?b < unat (n_next_index n ! i)"
    using assms(1) by (auto simp: round_ready_def Let_def)
  have p: "unat ?b \<le> unat prev" using r(3) unfolding prev_def by (subst unat_sub) (auto simp: u32_le_conv)
  have agree: "map_option e_term (log_get (n_log f') k) = map_option e_term (log_get (n_log n) k)
      \<and> log_get (n_log n) k \<noteq> None" if k: "prev < k" "k \<le> ?lst" for k
  proof -
    define j where "j = unat k - unat prev - 1"
    have ku: "unat prev < unat k" "unat k \<le> unat ?lst" using k by (simp_all add: u32_less_conv u32_le_conv)
    have j: "j < length ?es" "unat k = unat prev + Suc j" using ku f'6 by (auto simp: j_def)
    have last: "unat ?lst = unat ?b + log_count (n_log n)" using unat_last_index [OF r(1)] .
    have "k = prev + 1 + of_nat j"
    proof -
      have "k = of_nat (unat k)" by simp
      also have "\<dots> = prev + 1 + of_nat j" unfolding j(2) by (simp add: add.assoc)
      finally show ?thesis .
    qed
    moreover have "log_get (n_log n) k = Some (?es ! j)"
    proof -
      have "?es ! j = l_entries (n_log n) ! (unat prev - unat ?b + j)"
        using j(1) nth_drop [of "unat prev - unat ?b" "l_entries (n_log n)" j] by (auto simp: log_slice_def)
      moreover have "unat k - unat ?b - 1 = unat prev - unat ?b + j" using j(2) p by linarith
      moreover have "unat prev - unat ?b + j < log_count (n_log n)" using j(2) ku(2) last p by linarith
      ultimately show ?thesis using j(2) p by (simp add: log_get_eq)
    qed
    ultimately show ?thesis using f'5 [OF j(1)] by simp
  qed
  have thread: "fst (append_entries_thread now' ctx net n i)
      = n\<lparr>n_next_index := (n_next_index n)[i := log_last_index (n_log f') + 1],
          n_match_index := (n_match_index n)[i := log_last_index (n_log f')]\<rparr>"
    if "answers net (p_address peer) (p_port peer) MSG_RAFT_APPEND_ENTRIES request response" for net
    using r(2) by (simp add: f'2 [OF that] raft_update_peer_indices_def)
  show ?thesis
    using f'1 f'3 f'4 agree thread kept rest by (intro exI [of _ request] exI [of _ response] exI [of _ f'] conjI allI impI) simp_all
qed


lemma sample_round_ready:
  "round_ready sample_context (sample_leader\<lparr>n_current_term := 3\<rparr>) 1 sample_node"
proof -
  have "log_get (raft_log_init\<lparr>l_entries := sample_entries\<rparr>) 1 = Some (sample_entries ! 0)"
    by (simp add: log_get_def raft_log_init_def log_count_def sample_entries_def)
  moreover have "log_last_index (raft_log_init\<lparr>l_entries := sample_entries\<rparr>) = 2"
    by (simp add: log_last_index_def raft_log_init_def log_count_def sample_entries_def)
  moreover have "log_slice (raft_log_init\<lparr>l_entries := sample_entries\<rparr>) 1 2 = [sample_entry 2 1 [65]]"
    by (simp add: log_slice_def raft_log_init_def sample_entries_def)
  ultimately show ?thesis
    using sample_leader_wf sample_node_ok(1,2)
    by (simp add: round_ready_def sample_leader_def fresh_node_def peer_count_def sample_config_def
        send_allowed_def sample_context_def sendable_def we_wf_def wire_of_entry_def sample_entry_def
        default_string_limit_def wf_entry_def entry_data_def prev_matches_def raft_get_log_term_def
        raft_log_init_def)
qed

theorem replication_round_over_wire_witness:
  "\<exists>request response f'. handle_append_entries_rpc 2000 sample_node (Some request) = (f', 0, response)
    \<and> n_match_index (fst (append_entries_thread 2001 sample_context (\<lambda>k a p mt r tmo. (err_code DISTRIC_OK, response))
          (sample_leader\<lparr>n_current_term := 3\<rparr>) 1)) ! 1 = log_last_index (n_log f')
    \<and> log_synced f' \<and> map_option e_term (log_get (n_log f') 2) = Some 1"
proof -
  let ?n = "sample_leader\<lparr>n_current_term := 3\<rparr>"
  have len: "length (n_next_index ?n) = peer_count ?n" "length (n_match_index ?n) = peer_count ?n"
    "n_next_index ?n ! 1 = 2" "length (n_match_index ?n) = 2"
    by (simp_all add: sample_leader_def peer_count_def fresh_node_def sample_config_def)
  have l2: "log_last_index (n_log ?n) = 2" "map_option e_term (log_get (n_log ?n) 2) = Some 1"
    by (simp_all add: sample_leader_def log_last_index_def log_get_def raft_log_init_def log_count_def
        sample_entries_def sample_entry_def)
  let ?p = "cfg_peers (n_config ?n) ! 1"
  obtain request response f' where h: "handle_append_entries_rpc 2000 sample_node (Some request) = (f', 0, response)"
    and t: "\<forall>net. answers net (p_address ?p) (p_port ?p) MSG_RAFT_APPEND_ENTRIES request response \<longrightarrow>
      fst (append_entries_thread 2001 sample_context net ?n 1)
      = ?n\<lparr>n_next_index := (n_next_index ?n)[1 := log_last_index (n_log f') + 1],
            n_match_index := (n_match_index ?n)[1 := log_last_index (n_log f')]\<rparr>"
    and l: "log_synced f'"
    and k: "\<forall>k. n_next_index ?n ! 1 - 1 < k \<and> k \<le> log_last_index (n_log ?n) \<longrightarrow>
         map_option e_term (log_get (n_log f') k) = map_option e_term (log_get (n_log ?n) k)
         \<and> log_get (n_log ?n) k \<noteq> None"
    using replication_round_over_wire [OF sample_round_ready len(1,2), of 2000 2001]
    by (elim exE conjE) (rule that; assumption)
  then show ?thesis using l2 len(3,4)
    by (intro exI [of _ request] exI [of _ response] exI [of _ f']) (auto simp: answers_def)
qed

end
