(* ===== verification/Gossip.thy ===== *)
theory Gossip
  imports Prelude
begin

text \<open>
  The membership list of the gossip library: \<^verbatim>\<open>gossip_membership.c\<close>, \<^verbatim>\<open>gossip_lifecycle.c\<close> and
  \<^verbatim>\<open>gossip_conflict_resolution.c\<close>. The membership array is a list, a pointer to an entry is its
  position. Every operation reads the clock once (\<open>now\<close>); callbacks are recorded as events in the
  state when one is registered. Statuses, roles and message types are 32 bit values because the
  receiver casts them from the wire without a check.
\<close>

section \<open>Data\<close>

type_synonym gossip_node_status = u32
type_synonym gossip_node_role = u32

definition GOSSIP_NODE_ALIVE :: gossip_node_status where
  "GOSSIP_NODE_ALIVE = 0"

definition GOSSIP_NODE_SUSPECTED :: gossip_node_status where
  "GOSSIP_NODE_SUSPECTED = 1"

definition GOSSIP_NODE_FAILED :: gossip_node_status where
  "GOSSIP_NODE_FAILED = 2"

definition GOSSIP_NODE_LEFT :: gossip_node_status where
  "GOSSIP_NODE_LEFT = 3"

lemmas status_defs = GOSSIP_NODE_ALIVE_def GOSSIP_NODE_SUSPECTED_def GOSSIP_NODE_FAILED_def GOSSIP_NODE_LEFT_def

definition GOSSIP_ROLE_COORDINATOR :: gossip_node_role where
  "GOSSIP_ROLE_COORDINATOR = 0"

definition GOSSIP_ROLE_WORKER :: gossip_node_role where
  "GOSSIP_ROLE_WORKER = 1"

record gossip_node_info =
  gi_node_id :: cstr
  gi_address :: cstr
  gi_port :: u16
  gi_status :: gossip_node_status
  gi_role :: gossip_node_role
  gi_incarnation :: u64
  gi_last_seen_ms :: u64
  gi_load :: u64

record membership_entry =
  me_info :: gossip_node_info
  me_suspect_time_ms :: u64
  me_transmit_count :: u32
  me_local_node :: bool

record gossip_config =
  gc_node_id :: cstr
  gc_bind_address :: cstr
  gc_bind_port :: u16
  gc_role :: gossip_node_role
  gc_protocol_period_ms :: u32
  gc_probe_timeout_ms :: u32
  gc_indirect_probes :: u32
  gc_suspicion_mult :: u32
  gc_max_transmissions :: u32
  gc_seeds :: "(cstr \<times> u16) list"

datatype gossip_event =
    NodeJoined gossip_node_info
  | NodeSuspected gossip_node_info
  | NodeFailed gossip_node_info
  | NodeRecovered gossip_node_info

record gossip_state =
  gs_config :: gossip_config
  gs_membership :: "membership_entry list"
  gs_membership_capacity :: nat
  gs_self_incarnation :: u64
  gs_self_load :: u64
  gs_sequence_counter :: u32
  gs_running :: bool
  gs_on_joined :: bool
  gs_on_suspected :: bool
  gs_on_failed :: bool
  gs_on_recovered :: bool
  gs_events :: "gossip_event list"

record gossip_message =
  gm_type :: u32
  gm_sender_id :: cstr
  gm_incarnation :: u64
  gm_sequence :: u32
  gm_updates :: "gossip_node_info list"

abbreviation me_id :: "membership_entry \<Rightarrow> cstr" where
  "me_id e \<equiv> gi_node_id (me_info e)"

abbreviation me_status :: "membership_entry \<Rightarrow> gossip_node_status" where
  "me_status e \<equiv> gi_status (me_info e)"

abbreviation me_incarnation :: "membership_entry \<Rightarrow> u64" where
  "me_incarnation e \<equiv> gi_incarnation (me_info e)"

text \<open>Assignments through an entry pointer, and a callback that runs when it is registered.\<close>

definition update_entry :: "gossip_state \<Rightarrow> nat \<Rightarrow> (membership_entry \<Rightarrow> membership_entry) \<Rightarrow> gossip_state" where
  "update_entry s i f = s\<lparr>gs_membership := (gs_membership s)[i := f (gs_membership s ! i)]\<rparr>"

definition emit :: "bool \<Rightarrow> gossip_event \<Rightarrow> gossip_state \<Rightarrow> gossip_state" where
  "emit registered ev s = (if registered then s\<lparr>gs_events := gs_events s @ [ev]\<rparr> else s)"

definition set_status :: "gossip_node_status \<Rightarrow> membership_entry \<Rightarrow> membership_entry" where
  "set_status st e = e\<lparr>me_info := (me_info e)\<lparr>gi_status := st\<rparr>\<rparr>"

section \<open>The membership array\<close>

definition find_entry :: "membership_entry list \<Rightarrow> cstr \<Rightarrow> nat option" where
  "find_entry es node_id = key_index me_id es node_id"

definition membership_find :: "gossip_state \<Rightarrow> cstr \<Rightarrow> nat option" where
  "membership_find s node_id = find_entry (gs_membership s) node_id"

definition membership_add :: "u64 \<Rightarrow> gossip_state \<Rightarrow> gossip_node_info \<Rightarrow> gossip_state" where
  "membership_add now s info =
     (let capacity = gs_membership_capacity s;
          capacity = (if length (gs_membership s) \<ge> capacity
                      then (if capacity = 0 then 16 else capacity * 2) else capacity);
          entry = \<lparr>me_info = info\<lparr>gi_last_seen_ms := now\<rparr>, me_suspect_time_ms = 0,
                   me_transmit_count = gc_max_transmissions (gs_config s),
                   me_local_node = (gi_node_id info = gc_node_id (gs_config s))\<rparr>
      in s\<lparr>gs_membership := gs_membership s @ [entry], gs_membership_capacity := capacity\<rparr>)"

definition membership_remove :: "gossip_state \<Rightarrow> cstr \<Rightarrow> gossip_state" where
  "membership_remove s node_id =
     (case membership_find s node_id of
        None \<Rightarrow> s
      | Some i \<Rightarrow> s\<lparr>gs_membership := take i (gs_membership s) @ drop (Suc i) (gs_membership s)\<rparr>)"

definition should_update :: "gossip_node_info \<Rightarrow> gossip_node_info \<Rightarrow> bool" where
  "should_update current info \<longleftrightarrow>
     (if gi_incarnation info > gi_incarnation current then True
      else if gi_incarnation info = gi_incarnation current then
        (if gi_status info = GOSSIP_NODE_ALIVE \<and> gi_status current \<noteq> GOSSIP_NODE_ALIVE then True
         else gi_status info = GOSSIP_NODE_SUSPECTED \<and> gi_status current = GOSSIP_NODE_FAILED)
      else False)"

definition overwrite_entry :: "u64 \<Rightarrow> u32 \<Rightarrow> gossip_node_info \<Rightarrow> membership_entry \<Rightarrow> membership_entry" where
  "overwrite_entry now transmissions info e =
     (let old_status = me_status e;
          e = e\<lparr>me_info := info\<lparr>gi_last_seen_ms := now\<rparr>, me_transmit_count := transmissions\<rparr>
      in if gi_status info = GOSSIP_NODE_SUSPECTED \<and> old_status \<noteq> GOSSIP_NODE_SUSPECTED
         then e\<lparr>me_suspect_time_ms := now\<rparr> else e)"

definition membership_update :: "u64 \<Rightarrow> gossip_state \<Rightarrow> gossip_node_info \<Rightarrow> gossip_state" where
  "membership_update now s info =
     (case membership_find s (gi_node_id info) of
        None \<Rightarrow> s
      | Some i \<Rightarrow>
          if should_update (me_info (gs_membership s ! i)) info
          then update_entry s i (overwrite_entry now (gc_max_transmissions (gs_config s)) info)
          else s)"

section \<open>Status changes\<close>

definition gossip_mark_node_alive :: "u64 \<Rightarrow> gossip_state \<Rightarrow> cstr \<Rightarrow> gossip_state" where
  "gossip_mark_node_alive now s node_id =
     (case membership_find s node_id of
        None \<Rightarrow> s
      | Some i \<Rightarrow>
          let old_status = me_status (gs_membership s ! i) in
          if old_status \<noteq> GOSSIP_NODE_ALIVE then
            (let s = update_entry s i (\<lambda>e. e\<lparr>me_info := (me_info e)\<lparr>gi_status := GOSSIP_NODE_ALIVE, gi_last_seen_ms := now\<rparr>,
                       me_transmit_count := gc_max_transmissions (gs_config s), me_suspect_time_ms := 0\<rparr>)
             in if old_status = GOSSIP_NODE_FAILED
                then emit (gs_on_recovered s) (NodeRecovered (me_info (gs_membership s ! i))) s else s)
          else s)"

text \<open>\<open>state->self_incarnation++\<close> and the assignments to the own entry that follow it.\<close>

definition refute_entry :: "u64 \<Rightarrow> u32 \<Rightarrow> membership_entry \<Rightarrow> membership_entry" where
  "refute_entry incarnation transmissions e =
     e\<lparr>me_info := (me_info e)\<lparr>gi_incarnation := incarnation, gi_status := GOSSIP_NODE_ALIVE\<rparr>,
       me_transmit_count := transmissions\<rparr>"

definition gossip_mark_node_suspected :: "u64 \<Rightarrow> gossip_state \<Rightarrow> cstr \<Rightarrow> gossip_state" where
  "gossip_mark_node_suspected now s node_id =
     (case membership_find s node_id of
        None \<Rightarrow> s
      | Some i \<Rightarrow>
          let entry = gs_membership s ! i in
          if me_status entry = GOSSIP_NODE_FAILED \<or> me_status entry = GOSSIP_NODE_LEFT then s
          else if me_local_node entry then
            (let s = s\<lparr>gs_self_incarnation := gs_self_incarnation s + 1\<rparr>
             in update_entry s i (refute_entry (gs_self_incarnation s) (gc_max_transmissions (gs_config s))))
          else if me_status entry \<noteq> GOSSIP_NODE_SUSPECTED then
            (let s = update_entry s i (\<lambda>e. (set_status GOSSIP_NODE_SUSPECTED e)\<lparr>me_suspect_time_ms := now,
                       me_transmit_count := gc_max_transmissions (gs_config s)\<rparr>)
             in emit (gs_on_suspected s) (NodeSuspected (me_info (gs_membership s ! i))) s)
          else s)"

definition gossip_mark_node_failed :: "gossip_state \<Rightarrow> cstr \<Rightarrow> gossip_state" where
  "gossip_mark_node_failed s node_id =
     (case membership_find s node_id of
        None \<Rightarrow> s
      | Some i \<Rightarrow>
          let entry = gs_membership s ! i in
          if me_local_node entry then s
          else if me_status entry \<noteq> GOSSIP_NODE_FAILED then
            (let s = update_entry s i (\<lambda>e. (set_status GOSSIP_NODE_FAILED e)
                       \<lparr>me_transmit_count := gc_max_transmissions (gs_config s)\<rparr>)
             in emit (gs_on_failed s) (NodeFailed (me_info (gs_membership s ! i))) s)
          else s)"

definition gossip_handle_node_leave :: "gossip_state \<Rightarrow> cstr \<Rightarrow> gossip_state" where
  "gossip_handle_node_leave s node_id =
     (case membership_find s node_id of
        None \<Rightarrow> s
      | Some i \<Rightarrow> update_entry s i (\<lambda>e. (set_status GOSSIP_NODE_LEFT e)
                    \<lparr>me_transmit_count := gc_max_transmissions (gs_config s)\<rparr>))"

text \<open>
  The sweep over the suspected nodes. A timed-out suspect is failed with the lock released, and
  the iteration restarts: \<^verbatim>\<open>i = 0\<close> in the loop body, then \<^verbatim>\<open>i++\<close>. Whether the loop ends depends on
  the membership list, so not returning is a possible value.
\<close>

definition timed_out :: "u64 \<Rightarrow> u64 \<Rightarrow> membership_entry \<Rightarrow> bool" where
  "timed_out now timeout_ms e \<longleftrightarrow>
     me_status e = GOSSIP_NODE_SUSPECTED \<and> now - me_suspect_time_ms e \<ge> timeout_ms"

partial_function (option) suspicion_sweep ::
  "u64 \<Rightarrow> u64 \<Rightarrow> nat \<Rightarrow> gossip_state \<Rightarrow> gossip_state option" where
  "suspicion_sweep now timeout_ms i s =
     (if i < length (gs_membership s) then
        if timed_out now timeout_ms (gs_membership s ! i) then
          (let s = gossip_mark_node_failed s (strncpy 63 (me_id (gs_membership s ! i)))
           in if gs_membership s = [] then Some s else suspicion_sweep now timeout_ms 1 s)
        else suspicion_sweep now timeout_ms (i + 1) s
      else Some s)"

definition suspicion_timeout :: "gossip_config \<Rightarrow> u64" where
  "suspicion_timeout c = ucast (gc_protocol_period_ms c * gc_suspicion_mult c)"

definition gossip_check_suspicion_timeouts :: "u64 \<Rightarrow> gossip_state \<Rightarrow> gossip_state option" where
  "gossip_check_suspicion_timeouts now s = suspicion_sweep now (suspicion_timeout (gs_config s)) 0 s"

section \<open>Dissemination\<close>

text \<open>The entries that are sent: the first \<open>limit\<close> ones with transmissions left.\<close>

fun collect_updates :: "nat \<Rightarrow> membership_entry list \<Rightarrow> gossip_node_info list \<times> membership_entry list" where
  "collect_updates limit [] = ([], [])"
| "collect_updates limit (e # es) =
     (if limit = 0 then ([], e # es)
      else if me_transmit_count e > 0 then
        (case collect_updates (limit - 1) es of
           (us, es') \<Rightarrow> (me_info e # us, e\<lparr>me_transmit_count := me_transmit_count e - 1\<rparr> # es'))
      else (case collect_updates limit es of (us, es') \<Rightarrow> (us, e # es')))"

definition gossip_get_updates_to_broadcast :: "gossip_state \<Rightarrow> gossip_node_info list \<times> gossip_state" where
  "gossip_get_updates_to_broadcast s =
     (let broadcast_count = length (filter (\<lambda>e. me_transmit_count e > 0) (gs_membership s));
          broadcast_count = (if broadcast_count > 10 then 10 else broadcast_count)
      in if broadcast_count = 0 then ([], s)
         else (case collect_updates broadcast_count (gs_membership s) of
                 (updates, es) \<Rightarrow> (updates, s\<lparr>gs_membership := es\<rparr>)))"

definition self_refute :: "gossip_state \<Rightarrow> gossip_state" where
  "self_refute s =
     (let s = s\<lparr>gs_self_incarnation := gs_self_incarnation s + 1\<rparr>
      in case membership_find s (gc_node_id (gs_config s)) of
           None \<Rightarrow> s
         | Some i \<Rightarrow> update_entry s i (refute_entry (gs_self_incarnation s) (gc_max_transmissions (gs_config s))))"

definition apply_update :: "u64 \<Rightarrow> gossip_state \<Rightarrow> gossip_node_info \<Rightarrow> gossip_state" where
  "apply_update now s info =
     (if gi_node_id info = gc_node_id (gs_config s) then
        if gi_status info \<noteq> GOSSIP_NODE_ALIVE then self_refute s else s
      else (case membership_find s (gi_node_id info) of
              None \<Rightarrow> membership_add now s info
            | Some i \<Rightarrow> membership_update now s info))"

definition update_sender :: "u64 \<Rightarrow> gossip_state \<Rightarrow> gossip_message \<Rightarrow> cstr \<Rightarrow> u16 \<Rightarrow> gossip_state" where
  "update_sender now s msg src_addr src_port =
     (case membership_find s (gm_sender_id msg) of
        None \<Rightarrow>
          let new_node = \<lparr>gi_node_id = strncpy 63 (gm_sender_id msg), gi_address = strncpy 255 src_addr,
                gi_port = src_port, gi_status = GOSSIP_NODE_ALIVE, gi_role = GOSSIP_ROLE_WORKER,
                gi_incarnation = gm_incarnation msg, gi_last_seen_ms = 0, gi_load = 0\<rparr>;
              s = membership_add now s new_node
          in emit (gs_on_joined s) (NodeJoined (new_node\<lparr>gi_last_seen_ms := now\<rparr>)) s
      | Some i \<Rightarrow>
          if gm_incarnation msg \<ge> me_incarnation (gs_membership s ! i) then
            (let s = update_entry s i (\<lambda>e. e\<lparr>me_info := (me_info e)
                       \<lparr>gi_incarnation := gm_incarnation msg, gi_last_seen_ms := now\<rparr>\<rparr>)
             in if gm_incarnation msg > me_incarnation (gs_membership s ! i)
                then update_entry s i (\<lambda>e. (set_status GOSSIP_NODE_ALIVE e)\<lparr>me_suspect_time_ms := 0\<rparr>)
                else s)
          else s)"

definition gossip_update_node_from_message ::
  "u64 \<Rightarrow> gossip_state \<Rightarrow> gossip_message \<Rightarrow> cstr \<Rightarrow> u16 \<Rightarrow> gossip_state" where
  "gossip_update_node_from_message now s msg src_addr src_port =
     foldl (apply_update now) (update_sender now s msg src_addr src_port) (gm_updates msg)"

section \<open>Lifecycle\<close>

definition default_config :: "gossip_config \<Rightarrow> gossip_config" where
  "default_config c = c\<lparr>
     gc_protocol_period_ms := (if gc_protocol_period_ms c = 0 then 1000 else gc_protocol_period_ms c),
     gc_probe_timeout_ms := (if gc_probe_timeout_ms c = 0 then 500 else gc_probe_timeout_ms c),
     gc_indirect_probes := (if gc_indirect_probes c = 0 then 3 else gc_indirect_probes c),
     gc_suspicion_mult := (if gc_suspicion_mult c = 0 then 3 else gc_suspicion_mult c),
     gc_max_transmissions := (if gc_max_transmissions c = 0 then 3 else gc_max_transmissions c)\<rparr>"

definition set_local :: "membership_entry \<Rightarrow> membership_entry" where
  "set_local e = e\<lparr>me_local_node := True\<rparr>"

text \<open>
  \<open>socket_ok\<close> and \<open>bind_ok\<close> are the outcomes of the system calls, \<open>inet_pton_ok\<close> tells which
  addresses \<^verbatim>\<open>inet_pton\<close> accepts.
\<close>

definition gossip_init ::
  "u64 \<Rightarrow> bool \<Rightarrow> (cstr \<Rightarrow> bool) \<Rightarrow> bool \<Rightarrow> gossip_config \<Rightarrow> gossip_state result" where
  "gossip_init now socket_ok inet_pton_ok bind_ok config =
     (if gc_node_id config = [] \<or> gc_bind_port config = 0 then Inl DISTRIC_ERR_INVALID_ARG
      else if \<not> socket_ok then Inl DISTRIC_ERR_IO
      else if \<not> (gc_bind_address config = [] \<or> gc_bind_address config = ascii ''0.0.0.0'')
              \<and> \<not> inet_pton_ok (gc_bind_address config) then Inl DISTRIC_ERR_INVALID_ARG
      else if \<not> bind_ok then Inl DISTRIC_ERR_IO
      else
        let s = \<lparr>gs_config = default_config config, gs_membership = [], gs_membership_capacity = 0,
              gs_self_incarnation = 0, gs_self_load = 0, gs_sequence_counter = 0, gs_running = False,
              gs_on_joined = False, gs_on_suspected = False, gs_on_failed = False,
              gs_on_recovered = False, gs_events = []\<rparr>;
            self_info = \<lparr>gi_node_id = strncpy 63 (gc_node_id config),
              gi_address = strncpy 255 (gc_bind_address config), gi_port = gc_bind_port config,
              gi_status = GOSSIP_NODE_ALIVE, gi_role = gc_role config, gi_incarnation = 0,
              gi_last_seen_ms = 0, gi_load = 0\<rparr>;
            s = membership_add now s self_info
        in Inr (update_entry s 0 set_local))"

definition add_seed_entry :: "u64 \<Rightarrow> gossip_state \<Rightarrow> cstr \<Rightarrow> cstr \<Rightarrow> u16 \<Rightarrow> gossip_state" where
  "add_seed_entry now s seed_id address port =
     (let seed = \<lparr>gi_node_id = seed_id, gi_address = strncpy 255 address, gi_port = port,
            gi_status = GOSSIP_NODE_ALIVE, gi_role = GOSSIP_ROLE_COORDINATOR, gi_incarnation = 0,
            gi_last_seen_ms = 0, gi_load = 0\<rparr>
      in case membership_find s seed_id of None \<Rightarrow> membership_add now s seed | Some i \<Rightarrow> s)"

definition start_seed :: "u64 \<Rightarrow> gossip_state \<Rightarrow> nat \<times> cstr \<times> u16 \<Rightarrow> gossip_state" where
  "start_seed now s = (\<lambda>(i, address, port).
     add_seed_entry now s (take 63 (ascii ''seed-'' @ dec_digits i)) address port)"

definition gossip_start :: "u64 \<Rightarrow> bool \<Rightarrow> bool \<Rightarrow> gossip_state \<Rightarrow> distric_err \<times> gossip_state" where
  "gossip_start now protocol_thread_ok receiver_thread_ok s =
     (if gs_running s then (DISTRIC_ERR_INVALID_STATE, s)
      else
        let s = foldl (start_seed now) s (enumerate 0 (gc_seeds (gs_config s)))
        in if \<not> protocol_thread_ok then (DISTRIC_ERR_THREAD, s\<lparr>gs_running := False\<rparr>)
           else if \<not> receiver_thread_ok then (DISTRIC_ERR_THREAD, s\<lparr>gs_running := False\<rparr>)
           else (DISTRIC_OK, s\<lparr>gs_running := True\<rparr>))"

definition gossip_stop :: "gossip_state \<Rightarrow> distric_err \<times> gossip_state" where
  "gossip_stop s = (if \<not> gs_running s then (DISTRIC_OK, s) else (DISTRIC_OK, s\<lparr>gs_running := False\<rparr>))"

definition gossip_leave :: "gossip_state \<Rightarrow> distric_err \<times> gossip_state" where
  "gossip_leave s = gossip_stop s"

definition gossip_get_alive_nodes :: "gossip_state \<Rightarrow> gossip_node_info list" where
  "gossip_get_alive_nodes s =
     map me_info (filter (\<lambda>e. me_status e = GOSSIP_NODE_ALIVE) (gs_membership s))"

definition gossip_get_nodes_by_role :: "gossip_state \<Rightarrow> gossip_node_role \<Rightarrow> gossip_node_info list" where
  "gossip_get_nodes_by_role s role =
     map me_info (filter (\<lambda>e. me_status e = GOSSIP_NODE_ALIVE \<and> gi_role (me_info e) = role) (gs_membership s))"

definition gossip_is_node_alive :: "gossip_state \<Rightarrow> cstr \<Rightarrow> bool" where
  "gossip_is_node_alive s node_id =
     (case membership_find s node_id of
        None \<Rightarrow> False
      | Some i \<Rightarrow> me_status (gs_membership s ! i) = GOSSIP_NODE_ALIVE)"

definition gossip_get_node_info :: "gossip_state \<Rightarrow> cstr \<Rightarrow> gossip_node_info result" where
  "gossip_get_node_info s node_id =
     (case membership_find s node_id of
        None \<Rightarrow> Inl DISTRIC_ERR_NOT_FOUND
      | Some i \<Rightarrow> Inr (me_info (gs_membership s ! i)))"

definition gossip_get_node_count :: "gossip_state \<Rightarrow> gossip_node_status \<Rightarrow> nat" where
  "gossip_get_node_count s status =
     length (filter (\<lambda>e. status = - 1 \<or> me_status e = status) (gs_membership s))"

definition gossip_set_on_node_joined :: "gossip_state \<Rightarrow> bool \<Rightarrow> gossip_state" where
  "gossip_set_on_node_joined s callback = s\<lparr>gs_on_joined := callback\<rparr>"

definition gossip_set_on_node_suspected :: "gossip_state \<Rightarrow> bool \<Rightarrow> gossip_state" where
  "gossip_set_on_node_suspected s callback = s\<lparr>gs_on_suspected := callback\<rparr>"

definition gossip_set_on_node_failed :: "gossip_state \<Rightarrow> bool \<Rightarrow> gossip_state" where
  "gossip_set_on_node_failed s callback = s\<lparr>gs_on_failed := callback\<rparr>"

definition gossip_set_on_node_recovered :: "gossip_state \<Rightarrow> bool \<Rightarrow> gossip_state" where
  "gossip_set_on_node_recovered s callback = s\<lparr>gs_on_recovered := callback\<rparr>"

definition gossip_update_load :: "gossip_state \<Rightarrow> u64 \<Rightarrow> gossip_state" where
  "gossip_update_load s load =
     (let s = s\<lparr>gs_self_load := load\<rparr>
      in case membership_find s (gc_node_id (gs_config s)) of
           None \<Rightarrow> s
         | Some i \<Rightarrow> update_entry s i (\<lambda>e. e\<lparr>me_info := (me_info e)\<lparr>gi_load := load\<rparr>,
                       me_transmit_count := gc_max_transmissions (gs_config s)\<rparr>))"

definition gossip_refute_suspicion :: "gossip_state \<Rightarrow> gossip_state" where
  "gossip_refute_suspicion s = self_refute s"

definition gossip_add_seed :: "u64 \<Rightarrow> gossip_state \<Rightarrow> cstr \<Rightarrow> u16 \<Rightarrow> gossip_state" where
  "gossip_add_seed now s address port =
     add_seed_entry now s (take 63 (ascii ''seed-'' @ address @ ascii '':'' @ dec_digits (unat port))) address port"

definition gossip_status_to_string :: "gossip_node_status \<Rightarrow> string" where
  "gossip_status_to_string status =
     (if status = GOSSIP_NODE_ALIVE then ''ALIVE'' else if status = GOSSIP_NODE_SUSPECTED then ''SUSPECTED''
      else if status = GOSSIP_NODE_FAILED then ''FAILED'' else if status = GOSSIP_NODE_LEFT then ''LEFT''
      else ''UNKNOWN'')"

definition gossip_role_to_string :: "gossip_node_role \<Rightarrow> string" where
  "gossip_role_to_string role =
     (if role = GOSSIP_ROLE_COORDINATOR then ''COORDINATOR'' else if role = GOSSIP_ROLE_WORKER then ''WORKER''
      else ''UNKNOWN'')"

section \<open>The documented conflict rule\<close>

definition get_state_priority :: "gossip_node_status \<Rightarrow> int" where
  "get_state_priority status =
     (if status = GOSSIP_NODE_ALIVE then 3 else if status = GOSSIP_NODE_SUSPECTED then 2
      else if status = GOSSIP_NODE_FAILED then 1 else if status = GOSSIP_NODE_LEFT then 0 else - 1)"

definition gossip_compare_updates :: "gossip_node_status \<Rightarrow> u64 \<Rightarrow> gossip_node_status \<Rightarrow> u64 \<Rightarrow> int" where
  "gossip_compare_updates status1 incarnation1 status2 incarnation2 =
     (if incarnation1 > incarnation2 then 1
      else if incarnation1 < incarnation2 then - 1
      else get_state_priority status1 - get_state_priority status2)"

definition gossip_should_apply_update ::
  "gossip_node_status \<Rightarrow> u64 \<Rightarrow> gossip_node_status \<Rightarrow> u64 \<Rightarrow> bool" where
  "gossip_should_apply_update current_status current_incarnation update_status update_incarnation \<longleftrightarrow>
     gossip_compare_updates update_status update_incarnation current_status current_incarnation > 0"

definition gossip_resolve_conflict :: "gossip_state \<Rightarrow> cstr \<Rightarrow> gossip_node_status \<Rightarrow> u64 \<Rightarrow> bool" where
  "gossip_resolve_conflict s node_id update_status update_incarnation =
     (case membership_find s node_id of
        None \<Rightarrow> True
      | Some i \<Rightarrow>
          let entry = gs_membership s ! i in
          if me_local_node entry
             \<and> (update_status = GOSSIP_NODE_SUSPECTED \<or> update_status = GOSSIP_NODE_FAILED)
             \<and> update_incarnation \<ge> me_incarnation entry then False
          else gossip_should_apply_update (me_status entry) (me_incarnation entry) update_status update_incarnation)"

definition GOSSIP_MSG_MEMBERSHIP :: u32 where
  "GOSSIP_MSG_MEMBERSHIP = 4"

text \<open>
  \<open>serialize\<close> stands for \<^verbatim>\<open>gossip_message_serialize\<close>, which the header declares and no source file
  defines; \<open>sendto_ok\<close> tells for which address and port \<^verbatim>\<open>inet_pton\<close> and \<^verbatim>\<open>sendto\<close> succeed. The
  result carries the datagrams that were sent. The failure of the serialiser is reported as
  \<^verbatim>\<open>DISTRIC_ERR_SERIALIZATION\<close>, a code that does not exist; it is \<open>None\<close> here.
\<close>

definition gossip_broadcast_refutation ::
  "(gossip_message \<Rightarrow> bytes option) \<Rightarrow> (cstr \<Rightarrow> u16 \<Rightarrow> bool) \<Rightarrow> gossip_state
     \<Rightarrow> distric_err option \<times> (cstr \<times> u16 \<times> bytes) list \<times> gossip_state" where
  "gossip_broadcast_refutation serialize sendto_ok s =
     (let s = s\<lparr>gs_self_incarnation := gs_self_incarnation s + 1\<rparr>
      in case membership_find s (gc_node_id (gs_config s)) of
           None \<Rightarrow> (Some DISTRIC_ERR_NOT_FOUND, [], s)
         | Some i \<Rightarrow>
             let s = update_entry s i (refute_entry (gs_self_incarnation s) (gc_max_transmissions (gs_config s)));
                 msg = \<lparr>gm_type = GOSSIP_MSG_MEMBERSHIP, gm_sender_id = strncpy 63 (gc_node_id (gs_config s)),
                   gm_incarnation = gs_self_incarnation s, gm_sequence = gs_sequence_counter s,
                   gm_updates = [me_info (gs_membership s ! i)]\<rparr>;
                 s = s\<lparr>gs_sequence_counter := gs_sequence_counter s + 1\<rparr>;
                 targets = map me_info (filter (\<lambda>e. \<not> me_local_node e \<and> me_status e \<noteq> GOSSIP_NODE_FAILED
                     \<and> me_status e \<noteq> GOSSIP_NODE_LEFT) (gs_membership s))
             in if targets = [] then (Some DISTRIC_OK, [], s)
                else (case serialize msg of
                   None \<Rightarrow> (None, [], s)
                 | Some buffer \<Rightarrow>
                     let sent = filter (\<lambda>t. sendto_ok (gi_address t) (gi_port t)) targets
                     in (Some (if sent \<noteq> [] then DISTRIC_OK else DISTRIC_ERR_IO),
                         map (\<lambda>t. (gi_address t, gi_port t, buffer)) sent, s)))"

definition gossip_get_conflict_stats :: "gossip_state \<Rightarrow> u64 \<times> u64" where
  "gossip_get_conflict_stats s = (0, 0)"

section \<open>Invariant of the membership list\<close>

text \<open>
  Names are unique and fit their array, exactly the own entry is marked local, and the node never
  holds itself for suspected or failed.
\<close>

definition entry_ok :: "cstr \<Rightarrow> membership_entry \<Rightarrow> bool" where
  "entry_ok self e \<longleftrightarrow> wf_cstr 64 (me_id e) \<and> me_local_node e = (me_id e = self)
     \<and> (me_id e = self \<longrightarrow> me_status e = GOSSIP_NODE_ALIVE \<or> me_status e = GOSSIP_NODE_LEFT)"

definition gossip_inv :: "gossip_state \<Rightarrow> bool" where
  "gossip_inv s \<longleftrightarrow> distinct (map me_id (gs_membership s))
     \<and> list_all (entry_ok (gc_node_id (gs_config s))) (gs_membership s)
     \<and> gc_node_id (gs_config s) \<in> set (map me_id (gs_membership s))
     \<and> length (gs_membership s) \<le> gs_membership_capacity s"

lemma find_entry_None: "find_entry es x = None \<longleftrightarrow> x \<notin> set (map me_id es)"
  unfolding find_entry_def by (rule key_index_None)

lemma find_entry_Some: "find_entry es x = Some i \<Longrightarrow> i < length es \<and> me_id (es ! i) = x"
  unfolding find_entry_def by (rule key_index_Some)

lemma find_entry_nth: "distinct (map me_id es) \<Longrightarrow> i < length es \<Longrightarrow> find_entry es (me_id (es ! i)) = Some i"
  unfolding find_entry_def by (rule key_index_nth)

lemma find_entry_distinct:
  "distinct (map me_id es) \<Longrightarrow> find_entry es x = Some i \<longleftrightarrow> i < length es \<and> me_id (es ! i) = x"
  unfolding find_entry_def by (rule key_index_distinct)

lemma find_entry_cong: "map me_id es = map me_id es' \<Longrightarrow> find_entry es x = find_entry es' x"
  unfolding find_entry_def by (rule key_index_cong)

lemma find_entry_append:
  "find_entry (es @ fs) x
    = (case find_entry es x of Some i \<Rightarrow> Some i | None \<Rightarrow> map_option (\<lambda>i. length es + i) (find_entry fs x))"
  unfolding find_entry_def by (rule key_index_append)

lemma find_entry_single [simp]: "find_entry [e] x = (if me_id e = x then Some 0 else None)"
  by (simp add: find_entry_def)

lemma update_entry_simps [simp]:
  "gs_membership (update_entry s i f) = (gs_membership s)[i := f (gs_membership s ! i)]"
  "gs_config (update_entry s i f) = gs_config s"
  "gs_membership_capacity (update_entry s i f) = gs_membership_capacity s"
  "gs_self_incarnation (update_entry s i f) = gs_self_incarnation s"
  "gs_events (update_entry s i f) = gs_events s"
  "gs_on_failed (update_entry s i f) = gs_on_failed s"
  "gs_sequence_counter (update_entry s i f) = gs_sequence_counter s"
  by (simp_all add: update_entry_def)

lemma emit_simps [simp]:
  "gs_membership (emit b ev s) = gs_membership s"
  "gs_config (emit b ev s) = gs_config s"
  "gs_membership_capacity (emit b ev s) = gs_membership_capacity s"
  "gs_self_incarnation (emit b ev s) = gs_self_incarnation s"
  "gs_on_failed (emit b ev s) = gs_on_failed s"
  "gs_events (emit b ev s) = gs_events s @ (if b then [ev] else [])"
  by (simp_all add: emit_def)

lemma gossip_inv_cong:
  "gs_membership s = gs_membership s' \<Longrightarrow> gs_config s = gs_config s'
    \<Longrightarrow> gs_membership_capacity s = gs_membership_capacity s' \<Longrightarrow> gossip_inv s = gossip_inv s'"
  by (simp add: gossip_inv_def)

lemma gossip_inv_emit [simp]: "gossip_inv (emit b ev s) = gossip_inv s"
  by (rule gossip_inv_cong) simp_all

lemma inv_entry:
  assumes "gossip_inv s" and "membership_find s x = Some i"
  shows "i < length (gs_membership s)" and "me_id (gs_membership s ! i) = x"
    and "entry_ok (gc_node_id (gs_config s)) (gs_membership s ! i)"
  using assms find_entry_Some [of "gs_membership s" x i]
  by (auto simp: membership_find_def gossip_inv_def list_all_length)

lemma inv_update_entry:
  assumes "gossip_inv s" and "membership_find s x = Some i"
    and "me_id (f (gs_membership s ! i)) = me_id (gs_membership s ! i)"
    and "entry_ok (gc_node_id (gs_config s)) (f (gs_membership s ! i))"
  shows "gossip_inv (update_entry s i f)"
proof -
  have ids: "map me_id ((gs_membership s)[i := f (gs_membership s ! i)]) = map me_id (gs_membership s)"
    using inv_entry(1) [OF assms(1,2)] assms(3) by (simp add: map_update list_update_same_conv)
  have "list_all (entry_ok (gc_node_id (gs_config s))) ((gs_membership s)[i := f (gs_membership s ! i)])"
    using assms(1,4) by (auto simp: gossip_inv_def list_all_iff dest: set_update_subset_insert [THEN subsetD])
  then show ?thesis using assms(1) ids by (simp add: gossip_inv_def del: set_map)
qed

lemma inv_add:
  assumes "gossip_inv s" and "membership_find s (gi_node_id info) = None" and "wf_cstr 64 (gi_node_id info)"
  shows "gossip_inv (membership_add now s info)"
  using assms by (auto simp: gossip_inv_def membership_add_def membership_find_def find_entry_None entry_ok_def Let_def)

lemma membership_add_config [simp]: "gs_config (membership_add now s info) = gs_config s"
  by (simp add: membership_add_def Let_def)

lemma inv_membership_update:
  assumes "gossip_inv s" and "gi_node_id info \<noteq> gc_node_id (gs_config s)"
  shows "gossip_inv (membership_update now s info)"
proof (cases "membership_find s (gi_node_id info)")
  case (Some i)
  note e = inv_entry [OF assms(1) Some]
  have "gossip_inv (update_entry s i (overwrite_entry now t info))" for t
    by (rule inv_update_entry [OF assms(1) Some])
      (use e(2,3) assms(2) in \<open>auto simp: overwrite_entry_def entry_ok_def Let_def\<close>)
  then show ?thesis using Some assms(1) by (simp add: membership_update_def)
qed (simp add: membership_update_def assms(1))

lemma inv_mark_alive: "gossip_inv s \<Longrightarrow> gossip_inv (gossip_mark_node_alive now s x)"
  by (auto simp: gossip_mark_node_alive_def Let_def entry_ok_def split: option.split
      intro!: inv_update_entry dest: inv_entry(3))

lemma gossip_inv_self_incarnation [simp]: "gossip_inv (s\<lparr>gs_self_incarnation := k\<rparr>) = gossip_inv s"
  by (rule gossip_inv_cong) simp_all

lemma membership_find_self_incarnation [simp]:
  "membership_find (s\<lparr>gs_self_incarnation := k\<rparr>) x = membership_find s x"
  by (simp add: membership_find_def)

lemma inv_refute_entry:
  "gossip_inv s \<Longrightarrow> membership_find s x = Some i \<Longrightarrow> gossip_inv (update_entry s i (refute_entry k t))"
  by (rule inv_update_entry) (auto simp: refute_entry_def entry_ok_def dest: inv_entry(3))

lemma inv_mark_suspected:
  assumes "gossip_inv s"
  shows "gossip_inv (gossip_mark_node_suspected now s x)"
proof (cases "membership_find s x")
  case (Some i)
  note e = inv_entry [OF assms Some]
  have "gossip_inv (update_entry s i (\<lambda>e. (set_status GOSSIP_NODE_SUSPECTED e)\<lparr>me_suspect_time_ms := now, me_transmit_count := t\<rparr>))"
    if "\<not> me_local_node (gs_membership s ! i)" for t
    by (rule inv_update_entry [OF assms Some]) (use e(3) that in \<open>auto simp: set_status_def entry_ok_def\<close>)
  moreover have "gossip_inv (update_entry (s\<lparr>gs_self_incarnation := k\<rparr>) i (refute_entry k' t))" for k k' t
    by (rule inv_refute_entry [where x = x]) (simp_all add: assms Some)
  ultimately show ?thesis using Some assms by (simp add: gossip_mark_node_suspected_def Let_def)
qed (simp add: gossip_mark_node_suspected_def assms)

lemma inv_mark_failed:
  assumes "gossip_inv s"
  shows "gossip_inv (gossip_mark_node_failed s x)"
proof (cases "membership_find s x")
  case (Some i)
  note e = inv_entry [OF assms Some]
  have "gossip_inv (update_entry s i (\<lambda>e. (set_status GOSSIP_NODE_FAILED e)\<lparr>me_transmit_count := t\<rparr>))"
    if "\<not> me_local_node (gs_membership s ! i)" for t
    by (rule inv_update_entry [OF assms Some]) (use e(3) that in \<open>auto simp: set_status_def entry_ok_def\<close>)
  then show ?thesis using Some assms by (simp add: gossip_mark_node_failed_def Let_def)
qed (simp add: gossip_mark_node_failed_def assms)

lemma inv_node_leave: "gossip_inv s \<Longrightarrow> gossip_inv (gossip_handle_node_leave s x)"
  by (auto simp: gossip_handle_node_leave_def set_status_def entry_ok_def split: option.split
      intro!: inv_update_entry dest: inv_entry(3))

lemma inv_self_refute: "gossip_inv s \<Longrightarrow> gossip_inv (self_refute s)"
  by (auto simp: self_refute_def Let_def split: option.split intro!: inv_refute_entry)

lemma self_refute_config [simp]: "gs_config (self_refute s) = gs_config s"
  by (simp add: self_refute_def Let_def split: option.split)

lemma membership_update_config [simp]: "gs_config (membership_update now s info) = gs_config s"
  by (simp add: membership_update_def split: option.split)

lemma apply_update_config [simp]: "gs_config (apply_update now s info) = gs_config s"
  by (simp add: apply_update_def split: option.split)

lemma inv_apply_update:
  assumes "gossip_inv s" and "wf_cstr 64 (gi_node_id info)"
  shows "gossip_inv (apply_update now s info)"
  using assms by (auto simp: apply_update_def inv_self_refute intro: inv_add inv_membership_update split: option.split)

lemma inv_apply_updates:
  assumes "gossip_inv s" and "list_all (\<lambda>u. wf_cstr 64 (gi_node_id u)) us"
  shows "gossip_inv (foldl (apply_update now) s us) \<and> gs_config (foldl (apply_update now) s us) = gs_config s"
  using assms
proof (induction us arbitrary: s)
  case (Cons u us)
  then show ?case using Cons.IH [OF inv_apply_update] by simp
qed simp

lemma inv_update_sender:
  assumes "gossip_inv s" and "wf_cstr 64 (gm_sender_id msg)"
  shows "gossip_inv (update_sender now s msg a p)"
proof (cases "membership_find s (gm_sender_id msg)")
  case None
  then show ?thesis
    using assms strncpy_id [of 63 "gm_sender_id msg"] by (simp add: update_sender_def Let_def inv_add)
next
  case (Some i)
  have "gossip_inv (update_entry s i (\<lambda>e. e\<lparr>me_info := (me_info e)\<lparr>gi_incarnation := k, gi_last_seen_ms := now\<rparr>\<rparr>))" for k
    by (rule inv_update_entry [OF assms(1) Some]) (use inv_entry(3) [OF assms(1) Some] in \<open>auto simp: entry_ok_def\<close>)
  then show ?thesis
    using Some assms(1) inv_entry(1) [OF assms(1) Some] by (simp add: update_sender_def Let_def)
qed

lemma inv_update_from_message:
  assumes "gossip_inv s" and "wf_cstr 64 (gm_sender_id msg)"
    and "list_all (\<lambda>u. wf_cstr 64 (gi_node_id u)) (gm_updates msg)"
  shows "gossip_inv (gossip_update_node_from_message now s msg a p)"
  using inv_apply_updates [OF inv_update_sender [OF assms(1,2)] assms(3)]
  by (simp add: gossip_update_node_from_message_def)

section \<open>The suspicion sweep\<close>

definition fail_entry :: "u32 \<Rightarrow> membership_entry \<Rightarrow> membership_entry" where
  "fail_entry t e = (set_status GOSSIP_NODE_FAILED e)\<lparr>me_transmit_count := t\<rparr>"

lemma fail_entry_simps [simp]:
  "\<not> timed_out now timeout (fail_entry t e)" "me_id (fail_entry t e) = me_id e"
  by (simp_all add: fail_entry_def set_status_def timed_out_def status_defs)

lemma mark_failed_suspect:
  assumes "gossip_inv s" and "i < length (gs_membership s)" and "timed_out now timeout (gs_membership s ! i)"
  shows "gossip_mark_node_failed s (strncpy 63 (me_id (gs_membership s ! i)))
    = emit (gs_on_failed s) (NodeFailed (me_info (fail_entry (gc_max_transmissions (gs_config s)) (gs_membership s ! i))))
        (update_entry s i (fail_entry (gc_max_transmissions (gs_config s))))"
proof -
  let ?e = "gs_membership s ! i"
  have ok: "entry_ok (gc_node_id (gs_config s)) ?e" "distinct (map me_id (gs_membership s))"
    using assms(1,2) by (auto simp: gossip_inv_def list_all_length)
  then have "membership_find s (strncpy 63 (me_id ?e)) = Some i"
    using find_entry_nth [OF ok(2) assms(2)] strncpy_id [of 63 "me_id ?e"]
    by (simp add: membership_find_def entry_ok_def)
  moreover have "\<not> me_local_node ?e" "me_status ?e \<noteq> GOSSIP_NODE_FAILED"
    using ok(1) assms(3) by (auto simp: entry_ok_def timed_out_def status_defs)
  ultimately show ?thesis
    using assms(2) by (simp add: gossip_mark_node_failed_def fail_entry_def [abs_def] Let_def)
qed

lemma sweep_entries_step:
  assumes "i < length es" and "P (es ! i)" and "\<forall>j<i. \<not> P (es ! j)" and "\<And>e. \<not> P (f e)"
  shows "map (\<lambda>e. if P e then f e else e) (es[i := f (es ! i)]) = map (\<lambda>e. if P e then f e else e) es"
    and "filter P es = es ! i # filter P (es[i := f (es ! i)])"
proof -
  show "map (\<lambda>e. if P e then f e else e) (es[i := f (es ! i)]) = map (\<lambda>e. if P e then f e else e) es"
    using assms by (intro nth_equalityI) (auto simp: nth_list_update)
  have t: "filter P (take i es) = []" using assms(1,3) by (auto simp: filter_empty_conv in_set_conv_nth)
  have "filter P es = filter P (take i es @ es ! i # drop (Suc i) es)"
    using id_take_nth_drop [OF assms(1)] by simp
  moreover have "filter P (es[i := f (es ! i)]) = filter P (take i es @ f (es ! i) # drop (Suc i) es)"
    using upd_conv_take_nth_drop [OF assms(1)] by simp
  ultimately show "filter P es = es ! i # filter P (es[i := f (es ! i)])" using t assms(2,4) by simp
qed

definition swept :: "u64 \<Rightarrow> u64 \<Rightarrow> gossip_state \<Rightarrow> gossip_state" where
  "swept now timeout s =
     (let f = fail_entry (gc_max_transmissions (gs_config s)); P = timed_out now timeout
      in s\<lparr>gs_membership := map (\<lambda>e. if P e then f e else e) (gs_membership s),
           gs_events := gs_events s @ (if gs_on_failed s
             then map (\<lambda>e. NodeFailed (me_info (f e))) (filter P (gs_membership s)) else [])\<rparr>)"

lemma suspicion_sweep_ok:
  assumes "gossip_inv s" and "\<forall>j<i. j < length (gs_membership s) \<longrightarrow> \<not> timed_out now timeout (gs_membership s ! j)"
  shows "suspicion_sweep now timeout i s = Some (swept now timeout s)"
  using assms
proof (induction "(s, i)" arbitrary: s i rule: wf_induct_rule [OF wf_measures [of
    "[\<lambda>(s, i). length (filter (timed_out now timeout) (gs_membership s)), \<lambda>(s, i). length (gs_membership s) - i]"]])
  case (1 s i)
  let ?ms = "gs_membership s" and ?P = "timed_out now timeout"
  let ?f = "fail_entry (gc_max_transmissions (gs_config s))"
  consider (stop) "\<not> i < length ?ms" | (hit) "i < length ?ms" "?P (?ms ! i)" | (pass) "i < length ?ms" "\<not> ?P (?ms ! i)"
    by blast
  then show ?case
  proof cases
    case stop
    then have "\<forall>e\<in>set ?ms. \<not> ?P e" using 1(3) by (auto simp: in_set_conv_nth)
    then have "swept now timeout s = s" by (simp add: swept_def Let_def map_idI cong: filter_cong)
    then show ?thesis using stop by (simp add: suspicion_sweep.simps)
  next
    case hit
    define s' where "s' = gossip_mark_node_failed s (strncpy 63 (me_id (?ms ! i)))"
    note s' = s'_def [unfolded mark_failed_suspect [OF 1(2) hit]]
    have before: "\<forall>j<i. \<not> ?P (?ms ! j)" using 1(3) hit(1) by simp
    note st = sweep_entries_step [where f = ?f, OF hit before fail_entry_simps(1)]
    have m: "gs_membership s' = ?ms[i := ?f (?ms ! i)]" by (simp add: s')
    have "suspicion_sweep now timeout 1 s' = Some (swept now timeout s')"
    proof (rule 1(1))
      show "((s', 1), s, i) \<in> measures [\<lambda>(s, i). length (filter ?P (gs_membership s)), \<lambda>(s, i). length (gs_membership s) - i]"
        by (simp add: m st(2))
      show "gossip_inv s'" unfolding s'_def by (rule inv_mark_failed [OF 1(2)])
      show "\<forall>j<1. j < length (gs_membership s') \<longrightarrow> \<not> ?P (gs_membership s' ! j)"
        using before hit(1) by (auto simp: m nth_list_update)
    qed
    moreover have "swept now timeout s' = swept now timeout s"
      by (simp add: swept_def s' Let_def st(1)) (simp add: st(2) update_entry_def emit_def)
    moreover have "gs_membership s' \<noteq> []" using hit(1) by (auto simp: m)
    ultimately show ?thesis using hit s'_def by (simp add: suspicion_sweep.simps [of now timeout i] Let_def)
  next
    case pass
    have "suspicion_sweep now timeout (i + 1) s = Some (swept now timeout s)"
      by (rule 1(1)) (use 1(2,3) pass in \<open>auto simp: less_Suc_eq\<close>)
    then show ?thesis using pass by (simp add: suspicion_sweep.simps [of now timeout i])
  qed
qed

section \<open>Dissemination\<close>

text \<open>Each update sent uses up one transmission of its entry; at most ten are sent at a time.\<close>

definition transmissions_left :: "membership_entry list \<Rightarrow> nat" where
  "transmissions_left es = sum_list (map (\<lambda>e. unat (me_transmit_count e)) es)"

lemma collect_updates_spec:
  "collect_updates n es = (us, es') \<Longrightarrow>
     length us = min n (length (filter (\<lambda>e. me_transmit_count e > 0) es))
     \<and> transmissions_left es' + length us = transmissions_left es
     \<and> map me_info es' = map me_info es \<and> map me_local_node es' = map me_local_node es
     \<and> us = map me_info (take n (filter (\<lambda>e. me_transmit_count e > 0) es))"
proof (induction n es arbitrary: us es' rule: collect_updates.induct)
  case (1 n)
  then show ?case by (simp add: transmissions_left_def)
next
  case (2 n e es)
  have dec: "unat (me_transmit_count e - 1) + 1 = unat (me_transmit_count e)" if "me_transmit_count e > 0"
    using that unat_minus_one [of "me_transmit_count e"] unat_gt_0 [of "me_transmit_count e"]
    by (cases "me_transmit_count e = 0") auto
  show ?case
  proof (cases n)
    case 0
    then show ?thesis using "2.prems" by auto
  next
    case (Suc m)
    then show ?thesis
      using 2 dec by (auto simp: transmissions_left_def split: if_splits prod.splits)
  qed
qed

lemma inv_map_info:
  assumes "gossip_inv s" and "map me_info es = map me_info (gs_membership s)"
    and "map me_local_node es = map me_local_node (gs_membership s)"
  shows "gossip_inv (s\<lparr>gs_membership := es\<rparr>)"
proof -
  have l: "length es = length (gs_membership s)" using assms(2) map_eq_imp_length_eq by blast
  have "map me_id es = map me_id (gs_membership s)"
    using arg_cong [OF assms(2), of "map gi_node_id"] by (simp add: comp_def)
  moreover have "list_all (entry_ok x) es = list_all (entry_ok x) (gs_membership s)" for x
    using assms(2,3) l unfolding list_all_length entry_ok_def by (simp add: list_eq_iff_nth_eq)
  ultimately show ?thesis using assms(1) l by (simp add: gossip_inv_def del: set_map)
qed

lemma inv_get_updates: "gossip_inv s \<Longrightarrow> gossip_inv (snd (gossip_get_updates_to_broadcast s))"
  using collect_updates_spec
  by (auto simp: gossip_get_updates_to_broadcast_def Let_def intro!: inv_map_info split: prod.split)

section \<open>Runs of the gossip layer\<close>

lemma seed_id_wf:
  assumes "0 \<notin> set x"
  shows "wf_cstr 64 (take 63 x)"
  using assms by (auto simp: wf_cstr_def dest: in_set_takeD)

lemma ascii_seed: "ascii ''seed-'' = [115, 101, 101, 100, 45]" "ascii '':'' = [58]"
  by (simp_all add: ascii_def of_char_def horner_sum_simps)

lemma inv_add_seed_entry:
  "gossip_inv s \<Longrightarrow> wf_cstr 64 x \<Longrightarrow> gossip_inv (add_seed_entry now s x a p)"
  by (auto simp: add_seed_entry_def Let_def intro: inv_add split: option.split)

lemma inv_start_seeds: "gossip_inv s \<Longrightarrow> gossip_inv (foldl (start_seed now) s xs)"
proof (induction xs arbitrary: s)
  case (Cons x xs)
  have "gossip_inv (start_seed now s x)"
    using Cons.prems dec_digits_no_nul
    by (auto simp: start_seed_def ascii_seed simp del: take_Cons_numeral split: prod.split
        intro!: inv_add_seed_entry seed_id_wf)
  then show ?case using Cons.IH by simp
qed simp

lemma gossip_inv_frame [simp]:
  "gossip_inv (s\<lparr>gs_sequence_counter := k\<rparr>) = gossip_inv s" "gossip_inv (s\<lparr>gs_running := b\<rparr>) = gossip_inv s"
  "gossip_inv (s\<lparr>gs_on_joined := b\<rparr>) = gossip_inv s" "gossip_inv (s\<lparr>gs_on_suspected := b\<rparr>) = gossip_inv s"
  "gossip_inv (s\<lparr>gs_on_failed := b\<rparr>) = gossip_inv s" "gossip_inv (s\<lparr>gs_on_recovered := b\<rparr>) = gossip_inv s"
  by (simp_all add: gossip_inv_def)

lemma inv_start: "gossip_inv s \<Longrightarrow> gossip_inv (snd (gossip_start now b1 b2 s))"
  by (simp add: gossip_start_def Let_def inv_start_seeds)

lemma inv_update_load: "gossip_inv s \<Longrightarrow> gossip_inv (gossip_update_load s k)"
proof -
  assume i: "gossip_inv s"
  then have "gossip_inv (s\<lparr>gs_self_load := k\<rparr>)" by (simp add: gossip_inv_def)
  then show ?thesis
    by (auto simp: gossip_update_load_def Let_def entry_ok_def split: option.split
        intro!: inv_update_entry dest: inv_entry(3))
qed

text \<open>
  The operations of one node in any order: API calls, what the protocol thread does after probes,
  and what the receiver thread does with messages. Received names always fit their arrays.
\<close>

inductive gossip_step :: "gossip_state \<Rightarrow> gossip_state \<Rightarrow> bool" where
  mark_alive: "gossip_step s (gossip_mark_node_alive now s x)"
| mark_suspected: "gossip_step s (gossip_mark_node_suspected now s x)"
| mark_failed: "gossip_step s (gossip_mark_node_failed s x)"
| node_leave: "gossip_step s (gossip_handle_node_leave s x)"
| check_timeouts: "gossip_check_suspicion_timeouts now s = Some s' \<Longrightarrow> gossip_step s s'"
| get_updates: "gossip_step s (snd (gossip_get_updates_to_broadcast s))"
| message: "wf_cstr 64 (gm_sender_id msg) \<Longrightarrow> list_all (\<lambda>u. wf_cstr 64 (gi_node_id u)) (gm_updates msg)
    \<Longrightarrow> gossip_step s (gossip_update_node_from_message now s msg a p)"
| next_sequence: "gossip_step s (s\<lparr>gs_sequence_counter := gs_sequence_counter s + 1\<rparr>)"
| start: "gossip_step s (snd (gossip_start now b1 b2 s))"
| stop: "gossip_step s (snd (gossip_stop s))"
| leave: "gossip_step s (snd (gossip_leave s))"
| update_load: "gossip_step s (gossip_update_load s load)"
| refute_suspicion: "gossip_step s (gossip_refute_suspicion s)"
| add_seed: "0 \<notin> set a \<Longrightarrow> gossip_step s (gossip_add_seed now s a p)"
| on_joined: "gossip_step s (gossip_set_on_node_joined s b)"
| on_suspected: "gossip_step s (gossip_set_on_node_suspected s b)"
| on_failed: "gossip_step s (gossip_set_on_node_failed s b)"
| on_recovered: "gossip_step s (gossip_set_on_node_recovered s b)"

inductive gossip_reachable :: "gossip_state \<Rightarrow> bool" where
  init: "gossip_init now sock pton bind config = Inr s \<Longrightarrow> wf_cstr 64 (gc_node_id config) \<Longrightarrow> gossip_reachable s"
| step: "gossip_reachable s \<Longrightarrow> gossip_step s s' \<Longrightarrow> gossip_reachable s'"

lemma gossip_inv_init:
  assumes "gossip_init now sock pton bind config = Inr s" and "wf_cstr 64 (gc_node_id config)"
  shows "gossip_inv s"
proof -
  have id: "strncpy 63 (gc_node_id config) = gc_node_id config" using assms(2) by (simp add: strncpy_id)
  have c: "gc_node_id (default_config config) = gc_node_id config" by (simp add: default_config_def)
  show ?thesis
    using assms(1)[symmetric] assms(2)
    by (simp add: gossip_init_def Let_def id c gossip_inv_def membership_add_def set_local_def entry_ok_def
        split: if_splits)
qed

lemma inv_swept: "gossip_inv s \<Longrightarrow> gossip_inv (swept now timeout s)"
proof -
  assume i: "gossip_inv s"
  let ?g = "\<lambda>e. if timed_out now timeout e then fail_entry (gc_max_transmissions (gs_config s)) e else e"
  have ids: "map me_id (map ?g (gs_membership s)) = map me_id (gs_membership s)" by simp
  have "entry_ok x (?g e)" if "entry_ok x e" for x e
    using that by (auto simp: entry_ok_def fail_entry_def set_status_def timed_out_def status_defs)
  then have "list_all (entry_ok x) (map ?g (gs_membership s))" if "list_all (entry_ok x) (gs_membership s)" for x
    using that by (simp add: list_all_length)
  then show ?thesis using i ids by (simp add: gossip_inv_def swept_def Let_def del: map_map set_map list.set_map)
qed

lemmas callback_defs = gossip_set_on_node_joined_def gossip_set_on_node_suspected_def
  gossip_set_on_node_failed_def gossip_set_on_node_recovered_def

lemma gossip_inv_step:
  assumes "gossip_step s s'" and "gossip_inv s"
  shows "gossip_inv s'"
  using assms
proof cases
  case (check_timeouts now)
  then show ?thesis
    using suspicion_sweep_ok [OF assms(2), of 0] inv_swept [OF assms(2)]
    by (auto simp: gossip_check_suspicion_timeouts_def)
next
  case (add_seed a now p)
  have "wf_cstr 64 (take 63 (ascii ''seed-'' @ a @ ascii '':'' @ dec_digits (unat p)))"
    using add_seed dec_digits_no_nul by (intro seed_id_wf) (auto simp: ascii_seed)
  then show ?thesis using inv_add_seed_entry [OF assms(2)] by (simp add: add_seed(1) gossip_add_seed_def)
qed (use assms(2) in \<open>simp_all add: gossip_stop_def gossip_leave_def gossip_refute_suspicion_def callback_defs
    inv_self_refute inv_update_load inv_mark_alive inv_mark_suspected inv_mark_failed inv_node_leave inv_get_updates
    inv_update_from_message inv_start\<close>)

lemma gossip_reachable_inv: "gossip_reachable s \<Longrightarrow> gossip_inv s"
  by (induction rule: gossip_reachable.induct) (auto intro: gossip_inv_init gossip_inv_step)

section \<open>Conflict resolution\<close>

text \<open>
  What a node knows about another one, and the documented order on such views as one number: the
  incarnation first, then the priority of the status.
\<close>

definition node_view :: "gossip_state \<Rightarrow> cstr \<Rightarrow> (u64 \<times> gossip_node_status) option" where
  "node_view s x = map_option (\<lambda>i. let e = gs_membership s ! i in (me_incarnation e, me_status e)) (membership_find s x)"

definition known :: "gossip_node_status \<Rightarrow> bool" where
  "known st \<longleftrightarrow> st = GOSSIP_NODE_ALIVE \<or> st = GOSSIP_NODE_SUSPECTED \<or> st = GOSSIP_NODE_FAILED"

definition view_rank :: "(u64 \<times> gossip_node_status) option \<Rightarrow> int" where
  "view_rank v = (case v of None \<Rightarrow> - 1 | Some (k, st) \<Rightarrow> 4 * uint k + get_state_priority st)"

abbreviation info_view :: "gossip_node_info \<Rightarrow> u64 \<times> gossip_node_status" where
  "info_view u \<equiv> (gi_incarnation u, gi_status u)"

lemma known_priority: "known st \<Longrightarrow> 1 \<le> get_state_priority st \<and> get_state_priority st \<le> 3"
  by (auto simp: known_def get_state_priority_def)

lemma known_priority_inj:
  "known a \<Longrightarrow> known b \<Longrightarrow> get_state_priority a = get_state_priority b \<longleftrightarrow> a = b"
  by (auto simp: known_def get_state_priority_def status_defs)

lemma should_update_rule:
  "known (gi_status c) \<Longrightarrow> should_update c u \<longleftrightarrow>
     gossip_should_apply_update (gi_status c) (gi_incarnation c) (gi_status u) (gi_incarnation u)"
  by (auto simp: should_update_def gossip_should_apply_update_def gossip_compare_updates_def known_def
      get_state_priority_def status_defs)

lemma apply_rule_rank:
  assumes "known st" and "known st'"
  shows "gossip_should_apply_update st k st' k' \<longleftrightarrow> view_rank (Some (k, st)) < view_rank (Some (k', st'))"
  using known_priority [OF assms(1)] known_priority [OF assms(2)] word_less_def [of k k'] word_less_def [of k' k]
  by (auto simp: gossip_should_apply_update_def gossip_compare_updates_def view_rank_def)

definition known_view :: "(u64 \<times> gossip_node_status) option \<Rightarrow> bool" where
  "known_view v \<longleftrightarrow> (case v of None \<Rightarrow> True | Some (k, st) \<Rightarrow> known st)"

lemma view_rank_inj:
  assumes "known_view v" and "known_view w" and "view_rank v = view_rank w"
  shows "v = w"
proof (cases v; cases w)
  fix a b assume ab: "v = Some a" "w = Some b"
  obtain k st l su where p: "a = (k, st)" "b = (l, su)" by (cases a, cases b)
  have e: "4 * uint k + get_state_priority st = 4 * uint l + get_state_priority su" "known st" "known su"
    using assms ab p by (auto simp: view_rank_def known_view_def)
  have "uint k = uint l" "get_state_priority st = get_state_priority su"
    using e(1) known_priority [OF e(2)] known_priority [OF e(3)] by presburger+
  then show "v = w" using ab p known_priority_inj [OF e(2,3)] by (simp add: word_uint_eq_iff)
next
  fix a assume "v = None" "w = Some a"
  moreover obtain k st where "a = (k, st)" by (cases a)
  ultimately show "v = w"
    using assms(2,3) known_priority [of st] uint_ge_0 [of k] unfolding view_rank_def known_view_def by simp
next
  fix a assume "v = Some a" "w = None"
  moreover obtain k st where "a = (k, st)" by (cases a)
  ultimately show "v = w"
    using assms(1,3) known_priority [of st] uint_ge_0 [of k] unfolding view_rank_def known_view_def by simp
qed simp

lemma find_update_entry:
  "me_id (f (gs_membership s ! i)) = me_id (gs_membership s ! i) \<Longrightarrow>
     membership_find (update_entry s i f) x = membership_find s x"
  unfolding membership_find_def
  by (rule find_entry_cong) (cases "i < length (gs_membership s)"; simp add: map_update list_update_same_conv list_update_beyond)

lemma view_update_entry:
  assumes "gossip_inv s" and "membership_find s y = Some i"
    and "me_id (f (gs_membership s ! i)) = me_id (gs_membership s ! i)"
  shows "node_view (update_entry s i f) x
    = (if x = y then Some (let e = f (gs_membership s ! i) in (me_incarnation e, me_status e)) else node_view s x)"
proof -
  note find = find_update_entry [of f s i, OF assms(3)]
  have i: "i < length (gs_membership s)" "me_id (gs_membership s ! i) = y" using inv_entry [OF assms(1,2)] by simp_all
  show ?thesis
  proof (cases "x = y")
    case True
    then show ?thesis using assms(2) i(1) by (simp add: node_view_def find)
  next
    case False
    have "(gs_membership s)[i := f (gs_membership s ! i)] ! j = gs_membership s ! j" if "membership_find s x = Some j" for j
      using inv_entry(2) [OF assms(1) that] False i(2) by (intro nth_list_update_neq) auto
    then show ?thesis using False by (cases "membership_find s x") (simp_all add: node_view_def find)
  qed
qed

lemma node_view_add:
  assumes "membership_find s (gi_node_id u) = None"
  shows "node_view (membership_add now s u) x = (if x = gi_node_id u then Some (info_view u) else node_view s x)"
  using assms
  by (auto simp: node_view_def membership_find_def membership_add_def find_entry_append Let_def nth_append
      split: option.split dest: find_entry_Some)

lemma view_membership_update:
  assumes "gossip_inv s" and "membership_find s (gi_node_id u) = Some i"
  shows "node_view (membership_update now s u) x
    = (if x = gi_node_id u \<and> should_update (me_info (gs_membership s ! i)) u then Some (info_view u) else node_view s x)"
  using assms(2) inv_entry(2) [OF assms]
  by (auto simp: membership_update_def view_update_entry [OF assms] overwrite_entry_def Let_def)

lemma view_self_refute:
  "gossip_inv s \<Longrightarrow> x \<noteq> gc_node_id (gs_config s) \<Longrightarrow> node_view (self_refute s) x = node_view s x"
  by (auto simp: self_refute_def Let_def refute_entry_def view_update_entry split: option.split)
    (simp_all add: node_view_def membership_find_def)

lemma view_apply_update:
  assumes "gossip_inv s" and "x \<noteq> gc_node_id (gs_config s)" and "known_view (node_view s x)"
    and "gi_node_id u = x \<Longrightarrow> known (gi_status u)"
  shows "known_view (node_view (apply_update now s u) x)
    \<and> view_rank (node_view (apply_update now s u) x)
      = (if gi_node_id u = x then max (view_rank (node_view s x)) (view_rank (Some (info_view u)))
         else view_rank (node_view s x))"
proof (cases "gi_node_id u = gc_node_id (gs_config s)")
  case True
  then show ?thesis using assms view_self_refute [OF assms(1,2)] by (auto simp: apply_update_def)
next
  case self: False
  show ?thesis
  proof (cases "membership_find s (gi_node_id u)")
    case None
    then have "node_view s (gi_node_id u) = None" by (simp add: node_view_def)
    moreover have "- 1 \<le> view_rank (Some (info_view u))" if "gi_node_id u = x"
      using known_priority [OF assms(4) [OF that]] uint_ge_0 [of "gi_incarnation u"] unfolding view_rank_def option.case prod.case
      by linarith
    moreover have "view_rank None = - 1" by (simp add: view_rank_def)
    ultimately show ?thesis
      using None self assms(3,4) node_view_add [OF None] by (auto simp: apply_update_def known_view_def)
  next
    case (Some i)
    let ?e = "me_info (gs_membership s ! i)"
    have v: "node_view s (gi_node_id u) = Some (info_view ?e)" using Some by (simp add: node_view_def Let_def)
    have "should_update ?e u \<longleftrightarrow> view_rank (node_view s x) < view_rank (Some (info_view u))" if "gi_node_id u = x"
    proof -
      have "known (gi_status ?e)" using that v assms(3) by (auto simp: known_view_def)
      then show ?thesis using should_update_rule apply_rule_rank assms(4) [OF that] v that by simp
    qed
    then show ?thesis
      using Some self assms(3,4) view_membership_update [OF assms(1) Some]
      by (auto simp: apply_update_def known_view_def)
  qed
qed

text \<open>
  Updates whose names fit their field and that hold \<open>x\<close>, if they are about it, for alive, suspected or failed; what
  they say of other nodes does not matter.
\<close>

definition news :: "cstr \<Rightarrow> gossip_node_info list \<Rightarrow> bool" where
  "news x us \<longleftrightarrow> list_all (\<lambda>u. wf_cstr 64 (gi_node_id u) \<and> (if gi_node_id u = x then known (gi_status u) else True)) us"

lemma view_apply_updates:
  assumes "gossip_inv s" and "x \<noteq> gc_node_id (gs_config s)" and "known_view (node_view s x)" and "news x us"
  shows "known_view (node_view (foldl (apply_update now) s us) x)
    \<and> view_rank (node_view (foldl (apply_update now) s us) x)
      = Max (insert (view_rank (node_view s x)) ((\<lambda>u. view_rank (Some (info_view u))) ` {u \<in> set us. gi_node_id u = x}))"
  using assms
proof (induction us arbitrary: s)
  case Nil
  then show ?case by simp
next
  case (Cons u us)
  let ?r = "\<lambda>u. view_rank (Some (info_view u))" and ?s = "apply_update now s u"
  let ?S = "?r ` {u \<in> set us. gi_node_id u = x}"
  have u: "wf_cstr 64 (gi_node_id u)" "gi_node_id u = x \<Longrightarrow> known (gi_status u)" "news x us"
    using Cons.prems(4) by (auto simp: news_def)
  note st = view_apply_update [OF Cons.prems(1-3) u(2), of now]
  have IH: "known_view (node_view (foldl (apply_update now) ?s us) x)
    \<and> view_rank (node_view (foldl (apply_update now) ?s us) x) = Max (insert (view_rank (node_view ?s x)) ?S)"
    using Cons.IH [OF inv_apply_update [OF Cons.prems(1) u(1)]] Cons.prems(2) st u(3) by simp
  have "?r ` {v \<in> set (u # us). gi_node_id v = x} = (if gi_node_id u = x then insert (?r u) ?S else ?S)" by auto
  moreover have "Max (insert (max a b) ?S) = Max (insert a (insert b ?S))" for a b :: int
    by (cases "{u \<in> set us. gi_node_id u = x} = {}") (simp_all add: max.assoc del: Collect_empty_eq)
  ultimately show ?case using IH st by auto
qed

section \<open>Properties\<close>

text \<open>A node \<open>x\<close> on port 7000 with default parameters, and the same node after it met and suspected \<open>b\<close>.\<close>

definition sample_gossip_config :: "cstr \<Rightarrow> gossip_config" where
  "sample_gossip_config x = \<lparr>gc_node_id = x, gc_bind_address = [], gc_bind_port = 7000, gc_role = GOSSIP_ROLE_WORKER,
     gc_protocol_period_ms = 0, gc_probe_timeout_ms = 0, gc_indirect_probes = 0, gc_suspicion_mult = 0,
     gc_max_transmissions = 0, gc_seeds = []\<rparr>"

definition sample_gossip :: "cstr \<Rightarrow> gossip_state" where
  "sample_gossip x = projr (gossip_init 1000 True (\<lambda>a. True) True (sample_gossip_config x))"

definition sample_ping :: "cstr \<Rightarrow> gossip_message" where
  "sample_ping x = \<lparr>gm_type = 1, gm_sender_id = x, gm_incarnation = 0, gm_sequence = 0, gm_updates = []\<rparr>"

definition sample_met :: "cstr \<Rightarrow> cstr \<Rightarrow> gossip_state" where
  "sample_met x y = gossip_update_node_from_message 1500 (sample_gossip x) (sample_ping y) [49] 7000"

definition sample_suspects :: "cstr \<Rightarrow> cstr \<Rightarrow> gossip_state" where
  "sample_suspects x y = gossip_mark_node_suspected 2000 (gossip_set_on_node_failed (sample_met x y) True) y"

lemma sample_gossip_reachable: "wf_cstr 64 x \<Longrightarrow> x \<noteq> [] \<Longrightarrow> gossip_reachable (sample_gossip x)"
  by (rule gossip_reachable.init [of 1000 True "\<lambda>a. True" True "sample_gossip_config x"])
    (simp_all add: sample_gossip_def gossip_init_def sample_gossip_config_def Let_def)

lemma sample_met_reachable:
  "wf_cstr 64 x \<Longrightarrow> x \<noteq> [] \<Longrightarrow> wf_cstr 64 y \<Longrightarrow> gossip_reachable (sample_met x y)"
  unfolding sample_met_def
  by (rule gossip_reachable.step [OF sample_gossip_reachable gossip_step.message]) (simp_all add: sample_ping_def)

lemma sample_suspects_reachable:
  "wf_cstr 64 x \<Longrightarrow> x \<noteq> [] \<Longrightarrow> wf_cstr 64 y \<Longrightarrow> gossip_reachable (sample_suspects x y)"
  unfolding sample_suspects_def
  by (rule gossip_reachable.step [OF gossip_reachable.step [OF sample_met_reachable gossip_step.on_failed]
        gossip_step.mark_suspected])

text \<open>
  C18. Invariant of the membership list over all interleavings of API calls, probe results, timeout
  sweeps and received messages (whatever their contents): names are unique, exactly one entry
  belongs to the local node and it is the only one marked local, it is never suspected or failed,
  and the array bound is respected.
\<close>

theorem gossip_membership_invariant:
  assumes "gossip_reachable s"
  shows "distinct (map me_id (gs_membership s))
    \<and> (case membership_find s (gc_node_id (gs_config s)) of
         None \<Rightarrow> False
       | Some i \<Rightarrow> me_status (gs_membership s ! i) \<in> {GOSSIP_NODE_ALIVE, GOSSIP_NODE_LEFT})
    \<and> list_all (\<lambda>e. me_local_node e = (me_id e = gc_node_id (gs_config s))) (gs_membership s)
    \<and> length (gs_membership s) \<le> gs_membership_capacity s"
proof -
  have i: "gossip_inv s" by (rule gossip_reachable_inv [OF assms])
  then obtain k where k: "membership_find s (gc_node_id (gs_config s)) = Some k"
    by (cases "membership_find s (gc_node_id (gs_config s))") (auto simp: gossip_inv_def membership_find_def find_entry_None)
  have "me_status (gs_membership s ! k) \<in> {GOSSIP_NODE_ALIVE, GOSSIP_NODE_LEFT}"
    using inv_entry(2,3) [OF i k] by (auto simp: entry_ok_def)
  moreover have "list_all (\<lambda>e. me_local_node e = (me_id e = gc_node_id (gs_config s))) (gs_membership s)"
    using i by (auto simp: gossip_inv_def list_all_iff entry_ok_def)
  ultimately show ?thesis using i k by (simp add: gossip_inv_def)
qed

theorem gossip_membership_invariant_witness:
  "distinct (map me_id (gs_membership (sample_suspects [97] [98])))"
  using gossip_membership_invariant [OF sample_suspects_reachable [of "[97]" "[98]"]] by (simp add: wf_cstr_def)

text \<open>
  C19. The timeout sweep returns in every reachable state although it restarts after every failure
  it finds, and it does what it should: exactly the suspects whose suspicion is older than the
  timeout become failed, everything else is unchanged, and the failure callback runs once for
  each of them in list order.
\<close>

theorem suspicion_sweep_terminates:
  fixes now :: u64
  assumes "gossip_reachable s"
  defines "P \<equiv> timed_out now (suspicion_timeout (gs_config s))"
    and "f \<equiv> \<lambda>e. (set_status GOSSIP_NODE_FAILED e)\<lparr>me_transmit_count := gc_max_transmissions (gs_config s)\<rparr>"
  shows "\<exists>s'. gossip_check_suspicion_timeouts now s = Some s'
    \<and> gs_membership s' = map (\<lambda>e. if P e then f e else e) (gs_membership s)
    \<and> gs_events s' = gs_events s
        @ (if gs_on_failed s then map (\<lambda>e. NodeFailed (me_info (f e))) (filter P (gs_membership s)) else [])"
  using suspicion_sweep_ok [OF gossip_reachable_inv [OF assms(1)], of 0]
  by (simp add: gossip_check_suspicion_timeouts_def swept_def Let_def P_def f_def fail_entry_def [abs_def])

theorem suspicion_sweep_terminates_witness:
  "\<exists>s'. gossip_check_suspicion_timeouts 9000 (sample_suspects [97] [98]) = Some s'
    \<and> map me_status (gs_membership s') = [GOSSIP_NODE_ALIVE, GOSSIP_NODE_FAILED] \<and> length (gs_events s') = 1"
proof -
  have "map me_status (map (\<lambda>e. if timed_out 9000 (suspicion_timeout (gs_config (sample_suspects [97] [98]))) e
      then (set_status GOSSIP_NODE_FAILED e)\<lparr>me_transmit_count := t\<rparr> else e)
      (gs_membership (sample_suspects [97] [98]))) = [GOSSIP_NODE_ALIVE, GOSSIP_NODE_FAILED]" for t
    by code_simp
  moreover have "length (gs_events (sample_suspects [97] [98])
      @ (if gs_on_failed (sample_suspects [97] [98]) then map g (filter (timed_out 9000
        (suspicion_timeout (gs_config (sample_suspects [97] [98])))) (gs_membership (sample_suspects [97] [98]))) else [])) = 1" for g
    by code_simp
  moreover have "gossip_reachable (sample_suspects [97] [98])"
    by (rule sample_suspects_reachable) (simp_all add: wf_cstr_def)
  ultimately show ?thesis using suspicion_sweep_terminates [of "sample_suspects [97] [98]" 9000] by fastforce
qed

text \<open>
  C20. Views converge whatever the order of news: two nodes that process the same set of updates, in different
  orders and with repetitions, end with the same incarnation and status for a third node, if they agreed about it
  before and it is alive, suspected or failed in their views and in the updates about it. News that it left are
  excluded, and have to be (see \<open>left_and_failed_diverge\<close>).
\<close>

theorem gossip_views_converge:
  assumes "gossip_reachable s" and "gossip_reachable t" and "news x us" and "news x vs" and "set us = set vs"
    and "x \<noteq> gc_node_id (gs_config s)" and "x \<noteq> gc_node_id (gs_config t)"
    and "node_view s x = node_view t x" and "known_view (node_view s x)"
  shows "node_view (foldl (apply_update now) s us) x = node_view (foldl (apply_update now') t vs) x"
  using view_apply_updates [OF gossip_reachable_inv [OF assms(1)] assms(6,9,3), of now]
    view_apply_updates [OF gossip_reachable_inv [OF assms(2)] assms(7) _ assms(4), of now'] assms(5,8,9)
  by (intro view_rank_inj) simp_all

definition sample_news :: "u64 \<Rightarrow> gossip_node_status \<Rightarrow> gossip_node_info" where
  "sample_news k st = \<lparr>gi_node_id = [99], gi_address = [49], gi_port = 7000, gi_status = st,
     gi_role = GOSSIP_ROLE_WORKER, gi_incarnation = k, gi_last_seen_ms = 0, gi_load = 0\<rparr>"

theorem gossip_views_converge_witness:
  "node_view (foldl (apply_update 5) (sample_gossip [97]) [sample_news 1 GOSSIP_NODE_FAILED, sample_news 2 GOSSIP_NODE_SUSPECTED]) [99]
   = node_view (foldl (apply_update 6) (sample_gossip [98]) [sample_news 2 GOSSIP_NODE_SUSPECTED, sample_news 1 GOSSIP_NODE_FAILED,
       sample_news 2 GOSSIP_NODE_SUSPECTED]) [99]"
proof (rule gossip_views_converge)
  show "gossip_reachable (sample_gossip [97])" "gossip_reachable (sample_gossip [98])"
    by (rule sample_gossip_reachable; simp add: wf_cstr_def)+
  show "news [99] [sample_news 1 GOSSIP_NODE_FAILED, sample_news 2 GOSSIP_NODE_SUSPECTED]"
    "news [99] [sample_news 2 GOSSIP_NODE_SUSPECTED, sample_news 1 GOSSIP_NODE_FAILED, sample_news 2 GOSSIP_NODE_SUSPECTED]"
    by (simp_all add: news_def sample_news_def wf_cstr_def known_def)
  show "[99] \<noteq> gc_node_id (gs_config (sample_gossip [97]))" "[99] \<noteq> gc_node_id (gs_config (sample_gossip [98]))"
    "node_view (sample_gossip [97]) [99] = node_view (sample_gossip [98]) [99]"
    "known_view (node_view (sample_gossip [97]) [99])"
    by code_simp+
qed auto

text \<open>
  Views do not converge when a node leaves: of the news that it failed and that it left, at the same incarnation,
  the one that arrives first stays.
\<close>

lemma left_and_failed_diverge:
  "node_view (foldl (apply_update 5) (sample_gossip [97]) [sample_news 1 GOSSIP_NODE_FAILED, sample_news 1 GOSSIP_NODE_LEFT]) [99]
     = Some (1, GOSSIP_NODE_FAILED)"
  "node_view (foldl (apply_update 5) (sample_gossip [97]) [sample_news 1 GOSSIP_NODE_LEFT, sample_news 1 GOSSIP_NODE_FAILED]) [99]
     = Some (1, GOSSIP_NODE_LEFT)"
  by code_simp+

text \<open>
  Refutation works across nodes: when a node hears that it is suspected or failed at an
  incarnation that is not above its own, the entry about itself that it sends from then on makes
  every peer that knows it under that incarnation hold it for alive again, at the new incarnation.
\<close>

lemma refutation_wins:
  assumes "gossip_reachable s" and "gossip_reachable t"
    and "gi_node_id u = gc_node_id (gs_config s)" and "gi_status u \<noteq> GOSSIP_NODE_ALIVE"
    and "gi_incarnation u \<le> gs_self_incarnation s" and "gs_self_incarnation s \<noteq> - 1"
    and "gc_node_id (gs_config t) \<noteq> gc_node_id (gs_config s)"
    and "node_view t (gc_node_id (gs_config s)) = Some (gi_incarnation u, st)"
  shows "\<exists>own. gossip_get_node_info (apply_update now s u) (gc_node_id (gs_config s)) = Inr own
    \<and> node_view (apply_update now' t own) (gc_node_id (gs_config s))
        = Some (gs_self_incarnation s + 1, GOSSIP_NODE_ALIVE)"
proof -
  let ?x = "gc_node_id (gs_config s)" and ?k = "gs_self_incarnation s"
  have inv: "gossip_inv s" "gossip_inv t" using assms(1,2) by (simp_all add: gossip_reachable_inv)
  obtain i where i: "membership_find s ?x = Some i"
    using inv(1) by (cases "membership_find s ?x") (auto simp: gossip_inv_def membership_find_def find_entry_None)
  define s' where "s' = apply_update now s u"
  have s': "s' = update_entry (s\<lparr>gs_self_incarnation := ?k + 1\<rparr>) i (refute_entry (?k + 1) (gc_max_transmissions (gs_config s)))"
    using assms(3,4) i by (simp add: s'_def apply_update_def self_refute_def Let_def)
  have own: "gossip_get_node_info s' ?x = Inr (me_info (refute_entry (?k + 1) (gc_max_transmissions (gs_config s)) (gs_membership s ! i)))"
    (is "_ = Inr ?own")
    using i inv_entry(1) [OF inv(1) i]
    by (simp add: s' gossip_get_node_info_def find_update_entry refute_entry_def)
  have o: "gi_node_id ?own = ?x" "info_view ?own = (?k + 1, GOSSIP_NODE_ALIVE)"
    using inv_entry(2) [OF inv(1) i] by (simp_all add: refute_entry_def)
  obtain j where j: "membership_find t ?x = Some j" "me_incarnation (gs_membership t ! j) = gi_incarnation u"
    using assms(8) by (auto simp: node_view_def Let_def)
  have "1 + ?k \<noteq> 0" using assms(6) by (metis add.commute eq_neg_iff_add_eq_0)
  then have "?k < ?k + 1" using unatSuc [of ?k] by (simp add: word_less_nat_alt add.commute)
  then have "gi_incarnation u < ?k + 1" using assms(5) by (rule order.strict_trans1 [rotated])
  then have "should_update (me_info (gs_membership t ! j)) ?own"
    using j(2) o(2) by (simp add: should_update_def)
  then have "node_view (apply_update now' t ?own) ?x = Some (?k + 1, GOSSIP_NODE_ALIVE)"
    using view_membership_update [OF inv(2), of ?own j now' ?x] o j(1) assms(7) by (simp add: apply_update_def)
  then show ?thesis using own by (auto simp: s'_def)
qed

lemma refutation_wins_witness:
  "\<exists>own. gossip_get_node_info (apply_update 7 (sample_gossip [97]) ((sample_news 0 GOSSIP_NODE_SUSPECTED)\<lparr>gi_node_id := [97]\<rparr>)) [97] = Inr own
    \<and> node_view (apply_update 9 (sample_suspects [98] [97]) own) [97] = Some (1, GOSSIP_NODE_ALIVE)"
proof -
  have r: "gossip_reachable (sample_gossip [97])" "gossip_reachable (sample_suspects [98] [97])"
    by (rule sample_gossip_reachable sample_suspects_reachable; simp add: wf_cstr_def)+
  have c: "gc_node_id (gs_config (sample_gossip [97])) = [97]" "gs_self_incarnation (sample_gossip [97]) = 0"
    "gc_node_id (gs_config (sample_suspects [98] [97])) = [98]"
    "node_view (sample_suspects [98] [97]) [97] = Some (0, GOSSIP_NODE_SUSPECTED)"
    by code_simp+
  show ?thesis
    using refutation_wins [OF r, of "(sample_news 0 GOSSIP_NODE_SUSPECTED)\<lparr>gi_node_id := [97]\<rparr>" GOSSIP_NODE_SUSPECTED 7 9]
    unfolding c by (simp add: sample_news_def status_defs)
qed

end
