(* ===== verification/GossipWire.thy ===== *)
theory GossipWire
  imports Gossip
begin

text \<open>
  The SWIM protocol of \<^verbatim>\<open>gossip_core.c\<close>: the binary message format, probing, the body of the protocol
  thread and the body of the receiver thread. Random numbers, the clock, received datagrams and the
  success of \<^verbatim>\<open>sendto\<close> are arguments; datagrams that are sent are part of the results. Host integers
  are stored as they are in memory (little endian). A message that does not fit the 2048 byte
  buffer is written past its end; \<open>None\<close> stands for that undefined behaviour.
\<close>

section \<open>Message format\<close>

definition GOSSIP_MAGIC :: u32 where
  "GOSSIP_MAGIC = 0x47535350"

definition GOSSIP_VERSION :: u32 where
  "GOSSIP_VERSION = 1"

definition GOSSIP_MSG_PING :: u32 where
  "GOSSIP_MSG_PING = 1"

definition GOSSIP_MSG_ACK :: u32 where
  "GOSSIP_MSG_ACK = 2"

definition GOSSIP_MSG_PING_REQ :: u32 where
  "GOSSIP_MSG_PING_REQ = 3"

definition GOSSIP_MSG_LEAVE :: u32 where
  "GOSSIP_MSG_LEAVE = 5"

lemmas msg_type_defs = GOSSIP_MSG_PING_def GOSSIP_MSG_ACK_def GOSSIP_MSG_PING_REQ_def GOSSIP_MSG_MEMBERSHIP_def
  GOSSIP_MSG_LEAVE_def

definition serialize_node :: "gossip_node_info \<Rightarrow> bytes" where
  "serialize_node node =
     char_field 64 (gi_node_id node) @ char_field 256 (gi_address node) @ le_bytes 2 (gi_port node)
     @ le_bytes 4 (gi_status node) @ le_bytes 4 (gi_role node) @ le_bytes 8 (gi_incarnation node)
     @ le_bytes 8 (gi_load node)"

definition serialize_message :: "gossip_message \<Rightarrow> nat \<Rightarrow> bytes option" where
  "serialize_message msg buffer_size =
     (if buffer_size < 512 then Some []
      else
        let image = le_bytes 4 GOSSIP_MAGIC @ le_bytes 4 GOSSIP_VERSION @ le_bytes 4 (gm_type msg)
              @ le_bytes 4 (gm_sequence msg) @ le_bytes 8 (gm_incarnation msg) @ char_field 64 (gm_sender_id msg)
              @ le_bytes 4 (of_nat (length (gm_updates msg)) :: u32)
              @ concat (map serialize_node (take 10 (gm_updates msg)))
        in if length image \<le> buffer_size then Some image else None)"

definition deserialize_node :: "bytes \<Rightarrow> gossip_node_info" where
  "deserialize_node b =
     \<lparr>gi_node_id = strncpy 63 (bslice 0 64 b), gi_address = strncpy 255 (bslice 64 256 b),
      gi_port = le_word (bslice 320 2 b), gi_status = le_word (bslice 322 4 b), gi_role = le_word (bslice 326 4 b),
      gi_incarnation = le_word (bslice 330 8 b), gi_last_seen_ms = 0, gi_load = le_word (bslice 338 8 b)\<rparr>"

fun deserialize_nodes :: "nat \<Rightarrow> bytes \<Rightarrow> gossip_node_info list option" where
  "deserialize_nodes 0 b = Some []"
| "deserialize_nodes (Suc n) b =
     (if 346 > length b then None
      else (case deserialize_nodes n (drop 346 b) of
              None \<Rightarrow> None
            | Some nodes \<Rightarrow> Some (deserialize_node b # nodes)))"

definition deserialize_message :: "bytes \<Rightarrow> gossip_message option" where
  "deserialize_message b =
     (if length b < 96 then None
      else if le_word (bslice 0 4 b) \<noteq> GOSSIP_MAGIC then None
      else if le_word (bslice 4 4 b) \<noteq> GOSSIP_VERSION then None
      else
        let update_count = le_word (bslice 88 4 b) :: u32;
            update_count = (if update_count > 10 then 10 else update_count)
        in case deserialize_nodes (unat update_count) (drop 92 b) of
             None \<Rightarrow> None
           | Some updates \<Rightarrow> Some \<lparr>gm_type = le_word (bslice 8 4 b), gm_sender_id = strncpy 63 (bslice 24 64 b),
               gm_incarnation = le_word (bslice 16 8 b), gm_sequence = le_word (bslice 12 4 b), gm_updates = updates\<rparr>)"

section \<open>Network access\<close>

type_synonym sender = "cstr \<Rightarrow> u16 \<Rightarrow> bool"
type_synonym datagram = "cstr \<times> u16 \<times> bytes"

datatype recv_result = RecvDatagram cstr u16 bytes | RecvTimeout | RecvError

datatype received = Message gossip_message cstr u16 | TimedOut | Failed

definition send_message :: "sender \<Rightarrow> gossip_message \<Rightarrow> cstr \<Rightarrow> u16 \<Rightarrow> (int \<times> datagram list) option" where
  "send_message sendto_ok msg dest_addr dest_port =
     (case serialize_message msg 2048 of
        None \<Rightarrow> None
      | Some b \<Rightarrow>
          if b = [] then Some (- 1, [])
          else if \<not> sendto_ok dest_addr dest_port then Some (- 1, [])
          else Some (0, [(dest_addr, dest_port, b)]))"

definition receive_message :: "recv_result \<Rightarrow> received" where
  "receive_message r =
     (case r of
        RecvTimeout \<Rightarrow> TimedOut
      | RecvError \<Rightarrow> Failed
      | RecvDatagram src_addr src_port b \<Rightarrow>
          (case deserialize_message (take 2048 b) of
             None \<Rightarrow> Failed
           | Some msg \<Rightarrow> Message msg src_addr src_port))"

section \<open>Probing\<close>

definition probe_candidate :: "membership_entry \<Rightarrow> bool" where
  "probe_candidate e \<longleftrightarrow> me_status e = GOSSIP_NODE_ALIVE \<and> \<not> me_local_node e"

definition select_probe_target :: "nat \<Rightarrow> gossip_state \<Rightarrow> membership_entry option" where
  "select_probe_target rand s =
     (let candidates = filter probe_candidate (gs_membership s)
      in if candidates = [] then None else Some (candidates ! (rand mod length candidates)))"

text \<open>The partial Fisher-Yates loop: position \<open>i\<close> of \<open>k\<close>, one random number for each.\<close>

fun draw :: "(nat \<Rightarrow> nat) \<Rightarrow> nat \<Rightarrow> nat \<Rightarrow> 'a list \<Rightarrow> 'a list" where
  "draw rand 0 i candidates = []"
| "draw rand (Suc k) i candidates =
     (let j = i + rand i mod (length candidates - i)
      in candidates ! j # draw rand k (Suc i) (candidates[j := candidates ! i]))"

definition select_indirect_probers :: "(nat \<Rightarrow> nat) \<Rightarrow> gossip_state \<Rightarrow> cstr \<Rightarrow> membership_entry list" where
  "select_indirect_probers rand s exclude_id =
     (let candidates = filter (\<lambda>e. probe_candidate e \<and> me_id e \<noteq> exclude_id) (gs_membership s)
      in if candidates = [] then []
         else
           let k = (if unat (gc_indirect_probes (gs_config s)) < length candidates
                    then unat (gc_indirect_probes (gs_config s)) else length candidates)
           in draw rand k 0 candidates)"

text \<open>
  Waiting for an ACK: one receive result for each iteration until the probe timeout has passed.
  Anything else that arrives is dropped.
\<close>

fun await_ack :: "cstr \<Rightarrow> recv_result list \<Rightarrow> bool" where
  "await_ack target_id [] = False"
| "await_ack target_id (r # rs) =
     (case receive_message r of
        Message response src_addr src_port \<Rightarrow>
          if gm_type response = GOSSIP_MSG_ACK \<and> gm_sender_id response = target_id then True
          else await_ack target_id rs
      | TimedOut \<Rightarrow> False
      | Failed \<Rightarrow> await_ack target_id rs)"

definition take_sequence :: "gossip_state \<Rightarrow> u32 \<times> gossip_state" where
  "take_sequence s = (gs_sequence_counter s, s\<lparr>gs_sequence_counter := gs_sequence_counter s + 1\<rparr>)"

definition probe_node_direct ::
  "sender \<Rightarrow> recv_result list \<Rightarrow> gossip_state \<Rightarrow> membership_entry \<Rightarrow> (int \<times> datagram list \<times> gossip_state) option" where
  "probe_node_direct sendto_ok rs s target =
     (case take_sequence s of (sequence, s) \<Rightarrow>
      case gossip_get_updates_to_broadcast s of (updates, s) \<Rightarrow>
      let ping_msg = \<lparr>gm_type = GOSSIP_MSG_PING, gm_sender_id = strncpy 63 (gc_node_id (gs_config s)),
            gm_incarnation = gs_self_incarnation s, gm_sequence = sequence, gm_updates = updates\<rparr>
      in case send_message sendto_ok ping_msg (gi_address (me_info target)) (gi_port (me_info target)) of
           None \<Rightarrow> None
         | Some (result, out) \<Rightarrow>
             if result \<noteq> 0 then Some (- 1, out, s)
             else if await_ack (me_id target) rs then Some (0, out, s) else Some (1, out, s))"

fun send_all :: "sender \<Rightarrow> gossip_message \<Rightarrow> membership_entry list \<Rightarrow> datagram list option" where
  "send_all sendto_ok msg [] = Some []"
| "send_all sendto_ok msg (p # ps) =
     (case send_message sendto_ok msg (gi_address (me_info p)) (gi_port (me_info p)) of
        None \<Rightarrow> None
      | Some (result, out) \<Rightarrow> map_option (\<lambda>outs. out @ outs) (send_all sendto_ok msg ps))"

definition probe_node_indirect ::
  "(nat \<Rightarrow> nat) \<Rightarrow> sender \<Rightarrow> recv_result list \<Rightarrow> gossip_state \<Rightarrow> membership_entry
     \<Rightarrow> (int \<times> datagram list \<times> gossip_state) option" where
  "probe_node_indirect rand sendto_ok rs s target =
     (let probers = select_indirect_probers rand s (me_id target)
      in if probers = [] then Some (- 1, [], s)
         else
           case take_sequence s of (sequence, s) \<Rightarrow>
           let ping_req = \<lparr>gm_type = GOSSIP_MSG_PING_REQ, gm_sender_id = strncpy 63 (gc_node_id (gs_config s)),
                 gm_incarnation = gs_self_incarnation s, gm_sequence = sequence, gm_updates = [me_info target]\<rparr>
           in case send_all sendto_ok ping_req probers of
                None \<Rightarrow> None
              | Some out \<Rightarrow> Some (if await_ack (me_id target) rs then 0 else 1, out, s))"

section \<open>Protocol round\<close>

text \<open>What one round meets: clock, random numbers, reachable addresses, answers to both probes.\<close>

record gossip_env =
  ge_now :: u64
  ge_rand :: nat
  ge_rands :: "nat \<Rightarrow> nat"
  ge_sendto :: sender
  ge_direct :: "recv_result list"
  ge_indirect :: "recv_result list"

definition probe_round :: "gossip_env \<Rightarrow> gossip_state \<Rightarrow> (datagram list \<times> gossip_state) option" where
  "probe_round env s =
     (case select_probe_target (ge_rand env) s of
        None \<Rightarrow> Some ([], s)
      | Some target \<Rightarrow>
          case probe_node_direct (ge_sendto env) (ge_direct env) s target of
            None \<Rightarrow> None
          | Some (direct_result, out, s) \<Rightarrow>
              if direct_result \<noteq> 0 then
                case probe_node_indirect (ge_rands env) (ge_sendto env) (ge_indirect env) s target of
                  None \<Rightarrow> None
                | Some (indirect_result, out', s) \<Rightarrow>
                    Some (out @ out', if indirect_result \<noteq> 0 then gossip_mark_node_suspected (ge_now env) s (me_id target) else s)
              else Some (out, gossip_mark_node_alive (ge_now env) s (me_id target)))"

definition gossip_protocol_round :: "gossip_env \<Rightarrow> gossip_state \<Rightarrow> (datagram list \<times> gossip_state) option" where
  "gossip_protocol_round env s =
     (case probe_round env s of
        None \<Rightarrow> None
      | Some (out, s) \<Rightarrow> map_option (\<lambda>s. (out, s)) (gossip_check_suspicion_timeouts (ge_now env) s))"

section \<open>Receiver\<close>

definition handle_ping ::
  "u64 \<Rightarrow> sender \<Rightarrow> gossip_state \<Rightarrow> gossip_message \<Rightarrow> cstr \<Rightarrow> u16 \<Rightarrow> (datagram list \<times> gossip_state) option" where
  "handle_ping now sendto_ok s msg src_addr src_port =
     (let s = gossip_update_node_from_message now s msg src_addr src_port
      in case gossip_get_updates_to_broadcast s of (updates, s) \<Rightarrow>
         let ack = \<lparr>gm_type = GOSSIP_MSG_ACK, gm_sender_id = strncpy 63 (gc_node_id (gs_config s)),
               gm_incarnation = gs_self_incarnation s, gm_sequence = gm_sequence msg, gm_updates = updates\<rparr>
         in map_option (\<lambda>(result, out). (out, s)) (send_message sendto_ok ack src_addr src_port))"

definition gossip_receive ::
  "u64 \<Rightarrow> sender \<Rightarrow> gossip_state \<Rightarrow> recv_result \<Rightarrow> (datagram list \<times> gossip_state) option" where
  "gossip_receive now sendto_ok s r =
     (case receive_message r of
        Message msg src_addr src_port \<Rightarrow>
          if gm_type msg = GOSSIP_MSG_PING then handle_ping now sendto_ok s msg src_addr src_port
          else if gm_type msg = GOSSIP_MSG_ACK then Some ([], s)
          else if gm_type msg = GOSSIP_MSG_PING_REQ then Some ([], s)
          else if gm_type msg = GOSSIP_MSG_MEMBERSHIP then
            Some ([], gossip_update_node_from_message now s msg src_addr src_port)
          else if gm_type msg = GOSSIP_MSG_LEAVE then Some ([], gossip_handle_node_leave s (gm_sender_id msg))
          else Some ([], s)
      | TimedOut \<Rightarrow> Some ([], s)
      | Failed \<Rightarrow> Some ([], s))"

section \<open>Round trip\<close>

lemma length_serialize_node [simp]: "length (serialize_node u) = 346"
  by (simp add: serialize_node_def)

definition node_wf :: "gossip_node_info \<Rightarrow> bool" where
  "node_wf u \<longleftrightarrow> wf_cstr 64 (gi_node_id u) \<and> wf_cstr 256 (gi_address u)"

lemma deserialize_serialize_node:
  assumes "node_wf u"
  shows "deserialize_node (serialize_node u @ r) = u\<lparr>gi_last_seen_ms := 0\<rparr>"
  using assms strncpy_char_field [of 63 "gi_node_id u"] strncpy_char_field [of 255 "gi_address u"]
  by (simp add: deserialize_node_def serialize_node_def node_wf_def bslice_fields)

lemma deserialize_nodes_image:
  "deserialize_nodes (length us) (concat (map serialize_node us))
     = Some (map (\<lambda>u. deserialize_node (serialize_node u)) us)"
proof (induction us)
  case (Cons u us)
  have "deserialize_node (serialize_node u @ r) = deserialize_node (serialize_node u)" for r
    by (simp add: deserialize_node_def bslice_def)
  then show ?case using Cons by simp
qed simp

lemma nodes_roundtrip:
  "list_all node_wf us \<Longrightarrow> map (\<lambda>u. deserialize_node (serialize_node u)) us = map (\<lambda>u. u\<lparr>gi_last_seen_ms := 0\<rparr>) us"
  using deserialize_serialize_node [where r = "[]"] by (simp add: list_all_iff)

definition message_image :: "gossip_message \<Rightarrow> bytes" where
  "message_image msg = le_bytes 4 GOSSIP_MAGIC @ le_bytes 4 GOSSIP_VERSION @ le_bytes 4 (gm_type msg)
     @ le_bytes 4 (gm_sequence msg) @ le_bytes 8 (gm_incarnation msg) @ char_field 64 (gm_sender_id msg)
     @ le_bytes 4 (of_nat (length (gm_updates msg)) :: u32) @ concat (map serialize_node (take 10 (gm_updates msg)))"

lemma length_message_image: "length (message_image msg) = 92 + 346 * min 10 (length (gm_updates msg))"
  by (simp add: message_image_def length_concat comp_def sum_list_triv)

lemma serialize_message_eq:
  "512 \<le> n \<Longrightarrow> serialize_message msg n = (if 92 + 346 * min 10 (length (gm_updates msg)) \<le> n then Some (message_image msg) else None)"
  by (simp add: serialize_message_def message_image_def [symmetric] length_message_image Let_def)

lemma deserialize_image:
  assumes "length (gm_updates msg) \<le> 10" and "wf_cstr 64 (gm_sender_id msg)"
  shows "deserialize_message (message_image msg)
    = (if gm_updates msg = [] then None
       else Some (msg\<lparr>gm_updates := map (\<lambda>u. deserialize_node (serialize_node u)) (gm_updates msg)\<rparr>))"
proof (cases "gm_updates msg = []")
  case True
  then show ?thesis using length_message_image [of msg] by (simp add: deserialize_message_def)
next
  case False
  let ?n = "length (gm_updates msg)" and ?b = "message_image msg"
  have len: "length ?b = 92 + 346 * ?n" "0 < ?n" using assms(1) False length_message_image [of msg] by simp_all
  then have big: "\<not> length ?b < 96" by linarith
  have n: "unat (of_nat ?n :: u32) = ?n" using assms(1) by (simp add: unat_of_nat)
  then have c: "\<not> (of_nat ?n :: u32) > 10" using assms(1) by (simp add: word_less_nat_alt)
  have "drop 92 ?b = concat (map serialize_node (gm_updates msg))" using assms(1) by (simp add: message_image_def)
  moreover have "strncpy 63 (bslice 24 64 ?b) = gm_sender_id msg"
    using strncpy_char_field [of 63 "gm_sender_id msg"] assms(2) by (simp add: message_image_def bslice_fields)
  moreover have "le_word (bslice 0 4 ?b) = GOSSIP_MAGIC" "le_word (bslice 4 4 ?b) = GOSSIP_VERSION"
    "le_word (bslice 8 4 ?b) = gm_type msg" "le_word (bslice 12 4 ?b) = gm_sequence msg"
    "le_word (bslice 16 8 ?b) = gm_incarnation msg" "le_word (bslice 88 4 ?b) = (of_nat ?n :: u32)"
    by (simp_all add: message_image_def bslice_fields)
  ultimately show ?thesis
    using n c False deserialize_nodes_image [of "gm_updates msg"] big
    by (simp add: deserialize_message_def Let_def)
qed

section \<open>Choice of intermediaries\<close>

lemma distinct_swap_in:
  assumes "distinct (x # ys)" and "j < length ys"
  shows "distinct (ys[j := x])" and "set (ys[j := x]) = insert x (set ys) - {ys ! j}"
  using assms by (auto simp: set_update_distinct intro!: distinct_list_update)

lemma draw_spec:
  assumes "distinct (drop i cs)" and "i + k \<le> length cs"
  shows "length (draw rand k i cs) = k \<and> distinct (draw rand k i cs) \<and> set (draw rand k i cs) \<subseteq> set (drop i cs)"
  using assms
proof (induction k arbitrary: i cs)
  case (Suc k)
  define j where "j = i + rand i mod (length cs - i)"
  define cs' where "cs' = cs[j := cs ! i]"
  have "rand i mod (length cs - i) < length cs - i" using Suc.prems(2) by (intro mod_less_divisor) simp
  then have j: "i \<le> j" "j < length cs" by (simp_all add: j_def)
  have d: "drop i cs = cs ! i # drop (Suc i) cs" using Suc.prems(2) by (simp add: Cons_nth_drop_Suc)
  have rest: "distinct (drop (Suc i) cs') \<and> set (drop (Suc i) cs') = set (drop i cs) - {cs ! j}"
  proof (cases "j = i")
    case True
    then show ?thesis using Suc.prems(1) d by (auto simp: cs'_def)
  next
    case False
    then have "drop (Suc i) cs' = (drop (Suc i) cs)[j - Suc i := cs ! i]" "drop (Suc i) cs ! (j - Suc i) = cs ! j"
      using j by (simp_all add: cs'_def drop_update_swap)
    then show ?thesis
      using distinct_swap_in [of "cs ! i" "drop (Suc i) cs" "j - Suc i"] Suc.prems(1) j False by (simp add: d)
  qed
  then have "length (draw rand k (Suc i) cs') = k \<and> distinct (draw rand k (Suc i) cs')
      \<and> set (draw rand k (Suc i) cs') \<subseteq> set (drop i cs) - {cs ! j}"
    using Suc.IH [of "Suc i" cs'] Suc.prems(2) by (simp add: cs'_def)
  moreover have "cs ! j \<in> set (drop i cs)" using j by (auto simp: in_set_conv_nth intro!: exI [of _ "j - i"])
  moreover have "draw rand (Suc k) i cs = cs ! j # draw rand k (Suc i) cs'" by (simp add: j_def cs'_def Let_def)
  ultimately show ?case by auto
qed simp

section \<open>Probes and answers\<close>

definition pending_updates :: "gossip_state \<Rightarrow> membership_entry list" where
  "pending_updates s = filter (\<lambda>e. me_transmit_count e > 0) (gs_membership s)"

lemma updates_pending:
  "fst (gossip_get_updates_to_broadcast s) = map me_info (take 10 (pending_updates s))"
proof -
  let ?m = "length (pending_updates s)"
  obtain us es where c: "collect_updates (if 10 < ?m then 10 else ?m) (gs_membership s) = (us, es)"
    by (cases "collect_updates (if 10 < ?m then 10 else ?m) (gs_membership s)")
  have "us = map me_info (take (if 10 < ?m then 10 else ?m) (pending_updates s))"
    using collect_updates_spec [OF c] by (simp add: pending_updates_def)
  then show ?thesis
    using c by (auto simp: gossip_get_updates_to_broadcast_def pending_updates_def [symmetric] Let_def)
qed

lemma get_updates_frame:
  "gs_config (snd (gossip_get_updates_to_broadcast s)) = gs_config s"
  "gs_self_incarnation (snd (gossip_get_updates_to_broadcast s)) = gs_self_incarnation s"
  by (auto simp: gossip_get_updates_to_broadcast_def Let_def split: prod.split)

lemma get_updates_idle: "pending_updates s = [] \<Longrightarrow> gossip_get_updates_to_broadcast s = ([], s)"
  by (simp add: gossip_get_updates_to_broadcast_def pending_updates_def Let_def)

lemma pending_sequence [simp]: "pending_updates (s\<lparr>gs_sequence_counter := k\<rparr>) = pending_updates s"
  by (simp add: pending_updates_def)

definition ping_of :: "gossip_state \<Rightarrow> gossip_message" where
  "ping_of s = \<lparr>gm_type = GOSSIP_MSG_PING, gm_sender_id = strncpy 63 (gc_node_id (gs_config s)),
     gm_incarnation = gs_self_incarnation s, gm_sequence = gs_sequence_counter s,
     gm_updates = map me_info (take 10 (pending_updates s))\<rparr>"

text \<open>The ping as the receiver reads it.\<close>

definition received_ping :: "gossip_state \<Rightarrow> gossip_message" where
  "received_ping s = (ping_of s)\<lparr>gm_updates := map (\<lambda>u. deserialize_node (serialize_node u)) (gm_updates (ping_of s))\<rparr>"

lemma probe_node_direct_eq:
  "probe_node_direct ok rs s target =
     (case send_message ok (ping_of s) (gi_address (me_info target)) (gi_port (me_info target)) of
        None \<Rightarrow> None
      | Some (result, out) \<Rightarrow>
          Some (if result \<noteq> 0 then - 1 else if await_ack (me_id target) rs then 0 else 1, out,
                snd (gossip_get_updates_to_broadcast (s\<lparr>gs_sequence_counter := gs_sequence_counter s + 1\<rparr>))))"
proof -
  let ?s = "s\<lparr>gs_sequence_counter := gs_sequence_counter s + 1\<rparr>"
  obtain us s' where u: "gossip_get_updates_to_broadcast ?s = (us, s')" by (cases "gossip_get_updates_to_broadcast ?s")
  have "us = map me_info (take 10 (pending_updates s))" "gs_config s' = gs_config s" "gs_self_incarnation s' = gs_self_incarnation s"
    using updates_pending [of ?s] get_updates_frame [of ?s] u by simp_all
  then show ?thesis
    using u by (auto simp: probe_node_direct_def take_sequence_def ping_of_def Let_def split: option.split)
qed

lemma send_message_eq:
  "send_message ok msg a p = (if length (gm_updates msg) \<ge> 6 then None
     else Some (if ok a p then (0, [(a, p, message_image msg)]) else (- 1, [])))"
proof -
  have "message_image msg \<noteq> []" using length_message_image [of msg] by auto
  moreover have "92 + 346 * min 10 (length (gm_updates msg)) \<le> 2048 \<longleftrightarrow> \<not> length (gm_updates msg) \<ge> 6"
    by (cases "length (gm_updates msg) \<le> 10") (auto simp: min_def)
  ultimately show ?thesis by (simp add: send_message_def serialize_message_eq)
qed

lemma receive_image:
  assumes "length (gm_updates msg) < 6" and "wf_cstr 64 (gm_sender_id msg)"
  shows "receive_message (RecvDatagram a p (message_image msg))
    = (if gm_updates msg = [] then Failed
       else Message (msg\<lparr>gm_updates := map (\<lambda>u. deserialize_node (serialize_node u)) (gm_updates msg)\<rparr>) a p)"
proof -
  have "length (message_image msg) \<le> 2048" using assms(1) length_message_image [of msg] by simp
  then show ?thesis using deserialize_image [of msg] assms by (simp add: receive_message_def)
qed

lemma node_view_emit [simp]: "node_view (emit b ev s) x = node_view s x"
  by (simp add: node_view_def membership_find_def)

lemma update_from_message_config [simp]:
  "gs_config (gossip_update_node_from_message now s msg a p) = gs_config s"
proof -
  have "gs_config (foldl (apply_update now) t us) = gs_config t" for t us
    by (induction us arbitrary: t) simp_all
  moreover have "gs_config (update_sender now s msg a p) = gs_config s"
    by (simp add: update_sender_def Let_def split: option.split)
  ultimately show ?thesis by (simp add: gossip_update_node_from_message_def)
qed

text \<open>No node reacts to a message without updates, nor to an indirect ping request.\<close>

lemma ignored_datagram:
  assumes "length (gm_updates msg) < 6" and "wf_cstr 64 (gm_sender_id msg)"
    and "gm_updates msg = [] \<or> gm_type msg = GOSSIP_MSG_PING_REQ"
  shows "gossip_receive now ok t (RecvDatagram a p (message_image msg)) = Some ([], t)"
  using assms(3) receive_image [OF assms(1,2)] by (auto simp: gossip_receive_def msg_type_defs)

lemma send_all_single:
  "length (gm_updates msg) < 6 \<Longrightarrow> \<exists>out. send_all ok msg ps = Some out \<and> snd ` snd ` set out \<subseteq> {message_image msg}"
proof (induction ps)
  case (Cons e ps)
  then obtain out where "send_all ok msg ps = Some out" "snd ` snd ` set out \<subseteq> {message_image msg}" by auto
  then show ?case using Cons.prems by (auto simp: send_message_eq)
qed simp

section \<open>Threads stay within the runs of the membership layer\<close>

lemma deserialized_wf:
  assumes "deserialize_message b = Some msg"
  shows "wf_cstr 64 (gm_sender_id msg)" and "list_all (\<lambda>u. wf_cstr 64 (gi_node_id u)) (gm_updates msg)"
proof -
  have w: "wf_cstr 64 (strncpy 63 x)" for x using wf_strncpy [of 63] by simp
  have nodes: "deserialize_nodes n c = Some us \<Longrightarrow> list_all (\<lambda>u. wf_cstr 64 (gi_node_id u)) us" for n c us
    by (induction n c arbitrary: us rule: deserialize_nodes.induct)
      (auto simp: deserialize_node_def w split: if_splits option.splits)
  show "wf_cstr 64 (gm_sender_id msg)" "list_all (\<lambda>u. wf_cstr 64 (gi_node_id u)) (gm_updates msg)"
    using assms nodes by (auto simp: deserialize_message_def w Let_def split: if_splits option.splits)
qed

lemma reachable_get_updates:
  "gossip_get_updates_to_broadcast s = (us, s') \<Longrightarrow> gossip_reachable s \<Longrightarrow> gossip_reachable s'"
  using gossip_reachable.step [OF _ gossip_step.get_updates, of s] by simp

lemma reachable_message:
  assumes "gossip_reachable s" and "deserialize_message b = Some msg"
  shows "gossip_reachable (gossip_update_node_from_message now s msg a p)"
  by (rule gossip_reachable.step [OF assms(1) gossip_step.message]) (use deserialized_wf [OF assms(2)] in simp_all)

lemma receive_reachable:
  assumes "gossip_reachable s" and "gossip_receive now ok s r = Some (out, s')"
  shows "gossip_reachable s'"
proof (cases "receive_message r")
  case (Message msg a p)
  then obtain b where b: "deserialize_message b = Some msg"
    by (auto simp: receive_message_def split: recv_result.splits option.splits)
  note m = reachable_message [OF assms(1) b]
  have "gossip_reachable (gossip_handle_node_leave s x)" for x
    by (rule gossip_reachable.step [OF assms(1) gossip_step.node_leave])
  then show ?thesis
    using assms m reachable_get_updates [OF _ m] Message
    by (auto simp: gossip_receive_def handle_ping_def Let_def split: if_splits prod.splits)
qed (use assms in \<open>auto simp: gossip_receive_def\<close>)

lemma reachable_sequence: "gossip_reachable s \<Longrightarrow> gossip_reachable (s\<lparr>gs_sequence_counter := gs_sequence_counter s + 1\<rparr>)"
  by (rule gossip_reachable.step [OF _ gossip_step.next_sequence])

lemma probe_node_indirect_eq:
  "\<exists>code out. probe_node_indirect rand ok rs s target = Some (code, out,
      if select_indirect_probers rand s (me_id target) = [] then s else s\<lparr>gs_sequence_counter := gs_sequence_counter s + 1\<rparr>)
    \<and> (rs = [] \<longrightarrow> code \<noteq> 0)
    \<and> snd ` snd ` set out \<subseteq> {message_image \<lparr>gm_type = GOSSIP_MSG_PING_REQ, gm_sender_id = strncpy 63 (gc_node_id (gs_config s)),
                 gm_incarnation = gs_self_incarnation s, gm_sequence = gs_sequence_counter s, gm_updates = [me_info target]\<rparr>}"
proof -
  let ?m = "\<lparr>gm_type = GOSSIP_MSG_PING_REQ, gm_sender_id = strncpy 63 (gc_node_id (gs_config s)),
     gm_incarnation = gs_self_incarnation s, gm_sequence = gs_sequence_counter s, gm_updates = [me_info target]\<rparr>"
  obtain out where "send_all ok ?m (select_indirect_probers rand s (me_id target)) = Some out"
      "snd ` snd ` set out \<subseteq> {message_image ?m}"
    using send_all_single [of ?m ok "select_indirect_probers rand s (me_id target)"] by auto
  then show ?thesis by (simp add: probe_node_indirect_def take_sequence_def Let_def)
qed

lemma probe_round_reachable:
  assumes "gossip_reachable s"
  shows "case probe_round env s of
      None \<Rightarrow> select_probe_target (ge_rand env) s \<noteq> None \<and> 6 \<le> length (pending_updates s)
    | Some (out, s') \<Rightarrow> gossip_reachable s' \<and> (select_probe_target (ge_rand env) s = None \<or> length (pending_updates s) < 6)"
proof (cases "select_probe_target (ge_rand env) s")
  case None
  then show ?thesis using assms by (simp add: probe_round_def)
next
  case (Some target)
  define s1 where "s1 = snd (gossip_get_updates_to_broadcast (s\<lparr>gs_sequence_counter := gs_sequence_counter s + 1\<rparr>))"
  have r1: "gossip_reachable s1"
    unfolding s1_def by (rule reachable_get_updates [OF prod.collapse [symmetric] reachable_sequence [OF assms]])
  obtain code out where i: "probe_node_indirect (ge_rands env) (ge_sendto env) (ge_indirect env) s1 target = Some (code, out,
      if select_indirect_probers (ge_rands env) s1 (me_id target) = [] then s1 else s1\<lparr>gs_sequence_counter := gs_sequence_counter s1 + 1\<rparr>)"
    using probe_node_indirect_eq [of "ge_rands env" "ge_sendto env" "ge_indirect env" s1 target] by blast
  define s2 where "s2 = (if select_indirect_probers (ge_rands env) s1 (me_id target) = [] then s1
     else s1\<lparr>gs_sequence_counter := gs_sequence_counter s1 + 1\<rparr>)"
  have r2: "gossip_reachable s2" using r1 reachable_sequence [OF r1] by (simp add: s2_def)
  have "gossip_reachable (gossip_mark_node_suspected n s2 x)" "gossip_reachable (gossip_mark_node_alive n s1 x)" for n x
    by (rule gossip_reachable.step [OF r2 gossip_step.mark_suspected],
        rule gossip_reachable.step [OF r1 gossip_step.mark_alive])
  then show ?thesis
    using Some i [folded s2_def] r2
    by (auto simp: probe_round_def probe_node_direct_eq send_message_eq ping_of_def s1_def [symmetric] split: if_splits)
qed

section \<open>Properties\<close>

text \<open>
  Round trip of the gossip datagrams: a message with one to ten updates that fits the buffer is
  read back as it was written (the time stamps, which stay local, are zero); a message without
  updates is refused by the receiver, because the header it consists of has 92 bytes and the
  receiver asks for 96.
\<close>

lemma gossip_datagram_roundtrip:
  assumes "wf_cstr 64 (gm_sender_id msg)" and "list_all node_wf (gm_updates msg)" and "length (gm_updates msg) \<le> 10"
    and "512 \<le> buffer_size" and "92 + 346 * length (gm_updates msg) \<le> buffer_size"
  shows "\<exists>b. serialize_message msg buffer_size = Some b \<and> deserialize_message b
    = (if gm_updates msg = [] then None else Some (msg\<lparr>gm_updates := map (\<lambda>u. u\<lparr>gi_last_seen_ms := 0\<rparr>) (gm_updates msg)\<rparr>))"
  using serialize_message_eq [OF assms(4), of msg] deserialize_image [OF assms(3,1)] nodes_roundtrip [OF assms(2)] assms(3,5)
  by simp

definition sample_message :: gossip_message where
  "sample_message = \<lparr>gm_type = GOSSIP_MSG_PING, gm_sender_id = [97], gm_incarnation = 7, gm_sequence = 5,
     gm_updates = [sample_news 3 GOSSIP_NODE_SUSPECTED]\<rparr>"

lemma gossip_datagram_roundtrip_witness:
  "\<exists>b. serialize_message sample_message 2048 = Some b \<and> deserialize_message b = Some sample_message"
  using gossip_datagram_roundtrip [of sample_message 2048]
  by (simp add: sample_message_def sample_news_def node_wf_def wf_cstr_def)

text \<open>
  A round of the protocol thread always returns, unless it writes past the end of its message
  buffer, and that happens exactly when there is a node to probe and at least six entries still
  have transmissions left. The timeout sweep at its end never runs forever.
\<close>

lemma protocol_round_returns:
  assumes "gossip_reachable s"
  shows "gossip_protocol_round env s = None \<longleftrightarrow>
    select_probe_target (ge_rand env) s \<noteq> None
      \<and> 6 \<le> length (filter (\<lambda>e. me_transmit_count e > 0) (gs_membership s))"
proof (cases "probe_round env s")
  case None
  then show ?thesis
    using probe_round_reachable [OF assms, of env] by (simp add: gossip_protocol_round_def pending_updates_def)
next
  case (Some r)
  then obtain out s' where r: "probe_round env s = Some (out, s')" by (cases r) auto
  then have "gossip_inv s'" and no: "select_probe_target (ge_rand env) s = None \<or> length (pending_updates s) < 6"
    using probe_round_reachable [OF assms, of env] by (auto dest: gossip_reachable_inv)
  then have "gossip_check_suspicion_timeouts (ge_now env) s' \<noteq> None"
    using suspicion_sweep_ok [of s' 0] by (simp add: gossip_check_suspicion_timeouts_def)
  then show ?thesis using r no by (auto simp: gossip_protocol_round_def pending_updates_def)
qed

definition sample_env :: gossip_env where
  "sample_env = \<lparr>ge_now = 3000, ge_rand = 0, ge_rands = (\<lambda>i. 0), ge_sendto = (\<lambda>a p. True), ge_direct = [], ge_indirect = []\<rparr>"

lemma protocol_round_returns_witness: "gossip_protocol_round sample_env (sample_met [97] [98]) \<noteq> None"
proof -
  have "\<not> 6 \<le> length (filter (\<lambda>e. me_transmit_count e > 0) (gs_membership (sample_met [97] [98])))" by code_simp
  moreover have "gossip_reachable (sample_met [97] [98])" by (rule sample_met_reachable) (simp_all add: wf_cstr_def)
  ultimately show ?thesis using protocol_round_returns [of "sample_met [97] [98]" sample_env] by simp
qed

text \<open>
  The partial Fisher-Yates shuffle chooses the intermediaries of an indirect probe correctly for
  every sequence of random numbers: as many as configured or available, no one twice, all of them
  alive, none of them the probed node or the local node.
\<close>

lemma indirect_probers_distinct:
  assumes "gossip_reachable s"
  shows "let ps = select_indirect_probers rand s x in
    length ps = min (unat (gc_indirect_probes (gs_config s)))
      (length (filter (\<lambda>e. probe_candidate e \<and> me_id e \<noteq> x) (gs_membership s)))
    \<and> distinct (map me_id ps)
    \<and> list_all (\<lambda>e. me_status e = GOSSIP_NODE_ALIVE \<and> me_id e \<noteq> x \<and> me_id e \<noteq> gc_node_id (gs_config s)) ps"
proof -
  define cs where "cs = filter (\<lambda>e. probe_candidate e \<and> me_id e \<noteq> x) (gs_membership s)"
  define k where "k = min (unat (gc_indirect_probes (gs_config s))) (length cs)"
  have inv: "gossip_inv s" by (rule gossip_reachable_inv [OF assms])
  then have d: "distinct (map me_id cs)" by (auto simp: gossip_inv_def cs_def distinct_map_filter)
  have ps: "select_indirect_probers rand s x = draw rand k 0 cs"
    by (simp add: select_indirect_probers_def cs_def [symmetric] k_def min_def Let_def)
  have spec: "length (draw rand k 0 cs) = k" "distinct (draw rand k 0 cs)" "set (draw rand k 0 cs) \<subseteq> set cs"
    using draw_spec [of 0 cs k rand] d by (simp_all add: k_def distinct_map)
  moreover have "distinct (map me_id (draw rand k 0 cs))"
    using spec(2,3) d by (auto simp: distinct_map intro: inj_on_subset)
  moreover have "me_status e = GOSSIP_NODE_ALIVE \<and> me_id e \<noteq> x \<and> me_id e \<noteq> gc_node_id (gs_config s)" if "e \<in> set cs" for e
    using that inv by (auto simp: cs_def probe_candidate_def gossip_inv_def entry_ok_def list_all_iff)
  ultimately show ?thesis by (auto simp: ps cs_def [symmetric] k_def [symmetric] list_all_iff Let_def)
qed

definition sample_met_two :: gossip_state where
  "sample_met_two = gossip_update_node_from_message 1600 (sample_met [97] [98]) (sample_ping [99]) [50] 7000"

lemma indirect_probers_distinct_witness:
  "map me_id (select_indirect_probers (\<lambda>i. 5) sample_met_two [120]) \<in> {[[98], [99]], [[99], [98]]}"
proof -
  have "gossip_reachable sample_met_two"
    unfolding sample_met_two_def
    by (rule gossip_reachable.step [OF sample_met_reachable gossip_step.message]) (simp_all add: sample_ping_def wf_cstr_def)
  then have "distinct (map me_id (select_indirect_probers (\<lambda>i. 5) sample_met_two [120]))"
    using indirect_probers_distinct [of sample_met_two "\<lambda>i. 5" "[120]"] by (simp add: Let_def)
  moreover have "map me_id (select_indirect_probers (\<lambda>i. 5) sample_met_two [120]) = [[99], [98]]" by code_simp
  ultimately show ?thesis by simp
qed

text \<open>
  An idle cluster suspects its healthy nodes. When no entry has transmissions left, the ping of
  a round carries no updates, and no node whatever its state answers it; nor does any node answer
  the indirect requests. So the probed node, alive and reachable, is marked suspected.
\<close>

lemma idle_cluster_suspects_healthy_peer:
  assumes "gossip_reachable s" and "list_all (\<lambda>e. me_transmit_count e = 0) (gs_membership s)"
    and "select_probe_target (ge_rand env) s = Some target" and "ge_direct env = []" and "ge_indirect env = []"
  shows "\<exists>out s'. probe_round env s = Some (out, s')
    \<and> list_all (\<lambda>(a, p, b). \<forall>now ok t src port. gossip_receive now ok t (RecvDatagram src port b) = Some ([], t)) out
    \<and> node_view s' (me_id target) = Some (me_incarnation target, GOSSIP_NODE_SUSPECTED)"
proof -
  let ?s = "s\<lparr>gs_sequence_counter := gs_sequence_counter s + 1\<rparr>"
  have idle: "pending_updates s = []" using assms(2) by (simp add: pending_updates_def list_all_iff filter_empty_conv)
  have ping: "gm_updates (ping_of s) = []" by (simp add: ping_of_def idle)
  have w: "wf_cstr 64 (strncpy 63 y)" for y using wf_strncpy [of 63] by simp
  obtain code out where i: "probe_node_indirect (ge_rands env) (ge_sendto env) [] ?s target = Some (code, out,
      if select_indirect_probers (ge_rands env) ?s (me_id target) = [] then ?s else ?s\<lparr>gs_sequence_counter := gs_sequence_counter ?s + 1\<rparr>)"
      "code \<noteq> 0"
    and req: "snd ` snd ` set out \<subseteq> {message_image \<lparr>gm_type = GOSSIP_MSG_PING_REQ, gm_sender_id = strncpy 63 (gc_node_id (gs_config ?s)),
        gm_incarnation = gs_self_incarnation ?s, gm_sequence = gs_sequence_counter ?s, gm_updates = [me_info target]\<rparr>}"
    using probe_node_indirect_eq [of "ge_rands env" "ge_sendto env" "[]" ?s target] by blast
  define s2 where "s2 = (if select_indirect_probers (ge_rands env) ?s (me_id target) = [] then ?s
     else ?s\<lparr>gs_sequence_counter := gs_sequence_counter ?s + 1\<rparr>)"
  have inv: "gossip_inv s2" "gs_membership s2 = gs_membership s" using gossip_reachable_inv [OF assms(1)] by (simp_all add: s2_def)
  define pout where "pout = (if ge_sendto env (gi_address (me_info target)) (gi_port (me_info target))
     then [(gi_address (me_info target), gi_port (me_info target), message_image (ping_of s))] else [])"
  have round: "probe_round env s = Some (pout @ out, gossip_mark_node_suspected (ge_now env) s2 (me_id target))"
    using assms(3-5) i ping
    by (simp add: probe_round_def probe_node_direct_eq send_message_eq get_updates_idle idle pout_def s2_def)
  have quiet: "list_all (\<lambda>(a, p, b). \<forall>now ok t src port. gossip_receive now ok t (RecvDatagram src port b) = Some ([], t)) (pout @ out)"
    using req ping by (auto simp: list_all_iff pout_def ping_of_def w intro!: ignored_datagram dest!: subsetD)
  have "target \<in> set (filter probe_candidate (gs_membership s))"
    using assms(3) by (auto simp: select_probe_target_def Let_def split: if_splits simp del: set_filter intro!: nth_mem)
  then obtain k where k: "k < length (gs_membership s2)" "gs_membership s2 ! k = target" "probe_candidate target"
    by (auto simp: inv(2) in_set_conv_nth)
  then have f: "membership_find s2 (me_id target) = Some k"
    using find_entry_nth [of "gs_membership s2" k] inv(1) by (auto simp: membership_find_def gossip_inv_def)
  have "node_view (gossip_mark_node_suspected (ge_now env) s2 (me_id target)) (me_id target)
      = Some (me_incarnation target, GOSSIP_NODE_SUSPECTED)"
    using k f view_update_entry [OF inv(1) f]
    by (simp add: gossip_mark_node_suspected_def probe_candidate_def set_status_def status_defs node_view_emit Let_def)
  then show ?thesis using round quiet by blast
qed

text \<open>
  A probe is answered: when prober and probed node both have one to five entries with
  transmissions left (the latter after it has taken in the ping) and the network delivers, the
  ping is read, processed and acknowledged, and the acknowledgement ends the probe with success.
\<close>

lemma probe_answered:
  assumes "wf_cstr 64 (gc_node_id (gs_config t))" and "me_id target = gc_node_id (gs_config t)"
    and "length (pending_updates s) \<in> {1..5}"
    and "length (pending_updates (gossip_update_node_from_message now t (received_ping s) src sport)) \<in> {1..5}"
    and "ok (gi_address (me_info target)) (gi_port (me_info target))" and "ok' src sport"
  shows "\<exists>ping ack t'. gossip_receive now ok' t (RecvDatagram src sport ping) = Some ([(src, sport, ack)], t')
    \<and> (case probe_node_direct ok (RecvDatagram a p ack # rs) s target of
         None \<Rightarrow> False
       | Some (result, out, s') \<Rightarrow> result = 0 \<and> map (snd \<circ> snd) out = [ping])"
proof -
  let ?t1 = "gossip_update_node_from_message now t (received_ping s) src sport"
  have w: "wf_cstr 64 (strncpy 63 y)" for y using wf_strncpy [of 63] by simp
  have ping: "receive_message (RecvDatagram src sport (message_image (ping_of s))) = Message (received_ping s) src sport"
    using receive_image [of "ping_of s" src sport] assms(3) by (auto simp: ping_of_def received_ping_def w)
  define ack where "ack = \<lparr>gm_type = GOSSIP_MSG_ACK, gm_sender_id = strncpy 63 (gc_node_id (gs_config ?t1)),
     gm_incarnation = gs_self_incarnation ?t1, gm_sequence = gm_sequence (received_ping s),
     gm_updates = map me_info (take 10 (pending_updates ?t1))\<rparr>"
  obtain us t' where u: "gossip_get_updates_to_broadcast ?t1 = (us, t')" by (cases "gossip_get_updates_to_broadcast ?t1")
  have us: "us = map me_info (take 10 (pending_updates ?t1))" "gs_config t' = gs_config ?t1"
      "gs_self_incarnation t' = gs_self_incarnation ?t1"
    using updates_pending [of ?t1] get_updates_frame [of ?t1] u by simp_all
  have type: "gm_type (received_ping s) = GOSSIP_MSG_PING" by (simp add: received_ping_def ping_of_def)
  have rcv: "gossip_receive now ok' t (RecvDatagram src sport (message_image (ping_of s)))
      = Some ([(src, sport, message_image ack)], t')"
    using ping u us assms(4,6) type
    by (auto simp: gossip_receive_def handle_ping_def send_message_eq ack_def [symmetric] Let_def ack_def)
  have id: "strncpy 63 (gc_node_id (gs_config t)) = gc_node_id (gs_config t)" using assms(1) by (simp add: strncpy_id)
  have "receive_message (RecvDatagram a p (message_image ack))
      = Message (ack\<lparr>gm_updates := map (\<lambda>u. deserialize_node (serialize_node u)) (gm_updates ack)\<rparr>) a p"
    using receive_image [of ack a p] assms(4) w by (auto simp: ack_def)
  then have "await_ack (me_id target) (RecvDatagram a p (message_image ack) # rs)"
    using assms(2) id by (simp add: ack_def)
  then show ?thesis
    using rcv assms(3,5)
    by (intro exI [of _ "message_image (ping_of s)"] exI [of _ "message_image ack"] exI [of _ t'])
      (auto simp: probe_node_direct_eq send_message_eq ping_of_def)
qed

lemma probe_answered_witness:
  "\<exists>ping ack t'. gossip_receive 2000 (\<lambda>a p. True) (sample_met [98] [97]) (RecvDatagram [49] 7000 ping) = Some ([([49], 7000, ack)], t')
    \<and> (case probe_node_direct (\<lambda>a p. True) [RecvDatagram [50] 7000 ack] (sample_met [97] [98]) (gs_membership (sample_met [97] [98]) ! 1) of
         None \<Rightarrow> False
       | Some (result, out, s') \<Rightarrow> result = 0 \<and> map (snd \<circ> snd) out = [ping])"
proof (rule probe_answered)
  show "wf_cstr 64 (gc_node_id (gs_config (sample_met [98] [97])))" by code_simp
  show "me_id (gs_membership (sample_met [97] [98]) ! 1) = gc_node_id (gs_config (sample_met [98] [97]))" by code_simp
  have "length (pending_updates (sample_met [97] [98])) = 2" by code_simp
  then show "length (pending_updates (sample_met [97] [98])) \<in> {1..5}" by simp
  have "length (pending_updates (gossip_update_node_from_message 2000 (sample_met [98] [97])
    (received_ping (sample_met [97] [98])) [49] 7000)) = 2" by code_simp
  then show "length (pending_updates (gossip_update_node_from_message 2000 (sample_met [98] [97])
    (received_ping (sample_met [97] [98])) [49] 7000)) \<in> {1..5}" by simp
qed simp_all

definition sample_idle :: gossip_state where
  "sample_idle = (let f = \<lambda>s. snd (gossip_get_updates_to_broadcast s) in f (f (f (sample_met [97] [98]))))"

lemma idle_cluster_suspects_healthy_peer_witness:
  "\<exists>out s'. probe_round sample_env sample_idle = Some (out, s') \<and> node_view s' [98] = Some (0, GOSSIP_NODE_SUSPECTED)"
proof -
  let ?e = "gs_membership sample_idle ! 1"
  have "gossip_reachable sample_idle"
    unfolding sample_idle_def Let_def
    by (intro gossip_reachable.step [OF _ gossip_step.get_updates] sample_met_reachable) (simp_all add: wf_cstr_def)
  moreover have "list_all (\<lambda>e. me_transmit_count e = 0) (gs_membership sample_idle)" by code_simp
  moreover have "select_probe_target 0 sample_idle = Some ?e" by code_simp
  moreover have "me_id ?e = [98]" "me_incarnation ?e = 0" by code_simp+
  ultimately show ?thesis
    using idle_cluster_suspects_healthy_peer [of sample_idle sample_env ?e] by (auto simp: sample_env_def)
qed

end
