(* ===== verification/CircuitBreaker.thy ===== *)
theory CircuitBreaker
  imports Prelude
begin

unbundle bit_operations_syntax

text \<open>
  The per-host circuit breaker of \<^verbatim>\<open>distric_transport/src/circuit_breaker.c\<close>: a registry of breakers in
  an open-addressing hash table with an LRU chain through the entries. Every operation runs under
  the registry's lock and is one function; the two phases of \<^verbatim>\<open>cb_is_allowed\<close> are separate
  definitions. Times are nanoseconds of the monotonic clock.
\<close>

section \<open>Data\<close>

datatype cb_state = CB_STATE_CLOSED | CB_STATE_OPEN | CB_STATE_HALF_OPEN

definition CB_DEFAULT_FAILURE_THRESHOLD :: u32 where
  "CB_DEFAULT_FAILURE_THRESHOLD = 5"

definition CB_DEFAULT_RECOVERY_MS :: u32 where
  "CB_DEFAULT_RECOVERY_MS = 5000"

definition CB_DEFAULT_WINDOW_MS :: u32 where
  "CB_DEFAULT_WINDOW_MS = 10000"

definition CB_DEFAULT_MAX_ENTRIES :: u32 where
  "CB_DEFAULT_MAX_ENTRIES = 1024"

definition CB_MAX_RECOVERY_MS :: u32 where
  "CB_MAX_RECOVERY_MS = 60000"

definition CB_TABLE_LOAD_FACTOR :: u32 where
  "CB_TABLE_LOAD_FACTOR = 2"

record cb_entry =
  ce_host :: cstr
  ce_port :: u16
  ce_occupied :: bool
  ce_state :: cb_state
  ce_failure_count :: u32
  ce_last_failure_ns :: int
  ce_open_until_ns :: int
  ce_recovery_ms :: u32
  ce_probe_in_flight :: bool
  ce_lru_prev :: int
  ce_lru_next :: int

record cb_registry =
  cr_table :: "cb_entry list"
  cr_table_size :: u32
  cr_occupied_count :: u32
  cr_max_entries :: u32
  cr_failure_threshold :: u32
  cr_base_recovery_ms :: u32
  cr_window_ms :: u32
  cr_lru_head :: int
  cr_lru_tail :: int

record cb_config =
  cc_failure_threshold :: u32
  cc_recovery_ms :: u32
  cc_window_ms :: u32
  cc_max_entries :: u32

text \<open>Assignment through a pointer to the entry at index \<open>i\<close>.\<close>

definition with_entry :: "int \<Rightarrow> (cb_entry \<Rightarrow> cb_entry) \<Rightarrow> cb_registry \<Rightarrow> cb_registry" where
  "with_entry i f reg = reg\<lparr>cr_table := (cr_table reg)[nat i := f (cr_table reg ! nat i)]\<rparr>"

definition ms_to_ns :: "u32 \<Rightarrow> int" where
  "ms_to_ns ms = uint ms * 1000000"

section \<open>Hash table\<close>

definition entry_hash :: "cstr \<Rightarrow> u16 \<Rightarrow> u32" where
  "entry_hash host port =
     foldl (\<lambda>h p. (push_bit 5 h + h) XOR ucast p) 5381 host XOR (ucast port * 2654435761)"

definition is_key :: "cstr \<Rightarrow> u16 \<Rightarrow> cb_entry \<Rightarrow> bool" where
  "is_key host port e \<longleftrightarrow> ce_port e = port \<and> ce_host e = host"

text \<open>The slots of a probe loop: \<open>n\<close> steps of \<^verbatim>\<open>idx = (idx + 1) & mask\<close>.\<close>

fun probe_slots :: "u32 \<Rightarrow> nat \<Rightarrow> u32 \<Rightarrow> nat list" where
  "probe_slots msk 0 idx = []"
| "probe_slots msk (Suc n) idx = unat idx # probe_slots msk n ((idx + 1) AND msk)"

fun find_slot :: "cb_entry list \<Rightarrow> cstr \<Rightarrow> u16 \<Rightarrow> nat list \<Rightarrow> int" where
  "find_slot tb host port [] = - 1"
| "find_slot tb host port (i # js) =
     (if \<not> ce_occupied (tb ! i) then - 1
      else if is_key host port (tb ! i) then int i
      else find_slot tb host port js)"

definition key_slots :: "cb_registry \<Rightarrow> cstr \<Rightarrow> u16 \<Rightarrow> nat list" where
  "key_slots reg host port =
     (let msk = cr_table_size reg - 1
      in probe_slots msk (unat (cr_table_size reg)) (entry_hash host port AND msk))"

definition table_find :: "cb_registry \<Rightarrow> cstr \<Rightarrow> u16 \<Rightarrow> int" where
  "table_find reg host port = find_slot (cr_table reg) host port (key_slots reg host port)"

fun scan_insert :: "cb_entry list \<Rightarrow> cstr \<Rightarrow> u16 \<Rightarrow> int \<Rightarrow> nat list \<Rightarrow> int + int" where
  "scan_insert tb host port free [] = Inr free"
| "scan_insert tb host port free (i # js) =
     (if ce_occupied (tb ! i) \<and> is_key host port (tb ! i) then Inl (int i)
      else scan_insert tb host port (if \<not> ce_occupied (tb ! i) \<and> free < 0 then int i else free) js)"

definition fresh_entry :: "u32 \<Rightarrow> cstr \<Rightarrow> u16 \<Rightarrow> cb_entry" where
  "fresh_entry recovery_ms host port =
     \<lparr>ce_host = strncpy 255 host, ce_port = port, ce_occupied = True, ce_state = CB_STATE_CLOSED,
      ce_failure_count = 0, ce_last_failure_ns = 0, ce_open_until_ns = 0, ce_recovery_ms = recovery_ms,
      ce_probe_in_flight = False, ce_lru_prev = - 1, ce_lru_next = - 1\<rparr>"

definition evict_tail :: "cb_registry \<Rightarrow> cstr \<Rightarrow> u16 \<Rightarrow> int \<times> cb_registry" where
  "evict_tail reg host port =
     (if cr_lru_tail reg < 0 then (- 1, reg)
      else
        let evict_idx = cr_lru_tail reg;
            prev = ce_lru_prev (cr_table reg ! nat evict_idx);
            reg = (if prev \<ge> 0 then with_entry prev (\<lambda>e. e\<lparr>ce_lru_next := - 1\<rparr>) reg else reg\<lparr>cr_lru_head := - 1\<rparr>);
            reg = reg\<lparr>cr_lru_tail := prev\<rparr>
        in (evict_idx, with_entry evict_idx (\<lambda>e. fresh_entry (cr_base_recovery_ms reg) host port) reg))"

definition table_find_or_insert :: "cb_registry \<Rightarrow> cstr \<Rightarrow> u16 \<Rightarrow> int \<times> cb_registry" where
  "table_find_or_insert reg host port =
     (case scan_insert (cr_table reg) host port (- 1) (key_slots reg host port) of
        Inl idx \<Rightarrow> (idx, reg)
      | Inr empty_slot \<Rightarrow>
          if empty_slot \<ge> 0 \<and> cr_occupied_count reg < cr_max_entries reg then
            (empty_slot, (with_entry empty_slot (\<lambda>e. fresh_entry (cr_base_recovery_ms reg) host port) reg)
                           \<lparr>cr_occupied_count := cr_occupied_count reg + 1\<rparr>)
          else evict_tail reg host port)"

definition lru_touch :: "cb_registry \<Rightarrow> int \<Rightarrow> cb_registry" where
  "lru_touch reg idx =
     (if idx < 0 then reg
      else
        let prev = ce_lru_prev (cr_table reg ! nat idx); nxt = ce_lru_next (cr_table reg ! nat idx);
            reg = (if prev \<ge> 0 then with_entry prev (\<lambda>e. e\<lparr>ce_lru_next := nxt\<rparr>) reg else reg\<lparr>cr_lru_head := nxt\<rparr>);
            reg = (if nxt \<ge> 0 then with_entry nxt (\<lambda>e. e\<lparr>ce_lru_prev := prev\<rparr>) reg else reg\<lparr>cr_lru_tail := prev\<rparr>);
            hd = cr_lru_head reg;
            reg = with_entry idx (\<lambda>e. e\<lparr>ce_lru_prev := - 1, ce_lru_next := hd\<rparr>) reg;
            reg = (if hd \<ge> 0 then with_entry hd (\<lambda>e. e\<lparr>ce_lru_prev := idx\<rparr>) reg else reg);
            reg = reg\<lparr>cr_lru_head := idx\<rparr>
        in if cr_lru_tail reg < 0 then reg\<lparr>cr_lru_tail := idx\<rparr> else reg)"

section \<open>Creation\<close>

text \<open>\<^verbatim>\<open>while (sz < target) sz <<= 1\<close>: the shift can drop the only bit, after which the loop never ends.\<close>

partial_function (option) grow_size :: "u32 \<Rightarrow> u32 \<Rightarrow> u32 option" where
  "grow_size target sz = (if sz < target then grow_size target (push_bit 1 sz) else Some sz)"

definition empty_entry :: cb_entry where
  "empty_entry = \<lparr>ce_host = [], ce_port = 0, ce_occupied = False, ce_state = CB_STATE_CLOSED,
      ce_failure_count = 0, ce_last_failure_ns = 0, ce_open_until_ns = 0, ce_recovery_ms = 0,
      ce_probe_in_flight = False, ce_lru_prev = - 1, ce_lru_next = - 1\<rparr>"

definition config_or_default :: "cb_config option \<Rightarrow> (cb_config \<Rightarrow> u32) \<Rightarrow> u32 \<Rightarrow> u32" where
  "config_or_default cfg sel d = (case cfg of None \<Rightarrow> d | Some c \<Rightarrow> if sel c \<noteq> 0 then sel c else d)"

definition cb_registry_create :: "cb_config option \<Rightarrow> cb_registry option" where
  "cb_registry_create cfg =
     (let max_entries = config_or_default cfg cc_max_entries CB_DEFAULT_MAX_ENTRIES
      in case grow_size (max_entries * CB_TABLE_LOAD_FACTOR) 1 of
           None \<Rightarrow> None
         | Some sz \<Rightarrow> Some
             \<lparr>cr_table = replicate (unat sz) empty_entry, cr_table_size = sz, cr_occupied_count = 0,
              cr_max_entries = max_entries,
              cr_failure_threshold = config_or_default cfg cc_failure_threshold CB_DEFAULT_FAILURE_THRESHOLD,
              cr_base_recovery_ms = config_or_default cfg cc_recovery_ms CB_DEFAULT_RECOVERY_MS,
              cr_window_ms = config_or_default cfg cc_window_ms CB_DEFAULT_WINDOW_MS,
              cr_lru_head = - 1, cr_lru_tail = - 1\<rparr>)"

section \<open>Operations\<close>

text \<open>The phase under the read lock: \<open>None\<close> when the write lock is needed.\<close>

definition allowed_fast :: "cb_registry \<Rightarrow> cstr \<Rightarrow> u16 \<Rightarrow> bool option" where
  "allowed_fast reg host port =
     (let idx = table_find reg host port
      in if idx < 0 then Some True
         else if ce_state (cr_table reg ! nat idx) = CB_STATE_CLOSED then Some True
         else None)"

definition allowed_slow :: "int \<Rightarrow> cb_registry \<Rightarrow> cstr \<Rightarrow> u16 \<Rightarrow> bool \<times> cb_registry" where
  "allowed_slow now reg host port =
     (let idx = table_find reg host port
      in if idx < 0 then (True, reg)
         else
           let e = cr_table reg ! nat idx
           in case ce_state e of
                CB_STATE_CLOSED \<Rightarrow> (True, lru_touch reg idx)
              | CB_STATE_OPEN \<Rightarrow>
                  if now \<ge> ce_open_until_ns e \<and> \<not> ce_probe_in_flight e then
                    (True, lru_touch (with_entry idx (\<lambda>e. e\<lparr>ce_state := CB_STATE_HALF_OPEN, ce_probe_in_flight := True\<rparr>) reg) idx)
                  else (False, reg)
              | CB_STATE_HALF_OPEN \<Rightarrow> if ce_probe_in_flight e then (False, reg) else (True, reg))"

definition cb_is_allowed :: "int \<Rightarrow> cb_registry \<Rightarrow> cstr \<Rightarrow> u16 \<Rightarrow> bool \<times> cb_registry" where
  "cb_is_allowed now reg host port =
     (case allowed_fast reg host port of Some b \<Rightarrow> (b, reg) | None \<Rightarrow> allowed_slow now reg host port)"

definition cb_record_success :: "cb_registry \<Rightarrow> cstr \<Rightarrow> u16 \<Rightarrow> cb_registry" where
  "cb_record_success reg host port =
     (let idx = table_find reg host port
      in if idx < 0 then reg
         else lru_touch (with_entry idx (\<lambda>e. e\<lparr>ce_failure_count := 0, ce_state := CB_STATE_CLOSED,
                ce_probe_in_flight := False, ce_recovery_ms := cr_base_recovery_ms reg\<rparr>) reg) idx)"

text \<open>What a failure does to its entry.\<close>

definition fail_breaker :: "int \<Rightarrow> cb_registry \<Rightarrow> cb_entry \<Rightarrow> cb_entry" where
  "fail_breaker now reg e =
     (let st = ce_state e;
          e = (if now - ce_last_failure_ns e > ms_to_ns (cr_window_ms reg) then e\<lparr>ce_failure_count := 0\<rparr> else e);
          e = e\<lparr>ce_last_failure_ns := now\<rparr>;
          failures = ce_failure_count e + 1;
          e = e\<lparr>ce_failure_count := failures\<rparr>
      in if st = CB_STATE_HALF_OPEN \<or> failures \<ge> cr_failure_threshold reg then
           (let recovery = ce_recovery_ms e * 2
            in e\<lparr>ce_open_until_ns := now + ms_to_ns (ce_recovery_ms e), ce_probe_in_flight := False,
                 ce_state := CB_STATE_OPEN, ce_failure_count := 0,
                 ce_recovery_ms := (if recovery < CB_MAX_RECOVERY_MS then recovery else CB_MAX_RECOVERY_MS)\<rparr>)
         else e)"

definition cb_record_failure :: "int \<Rightarrow> cb_registry \<Rightarrow> cstr \<Rightarrow> u16 \<Rightarrow> cb_registry" where
  "cb_record_failure now reg host port =
     (case table_find_or_insert reg host port of
        (idx, reg) \<Rightarrow>
          if idx < 0 then reg
          else lru_touch (with_entry idx (fail_breaker now reg) reg) idx)"

definition cb_get_state :: "cb_registry \<Rightarrow> cstr \<Rightarrow> u16 \<Rightarrow> cb_state" where
  "cb_get_state reg host port =
     (let idx = table_find reg host port
      in if idx < 0 then CB_STATE_CLOSED else ce_state (cr_table reg ! nat idx))"

section \<open>Probing\<close>

lemma unat_exp_u32: "k < 32 \<Longrightarrow> unat (2 ^ k :: u32) = 2 ^ k"
proof -
  assume "k < 32"
  then have "(2 :: nat) ^ k < 2 ^ 32" by (intro power_strict_increasing) simp_all
  then have "unat (of_nat (2 ^ k) :: u32) = 2 ^ k" by (subst unat_of_nat) simp
  then show ?thesis by simp
qed

lemma probe_slots_mod:
  assumes "k < 32" and "unat idx < 2 ^ k"
  shows "probe_slots (2 ^ k - 1) n idx = map (\<lambda>j. (unat idx + j) mod 2 ^ k) [0..<n]"
  using assms(2)
proof (induction n arbitrary: idx)
  case (Suc n)
  have "(2 :: nat) ^ k \<le> 2 ^ 31" using assms(1) by (intro power_increasing) simp_all
  then have "unat (idx + 1) = Suc (unat idx)"
    using Suc.prems by (intro unat_Suc_u32) simp
  then have "unat ((idx + 1) AND (2 ^ k - 1)) = Suc (unat idx) mod 2 ^ k"
    using unat_and_mask [OF assms(1), of "idx + 1"] by simp
  then have "probe_slots (2 ^ k - 1) n ((idx + 1) AND (2 ^ k - 1)) = map (\<lambda>j. (unat idx + Suc j) mod 2 ^ k) [0..<n]"
    using Suc.IH [of "(idx + 1) AND (2 ^ k - 1)"] by (simp add: mod_add_left_eq)
  then show ?case
    using Suc.prems by (simp add: upt_conv_Cons map_Suc_upt [symmetric] comp_def del: upt_Suc)
qed simp

definition size_ok :: "cb_registry \<Rightarrow> bool" where
  "size_ok reg \<longleftrightarrow> (\<exists>k<32. cr_table_size reg = 2 ^ k) \<and> length (cr_table reg) = unat (cr_table_size reg)"

lemma key_slots_props:
  assumes "size_ok reg"
  shows "distinct (key_slots reg host port)" and "set (key_slots reg host port) = {..<length (cr_table reg)}"
proof -
  obtain k where k: "k < 32" "cr_table_size reg = 2 ^ k" "length (cr_table reg) = unat (2 ^ k :: u32)"
    using assms by (auto simp: size_ok_def)
  have n: "unat (2 ^ k :: u32) = 2 ^ k" using k(1) by (rule unat_exp_u32)
  let ?h = "entry_hash host port AND (2 ^ k - 1)"
  have "unat ?h < 2 ^ k" using unat_and_mask [OF k(1)] by simp
  then have "key_slots reg host port = map (\<lambda>j. (unat ?h + j) mod 2 ^ k) [0..<2 ^ k]"
    using probe_slots_mod [OF k(1)] by (simp add: key_slots_def k(2) n)
  then show "distinct (key_slots reg host port)" "set (key_slots reg host port) = {..<length (cr_table reg)}"
    using mod_probe [of "2 ^ k" "unat ?h"] k(3) n by simp_all
qed

definition slot_of :: "cb_registry \<Rightarrow> cstr \<Rightarrow> u16 \<Rightarrow> nat \<Rightarrow> bool" where
  "slot_of reg host port i \<longleftrightarrow> i < length (cr_table reg) \<and> ce_occupied (cr_table reg ! i) \<and> is_key host port (cr_table reg ! i)"

lemma find_slot_absent:
  "\<forall>i \<in> set js. \<not> (ce_occupied (tb ! i) \<and> is_key host port (tb ! i)) \<Longrightarrow> find_slot tb host port js = - 1"
  by (induction js) auto

lemma find_slot_hit:
  "\<forall>i \<in> set xs. ce_occupied (tb ! i) \<and> \<not> is_key host port (tb ! i) \<Longrightarrow> ce_occupied (tb ! i) \<Longrightarrow> is_key host port (tb ! i)
     \<Longrightarrow> find_slot tb host port (xs @ i # ys) = int i"
  by (induction xs) auto

lemma scan_insert_hit:
  "i \<in> set js \<Longrightarrow> ce_occupied (tb ! i) \<Longrightarrow> is_key host port (tb ! i)
     \<Longrightarrow> \<forall>j \<in> set js. j \<noteq> i \<longrightarrow> \<not> (ce_occupied (tb ! j) \<and> is_key host port (tb ! j))
     \<Longrightarrow> scan_insert tb host port f js = Inl (int i)"
proof (induction js arbitrary: f)
  case (Cons j js)
  then show ?case by (cases "j = i") simp_all
qed simp

lemma scan_insert_taken:
  "\<forall>i \<in> set js. \<not> (ce_occupied (tb ! i) \<and> is_key host port (tb ! i)) \<Longrightarrow> 0 \<le> f
     \<Longrightarrow> scan_insert tb host port f js = Inr f"
  by (induction js arbitrary: f) auto

lemma scan_insert_free:
  assumes "\<forall>i \<in> set js. \<not> (ce_occupied (tb ! i) \<and> is_key host port (tb ! i))" and "q \<in> set js" and "\<not> ce_occupied (tb ! q)"
  shows "\<exists>xs i ys. js = xs @ i # ys \<and> (\<forall>x \<in> set xs. ce_occupied (tb ! x)) \<and> \<not> ce_occupied (tb ! i)
    \<and> scan_insert tb host port (- 1) js = Inr (int i)"
  using assms
proof (induction js)
  case (Cons j js)
  show ?case
  proof (cases "ce_occupied (tb ! j)")
    case False
    then have "scan_insert tb host port (- 1) (j # js) = Inr (int j)"
      using scan_insert_taken [of js tb host port "int j"] Cons.prems(1) by simp
    then show ?thesis using False by (intro exI [of _ "[]"] exI [of _ j] exI [of _ js]) simp
  next
    case True
    then obtain xs i ys where "js = xs @ i # ys" "\<forall>x \<in> set xs. ce_occupied (tb ! x)" "\<not> ce_occupied (tb ! i)"
        "scan_insert tb host port (- 1) js = Inr (int i)"
      using Cons by fastforce
    then show ?thesis using True Cons.prems(1) by (intro exI [of _ "j # xs"] exI [of _ i] exI [of _ ys]) simp
  qed
qed simp

section \<open>Invariant\<close>

text \<open>
  Hash table: keys are unique, and from the hash of a key to its slot all slots are occupied. LRU
  chain: no entry is ever linked, and both ends point to the entry that was touched last.
\<close>

definition chain_ok :: "cb_registry \<Rightarrow> bool" where
  "chain_ok reg \<longleftrightarrow> (\<forall>host port i xs ys. slot_of reg host port i \<longrightarrow> key_slots reg host port = xs @ i # ys
     \<longrightarrow> (\<forall>x \<in> set xs. ce_occupied (cr_table reg ! x)))"

definition keys_ok :: "cb_registry \<Rightarrow> bool" where
  "keys_ok reg \<longleftrightarrow> (\<forall>host port i j. slot_of reg host port i \<longrightarrow> slot_of reg host port j \<longrightarrow> i = j)"

definition count_ok :: "cb_registry \<Rightarrow> bool" where
  "count_ok reg \<longleftrightarrow> card {i. i < length (cr_table reg) \<and> ce_occupied (cr_table reg ! i)} = unat (cr_occupied_count reg)
     \<and> cr_occupied_count reg \<le> cr_max_entries reg \<and> unat (cr_max_entries reg) < length (cr_table reg)"

definition unlinked :: "cb_registry \<Rightarrow> bool" where
  "unlinked reg \<longleftrightarrow> list_all (\<lambda>e. ce_lru_prev e = - 1 \<and> ce_lru_next e = - 1) (cr_table reg)
     \<and> cr_lru_head reg = cr_lru_tail reg \<and> cr_lru_tail reg < int (length (cr_table reg))"

definition reg_ok :: "cb_registry \<Rightarrow> bool" where
  "reg_ok reg \<longleftrightarrow> size_ok reg \<and> chain_ok reg \<and> keys_ok reg \<and> count_ok reg \<and> unlinked reg"

lemma with_entry_simps [simp]:
  "cr_table (with_entry i f reg) = (cr_table reg)[nat i := f (cr_table reg ! nat i)]"
  "cr_table_size (with_entry i f reg) = cr_table_size reg"
  "cr_occupied_count (with_entry i f reg) = cr_occupied_count reg"
  "cr_max_entries (with_entry i f reg) = cr_max_entries reg"
  "cr_failure_threshold (with_entry i f reg) = cr_failure_threshold reg"
  "cr_base_recovery_ms (with_entry i f reg) = cr_base_recovery_ms reg"
  "cr_window_ms (with_entry i f reg) = cr_window_ms reg"
  "cr_lru_head (with_entry i f reg) = cr_lru_head reg"
  "cr_lru_tail (with_entry i f reg) = cr_lru_tail reg"
  by (simp_all add: with_entry_def)

lemma lru_touch_unlinked:
  assumes "unlinked reg" and "0 \<le> i" and "nat i < length (cr_table reg)"
  shows "lru_touch reg i = reg\<lparr>cr_lru_head := i, cr_lru_tail := i\<rparr>"
proof -
  let ?e = "cr_table reg ! nat i"
  have l: "ce_lru_prev ?e = - 1" "ce_lru_next ?e = - 1" using assms by (auto simp: unlinked_def list_all_length)
  then have "?e\<lparr>ce_lru_prev := - 1, ce_lru_next := - 1\<rparr> = ?e" by simp
  then have "(cr_table reg)[nat i := ?e\<lparr>ce_lru_prev := - 1, ce_lru_next := - 1\<rparr>] = cr_table reg" by simp
  then show ?thesis using l assms(2) by (simp add: lru_touch_def with_entry_def Let_def)
qed

lemma reg_ok_keys: "reg_ok reg \<Longrightarrow> slot_of reg host port i \<Longrightarrow> slot_of reg host port j \<Longrightarrow> i = j"
  by (auto simp: reg_ok_def keys_ok_def)

lemma reg_ok_chain:
  "reg_ok reg \<Longrightarrow> slot_of reg host port i \<Longrightarrow> key_slots reg host port = xs @ i # ys \<Longrightarrow> x \<in> set xs
     \<Longrightarrow> ce_occupied (cr_table reg ! x)"
  unfolding reg_ok_def chain_ok_def by blast

lemma reg_ok_slots: "reg_ok reg \<Longrightarrow> set (key_slots reg host port) = {..<length (cr_table reg)}"
  using key_slots_props(2) by (simp add: reg_ok_def)

lemma reg_ok_probed: "reg_ok reg \<Longrightarrow> key_slots reg host port = xs @ i # ys \<Longrightarrow> x \<in> set xs \<Longrightarrow> x < length (cr_table reg)"
  using reg_ok_slots [of reg host port] by auto

lemma slot_ofD:
  "slot_of reg host port i \<Longrightarrow> i < length (cr_table reg)" "slot_of reg host port i \<Longrightarrow> ce_occupied (cr_table reg ! i)"
  "slot_of reg host port i \<Longrightarrow> is_key host port (cr_table reg ! i)"
  by (simp_all add: slot_of_def)

lemma table_find_hit:
  assumes "reg_ok reg" and "slot_of reg host port i"
  shows "table_find reg host port = int i"
proof -
  have "i \<in> set (key_slots reg host port)" using slot_ofD(1) [OF assms(2)] reg_ok_slots [OF assms(1)] by simp
  then obtain xs ys where s: "key_slots reg host port = xs @ i # ys" "i \<notin> set xs" by (metis split_list_first)
  have "ce_occupied (cr_table reg ! x) \<and> \<not> is_key host port (cr_table reg ! x)" if "x \<in> set xs" for x
  proof -
    have "ce_occupied (cr_table reg ! x)" by (rule reg_ok_chain [OF assms s(1) that])
    moreover have "\<not> slot_of reg host port x" using reg_ok_keys [OF assms] s(2) that by blast
    ultimately show ?thesis using reg_ok_probed [OF assms(1) s(1) that] by (simp add: slot_of_def)
  qed
  then show ?thesis
    using find_slot_hit [of xs "cr_table reg" host port i ys] slot_ofD [OF assms(2)] by (simp add: table_find_def s(1))
qed

lemma table_find_miss:
  assumes "size_ok reg" and "\<forall>i. \<not> slot_of reg host port i"
  shows "table_find reg host port = - 1"
  unfolding table_find_def
  by (rule find_slot_absent) (use assms key_slots_props(2) [OF assms(1), of host port] in \<open>simp add: slot_of_def\<close>)

lemma table_find_cases:
  assumes "reg_ok reg"
  obtains (hit) i where "slot_of reg host port i" and "table_find reg host port = int i"
  | (miss) "\<forall>i. \<not> slot_of reg host port i" and "table_find reg host port = - 1"
  using table_find_hit [OF assms] table_find_miss assms unfolding reg_ok_def by blast

section \<open>The registry as a map from hosts to breakers\<close>

definition breaker :: "cb_registry \<Rightarrow> cstr \<Rightarrow> u16 \<Rightarrow> cb_entry option" where
  "breaker reg host port = (let idx = table_find reg host port in if idx < 0 then None else Some (cr_table reg ! nat idx))"

lemma breaker_hit: "reg_ok reg \<Longrightarrow> slot_of reg host port i \<Longrightarrow> breaker reg host port = Some (cr_table reg ! i)"
  by (simp add: breaker_def table_find_hit)

lemma breaker_miss: "reg_ok reg \<Longrightarrow> \<forall>i. \<not> slot_of reg host port i \<Longrightarrow> breaker reg host port = None"
  using table_find_miss by (simp add: breaker_def reg_ok_def)

lemma breaker_cases:
  assumes "reg_ok reg"
  obtains (present) i where "slot_of reg host port i" and "breaker reg host port = Some (cr_table reg ! i)"
      and "table_find reg host port = int i"
  | (unknown) "\<forall>i. \<not> slot_of reg host port i" and "breaker reg host port = None" and "table_find reg host port = - 1"
proof (cases rule: table_find_cases [OF assms, of host port])
  case (1 i)
  then show thesis by (intro present [of i] breaker_hit [OF assms])
next
  case 2
  then show thesis by (intro unknown breaker_miss [OF assms])
qed

lemma key_slots_cong: "cr_table_size reg = cr_table_size reg' \<Longrightarrow> key_slots reg = key_slots reg'"
  by (intro ext) (simp add: key_slots_def)

lemma slot_of_cong: "cr_table reg = cr_table reg' \<Longrightarrow> slot_of reg = slot_of reg'"
  by (intro ext) (simp add: slot_of_def)

lemma reg_ok_touch:
  assumes "reg_ok reg" and "i < length (cr_table reg)"
  shows "reg_ok (reg\<lparr>cr_lru_head := int i, cr_lru_tail := int i\<rparr>)" (is "reg_ok ?r")
    and "breaker (reg\<lparr>cr_lru_head := int i, cr_lru_tail := int i\<rparr>) = breaker reg"
proof -
  have k: "key_slots ?r = key_slots reg" "slot_of ?r = slot_of reg"
    by (rule key_slots_cong, simp, rule slot_of_cong, simp)
  have "chain_ok ?r" "keys_ok ?r" using assms(1) unfolding reg_ok_def chain_ok_def keys_ok_def k by simp_all
  moreover have "size_ok ?r" using assms(1) by (simp add: reg_ok_def size_ok_def)
  moreover have "count_ok ?r" using assms(1) by (simp add: reg_ok_def count_ok_def)
  moreover have "unlinked ?r" using assms by (simp add: reg_ok_def unlinked_def)
  ultimately show "reg_ok ?r" by (simp add: reg_ok_def)
  show "breaker ?r = breaker reg" by (intro ext) (simp add: breaker_def table_find_def k Let_def)
qed

definition keeps_key :: "(cb_entry \<Rightarrow> cb_entry) \<Rightarrow> bool" where
  "keeps_key f \<longleftrightarrow> (\<forall>e. ce_host (f e) = ce_host e \<and> ce_port (f e) = ce_port e \<and> ce_occupied (f e) = ce_occupied e
     \<and> ce_lru_prev (f e) = ce_lru_prev e \<and> ce_lru_next (f e) = ce_lru_next e)"

lemma keeps_key_nth:
  assumes "keeps_key f" and "j < length tb"
  shows "ce_occupied (tb[i := f (tb ! i)] ! j) = ce_occupied (tb ! j)"
    "is_key h p (tb[i := f (tb ! i)] ! j) = is_key h p (tb ! j)"
    "ce_lru_prev (tb[i := f (tb ! i)] ! j) = ce_lru_prev (tb ! j)"
    "ce_lru_next (tb[i := f (tb ! i)] ! j) = ce_lru_next (tb ! j)"
  using assms by (cases "i = j"; simp add: keeps_key_def is_key_def)+

lemma slot_of_modify:
  assumes "keeps_key f"
  shows "slot_of (with_entry i f reg) = slot_of reg"
proof (intro ext)
  fix h p j
  show "slot_of (with_entry i f reg) h p j = slot_of reg h p j"
    using keeps_key_nth(1,2) [OF assms, of j "cr_table reg"] by (cases "j < length (cr_table reg)") (simp_all add: slot_of_def)
qed

lemma reg_ok_modify:
  assumes "reg_ok reg" and "keeps_key f"
  shows "reg_ok (with_entry i f reg)"
proof -
  let ?r = "with_entry i f reg" and ?t = "cr_table reg"
  have k: "key_slots ?r = key_slots reg" by (rule key_slots_cong) simp
  note s = slot_of_modify [OF assms(2), of i reg]
  have e: "ce_occupied (cr_table ?r ! j) = ce_occupied (?t ! j)"
    "ce_lru_prev (cr_table ?r ! j) = ce_lru_prev (?t ! j)" "ce_lru_next (cr_table ?r ! j) = ce_lru_next (?t ! j)"
    if "j < length ?t" for j
    using keeps_key_nth(1,3,4) [OF assms(2) that] by simp_all
  have "chain_ok ?r"
    unfolding chain_ok_def s k
  proof (intro allI impI ballI)
    fix h p j xs ys x assume h: "slot_of reg h p j" "key_slots reg h p = xs @ j # ys" "x \<in> set xs"
    show "ce_occupied (cr_table ?r ! x)"
      unfolding e(1) [OF reg_ok_probed [OF assms(1) h(2,3)]] by (rule reg_ok_chain [OF assms(1) h])
  qed
  moreover have "keys_ok ?r" unfolding keys_ok_def s using reg_ok_keys [OF assms(1)] by blast
  moreover have "{j. j < length ?t \<and> ce_occupied (cr_table ?r ! j)} = {j. j < length ?t \<and> ce_occupied (?t ! j)}"
    using e(1) by blast
  then have "count_ok ?r" using assms(1) by (simp add: reg_ok_def count_ok_def)
  moreover have "unlinked ?r"
    using assms(1) e(2,3) unfolding reg_ok_def unlinked_def list_all_length by simp
  moreover have "size_ok ?r" using assms(1) by (simp add: reg_ok_def size_ok_def)
  ultimately show ?thesis by (simp add: reg_ok_def)
qed

lemma breaker_modify:
  assumes "reg_ok reg" and "keeps_key f" and "slot_of reg host port i"
  shows "breaker (with_entry (int i) f reg) h p
    = (if (h, p) = (host, port) then Some (f (cr_table reg ! i)) else breaker reg h p)"
proof -
  let ?r = "with_entry (int i) f reg"
  note ok = reg_ok_modify [OF assms(1,2), of "int i"] and s = slot_of_modify [OF assms(2), of "int i" reg]
  have own: "slot_of reg h p i \<Longrightarrow> (h, p) = (host, port)"
    using slot_ofD(3) [OF assms(3)] slot_ofD(3) [of reg h p i] by (simp add: is_key_def)
  show ?thesis
  proof (cases rule: breaker_cases [OF assms(1), of h p])
    case (1 j)
    have "breaker ?r h p = Some (cr_table ?r ! j)" by (rule breaker_hit [OF ok]) (simp add: s 1(1))
    moreover have "j = i \<longleftrightarrow> (h, p) = (host, port)" using own 1(1) reg_ok_keys [OF assms(1) _ assms(3)] by blast
    ultimately show ?thesis using 1(2) slot_ofD(1) [OF assms(3)] by (auto simp: nth_list_update)
  next
    case 2
    then have "breaker ?r h p = None" using breaker_miss [OF ok] s by simp
    moreover have "(h, p) \<noteq> (host, port)" using 2(1) assms(3) by auto
    ultimately show ?thesis using 2 by simp
  qed
qed

lemma find_or_insert_hit:
  assumes "reg_ok reg" and "slot_of reg host port i"
  shows "table_find_or_insert reg host port = (int i, reg)"
proof -
  have "scan_insert (cr_table reg) host port (- 1) (key_slots reg host port) = Inl (int i)"
  proof (rule scan_insert_hit)
    show "i \<in> set (key_slots reg host port)" using slot_ofD(1) [OF assms(2)] reg_ok_slots [OF assms(1)] by simp
    show "\<forall>j\<in>set (key_slots reg host port). j \<noteq> i \<longrightarrow> \<not> (ce_occupied (cr_table reg ! j) \<and> is_key host port (cr_table reg ! j))"
      using reg_ok_keys [OF assms(1) _ assms(2)] reg_ok_slots [OF assms(1)] by (auto simp: slot_of_def)
  qed (use slot_ofD [OF assms(2)] in simp_all)
  then show ?thesis by (simp add: table_find_or_insert_def)
qed

lemma free_slot:
  assumes "reg_ok reg"
  obtains q where "q < length (cr_table reg)" and "\<not> ce_occupied (cr_table reg ! q)"
proof -
  let ?O = "{i. i < length (cr_table reg) \<and> ce_occupied (cr_table reg ! i)}"
  have "card ?O < card {..<length (cr_table reg)}"
    using assms by (simp add: reg_ok_def count_ok_def word_le_nat_alt)
  moreover have "finite ?O" by simp
  ultimately have "\<not> {..<length (cr_table reg)} \<subseteq> ?O" using card_mono [of ?O "{..<length (cr_table reg)}"] by linarith
  then show thesis using that by blast
qed

lemma scan_new:
  assumes "reg_ok reg" and "\<forall>i. \<not> slot_of reg host port i"
  obtains xs i ys where "key_slots reg host port = xs @ i # ys" and "\<forall>x \<in> set xs. ce_occupied (cr_table reg ! x)"
    and "i < length (cr_table reg)" and "\<not> ce_occupied (cr_table reg ! i)"
    and "scan_insert (cr_table reg) host port (- 1) (key_slots reg host port) = Inr (int i)"
proof -
  note ks = reg_ok_slots [OF assms(1), of host port]
  obtain q where q: "q \<in> set (key_slots reg host port)" "\<not> ce_occupied (cr_table reg ! q)"
    using free_slot [OF assms(1)] ks by blast
  have "\<forall>i \<in> set (key_slots reg host port). \<not> (ce_occupied (cr_table reg ! i) \<and> is_key host port (cr_table reg ! i))"
    using assms(2) ks by (simp add: slot_of_def)
  then obtain xs i ys where s: "key_slots reg host port = xs @ i # ys" "\<forall>x \<in> set xs. ce_occupied (cr_table reg ! x)"
      "\<not> ce_occupied (cr_table reg ! i)" "scan_insert (cr_table reg) host port (- 1) (key_slots reg host port) = Inr (int i)"
    using scan_insert_free [OF _ q] by blast
  have "i \<in> {..<length (cr_table reg)}" using ks s(1) by (metis in_set_conv_decomp)
  then show thesis using that s by simp
qed

text \<open>Insertion into a free slot that the probe of the new key reaches over occupied slots only.\<close>

lemma reg_ok_insert:
  assumes ok: "reg_ok reg" and new: "\<forall>i. \<not> slot_of reg host port i" and wf: "wf_cstr 256 host"
    and ks: "key_slots reg host port = xs @ i # ys" "\<forall>x \<in> set xs. ce_occupied (cr_table reg ! x)"
    and i: "i < length (cr_table reg)" "\<not> ce_occupied (cr_table reg ! i)"
    and room: "cr_occupied_count reg < cr_max_entries reg"
  defines "e \<equiv> fresh_entry (cr_base_recovery_ms reg) host port"
  defines "r \<equiv> (with_entry (int i) (\<lambda>_. e) reg)\<lparr>cr_occupied_count := cr_occupied_count reg + 1\<rparr>"
  shows "reg_ok r" and "breaker r h p = (if (h, p) = (host, port) then Some e else breaker reg h p)"
    and "slot_of r host port i"
proof -
  have host: "strncpy 255 host = host" using strncpy_id [of 255] wf by simp
  have k: "key_slots r = key_slots reg" by (rule key_slots_cong) (simp add: r_def)
  have t: "cr_table r = (cr_table reg)[i := e]" by (simp add: r_def)
  have s: "slot_of r h p j \<longleftrightarrow> (if j = i then (h, p) = (host, port) else slot_of reg h p j)" for h p j
    using i by (auto simp: slot_of_def t e_def fresh_entry_def is_key_def host)
  then show own: "slot_of r host port i" by simp
  have occ: "ce_occupied (cr_table r ! x)" if "x < length (cr_table reg)" "ce_occupied (cr_table reg ! x)" for x
    using that by (cases "x = i") (simp_all add: t i)
  have "chain_ok r"
    unfolding chain_ok_def k
  proof (intro allI impI ballI)
    fix h p j us vs x assume j: "slot_of r h p j" "key_slots reg h p = us @ j # vs" "x \<in> set us"
    have x: "x < length (cr_table reg)" by (rule reg_ok_probed [OF ok j(2,3)])
    have "ce_occupied (cr_table reg ! x)"
    proof (cases "j = i")
      case True
      then have hp: "h = host" "p = port" using j(1) s by simp_all
      have "distinct (key_slots reg host port)" using key_slots_props(1) ok by (simp add: reg_ok_def)
      then have "distinct (xs @ i # ys)" "distinct (us @ i # vs)" using ks(1) j(2) hp True by metis+
      then have "i \<notin> set us" "i \<notin> set vs" by simp_all
      moreover have "us @ i # vs = xs @ i # ys" using ks(1) j(2) hp True by simp
      ultimately have "us = xs" using append_Cons_eq_iff [of i us vs xs ys] by simp
      then show ?thesis using ks(2) j(3) by simp
    next
      case False
      then show ?thesis using reg_ok_chain [OF ok _ j(2,3)] j(1) s by simp
    qed
    then show "ce_occupied (cr_table r ! x)" by (rule occ [OF x])
  qed
  moreover have "keys_ok r" unfolding keys_ok_def s using reg_ok_keys [OF ok] new by (auto split: if_splits)
  moreover have "count_ok r"
  proof -
    have "{j. j < length (cr_table r) \<and> ce_occupied (cr_table r ! j)}
        = insert i {j. j < length (cr_table reg) \<and> ce_occupied (cr_table reg ! j)}"
      using i by (auto simp: t e_def fresh_entry_def nth_list_update)
    then have "card {j. j < length (cr_table r) \<and> ce_occupied (cr_table r ! j)} = Suc (unat (cr_occupied_count reg))"
      using i ok by (simp add: reg_ok_def count_ok_def)
    moreover have "unat (cr_occupied_count reg + 1) = Suc (unat (cr_occupied_count reg))"
    proof (rule unat_Suc_u32)
      have "unat (cr_max_entries reg) < 2 ^ LENGTH(32)" by (rule unsigned_less)
      then show "unat (cr_occupied_count reg) < 2 ^ 32 - 1" using room by (simp add: word_less_nat_alt)
    qed
    ultimately show ?thesis
      using ok room by (simp add: reg_ok_def count_ok_def r_def word_less_nat_alt word_le_nat_alt)
  qed
  moreover have "unlinked r"
    using ok i unfolding reg_ok_def unlinked_def list_all_length
    by (simp add: r_def e_def fresh_entry_def nth_list_update)
  moreover have "size_ok r" using ok by (simp add: reg_ok_def size_ok_def r_def)
  ultimately show ok': "reg_ok r" by (simp add: reg_ok_def)
  show "breaker r h p = (if (h, p) = (host, port) then Some e else breaker reg h p)"
  proof (cases "(h, p) = (host, port)")
    case True
    then show ?thesis using breaker_hit [OF ok' own] i by (simp add: t)
  next
    case False
    show ?thesis
    proof (cases rule: breaker_cases [OF ok, of h p])
      case (1 j)
      then have j: "j \<noteq> i" "slot_of r h p j" using i slot_ofD(2) [OF 1(1)] s by auto
      show ?thesis using breaker_hit [OF ok' j(2)] 1(2) False j(1) by (auto simp: t)
    next
      case 2
      then have "breaker r h p = None" using False s by (intro breaker_miss [OF ok']) auto
      then show ?thesis using 2 False by auto
    qed
  qed
qed

section \<open>Operations on the map\<close>

abbreviation set_breaker ::
  "(cstr \<Rightarrow> u16 \<Rightarrow> cb_entry option) \<Rightarrow> cstr \<Rightarrow> u16 \<Rightarrow> cb_entry option \<Rightarrow> cstr \<Rightarrow> u16 \<Rightarrow> cb_entry option" where
  "set_breaker B host port v \<equiv> B(host := (B host)(port := v))"

lemma keeps_key_ops:
  "keeps_key (fail_breaker now reg)"
  "keeps_key (\<lambda>e. e\<lparr>ce_failure_count := a, ce_state := b, ce_probe_in_flight := c, ce_recovery_ms := d\<rparr>)"
  "keeps_key (\<lambda>e. e\<lparr>ce_state := b, ce_probe_in_flight := c\<rparr>)"
  by (simp_all add: keeps_key_def fail_breaker_def Let_def)

lemma touch_modify:
  assumes "reg_ok reg" and "keeps_key f" and "slot_of reg host port i"
  shows "reg_ok (lru_touch (with_entry (int i) f reg) (int i))"
    and "breaker (lru_touch (with_entry (int i) f reg) (int i)) h p
      = (if (h, p) = (host, port) then Some (f (cr_table reg ! i)) else breaker reg h p)"
    and "cr_lru_tail (lru_touch (with_entry (int i) f reg) (int i)) = int i"
proof -
  let ?r = "with_entry (int i) f reg"
  have ok: "reg_ok ?r" by (rule reg_ok_modify [OF assms(1,2)])
  have i: "i < length (cr_table ?r)" using slot_ofD(1) [OF assms(3)] by simp
  have t: "lru_touch ?r (int i) = ?r\<lparr>cr_lru_head := int i, cr_lru_tail := int i\<rparr>"
    using lru_touch_unlinked [of ?r "int i"] ok i by (simp add: reg_ok_def)
  show "reg_ok (lru_touch ?r (int i))" unfolding t by (rule reg_ok_touch(1) [OF ok i])
  show "breaker (lru_touch ?r (int i)) h p = (if (h, p) = (host, port) then Some (f (cr_table reg ! i)) else breaker reg h p)"
    unfolding t reg_ok_touch(2) [OF ok i] by (rule breaker_modify [OF assms])
  show "cr_lru_tail (lru_touch ?r (int i)) = int i" by (simp add: t)
qed

lemma lru_touch_params [simp]:
  "cr_failure_threshold (lru_touch reg i) = cr_failure_threshold reg" "cr_window_ms (lru_touch reg i) = cr_window_ms reg"
  "cr_base_recovery_ms (lru_touch reg i) = cr_base_recovery_ms reg" "cr_max_entries (lru_touch reg i) = cr_max_entries reg"
  "cr_occupied_count (lru_touch reg i) = cr_occupied_count reg"
  by (simp_all add: lru_touch_def Let_def)

lemma fail_breaker_cong:
  "cr_failure_threshold reg = cr_failure_threshold reg' \<Longrightarrow> cr_window_ms reg = cr_window_ms reg'
     \<Longrightarrow> fail_breaker now reg = fail_breaker now reg'"
  by (intro ext) (simp add: fail_breaker_def)

text \<open>The breaker that a failure is recorded in: the one of the host, or a fresh one.\<close>

definition breaker_or_fresh :: "cb_registry \<Rightarrow> cstr \<Rightarrow> u16 \<Rightarrow> cb_entry" where
  "breaker_or_fresh reg host port =
     (case breaker reg host port of Some e \<Rightarrow> e | None \<Rightarrow> fresh_entry (cr_base_recovery_ms reg) host port)"

lemma record_failure_spec:
  fixes now :: int
  assumes ok: "reg_ok reg" and wf: "wf_cstr 256 host"
    and room: "breaker reg host port \<noteq> None \<or> cr_occupied_count reg < cr_max_entries reg"
  defines "r \<equiv> cb_record_failure now reg host port"
  shows "reg_ok r \<and> breaker r = set_breaker (breaker reg) host port (Some (fail_breaker now reg (breaker_or_fresh reg host port)))
      \<and> cr_failure_threshold r = cr_failure_threshold reg \<and> cr_window_ms r = cr_window_ms reg
      \<and> cr_base_recovery_ms r = cr_base_recovery_ms reg \<and> cr_max_entries r = cr_max_entries reg
      \<and> cr_occupied_count r = (if breaker reg host port = None then cr_occupied_count reg + 1 else cr_occupied_count reg)"
proof (cases rule: breaker_cases [OF ok, of host port])
  case (1 i)
  have r: "r = lru_touch (with_entry (int i) (fail_breaker now reg) reg) (int i)"
    by (simp add: r_def cb_record_failure_def find_or_insert_hit [OF ok 1(1)])
  have "breaker r = set_breaker (breaker reg) host port (Some (fail_breaker now reg (breaker_or_fresh reg host port)))"
    unfolding r by (intro ext) (simp add: fun_upd_apply touch_modify(2) [OF ok keeps_key_ops(1) 1(1)] breaker_or_fresh_def 1(2))
  then show ?thesis using touch_modify(1) [OF ok keeps_key_ops(1) 1(1), of now reg] 1(2) by (simp add: r)
next
  case 2
  obtain xs i ys where s: "key_slots reg host port = xs @ i # ys" "\<forall>x \<in> set xs. ce_occupied (cr_table reg ! x)"
      "i < length (cr_table reg)" "\<not> ce_occupied (cr_table reg ! i)"
      "scan_insert (cr_table reg) host port (- 1) (key_slots reg host port) = Inr (int i)"
    by (rule scan_new [OF ok 2(1)])
  define reg' where "reg' = (with_entry (int i) (\<lambda>_. fresh_entry (cr_base_recovery_ms reg) host port) reg)
      \<lparr>cr_occupied_count := cr_occupied_count reg + 1\<rparr>"
  have lt: "cr_occupied_count reg < cr_max_entries reg" using room 2(2) by simp
  note ins = reg_ok_insert [OF ok 2(1) wf s(1-4) lt, folded reg'_def]
  have f: "fail_breaker now reg' = fail_breaker now reg" by (rule fail_breaker_cong) (simp_all add: reg'_def)
  have r: "r = lru_touch (with_entry (int i) (fail_breaker now reg) reg') (int i)"
    using s(5) lt by (simp add: r_def cb_record_failure_def table_find_or_insert_def f [symmetric] reg'_def)
  have e: "cr_table reg' ! i = fresh_entry (cr_base_recovery_ms reg) host port" using s(3) by (simp add: reg'_def)
  note t = touch_modify [OF ins(1) keeps_key_ops(1) ins(3), of now reg]
  have "breaker r = set_breaker (breaker reg) host port (Some (fail_breaker now reg (breaker_or_fresh reg host port)))"
    unfolding r by (intro ext) (simp add: fun_upd_apply t(2) ins(2) e breaker_or_fresh_def 2(2))
  moreover have "cr_failure_threshold r = cr_failure_threshold reg \<and> cr_window_ms r = cr_window_ms reg
      \<and> cr_base_recovery_ms r = cr_base_recovery_ms reg \<and> cr_max_entries r = cr_max_entries reg
      \<and> cr_occupied_count r = cr_occupied_count reg + 1"
    by (simp add: r reg'_def)
  ultimately show ?thesis using t(1) 2(2) by (simp add: r)
qed

lemma record_success_spec:
  fixes host :: cstr and port :: u16
  assumes ok: "reg_ok reg"
  defines "r \<equiv> cb_record_success reg host port"
  shows "reg_ok r \<and> breaker r = set_breaker (breaker reg) host port (map_option (\<lambda>e. e\<lparr>ce_failure_count := 0, ce_state := CB_STATE_CLOSED, ce_probe_in_flight := False,
               ce_recovery_ms := cr_base_recovery_ms reg\<rparr>) (breaker reg host port))
      \<and> cr_failure_threshold r = cr_failure_threshold reg \<and> cr_window_ms r = cr_window_ms reg
      \<and> cr_base_recovery_ms r = cr_base_recovery_ms reg \<and> cr_max_entries r = cr_max_entries reg
      \<and> cr_occupied_count r = cr_occupied_count reg"
proof (cases rule: breaker_cases [OF ok, of host port])
  case (1 i)
  note t = touch_modify [OF ok keeps_key_ops(2) 1(1)]
  have r: "r = lru_touch (with_entry (int i) (\<lambda>e. e\<lparr>ce_failure_count := 0, ce_state := CB_STATE_CLOSED,
      ce_probe_in_flight := False, ce_recovery_ms := cr_base_recovery_ms reg\<rparr>) reg) (int i)"
    by (simp add: r_def cb_record_success_def 1(3) Let_def)
  have "breaker r = set_breaker (breaker reg) host port (map_option (\<lambda>e. e\<lparr>ce_failure_count := 0, ce_state := CB_STATE_CLOSED, ce_probe_in_flight := False,
               ce_recovery_ms := cr_base_recovery_ms reg\<rparr>) (breaker reg host port))"
    unfolding r by (intro ext) (simp add: fun_upd_apply t(2) 1(2))
  then show ?thesis using t(1) by (simp add: r)
next
  case 2
  then have "r = reg" by (simp add: r_def cb_record_success_def)
  then show ?thesis using ok 2(2) by (simp add: fun_upd_idem)
qed

text \<open>The answer of \<^verbatim>\<open>cb_is_allowed\<close> and what it does to the breaker.\<close>

definition admit :: "int \<Rightarrow> cb_entry option \<Rightarrow> bool \<times> cb_entry option" where
  "admit now b =
     (case b of
        None \<Rightarrow> (True, None)
      | Some e \<Rightarrow>
          (case ce_state e of
             CB_STATE_CLOSED \<Rightarrow> (True, b)
           | CB_STATE_OPEN \<Rightarrow>
               if ce_open_until_ns e \<le> now \<and> \<not> ce_probe_in_flight e
               then (True, Some (e\<lparr>ce_state := CB_STATE_HALF_OPEN, ce_probe_in_flight := True\<rparr>)) else (False, b)
           | CB_STATE_HALF_OPEN \<Rightarrow> (\<not> ce_probe_in_flight e, b)))"

lemma is_allowed_spec:
  assumes ok: "reg_ok reg"
  shows "case cb_is_allowed now reg host port of (allowed, r) \<Rightarrow>
    allowed = fst (admit now (breaker reg host port)) \<and> reg_ok r
      \<and> breaker r = set_breaker (breaker reg) host port (snd (admit now (breaker reg host port)))
      \<and> cr_failure_threshold r = cr_failure_threshold reg \<and> cr_window_ms r = cr_window_ms reg
      \<and> cr_base_recovery_ms r = cr_base_recovery_ms reg \<and> cr_max_entries r = cr_max_entries reg
      \<and> cr_occupied_count r = cr_occupied_count reg"
proof (cases rule: breaker_cases [OF ok, of host port])
  case (1 i)
  let ?e = "cr_table reg ! i"
  note t = touch_modify [OF ok keeps_key_ops(3) 1(1)]
  let ?r = "lru_touch (with_entry (int i) (\<lambda>e. e\<lparr>ce_state := CB_STATE_HALF_OPEN, ce_probe_in_flight := True\<rparr>) reg) (int i)"
  have probe: "breaker ?r = set_breaker (breaker reg) host port (Some (?e\<lparr>ce_state := CB_STATE_HALF_OPEN, ce_probe_in_flight := True\<rparr>))"
    by (intro ext) (simp add: fun_upd_apply t(2))
  show ?thesis
  proof (cases "ce_state ?e")
    case CB_STATE_CLOSED
    then show ?thesis using ok 1 by (simp add: cb_is_allowed_def allowed_fast_def admit_def fun_upd_idem)
  next
    case CB_STATE_OPEN
    then show ?thesis
      using ok 1 t(1) probe by (simp add: cb_is_allowed_def allowed_fast_def allowed_slow_def admit_def Let_def fun_upd_idem)
  next
    case CB_STATE_HALF_OPEN
    then show ?thesis
      using ok 1 by (simp add: cb_is_allowed_def allowed_fast_def allowed_slow_def admit_def Let_def fun_upd_idem)
  qed
next
  case 2
  then show ?thesis using ok by (simp add: cb_is_allowed_def allowed_fast_def admit_def fun_upd_idem)
qed

section \<open>Creation\<close>

lemma grow_size_exp:
  assumes "target \<le> 2 ^ 31" and "k \<le> 31"
  shows "\<exists>m. k \<le> m \<and> m \<le> 31 \<and> grow_size target (2 ^ k) = Some (2 ^ m) \<and> target \<le> 2 ^ m"
  using assms(2)
proof (induction "31 - k" arbitrary: k)
  case 0
  then have "k = 31" by simp
  moreover have "grow_size target (2 ^ 31) = Some (2 ^ 31)"
    using assms(1) [folded not_less] by (subst grow_size.simps) simp
  ultimately show ?case using assms(1) by blast
next
  case (Suc d)
  have sh: "push_bit 1 (2 ^ k :: u32) = 2 ^ Suc k" by (simp add: push_bit_eq_mult)
  obtain m where m: "Suc k \<le> m" "m \<le> 31" "grow_size target (2 ^ Suc k) = Some (2 ^ m)" "target \<le> 2 ^ m"
  proof -
    have "d = 31 - Suc k" "Suc k \<le> 31" using Suc.hyps(2) by simp_all
    then show thesis using Suc.hyps(1) [of "Suc k"] that by blast
  qed
  show ?case
  proof (cases "(2 ^ k :: u32) < target")
    case True
    then have "grow_size target (2 ^ k) = Some (2 ^ m)" using m(3) by (simp only: grow_size.simps [of target "2 ^ k"] sh if_True)
    then show ?thesis using m by (intro exI [of _ m]) auto
  next
    case False
    then have "grow_size target (2 ^ k) = Some (2 ^ k)" by (subst grow_size.simps) simp
    then show ?thesis using Suc.prems False by (intro exI [of _ k]) (simp add: not_less)
  qed
qed

text \<open>Once the shift has dropped the bit, the loop of the constructor never ends.\<close>

lemma grow_size_zero:
  assumes "0 < target"
  shows "grow_size target 0 = None"
proof -
  have "grow_size t sz = Some y \<Longrightarrow> \<not> (sz = 0 \<and> 0 < t)" for t sz y
    by (rule grow_size.raw_induct [of "\<lambda>t sz y. \<not> (sz = 0 \<and> 0 < t)"]) (auto split: if_splits)
  then show ?thesis using assms by (cases "grow_size target 0") auto
qed

definition entries_of :: "cb_config option \<Rightarrow> u32" where
  "entries_of cfg = config_or_default cfg cc_max_entries CB_DEFAULT_MAX_ENTRIES"

lemma create_ok:
  assumes "entries_of cfg \<le> 2 ^ 30"
  shows "\<exists>reg. cb_registry_create cfg = Some reg \<and> reg_ok reg \<and> breaker reg = (\<lambda>h p. None)
    \<and> cr_max_entries reg = entries_of cfg \<and> cr_occupied_count reg = 0 \<and> cr_failure_threshold reg \<noteq> 0"
proof -
  let ?m = "entries_of cfg"
  have m: "unat ?m \<le> 2 ^ 30" using assms unat_exp_u32 [of 30] by (simp add: word_le_nat_alt)
  have pos: "?m \<noteq> 0" by (auto simp: entries_of_def config_or_default_def CB_DEFAULT_MAX_ENTRIES_def split: option.splits if_splits)
  have dbl: "unat (?m * 2) = 2 * unat ?m" using m by (simp add: unat_word_ariths)
  then have "?m * 2 \<le> 2 ^ 31" using m unat_exp_u32 [of 31] by (simp add: word_le_nat_alt)
  from grow_size_exp [OF this, of 0] obtain k where k: "k \<le> 31" "grow_size (?m * 2) 1 = Some (2 ^ k)" "?m * 2 \<le> 2 ^ k"
    by auto
  have ex: "unat (2 ^ k :: u32) = 2 ^ k" using k(1) by (intro unat_exp_u32) simp
  have lt: "unat ?m < 2 ^ k" using k(3) dbl pos ex unat_gt_0 [of ?m] by (simp add: word_le_nat_alt)
  define reg where "reg = the (cb_registry_create cfg)"
  have reg: "cb_registry_create cfg = Some reg" "cr_table reg = replicate (2 ^ k) empty_entry" "cr_table_size reg = 2 ^ k"
      "cr_max_entries reg = ?m" "cr_occupied_count reg = 0" "cr_lru_head reg = - 1" "cr_lru_tail reg = - 1"
      "cr_failure_threshold reg = config_or_default cfg cc_failure_threshold CB_DEFAULT_FAILURE_THRESHOLD"
    using k(2) ex by (simp_all add: reg_def cb_registry_create_def entries_of_def CB_TABLE_LOAD_FACTOR_def)
  have none: "\<not> slot_of reg h p i" for h p i by (auto simp: slot_of_def reg(2) empty_entry_def)
  have "reg_ok reg"
    unfolding reg_ok_def chain_ok_def keys_ok_def
    using k(1) ex lt none less_trans [of "- 1" 0 "2 ^ k :: int"] by (auto simp: size_ok_def count_ok_def unlinked_def reg empty_entry_def list_all_length intro!: exI [of _ k])
  moreover from this have "breaker reg = (\<lambda>h p. None)" using none by (intro ext breaker_miss) auto
  moreover have "cr_failure_threshold reg \<noteq> 0"
    by (auto simp: reg(8) config_or_default_def CB_DEFAULT_FAILURE_THRESHOLD_def split: option.splits if_splits)
  ultimately show ?thesis using reg by blast
qed

section \<open>Runs\<close>

datatype cb_op = Ask int cstr u16 | Succeeded cstr u16 | FailedAt int cstr u16

fun cb_run :: "cb_registry \<Rightarrow> cb_op list \<Rightarrow> bool list \<times> cb_registry" where
  "cb_run reg [] = ([], reg)"
| "cb_run reg (Ask now host port # ops) =
     (case cb_is_allowed now reg host port of (b, reg) \<Rightarrow> case cb_run reg ops of (bs, reg) \<Rightarrow> (b # bs, reg))"
| "cb_run reg (Succeeded host port # ops) = cb_run (cb_record_success reg host port) ops"
| "cb_run reg (FailedAt now host port # ops) = cb_run (cb_record_failure now reg host port) ops"

text \<open>The specification: one breaker for each host, no table, no eviction. \<open>reg\<close> holds the parameters.\<close>

fun spec_run ::
  "cb_registry \<Rightarrow> (cstr \<Rightarrow> u16 \<Rightarrow> cb_entry option) \<Rightarrow> cb_op list \<Rightarrow> bool list \<times> (cstr \<Rightarrow> u16 \<Rightarrow> cb_entry option)" where
  "spec_run reg B [] = ([], B)"
| "spec_run reg B (Ask now host port # ops) =
     (case admit now (B host port) of (b, v) \<Rightarrow>
      case spec_run reg (set_breaker B host port v) ops of (bs, B) \<Rightarrow> (b # bs, B))"
| "spec_run reg B (Succeeded host port # ops) =
     spec_run reg (set_breaker B host port (map_option (\<lambda>e. e\<lparr>ce_failure_count := 0, ce_state := CB_STATE_CLOSED,
        ce_probe_in_flight := False, ce_recovery_ms := cr_base_recovery_ms reg\<rparr>) (B host port))) ops"
| "spec_run reg B (FailedAt now host port # ops) =
     spec_run reg (set_breaker B host port (Some (fail_breaker now reg
        (case B host port of Some e \<Rightarrow> e | None \<Rightarrow> fresh_entry (cr_base_recovery_ms reg) host port)))) ops"

fun failing :: "cb_op list \<Rightarrow> (cstr \<times> u16) set" where
  "failing [] = {}"
| "failing (FailedAt now host port # ops) = insert (host, port) (failing ops)"
| "failing (op # ops) = failing ops"

fun op_wf :: "cb_op \<Rightarrow> bool" where
  "op_wf (FailedAt now host port) = wf_cstr 256 host"
| "op_wf op = True"

definition domain :: "(cstr \<Rightarrow> u16 \<Rightarrow> cb_entry option) \<Rightarrow> (cstr \<times> u16) set" where
  "domain B = {(h, p). B h p \<noteq> None}"

lemma domain_set: "domain (set_breaker B host port v) = (if v = None then domain B - {(host, port)} else insert (host, port) (domain B))"
  by (auto simp: domain_def split: if_splits)

definition same_params :: "cb_registry \<Rightarrow> cb_registry \<Rightarrow> bool" where
  "same_params reg reg' \<longleftrightarrow> cr_failure_threshold reg = cr_failure_threshold reg' \<and> cr_window_ms reg = cr_window_ms reg'
     \<and> cr_base_recovery_ms reg = cr_base_recovery_ms reg' \<and> cr_max_entries reg = cr_max_entries reg'"

lemma admit_domain: "(snd (admit now b) = None) = (b = None)"
  by (auto simp: admit_def split: option.splits cb_state.splits)

lemma cb_run_refines:
  assumes "reg_ok reg" and "same_params reg reg0" and "list_all op_wf ops"
    and "unat (cr_occupied_count reg) = card (domain (breaker reg))" and "finite K"
    and "domain (breaker reg) \<union> failing ops \<subseteq> K" and "card K \<le> unat (cr_max_entries reg0)"
  shows "case cb_run reg ops of (bs, r) \<Rightarrow> spec_run reg0 (breaker reg) ops = (bs, breaker r) \<and> reg_ok r"
  using assms
proof (induction ops arbitrary: reg)
  case Nil
  then show ?case by simp
next
  case (Cons op ops)
  have K: "domain (breaker reg) \<union> failing ops \<subseteq> K" using Cons.prems(6) by (cases op) auto
  show ?case
  proof (cases op)
    case (Ask now host port)
    obtain b r where r: "cb_is_allowed now reg host port = (b, r)" by (cases "cb_is_allowed now reg host port")
    note st = is_allowed_spec [OF Cons.prems(1), of now host port, unfolded r prod.case]
    have d: "domain (breaker r) = domain (breaker reg)"
      using st admit_domain [of now "breaker reg host port"] by (auto simp: domain_set) (auto simp: domain_def)
    have "same_params r reg0" "unat (cr_occupied_count r) = card (domain (breaker r))"
      and sub: "domain (breaker r) \<union> failing ops \<subseteq> K"
      unfolding d using st Cons.prems(2,4) K by (simp_all add: same_params_def)
    then have "case cb_run r ops of (bs, r') \<Rightarrow> spec_run reg0 (breaker r) ops = (bs, breaker r') \<and> reg_ok r'"
      using st Cons.prems(3) by (intro Cons.IH [OF _ _ _ _ Cons.prems(5) sub Cons.prems(7)]) (simp_all only: list.pred_inject(2))
    then show ?thesis using st by (auto simp: Ask r split: prod.splits)
  next
    case (Succeeded host port)
    let ?r = "cb_record_success reg host port"
    note st = record_success_spec [OF Cons.prems(1), of host port]
    have d: "domain (breaker ?r) = domain (breaker reg)" using st by (auto simp: domain_set) (auto simp: domain_def)
    have "same_params ?r reg0" "unat (cr_occupied_count ?r) = card (domain (breaker ?r))"
      and sub: "domain (breaker ?r) \<union> failing ops \<subseteq> K"
      unfolding d using st Cons.prems(2,4) K by (simp_all add: same_params_def)
    then have "case cb_run ?r ops of (bs, r') \<Rightarrow> spec_run reg0 (breaker ?r) ops = (bs, breaker r') \<and> reg_ok r'"
      using st Cons.prems(3) by (intro Cons.IH [OF _ _ _ _ Cons.prems(5) sub Cons.prems(7)]) (simp_all only: list.pred_inject(2))
    then show ?thesis using st Cons.prems(2) by (simp add: Succeeded same_params_def)
  next
    case (FailedAt now host port)
    let ?r = "cb_record_failure now reg host port"
    have fin: "finite (domain (breaker reg))" using Cons.prems(5,6) finite_subset by blast
    have room: "breaker reg host port \<noteq> None \<or> cr_occupied_count reg < cr_max_entries reg"
    proof (rule disjCI)
      assume "\<not> cr_occupied_count reg < cr_max_entries reg"
      then have "card K \<le> card (domain (breaker reg))"
        using Cons.prems(2,4,7) by (simp add: same_params_def word_less_nat_alt)
      then have "domain (breaker reg) = K" using Cons.prems(5,6) by (intro card_seteq) auto
      then show "breaker reg host port \<noteq> None" using Cons.prems(6) by (auto simp: FailedAt domain_def)
    qed
    note st = record_failure_spec [OF Cons.prems(1) _ room, of now]
    have wf: "wf_cstr 256 host" using Cons.prems(3) by (simp add: FailedAt)
    note st = st [OF wf]
    have d: "domain (breaker ?r) = insert (host, port) (domain (breaker reg))" using st by (simp add: domain_set)
    have "unat (cr_occupied_count ?r) = card (domain (breaker ?r))"
    proof (cases "breaker reg host port = None")
      case True
      then have lt: "cr_occupied_count reg < cr_max_entries reg" using room by simp
      have "unat (cr_max_entries reg) < 2 ^ LENGTH(32)" by (rule unsigned_less)
      then have "unat (cr_occupied_count reg + 1) = Suc (unat (cr_occupied_count reg))"
        using lt by (intro unat_Suc_u32) (simp add: word_less_nat_alt)
      then show ?thesis using st True fin Cons.prems(4) d by (simp add: domain_def)
    next
      case False
      then have "(host, port) \<in> domain (breaker reg)" by (simp add: domain_def)
      then show ?thesis using st False Cons.prems(4) d by (simp add: insert_absorb)
    qed
    moreover have "same_params ?r reg0" using st Cons.prems(2) by (simp add: same_params_def)
    moreover have "domain (breaker ?r) \<union> failing ops \<subseteq> K" unfolding d using Cons.prems(6) by (auto simp: FailedAt)
    ultimately have "case cb_run ?r ops of (bs, r') \<Rightarrow> spec_run reg0 (breaker ?r) ops = (bs, breaker r') \<and> reg_ok r'"
      using st Cons.prems(3) by (intro Cons.IH [OF _ _ _ _ Cons.prems(5) _ Cons.prems(7)]) (simp_all only: list.pred_inject(2))
    moreover have "fail_breaker now reg = fail_breaker now reg0"
      using Cons.prems(2) by (intro fail_breaker_cong) (simp_all add: same_params_def)
    moreover have "breaker_or_fresh reg host port = (case breaker reg host port of
        Some e \<Rightarrow> e | None \<Rightarrow> fresh_entry (cr_base_recovery_ms reg0) host port)"
      using Cons.prems(2) by (simp add: breaker_or_fresh_def same_params_def split: option.split)
    ultimately show ?thesis using st by (simp add: FailedAt)
  qed
qed

section \<open>One breaker\<close>

lemma fail_closed:
  assumes "ce_state e = CB_STATE_CLOSED" and "ce_failure_count e = 0 \<or> now - ce_last_failure_ns e \<le> ms_to_ns (cr_window_ms reg)"
    and "cr_failure_threshold reg \<noteq> 0"
  shows "if ce_failure_count e + 1 < cr_failure_threshold reg
    then ce_state (fail_breaker now reg e) = CB_STATE_CLOSED \<and> ce_failure_count (fail_breaker now reg e) = ce_failure_count e + 1
      \<and> ce_last_failure_ns (fail_breaker now reg e) = now \<and> ce_recovery_ms (fail_breaker now reg e) = ce_recovery_ms e
    else ce_state (fail_breaker now reg e) = CB_STATE_OPEN \<and> ce_open_until_ns (fail_breaker now reg e) = now + ms_to_ns (ce_recovery_ms e)
      \<and> \<not> ce_probe_in_flight (fail_breaker now reg e)"
  using assms by (auto simp: fail_breaker_def Let_def not_less)

definition within_window :: "cb_registry \<Rightarrow> int list \<Rightarrow> bool" where
  "within_window reg ts \<longleftrightarrow> successively (\<lambda>a b. b - a \<le> ms_to_ns (cr_window_ms reg)) ts"

lemma fail_closed_many:
  assumes "ce_state e = CB_STATE_CLOSED" and "ce_failure_count e = 0" and "within_window reg ts"
    and "0 < length ts" and "length ts < unat (cr_failure_threshold reg)"
  shows "let e' = foldl (\<lambda>e t. fail_breaker t reg e) e ts in
    ce_state e' = CB_STATE_CLOSED \<and> unat (ce_failure_count e') = length ts \<and> ce_last_failure_ns e' = last ts
      \<and> ce_recovery_ms e' = ce_recovery_ms e"
  using assms(3-5)
proof (induction ts rule: rev_induct)
  case (snoc t ts)
  let ?n = "cr_failure_threshold reg"
  have n: "?n \<noteq> 0" using snoc.prems(3) by auto
  show ?case
  proof (cases "ts = []")
    case True
    then have "ce_failure_count e + 1 < ?n" using snoc.prems(3) assms(2) by (simp add: word_less_nat_alt)
    then show ?thesis using fail_closed [OF assms(1) disjI1 [OF assms(2)] n, of t] assms(2) True by (simp add: Let_def)
  next
    case False
    define f where "f = foldl (\<lambda>e t. fail_breaker t reg e) e ts"
    have w: "within_window reg ts" "t - last ts \<le> ms_to_ns (cr_window_ms reg)"
      using snoc.prems(1) False by (auto simp: within_window_def successively_append_iff)
    have f: "ce_state f = CB_STATE_CLOSED" "unat (ce_failure_count f) = length ts" "ce_last_failure_ns f = last ts"
        "ce_recovery_ms f = ce_recovery_ms e"
      using snoc.IH [OF w(1)] False snoc.prems(3) by (simp_all add: f_def Let_def)
    have lt: "Suc (length ts) < 2 ^ 32" using snoc.prems(3) unsigned_less [where 'a = nat and w = ?n] by simp
    have u: "unat (ce_failure_count f + 1) = Suc (length ts)" using lt f(2) by (subst unat_Suc_u32) simp_all
    then have "ce_failure_count f + 1 < ?n" using snoc.prems(3) by (simp add: word_less_nat_alt)
    then show ?thesis using fail_closed [OF f(1) disjI2 n, of t] w(2) f u by (simp add: f_def [symmetric] Let_def)
  qed
qed simp

lemma failures_fold:
  assumes "reg_ok reg" and "wf_cstr 256 host" and "breaker reg host port \<noteq> None \<or> cr_occupied_count reg < cr_max_entries reg"
    and "ts \<noteq> []"
  shows "let r = foldl (\<lambda>r t. cb_record_failure t r host port) reg ts in
    reg_ok r \<and> breaker r host port = Some (foldl (\<lambda>e t. fail_breaker t reg e) (breaker_or_fresh reg host port) ts)
    \<and> same_params r reg"
  using assms(4)
proof (induction ts rule: rev_induct)
  case (snoc t ts)
  show ?case
  proof (cases "ts = []")
    case True
    then show ?thesis using record_failure_spec [OF assms(1-3), of t] by (simp add: Let_def same_params_def)
  next
    case False
    let ?r = "foldl (\<lambda>r t. cb_record_failure t r host port) reg ts"
    have r: "reg_ok ?r" "breaker ?r host port = Some (foldl (\<lambda>e t. fail_breaker t reg e) (breaker_or_fresh reg host port) ts)"
        "same_params ?r reg"
      using snoc.IH [OF False] by (simp_all add: Let_def)
    have "fail_breaker t ?r = fail_breaker t reg" using r(3) by (intro fail_breaker_cong) (simp_all add: same_params_def)
    then show ?thesis
      using record_failure_spec [OF r(1) assms(2), of port t] r(2,3) by (simp add: Let_def same_params_def breaker_or_fresh_def)
  qed
qed simp

section \<open>Properties\<close>

definition sample_registry :: cb_registry where
  "sample_registry = the (cb_registry_create (Some \<lparr>cc_failure_threshold = 2, cc_recovery_ms = 100, cc_window_ms = 1000, cc_max_entries = 2\<rparr>))"

lemma sample_registry_ok:
  "cb_registry_create (Some \<lparr>cc_failure_threshold = 2, cc_recovery_ms = 100, cc_window_ms = 1000, cc_max_entries = 2\<rparr>) = Some sample_registry"
  "reg_ok sample_registry" "breaker sample_registry = (\<lambda>h p. None)" "cr_max_entries sample_registry = 2"
  "cr_occupied_count sample_registry = 0" "cr_failure_threshold sample_registry = 2" "cr_window_ms sample_registry = 1000" "cr_base_recovery_ms sample_registry = 100"
proof -
  let ?c = "Some \<lparr>cc_failure_threshold = 2, cc_recovery_ms = 100, cc_window_ms = 1000, cc_max_entries = 2\<rparr>"
  have e: "entries_of ?c = 2" by (simp add: entries_of_def config_or_default_def)
  obtain reg where reg: "cb_registry_create ?c = Some reg" "reg_ok reg" "breaker reg = (\<lambda>h p. None)"
      "cr_max_entries reg = 2" "cr_occupied_count reg = 0"
    using create_ok [of ?c] by (auto simp: e word_le_nat_alt)
  then have "sample_registry = reg" by (simp add: sample_registry_def)
  then show "cb_registry_create ?c = Some sample_registry" "reg_ok sample_registry" "breaker sample_registry = (\<lambda>h p. None)"
      "cr_max_entries sample_registry = 2" "cr_occupied_count sample_registry = 0"
    using reg by simp_all
  show "cr_failure_threshold sample_registry = 2" "cr_window_ms sample_registry = 1000" "cr_base_recovery_ms sample_registry = 100"
    using reg(1) by (auto simp: \<open>sample_registry = reg\<close> cb_registry_create_def config_or_default_def Let_def split: option.splits)
qed

lemma get_state_breaker:
  "cb_get_state reg h p = (case breaker reg h p of None \<Rightarrow> CB_STATE_CLOSED | Some e \<Rightarrow> ce_state e)"
  by (simp add: cb_get_state_def breaker_def Let_def)

text \<open>
  C21. As long as no more hosts fail than the registry can hold, the hash table with its LRU chain
  behaves as one independent breaker for each host and port: after any sequence of permission checks, successes
  and failures, every answer was that of the specification, the breakers found in the table are its breakers, and
  the state query answers for every host and port with the state of its breaker, closed where there is none.
  Creating the registry returns for every limit up to \<open>2 ^ 30\<close>.
\<close>

theorem registry_refines_breakers:
  assumes "entries_of cfg \<le> 2 ^ 30" and "list_all op_wf ops" and "card (failing ops) \<le> unat (entries_of cfg)"
  shows "\<exists>reg. cb_registry_create cfg = Some reg
    \<and> (case (cb_run reg ops, spec_run reg (\<lambda>h p. None) ops) of
         ((answers, reg'), (spec_answers, B)) \<Rightarrow>
           answers = spec_answers \<and> breaker reg' = B
           \<and> (\<forall>h p. cb_get_state reg' h p = (case B h p of None \<Rightarrow> CB_STATE_CLOSED | Some e \<Rightarrow> ce_state e)))"
proof -
  obtain reg where reg: "cb_registry_create cfg = Some reg" "reg_ok reg" "breaker reg = (\<lambda>h p. None)"
      "cr_max_entries reg = entries_of cfg" "cr_occupied_count reg = 0"
    using create_ok [OF assms(1)] by blast
  have fin: "finite (failing xs)" for xs by (induction xs rule: failing.induct) simp_all
  have "case cb_run reg ops of (bs, r) \<Rightarrow> spec_run reg (breaker reg) ops = (bs, breaker r) \<and> reg_ok r"
    by (rule cb_run_refines [OF reg(2) _ assms(2) _ fin [of ops]])
      (use assms(3) reg in \<open>auto simp: same_params_def domain_def\<close>)
  then show ?thesis using reg by (auto simp: get_state_breaker)
qed

theorem registry_refines_breakers_witness:
  "\<exists>reg. cb_registry_create None = Some reg
    \<and> (case (cb_run reg [FailedAt 5 [104] 80, Ask 6 [104] 80, FailedAt 7 [105] 80, Succeeded [104] 80],
          spec_run reg (\<lambda>h p. None) [FailedAt 5 [104] 80, Ask 6 [104] 80, FailedAt 7 [105] 80, Succeeded [104] 80]) of
         ((answers, reg'), (spec_answers, B)) \<Rightarrow>
           answers = spec_answers \<and> breaker reg' = B
           \<and> (\<forall>h p. cb_get_state reg' h p = (case B h p of None \<Rightarrow> CB_STATE_CLOSED | Some e \<Rightarrow> ce_state e)))"
proof (rule registry_refines_breakers)
  have e: "entries_of None = 1024" by (simp add: entries_of_def config_or_default_def CB_DEFAULT_MAX_ENTRIES_def)
  show "entries_of None \<le> 2 ^ 30" unfolding e by (simp add: word_le_nat_alt)
  show "card (failing [FailedAt 5 [104] 80, Ask 6 [104] 80, FailedAt 7 [105] 80, Succeeded [104] 80]) \<le> unat (entries_of None)"
    unfolding e by simp
qed (simp add: wf_cstr_def)

text \<open>
  The circuit of a host opens exactly at the configured number of failures, when each comes
  within the window of the one before: with fewer failures it stays closed, the failure that
  reaches the threshold opens it for the recovery time.
\<close>

lemma circuit_opens_at_threshold:
  assumes "reg_ok reg" and "wf_cstr 256 host" and "cr_failure_threshold reg \<noteq> 0"
    and "breaker reg host port = None" and "cr_occupied_count reg < cr_max_entries reg"
    and "within_window reg (ts @ [t])" and "Suc (length ts) = unat (cr_failure_threshold reg)"
  shows "cb_get_state (foldl (\<lambda>r t. cb_record_failure t r host port) reg ts) host port = CB_STATE_CLOSED
    \<and> (case breaker (foldl (\<lambda>r t. cb_record_failure t r host port) reg (ts @ [t])) host port of
         None \<Rightarrow> False
       | Some e \<Rightarrow> ce_state e = CB_STATE_OPEN \<and> ce_open_until_ns e = t + ms_to_ns (cr_base_recovery_ms reg))"
proof -
  define e where "e = fresh_entry (cr_base_recovery_ms reg) host port"
  have e: "breaker_or_fresh reg host port = e" "ce_state e = CB_STATE_CLOSED" "ce_failure_count e = 0"
      "ce_recovery_ms e = cr_base_recovery_ms reg"
    using assms(4) by (simp_all add: e_def breaker_or_fresh_def fresh_entry_def)
  define f where "f = foldl (\<lambda>e t. fail_breaker t reg e) e ts"
  have w: "within_window reg ts" "ts = [] \<or> t - last ts \<le> ms_to_ns (cr_window_ms reg)"
    using assms(6) by (auto simp: within_window_def successively_append_iff)
  have f: "ce_state f = CB_STATE_CLOSED" "unat (ce_failure_count f) = length ts" "ts = [] \<or> ce_last_failure_ns f = last ts"
      "ce_recovery_ms f = cr_base_recovery_ms reg"
    using fail_closed_many [OF e(2,3) w(1)] assms(7) e by (cases "ts = []"; simp add: f_def Let_def)+
  have lt: "Suc (length ts) < 2 ^ 32" using assms(7) unsigned_less [where 'a = nat and w = "cr_failure_threshold reg"] by simp
  have "unat (ce_failure_count f + 1) = Suc (length ts)" using lt f(2) by (subst unat_Suc_u32) simp_all
  then have reach: "\<not> ce_failure_count f + 1 < cr_failure_threshold reg" using assms(7) by (simp add: word_less_nat_alt)
  have "ce_failure_count f = 0 \<or> t - ce_last_failure_ns f \<le> ms_to_ns (cr_window_ms reg)"
    using w(2) f(2,3) by (auto simp: unat_eq_zero [symmetric])
  then have o: "ce_state (fail_breaker t reg f) = CB_STATE_OPEN"
      "ce_open_until_ns (fail_breaker t reg f) = t + ms_to_ns (cr_base_recovery_ms reg)"
    using fail_closed [OF f(1) _ assms(3)] reach f(4) by simp_all
  note room = disjI2 [OF assms(5)]
  have closed: "cb_get_state (foldl (\<lambda>r t. cb_record_failure t r host port) reg ts) host port = CB_STATE_CLOSED"
  proof (cases "ts = []")
    case True
    then show ?thesis using assms(1,4) by (simp add: cb_get_state_def breaker_def Let_def split: if_splits)
  next
    case False
    let ?r = "foldl (\<lambda>r t. cb_record_failure t r host port) reg ts"
    have "breaker ?r host port = Some f" using failures_fold [OF assms(1,2) room False] by (simp add: Let_def e f_def)
    then show ?thesis using f(1) by (auto simp: breaker_def cb_get_state_def Let_def split: if_splits)
  qed
  have "breaker (foldl (\<lambda>r t. cb_record_failure t r host port) reg (ts @ [t])) host port = Some (fail_breaker t reg f)"
    using failures_fold [OF assms(1,2) room, of "ts @ [t]"] by (simp add: Let_def e f_def)
  then show ?thesis using closed o by simp
qed

lemma circuit_opens_at_threshold_witness:
  "cb_get_state (foldl (\<lambda>r t. cb_record_failure t r [104] 80) sample_registry [10]) [104] 80 = CB_STATE_CLOSED
    \<and> (case breaker (foldl (\<lambda>r t. cb_record_failure t r [104] 80) sample_registry ([10] @ [20])) [104] 80 of
         None \<Rightarrow> False
       | Some e \<Rightarrow> ce_state e = CB_STATE_OPEN \<and> ce_open_until_ns e = 20 + ms_to_ns (cr_base_recovery_ms sample_registry))"
  by (rule circuit_opens_at_threshold)
    (simp_all add: sample_registry_ok wf_cstr_def within_window_def ms_to_ns_def word_less_nat_alt)

text \<open>
  C22. An open circuit lets exactly one probe through. Of the calls of \<^verbatim>\<open>cb_is_allowed\<close> at times \<open>ts\<close>,
  all before the recovery time are refused, the first one after it is allowed, and all later ones
  are refused until the outcome of the probe is recorded (for ever, if it never is).
\<close>

theorem open_circuit_admits_one_probe:
  assumes "reg_ok reg" and "breaker reg host port = Some e" and "ce_state e = CB_STATE_OPEN" and "\<not> ce_probe_in_flight e"
  shows "fst (cb_run reg (map (\<lambda>t. Ask t host port) ts))
    = (let early = takeWhile (\<lambda>t. t < ce_open_until_ns e) ts
       in replicate (length early) False @ (case drop (length early) ts of [] \<Rightarrow> [] | t # rest \<Rightarrow> True # replicate (length rest) False))"
proof -
  have half: "fst (cb_run r (map (\<lambda>t. Ask t host port) ts)) = replicate (length ts) False"
    if "reg_ok r" "breaker r host port = Some e'" "ce_state e' = CB_STATE_HALF_OPEN" "ce_probe_in_flight e'" for r e' ts
    using that
  proof (induction ts arbitrary: r)
    case (Cons t ts)
    obtain b r' where r': "cb_is_allowed t r host port = (b, r')" by (cases "cb_is_allowed t r host port")
    have "b = False" "reg_ok r'" "breaker r' host port = Some e'"
      using is_allowed_spec [OF Cons.prems(1), of t host port] r' Cons.prems by (simp_all add: admit_def)
    then show ?case using Cons.IH [of r'] Cons.prems(3,4) r' by (auto split: prod.split)
  qed simp
  show ?thesis
    using assms(1,2)
  proof (induction ts arbitrary: reg)
    case (Cons t ts)
    obtain b r where r: "cb_is_allowed t reg host port = (b, r)" by (cases "cb_is_allowed t reg host port")
    note st = is_allowed_spec [OF Cons.prems(1), of t host port, unfolded r]
    show ?case
    proof (cases "t < ce_open_until_ns e")
      case True
      then have "b = False" "reg_ok r" "breaker r host port = Some e"
        using st Cons.prems(2) assms(3,4) by (simp_all add: admit_def)
      then show ?thesis using Cons.IH [of r] True r by (auto simp: Let_def split: prod.split)
    next
      case False
      then have "b = True" "reg_ok r" "breaker r host port = Some (e\<lparr>ce_state := CB_STATE_HALF_OPEN, ce_probe_in_flight := True\<rparr>)"
        using st Cons.prems(2) assms(3,4) by (simp_all add: admit_def)
      then show ?thesis using half [of r _ ts] False r by (auto split: prod.split)
    qed
  qed simp
qed

text \<open>
  The eviction takes the wrong entry. Entries are never linked into the LRU chain: each touch
  makes the touched entry the whole chain. So when the registry is full, the failure of a new host
  evicts the host that was touched last, here the host whose failure was recorded just before,
  and its circuit, open or not, counts as closed again.
\<close>

lemma eviction_takes_most_recent:
  assumes "reg_ok reg" and "cr_occupied_count reg = cr_max_entries reg" and "wf_cstr 256 host" and "wf_cstr 256 host'"
    and "breaker reg host port \<noteq> None" and "breaker reg host' port' = None"
  shows "cb_get_state (cb_record_failure t' (cb_record_failure t reg host port) host' port') host port = CB_STATE_CLOSED"
proof -
  define r1 where "r1 = cb_record_failure t reg host port"
  note st = record_failure_spec [OF assms(1,3) disjI1 [OF assms(5)], of t, folded r1_def]
  have ne: "(host', port') \<noteq> (host, port)" using assms(5,6) by auto
  have ok: "reg_ok r1" and full: "cr_occupied_count r1 = cr_max_entries r1" and new: "breaker r1 host' port' = None"
    using st assms(2,5,6) ne by auto
  obtain i where i: "slot_of reg host port i" using assms(5) by (cases rule: breaker_cases [OF assms(1), of host port]) auto
  have r1: "r1 = lru_touch (with_entry (int i) (fail_breaker t reg) reg) (int i)"
    by (simp add: r1_def cb_record_failure_def find_or_insert_hit [OF assms(1) i])
  then have tail: "cr_lru_tail r1 = int i" using touch_modify(3) [OF assms(1) keeps_key_ops(1) i] by simp
  have link: "lru_touch (with_entry (int i) (fail_breaker t reg) reg) (int i)
      = (with_entry (int i) (fail_breaker t reg) reg)\<lparr>cr_lru_head := int i, cr_lru_tail := int i\<rparr>"
    using reg_ok_modify [OF assms(1) keeps_key_ops(1), of "int i" t reg] slot_ofD(1) [OF i]
    by (intro lru_touch_unlinked) (simp_all add: reg_ok_def)
  have i1: "slot_of r1 host port i"
    using i slot_of_modify [OF keeps_key_ops(1), of "int i" t reg reg] unfolding r1 link
    by (simp add: slot_of_cong [of "_\<lparr>cr_lru_head := _, cr_lru_tail := _\<rparr>" "with_entry (int i) (fail_breaker t reg) reg"])
  have len: "i < length (cr_table r1)" by (rule slot_ofD(1) [OF i1])
  have un: "unlinked r1" using ok by (simp add: reg_ok_def)
  then have prev: "ce_lru_prev (cr_table r1 ! i) = - 1" using len by (simp add: unlinked_def list_all_length)
  have absent: "\<forall>j. \<not> slot_of r1 host' port' j" using new breaker_hit [OF ok] by fastforce
  obtain q where q: "scan_insert (cr_table r1) host' port' (- 1) (key_slots r1 host' port') = Inr (int q)"
    using scan_new [OF ok absent] by blast
  define f where "f = fresh_entry (cr_base_recovery_ms r1) host' port'"
  define r2 where "r2 = with_entry (int i) (\<lambda>e. f) (r1\<lparr>cr_lru_head := - 1, cr_lru_tail := - 1\<rparr>)"
  have ev: "table_find_or_insert r1 host' port' = (int i, r2)"
    using q full tail prev by (simp add: table_find_or_insert_def evict_tail_def r2_def f_def Let_def with_entry_def)
  define g where "g = fail_breaker t' r2 f"
  define r3 where "r3 = with_entry (int i) (fail_breaker t' r2) r2"
  have t3: "cr_table r3 = (cr_table r1)[i := g]" using len by (simp add: r3_def r2_def g_def)
  have g: "ce_lru_prev g = - 1" "ce_lru_next g = - 1" "ce_host g = host'" "ce_port g = port'"
    using keeps_key_ops(1) [of t' r2] strncpy_id [of 255 host'] assms(4)
    by (simp_all add: g_def keeps_key_def f_def fresh_entry_def)
  have un3: "unlinked r3"
    using un g(1,2) len by (auto simp: unlinked_def list_all_length t3 nth_list_update) (simp_all add: r3_def r2_def)
  have "\<not> slot_of r3 host port j" for j
  proof (cases "j = i")
    case True
    then show ?thesis using g(3,4) ne len by (auto simp: slot_of_def t3 is_key_def)
  next
    case False
    then have "slot_of r3 host port j = slot_of r1 host port j" by (simp add: slot_of_def t3)
    then show ?thesis using reg_ok_keys [OF ok _ i1] False by blast
  qed
  moreover have final: "cb_record_failure t' r1 host' port' = r3\<lparr>cr_lru_head := int i, cr_lru_tail := int i\<rparr>"
    using ev lru_touch_unlinked [OF un3, of "int i"] len by (simp add: cb_record_failure_def r3_def [symmetric] t3)
  moreover have "size_ok (r3\<lparr>cr_lru_head := int i, cr_lru_tail := int i\<rparr>)"
    using ok by (simp add: reg_ok_def size_ok_def t3) (simp add: r3_def r2_def)
  ultimately have "table_find (cb_record_failure t' r1 host' port') host port = - 1"
    by (intro table_find_miss) (simp_all add: slot_of_def)
  then show ?thesis by (simp add: cb_get_state_def r1_def)
qed

text \<open>Two hosts fill the sample registry; the first one's circuit is open.\<close>

definition sample_full :: cb_registry where
  "sample_full = foldl (\<lambda>r (t, h). cb_record_failure t r h 80) sample_registry [(10, [104]), (20, [104]), (30, [105])]"

lemma sample_full_ok:
  "reg_ok sample_full" "cr_occupied_count sample_full = cr_max_entries sample_full"
  "breaker sample_full [105] 80 \<noteq> None" "breaker sample_full [106] 80 = None"
  "\<exists>e. breaker sample_full [104] 80 = Some e \<and> ce_state e = CB_STATE_OPEN \<and> \<not> ce_probe_in_flight e
     \<and> ce_open_until_ns e = 100000020"
proof -
  let ?a = "cb_record_failure 10 sample_registry [104] 80"
  let ?b = "cb_record_failure 20 ?a [104] 80"
  have wf: "wf_cstr 256 [104]" "wf_cstr 256 [105]" by (simp_all add: wf_cstr_def)
  have "breaker sample_registry [104] 80 \<noteq> None \<or> cr_occupied_count sample_registry < cr_max_entries sample_registry"
    by (simp add: sample_registry_ok word_less_nat_alt)
  note a = record_failure_spec [OF sample_registry_ok(2) wf(1) this, of 10]
  have "breaker ?a [104] 80 \<noteq> None \<or> cr_occupied_count ?a < cr_max_entries ?a" using a by simp
  note b = record_failure_spec [OF conjunct1 [OF a] wf(1) this, of 20]
  have "cr_occupied_count ?b = 1" "cr_max_entries ?b = 2" "breaker ?b [105] 80 = None" "breaker ?b [106] 80 = None"
    using a b by (simp_all add: sample_registry_ok)
  note n = this
  have "breaker ?b [105] 80 \<noteq> None \<or> cr_occupied_count ?b < cr_max_entries ?b" by (simp add: n word_less_nat_alt)
  note c = record_failure_spec [OF conjunct1 [OF b] wf(2) this, of 30]
  have full: "sample_full = cb_record_failure 30 ?b [105] 80" by (simp add: sample_full_def)
  show "reg_ok sample_full" "cr_occupied_count sample_full = cr_max_entries sample_full"
    "breaker sample_full [105] 80 \<noteq> None" "breaker sample_full [106] 80 = None"
    using c n by (simp_all add: full)
  show "\<exists>e. breaker sample_full [104] 80 = Some e \<and> ce_state e = CB_STATE_OPEN \<and> \<not> ce_probe_in_flight e
     \<and> ce_open_until_ns e = 100000020"
    using a b c by (simp add: full breaker_or_fresh_def sample_registry_ok fail_breaker_def fresh_entry_def ms_to_ns_def
        Let_def word_le_nat_alt)
qed

theorem open_circuit_admits_one_probe_witness:
  "fst (cb_run sample_full (map (\<lambda>t. Ask t [104] 80) [50, 100000020, 100000021])) = [False, True, False]"
proof -
  obtain e where e: "breaker sample_full [104] 80 = Some e" "ce_state e = CB_STATE_OPEN" "\<not> ce_probe_in_flight e"
      "ce_open_until_ns e = 100000020"
    using sample_full_ok(5) by blast
  show ?thesis
    using open_circuit_admits_one_probe [OF sample_full_ok(1) e(1-3), of "[50, 100000020, 100000021]"] e(4)
    by (simp add: Let_def)
qed

lemma eviction_takes_most_recent_witness:
  "cb_get_state (cb_record_failure 60 (cb_record_failure 50 sample_full [104] 80) [106] 80) [104] 80 = CB_STATE_CLOSED"
  by (rule eviction_takes_most_recent [OF sample_full_ok(1,2)])
    (use sample_full_ok(4,5) in \<open>auto simp: wf_cstr_def\<close>)

end
