(* ===== verification/WorkerPool.thy ===== *)
theory WorkerPool
  imports Complex_Main Gossip
begin

text \<open>
  The pool of task workers, \<^verbatim>\<open>distric_cluster/src/worker_pool.c\<close>: the workers known from gossip, their
  task counts, and the four strategies that pick a worker for a task. The array of workers is a
  list of its used part; a pointer to a worker is its index. Every operation holds the pool's lock.
  Utilisations are quotients of 32 bit counts in \<^verbatim>\<open>double\<close>, computed with their rounding; a finite double is the
  rational number that it stands for. \<^verbatim>\<open>load_metric\<close> is only copied and is kept as the bits of the gossip entry.
\<close>

section \<open>Data\<close>

datatype worker_selection_strategy =
  WORKER_SELECT_ROUND_ROBIN | WORKER_SELECT_LEAST_LOADED | WORKER_SELECT_LEAST_UTILIZED | WORKER_SELECT_RANDOM

record worker_info =
  wi_worker_id :: cstr
  wi_address :: cstr
  wi_port :: u16
  wi_status :: gossip_node_status
  wi_incarnation :: u32
  wi_joined_at_ms :: u64
  wi_last_seen_ms :: u64
  wi_last_task_assigned_ms :: u64
  wi_max_concurrent_tasks :: u32
  wi_current_task_count :: u32
  wi_total_tasks_completed :: u32
  wi_load_metric :: u64
  wi_utilization :: rat

record worker_pool =
  wp_workers :: "worker_info list"
  wp_worker_capacity :: nat
  wp_strategy :: worker_selection_strategy
  wp_round_robin_index :: u64

record worker_pool_capacity_stats =
  ws_total_workers :: nat
  ws_alive_workers :: nat
  ws_total_capacity :: u32
  ws_total_utilized :: u32
  ws_utilization_rate :: rat
  ws_average_load :: rat

section \<open>Quotients of doubles\<close>

text \<open>
  The quotient of two 32 bit integers as a \<^verbatim>\<open>double\<close>: the value with 53 significant bits nearest to the exact
  quotient, the one with an even last bit if two are equally near. The dividend is doubled until the
  quotient has 53 bits; for positive integers below \<open>2 ^ 32\<close> it is never below \<open>2 ^ -32\<close>, so neither overflow nor
  gradual underflow occurs.
\<close>

definition half_even :: "int \<Rightarrow> int \<Rightarrow> int" where
  "half_even n d =
     (let q = n div d; r = n mod d
      in if 2 * r < d \<or> 2 * r = d \<and> even q then q else q + 1)"

function quotient_scale :: "int \<Rightarrow> int \<Rightarrow> int" where
  "quotient_scale a b = (if a \<le> 0 \<or> 2 ^ 52 * b \<le> a then 1 else 2 * quotient_scale (2 * a) b)"
  by pat_completeness auto
termination by (relation "measure (\<lambda>(a, b). nat (2 ^ 52 * b - a))") auto

declare quotient_scale.simps [simp del]

definition double_quotient :: "int \<Rightarrow> int \<Rightarrow> rat" where
  "double_quotient a b =
     (let k = quotient_scale a b in rat_of_int (half_even (a * k) b) / rat_of_int k)"

lemma half_even_error:
  assumes "0 < d"
  shows "\<bar>rat_of_int (half_even n d) - rat_of_int n / rat_of_int d\<bar> \<le> 1 / 2"
proof -
  define q r where "q = n div d" and "r = n mod d"
  have r: "0 \<le> r" "r < d" using assms by (simp_all add: r_def)
  have "n = q * d + r" by (simp add: q_def r_def)
  then have n: "rat_of_int n / rat_of_int d = rat_of_int q + rat_of_int r / rat_of_int d"
    using assms by (simp add: field_simps)
  show ?thesis
  proof (cases "2 * r < d \<or> 2 * r = d \<and> even q")
    case True
    then have "2 * r \<le> d" by auto
    then have "rat_of_int (2 * r) \<le> rat_of_int d" by (simp only: of_int_le_iff)
    then have "rat_of_int r / rat_of_int d \<le> 1 / 2" using assms by (simp add: field_simps)
    moreover have "0 \<le> rat_of_int r / rat_of_int d" using r assms by simp
    ultimately show ?thesis using True n by (simp add: half_even_def q_def [symmetric] r_def [symmetric])
  next
    case False
    then have "d \<le> 2 * r" by auto
    then have "rat_of_int d \<le> rat_of_int (2 * r)" by (simp only: of_int_le_iff)
    then have "1 / 2 \<le> rat_of_int r / rat_of_int d" using assms by (simp add: field_simps)
    moreover have "rat_of_int r / rat_of_int d \<le> 1" using r assms by simp
    moreover have "half_even n d = q + 1" using False unfolding half_even_def Let_def q_def [symmetric] r_def [symmetric] by (rule if_not_P)
    ultimately show ?thesis using n by (simp add: abs_le_iff)
  qed
qed

lemma quotient_scale_bounds: "0 < quotient_scale a b \<and> (0 < a \<longrightarrow> 2 ^ 52 * b \<le> a * quotient_scale a b)"
proof (induction a b rule: quotient_scale.induct)
  case (1 a b)
  show ?case
  proof (cases "a \<le> 0 \<or> 2 ^ 52 * b \<le> a")
    case True
    then show ?thesis by (auto simp: quotient_scale.simps [of a b])
  next
    case False
    then show ?thesis using 1 by (subst (1 2) quotient_scale.simps) (simp add: mult.left_commute)
  qed
qed

text \<open>The relative error is at most half a unit in the last of 53 places.\<close>

lemma double_quotient_error:
  assumes "0 \<le> a" and "0 < b"
  shows "\<bar>double_quotient a b - rat_of_int a / rat_of_int b\<bar> \<le> rat_of_int a / rat_of_int b / 2 ^ 53"
proof (cases "a = 0")
  case True
  then show ?thesis using assms by (simp add: double_quotient_def half_even_def Let_def)
next
  case False
  define k where "k = quotient_scale a b"
  have k: "0 < k" "2 ^ 52 * b \<le> a * k" using quotient_scale_bounds [of a b] False assms by (simp_all add: k_def)
  have "double_quotient a b - rat_of_int a / rat_of_int b
      = (rat_of_int (half_even (a * k) b) - rat_of_int (a * k) / rat_of_int b) / rat_of_int k"
    using k(1) by (simp add: double_quotient_def k_def [symmetric] Let_def diff_divide_distrib)
  then have "\<bar>double_quotient a b - rat_of_int a / rat_of_int b\<bar>
      = \<bar>rat_of_int (half_even (a * k) b) - rat_of_int (a * k) / rat_of_int b\<bar> / rat_of_int k"
    using k(1) by simp
  also have "\<dots> \<le> 1 / 2 / rat_of_int k"
    using half_even_error [OF assms(2), of "a * k"] k(1) by (intro divide_right_mono) simp_all
  also have "\<dots> \<le> rat_of_int a / rat_of_int b / 2 ^ 53"
  proof -
    have "rat_of_int (2 ^ 52 * b) \<le> rat_of_int (a * k)" using k(2) by (simp only: of_int_le_iff)
    then show ?thesis using k(1) assms(2) by (simp add: field_simps)
  qed
  finally show ?thesis .
qed

text \<open>Rounding keeps the order of the quotients of 32 bit counts with the same divisor, and their comparison with 1.\<close>

lemma double_quotient_less:
  assumes "0 \<le> c" and "c < d" and "d < 2 ^ 32" and "0 < b"
  shows "double_quotient c b < double_quotient d b"
proof -
  let ?c = "rat_of_int c / rat_of_int b" and ?d = "rat_of_int d / rat_of_int b"
  have "double_quotient c b \<le> ?c + ?c / 2 ^ 53" using double_quotient_error [OF assms(1,4)] by (simp add: abs_le_iff)
  moreover have "?d - ?d / 2 ^ 53 \<le> double_quotient d b"
    using double_quotient_error [of d b] assms by (simp add: abs_le_iff)
  moreover have "?c + ?c / 2 ^ 53 < ?d - ?d / 2 ^ 53"
  proof -
    have "2 ^ 53 * c + c < 2 ^ 53 * d - d" using assms(1-3) by simp
    then have "rat_of_int (2 ^ 53 * c + c) < rat_of_int (2 ^ 53 * d - d)" by (simp only: of_int_less_iff)
    then show ?thesis using assms(4) by (simp add: field_simps)
  qed
  ultimately show ?thesis by linarith
qed

lemma double_quotient_below_1:
  assumes "0 \<le> c" and "c < b" and "b < 2 ^ 32"
  shows "double_quotient c b < 1"
proof -
  let ?c = "rat_of_int c / rat_of_int b"
  have b: "0 < b" using assms by simp
  have "double_quotient c b \<le> ?c + ?c / 2 ^ 53" using double_quotient_error [OF assms(1) b] by (simp add: abs_le_iff)
  moreover have "?c + ?c / 2 ^ 53 < 1"
  proof -
    have "2 ^ 53 * c + c < 2 ^ 53 * b" using assms by simp
    then have "rat_of_int (2 ^ 53 * c + c) < rat_of_int (2 ^ 53 * b)" by (simp only: of_int_less_iff)
    then show ?thesis using b by (simp add: field_simps)
  qed
  ultimately show ?thesis by linarith
qed

section \<open>Creation and updates\<close>

definition worker_pool_create :: worker_pool where
  "worker_pool_create = \<lparr>wp_workers = [], wp_worker_capacity = 16, wp_strategy = WORKER_SELECT_LEAST_LOADED,
     wp_round_robin_index = 0\<rparr>"

definition find_worker :: "worker_pool \<Rightarrow> cstr \<Rightarrow> nat option" where
  "find_worker pool worker_id = key_index wi_worker_id (wp_workers pool) worker_id"

definition with_worker :: "nat \<Rightarrow> (worker_info \<Rightarrow> worker_info) \<Rightarrow> worker_pool \<Rightarrow> worker_pool" where
  "with_worker i f pool = pool\<lparr>wp_workers := (wp_workers pool)[i := f (wp_workers pool ! i)]\<rparr>"

text \<open>A worker as \<^verbatim>\<open>calloc\<close> leaves it.\<close>

definition zero_worker :: worker_info where
  "zero_worker = \<lparr>wi_worker_id = [], wi_address = [], wi_port = 0, wi_status = 0, wi_incarnation = 0,
     wi_joined_at_ms = 0, wi_last_seen_ms = 0, wi_last_task_assigned_ms = 0, wi_max_concurrent_tasks = 0,
     wi_current_task_count = 0, wi_total_tasks_completed = 0, wi_load_metric = 0, wi_utilization = 0\<rparr>"

text \<open>
  A new worker is written over what its array slot holds: zeros in the sixteen slots allocated by
  \<^verbatim>\<open>calloc\<close>, anything (the argument \<open>junk\<close>) in the slots that \<^verbatim>\<open>realloc\<close> adds. Only the fields assigned
  here are initialised. (\<^verbatim>\<open>strncpy\<close> leaves the last byte of the two strings as it was; it is taken to
  be zero.)
\<close>

definition fresh_slot :: "worker_info \<Rightarrow> worker_pool \<Rightarrow> worker_info" where
  "fresh_slot junk pool = (if length (wp_workers pool) < 16 then zero_worker else junk)"

definition add_worker :: "u64 \<Rightarrow> worker_info \<Rightarrow> gossip_node_info \<Rightarrow> worker_pool \<Rightarrow> worker_pool" where
  "add_worker now junk node pool =
     (let slot = fresh_slot junk pool;
          pool = (if wp_worker_capacity pool \<le> length (wp_workers pool)
                  then pool\<lparr>wp_worker_capacity := wp_worker_capacity pool * 2\<rparr> else pool)
      in pool\<lparr>wp_workers := wp_workers pool @
           [slot\<lparr>wi_worker_id := strncpy 63 (gi_node_id node), wi_address := strncpy 255 (gi_address node),
                 wi_port := gi_port node, wi_joined_at_ms := now, wi_max_concurrent_tasks := 10\<rparr>]\<rparr>)"

definition update_utilization :: "worker_info \<Rightarrow> worker_info" where
  "update_utilization w =
     (if wi_max_concurrent_tasks w > 0
      then w\<lparr>wi_utilization := double_quotient (uint (wi_current_task_count w)) (uint (wi_max_concurrent_tasks w))\<rparr>
      else w)"

text \<open>The 64 bit incarnation of the gossip entry is stored in 32 bits.\<close>

definition refresh_worker :: "u64 \<Rightarrow> gossip_node_info \<Rightarrow> worker_info \<Rightarrow> worker_info" where
  "refresh_worker now node w = update_utilization
     (w\<lparr>wi_status := gi_status node, wi_last_seen_ms := now, wi_incarnation := ucast (gi_incarnation node),
        wi_load_metric := gi_load node\<rparr>)"

definition worker_pool_update_from_gossip :: "u64 \<Rightarrow> worker_info \<Rightarrow> worker_pool \<Rightarrow> gossip_node_info \<Rightarrow> int \<times> worker_pool" where
  "worker_pool_update_from_gossip now junk pool node =
     (if gi_role node \<noteq> GOSSIP_ROLE_WORKER then (0, pool)
      else
        case find_worker pool (gi_node_id node) of
          Some i \<Rightarrow> (0, with_worker i (refresh_worker now node) pool)
        | None \<Rightarrow> (0, with_worker (length (wp_workers pool)) (refresh_worker now node) (add_worker now junk node pool)))"

definition worker_pool_mark_failed :: "worker_pool \<Rightarrow> cstr \<Rightarrow> int \<times> worker_pool" where
  "worker_pool_mark_failed pool worker_id =
     (case find_worker pool worker_id of
        None \<Rightarrow> (- 1, pool)
      | Some i \<Rightarrow> (0, with_worker i (\<lambda>w. w\<lparr>wi_status := GOSSIP_NODE_FAILED\<rparr>) pool))"

section \<open>Selection\<close>

definition available :: "worker_info \<Rightarrow> bool" where
  "available w \<longleftrightarrow> wi_status w = GOSSIP_NODE_ALIVE \<and> wi_current_task_count w < wi_max_concurrent_tasks w"

fun round_robin_loop :: "nat \<Rightarrow> worker_pool \<Rightarrow> nat option \<times> worker_pool" where
  "round_robin_loop 0 pool = (None, pool)"
| "round_robin_loop (Suc attempts) pool =
     (let idx = unat (wp_round_robin_index pool) mod length (wp_workers pool);
          pool = pool\<lparr>wp_round_robin_index := wp_round_robin_index pool + 1\<rparr>
      in if available (wp_workers pool ! idx) then (Some idx, pool) else round_robin_loop attempts pool)"

definition select_round_robin :: "worker_pool \<Rightarrow> nat option \<times> worker_pool" where
  "select_round_robin pool = round_robin_loop (length (wp_workers pool)) pool"

text \<open>
  The loops of the two minimum searches: the strict comparison with the best value so far, which
  starts at \<^verbatim>\<open>UINT32_MAX\<close> and at 1.
\<close>

fun least_loop :: "(worker_info \<Rightarrow> 'k::linorder) \<Rightarrow> nat \<Rightarrow> worker_info list \<Rightarrow> nat option \<Rightarrow> 'k \<Rightarrow> nat option" where
  "least_loop key i [] best bound = best"
| "least_loop key i (w # ws) best bound =
     (if available w \<and> key w < bound then least_loop key (Suc i) ws (Some i) (key w)
      else least_loop key (Suc i) ws best bound)"

definition select_least_loaded :: "worker_pool \<Rightarrow> nat option" where
  "select_least_loaded pool = least_loop wi_current_task_count 0 (wp_workers pool) None (- 1)"

definition select_least_utilized :: "worker_pool \<Rightarrow> nat option" where
  "select_least_utilized pool = least_loop wi_utilization 0 (wp_workers pool) None 1"

fun nth_available :: "nat \<Rightarrow> nat \<Rightarrow> worker_info list \<Rightarrow> nat option" where
  "nth_available target i [] = None"
| "nth_available target i (w # ws) =
     (if available w then (if target = 0 then Some i else nth_available (target - 1) (Suc i) ws)
      else nth_available target (Suc i) ws)"

definition select_random :: "nat \<Rightarrow> worker_pool \<Rightarrow> nat option" where
  "select_random r pool =
     (let available_count = length [w \<leftarrow> wp_workers pool. available w]
      in if available_count = 0 then None
         else nth_available (r mod available_count) 0 (wp_workers pool))"

text \<open>\<open>r\<close> is the number that \<^verbatim>\<open>rand()\<close> returns. The result \<open>None\<close> is the return code -1.\<close>

definition worker_pool_select_worker :: "nat \<Rightarrow> worker_pool \<Rightarrow> worker_selection_strategy \<Rightarrow> nat option \<times> worker_pool" where
  "worker_pool_select_worker r pool strategy =
     (case strategy of
        WORKER_SELECT_ROUND_ROBIN \<Rightarrow> select_round_robin pool
      | WORKER_SELECT_LEAST_LOADED \<Rightarrow> (select_least_loaded pool, pool)
      | WORKER_SELECT_LEAST_UTILIZED \<Rightarrow> (select_least_utilized pool, pool)
      | WORKER_SELECT_RANDOM \<Rightarrow> (select_random r pool, pool))"

section \<open>Task counts and queries\<close>

definition change_task_count :: "u64 \<Rightarrow> u32 \<Rightarrow> worker_info \<Rightarrow> worker_info" where
  "change_task_count now task_delta w =
     (if sint task_delta > 0 then
        w\<lparr>wi_current_task_count := wi_current_task_count w + task_delta, wi_last_task_assigned_ms := now\<rparr>
      else if wi_current_task_count w \<ge> - task_delta then
        w\<lparr>wi_current_task_count := wi_current_task_count w + task_delta,
          wi_total_tasks_completed := wi_total_tasks_completed w + 1\<rparr>
      else w)"

definition worker_pool_update_task_count :: "u64 \<Rightarrow> worker_pool \<Rightarrow> cstr \<Rightarrow> u32 \<Rightarrow> int \<times> worker_pool" where
  "worker_pool_update_task_count now pool worker_id task_delta =
     (case find_worker pool worker_id of
        None \<Rightarrow> (- 1, pool)
      | Some i \<Rightarrow> (0, with_worker i (\<lambda>w. update_utilization (change_task_count now task_delta w)) pool))"

definition worker_pool_get_workers_by_status :: "worker_pool \<Rightarrow> gossip_node_status \<Rightarrow> worker_info list" where
  "worker_pool_get_workers_by_status pool status = [w \<leftarrow> wp_workers pool. wi_status w = status]"

definition worker_pool_get_worker_info :: "worker_pool \<Rightarrow> cstr \<Rightarrow> worker_info option" where
  "worker_pool_get_worker_info pool worker_id = map_option (\<lambda>i. wp_workers pool ! i) (find_worker pool worker_id)"

definition worker_pool_get_capacity_stats :: "worker_pool \<Rightarrow> worker_pool_capacity_stats" where
  "worker_pool_get_capacity_stats pool =
     (let alive = [w \<leftarrow> wp_workers pool. wi_status w = GOSSIP_NODE_ALIVE];
          total_capacity = foldl (\<lambda>n w. n + wi_max_concurrent_tasks w) 0 alive;
          total_utilized = foldl (\<lambda>n w. n + wi_current_task_count w) 0 alive
      in \<lparr>ws_total_workers = length (wp_workers pool), ws_alive_workers = length alive,
          ws_total_capacity = total_capacity, ws_total_utilized = total_utilized,
          ws_utilization_rate = (if total_capacity > 0 then double_quotient (uint total_utilized) (uint total_capacity) else 0),
          ws_average_load = (if alive \<noteq> [] then double_quotient (uint total_utilized) (int (length alive)) else 0)\<rparr>)"

definition worker_pool_set_strategy :: "worker_pool \<Rightarrow> worker_selection_strategy \<Rightarrow> worker_pool" where
  "worker_pool_set_strategy pool strategy = pool\<lparr>wp_strategy := strategy\<rparr>"

definition worker_pool_get_strategy :: "worker_pool \<Rightarrow> worker_selection_strategy" where
  "worker_pool_get_strategy pool = wp_strategy pool"

definition worker_selection_strategy_to_string :: "worker_selection_strategy \<Rightarrow> string" where
  "worker_selection_strategy_to_string strategy =
     (case strategy of
        WORKER_SELECT_ROUND_ROBIN \<Rightarrow> ''ROUND_ROBIN''
      | WORKER_SELECT_LEAST_LOADED \<Rightarrow> ''LEAST_LOADED''
      | WORKER_SELECT_LEAST_UTILIZED \<Rightarrow> ''LEAST_UTILIZED''
      | WORKER_SELECT_RANDOM \<Rightarrow> ''RANDOM'')"

section \<open>Searches\<close>

lemma with_worker_simps [simp]:
  "wp_workers (with_worker i f pool) = (wp_workers pool)[i := f (wp_workers pool ! i)]"
  "wp_round_robin_index (with_worker i f pool) = wp_round_robin_index pool"
  "wp_worker_capacity (with_worker i f pool) = wp_worker_capacity pool"
  by (simp_all add: with_worker_def)

lemma least_loop_cases:
  "(least_loop key i ws best bound = best \<and> (\<forall>w \<in> set ws. available w \<longrightarrow> bound \<le> key w))
   \<or> (\<exists>j < length ws. least_loop key i ws best bound = Some (i + j) \<and> available (ws ! j) \<and> key (ws ! j) < bound
        \<and> (\<forall>w \<in> set ws. available w \<longrightarrow> key (ws ! j) \<le> key w))"
proof (induction ws arbitrary: i best bound)
  case (Cons w ws)
  show ?case
  proof (cases "available w \<and> key w < bound")
    case True
    then have step: "least_loop key i (w # ws) best bound = least_loop key (Suc i) ws (Some i) (key w)" by simp
    from Cons.IH [of "Suc i" "Some i" "key w"] show ?thesis
    proof (elim disjE exE conjE)
      assume "least_loop key (Suc i) ws (Some i) (key w) = Some i" "\<forall>v \<in> set ws. available v \<longrightarrow> key w \<le> key v"
      then show ?thesis using True step by (intro disjI2 exI [of _ 0]) simp
    next
      fix j assume "j < length ws" "least_loop key (Suc i) ws (Some i) (key w) = Some (Suc i + j)" "available (ws ! j)"
        "key (ws ! j) < key w" "\<forall>v \<in> set ws. available v \<longrightarrow> key (ws ! j) \<le> key v"
      then show ?thesis using True step by (intro disjI2 exI [of _ "Suc j"]) auto
    qed
  next
    case False
    then have step: "least_loop key i (w # ws) best bound = least_loop key (Suc i) ws best bound" by auto
    from Cons.IH [of "Suc i" best bound] show ?thesis
    proof (elim disjE exE conjE)
      assume "least_loop key (Suc i) ws best bound = best" "\<forall>v \<in> set ws. available v \<longrightarrow> bound \<le> key v"
      then show ?thesis using False step by (intro disjI1) auto
    next
      fix j assume "j < length ws" "least_loop key (Suc i) ws best bound = Some (Suc i + j)" "available (ws ! j)"
        "key (ws ! j) < bound" "\<forall>v \<in> set ws. available v \<longrightarrow> key (ws ! j) \<le> key v"
      then show ?thesis using False step by (intro disjI2 exI [of _ "Suc j"]) auto
    qed
  qed
qed simp

text \<open>With a bound above the key of every available worker the search is complete.\<close>

lemma least_loop_total:
  assumes "\<forall>w \<in> set ws. available w \<longrightarrow> key w < bound"
  shows "case least_loop key 0 ws None bound of
      None \<Rightarrow> \<forall>w \<in> set ws. \<not> available w
    | Some j \<Rightarrow> j < length ws \<and> available (ws ! j) \<and> (\<forall>w \<in> set ws. available w \<longrightarrow> key (ws ! j) \<le> key w)"
  using least_loop_cases [of key 0 ws None bound] assms by (auto simp: not_le [symmetric])

text \<open>The search depends on the order of the keys only.\<close>

lemma least_loop_mono:
  assumes "\<forall>w \<in> set ws. available w \<longrightarrow> (key w < bound \<longleftrightarrow> key' w < bound')"
    and "\<forall>v \<in> set ws. \<forall>w \<in> set ws. available v \<and> available w \<longrightarrow> (key v < key w \<longleftrightarrow> key' v < key' w)"
  shows "least_loop key i ws best bound = least_loop key' i ws best bound'"
  using assms
proof (induction ws arbitrary: i best bound bound')
  case (Cons w ws)
  then show ?case by (cases "available w") auto
qed simp

lemma nth_available_Some:
  "t < length [w \<leftarrow> ws. available w]
     \<Longrightarrow> \<exists>j < length ws. nth_available t i ws = Some (i + j) \<and> available (ws ! j)"
proof (induction ws arbitrary: t i)
  case (Cons w ws)
  show ?case
  proof (cases "available w \<and> t = 0")
    case False
    then have "(if available w then t - 1 else t) < length [w \<leftarrow> ws. available w]"
      using Cons.prems by (auto split: if_splits)
    from Cons.IH [OF this, of "Suc i"] obtain j where
      "j < length ws" "nth_available (if available w then t - 1 else t) (Suc i) ws = Some (Suc i + j)" "available (ws ! j)"
      by blast
    then show ?thesis using False by (intro exI [of _ "Suc j"]) (auto split: if_splits)
  qed (intro exI [of _ 0], simp)
qed simp

lemma select_random_correct:
  "case select_random r pool of
     None \<Rightarrow> \<forall>w \<in> set (wp_workers pool). \<not> available w
   | Some i \<Rightarrow> i < length (wp_workers pool) \<and> available (wp_workers pool ! i)"
proof (cases "[w \<leftarrow> wp_workers pool. available w] = []")
  case True
  then show ?thesis by (auto simp: select_random_def filter_empty_conv)
next
  case False
  then have "r mod length [w \<leftarrow> wp_workers pool. available w] < length [w \<leftarrow> wp_workers pool. available w]" by simp
  from nth_available_Some [OF this, of 0] False show ?thesis by (auto simp: select_random_def)
qed

section \<open>Round robin\<close>

lemma round_robin_loop_sound:
  assumes "wp_workers pool \<noteq> []"
  shows "wp_workers (snd (round_robin_loop m pool)) = wp_workers pool
     \<and> (case fst (round_robin_loop m pool) of
          None \<Rightarrow> True | Some i \<Rightarrow> i < length (wp_workers pool) \<and> available (wp_workers pool ! i))"
  using assms
proof (induction m arbitrary: pool)
  case (Suc m)
  show ?case
  proof (cases "available (wp_workers pool ! (unat (wp_round_robin_index pool) mod length (wp_workers pool)))")
    case True
    then show ?thesis using Suc.prems by (simp add: Let_def)
  next
    case False
    then show ?thesis using Suc.prems Suc.IH [of "pool\<lparr>wp_round_robin_index := wp_round_robin_index pool + 1\<rparr>"]
      by (simp add: Let_def split: option.splits)
  qed
qed simp

text \<open>The first position from the index on whose worker is available is the one selected.\<close>

definition rr_available :: "worker_pool \<Rightarrow> nat \<Rightarrow> bool" where
  "rr_available pool p \<longleftrightarrow> available (wp_workers pool ! (p mod length (wp_workers pool)))"

lemma round_robin_loop_hit:
  assumes "d < m" and "\<forall>j < d. \<not> rr_available pool (unat (wp_round_robin_index pool) + j)"
    and "rr_available pool (unat (wp_round_robin_index pool) + d)" and "unat (wp_round_robin_index pool) + d < 2 ^ 64"
  shows "round_robin_loop m pool
    = (Some ((unat (wp_round_robin_index pool) + d) mod length (wp_workers pool)),
       pool\<lparr>wp_round_robin_index := wp_round_robin_index pool + of_nat (Suc d)\<rparr>)"
  using assms
proof (induction d arbitrary: m pool)
  case 0
  then show ?case by (cases m) (simp_all add: rr_available_def)
next
  case (Suc d)
  let ?x = "wp_round_robin_index pool" and ?pool = "pool\<lparr>wp_round_robin_index := wp_round_robin_index pool + 1\<rparr>"
  obtain m' where m: "m = Suc m'" using Suc.prems(1) by (cases m) auto
  have "unat (?x + 1) = Suc (unat ?x)" using Suc.prems(4) by (simp add: unat_word_ariths)
  then have pos: "unat (?x + 1) + j = unat ?x + Suc j" for j by simp
  have same: "rr_available ?pool = rr_available pool" by (simp add: rr_available_def fun_eq_iff)
  have "\<not> rr_available pool (unat ?x + Suc j)" if "j < d" for j using Suc.prems(2) that by (simp del: add_Suc_right)
  then have "round_robin_loop m' ?pool = (Some ((unat (?x + 1) + d) mod length (wp_workers pool)),
       ?pool\<lparr>wp_round_robin_index := ?x + 1 + of_nat (Suc d)\<rparr>)"
    using Suc.IH [of m' ?pool] Suc.prems m by (simp add: pos same)
  moreover have "round_robin_loop m pool = round_robin_loop m' ?pool"
    using Suc.prems(2) [rule_format, of 0] m by (simp add: Let_def rr_available_def)
  moreover have "?x + 1 + of_nat (Suc d) = ?x + of_nat (Suc (Suc d))" by (simp add: algebra_simps)
  ultimately show ?case by (simp only: pos) simp
qed

text \<open>Several selections in a row on an unchanged pool.\<close>

fun rr_run :: "nat \<Rightarrow> worker_pool \<Rightarrow> nat option list" where
  "rr_run 0 pool = []"
| "rr_run (Suc k) pool =
     (case worker_pool_select_worker 0 pool WORKER_SELECT_ROUND_ROBIN of (res, pool) \<Rightarrow> res # rr_run k pool)"

lemma filter_upt_Cons:
  assumes "[p \<leftarrow> [a..<b]. P p] = q # qs"
  shows "a \<le> q" and "q < b" and "P q" and "\<forall>p. a \<le> p \<and> p < q \<longrightarrow> \<not> P p" and "[p \<leftarrow> [Suc q..<b]. P p] = qs"
proof -
  have "q \<in> set [p \<leftarrow> [a..<b]. P p]" using assms by simp
  then show q: "a \<le> q" "q < b" "P q" by auto
  have split: "[a..<b] = [a..<q] @ q # [Suc q..<b]"
    using q by (metis le_less upt_add_eq_append upt_conv_Cons le_add_diff_inverse)
  have "[p \<leftarrow> [a..<q]. P p] = []"
  proof (rule ccontr)
    assume "[p \<leftarrow> [a..<q]. P p] \<noteq> []"
    then obtain r rs where r: "[p \<leftarrow> [a..<q]. P p] = r # rs" by (cases "[p \<leftarrow> [a..<q]. P p]") auto
    then have "r = q" using assms split by simp
    moreover have "r \<in> set [a..<q]" using r by (metis filter_is_subset list.set_intros(1) subsetD)
    ultimately show False by simp
  qed
  then show "\<forall>p. a \<le> p \<and> p < q \<longrightarrow> \<not> P p" "[p \<leftarrow> [Suc q..<b]. P p] = qs"
    using assms split q by (auto simp: filter_empty_conv)
qed

lemma rr_exists:
  assumes "\<exists>w \<in> set (wp_workers pool). available w"
  shows "\<exists>j < length (wp_workers pool). rr_available pool (x + j)"
proof -
  let ?n = "length (wp_workers pool)"
  obtain i where i: "i < ?n" "available (wp_workers pool ! i)" using assms by (auto simp: in_set_conv_nth)
  have "0 < ?n" using i(1) by (rule le_less_trans [OF le0])
  then have "i \<in> set (map (\<lambda>j. (x + j) mod ?n) [0..<?n])" using i(1) by (simp only: mod_probe(2) lessThan_iff)
  then show ?thesis using i by (auto simp: rr_available_def)
qed

lemma rr_run_filter:
  assumes "\<exists>w \<in> set (wp_workers pool). available w" and "unat (wp_round_robin_index pool) \<le> b" and "b < 2 ^ 64"
    and "k \<le> length [p \<leftarrow> [unat (wp_round_robin_index pool)..<b]. rr_available pool p]"
  shows "rr_run k pool = map (\<lambda>p. Some (p mod length (wp_workers pool)))
      (take k [p \<leftarrow> [unat (wp_round_robin_index pool)..<b]. rr_available pool p])"
  using assms
proof (induction k arbitrary: pool)
  case (Suc k)
  let ?x = "unat (wp_round_robin_index pool)" and ?n = "length (wp_workers pool)"
  obtain q qs where q: "[p \<leftarrow> [?x..<b]. rr_available pool p] = q # qs"
    using Suc.prems(4) by (cases "[p \<leftarrow> [?x..<b]. rr_available pool p]") auto
  note hit = filter_upt_Cons [OF q]
  let ?pool = "pool\<lparr>wp_round_robin_index := wp_round_robin_index pool + of_nat (Suc (q - ?x))\<rparr>"
  obtain j where j: "j < ?n" "rr_available pool (?x + j)" using rr_exists [OF Suc.prems(1)] by blast
  have d: "q - ?x < ?n"
  proof (rule ccontr)
    assume "\<not> q - ?x < ?n"
    then have "?x + j < q" using j(1) hit(1) by linarith
    then show False using hit(4) j(2) by simp
  qed
  have sel: "round_robin_loop ?n pool = (Some (q mod ?n), ?pool)"
    using round_robin_loop_hit [of "q - ?x" ?n pool] d hit Suc.prems(3) by simp
  have x': "unat (wp_round_robin_index pool + of_nat (Suc (q - ?x))) = Suc q"
    using hit(1,2) Suc.prems(3) by (simp add: unat_word_ariths unat_of_nat)
  have same: "rr_available ?pool = rr_available pool" by (simp add: rr_available_def fun_eq_iff)
  have "rr_run k ?pool = map (\<lambda>p. Some (p mod ?n)) (take k qs)"
    using Suc.IH [of ?pool] Suc.prems hit(2,5) q x' same by simp
  then show ?case using sel q by (simp add: worker_pool_select_worker_def select_round_robin_def)
qed simp

lemma filter_map_shift:
  "map f [p \<leftarrow> [x..<x + n]. P (f p)] = [i \<leftarrow> map (\<lambda>j. f (x + j)) [0..<n]. P i]"
proof -
  have "[x..<x + n] = map (\<lambda>j. x + j) [0..<n]" by (simp add: map_add_upt add.commute)
  then show ?thesis by (simp add: filter_map comp_def)
qed

text \<open>
  Round robin is fair: on an unchanged pool, as many selections in a row as there are available
  workers pick every available worker exactly once, wherever the rotating index stands (below its
  64 bit end).
\<close>

lemma round_robin_fair:
  assumes "\<exists>w \<in> set (wp_workers pool). available w"
    and "unat (wp_round_robin_index pool) + length (wp_workers pool) < 2 ^ 64"
  shows "\<exists>picked. rr_run (length [w \<leftarrow> wp_workers pool. available w]) pool = map Some picked \<and> distinct picked
    \<and> set picked = {i. i < length (wp_workers pool) \<and> available (wp_workers pool ! i)}"
proof -
  let ?n = "length (wp_workers pool)" and ?x = "unat (wp_round_robin_index pool)" and ?ok = "\<lambda>i. available (wp_workers pool ! i)"
  let ?ps = "[p \<leftarrow> [?x..<?x + ?n]. rr_available pool p]"
  have "0 < ?n" using assms(1) by auto
  note probe = mod_probe [OF this, of ?x]
  have picked: "map (\<lambda>p. p mod ?n) ?ps = [i \<leftarrow> map (\<lambda>j. (?x + j) mod ?n) [0..<?n]. ?ok i]" (is "_ = ?picked")
    using filter_map_shift [of "\<lambda>p. p mod ?n" ?ok ?x ?n] by (simp add: rr_available_def)
  have set: "set ?picked = {i. i < ?n \<and> ?ok i}" using probe(2) by auto
  have dist: "distinct ?picked" using probe(1) by (rule distinct_filter)
  have "length ?picked = card (set ?picked)" using dist by (rule distinct_card [symmetric])
  also have "\<dots> = length [w \<leftarrow> wp_workers pool. available w]" by (simp only: set length_filter_conv_card)
  finally have len: "length ?ps = length [w \<leftarrow> wp_workers pool. available w]" using picked by (metis length_map)
  then have "rr_run (length [w \<leftarrow> wp_workers pool. available w]) pool = map (\<lambda>p. Some (p mod ?n)) ?ps"
    using rr_run_filter [OF assms(1), of "?x + ?n"] assms(2) by simp
  then have "rr_run (length [w \<leftarrow> wp_workers pool. available w]) pool = map Some ?picked"
    by (simp add: picked [symmetric] comp_def)
  then show ?thesis using set dist by blast
qed

section \<open>The invariant of the pool\<close>

definition worker_ok :: "worker_info \<Rightarrow> bool" where
  "worker_ok w \<longleftrightarrow> wi_max_concurrent_tasks w = 10 \<and> wi_utilization w = double_quotient (uint (wi_current_task_count w)) 10"

definition pool_ok :: "worker_pool \<Rightarrow> bool" where
  "pool_ok pool \<longleftrightarrow> distinct (map wi_worker_id (wp_workers pool)) \<and> list_all worker_ok (wp_workers pool)
     \<and> length (wp_workers pool) \<le> wp_worker_capacity pool \<and> 0 < wp_worker_capacity pool"

lemma worker_ok_update: "wi_max_concurrent_tasks w = 10 \<Longrightarrow> worker_ok (update_utilization w)"
  by (simp add: worker_ok_def update_utilization_def)

lemma available_bounds:
  assumes "worker_ok w" and "available w"
  shows "wi_current_task_count w < - 1" and "wi_utilization w < 1"
proof -
  have lt: "wi_current_task_count w < 10" using assms by (simp add: worker_ok_def available_def)
  also have "10 < (- 1 :: u32)" by simp
  finally show "wi_current_task_count w < - 1" .
  have "uint (wi_current_task_count w) < 10" using lt by (simp add: word_less_def)
  then show "wi_utilization w < 1" using assms(1) by (simp add: worker_ok_def double_quotient_below_1)
qed

lemma utilization_less:
  assumes "worker_ok v" and "worker_ok w"
  shows "wi_utilization v < wi_utilization w \<longleftrightarrow> wi_current_task_count v < wi_current_task_count w"
proof -
  have less: "double_quotient (uint m) 10 < double_quotient (uint n) 10" if "m < n" for m n :: u32
    using that unsigned_less [of n, where ?'a = int] by (intro double_quotient_less) (simp_all add: word_less_def)
  show ?thesis
    using assms less [of "wi_current_task_count v" "wi_current_task_count w"] less [of "wi_current_task_count w" "wi_current_task_count v"]
    unfolding worker_ok_def by (cases "wi_current_task_count v" "wi_current_task_count w" rule: linorder_cases) auto
qed

text \<open>All workers have the same capacity, so both minimum searches make the same comparisons.\<close>

lemma least_utilized_is_least_loaded:
  assumes "pool_ok pool"
  shows "select_least_utilized pool = select_least_loaded pool"
  unfolding select_least_utilized_def select_least_loaded_def
proof (rule least_loop_mono)
  have ok: "worker_ok w" if "w \<in> set (wp_workers pool)" for w using assms that by (simp add: pool_ok_def list_all_iff)
  show "\<forall>w \<in> set (wp_workers pool). available w \<longrightarrow> (wi_utilization w < 1) = (wi_current_task_count w < - 1)"
    using available_bounds ok by blast
  show "\<forall>v \<in> set (wp_workers pool). \<forall>w \<in> set (wp_workers pool). available v \<and> available w
      \<longrightarrow> (wi_utilization v < wi_utilization w) = (wi_current_task_count v < wi_current_task_count w)"
    using ok utilization_less by blast
qed

lemma select_worker_keeps: "wp_workers (snd (worker_pool_select_worker r pool strategy)) = wp_workers pool
    \<and> wp_worker_capacity (snd (worker_pool_select_worker r pool strategy)) = wp_worker_capacity pool"
proof -
  have "wp_workers (snd (round_robin_loop m pool)) = wp_workers pool
      \<and> wp_worker_capacity (snd (round_robin_loop m pool)) = wp_worker_capacity pool" for m
    by (induction m arbitrary: pool) (simp_all add: Let_def)
  then show ?thesis by (cases strategy) (simp_all add: worker_pool_select_worker_def select_round_robin_def)
qed

lemma round_robin_complete:
  assumes "\<exists>w \<in> set (wp_workers pool). available w"
    and "unat (wp_round_robin_index pool) + length (wp_workers pool) < 2 ^ 64"
  shows "fst (select_round_robin pool) \<noteq> None"
proof -
  let ?x = "unat (wp_round_robin_index pool)" and ?n = "length (wp_workers pool)"
  obtain j where "j < ?n" "rr_available pool (?x + j)" using rr_exists [OF assms(1)] by blast
  then obtain d where "d \<le> j" "rr_available pool (?x + d)" "\<forall>i < d. \<not> rr_available pool (?x + i)" "j < ?n"
    using ex_least_nat_le [of "\<lambda>j. rr_available pool (?x + j)" j] by blast
  then show ?thesis using round_robin_loop_hit [of d ?n pool] assms(2) by (simp add: select_round_robin_def)
qed

lemma least_loaded_total:
  assumes "pool_ok pool"
  shows "case select_least_loaded pool of
      None \<Rightarrow> \<forall>w \<in> set (wp_workers pool). \<not> available w
    | Some j \<Rightarrow> j < length (wp_workers pool) \<and> available (wp_workers pool ! j)
        \<and> (\<forall>w \<in> set (wp_workers pool). available w
             \<longrightarrow> wi_current_task_count (wp_workers pool ! j) \<le> wi_current_task_count w)"
  unfolding select_least_loaded_def
  using assms available_bounds(1) by (intro least_loop_total) (simp add: pool_ok_def list_all_iff)

lemma select_worker_sound:
  assumes "pool_ok pool" and "fst (worker_pool_select_worker r pool strategy) = Some i"
  shows "i < length (wp_workers pool)" and "available (wp_workers pool ! i)"
proof -
  have ne: "wp_workers pool \<noteq> []" if "strategy = WORKER_SELECT_ROUND_ROBIN"
    using assms(2) that by (auto simp: worker_pool_select_worker_def select_round_robin_def)
  have "i < length (wp_workers pool) \<and> available (wp_workers pool ! i)"
  proof (cases strategy)
    case WORKER_SELECT_ROUND_ROBIN
    then show ?thesis using assms(2) round_robin_loop_sound [OF ne, of "length (wp_workers pool)"]
      by (simp add: worker_pool_select_worker_def select_round_robin_def)
  next
    case WORKER_SELECT_RANDOM
    then show ?thesis using assms(2) select_random_correct [where r = r and pool = pool] by (simp add: worker_pool_select_worker_def)
  qed (use assms least_loaded_total [OF assms(1)] in \<open>simp_all add: worker_pool_select_worker_def
      least_utilized_is_least_loaded\<close>)
  then show "i < length (wp_workers pool)" "available (wp_workers pool ! i)" by auto
qed

text \<open>
  The selection is correct for every strategy: if it returns a worker, that worker is alive and
  below its capacity, and for the two least-load strategies no available worker has fewer tasks; it
  reports that there is none only if no worker is available; the workers are not changed.
\<close>

lemma select_worker_correct:
  assumes "pool_ok pool" and "unat (wp_round_robin_index pool) + length (wp_workers pool) < 2 ^ 64"
  shows "wp_workers (snd (worker_pool_select_worker r pool strategy)) = wp_workers pool
    \<and> (case fst (worker_pool_select_worker r pool strategy) of
         None \<Rightarrow> \<not> (\<exists>w \<in> set (wp_workers pool). available w)
       | Some i \<Rightarrow> i < length (wp_workers pool) \<and> available (wp_workers pool ! i)
           \<and> (strategy = WORKER_SELECT_LEAST_LOADED \<or> strategy = WORKER_SELECT_LEAST_UTILIZED \<longrightarrow>
                (\<forall>w \<in> set (wp_workers pool). available w
                   \<longrightarrow> wi_current_task_count (wp_workers pool ! i) \<le> wi_current_task_count w)))"
proof (cases "fst (worker_pool_select_worker r pool strategy)")
  case None
  have "\<not> (\<exists>w \<in> set (wp_workers pool). available w)"
  proof (cases strategy)
    case WORKER_SELECT_ROUND_ROBIN
    then show ?thesis using None round_robin_complete [OF _ assms(2)] by (auto simp: worker_pool_select_worker_def)
  next
    case WORKER_SELECT_RANDOM
    then show ?thesis using None select_random_correct [where r = r and pool = pool] by (simp add: worker_pool_select_worker_def)
  qed (use None least_loaded_total [OF assms(1)] assms(1) in \<open>simp_all add: worker_pool_select_worker_def
      least_utilized_is_least_loaded\<close>)
  then show ?thesis using None select_worker_keeps [of r pool strategy] by simp
next
  case (Some i)
  then have "\<forall>w \<in> set (wp_workers pool). available w
      \<longrightarrow> wi_current_task_count (wp_workers pool ! i) \<le> wi_current_task_count w"
    if "strategy = WORKER_SELECT_LEAST_LOADED \<or> strategy = WORKER_SELECT_LEAST_UTILIZED"
    using that least_loaded_total [OF assms(1)] assms(1)
    by (auto simp: worker_pool_select_worker_def least_utilized_is_least_loaded)
  then show ?thesis using Some select_worker_sound [OF assms(1) Some] select_worker_keeps [of r pool strategy] by simp
qed

section \<open>Sequences of operations\<close>

text \<open>What the users of the pool do: gossip news, failures, selections and changes of task counts, by any amount.\<close>

datatype pool_op =
    Gossip_news u64 gossip_node_info
  | Worker_failed cstr
  | Select nat worker_selection_strategy
  | Update u64 cstr u32
  | Set_strategy worker_selection_strategy

fun pool_step :: "(nat \<Rightarrow> worker_info) \<Rightarrow> worker_pool \<Rightarrow> pool_op \<Rightarrow> worker_pool" where
  "pool_step junk pool (Gossip_news now node) = snd (worker_pool_update_from_gossip now (junk (length (wp_workers pool))) pool node)"
| "pool_step junk pool (Worker_failed worker_id) = snd (worker_pool_mark_failed pool worker_id)"
| "pool_step junk pool (Select r strategy) = snd (worker_pool_select_worker r pool strategy)"
| "pool_step junk pool (Update now worker_id task_delta) = snd (worker_pool_update_task_count now pool worker_id task_delta)"
| "pool_step junk pool (Set_strategy strategy) = worker_pool_set_strategy pool strategy"

fun pool_op_wf :: "pool_op \<Rightarrow> bool" where
  "pool_op_wf (Gossip_news now node) \<longleftrightarrow> wf_cstr 64 (gi_node_id node)"
| "pool_op_wf _ \<longleftrightarrow> True"

lemma pool_ok_with_worker:
  assumes "pool_ok pool" and "\<And>w. worker_ok w \<Longrightarrow> worker_ok (f w) \<and> wi_worker_id (f w) = wi_worker_id w"
  shows "pool_ok (with_worker i f pool)"
proof (cases "i < length (wp_workers pool)")
  case True
  have "worker_ok (wp_workers pool ! i)" using assms(1) True by (simp add: pool_ok_def list_all_length)
  moreover have "map wi_worker_id ((wp_workers pool)[i := f (wp_workers pool ! i)]) = map wi_worker_id (wp_workers pool)"
    using assms(2) [OF calculation] True by (simp add: map_update list_update_same_conv)
  ultimately show ?thesis using assms True by (auto simp: pool_ok_def list_all_length nth_list_update)
qed (use assms(1) in \<open>simp add: pool_ok_def list_update_beyond\<close>)

lemma find_worker_None: "find_worker pool x = None \<longleftrightarrow> x \<notin> wi_worker_id ` set (wp_workers pool)"
  by (simp add: find_worker_def key_index_None)

lemma pool_ok_create: "pool_ok worker_pool_create"
  by (simp add: pool_ok_def worker_pool_create_def)

lemma update_utilization_simps [simp]:
  "wi_worker_id (update_utilization w) = wi_worker_id w"
  "wi_current_task_count (update_utilization w) = wi_current_task_count w"
  "wi_max_concurrent_tasks (update_utilization w) = wi_max_concurrent_tasks w"
  by (simp_all add: update_utilization_def)

lemma refresh_worker_ok: "worker_ok w \<Longrightarrow> worker_ok (refresh_worker now node w)"
  by (simp add: refresh_worker_def worker_ok_update worker_ok_def update_utilization_def)

lemma change_task_count_max [simp]:
  "wi_max_concurrent_tasks (change_task_count now d w) = wi_max_concurrent_tasks w"
  "wi_worker_id (change_task_count now d w) = wi_worker_id w"
  by (simp_all add: change_task_count_def)

lemma worker_ok_change: "worker_ok w \<Longrightarrow> worker_ok (update_utilization (change_task_count now d w))"
  by (intro worker_ok_update) (simp add: worker_ok_def)

lemma update_from_gossip_ok:
  assumes "pool_ok pool" and "wf_cstr 64 (gi_node_id node)"
  shows "pool_ok (snd (worker_pool_update_from_gossip now junk pool node))"
proof (cases "find_worker pool (gi_node_id node)")
  case (Some i)
  have "pool_ok (with_worker i (refresh_worker now node) pool)"
    using assms(1) refresh_worker_ok by (intro pool_ok_with_worker) (auto simp: refresh_worker_def)
  then show ?thesis using Some assms(1) by (simp add: worker_pool_update_from_gossip_def)
next
  case None
  let ?ws = "wp_workers pool"
  let ?w = "refresh_worker now node ((fresh_slot junk pool)\<lparr>wi_worker_id := strncpy 63 (gi_node_id node),
      wi_address := strncpy 255 (gi_address node), wi_port := gi_port node, wi_joined_at_ms := now, wi_max_concurrent_tasks := 10\<rparr>)"
  let ?pool = "with_worker (length ?ws) (refresh_worker now node) (add_worker now junk node pool)"
  have ws: "wp_workers ?pool = ?ws @ [?w]" by (simp add: add_worker_def Let_def)
  have id: "wi_worker_id ?w = gi_node_id node" using assms(2) strncpy_id [of 63] by (simp add: refresh_worker_def)
  have ok: "worker_ok ?w" by (simp add: refresh_worker_def worker_ok_update)
  moreover have "gi_node_id node \<notin> wi_worker_id ` set ?ws" using None by (simp add: find_worker_None)
  moreover have "length ?ws < wp_worker_capacity ?pool"
    using assms(1) by (auto simp: pool_ok_def add_worker_def Let_def)
  ultimately have "pool_ok ?pool"
    using assms(1) id unfolding pool_ok_def ws by auto
  then show ?thesis using None assms(1) by (simp add: worker_pool_update_from_gossip_def)
qed

lemma pool_step_ok:
  assumes "pool_ok pool" and "pool_op_wf p"
  shows "pool_ok (pool_step junk pool p)"
proof (cases p)
  case (Gossip_news now node)
  then show ?thesis using update_from_gossip_ok [OF assms(1)] assms(2) by simp
next
  case (Worker_failed x)
  have "pool_ok (with_worker i (\<lambda>w. w\<lparr>wi_status := GOSSIP_NODE_FAILED\<rparr>) pool)" for i
    using assms(1) by (intro pool_ok_with_worker) (auto simp: worker_ok_def)
  then show ?thesis using Worker_failed assms(1) by (simp add: worker_pool_mark_failed_def split: option.split)
next
  case (Update now x d)
  have "pool_ok (with_worker i (\<lambda>w. update_utilization (change_task_count now d w)) pool)" for i
    using assms by (intro pool_ok_with_worker) (auto intro: worker_ok_change)
  then show ?thesis using Update assms(1) by (simp add: worker_pool_update_task_count_def split: option.split)
next
  case (Select r strategy)
  then show ?thesis using select_worker_keeps [of r pool strategy] assms(1) by (simp add: pool_ok_def)
next
  case (Set_strategy strategy)
  then show ?thesis using assms(1) by (simp add: pool_ok_def worker_pool_set_strategy_def)
qed

lemma pool_run_ok:
  assumes "list_all pool_op_wf ops"
  shows "pool_ok (foldl (pool_step junk) worker_pool_create ops)"
proof -
  have "pool_ok pool \<Longrightarrow> list_all pool_op_wf ops \<Longrightarrow> pool_ok (foldl (pool_step junk) pool ops)" for pool
    by (induction ops arbitrary: pool) (simp_all add: pool_step_ok)
  then show ?thesis using assms pool_ok_create by simp
qed


section \<open>Concrete runs\<close>

definition sample_worker_node :: "nat \<Rightarrow> gossip_node_info" where
  "sample_worker_node i = \<lparr>gi_node_id = [119, of_nat (48 + i)], gi_address = [104], gi_port = 7000,
     gi_status = GOSSIP_NODE_ALIVE, gi_role = GOSSIP_ROLE_WORKER, gi_incarnation = 1, gi_last_seen_ms = 0, gi_load = 0\<rparr>"

definition sample_pool_ops :: "pool_op list" where
  "sample_pool_ops = [Gossip_news 1 (sample_worker_node 0), Gossip_news 2 (sample_worker_node 1),
     Gossip_news 3 (sample_worker_node 2), Worker_failed [119, 49], Select 0 WORKER_SELECT_LEAST_LOADED,
     Update 4 [119, 48] 3, Update 5 [119, 50] 2, Update 6 [119, 48] (- 1), Update 7 [119, 50] 6]"

definition sample_pool :: worker_pool where
  "sample_pool = foldl (pool_step (\<lambda>i. zero_worker)) worker_pool_create sample_pool_ops"

lemma sample_pool_ops_wf: "list_all pool_op_wf sample_pool_ops"
  by (simp add: sample_pool_ops_def sample_worker_node_def wf_cstr_def)

lemma sample_pool_ok: "pool_ok sample_pool"
  using pool_run_ok [OF sample_pool_ops_wf] by (simp add: sample_pool_def)

lemma sample_pool_index: "unat (wp_round_robin_index sample_pool) + length (wp_workers sample_pool) < 2 ^ 64"
proof -
  have "wp_round_robin_index sample_pool = 0 \<and> length (wp_workers sample_pool) = 3" by code_simp
  then show ?thesis by simp
qed


lemma select_worker_correct_witness:
  "fst (worker_pool_select_worker 0 sample_pool WORKER_SELECT_LEAST_LOADED) = Some 0
    \<and> available (wp_workers sample_pool ! 0)"
proof -
  have sel: "fst (worker_pool_select_worker 0 sample_pool WORKER_SELECT_LEAST_LOADED) = Some 0" by code_simp
  from select_worker_correct [OF sample_pool_ok sample_pool_index, of 0 WORKER_SELECT_LEAST_LOADED] show ?thesis
    by (simp add: sel)
qed

lemma round_robin_fair_witness:
  "rr_run 2 sample_pool = [Some 0, Some 2]
    \<and> (\<exists>picked. rr_run (length [w \<leftarrow> wp_workers sample_pool. available w]) sample_pool = map Some picked \<and> distinct picked
        \<and> set picked = {i. i < length (wp_workers sample_pool) \<and> available (wp_workers sample_pool ! i)})"
proof
  show "rr_run 2 sample_pool = [Some 0, Some 2]" by code_simp
  have "list_ex available (wp_workers sample_pool)" by code_simp
  then have a: "\<exists>w \<in> set (wp_workers sample_pool). available w" by (simp add: list_ex_iff)
  from round_robin_fair [OF a sample_pool_index] show "\<exists>picked. rr_run (length [w \<leftarrow> wp_workers sample_pool. available w]) sample_pool
      = map Some picked \<and> distinct picked
        \<and> set picked = {i. i < length (wp_workers sample_pool) \<and> available (wp_workers sample_pool ! i)}" .
qed

text \<open>
  The seventeenth worker is written into memory that \<^verbatim>\<open>realloc\<close> did not clear: it can start with any
  task count, and with ten or more it is never selected although it runs nothing.
\<close>

lemma grown_slot_uninitialised:
  assumes "length (wp_workers pool) \<ge> 16" and "gi_role node = GOSSIP_ROLE_WORKER" and "find_worker pool (gi_node_id node) = None"
    and "wi_current_task_count junk \<ge> 10"
  shows "\<not> available (wp_workers (snd (worker_pool_update_from_gossip now junk pool node)) ! length (wp_workers pool))"
  using assms
  by (simp add: worker_pool_update_from_gossip_def add_worker_def fresh_slot_def refresh_worker_def available_def Let_def not_less)

end
