(* ===== verification/ConfigManager.thy ===== *)
theory ConfigManager
  imports RaftNode
begin

text \<open>
  The replicated cluster configuration of \<^verbatim>\<open>distric_cluster/src/config_manager.c\<close>: nodes and string
  parameters, changed by entries of the Raft log. Structs are copied as memory by the code; their
  byte layout (little-endian, natural alignment) is written out here. Allocation failure, log output
  and metrics are left out; the state lock makes each operation one function.
\<close>

section \<open>Data\<close>

definition CONFIG_SERIALIZE_MAGIC :: u32 where
  "CONFIG_SERIALIZE_MAGIC = 0x44435347"

definition CONFIG_SERIALIZE_VERSION :: u32 where
  "CONFIG_SERIALIZE_VERSION = 1"

definition CONFIG_NODE_ROLE_COORDINATOR :: u32 where
  "CONFIG_NODE_ROLE_COORDINATOR = 0"

definition CONFIG_NODE_ROLE_WORKER :: u32 where
  "CONFIG_NODE_ROLE_WORKER = 1"

definition CONFIG_OP_ADD_NODE :: u32 where
  "CONFIG_OP_ADD_NODE = 0"

definition CONFIG_OP_REMOVE_NODE :: u32 where
  "CONFIG_OP_REMOVE_NODE = 1"

definition CONFIG_OP_UPDATE_NODE :: u32 where
  "CONFIG_OP_UPDATE_NODE = 2"

definition CONFIG_OP_SET_PARAM :: u32 where
  "CONFIG_OP_SET_PARAM = 3"

definition CONFIG_OP_DELETE_PARAM :: u32 where
  "CONFIG_OP_DELETE_PARAM = 4"

definition CONFIG_OP_BATCH :: u32 where
  "CONFIG_OP_BATCH = 5"

lemmas config_op_defs = CONFIG_OP_ADD_NODE_def CONFIG_OP_REMOVE_NODE_def CONFIG_OP_UPDATE_NODE_def
  CONFIG_OP_SET_PARAM_def CONFIG_OP_DELETE_PARAM_def CONFIG_OP_BATCH_def

record config_node_entry =
  cn_node_id :: cstr
  cn_role :: u32
  cn_address :: cstr
  cn_port :: u16
  cn_enabled :: bool

record config_param_entry =
  cp_key :: cstr
  cp_value :: cstr
  cp_description :: cstr

record config_state =
  cf_version :: u32
  cf_timestamp_ms :: u64
  cf_nodes :: "config_node_entry list"
  cf_node_capacity :: nat
  cf_params :: "config_param_entry list"
  cf_param_capacity :: nat
  cf_gossip_interval_ms :: u32
  cf_gossip_suspect_timeout_ms :: u32
  cf_raft_election_timeout_min_ms :: u32
  cf_raft_election_timeout_max_ms :: u32
  cf_raft_heartbeat_interval_ms :: u32
  cf_task_assignment_timeout_ms :: u32
  cf_task_execution_timeout_ms :: u32
  cf_max_tasks_per_worker :: u32

record config_change =
  cg_operation :: u32
  cg_node :: config_node_entry
  cg_param :: config_param_entry
  cg_batch_data :: "bytes option"
  cg_batch_size :: nat

record config_manager =
  cm_current_state :: config_state
  cm_running :: bool

definition zero_node :: config_node_entry where
  "zero_node = \<lparr>cn_node_id = [], cn_role = 0, cn_address = [], cn_port = 0, cn_enabled = False\<rparr>"

definition zero_param :: config_param_entry where
  "zero_param = \<lparr>cp_key = [], cp_value = [], cp_description = []\<rparr>"

section \<open>Lifecycle\<close>

definition config_manager_create :: "u64 \<Rightarrow> config_manager" where
  "config_manager_create now = \<lparr>cm_current_state = \<lparr>cf_version = 0, cf_timestamp_ms = now, cf_nodes = [],
     cf_node_capacity = 16, cf_params = [], cf_param_capacity = 32, cf_gossip_interval_ms = 1000,
     cf_gossip_suspect_timeout_ms = 5000, cf_raft_election_timeout_min_ms = 150,
     cf_raft_election_timeout_max_ms = 300, cf_raft_heartbeat_interval_ms = 50,
     cf_task_assignment_timeout_ms = 5000, cf_task_execution_timeout_ms = 300000,
     cf_max_tasks_per_worker = 10\<rparr>, cm_running = False\<rparr>"

definition config_manager_start :: "config_manager \<Rightarrow> config_manager" where
  "config_manager_start manager = manager\<lparr>cm_running := True\<rparr>"

definition config_manager_stop :: "config_manager \<Rightarrow> config_manager" where
  "config_manager_stop manager = manager\<lparr>cm_running := False\<rparr>"

section \<open>Serialisation\<close>

text \<open>
  A node entry in memory: identifier, role, address, port, flag and one byte of padding, 328 bytes;
  a parameter entry: three strings, 640 bytes. \<open>uninit\<close> gives the bytes that nobody initialised, by
  their offset in the buffer.
\<close>

definition node_image :: "(nat \<Rightarrow> u8) \<Rightarrow> config_node_entry \<Rightarrow> bytes" where
  "node_image uninit node =
     char_field 64 (cn_node_id node) @ le_bytes 4 (cn_role node) @ char_field 256 (cn_address node)
     @ le_bytes 2 (cn_port node) @ [if cn_enabled node then 1 else 0] @ [uninit 327]"

definition read_node :: "bytes \<Rightarrow> config_node_entry" where
  "read_node bs = \<lparr>cn_node_id = cstr_of (bslice 0 64 bs), cn_role = le_word (bslice 64 4 bs),
     cn_address = cstr_of (bslice 68 256 bs), cn_port = le_word (bslice 324 2 bs), cn_enabled = (bs ! 326 \<noteq> 0)\<rparr>"

definition param_image :: "config_param_entry \<Rightarrow> bytes" where
  "param_image param = char_field 128 (cp_key param) @ char_field 256 (cp_value param) @ char_field 256 (cp_description param)"

definition read_param :: "bytes \<Rightarrow> config_param_entry" where
  "read_param bs = \<lparr>cp_key = cstr_of (bslice 0 128 bs), cp_value = cstr_of (bslice 128 256 bs),
     cp_description = cstr_of (bslice 384 256 bs)\<rparr>"

definition is_node_op :: "u32 \<Rightarrow> bool" where
  "is_node_op operation \<longleftrightarrow> operation = CONFIG_OP_ADD_NODE \<or> operation = CONFIG_OP_REMOVE_NODE \<or> operation = CONFIG_OP_UPDATE_NODE"

definition is_param_op :: "u32 \<Rightarrow> bool" where
  "is_param_op operation \<longleftrightarrow> operation = CONFIG_OP_SET_PARAM \<or> operation = CONFIG_OP_DELETE_PARAM"

definition change_data_size :: "config_change \<Rightarrow> nat" where
  "change_data_size change =
     (if is_node_op (cg_operation change) then 328
      else if is_param_op (cg_operation change) then 640
      else if cg_operation change = CONFIG_OP_BATCH then cg_batch_size change
      else 0)"

definition change_header :: "u32 \<Rightarrow> u32 \<Rightarrow> bytes" where
  "change_header operation data_size = le_bytes 4 CONFIG_SERIALIZE_MAGIC @ le_bytes 4 CONFIG_SERIALIZE_VERSION
     @ le_bytes 4 operation @ le_bytes 4 data_size"

text \<open>
  The size field has 32 bits. A batch without data leaves its part of the buffer as \<^verbatim>\<open>malloc\<close> returned
  it; batch data must have at least the announced size.
\<close>

definition config_change_serialize :: "(nat \<Rightarrow> u8) \<Rightarrow> config_change \<Rightarrow> bytes" where
  "config_change_serialize uninit change =
     (let data_size = change_data_size change
      in change_header (cg_operation change) (of_nat data_size)
         @ (if is_node_op (cg_operation change) then node_image uninit (cg_node change)
            else if is_param_op (cg_operation change) then param_image (cg_param change)
            else if cg_operation change = CONFIG_OP_BATCH then
              (case cg_batch_data change of
                 Some d \<Rightarrow> take (cg_batch_size change) d
               | None \<Rightarrow> map (\<lambda>i. uninit (16 + i)) [0..<cg_batch_size change])
            else []))"

definition config_change_deserialize :: "bytes \<Rightarrow> config_change option" where
  "config_change_deserialize data =
     (if length data < 16 then None
      else if le_word (bslice 0 4 data) \<noteq> CONFIG_SERIALIZE_MAGIC then None
      else if le_word (bslice 4 4 data) \<noteq> CONFIG_SERIALIZE_VERSION then None
      else
        let data_size = le_word (bslice 12 4 data) :: u32; operation = le_word (bslice 8 4 data);
            change = \<lparr>cg_operation = operation, cg_node = zero_node, cg_param = zero_param, cg_batch_data = None, cg_batch_size = 0\<rparr>
        in if length data \<noteq> 16 + unat data_size then None
           else if is_node_op operation then
             (if data_size \<noteq> 328 then None else Some (change\<lparr>cg_node := read_node (drop 16 data)\<rparr>))
           else if is_param_op operation then
             (if data_size \<noteq> 640 then None else Some (change\<lparr>cg_param := read_param (drop 16 data)\<rparr>))
           else if operation = CONFIG_OP_BATCH then
             Some (change\<lparr>cg_batch_data := Some (drop 16 data), cg_batch_size := unat data_size\<rparr>)
           else None)"

section \<open>The state machine\<close>

definition find_node :: "config_state \<Rightarrow> cstr \<Rightarrow> nat option" where
  "find_node state node_id = key_index cn_node_id (cf_nodes state) node_id"

definition find_param :: "config_state \<Rightarrow> cstr \<Rightarrow> nat option" where
  "find_param state key = key_index cp_key (cf_params state) key"

definition put_node :: "config_node_entry \<Rightarrow> config_state \<Rightarrow> config_state" where
  "put_node node state =
     (case find_node state (cn_node_id node) of
        Some i \<Rightarrow> state\<lparr>cf_nodes := (cf_nodes state)[i := node]\<rparr>
      | None \<Rightarrow>
          (let state = (if length (cf_nodes state) \<ge> cf_node_capacity state
                        then state\<lparr>cf_node_capacity := cf_node_capacity state * 2\<rparr> else state)
           in state\<lparr>cf_nodes := cf_nodes state @ [node]\<rparr>))"

definition remove_node :: "cstr \<Rightarrow> config_state \<Rightarrow> config_state" where
  "remove_node node_id state =
     (case find_node state node_id of
        Some i \<Rightarrow> state\<lparr>cf_nodes := take i (cf_nodes state) @ drop (i + 1) (cf_nodes state)\<rparr>
      | None \<Rightarrow> state)"

definition update_node :: "config_node_entry \<Rightarrow> config_state \<Rightarrow> config_state" where
  "update_node node state =
     (case find_node state (cn_node_id node) of
        Some i \<Rightarrow> state\<lparr>cf_nodes := (cf_nodes state)[i := node]\<rparr>
      | None \<Rightarrow> state)"

definition set_param :: "config_param_entry \<Rightarrow> config_state \<Rightarrow> config_state" where
  "set_param param state =
     (case find_param state (cp_key param) of
        Some i \<Rightarrow> state\<lparr>cf_params := (cf_params state)[i := (cf_params state ! i)
                    \<lparr>cp_value := strncpy 255 (cp_value param), cp_description := strncpy 255 (cp_description param)\<rparr>]\<rparr>
      | None \<Rightarrow>
          (let state = (if length (cf_params state) \<ge> cf_param_capacity state
                        then state\<lparr>cf_param_capacity := cf_param_capacity state * 2\<rparr> else state)
           in state\<lparr>cf_params := cf_params state @ [param]\<rparr>))"

definition delete_param :: "cstr \<Rightarrow> config_state \<Rightarrow> config_state" where
  "delete_param key state =
     (case find_param state key of
        Some i \<Rightarrow> state\<lparr>cf_params := take i (cf_params state) @ drop (i + 1) (cf_params state)\<rparr>
      | None \<Rightarrow> state)"

definition apply_change_to_state :: "config_state \<Rightarrow> config_change \<Rightarrow> int \<times> config_state" where
  "apply_change_to_state state change =
     (let operation = cg_operation change
      in if operation = CONFIG_OP_ADD_NODE then (0, put_node (cg_node change) state)
         else if operation = CONFIG_OP_REMOVE_NODE then (0, remove_node (cn_node_id (cg_node change)) state)
         else if operation = CONFIG_OP_UPDATE_NODE then (0, update_node (cg_node change) state)
         else if operation = CONFIG_OP_SET_PARAM then (0, set_param (cg_param change) state)
         else if operation = CONFIG_OP_DELETE_PARAM then (0, delete_param (cp_key (cg_param change)) state)
         else if operation = CONFIG_OP_BATCH then (- 1, state)
         else (0, state))"

text \<open>The callback for a committed log entry.\<close>

definition apply_config_change :: "u64 \<Rightarrow> bytes option \<Rightarrow> config_manager \<Rightarrow> config_manager" where
  "apply_config_change now log_entry manager =
     (case Option.bind log_entry config_change_deserialize of
        None \<Rightarrow> manager
      | Some change \<Rightarrow>
          (case apply_change_to_state (cm_current_state manager) change of
             (result, state) \<Rightarrow>
               if result = 0 then manager\<lparr>cm_current_state := state\<lparr>cf_version := cf_version state + 1, cf_timestamp_ms := now\<rparr>\<rparr>
               else manager\<lparr>cm_current_state := state\<rparr>))"

section \<open>Proposals\<close>

text \<open>Result: the node, the return code, the value of \<^verbatim>\<open>index_out\<close> when it is written.\<close>

definition config_manager_propose_change ::
  "(nat \<Rightarrow> u8) \<Rightarrow> raft_node \<Rightarrow> config_change \<Rightarrow> raft_node \<times> int \<times> u32 option" where
  "config_manager_propose_change uninit raft change =
     (if \<not> raft_is_leader raft then (raft, - 2, None)
      else case raft_append_entry raft (Some (config_change_serialize uninit change)) of
             (raft, Inl err) \<Rightarrow> (raft, - 1, None)
           | (raft, Inr log_index) \<Rightarrow> (raft, 0, Some log_index))"

definition config_manager_wait_committed :: "u64 \<Rightarrow> u32 \<Rightarrow> u32 \<Rightarrow> (u32 \<times> u64) list \<Rightarrow> int option" where
  "config_manager_wait_committed start log_index timeout_ms obs =
     map_option (\<lambda>result. if result = DISTRIC_OK then 0 else - 1) (raft_wait_committed start log_index timeout_ms obs)"

section \<open>Queries\<close>

text \<open>The copy that \<^verbatim>\<open>config_manager_get_state\<close> hands out.\<close>

definition config_manager_get_state :: "config_manager \<Rightarrow> config_state" where
  "config_manager_get_state manager = cm_current_state manager"

definition config_manager_get_node :: "config_manager \<Rightarrow> cstr \<Rightarrow> config_node_entry option" where
  "config_manager_get_node manager node_id =
     map_option (\<lambda>i. cf_nodes (cm_current_state manager) ! i) (find_node (cm_current_state manager) node_id)"

definition config_manager_get_nodes_by_role :: "config_manager \<Rightarrow> u32 \<Rightarrow> config_node_entry list" where
  "config_manager_get_nodes_by_role manager role = [n \<leftarrow> cf_nodes (cm_current_state manager). cn_role n = role]"

definition config_manager_get_param :: "config_manager \<Rightarrow> cstr \<Rightarrow> nat \<Rightarrow> cstr option" where
  "config_manager_get_param manager key value_size =
     (if value_size = 0 then None
      else map_option (\<lambda>i. strncpy (value_size - 1) (cp_value (cf_params (cm_current_state manager) ! i)))
             (find_param (cm_current_state manager) key))"

definition config_manager_get_version :: "config_manager \<Rightarrow> u32" where
  "config_manager_get_version manager = cf_version (cm_current_state manager)"

text \<open>
  \<^verbatim>\<open>strtoll(s, &end, 10)\<close> with the tests the caller makes of its result: \<open>None\<close> when there is no digit or
  the value does not fit 64 bits.
\<close>

definition strtoll :: "cstr \<Rightarrow> int option" where
  "strtoll s =
     (let s = dropWhile is_space s;
          (neg, s) = (case s of c # r \<Rightarrow> if c = 45 then (True, r) else if c = 43 then (False, r) else (False, s)
                              | [] \<Rightarrow> (False, s));
          ds = takeWhile is_digit s;
          v = (if neg then - digits_val ds else digits_val ds)
      in if ds = [] \<or> v < - (2 ^ 63) \<or> v \<ge> 2 ^ 63 then None else Some v)"

definition config_manager_get_param_int :: "config_manager \<Rightarrow> cstr \<Rightarrow> int \<Rightarrow> int" where
  "config_manager_get_param_int manager key default_value =
     (case Option.bind (config_manager_get_param manager key 64) strtoll of Some v \<Rightarrow> v | None \<Rightarrow> default_value)"

definition config_node_role_to_string :: "u32 \<Rightarrow> cstr" where
  "config_node_role_to_string role =
     (if role = CONFIG_NODE_ROLE_COORDINATOR then ascii ''coordinator''
      else if role = CONFIG_NODE_ROLE_WORKER then ascii ''worker'' else ascii ''unknown'')"

definition config_node_role_from_string :: "cstr \<Rightarrow> u32 option" where
  "config_node_role_from_string str =
     (if str = ascii ''coordinator'' then Some CONFIG_NODE_ROLE_COORDINATOR
      else if str = ascii ''worker'' then Some CONFIG_NODE_ROLE_WORKER else None)"

section \<open>Round trip of changes\<close>

definition node_entry_ok :: "config_node_entry \<Rightarrow> bool" where
  "node_entry_ok node \<longleftrightarrow> wf_cstr 64 (cn_node_id node) \<and> wf_cstr 256 (cn_address node)"

definition param_entry_ok :: "config_param_entry \<Rightarrow> bool" where
  "param_entry_ok param \<longleftrightarrow> wf_cstr 128 (cp_key param) \<and> wf_cstr 256 (cp_value param) \<and> wf_cstr 256 (cp_description param)"

definition change_ok :: "config_change \<Rightarrow> bool" where
  "change_ok change \<longleftrightarrow>
     (if is_node_op (cg_operation change) then node_entry_ok (cg_node change)
      else if is_param_op (cg_operation change) then param_entry_ok (cg_param change) else True)"

lemma cstr_of_char_field:
  assumes "wf_cstr n s"
  shows "cstr_of (char_field n s) = s"
proof -
  obtain m where n: "n = Suc m" using assms by (cases n) (auto simp: wf_cstr_def)
  have "char_field n s = s @ 0 # replicate (m - length s) 0"
    using assms by (simp add: char_field_def wf_cstr_def n Suc_diff_le)
  then show ?thesis using assms by (simp add: wf_cstr_def)
qed

lemma length_images [simp]:
  "length (node_image uninit node) = 328" "length (param_image param) = 640" "length (change_header op sz) = 16"
  by (simp_all add: node_image_def param_image_def change_header_def)

lemma read_node_image: "node_entry_ok node \<Longrightarrow> read_node (node_image uninit node) = node"
  by (simp add: read_node_def node_image_def node_entry_ok_def bslice_fields cstr_of_char_field nth_append)

lemma read_param_image: "param_entry_ok param \<Longrightarrow> read_param (param_image param) = param"
  by (simp add: read_param_def param_image_def param_entry_ok_def bslice_fields cstr_of_char_field)

lemma node_param_ops: "is_node_op op \<Longrightarrow> \<not> is_param_op op" "is_param_op op \<Longrightarrow> op \<noteq> CONFIG_OP_BATCH"
  "is_node_op op \<Longrightarrow> op \<noteq> CONFIG_OP_BATCH"
  by (auto simp: is_node_op_def is_param_op_def config_op_defs)

definition change_of :: "u32 \<Rightarrow> config_change" where
  "change_of operation = \<lparr>cg_operation = operation, cg_node = zero_node, cg_param = zero_param, cg_batch_data = None, cg_batch_size = 0\<rparr>"

text \<open>What the receiver of a change reads, operation by operation.\<close>

definition change_received :: "config_change \<Rightarrow> config_change option" where
  "change_received change =
     (let c = change_of (cg_operation change)
      in if is_node_op (cg_operation change) then Some (c\<lparr>cg_node := cg_node change\<rparr>)
         else if is_param_op (cg_operation change) then Some (c\<lparr>cg_param := cg_param change\<rparr>)
         else if cg_operation change = CONFIG_OP_BATCH then
           Some (c\<lparr>cg_batch_data := cg_batch_data change, cg_batch_size := cg_batch_size change\<rparr>)
         else None)"

lemma header_fields:
  "bslice 0 4 (change_header op sz @ r) = le_bytes 4 CONFIG_SERIALIZE_MAGIC"
  "bslice 4 4 (change_header op sz @ r) = le_bytes 4 CONFIG_SERIALIZE_VERSION"
  "bslice 8 4 (change_header op sz @ r) = le_bytes 4 op"
  "bslice 12 4 (change_header op sz @ r) = le_bytes 4 sz"
  by (simp_all add: change_header_def bslice_fields)

lemma deserialize_frame:
  "config_change_deserialize (change_header op sz @ r) =
     (if length r \<noteq> unat sz then None
      else if is_node_op op then (if sz \<noteq> 328 then None else Some ((change_of op)\<lparr>cg_node := read_node r\<rparr>))
      else if is_param_op op then (if sz \<noteq> 640 then None else Some ((change_of op)\<lparr>cg_param := read_param r\<rparr>))
      else if op = CONFIG_OP_BATCH then Some ((change_of op)\<lparr>cg_batch_data := Some r, cg_batch_size := unat sz\<rparr>)
      else None)"
  by (simp add: config_change_deserialize_def header_fields Let_def change_of_def)

lemma deserialize_node_op:
  assumes "is_node_op (cg_operation c)" and "node_entry_ok (cg_node c)"
  shows "config_change_deserialize (config_change_serialize uninit c) = Some ((change_of (cg_operation c))\<lparr>cg_node := cg_node c\<rparr>)"
  using assms by (simp add: config_change_serialize_def change_data_size_def deserialize_frame read_node_image)

lemma deserialize_param_op:
  assumes "is_param_op (cg_operation c)" and "param_entry_ok (cg_param c)"
  shows "config_change_deserialize (config_change_serialize uninit c) = Some ((change_of (cg_operation c))\<lparr>cg_param := cg_param c\<rparr>)"
  using assms node_param_ops(1) [of "cg_operation c"]
  by (auto simp: config_change_serialize_def change_data_size_def deserialize_frame read_param_image)

text \<open>
  Configuration changes survive the log: a serialised change is read back with the same operation
  and, depending on the operation, the same node entry, parameter or batch; whatever the
  uninitialised padding bytes are.
\<close>

lemma config_change_roundtrip:
  assumes "change_ok change"
    and "cg_operation change = CONFIG_OP_BATCH
      \<Longrightarrow> cg_batch_size change < 2 ^ 32 \<and> (\<exists>d. cg_batch_data change = Some d \<and> length d = cg_batch_size change)"
  shows "config_change_deserialize (config_change_serialize uninit change) = change_received change"
proof (cases "is_node_op (cg_operation change) \<or> is_param_op (cg_operation change)")
  case True
  then show ?thesis
    using assms(1) node_param_ops [of "cg_operation change"] deserialize_node_op [of change uninit] deserialize_param_op [of change uninit]
    by (auto simp: change_ok_def change_received_def Let_def split: if_splits)
next
  case False
  show ?thesis
  proof (cases "cg_operation change = CONFIG_OP_BATCH")
    case True
    then obtain d where d: "cg_batch_data change = Some d" "length d = cg_batch_size change" "cg_batch_size change < 2 ^ 32"
      using assms(2) by blast
    then have "unat (of_nat (cg_batch_size change) :: u32) = cg_batch_size change" by (simp add: unat_of_nat)
    then show ?thesis using False True d
      by (simp add: config_change_serialize_def change_data_size_def change_received_def deserialize_frame Let_def)
  next
    case no_batch: False
    then show ?thesis using False deserialize_frame [where r = "[]"]
      by (simp add: config_change_serialize_def change_data_size_def change_received_def deserialize_frame Let_def)
  qed
qed

section \<open>Keyed arrays as finite maps\<close>

text \<open>
  The contract that the node array and the parameter array share: an array without duplicate keys
  behaves like a finite map under insert-or-overwrite and deletion.
\<close>

locale keyed_store =
  fixes ok :: "'s \<Rightarrow> bool"
    and wf :: "'v \<Rightarrow> bool"
    and key :: "'v \<Rightarrow> 'k"
    and get :: "'s \<Rightarrow> 'k \<Rightarrow> 'v option"
    and put :: "'v \<Rightarrow> 's \<Rightarrow> 's"
    and del :: "'k \<Rightarrow> 's \<Rightarrow> 's"
  assumes put_ok: "ok s \<Longrightarrow> wf v \<Longrightarrow> ok (put v s)"
    and get_put: "ok s \<Longrightarrow> wf v \<Longrightarrow> get (put v s) = (get s)(key v \<mapsto> v)"
    and del_ok: "ok s \<Longrightarrow> ok (del k s)"
    and get_del: "ok s \<Longrightarrow> get (del k s) = (get s)(k := None)"
begin

text \<open>The last write to a key wins, and a deleted entry is gone until it is written again.\<close>

lemma put_put: "ok s \<Longrightarrow> wf v \<Longrightarrow> wf w \<Longrightarrow> key v = key w \<Longrightarrow> get (put w (put v s)) = get (put w s)"
  by (simp add: put_ok get_put)

lemma put_commute: "ok s \<Longrightarrow> wf v \<Longrightarrow> wf w \<Longrightarrow> key v \<noteq> key w \<Longrightarrow> get (put w (put v s)) = get (put v (put w s))"
  by (simp add: put_ok get_put fun_upd_twist)

lemma del_put: "ok s \<Longrightarrow> wf v \<Longrightarrow> get (del (key v) (put v s)) = get (del (key v) s)"
  by (simp add: put_ok get_put get_del)

end

text \<open>Searching an array in which one element was overwritten, appended or cut out.\<close>

definition array_get :: "('a \<Rightarrow> 'k) \<Rightarrow> 'a list \<Rightarrow> 'k \<Rightarrow> 'a option" where
  "array_get key xs k = map_option (\<lambda>i. xs ! i) (key_index key xs k)"

lemma array_get_simps [simp]:
  "array_get key [] k = None"
  "array_get key (x # xs) k = (if key x = k then Some x else array_get key xs k)"
  by (simp_all add: array_get_def option.map_comp comp_def)

lemma array_get_None: "array_get key xs k = None \<longleftrightarrow> k \<notin> key ` set xs"
  by (induction xs) auto

lemma array_get_update:
  "key_index key xs (key v) = Some i \<Longrightarrow> array_get key (xs[i := v]) = (array_get key xs)(key v \<mapsto> v)"
proof (induction xs arbitrary: i)
  case (Cons x xs)
  show ?case
  proof (cases "key x = key v")
    case False
    then obtain j where "key_index key xs (key v) = Some j" "i = Suc j" using Cons.prems by auto
    then show ?thesis using Cons.IH False by (auto simp: fun_eq_iff)
  qed (use Cons.prems in \<open>auto simp: fun_eq_iff\<close>)
qed simp

lemma array_get_append:
  "key_index key xs (key v) = None \<Longrightarrow> array_get key (xs @ [v]) = (array_get key xs)(key v \<mapsto> v)"
  by (induction xs) (auto simp: fun_eq_iff)

lemma array_get_remove:
  "distinct (map key xs) \<Longrightarrow> key_index key xs k = Some i
     \<Longrightarrow> array_get key (take i xs @ drop (Suc i) xs) = (array_get key xs)(k := None)"
proof (induction xs arbitrary: i)
  case (Cons x xs)
  show ?case
  proof (cases "key x = k")
    case True
    then have "i = 0" "array_get key xs k = None" using Cons.prems by (auto simp: array_get_None)
    then show ?thesis using True by (auto simp: fun_eq_iff)
  next
    case False
    then obtain j where "key_index key xs k = Some j" "i = Suc j" using Cons.prems by auto
    then show ?thesis using Cons False by (auto simp: fun_eq_iff)
  qed
qed simp

lemma distinct_keys_update:
  assumes "distinct (map key xs)" and "key_index key xs (key v) = Some i"
  shows "distinct (map key (xs[i := v]))"
proof -
  have "map key (xs[i := v]) = map key xs" using key_index_Some [OF assms(2)] by (simp add: map_update list_update_same_conv)
  then show ?thesis using assms(1) by simp
qed

lemma distinct_keys_remove:
  "distinct (map key xs) \<Longrightarrow> distinct (map key (take i xs @ drop (Suc i) xs))"
proof (induction xs arbitrary: i)
  case (Cons x xs)
  then show ?case by (cases i) (auto dest: in_set_takeD in_set_dropD)
qed simp

subsection \<open>The two arrays of the configuration\<close>

definition nodes_ok :: "config_state \<Rightarrow> bool" where
  "nodes_ok state \<longleftrightarrow> distinct (map cn_node_id (cf_nodes state)) \<and> length (cf_nodes state) \<le> cf_node_capacity state
     \<and> 0 < cf_node_capacity state"

definition params_ok :: "config_state \<Rightarrow> bool" where
  "params_ok state \<longleftrightarrow> distinct (map cp_key (cf_params state)) \<and> length (cf_params state) \<le> cf_param_capacity state
     \<and> 0 < cf_param_capacity state"

definition node_map :: "config_state \<Rightarrow> cstr \<Rightarrow> config_node_entry option" where
  "node_map state = array_get cn_node_id (cf_nodes state)"

definition param_map :: "config_state \<Rightarrow> cstr \<Rightarrow> config_param_entry option" where
  "param_map state = array_get cp_key (cf_params state)"

interpretation cnodes: keyed_store nodes_ok "\<lambda>_. True" cn_node_id node_map put_node remove_node
proof unfold_locales
  fix s :: config_state and v :: config_node_entry and k :: cstr
  assume ok: "nodes_ok s"
  show "nodes_ok (put_node v s)"
    using ok distinct_keys_update [of cn_node_id "cf_nodes s" v]
    by (auto simp: nodes_ok_def put_node_def find_node_def key_index_None Let_def split: option.split)
  show "node_map (put_node v s) = (node_map s)(cn_node_id v \<mapsto> v)"
    by (auto simp: node_map_def put_node_def find_node_def array_get_update array_get_append Let_def split: option.split)
  show "nodes_ok (remove_node k s)"
    using ok distinct_keys_remove [of cn_node_id "cf_nodes s"]
    by (auto simp: nodes_ok_def remove_node_def split: option.split)
  show "node_map (remove_node k s) = (node_map s)(k := None)"
    using ok array_get_None [of cn_node_id "cf_nodes s" k]
    by (auto simp: nodes_ok_def node_map_def remove_node_def find_node_def array_get_remove key_index_None fun_eq_iff
        split: option.split)
qed

lemma set_param_alt:
  assumes "param_entry_ok v"
  shows "set_param v s = (case key_index cp_key (cf_params s) (cp_key v) of
      Some i \<Rightarrow> s\<lparr>cf_params := (cf_params s)[i := v]\<rparr>
    | None \<Rightarrow> s\<lparr>cf_param_capacity := (if length (cf_params s) \<ge> cf_param_capacity s then cf_param_capacity s * 2
                                       else cf_param_capacity s), cf_params := cf_params s @ [v]\<rparr>)"
proof (cases "key_index cp_key (cf_params s) (cp_key v)")
  case (Some i)
  have "(cf_params s ! i)\<lparr>cp_value := cp_value v, cp_description := cp_description v\<rparr> = v"
    using key_index_Some [OF Some] by (intro config_param_entry.equality) simp_all
  then show ?thesis
    using Some assms strncpy_id [of 255] by (simp add: set_param_def param_entry_ok_def find_param_def)
qed (simp add: set_param_def find_param_def Let_def)

interpretation cparams: keyed_store params_ok param_entry_ok cp_key param_map set_param delete_param
proof unfold_locales
  fix s :: config_state and v :: config_param_entry and k :: cstr
  assume ok: "params_ok s"
  show "params_ok (set_param v s)" if "param_entry_ok v"
    using ok distinct_keys_update [of cp_key "cf_params s" v]
    by (auto simp: params_ok_def set_param_alt [OF that] key_index_None split: option.split)
  show "param_map (set_param v s) = (param_map s)(cp_key v \<mapsto> v)" if "param_entry_ok v"
    by (auto simp: param_map_def set_param_alt [OF that] array_get_update array_get_append split: option.split)
  show "params_ok (delete_param k s)"
    using ok distinct_keys_remove [of cp_key "cf_params s"]
    by (auto simp: params_ok_def delete_param_def split: option.split)
  show "param_map (delete_param k s) = (param_map s)(k := None)"
    using ok array_get_None [of cp_key "cf_params s" k]
    by (auto simp: params_ok_def param_map_def delete_param_def find_param_def array_get_remove key_index_None fun_eq_iff
        split: option.split)
qed

section \<open>Applying a log of changes\<close>

text \<open>
  The abstract configuration: two finite maps and the number of changes. A batch changes nothing, an
  unknown operation is not even counted.
\<close>

type_synonym config_spec = "(cstr \<rightharpoonup> config_node_entry) \<times> (cstr \<rightharpoonup> config_param_entry) \<times> nat"

fun spec_change :: "config_spec \<Rightarrow> config_change \<Rightarrow> config_spec" where
  "spec_change (nodes, params, v) c =
     (let op = cg_operation c; node = cg_node c; param = cg_param c
      in if op = CONFIG_OP_ADD_NODE then (nodes(cn_node_id node \<mapsto> node), params, v + 1)
         else if op = CONFIG_OP_REMOVE_NODE then (nodes(cn_node_id node := None), params, v + 1)
         else if op = CONFIG_OP_UPDATE_NODE then
           (if nodes (cn_node_id node) = None then (nodes, params, v + 1) else (nodes(cn_node_id node \<mapsto> node), params, v + 1))
         else if op = CONFIG_OP_SET_PARAM then (nodes, params(cp_key param \<mapsto> param), v + 1)
         else if op = CONFIG_OP_DELETE_PARAM then (nodes, params(cp_key param := None), v + 1)
         else (nodes, params, v))"

definition config_ok :: "config_manager \<Rightarrow> bool" where
  "config_ok m \<longleftrightarrow> nodes_ok (cm_current_state m) \<and> params_ok (cm_current_state m)"

definition config_view :: "config_manager \<Rightarrow> (cstr \<rightharpoonup> config_node_entry) \<times> (cstr \<rightharpoonup> config_param_entry) \<times> u32" where
  "config_view m = (node_map (cm_current_state m), param_map (cm_current_state m), cf_version (cm_current_state m))"

definition refines :: "config_manager \<Rightarrow> config_spec \<Rightarrow> bool" where
  "refines m spec \<longleftrightarrow> config_ok m \<and> (case spec of (nodes, params, v) \<Rightarrow> config_view m = (nodes, params, of_nat v))"

lemma frame_simps [simp]:
  "cf_params (put_node n s) = cf_params s" "cf_param_capacity (put_node n s) = cf_param_capacity s" "cf_version (put_node n s) = cf_version s"
  "cf_params (remove_node k s) = cf_params s" "cf_param_capacity (remove_node k s) = cf_param_capacity s" "cf_version (remove_node k s) = cf_version s"
  "cf_nodes (set_param p s) = cf_nodes s" "cf_node_capacity (set_param p s) = cf_node_capacity s" "cf_version (set_param p s) = cf_version s"
  "cf_nodes (delete_param k s) = cf_nodes s" "cf_node_capacity (delete_param k s) = cf_node_capacity s" "cf_version (delete_param k s) = cf_version s"
  by (simp_all add: put_node_def remove_node_def set_param_def delete_param_def Let_def split: option.split)

lemma update_node_put:
  "update_node node s = (if node_map s (cn_node_id node) = None then s else put_node node s)"
  by (auto simp: update_node_def put_node_def node_map_def array_get_def find_node_def split: option.split)

lemma ok_frames [simp]:
  "params_ok (put_node n s) = params_ok s" "param_map (put_node n s) = param_map s"
  "params_ok (remove_node k s) = params_ok s" "param_map (remove_node k s) = param_map s"
  "nodes_ok (set_param p s) = nodes_ok s" "node_map (set_param p s) = node_map s"
  "nodes_ok (delete_param k s) = nodes_ok s" "node_map (delete_param k s) = node_map s"
  by (simp_all add: params_ok_def nodes_ok_def param_map_def node_map_def)

lemma ok_stamp [simp]:
  "nodes_ok (s\<lparr>cf_version := v, cf_timestamp_ms := t\<rparr>) = nodes_ok s" "node_map (s\<lparr>cf_version := v, cf_timestamp_ms := t\<rparr>) = node_map s"
  "params_ok (s\<lparr>cf_version := v, cf_timestamp_ms := t\<rparr>) = params_ok s" "param_map (s\<lparr>cf_version := v, cf_timestamp_ms := t\<rparr>) = param_map s"
  by (simp_all add: params_ok_def nodes_ok_def param_map_def node_map_def)

lemma apply_no_entry_op:
  assumes "\<not> is_node_op (cg_operation c)" and "\<not> is_param_op (cg_operation c)"
  shows "apply_config_change now (Some (config_change_serialize uninit c)) m = m"
proof -
  obtain sz r where ser: "config_change_serialize uninit c = change_header (cg_operation c) sz @ r"
    by (simp add: config_change_serialize_def Let_def)
  have "apply_change_to_state s ((change_of CONFIG_OP_BATCH)\<lparr>cg_batch_data := d, cg_batch_size := k\<rparr>) = (- 1, s)" for s d k
    by (simp add: apply_change_to_state_def change_of_def config_op_defs Let_def)
  then show ?thesis using assms by (auto simp: apply_config_change_def ser deserialize_frame)
qed

lemma spec_no_entry_op:
  "\<not> is_node_op (cg_operation c) \<Longrightarrow> \<not> is_param_op (cg_operation c) \<Longrightarrow> spec_change spec c = spec"
  by (cases spec) (simp add: is_node_op_def is_param_op_def)

lemma apply_node_op:
  assumes "is_node_op (cg_operation c)" and "node_entry_ok (cg_node c)" and "refines m spec"
  shows "refines (apply_config_change now (Some (config_change_serialize uninit c)) m) (spec_change spec c)"
proof -
  obtain nodes params v where spec: "spec = (nodes, params, v)" by (cases spec) auto
  have m: "nodes_ok (cm_current_state m)" "params_ok (cm_current_state m)" "node_map (cm_current_state m) = nodes"
    "param_map (cm_current_state m) = params" "cf_version (cm_current_state m) = of_nat v"
    using assms(3) by (simp_all add: refines_def spec config_ok_def config_view_def Let_def)
  note laws = cnodes.put_ok [OF m(1)] cnodes.get_put [OF m(1)] cnodes.del_ok [OF m(1)] cnodes.get_del [OF m(1)]
  from assms(1) consider (add) "cg_operation c = CONFIG_OP_ADD_NODE" | (remove) "cg_operation c = CONFIG_OP_REMOVE_NODE"
    | (update) "cg_operation c = CONFIG_OP_UPDATE_NODE" by (auto simp: is_node_op_def)
  then show ?thesis
  proof cases
    case add
    then show ?thesis using m laws
      by (simp add: apply_config_change_def deserialize_node_op [OF assms(1,2)] apply_change_to_state_def change_of_def
          refines_def spec config_ok_def config_view_def Let_def)
  next
    case remove
    then show ?thesis using m laws
      by (simp add: apply_config_change_def deserialize_node_op [OF assms(1,2)] apply_change_to_state_def change_of_def
          refines_def spec config_ok_def config_view_def Let_def config_op_defs)
  next
    case update
    then show ?thesis using m laws
      by (simp add: apply_config_change_def deserialize_node_op [OF assms(1,2)] apply_change_to_state_def change_of_def
          refines_def spec config_ok_def config_view_def Let_def config_op_defs update_node_put)
  qed
qed

lemma apply_param_op:
  assumes "is_param_op (cg_operation c)" and "param_entry_ok (cg_param c)" and "refines m spec"
  shows "refines (apply_config_change now (Some (config_change_serialize uninit c)) m) (spec_change spec c)"
proof -
  obtain nodes params v where spec: "spec = (nodes, params, v)" by (cases spec) auto
  have m: "nodes_ok (cm_current_state m)" "params_ok (cm_current_state m)" "node_map (cm_current_state m) = nodes"
    "param_map (cm_current_state m) = params" "cf_version (cm_current_state m) = of_nat v"
    using assms(3) by (simp_all add: refines_def spec config_ok_def config_view_def Let_def)
  note laws = cparams.put_ok [OF m(2) assms(2)] cparams.get_put [OF m(2) assms(2)] cparams.del_ok [OF m(2)] cparams.get_del [OF m(2)]
  from assms(1) consider (set) "cg_operation c = CONFIG_OP_SET_PARAM" | (delete) "cg_operation c = CONFIG_OP_DELETE_PARAM"
    by (auto simp: is_param_op_def)
  then show ?thesis
    by cases (use m laws in \<open>simp_all add: apply_config_change_def deserialize_param_op [OF assms(1,2)] apply_change_to_state_def
        change_of_def refines_def spec config_ok_def config_view_def Let_def config_op_defs\<close>)
qed

lemma apply_refines:
  assumes "change_ok c" and "refines m spec"
  shows "refines (apply_config_change now (Some (config_change_serialize uninit c)) m) (spec_change spec c)"
proof (cases "is_node_op (cg_operation c)")
  case True
  then show ?thesis using assms apply_node_op by (simp add: change_ok_def)
next
  case False
  then show ?thesis using assms apply_param_op apply_no_entry_op spec_no_entry_op
    by (cases "is_param_op (cg_operation c)") (simp_all add: change_ok_def)
qed

text \<open>The manager of a replica: the callback is called for the entries in order, each at its own time.\<close>

fun apply_entries :: "config_manager \<Rightarrow> (u64 \<times> bytes option) list \<Rightarrow> config_manager" where
  "apply_entries m [] = m"
| "apply_entries m ((now, data) # es) = apply_entries (apply_config_change now data m) es"

definition change_log :: "(nat \<Rightarrow> u8) \<Rightarrow> (u64 \<times> config_change) list \<Rightarrow> (u64 \<times> bytes option) list" where
  "change_log uninit log = map (\<lambda>(now, c). (now, Some (config_change_serialize uninit c))) log"

lemma refines_create: "refines (config_manager_create now) (Map.empty, Map.empty, 0)"
  by (simp add: refines_def config_ok_def config_view_def config_manager_create_def nodes_ok_def params_ok_def
      node_map_def param_map_def fun_eq_iff)

lemma apply_log_refines:
  "list_all (change_ok \<circ> snd) log \<Longrightarrow> refines m spec
     \<Longrightarrow> refines (apply_entries m (change_log uninit log)) (foldl spec_change spec (map snd log))"
proof (induction log arbitrary: m spec)
  case (Cons e log)
  obtain now c where e: "e = (now, c)" by fastforce
  have "refines (apply_config_change now (Some (config_change_serialize uninit c)) m) (spec_change spec c)"
    using Cons.prems e by (intro apply_refines) simp_all
  then show ?case using Cons e by (simp add: change_log_def)
qed (simp add: change_log_def)

lemma refines_queries:
  assumes "refines m (nodes, params, v)"
  shows "config_manager_get_node m = nodes"
    and "config_manager_get_param m key 256 = map_option (strncpy 255 \<circ> cp_value) (params key)"
    and "config_manager_get_version m = of_nat v" and "config_ok m"
proof -
  have r: "config_ok m" "node_map (cm_current_state m) = nodes" "param_map (cm_current_state m) = params"
    "cf_version (cm_current_state m) = of_nat v"
    using assms by (simp_all add: refines_def config_view_def)
  show "config_manager_get_node m = nodes"
    by (simp add: fun_eq_iff config_manager_get_node_def r(2) [symmetric] node_map_def array_get_def find_node_def)
  show "config_manager_get_param m key 256 = map_option (strncpy 255 \<circ> cp_value) (params key)"
    by (simp add: config_manager_get_param_def r(3) [symmetric] param_map_def array_get_def find_param_def
        option.map_comp comp_def)
  show "config_manager_get_version m = of_nat v" "config_ok m" using r by (simp_all add: config_manager_get_version_def)
qed

text \<open>
  C23. The configuration state machine: after any log of changes, lookups of nodes and of parameters
  are those of two finite maps to which the changes were applied one by one (a removal or an update
  of an unknown node changes nothing, a batch is refused), the version counts the applied changes
  modulo \<open>2 ^ 32\<close>, names and keys are unique and the array capacities are respected.
\<close>

theorem config_log_refines_maps:
  assumes "list_all (change_ok \<circ> snd) log"
  shows "case foldl spec_change (Map.empty, Map.empty, 0) (map snd log) of (nodes, params, v) \<Rightarrow>
    (let m = apply_entries (config_manager_create start) (change_log uninit log)
     in config_manager_get_node m = nodes
        \<and> (\<forall>key. config_manager_get_param m key 256 = map_option (strncpy 255 \<circ> cp_value) (params key))
        \<and> config_manager_get_version m = of_nat v \<and> config_ok m)"
proof -
  let ?m = "apply_entries (config_manager_create start) (change_log uninit log)"
  obtain nodes params v where spec: "foldl spec_change (Map.empty, Map.empty, 0) (map snd log) = (nodes, params, v)"
    by (cases "foldl spec_change (Map.empty, Map.empty, 0) (map snd log)") auto
  have "refines ?m (nodes, params, v)" using apply_log_refines [OF assms refines_create] spec by simp
  from refines_queries [OF this] show ?thesis by (simp add: spec)
qed

section \<open>Proposals\<close>

text \<open>What a node hands to its state machine when it applies up to an index, counted from its start.\<close>

lemma applied_up_to:
  assumes "cfg_apply_fn (n_config n)" and "unat (l_base_index (n_log n)) \<le> unat (n_last_applied n)"
    and "n_last_applied n \<le> n_commit_index n"
    and "unat (n_commit_index n) \<le> unat (l_base_index (n_log n)) + log_count (n_log n)"
  shows "n_applied (apply_committed_entries n) = n_applied n
    @ [e \<leftarrow> log_slice (n_log n) (unat (n_last_applied n)) (unat (n_commit_index n)). e_type e \<noteq> RAFT_ENTRY_NOOP]"
  using assms apply_loop_spec [of n "n_commit_index n"] by (simp add: apply_committed_entries_def u32_le_conv)

lemma propose_change_appends:
  assumes "config_manager_propose_change uninit n c = (n', 0, Some i)" and "wf_log (n_log n)"
    and "unat (l_base_index (n_log n)) + log_count (n_log n) < 2 ^ 32 - 2"
  obtains e where "e_data e = Some (config_change_serialize uninit c)" and "e_type e = RAFT_ENTRY_COMMAND"
    and "l_entries (n_log n') = l_entries (n_log n) @ [e]" and "l_base_index (n_log n') = l_base_index (n_log n)"
    and "unat i = unat (l_base_index (n_log n)) + log_count (n_log n) + 1"
    and "n_config n' = n_config n" "n_last_applied n' = n_last_applied n" "n_applied n' = n_applied n"
proof -
  let ?data = "Some (config_change_serialize uninit c)"
  let ?e = "new_entry (n_log n) (n_current_term n) RAFT_ENTRY_COMMAND ?data"
  obtain err m where ap: "node_log_append n (n_current_term n) RAFT_ENTRY_COMMAND ?data = (err, m)" by fastforce
  have ok: "err = DISTRIC_OK" "n' = m" "i = log_last_index (n_log m)"
    using assms(1) ap by (auto simp: config_manager_propose_change_def raft_append_entry_def split: if_splits sum.splits)
  have log: "l_entries (n_log m) = l_entries (n_log n) @ [?e]" "l_base_index (n_log m) = l_base_index (n_log n)"
    using ap ok(1) by (cases rule: log_append_cases [of "n_log n" "n_current_term n" RAFT_ENTRY_COMMAND ?data "n_persistence n"];
        auto simp: node_log_append_def)+
  have "wf_log (n_log m)" using ap wf_log_append [OF assms(2,3), of "n_current_term n" RAFT_ENTRY_COMMAND ?data "n_persistence n"]
    by (auto simp: node_log_append_def split: prod.splits)
  then have "unat i = unat (l_base_index (n_log n)) + log_count (n_log n) + 1"
    using ok(3) log by (simp add: unat_last_index log_count_def)
  moreover have "0 < length (config_change_serialize uninit c)" by (simp add: config_change_serialize_def Let_def)
  then have "e_data ?e = ?data" by (simp add: new_entry_def)
  ultimately show ?thesis
    using that [of ?e] log ok(2) node_log_append_sel [of n "n_current_term n" RAFT_ENTRY_COMMAND ?data] ap by (simp add: new_entry_def)
qed

text \<open>
  C24. A proposed change takes effect: when the leader accepts a change at index \<open>i\<close>, its log holds one entry more,
  at this index, and a node with this log that has committed up to \<open>i\<close> hands to its state machine everything before
  the proposal and then exactly this entry. Its data are what the apply function of the configuration manager
  expects: applied to any configuration, after which lookups are those of two finite maps, they have the effect of
  the proposed change on these maps; a parameter set by it is read back with its value. (The callback types of Raft
  and of the manager differ and no code connects them; the property is about the data that the two exchange.)
\<close>

theorem proposed_change_takes_effect:
  assumes "config_manager_propose_change uninit n c = (n', 0, Some i)" and "wf_log (n_log n)"
    and "unat (l_base_index (n_log n)) + log_count (n_log n) < 2 ^ 32 - 2" and "cfg_apply_fn (n_config n)"
    and "unat (l_base_index (n_log n)) \<le> unat (n_last_applied n)" and "n_last_applied n \<le> log_last_index (n_log n)"
    and "change_ok c" and "refines m spec"
  defines "before \<equiv> apply_committed_entries (n\<lparr>n_commit_index := log_last_index (n_log n)\<rparr>)"
    and "after \<equiv> apply_committed_entries (n'\<lparr>n_commit_index := i\<rparr>)"
  shows "\<exists>e. l_entries (n_log n') = l_entries (n_log n) @ [e] \<and> log_get (n_log n') i = Some e
    \<and> n_applied after = n_applied before @ [e]
    \<and> (case spec_change spec c of (nodes, params, v) \<Rightarrow>
         (let m' = apply_config_change now (e_data e) m
          in config_manager_get_node m' = nodes
             \<and> (\<forall>key. config_manager_get_param m' key 256 = map_option (strncpy 255 \<circ> cp_value) (params key))
             \<and> config_manager_get_version m' = of_nat v
             \<and> (if cg_operation c = CONFIG_OP_SET_PARAM
                then config_manager_get_param m' (cp_key (cg_param c)) 256 = Some (cp_value (cg_param c)) else True)))"
proof -
  let ?l = "n_log n" and ?last = "unat (log_last_index (n_log n))"
  obtain e where e: "e_data e = Some (config_change_serialize uninit c)" "e_type e = RAFT_ENTRY_COMMAND"
    "l_entries (n_log n') = l_entries ?l @ [e]" "l_base_index (n_log n') = l_base_index ?l"
    "unat i = unat (l_base_index ?l) + log_count ?l + 1"
    "n_config n' = n_config n" "n_last_applied n' = n_last_applied n" "n_applied n' = n_applied n"
    using propose_change_appends [OF assms(1-3)] by blast
  have last: "?last = unat (l_base_index ?l) + log_count ?l" using assms(2) by (rule unat_last_index)
  have b: "n_applied before = n_applied n @ [e \<leftarrow> log_slice ?l (unat (n_last_applied n)) ?last. e_type e \<noteq> RAFT_ENTRY_NOOP]"
    using assms(4-6) last applied_up_to [of "n\<lparr>n_commit_index := log_last_index ?l\<rparr>"] by (simp add: before_def)
  have "log_slice (n_log n') (unat (n_last_applied n)) (unat i) = log_slice ?l (unat (n_last_applied n)) ?last @ [e]"
    using assms(5,6) last e(3-5) by (simp add: log_slice_def log_count_def u32_le_conv Suc_diff_le)
  then have a: "n_applied after = n_applied before @ [e]"
    using assms(4-6) last e applied_up_to [of "n'\<lparr>n_commit_index := i\<rparr>"] b
    by (simp add: after_def u32_le_conv log_count_def)
  have g: "log_get (n_log n') i = Some e" using e(3-5) by (simp add: log_get_eq log_count_def)
  obtain nodes params v where spec: "spec_change spec c = (nodes, params, v)" by (cases "spec_change spec c")
  have "refines (apply_config_change now (e_data e) m) (nodes, params, v)"
    unfolding e(1) spec [symmetric] using assms(7,8) by (rule apply_refines)
  note q = refines_queries [OF this]
  have "params (cp_key (cg_param c)) = Some (cg_param c) \<and> strncpy 255 (cp_value (cg_param c)) = cp_value (cg_param c)"
    if "cg_operation c = CONFIG_OP_SET_PARAM"
  proof -
    have "param_entry_ok (cg_param c)"
      using that assms(7) node_param_ops(1) by (auto simp: is_param_op_def change_ok_def split: if_splits)
    then show ?thesis
      using that spec by (cases spec) (auto simp: Let_def config_op_defs param_entry_ok_def intro: strncpy_id)
  qed
  then show ?thesis using e(3) a g q by (intro exI [of _ e]) (simp add: spec Let_def)
qed

section \<open>Integer parameters\<close>

text \<open>The text of an integer as \<^verbatim>\<open>%lld\<close> prints it.\<close>

definition int_text :: "int \<Rightarrow> cstr" where
  "int_text v = (if v < 0 then 45 # dec_digits (nat (- v)) else dec_digits (nat v))"

lemma takeWhile_dec_digits: "takeWhile is_digit (dec_digits n) = dec_digits n"
  using dec_digits_all by (simp add: takeWhile_eq_all_conv)

lemma strtoll_int_text:
  assumes "- (2 ^ 63) \<le> v" and "v < 2 ^ 63"
  shows "strtoll (int_text v) = Some v"
proof (cases "v < 0")
  case True
  then show ?thesis using assms dec_digits_Cons [of "nat (- v)"]
    by (auto simp: strtoll_def int_text_def is_space_def Let_def takeWhile_dec_digits digits_val_dec)
next
  case False
  obtain c r where ds: "dec_digits (nat v) = c # r" "is_digit c" using dec_digits_Cons by blast
  have "takeWhile is_digit (c # r) = c # r" "digits_val (c # r) = v"
    using False takeWhile_dec_digits [of "nat v"] digits_val_dec [of "nat v"] ds(1) by simp_all
  then show ?thesis using assms False is_digit_not_special [OF ds(2)]
    by (simp add: strtoll_def int_text_def ds(1) Let_def)
qed

lemma int_text_short:
  assumes "- (2 ^ 63) \<le> v" and "v < 2 ^ 63"
  shows "length (int_text v) < 63" and "0 \<notin> set (int_text v)"
proof -
  have "abs v \<le> 2 ^ 63" using assms by (simp add: abs_le_iff)
  then have "nat (abs v) \<le> nat (2 ^ 63)" by (rule nat_mono)
  also have "nat (2 ^ 63) < 10 ^ 19" by simp
  finally have "length (dec_digits (nat (abs v))) \<le> 19" by (intro length_dec_digits) simp_all
  then show "length (int_text v) < 63" by (auto simp: int_text_def)
  show "0 \<notin> set (int_text v)" by (simp add: int_text_def dec_digits_no_nul)
qed

text \<open>
  Integer parameters: a parameter that holds the decimal text of a 64 bit integer is read back as
  this integer; for a parameter that is not set the default is returned.
\<close>

lemma config_param_int_roundtrip:
  assumes "- (2 ^ 63) \<le> v" and "v < 2 ^ 63"
  shows "case find_param (cm_current_state m) key of
      Some i \<Rightarrow> if cp_value (cf_params (cm_current_state m) ! i) = int_text v then config_manager_get_param_int m key d = v else True
    | None \<Rightarrow> config_manager_get_param_int m key d = d"
  using assms strtoll_int_text [OF assms] int_text_short [OF assms]
  by (simp add: config_manager_get_param_int_def config_manager_get_param_def strncpy_def split: option.split)

lemma role_string_roundtrip:
  "role = CONFIG_NODE_ROLE_COORDINATOR \<or> role = CONFIG_NODE_ROLE_WORKER
     \<Longrightarrow> config_node_role_from_string (config_node_role_to_string role) = Some role"
  by (auto simp: config_node_role_from_string_def config_node_role_to_string_def CONFIG_NODE_ROLE_COORDINATOR_def
      CONFIG_NODE_ROLE_WORKER_def ascii_def)

section \<open>Concrete runs\<close>

definition sample_param :: config_param_entry where
  "sample_param = \<lparr>cp_key = ascii ''retries'', cp_value = int_text (- 42), cp_description = []\<rparr>"

definition sample_change :: config_change where
  "sample_change = (change_of CONFIG_OP_SET_PARAM)\<lparr>cg_param := sample_param\<rparr>"

definition sample_log :: "(u64 \<times> config_change) list" where
  "sample_log = [(1, (change_of CONFIG_OP_ADD_NODE)\<lparr>cg_node := zero_node\<lparr>cn_node_id := ascii ''a''\<rparr>\<rparr>), (2, sample_change)]"

lemma int_text_sample: "int_text (- 42) = ascii ''-42''"
  by code_simp

lemma sample_change_ok: "change_ok sample_change"
  by (simp add: change_ok_def sample_change_def change_of_def sample_param_def param_entry_ok_def wf_cstr_def
      is_node_op_def is_param_op_def config_op_defs int_text_sample ascii_def)

lemma sample_log_ok: "list_all (change_ok \<circ> snd) sample_log"
  using sample_change_ok
  by (simp add: sample_log_def change_ok_def change_of_def node_entry_ok_def zero_node_def wf_cstr_def is_node_op_def ascii_def)

lemma config_change_roundtrip_witness:
  "config_change_deserialize (config_change_serialize (\<lambda>i. 255) sample_change) = Some sample_change"
proof -
  have "change_received sample_change = Some sample_change"
    by (simp add: change_received_def sample_change_def change_of_def is_node_op_def is_param_op_def config_op_defs)
  moreover have "cg_operation sample_change \<noteq> CONFIG_OP_BATCH" by (simp add: sample_change_def change_of_def config_op_defs)
  ultimately show ?thesis using config_change_roundtrip [OF sample_change_ok, of "\<lambda>i. 255"] by simp
qed

theorem config_log_refines_maps_witness:
  "let m = apply_entries (config_manager_create 0) (change_log (\<lambda>i. 0) sample_log)
   in config_manager_get_param m (ascii ''retries'') 256 = Some (ascii ''-42'') \<and> config_manager_get_version m = 2 \<and> config_ok m"
proof -
  have "foldl spec_change (Map.empty, Map.empty, 0) (map snd sample_log)
      = ([ascii ''a'' \<mapsto> zero_node\<lparr>cn_node_id := ascii ''a''\<rparr>], [ascii ''retries'' \<mapsto> sample_param], 2)"
    by (simp add: sample_log_def change_of_def sample_change_def sample_param_def config_op_defs Let_def)
  then show ?thesis
    using config_log_refines_maps [OF sample_log_ok, of 0 "\<lambda>i. 0"] strncpy_id [of 255 "int_text (- 42)"]
    by (simp add: sample_param_def int_text_sample wf_cstr_def Let_def) (simp add: ascii_def)
qed

lemma config_param_int_roundtrip_witness:
  "config_manager_get_param_int (apply_entries (config_manager_create 0) (change_log (\<lambda>i. 0) sample_log)) (ascii ''retries'') 7 = - 42"
proof -
  let ?m = "apply_entries (config_manager_create 0) (change_log (\<lambda>i. 0) sample_log)"
  have "find_param (cm_current_state ?m) (ascii ''retries'') = Some 0 \<and> cp_value (cf_params (cm_current_state ?m) ! 0) = int_text (- 42)"
    by code_simp
  then show ?thesis using config_param_int_roundtrip [of "- 42" ?m "ascii ''retries''" 7] by simp
qed

theorem proposed_change_takes_effect_witness:
  "case config_manager_propose_change (\<lambda>i. 0) sample_leader sample_change of (n', code, index) \<Rightarrow>
     index = Some 3
     \<and> (case log_get (n_log n') 3 of
          None \<Rightarrow> False
        | Some e \<Rightarrow> config_manager_get_param (apply_config_change 5 (e_data e) (config_manager_create 1)) (ascii ''retries'') 256
            = Some (ascii ''-42''))"
proof -
  obtain n' where p: "config_manager_propose_change (\<lambda>i. 0) sample_leader sample_change = (n', 0, Some 3)"
    by (simp add: config_manager_propose_change_def raft_append_entry_def raft_is_leader_def node_log_append_def
        sample_leader_def fresh_node_def log_append_in_memory log_last_index_def log_count_def raft_log_init_def log_grow_def
        sample_entries_def)
  have ok: "unat (l_base_index (n_log sample_leader)) + log_count (n_log sample_leader) < 2 ^ 32 - 2"
    "cfg_apply_fn (n_config sample_leader)" "unat (l_base_index (n_log sample_leader)) \<le> unat (n_last_applied sample_leader)"
    "n_last_applied sample_leader \<le> log_last_index (n_log sample_leader)"
    by (simp_all add: sample_leader_def fresh_node_def raft_log_init_def log_count_def sample_entries_def sample_config_def)
  have "cg_operation sample_change = CONFIG_OP_SET_PARAM" "cg_param sample_change = sample_param"
    by (simp_all add: sample_change_def change_of_def)
  then show ?thesis
    using proposed_change_takes_effect [OF p sample_leader_wf ok sample_change_ok refines_create, of 5 1] p
    by (auto simp: sample_param_def int_text_sample Let_def)
qed

end
