(* ===== verification/ProbeTable.thy ===== *)
theory ProbeTable
  imports Prelude
begin

text \<open>
  Open addressing with linear probing and without tombstones, as an interface: the slots of a table
  are occupied or free, an occupied slot has a key, and every key has its sequence of slots to probe.
  The lemmas say when such a table is a finite map; the tables of the transport layer are
  interpretations.
\<close>

locale probe_table =
  fixes occ :: "'e \<Rightarrow> bool"
    and key :: "'e \<Rightarrow> 'k"
    and probe :: "'k \<Rightarrow> nat list"
    and n :: nat
  assumes probe_distinct: "distinct (probe k)"
    and probe_set: "set (probe k) = {..<n}"
begin

definition slot :: "'e list \<Rightarrow> 'k \<Rightarrow> nat \<Rightarrow> bool" where
  "slot tb k i \<longleftrightarrow> i < n \<and> occ (tb ! i) \<and> key (tb ! i) = k"

text \<open>Keys are unique, and from the first probed slot of a key to its own all slots are occupied.\<close>

definition well :: "'e list \<Rightarrow> bool" where
  "well tb \<longleftrightarrow> length tb = n
     \<and> (\<forall>k i j. slot tb k i \<longrightarrow> slot tb k j \<longrightarrow> i = j)
     \<and> (\<forall>k i xs ys. slot tb k i \<longrightarrow> probe k = xs @ i # ys \<longrightarrow> (\<forall>x \<in> set xs. occ (tb ! x)))"

fun search :: "'e list \<Rightarrow> 'k \<Rightarrow> nat list \<Rightarrow> nat option" where
  "search tb k [] = None"
| "search tb k (i # js) =
     (if \<not> occ (tb ! i) then None else if key (tb ! i) = k then Some i else search tb k js)"

definition contents :: "'e list \<Rightarrow> 'k \<Rightarrow> 'e option" where
  "contents tb k = map_option ((!) tb) (search tb k (probe k))"

text \<open>The first free slot that a key probes.\<close>

definition first_free :: "'e list \<Rightarrow> 'k \<Rightarrow> nat \<Rightarrow> bool" where
  "first_free tb k i \<longleftrightarrow> i < n \<and> \<not> occ (tb ! i) \<and> (\<exists>xs ys. probe k = xs @ i # ys \<and> (\<forall>x \<in> set xs. occ (tb ! x)))"

lemma well_length: "well tb \<Longrightarrow> length tb = n"
  by (simp add: well_def)

lemma well_unique: "well tb \<Longrightarrow> slot tb k i \<Longrightarrow> slot tb k j \<Longrightarrow> i = j"
  by (simp add: well_def)

lemma well_chain: "well tb \<Longrightarrow> slot tb k i \<Longrightarrow> probe k = xs @ i # ys \<Longrightarrow> x \<in> set xs \<Longrightarrow> occ (tb ! x)"
  unfolding well_def by blast

lemma probed: "probe k = xs @ i # ys \<Longrightarrow> x \<in> set (xs @ i # ys) \<Longrightarrow> x < n"
  using probe_set [of k] by auto

lemma search_hit:
  "\<forall>x \<in> set xs. occ (tb ! x) \<and> key (tb ! x) \<noteq> k \<Longrightarrow> occ (tb ! i) \<Longrightarrow> key (tb ! i) = k \<Longrightarrow> search tb k (xs @ i # ys) = Some i"
  by (induction xs) auto

lemma search_stop:
  "\<forall>x \<in> set xs. occ (tb ! x) \<and> key (tb ! x) \<noteq> k \<Longrightarrow> \<not> occ (tb ! i) \<Longrightarrow> search tb k (xs @ i # ys) = None"
  by (induction xs) auto

lemma search_miss: "\<forall>x \<in> set js. \<not> (occ (tb ! x) \<and> key (tb ! x) = k) \<Longrightarrow> search tb k js = None"
  by (induction js) auto

lemma search_slot:
  assumes "well tb" and "slot tb k i"
  shows "search tb k (probe k) = Some i"
proof -
  have "i \<in> set (probe k)" using assms(2) by (simp add: slot_def probe_set)
  then obtain xs ys where s: "probe k = xs @ i # ys" "i \<notin> set xs" by (metis split_list_first)
  have "occ (tb ! x) \<and> key (tb ! x) \<noteq> k" if "x \<in> set xs" for x
  proof -
    have "\<not> slot tb k x" using well_unique [OF assms] s(2) that by blast
    moreover have "x < n" using probed [OF s(1)] that by simp
    ultimately show ?thesis using well_chain [OF assms s(1) that] by (simp add: slot_def)
  qed
  then show ?thesis using assms(2) unfolding s(1) by (intro search_hit) (simp_all add: slot_def)
qed

lemma search_no_slot: "\<forall>i. \<not> slot tb k i \<Longrightarrow> search tb k (probe k) = None"
  by (rule search_miss) (simp add: slot_def probe_set)

lemma search_cases:
  assumes "well tb"
  obtains (hit) i where "slot tb k i" "search tb k (probe k) = Some i" "contents tb k = Some (tb ! i)"
  | (miss) "\<forall>i. \<not> slot tb k i" "search tb k (probe k) = None" "contents tb k = None"
  using search_slot [OF assms] search_no_slot [of tb k] by (metis contents_def option.map)

lemma contents_slot: "well tb \<Longrightarrow> slot tb k i \<Longrightarrow> contents tb k = Some (tb ! i)"
  by (simp add: contents_def search_slot)

lemma contents_no_slot: "\<forall>i. \<not> slot tb k i \<Longrightarrow> contents tb k = None"
  by (simp add: contents_def search_no_slot)

text \<open>Two tables with the same slots and the same occupied positions.\<close>

lemma well_cong:
  assumes "well tb" and "length tb' = n" and "slot tb' = slot tb" and "\<forall>i < n. occ (tb ! i) \<longrightarrow> occ (tb' ! i)"
  shows "well tb'"
  unfolding well_def
proof (intro conjI allI impI ballI)
  show "length tb' = n" by (rule assms(2))
next
  fix k i j assume "slot tb' k i" "slot tb' k j"
  then show "i = j" using well_unique [OF assms(1)] assms(3) by simp
next
  fix k i xs ys x assume a: "slot tb' k i" "probe k = xs @ i # ys" "x \<in> set xs"
  then have "occ (tb ! x)" using well_chain [OF assms(1)] assms(3) by simp
  moreover have "x < n" using probed [OF a(2)] a(3) by simp
  ultimately show "occ (tb' ! x)" using assms(4) by blast
qed

text \<open>Overwriting an entry by one with the same key.\<close>

lemma overwrite:
  assumes "well tb" and "slot tb k i" and "occ e" and "key e = k"
  shows "well (tb[i := e])" and "contents (tb[i := e]) = (contents tb)(k \<mapsto> e)" and "slot (tb[i := e]) k i"
proof -
  have i: "i < n" "i < length tb" using assms(2) well_length [OF assms(1)] by (simp_all add: slot_def)
  have same: "slot (tb[i := e]) = slot tb"
    using assms(2-4) i(2) by (auto simp: fun_eq_iff slot_def nth_list_update)
  show ok: "well (tb[i := e])"
    using assms(3) i well_length [OF assms(1)] by (intro well_cong [OF assms(1) _ same]) (auto simp: nth_list_update)
  show "slot (tb[i := e]) k i" using same assms(2) by simp
  show "contents (tb[i := e]) = (contents tb)(k \<mapsto> e)"
  proof (rule ext)
    fix k'
    show "contents (tb[i := e]) k' = ((contents tb)(k \<mapsto> e)) k'"
    proof (cases rule: search_cases [OF assms(1), of k'])
      case (1 j)
      have "contents (tb[i := e]) k' = Some (tb[i := e] ! j)" using ok 1(1) same by (intro contents_slot) simp_all
      moreover have "j = i \<longleftrightarrow> k' = k" using well_unique [OF assms(1)] 1(1) assms(2) by (auto simp: slot_def)
      ultimately show ?thesis using 1(3) i(2) by (auto simp: nth_list_update)
    next
      case 2
      then show ?thesis using assms(2) same contents_no_slot [of "tb[i := e]" k'] by auto
    qed
  qed
qed

text \<open>Filling the first free slot of a new key.\<close>

lemma fill:
  assumes "well tb" and "\<forall>i. \<not> slot tb k i" and "first_free tb k i" and "occ e" and "key e = k"
  shows "well (tb[i := e])" and "contents (tb[i := e]) = (contents tb)(k \<mapsto> e)" and "slot (tb[i := e]) k i"
proof -
  obtain xs ys where i: "i < n" "\<not> occ (tb ! i)" "probe k = xs @ i # ys" "\<forall>x \<in> set xs. occ (tb ! x)"
    using assms(3) by (auto simp: first_free_def)
  have len: "length tb = n" by (rule well_length [OF assms(1)])
  have s: "slot (tb[i := e]) k' j \<longleftrightarrow> (if j = i then k' = k else slot tb k' j)" for k' j
    using i(1) assms(4,5) len by (auto simp: slot_def nth_list_update)
  then show own: "slot (tb[i := e]) k i" by simp
  have occ: "occ (tb[i := e] ! x)" if "x < n" "occ (tb ! x)" for x
    using that assms(4) len by (cases "x = i") simp_all
  show ok: "well (tb[i := e])"
    unfolding well_def
  proof (intro conjI allI impI ballI)
    fix k' j j' assume "slot (tb[i := e]) k' j" "slot (tb[i := e]) k' j'"
    then show "j = j'" using well_unique [OF assms(1)] assms(2) by (auto simp: s split: if_splits)
  next
    fix k' j us vs x assume a: "slot (tb[i := e]) k' j" "probe k' = us @ j # vs" "x \<in> set us"
    have x: "x < n" using probed [OF a(2)] a(3) by simp
    show "occ (tb[i := e] ! x)"
    proof (cases "j = i")
      case True
      then have k': "k' = k" using a(1) s by simp
      have "distinct (xs @ i # ys)" using probe_distinct [of k] i(3) by simp
      then have "us = xs" using append_Cons_eq_iff [of i xs ys us vs] a(2) i(3) k' True by simp
      then show ?thesis using occ [OF x] i(4) a(3) by simp
    next
      case False
      then show ?thesis using occ [OF x] well_chain [OF assms(1) _ a(2,3)] a(1) s by simp
    qed
  qed (simp add: len)
  show "contents (tb[i := e]) = (contents tb)(k \<mapsto> e)"
  proof (rule ext)
    fix k'
    show "contents (tb[i := e]) k' = ((contents tb)(k \<mapsto> e)) k'"
    proof (cases "k' = k")
      case True
      then show ?thesis using contents_slot [OF ok own] i(1) len by simp
    next
      case False
      show ?thesis
      proof (cases rule: search_cases [OF assms(1), of k'])
        case (1 j)
        then have "j \<noteq> i" using i(2) by (auto simp: slot_def)
        then show ?thesis using 1 s contents_slot [OF ok, of k' j] False by simp
      next
        case 2
        then show ?thesis using s False contents_no_slot [of "tb[i := e]" k'] by simp
      qed
    qed
  qed
qed

lemma first_free_exists:
  assumes "q < n" and "\<not> occ (tb ! q)"
  shows "\<exists>i. first_free tb k i"
proof -
  have "q \<in> set (probe k)" using assms(1) by (simp add: probe_set)
  then obtain xs i ys where i: "probe k = xs @ i # ys" "\<not> occ (tb ! i)" "\<forall>x \<in> set xs. \<not> \<not> occ (tb ! x)"
    using split_list_first_prop [of "probe k" "\<lambda>i. \<not> occ (tb ! i)"] assms(2) by blast
  moreover have "i < n" using probed [OF i(1), of i] by simp
  ultimately have "first_free tb k i" unfolding first_free_def by blast
  then show ?thesis ..
qed

text \<open>The domain of the map: one key for each occupied slot.\<close>

lemma dom_contents:
  assumes "well tb"
  shows "finite (dom (contents tb))" and "card (dom (contents tb)) = card {i. i < n \<and> occ (tb ! i)}"
proof -
  have dom: "dom (contents tb) = (\<lambda>i. key (tb ! i)) ` {i. i < n \<and> occ (tb ! i)}" (is "_ = ?f ` ?O")
  proof (intro set_eqI)
    show "k \<in> dom (contents tb) \<longleftrightarrow> k \<in> ?f ` ?O" for k
      by (cases rule: search_cases [OF assms, of k]) (auto simp: slot_def)
  qed
  then show "finite (dom (contents tb))" by simp
  have "inj_on ?f ?O" using well_unique [OF assms] by (auto simp: inj_on_def slot_def)
  then show "card (dom (contents tb)) = card ?O" by (simp add: dom card_image)
qed

end

end
