(* ===== verification/TransportError.thy ===== *)
theory TransportError
  imports Prelude
begin

text \<open>
  The error taxonomy of the transport layer, \<^verbatim>\<open>distric_transport/src/transport_error.c\<close>. An \<^verbatim>\<open>errno\<close> is the
  name of a POSIX constant; all others are \<open>E_OTHER\<close>. (\<^verbatim>\<open>EWOULDBLOCK\<close> is \<^verbatim>\<open>EAGAIN\<close> on the supported systems.)
\<close>

datatype errno = E_ZERO | EAGAIN | ECONNRESET | EPIPE | ECONNABORTED | ETIMEDOUT | EADDRNOTAVAIL | EADDRINUSE
  | EHOSTUNREACH | ENETUNREACH | ECONNREFUSED | ENONET | ENOMEM | ENFILE | EMFILE | ENOBUFS | ENOSPC | E_OTHER int

datatype transport_err = TRANSPORT_OK | TRANSPORT_WOULD_BLOCK | TRANSPORT_BACKPRESSURE | TRANSPORT_PEER_CLOSED
  | TRANSPORT_RESET | TRANSPORT_TIMEOUT | TRANSPORT_ADDRESS | TRANSPORT_RESOURCE | TRANSPORT_RATE_LIMITED | TRANSPORT_INTERNAL

fun transport_classify_errno :: "errno \<Rightarrow> transport_err" where
  "transport_classify_errno EAGAIN = TRANSPORT_WOULD_BLOCK"
| "transport_classify_errno E_ZERO = TRANSPORT_PEER_CLOSED"
| "transport_classify_errno ECONNRESET = TRANSPORT_RESET"
| "transport_classify_errno EPIPE = TRANSPORT_RESET"
| "transport_classify_errno ECONNABORTED = TRANSPORT_RESET"
| "transport_classify_errno ETIMEDOUT = TRANSPORT_TIMEOUT"
| "transport_classify_errno EADDRNOTAVAIL = TRANSPORT_ADDRESS"
| "transport_classify_errno EADDRINUSE = TRANSPORT_ADDRESS"
| "transport_classify_errno EHOSTUNREACH = TRANSPORT_ADDRESS"
| "transport_classify_errno ENETUNREACH = TRANSPORT_ADDRESS"
| "transport_classify_errno ECONNREFUSED = TRANSPORT_ADDRESS"
| "transport_classify_errno ENONET = TRANSPORT_ADDRESS"
| "transport_classify_errno ENOMEM = TRANSPORT_RESOURCE"
| "transport_classify_errno ENFILE = TRANSPORT_RESOURCE"
| "transport_classify_errno EMFILE = TRANSPORT_RESOURCE"
| "transport_classify_errno ENOBUFS = TRANSPORT_RESOURCE"
| "transport_classify_errno ENOSPC = TRANSPORT_RESOURCE"
| "transport_classify_errno (E_OTHER e) = TRANSPORT_INTERNAL"

fun transport_err_str :: "transport_err \<Rightarrow> string" where
  "transport_err_str TRANSPORT_OK = ''OK''"
| "transport_err_str TRANSPORT_WOULD_BLOCK = ''WOULD_BLOCK''"
| "transport_err_str TRANSPORT_BACKPRESSURE = ''BACKPRESSURE''"
| "transport_err_str TRANSPORT_PEER_CLOSED = ''PEER_CLOSED''"
| "transport_err_str TRANSPORT_RESET = ''RESET''"
| "transport_err_str TRANSPORT_TIMEOUT = ''TIMEOUT''"
| "transport_err_str TRANSPORT_ADDRESS = ''ADDRESS_ERROR''"
| "transport_err_str TRANSPORT_RESOURCE = ''RESOURCE_EXHAUSTED''"
| "transport_err_str TRANSPORT_RATE_LIMITED = ''RATE_LIMITED''"
| "transport_err_str TRANSPORT_INTERNAL = ''INTERNAL_ERROR''"

fun transport_err_to_distric :: "transport_err \<Rightarrow> distric_err" where
  "transport_err_to_distric TRANSPORT_OK = DISTRIC_OK"
| "transport_err_to_distric TRANSPORT_WOULD_BLOCK = DISTRIC_OK"
| "transport_err_to_distric TRANSPORT_BACKPRESSURE = DISTRIC_ERR_BACKPRESSURE"
| "transport_err_to_distric TRANSPORT_PEER_CLOSED = DISTRIC_ERR_EOF"
| "transport_err_to_distric TRANSPORT_RESET = DISTRIC_ERR_IO"
| "transport_err_to_distric TRANSPORT_TIMEOUT = DISTRIC_ERR_TIMEOUT"
| "transport_err_to_distric TRANSPORT_ADDRESS = DISTRIC_ERR_INIT_FAILED"
| "transport_err_to_distric TRANSPORT_RESOURCE = DISTRIC_ERR_ALLOC_FAILURE"
| "transport_err_to_distric TRANSPORT_RATE_LIMITED = DISTRIC_ERR_BACKPRESSURE"
| "transport_err_to_distric TRANSPORT_INTERNAL = DISTRIC_ERR_IO"

text \<open>Distinct errors have distinct names; a failed system call is reported as success only when it would block.\<close>

lemma transport_err_str_inj: "transport_err_str a = transport_err_str b \<Longrightarrow> a = b"
  by (cases a; cases b) simp_all

lemma classified_as_success:
  "transport_err_to_distric (transport_classify_errno e) = DISTRIC_OK \<longleftrightarrow> e = EAGAIN"
  by (cases e) simp_all

end
