(* ===== verification/Udp.thy ===== *)
theory Udp
  imports Tcp ProbeTable TransportError
begin

unbundle bit_operations_syntax

text \<open>
  The UDP socket of \<^verbatim>\<open>distric_transport/src/udp.c\<close> with its rate limiter: one token bucket per source
  address, in an open-addressing table of 256 slots with eviction of the peer seen least recently.
  Tokens are counted in units of one packet times \<open>10 ^ 9\<close> in signed 64 bit integers; products and sums
  wrap at that width. Times are nanoseconds of the monotonic clock. The kernel's answers are
  arguments. \<^verbatim>\<open>bucket_try_consume\<close> is one step here: the code runs its first part without the lock.
\<close>

section \<open>Data\<close>

definition BUCKET_TABLE_SIZE :: u32 where
  "BUCKET_TABLE_SIZE = 256"

definition BUCKET_TABLE_MASK :: u32 where
  "BUCKET_TABLE_MASK = BUCKET_TABLE_SIZE - 1"

definition NS_PER_SEC :: int where
  "NS_PER_SEC = 1000000000"

definition PEER_DEFAULT_TTL_NS :: int where
  "PEER_DEFAULT_TTL_NS = 30 * NS_PER_SEC"

text \<open>The value of a 64 bit signed computation.\<close>

definition s64 :: "int \<Rightarrow> int" where
  "s64 x = signed_take_bit 63 x"

record token_bucket_entry =
  tb_ip_addr :: u32
  tb_max_tokens :: u32
  tb_tokens_per_ns_num :: u32
  tb_tokens_x1e9 :: int
  tb_last_refill_ns :: int
  tb_last_seen_ns :: int
  tb_active :: bool

record udp_socket =
  us_port :: u16
  us_bind_addr :: cstr
  us_rate_limiting_enabled :: bool
  us_rate_limit_pps :: u32
  us_burst_size :: u32
  us_max_peers :: u32
  us_peer_ttl_ns :: int
  us_active_peer_count :: u32
  us_buckets :: "token_bucket_entry list"
  us_drops_rate_limited :: u64
  us_drops_total :: u64
  us_peer_evictions :: u64

record udp_rate_limit_config =
  rl_rate_limit_pps :: u32
  rl_burst_size :: u32
  rl_max_peers :: u32
  rl_peer_ttl_s :: u32

section \<open>Token buckets\<close>

fun evict_scan :: "int \<Rightarrow> int \<Rightarrow> nat \<Rightarrow> token_bucket_entry list \<Rightarrow> nat option \<Rightarrow> int \<Rightarrow> nat option" where
  "evict_scan ttl now i [] best best_ts = best"
| "evict_scan ttl now i (e # es) best best_ts =
     (if \<not> tb_active e then evict_scan ttl now (Suc i) es best best_ts
      else if now - tb_last_seen_ns e > ttl then Some i
      else if tb_last_seen_ns e < best_ts then evict_scan ttl now (Suc i) es (Some i) (tb_last_seen_ns e)
      else evict_scan ttl now (Suc i) es best best_ts)"

definition with_bucket :: "nat \<Rightarrow> (token_bucket_entry \<Rightarrow> token_bucket_entry) \<Rightarrow> udp_socket \<Rightarrow> udp_socket" where
  "with_bucket i f sock = sock\<lparr>us_buckets := (us_buckets sock)[i := f (us_buckets sock ! i)]\<rparr>"

definition evict_lru_peer :: "udp_socket \<Rightarrow> int \<Rightarrow> nat option \<times> udp_socket" where
  "evict_lru_peer sock now_ns =
     (case evict_scan (us_peer_ttl_ns sock) now_ns 0 (us_buckets sock) None (2 ^ 63 - 1) of
        None \<Rightarrow> (None, sock)
      | Some i \<Rightarrow> (Some i, (with_bucket i (\<lambda>e. e\<lparr>tb_active := False\<rparr>) sock)
                     \<lparr>us_active_peer_count := us_active_peer_count sock - 1,
                      us_peer_evictions := us_peer_evictions sock + 1\<rparr>))"

definition fill_bucket :: "nat \<Rightarrow> u32 \<Rightarrow> int \<Rightarrow> udp_socket \<Rightarrow> udp_socket" where
  "fill_bucket i ip now_ns sock =
     (with_bucket i (\<lambda>e. e\<lparr>tb_ip_addr := ip, tb_max_tokens := us_burst_size sock,
        tb_tokens_per_ns_num := us_rate_limit_pps sock, tb_last_refill_ns := now_ns, tb_last_seen_ns := now_ns,
        tb_active := True, tb_tokens_x1e9 := uint (us_burst_size sock) * NS_PER_SEC\<rparr>) sock)
       \<lparr>us_active_peer_count := us_active_peer_count sock + 1\<rparr>"

definition bucket_probe :: "u32 \<Rightarrow> nat list" where
  "bucket_probe ip = map (\<lambda>probe. unat (((ip AND BUCKET_TABLE_MASK) + of_nat probe) AND BUCKET_TABLE_MASK)) [0..<256]"

fun find_or_create_loop :: "udp_socket \<Rightarrow> u32 \<Rightarrow> int \<Rightarrow> nat list \<Rightarrow> nat option \<times> udp_socket" where
  "find_or_create_loop sock ip now_ns [] =
     (if us_active_peer_count sock \<ge> us_max_peers sock then
        (case evict_lru_peer sock now_ns of
           (None, sock) \<Rightarrow> (None, sock)
         | (Some j, sock) \<Rightarrow> (Some j, fill_bucket j ip now_ns sock))
      else (None, sock))"
| "find_or_create_loop sock ip now_ns (i # js) =
     (let e = us_buckets sock ! i
      in if tb_active e \<and> tb_ip_addr e = ip then (Some i, with_bucket i (\<lambda>e. e\<lparr>tb_last_seen_ns := now_ns\<rparr>) sock)
         else if \<not> tb_active e then
           (if us_active_peer_count sock \<ge> us_max_peers sock then
              (case evict_lru_peer sock now_ns of
                 (None, sock) \<Rightarrow> (None, sock)
               | (Some j, sock) \<Rightarrow> (Some j, fill_bucket j ip now_ns sock))
            else (Some i, fill_bucket i ip now_ns sock))
         else find_or_create_loop sock ip now_ns js)"

definition bucket_find_or_create :: "udp_socket \<Rightarrow> u32 \<Rightarrow> int \<Rightarrow> nat option \<times> udp_socket" where
  "bucket_find_or_create sock ip now_ns = find_or_create_loop sock ip now_ns (bucket_probe ip)"

text \<open>The scan of the fast path: the slot of the peer, unless an unused slot comes first.\<close>

fun fast_find :: "token_bucket_entry list \<Rightarrow> u32 \<Rightarrow> nat list \<Rightarrow> nat option" where
  "fast_find buckets peer_ip [] = None"
| "fast_find buckets peer_ip (i # js) =
     (if \<not> tb_active (buckets ! i) then None
      else if tb_ip_addr (buckets ! i) = peer_ip then Some i
      else fast_find buckets peer_ip js)"

definition refill :: "int \<Rightarrow> token_bucket_entry \<Rightarrow> token_bucket_entry" where
  "refill now e =
     (let elapsed = now - tb_last_refill_ns e
      in if elapsed > 0 then
           (let new_tokens = s64 (uint (tb_tokens_per_ns_num e) * elapsed);
                max_t = uint (tb_max_tokens e) * NS_PER_SEC;
                refilled = s64 (tb_tokens_x1e9 e + new_tokens)
            in e\<lparr>tb_tokens_x1e9 := (if refilled > max_t then max_t else refilled), tb_last_refill_ns := now\<rparr>)
         else e)"

definition consume :: "nat \<Rightarrow> udp_socket \<Rightarrow> bool \<times> udp_socket" where
  "consume i sock =
     (let prev = tb_tokens_x1e9 (us_buckets sock ! i);
          sock = with_bucket i (\<lambda>e. e\<lparr>tb_tokens_x1e9 := s64 (tb_tokens_x1e9 e - NS_PER_SEC)\<rparr>) sock
      in if prev \<ge> NS_PER_SEC then (True, sock)
         else (False, with_bucket i (\<lambda>e. e\<lparr>tb_tokens_x1e9 := s64 (tb_tokens_x1e9 e + NS_PER_SEC)\<rparr>) sock))"

definition bucket_try_consume :: "int \<Rightarrow> udp_socket \<Rightarrow> u32 \<Rightarrow> bool \<times> udp_socket" where
  "bucket_try_consume now sock peer_ip =
     (if \<not> us_rate_limiting_enabled sock then (True, sock)
      else case fast_find (us_buckets sock) peer_ip (bucket_probe peer_ip) of
             Some i \<Rightarrow> consume i (with_bucket i (\<lambda>e. (refill now e)\<lparr>tb_last_seen_ns := now\<rparr>) sock)
           | None \<Rightarrow>
               (case bucket_find_or_create sock peer_ip now of
                  (None, sock) \<Rightarrow> (False, sock)
                | (Some i, sock) \<Rightarrow> consume i sock))"

section \<open>Socket operations\<close>

datatype bind_outcome = Socket_failed | Bind_failed errno | Bound

definition zero_bucket :: token_bucket_entry where
  "zero_bucket = \<lparr>tb_ip_addr = 0, tb_max_tokens = 0, tb_tokens_per_ns_num = 0, tb_tokens_x1e9 = 0, tb_last_refill_ns = 0,
     tb_last_seen_ns = 0, tb_active = False\<rparr>"

definition limit_socket :: "udp_rate_limit_config option \<Rightarrow> udp_socket \<Rightarrow> udp_socket" where
  "limit_socket rate_cfg sock =
     (case rate_cfg of
        None \<Rightarrow> sock
      | Some cfg \<Rightarrow>
          if rl_rate_limit_pps cfg > 0 then
            (let max_peers = (if rl_max_peers cfg \<noteq> 0 then rl_max_peers cfg else BUCKET_TABLE_SIZE)
             in sock\<lparr>us_rate_limiting_enabled := True, us_rate_limit_pps := rl_rate_limit_pps cfg,
                  us_burst_size := (if rl_burst_size cfg \<noteq> 0 then rl_burst_size cfg else rl_rate_limit_pps cfg * 2),
                  us_max_peers := (if max_peers > BUCKET_TABLE_SIZE then BUCKET_TABLE_SIZE else max_peers),
                  us_peer_ttl_ns := (if rl_peer_ttl_s cfg \<noteq> 0 then uint (rl_peer_ttl_s cfg) * NS_PER_SEC else PEER_DEFAULT_TTL_NS)\<rparr>)
          else sock)"

definition udp_socket_create :: "bind_outcome \<Rightarrow> cstr \<Rightarrow> u16 \<Rightarrow> udp_rate_limit_config option \<Rightarrow> udp_socket result" where
  "udp_socket_create outcome bind_addr port rate_cfg =
     (case outcome of
        Socket_failed \<Rightarrow> Inl DISTRIC_ERR_INIT_FAILED
      | Bind_failed errno \<Rightarrow> Inl (transport_err_to_distric (transport_classify_errno errno))
      | Bound \<Rightarrow> Inr (limit_socket rate_cfg
          \<lparr>us_port = port, us_bind_addr = strncpy 63 bind_addr, us_rate_limiting_enabled = False, us_rate_limit_pps = 0,
           us_burst_size = 0, us_max_peers = 0, us_peer_ttl_ns = 0, us_active_peer_count = 0,
           us_buckets = replicate 256 zero_bucket, us_drops_rate_limited = 0, us_drops_total = 0, us_peer_evictions = 0\<rparr>))"

text \<open>\<open>pton\<close> stands for \<^verbatim>\<open>inet_pton\<close>, \<open>sent\<close> for the answer of \<^verbatim>\<open>sendto\<close>.\<close>

definition udp_send :: "(cstr \<Rightarrow> u32 option) \<Rightarrow> errno + nat \<Rightarrow> bytes \<Rightarrow> cstr \<Rightarrow> int" where
  "udp_send pton sent data dest_addr =
     (if data = [] then err_code DISTRIC_ERR_INVALID_ARG
      else if pton dest_addr = None then err_code DISTRIC_ERR_INVALID_ARG
      else case sent of
             Inl errno \<Rightarrow> if errno = EAGAIN then err_code DISTRIC_ERR_BACKPRESSURE else err_code DISTRIC_ERR_IO
           | Inr n \<Rightarrow> int n)"

text \<open>What \<^verbatim>\<open>epoll_wait\<close> and \<^verbatim>\<open>recvfrom\<close> deliver.\<close>

datatype udp_input = No_event | Recv_failed errno | Datagram u32 u16 bytes

definition udp_recv :: "int \<Rightarrow> udp_socket \<Rightarrow> nat \<Rightarrow> udp_input \<Rightarrow> int \<times> bytes \<times> udp_socket" where
  "udp_recv now sock len input =
     (if len = 0 then (err_code DISTRIC_ERR_INVALID_ARG, [], sock)
      else case input of
             No_event \<Rightarrow> (0, [], sock)
           | Recv_failed errno \<Rightarrow> if errno = EAGAIN then (0, [], sock) else (err_code DISTRIC_ERR_IO, [], sock)
           | Datagram peer_ip peer_port data \<Rightarrow>
               (case bucket_try_consume now sock peer_ip of
                  (False, sock) \<Rightarrow> (0, [], sock\<lparr>us_drops_rate_limited := us_drops_rate_limited sock + 1,
                                             us_drops_total := us_drops_total sock + 1\<rparr>)
                | (True, sock) \<Rightarrow> (int (min len (length data)), take len data, sock)))"

definition udp_get_drop_count :: "udp_socket \<Rightarrow> u64" where
  "udp_get_drop_count sock = us_drops_total sock"

definition udp_get_eviction_count :: "udp_socket \<Rightarrow> u64" where
  "udp_get_eviction_count sock = us_peer_evictions sock"

section \<open>The table as a map\<close>

lemma bucket_probe_mod: "bucket_probe ip = map (\<lambda>p. (unat ip + p) mod 256) [0..<256]"
proof -
  have m: "unat ((x :: u32) AND BUCKET_TABLE_MASK) = unat x mod 256" for x
    using unat_and_mask [of 8 x] by (simp add: BUCKET_TABLE_MASK_def BUCKET_TABLE_SIZE_def)
  have "unat (((ip AND BUCKET_TABLE_MASK) + of_nat p) AND BUCKET_TABLE_MASK) = (unat ip + p) mod 256" if "p < 256" for p
  proof -
    have "unat ((ip AND BUCKET_TABLE_MASK) + of_nat p) = unat ip mod 256 + p"
      using that m [of ip] by (simp add: unat_word_ariths unat_of_nat)
    then show ?thesis using m by (simp add: mod_add_left_eq)
  qed
  then show ?thesis by (simp add: bucket_probe_def)
qed

interpretation ut: probe_table tb_active tb_ip_addr bucket_probe 256
proof unfold_locales
  show "distinct (bucket_probe ip)" "set (bucket_probe ip) = {..<256}" for ip
    unfolding bucket_probe_mod using mod_probe [of 256 "unat ip"] by (simp_all del: upt_rec_numeral)
qed

lemma fast_find_search: "fast_find buckets ip js = ut.search buckets ip js"
  by (induction js) simp_all

section \<open>Arithmetic of one bucket\<close>

lemma s64_id: "- (2 ^ 63) \<le> x \<Longrightarrow> x < 2 ^ 63 \<Longrightarrow> s64 x = x"
  unfolding s64_def by (rule signed_take_bit_int_eq_self) simp_all

lemma with_bucket_simps [simp]:
  "us_buckets (with_bucket i f sock) = (us_buckets sock)[i := f (us_buckets sock ! i)]"
  "us_rate_limiting_enabled (with_bucket i f sock) = us_rate_limiting_enabled sock"
  "us_rate_limit_pps (with_bucket i f sock) = us_rate_limit_pps sock" "us_burst_size (with_bucket i f sock) = us_burst_size sock"
  "us_max_peers (with_bucket i f sock) = us_max_peers sock" "us_active_peer_count (with_bucket i f sock) = us_active_peer_count sock"
  "us_peer_ttl_ns (with_bucket i f sock) = us_peer_ttl_ns sock" "us_peer_evictions (with_bucket i f sock) = us_peer_evictions sock"
  by (simp_all add: with_bucket_def)

lemma consume_spec:
  assumes "i < length (us_buckets sock)" and "tb_tokens_x1e9 (us_buckets sock ! i) = t" and "0 \<le> t" and "t < 2 ^ 63"
  shows "consume i sock = (t \<ge> NS_PER_SEC,
    with_bucket i (\<lambda>e. e\<lparr>tb_tokens_x1e9 := (if t \<ge> NS_PER_SEC then t - NS_PER_SEC else t)\<rparr>) sock)"
proof -
  have ns: "0 < NS_PER_SEC" "NS_PER_SEC < 2 ^ 62" by (simp_all add: NS_PER_SEC_def)
  have "s64 (t - NS_PER_SEC) = t - NS_PER_SEC" "s64 t = t" using assms(3,4) ns by (auto intro!: s64_id)
  then show ?thesis using assms(1,2) by (simp add: consume_def Let_def with_bucket_def)
qed

text \<open>The tokens of a bucket at a time: what it held, what has flowed in since, at most the burst size.\<close>

definition level_at :: "int \<Rightarrow> int \<Rightarrow> int \<Rightarrow> int \<times> int \<Rightarrow> int" where
  "level_at burst pps now b = min (burst * NS_PER_SEC) (fst b + pps * (now - snd b))"

definition bucket_level :: "token_bucket_entry \<Rightarrow> int \<times> int" where
  "bucket_level e = (tb_tokens_x1e9 e, tb_last_refill_ns e)"

definition bucket_ok :: "udp_socket \<Rightarrow> token_bucket_entry \<Rightarrow> bool" where
  "bucket_ok sock e \<longleftrightarrow> tb_max_tokens e = us_burst_size sock \<and> tb_tokens_per_ns_num e = us_rate_limit_pps sock
     \<and> 0 \<le> tb_tokens_x1e9 e \<and> tb_tokens_x1e9 e \<le> uint (us_burst_size sock) * NS_PER_SEC"

text \<open>No refill between \<open>since\<close> and \<open>until\<close> leaves the 64 bit range.\<close>

definition no_overflow :: "udp_socket \<Rightarrow> int \<Rightarrow> int \<Rightarrow> bool" where
  "no_overflow sock since until \<longleftrightarrow>
     uint (us_burst_size sock) * NS_PER_SEC + uint (us_rate_limit_pps sock) * (until - since) < 2 ^ 63"

lemma refill_spec:
  assumes "bucket_ok sock e" and "tb_last_refill_ns e \<le> now" and "no_overflow sock (tb_last_refill_ns e) now"
  shows "refill now e = e\<lparr>tb_tokens_x1e9 := level_at (uint (us_burst_size sock)) (uint (us_rate_limit_pps sock)) now (bucket_level e),
    tb_last_refill_ns := now\<rparr>"
proof (cases "tb_last_refill_ns e = now")
  case True
  then show ?thesis using assms(1)
    by (cases e) (simp add: refill_def level_at_def bucket_level_def bucket_ok_def min_def)
next
  case False
  let ?pps = "uint (us_rate_limit_pps sock)" and ?d = "now - tb_last_refill_ns e"
  have pos: "0 \<le> ?pps * ?d" using assms(2) by simp
  have "?pps * ?d < 2 ^ 63" "tb_tokens_x1e9 e + ?pps * ?d < 2 ^ 63"
    using assms(1,3) mult_nonneg_nonneg [of "uint (us_burst_size sock)" NS_PER_SEC]
    by (auto simp: no_overflow_def bucket_ok_def NS_PER_SEC_def)
  then have "s64 (?pps * ?d) = ?pps * ?d" "s64 (tb_tokens_x1e9 e + ?pps * ?d) = tb_tokens_x1e9 e + ?pps * ?d"
    using pos assms(1) by (auto intro!: s64_id simp: bucket_ok_def)
  then show ?thesis using False assms(1,2)
    by (simp add: refill_def Let_def level_at_def bucket_level_def bucket_ok_def min_def not_less)
qed

lemma level_bounds:
  assumes "bucket_ok sock e" and "tb_last_refill_ns e \<le> now"
  defines "l \<equiv> level_at (uint (us_burst_size sock)) (uint (us_rate_limit_pps sock)) now (bucket_level e)"
  shows "0 \<le> l" and "l \<le> uint (us_burst_size sock) * NS_PER_SEC"
  using assms by (simp_all add: level_at_def bucket_level_def bucket_ok_def NS_PER_SEC_def)

lemma burst_range: "uint (b :: u32) * NS_PER_SEC < 2 ^ 63"
proof -
  have "uint b < 2 ^ LENGTH(32)" by (rule unsigned_less)
  then show ?thesis by (simp add: NS_PER_SEC_def)
qed

section \<open>One packet\<close>

definition sock_ok :: "udp_socket \<Rightarrow> bool" where
  "sock_ok sock \<longleftrightarrow> us_rate_limiting_enabled sock \<and> ut.well (us_buckets sock) \<and> us_max_peers sock \<le> 256
     \<and> unat (us_active_peer_count sock) = card (dom (ut.contents (us_buckets sock)))
     \<and> (\<forall>ip e. ut.contents (us_buckets sock) ip = Some e \<longrightarrow> bucket_ok sock e)"

definition levels :: "udp_socket \<Rightarrow> u32 \<Rightarrow> (int \<times> int) option" where
  "levels sock ip = map_option bucket_level (ut.contents (us_buckets sock) ip)"

text \<open>The ideal token bucket: decision and new content; a new peer starts with a full bucket.\<close>

definition ideal_packet :: "int \<Rightarrow> int \<Rightarrow> int \<Rightarrow> (int \<times> int) option \<Rightarrow> bool \<times> int \<times> int" where
  "ideal_packet burst pps now b =
     (let l = (case b of None \<Rightarrow> burst * NS_PER_SEC | Some b \<Rightarrow> level_at burst pps now b)
      in if l \<ge> NS_PER_SEC then (True, l - NS_PER_SEC, now) else (False, l, now))"

definition same_limits :: "udp_socket \<Rightarrow> udp_socket \<Rightarrow> bool" where
  "same_limits a b \<longleftrightarrow> us_rate_limit_pps a = us_rate_limit_pps b \<and> us_burst_size a = us_burst_size b
     \<and> us_max_peers a = us_max_peers b"

lemma sock_ok_update:
  assumes "sock_ok sock" and "same_limits sock' sock" and "us_rate_limiting_enabled sock'" and "ut.well (us_buckets sock')"
    and "ut.contents (us_buckets sock') = (ut.contents (us_buckets sock))(ip \<mapsto> e)" and "bucket_ok sock e"
    and "unat (us_active_peer_count sock') = card (dom (ut.contents (us_buckets sock')))"
  shows "sock_ok sock'" and "levels sock' = (levels sock)(ip \<mapsto> bucket_level e)"
proof -
  have "bucket_ok sock' e'" if "ut.contents (us_buckets sock') ip' = Some e'" for ip' e'
    using that assms(1,2,5,6) by (auto simp: bucket_ok_def same_limits_def sock_ok_def split: if_splits)
  then show "sock_ok sock'" using assms(1-4,7) by (simp add: sock_ok_def same_limits_def)
  show "levels sock' = (levels sock)(ip \<mapsto> bucket_level e)" by (auto simp: levels_def assms(5))
qed

lemma try_consume_present:
  assumes "sock_ok sock" and "ut.contents (us_buckets sock) ip = Some e" and "tb_last_refill_ns e \<le> now"
    and "no_overflow sock (tb_last_refill_ns e) now" and "bucket_try_consume now sock ip = (ok, sock')"
  shows "(ok, the (levels sock' ip)) = ideal_packet (uint (us_burst_size sock)) (uint (us_rate_limit_pps sock)) now (levels sock ip)"
    and "sock_ok sock'" and "levels sock' = (levels sock)(ip \<mapsto> the (levels sock' ip))" and "same_limits sock' sock"
proof -
  let ?tb = "us_buckets sock" and ?l = "level_at (uint (us_burst_size sock)) (uint (us_rate_limit_pps sock)) now (bucket_level e)"
  have well: "ut.well ?tb" and e: "bucket_ok sock e" using assms(1,2) by (auto simp: sock_ok_def)
  obtain i where i: "ut.slot ?tb ip i" "ut.search ?tb ip (bucket_probe ip) = Some i" "?tb ! i = e"
    using assms(2) by (cases rule: ut.search_cases [OF well, of ip]) auto
  have len: "i < length ?tb" using i(1) ut.well_length [OF well] by (simp add: ut.slot_def)
  note l = level_bounds [OF e assms(3)]
  define e' where "e' = e\<lparr>tb_last_refill_ns := now, tb_last_seen_ns := now, tb_tokens_x1e9 := (if ?l \<ge> NS_PER_SEC then ?l - NS_PER_SEC else ?l)\<rparr>"
  let ?s = "with_bucket i (\<lambda>e. (refill now e)\<lparr>tb_last_seen_ns := now\<rparr>) sock"
  have "consume i ?s = (?l \<ge> NS_PER_SEC,
      with_bucket i (\<lambda>e. e\<lparr>tb_tokens_x1e9 := (if ?l \<ge> NS_PER_SEC then ?l - NS_PER_SEC else ?l)\<rparr>) ?s)"
    using len l burst_range [of "us_burst_size sock"] i(3) refill_spec [OF e assms(3,4)] by (intro consume_spec) simp_all
  then have r: "ok = (?l \<ge> NS_PER_SEC)" "us_buckets sock' = ?tb[i := e']" "same_limits sock' sock"
      "us_rate_limiting_enabled sock'" "us_active_peer_count sock' = us_active_peer_count sock"
    using assms(1,5) i(2,3) refill_spec [OF e assms(3,4)] len
    by (auto simp: bucket_try_consume_def fast_find_search sock_ok_def e'_def same_limits_def split: prod.splits)
  have act: "tb_active e" "tb_ip_addr e = ip" using i(1,3) by (auto simp: ut.slot_def)
  note o = ut.overwrite [OF well i(1), of e']
  have cont: "ut.contents (us_buckets sock') = (ut.contents ?tb)(ip \<mapsto> e')" using o(2) act r(2) by (simp add: e'_def)
  have bok: "bucket_ok sock e'" using e l by (auto simp: bucket_ok_def e'_def NS_PER_SEC_def)
  have "dom (ut.contents (us_buckets sock')) = dom (ut.contents ?tb)" using cont assms(2) by auto
  then have card: "unat (us_active_peer_count sock') = card (dom (ut.contents (us_buckets sock')))"
    using assms(1) r(5) by (simp add: sock_ok_def)
  have w': "ut.well (us_buckets sock')" using o(1) act r(2) by (simp add: e'_def)
  note upd = sock_ok_update [OF assms(1) r(3,4) w' cont bok card]
  show "sock_ok sock'" by (rule upd(1))
  show "levels sock' = (levels sock)(ip \<mapsto> the (levels sock' ip))" "same_limits sock' sock" using upd(2) r(3) by simp_all
  show "(ok, the (levels sock' ip)) = ideal_packet (uint (us_burst_size sock)) (uint (us_rate_limit_pps sock)) now (levels sock ip)"
    using upd(2) r(1) assms(2) by (auto simp: ideal_packet_def levels_def bucket_level_def e'_def Let_def)
qed

lemma find_or_create_fills:
  assumes "\<forall>x \<in> set xs. tb_active (us_buckets sock ! x) \<and> tb_ip_addr (us_buckets sock ! x) \<noteq> ip"
    and "\<not> tb_active (us_buckets sock ! i)" and "us_active_peer_count sock < us_max_peers sock"
  shows "find_or_create_loop sock ip now (xs @ i # ys) = (Some i, fill_bucket i ip now sock)"
  using assms by (induction xs) (auto simp: Let_def not_le)

lemma free_bucket:
  assumes "sock_ok sock" and "us_active_peer_count sock < us_max_peers sock"
  obtains q where "q < 256" and "\<not> tb_active (us_buckets sock ! q)"
proof -
  let ?O = "{i. i < 256 \<and> tb_active (us_buckets sock ! i)}"
  have well: "ut.well (us_buckets sock)" using assms(1) by (simp add: sock_ok_def)
  have "card ?O = unat (us_active_peer_count sock)" using assms(1) ut.dom_contents(2) [OF well] by (simp add: sock_ok_def)
  also have "\<dots> < unat (us_max_peers sock)" using assms(2) by (simp add: word_less_nat_alt)
  also have "\<dots> \<le> 256" using assms(1) by (simp add: sock_ok_def word_le_nat_alt)
  finally have "card ?O < card {..<256 :: nat}" by simp
  moreover have "finite ?O" by simp
  ultimately have "\<not> {..<256} \<subseteq> ?O" using card_mono [of ?O "{..<256}"] by linarith
  then show thesis using that by blast
qed

lemma try_consume_absent:
  assumes "sock_ok sock" and "ut.contents (us_buckets sock) ip = None" and "us_active_peer_count sock < us_max_peers sock"
    and "bucket_try_consume now sock ip = (ok, sock')"
  shows "(ok, the (levels sock' ip)) = ideal_packet (uint (us_burst_size sock)) (uint (us_rate_limit_pps sock)) now (levels sock ip)"
    and "sock_ok sock'" and "levels sock' = (levels sock)(ip \<mapsto> the (levels sock' ip))" and "same_limits sock' sock"
proof -
  let ?tb = "us_buckets sock" and ?l = "uint (us_burst_size sock) * NS_PER_SEC"
  have well: "ut.well ?tb" using assms(1) by (simp add: sock_ok_def)
  have new: "\<forall>i. \<not> ut.slot ?tb ip i" "ut.search ?tb ip (bucket_probe ip) = None"
    using assms(2) by (cases rule: ut.search_cases [OF well, of ip]; simp)+
  obtain q where q: "q < 256" "\<not> tb_active (?tb ! q)" using free_bucket [OF assms(1,3)] .
  obtain i where i: "ut.first_free ?tb ip i" using ut.first_free_exists [OF q] by blast
  then obtain xs ys where s: "i < 256" "\<not> tb_active (?tb ! i)" "bucket_probe ip = xs @ i # ys" "\<forall>x \<in> set xs. tb_active (?tb ! x)"
    by (auto simp: ut.first_free_def)
  have "tb_active (?tb ! x) \<and> tb_ip_addr (?tb ! x) \<noteq> ip" if "x \<in> set xs" for x
    using new(1) s(4) that ut.probed [OF s(3), of x] by (auto simp: ut.slot_def)
  then have foc: "bucket_find_or_create sock ip now = (Some i, fill_bucket i ip now sock)"
    unfolding bucket_find_or_create_def s(3) using s(2) assms(3) by (intro find_or_create_fills) auto
  have len: "i < length ?tb" using s(1) ut.well_length [OF well] by simp
  define e' where "e' = (?tb ! i)\<lparr>tb_ip_addr := ip, tb_max_tokens := us_burst_size sock,
    tb_tokens_per_ns_num := us_rate_limit_pps sock, tb_last_refill_ns := now, tb_last_seen_ns := now, tb_active := True,
    tb_tokens_x1e9 := (if ?l \<ge> NS_PER_SEC then ?l - NS_PER_SEC else ?l)\<rparr>"
  have "consume i (fill_bucket i ip now sock) = (?l \<ge> NS_PER_SEC,
      with_bucket i (\<lambda>e. e\<lparr>tb_tokens_x1e9 := (if ?l \<ge> NS_PER_SEC then ?l - NS_PER_SEC else ?l)\<rparr>) (fill_bucket i ip now sock))"
    using len burst_range [of "us_burst_size sock"] by (intro consume_spec) (simp_all add: fill_bucket_def NS_PER_SEC_def)
  then have r: "ok = (?l \<ge> NS_PER_SEC)" "us_buckets sock' = ?tb[i := e']" "same_limits sock' sock"
      "us_rate_limiting_enabled sock'" "us_active_peer_count sock' = us_active_peer_count sock + 1"
    using assms(1,4) new(2) foc len
    by (auto simp: bucket_try_consume_def fast_find_search sock_ok_def e'_def same_limits_def fill_bucket_def)
  note f = ut.fill [OF well new(1) i, of e']
  have cont: "ut.contents (us_buckets sock') = (ut.contents ?tb)(ip \<mapsto> e')" using f(2) r(2) by (simp add: e'_def)
  have bok: "bucket_ok sock e'" by (auto simp: bucket_ok_def e'_def NS_PER_SEC_def)
  have "dom (ut.contents (us_buckets sock')) = insert ip (dom (ut.contents ?tb))" using cont by auto
  then have "card (dom (ut.contents (us_buckets sock'))) = Suc (unat (us_active_peer_count sock))"
    using assms(1,2) ut.dom_contents(1) [OF well] by (simp add: sock_ok_def domIff)
  moreover have "unat (us_active_peer_count sock + 1) = Suc (unat (us_active_peer_count sock))"
    using assms(1,3) by (intro unat_Suc_u32) (simp add: sock_ok_def word_less_nat_alt word_le_nat_alt)
  ultimately have card: "unat (us_active_peer_count sock') = card (dom (ut.contents (us_buckets sock')))" using r(5) by simp
  have w': "ut.well (us_buckets sock')" using f(1) r(2) by (simp add: e'_def)
  note upd = sock_ok_update [OF assms(1) r(3,4) w' cont bok card]
  show "sock_ok sock'" by (rule upd(1))
  show "levels sock' = (levels sock)(ip \<mapsto> the (levels sock' ip))" "same_limits sock' sock" using upd(2) r(3) by simp_all
  show "(ok, the (levels sock' ip)) = ideal_packet (uint (us_burst_size sock)) (uint (us_rate_limit_pps sock)) now (levels sock ip)"
    using upd(2) r(1) assms(2) by (auto simp: ideal_packet_def levels_def bucket_level_def e'_def Let_def)
qed

section \<open>Streams of packets\<close>

fun udp_run :: "udp_socket \<Rightarrow> (int \<times> u32) list \<Rightarrow> bool list \<times> udp_socket" where
  "udp_run sock [] = ([], sock)"
| "udp_run sock ((now, ip) # ps) =
     (case bucket_try_consume now sock ip of (ok, sock) \<Rightarrow> case udp_run sock ps of (oks, sock) \<Rightarrow> (ok # oks, sock))"

fun ideal_run :: "int \<Rightarrow> int \<Rightarrow> (u32 \<Rightarrow> (int \<times> int) option) \<Rightarrow> (int \<times> u32) list \<Rightarrow> bool list" where
  "ideal_run burst pps B [] = []"
| "ideal_run burst pps B ((now, ip) # ps) =
     (case ideal_packet burst pps now (B ip) of (ok, b) \<Rightarrow> ok # ideal_run burst pps (B(ip \<mapsto> b)) ps)"

text \<open>Arrival times do not decrease and lie between two bounds.\<close>

fun in_order :: "int \<Rightarrow> int \<Rightarrow> (int \<times> u32) list \<Rightarrow> bool" where
  "in_order t0 t1 [] \<longleftrightarrow> t0 \<le> t1"
| "in_order t0 t1 ((now, ip) # ps) \<longleftrightarrow> t0 \<le> now \<and> in_order now t1 ps"

definition refilled_in :: "int \<Rightarrow> int \<Rightarrow> udp_socket \<Rightarrow> bool" where
  "refilled_in since until sock \<longleftrightarrow> (\<forall>ip b. levels sock ip = Some b \<longrightarrow> since \<le> snd b \<and> snd b \<le> until)"

lemma in_order_bound: "in_order t0 t1 ps \<Longrightarrow> t0 \<le> t1"
  by (induction ps arbitrary: t0) fastforce+

lemma no_overflow_mono: "no_overflow sock since t1 \<Longrightarrow> since \<le> s \<Longrightarrow> t \<le> t1 \<Longrightarrow> no_overflow sock s t"
  using mult_left_mono [of "t - s" "t1 - since" "uint (us_rate_limit_pps sock)"] by (simp add: no_overflow_def)

lemma try_consume_ideal:
  assumes "sock_ok sock" and "refilled_in since t0 sock" and "t0 \<le> now" and "since \<le> t0" and "no_overflow sock since now"
    and "card (insert ip (dom (levels sock))) \<le> unat (us_max_peers sock)" and "bucket_try_consume now sock ip = (ok, sock')"
  shows "(ok, the (levels sock' ip)) = ideal_packet (uint (us_burst_size sock)) (uint (us_rate_limit_pps sock)) now (levels sock ip)"
    and "sock_ok sock'" and "levels sock' = (levels sock)(ip \<mapsto> the (levels sock' ip))" and "same_limits sock' sock"
    and "refilled_in since now sock'"
proof -
  have all: "(ok, the (levels sock' ip)) = ideal_packet (uint (us_burst_size sock)) (uint (us_rate_limit_pps sock)) now (levels sock ip)
    \<and> sock_ok sock' \<and> levels sock' = (levels sock)(ip \<mapsto> the (levels sock' ip)) \<and> same_limits sock' sock"
  proof (cases "ut.contents (us_buckets sock) ip")
    case None
    have dom: "dom (levels sock) = dom (ut.contents (us_buckets sock))" by (auto simp: levels_def)
    have "finite (dom (levels sock))" using assms(1) ut.dom_contents(1) dom by (simp add: sock_ok_def)
    then have "Suc (card (dom (levels sock))) \<le> unat (us_max_peers sock)"
      using assms(6) None by (simp add: levels_def domIff)
    then have "us_active_peer_count sock < us_max_peers sock" using assms(1) dom by (simp add: sock_ok_def word_less_nat_alt)
    from try_consume_absent [OF assms(1) None this assms(7)] show ?thesis by blast
  next
    case (Some e)
    then have "levels sock ip = Some (bucket_level e)" by (simp add: levels_def)
    then have "since \<le> tb_last_refill_ns e" "tb_last_refill_ns e \<le> t0" using assms(2) by (auto simp: refilled_in_def bucket_level_def)
    then have e: "tb_last_refill_ns e \<le> now" "no_overflow sock (tb_last_refill_ns e) now"
      using assms(3,5) no_overflow_mono [of sock since now "tb_last_refill_ns e" now] by auto
    from try_consume_present [OF assms(1) Some e assms(7)] show ?thesis by blast
  qed
  then show "(ok, the (levels sock' ip)) = ideal_packet (uint (us_burst_size sock)) (uint (us_rate_limit_pps sock)) now (levels sock ip)"
    and "sock_ok sock'" and lv: "levels sock' = (levels sock)(ip \<mapsto> the (levels sock' ip))" and "same_limits sock' sock" by blast+
  have "snd (the (levels sock' ip)) = now"
    using all by (auto simp: ideal_packet_def Let_def dest!: arg_cong [of _ _ "\<lambda>x. snd (snd x)"] split: if_splits)
  then have "since \<le> snd b \<and> snd b \<le> now" if "levels sock' ip' = Some b" for ip' b
  proof (cases "ip' = ip")
    case False
    then have "levels sock ip' = Some b" using that fun_cong [OF lv, of ip'] by simp
    then have "since \<le> snd b \<and> snd b \<le> t0" using assms(2) unfolding refilled_in_def by blast
    then show ?thesis using assms(3) by simp
  qed (use that assms(3,4) in auto)
  then show "refilled_in since now sock'" unfolding refilled_in_def by blast
qed

definition peers_of :: "(int \<times> u32) list \<Rightarrow> u32 set" where
  "peers_of ps = snd ` set ps"

lemma udp_run_ideal:
  assumes "sock_ok sock" and "refilled_in since t0 sock" and "since \<le> t0" and "in_order t0 t1 ps" and "no_overflow sock since t1"
    and "card (dom (levels sock) \<union> peers_of ps) \<le> unat (us_max_peers sock)"
  shows "fst (udp_run sock ps) = ideal_run (uint (us_burst_size sock)) (uint (us_rate_limit_pps sock)) (levels sock) ps
    \<and> sock_ok (snd (udp_run sock ps))"
  using assms
proof (induction ps arbitrary: sock t0)
  case (Cons p ps)
  obtain now ip where p: "p = (now, ip)" by fastforce
  obtain ok sock' where step: "bucket_try_consume now sock ip = (ok, sock')" by fastforce
  have now: "t0 \<le> now" "in_order now t1 ps" "now \<le> t1" using Cons.prems(4) p in_order_bound by auto
  have fin: "finite (dom (levels sock) \<union> peers_of (p # ps))"
    using Cons.prems(1) ut.dom_contents(1) by (auto simp: sock_ok_def levels_def peers_of_def dom_map_option_comp [unfolded comp_def])
  have "card (insert ip (dom (levels sock))) \<le> card (dom (levels sock) \<union> peers_of (p # ps))"
    using p by (intro card_mono [OF fin]) (auto simp: peers_of_def)
  then have room: "card (insert ip (dom (levels sock))) \<le> unat (us_max_peers sock)" using Cons.prems(6) by linarith
  note s = try_consume_ideal [OF Cons.prems(1,2) now(1) Cons.prems(3) no_overflow_mono [OF Cons.prems(5) order_refl now(3)] room step]
  have "dom (levels sock') \<union> peers_of ps \<subseteq> dom (levels sock) \<union> peers_of (p # ps)"
    by (subst s(3)) (auto simp: peers_of_def p)
  then have "card (dom (levels sock') \<union> peers_of ps) \<le> card (dom (levels sock) \<union> peers_of (p # ps))"
    by (rule card_mono [OF fin])
  then have "card (dom (levels sock') \<union> peers_of ps) \<le> unat (us_max_peers sock')"
    using Cons.prems(6) s(4) by (simp add: same_limits_def)
  moreover have "no_overflow sock' since t1" using Cons.prems(5) s(4) by (simp add: no_overflow_def same_limits_def)
  moreover have "since \<le> now" using now(1) Cons.prems(3) by simp
  ultimately have ih: "fst (udp_run sock' ps) = ideal_run (uint (us_burst_size sock)) (uint (us_rate_limit_pps sock)) (levels sock') ps"
      "sock_ok (snd (udp_run sock' ps))"
    using Cons.IH [OF s(2,5) _ now(2)] s(4) by (simp_all add: same_limits_def)
  define b where "b = the (levels sock' ip)"
  have b: "ideal_packet (uint (us_burst_size sock)) (uint (us_rate_limit_pps sock)) now (levels sock ip) = (ok, b)"
      "levels sock' = (levels sock)(ip \<mapsto> b)"
    unfolding b_def by (rule s(1) [symmetric], rule s(3))
  show ?case using ih by (cases "udp_run sock' ps") (simp add: p step b)
qed simp

subsection \<open>How many packets a peer gets through\<close>

definition accepted :: "u32 \<Rightarrow> (int \<times> u32) list \<Rightarrow> bool list \<Rightarrow> nat" where
  "accepted ip ps oks = length [x \<leftarrow> zip ps oks. snd x \<and> snd (fst x) = ip]"

definition credit :: "int \<Rightarrow> int \<Rightarrow> int \<Rightarrow> (int \<times> int) option \<Rightarrow> int" where
  "credit burst pps t b = (case b of None \<Rightarrow> burst * NS_PER_SEC | Some b \<Rightarrow> level_at burst pps t b)"

definition level_ok :: "int \<Rightarrow> (int \<times> int) option \<Rightarrow> bool" where
  "level_ok t b \<longleftrightarrow> (case b of None \<Rightarrow> True | Some b \<Rightarrow> 0 \<le> fst b \<and> snd b \<le> t)"

lemma credit_grows:
  assumes "0 \<le> pps" and "t \<le> now"
  shows "credit burst pps now b \<le> credit burst pps t b + pps * (now - t)"
proof (cases b)
  case None
  then show ?thesis using assms by (simp add: credit_def)
next
  case (Some l)
  have "pps * (now - snd l) = pps * (t - snd l) + pps * (now - t)" by (simp add: algebra_simps)
  moreover have "0 \<le> pps * (now - t)" using assms by simp
  ultimately show ?thesis using Some by (simp add: credit_def level_at_def)
qed

lemma ideal_packet_credit:
  assumes "ideal_packet burst pps now b = (ok, b')" and "0 \<le> burst" and "0 \<le> pps" and "level_ok now b"
  shows "credit burst pps now (Some b') + (if ok then NS_PER_SEC else 0) = credit burst pps now b"
    and "level_ok now (Some b')" and "0 \<le> credit burst pps now (Some b')"
proof -
  let ?l = "credit burst pps now b"
  have ns: "0 < NS_PER_SEC" by (simp add: NS_PER_SEC_def)
  have l: "0 \<le> ?l" "?l \<le> burst * NS_PER_SEC"
    using assms(2-4) ns by (auto simp: credit_def level_at_def level_ok_def split: option.splits)
  have b': "b' = (if ?l \<ge> NS_PER_SEC then ?l - NS_PER_SEC else ?l, now)" "ok = (?l \<ge> NS_PER_SEC)"
    using assms(1) by (auto simp: ideal_packet_def credit_def Let_def split: if_splits)
  show "credit burst pps now (Some b') + (if ok then NS_PER_SEC else 0) = ?l" "level_ok now (Some b')"
    "0 \<le> credit burst pps now (Some b')"
    using l ns by (auto simp: b' credit_def level_at_def level_ok_def)
qed

lemma ideal_run_bound:
  assumes "in_order t0 t1 ps" and "0 \<le> burst" and "0 \<le> pps" and "\<forall>ip. level_ok t0 (B ip)"
  shows "int (accepted ip ps (ideal_run burst pps B ps)) * NS_PER_SEC \<le> credit burst pps t0 (B ip) + pps * (t1 - t0)"
  using assms
proof (induction ps arbitrary: t0 B)
  case Nil
  have "0 \<le> credit burst pps t0 (B ip)"
    using Nil.prems(2-4) by (auto simp: credit_def level_at_def level_ok_def NS_PER_SEC_def split: option.splits)
  then show ?case using Nil.prems by (simp add: accepted_def)
next
  case (Cons p ps)
  obtain now ip' where p: "p = (now, ip')" by fastforce
  obtain ok b where pk: "ideal_packet burst pps now (B ip') = (ok, b)" by (rule prod.exhaust)
  have now: "t0 \<le> now" "in_order now t1 ps" using Cons.prems(1) p by simp_all
  have ok: "level_ok now (B k)" for k
    using Cons.prems(4) [rule_format, of k] now(1) by (auto simp: level_ok_def split: option.splits)
  note c = ideal_packet_credit [OF pk Cons.prems(2,3) ok]
  have "\<forall>k. level_ok now ((B(ip' \<mapsto> b)) k)" using ok c(2) by simp
  note ih = Cons.IH [OF now(2) Cons.prems(2,3) this]
  have step: "credit burst pps now ((B(ip' \<mapsto> b)) ip) + (if ok \<and> ip' = ip then NS_PER_SEC else 0)
      \<le> credit burst pps t0 (B ip) + pps * (now - t0)"
    using c(1) credit_grows [OF Cons.prems(3) now(1), of burst "B ip"] by (auto split: if_splits)
  have "pps * (t1 - t0) = pps * (now - t0) + pps * (t1 - now)" by (simp add: algebra_simps)
  moreover have "int (accepted ip (p # ps) (ideal_run burst pps B (p # ps))) * NS_PER_SEC
      = (if ok \<and> ip' = ip then NS_PER_SEC else 0) + int (accepted ip ps (ideal_run burst pps (B(ip' \<mapsto> b)) ps)) * NS_PER_SEC"
    by (simp add: p pk accepted_def algebra_simps)
  ultimately show ?case using ih step by linarith
qed

text \<open>
  C26. The rate limiter is the ideal token bucket of every peer: as long as no more peers appear than
  the table may hold and no refill leaves the 64 bit range, the decisions for a stream of packets
  are those of one independent bucket per source address (filled at the configured rate, capped at
  the burst size, full at the first packet); hash collisions do not mix peers.
\<close>

theorem udp_refines_token_buckets:
  assumes "sock_ok sock" and "refilled_in since t0 sock" and "since \<le> t0" and "in_order t0 t1 ps" and "no_overflow sock since t1"
    and "card (dom (levels sock) \<union> peers_of ps) \<le> unat (us_max_peers sock)"
  shows "fst (udp_run sock ps) = ideal_run (uint (us_burst_size sock)) (uint (us_rate_limit_pps sock)) (levels sock) ps"
  using udp_run_ideal [OF assms] by simp

text \<open>
  C27. The rate bound: as long as the peers seen fit the table, so that no bucket is evicted, the arithmetic of the
  buckets stays below 64 bits and packets arrive in the order of time, in a window of \<open>t1 - t0\<close> nanoseconds no
  peer gets more packets through than its burst size plus the configured rate times the length of the window.
  (At capacity the bound is lost, see \<open>rate_limit_bypassed_at_capacity\<close>.)
\<close>

theorem udp_rate_bound:
  assumes "sock_ok sock" and "refilled_in since t0 sock" and "since \<le> t0" and "in_order t0 t1 ps" and "no_overflow sock since t1"
    and "card (dom (levels sock) \<union> peers_of ps) \<le> unat (us_max_peers sock)"
  shows "int (accepted ip ps (fst (udp_run sock ps))) * NS_PER_SEC
    \<le> uint (us_burst_size sock) * NS_PER_SEC + uint (us_rate_limit_pps sock) * (t1 - t0)"
proof -
  have "level_ok t0 (levels sock k)" for k
    using assms(1,2) by (auto simp: level_ok_def levels_def sock_ok_def refilled_in_def bucket_ok_def bucket_level_def split: option.split)
  then have "int (accepted ip ps (fst (udp_run sock ps))) * NS_PER_SEC
      \<le> credit (uint (us_burst_size sock)) (uint (us_rate_limit_pps sock)) t0 (levels sock ip) + uint (us_rate_limit_pps sock) * (t1 - t0)"
    using udp_run_ideal [OF assms] ideal_run_bound [OF assms(4), of "uint (us_burst_size sock)" "uint (us_rate_limit_pps sock)"] by simp
  also have "credit (uint (us_burst_size sock)) (uint (us_rate_limit_pps sock)) t0 (levels sock ip) \<le> uint (us_burst_size sock) * NS_PER_SEC"
    by (simp add: credit_def level_at_def split: option.split)
  finally show ?thesis by simp
qed

section \<open>At capacity\<close>

lemma evict_scan_active:
  "evict_scan ttl now i es best ts = Some j \<Longrightarrow> best = Some j \<or> (i \<le> j \<and> j < i + length es \<and> tb_active (es ! (j - i)))"
proof (induction ttl now i es best ts rule: evict_scan.induct)
  case (2 ttl now i e es best ts)
  have later: "\<lbrakk>Suc i \<le> j \<and> j < Suc i + length es \<and> tb_active (es ! (j - Suc i))\<rbrakk>
      \<Longrightarrow> i \<le> j \<and> j < i + length (e # es) \<and> tb_active ((e # es) ! (j - i))"
    by (auto simp: nth_Cons')
  show ?case using 2 later by (auto split: if_splits)
qed simp

lemma evict_scan_finds:
  "best \<noteq> None \<or> (\<exists>e \<in> set es. tb_active e) \<Longrightarrow> \<forall>e \<in> set es. tb_active e \<longrightarrow> best = None \<longrightarrow> tb_last_seen_ns e < ts
     \<Longrightarrow> evict_scan ttl now i es best ts \<noteq> None"
  by (induction ttl now i es best ts rule: evict_scan.induct) (auto split: if_splits)

lemma bucket_probe_first: "\<exists>js. bucket_probe ip = (unat ip mod 256) # js"
proof -
  have "[0..<256 :: nat] = 0 # [Suc 0..<256]" by (rule upt_conv_Cons) simp
  then show ?thesis unfolding bucket_probe_mod by (simp only: list.map add_0_right) blast
qed

text \<open>The table holds as many peers as it may, and the first slot of the peer is unused.\<close>

definition crowded_out :: "udp_socket \<Rightarrow> u32 \<Rightarrow> bool" where
  "crowded_out sock ip \<longleftrightarrow> us_rate_limiting_enabled sock \<and> length (us_buckets sock) = 256
     \<and> us_max_peers sock \<le> us_active_peer_count sock \<and> \<not> tb_active (us_buckets sock ! (unat ip mod 256))
     \<and> list_ex tb_active (us_buckets sock) \<and> list_all (\<lambda>e. tb_last_seen_ns e < 2 ^ 63 - 1) (us_buckets sock)
     \<and> 0 < us_burst_size sock"

lemma crowded_out_step:
  assumes "crowded_out sock ip" and "now < 2 ^ 63 - 1"
  shows "fst (bucket_try_consume now sock ip)" and "crowded_out (snd (bucket_try_consume now sock ip)) ip"
proof -
  let ?tb = "us_buckets sock" and ?i0 = "unat ip mod 256"
  obtain js where probe: "bucket_probe ip = ?i0 # js" using bucket_probe_first by blast
  note a = assms(1) [unfolded crowded_out_def]
  have "evict_scan (us_peer_ttl_ns sock) now 0 ?tb None (2 ^ 63 - 1) \<noteq> None"
    using a by (intro evict_scan_finds) (auto simp: list_ex_iff list_all_iff)
  then obtain j where j: "evict_scan (us_peer_ttl_ns sock) now 0 ?tb None (2 ^ 63 - 1) = Some j" by blast
  then have act: "j < 256" "tb_active (?tb ! j)" using evict_scan_active [OF j] a by auto
  then have ne: "j \<noteq> ?i0" using a by auto
  have burst: "NS_PER_SEC \<le> uint (us_burst_size sock) * NS_PER_SEC"
  proof -
    have "1 \<le> uint (us_burst_size sock)" using a by (simp add: word_less_def)
    then show ?thesis by (simp add: NS_PER_SEC_def)
  qed
  define s0 where "s0 = (with_bucket j (\<lambda>e. e\<lparr>tb_active := False\<rparr>) sock)
    \<lparr>us_active_peer_count := us_active_peer_count sock - 1, us_peer_evictions := us_peer_evictions sock + 1\<rparr>"
  have ev: "evict_lru_peer sock now = (Some j, s0)" by (simp only: evict_lru_peer_def j option.case s0_def)
  define s1 where "s1 = fill_bucket j ip now s0"
  have foc: "bucket_find_or_create sock ip now = (Some j, s1)"
    using a by (simp add: bucket_find_or_create_def probe Let_def s1_def ev)
  have ff: "fast_find ?tb ip (bucket_probe ip) = None" using a by (simp add: probe)
  have c: "consume j s1 = (True, with_bucket j (\<lambda>e. e\<lparr>tb_tokens_x1e9 := uint (us_burst_size sock) * NS_PER_SEC - NS_PER_SEC\<rparr>) s1)"
    using consume_spec [of j s1 "uint (us_burst_size sock) * NS_PER_SEC"] burst burst_range [of "us_burst_size sock"] act a
    by (simp add: s1_def s0_def fill_bucket_def NS_PER_SEC_def)
  then have step: "bucket_try_consume now sock ip
      = (True, with_bucket j (\<lambda>e. e\<lparr>tb_tokens_x1e9 := uint (us_burst_size sock) * NS_PER_SEC - NS_PER_SEC\<rparr>) s1)"
    using a ff foc by (simp add: bucket_try_consume_def)
  show "fst (bucket_try_consume now sock ip)" by (simp add: step)
  define s2 where "s2 = snd (bucket_try_consume now sock ip)"
  define e2 where "e2 = us_buckets s2 ! j"
  have len: "j < length ?tb" using act(1) a by simp
  have s2: "s2 = with_bucket j (\<lambda>e. e\<lparr>tb_tokens_x1e9 := uint (us_burst_size sock) * NS_PER_SEC - NS_PER_SEC\<rparr>) s1"
    by (simp add: s2_def step)
  have e2: "us_buckets s2 = ?tb[j := e2]" "tb_active e2" "tb_last_seen_ns e2 = now"
    using len by (simp_all add: e2_def s2 s1_def s0_def fill_bucket_def)
  have rest: "us_rate_limiting_enabled s2 = us_rate_limiting_enabled sock" "us_max_peers s2 = us_max_peers sock"
    "us_active_peer_count s2 = us_active_peer_count sock" "us_burst_size s2 = us_burst_size sock"
    by (simp_all add: s2 s1_def s0_def fill_bucket_def)
  have "tb_active (us_buckets s2 ! j)" "j < length (us_buckets s2)" using e2(1,2) len by simp_all
  then have ex: "list_ex tb_active (us_buckets s2)" unfolding list_ex_length by blast
  have seen: "tb_last_seen_ns (?tb ! x) < 2 ^ 63 - 1" if "x < 256" for x
    using a that unfolding list_all_length by simp
  have "list_all (\<lambda>e. tb_last_seen_ns e < 2 ^ 63 - 1) (us_buckets s2)"
    unfolding list_all_length
  proof (intro allI impI)
    fix x assume "x < length (us_buckets s2)"
    then show "tb_last_seen_ns (us_buckets s2 ! x) < 2 ^ 63 - 1"
      using seen [of x] e2 assms(2) a len by (cases "x = j") simp_all
  qed
  moreover have "\<not> tb_active (us_buckets s2 ! ?i0)" using a ne e2(1) by simp
  ultimately show "crowded_out (snd (bucket_try_consume now sock ip)) ip"
    unfolding s2_def [symmetric] crowded_out_def rest using a ex e2(1) by simp
qed

text \<open>
  The limiter can be bypassed: once the table holds as many peers as it may, a peer whose first slot
  is unused gets every packet through, at any rate. Its bucket is created in the slot of an evicted
  peer, where neither lookup finds it again, so each packet evicts another peer and is served from
  a new, full bucket.
\<close>

lemma rate_limit_bypassed_at_capacity:
  assumes "crowded_out sock ip" and "list_all (\<lambda>t. t < 2 ^ 63 - 1) ts"
  shows "fst (udp_run sock (map (\<lambda>t. (t, ip)) ts)) = replicate (length ts) True"
  using assms
proof (induction ts arbitrary: sock)
  case (Cons t ts)
  obtain ok s' where s: "bucket_try_consume t sock ip = (ok, s')" by fastforce
  have "ok" "crowded_out s' ip" using crowded_out_step [OF Cons.prems(1), of t] Cons.prems(2) s by simp_all
  then show ?case using Cons.IH [of s'] Cons.prems(2) s
    by (cases "udp_run s' (map (\<lambda>t. (t, ip)) ts)") simp
qed simp

section \<open>Concrete runs\<close>

definition sample_socket :: "u32 \<Rightarrow> udp_socket" where
  "sample_socket peers =
     (case udp_socket_create Bound [] 9000 (Some \<lparr>rl_rate_limit_pps = 1, rl_burst_size = 2, rl_max_peers = peers, rl_peer_ttl_s = 0\<rparr>) of
        Inr sock \<Rightarrow> sock | Inl err \<Rightarrow> undefined)"

lemma sample_socket_sel [simp]:
  "us_buckets (sample_socket p) = replicate 256 zero_bucket" "us_burst_size (sample_socket p) = 2"
  "us_rate_limit_pps (sample_socket p) = 1" "us_rate_limiting_enabled (sample_socket p)" "us_active_peer_count (sample_socket p) = 0"
  by (simp_all add: sample_socket_def udp_socket_create_def limit_socket_def)

lemma no_contents: "ut.contents (replicate 256 zero_bucket) ip = None"
  by (rule ut.contents_no_slot) (auto simp: ut.slot_def zero_bucket_def)

lemma sample_socket_ok: "sock_ok (sample_socket 4)"
proof -
  have "ut.contents (replicate 256 zero_bucket) = Map.empty" using no_contents by auto
  moreover have "ut.well (replicate 256 zero_bucket)" by (auto simp: ut.well_def ut.slot_def zero_bucket_def)
  moreover have "us_max_peers (sample_socket 4) = 4"
    by (simp add: sample_socket_def udp_socket_create_def limit_socket_def BUCKET_TABLE_SIZE_def)
  ultimately show ?thesis by (simp add: sock_ok_def)
qed

definition sample_packets :: "(int \<times> u32) list" where
  "sample_packets = [(0, 5), (0, 261), (1, 5), (2, 5), (2, 261), (1000000002, 5)]"

lemma sample_packets_ok:
  "refilled_in 0 0 (sample_socket 4)" "in_order 0 1000000002 sample_packets" "no_overflow (sample_socket 4) 0 1000000002"
  "card (dom (levels (sample_socket 4)) \<union> peers_of sample_packets) \<le> unat (us_max_peers (sample_socket 4))"
proof -
  have l: "levels (sample_socket 4) = Map.empty" using no_contents by (auto simp: levels_def)
  then show "refilled_in 0 0 (sample_socket 4)" by (simp add: refilled_in_def)
  show "in_order 0 1000000002 sample_packets" by (simp add: sample_packets_def)
  show "no_overflow (sample_socket 4) 0 1000000002" by (simp add: no_overflow_def NS_PER_SEC_def)
  have "us_max_peers (sample_socket 4) = 4"
    by (simp add: sample_socket_def udp_socket_create_def limit_socket_def BUCKET_TABLE_SIZE_def)
  then show "card (dom (levels (sample_socket 4)) \<union> peers_of sample_packets) \<le> unat (us_max_peers (sample_socket 4))"
    by (simp add: l peers_of_def sample_packets_def card_insert_if)
qed

theorem udp_refines_token_buckets_witness:
  "fst (udp_run (sample_socket 4) sample_packets) = [True, True, True, False, True, True]"
proof -
  have "levels (sample_socket 4) = Map.empty" using no_contents by (auto simp: levels_def)
  then show ?thesis
    using udp_refines_token_buckets [OF sample_socket_ok sample_packets_ok(1) order_refl sample_packets_ok(2-4)]
    by (simp add: sample_packets_def ideal_packet_def level_at_def NS_PER_SEC_def Let_def)
qed

theorem udp_rate_bound_witness:
  "int (accepted 5 sample_packets (fst (udp_run (sample_socket 4) sample_packets))) * NS_PER_SEC \<le> 2 * NS_PER_SEC + 1000000002"
  using udp_rate_bound [OF sample_socket_ok sample_packets_ok(1) order_refl sample_packets_ok(2-4), of 5] by simp

text \<open>A full table of one peer, address 5.\<close>

definition sample_crowded :: udp_socket where
  "sample_crowded = (sample_socket 1)\<lparr>us_active_peer_count := 1,
     us_buckets := (replicate 256 zero_bucket)[5 := zero_bucket\<lparr>tb_ip_addr := 5, tb_active := True\<rparr>]\<rparr>"

lemma rate_limit_bypassed_at_capacity_witness:
  "fst (udp_run sample_crowded (map (\<lambda>t. (t, 6)) [1, 1, 1, 1])) = [True, True, True, True]"
proof -
  have "us_max_peers (sample_socket 1) = 1"
    by (simp add: sample_socket_def udp_socket_create_def limit_socket_def BUCKET_TABLE_SIZE_def)
  moreover have "list_ex tb_active (us_buckets sample_crowded)"
    unfolding list_ex_length by (rule exI [of _ 5]) (simp add: sample_crowded_def)
  moreover have "list_all (\<lambda>e. tb_last_seen_ns e < 2 ^ 63 - 1) (us_buckets sample_crowded)"
    by (simp add: sample_crowded_def list_all_length nth_list_update zero_bucket_def)
  ultimately have "crowded_out sample_crowded 6" by (simp add: crowded_out_def sample_crowded_def zero_bucket_def)
  then show ?thesis using rate_limit_bypassed_at_capacity [of sample_crowded 6 "[1, 1, 1, 1]"] by (simp add: numeral_eq_Suc)
qed

end
