(* ===== verification/TcpPool.thy ===== *)
theory TcpPool
  imports Prelude
begin

unbundle bit_operations_syntax

text \<open>
  The connection pool of \<^verbatim>\<open>distric_transport/src/tcp_pool.c\<close>. An entry is known by its address, a
  connection by its handle; the singly linked bucket chains and the doubly linked LRU list are lists
  of addresses, head first. \<^verbatim>\<open>tcp_pool_acquire\<close> releases the lock while it connects, so its two critical
  sections are separate definitions and other operations may run between them. \<open>tp_closed\<close> records the
  connections passed to \<^verbatim>\<open>tcp_close\<close>.
\<close>

section \<open>Data\<close>

definition POOL_DEFAULT_CONNECT_TIMEOUT_MS :: int where
  "POOL_DEFAULT_CONNECT_TIMEOUT_MS = 5000"

definition POOL_HASH_BUCKETS :: u32 where
  "POOL_HASH_BUCKETS = 64"

definition POOL_HASH_MASK :: u32 where
  "POOL_HASH_MASK = POOL_HASH_BUCKETS - 1"

type_synonym conn = nat

record pool_entry =
  pe_conn :: conn
  pe_host :: cstr
  pe_port :: u16
  pe_last_used_ms :: u64
  pe_in_use :: bool
  pe_failed :: bool

record tcp_pool =
  tp_heap :: "nat \<Rightarrow> pool_entry"
  tp_next :: nat
  tp_buckets :: "nat list list"
  tp_lru :: "nat list"
  tp_max_connections :: nat
  tp_current_size :: nat
  tp_connect_timeout_ms :: int
  tp_shutting_down :: bool
  tp_hits :: u64
  tp_misses :: u64
  tp_closed :: "conn list"

record tcp_pool_config =
  pc_max_connections :: nat
  pc_connect_timeout_ms :: int

definition with_pool_entry :: "nat \<Rightarrow> (pool_entry \<Rightarrow> pool_entry) \<Rightarrow> tcp_pool \<Rightarrow> tcp_pool" where
  "with_pool_entry e f pool = pool\<lparr>tp_heap := (tp_heap pool)(e := f (tp_heap pool e))\<rparr>"

definition host_hash :: "cstr \<Rightarrow> u16 \<Rightarrow> u32" where
  "host_hash host port =
     (foldl (\<lambda>h p. (push_bit 5 h + h) XOR ucast p) 5381 host XOR (ucast port * 2654435761)) AND POOL_HASH_MASK"

section \<open>Lists\<close>

definition lru_prepend :: "tcp_pool \<Rightarrow> nat \<Rightarrow> tcp_pool" where
  "lru_prepend pool e = pool\<lparr>tp_lru := e # tp_lru pool\<rparr>"

definition lru_remove :: "tcp_pool \<Rightarrow> nat \<Rightarrow> tcp_pool" where
  "lru_remove pool e = pool\<lparr>tp_lru := remove1 e (tp_lru pool)\<rparr>"

definition lru_touch :: "tcp_pool \<Rightarrow> nat \<Rightarrow> tcp_pool" where
  "lru_touch pool e =
     (if tp_lru pool \<noteq> [] \<and> hd (tp_lru pool) = e then pool else lru_prepend (lru_remove pool e) e)"

definition bucket_remove :: "tcp_pool \<Rightarrow> nat \<Rightarrow> tcp_pool" where
  "bucket_remove pool e =
     (let idx = unat (host_hash (pe_host (tp_heap pool e)) (pe_port (tp_heap pool e)))
      in pool\<lparr>tp_buckets := (tp_buckets pool)[idx := remove1 e (tp_buckets pool ! idx)]\<rparr>)"

definition entry_free :: "tcp_pool \<Rightarrow> nat \<Rightarrow> tcp_pool" where
  "entry_free pool e =
     (if pe_failed (tp_heap pool e) then pool else pool\<lparr>tp_closed := pe_conn (tp_heap pool e) # tp_closed pool\<rparr>)"

text \<open>Unlinking an entry from both lists, with the new size.\<close>

definition drop_entry :: "tcp_pool \<Rightarrow> nat \<Rightarrow> tcp_pool" where
  "drop_entry pool e =
     (let pool = bucket_remove (lru_remove pool e) e;
          pool = pool\<lparr>tp_current_size := tp_current_size pool - 1\<rparr>
      in entry_free pool e)"

definition evict_lru_idle :: "tcp_pool \<Rightarrow> bool \<times> tcp_pool" where
  "evict_lru_idle pool =
     (case find (\<lambda>e. \<not> pe_in_use (tp_heap pool e)) (rev (tp_lru pool)) of
        Some e \<Rightarrow> (True, drop_entry pool e)
      | None \<Rightarrow> (False, pool))"

section \<open>Operations\<close>

definition tcp_pool_create_with_config :: "tcp_pool_config \<Rightarrow> tcp_pool result" where
  "tcp_pool_create_with_config config =
     (if pc_max_connections config = 0 then Inl DISTRIC_ERR_INVALID_ARG
      else Inr \<lparr>tp_heap = (\<lambda>e. \<lparr>pe_conn = 0, pe_host = [], pe_port = 0, pe_last_used_ms = 0, pe_in_use = False, pe_failed = False\<rparr>),
        tp_next = 0, tp_buckets = replicate 64 [], tp_lru = [], tp_max_connections = pc_max_connections config,
        tp_current_size = 0, tp_connect_timeout_ms = (if pc_connect_timeout_ms config \<noteq> 0 then pc_connect_timeout_ms config
          else POOL_DEFAULT_CONNECT_TIMEOUT_MS),
        tp_shutting_down = False, tp_hits = 0, tp_misses = 0, tp_closed = []\<rparr>)"

definition tcp_pool_create :: "nat \<Rightarrow> tcp_pool result" where
  "tcp_pool_create max_connections = tcp_pool_create_with_config
     \<lparr>pc_max_connections = max_connections, pc_connect_timeout_ms = POOL_DEFAULT_CONNECT_TIMEOUT_MS\<rparr>"

definition reusable :: "tcp_pool \<Rightarrow> cstr \<Rightarrow> u16 \<Rightarrow> nat \<Rightarrow> bool" where
  "reusable pool host port e \<longleftrightarrow>
     \<not> pe_in_use (tp_heap pool e) \<and> \<not> pe_failed (tp_heap pool e) \<and> pe_port (tp_heap pool e) = port \<and> pe_host (tp_heap pool e) = host"

text \<open>The first critical section: \<open>Inr (Some c)\<close> is a hit, \<open>Inr None\<close> a miss.\<close>

definition acquire_lookup :: "u64 \<Rightarrow> tcp_pool \<Rightarrow> cstr \<Rightarrow> u16 \<Rightarrow> conn option result \<times> tcp_pool" where
  "acquire_lookup now pool host port =
     (if tp_shutting_down pool then (Inl DISTRIC_ERR_SHUTDOWN, pool)
      else
        case find (reusable pool host port) (tp_buckets pool ! unat (host_hash host port)) of
          Some e \<Rightarrow>
            (Inr (Some (pe_conn (tp_heap pool e))),
             (lru_touch (with_pool_entry e (\<lambda>x. x\<lparr>pe_in_use := True, pe_last_used_ms := now\<rparr>) pool) e)
               \<lparr>tp_hits := tp_hits pool + 1\<rparr>)
        | None \<Rightarrow> (Inr None, pool\<lparr>tp_misses := tp_misses pool + 1\<rparr>))"

text \<open>The second critical section, with the new connection.\<close>

definition acquire_insert :: "u64 \<Rightarrow> tcp_pool \<Rightarrow> cstr \<Rightarrow> u16 \<Rightarrow> conn \<Rightarrow> conn result \<times> tcp_pool" where
  "acquire_insert now pool host port new_conn =
     (if tp_shutting_down pool then (Inl DISTRIC_ERR_SHUTDOWN, pool\<lparr>tp_closed := new_conn # tp_closed pool\<rparr>)
      else
        let pool = (if tp_current_size pool \<ge> tp_max_connections pool then snd (evict_lru_idle pool) else pool);
            entry = tp_next pool;
            pool = pool\<lparr>tp_next := Suc entry, tp_heap := (tp_heap pool)(entry := \<lparr>pe_conn = new_conn, pe_host = strncpy 255 host,
              pe_port = port, pe_last_used_ms = now, pe_in_use = True, pe_failed = False\<rparr>)\<rparr>;
            bidx = unat (host_hash host port);
            pool = pool\<lparr>tp_buckets := (tp_buckets pool)[bidx := entry # tp_buckets pool ! bidx]\<rparr>;
            pool = lru_prepend pool entry
        in (Inr new_conn, pool\<lparr>tp_current_size := tp_current_size pool + 1\<rparr>))"

text \<open>\<open>connect\<close> is the result of \<^verbatim>\<open>tcp_connect\<close>; nothing else runs in between.\<close>

definition tcp_pool_acquire :: "u64 \<Rightarrow> tcp_pool \<Rightarrow> cstr \<Rightarrow> u16 \<Rightarrow> conn result \<Rightarrow> conn result \<times> tcp_pool" where
  "tcp_pool_acquire now pool host port connect =
     (case acquire_lookup now pool host port of
        (Inl err, pool) \<Rightarrow> (Inl err, pool)
      | (Inr (Some c), pool) \<Rightarrow> (Inr c, pool)
      | (Inr None, pool) \<Rightarrow>
          (case connect of
             Inl err \<Rightarrow> (Inl err, pool)
           | Inr new_conn \<Rightarrow> acquire_insert now pool host port new_conn))"

definition tcp_pool_release :: "u64 \<Rightarrow> tcp_pool \<Rightarrow> conn \<Rightarrow> tcp_pool" where
  "tcp_pool_release now pool c =
     (case find (\<lambda>e. pe_conn (tp_heap pool e) = c) (concat (tp_buckets pool)) of
        Some e \<Rightarrow>
          let pool = lru_touch (with_pool_entry e (\<lambda>x. x\<lparr>pe_in_use := False, pe_last_used_ms := now\<rparr>) pool) e
          in if pe_failed (tp_heap pool e) \<or> tp_current_size pool > tp_max_connections pool then drop_entry pool e else pool
      | None \<Rightarrow> pool\<lparr>tp_closed := c # tp_closed pool\<rparr>)"

definition tcp_pool_mark_failed :: "tcp_pool \<Rightarrow> conn \<Rightarrow> tcp_pool" where
  "tcp_pool_mark_failed pool c =
     foldl (\<lambda>pool chain. case find (\<lambda>e. pe_conn (tp_heap pool e) = c) chain of
              Some e \<Rightarrow> with_pool_entry e (\<lambda>x. x\<lparr>pe_failed := True\<rparr>) pool
            | None \<Rightarrow> pool) pool (tp_buckets pool)"

definition tcp_pool_get_stats :: "tcp_pool \<Rightarrow> nat \<times> u64 \<times> u64" where
  "tcp_pool_get_stats pool = (tp_current_size pool, tp_hits pool, tp_misses pool)"

text \<open>\<^verbatim>\<open>tcp_pool_destroy\<close>: the flag, and (after up to half a second) the end of all entries.\<close>

definition destroy_begin :: "tcp_pool \<Rightarrow> tcp_pool" where
  "destroy_begin pool = pool\<lparr>tp_shutting_down := True\<rparr>"

definition destroy_finish :: "tcp_pool \<Rightarrow> tcp_pool" where
  "destroy_finish pool = pool\<lparr>tp_closed := rev (map (\<lambda>e. pe_conn (tp_heap pool e)) (concat (tp_buckets pool))) @ tp_closed pool,
     tp_buckets := replicate 64 [], tp_lru := [], tp_current_size := 0\<rparr>"

section \<open>Structure\<close>

definition hash_of :: "tcp_pool \<Rightarrow> nat \<Rightarrow> nat" where
  "hash_of pool e = unat (host_hash (pe_host (tp_heap pool e)) (pe_port (tp_heap pool e)))"

definition conn_of :: "tcp_pool \<Rightarrow> nat \<Rightarrow> conn" where
  "conn_of pool e = pe_conn (tp_heap pool e)"

text \<open>Both lists hold the same entries, each entry is in the chain of its hash, handles are unique.\<close>

definition linked :: "tcp_pool \<Rightarrow> bool" where
  "linked pool \<longleftrightarrow> length (tp_buckets pool) = 64 \<and> distinct (tp_lru pool) \<and> tp_current_size pool = length (tp_lru pool)
     \<and> (\<forall>b < 64. distinct (tp_buckets pool ! b) \<and> set (tp_buckets pool ! b) = {e \<in> set (tp_lru pool). hash_of pool e = b})
     \<and> inj_on (conn_of pool) (set (tp_lru pool)) \<and> (\<forall>e \<in> set (tp_lru pool). e < tp_next pool)"

lemma linked_lru: "linked pool \<Longrightarrow> distinct (tp_lru pool)" "linked pool \<Longrightarrow> tp_current_size pool = length (tp_lru pool)"
  by (simp_all add: linked_def)

lemma linked_chain: "linked pool \<Longrightarrow> b < 64 \<Longrightarrow> set (tp_buckets pool ! b) = {e \<in> set (tp_lru pool). hash_of pool e = b}"
  by (simp add: linked_def)

lemma ghost_fields [simp]:
  "conn_of (pool\<lparr>tp_hits := h\<rparr>) = conn_of pool" "conn_of (pool\<lparr>tp_misses := h\<rparr>) = conn_of pool"
  "conn_of (pool\<lparr>tp_shutting_down := b\<rparr>) = conn_of pool" "conn_of (pool\<lparr>tp_closed := cs\<rparr>) = conn_of pool"
  "linked (pool\<lparr>tp_hits := h\<rparr>) = linked pool" "linked (pool\<lparr>tp_misses := h\<rparr>) = linked pool"
  "linked (pool\<lparr>tp_shutting_down := b\<rparr>) = linked pool" "linked (pool\<lparr>tp_closed := cs\<rparr>) = linked pool"
  by (simp_all add: linked_def hash_of_def conn_of_def fun_eq_iff inj_on_def)

lemma hash_bound: "unat (host_hash host port) < 64"
  using unat_and_mask [of 6] by (simp add: host_hash_def POOL_HASH_MASK_def POOL_HASH_BUCKETS_def)

lemma hash_of_bound: "hash_of pool e < 64"
  by (simp add: hash_of_def hash_bound)

lemma find_SomeD: "find P xs = Some x \<Longrightarrow> x \<in> set xs \<and> P x"
  by (induction xs) (auto split: if_splits)

lemma linked_concat:
  assumes "linked pool"
  shows "set (concat (tp_buckets pool)) = set (tp_lru pool)"
proof -
  have len: "length (tp_buckets pool) = 64" using assms by (simp add: linked_def)
  have "e \<in> set (concat (tp_buckets pool)) \<longleftrightarrow> (\<exists>b < 64. e \<in> set (tp_buckets pool ! b))" for e
  proof -
    have "set (tp_buckets pool) = (!) (tp_buckets pool) ` {..<64}" using len by (auto simp: set_conv_nth)
    then show ?thesis by auto
  qed
  then show ?thesis using linked_chain [OF assms] hash_of_bound [of pool] by blast
qed

lemma linked_find_conn:
  assumes "linked pool" and "e \<in> set (tp_lru pool)" and "conn_of pool e = c"
  shows "find (\<lambda>e. pe_conn (tp_heap pool e) = c) (concat (tp_buckets pool)) = Some e"
proof -
  have "e \<in> set (concat (tp_buckets pool))" using linked_concat [OF assms(1)] assms(2) by simp
  then obtain e' where e': "find (\<lambda>e. pe_conn (tp_heap pool e) = c) (concat (tp_buckets pool)) = Some e'"
    using assms(3) by (cases "find (\<lambda>e. pe_conn (tp_heap pool e) = c) (concat (tp_buckets pool))") (auto simp: find_None_iff conn_of_def)
  then have "e' \<in> set (tp_lru pool)" "conn_of pool e' = c"
    using linked_concat [OF assms(1)] find_SomeD [OF e'] by (simp_all add: conn_of_def)
  then have "e' = e" using assms unfolding linked_def by (auto dest: inj_onD)
  then show ?thesis using e' by simp
qed

text \<open>Changing the flags of an entry, and moving an entry to the front.\<close>

lemma with_pool_entry_simps [simp]:
  "tp_heap (with_pool_entry e f pool) = (tp_heap pool)(e := f (tp_heap pool e))" "tp_buckets (with_pool_entry e f pool) = tp_buckets pool"
  "tp_lru (with_pool_entry e f pool) = tp_lru pool" "tp_current_size (with_pool_entry e f pool) = tp_current_size pool"
  "tp_max_connections (with_pool_entry e f pool) = tp_max_connections pool" "tp_next (with_pool_entry e f pool) = tp_next pool"
  "tp_closed (with_pool_entry e f pool) = tp_closed pool" "tp_shutting_down (with_pool_entry e f pool) = tp_shutting_down pool"
  by (simp_all add: with_pool_entry_def)

lemma lru_touch_simps [simp]:
  "tp_heap (lru_touch pool e) = tp_heap pool" "tp_buckets (lru_touch pool e) = tp_buckets pool"
  "tp_current_size (lru_touch pool e) = tp_current_size pool" "tp_max_connections (lru_touch pool e) = tp_max_connections pool"
  "tp_next (lru_touch pool e) = tp_next pool" "tp_closed (lru_touch pool e) = tp_closed pool"
  "tp_shutting_down (lru_touch pool e) = tp_shutting_down pool"
  by (simp_all add: lru_touch_def lru_prepend_def lru_remove_def)

lemma lru_touch_lru:
  assumes "distinct (tp_lru pool)" and "e \<in> set (tp_lru pool)"
  shows "tp_lru (lru_touch pool e) = e # remove1 e (tp_lru pool)"
  using assms by (cases "tp_lru pool") (auto simp: lru_touch_def lru_prepend_def lru_remove_def)

lemma linked_cong:
  assumes "linked pool" and "tp_buckets pool' = tp_buckets pool" and "distinct (tp_lru pool')" and "set (tp_lru pool') = set (tp_lru pool)"
    and "tp_current_size pool' = tp_current_size pool" and "hash_of pool' = hash_of pool" and "conn_of pool' = conn_of pool"
    and "tp_next pool' = tp_next pool"
  shows "linked pool'"
proof -
  have "length (tp_lru pool') = length (tp_lru pool)"
    using assms(1,3,4) distinct_card [of "tp_lru pool"] distinct_card [of "tp_lru pool'"] by (simp add: linked_def)
  then show ?thesis using assms unfolding linked_def by simp
qed

definition keeps_identity :: "(pool_entry \<Rightarrow> pool_entry) \<Rightarrow> bool" where
  "keeps_identity f \<longleftrightarrow> (\<forall>x. pe_conn (f x) = pe_conn x \<and> pe_host (f x) = pe_host x \<and> pe_port (f x) = pe_port x)"

lemma identity_same:
  assumes "keeps_identity f"
  shows "hash_of (with_pool_entry e f pool) = hash_of pool" "conn_of (with_pool_entry e f pool) = conn_of pool"
  using assms by (auto simp: hash_of_def conn_of_def keeps_identity_def fun_eq_iff)

lemma linked_flags:
  assumes "linked pool" and "keeps_identity f"
  shows "linked (with_pool_entry e f pool)"
  by (rule linked_cong [OF assms(1)]) (simp_all add: identity_same [OF assms(2)] linked_lru(1) [OF assms(1)])

lemma linked_touch:
  assumes "linked pool" and "e \<in> set (tp_lru pool)"
  shows "linked (lru_touch pool e)" and "set (tp_lru (lru_touch pool e)) = set (tp_lru pool)"
proof -
  note l = lru_touch_lru [OF linked_lru(1) [OF assms(1)] assms(2)]
  have d: "distinct (tp_lru pool)" by (rule linked_lru(1) [OF assms(1)])
  show s: "set (tp_lru (lru_touch pool e)) = set (tp_lru pool)" using l d assms(2) by (auto simp: set_remove1_eq)
  have "distinct (tp_lru (lru_touch pool e))" using l d by (simp add: set_remove1_eq)
  then show "linked (lru_touch pool e)"
    using s by (intro linked_cong [OF assms(1)]) (simp_all add: hash_of_def conn_of_def fun_eq_iff)
qed

text \<open>Removing an entry.\<close>

lemma drop_entry_simps [simp]:
  "tp_heap (drop_entry pool e) = tp_heap pool" "tp_lru (drop_entry pool e) = remove1 e (tp_lru pool)"
  "tp_current_size (drop_entry pool e) = tp_current_size pool - 1" "tp_max_connections (drop_entry pool e) = tp_max_connections pool"
  "tp_next (drop_entry pool e) = tp_next pool" "tp_shutting_down (drop_entry pool e) = tp_shutting_down pool"
  "tp_buckets (drop_entry pool e) = (tp_buckets pool)[hash_of pool e := remove1 e (tp_buckets pool ! hash_of pool e)]"
  "tp_closed (drop_entry pool e) = (if pe_failed (tp_heap pool e) then tp_closed pool else conn_of pool e # tp_closed pool)"
  by (simp_all add: drop_entry_def bucket_remove_def lru_remove_def entry_free_def Let_def hash_of_def conn_of_def)

lemma linked_drop:
  assumes "linked pool" and "e \<in> set (tp_lru pool)"
  shows "linked (drop_entry pool e)" and "set (tp_lru (drop_entry pool e)) = set (tp_lru pool) - {e}"
proof -
  have d: "distinct (tp_lru pool)" by (rule linked_lru(1) [OF assms(1)])
  show s: "set (tp_lru (drop_entry pool e)) = set (tp_lru pool) - {e}" using d by (simp add: set_remove1_eq)
  have h: "hash_of (drop_entry pool e) = hash_of pool" "conn_of (drop_entry pool e) = conn_of pool"
    by (simp_all add: hash_of_def conn_of_def fun_eq_iff)
  have "distinct (tp_buckets (drop_entry pool e) ! b) \<and> set (tp_buckets (drop_entry pool e) ! b) = {x \<in> set (tp_lru pool) - {e}. hash_of pool x = b}"
    if "b < 64" for b
  proof -
    have c: "distinct (tp_buckets pool ! b)" "set (tp_buckets pool ! b) = {x \<in> set (tp_lru pool). hash_of pool x = b}"
      using assms(1) that by (simp_all add: linked_def)
    show ?thesis
    proof (cases "b = hash_of pool e")
      case True
      then show ?thesis using c that assms(1) by (auto simp: linked_def set_remove1_eq)
    next
      case False
      then show ?thesis using c by auto
    qed
  qed
  moreover have "inj_on (conn_of pool) (set (tp_lru pool) - {e})" using assms(1) by (auto simp: linked_def intro: inj_on_diff)
  ultimately show "linked (drop_entry pool e)"
    using assms s unfolding linked_def h by (simp add: length_remove1)
qed

text \<open>A new entry in front of its chain and of the LRU list.\<close>

definition add_entry :: "tcp_pool \<Rightarrow> pool_entry \<Rightarrow> tcp_pool" where
  "add_entry pool x = (let e = tp_next pool; b = unat (host_hash (pe_host x) (pe_port x))
     in pool\<lparr>tp_next := Suc e, tp_heap := (tp_heap pool)(e := x),
          tp_buckets := (tp_buckets pool)[b := e # tp_buckets pool ! b], tp_lru := e # tp_lru pool,
          tp_current_size := tp_current_size pool + 1\<rparr>)"

lemma linked_add:
  assumes "linked pool" and "pe_conn x \<notin> conn_of pool ` set (tp_lru pool)"
  shows "linked (add_entry pool x)"
proof -
  let ?e = "tp_next pool" and ?p = "add_entry pool x" and ?b = "unat (host_hash (pe_host x) (pe_port x))"
  have new: "?e \<notin> set (tp_lru pool)" using assms(1) by (auto simp: linked_def)
  have old: "hash_of ?p e = hash_of pool e" "conn_of ?p e = conn_of pool e" if "e \<in> set (tp_lru pool)" for e
    using that new by (auto simp: add_entry_def Let_def hash_of_def conn_of_def)
  have own: "hash_of ?p ?e = ?b" "conn_of ?p ?e = pe_conn x" by (simp_all add: add_entry_def Let_def hash_of_def conn_of_def)
  have len: "length (tp_buckets pool) = 64" using assms(1) by (simp add: linked_def)
  have "distinct (tp_buckets ?p ! b) \<and> set (tp_buckets ?p ! b) = {e \<in> insert ?e (set (tp_lru pool)). hash_of ?p e = b}" if b: "b < 64" for b
  proof -
    have c: "distinct (tp_buckets pool ! b)" "set (tp_buckets pool ! b) = {e \<in> set (tp_lru pool). hash_of pool e = b}"
      using assms(1) b by (simp_all add: linked_def)
    have t: "tp_buckets ?p ! b = (if b = ?b then ?e # tp_buckets pool ! b else tp_buckets pool ! b)"
      using b len by (auto simp: add_entry_def Let_def)
    have s: "{e \<in> set (tp_lru pool). hash_of ?p e = b} = set (tp_buckets pool ! b)" unfolding c(2) by (rule Collect_cong) (use old(1) in auto)
    have "{e \<in> insert ?e (set (tp_lru pool)). hash_of ?p e = b}
        = (if b = ?b then insert ?e {e \<in> set (tp_lru pool). hash_of ?p e = b} else {e \<in> set (tp_lru pool). hash_of ?p e = b})"
      using own(1) by auto
    moreover have "?e \<notin> set (tp_buckets pool ! b)" unfolding c(2) using new by simp
    ultimately show ?thesis using c(1) unfolding s t by auto
  qed
  moreover have "inj_on (conn_of ?p) (insert ?e (set (tp_lru pool)))"
  proof -
    have "inj_on (conn_of ?p) (set (tp_lru pool))"
      using assms(1) old(2) unfolding linked_def by (metis (no_types, lifting) inj_on_cong)
    moreover have "conn_of ?p ` set (tp_lru pool) = conn_of pool ` set (tp_lru pool)" using old(2) by force
    ultimately show ?thesis using own(2) assms(2) new by simp
  qed
  moreover have "tp_lru ?p = ?e # tp_lru pool" "tp_next ?p = Suc ?e" "tp_current_size ?p = Suc (tp_current_size pool)"
    "length (tp_buckets ?p) = 64"
    using len by (simp_all add: add_entry_def Let_def)
  ultimately show ?thesis using assms(1) new unfolding linked_def by (auto simp: less_Suc_eq)
qed

lemma acquire_insert_add:
  assumes "\<not> tp_shutting_down pool" and "wf_cstr 256 host"
  shows "acquire_insert now pool host port c = (Inr c,
    add_entry (if tp_current_size pool \<ge> tp_max_connections pool then snd (evict_lru_idle pool) else pool)
      \<lparr>pe_conn = c, pe_host = host, pe_port = port, pe_last_used_ms = now, pe_in_use = True, pe_failed = False\<rparr>)"
  using assms strncpy_id [of 255 host] by (simp add: acquire_insert_def add_entry_def lru_prepend_def Let_def)

section \<open>The pool and its users\<close>

text \<open>
  The invariant of pool and users together: the handles that users hold are those of the entries in
  use, no entry holds a closed handle, and there are more entries than the limit only while all of
  them are in use.
\<close>

definition pool_inv :: "tcp_pool \<Rightarrow> conn set \<Rightarrow> bool" where
  "pool_inv pool held \<longleftrightarrow> linked pool
     \<and> held = conn_of pool ` {e \<in> set (tp_lru pool). pe_in_use (tp_heap pool e)}
     \<and> set (tp_closed pool) \<inter> conn_of pool ` set (tp_lru pool) = {}
     \<and> (tp_max_connections pool < tp_current_size pool \<longrightarrow> (\<forall>e \<in> set (tp_lru pool). pe_in_use (tp_heap pool e)))
     \<and> 0 < tp_max_connections pool"

text \<open>What users do: both halves of an acquire, release and failure of a connection they hold, shutdown.\<close>

inductive pool_step :: "u64 \<Rightarrow> tcp_pool \<times> conn set \<Rightarrow> tcp_pool \<times> conn set \<Rightarrow> bool" for now :: u64 where
  hit: "acquire_lookup now pool host port = (Inr (Some c), pool') \<Longrightarrow> pool_step now (pool, held) (pool', insert c held)"
| miss: "acquire_lookup now pool host port = (r, pool') \<Longrightarrow> r = Inr None \<or> r = Inl DISTRIC_ERR_SHUTDOWN
    \<Longrightarrow> pool_step now (pool, held) (pool', held)"
| connected: "wf_cstr 256 host \<Longrightarrow> c \<notin> set (tp_closed pool) \<union> conn_of pool ` set (tp_lru pool)
    \<Longrightarrow> acquire_insert now pool host port c = (r, pool')
    \<Longrightarrow> pool_step now (pool, held) (pool', if r = Inr c then insert c held else held)"
| release: "c \<in> held \<Longrightarrow> pool_step now (pool, held) (tcp_pool_release now pool c, held - {c})"
| failed: "c \<in> held \<Longrightarrow> pool_step now (pool, held) (tcp_pool_mark_failed pool c, held)"
| shutdown: "pool_step now (pool, held) (destroy_begin pool, held)"

text \<open>The clock is monotonic; \<open>t\<close> is the time of the last step.\<close>

inductive pool_reachable :: "nat \<Rightarrow> u64 \<Rightarrow> tcp_pool \<times> conn set \<Rightarrow> bool" for limit :: nat where
  created: "tcp_pool_create limit = Inr pool \<Longrightarrow> pool_reachable limit t (pool, {})"
| step: "pool_reachable limit t s \<Longrightarrow> t \<le> now \<Longrightarrow> pool_step now s s' \<Longrightarrow> pool_reachable limit now s'"

lemma pool_inv_create: "tcp_pool_create limit = Inr pool \<Longrightarrow> pool_inv pool {}"
  by (auto simp: tcp_pool_create_def tcp_pool_create_with_config_def pool_inv_def linked_def split: if_splits)

lemma pool_invD:
  assumes "pool_inv pool held"
  shows "linked pool" and "held = conn_of pool ` {e \<in> set (tp_lru pool). pe_in_use (tp_heap pool e)}"
    and "set (tp_closed pool) \<inter> conn_of pool ` set (tp_lru pool) = {}"
    and "tp_max_connections pool < tp_current_size pool \<Longrightarrow> e \<in> set (tp_lru pool) \<Longrightarrow> pe_in_use (tp_heap pool e)"
    and "0 < tp_max_connections pool"
  using assms by (simp_all add: pool_inv_def)

text \<open>An entry whose flags are set and which moves to the front.\<close>

lemma touched:
  assumes "linked pool" and "e \<in> set (tp_lru pool)" and "keeps_identity f"
  defines "pool' \<equiv> lru_touch (with_pool_entry e f pool) e"
  shows "linked pool'" and "set (tp_lru pool') = set (tp_lru pool)" and "conn_of pool' = conn_of pool"
    and "tp_heap pool' = (tp_heap pool)(e := f (tp_heap pool e))"
proof -
  note l = linked_flags [OF assms(1,3), of e]
  have e: "e \<in> set (tp_lru (with_pool_entry e f pool))" using assms(2) by simp
  show "linked pool'" "set (tp_lru pool') = set (tp_lru pool)" using linked_touch [OF l e] by (simp_all add: pool'_def)
  show "conn_of pool' = conn_of pool" using identity_same(2) [OF assms(3), of e pool] by (simp add: pool'_def conn_of_def fun_eq_iff)
  show "tp_heap pool' = (tp_heap pool)(e := f (tp_heap pool e))" by (simp add: pool'_def)
qed

lemma pool_inv_hit:
  assumes "pool_inv pool held" and "acquire_lookup now pool host port = (Inr (Some c), pool')"
  shows "pool_inv pool' (insert c held)" and "c \<notin> held"
    and "\<exists>e \<in> set (tp_lru pool). conn_of pool e = c \<and> reusable pool host port e" and "c \<notin> set (tp_closed pool)"
proof -
  note inv = pool_invD [OF assms(1)]
  let ?f = "\<lambda>x. x\<lparr>pe_in_use := True, pe_last_used_ms := now\<rparr>"
  obtain e where find: "find (reusable pool host port) (tp_buckets pool ! unat (host_hash host port)) = Some e"
    and c: "c = conn_of pool e" and pool': "pool' = (lru_touch (with_pool_entry e ?f pool) e)\<lparr>tp_hits := tp_hits pool + 1\<rparr>"
    using assms(2) by (auto simp: acquire_lookup_def conn_of_def split: if_splits option.splits)
  have e: "e \<in> set (tp_lru pool)" "reusable pool host port e"
    using find_SomeD [OF find] linked_chain [OF inv(1) hash_bound] by auto
  then have idle: "\<not> pe_in_use (tp_heap pool e)" by (simp add: reusable_def)
  show "\<exists>e \<in> set (tp_lru pool). conn_of pool e = c \<and> reusable pool host port e" using e c by blast
  show "c \<notin> set (tp_closed pool)" using inv(3) e(1) c by auto
  show "c \<notin> held"
  proof
    assume "c \<in> held"
    then obtain x where "x \<in> set (tp_lru pool)" "pe_in_use (tp_heap pool x)" "conn_of pool x = conn_of pool e"
      using inv(2) c by auto
    then show False using inv(1) e(1) idle by (auto simp: linked_def dest: inj_onD)
  qed
  have "keeps_identity ?f" by (simp add: keeps_identity_def)
  note t = touched [OF inv(1) e(1) this]
  have heap: "tp_heap pool' = (tp_heap pool)(e := ?f (tp_heap pool e))" "conn_of pool' = conn_of pool" "set (tp_lru pool') = set (tp_lru pool)"
    "tp_closed pool' = tp_closed pool" "tp_max_connections pool' = tp_max_connections pool" "tp_current_size pool' = tp_current_size pool"
    using t by (simp_all add: pool')
  have "linked pool'" using t(1) by (simp add: pool')
  moreover have "insert c held = conn_of pool' ` {x \<in> set (tp_lru pool'). pe_in_use (tp_heap pool' x)}"
  proof -
    have "{x \<in> set (tp_lru pool'). pe_in_use (tp_heap pool' x)} = insert e {x \<in> set (tp_lru pool). pe_in_use (tp_heap pool x)}"
      using e(1) by (auto simp: heap)
    then show ?thesis using inv(2) c by (simp add: heap(2))
  qed
  moreover have "\<not> tp_max_connections pool < tp_current_size pool" using inv(4) [OF _ e(1)] idle by blast
  ultimately show "pool_inv pool' (insert c held)" using inv(3,5) by (simp add: pool_inv_def heap)
qed

lemma pool_inv_release:
  assumes "pool_inv pool held" and "c \<in> held"
  shows "pool_inv (tcp_pool_release now pool c) (held - {c})"
proof -
  note inv = pool_invD [OF assms(1)]
  let ?f = "\<lambda>x. x\<lparr>pe_in_use := False, pe_last_used_ms := now\<rparr>"
  obtain e where e: "e \<in> set (tp_lru pool)" "conn_of pool e = c" "pe_in_use (tp_heap pool e)" using assms(2) inv(2) by auto
  note find = linked_find_conn [OF inv(1) e(1,2)]
  have inj: "x = e" if "x \<in> set (tp_lru pool)" "conn_of pool x = c" for x
    using inv(1) that e(1,2) by (auto simp: linked_def dest: inj_onD)
  define p where "p = lru_touch (with_pool_entry e ?f pool) e"
  have "keeps_identity ?f" by (simp add: keeps_identity_def)
  note t = touched [OF inv(1) e(1) this, folded p_def]
  have p: "tp_closed p = tp_closed pool" "tp_max_connections p = tp_max_connections pool" "tp_current_size p = tp_current_size pool"
    by (simp_all add: p_def)
  have held: "held - {c} = conn_of pool ` {x \<in> set (tp_lru pool) - {e}. pe_in_use (tp_heap pool x)}"
    unfolding inv(2) using e(2) inj by blast
  have rel: "tcp_pool_release now pool c
      = (if pe_failed (tp_heap p e) \<or> tp_current_size p > tp_max_connections p then drop_entry p e else p)"
    using find by (simp add: tcp_pool_release_def p_def Let_def)
  show ?thesis
  proof (cases "pe_failed (tp_heap p e) \<or> tp_current_size p > tp_max_connections p")
    case False
    have "{x \<in> set (tp_lru p). pe_in_use (tp_heap p x)} = {x \<in> set (tp_lru pool) - {e}. pe_in_use (tp_heap pool x)}"
      by (auto simp: t(2,4))
    then show ?thesis unfolding rel using False t(1,2,3) inv(3,5) held p by (simp add: pool_inv_def)
  next
    case True
    have ep: "e \<in> set (tp_lru p)" using e(1) t(2) by simp
    note d = linked_drop [OF t(1) ep]
    have conn: "conn_of (drop_entry p e) = conn_of pool" using t(3) by (simp add: conn_of_def fun_eq_iff)
    have "{x \<in> set (tp_lru (drop_entry p e)). pe_in_use (tp_heap (drop_entry p e) x)}
        = {x \<in> set (tp_lru pool) - {e}. pe_in_use (tp_heap pool x)}"
      unfolding d(2) by (auto simp: t(2,4))
    then have "held - {c} = conn_of (drop_entry p e) ` {x \<in> set (tp_lru (drop_entry p e)). pe_in_use (tp_heap (drop_entry p e) x)}"
      using held conn by simp
    moreover have "set (tp_closed (drop_entry p e)) \<inter> conn_of (drop_entry p e) ` set (tp_lru (drop_entry p e)) = {}"
      unfolding d(2) conn t(2) using inv(3) inj e(2) by (auto simp: p(1) t(3))
    moreover have "pe_in_use (tp_heap (drop_entry p e) x)"
      if "tp_max_connections pool < tp_current_size pool - 1" "x \<in> set (tp_lru pool) - {e}" for x
      using inv(4) [of x] that by (auto simp: t(4))
    ultimately show ?thesis unfolding rel using True d p inv(5) t(2) by (simp add: pool_inv_def)
  qed
qed

text \<open>Marking failures changes no other field.\<close>

definition failed_only :: "tcp_pool \<Rightarrow> tcp_pool \<Rightarrow> bool" where
  "failed_only pool pool' \<longleftrightarrow> (\<exists>F. pool' = pool\<lparr>tp_heap := (\<lambda>e. (tp_heap pool e)\<lparr>pe_failed := F e\<rparr>)\<rparr>)"

lemma failed_only_refl: "failed_only pool pool"
  unfolding failed_only_def by (intro exI [of _ "\<lambda>e. pe_failed (tp_heap pool e)"]) simp

lemma failed_only_trans:
  assumes "failed_only a b" and "failed_only b c"
  shows "failed_only a c"
proof -
  obtain F G where "b = a\<lparr>tp_heap := (\<lambda>e. (tp_heap a e)\<lparr>pe_failed := F e\<rparr>)\<rparr>" "c = b\<lparr>tp_heap := (\<lambda>e. (tp_heap b e)\<lparr>pe_failed := G e\<rparr>)\<rparr>"
    using assms by (auto simp: failed_only_def)
  then have "c = a\<lparr>tp_heap := (\<lambda>e. (tp_heap a e)\<lparr>pe_failed := G e\<rparr>)\<rparr>" by simp
  then show ?thesis unfolding failed_only_def by blast
qed

lemma failed_only_mark: "failed_only pool (with_pool_entry e (\<lambda>x. x\<lparr>pe_failed := True\<rparr>) pool)"
  unfolding failed_only_def
  by (intro exI [of _ "(\<lambda>x. pe_failed (tp_heap pool x))(e := True)"]) (simp add: with_pool_entry_def fun_eq_iff)

lemma mark_failed_only: "failed_only pool (tcp_pool_mark_failed pool c)"
proof -
  have "failed_only pool (foldl (\<lambda>pool chain. case find (\<lambda>e. pe_conn (tp_heap pool e) = c) chain of
              Some e \<Rightarrow> with_pool_entry e (\<lambda>x. x\<lparr>pe_failed := True\<rparr>) pool | None \<Rightarrow> pool) p chains)" if "failed_only pool p" for p chains
    using that
  proof (induction chains arbitrary: p)
    case (Cons ch chains)
    have "failed_only p (case find (\<lambda>e. pe_conn (tp_heap p e) = c) ch of
        Some e \<Rightarrow> with_pool_entry e (\<lambda>x. x\<lparr>pe_failed := True\<rparr>) p | None \<Rightarrow> p)"
      using failed_only_refl failed_only_mark by (auto split: option.split)
    from failed_only_trans [OF Cons.prems this] show ?case unfolding foldl_Cons by (rule Cons.IH)
  qed simp
  then show ?thesis unfolding tcp_pool_mark_failed_def using failed_only_refl by blast
qed

lemma pool_inv_failed:
  assumes "pool_inv pool held" and "failed_only pool pool'"
  shows "pool_inv pool' held"
proof -
  obtain F where p: "pool' = pool\<lparr>tp_heap := (\<lambda>e. (tp_heap pool e)\<lparr>pe_failed := F e\<rparr>)\<rparr>" using assms(2) by (auto simp: failed_only_def)
  have same: "conn_of pool' = conn_of pool" "hash_of pool' = hash_of pool" by (simp_all add: p conn_of_def hash_of_def fun_eq_iff)
  have "linked pool'" using pool_invD(1) [OF assms(1)] unfolding linked_def same by (simp add: p)
  then show ?thesis using assms(1) unfolding pool_inv_def same by (simp add: p)
qed

text \<open>The victim of an eviction, and the pool with a new connection.\<close>

lemma evict_cases:
  obtains (none) "evict_lru_idle pool = (False, pool)" "\<forall>e \<in> set (tp_lru pool). pe_in_use (tp_heap pool e)"
  | (victim) e where "evict_lru_idle pool = (True, drop_entry pool e)" "e \<in> set (tp_lru pool)" "\<not> pe_in_use (tp_heap pool e)"
proof (cases "find (\<lambda>e. \<not> pe_in_use (tp_heap pool e)) (rev (tp_lru pool))")
  case None
  show thesis
  proof (rule none)
    show "evict_lru_idle pool = (False, pool)" by (simp add: evict_lru_idle_def None)
    show "\<forall>e \<in> set (tp_lru pool). pe_in_use (tp_heap pool e)" using None by (auto simp: find_None_iff)
  qed
next
  case (Some e)
  then show thesis using find_SomeD [OF Some] by (intro victim [of e]) (simp_all add: evict_lru_idle_def)
qed

lemma pool_inv_add:
  assumes "linked pool" and "held = conn_of pool ` {e \<in> set (tp_lru pool). pe_in_use (tp_heap pool e)}"
    and "set (tp_closed pool) \<inter> conn_of pool ` set (tp_lru pool) = {}" and "pe_in_use x" and "0 < tp_max_connections pool"
    and "pe_conn x \<notin> set (tp_closed pool) \<union> conn_of pool ` set (tp_lru pool)"
    and "tp_current_size pool < tp_max_connections pool \<or> (\<forall>e \<in> set (tp_lru pool). pe_in_use (tp_heap pool e))"
  shows "pool_inv (add_entry pool x) (insert (pe_conn x) held)"
proof -
  let ?e = "tp_next pool" and ?p = "add_entry pool x"
  have new: "?e \<notin> set (tp_lru pool)" using assms(1) by (auto simp: linked_def)
  have p: "tp_lru ?p = ?e # tp_lru pool" "tp_heap ?p = (tp_heap pool)(?e := x)" "tp_closed ?p = tp_closed pool"
    "tp_max_connections ?p = tp_max_connections pool" "tp_current_size ?p = Suc (tp_current_size pool)"
    by (simp_all add: add_entry_def Let_def)
  have conn: "conn_of ?p = (conn_of pool)(?e := pe_conn x)" by (simp add: conn_of_def p(2) fun_eq_iff)
  have img: "conn_of ?p ` A = conn_of pool ` A" if "A \<subseteq> set (tp_lru pool)" for A
    using that new unfolding conn by (intro image_cong) auto
  have "{e \<in> set (tp_lru ?p). pe_in_use (tp_heap ?p e)} = insert ?e {e \<in> set (tp_lru pool). pe_in_use (tp_heap pool e)}"
    using assms(4) new by (auto simp: p)
  moreover have own: "conn_of ?p ?e = pe_conn x" by (simp add: conn)
  moreover have "conn_of ?p ` {e \<in> set (tp_lru pool). pe_in_use (tp_heap pool e)} = held" unfolding assms(2) by (rule img) blast
  ultimately have "insert (pe_conn x) held = conn_of ?p ` {e \<in> set (tp_lru ?p). pe_in_use (tp_heap ?p e)}" by simp
  moreover have "conn_of ?p ` set (tp_lru ?p) = insert (pe_conn x) (conn_of pool ` set (tp_lru pool))"
    using img [OF order_refl] own p(1) by simp
  then have "set (tp_closed ?p) \<inter> conn_of ?p ` set (tp_lru ?p) = {}" using assms(3,6) p(3) by simp
  moreover have "linked ?p" using assms(1,6) by (intro linked_add) auto
  ultimately show ?thesis using assms(4,5,7) new by (auto simp: pool_inv_def p)
qed

lemma pool_inv_connected:
  assumes "pool_inv pool held" and "wf_cstr 256 host" and "c \<notin> set (tp_closed pool) \<union> conn_of pool ` set (tp_lru pool)"
    and "\<not> tp_shutting_down pool"
  shows "pool_inv (snd (acquire_insert now pool host port c)) (insert c held)"
proof -
  note inv = pool_invD [OF assms(1)]
  let ?x = "\<lparr>pe_conn = c, pe_host = host, pe_port = port, pe_last_used_ms = now, pe_in_use = True, pe_failed = False\<rparr>"
  have room: "pool_inv (add_entry pool ?x) (insert c held)"
    if "tp_current_size pool < tp_max_connections pool \<or> (\<forall>e \<in> set (tp_lru pool). pe_in_use (tp_heap pool e))"
    using pool_inv_add [OF inv(1,2,3) _ inv(5) _ that, of ?x] assms(3) by simp
  show ?thesis
  proof (cases "tp_current_size pool \<ge> tp_max_connections pool")
    case False
    then show ?thesis using room acquire_insert_add [OF assms(4,2)] by simp
  next
    case True
    show ?thesis
    proof (cases rule: evict_cases [of pool])
      case none
      then show ?thesis using room acquire_insert_add [OF assms(4,2)] True by simp
    next
      case (victim e)
      let ?p = "drop_entry pool e"
      note d = linked_drop [OF inv(1) victim(2)]
      have conn: "conn_of ?p = conn_of pool" by (simp add: conn_of_def fun_eq_iff)
      have inj: "x = e" if "x \<in> set (tp_lru pool)" "conn_of pool x = conn_of pool e" for x
        using inv(1) that victim(2) by (auto simp: linked_def dest: inj_onD)
      have "{x \<in> set (tp_lru ?p). pe_in_use (tp_heap ?p x)} = {x \<in> set (tp_lru pool). pe_in_use (tp_heap pool x)}"
        unfolding d(2) using victim(3) by auto
      then have held: "held = conn_of ?p ` {x \<in> set (tp_lru ?p). pe_in_use (tp_heap ?p x)}" using inv(2) conn by simp
      have closed: "set (tp_closed ?p) \<inter> conn_of ?p ` set (tp_lru ?p) = {}"
        unfolding d(2) conn using inv(3) inj by auto
      have fresh: "c \<notin> set (tp_closed ?p) \<union> conn_of ?p ` set (tp_lru ?p)"
        unfolding d(2) conn using assms(3) victim(2) by auto
      have "tp_current_size pool \<le> tp_max_connections pool" using inv(4) [OF _ victim(2)] victim(3) by force
      then have "tp_current_size ?p < tp_max_connections ?p" using inv(5) by simp
      then have "pool_inv (add_entry ?p ?x) (insert c held)"
        using pool_inv_add [OF d(1) held closed, of ?x] fresh inv(5) by simp
      then show ?thesis using acquire_insert_add [OF assms(4,2)] True victim(1) by simp
    qed
  qed
qed

lemma pool_inv_step:
  assumes "pool_step now s s'" and "pool_inv (fst s) (snd s)"
  shows "pool_inv (fst s') (snd s')"
  using assms
proof (induction rule: pool_step.induct)
  case (hit pool host port c pool' held)
  then show ?case using pool_inv_hit(1) by simp
next
  case (miss pool host port r pool' held)
  then have "pool' = pool \<or> pool' = pool\<lparr>tp_misses := tp_misses pool + 1\<rparr>"
    by (auto simp: acquire_lookup_def split: if_splits option.splits)
  then show ?case using miss(3) by (auto simp: pool_inv_def)
next
  case (connected host c pool port r pool' held)
  show ?case
  proof (cases "tp_shutting_down pool")
    case True
    then have "pool' = pool\<lparr>tp_closed := c # tp_closed pool\<rparr>" "r \<noteq> Inr c" using connected(3) by (auto simp: acquire_insert_def)
    then show ?thesis using connected(2,4) by (simp add: pool_inv_def)
  next
    case False
    then have "r = Inr c" using connected(3) acquire_insert_add [OF False connected(1)] by simp
    then show ?thesis using pool_inv_connected [OF _ connected(1,2) False, of held now port] connected(3,4) by simp
  qed
next
  case (release c held pool)
  then show ?case using pool_inv_release by simp
next
  case (failed c held pool)
  then show ?case using pool_inv_failed [OF _ mark_failed_only] by simp
next
  case (shutdown pool held)
  then show ?case by (simp add: destroy_begin_def pool_inv_def)
qed

lemma pool_reachable_inv: "pool_reachable limit t s \<Longrightarrow> pool_inv (fst s) (snd s)"
  by (induction rule: pool_reachable.induct) (simp_all add: pool_inv_create pool_inv_step)

lemma pool_step_limit: "pool_step now s s' \<Longrightarrow> tp_max_connections (fst s') = tp_max_connections (fst s)"
proof (induction rule: pool_step.induct)
  case (hit pool host port c pool' held)
  then show ?case by (auto simp: acquire_lookup_def split: if_splits option.splits)
next
  case (miss pool host port r pool' held)
  then show ?case by (auto simp: acquire_lookup_def split: if_splits option.splits)
next
  case (connected host c pool port r pool' held)
  then show ?case
    by (cases rule: evict_cases [of pool]) (auto simp: acquire_insert_def lru_prepend_def Let_def split: if_splits)
next
  case (release c held pool)
  then show ?case by (simp add: tcp_pool_release_def Let_def split: option.split)
next
  case (failed c held pool)
  then show ?case using mark_failed_only [of pool c] by (auto simp: failed_only_def)
qed (simp add: destroy_begin_def)

lemma pool_reachable_limit: "pool_reachable limit t s \<Longrightarrow> tp_max_connections (fst s) = limit"
proof (induction rule: pool_reachable.induct)
  case (created pool t)
  then show ?case by (auto simp: tcp_pool_create_def tcp_pool_create_with_config_def split: if_splits)
next
  case (step t s now s')
  then show ?case using pool_step_limit by simp
qed

lemma pool_size_bound:
  assumes "pool_inv pool held"
  shows "tp_current_size pool \<le> max (tp_max_connections pool) (card held)"
proof (cases "tp_max_connections pool < tp_current_size pool")
  case True
  note inv = pool_invD [OF assms]
  have "{e \<in> set (tp_lru pool). pe_in_use (tp_heap pool e)} = set (tp_lru pool)" using inv(4) [OF True] by blast
  then have "card held = card (set (tp_lru pool))" using inv(1,2) card_image [of "conn_of pool" "set (tp_lru pool)"] by (simp add: linked_def)
  then show ?thesis using linked_lru [OF inv(1)] distinct_card [of "tp_lru pool"] by simp
qed simp

section \<open>Least recently used\<close>

definition last_used :: "tcp_pool \<Rightarrow> nat \<Rightarrow> u64" where
  "last_used pool e = pe_last_used_ms (tp_heap pool e)"

definition lru_sorted :: "u64 \<Rightarrow> tcp_pool \<Rightarrow> bool" where
  "lru_sorted now pool \<longleftrightarrow> sorted_wrt (\<lambda>a b. last_used pool b \<le> last_used pool a) (tp_lru pool)
     \<and> (\<forall>e \<in> set (tp_lru pool). last_used pool e \<le> now)"

lemma sorted_wrt_remove1: "sorted_wrt P xs \<Longrightarrow> sorted_wrt P (remove1 x xs)"
  by (induction xs) (auto dest: notin_set_remove1 set_remove1_subset [THEN subsetD])

lemma lru_sorted_touch:
  assumes "linked pool" and "lru_sorted t pool" and "t \<le> now" and "e \<in> set (tp_lru pool)"
    and "\<And>x. pe_last_used_ms (f x) = now"
  shows "lru_sorted now (lru_touch (with_pool_entry e f pool) e)"
proof -
  let ?p = "lru_touch (with_pool_entry e f pool) e"
  have d: "distinct (tp_lru pool)" by (rule linked_lru(1) [OF assms(1)])
  have lru: "tp_lru ?p = e # remove1 e (tp_lru pool)" using lru_touch_lru [of "with_pool_entry e f pool" e] d assms(4) by simp
  have lu: "last_used ?p x = (if x = e then now else last_used pool x)" for x using assms(5) by (simp add: last_used_def)
  have le: "last_used pool x \<le> now" if "x \<in> set (tp_lru pool)" for x using assms(2,3) that by (fastforce simp: lru_sorted_def)
  have "sorted_wrt (\<lambda>a b. last_used pool b \<le> last_used pool a) (remove1 e (tp_lru pool))"
    using assms(2) by (intro sorted_wrt_remove1) (simp add: lru_sorted_def)
  then have "sorted_wrt (\<lambda>a b. last_used ?p b \<le> last_used ?p a) (remove1 e (tp_lru pool))"
    by (rule sorted_wrt_mono_rel [rotated]) (use d in \<open>auto simp: lu set_remove1_eq\<close>)
  then show ?thesis using le d unfolding lru_sorted_def lru by (auto simp: lu set_remove1_eq)
qed

lemma lru_sorted_drop: "lru_sorted t pool \<Longrightarrow> lru_sorted t (drop_entry pool e)"
  by (auto simp: lru_sorted_def last_used_def sorted_wrt_remove1 dest: set_remove1_subset [THEN subsetD])

lemma lru_sorted_later: "lru_sorted t pool \<Longrightarrow> t \<le> now \<Longrightarrow> lru_sorted now pool"
  by (fastforce simp: lru_sorted_def)

lemma lru_sorted_same:
  assumes "lru_sorted t pool" and "tp_lru pool' = tp_lru pool" and "last_used pool' = last_used pool"
  shows "lru_sorted t pool'"
  using assms by (simp add: lru_sorted_def)

lemma lru_sorted_add:
  assumes "linked pool" and "lru_sorted now pool" and "pe_last_used_ms x = now"
  shows "lru_sorted now (add_entry pool x)"
proof -
  let ?e = "tp_next pool" and ?p = "add_entry pool x"
  have new: "?e \<notin> set (tp_lru pool)" using assms(1) by (auto simp: linked_def)
  have lru: "tp_lru ?p = ?e # tp_lru pool" by (simp add: add_entry_def Let_def)
  have lu: "last_used ?p y = (if y = ?e then now else last_used pool y)" for y
    using assms(3) by (simp add: last_used_def add_entry_def Let_def)
  have "sorted_wrt (\<lambda>a b. last_used ?p b \<le> last_used ?p a) (tp_lru pool)"
    by (rule sorted_wrt_mono_rel [rotated, of "\<lambda>a b. last_used pool b \<le> last_used pool a"]) (use assms(2) new in \<open>auto simp: lu lru_sorted_def\<close>)
  then show ?thesis using assms(2) new unfolding lru_sorted_def lru by (auto simp: lu)
qed

lemma lru_sorted_evict: "lru_sorted t pool \<Longrightarrow> lru_sorted t (snd (evict_lru_idle pool))"
  by (cases rule: evict_cases [of pool]) (simp_all add: lru_sorted_drop)

lemma linked_evict: "linked pool \<Longrightarrow> linked (snd (evict_lru_idle pool))"
  by (cases rule: evict_cases [of pool]) (simp_all add: linked_drop(1))

lemma lru_sorted_step:
  assumes "pool_step now s s'" and "pool_inv (fst s) (snd s)" and "lru_sorted t (fst s)" and "t \<le> now"
  shows "lru_sorted now (fst s')"
  using assms
proof (induction rule: pool_step.induct)
  case (hit pool host port c pool' held)
  have inv: "linked pool" using hit(2) by (simp add: pool_inv_def)
  obtain e where find: "find (reusable pool host port) (tp_buckets pool ! unat (host_hash host port)) = Some e"
    and pool': "pool' = (lru_touch (with_pool_entry e (\<lambda>x. x\<lparr>pe_in_use := True, pe_last_used_ms := now\<rparr>) pool) e)\<lparr>tp_hits := tp_hits pool + 1\<rparr>"
    using hit(1) by (auto simp: acquire_lookup_def split: if_splits option.splits)
  have "e \<in> set (tp_lru pool)" using find_SomeD [OF find] linked_chain [OF inv hash_bound] by auto
  then have "lru_sorted now (lru_touch (with_pool_entry e (\<lambda>x. x\<lparr>pe_in_use := True, pe_last_used_ms := now\<rparr>) pool) e)"
    using lru_sorted_touch [OF inv _ hit(4)] hit(3) by simp
  then show ?case unfolding pool' fst_conv by (rule lru_sorted_same) (simp_all add: last_used_def fun_eq_iff)
next
  case (miss pool host port r pool' held)
  then have "pool' = pool \<or> pool' = pool\<lparr>tp_misses := tp_misses pool + 1\<rparr>"
    by (auto simp: acquire_lookup_def split: if_splits option.splits)
  then show ?case using lru_sorted_later [of t pool now] miss(4,5) by (auto simp: lru_sorted_def last_used_def)
next
  case (connected host c pool port r pool' held)
  have l: "linked pool" and srt: "lru_sorted now pool"
    using connected(4,5,6) lru_sorted_later by (simp_all add: pool_inv_def)
  show ?case
  proof (cases "tp_shutting_down pool")
    case True
    then show ?thesis using connected(3) srt by (auto simp: acquire_insert_def lru_sorted_def last_used_def)
  next
    case False
    let ?q = "if tp_current_size pool \<ge> tp_max_connections pool then snd (evict_lru_idle pool) else pool"
    have "linked ?q" "lru_sorted now ?q" using l srt linked_evict lru_sorted_evict by simp_all
    then show ?thesis using connected(3) acquire_insert_add [OF False connected(1), of now port c] lru_sorted_add by auto
  qed
next
  case (release c held pool)
  let ?f = "\<lambda>x. x\<lparr>pe_in_use := False, pe_last_used_ms := now\<rparr>"
  have inv: "linked pool" using release(2) by (simp add: pool_inv_def)
  obtain e where e: "e \<in> set (tp_lru pool)" "conn_of pool e = c" using release(1,2) by (auto simp: pool_inv_def)
  have "lru_sorted now (lru_touch (with_pool_entry e ?f pool) e)"
    using lru_sorted_touch [OF inv _ release(4) e(1)] release(3) by simp
  then show ?case using linked_find_conn [OF inv e] lru_sorted_drop
    by (simp add: tcp_pool_release_def Let_def)
next
  case (failed c held pool)
  obtain F where "tcp_pool_mark_failed pool c = pool\<lparr>tp_heap := (\<lambda>e. (tp_heap pool e)\<lparr>pe_failed := F e\<rparr>)\<rparr>"
    using mark_failed_only [of pool c] by (auto simp: failed_only_def)
  then show ?case using lru_sorted_later [OF failed(3,4)] by (simp add: lru_sorted_def last_used_def)
next
  case (shutdown pool held)
  then show ?case using lru_sorted_later [OF shutdown(2,3)] by (simp add: lru_sorted_def last_used_def destroy_begin_def)
qed

lemma pool_reachable_sorted: "pool_reachable limit t s \<Longrightarrow> lru_sorted t (fst s)"
proof (induction rule: pool_reachable.induct)
  case (created pool t)
  then show ?case by (auto simp: tcp_pool_create_def tcp_pool_create_with_config_def lru_sorted_def split: if_splits)
next
  case (step t s now s')
  then show ?case using lru_sorted_step pool_reachable_inv by blast
qed

lemma find_rev_last:
  assumes "find P (rev xs) = Some x"
  obtains ys zs where "xs = ys @ x # zs" "P x" "\<forall>z \<in> set zs. \<not> P z"
proof -
  have "\<exists>i < length (rev xs). P (rev xs ! i) \<and> x = rev xs ! i \<and> (\<forall>j < i. \<not> P (rev xs ! j))"
    using assms by (auto simp: find_Some_iff)
  then obtain i where i: "i < length (rev xs)" "P x" "x = rev xs ! i" "\<forall>j < i. \<not> P (rev xs ! j)" by auto
  have "rev xs = take i (rev xs) @ x # drop (Suc i) (rev xs)" using i(1,3) by (simp add: id_take_nth_drop)
  then have "xs = rev (drop (Suc i) (rev xs)) @ x # rev (take i (rev xs))" by (metis rev_append rev_rev_ident rev.simps(2) append.assoc append_Cons append_Nil)
  moreover have "\<not> P z" if "z \<in> set (rev (take i (rev xs)))" for z using that i(1,4) by (auto simp: in_set_conv_nth)
  ultimately show thesis using that i(2) by blast
qed

text \<open>The mark on a connection, and its release.\<close>

definition mark_chain :: "conn \<Rightarrow> tcp_pool \<Rightarrow> nat list \<Rightarrow> tcp_pool" where
  "mark_chain c pool chain = (case find (\<lambda>e. pe_conn (tp_heap pool e) = c) chain of
     Some e \<Rightarrow> with_pool_entry e (\<lambda>x. x\<lparr>pe_failed := True\<rparr>) pool | None \<Rightarrow> pool)"

lemma mark_chain_keeps: "conn_of (mark_chain c pool chain) = conn_of pool"
  "pe_failed (tp_heap pool e) \<Longrightarrow> pe_failed (tp_heap (mark_chain c pool chain) e)"
  by (auto simp: mark_chain_def conn_of_def fun_eq_iff split: option.split)

lemma mark_chains_keep: "pe_failed (tp_heap pool e) \<Longrightarrow> pe_failed (tp_heap (foldl (mark_chain c) pool cs) e)"
  by (induction cs arbitrary: pool) (simp_all add: mark_chain_keeps)

lemma mark_chain_sets:
  assumes "e \<in> set chain" and "inj_on (conn_of pool) (set chain)" and "conn_of pool e = c"
  shows "pe_failed (tp_heap (mark_chain c pool chain) e)"
proof -
  obtain x where x: "find (\<lambda>e. pe_conn (tp_heap pool e) = c) chain = Some x"
    using assms(1,3) by (cases "find (\<lambda>e. pe_conn (tp_heap pool e) = c) chain") (auto simp: find_None_iff conn_of_def)
  then have "x = e" using find_SomeD [OF x] assms unfolding inj_on_def conn_of_def by blast
  then show ?thesis using x by (simp add: mark_chain_def)
qed

lemma mark_chains_set:
  assumes "e \<in> set (concat cs)" and "inj_on (conn_of pool) (set (concat cs))" and "conn_of pool e = c"
  shows "pe_failed (tp_heap (foldl (mark_chain c) pool cs) e)"
  using assms
proof (induction cs arbitrary: pool)
  case (Cons ch cs)
  show ?case
  proof (cases "e \<in> set ch")
    case True
    then show ?thesis using Cons.prems mark_chain_sets [OF True] mark_chains_keep by (simp add: inj_on_Un)
  next
    case False
    then show ?thesis using Cons.prems Cons.IH [of "mark_chain c pool ch"] by (simp add: mark_chain_keeps(1) inj_on_Un)
  qed
qed simp

lemma mark_failed_sets:
  assumes "linked pool" and "e \<in> set (tp_lru pool)"
  shows "pe_failed (tp_heap (tcp_pool_mark_failed pool (conn_of pool e)) e)"
proof -
  have "tcp_pool_mark_failed pool c = foldl (mark_chain c) pool (tp_buckets pool)" for c
    by (simp add: tcp_pool_mark_failed_def mark_chain_def [abs_def])
  then show ?thesis using assms mark_chains_set [of e "tp_buckets pool" pool] linked_concat [OF assms(1)]
    by (simp add: linked_def del: set_concat)
qed

section \<open>Properties\<close>

text \<open>A pool with room for one connection, in use for \<^verbatim>\<open>a:80\<close> since time 5.\<close>

definition sample_pool :: tcp_pool where
  "sample_pool = (case tcp_pool_create 1 of Inr pool \<Rightarrow> snd (acquire_insert 5 pool (ascii ''a'') 80 7))"

lemma sample_pool_reachable: "pool_reachable 1 5 (sample_pool, {7})"
proof -
  obtain pool where c: "tcp_pool_create 1 = Inr pool" and f: "\<not> tp_shutting_down pool" "tp_closed pool = []" "tp_lru pool = []"
    by (simp add: tcp_pool_create_def tcp_pool_create_with_config_def)
  have w: "wf_cstr 256 (ascii ''a'')" by (simp add: wf_cstr_def ascii_def)
  have "acquire_insert 5 pool (ascii ''a'') 80 7 = (Inr 7, sample_pool)"
    using acquire_insert_add [OF f(1) w, of 5 80 7] by (simp add: sample_pool_def c [simplified])
  then have "pool_step 5 (pool, {}) (sample_pool, {7})"
    using pool_step.connected [OF w, of 7 pool 5 80 "Inr 7" sample_pool "{}"] f by simp
  then show ?thesis using pool_reachable.step [OF pool_reachable.created [OF c, of 0]] by simp
qed

lemma sample_pool_conns: "tp_lru sample_pool = [0]" "conn_of sample_pool 0 = 7" "tp_closed sample_pool = []" "pe_in_use (tp_heap sample_pool 0)"
  by (simp_all add: sample_pool_def tcp_pool_create_def tcp_pool_create_with_config_def acquire_insert_def Let_def lru_prepend_def conn_of_def)

text \<open>
  C28. Exclusive use: in every state that interleaved acquires, releases, failures and a shutdown can
  reach, an acquire hands out a connection that nobody holds and that is not closed: either the new
  one or an idle, healthy connection to the requested host and port. The held connections are
  exactly the entries in use, and the pool exceeds its limit only as far as connections are in use.
\<close>

theorem pool_connections_exclusive:
  assumes "pool_reachable limit t (pool, held)" and "wf_cstr 256 host"
    and "fresh \<notin> set (tp_closed pool) \<union> conn_of pool ` set (tp_lru pool)"
  shows "held = conn_of pool ` {e \<in> set (tp_lru pool). pe_in_use (tp_heap pool e)}
    \<and> tp_current_size pool \<le> max limit (card held)
    \<and> (case tcp_pool_acquire now pool host port (Inr fresh) of
         (Inl err, pool') \<Rightarrow> err = DISTRIC_ERR_SHUTDOWN
       | (Inr c, pool') \<Rightarrow> c \<notin> held \<and> c \<notin> set (tp_closed pool)
           \<and> (c = fresh \<or> (\<exists>e \<in> set (tp_lru pool). conn_of pool e = c \<and> reusable pool host port e)))"
proof -
  have inv: "pool_inv pool held" and limit: "tp_max_connections pool = limit"
    using pool_reachable_inv [OF assms(1)] pool_reachable_limit [OF assms(1)] by simp_all
  note i = pool_invD [OF inv]
  have new: "fresh \<notin> held" "fresh \<notin> set (tp_closed pool)" using assms(3) i(2) by auto
  have "case tcp_pool_acquire now pool host port (Inr fresh) of
         (Inl err, pool') \<Rightarrow> err = DISTRIC_ERR_SHUTDOWN
       | (Inr c, pool') \<Rightarrow> c \<notin> held \<and> c \<notin> set (tp_closed pool)
           \<and> (c = fresh \<or> (\<exists>e \<in> set (tp_lru pool). conn_of pool e = c \<and> reusable pool host port e))"
  proof (cases "acquire_lookup now pool host port")
    case (Pair r pool')
    consider (shut) "r = Inl DISTRIC_ERR_SHUTDOWN" | (hit) c where "r = Inr (Some c)"
      | (miss) "r = Inr None" "\<not> tp_shutting_down pool" "pool' = pool\<lparr>tp_misses := tp_misses pool + 1\<rparr>"
      using Pair by (auto simp: acquire_lookup_def split: if_splits option.splits)
    then show ?thesis
    proof cases
      case shut
      then show ?thesis using Pair by (simp add: tcp_pool_acquire_def)
    next
      case (hit c)
      then show ?thesis using Pair pool_inv_hit(2-4) [OF inv, of now host port c pool'] by (simp add: tcp_pool_acquire_def)
    next
      case miss
      have "\<not> tp_shutting_down pool'" using miss by simp
      then show ?thesis using Pair miss(1) new acquire_insert_add [of pool' host now port fresh] assms(2)
        by (simp add: tcp_pool_acquire_def)
    qed
  qed
  then show ?thesis using i(2) pool_size_bound [OF inv] limit by simp
qed

theorem pool_connections_exclusive_witness:
  "case tcp_pool_acquire 9 sample_pool (ascii ''b'') 81 (Inr 8) of
     (Inl err, pool') \<Rightarrow> err = DISTRIC_ERR_SHUTDOWN | (Inr c, pool') \<Rightarrow> c = 8"
  using pool_connections_exclusive [OF sample_pool_reachable, of "ascii ''b''" 8 81 9]
  by (auto simp: sample_pool_conns wf_cstr_def ascii_def reusable_def split: prod.splits sum.splits)

text \<open>
  Eviction: the pool evicts nothing only if every connection is in use; the connection it evicts
  is idle, and no idle connection of the pool has been unused for longer.
\<close>

lemma pool_evicts_least_recent:
  assumes "pool_reachable limit t (pool, held)"
  shows "case evict_lru_idle pool of
     (False, pool') \<Rightarrow> pool' = pool \<and> conn_of pool ` set (tp_lru pool) = held
   | (True, pool') \<Rightarrow> \<exists>e. e \<in> set (tp_lru pool) \<and> conn_of pool e \<notin> held \<and> set (tp_lru pool') = set (tp_lru pool) - {e}
       \<and> (\<forall>x \<in> set (tp_lru pool) \<inter> {x. conn_of pool x \<notin> held}. last_used pool e \<le> last_used pool x)"
proof -
  have inv: "pool_inv pool held" and srt: "lru_sorted t pool"
    using pool_reachable_inv [OF assms] pool_reachable_sorted [OF assms] by simp_all
  note i = pool_invD [OF inv]
  have idle: "conn_of pool x \<in> held \<longleftrightarrow> pe_in_use (tp_heap pool x)" if "x \<in> set (tp_lru pool)" for x
    using i(1,2) that by (auto simp: linked_def dest: inj_onD)
  show ?thesis
  proof (cases "find (\<lambda>e. \<not> pe_in_use (tp_heap pool e)) (rev (tp_lru pool))")
    case None
    then have "{e \<in> set (tp_lru pool). pe_in_use (tp_heap pool e)} = set (tp_lru pool)" by (auto simp: find_None_iff)
    then show ?thesis using i(2) None by (simp add: evict_lru_idle_def)
  next
    case (Some e)
    obtain ys zs where lru: "tp_lru pool = ys @ e # zs" and e: "\<not> pe_in_use (tp_heap pool e)"
      and zs: "\<forall>z \<in> set zs. \<not> \<not> pe_in_use (tp_heap pool z)" using find_rev_last [OF Some] .
    have mem: "e \<in> set (tp_lru pool)" by (simp add: lru)
    have "last_used pool e \<le> last_used pool x" if "x \<in> set (tp_lru pool)" "conn_of pool x \<notin> held" for x
    proof -
      have "x \<in> set ys \<or> x = e" using that idle zs by (auto simp: lru)
      then show ?thesis using srt by (auto simp: lru_sorted_def lru sorted_wrt_append)
    qed
    then show ?thesis using Some mem idle [OF mem] e linked_drop(2) [OF i(1) mem] by (auto simp: evict_lru_idle_def)
  qed
qed

lemma pool_evicts_least_recent_witness: "evict_lru_idle sample_pool = (False, sample_pool)"
  using pool_evicts_least_recent [OF sample_pool_reachable] by (auto simp: sample_pool_conns split: prod.splits bool.splits)

text \<open>
  Marking a connection as failed before releasing it removes the connection from the pool, but
  the pool does not close it: the handle is neither pooled nor closed afterwards.
\<close>

lemma failed_connection_leaks:
  assumes "pool_reachable limit t (pool, held)" and "c \<in> held"
  shows "let pool' = tcp_pool_release now (tcp_pool_mark_failed pool c) c
     in c \<notin> conn_of pool' ` set (tp_lru pool') \<and> c \<notin> set (tp_closed pool') \<and> tp_closed pool' = tp_closed pool"
proof -
  have inv: "pool_inv pool held" using pool_reachable_inv [OF assms(1)] by simp
  obtain e where e: "e \<in> set (tp_lru pool)" "conn_of pool e = c" using assms(2) by (auto simp: pool_invD(2) [OF inv])
  define p where "p = tcp_pool_mark_failed pool c"
  obtain F where F: "p = pool\<lparr>tp_heap := (\<lambda>e. (tp_heap pool e)\<lparr>pe_failed := F e\<rparr>)\<rparr>"
    using mark_failed_only [of pool c] by (auto simp: failed_only_def p_def)
  have pinv: "linked p" using pool_invD(1) [OF pool_inv_failed [OF inv mark_failed_only]] by (simp add: p_def)
  have pe: "e \<in> set (tp_lru p)" "conn_of p e = c" using e by (simp_all add: F conn_of_def)
  have mark: "pe_failed (tp_heap p e)" using mark_failed_sets [OF pool_invD(1) [OF inv] e(1)] e(2) by (simp add: p_def)
  define q where "q = lru_touch (with_pool_entry e (\<lambda>x. x\<lparr>pe_in_use := False, pe_last_used_ms := now\<rparr>) p) e"
  have "keeps_identity (\<lambda>x. x\<lparr>pe_in_use := False, pe_last_used_ms := now\<rparr>)" by (simp add: keeps_identity_def)
  note t = touched [OF pinv pe(1) this, folded q_def]
  have rel: "tcp_pool_release now p c = drop_entry q e"
    using linked_find_conn [OF pinv pe] mark by (simp add: tcp_pool_release_def q_def Let_def)
  have lru: "set (tp_lru (drop_entry q e)) = set (tp_lru p) - {e}" using linked_drop(2) [OF t(1)] t(2) pe(1) by simp
  have "conn_of (drop_entry q e) = conn_of p" using t(3) by (simp add: conn_of_def fun_eq_iff)
  then have "c \<notin> conn_of (drop_entry q e) ` set (tp_lru (drop_entry q e))"
    unfolding lru using pinv pe by (auto simp: linked_def dest: inj_onD)
  moreover have "tp_closed (drop_entry q e) = tp_closed pool" using mark by (simp add: t(4)) (simp add: q_def F)
  moreover have "c \<notin> set (tp_closed pool)" using pool_invD(3) [OF inv] e by auto
  ultimately show ?thesis by (simp add: rel p_def [symmetric])
qed


lemma failed_connection_leaks_witness:
  "tp_closed (tcp_pool_release 9 (tcp_pool_mark_failed sample_pool 7) 7) = []"
  using failed_connection_leaks [OF sample_pool_reachable, of 7 9] by (simp add: Let_def sample_pool_conns)

end
