(* ===== verification/Auth.thy ===== *)
theory Auth
  imports Prelude
begin

unbundle bit_operations_syntax

text \<open>
  Message authentication of \<^verbatim>\<open>libs/distric_protocol/src/auth.c\<close>: SHA-256 as an incremental hash, HMAC over
  two chunks, computation and verification of message authentication codes, with the thread-local
  error record of \<^verbatim>\<open>error_info.c\<close>. The update loop moves \<^verbatim>\<open>min(len, 64 - buf_used)\<close> bytes per iteration, so
  it would not end on a full buffer; it is a partial function and proved to return.
\<close>

section \<open>Error record\<close>

datatype protocol_stage = PROTO_STAGE_UNKNOWN | PROTO_STAGE_HEADER_DESERIALIZE | PROTO_STAGE_HEADER_VALIDATE
  | PROTO_STAGE_CRC_VERIFY | PROTO_STAGE_AUTH_VERIFY | PROTO_STAGE_LIMITS_CHECK | PROTO_STAGE_TLV_DECODE
  | PROTO_STAGE_MESSAGE_DESERIALIZE | PROTO_STAGE_CAPABILITY_NEGOTIATE

record distric_error_info =
  ei_code :: distric_err
  ei_stage :: protocol_stage
  ei_byte_offset :: u32
  ei_field_tag :: u16
  ei_detail :: cstr

record error_state =
  tl_last_error :: distric_error_info
  tl_has_error :: bool

definition distric_get_last_error :: "error_state \<Rightarrow> distric_error_info" where
  "distric_get_last_error es = tl_last_error es"

definition distric_clear_error :: "error_state \<Rightarrow> error_state" where
  "distric_clear_error es = es\<lparr>tl_has_error := False,
     tl_last_error := \<lparr>ei_code = DISTRIC_OK, ei_stage = PROTO_STAGE_UNKNOWN, ei_byte_offset = 0, ei_field_tag = 0, ei_detail = []\<rparr>\<rparr>"

definition distric_set_error_info ::
  "distric_err \<Rightarrow> protocol_stage \<Rightarrow> u32 \<Rightarrow> u16 \<Rightarrow> cstr option \<Rightarrow> error_state \<Rightarrow> error_state" where
  "distric_set_error_info code stage byte_offset field_tag detail es = es\<lparr>tl_has_error := True,
     tl_last_error := \<lparr>ei_code = code, ei_stage = stage, ei_byte_offset = byte_offset, ei_field_tag = field_tag,
       ei_detail = (case detail of Some d \<Rightarrow> strncpy 127 d | None \<Rightarrow> [])\<rparr>\<rparr>"

section \<open>SHA-256\<close>

definition ROR32 :: "u32 \<Rightarrow> nat \<Rightarrow> u32" where
  "ROR32 v n = drop_bit n v OR push_bit (32 - n) v"

text \<open>The constants of the table \<^verbatim>\<open>SHA256_K\<close>, in decimal.\<close>

definition SHA256_K :: "u32 list" where
  "SHA256_K = [
     1116352408, 1899447441, 3049323471, 3921009573, 961987163, 1508970993, 2453635748, 2870763221,
     3624381080, 310598401, 607225278, 1426881987, 1925078388, 2162078206, 2614888103, 3248222580,
     3835390401, 4022224774, 264347078, 604807628, 770255983, 1249150122, 1555081692, 1996064986,
     2554220882, 2821834349, 2952996808, 3210313671, 3336571891, 3584528711, 113926993, 338241895,
     666307205, 773529912, 1294757372, 1396182291, 1695183700, 1986661051, 2177026350, 2456956037,
     2730485921, 2820302411, 3259730800, 3345764771, 3516065817, 3600352804, 4094571909, 275423344,
     430227734, 506948616, 659060556, 883997877, 958139571, 1322822218, 1537002063, 1747873779,
     1955562222, 2024104815, 2227730452, 2361852424, 2428436474, 2756734187, 3204031479, 3329325298]"

record sha256_ctx =
  sc_h :: "u32 list"
  sc_bit_len :: u64
  sc_buf :: bytes
  sc_buf_used :: nat

definition SHA256_H0 :: "u32 list" where
  "SHA256_H0 = [1779033703, 3144134277, 1013904242, 2773480762, 1359893119, 2600822924, 528734635, 1541459225]"

text \<open>The buffer of a fresh context on the stack has arbitrary content.\<close>

definition sha256_init :: "bytes \<Rightarrow> sha256_ctx" where
  "sha256_init junk = \<lparr>sc_h = SHA256_H0, sc_bit_len = 0, sc_buf = junk, sc_buf_used = 0\<rparr>"

definition schedule_first :: "bytes \<Rightarrow> u32 list" where
  "schedule_first block = map (\<lambda>i. push_bit 24 (ucast (block ! (i * 4))) OR push_bit 16 (ucast (block ! (i * 4 + 1)))
     OR push_bit 8 (ucast (block ! (i * 4 + 2))) OR ucast (block ! (i * 4 + 3))) [0..<16]"

definition schedule_step :: "u32 list \<Rightarrow> nat \<Rightarrow> u32 list" where
  "schedule_step w i =
     (let s0 = ROR32 (w ! (i - 15)) 7 XOR ROR32 (w ! (i - 15)) 18 XOR drop_bit 3 (w ! (i - 15));
          s1 = ROR32 (w ! (i - 2)) 17 XOR ROR32 (w ! (i - 2)) 19 XOR drop_bit 10 (w ! (i - 2))
      in w @ [w ! (i - 16) + s0 + w ! (i - 7) + s1])"

type_synonym registers = "u32 \<times> u32 \<times> u32 \<times> u32 \<times> u32 \<times> u32 \<times> u32 \<times> u32"

fun sha256_round :: "u32 list \<Rightarrow> registers \<Rightarrow> nat \<Rightarrow> registers" where
  "sha256_round w (a, b, c, d, e, f, g, h) i =
     (let S1 = ROR32 e 6 XOR ROR32 e 11 XOR ROR32 e 25;
          ch = (e AND f) XOR (NOT e AND g);
          t1 = h + S1 + ch + SHA256_K ! i + w ! i;
          S0 = ROR32 a 2 XOR ROR32 a 13 XOR ROR32 a 22;
          mj = (a AND b) XOR (a AND c) XOR (b AND c);
          t2 = S0 + mj
      in (t1 + t2, a, b, c, d + t1, e, f, g))"

definition compress_words :: "u32 list \<Rightarrow> bytes \<Rightarrow> u32 list" where
  "compress_words hs block =
     (let w = foldl schedule_step (schedule_first block) [16..<64];
          (a, b, c, d, e, f, g, h) = foldl (sha256_round w)
            (hs ! 0, hs ! 1, hs ! 2, hs ! 3, hs ! 4, hs ! 5, hs ! 6, hs ! 7) [0..<64]
      in [hs ! 0 + a, hs ! 1 + b, hs ! 2 + c, hs ! 3 + d, hs ! 4 + e, hs ! 5 + f, hs ! 6 + g, hs ! 7 + h])"

definition sha256_compress :: "sha256_ctx \<Rightarrow> bytes \<Rightarrow> sha256_ctx" where
  "sha256_compress ctx block = ctx\<lparr>sc_h := compress_words (sc_h ctx) block\<rparr>"

text \<open>\<^verbatim>\<open>memcpy(buf + pos, data, n)\<close>.\<close>

definition memcpy_at :: "nat \<Rightarrow> bytes \<Rightarrow> bytes \<Rightarrow> bytes" where
  "memcpy_at pos data buf = take pos buf @ data @ drop (pos + length data) buf"

definition absorb_chunk :: "sha256_ctx \<Rightarrow> bytes \<Rightarrow> sha256_ctx" where
  "absorb_chunk ctx chunk =
     (let ctx = ctx\<lparr>sc_buf := memcpy_at (sc_buf_used ctx) chunk (sc_buf ctx),
            sc_buf_used := sc_buf_used ctx + length chunk, sc_bit_len := sc_bit_len ctx + of_nat (length chunk) * 8\<rparr>
      in if sc_buf_used ctx = 64 then (sha256_compress ctx (sc_buf ctx))\<lparr>sc_buf_used := 0\<rparr> else ctx)"

partial_function (option) sha256_update :: "sha256_ctx \<Rightarrow> bytes \<Rightarrow> sha256_ctx option" where
  "sha256_update ctx data =
     (if data = [] then Some ctx
      else sha256_update (absorb_chunk ctx (take (64 - sc_buf_used ctx) data)) (drop (64 - sc_buf_used ctx) data))"

function zero_until :: "nat \<Rightarrow> sha256_ctx \<Rightarrow> sha256_ctx" where
  "zero_until limit ctx =
     (if sc_buf_used ctx < limit
      then zero_until limit (ctx\<lparr>sc_buf := (sc_buf ctx)[sc_buf_used ctx := 0], sc_buf_used := sc_buf_used ctx + 1\<rparr>)
      else ctx)"
  by pat_completeness auto
termination by (relation "measure (\<lambda>(limit, ctx). limit - sc_buf_used ctx)") auto

declare zero_until.simps [simp del]

definition sha256_final :: "sha256_ctx \<Rightarrow> bytes" where
  "sha256_final ctx =
     (let ctx = ctx\<lparr>sc_buf := (sc_buf ctx)[sc_buf_used ctx := 0x80], sc_buf_used := sc_buf_used ctx + 1\<rparr>;
          ctx = (if sc_buf_used ctx > 56
                 then (let ctx = zero_until 64 ctx in (sha256_compress ctx (sc_buf ctx))\<lparr>sc_buf_used := 0\<rparr>)
                 else ctx);
          ctx = zero_until 56 ctx;
          ctx = ctx\<lparr>sc_buf := memcpy_at 56 (be_bytes 8 (sc_bit_len ctx)) (sc_buf ctx)\<rparr>;
          ctx = sha256_compress ctx (sc_buf ctx)
      in concat (map (be_bytes 4) (sc_h ctx)))"

section \<open>HMAC\<close>

definition pad_key :: "u8 \<Rightarrow> bytes \<Rightarrow> bytes" where
  "pad_key c key = map2 (XOR) key (replicate (length key) c) @ replicate (64 - length key) c"

definition hmac_sha256_2chunk :: "bytes \<Rightarrow> bytes \<Rightarrow> bytes \<Rightarrow> bytes \<Rightarrow> bytes option" where
  "hmac_sha256_2chunk junk key chunk1 chunk2 =
     Option.bind (if length key > 64 then map_option sha256_final (sha256_update (sha256_init junk) key) else Some key)
       (\<lambda>key. Option.bind (sha256_update (sha256_init junk) (pad_key 0x36 key))
         (\<lambda>inner. Option.bind (if chunk1 \<noteq> [] then sha256_update inner chunk1 else Some inner)
           (\<lambda>inner. Option.bind (if chunk2 \<noteq> [] then sha256_update inner chunk2 else Some inner)
             (\<lambda>inner. Option.bind (sha256_update (sha256_init junk) (pad_key 0x5c key))
               (\<lambda>outer. Option.bind (sha256_update outer (sha256_final inner))
                 (\<lambda>outer. Some (sha256_final outer)))))))"

definition distric_hmac_sha256 :: "bytes \<Rightarrow> bytes \<Rightarrow> bytes \<Rightarrow> bytes option" where
  "distric_hmac_sha256 junk key data = hmac_sha256_2chunk junk key data []"

section \<open>Authentication of messages\<close>

text \<open>
  \<open>ac_mac_fn\<close> is the pluggable function; \<open>None\<close> selects the built-in one. The key is its \<^verbatim>\<open>key_len\<close> bytes; the
  array has 64, so only lists of at most this length stand for a context of the code, which does not check it.
\<close>

record distric_auth_ctx =
  ac_key :: bytes
  ac_mac_fn :: "(bytes \<Rightarrow> bytes \<Rightarrow> bytes) option"

text \<open>The outer option is termination.\<close>

definition distric_auth_compute :: "bytes \<Rightarrow> distric_auth_ctx \<Rightarrow> bytes \<Rightarrow> bytes \<Rightarrow> bytes option" where
  "distric_auth_compute junk ctx header_buf payload =
     (if ac_key ctx = [] then Some (replicate 32 0)
      else case ac_mac_fn ctx of
             Some mac_fn \<Rightarrow> Some (mac_fn (ac_key ctx) (take 32 header_buf @ payload))
           | None \<Rightarrow> hmac_sha256_2chunk junk (ac_key ctx) (take 32 header_buf) payload)"

definition mac_difference :: "bytes \<Rightarrow> bytes \<Rightarrow> u8" where
  "mac_difference computed expected_mac = foldl (\<lambda>diff i. diff OR (computed ! i XOR expected_mac ! i)) 0 [0..<32]"

definition distric_auth_verify ::
  "bytes \<Rightarrow> distric_auth_ctx \<Rightarrow> bytes \<Rightarrow> bytes \<Rightarrow> bytes \<Rightarrow> error_state \<Rightarrow> (distric_err \<times> error_state) option" where
  "distric_auth_verify junk ctx header_buf payload expected_mac es =
     (if ac_key ctx = [] then Some (DISTRIC_OK, es)
      else map_option (\<lambda>computed.
             if mac_difference computed expected_mac \<noteq> 0
             then (DISTRIC_ERR_INVALID_FORMAT, distric_set_error_info DISTRIC_ERR_INVALID_FORMAT PROTO_STAGE_AUTH_VERIFY 0 0
               (Some (ascii ''HMAC mismatch'')) es)
             else (DISTRIC_OK, es)) (distric_auth_compute junk ctx header_buf payload))"


section \<open>The hash function\<close>

text \<open>The reference: full blocks are compressed one after the other, what is left stays.\<close>

function absorb :: "u32 list \<Rightarrow> bytes \<Rightarrow> u32 list \<times> bytes" where
  "absorb hs m = (if length m < 64 then (hs, m) else absorb (compress_words hs (take 64 m)) (drop 64 m))"
  by pat_completeness auto
termination by (relation "measure (\<lambda>(hs, m). length m)") auto

declare absorb.simps [simp del]

text \<open>The padding of the standard: a one bit, zeros, and the length in bits modulo \<open>2 ^ 64\<close>.\<close>

definition sha256_pad :: "bytes \<Rightarrow> bytes" where
  "sha256_pad m = m @ 0x80 # replicate ((119 - length m mod 64) mod 64) 0 @ be_bytes 8 (of_nat (length m * 8) :: u64)"

definition sha256_spec :: "bytes \<Rightarrow> bytes" where
  "sha256_spec m = concat (map (be_bytes 4) (fst (absorb SHA256_H0 (sha256_pad m))))"

lemma absorb_append: "absorb hs (m @ x) = (case absorb hs m of (hs', r) \<Rightarrow> absorb hs' (r @ x))"
proof (induction hs m rule: absorb.induct)
  case (1 hs m)
  show ?case
  proof (cases "length m < 64")
    case True
    then have "absorb hs m = (hs, m)" by (simp add: absorb.simps [of hs m])
    then show ?thesis by simp
  next
    case False
    then show ?thesis using 1 by (simp add: absorb.simps [of hs m] absorb.simps [of hs "m @ x"])
  qed
qed

lemma absorb_rest: "length (snd (absorb hs m)) = length m mod 64"
proof (induction hs m rule: absorb.induct)
  case (1 hs m)
  then show ?case by (cases "length m < 64") (simp_all add: absorb.simps [of hs m] le_mod_geq)
qed

lemma absorb_block: "length b = 64 \<Longrightarrow> absorb hs (b @ x) = absorb (compress_words hs b) x"
  by (simp add: absorb.simps [of hs "b @ x"])

lemma absorb_one: "length b = 64 \<Longrightarrow> absorb hs b = (compress_words hs b, [])"
  using absorb_block [of b hs "[]"] by (simp add: absorb.simps [of _ "[]"])

lemma length_ctx_memcpy: "pos + length data \<le> length buf \<Longrightarrow> length (memcpy_at pos data buf) = length buf"
  by (simp add: memcpy_at_def)

lemma take_memcpy_at: "pos + length data \<le> length buf \<Longrightarrow> take (pos + length data) (memcpy_at pos data buf) = take pos buf @ data"
  by (simp add: memcpy_at_def)

text \<open>The context after the bytes \<open>m\<close>.\<close>

definition ctx_after :: "bytes \<Rightarrow> sha256_ctx \<Rightarrow> bool" where
  "ctx_after m ctx \<longleftrightarrow> length (sc_buf ctx) = 64 \<and> sc_buf_used ctx < 64
     \<and> absorb SHA256_H0 m = (sc_h ctx, take (sc_buf_used ctx) (sc_buf ctx)) \<and> sc_bit_len ctx = of_nat (length m * 8)"

lemma ctx_after_init: "length junk = 64 \<Longrightarrow> ctx_after [] (sha256_init junk)"
  by (simp add: ctx_after_def sha256_init_def absorb.simps)

lemma absorb_chunk_after:
  assumes "ctx_after m ctx" and "length chunk \<le> 64 - sc_buf_used ctx"
  shows "ctx_after (m @ chunk) (absorb_chunk ctx chunk)"
proof -
  let ?u = "sc_buf_used ctx" and ?b = "memcpy_at (sc_buf_used ctx) chunk (sc_buf ctx)"
  note c = assms(1) [unfolded ctx_after_def]
  have room: "?u + length chunk \<le> length (sc_buf ctx)" using c assms(2) by linarith
  have b: "length ?b = 64" "take (?u + length chunk) ?b = take ?u (sc_buf ctx) @ chunk"
    using length_ctx_memcpy [OF room] take_memcpy_at [OF room] c by simp_all
  have abs: "absorb SHA256_H0 (m @ chunk) = absorb (sc_h ctx) (take (?u + length chunk) ?b)" using c b(2) by (simp add: absorb_append [of _ m])
  have bits: "sc_bit_len ctx + of_nat (length chunk) * 8 = of_nat (length (m @ chunk) * 8)" using c by (simp add: algebra_simps)
  show ?thesis
  proof (cases "?u + length chunk = 64")
    case True
    then show ?thesis using b abs bits absorb_one [of ?b "sc_h ctx"]
      by (simp add: ctx_after_def absorb_chunk_def sha256_compress_def Let_def)
  next
    case False
    then have less: "?u + length chunk < 64" using room c by simp
    then have "absorb (sc_h ctx) (take (?u + length chunk) ?b) = (sc_h ctx, take (?u + length chunk) ?b)"
      using b(1) by (simp add: absorb.simps)
    then show ?thesis using b abs bits less by (simp add: ctx_after_def absorb_chunk_def Let_def)
  qed
qed

lemma sha256_update_after:
  assumes "ctx_after m ctx"
  shows "\<exists>ctx'. sha256_update ctx data = Some ctx' \<and> ctx_after (m @ data) ctx'"
  using assms
proof (induction "length data" arbitrary: m ctx data rule: less_induct)
  case less
  show ?case
  proof (cases "data = []")
    case True
    then show ?thesis using less.prems by (subst sha256_update.simps) simp
  next
    case False
    let ?n = "64 - sc_buf_used ctx"
    have "0 < ?n" using less.prems by (simp add: ctx_after_def)
    then have "length (drop ?n data) < length data" using False by (cases data) auto
    from less.hyps [OF this absorb_chunk_after [OF less.prems, of "take ?n data"]]
    show ?thesis using False by (subst sha256_update.simps) simp
  qed
qed

lemma zero_until_fill:
  assumes "sc_buf_used ctx \<le> limit" and "limit \<le> length (sc_buf ctx)"
  shows "\<exists>buf. zero_until limit ctx = ctx\<lparr>sc_buf := buf, sc_buf_used := limit\<rparr> \<and> length buf = length (sc_buf ctx)
    \<and> take limit buf = take (sc_buf_used ctx) (sc_buf ctx) @ replicate (limit - sc_buf_used ctx) 0"
  using assms
proof (induction limit ctx rule: zero_until.induct)
  case (1 limit ctx)
  show ?case
  proof (cases "sc_buf_used ctx < limit")
    case False
    then have "sc_buf_used ctx = limit" using 1(2) by simp
    then show ?thesis by (intro exI [of _ "sc_buf ctx"]) (simp add: zero_until.simps)
  next
    case True
    let ?u = "sc_buf_used ctx"
    let ?c = "ctx\<lparr>sc_buf := (sc_buf ctx)[?u := 0], sc_buf_used := ?u + 1\<rparr>"
    obtain buf where buf: "zero_until limit ?c = ?c\<lparr>sc_buf := buf, sc_buf_used := limit\<rparr>" "length buf = length (sc_buf ctx)"
      "take limit buf = take (Suc ?u) ((sc_buf ctx)[?u := 0]) @ replicate (limit - Suc ?u) 0"
      using 1(1) [OF True] 1(3) True by auto
    have "take (Suc ?u) ((sc_buf ctx)[?u := 0]) = take ?u (sc_buf ctx) @ [0]"
      using True 1(3) by (simp add: take_Suc_conv_app_nth)
    moreover have "[0] @ replicate (limit - Suc ?u) 0 = replicate (limit - ?u) (0 :: u8)"
      using True by (simp add: Suc_diff_Suc flip: replicate_Suc)
    ultimately have "take limit buf = take ?u (sc_buf ctx) @ replicate (limit - ?u) 0" using buf(3) by simp
    then show ?thesis using buf(1,2) True by (intro exI [of _ buf]) (simp add: zero_until.simps [of limit ctx])
  qed
qed

lemma memcpy_at_end: "length buf = 64 \<Longrightarrow> length d = 8 \<Longrightarrow> memcpy_at 56 d buf = take 56 buf @ d"
  by (simp add: memcpy_at_def)

lemma sha256_final_after:
  assumes "ctx_after m ctx"
  shows "sha256_final ctx = sha256_spec m"
proof -
  let ?u = "sc_buf_used ctx" and ?r = "take (sc_buf_used ctx) (sc_buf ctx)" and ?len = "be_bytes 8 (of_nat (length m * 8) :: u64)"
  note c = assms [unfolded ctx_after_def]
  have u: "length m mod 64 = ?u" using absorb_rest [of SHA256_H0 m] c by simp
  have spec: "absorb SHA256_H0 (sha256_pad m) = absorb (sc_h ctx) (?r @ 0x80 # replicate ((119 - ?u) mod 64) 0 @ ?len)"
    using c by (simp add: sha256_pad_def absorb_append [of _ m] u)
  define c1 where "c1 = ctx\<lparr>sc_buf := (sc_buf ctx)[?u := 0x80], sc_buf_used := Suc ?u\<rparr>"
  have c1: "length (sc_buf c1) = 64" "sc_buf_used c1 = Suc ?u" "take (Suc ?u) (sc_buf c1) = ?r @ [0x80]"
    "sc_h c1 = sc_h ctx" "sc_bit_len c1 = of_nat (length m * 8)"
    using c by (simp_all add: c1_def take_Suc_conv_app_nth)
  show ?thesis
  proof (cases "Suc ?u > 56")
    case False
    obtain buf where buf: "zero_until 56 c1 = c1\<lparr>sc_buf := buf, sc_buf_used := 56\<rparr>" "length buf = 64"
      "take 56 buf = ?r @ 0x80 # replicate (55 - ?u) 0"
      using zero_until_fill [of c1 56] c1(1,2) False by (auto simp: c1(3))
    have k: "(119 - ?u) mod 64 = 55 - ?u"
    proof -
      have e: "119 - ?u = 64 + (55 - ?u)" using False by simp
      show ?thesis unfolding e mod_add_self1 by simp
    qed
    have "length (?r @ 0x80 # replicate (55 - ?u) 0 @ ?len) = 64" using c False by simp
    from absorb_one [OF this] have "fst (absorb SHA256_H0 (sha256_pad m)) = compress_words (sc_h ctx) (take 56 buf @ ?len)"
      unfolding spec k buf(3) by simp
    moreover have "sha256_final ctx = concat (map (be_bytes 4) (compress_words (sc_h ctx) (take 56 buf @ ?len)))"
      using False buf(1,2) c1 by (simp add: sha256_final_def c1_def [symmetric] Let_def sha256_compress_def memcpy_at_end)
    ultimately show ?thesis by (simp add: sha256_spec_def)
  next
    case True
    obtain buf where buf: "zero_until 64 c1 = c1\<lparr>sc_buf := buf, sc_buf_used := 64\<rparr>" "length buf = 64"
      "take 64 buf = ?r @ 0x80 # replicate (63 - ?u) 0"
      using zero_until_fill [of c1 64] c1(1,2) c by (auto simp: c1(3))
    define c2 where "c2 = c1\<lparr>sc_buf := buf, sc_buf_used := 0, sc_h := compress_words (sc_h ctx) buf\<rparr>"
    obtain buf' where buf': "zero_until 56 c2 = c2\<lparr>sc_buf := buf', sc_buf_used := 56\<rparr>" "length buf' = 64" "take 56 buf' = replicate 56 0"
      using zero_until_fill [of c2 56] buf(2) by (auto simp: c2_def)
    have k: "(119 - ?u) mod 64 = (63 - ?u) + 56" using True c by simp
    have first: "buf = ?r @ 0x80 # replicate (63 - ?u) 0" using buf(2,3) by simp
    have split: "?r @ 0x80 # replicate ((119 - ?u) mod 64) 0 @ ?len = buf @ (replicate 56 0 @ ?len)"
      unfolding k first by (simp add: replicate_add del: replicate.simps)
    have "length (replicate 56 0 @ ?len) = 64" by simp
    from absorb_one [OF this] have "fst (absorb SHA256_H0 (sha256_pad m)) = compress_words (compress_words (sc_h ctx) buf) (replicate 56 0 @ ?len)"
      unfolding spec split absorb_block [OF buf(2)] by simp
    moreover have "sha256_final ctx = concat (map (be_bytes 4) (compress_words (compress_words (sc_h ctx) buf) (replicate 56 0 @ ?len)))"
    proof -
      have "(sha256_compress (zero_until 64 c1) (sc_buf (zero_until 64 c1)))\<lparr>sc_buf_used := 0\<rparr> = c2"
        using c1(4) by (simp add: buf(1) sha256_compress_def c2_def)
      then show ?thesis using True buf'(1,2,3) c1
        by (simp add: sha256_final_def c1_def [symmetric] Let_def memcpy_at_end) (simp add: sha256_compress_def c2_def)
    qed
    ultimately show ?thesis by (simp add: sha256_spec_def)
  qed
qed

section \<open>Incremental hashing as an interface\<close>

text \<open>
  What HMAC relies on: a context that starts empty, absorbs chunks and yields the hash of all it has
  absorbed, whatever the memory it is placed in held before (\<open>junk\<close>).
\<close>

locale incremental_hash =
  fixes start :: "'j \<Rightarrow> 'c" and usable :: "'j \<Rightarrow> bool" and update :: "'c \<Rightarrow> bytes \<Rightarrow> 'c option" and finish :: "'c \<Rightarrow> bytes"
    and hash :: "bytes \<Rightarrow> bytes" and after :: "bytes \<Rightarrow> 'c \<Rightarrow> bool"
  assumes start_after: "usable j \<Longrightarrow> after [] (start j)"
    and update_after: "after m c \<Longrightarrow> \<exists>c'. update c d = Some c' \<and> after (m @ d) c'"
    and finish_after: "after m c \<Longrightarrow> finish c = hash m"
begin

lemma updateE:
  assumes "after m c"
  obtains c' where "update c d = Some c'" and "after (m @ d) c'"
  using update_after [OF assms] by blast

lemma one_chunk:
  assumes "usable j"
  shows "map_option finish (update (start j) m) = Some (hash m)"
proof -
  obtain c where "update (start j) m = Some c" "after m c" using updateE [OF start_after [OF assms], of m] by auto
  then show ?thesis by (simp add: finish_after)
qed

lemma update_optional:
  assumes "after m c"
  obtains c' where "(if d \<noteq> [] then update c d else Some c) = Some c'" and "after (m @ d) c'"
proof -
  obtain c1 where "update c d = Some c1" "after (m @ d) c1" using updateE [OF assms] .
  then show thesis using assms that [of c] that [of c1] by (cases "d = []") simp_all
qed

lemma keyed_chunks:
  assumes "usable j"
  obtains c c1 c2 where "update (start j) pad = Some c" and "(if d1 \<noteq> [] then update c d1 else Some c) = Some c1"
    and "(if d2 \<noteq> [] then update c1 d2 else Some c1) = Some c2" and "finish c2 = hash (pad @ d1 @ d2)"
proof -
  obtain c where c: "update (start j) pad = Some c" "after pad c" using updateE [OF start_after [OF assms], of pad] by auto
  obtain c1 where c1: "(if d1 \<noteq> [] then update c d1 else Some c) = Some c1" "after (pad @ d1) c1" using update_optional [OF c(2)] .
  obtain c2 where c2: "(if d2 \<noteq> [] then update c1 d2 else Some c1) = Some c2" "after ((pad @ d1) @ d2) c2" using update_optional [OF c1(2)] .
  show thesis using that [OF c(1) c1(1) c2(1)] finish_after [OF c2(2)] by simp
qed

end

interpretation sha: incremental_hash sha256_init "\<lambda>junk. length junk = 64" sha256_update sha256_final sha256_spec ctx_after
  by unfold_locales (simp_all add: ctx_after_init sha256_update_after sha256_final_after)

text \<open>HMAC as the standard defines it.\<close>

definition hmac_spec :: "bytes \<Rightarrow> bytes \<Rightarrow> bytes" where
  "hmac_spec key msg =
     (let k0 = (if length key > 64 then sha256_spec key else key); k0 = k0 @ replicate (64 - length k0) 0
      in sha256_spec (map (\<lambda>b. b XOR 0x5c) k0 @ sha256_spec (map (\<lambda>b. b XOR 0x36) k0 @ msg)))"

lemma pad_key_map: "pad_key c key = map (\<lambda>b. b XOR c) (key @ replicate (64 - length key) 0)"
  by (simp add: pad_key_def zip_replicate2 map_replicate_const)

lemma hmac_2chunk_spec:
  assumes "length junk = 64"
  shows "hmac_sha256_2chunk junk key chunk1 chunk2 = Some (hmac_spec key (chunk1 @ chunk2))"
proof -
  define k where "k = (if length key > 64 then sha256_spec key else key)"
  have k: "(if length key > 64 then map_option sha256_final (sha256_update (sha256_init junk) key) else Some key) = Some k"
    by (simp add: k_def sha.one_chunk [OF assms])
  obtain c c1 c2 where inner: "sha256_update (sha256_init junk) (pad_key 0x36 k) = Some c"
    "(if chunk1 \<noteq> [] then sha256_update c chunk1 else Some c) = Some c1"
    "(if chunk2 \<noteq> [] then sha256_update c1 chunk2 else Some c1) = Some c2"
    "sha256_final c2 = sha256_spec (pad_key 0x36 k @ chunk1 @ chunk2)"
    by (rule sha.keyed_chunks [OF assms])
  obtain o1 where o1: "sha256_update (sha256_init junk) (pad_key 0x5c k) = Some o1" "ctx_after (pad_key 0x5c k) o1"
    using sha.updateE [OF sha.start_after [OF assms], of "pad_key 0x5c k"] by auto
  obtain o2 where o2: "sha256_update o1 (sha256_final c2) = Some o2" "ctx_after (pad_key 0x5c k @ sha256_final c2) o2"
    using sha.updateE [OF o1(2)] .
  have "hmac_sha256_2chunk junk key chunk1 chunk2 = Some (sha256_final o2)"
    unfolding hmac_sha256_2chunk_def k by (simp only: inner(1-3) o1(1) o2(1) Option.bind.simps)
  then show ?thesis
    by (simp add: sha.finish_after [OF o2(2)] inner(4) pad_key_map hmac_spec_def k_def Let_def)
qed

section \<open>Verification of codes\<close>

lemma foldl_or_zero: "foldl (\<lambda>d i. d OR f i) a xs = (0 :: 'a::len word) \<longleftrightarrow> a = 0 \<and> (\<forall>x \<in> set xs. f x = 0)"
  by (induction xs arbitrary: a) (auto simp: or_eq_0_iff)

lemma xor_zero_eq: "a XOR b = 0 \<longleftrightarrow> a = (b :: u8)"
  by (metis xor.assoc xor.left_neutral xor.right_neutral xor_self_eq)

lemma mac_difference_zero:
  assumes "length a = 32" and "length b = 32"
  shows "mac_difference a b = 0 \<longleftrightarrow> a = b"
proof -
  have "mac_difference a b = 0 \<longleftrightarrow> (\<forall>i < 32. a ! i XOR b ! i = 0)" by (auto simp: mac_difference_def foldl_or_zero)
  also have "\<dots> \<longleftrightarrow> (\<forall>i < 32. a ! i = b ! i)" by (simp add: xor_zero_eq)
  finally show ?thesis using assms by (simp add: list_eq_iff_nth_eq)
qed

lemma length_compress_words: "length (compress_words hs block) = 8"
  by (simp add: compress_words_def Let_def split: prod.split)

lemma length_absorb: "length hs = 8 \<Longrightarrow> length (fst (absorb hs m)) = 8"
proof (induction hs m rule: absorb.induct)
  case (1 hs m)
  then show ?case by (cases "length m < 64") (simp_all add: absorb.simps [of hs m] length_compress_words)
qed

lemma length_sha256_spec: "length (sha256_spec m) = 32"
proof -
  have "length (concat (map (be_bytes 4) hs)) = 4 * length hs" for hs :: "u32 list" by (induction hs) simp_all
  then show ?thesis using length_absorb [of SHA256_H0 "sha256_pad m"] by (simp add: sha256_spec_def SHA256_H0_def)
qed

lemma length_hmac_spec: "length (hmac_spec key msg) = 32"
  by (simp add: hmac_spec_def Let_def length_sha256_spec)

section \<open>Properties\<close>

text \<open>
  C31. The incremental SHA-256 code is the hash of the standard: for every way to cut a message into
  chunks the updates return, and the final step yields the digest of the padded message computed
  block by block, whatever the context's buffer held before.
\<close>

theorem sha256_streaming:
  assumes "length junk = 64"
  shows "Option.bind (foldl (\<lambda>c d. Option.bind c (\<lambda>c. sha256_update c d)) (Some (sha256_init junk)) chunks) (\<lambda>c. Some (sha256_final c))
    = Some (sha256_spec (concat chunks))"
proof -
  have "\<exists>c'. foldl (\<lambda>c d. Option.bind c (\<lambda>c. sha256_update c d)) (Some c) ds = Some c' \<and> ctx_after (m @ concat ds) c'"
    if "ctx_after m c" for m c ds
    using that
  proof (induction ds arbitrary: m c)
    case (Cons d ds)
    obtain c1 where "sha256_update c d = Some c1" "ctx_after (m @ d) c1" using sha.updateE [OF Cons.prems] .
    then show ?case using Cons.IH [of "m @ d" c1] by simp
  qed simp
  from this [OF ctx_after_init [OF assms], of chunks] show ?thesis by (auto simp: sha256_final_after)
qed

theorem sha256_streaming_witness:
  "Option.bind (Option.bind (sha256_update (sha256_init (replicate 64 7)) (ascii ''ab'')) (\<lambda>c. sha256_update c (ascii ''c'')))
     (\<lambda>c. Some (sha256_final c)) = Some (sha256_spec (ascii ''abc''))"
  using sha256_streaming [of "replicate 64 7" "[ascii ''ab'', ascii ''c'']"] by (simp add: ascii_def)

text \<open>
  C32. Authentication: with the built-in function the code of a message is the HMAC of header and
  payload, the same that the pluggable path computes with \<^verbatim>\<open>distric_hmac_sha256\<close>; verification accepts
  exactly this code, and every other code is rejected with an error record.
\<close>

theorem auth_verify_exact:
  assumes "length junk = 64" and "ac_key ctx \<noteq> []" and "ac_mac_fn ctx = None" and "length header_buf = 32" and "length mac = 32"
  shows "distric_auth_compute junk ctx header_buf payload = distric_hmac_sha256 junk (ac_key ctx) (header_buf @ payload)
    \<and> distric_auth_compute junk ctx header_buf payload = Some (hmac_spec (ac_key ctx) (header_buf @ payload))
    \<and> (case distric_auth_verify junk ctx header_buf payload mac es of
         None \<Rightarrow> False
       | Some (err, es') \<Rightarrow>
           if mac = hmac_spec (ac_key ctx) (header_buf @ payload) then err = DISTRIC_OK \<and> es' = es
           else err = DISTRIC_ERR_INVALID_FORMAT \<and> tl_has_error es' \<and> ei_stage (distric_get_last_error es') = PROTO_STAGE_AUTH_VERIFY)"
proof -
  have c: "distric_auth_compute junk ctx header_buf payload = Some (hmac_spec (ac_key ctx) (header_buf @ payload))"
    using assms by (simp add: distric_auth_compute_def hmac_2chunk_spec)
  have d: "mac_difference (hmac_spec (ac_key ctx) (header_buf @ payload)) mac = 0 \<longleftrightarrow> mac = hmac_spec (ac_key ctx) (header_buf @ payload)"
    using mac_difference_zero [OF length_hmac_spec assms(5)] by auto
  have h: "distric_hmac_sha256 junk (ac_key ctx) (header_buf @ payload) = Some (hmac_spec (ac_key ctx) (header_buf @ payload))"
    using hmac_2chunk_spec [OF assms(1), of "ac_key ctx" "header_buf @ payload" "[]"] by (simp add: distric_hmac_sha256_def)
  show ?thesis
    using assms(2) by (simp add: c h distric_auth_verify_def d distric_set_error_info_def distric_get_last_error_def)
qed

theorem auth_verify_exact_witness:
  "distric_auth_compute (replicate 64 0) \<lparr>ac_key = [1, 2, 3], ac_mac_fn = None\<rparr> (replicate 32 0) [9]
     = Some (hmac_spec [1, 2, 3] (replicate 32 0 @ [9]))"
  using conjunct1 [OF conjunct2 [OF auth_verify_exact [of "replicate 64 0" "\<lparr>ac_key = [1, 2, 3], ac_mac_fn = None\<rparr>"
    "replicate 32 0" "replicate 32 0" "[9]"]]] by simp

end
