(* ===== verification/Capability.thy ===== *)
theory Capability
  imports MessageCodec Auth
begin

unbundle bit_operations_syntax

text \<open>
  Capability exchange of \<^verbatim>\<open>libs/distric_protocol/src/capability.c\<close>: the TLV message, and the negotiation
  that both nodes carry out on the received message of the other. Unlike the other serialisers this
  one stops at the first refused field, and its deserialiser does not validate the buffer first.
\<close>

definition CAP_COMPRESSION :: u32 where "CAP_COMPRESSION = push_bit 0 1"
definition CAP_AEAD :: u32 where "CAP_AEAD = push_bit 1 1"
definition CAP_STREAMING :: u32 where "CAP_STREAMING = push_bit 2 1"
definition CAP_INDEXED_TLV :: u32 where "CAP_INDEXED_TLV = push_bit 3 1"
definition CAP_HMAC_AUTH :: u32 where "CAP_HMAC_AUTH = push_bit 4 1"

record capability_msg =
  cap_major_version :: u8
  cap_minor_version :: u8
  cap_capabilities :: u32
  cap_node_id :: cstr

abbreviation (input) CAP_TAG_MAJOR :: u16 where "CAP_TAG_MAJOR \<equiv> 0x0101"
abbreviation (input) CAP_TAG_MINOR :: u16 where "CAP_TAG_MINOR \<equiv> 0x0102"
abbreviation (input) CAP_TAG_CAPS :: u16 where "CAP_TAG_CAPS \<equiv> 0x0103"
abbreviation (input) CAP_TAG_NODE_ID :: u16 where "CAP_TAG_NODE_ID \<equiv> 0x0104"

definition capability_serialize :: "capability_msg \<Rightarrow> bytes result" where
  "capability_serialize cap =
     (case tlv_encode_uint8 (tlv_encoder_create 128) CAP_TAG_MAJOR (cap_major_version cap) of
        Inl err \<Rightarrow> Inl err
      | Inr enc \<Rightarrow> (case tlv_encode_uint8 enc CAP_TAG_MINOR (cap_minor_version cap) of
        Inl err \<Rightarrow> Inl err
      | Inr enc \<Rightarrow> (case tlv_encode_uint32 enc CAP_TAG_CAPS (cap_capabilities cap) of
        Inl err \<Rightarrow> Inl err
      | Inr enc \<Rightarrow> (case (if cap_node_id cap \<noteq> [] then tlv_encode_string enc CAP_TAG_NODE_ID (Some (cap_node_id cap)) else Inr enc) of
        Inl err \<Rightarrow> Inl err
      | Inr enc \<Rightarrow> Inr (fst (tlv_encoder_detach enc))))))"

definition capability_step :: "capability_msg \<times> u32 \<Rightarrow> tlv_field \<Rightarrow> capability_msg \<times> u32" where
  "capability_step s field = (case s of (cap, seen) \<Rightarrow>
     if f_tag field = CAP_TAG_MAJOR then (cap\<lparr>cap_major_version := tlv_field_get_uint8 field\<rparr>, seen OR 1)
     else if f_tag field = CAP_TAG_MINOR then (cap\<lparr>cap_minor_version := tlv_field_get_uint8 field\<rparr>, seen OR 2)
     else if f_tag field = CAP_TAG_CAPS then (cap\<lparr>cap_capabilities := tlv_field_get_uint32 field\<rparr>, seen OR 4)
     else if f_tag field = CAP_TAG_NODE_ID then (cap\<lparr>cap_node_id := get_cstr 63 field (cap_node_id cap)\<rparr>, seen)
     else (cap, seen))"

definition capability_deserialize :: "bytes \<Rightarrow> error_state \<Rightarrow> capability_msg result \<times> error_state" where
  "capability_deserialize buf es =
     (if length buf = 0 then (Inl DISTRIC_ERR_INVALID_ARG, es)
      else case tlv_decoder_create buf (length buf) of
             None \<Rightarrow> (Inl DISTRIC_ERR_NO_MEMORY, es)
           | Some dec \<Rightarrow>
               (case foldl capability_step (\<lparr>cap_major_version = 0, cap_minor_version = 0, cap_capabilities = 0, cap_node_id = []\<rparr>, 0)
                  (tlv_decode_all dec) of (cap, seen) \<Rightarrow>
                if seen AND 7 \<noteq> 7
                then (Inl DISTRIC_ERR_INVALID_FORMAT, distric_set_error_info DISTRIC_ERR_INVALID_FORMAT
                  PROTO_STAGE_CAPABILITY_NEGOTIATE 0 0 (Some (ascii ''capability message missing required fields'')) es)
                else (Inr cap, es)))"

definition capability_negotiate :: "capability_msg \<Rightarrow> capability_msg \<Rightarrow> error_state \<Rightarrow> u32 result \<times> error_state" where
  "capability_negotiate local peer es =
     (if cap_major_version local \<noteq> cap_major_version peer
      then (Inl DISTRIC_ERR_INVALID_FORMAT, distric_set_error_info DISTRIC_ERR_INVALID_FORMAT PROTO_STAGE_CAPABILITY_NEGOTIATE 0 0
        (Some (ascii ''major version mismatch: local='' @ dec_digits (unat (cap_major_version local)) @ ascii '' peer=''
          @ dec_digits (unat (cap_major_version peer)))) es)
      else (Inr (cap_capabilities local AND cap_capabilities peer), es))"

section \<open>Round trip\<close>

definition capability_fields :: "capability_msg \<Rightarrow> raw_field list" where
  "capability_fields cap = [(TLV_UINT8, CAP_TAG_MAJOR, [cap_major_version cap]), (TLV_UINT8, CAP_TAG_MINOR, [cap_minor_version cap]),
     (TLV_UINT32, CAP_TAG_CAPS, be_bytes 4 (cap_capabilities cap))]
     @ (if cap_node_id cap \<noteq> [] then [fstring CAP_TAG_NODE_ID (cap_node_id cap)] else [])"

lemma capability_serialize_fields:
  assumes "wf_cstr 64 (cap_node_id cap)"
  shows "capability_serialize cap = Inr (encodes (capability_fields cap))"
proof -
  have fixed: "\<exists>e. tlv_encode_uint8 enc t v = Inr e \<and> enc_buffer e = enc_buffer enc @ field_bytes (TLV_UINT8, t, [v])"
    "\<exists>e. tlv_encode_uint32 enc t w = Inr e \<and> enc_buffer e = enc_buffer enc @ field_bytes (TLV_UINT32, t, be_bytes 4 w)" for enc t v w
    using tlv_encode_raw_Some [of "[v]" enc TLV_UINT8 t] tlv_encode_raw_Some [of "be_bytes 4 w" enc TLV_UINT32 t]
    by (simp_all add: tlv_encode_uint8_def tlv_encode_uint32_def TLV_MAX_FIELD_SIZE_def)
  have str: "\<exists>e. tlv_encode_string enc t (Some s) = Inr e \<and> enc_buffer e = enc_buffer enc @ field_bytes (fstring t s)"
    if "wf_cstr 64 s" for enc t s
    using tlv_encode_raw_Some [of "s @ [0]" enc TLV_STRING t] that
    by (simp add: tlv_encode_string_def fstring_def wf_cstr_def TLV_MAX_FIELD_SIZE_def)
  obtain e1 where e1: "tlv_encode_uint8 (tlv_encoder_create 128) CAP_TAG_MAJOR (cap_major_version cap) = Inr e1"
    "enc_buffer e1 = field_bytes (TLV_UINT8, CAP_TAG_MAJOR, [cap_major_version cap])" using fixed(1) [of "tlv_encoder_create 128"] by fastforce
  obtain e2 where e2: "tlv_encode_uint8 e1 CAP_TAG_MINOR (cap_minor_version cap) = Inr e2"
    "enc_buffer e2 = enc_buffer e1 @ field_bytes (TLV_UINT8, CAP_TAG_MINOR, [cap_minor_version cap])" using fixed(1) by blast
  obtain e3 where e3: "tlv_encode_uint32 e2 CAP_TAG_CAPS (cap_capabilities cap) = Inr e3"
    "enc_buffer e3 = enc_buffer e2 @ field_bytes (TLV_UINT32, CAP_TAG_CAPS, be_bytes 4 (cap_capabilities cap))" using fixed(2) by blast
  obtain e4 where "tlv_encode_string e3 CAP_TAG_NODE_ID (Some (cap_node_id cap)) = Inr e4"
    "enc_buffer e4 = enc_buffer e3 @ field_bytes (fstring CAP_TAG_NODE_ID (cap_node_id cap))" using str [OF assms] by blast
  then show ?thesis using e1 e2 e3 by (simp add: capability_serialize_def capability_fields_def tlv_encoder_detach_def)
qed

lemma capability_roundtrip:
  assumes "wf_cstr 64 (cap_node_id cap)"
  shows "\<exists>buf. capability_serialize cap = Inr buf \<and> capability_deserialize buf es = (Inr cap, es)"
proof -
  let ?fs = "capability_fields cap"
  have fit: "\<forall>f \<in> set ?fs. field_fits default_string_limit f" "length ?fs \<le> 512" "?fs \<noteq> []"
    using assms by (auto simp: capability_fields_def)
  obtain dec where dec: "tlv_decoder_create (encodes ?fs @ []) (length (encodes ?fs)) = Some dec"
    using create_default [OF encodes_not_Nil [OF fit(3)]] by simp
  note v = default_views(1) [OF dec fit(1,2)]
  have s: "get_cstr 63 \<lparr>f_type = TLV_STRING, f_tag = CAP_TAG_NODE_ID, f_length = 1 + of_nat (length (cap_node_id cap)),
      f_value = cap_node_id cap @ 0 # r\<rparr> x = cap_node_id cap" for r x
    using assms by (simp add: get_cstr_view)
  show ?thesis
    unfolding capability_serialize_fields [OF assms]
    using dec v encodes_not_Nil [OF fit(3)]
    by (simp add: capability_deserialize_def) (simp add: capability_fields_def capability_step_def s)
qed

section \<open>Properties\<close>

text \<open>One node's side of the exchange: the own message, and the bytes received from the peer.\<close>

definition negotiate_with :: "capability_msg \<Rightarrow> bytes \<Rightarrow> error_state \<Rightarrow> u32 result \<times> error_state" where
  "negotiate_with local received es =
     (case capability_deserialize received es of
        (Inl err, es) \<Rightarrow> (Inl err, es)
      | (Inr peer, es) \<Rightarrow> capability_negotiate local peer es)"

text \<open>
  Handshake: two nodes that exchange their serialised capability messages come to the same result.
  With equal major versions both enable exactly the features that both have; otherwise both refuse
  and record the negotiation stage.
\<close>

lemma capability_handshake:
  assumes "wf_cstr 64 (cap_node_id a)" and "wf_cstr 64 (cap_node_id b)"
    and "capability_serialize a = Inr to_b" and "capability_serialize b = Inr to_a"
  shows "fst (negotiate_with a to_a es) = fst (negotiate_with b to_b es')
    \<and> (case negotiate_with a to_a es of
         (Inl err, es1) \<Rightarrow> cap_major_version a \<noteq> cap_major_version b \<and> err = DISTRIC_ERR_INVALID_FORMAT
           \<and> ei_stage (distric_get_last_error es1) = PROTO_STAGE_CAPABILITY_NEGOTIATE
       | (Inr caps, es1) \<Rightarrow> cap_major_version a = cap_major_version b \<and> es1 = es
           \<and> (\<forall>k. bit caps k \<longleftrightarrow> bit (cap_capabilities a) k \<and> bit (cap_capabilities b) k))"
proof -
  have "capability_deserialize to_a es = (Inr b, es)" "capability_deserialize to_b es' = (Inr a, es')"
    using capability_roundtrip [OF assms(2), of es] capability_roundtrip [OF assms(1), of es'] assms(3,4) by simp_all
  then show ?thesis
    by (simp add: negotiate_with_def capability_negotiate_def distric_set_error_info_def distric_get_last_error_def bit_and_iff and.commute)
qed

definition sample_capability :: "u32 \<Rightarrow> capability_msg" where
  "sample_capability caps = \<lparr>cap_major_version = 1, cap_minor_version = 0, cap_capabilities = caps, cap_node_id = ascii ''n1''\<rparr>"

definition no_error :: error_state where
  "no_error = \<lparr>tl_last_error = \<lparr>ei_code = DISTRIC_OK, ei_stage = PROTO_STAGE_UNKNOWN, ei_byte_offset = 0, ei_field_tag = 0, ei_detail = []\<rparr>,
     tl_has_error = False\<rparr>"

lemma capability_handshake_witness:
  "\<exists>to_a to_b. capability_serialize (sample_capability 9) = Inr to_b \<and> capability_serialize (sample_capability 12) = Inr to_a
     \<and> fst (negotiate_with (sample_capability 9) to_a no_error) = fst (negotiate_with (sample_capability 12) to_b no_error)"
proof -
  have wf: "wf_cstr 64 (cap_node_id (sample_capability c))" for c by (simp add: sample_capability_def wf_cstr_def ascii_def)
  show ?thesis using capability_serialize_fields [OF wf] conjunct1 [OF capability_handshake [OF wf wf]] by blast
qed

end
