(* ===== verification/LogFormat.thy ===== *)
theory LogFormat
  imports Prelude "HOL-Library.Sublist"
begin

text \<open>
  The JSON lines of the logger (\<^verbatim>\<open>libs/distric_obs/src/logging.c\<close>, \<^verbatim>\<open>json_escape\<close> and \<^verbatim>\<open>format_json\<close>): how an
  entry is written into a buffer of fixed size, and what a reader of the line gets back.
\<close>

section \<open>Formatting\<close>

datatype log_level = LOG_LEVEL_DEBUG | LOG_LEVEL_INFO | LOG_LEVEL_WARN | LOG_LEVEL_ERROR | LOG_LEVEL_FATAL

fun log_level_str :: "log_level \<Rightarrow> cstr" where
  "log_level_str LOG_LEVEL_DEBUG = ascii ''DEBUG''"
| "log_level_str LOG_LEVEL_INFO = ascii ''INFO''"
| "log_level_str LOG_LEVEL_WARN = ascii ''WARN''"
| "log_level_str LOG_LEVEL_ERROR = ascii ''ERROR''"
| "log_level_str LOG_LEVEL_FATAL = ascii ''FATAL''"

text \<open>The cases of the escape loop: quote, backslash, newline, carriage return, tab.\<close>

definition escape_char :: "u8 \<Rightarrow> bytes" where
  "escape_char p =
     (if p = 34 then [92, 34] else if p = 92 then [92, 92] else if p = 10 then [92, 110]
      else if p = 13 then [92, 114] else if p = 9 then [92, 116] else [p])"

fun escape_loop :: "nat \<Rightarrow> bytes \<Rightarrow> cstr \<Rightarrow> bytes" where
  "escape_loop dsz out [] = out"
| "escape_loop dsz out (p # ps) = (if length out + 4 < dsz then escape_loop dsz (out @ escape_char p) ps else out)"

text \<open>The bytes written to \<^verbatim>\<open>dst\<close>; no caller passes a null pointer.\<close>

definition json_escape :: "nat \<Rightarrow> cstr \<Rightarrow> bytes" where
  "json_escape dsz src =
     (let out = escape_loop dsz (if 0 < dsz then [34] else []) src
      in if length out < dsz then out @ [34] else out)"

record log_kv =
  kv_key :: "cstr option"
  kv_value :: "cstr option"

datatype piece = Raw bytes | Str cstr

definition or_empty :: "cstr option \<Rightarrow> cstr" where
  "or_empty s = (case s of None \<Rightarrow> [] | Some s \<Rightarrow> s)"

fun emit :: "nat \<Rightarrow> piece \<Rightarrow> bytes \<Rightarrow> bytes option" where
  "emit buf_size (Raw s) buf = (if length buf + length s \<ge> buf_size then None else Some (buf @ s))"
| "emit buf_size (Str s) buf =
     (let e = json_escape (buf_size - length buf) s
      in if length e = 0 \<or> length buf + length e \<ge> buf_size then None else Some (buf @ e))"

definition kv_pieces :: "log_kv \<Rightarrow> piece list" where
  "kv_pieces kv =
     (case kv_key kv of
        None \<Rightarrow> []
      | Some key \<Rightarrow> [Raw (ascii '',''), Str key, Raw (ascii '':''), Str (or_empty (kv_value kv))])"

definition entry_pieces :: "u64 \<Rightarrow> log_level \<Rightarrow> cstr option \<Rightarrow> cstr option \<Rightarrow> log_kv list \<Rightarrow> piece list" where
  "entry_pieces now_ms level component message kv_pairs =
     [Raw (ascii ''{\"timestamp\":''), Raw (dec_digits (unat now_ms)),
      Raw (ascii '',\"level\":''), Str (log_level_str level),
      Raw (ascii '',\"component\":''), Str (or_empty component),
      Raw (ascii '',\"message\":''), Str (or_empty message)]
     @ concat (map kv_pieces kv_pairs) @ [Raw (ascii ''}'' @ [10])]"

definition emit_all :: "nat \<Rightarrow> piece list \<Rightarrow> bytes \<Rightarrow> bytes option" where
  "emit_all buf_size ps buf = foldl (\<lambda>b p. Option.bind b (emit buf_size p)) (Some buf) ps"

definition format_json :: "nat \<Rightarrow> u64 \<Rightarrow> log_level \<Rightarrow> cstr option \<Rightarrow> cstr option \<Rightarrow> log_kv list \<Rightarrow> bytes option" where
  "format_json buf_size now_ms level component message kv_pairs =
     emit_all buf_size (entry_pieces now_ms level component message kv_pairs) []"

section \<open>Reading a line\<close>

text \<open>
  A strict JSON reader for the lines: a string has no raw control character and only the escapes of the JSON grammar
  with one letter (the logger writes no \<open>u\<close> escapes), a number is not empty and has no leading zero, and nothing is
  allowed between the tokens or after the closing brace but the newline.
\<close>

definition unescape_char :: "u8 \<Rightarrow> u8 option" where
  "unescape_char e =
     (if e = 34 \<or> e = 92 \<or> e = 47 then Some e
      else if e = 98 then Some 8 else if e = 102 then Some 12 else if e = 110 then Some 10
      else if e = 114 then Some 13 else if e = 116 then Some 9 else None)"

fun parse_str :: "bytes \<Rightarrow> (cstr \<times> bytes) option" where
  "parse_str [] = None"
| "parse_str [c] = (if c = 34 then Some ([], []) else None)"
| "parse_str (c # e # r) =
     (if c = 34 then Some ([], e # r)
      else if c = 92 then
        (case unescape_char e of
           None \<Rightarrow> None
         | Some d \<Rightarrow> map_option (\<lambda>(s, rest). (d # s, rest)) (parse_str r))
      else if c < 32 then None
      else map_option (\<lambda>(s, rest). (c # s, rest)) (parse_str (e # r)))"

definition json_number :: "bytes \<Rightarrow> bool" where
  "json_number ds \<longleftrightarrow> (case ds of [] \<Rightarrow> False | d # r \<Rightarrow> list_all is_digit ds \<and> (d \<noteq> 48 \<or> r = []))"

lemma parse_str_shorter: "parse_str bs = Some (s, rest) \<Longrightarrow> length rest < length bs"
  by (induction bs arbitrary: s rest rule: parse_str.induct) (fastforce split: if_splits option.splits)+

definition expect :: "bytes \<Rightarrow> bytes \<Rightarrow> bytes option" where
  "expect p bs = (if prefix p bs then Some (drop (length p) bs) else None)"

lemma expect_append [simp]: "expect p (p @ r) = Some r"
  by (simp add: expect_def)

lemma expect_shorter: "expect p bs = Some r \<Longrightarrow> length r \<le> length bs"
  by (auto simp: expect_def split: if_splits)

text \<open>One field: comma, quoted key, colon, quoted value.\<close>

definition parse_field :: "bytes \<Rightarrow> ((cstr \<times> cstr) \<times> bytes) option" where
  "parse_field bs =
     Option.bind (expect [44, 34] bs) (\<lambda>r.
     Option.bind (parse_str r) (\<lambda>(k, r).
     Option.bind (expect [58, 34] r) (\<lambda>r.
     Option.bind (parse_str r) (\<lambda>(v, r). Some ((k, v), r)))))"

lemma parse_field_shorter: "parse_field bs = Some (kv, rest) \<Longrightarrow> length rest < length bs"
  by (auto simp: parse_field_def bind_eq_Some_conv dest!: parse_str_shorter expect_shorter)

function parse_fields :: "bytes \<Rightarrow> (cstr \<times> cstr) list option" where
  "parse_fields bs =
     (if bs = ascii ''}'' @ [10] then Some []
      else case parse_field bs of
             None \<Rightarrow> None
           | Some (kv, rest) \<Rightarrow> map_option (Cons kv) (parse_fields rest))"
  by pat_completeness auto
termination by (relation "measure length") (auto dest: parse_field_shorter)

declare parse_fields.simps [simp del]

definition parse_entry :: "bytes \<Rightarrow> (bytes \<times> (cstr \<times> cstr) list) option" where
  "parse_entry bs =
     Option.bind (expect (ascii ''{\"timestamp\":'') bs) (\<lambda>r.
       if json_number (takeWhile is_digit r)
       then map_option (Pair (takeWhile is_digit r)) (parse_fields (dropWhile is_digit r)) else None)"

text \<open>Texts that JSON can hold in the escapes of the logger: no control characters except newline, return and tab.\<close>

definition printable :: "cstr \<Rightarrow> bool" where
  "printable s = list_all (\<lambda>c. 32 \<le> c \<or> c = 10 \<or> c = 13 \<or> c = 9) s"

lemma printable_simps [simp]:
  "printable []" "printable (c # s) \<longleftrightarrow> (32 \<le> c \<or> c = 10 \<or> c = 13 \<or> c = 9) \<and> printable s"
  by (simp_all add: printable_def)

section \<open>Escapes\<close>

definition escaped :: "cstr \<Rightarrow> bytes" where
  "escaped s = concat (map escape_char s)"

lemma escaped_simps [simp]: "escaped [] = []" "escaped (c # s) = escape_char c @ escaped s"
  by (simp_all add: escaped_def)

lemma escape_char_length: "1 \<le> length (escape_char c) \<and> length (escape_char c) \<le> 2"
  by (simp add: escape_char_def)

lemma escaped_length: "length s \<le> length (escaped s)"
proof (induction s)
  case (Cons c s)
  then show ?case using escape_char_length [of c] by simp
qed simp

lemma parse_str_escaped: "printable s \<Longrightarrow> parse_str (escaped s @ 34 # rest) = Some (s, rest)"
proof (induction s)
  case Nil
  then show ?case by (cases rest) simp_all
next
  case (Cons c s)
  have plain: "parse_str (c # r) = map_option (\<lambda>(s, rest). (c # s, rest)) (parse_str r)" if "c \<noteq> 34" "c \<noteq> 92" "\<not> c < 32" "r \<noteq> []" for r
    using that by (cases r) simp_all
  show ?case using Cons by (auto simp: escape_char_def unescape_char_def plain)
qed

lemma escape_loop_prefix: "\<exists>k. escape_loop dsz out s = out @ escaped (take k s)"
proof (induction s arbitrary: out)
  case (Cons c s)
  obtain k where "escape_loop dsz (out @ escape_char c) s = (out @ escape_char c) @ escaped (take k s)" using Cons.IH by blast
  then have "length out + 4 < dsz \<Longrightarrow> ?case" by (intro exI [of _ "Suc k"]) simp
  moreover have "\<not> length out + 4 < dsz \<Longrightarrow> ?case" by (intro exI [of _ 0]) simp
  ultimately show ?case by blast
qed (simp add: exI)

lemma escape_loop_fits: "length out + length (escaped s) + 3 < dsz \<Longrightarrow> escape_loop dsz out s = out @ escaped s"
proof (induction s arbitrary: out)
  case (Cons c s)
  then show ?case using escape_char_length [of c] by simp
qed simp

lemma escape_loop_length: "length out < dsz \<Longrightarrow> length (escape_loop dsz out s) < dsz"
proof (induction s arbitrary: out)
  case (Cons c s)
  then show ?case using escape_char_length [of c] by auto
qed simp

lemma json_escape_prefix:
  assumes "0 < dsz"
  shows "\<exists>k. json_escape dsz s = 34 # escaped (take k s) @ [34] \<or> dsz = 1"
proof -
  obtain k where k: "escape_loop dsz [34] s = [34] @ escaped (take k s)" using escape_loop_prefix by blast
  show ?thesis
  proof (cases "dsz = 1")
    case False
    then have "length (escape_loop dsz [34] s) < dsz" using assms by (intro escape_loop_length) simp
    then show ?thesis using k assms by (intro exI [of _ k]) (simp add: json_escape_def)
  qed simp
qed

lemma json_escape_fits: "length (escaped s) + 4 < dsz \<Longrightarrow> json_escape dsz s = 34 # escaped s @ [34]"
  using escape_loop_fits [of "[34]" s dsz] by (simp add: json_escape_def)

section \<open>Pieces\<close>

fun render :: "piece \<Rightarrow> bytes" where
  "render (Raw s) = s"
| "render (Str s) = 34 # escaped s @ [34]"

text \<open>What may be left of a piece: strings can lose their end.\<close>

fun cut :: "piece \<Rightarrow> piece \<Rightarrow> bool" where
  "cut (Raw s) p \<longleftrightarrow> p = Raw s"
| "cut (Str s) p \<longleftrightarrow> (\<exists>t. p = Str t \<and> prefix t s)"

lemma emit_cut:
  assumes "emit n p buf = Some out"
  shows "\<exists>p'. cut p p' \<and> out = buf @ render p' \<and> length out < n"
proof (cases p)
  case (Raw s)
  then show ?thesis using assms by (auto split: if_splits)
next
  case (Str s)
  let ?d = "n - length buf"
  have e: "out = buf @ json_escape ?d s" "length (json_escape ?d s) \<noteq> 0" "length buf + length (json_escape ?d s) < n"
    using assms Str by (auto simp: Let_def split: if_splits)
  have d: "0 < ?d" "?d \<noteq> 1" using e(2,3) by linarith+
  then obtain k where "json_escape ?d s = 34 # escaped (take k s) @ [34]" using json_escape_prefix by blast
  then show ?thesis using e Str by (intro exI [of _ "Str (take k s)"]) (simp add: take_is_prefix)
qed

lemma emit_all_Cons: "emit_all n (p # ps) buf = Option.bind (emit n p buf) (emit_all n ps)"
proof -
  have "foldl (\<lambda>b p. Option.bind b (emit n p)) None ps = None" for ps by (induction ps) simp_all
  then show ?thesis by (cases "emit n p buf") (simp_all add: emit_all_def)
qed

lemma emit_all_cut:
  "emit_all n ps buf = Some out \<Longrightarrow> ps \<noteq> [] \<Longrightarrow> \<exists>ps'. list_all2 cut ps ps' \<and> out = buf @ concat (map render ps') \<and> length out < n"
proof (induction ps arbitrary: buf)
  case (Cons p ps)
  obtain mid where mid: "emit n p buf = Some mid" "emit_all n ps mid = Some out"
    using Cons.prems(1) by (auto simp: emit_all_Cons bind_eq_Some_conv)
  obtain p' where p': "cut p p'" "mid = buf @ render p'" "length mid < n" using emit_cut [OF mid(1)] by blast
  show ?case
  proof (cases "ps = []")
    case True
    then show ?thesis using mid p' by (intro exI [of _ "[p']"]) (simp add: emit_all_def)
  next
    case False
    obtain ps' where "list_all2 cut ps ps'" "out = mid @ concat (map render ps')" "length out < n"
      using Cons.IH [OF mid(2) False] by blast
    then show ?thesis using p' by (intro exI [of _ "p' # ps'"]) simp
  qed
qed simp

lemma emit_fits: "length buf + length (render p) + 4 < n \<Longrightarrow> emit n p buf = Some (buf @ render p)"
  by (cases p) (simp_all add: json_escape_fits Let_def)

lemma emit_all_fits: "length buf + length (concat (map render ps)) + 4 < n \<Longrightarrow> emit_all n ps buf = Some (buf @ concat (map render ps))"
proof (induction ps arbitrary: buf)
  case (Cons p ps)
  then show ?case using emit_fits [of buf p n] by (simp add: emit_all_Cons)
qed (simp add: emit_all_def)

section \<open>Fields\<close>

definition field_text :: "cstr \<times> cstr \<Rightarrow> bytes" where
  "field_text f = [44, 34] @ escaped (fst f) @ [34] @ [58, 34] @ escaped (snd f) @ [34]"

lemma parse_field_text:
  assumes "printable (fst f)" and "printable (snd f)"
  shows "parse_field (field_text f @ rest) = Some (f, rest)"
proof -
  have "expect [44, 34] (field_text f @ rest) = Some (escaped (fst f) @ 34 # [58, 34] @ escaped (snd f) @ 34 # rest)"
    using expect_append [of "[44, 34]"] by (simp add: field_text_def)
  moreover have "expect [58, 34] ([58, 34] @ escaped (snd f) @ 34 # rest) = Some (escaped (snd f) @ 34 # rest)"
    by (rule expect_append)
  ultimately show ?thesis by (simp add: parse_field_def parse_str_escaped assms)
qed

definition fields_printable :: "(cstr \<times> cstr) list \<Rightarrow> bool" where
  "fields_printable fs = list_all (\<lambda>f. printable (fst f) \<and> printable (snd f)) fs"

lemma parse_fields_text: "fields_printable fs \<Longrightarrow> parse_fields (concat (map field_text fs) @ ascii ''}'' @ [10]) = Some fs"
proof (induction fs)
  case Nil
  then show ?case by (subst parse_fields.simps) simp
next
  case (Cons f fs)
  have "concat (map field_text (f # fs)) @ ascii ''}'' @ [10] \<noteq> ascii ''}'' @ [10]" by (simp add: field_text_def ascii_def)
  then show ?case using Cons parse_field_text [of f "concat (map field_text fs) @ ascii ''}'' @ [10]"]
    unfolding fields_printable_def
    by (subst parse_fields.simps) simp
qed

definition kv_fields :: "log_kv list \<Rightarrow> (cstr \<times> cstr) list" where
  "kv_fields kvs = concat (map (\<lambda>kv. case kv_key kv of None \<Rightarrow> [] | Some k \<Rightarrow> [(k, or_empty (kv_value kv))]) kvs)"

text \<open>What the caller of the logger wants in the line, and what may be left of it.\<close>

definition entry_fields :: "log_level \<Rightarrow> cstr option \<Rightarrow> cstr option \<Rightarrow> log_kv list \<Rightarrow> (cstr \<times> cstr) list" where
  "entry_fields level component message kvs =
     [(ascii ''level'', log_level_str level), (ascii ''component'', or_empty component), (ascii ''message'', or_empty message)] @ kv_fields kvs"

definition cut_field :: "cstr \<times> cstr \<Rightarrow> cstr \<times> cstr \<Rightarrow> bool" where
  "cut_field f g \<longleftrightarrow> prefix (fst g) (fst f) \<and> prefix (snd g) (snd f)"

lemma kv_pieces_cut:
  assumes "list_all2 cut (concat (map kv_pieces kvs)) ps"
  shows "\<exists>fs. list_all2 cut_field (kv_fields kvs) fs \<and> concat (map render ps) = concat (map field_text fs)"
  using assms
proof (induction kvs arbitrary: ps)
  case Nil
  then show ?case by (simp add: kv_fields_def)
next
  case (Cons kv kvs)
  show ?case
  proof (cases "kv_key kv")
    case None
    then show ?thesis using Cons by (simp add: kv_pieces_def kv_fields_def)
  next
    case (Some k)
    obtain k' v' ps' where ps: "ps = [Raw (ascii '',''), Str k', Raw (ascii '':''), Str v'] @ ps'" "prefix k' k" "prefix v' (or_empty (kv_value kv))"
      "list_all2 cut (concat (map kv_pieces kvs)) ps'"
    proof -
      have "kv_pieces kv = [Raw (ascii '',''), Str k, Raw (ascii '':''), Str (or_empty (kv_value kv))]" by (simp add: kv_pieces_def Some)
      then show thesis using Cons.prems that by (auto simp: list_all2_Cons1)
    qed
    obtain fs where "list_all2 cut_field (kv_fields kvs) fs" "concat (map render ps') = concat (map field_text fs)"
      using Cons.IH [OF ps(4)] by blast
    moreover have "kv_fields (kv # kvs) = (k, or_empty (kv_value kv)) # kv_fields kvs" by (simp add: kv_fields_def Some)
    moreover have "cut_field (k, or_empty (kv_value kv)) (k', v')" using ps by (simp add: cut_field_def)
    moreover have "concat (map render [Raw (ascii '',''), Str k', Raw (ascii '':''), Str v']) = field_text (k', v')"
      by (simp add: field_text_def ascii_def)
    ultimately show ?thesis using ps(1) by (intro exI [of _ "(k', v') # fs"]) simp
  qed
qed

lemma kv_pieces_render: "concat (map render (concat (map kv_pieces kvs))) = concat (map field_text (kv_fields kvs))"
  by (induction kvs) (simp_all add: kv_fields_def kv_pieces_def field_text_def ascii_def split: option.split)

lemma escaped_plain: "(\<And>c. c \<in> set s \<Longrightarrow> escape_char c = [c]) \<Longrightarrow> escaped s = s"
  by (induction s) simp_all

lemma fixed_key_text:
  "ascii '',\"level\":'' @ 34 # escaped v @ [34] = field_text (ascii ''level'', v)"
  "ascii '',\"component\":'' @ 34 # escaped v @ [34] = field_text (ascii ''component'', v)"
  "ascii '',\"message\":'' @ 34 # escaped v @ [34] = field_text (ascii ''message'', v)"
  by (simp_all add: field_text_def ascii_def escape_char_def)

lemma dec_digits_digits: "list_all is_digit (dec_digits n)"
proof (induction n rule: dec_digits.induct)
  case (1 n)
  have "is_digit (of_nat (48 + m))" if "m < 10" for m
  proof -
    have "unat (of_nat (48 + m) :: u8) = 48 + m" using that by (simp add: unat_of_nat del: of_nat_add)
    then show ?thesis using that by (simp add: is_digit_def word_le_nat_alt del: of_nat_add)
  qed
  then show ?case using 1 by (subst dec_digits.simps) (auto simp del: of_nat_add)
qed

lemma dec_digits_leading: "json_number (dec_digits n)"
proof (induction n rule: dec_digits.induct)
  case (1 n)
  have digits: "list_all is_digit (dec_digits n)" by (rule dec_digits_digits)
  show ?case
  proof (cases "n < 10")
    case True
    then have "dec_digits n = [of_nat (48 + n)]" by (subst dec_digits.simps) simp
    then show ?thesis using digits by (simp add: json_number_def del: of_nat_add)
  next
    case False
    have eq: "dec_digits n = dec_digits (n div 10) @ [of_nat (48 + n mod 10)]" using False by (subst dec_digits.simps) simp
    obtain d r where d: "dec_digits (n div 10) = d # r" using "1.IH" [OF False] by (cases "dec_digits (n div 10)") (simp_all add: json_number_def)
    have "d \<noteq> 48"
    proof (cases "n div 10 < 10")
      case True
      then have "d = of_nat (48 + n div 10)" using d by (simp add: dec_digits.simps [of "n div 10"] del: of_nat_add)
      moreover have "unat (of_nat (48 + n div 10) :: u8) = 48 + n div 10" using True by (simp add: unat_of_nat del: of_nat_add)
      ultimately have "unat d \<noteq> unat (48 :: u8)" using False by simp
      then show ?thesis by blast
    next
      case big: False
      then have "dec_digits (n div 10) = dec_digits (n div 10 div 10) @ [of_nat (48 + n div 10 mod 10)]" by (subst dec_digits.simps) simp
      moreover have "dec_digits (n div 10 div 10) \<noteq> []" by (subst dec_digits.simps) simp
      ultimately have "r \<noteq> []" using d by (cases "dec_digits (n div 10 div 10)") auto
      then show ?thesis using "1.IH" [OF False] d by (simp add: json_number_def)
    qed
    then show ?thesis using digits d unfolding eq by (simp add: json_number_def)
  qed
qed

text \<open>The reader on a line with the given fields.\<close>

definition line_text :: "u64 \<Rightarrow> (cstr \<times> cstr) list \<Rightarrow> bytes" where
  "line_text now_ms fs = ascii ''{\"timestamp\":'' @ dec_digits (unat now_ms) @ concat (map field_text fs) @ ascii ''}'' @ [10]"

lemma parse_line_text:
  assumes "fields_printable fs"
  shows "parse_entry (line_text now_ms fs) = Some (dec_digits (unat now_ms), fs)"
proof -
  let ?d = "dec_digits (unat now_ms)" and ?r = "concat (map field_text fs) @ ascii ''}'' @ [10]"
  have split: "takeWhile is_digit (d @ c # r) = d \<and> dropWhile is_digit (d @ c # r) = c # r" if "list_all is_digit d" "\<not> is_digit c" for d c r
    using that by (induction d) simp_all
  obtain c r where r: "?r = c # r" "\<not> is_digit c"
    by (cases fs) (simp_all add: field_text_def ascii_def is_digit_def)
  have "takeWhile is_digit (?d @ ?r) = ?d" "dropWhile is_digit (?d @ ?r) = ?r"
    using split [OF dec_digits_digits r(2)] unfolding r(1) by simp_all
  then show ?thesis by (simp add: parse_entry_def line_text_def parse_fields_text assms dec_digits_leading)
qed

lemma format_json_line:
  assumes "format_json n now_ms level component message kvs = Some out"
  shows "\<exists>fs. out = line_text now_ms fs \<and> list_all2 cut_field (entry_fields level component message kvs) fs \<and> length out < n"
proof -
  have "entry_pieces now_ms level component message kvs \<noteq> []" by (simp add: entry_pieces_def)
  from emit_all_cut [OF assms [unfolded format_json_def] this]
  obtain ps where ps: "list_all2 cut (entry_pieces now_ms level component message kvs) ps" "out = concat (map render ps)" "length out < n" by auto
  obtain l c m qs where p: "ps = [Raw (ascii ''{\"timestamp\":''), Raw (dec_digits (unat now_ms)), Raw (ascii '',\"level\":''), Str l,
      Raw (ascii '',\"component\":''), Str c, Raw (ascii '',\"message\":''), Str m] @ qs @ [Raw (ascii ''}'' @ [10])]"
    and cuts: "prefix l (log_level_str level)" "prefix c (or_empty component)" "prefix m (or_empty message)"
    and qs: "list_all2 cut (concat (map kv_pieces kvs)) qs"
    using ps(1) unfolding entry_pieces_def by (auto simp: list_all2_Cons1 list_all2_append1)
  obtain fs where fs: "list_all2 cut_field (kv_fields kvs) fs" "concat (map render qs) = concat (map field_text fs)"
    using kv_pieces_cut [OF qs] by blast
  let ?fs = "[(ascii ''level'', l), (ascii ''component'', c), (ascii ''message'', m)] @ fs"
  have "out = line_text now_ms ?fs"
    unfolding ps(2) p line_text_def using fs(2) fixed_key_text [symmetric] by simp
  moreover have "list_all2 cut_field (entry_fields level component message kvs) ?fs"
    using fs(1) cuts by (simp add: entry_fields_def cut_field_def)
  ultimately show ?thesis using ps(3) by blast
qed

lemma format_json_fits:
  assumes "length (line_text now_ms (entry_fields level component message kvs)) + 4 < n"
  shows "format_json n now_ms level component message kvs = Some (line_text now_ms (entry_fields level component message kvs))"
proof -
  have "concat (map render (entry_pieces now_ms level component message kvs)) = line_text now_ms (entry_fields level component message kvs)"
    using fixed_key_text [symmetric] by (simp add: entry_pieces_def line_text_def entry_fields_def kv_pieces_render)
  then show ?thesis using emit_all_fits [of "[]" "entry_pieces now_ms level component message kvs" n] assms by (simp add: format_json_def)
qed

lemma emit_all_append: "emit_all n (ps @ qs) buf = Option.bind (emit_all n ps buf) (emit_all n qs)"
proof (induction ps arbitrary: buf)
  case Nil
  then show ?case by (simp add: emit_all_def)
next
  case (Cons p ps)
  then show ?case by (cases "emit n p buf") (simp_all add: emit_all_Cons)
qed

lemma escape_loop_plain:
  assumes "\<forall>c \<in> set s. escape_char c = [c]" and "length out + 4 \<le> dsz" and "dsz \<le> length s + length out + 4"
  shows "escape_loop dsz out s = out @ take (dsz - 4 - length out) s"
  using assms
proof (induction s arbitrary: out)
  case (Cons c s)
  show ?case
  proof (cases "length out + 4 < dsz")
    case True
    then have "dsz - 4 - length out = Suc (dsz - 4 - length (out @ [c]))" by simp
    then show ?thesis using True Cons.IH [of "out @ [c]"] Cons.prems by simp
  next
    case False
    then show ?thesis using Cons.prems by simp
  qed
qed simp

lemma no_newline: "10 \<notin> set (escaped s)" "10 \<notin> set (dec_digits n)" "10 \<notin> set (concat (map field_text fs))"
proof -
  show e: "10 \<notin> set (escaped s)" for s by (induction s) (auto simp: escape_char_def)
  show "10 \<notin> set (dec_digits n)" using dec_digits_digits [of n] by (auto simp: list_all_iff is_digit_def)
  show "10 \<notin> set (concat (map field_text fs))" using e by (auto simp: field_text_def)
qed

section \<open>Properties\<close>

lemma line_text_single: "last (line_text now_ms fs) = 10 \<and> 10 \<notin> set (butlast (line_text now_ms fs))"
  using no_newline by (simp add: line_text_def butlast_append ascii_def)

text \<open>
  C30. A formatted entry is one line that reads back: when the texts passed hold no control characters except
  newline, return and tab and the line leaves four bytes of the buffer free, formatting succeeds, and a strict JSON
  reader gets from the line the time stamp and exactly the fields passed, in order, so no content can add, hide or
  change fields; the only newline is the last byte.
\<close>

theorem log_line_parses:
  assumes "fields_printable (entry_fields level component message kvs)"
    and "length (line_text now_ms (entry_fields level component message kvs)) + 4 < n"
  shows "case format_json n now_ms level component message kvs of
      None \<Rightarrow> False
    | Some out \<Rightarrow>
        parse_entry out = Some (dec_digits (unat now_ms), entry_fields level component message kvs)
        \<and> length out < n \<and> last out = 10 \<and> 10 \<notin> set (butlast out)"
  using format_json_fits [OF assms(2)] parse_line_text [OF assms(1)] assms(2) line_text_single by simp

theorem log_line_parses_witness:
  "case format_json 4097 7 LOG_LEVEL_WARN (Some (ascii ''a'')) (Some [34, 10]) [] of
     None \<Rightarrow> False
   | Some out \<Rightarrow> last out = 10 \<and> 10 \<notin> set (butlast out)
       \<and> parse_entry out = Some ([55], [(ascii ''level'', ascii ''WARN''), (ascii ''component'', ascii ''a''), (ascii ''message'', [34, 10])])"
proof -
  let ?f = "entry_fields LOG_LEVEL_WARN (Some (ascii ''a'')) (Some [34, 10]) []"
  have f: "?f = [(ascii ''level'', ascii ''WARN''), (ascii ''component'', ascii ''a''), (ascii ''message'', [34, 10])]"
    by (simp add: entry_fields_def kv_fields_def or_empty_def)
  have "fields_printable ?f" unfolding f by (simp add: fields_printable_def ascii_def)
  moreover have "length (line_text 7 ?f) + 4 < 4097"
    unfolding f by (simp add: line_text_def field_text_def ascii_def escape_char_def dec_digits.simps)
  ultimately show ?thesis
    using log_line_parses [of LOG_LEVEL_WARN "Some (ascii ''a'')" "Some [34, 10]" "[]" 7 4097]
    by (auto simp: f dec_digits.simps split: option.splits)
qed

text \<open>
  When the text does not fit, the entry may lose the ends of its strings, but it still is one line of the same form: what
  is written is the line of fields whose keys and values are prefixes of those passed.
\<close>

lemma formatted_line_shape:
  assumes "format_json n now_ms level component message kvs = Some out"
  shows "\<exists>fs. out = line_text now_ms fs \<and> list_all2 cut_field (entry_fields level component message kvs) fs
    \<and> length out < n \<and> last out = 10 \<and> 10 \<notin> set (butlast out)"
  using format_json_line [OF assms] line_text_single by blast

text \<open>
  A message that does not fit is not refused: for a long message without characters to escape
  \<^verbatim>\<open>format_json\<close> succeeds with a line of \<open>n - 1\<close> bytes in which the message has lost its end.
\<close>

lemma oversized_message_truncated:
  assumes "\<forall>c \<in> set msg. escape_char c = [c]" and "n \<le> length msg"
    and "length (line_text now_ms [(ascii ''level'', log_level_str level), (ascii ''component'', or_empty component)]) + 14 \<le> n"
  shows "case format_json n now_ms level component (Some msg) [] of
     None \<Rightarrow> False
   | Some out \<Rightarrow> length out = n - 1 \<and> (\<exists>m. length m < length msg \<and> out = line_text now_ms
       [(ascii ''level'', log_level_str level), (ascii ''component'', or_empty component), (ascii ''message'', m)])"
proof -
  let ?ps = "[Raw (ascii ''{\"timestamp\":''), Raw (dec_digits (unat now_ms)), Raw (ascii '',\"level\":''), Str (log_level_str level),
      Raw (ascii '',\"component\":''), Str (or_empty component), Raw (ascii '',\"message\":'')]"
  define P where "P = concat (map render ?ps)"
  have "ascii ''{\"timestamp\":'' @ dec_digits (unat now_ms) @ field_text (ascii ''level'', log_level_str level)
      @ field_text (ascii ''component'', or_empty component) @ ascii '',\"message\":'' = P"
    unfolding fixed_key_text [symmetric] P_def by simp
  note P = this [symmetric]
  have len: "length P + 5 \<le> n" using assms(3) by (simp add: P line_text_def) (simp add: ascii_def)
  have first: "emit_all n ?ps [] = Some P" using emit_all_fits [of "[]" ?ps n] len by (simp add: P_def)
  let ?m = "take (n - length P - 5) msg"
  have "escape_loop (n - length P) [34] msg = [34] @ take (n - length P - 4 - length [34 :: u8]) msg"
    using assms(1,2) len by (intro escape_loop_plain) simp_all
  then have "escape_loop (n - length P) [34] msg = 34 # ?m" by (simp add: add.commute)
  then have esc: "json_escape (n - length P) msg = 34 # ?m @ [34]" using assms(2) len by (simp add: json_escape_def Let_def)
  have lm: "length ?m = n - length P - 5" using assms(2) by simp
  have second: "emit n (Str msg) P = Some (P @ 34 # ?m @ [34])" using esc lm len by simp
  have third: "emit n (Raw (ascii ''}'' @ [10])) (P @ 34 # ?m @ [34]) = Some (P @ 34 # ?m @ [34] @ ascii ''}'' @ [10])"
    using lm len by (simp add: ascii_def)
  have tail: "emit_all n [Str msg, Raw (ascii ''}'' @ [10])] P = Some (P @ 34 # ?m @ [34] @ ascii ''}'' @ [10])"
    unfolding emit_all_Cons second Option.bind.simps third by (simp add: emit_all_def)
  have "entry_pieces now_ms level component (Some msg) [] = ?ps @ [Str msg, Raw (ascii ''}'' @ [10])]"
    by (simp add: entry_pieces_def or_empty_def)
  then have out: "format_json n now_ms level component (Some msg) [] = Some (P @ 34 # ?m @ [34] @ ascii ''}'' @ [10])"
    unfolding format_json_def by (simp only: emit_all_append first Option.bind.simps tail)
  have "escaped ?m = ?m" using assms(1) by (intro escaped_plain) (auto dest: in_set_takeD)
  then have "ascii '',\"message\":'' @ 34 # ?m @ [34] = field_text (ascii ''message'', ?m)" using fixed_key_text(3) [of ?m] by simp
  then have "P @ 34 # ?m @ [34] @ ascii ''}'' @ [10]
      = line_text now_ms [(ascii ''level'', log_level_str level), (ascii ''component'', or_empty component), (ascii ''message'', ?m)]"
    by (simp add: P line_text_def)
  moreover have "length (P @ 34 # ?m @ [34] @ ascii ''}'' @ [10]) = n - 1" using lm len by (simp add: ascii_def)
  moreover have "length ?m < length msg" using lm assms(2) len by linarith
  ultimately show ?thesis unfolding out option.case by (intro conjI exI [of _ ?m]) simp_all
qed

lemma oversized_message_truncated_witness:
  "case format_json 4097 7 LOG_LEVEL_INFO None (Some (replicate 5000 97)) [] of None \<Rightarrow> False | Some out \<Rightarrow> length out = 4096"
  using oversized_message_truncated [of "replicate 5000 97" 4097 7 LOG_LEVEL_INFO None]
  by (auto simp: escape_char_def line_text_def field_text_def ascii_def or_empty_def dec_digits.simps split: option.splits)

end
