(* ===== verification/LogRing.thy ===== *)
theory LogRing
  imports LogFormat
begin

text \<open>
  The asynchronous logger of \<^verbatim>\<open>libs/distric_obs/src/logging.c\<close>: a ring of slots that many producers fill and
  one flush thread drains without locks. Every access to an atomic variable is one step of a producer
  or of the flush thread; the operations of the logger run a producer to its end, and the system at
  the end interleaves any number of producers with the flush thread. \<^verbatim>\<open>head\<close> and \<^verbatim>\<open>tail\<close> count from the
  start; the code holds them modulo \<open>2 ^ 64\<close>, so the differences it computes are taken modulo \<open>2 ^ 64\<close>
  here, and the slot index is the remainder by the capacity, a power of two.
\<close>

section \<open>Data\<close>

definition LOG_RING_BUFFER_DEFAULT_CAPACITY :: u64 where "LOG_RING_BUFFER_DEFAULT_CAPACITY = 8192"
definition LOG_MAX_ENTRY_BYTES_DEFAULT :: nat where "LOG_MAX_ENTRY_BYTES_DEFAULT = 4096"
definition SLOT_CLAIM_MAX_SPIN :: nat where "SLOT_CLAIM_MAX_SPIN = 64"
definition LOG_EXPORTER_STALE_NS :: u64 where "LOG_EXPORTER_STALE_NS = 30 * 1000000000"
definition DISTRIC_MAX_RING_BUFFER :: u64 where "DISTRIC_MAX_RING_BUFFER = 32768"
definition DISTRIC_MAX_SPAN_TAGS :: nat where "DISTRIC_MAX_SPAN_TAGS = 16"

datatype slot_state = SLOT_EMPTY | SLOT_FILLED | SLOT_DROPPED

record log_slot =
  ls_state :: slot_state
  ls_data :: bytes

record log_ring_buffer =
  rb_head :: nat
  rb_capacity :: nat
  rb_slots :: "log_slot list"
  rb_tail :: nat

datatype log_mode = LOG_MODE_SYNC | LOG_MODE_ASYNC

record logger =
  lg_fd :: int
  lg_mode :: log_mode
  lg_max_entry_bytes :: nat
  lg_ring :: log_ring_buffer
  lg_flush_thread_started :: bool
  lg_shutdown :: bool
  lg_last_flush_ns :: u64
  lg_refcount :: u32
  lg_total_drops :: u64
  lg_oversized_drops :: u64

record logging_config =
  lc_fd :: int
  lc_mode :: log_mode
  lc_ring_buffer_capacity :: u64
  lc_max_entry_bytes :: nat

section \<open>Slots\<close>

definition slot_at :: "log_ring_buffer \<Rightarrow> nat \<Rightarrow> log_slot" where
  "slot_at rb idx = rb_slots rb ! (idx mod rb_capacity rb)"

definition with_slot :: "nat \<Rightarrow> (log_slot \<Rightarrow> log_slot) \<Rightarrow> logger \<Rightarrow> logger" where
  "with_slot idx f lg =
     (let rb = lg_ring lg; i = idx mod rb_capacity rb
      in lg\<lparr>lg_ring := rb\<lparr>rb_slots := (rb_slots rb)[i := f (rb_slots rb ! i)]\<rparr>\<rparr>)"

definition beyond :: "log_ring_buffer \<Rightarrow> nat \<Rightarrow> bool" where
  "beyond rb i \<longleftrightarrow> (int i - int (rb_tail rb)) mod 2 ^ 64 \<ge> int (rb_capacity rb)"

definition count_drop :: "logger \<Rightarrow> logger" where
  "count_drop lg = lg\<lparr>lg_total_drops := lg_total_drops lg + 1\<rparr>"

section \<open>Producers\<close>

text \<open>Where a producer is in \<^verbatim>\<open>ring_write\<close>: before the load of \<^verbatim>\<open>head\<close>, and after each of its atomic accesses.\<close>

datatype producer = P_Done distric_err | P_Start bytes | P_Loaded bytes nat | P_Checked bytes | P_Claimed bytes nat
  | P_Lost nat | P_Spin bytes nat nat | P_Own bytes nat | P_Copied bytes nat

definition stored :: "bytes \<Rightarrow> bytes" where
  "stored data = (if length data < LOG_MAX_ENTRY_BYTES_DEFAULT then data else take (LOG_MAX_ENTRY_BYTES_DEFAULT - 1) data)"

fun producer_step :: "logger \<Rightarrow> producer \<Rightarrow> logger \<times> producer" where
  "producer_step lg (P_Done err) = (lg, P_Done err)"
| "producer_step lg (P_Start data) = (lg, P_Loaded data (rb_head (lg_ring lg)))"
| "producer_step lg (P_Loaded data head_snap) =
     (if beyond (lg_ring lg) head_snap then (count_drop lg, P_Done DISTRIC_ERR_BUFFER_OVERFLOW) else (lg, P_Checked data))"
| "producer_step lg (P_Checked data) =
     (lg\<lparr>lg_ring := (lg_ring lg)\<lparr>rb_head := rb_head (lg_ring lg) + 1\<rparr>\<rparr>, P_Claimed data (rb_head (lg_ring lg)))"
| "producer_step lg (P_Claimed data idx) = (lg, if beyond (lg_ring lg) idx then P_Lost idx else P_Spin data idx 0)"
| "producer_step lg (P_Lost idx) =
     (count_drop (with_slot idx (\<lambda>s. s\<lparr>ls_state := SLOT_DROPPED\<rparr>) lg), P_Done DISTRIC_ERR_BUFFER_OVERFLOW)"
| "producer_step lg (P_Spin data idx spin) =
     (if ls_state (slot_at (lg_ring lg) idx) = SLOT_EMPTY then (lg, P_Own data idx)
      else if spin \<ge> SLOT_CLAIM_MAX_SPIN then (count_drop lg, P_Done DISTRIC_ERR_BUFFER_OVERFLOW)
      else (lg, P_Spin data idx (spin + 1)))"
| "producer_step lg (P_Own data idx) = (with_slot idx (\<lambda>s. s\<lparr>ls_data := stored data\<rparr>) lg, P_Copied data idx)"
| "producer_step lg (P_Copied data idx) = (with_slot idx (\<lambda>s. s\<lparr>ls_state := SLOT_FILLED\<rparr>) lg, P_Done DISTRIC_OK)"

text \<open>Steps a producer has left at most: the write ends whatever the other threads do.\<close>

fun steps_left :: "producer \<Rightarrow> nat" where
  "steps_left (P_Done err) = 0"
| "steps_left (P_Start data) = 74"
| "steps_left (P_Loaded data h) = 73"
| "steps_left (P_Checked data) = 72"
| "steps_left (P_Claimed data idx) = 71"
| "steps_left (P_Lost idx) = 1"
| "steps_left (P_Spin data idx spin) = 3 + (65 - spin)"
| "steps_left (P_Own data idx) = 2"
| "steps_left (P_Copied data idx) = 1"

fun returned :: "producer \<Rightarrow> distric_err option" where
  "returned (P_Done err) = Some err"
| "returned p = None"

lemma producer_step_bound: "returned p = None \<Longrightarrow> steps_left (snd (producer_step lg p)) < steps_left p"
  by (cases p) (auto simp: SLOT_CLAIM_MAX_SPIN_def)

text \<open>\<^verbatim>\<open>ring_write\<close> without interference.\<close>

function run_producer :: "logger \<Rightarrow> producer \<Rightarrow> distric_err \<times> logger" where
  "run_producer lg p =
     (case returned p of
        Some err \<Rightarrow> (err, lg)
      | None \<Rightarrow> run_producer (fst (producer_step lg p)) (snd (producer_step lg p)))"
  by pat_completeness auto
termination by (relation "measure (\<lambda>(lg, p). steps_left p)") (simp_all add: producer_step_bound case_prod_beta)

declare run_producer.simps [simp del]

definition ring_write :: "logger \<Rightarrow> bytes \<Rightarrow> distric_err \<times> logger" where
  "ring_write lg data = run_producer lg (P_Start data)"

section \<open>The flush thread\<close>

text \<open>\<^verbatim>\<open>write\<close> in a loop: \<open>n\<close> bytes accepted, or an error; the part that reached the file.\<close>

fun write_loop :: "nat list \<Rightarrow> bytes \<Rightarrow> bytes" where
  "write_loop ns [] = []"
| "write_loop [] data = []"
| "write_loop (n # ns) data = (if n = 0 then [] else take n data @ write_loop ns (drop n data))"

datatype consumer = C_Top | C_Head bool | C_Spin nat | C_Poll nat | C_Write | C_Clear | C_Advance | C_Exit

text \<open>The entry handed to \<^verbatim>\<open>write\<close>, if this step writes one, comes third.\<close>

fun consumer_step :: "u64 \<Rightarrow> logger \<Rightarrow> consumer \<Rightarrow> logger \<times> consumer \<times> bytes option" where
  "consumer_step now lg C_Top = (lg, C_Head (lg_shutdown lg), None)"
| "consumer_step now lg (C_Head shutting_down) =
     (lg, if (int (rb_head (lg_ring lg)) - int (rb_tail (lg_ring lg))) mod 2 ^ 64 = 0
          then (if shutting_down then C_Exit else C_Top) else C_Spin 0, None)"
| "consumer_step now lg (C_Spin spin) =
     (lg, (case ls_state (slot_at (lg_ring lg) (rb_tail (lg_ring lg))) of
             SLOT_FILLED \<Rightarrow> C_Write | SLOT_DROPPED \<Rightarrow> C_Clear | SLOT_EMPTY \<Rightarrow> C_Poll spin), None)"
| "consumer_step now lg (C_Poll spin) = (lg, if lg_shutdown lg \<and> spin > 1024 then C_Clear else C_Spin (spin + 1), None)"
| "consumer_step now lg C_Write =
     (lg\<lparr>lg_last_flush_ns := now\<rparr>, C_Clear, Some (ls_data (slot_at (lg_ring lg) (rb_tail (lg_ring lg)))))"
| "consumer_step now lg C_Clear = (with_slot (rb_tail (lg_ring lg)) (\<lambda>s. s\<lparr>ls_state := SLOT_EMPTY\<rparr>) lg, C_Advance, None)"
| "consumer_step now lg C_Advance = (lg\<lparr>lg_ring := (lg_ring lg)\<lparr>rb_tail := rb_tail (lg_ring lg) + 1\<rparr>\<rparr>, C_Top, None)"
| "consumer_step now lg C_Exit = (lg, C_Exit, None)"

section \<open>Operations of the logger\<close>

definition sync_write :: "nat list \<Rightarrow> bytes \<Rightarrow> distric_err \<times> bytes" where
  "sync_write ns data = (DISTRIC_OK, write_loop ns data)"

text \<open>Result, logger, and what a synchronous logger wrote.\<close>

definition format_and_dispatch ::
  "u64 \<Rightarrow> nat list \<Rightarrow> logger \<Rightarrow> log_level \<Rightarrow> cstr option \<Rightarrow> cstr option \<Rightarrow> log_kv list \<Rightarrow> distric_err \<times> logger \<times> bytes" where
  "format_and_dispatch now_ms ns lg level component message kv_pairs =
     (case format_json (LOG_MAX_ENTRY_BYTES_DEFAULT + 1) now_ms level component message kv_pairs of
        None \<Rightarrow> (DISTRIC_ERR_BUFFER_OVERFLOW, lg\<lparr>lg_oversized_drops := lg_oversized_drops lg + 1\<rparr>, [])
      | Some buf \<Rightarrow>
          if length buf > lg_max_entry_bytes lg
          then (DISTRIC_ERR_BUFFER_OVERFLOW, lg\<lparr>lg_oversized_drops := lg_oversized_drops lg + 1\<rparr>, [])
          else if lg_mode lg = LOG_MODE_ASYNC
          then (case ring_write lg buf of (err, lg) \<Rightarrow> (err, lg, []))
          else (case sync_write ns buf of (err, out) \<Rightarrow> (err, lg, out)))"

text \<open>The loop \<^verbatim>\<open>while (p2 < cap) p2 <<= 1\<close> does not end for capacities above \<open>2 ^ 63\<close>.\<close>

partial_function (option) power_of_two :: "u64 \<Rightarrow> u64 \<Rightarrow> u64 option" where
  "power_of_two cap p2 = (if p2 < cap then power_of_two cap (push_bit 1 p2) else Some p2)"

definition ring_capacity :: "u64 \<Rightarrow> u64 \<Rightarrow> u64 \<Rightarrow> u64 option" where
  "ring_capacity requested dflt limit =
     map_option (\<lambda>p2. if p2 > limit then limit else p2) (power_of_two (if requested \<noteq> 0 then requested else dflt) 1)"

definition empty_ring :: "nat \<Rightarrow> log_ring_buffer" where
  "empty_ring cap = \<lparr>rb_head = 0, rb_capacity = cap, rb_slots = replicate cap \<lparr>ls_state = SLOT_EMPTY, ls_data = []\<rparr>, rb_tail = 0\<rparr>"

definition log_init_with_config :: "logging_config \<Rightarrow> logger result option" where
  "log_init_with_config config =
     (if lc_fd config < 0 then Some (Inl DISTRIC_ERR_INVALID_ARG)
      else
        let limit = (if lc_max_entry_bytes config \<noteq> 0 then lc_max_entry_bytes config else LOG_MAX_ENTRY_BYTES_DEFAULT);
            limit = (if limit > LOG_MAX_ENTRY_BYTES_DEFAULT then LOG_MAX_ENTRY_BYTES_DEFAULT else limit);
            lg = \<lparr>lg_fd = lc_fd config, lg_mode = lc_mode config, lg_max_entry_bytes = limit, lg_ring = empty_ring 0,
              lg_flush_thread_started = False, lg_shutdown = False, lg_last_flush_ns = 0, lg_refcount = 1,
              lg_total_drops = 0, lg_oversized_drops = 0\<rparr>
        in if lc_mode config = LOG_MODE_ASYNC
           then map_option (\<lambda>cap. Inr (lg\<lparr>lg_ring := empty_ring (unat cap), lg_flush_thread_started := True\<rparr>))
             (ring_capacity (lc_ring_buffer_capacity config) LOG_RING_BUFFER_DEFAULT_CAPACITY DISTRIC_MAX_RING_BUFFER)
           else Some (Inr lg))"

definition log_init :: "int \<Rightarrow> log_mode \<Rightarrow> logger result option" where
  "log_init fd mode = log_init_with_config \<lparr>lc_fd = fd, lc_mode = mode, lc_ring_buffer_capacity = 0, lc_max_entry_bytes = 0\<rparr>"

definition log_retain :: "logger \<Rightarrow> logger" where
  "log_retain lg = lg\<lparr>lg_refcount := lg_refcount lg + 1\<rparr>"

text \<open>The first part of \<^verbatim>\<open>log_destroy\<close>; the memory is freed once the flush thread has ended.\<close>

definition log_shutdown :: "logger \<Rightarrow> logger" where
  "log_shutdown lg = (if lg_mode lg = LOG_MODE_ASYNC \<and> lg_flush_thread_started lg then lg\<lparr>lg_shutdown := True\<rparr> else lg)"

text \<open>Whether the last reference is gone, and the logger.\<close>

definition log_release :: "logger \<Rightarrow> bool \<times> logger" where
  "log_release lg = (let lg' = lg\<lparr>lg_refcount := lg_refcount lg - 1\<rparr>
     in if lg_refcount lg = 1 then (True, log_shutdown lg') else (False, lg'))"

definition log_is_exporter_healthy :: "u64 \<Rightarrow> logger \<Rightarrow> bool" where
  "log_is_exporter_healthy now lg =
     (if lg_mode lg \<noteq> LOG_MODE_ASYNC then True
      else if \<not> lg_flush_thread_started lg then False
      else if lg_last_flush_ns lg = 0 then True
      else now - lg_last_flush_ns lg < LOG_EXPORTER_STALE_NS)"

definition log_get_total_drops :: "logger \<Rightarrow> u64" where
  "log_get_total_drops lg = lg_total_drops lg"

definition log_get_oversized_drops :: "logger \<Rightarrow> u64" where
  "log_get_oversized_drops lg = lg_oversized_drops lg"

definition log_write_kv ::
  "u64 \<Rightarrow> nat list \<Rightarrow> logger \<Rightarrow> log_level \<Rightarrow> cstr option \<Rightarrow> cstr option \<Rightarrow> log_kv list \<Rightarrow> distric_err \<times> logger \<times> bytes" where
  "log_write_kv now_ms ns lg level component message kv_pairs =
     (if lg_shutdown lg then (DISTRIC_ERR_SHUTDOWN, lg, [])
      else format_and_dispatch now_ms ns lg level component message kv_pairs)"

text \<open>The variadic arguments as a list; a null key ends it, at most sixteen pairs are taken.\<close>

definition log_write ::
  "u64 \<Rightarrow> nat list \<Rightarrow> logger \<Rightarrow> log_level \<Rightarrow> cstr option \<Rightarrow> cstr option \<Rightarrow> log_kv list \<Rightarrow> distric_err \<times> logger \<times> bytes" where
  "log_write now_ms ns lg level component message args =
     (if lg_shutdown lg then (DISTRIC_ERR_SHUTDOWN, lg, [])
      else format_and_dispatch now_ms ns lg level component message
        (map (\<lambda>kv. kv\<lparr>kv_value := Some (or_empty (kv_value kv))\<rparr>)
          (take DISTRIC_MAX_SPAN_TAGS (takeWhile (\<lambda>kv. kv_key kv \<noteq> None) args))))"

section \<open>Threads together\<close>

text \<open>
  A logger with its threads. \<open>sy_log\<close> maps the position of every entry that was published to the entry,
  \<open>sy_written\<close> are the entries handed to \<^verbatim>\<open>write\<close>, and \<open>sy_overclaims\<close> counts the producers that found the
  ring full only after they had claimed a position.
\<close>

record log_system =
  sy_logger :: logger
  sy_producers :: "producer list"
  sy_consumer :: consumer
  sy_log :: "nat \<rightharpoonup> bytes"
  sy_written :: "bytes list"
  sy_overclaims :: nat

datatype log_event = Call nat bytes | Produce nat | Consume u64 | Shut

definition produce :: "nat \<Rightarrow> log_system \<Rightarrow> log_system" where
  "produce i sy =
     (let p = sy_producers sy ! i; (lg, p') = producer_step (sy_logger sy) p
      in sy\<lparr>sy_logger := lg, sy_producers := (sy_producers sy)[i := p'],
           sy_log := (case p of P_Copied data idx \<Rightarrow> (sy_log sy)(idx \<mapsto> data) | _ \<Rightarrow> sy_log sy),
           sy_overclaims := sy_overclaims sy + (case p' of P_Lost idx \<Rightarrow> 1 | _ \<Rightarrow> 0)\<rparr>)"

fun log_event_step :: "log_event \<Rightarrow> log_system \<Rightarrow> log_system" where
  "log_event_step (Call i data) sy =
     (if i < length (sy_producers sy) \<and> returned (sy_producers sy ! i) \<noteq> None \<and> \<not> lg_shutdown (sy_logger sy)
      then sy\<lparr>sy_producers := (sy_producers sy)[i := P_Start data]\<rparr> else sy)"
| "log_event_step (Produce i) sy = (if i < length (sy_producers sy) then produce i sy else sy)"
| "log_event_step (Consume now) sy =
     (case consumer_step now (sy_logger sy) (sy_consumer sy) of
        (lg, con, out) \<Rightarrow> sy\<lparr>sy_logger := lg, sy_consumer := con,
          sy_written := sy_written sy @ (case out of None \<Rightarrow> [] | Some data \<Rightarrow> [data])\<rparr>)"
| "log_event_step Shut sy = sy\<lparr>sy_logger := log_shutdown (sy_logger sy)\<rparr>"

definition log_run :: "log_event list \<Rightarrow> log_system \<Rightarrow> log_system" where
  "log_run evs sy = foldl (\<lambda>sy ev. log_event_step ev sy) sy evs"

definition log_start :: "logger \<Rightarrow> nat \<Rightarrow> log_system" where
  "log_start lg n = \<lparr>sy_logger = lg, sy_producers = replicate n (P_Done DISTRIC_OK), sy_consumer = C_Top, sy_log = Map.empty,
     sy_written = [], sy_overclaims = 0\<rparr>"

section \<open>The invariant without over-claims\<close>

fun claim_of :: "producer \<Rightarrow> (nat \<times> bytes) option" where
  "claim_of (P_Claimed data q) = Some (q, data)"
| "claim_of (P_Spin data q spin) = Some (q, data)"
| "claim_of (P_Own data q) = Some (q, data)"
| "claim_of (P_Copied data q) = Some (q, data)"
| "claim_of p = None"

text \<open>The slots of the window \<open>T ..< T + C\<close>: full exactly at the published positions.\<close>

definition window_ok :: "nat \<Rightarrow> log_slot list \<Rightarrow> nat \<Rightarrow> consumer \<Rightarrow> (nat \<rightharpoonup> bytes) \<Rightarrow> bool" where
  "window_ok C slots T con log \<longleftrightarrow> 0 < C \<and> length slots = C \<and>
     (\<forall>q. T \<le> q \<and> q < T + C \<longrightarrow>
        ls_state (slots ! (q mod C)) = (if log q \<noteq> None \<and> \<not> (con = C_Advance \<and> q = T) then SLOT_FILLED else SLOT_EMPTY)
        \<and> (\<forall>d. log q = Some d \<longrightarrow> ls_data (slots ! (q mod C)) = stored d))"

text \<open>Every position below \<open>H\<close> is published or claimed by exactly one producer.\<close>

definition claims_ok :: "nat \<Rightarrow> nat \<Rightarrow> nat \<Rightarrow> (nat \<times> bytes) option list \<Rightarrow> (nat \<rightharpoonup> bytes) \<Rightarrow> bool" where
  "claims_ok C H T cl log \<longleftrightarrow> T \<le> H
     \<and> (\<forall>q. log q \<noteq> None \<longrightarrow> q < H \<and> q < T + C)
     \<and> (\<forall>i < length cl. \<forall>q d. cl ! i = Some (q, d) \<longrightarrow> T \<le> q \<and> q < H \<and> log q = None)
     \<and> (\<forall>i < length cl. \<forall>j < length cl. \<forall>q d d'. cl ! i = Some (q, d) \<and> cl ! j = Some (q, d') \<longrightarrow> i = j)
     \<and> (\<forall>q < H. log q = None \<longrightarrow> (\<exists>i < length cl. \<exists>d. cl ! i = Some (q, d)))"

fun prod_ok :: "nat \<Rightarrow> log_slot list \<Rightarrow> nat \<Rightarrow> producer \<Rightarrow> bool" where
  "prod_ok C slots T (P_Lost q) \<longleftrightarrow> False"
| "prod_ok C slots T (P_Spin data q spin) \<longleftrightarrow> q < T + C"
| "prod_ok C slots T (P_Own data q) \<longleftrightarrow> q < T + C"
| "prod_ok C slots T (P_Copied data q) \<longleftrightarrow> q < T + C \<and> ls_data (slots ! (q mod C)) = stored data"
| "prod_ok C slots T p \<longleftrightarrow> True"

definition entries_below :: "(nat \<rightharpoonup> bytes) \<Rightarrow> nat \<Rightarrow> bytes list" where
  "entries_below log n = map (\<lambda>q. stored (the (log q))) [0..<n]"

fun consumer_ok :: "nat \<Rightarrow> nat \<Rightarrow> consumer \<Rightarrow> (nat \<rightharpoonup> bytes) \<Rightarrow> bytes list \<Rightarrow> bool" where
  "consumer_ok H T C_Top log wr \<longleftrightarrow> wr = entries_below log T"
| "consumer_ok H T (C_Head sd) log wr \<longleftrightarrow> \<not> sd \<and> wr = entries_below log T"
| "consumer_ok H T (C_Spin spin) log wr \<longleftrightarrow> T < H \<and> wr = entries_below log T"
| "consumer_ok H T (C_Poll spin) log wr \<longleftrightarrow> T < H \<and> wr = entries_below log T"
| "consumer_ok H T C_Write log wr \<longleftrightarrow> T < H \<and> log T \<noteq> None \<and> wr = entries_below log T"
| "consumer_ok H T C_Clear log wr \<longleftrightarrow> T < H \<and> log T \<noteq> None \<and> wr = entries_below log (Suc T)"
| "consumer_ok H T C_Advance log wr \<longleftrightarrow> T < H \<and> log T \<noteq> None \<and> wr = entries_below log (Suc T)"
| "consumer_ok H T C_Exit log wr \<longleftrightarrow> False"

lemma window_unique:
  assumes "T \<le> q" "q < T + C" "T \<le> q'" "q' < T + C" "q mod C = q' mod (C :: nat)"
  shows "q = q'"
proof (rule ccontr)
  assume "q \<noteq> q'"
  then consider "q < q'" | "q' < q" by linarith
  then show False
  proof cases
    case 1
    have "C dvd q' - q" using assms(5) 1 by (metis less_imp_le mod_eq_dvd_iff_nat)
    then show False using 1 assms by (auto dest: dvd_imp_le)
  next
    case 2
    have "C dvd q - q'" using assms(5) 2 by (metis less_imp_le mod_eq_dvd_iff_nat)
    then show False using 2 assms by (auto dest: dvd_imp_le)
  qed
qed

lemma claims_same: "i < length ps \<Longrightarrow> claim_of p = claim_of (ps ! i) \<Longrightarrow> map claim_of (ps[i := p]) = map claim_of ps"
  by (simp add: map_update list_update_same_conv)

lemma claims_okI:
  assumes "T \<le> H" and "\<And>q d. log q = Some d \<Longrightarrow> q < H \<and> q < T + C"
    and "\<And>i q d. i < length cl \<Longrightarrow> cl ! i = Some (q, d) \<Longrightarrow> T \<le> q \<and> q < H \<and> log q = None"
    and "\<And>i j q d d'. i < length cl \<Longrightarrow> j < length cl \<Longrightarrow> cl ! i = Some (q, d) \<Longrightarrow> cl ! j = Some (q, d') \<Longrightarrow> i = j"
    and "\<And>q. q < H \<Longrightarrow> log q = None \<Longrightarrow> \<exists>i < length cl. \<exists>d. cl ! i = Some (q, d)"
  shows "claims_ok C H T cl log"
  unfolding claims_ok_def using assms by blast

lemma claims_okD:
  assumes "claims_ok C H T cl log"
  shows "T \<le> H" and "log q = Some d \<Longrightarrow> q < H \<and> q < T + C"
    and "i < length cl \<Longrightarrow> cl ! i = Some (q, d) \<Longrightarrow> T \<le> q \<and> q < H \<and> log q = None"
    and "i < length cl \<Longrightarrow> j < length cl \<Longrightarrow> cl ! i = Some (q, d) \<Longrightarrow> cl ! j = Some (q, d') \<Longrightarrow> i = j"
    and "q < H \<Longrightarrow> log q = None \<Longrightarrow> \<exists>i < length cl. \<exists>d. cl ! i = Some (q, d)"
  using assms unfolding claims_ok_def by blast+

lemma claims_take:
  assumes "claims_ok C H T cl log" and "i < length cl" and "cl ! i = None"
  shows "claims_ok C (Suc H) T (cl[i := Some (H, d)]) log"
proof (rule claims_okI)
  note c = claims_okD [OF assms(1)]
  have new: "log H = None" using c(2) [of H] by (cases "log H") auto
  have prior: "(j = i \<and> q = H) \<or> (j \<noteq> i \<and> cl ! j = Some (q, e))" if "j < length cl" "cl[i := Some (H, d)] ! j = Some (q, e)" for j q e
    using that by (cases "j = i") simp_all
  show "T \<le> Suc H" using c(1) by simp
  show "q < Suc H \<and> q < T + C" if "log q = Some e" for q e using c(2) [OF that] by simp
  show "T \<le> q \<and> q < Suc H \<and> log q = None" if "j < length (cl[i := Some (H, d)])" "cl[i := Some (H, d)] ! j = Some (q, e)" for j q e
    using prior [of j q e] that c(1) new c(3) [of j q e] by auto
  show "j = k" if "j < length (cl[i := Some (H, d)])" "k < length (cl[i := Some (H, d)])"
    "cl[i := Some (H, d)] ! j = Some (q, e)" "cl[i := Some (H, d)] ! k = Some (q, e')" for j k q e e'
    using prior [of j q e] prior [of k q e'] that c(3) [of j q e] c(3) [of k q e'] c(4) [of j k q e e'] by auto
  show "\<exists>j < length (cl[i := Some (H, d)]). \<exists>e. cl[i := Some (H, d)] ! j = Some (q, e)" if h: "q < Suc H" "log q = None" for q
  proof (cases "q = H")
    case True
    then show ?thesis using assms(2) by (intro exI [of _ i]) simp
  next
    case False
    then obtain j e where "j < length cl" "cl ! j = Some (q, e)" using c(5) [of q] h by auto
    moreover have "j \<noteq> i" using calculation assms(3) by auto
    ultimately show ?thesis by (intro exI [of _ j]) simp
  qed
qed

lemma claims_publish:
  assumes "claims_ok C H T cl log" and "i < length cl" and "cl ! i = Some (q, d)" and "q < T + C"
  shows "claims_ok C H T (cl[i := None]) (log(q \<mapsto> d))"
proof (rule claims_okI)
  note c = claims_okD [OF assms(1)]
  have q: "T \<le> q" "q < H" using c(3) [OF assms(2,3)] by simp_all
  have prior: "j \<noteq> i \<and> cl ! j = Some (q', e) \<and> q' \<noteq> q" if "j < length cl" "cl[i := None] ! j = Some (q', e)" for j q' e
    using that c(4) [OF that(1) assms(2) _ assms(3)] by (cases "j = i") auto
  show "T \<le> H" by (rule c(1))
  show "q' < H \<and> q' < T + C" if "(log(q \<mapsto> d)) q' = Some e" for q' e using that c(2) q(2) assms(4) by (auto split: if_splits)
  show "T \<le> q' \<and> q' < H \<and> (log(q \<mapsto> d)) q' = None" if "j < length (cl[i := None])" "cl[i := None] ! j = Some (q', e)" for j q' e
    using prior [of j q' e] that c(3) [of j q' e] by auto
  show "j = k" if "j < length (cl[i := None])" "k < length (cl[i := None])" "cl[i := None] ! j = Some (q', e)" "cl[i := None] ! k = Some (q', e')" for j k q' e e'
    using prior [of j q' e] prior [of k q' e'] that c(4) [of j k q' e e'] by auto
  show "\<exists>j < length (cl[i := None]). \<exists>e. cl[i := None] ! j = Some (q', e)" if h: "q' < H" "(log(q \<mapsto> d)) q' = None" for q'
  proof -
    have n: "q' \<noteq> q" "log q' = None" using h(2) by (auto split: if_splits)
    obtain j e where "j < length cl" "cl ! j = Some (q', e)" using c(5) [OF h(1) n(2)] by auto
    moreover have "j \<noteq> i" using calculation assms(3) n(1) by auto
    ultimately show ?thesis by (intro exI [of _ j]) simp
  qed
qed

lemma claims_advance:
  assumes "claims_ok C H T cl log" and "log T \<noteq> None"
  shows "claims_ok C H (Suc T) cl log"
proof (rule claims_okI)
  note c = claims_okD [OF assms(1)]
  show "Suc T \<le> H" using c(2) [of T] assms(2) by auto
  show "Suc T \<le> q \<and> q < H \<and> log q = None" if "i < length cl" "cl ! i = Some (q, d)" for i q d
    using c(3) [OF that] assms(2) by (metis le_neq_implies_less less_eq_Suc_le)
qed (use claims_okD [OF assms(1)] in \<open>fastforce+\<close>)

text \<open>How far the claims can be ahead, so that the differences of the code are exact.\<close>

lemma claims_bound:
  assumes "claims_ok C H T cl log"
  shows "H \<le> T + C + length cl"
proof -
  note c = claims_okD [OF assms]
  have "{T + C..<H} \<subseteq> (\<lambda>x. fst (the x)) ` set cl"
  proof
    fix q assume "q \<in> {T + C..<H}"
    then have "q < H" "log q = None" using c(2) [of q] by (cases "log q"; fastforce)+
    then obtain i d where "i < length cl" "cl ! i = Some (q, d)" using c(5) by blast
    then show "q \<in> (\<lambda>x. fst (the x)) ` set cl" by (metis fst_conv image_eqI nth_mem option.sel)
  qed
  then have "card {T + C..<H} \<le> card ((\<lambda>x. fst (the x)) ` set cl)" by (intro card_mono) simp_all
  also have "\<dots> \<le> length cl" by (meson card_image_le card_length finite_set order_trans)
  finally show ?thesis by simp
qed

text \<open>The window under each change of a slot.\<close>

lemma window_other:
  assumes "window_ok C slots T con log" and "T \<le> q" "q < T + C" "T \<le> q'" "q' < T + C" "q' \<noteq> q"
  shows "slots[q mod C := x] ! (q' mod C) = slots ! (q' mod C)"
proof -
  have "q mod C \<noteq> q' mod C" using window_unique [OF assms(2-5)] assms(6) by auto
  then show ?thesis by simp
qed

lemma window_at:
  assumes "window_ok C slots T con log"
  shows "slots[q mod C := x] ! (q mod C) = x"
  using assms by (simp add: window_ok_def)

lemma window_data:
  assumes "window_ok C slots T con log" and "T \<le> q" "q < T + C" and "log q = None"
  shows "window_ok C (slots[q mod C := (slots ! (q mod C))\<lparr>ls_data := x\<rparr>]) T con log"
proof -
  let ?s = "slots[q mod C := (slots ! (q mod C))\<lparr>ls_data := x\<rparr>]"
  have "ls_state (?s ! (q' mod C)) = ls_state (slots ! (q' mod C)) \<and> (log q' = Some d \<longrightarrow> ls_data (?s ! (q' mod C)) = ls_data (slots ! (q' mod C)))"
    if "T \<le> q'" "q' < T + C" for q' d
  proof (cases "q' = q")
    case True
    then show ?thesis using window_at [OF assms(1)] assms(4) by simp
  next
    case False
    then show ?thesis using window_other [OF assms(1-3) that] by simp
  qed
  then show ?thesis using assms(1) unfolding window_ok_def by (metis length_list_update)
qed

lemma window_publish:
  assumes "window_ok C slots T con log" and "T \<le> q" "q < T + C" and "log q = None" and "ls_data (slots ! (q mod C)) = stored d"
    and "con = C_Advance \<Longrightarrow> log T \<noteq> None"
  shows "window_ok C (slots[q mod C := (slots ! (q mod C))\<lparr>ls_state := SLOT_FILLED\<rparr>]) T con (log(q \<mapsto> d))"
proof -
  let ?s = "slots[q mod C := (slots ! (q mod C))\<lparr>ls_state := SLOT_FILLED\<rparr>]" and ?log = "log(q \<mapsto> d)"
  have "ls_state (?s ! (q' mod C)) = (if ?log q' \<noteq> None \<and> \<not> (con = C_Advance \<and> q' = T) then SLOT_FILLED else SLOT_EMPTY)
      \<and> (\<forall>e. ?log q' = Some e \<longrightarrow> ls_data (?s ! (q' mod C)) = stored e)"
    if h: "T \<le> q'" "q' < T + C" for q'
  proof (cases "q' = q")
    case True
    moreover have "\<not> (con = C_Advance \<and> q = T)" using assms(4,6) by auto
    ultimately show ?thesis using window_at [OF assms(1)] assms(5) by simp
  next
    case False
    then show ?thesis using window_other [OF assms(1-3) h] assms(1) h unfolding window_ok_def by simp
  qed
  then show ?thesis using assms(1) unfolding window_ok_def by simp
qed

lemma window_clear:
  assumes "window_ok C slots T C_Clear log"
  shows "window_ok C (slots[T mod C := (slots ! (T mod C))\<lparr>ls_state := SLOT_EMPTY\<rparr>]) T C_Advance log"
proof -
  let ?s = "slots[T mod C := (slots ! (T mod C))\<lparr>ls_state := SLOT_EMPTY\<rparr>]"
  have C: "0 < C" using assms by (simp add: window_ok_def)
  have "ls_state (?s ! (q' mod C)) = (if log q' \<noteq> None \<and> q' \<noteq> T then SLOT_FILLED else SLOT_EMPTY)
      \<and> (\<forall>e. log q' = Some e \<longrightarrow> ls_data (?s ! (q' mod C)) = stored e)"
    if h: "T \<le> q'" "q' < T + C" for q'
  proof (cases "q' = T")
    case True
    then show ?thesis using window_at [OF assms] assms h unfolding window_ok_def by simp
  next
    case False
    then show ?thesis using window_other [OF assms _ _ h, of T] C assms h unfolding window_ok_def by simp
  qed
  then show ?thesis using assms unfolding window_ok_def by simp
qed

lemma window_advance:
  assumes "window_ok C slots T C_Advance log" and "log (T + C) = None"
  shows "window_ok C slots (Suc T) C_Top log"
proof -
  have w: "0 < C" "length slots = C" using assms(1) by (simp_all add: window_ok_def)
  have "ls_state (slots ! (q mod C)) = (if log q \<noteq> None then SLOT_FILLED else SLOT_EMPTY)
      \<and> (\<forall>e. log q = Some e \<longrightarrow> ls_data (slots ! (q mod C)) = stored e)"
    if h: "Suc T \<le> q" "q < Suc T + C" for q
  proof (cases "q = T + C")
    case True
    have "ls_state (slots ! (T mod C)) = SLOT_EMPTY" using assms(1) w(1) unfolding window_ok_def by auto
    then show ?thesis using True assms(2) by simp
  next
    case False
    then have "T \<le> q" "q < T + C" "q \<noteq> T" using h by simp_all
    then show ?thesis using assms(1) unfolding window_ok_def by simp
  qed
  then show ?thesis using w unfolding window_ok_def by simp
qed

lemma window_consumer: "window_ok C slots T con log \<Longrightarrow> con \<noteq> C_Advance \<Longrightarrow> con' \<noteq> C_Advance \<Longrightarrow> window_ok C slots T con' log"
  by (simp add: window_ok_def)

lemma prod_ok_slot:
  assumes "window_ok C slots T con log" and "prod_ok C slots T p" and "T \<le> q" "q < T + C"
    and "\<And>q' d. claim_of p = Some (q', d) \<Longrightarrow> T \<le> q' \<and> (q' = q \<longrightarrow> ls_data x = ls_data (slots ! (q mod C)))"
  shows "prod_ok C (slots[q mod C := x]) T p"
proof (cases p)
  case (P_Copied data q')
  then show ?thesis using assms window_at [OF assms(1)] window_other [OF assms(1,3,4), of q'] by (cases "q' = q") auto
qed (use assms(2) in simp_all)

lemma prod_ok_advance: "prod_ok C slots T p \<Longrightarrow> prod_ok C slots (Suc T) p"
  by (cases p) auto

lemma beyond_exact:
  assumes "rb_tail rb \<le> i" and "i < rb_tail rb + 2 ^ 64"
  shows "beyond rb i \<longleftrightarrow> rb_tail rb + rb_capacity rb \<le> i"
proof -
  have "(int i - int (rb_tail rb)) mod 2 ^ 64 = int i - int (rb_tail rb)" using assms by (intro mod_pos_pos_trivial) simp_all
  then show ?thesis using assms(1) by (auto simp: beyond_def)
qed

section \<open>Preservation\<close>

definition ring_inv :: "log_system \<Rightarrow> bool" where
  "ring_inv sy \<longleftrightarrow> (let rb = lg_ring (sy_logger sy); C = rb_capacity rb; T = rb_tail rb in
     window_ok C (rb_slots rb) T (sy_consumer sy) (sy_log sy)
     \<and> claims_ok C (rb_head rb) T (map claim_of (sy_producers sy)) (sy_log sy)
     \<and> (\<forall>p \<in> set (sy_producers sy). prod_ok C (rb_slots rb) T p)
     \<and> consumer_ok (rb_head rb) T (sy_consumer sy) (sy_log sy) (sy_written sy)
     \<and> C + length (sy_producers sy) < 2 ^ 64 \<and> \<not> lg_shutdown (sy_logger sy))"

lemma ring_invD:
  assumes "ring_inv sy"
  defines "rb \<equiv> lg_ring (sy_logger sy)"
  shows "window_ok (rb_capacity rb) (rb_slots rb) (rb_tail rb) (sy_consumer sy) (sy_log sy)"
    and "claims_ok (rb_capacity rb) (rb_head rb) (rb_tail rb) (map claim_of (sy_producers sy)) (sy_log sy)"
    and "p \<in> set (sy_producers sy) \<Longrightarrow> prod_ok (rb_capacity rb) (rb_slots rb) (rb_tail rb) p"
    and "consumer_ok (rb_head rb) (rb_tail rb) (sy_consumer sy) (sy_log sy) (sy_written sy)"
    and "rb_capacity rb + length (sy_producers sy) < 2 ^ 64" and "\<not> lg_shutdown (sy_logger sy)"
  using assms by (simp_all add: ring_inv_def Let_def)

text \<open>A producer step that changes neither the ring nor the claim.\<close>

lemma ring_inv_local:
  assumes "ring_inv sy" and "i < length (sy_producers sy)" and "lg_ring lg = lg_ring (sy_logger sy)"
    and "lg_shutdown lg = lg_shutdown (sy_logger sy)" and "claim_of p' = claim_of (sy_producers sy ! i)"
    and "prod_ok (rb_capacity (lg_ring lg)) (rb_slots (lg_ring lg)) (rb_tail (lg_ring lg)) p'"
  shows "ring_inv (sy\<lparr>sy_logger := lg, sy_producers := (sy_producers sy)[i := p'], sy_log := sy_log sy, sy_overclaims := k\<rparr>)"
proof -
  have "prod_ok (rb_capacity (lg_ring lg)) (rb_slots (lg_ring lg)) (rb_tail (lg_ring lg)) p"
    if "p \<in> set ((sy_producers sy)[i := p'])" for p
    using that assms(3,6) ring_invD(3) [OF assms(1), of p] set_update_subset_insert [of "sy_producers sy" i p'] by auto
  then show ?thesis using assms claims_same [OF assms(2,5)] by (simp add: ring_inv_def Let_def)
qed

lemma with_slot_ring:
  "lg_ring (with_slot q f lg) = (lg_ring lg)\<lparr>rb_slots := (rb_slots (lg_ring lg))[q mod rb_capacity (lg_ring lg) := f (slot_at (lg_ring lg) q)]\<rparr>"
  "lg_shutdown (with_slot q f lg) = lg_shutdown lg"
  by (simp_all add: with_slot_def slot_at_def Let_def)

lemma ring_inv_produce:
  assumes "ring_inv sy" and "i < length (sy_producers sy)" and "sy_overclaims (produce i sy) = sy_overclaims sy"
  shows "ring_inv (produce i sy)"
proof -
  let ?rb = "lg_ring (sy_logger sy)" and ?ps = "sy_producers sy"
  let ?C = "rb_capacity ?rb" and ?T = "rb_tail ?rb" and ?H = "rb_head ?rb"
  note inv = ring_invD [OF assms(1)]
  have ok: "prod_ok ?C (rb_slots ?rb) ?T (?ps ! i)" using inv(3) assms(2) by simp
  have claim: "?T \<le> q \<and> q < ?H \<and> sy_log sy q = None \<and> q < ?T + 2 ^ 64" if "claim_of (?ps ! i) = Some (q, d)" for q d
    using claims_okD(3) [OF inv(2), of i q d] claims_bound [OF inv(2)] inv(5) assms(2) that by auto
  have others: "j = i" if "j < length ?ps" "claim_of (?ps ! j) = Some (q, d)" "claim_of (?ps ! i) = Some (q, d')" for j q d d'
    using claims_okD(4) [OF inv(2), of j i q d d'] that assms(2) by simp
  have elsewhere: "prod_ok ?C ((rb_slots ?rb)[q mod ?C := x]) ?T p"
    if h: "p \<in> set (?ps[i := p'])" "p \<noteq> p'" "claim_of (?ps ! i) = Some (q, d)" "q < ?T + ?C" for p p' q d x
  proof -
    obtain j where j: "j < length ?ps" "p = ?ps ! j" "j \<noteq> i"
    proof -
      obtain j where "j < length ?ps" "p = ?ps[i := p'] ! j" using h(1) by (auto simp: in_set_conv_nth)
      then show thesis using h(2) assms(2) that [of j] by (cases "j = i") simp_all
    qed
    show ?thesis
    proof (rule prod_ok_slot [OF inv(1) inv(3)])
      show "p \<in> set ?ps" using j by simp
      show "?T \<le> q" using claim [OF h(3)] by simp
      show "q < ?T + ?C" by (rule h(4))
      show "?T \<le> q' \<and> (q' = q \<longrightarrow> ls_data x = ls_data (rb_slots ?rb ! (q mod ?C)))" if "claim_of p = Some (q', d')" for q' d'
        using claims_okD(3) [OF inv(2), of j q' d'] others [of j q d' d] h(3) that j by auto
    qed
  qed
  show ?thesis
  proof (cases "?ps ! i")
    case (P_Claimed data q)
    have b: "\<not> beyond ?rb q" using assms(3) P_Claimed by (auto simp: produce_def Let_def split: if_splits)
    then have "q < ?T + ?C" using beyond_exact [of ?rb q] claim P_Claimed by simp
    then show ?thesis using ring_inv_local [OF assms(1,2), of "sy_logger sy" "P_Spin data q 0" "sy_overclaims sy"] P_Claimed b by (simp add: produce_def Let_def)
  next
    case (P_Spin data q spin)
    have "ls_state (slot_at ?rb q) = SLOT_EMPTY"
      using inv(1) claim [of q data] ok P_Spin by (simp add: window_ok_def slot_at_def)
    then show ?thesis using ring_inv_local [OF assms(1,2), of "sy_logger sy" "P_Own data q" "sy_overclaims sy"] P_Spin ok by (simp add: produce_def Let_def)
  next
    case (P_Checked data)
    have cl: "map claim_of ?ps ! i = None" using P_Checked assms(2) by simp
    have "claims_ok ?C (Suc ?H) ?T (map claim_of (?ps[i := P_Claimed data ?H])) (sy_log sy)"
      using claims_take [OF inv(2) _ cl] assms(2) by (simp add: map_update)
    moreover have "prod_ok ?C (rb_slots ?rb) ?T p" if "p \<in> set (?ps[i := P_Claimed data ?H])" for p
      using that inv(3) [of p] set_update_subset_insert [of ?ps i "P_Claimed data ?H"] by auto
    moreover have "consumer_ok (Suc ?H) ?T (sy_consumer sy) (sy_log sy) (sy_written sy)"
      using inv(4) by (cases "sy_consumer sy") auto
    ultimately show ?thesis using inv(1,5,6) P_Checked by (simp add: ring_inv_def produce_def Let_def)
  next
    case (P_Own data q)
    let ?x = "(rb_slots ?rb ! (q mod ?C))\<lparr>ls_data := stored data\<rparr>"
    have q: "q < ?T + ?C" "?T \<le> q" "sy_log sy q = None" using ok claim [of q data] P_Own by simp_all
    have "prod_ok ?C ((rb_slots ?rb)[q mod ?C := ?x]) ?T p" if "p \<in> set (?ps[i := P_Copied data q])" for p
      using elsewhere [OF that, of q data] q window_at [OF inv(1)] P_Own by (cases "p = P_Copied data q") simp_all
    moreover have "map claim_of (?ps[i := P_Copied data q]) = map claim_of ?ps" using P_Own assms(2) by (intro claims_same) simp_all
    ultimately show ?thesis using inv(2,4-6) window_data [OF inv(1) q(2,1,3)] P_Own
      by (simp add: ring_inv_def produce_def Let_def with_slot_ring slot_at_def)
  next
    case (P_Copied data q)
    let ?x = "(rb_slots ?rb ! (q mod ?C))\<lparr>ls_state := SLOT_FILLED\<rparr>"
    have q: "q < ?T + ?C" "?T \<le> q" "sy_log sy q = None" "ls_data (rb_slots ?rb ! (q mod ?C)) = stored data"
      using ok claim [of q data] P_Copied by simp_all
    have adv: "sy_log sy ?T \<noteq> None" if "sy_consumer sy = C_Advance" using inv(4) that by simp
    have "prod_ok ?C ((rb_slots ?rb)[q mod ?C := ?x]) ?T p" if "p \<in> set (?ps[i := P_Done DISTRIC_OK])" for p
      using elsewhere [OF that, of q data] q P_Copied by (cases "p = P_Done DISTRIC_OK") simp_all
    moreover have "claims_ok ?C ?H ?T (map claim_of (?ps[i := P_Done DISTRIC_OK])) ((sy_log sy)(q \<mapsto> data))"
      using claims_publish [OF inv(2), of i q data] q(1) assms(2) P_Copied by (simp add: map_update)
    moreover have "consumer_ok ?H ?T (sy_consumer sy) ((sy_log sy)(q \<mapsto> data)) (sy_written sy)"
    proof -
      have keep: "entries_below ((sy_log sy)(q \<mapsto> data)) n = entries_below (sy_log sy) n" if "n \<le> q" for n
        using that by (simp add: entries_below_def)
      have "Suc ?T \<le> q" if "sy_log sy ?T \<noteq> None" using q(2,3) that by (metis le_neq_implies_less less_eq_Suc_le)
      then show ?thesis using inv(4) q(2) keep by (cases "sy_consumer sy") auto
    qed
    ultimately show ?thesis using inv(5,6) window_publish [OF inv(1) q(2,1,3,4) adv] P_Copied
      by (simp add: ring_inv_def produce_def Let_def with_slot_ring slot_at_def)
  next
    case (P_Loaded data h)
    then show ?thesis using ring_inv_local [OF assms(1,2), of "count_drop (sy_logger sy)" "P_Done DISTRIC_ERR_BUFFER_OVERFLOW" "sy_overclaims sy"]
      ring_inv_local [OF assms(1,2), of "sy_logger sy" "P_Checked data" "sy_overclaims sy"]
      by (auto simp: produce_def Let_def count_drop_def)
  next
    case (P_Start data)
    then show ?thesis using ring_inv_local [OF assms(1,2), of "sy_logger sy" "P_Loaded data ?H" "sy_overclaims sy"] by (simp add: produce_def Let_def)
  next
    case (P_Done err)
    then show ?thesis using ring_inv_local [OF assms(1,2), of "sy_logger sy" "P_Done err" "sy_overclaims sy"] by (simp add: produce_def Let_def)
  next
    case (P_Lost q)
    then show ?thesis using ok by simp
  qed
qed

lemma entries_below_Suc: "entries_below log (Suc n) = entries_below log n @ [stored (the (log n))]"
  by (simp add: entries_below_def)

lemma ring_inv_consume:
  assumes "ring_inv sy"
  shows "ring_inv (log_event_step (Consume now) sy)"
proof -
  let ?rb = "lg_ring (sy_logger sy)"
  let ?C = "rb_capacity ?rb" and ?T = "rb_tail ?rb" and ?H = "rb_head ?rb"
  note inv = ring_invD [OF assms]
  note w = inv(1) [unfolded window_ok_def]
  have C: "0 < ?C" using w by simp
  have slot: "ls_state (slot_at ?rb ?T) = (if sy_log sy ?T \<noteq> None \<and> sy_consumer sy \<noteq> C_Advance then SLOT_FILLED else SLOT_EMPTY)"
    "sy_log sy ?T = Some d \<Longrightarrow> ls_data (slot_at ?rb ?T) = stored d" for d
    using w C by (auto simp: slot_at_def)
  show ?thesis
  proof (cases "sy_consumer sy")
    case (C_Head sd)
    have le: "?T \<le> ?H" "?H < ?T + 2 ^ 64" using claims_okD(1) [OF inv(2)] claims_bound [OF inv(2)] inv(5) by simp_all
    then have "(int ?H - int ?T) mod 2 ^ 64 = int ?H - int ?T" by (intro mod_pos_pos_trivial) simp_all
    then show ?thesis using C_Head inv le window_consumer [OF inv(1)] by (auto simp: ring_inv_def Let_def)
  next
    case (C_Spin spin)
    then show ?thesis using inv slot(1) window_consumer [OF inv(1)] by (auto simp: ring_inv_def Let_def)
  next
    case C_Write
    then show ?thesis using inv slot(2) window_consumer [OF inv(1)] by (auto simp: ring_inv_def Let_def entries_below_Suc)
  next
    case C_Clear
    let ?x = "(rb_slots ?rb ! (?T mod ?C))\<lparr>ls_state := SLOT_EMPTY\<rparr>"
    have "prod_ok ?C ((rb_slots ?rb)[?T mod ?C := ?x]) ?T p" if h: "p \<in> set (sy_producers sy)" for p
    proof (rule prod_ok_slot [OF inv(1) inv(3) [OF h]])
      show "?T \<le> q \<and> (q = ?T \<longrightarrow> ls_data ?x = ls_data (rb_slots ?rb ! (?T mod ?C)))" if "claim_of p = Some (q, d)" for q d
        using claims_okD(3) [OF inv(2)] h that by (auto simp: in_set_conv_nth)
    qed (use C in simp_all)
    then show ?thesis using C_Clear inv window_clear inv(1) [unfolded C_Clear] by (simp add: ring_inv_def Let_def with_slot_ring slot_at_def)
  next
    case C_Advance
    have "sy_log sy (?T + ?C) = None" using claims_okD(2) [OF inv(2), of "?T + ?C"] by (cases "sy_log sy (?T + ?C)") auto
    then show ?thesis using C_Advance inv window_advance inv(1) [unfolded C_Advance] claims_advance [OF inv(2)] prod_ok_advance
      by (simp add: ring_inv_def Let_def)
  qed (use inv window_consumer [OF inv(1)] in \<open>auto simp: ring_inv_def Let_def\<close>)
qed

lemma ring_inv_call: "ring_inv sy \<Longrightarrow> ring_inv (log_event_step (Call i data) sy)"
proof -
  assume inv: "ring_inv sy"
  show ?thesis
  proof (cases "i < length (sy_producers sy) \<and> returned (sy_producers sy ! i) \<noteq> None \<and> \<not> lg_shutdown (sy_logger sy)")
    case True
    then have "claim_of (P_Start data) = claim_of (sy_producers sy ! i)" by (cases "sy_producers sy ! i") simp_all
    then show ?thesis using ring_inv_local [OF inv, of i "sy_logger sy" "P_Start data" "sy_overclaims sy"] True by simp
  next
    case False
    then have "log_event_step (Call i data) sy = sy" by (simp only: log_event_step.simps if_False)
    then show ?thesis using inv by simp
  qed
qed

lemma overclaims_mono: "sy_overclaims sy \<le> sy_overclaims (log_event_step ev sy)"
  by (cases ev) (auto simp: produce_def Let_def split: prod.split)

lemma shutdown_mono: "lg_shutdown (sy_logger sy) \<Longrightarrow> lg_shutdown (sy_logger (log_event_step ev sy))"
proof (cases ev)
  case (Produce i)
  then show "lg_shutdown (sy_logger sy) \<Longrightarrow> ?thesis"
    by (cases "sy_producers sy ! i") (auto simp: produce_def Let_def count_drop_def with_slot_ring)
next
  case (Consume now)
  then show "lg_shutdown (sy_logger sy) \<Longrightarrow> ?thesis" by (cases "sy_consumer sy") (auto simp: with_slot_ring)
qed (auto simp: log_shutdown_def)

lemma ring_inv_step:
  assumes "ring_inv sy" and "sy_overclaims (log_event_step ev sy) = sy_overclaims sy" and "\<not> lg_shutdown (sy_logger (log_event_step ev sy))"
  shows "ring_inv (log_event_step ev sy)"
proof (cases ev)
  case (Call i data)
  then show ?thesis using ring_inv_call [OF assms(1)] by simp
next
  case (Produce i)
  then show ?thesis using ring_inv_produce [OF assms(1), of i] assms by (cases "i < length (sy_producers sy)") simp_all
next
  case (Consume now)
  then show ?thesis using ring_inv_consume [OF assms(1)] by simp
next
  case Shut
  then have "log_shutdown (sy_logger sy) = sy_logger sy" using assms(3) by (auto simp: log_shutdown_def split: if_splits)
  then show ?thesis using assms(1) Shut by simp
qed

lemma log_run_snoc: "log_run (evs @ [ev]) sy = log_event_step ev (log_run evs sy)"
  by (simp add: log_run_def)

lemma ring_inv_run:
  assumes "ring_inv sy" and "sy_overclaims sy = 0" and "sy_overclaims (log_run evs sy) = 0" and "\<not> lg_shutdown (sy_logger (log_run evs sy))"
  shows "ring_inv (log_run evs sy)"
  using assms(3,4)
proof (induction evs rule: rev_induct)
  case Nil
  then show ?case using assms(1) by (simp add: log_run_def)
next
  case (snoc ev evs)
  have "sy_overclaims (log_run evs sy) = 0" using overclaims_mono [of "log_run evs sy" ev] snoc.prems(1) by (simp add: log_run_snoc)
  moreover have "\<not> lg_shutdown (sy_logger (log_run evs sy))" using shutdown_mono snoc.prems(2) by (auto simp: log_run_snoc)
  ultimately show ?case using snoc by (simp add: log_run_snoc ring_inv_step)
qed

lemma ring_inv_start:
  assumes "lg_ring lg = empty_ring cap" and "0 < cap" and "cap + n < 2 ^ 64" and "\<not> lg_shutdown lg"
  shows "ring_inv (log_start lg n)"
proof -
  have "claims_ok cap 0 0 (map claim_of (replicate n (P_Done DISTRIC_OK))) Map.empty" by (rule claims_okI) simp_all
  then show ?thesis using assms by (simp add: ring_inv_def log_start_def empty_ring_def window_ok_def entries_below_def Let_def)
qed

text \<open>One producer alone never claims a position beyond the ring.\<close>

fun within :: "log_ring_buffer \<Rightarrow> producer \<Rightarrow> bool" where
  "within rb (P_Loaded data h) \<longleftrightarrow> h = rb_head rb"
| "within rb (P_Checked data) \<longleftrightarrow> rb_head rb < rb_tail rb + rb_capacity rb"
| "within rb (P_Claimed data q) \<longleftrightarrow> q < rb_tail rb + rb_capacity rb"
| "within rb p \<longleftrightarrow> True"

definition alone :: "log_system \<Rightarrow> bool" where
  "alone sy \<longleftrightarrow> ring_inv sy \<and> sy_overclaims sy = 0 \<and> (\<exists>p. sy_producers sy = [p] \<and> within (lg_ring (sy_logger sy)) p)"

lemma alone_step:
  assumes "alone sy" and "\<not> lg_shutdown (sy_logger (log_event_step ev sy))"
  shows "alone (log_event_step ev sy)"
proof -
  obtain p where p: "sy_producers sy = [p]" "within (lg_ring (sy_logger sy)) p" using assms(1) by (auto simp: alone_def)
  have inv: "ring_inv sy" and zero: "sy_overclaims sy = 0" using assms(1) by (simp_all add: alone_def)
  let ?rb = "lg_ring (sy_logger sy)"
  have ex: "beyond ?rb q \<longleftrightarrow> rb_tail ?rb + rb_capacity ?rb \<le> q" if "rb_tail ?rb \<le> q" "q \<le> rb_head ?rb" for q
    using beyond_exact [of ?rb q] claims_bound [OF ring_invD(2) [OF inv]] ring_invD(5) [OF inv] that p(1) by simp
  have le: "rb_tail ?rb \<le> rb_head ?rb" using claims_okD(1) [OF ring_invD(2) [OF inv]] .
  have claim: "rb_tail ?rb \<le> q \<and> q < rb_head ?rb" if "p = P_Claimed d q" for d q
    using claims_okD(3) [OF ring_invD(2) [OF inv], of 0 q d] that p(1) by simp
  have ok: "prod_ok (rb_capacity ?rb) (rb_slots ?rb) (rb_tail ?rb) p" using ring_invD(3) [OF inv, of p] p(1) by simp
  have "sy_overclaims (log_event_step ev sy) = 0 \<and> (\<exists>p. sy_producers (log_event_step ev sy) = [p] \<and> within (lg_ring (sy_logger (log_event_step ev sy))) p)"
  proof (cases ev)
    case (Call i data)
    then show ?thesis using p zero by (cases i) simp_all
  next
    case (Produce i)
    have "sy_overclaims (produce 0 sy) = 0 \<and> (\<exists>p. sy_producers (produce 0 sy) = [p] \<and> within (lg_ring (sy_logger (produce 0 sy))) p)"
      using p zero le ex [of "rb_head ?rb"] claim ex ok by (cases p) (auto simp: produce_def Let_def count_drop_def with_slot_ring)
    then show ?thesis using Produce p zero by (cases i) simp_all
  next
    case (Consume now)
    have "rb_capacity (lg_ring (sy_logger (log_event_step ev sy))) = rb_capacity ?rb
        \<and> rb_head (lg_ring (sy_logger (log_event_step ev sy))) = rb_head ?rb \<and> rb_tail ?rb \<le> rb_tail (lg_ring (sy_logger (log_event_step ev sy)))"
      using Consume by (cases "sy_consumer sy") (simp_all add: with_slot_ring)
    moreover have "sy_producers (log_event_step ev sy) = [p]" "sy_overclaims (log_event_step ev sy) = 0"
      using Consume p zero by (cases "sy_consumer sy"; simp)+
    ultimately show ?thesis using p(2) by (cases p) auto
  next
    case Shut
    then show ?thesis using p zero by (simp add: log_shutdown_def)
  qed
  then show ?thesis using ring_inv_step [OF inv _ assms(2)] zero by (simp add: alone_def)
qed

lemma alone_run:
  assumes "alone sy" and "\<not> lg_shutdown (sy_logger (log_run evs sy))"
  shows "alone (log_run evs sy)"
  using assms(2)
proof (induction evs rule: rev_induct)
  case Nil
  then show ?case using assms(1) by (simp add: log_run_def)
next
  case (snoc ev evs)
  have "\<not> lg_shutdown (sy_logger (log_run evs sy))" using shutdown_mono snoc.prems by (auto simp: log_run_snoc)
  then show ?case using snoc alone_step by (simp add: log_run_snoc)
qed

text \<open>What \<^verbatim>\<open>log_init_with_config\<close> builds is a start of the system.\<close>

lemma power_of_two_exp:
  assumes "cap \<le> 2 ^ 63" and "k \<le> 63"
  shows "\<exists>m. k \<le> m \<and> m \<le> 63 \<and> power_of_two cap (2 ^ k) = Some (2 ^ m) \<and> cap \<le> 2 ^ m"
  using assms(2)
proof (induction "63 - k" arbitrary: k)
  case 0
  then have "k = 63" by simp
  moreover have "power_of_two cap (2 ^ 63) = Some (2 ^ 63)"
    using assms(1) [folded not_less] by (subst power_of_two.simps) simp
  ultimately show ?case using assms(1) by blast
next
  case (Suc d)
  have sh: "push_bit 1 (2 ^ k :: u64) = 2 ^ Suc k" by (simp add: push_bit_eq_mult)
  have "d = 63 - Suc k" "Suc k \<le> 63" using Suc.hyps(2) by simp_all
  then obtain m where m: "Suc k \<le> m" "m \<le> 63" "power_of_two cap (2 ^ Suc k) = Some (2 ^ m)" "cap \<le> 2 ^ m"
    using Suc.hyps(1) by blast
  show ?case
  proof (cases "(2 ^ k :: u64) < cap")
    case True
    then have "power_of_two cap (2 ^ k) = Some (2 ^ m)" using m(3) by (simp only: power_of_two.simps [of cap "2 ^ k"] sh if_True)
    then show ?thesis using m by (intro exI [of _ m]) auto
  next
    case False
    then have "power_of_two cap (2 ^ k) = Some (2 ^ k)" by (subst power_of_two.simps) simp
    then show ?thesis using Suc.prems False by (intro exI [of _ k]) (simp add: not_less)
  qed
qed

lemma unat_pow2: "unat (2 ^ m :: u64) = 2 ^ m" if "m < 64"
proof -
  have "(2 ^ m :: nat) < 2 ^ 64" using that by (intro power_strict_increasing) simp_all
  then have "unat (of_nat (2 ^ m) :: u64) = 2 ^ m" by (simp add: unat_of_nat del: of_nat_power)
  then show ?thesis by simp
qed

lemma ring_capacity_exp:
  assumes "requested \<le> 2 ^ 63" and "dflt \<le> 2 ^ 63" and "limit = 2 ^ l" and "l \<le> 63"
  shows "\<exists>m \<le> l. ring_capacity requested dflt limit = Some (2 ^ m)"
proof -
  obtain m where m: "m \<le> 63" "power_of_two (if requested \<noteq> 0 then requested else dflt) (2 ^ 0) = Some (2 ^ m)"
  proof -
    have "(if requested \<noteq> 0 then requested else dflt) \<le> 2 ^ 63" using assms(1,2) by simp
    from power_of_two_exp [OF this, of 0] show thesis using that by blast
  qed
  have "(2 ^ m :: u64) > 2 ^ l \<longleftrightarrow> m > l"
    using m(1) assms(4) by (simp add: word_less_nat_alt unat_pow2)
  then have "ring_capacity requested dflt limit = Some (2 ^ min m l)" using m(2) assms(3) by (simp add: ring_capacity_def min_def)
  then show ?thesis by (intro exI [of _ "min m l"]) simp
qed

lemma log_init_starts:
  assumes "0 \<le> lc_fd config" and "lc_mode config = LOG_MODE_ASYNC" and "lc_ring_buffer_capacity config \<le> 2 ^ 63"
  shows "\<exists>lg m. m \<le> 15 \<and> log_init_with_config config = Some (Inr lg) \<and> lg_ring lg = empty_ring (2 ^ m) \<and> \<not> lg_shutdown lg"
proof -
  obtain m where "m \<le> 15" "ring_capacity (lc_ring_buffer_capacity config) LOG_RING_BUFFER_DEFAULT_CAPACITY DISTRIC_MAX_RING_BUFFER = Some (2 ^ m)"
    using ring_capacity_exp [OF assms(3), of LOG_RING_BUFFER_DEFAULT_CAPACITY DISTRIC_MAX_RING_BUFFER 15]
    by (auto simp: LOG_RING_BUFFER_DEFAULT_CAPACITY_def DISTRIC_MAX_RING_BUFFER_def)
  moreover have "unat (2 ^ m :: u64) = 2 ^ m" using calculation(1) by (simp add: unat_pow2)
  ultimately show ?thesis using assms(1,2) by (auto simp: log_init_with_config_def Let_def)
qed

section \<open>A wedged ring\<close>

text \<open>
  The flush thread waits at a position that no producer will ever fill, and the ring counts as full.
\<close>

fun turned_away :: "nat \<Rightarrow> producer \<Rightarrow> bool" where
  "turned_away H (P_Done err) \<longleftrightarrow> True"
| "turned_away H (P_Start data) \<longleftrightarrow> True"
| "turned_away H (P_Loaded data h) \<longleftrightarrow> h = H"
| "turned_away H p \<longleftrightarrow> False"

fun waiting :: "consumer \<Rightarrow> bool" where
  "waiting C_Top \<longleftrightarrow> True"
| "waiting (C_Head sd) \<longleftrightarrow> \<not> sd"
| "waiting (C_Spin spin) \<longleftrightarrow> True"
| "waiting (C_Poll spin) \<longleftrightarrow> True"
| "waiting c \<longleftrightarrow> False"

definition wedged :: "log_system \<Rightarrow> bool" where
  "wedged sy \<longleftrightarrow> (let rb = lg_ring (sy_logger sy) in
     rb_head rb = rb_tail rb + rb_capacity rb \<and> 0 < rb_capacity rb \<and> rb_capacity rb < 2 ^ 64
     \<and> ls_state (slot_at rb (rb_tail rb)) = SLOT_EMPTY \<and> \<not> lg_shutdown (sy_logger sy)
     \<and> list_all (turned_away (rb_head rb)) (sy_producers sy) \<and> waiting (sy_consumer sy))"

lemma list_all_update: "list_all P xs \<Longrightarrow> P x \<Longrightarrow> list_all P (xs[i := x])"
  by (auto simp: list_all_iff dest: set_update_subset_insert [THEN subsetD])

lemma wedged_step:
  assumes "wedged sy" and "ev \<noteq> Shut"
  shows "wedged (log_event_step ev sy) \<and> sy_written (log_event_step ev sy) = sy_written sy \<and> sy_log (log_event_step ev sy) = sy_log sy"
proof -
  let ?rb = "lg_ring (sy_logger sy)"
  note w = assms(1) [unfolded wedged_def Let_def]
  have full: "beyond ?rb (rb_head ?rb)" using beyond_exact [of ?rb "rb_head ?rb"] w by simp
  show ?thesis
  proof (cases ev)
    case (Call i data)
    then show ?thesis using w by (auto simp: wedged_def list_all_update)
  next
    case (Produce i)
    show ?thesis
    proof (cases "i < length (sy_producers sy)")
      case True
      then have "turned_away (rb_head ?rb) (sy_producers sy ! i)" using w unfolding list_all_length by blast
      then show ?thesis using w full Produce True
        by (cases "sy_producers sy ! i") (auto simp: wedged_def produce_def Let_def count_drop_def list_all_update)
    next
      case False
      then show ?thesis using Produce assms(1) by simp
    qed
  next
    case (Consume now)
    have "(int (rb_head ?rb) - int (rb_tail ?rb)) mod 2 ^ 64 = int (rb_capacity ?rb)" using w by simp
    then show ?thesis using w Consume by (cases "sy_consumer sy") (auto simp: wedged_def Let_def)
  next
    case Shut
    then show ?thesis using assms(2) by simp
  qed
qed

lemma wedged_run:
  assumes "wedged sy" and "list_all (\<lambda>ev. ev \<noteq> Shut) evs"
  shows "sy_written (log_run evs sy) = sy_written sy \<and> sy_log (log_run evs sy) = sy_log sy"
  using assms
proof (induction evs arbitrary: sy)
  case (Cons ev evs)
  then show ?case using wedged_step [of sy ev] Cons.IH [of "log_event_step ev sy"] by (simp add: log_run_def)
qed (simp add: log_run_def)

section \<open>Properties\<close>

lemma stored_take: "stored d = take 4095 d"
  by (simp add: stored_def LOG_MAX_ENTRY_BYTES_DEFAULT_def)

text \<open>
  C29. The ring is a queue: for every interleaving of any number of producers with the flush thread, as
  long as no producer has claimed a position beyond the ring and the logger is not shut down, the
  entries handed to \<^verbatim>\<open>write\<close> are exactly the published ones of the positions passed so far, in the order
  of the claims, each once, unchanged if it has at most 4095 bytes and with its first 4095 bytes otherwise (a slot
  has 4096, but the copy gives up the last one); a published entry that is not written yet stands so in its
  slot, and when everything is quiet all published entries have been written. With a single producer
  no claim ever goes beyond the ring.
\<close>

theorem log_ring_fifo:
  assumes "lg_ring lg = empty_ring cap" and "0 < cap" and "cap + n < 2 ^ 64" and "\<not> lg_shutdown lg"
    and "\<not> lg_shutdown (sy_logger (log_run evs (log_start lg n)))"
    and "n = 1 \<or> sy_overclaims (log_run evs (log_start lg n)) = 0"
  shows "let sy = log_run evs (log_start lg n); rb = lg_ring (sy_logger sy) in
    sy_overclaims sy = 0 \<and>
    (\<exists>k \<in> {rb_tail rb, Suc (rb_tail rb)}. sy_written sy = map (\<lambda>q. take 4095 (the (sy_log sy q))) [0..<k] \<and> {..<k} \<subseteq> dom (sy_log sy)
       \<and> dom (sy_log sy) - {..<k} \<subseteq> {q. slot_at rb q = \<lparr>ls_state = SLOT_FILLED, ls_data = take 4095 (the (sy_log sy q))\<rparr>})
    \<and> (if list_all (\<lambda>p. returned p \<noteq> None) (sy_producers sy) \<and> rb_tail rb = rb_head rb
       then dom (sy_log sy) = {..<rb_head rb} \<and> sy_written sy = map (\<lambda>q. take 4095 (the (sy_log sy q))) [0..<rb_head rb] else True)"
proof -
  define sy where "sy = log_run evs (log_start lg n)"
  let ?rb = "lg_ring (sy_logger sy)"
  have start: "ring_inv (log_start lg n)" by (rule ring_inv_start [OF assms(1-4)])
  have zero: "sy_overclaims sy = 0"
  proof (cases "n = 1")
    case True
    then have "alone (log_start lg n)" using start by (simp add: alone_def log_start_def)
    from alone_run [OF this] show ?thesis using assms(5) by (simp add: alone_def sy_def)
  next
    case False
    then show ?thesis using assms(6) by (simp add: sy_def)
  qed
  have inv: "ring_inv sy" unfolding sy_def
    by (rule ring_inv_run [OF start]) (use zero assms(5) in \<open>simp_all add: sy_def log_start_def\<close>)
  note i = ring_invD [OF inv]
  note c = claims_okD [OF i(2)]
  have below: "sy_log sy q \<noteq> None" if h: "q < rb_tail ?rb" for q
  proof
    assume "sy_log sy q = None"
    moreover have "q < rb_head ?rb" using c(1) h by simp
    ultimately obtain j d where "j < length (map claim_of (sy_producers sy))" "map claim_of (sy_producers sy) ! j = Some (q, d)"
      using c(5) [of q] by blast
    from c(3) [OF this] show False using h by simp
  qed
  define k where "k = (if sy_consumer sy = C_Clear \<or> sy_consumer sy = C_Advance then Suc (rb_tail ?rb) else rb_tail ?rb)"
  have k: "sy_written sy = entries_below (sy_log sy) k" "{..<k} \<subseteq> dom (sy_log sy)" "rb_tail ?rb \<le> k"
    using i(4) below by (cases "sy_consumer sy"; auto simp: k_def less_Suc_eq)+
  have intact: "slot_at ?rb q = \<lparr>ls_state = SLOT_FILLED, ls_data = stored (the (sy_log sy q))\<rparr>" if "sy_log sy q = Some d" "k \<le> q" for q d
  proof -
    have "rb_tail ?rb \<le> q" "q < rb_tail ?rb + rb_capacity ?rb" "\<not> (sy_consumer sy = C_Advance \<and> q = rb_tail ?rb)"
      using that c(2) k(3) by (auto simp: k_def)
    then have "ls_state (slot_at ?rb q) = SLOT_FILLED" "ls_data (slot_at ?rb q) = stored d"
      using i(1) that(1) by (auto simp: window_ok_def slot_at_def)
    then show ?thesis using that(1) by simp
  qed
  have quiet: "dom (sy_log sy) = {..<rb_head ?rb} \<and> sy_written sy = entries_below (sy_log sy) (rb_head ?rb)" if "rb_tail ?rb = rb_head ?rb"
  proof -
    have "k = rb_head ?rb" using i(4) that by (cases "sy_consumer sy") (auto simp: k_def)
    then show ?thesis using k(1,2) c(2) by auto
  qed
  have "k \<in> {rb_tail ?rb, Suc (rb_tail ?rb)}" by (simp add: k_def)
  moreover have "dom (sy_log sy) - {..<k} \<subseteq> {q. slot_at ?rb q = \<lparr>ls_state = SLOT_FILLED, ls_data = stored (the (sy_log sy q))\<rparr>}"
    using intact by (auto simp: not_less)
  ultimately show ?thesis
    using zero k(1,2) quiet unfolding Let_def sy_def [symmetric] entries_below_def stored_take by (intro conjI) auto
qed

definition sample_logger :: "nat \<Rightarrow> logger" where
  "sample_logger cap = \<lparr>lg_fd = 1, lg_mode = LOG_MODE_ASYNC, lg_max_entry_bytes = 4096, lg_ring = empty_ring cap,
     lg_flush_thread_started = True, lg_shutdown = False, lg_last_flush_ns = 0, lg_refcount = 1, lg_total_drops = 0, lg_oversized_drops = 0\<rparr>"

theorem log_ring_fifo_witness:
  "sy_overclaims (log_run [Call 0 [97], Produce 0] (log_start (sample_logger 4) 1)) = 0"
proof -
  have "\<not> lg_shutdown (sy_logger (log_run [Call 0 [97], Produce 0] (log_start (sample_logger 4) 1)))"
    by (simp add: log_run_def log_start_def sample_logger_def produce_def Let_def)
  from log_ring_fifo [OF _ _ _ _ this, of 4] show ?thesis by (simp add: sample_logger_def Let_def)
qed

definition wedge_trace :: "log_event list" where
  "wedge_trace = [Call 0 [97], Call 1 [98], Produce 0, Produce 1, Produce 0, Produce 1, Produce 0, Produce 1,
     Produce 0, Produce 0, Produce 0, Produce 0, Produce 1, Produce 1, Consume 1, Consume 1, Consume 1, Consume 1, Consume 1]"

text \<open>
  Two writers can disable the logger for good. In a ring with one slot both pass the first check; one
  publishes its entry and returns \<^verbatim>\<open>DISTRIC_OK\<close>, the other finds the ring full after its claim and marks the
  slot of its position, which is the slot of the published entry. The entry is never written, the
  flush thread waits at a position nobody fills, and until shutdown no entry is accepted or written.
\<close>

lemma over_claim_wedges_logger:
  assumes "list_all (\<lambda>ev. ev \<noteq> Shut) evs"
  shows "let sy = log_run wedge_trace (log_start (sample_logger 1) 2) in
    sy_producers sy ! 0 = P_Done DISTRIC_OK \<and> sy_log sy = [0 \<mapsto> [97]]
    \<and> sy_written (log_run evs sy) = [] \<and> sy_log (log_run evs sy) = [0 \<mapsto> [97]]"
proof -
  define sy where "sy = log_run wedge_trace (log_start (sample_logger 1) 2)"
  have defs: "replicate 2 x = [x, x]" for x :: producer by (simp add: numeral_2_eq_2)
  have sy: "sy_producers sy ! 0 = P_Done DISTRIC_OK" "sy_log sy = [0 \<mapsto> [97]]" "sy_written sy = []" "wedged sy"
    by (simp_all add: sy_def wedge_trace_def log_run_def log_start_def sample_logger_def empty_ring_def produce_def Let_def
        beyond_def slot_at_def with_slot_def count_drop_def stored_def LOG_MAX_ENTRY_BYTES_DEFAULT_def defs wedged_def)
  show ?thesis using sy wedged_run [OF sy(4) assms] unfolding Let_def sy_def [symmetric] by simp
qed

lemma over_claim_wedges_logger_witness:
  "sy_written (log_run [Call 0 [99], Produce 0, Produce 0, Consume 2, Consume 2, Consume 2]
     (log_run wedge_trace (log_start (sample_logger 1) 2))) = []"
  using over_claim_wedges_logger [of "[Call 0 [99], Produce 0, Produce 0, Consume 2, Consume 2, Consume 2]"] by (simp add: Let_def)

end
