(* ===== verification/Tracing.thy ===== *)
theory Tracing
  imports LogRing
begin

unbundle bit_operations_syntax

text \<open>
  The tracer of \<^verbatim>\<open>libs/distric_obs/src/tracing.c\<close>: identifiers, sampling with two backpressure signals, the ring
  of span slots with its exporter, spans and the propagation of their context. Each operation and each
  cycle of the exporter is one step here. As in the logger \<^verbatim>\<open>head\<close> and \<^verbatim>\<open>tail\<close> count from the start. A span
  is known by the index of its slot; \<open>None\<close> is the shared no-op span.
\<close>

section \<open>Data\<close>

definition SPAN_BUFFER_DEFAULT_CAPACITY :: u64 where "SPAN_BUFFER_DEFAULT_CAPACITY = 1024"
definition SPAN_EXPORT_INTERVAL_MS_DEFAULT :: u32 where "SPAN_EXPORT_INTERVAL_MS_DEFAULT = 5000"
definition BP_FILL_ENTER_PCT :: nat where "BP_FILL_ENTER_PCT = 75"
definition BP_FILL_EXIT_PCT :: nat where "BP_FILL_EXIT_PCT = 50"
definition DROP_WINDOW_NS :: u64 where "DROP_WINDOW_NS = 1000000000"
definition DROP_RATE_ENTER_THRESHOLD :: u64 where "DROP_RATE_ENTER_THRESHOLD = 5"
definition DROP_CLEAR_WINDOW_NS :: u64 where "DROP_CLEAR_WINDOW_NS = 3000000000"
definition TRACER_EXPORTER_STALE_MULTIPLIER :: u64 where "TRACER_EXPORTER_STALE_MULTIPLIER = 3"
definition EXPORT_BATCH_MAX :: nat where "EXPORT_BATCH_MAX = 64"
definition DISTRIC_MAX_SPANS_BUFFER :: u64 where "DISTRIC_MAX_SPANS_BUFFER = 4096"

record trace_id =
  ti_high :: u64
  ti_low :: u64

record span_tag =
  st_key :: cstr
  st_value :: cstr

datatype span_status = SPAN_STATUS_UNSET | SPAN_STATUS_OK | SPAN_STATUS_ERROR

record trace_span =
  sp_trace_id :: trace_id
  sp_span_id :: u64
  sp_parent_span_id :: u64
  sp_operation :: cstr
  sp_start_time_ns :: u64
  sp_end_time_ns :: u64
  sp_tags :: "span_tag list"
  sp_sampled :: bool
  sp_status :: span_status

record trace_context =
  tc_trace_id :: trace_id
  tc_span_id :: u64

datatype span_slot_state = SPAN_SLOT_EMPTY | SPAN_SLOT_FILLED | SPAN_SLOT_PROCESSING

record span_slot =
  ss_state :: span_slot_state
  ss_span :: trace_span

record span_buffer =
  sb_head :: nat
  sb_capacity :: nat
  sb_tail :: nat
  sb_slots :: "span_slot list"

record sampling_state =
  sa_always_sample :: u32
  sa_always_drop :: u32
  sa_backpressure_sample :: u32
  sa_backpressure_drop :: u32
  sa_in_backpressure :: bool
  sa_bp_fill_signal :: bool
  sa_bp_drop_signal :: bool
  sa_drop_window_start_ns :: u64
  sa_drops_at_window_start :: u64
  sa_last_drop_seen_ns :: u64
  sa_sample_counter :: u64

record trace_sampling_config =
  sg_always_sample :: u32
  sg_always_drop :: u32
  sg_backpressure_sample :: u32
  sg_backpressure_drop :: u32

text \<open>\<open>tg_export_callback\<close> tells whether a callback is set.\<close>

record tracer_config =
  tg_sampling :: trace_sampling_config
  tg_buffer_capacity :: u64
  tg_export_interval_ms :: u32
  tg_export_callback :: bool

record tracer =
  tr_buffer :: span_buffer
  tr_sampling :: sampling_state
  tr_export_interval_ms :: u32
  tr_export_callback :: bool
  tr_cached_time_ns :: u64
  tr_last_export_ns :: u64
  tr_spans_created :: u64
  tr_spans_sampled_in :: u64
  tr_spans_sampled_out :: u64
  tr_spans_dropped :: u64
  tr_exports_attempted :: u64
  tr_exports_succeeded :: u64
  tr_refcount :: u32
  tr_shutdown :: bool
  tr_exporter_started :: bool

record tracer_stats =
  ts_spans_created :: u64
  ts_spans_sampled_in :: u64
  ts_spans_sampled_out :: u64
  ts_spans_dropped_backpressure :: u64
  ts_exports_attempted :: u64
  ts_exports_succeeded :: u64
  ts_queue_depth :: nat
  ts_queue_capacity :: nat
  ts_in_backpressure :: bool
  ts_effective_sample_rate_pct :: u32

section \<open>Identifiers\<close>

text \<open>The identifier for a seed, and the next seed.\<close>

definition gen_id :: "u64 \<Rightarrow> u64 \<times> u64" where
  "gen_id g_id_seed =
     (let v = g_id_seed; v = v XOR push_bit 13 v; v = v XOR drop_bit 7 v; v = v XOR push_bit 17 v
      in (v OR 1, g_id_seed + 1))"

definition gen_trace_id :: "u64 \<Rightarrow> trace_id \<times> u64" where
  "gen_trace_id g_id_seed =
     (case gen_id g_id_seed of (hi, seed) \<Rightarrow> case gen_id seed of (lo, seed) \<Rightarrow> (\<lparr>ti_high = hi, ti_low = lo\<rparr>, seed))"

definition trace_id_is_zero :: "trace_id \<Rightarrow> bool" where
  "trace_id_is_zero i \<longleftrightarrow> ti_high i = 0 \<and> ti_low i = 0"

definition trace_id_zero :: trace_id where
  "trace_id_zero = \<lparr>ti_high = 0, ti_low = 0\<rparr>"

section \<open>Sampling\<close>

definition sampling_should_sample :: "sampling_state \<Rightarrow> bool \<times> sampling_state" where
  "sampling_should_sample s =
     (let bp = sa_in_backpressure s;
          sw = (if bp then sa_backpressure_sample s else sa_always_sample s);
          dw = (if bp then sa_backpressure_drop s else sa_always_drop s);
          total = sw + dw
      in if total = 0 then (False, s)
         else if dw = 0 then (True, s)
         else (sa_sample_counter s mod ucast total < ucast sw, s\<lparr>sa_sample_counter := sa_sample_counter s + 1\<rparr>))"

definition fill_signal :: "span_buffer \<Rightarrow> bool \<Rightarrow> bool" where
  "fill_signal buf fill_sig =
     (let depth = sb_head buf - sb_tail buf
      in if \<not> fill_sig \<and> depth * 100 \<ge> sb_capacity buf * BP_FILL_ENTER_PCT then True
         else if fill_sig \<and> depth * 100 < sb_capacity buf * BP_FILL_EXIT_PCT then False
         else fill_sig)"

definition sampling_state_update :: "sampling_state \<Rightarrow> span_buffer \<Rightarrow> u64 \<Rightarrow> u64 \<Rightarrow> sampling_state" where
  "sampling_state_update s buf total_drops now_ns =
     (let fill_sig = fill_signal buf (sa_bp_fill_signal s);
          s = s\<lparr>sa_bp_fill_signal := fill_sig\<rparr>;
          drop_sig = sa_bp_drop_signal s;
          s = (if sa_drop_window_start_ns s = 0
               then s\<lparr>sa_drop_window_start_ns := now_ns, sa_drops_at_window_start := total_drops\<rparr> else s);
          window_drops = total_drops - sa_drops_at_window_start s;
          window_age = now_ns - sa_drop_window_start_ns s;
          (drop_sig, s) =
            (if \<not> drop_sig then
               (let (drop_sig, s) = (if window_drops \<ge> DROP_RATE_ENTER_THRESHOLD
                      then (True, s\<lparr>sa_last_drop_seen_ns := now_ns\<rparr>) else (False, s))
                in (drop_sig, if window_drops = 0 \<and> window_age > DROP_WINDOW_NS
                     then s\<lparr>sa_drop_window_start_ns := now_ns, sa_drops_at_window_start := total_drops\<rparr> else s))
             else
               (let s = (if window_drops > 0
                      then s\<lparr>sa_last_drop_seen_ns := now_ns, sa_drop_window_start_ns := now_ns,
                        sa_drops_at_window_start := total_drops\<rparr> else s)
                in (\<not> (now_ns - sa_last_drop_seen_ns s \<ge> DROP_CLEAR_WINDOW_NS), s)))
      in s\<lparr>sa_bp_drop_signal := drop_sig, sa_in_backpressure := fill_sig \<or> drop_sig\<rparr>)"

section \<open>Exporter\<close>

definition with_span_slot :: "nat \<Rightarrow> (span_slot \<Rightarrow> span_slot) \<Rightarrow> span_buffer \<Rightarrow> span_buffer" where
  "with_span_slot i f buf = buf\<lparr>sb_slots := (sb_slots buf)[i := f (sb_slots buf ! i)]\<rparr>"

function drain :: "span_buffer \<Rightarrow> nat \<Rightarrow> trace_span list \<Rightarrow> span_buffer \<times> nat \<times> trace_span list" where
  "drain buf tail batch =
     (if tail < sb_head buf \<and> length batch < EXPORT_BATCH_MAX then
        let i = tail mod sb_capacity buf; slot = sb_slots buf ! i
        in if ss_state slot = SPAN_SLOT_EMPTY then (buf, tail, batch)
           else drain (with_span_slot i (\<lambda>s. s\<lparr>ss_state := SPAN_SLOT_EMPTY\<rparr>) buf) (tail + 1)
                  (if sp_sampled (ss_span slot) then batch @ [ss_span slot] else batch)
      else (buf, tail, batch))"
  by pat_completeness auto
termination by (relation "measure (\<lambda>(buf, tail, batch). sb_head buf - tail)") (auto simp: with_span_slot_def)

declare drain.simps [simp del]

text \<open>One cycle of the exporter thread: the batch given to the callback, and the tracer.\<close>

definition exporter_cycle :: "u64 \<Rightarrow> tracer \<Rightarrow> trace_span list \<times> tracer" where
  "exporter_cycle now t =
     (let t = t\<lparr>tr_last_export_ns := now, tr_cached_time_ns := now\<rparr>;
          t = t\<lparr>tr_sampling := sampling_state_update (tr_sampling t) (tr_buffer t) (tr_spans_dropped t) now\<rparr>;
          (buf, tail, batch) = drain (tr_buffer t) (sb_tail (tr_buffer t)) [];
          t = t\<lparr>tr_buffer := buf\<lparr>sb_tail := tail\<rparr>\<rparr>
      in if batch \<noteq> [] \<and> tr_export_callback t
         then (batch, t\<lparr>tr_exports_attempted := tr_exports_attempted t + 1, tr_exports_succeeded := tr_exports_succeeded t + 1\<rparr>)
         else ([], t))"

function final_drain :: "span_buffer \<Rightarrow> nat \<Rightarrow> trace_span list \<Rightarrow> span_buffer \<times> nat \<times> trace_span list" where
  "final_drain buf tail batch =
     (if tail < sb_head buf \<and> length batch < EXPORT_BATCH_MAX then
        let i = tail mod sb_capacity buf; slot = sb_slots buf ! i
        in final_drain (with_span_slot i (\<lambda>s. s\<lparr>ss_state := SPAN_SLOT_EMPTY\<rparr>) buf) (tail + 1)
             (if ss_state slot \<noteq> SPAN_SLOT_EMPTY \<and> sp_sampled (ss_span slot) then batch @ [ss_span slot] else batch)
      else (buf, tail, batch))"
  by pat_completeness auto
termination by (relation "measure (\<lambda>(buf, tail, batch). sb_head buf - tail)") (auto simp: with_span_slot_def)

declare final_drain.simps [simp del]

definition exporter_shutdown :: "tracer \<Rightarrow> trace_span list \<times> tracer" where
  "exporter_shutdown t =
     (let (buf, tail, batch) = final_drain (tr_buffer t) (sb_tail (tr_buffer t)) [];
          t = t\<lparr>tr_buffer := buf\<lparr>sb_tail := tail\<rparr>\<rparr>
      in (if tr_export_callback t then batch else [], t))"

section \<open>Lifecycle\<close>

definition zero_span :: trace_span where
  "zero_span = \<lparr>sp_trace_id = trace_id_zero, sp_span_id = 0, sp_parent_span_id = 0, sp_operation = [], sp_start_time_ns = 0,
     sp_end_time_ns = 0, sp_tags = [], sp_sampled = False, sp_status = SPAN_STATUS_UNSET\<rparr>"

definition tracer_alloc_and_init :: "u64 \<Rightarrow> tracer_config \<Rightarrow> tracer option" where
  "tracer_alloc_and_init now cfg =
     map_option (\<lambda>cap. \<lparr>tr_buffer = \<lparr>sb_head = 0, sb_capacity = unat cap, sb_tail = 0,
         sb_slots = replicate (unat cap) \<lparr>ss_state = SPAN_SLOT_EMPTY, ss_span = zero_span\<rparr>\<rparr>,
       tr_sampling = \<lparr>sa_always_sample = sg_always_sample (tg_sampling cfg), sa_always_drop = sg_always_drop (tg_sampling cfg),
         sa_backpressure_sample = sg_backpressure_sample (tg_sampling cfg), sa_backpressure_drop = sg_backpressure_drop (tg_sampling cfg),
         sa_in_backpressure = False, sa_bp_fill_signal = False, sa_bp_drop_signal = False, sa_drop_window_start_ns = 0,
         sa_drops_at_window_start = 0, sa_last_drop_seen_ns = 0, sa_sample_counter = 0\<rparr>,
       tr_export_interval_ms = (if tg_export_interval_ms cfg \<noteq> 0 then tg_export_interval_ms cfg else SPAN_EXPORT_INTERVAL_MS_DEFAULT),
       tr_export_callback = tg_export_callback cfg, tr_cached_time_ns = now, tr_last_export_ns = 0, tr_spans_created = 0,
       tr_spans_sampled_in = 0, tr_spans_sampled_out = 0, tr_spans_dropped = 0, tr_exports_attempted = 0, tr_exports_succeeded = 0,
       tr_refcount = 1, tr_shutdown = False, tr_exporter_started = True\<rparr>)
     (ring_capacity (tg_buffer_capacity cfg) SPAN_BUFFER_DEFAULT_CAPACITY DISTRIC_MAX_SPANS_BUFFER)"

definition trace_init :: "u64 \<Rightarrow> bool \<Rightarrow> tracer option" where
  "trace_init now export_cb = tracer_alloc_and_init now
     \<lparr>tg_sampling = \<lparr>sg_always_sample = 1, sg_always_drop = 0, sg_backpressure_sample = 1, sg_backpressure_drop = 9\<rparr>,
      tg_buffer_capacity = 0, tg_export_interval_ms = 0, tg_export_callback = export_cb\<rparr>"

definition trace_init_with_sampling :: "u64 \<Rightarrow> trace_sampling_config \<Rightarrow> bool \<Rightarrow> tracer result option" where
  "trace_init_with_sampling now sampling export_callback =
     (if \<not> export_callback then Some (Inl DISTRIC_ERR_INVALID_ARG)
      else map_option Inr (tracer_alloc_and_init now \<lparr>tg_sampling = sampling, tg_buffer_capacity = 0, tg_export_interval_ms = 0,
        tg_export_callback = export_callback\<rparr>))"

definition trace_init_with_config :: "u64 \<Rightarrow> tracer_config \<Rightarrow> tracer result option" where
  "trace_init_with_config now config =
     (if \<not> tg_export_callback config then Some (Inl DISTRIC_ERR_INVALID_ARG)
      else map_option Inr (tracer_alloc_and_init now config))"

definition trace_retain :: "tracer \<Rightarrow> tracer" where
  "trace_retain t = t\<lparr>tr_refcount := tr_refcount t + 1\<rparr>"

definition trace_shutdown :: "tracer \<Rightarrow> tracer" where
  "trace_shutdown t = (if tr_exporter_started t then t\<lparr>tr_shutdown := True\<rparr> else t)"

definition trace_release :: "tracer \<Rightarrow> bool \<times> tracer" where
  "trace_release t = (let t' = t\<lparr>tr_refcount := tr_refcount t - 1\<rparr>
     in if tr_refcount t = 1 then (True, trace_shutdown t') else (False, t'))"

section \<open>Spans\<close>

definition span_beyond :: "span_buffer \<Rightarrow> nat \<Rightarrow> bool" where
  "span_beyond buf i \<longleftrightarrow> (int i - int (sb_tail buf)) mod 2 ^ 64 \<ge> int (sb_capacity buf)"

definition drop_span :: "tracer \<Rightarrow> tracer" where
  "drop_span t = t\<lparr>tr_spans_dropped := tr_spans_dropped t + 1\<rparr>"

definition in_buffer :: "(span_buffer \<Rightarrow> span_buffer) \<Rightarrow> tracer \<Rightarrow> tracer" where
  "in_buffer f t = t\<lparr>tr_buffer := f (tr_buffer t)\<rparr>"

text \<open>Result code, the span, the next seed and the tracer. A slot that is not empty stays so while nothing else runs.\<close>

definition start_span_internal ::
  "u64 \<Rightarrow> u64 \<Rightarrow> tracer \<Rightarrow> trace_id \<Rightarrow> u64 \<Rightarrow> cstr \<Rightarrow> distric_err \<times> nat option \<times> u64 \<times> tracer" where
  "start_span_internal now seed t trace_id parent_id operation =
     (if tr_shutdown t then (DISTRIC_ERR_SHUTDOWN, None, seed, t)
      else
        let t = t\<lparr>tr_spans_created := tr_spans_created t + 1\<rparr>
        in if span_beyond (tr_buffer t) (sb_head (tr_buffer t)) then (DISTRIC_ERR_BACKPRESSURE, None, seed, drop_span t)
        else case sampling_should_sample (tr_sampling t) of (sampled, s) \<Rightarrow>
          let t = t\<lparr>tr_sampling := s\<rparr>
          in if \<not> sampled then (DISTRIC_OK, None, seed, t\<lparr>tr_spans_sampled_out := tr_spans_sampled_out t + 1\<rparr>)
             else
               let t = t\<lparr>tr_spans_sampled_in := tr_spans_sampled_in t + 1\<rparr>;
                   idx = sb_head (tr_buffer t);
                   t = in_buffer (\<lambda>b. b\<lparr>sb_head := idx + 1\<rparr>) t;
                   i = idx mod sb_capacity (tr_buffer t)
               in if span_beyond (tr_buffer t) idx \<or> ss_state (sb_slots (tr_buffer t) ! i) \<noteq> SPAN_SLOT_EMPTY
                  then (DISTRIC_ERR_BACKPRESSURE, None, seed, drop_span (in_buffer (with_span_slot i (\<lambda>s. s\<lparr>ss_state := SPAN_SLOT_EMPTY\<rparr>)) t))
                  else
                    let (tid, seed) = (if trace_id_is_zero trace_id then gen_trace_id seed else (trace_id, seed));
                        (sid, seed) = gen_id seed;
                        span = zero_span\<lparr>sp_trace_id := tid, sp_span_id := sid, sp_parent_span_id := parent_id, sp_sampled := True,
                          sp_start_time_ns := (if tr_cached_time_ns t = 0 then now else tr_cached_time_ns t), sp_operation := strncpy 127 operation\<rparr>
                    in (DISTRIC_OK, Some i, seed, in_buffer (with_span_slot i (\<lambda>s. \<lparr>ss_state = SPAN_SLOT_PROCESSING, ss_span = span\<rparr>)) t))"

definition trace_start_span :: "u64 \<Rightarrow> u64 \<Rightarrow> tracer \<Rightarrow> cstr \<Rightarrow> distric_err \<times> nat option \<times> u64 \<times> tracer" where
  "trace_start_span now seed t operation = start_span_internal now seed t trace_id_zero 0 operation"

text \<open>\<open>parent\<close> is the content of the parent span, if there is one.\<close>

definition trace_start_child_span :: "u64 \<Rightarrow> u64 \<Rightarrow> tracer \<Rightarrow> trace_span option \<Rightarrow> cstr \<Rightarrow> distric_err \<times> nat option \<times> u64 \<times> tracer" where
  "trace_start_child_span now seed t parent operation =
     (case parent of
        Some p \<Rightarrow> if sp_sampled p then start_span_internal now seed t (sp_trace_id p) (sp_span_id p) operation
                  else start_span_internal now seed t trace_id_zero 0 operation
      | None \<Rightarrow> start_span_internal now seed t trace_id_zero 0 operation)"

definition trace_start_span_from_context :: "u64 \<Rightarrow> u64 \<Rightarrow> tracer \<Rightarrow> trace_context option \<Rightarrow> cstr \<Rightarrow> distric_err \<times> nat option \<times> u64 \<times> tracer" where
  "trace_start_span_from_context now seed t ctx operation =
     (case ctx of
        Some c \<Rightarrow> start_span_internal now seed t (tc_trace_id c) (tc_span_id c) operation
      | None \<Rightarrow> start_span_internal now seed t trace_id_zero 0 operation)"

definition trace_finish_span :: "u64 \<Rightarrow> tracer \<Rightarrow> nat option \<Rightarrow> tracer" where
  "trace_finish_span now t span =
     (case span of
        None \<Rightarrow> t
      | Some i \<Rightarrow>
          (let sp = ss_span (sb_slots (tr_buffer t) ! i)
           in if \<not> sp_sampled sp then t
              else in_buffer (with_span_slot i (\<lambda>s. \<lparr>ss_state = SPAN_SLOT_FILLED,
                     ss_span = sp\<lparr>sp_end_time_ns := (if now \<le> sp_start_time_ns sp then sp_start_time_ns sp + 1 else now)\<rparr>\<rparr>)) t))"

definition trace_add_tag :: "trace_span \<Rightarrow> cstr \<Rightarrow> cstr option \<Rightarrow> distric_err \<times> trace_span" where
  "trace_add_tag span key value =
     (if \<not> sp_sampled span then (DISTRIC_OK, span)
      else if length (sp_tags span) \<ge> DISTRIC_MAX_SPAN_TAGS then (DISTRIC_ERR_BUFFER_OVERFLOW, span)
      else (DISTRIC_OK, span\<lparr>sp_tags := sp_tags span @ [\<lparr>st_key = strncpy 63 key, st_value = strncpy 255 (or_empty value)\<rparr>]\<rparr>))"

definition trace_set_status :: "trace_span \<Rightarrow> span_status \<Rightarrow> trace_span" where
  "trace_set_status span status = (if sp_sampled span then span\<lparr>sp_status := status\<rparr> else span)"

definition trace_get_stats :: "tracer \<Rightarrow> tracer_stats" where
  "trace_get_stats t =
     (let bp = sa_in_backpressure (tr_sampling t);
          sw = (if bp then sa_backpressure_sample (tr_sampling t) else sa_always_sample (tr_sampling t));
          dw = (if bp then sa_backpressure_drop (tr_sampling t) else sa_always_drop (tr_sampling t));
          total = sw + dw
      in \<lparr>ts_spans_created = tr_spans_created t, ts_spans_sampled_in = tr_spans_sampled_in t, ts_spans_sampled_out = tr_spans_sampled_out t,
          ts_spans_dropped_backpressure = tr_spans_dropped t, ts_exports_attempted = tr_exports_attempted t,
          ts_exports_succeeded = tr_exports_succeeded t, ts_queue_depth = sb_head (tr_buffer t) - sb_tail (tr_buffer t),
          ts_queue_capacity = sb_capacity (tr_buffer t), ts_in_backpressure = bp,
          ts_effective_sample_rate_pct = (if total \<noteq> 0 then sw * 100 div total else 0)\<rparr>)"

definition trace_is_exporter_healthy :: "u64 \<Rightarrow> tracer \<Rightarrow> bool" where
  "trace_is_exporter_healthy now t =
     (if \<not> tr_exporter_started t then False
      else if tr_last_export_ns t = 0 then True
      else now - tr_last_export_ns t < ucast (tr_export_interval_ms t) * 1000000 * TRACER_EXPORTER_STALE_MULTIPLIER)"

section \<open>Context propagation\<close>

definition hex_digit :: "u8 \<Rightarrow> u8" where
  "hex_digit n = (if n < 10 then 48 + n else 87 + n)"

definition hex_byte :: "u8 \<Rightarrow> bytes" where
  "hex_byte b = [hex_digit (drop_bit 4 b), hex_digit (b AND 15)]"

text \<open>\<^verbatim>\<open>%016llx\<close>.\<close>

definition hex16 :: "u64 \<Rightarrow> bytes" where
  "hex16 w = concat (map hex_byte (be_bytes 8 w))"

text \<open>Result code and the text in \<^verbatim>\<open>header_buf\<close>.\<close>

definition trace_inject_context :: "trace_span \<Rightarrow> nat \<Rightarrow> distric_err \<times> cstr" where
  "trace_inject_context span buf_size =
     (if buf_size = 0 then (DISTRIC_ERR_INVALID_ARG, [])
      else if \<not> sp_sampled span then (DISTRIC_OK, [])
      else
        let text = hex16 (ti_high (sp_trace_id span)) @ hex16 (ti_low (sp_trace_id span)) @ [45] @ hex16 (sp_span_id span)
        in (if length text < buf_size then DISTRIC_OK else DISTRIC_ERR_BUFFER_OVERFLOW, take (buf_size - 1) text))"

definition hex_value :: "u8 \<Rightarrow> u64 option" where
  "hex_value c =
     (if 48 \<le> c \<and> c \<le> 57 then Some (ucast (c - 48))
      else if 97 \<le> c \<and> c \<le> 102 then Some (ucast (c - 87))
      else if 65 \<le> c \<and> c \<le> 70 then Some (ucast (c - 55)) else None)"

text \<open>\<^verbatim>\<open>sscanf\<close> with \<^verbatim>\<open>%<width>llx\<close>: white space, an optional sign and prefix, and the digits within the width.\<close>

definition scan_hex :: "nat \<Rightarrow> bytes \<Rightarrow> (u64 \<times> bytes) option" where
  "scan_hex width s =
     (let s = dropWhile is_space s;
          (neg, w, s) = (case s of c # r \<Rightarrow> if c = 45 then (True, width - 1, r) else if c = 43 then (False, width - 1, r) else (False, width, s)
                         | [] \<Rightarrow> (False, width, s));
          (w, s) = (case s of z # x # r \<Rightarrow> if z = 48 \<and> (x = 120 \<or> x = 88) \<and> w > 2 then (w - 2, r) else (w, s) | _ \<Rightarrow> (w, s));
          ds = take w (takeWhile (\<lambda>c. hex_value c \<noteq> None) s);
          v = foldl (\<lambda>a c. push_bit 4 a OR the (hex_value c)) 0 ds
      in if ds = [] then None else Some (if neg then - v else v, drop (length ds) s))"

definition trace_extract_context :: "cstr \<Rightarrow> trace_context result" where
  "trace_extract_context header =
     (case scan_hex 16 header of
        None \<Rightarrow> Inl DISTRIC_ERR_INVALID_FORMAT
      | Some (tid_hi, s) \<Rightarrow> (case scan_hex 16 s of
        None \<Rightarrow> Inl DISTRIC_ERR_INVALID_FORMAT
      | Some (tid_lo, s) \<Rightarrow> (case s of
        [] \<Rightarrow> Inl DISTRIC_ERR_INVALID_FORMAT
      | c # s \<Rightarrow> if c \<noteq> 45 then Inl DISTRIC_ERR_INVALID_FORMAT
                 else (case scan_hex 16 s of
                         None \<Rightarrow> Inl DISTRIC_ERR_INVALID_FORMAT
                       | Some (sid, s) \<Rightarrow> Inr \<lparr>tc_trace_id = \<lparr>ti_high = tid_hi, ti_low = tid_lo\<rparr>, tc_span_id = sid\<rparr>))))"


section \<open>Runs of a tracer\<close>

text \<open>What the exporter and the callers do, one call at a time; spans are named by their slot.\<close>

datatype span_event =
    Start_Span u64 trace_id u64 cstr
  | Finish_Span u64 nat
  | Tag_Span nat cstr "cstr option"
  | Mark_Span nat span_status
  | Export_Spans u64

record tracer_system =
  sy_tracer :: tracer
  sy_seed :: u64
  sy_started :: "trace_span list"
  sy_exported :: "trace_span list"

definition span_at :: "tracer \<Rightarrow> nat \<Rightarrow> trace_span" where
  "span_at t i = ss_span (sb_slots (tr_buffer t) ! i)"

definition on_span :: "nat \<Rightarrow> (trace_span \<Rightarrow> trace_span) \<Rightarrow> tracer \<Rightarrow> tracer" where
  "on_span i f = in_buffer (with_span_slot i (\<lambda>s. s\<lparr>ss_span := f (ss_span s)\<rparr>))"

fun tracer_event :: "span_event \<Rightarrow> tracer_system \<Rightarrow> tracer_system" where
  "tracer_event (Start_Span now tid pid op) y =
     (case start_span_internal now (sy_seed y) (sy_tracer y) tid pid op of (e, span, seed, t) \<Rightarrow>
        y\<lparr>sy_tracer := t, sy_seed := seed,
          sy_started := sy_started y @ (case span of None \<Rightarrow> [] | Some i \<Rightarrow> [span_at t i])\<rparr>)"
| "tracer_event (Finish_Span now i) y = y\<lparr>sy_tracer := trace_finish_span now (sy_tracer y) (Some i)\<rparr>"
| "tracer_event (Tag_Span i k v) y = y\<lparr>sy_tracer := on_span i (\<lambda>s. snd (trace_add_tag s k v)) (sy_tracer y)\<rparr>"
| "tracer_event (Mark_Span i st) y = y\<lparr>sy_tracer := on_span i (\<lambda>s. trace_set_status s st) (sy_tracer y)\<rparr>"
| "tracer_event (Export_Spans now) y =
     (case exporter_cycle now (sy_tracer y) of (batch, t) \<Rightarrow> y\<lparr>sy_tracer := t, sy_exported := sy_exported y @ batch\<rparr>)"

fun event_slot :: "span_event \<Rightarrow> nat option" where
  "event_slot (Finish_Span now i) = Some i"
| "event_slot (Tag_Span i k v) = Some i"
| "event_slot (Mark_Span i st) = Some i"
| "event_slot _ = None"

text \<open>The exporter finds no span that is still in use: every slot between the ends of the queue is filled.\<close>

definition all_finished :: "tracer \<Rightarrow> bool" where
  "all_finished t = list_all (\<lambda>i. ss_state (sb_slots (tr_buffer t) ! (i mod sb_capacity (tr_buffer t))) = SPAN_SLOT_FILLED)
     [sb_tail (tr_buffer t)..<sb_head (tr_buffer t)]"

text \<open>
  A caller that uses a span only while its slot is in use, and an exporter whose cycles meet no unfinished span.
  Its code has no test for the latter: a span that is not finished in time is exported as it is
  (\<open>unfinished_span_exported\<close> below).
\<close>

definition timely :: "span_event \<Rightarrow> tracer \<Rightarrow> bool" where
  "timely ev t =
     (case event_slot ev of
        None \<Rightarrow> (case ev of Export_Spans now \<Rightarrow> all_finished t | _ \<Rightarrow> True)
      | Some i \<Rightarrow> i < sb_capacity (tr_buffer t) \<and> ss_state (sb_slots (tr_buffer t) ! i) \<noteq> SPAN_SLOT_EMPTY)"

definition timely_run :: "span_event list \<Rightarrow> tracer_system \<Rightarrow> tracer_system" where
  "timely_run evs y = foldl (\<lambda>y ev. if timely ev (sy_tracer y) then tracer_event ev y else y) y evs"

definition tracer_run :: "span_event list \<Rightarrow> tracer_system \<Rightarrow> tracer_system" where
  "tracer_run evs y = foldl (\<lambda>y ev. tracer_event ev y) y evs"

definition tracer_start :: "u64 \<Rightarrow> tracer \<Rightarrow> tracer_system" where
  "tracer_start seed t = \<lparr>sy_tracer = t, sy_seed = seed, sy_started = [], sy_exported = []\<rparr>"

text \<open>What identifies a span: all that its start fixes.\<close>

definition span_key :: "trace_span \<Rightarrow> trace_id \<times> u64 \<times> u64 \<times> cstr \<times> u64" where
  "span_key s = (sp_trace_id s, sp_span_id s, sp_parent_span_id s, sp_operation s, sp_start_time_ns s)"

definition slot_of :: "tracer \<Rightarrow> nat \<Rightarrow> span_slot" where
  "slot_of t i = sb_slots (tr_buffer t) ! (i mod sb_capacity (tr_buffer t))"

definition queued :: "tracer \<Rightarrow> (trace_id \<times> u64 \<times> u64 \<times> cstr \<times> u64) list" where
  "queued t = map (\<lambda>i. span_key (ss_span (slot_of t i))) [sb_tail (tr_buffer t)..<sb_head (tr_buffer t)]"

definition live_slot :: "span_slot \<Rightarrow> bool" where
  "live_slot s \<longleftrightarrow> ss_state s \<noteq> SPAN_SLOT_EMPTY \<and> sp_sampled (ss_span s)"

definition buffer_ok :: "tracer \<Rightarrow> bool" where
  "buffer_ok t \<longleftrightarrow> (let b = tr_buffer t in
     0 < sb_capacity b \<and> sb_capacity b \<le> 4096 \<and> length (sb_slots b) = sb_capacity b
     \<and> sb_tail b \<le> sb_head b \<and> sb_head b \<le> sb_tail b + sb_capacity b)"

definition slots_ok :: "tracer \<Rightarrow> bool" where
  "slots_ok t \<longleftrightarrow> (let b = tr_buffer t in
     (\<forall>i \<in> {sb_tail b..<sb_head b}. live_slot (slot_of t i))
     \<and> (\<forall>i \<in> {sb_head b..<sb_tail b + sb_capacity b}. ss_state (slot_of t i) = SPAN_SLOT_EMPTY))"

definition tracer_inv :: "tracer \<Rightarrow> bool" where
  "tracer_inv t \<longleftrightarrow> buffer_ok t \<and> slots_ok t"

definition system_ok :: "tracer_system \<Rightarrow> bool" where
  "system_ok y \<longleftrightarrow> tracer_inv (sy_tracer y) \<and> tr_export_callback (sy_tracer y) \<and> \<not> tr_shutdown (sy_tracer y)
     \<and> map span_key (sy_started y) = map span_key (sy_exported y) @ queued (sy_tracer y)"

text \<open>
  A completed span: its end has been set. (The code adds one to the start if the clock does not show a later time,
  which wraps around for the largest start.)
\<close>

definition finished_span :: "trace_span \<Rightarrow> bool" where
  "finished_span s \<longleftrightarrow> sp_start_time_ns s < sp_end_time_ns s \<or> sp_start_time_ns s = - 1"

definition filled_slots_ok :: "span_buffer \<Rightarrow> bool" where
  "filled_slots_ok b \<longleftrightarrow> list_all (\<lambda>s. if ss_state s = SPAN_SLOT_FILLED then finished_span (ss_span s) else True) (sb_slots b)"

definition completed_ok :: "tracer_system \<Rightarrow> bool" where
  "completed_ok y \<longleftrightarrow> filled_slots_ok (tr_buffer (sy_tracer y)) \<and> list_all finished_span (sy_exported y)"

definition always_on :: "sampling_state \<Rightarrow> bool" where
  "always_on s \<longleftrightarrow> sa_always_drop s = 0 \<and> sa_backpressure_drop s = 0 \<and> sa_always_sample s \<noteq> 0 \<and> sa_backpressure_sample s \<noteq> 0"

text \<open>A claimed slot that is empty holds the exporter, and nobody fills it.\<close>

definition stuck :: "nat \<Rightarrow> tracer \<Rightarrow> bool" where
  "stuck p t \<longleftrightarrow> buffer_ok t \<and> sb_tail (tr_buffer t) = p \<and> p < sb_head (tr_buffer t) \<and> ss_state (slot_of t p) = SPAN_SLOT_EMPTY"

text \<open>An idle tracer that keeps every span; slot 0 is left in the state \<open>st\<close>.\<close>

definition idle :: "nat \<Rightarrow> nat \<Rightarrow> span_slot_state \<Rightarrow> tracer \<Rightarrow> bool" where
  "idle C n st t \<longleftrightarrow> buffer_ok t \<and> sb_capacity (tr_buffer t) = C \<and> sb_tail (tr_buffer t) = n \<and> sb_head (tr_buffer t) = n
     \<and> tr_export_callback t \<and> \<not> tr_shutdown t \<and> always_on (tr_sampling t)
     \<and> (\<forall>j < C. ss_state (sb_slots (tr_buffer t) ! j) = (if j = 0 then st else SPAN_SLOT_EMPTY))"

text \<open>How many of the next \<open>n\<close> decisions say yes.\<close>

primrec sampled_in :: "nat \<Rightarrow> sampling_state \<Rightarrow> nat" where
  "sampled_in 0 s = 0"
| "sampled_in (Suc n) s = (case sampling_should_sample s of (b, s') \<Rightarrow> (if b then 1 else 0) + sampled_in n s')"

definition sample_weight :: "sampling_state \<Rightarrow> nat" where
  "sample_weight s = unat (if sa_in_backpressure s then sa_backpressure_sample s else sa_always_sample s)"

definition drop_weight :: "sampling_state \<Rightarrow> nat" where
  "drop_weight s = unat (if sa_in_backpressure s then sa_backpressure_drop s else sa_always_drop s)"

definition sample_sampling :: sampling_state where
  "sample_sampling = \<lparr>sa_always_sample = 1, sa_always_drop = 0, sa_backpressure_sample = 1, sa_backpressure_drop = 9,
     sa_in_backpressure = True, sa_bp_fill_signal = True, sa_bp_drop_signal = False, sa_drop_window_start_ns = 0,
     sa_drops_at_window_start = 0, sa_last_drop_seen_ns = 0, sa_sample_counter = 7\<rparr>"

definition sample_span :: trace_span where
  "sample_span = zero_span\<lparr>sp_trace_id := \<lparr>ti_high = 11, ti_low = 13\<rparr>, sp_span_id := 17, sp_sampled := True\<rparr>"

definition sample_tracer_config :: tracer_config where
  "sample_tracer_config = \<lparr>tg_sampling = \<lparr>sg_always_sample = 1, sg_always_drop = 0, sg_backpressure_sample = 1, sg_backpressure_drop = 0\<rparr>,
     tg_buffer_capacity = 4, tg_export_interval_ms = 0, tg_export_callback = True\<rparr>"

text \<open>
  A ring once around: the first span is finished only after the exporter took it, every other in time, and one
  more is started in the slot of the first.
\<close>

definition late_finish_trace :: "nat \<Rightarrow> span_event list" where
  "late_finish_trace C = [Start_Span 1 trace_id_zero 0 [], Export_Spans 2, Finish_Span 3 0]
     @ concat (map (\<lambda>i. [Start_Span 4 trace_id_zero 0 [], Finish_Span 5 i, Export_Spans 6]) [1..<C])
     @ [Start_Span 7 trace_id_zero 0 []]"

section \<open>The propagated context\<close>

lemma nibbles: "(drop_bit 4 b :: u8) < 16" "(b AND 15 :: u8) < 16"
proof -
  have "unat (drop_bit 4 b) = unat b div 16"
    by (simp only: unsigned_drop_bit_eq) (use unsigned_less [of b, where ?'a = nat] in \<open>simp add: drop_bit_eq_div take_bit_nat_eq_self\<close>)
  then show "drop_bit 4 b < 16"
    using unsigned_less [of b, where ?'a = nat] by (simp add: word_less_nat_alt div_less_iff_less_mult)
  have "b AND 15 = take_bit 4 b" by (simp add: take_bit_eq_mask mask_eq_exp_minus_1)
  then have "unat (b AND 15) = take_bit 4 (unat b)" by (simp only: unsigned_take_bit_eq)
  then show "b AND 15 < 16" using take_bit_nat_less_exp [of 4 "unat b"] by (simp add: word_less_nat_alt)
qed

lemma hex_value_digit:
  assumes "n < 16"
  shows "hex_value (hex_digit n) = Some (ucast n)" and "\<not> is_space (hex_digit n)"
    and "hex_digit n \<noteq> 45" and "hex_digit n \<noteq> 43" and "hex_digit n \<noteq> 120" and "hex_digit n \<noteq> 88"
proof -
  have "unat n \<in> set [0..<16]" using assms by (simp add: word_less_nat_alt)
  then have "n \<in> word_of_nat ` set [0..<16]" by (intro image_eqI [of _ _ "unat n"]) simp_all
  then have "n \<in> set (map word_of_nat [0..<16])" by simp
  moreover have "\<forall>n \<in> set (map word_of_nat [0..<16]). hex_value (hex_digit n) = Some (ucast n) \<and> \<not> is_space (hex_digit n)
      \<and> hex_digit n \<noteq> 45 \<and> hex_digit n \<noteq> 43 \<and> hex_digit n \<noteq> 120 \<and> hex_digit n \<noteq> 88"
    by (simp add: upt_rec hex_value_def hex_digit_def is_space_def)
  ultimately show "hex_value (hex_digit n) = Some (ucast n)" "\<not> is_space (hex_digit n)" "hex_digit n \<noteq> 45"
    "hex_digit n \<noteq> 43" "hex_digit n \<noteq> 120" "hex_digit n \<noteq> 88" by blast+
qed

lemma join_nibbles:
  "(push_bit 8 a OR push_bit 4 (ucast (drop_bit 4 b))) OR ucast (b AND 15) = (push_bit 8 a OR ucast b :: u64)"
proof -
  have "b AND 15 = take_bit 4 b" by (simp add: take_bit_eq_mask mask_eq_exp_minus_1)
  then show ?thesis by (intro bit_eqI) (auto simp: bit_simps not_less)
qed

lemma hex_value_text:
  "foldl (\<lambda>a c. push_bit 4 a OR the (hex_value c)) a (concat (map hex_byte bs)) = foldl (\<lambda>a b. push_bit 8 a OR ucast b) (a :: u64) bs"
  by (induction bs arbitrary: a) (simp_all add: hex_byte_def hex_value_digit nibbles join_nibbles)

lemma hex_text_digits: "c \<in> set (concat (map hex_byte bs)) \<Longrightarrow> \<exists>n < 16. c = hex_digit n"
  using nibbles by (auto simp: hex_byte_def)

lemma length_hex_text: "length (concat (map hex_byte bs)) = 2 * length bs"
  by (induction bs) (simp_all add: hex_byte_def)

lemma length_hex16 [simp]: "length (hex16 w) = 16"
  by (simp add: hex16_def length_hex_text)

lemma scan_hex16: "scan_hex 16 (hex16 w @ rest) = Some (w, rest)"
proof -
  obtain a b t where t: "hex16 w = hex_digit a # hex_digit b # t" and ab: "a < 16" "b < 16"
  proof -
    have "be_bytes 8 w \<noteq> []" using length_be_bytes [of 8 w] by fastforce
    then obtain x r where "be_bytes 8 w = x # r" by (cases "be_bytes 8 w") auto
    then show thesis using that nibbles [of x] by (simp add: hex16_def hex_byte_def)
  qed
  have "takeWhile (\<lambda>c. hex_value c \<noteq> None) (hex16 w @ rest) = hex16 w @ takeWhile (\<lambda>c. hex_value c \<noteq> None) rest"
    using hex_text_digits [of _ "be_bytes 8 w"] hex_value_digit(1) unfolding hex16_def by (subst takeWhile_append2) fastforce+
  then have digits: "take 16 (takeWhile (\<lambda>c. hex_value c \<noteq> None) (hex16 w @ rest)) = hex16 w" by simp
  have num: "foldl (\<lambda>a c. push_bit 4 a OR the (hex_value c)) 0 (hex16 w) = w"
    unfolding hex16_def hex_value_text using be_word_be_bytes [of 8 w] by (simp add: be_word_def)
  have start: "dropWhile is_space (hex16 w @ rest) = hex16 w @ rest" using t ab by (simp add: hex_value_digit)
  show ?thesis
    unfolding scan_hex_def Let_def start using digits num t ab length_hex16 [of w]
    by (simp add: hex_value_digit del: length_hex16)
qed

lemma extract_injected:
  "trace_extract_context (hex16 hi @ hex16 lo @ [45] @ hex16 sid) = Inr \<lparr>tc_trace_id = \<lparr>ti_high = hi, ti_low = lo\<rparr>, tc_span_id = sid\<rparr>"
  using scan_hex16 [of sid "[]"] by (simp add: trace_extract_context_def scan_hex16)

section \<open>The ring of spans\<close>

lemma span_beyond_iff:
  assumes "buffer_ok t" "sb_tail (tr_buffer t) \<le> i" "i < sb_tail (tr_buffer t) + 5000"
  shows "span_beyond (tr_buffer t) i \<longleftrightarrow> sb_tail (tr_buffer t) + sb_capacity (tr_buffer t) \<le> i"
proof -
  have "(int i - int (sb_tail (tr_buffer t))) mod 2 ^ 64 = int i - int (sb_tail (tr_buffer t))"
    using assms(2,3) by (intro mod_pos_pos_trivial) auto
  then show ?thesis unfolding span_beyond_def by linarith
qed

lemma with_span_slot_simps [simp]:
  "sb_head (with_span_slot i f b) = sb_head b" "sb_tail (with_span_slot i f b) = sb_tail b"
  "sb_capacity (with_span_slot i f b) = sb_capacity b" "length (sb_slots (with_span_slot i f b)) = length (sb_slots b)"
  "sb_slots (with_span_slot i f b) = (sb_slots b)[i := f (sb_slots b ! i)]"
  by (simp_all add: with_span_slot_def)

lemma in_buffer_simps [simp]:
  "tr_buffer (in_buffer f t) = f (tr_buffer t)" "tr_sampling (in_buffer f t) = tr_sampling t"
  "tr_shutdown (in_buffer f t) = tr_shutdown t" "tr_export_callback (in_buffer f t) = tr_export_callback t"
  "tr_spans_dropped (in_buffer f t) = tr_spans_dropped t" "tr_cached_time_ns (in_buffer f t) = tr_cached_time_ns t"
  by (simp_all add: in_buffer_def)

lemma drop_span_simps [simp]:
  "tr_buffer (drop_span t) = tr_buffer t" "tr_sampling (drop_span t) = tr_sampling t"
  "tr_shutdown (drop_span t) = tr_shutdown t" "tr_export_callback (drop_span t) = tr_export_callback t"
  by (simp_all add: drop_span_def)

text \<open>The three outcomes of a start: refused or sampled out, dropped at a slot in use, or a new span.\<close>

lemma start_cases:
  assumes "buffer_ok t" and "start_span_internal now seed t tid pid op = (e, r, seed', t')"
  obtains (refused) "r = None" "tr_buffer t' = tr_buffer t" "tr_export_callback t' = tr_export_callback t"
      "tr_shutdown t' = tr_shutdown t"
      "e = (if tr_shutdown t then DISTRIC_ERR_SHUTDOWN
            else if sb_head (tr_buffer t) < sb_tail (tr_buffer t) + sb_capacity (tr_buffer t) then DISTRIC_OK else DISTRIC_ERR_BACKPRESSURE)"
      "fst (sampling_should_sample (tr_sampling t)) \<Longrightarrow> e \<noteq> DISTRIC_OK"
  | (clash) "r = None" "sb_head (tr_buffer t) < sb_tail (tr_buffer t) + sb_capacity (tr_buffer t)"
      "ss_state (slot_of t (sb_head (tr_buffer t))) \<noteq> SPAN_SLOT_EMPTY" "tr_export_callback t' = tr_export_callback t"
      "tr_shutdown t' = tr_shutdown t" "e = DISTRIC_ERR_BACKPRESSURE"
      "tr_buffer t' = with_span_slot (sb_head (tr_buffer t) mod sb_capacity (tr_buffer t)) (\<lambda>s. s\<lparr>ss_state := SPAN_SLOT_EMPTY\<rparr>)
         ((tr_buffer t)\<lparr>sb_head := Suc (sb_head (tr_buffer t))\<rparr>)"
  | (started) span where "r = Some (sb_head (tr_buffer t) mod sb_capacity (tr_buffer t))" "e = DISTRIC_OK"
      "sb_head (tr_buffer t) < sb_tail (tr_buffer t) + sb_capacity (tr_buffer t)" "tr_export_callback t' = tr_export_callback t"
      "tr_shutdown t' = tr_shutdown t"
      "ss_state (slot_of t (sb_head (tr_buffer t))) = SPAN_SLOT_EMPTY"
      "sp_sampled span" "sp_parent_span_id span = pid" "trace_id_is_zero tid \<or> sp_trace_id span = tid"
      "sp_end_time_ns span = 0"
      "tr_buffer t' = with_span_slot (sb_head (tr_buffer t) mod sb_capacity (tr_buffer t))
         (\<lambda>s. \<lparr>ss_state = SPAN_SLOT_PROCESSING, ss_span = span\<rparr>) ((tr_buffer t)\<lparr>sb_head := Suc (sb_head (tr_buffer t))\<rparr>)"
proof -
  let ?b = "tr_buffer t"
  have win: "sb_tail ?b \<le> sb_head ?b" "sb_head ?b < sb_tail ?b + 5000" "sb_head ?b \<le> sb_tail ?b + sb_capacity ?b"
    using assms(1) by (auto simp: buffer_ok_def Let_def)
  note beyond = span_beyond_iff [OF assms(1) win(1,2)]
  have beyond': "span_beyond (?b\<lparr>sb_head := n\<rparr>) (sb_head ?b) = span_beyond ?b (sb_head ?b)" for n by (simp add: span_beyond_def)
  obtain smp s where smp: "sampling_should_sample (tr_sampling t) = (smp, s)" by fastforce
  show thesis
  proof (cases "tr_shutdown t \<or> span_beyond ?b (sb_head ?b) \<or> \<not> smp")
    case True
    show thesis
      by (rule refused) (use assms(2) True beyond win(3) in \<open>auto simp: start_span_internal_def Let_def smp split: if_splits\<close>)
  next
    case False
    then have room: "sb_head ?b < sb_tail ?b + sb_capacity ?b" using beyond by simp
    show thesis
    proof (cases "ss_state (slot_of t (sb_head ?b)) = SPAN_SLOT_EMPTY")
      case free: True
      obtain tid' s1 where tid': "(if trace_id_is_zero tid then gen_trace_id seed else (tid, seed)) = (tid', s1)" by fastforce
      then have same: "trace_id_is_zero tid \<or> tid' = tid" by (auto split: if_splits)
      obtain sid s2 where sid: "gen_id s1 = (sid, s2)" by fastforce
      show thesis
        by (rule started [of "zero_span\<lparr>sp_trace_id := tid', sp_span_id := sid, sp_parent_span_id := pid, sp_sampled := True,
              sp_start_time_ns := (if tr_cached_time_ns t = 0 then now else tr_cached_time_ns t), sp_operation := strncpy 127 op\<rparr>"])
          (use assms(2) False free room same in \<open>auto simp: start_span_internal_def Let_def smp beyond' slot_of_def tid' sid zero_span_def
             split: if_splits\<close>)
    next
      case used: False
      show thesis
        by (rule clash)
          (use assms(2) False used room in \<open>auto simp: start_span_internal_def Let_def smp beyond' slot_of_def split: if_splits\<close>)
    qed
  qed
qed

text \<open>The exporter empties the slots it passes, at most 64 spans in a cycle.\<close>

lemma drain_live:
  assumes "\<forall>i \<in> {p..<sb_head b}. live_slot (sb_slots b ! (i mod sb_capacity b))" and "sb_head b \<le> p + sb_capacity b"
    and "0 < sb_capacity b" and "length (sb_slots b) = sb_capacity b" and "length batch \<le> 64"
  shows "\<exists>sl. drain b p batch = (b\<lparr>sb_slots := sl\<rparr>, p + min (64 - length batch) (sb_head b - p),
      batch @ map (\<lambda>i. ss_span (sb_slots b ! (i mod sb_capacity b))) [p..<p + min (64 - length batch) (sb_head b - p)])
    \<and> length sl = sb_capacity b
    \<and> (\<forall>j < sb_capacity b. ss_span (sl ! j) = ss_span (sb_slots b ! j)
        \<and> ss_state (sl ! j) = (if j \<in> (\<lambda>i. i mod sb_capacity b) ` {p..<p + min (64 - length batch) (sb_head b - p)}
             then SPAN_SLOT_EMPTY else ss_state (sb_slots b ! j)))"
  using assms
proof (induction "sb_head b - p" arbitrary: b p batch)
  case 0
  then show ?case by (intro exI [of _ "sb_slots b"]) (simp add: drain.simps)
next
  case (Suc d)
  let ?C = "sb_capacity b" and ?i = "p mod sb_capacity b"
  show ?case
  proof (cases "length batch < 64")
    case False
    then show ?thesis using Suc.prems by (intro exI [of _ "sb_slots b"]) (simp add: drain.simps EXPORT_BATCH_MAX_def)
  next
    case True
    let ?b = "with_span_slot ?i (\<lambda>s. s\<lparr>ss_state := SPAN_SLOT_EMPTY\<rparr>) b" and ?sp = "ss_span (sb_slots b ! ?i)"
    have p: "p < sb_head b" using Suc.hyps(2) by simp
    have live: "live_slot (sb_slots b ! ?i)" using Suc.prems(1) p by simp
    have step: "drain b p batch = drain ?b (Suc p) (batch @ [?sp])"
      using p True live by (subst drain.simps) (simp add: live_slot_def EXPORT_BATCH_MAX_def Let_def)
    have other: "?i \<noteq> i mod ?C" if "i \<in> {Suc p..<sb_head b}" for i
      using window_unique [of p i ?C p] that Suc.prems(2,3) by fastforce
    have live': "\<forall>i \<in> {Suc p..<sb_head ?b}. live_slot (sb_slots ?b ! (i mod sb_capacity ?b))"
      using Suc.prems(1) other by simp
    let ?n = "min (64 - length batch) (sb_head b - p)"
    have n: "Suc p + min (64 - length (batch @ [?sp])) (sb_head ?b - Suc p) = p + ?n" using True p by simp
    have split: "[p..<p + ?n] = p # [Suc p..<p + ?n]" using True p by (simp add: upt_rec)
    obtain sl where sl: "drain ?b (Suc p) (batch @ [?sp]) = (?b\<lparr>sb_slots := sl\<rparr>, p + ?n,
        (batch @ [?sp]) @ map (\<lambda>i. ss_span (sb_slots ?b ! (i mod ?C))) [Suc p..<p + ?n])" "length sl = ?C"
      "\<forall>j < ?C. ss_span (sl ! j) = ss_span (sb_slots ?b ! j)
        \<and> ss_state (sl ! j) = (if j \<in> (\<lambda>i. i mod ?C) ` {Suc p..<p + ?n} then SPAN_SLOT_EMPTY else ss_state (sb_slots ?b ! j))"
      using Suc.hyps(1) [of ?b "Suc p" "batch @ [?sp]", unfolded n] live' Suc.hyps(2) Suc.prems True by force
    have eqb: "?b\<lparr>sb_slots := sl\<rparr> = b\<lparr>sb_slots := sl\<rparr>" by (simp add: with_span_slot_def)
    have same: "map (\<lambda>i. ss_span (sb_slots ?b ! (i mod ?C))) [Suc p..<p + ?n] = map (\<lambda>i. ss_span (sb_slots b ! (i mod ?C))) [Suc p..<p + ?n]"
      using other by (intro map_cong) auto
    have ends: "(\<lambda>i. i mod ?C) ` {p..<p + ?n} = insert ?i ((\<lambda>i. i mod ?C) ` {Suc p..<p + ?n})"
    proof -
      have "{p..<p + ?n} = insert p {Suc p..<p + ?n}" using True p by auto
      then show ?thesis by simp
    qed
    show ?thesis
      unfolding step sl(1) eqb same split ends using sl(2,3) Suc.prems(3,4)
      by (intro exI [of _ sl]) (auto simp: nth_list_update)
  qed
qed

lemma export_live:
  assumes "buffer_ok t" and "\<forall>i \<in> {sb_tail (tr_buffer t)..<sb_head (tr_buffer t)}. live_slot (slot_of t i)"
  obtains sl t' p where "p = sb_tail (tr_buffer t) + min 64 (sb_head (tr_buffer t) - sb_tail (tr_buffer t))"
    "exporter_cycle now t = (if tr_export_callback t then map (\<lambda>i. ss_span (slot_of t i)) [sb_tail (tr_buffer t)..<p] else [], t')"
    "tr_buffer t' = (tr_buffer t)\<lparr>sb_slots := sl, sb_tail := p\<rparr>" "length sl = sb_capacity (tr_buffer t)"
    "\<And>j. j < sb_capacity (tr_buffer t) \<Longrightarrow> ss_span (sl ! j) = ss_span (sb_slots (tr_buffer t) ! j)
       \<and> ss_state (sl ! j) = (if j \<in> (\<lambda>i. i mod sb_capacity (tr_buffer t)) ` {sb_tail (tr_buffer t)..<p}
            then SPAN_SLOT_EMPTY else ss_state (sb_slots (tr_buffer t) ! j))"
    "tr_export_callback t' = tr_export_callback t" "tr_shutdown t' = tr_shutdown t"
    "tr_sampling t' = sampling_state_update (tr_sampling t) (tr_buffer t) (tr_spans_dropped t) now"
proof -
  let ?b = "tr_buffer t"
  let ?p = "sb_tail ?b + min 64 (sb_head ?b - sb_tail ?b)"
  have "0 < sb_capacity ?b" "length (sb_slots ?b) = sb_capacity ?b" "sb_head ?b \<le> sb_tail ?b + sb_capacity ?b"
    using assms(1) by (simp_all add: buffer_ok_def Let_def)
  then obtain sl where sl: "drain ?b (sb_tail ?b) [] = (?b\<lparr>sb_slots := sl\<rparr>, ?p, map (\<lambda>i. ss_span (slot_of t i)) [sb_tail ?b..<?p])"
      "length sl = sb_capacity ?b"
      "\<forall>j < sb_capacity ?b. ss_span (sl ! j) = ss_span (sb_slots ?b ! j)
        \<and> ss_state (sl ! j) = (if j \<in> (\<lambda>i. i mod sb_capacity ?b) ` {sb_tail ?b..<?p} then SPAN_SLOT_EMPTY else ss_state (sb_slots ?b ! j))"
    using drain_live [of "sb_tail ?b" ?b "[]"] assms(2) by (auto simp: slot_of_def)
  obtain t' where t': "exporter_cycle now t = (if tr_export_callback t then map (\<lambda>i. ss_span (slot_of t i)) [sb_tail ?b..<?p] else [], t')"
      "tr_buffer t' = ?b\<lparr>sb_slots := sl, sb_tail := ?p\<rparr>" "tr_export_callback t' = tr_export_callback t" "tr_shutdown t' = tr_shutdown t"
      "tr_sampling t' = sampling_state_update (tr_sampling t) (tr_buffer t) (tr_spans_dropped t) now"
    by (cases "[sb_tail ?b..<?p] \<noteq> [] \<and> tr_export_callback t") (auto simp: exporter_cycle_def Let_def sl(1) simp del: upt_eq_Nil_conv)
  show thesis by (rule that [OF refl t'(1,2) sl(2) _ t'(3,4,5)]) (use sl(3) in blast)
qed

lemma tracer_invD:
  assumes "tracer_inv t"
  shows "buffer_ok t" and "\<And>i. sb_tail (tr_buffer t) \<le> i \<Longrightarrow> i < sb_head (tr_buffer t) \<Longrightarrow> live_slot (slot_of t i)"
    and "\<And>i. sb_head (tr_buffer t) \<le> i \<Longrightarrow> i < sb_tail (tr_buffer t) + sb_capacity (tr_buffer t) \<Longrightarrow> ss_state (slot_of t i) = SPAN_SLOT_EMPTY"
  using assms by (simp_all add: tracer_inv_def slots_ok_def Let_def)

lemma tracer_invI:
  assumes "buffer_ok t" and "\<And>i. sb_tail (tr_buffer t) \<le> i \<Longrightarrow> i < sb_head (tr_buffer t) \<Longrightarrow> live_slot (slot_of t i)"
    and "\<And>i. sb_head (tr_buffer t) \<le> i \<Longrightarrow> i < sb_tail (tr_buffer t) + sb_capacity (tr_buffer t) \<Longrightarrow> ss_state (slot_of t i) = SPAN_SLOT_EMPTY"
  shows "tracer_inv t"
  using assms by (simp add: tracer_inv_def slots_ok_def Let_def)

text \<open>A start puts its span at the end of the queue.\<close>

lemma start_inv:
  assumes "tracer_inv t" and "start_span_internal now seed t tid pid op = (e, r, seed', t')"
  shows "tracer_inv t'" and "queued t' = queued t @ (case r of None \<Rightarrow> [] | Some i \<Rightarrow> [span_key (span_at t' i)])"
    and "tr_export_callback t' = tr_export_callback t"
    and "tr_shutdown t' = tr_shutdown t"
    and "\<not> tr_shutdown t \<Longrightarrow> e = (if length (queued t) < sb_capacity (tr_buffer t) then DISTRIC_OK else DISTRIC_ERR_BACKPRESSURE)"
proof -
  let ?b = "tr_buffer t"
  note ok = tracer_invD [OF assms(1)]
  have win: "0 < sb_capacity ?b" "sb_capacity ?b \<le> 4096" "length (sb_slots ?b) = sb_capacity ?b" "sb_tail ?b \<le> sb_head ?b"
    using ok(1) by (simp_all add: buffer_ok_def Let_def)
  have "tracer_inv t' \<and> queued t' = queued t @ (case r of None \<Rightarrow> [] | Some i \<Rightarrow> [span_key (span_at t' i)])
      \<and> tr_export_callback t' = tr_export_callback t \<and> tr_shutdown t' = tr_shutdown t
      \<and> (\<not> tr_shutdown t \<longrightarrow> e = (if length (queued t) < sb_capacity ?b then DISTRIC_OK else DISTRIC_ERR_BACKPRESSURE))"
    using ok(1) assms(2)
  proof (cases rule: start_cases)
    case refused
    moreover have "length (queued t) < sb_capacity ?b \<longleftrightarrow> sb_head ?b < sb_tail ?b + sb_capacity ?b" using win(4) by (auto simp: queued_def)
    ultimately show ?thesis using assms(1) by (simp add: tracer_inv_def buffer_ok_def slots_ok_def slot_of_def queued_def)
  next
    case clash
    then show ?thesis using ok(3) [of "sb_head ?b"] by simp
  next
    case (started span)
    have at: "slot_of t' i = (if i = sb_head ?b then \<lparr>ss_state = SPAN_SLOT_PROCESSING, ss_span = span\<rparr> else slot_of t i)"
      if "sb_tail ?b \<le> i" "i < sb_tail ?b + sb_capacity ?b" for i
      using window_unique [OF that(1,2) win(4) started(3)] win(1,3) by (auto simp: slot_of_def started nth_list_update)
    have b': "sb_tail (tr_buffer t') = sb_tail ?b" "sb_head (tr_buffer t') = Suc (sb_head ?b)" "sb_capacity (tr_buffer t') = sb_capacity ?b"
      "length (sb_slots (tr_buffer t')) = length (sb_slots ?b)" by (simp_all add: started(11))
    have "tracer_inv t'"
    proof (rule tracer_invI)
      show "buffer_ok t'" using win started(3) by (simp add: buffer_ok_def b')
      show "live_slot (slot_of t' i)" if "sb_tail (tr_buffer t') \<le> i" "i < sb_head (tr_buffer t')" for i
        using that at [of i] ok(2) [of i] started(3,7) by (auto simp: b' live_slot_def)
      show "ss_state (slot_of t' i) = SPAN_SLOT_EMPTY"
        if "sb_head (tr_buffer t') \<le> i" "i < sb_tail (tr_buffer t') + sb_capacity (tr_buffer t')" for i
        using that at [of i] ok(3) [of i] win(4) by (auto simp: b')
    qed
    moreover have "map (\<lambda>i. span_key (ss_span (slot_of t' i))) [sb_tail ?b..<sb_head ?b] = queued t"
      unfolding queued_def using at started(3) by (intro map_cong) auto
    then have "queued t' = queued t @ [span_key span]"
      using win(4) at [of "sb_head ?b"] started(3) by (simp add: queued_def [of t'] b')
    moreover have "span_at t' (sb_head ?b mod sb_capacity ?b) = span" using win(1,3) by (simp add: span_at_def started)
    moreover have "length (queued t) < sb_capacity ?b" using started(3) win(4) by (simp add: queued_def)
    ultimately show ?thesis using started(1,2,4,5) by simp
  qed
  then show "tracer_inv t'" "queued t' = queued t @ (case r of None \<Rightarrow> [] | Some i \<Rightarrow> [span_key (span_at t' i)])"
    "tr_export_callback t' = tr_export_callback t" "tr_shutdown t' = tr_shutdown t"
    "\<not> tr_shutdown t \<Longrightarrow> e = (if length (queued t) < sb_capacity ?b then DISTRIC_OK else DISTRIC_ERR_BACKPRESSURE)" by blast+
qed

text \<open>An exporter cycle takes the first 64 spans of the queue.\<close>

lemma export_inv:
  assumes "tracer_inv t" and "tr_export_callback t" and "exporter_cycle now t = (batch, t')"
  shows "tracer_inv t'" and "map span_key batch = take 64 (queued t)" and "queued t' = drop 64 (queued t)" and "tr_export_callback t'"
    and "tr_shutdown t' = tr_shutdown t"
proof -
  let ?b = "tr_buffer t"
  note ok = tracer_invD [OF assms(1)]
  have win: "0 < sb_capacity ?b" "sb_capacity ?b \<le> 4096" "length (sb_slots ?b) = sb_capacity ?b" "sb_tail ?b \<le> sb_head ?b"
    "sb_head ?b \<le> sb_tail ?b + sb_capacity ?b"
    using ok(1) by (simp_all add: buffer_ok_def Let_def)
  obtain sl p where p: "p = sb_tail ?b + min 64 (sb_head ?b - sb_tail ?b)"
    and batch: "batch = map (\<lambda>i. ss_span (slot_of t i)) [sb_tail ?b..<p]" and b': "tr_buffer t' = ?b\<lparr>sb_slots := sl, sb_tail := p\<rparr>"
    and len: "length sl = sb_capacity ?b" and cb: "tr_export_callback t'" "tr_shutdown t' = tr_shutdown t"
    and sl: "\<And>j. j < sb_capacity ?b \<Longrightarrow> ss_span (sl ! j) = ss_span (sb_slots ?b ! j)
       \<and> ss_state (sl ! j) = (if j \<in> (\<lambda>i. i mod sb_capacity ?b) ` {sb_tail ?b..<p} then SPAN_SLOT_EMPTY else ss_state (sb_slots ?b ! j))"
    by (rule export_live [OF ok(1), of now]) (use ok(2) assms(2,3) in auto)
  have pw: "sb_tail ?b \<le> p" "p \<le> sb_head ?b" "p \<le> sb_tail ?b + 64" using win(4) p by simp_all
  have spans: "ss_span (slot_of t' i) = ss_span (slot_of t i)" for i using sl win(1) by (simp add: slot_of_def b')
  have kept: "ss_state (slot_of t' i) = ss_state (slot_of t i)" if "p \<le> i" "i < sb_tail ?b + sb_capacity ?b" for i
  proof -
    have "i mod sb_capacity ?b \<notin> (\<lambda>i. i mod sb_capacity ?b) ` {sb_tail ?b..<p}"
      using window_unique [of "sb_tail ?b" i "sb_capacity ?b"] that pw win(5) by fastforce
    then show ?thesis using sl [of "i mod sb_capacity ?b"] win(1) by (simp add: slot_of_def b')
  qed
  have gone: "ss_state (slot_of t' i) = SPAN_SLOT_EMPTY" if i: "sb_tail ?b + sb_capacity ?b \<le> i" "i < p + sb_capacity ?b" for i
  proof -
    have "i mod sb_capacity ?b = (i - sb_capacity ?b) mod sb_capacity ?b" using i by (simp add: mod_if)
    then have "i mod sb_capacity ?b \<in> (\<lambda>i. i mod sb_capacity ?b) ` {sb_tail ?b..<p}" using i by (intro image_eqI [of _ _ "i - sb_capacity ?b"]) auto
    then show ?thesis using sl [of "i mod sb_capacity ?b"] win(1) by (simp add: slot_of_def b')
  qed
  show "tracer_inv t'"
  proof (rule tracer_invI)
    show "buffer_ok t'" using win pw len by (auto simp: buffer_ok_def b')
    show "live_slot (slot_of t' i)" if "sb_tail (tr_buffer t') \<le> i" "i < sb_head (tr_buffer t')" for i
      using that ok(2) [of i] kept [of i] spans [of i] pw win(5) by (simp add: b' live_slot_def)
    show "ss_state (slot_of t' i) = SPAN_SLOT_EMPTY"
      if "sb_head (tr_buffer t') \<le> i" "i < sb_tail (tr_buffer t') + sb_capacity (tr_buffer t')" for i
      using that ok(3) [of i] kept [of i] gone [of i] pw by (cases "i < sb_tail ?b + sb_capacity ?b") (auto simp: b')
  qed
  have "take 64 [sb_tail ?b..<sb_head ?b] = [sb_tail ?b..<p]" unfolding p using win(4) by (cases "sb_tail ?b + 64 \<le> sb_head ?b") (simp_all add: min_def)
  then show "map span_key batch = take 64 (queued t)" unfolding batch queued_def by (simp add: take_map o_def)
  show "queued t' = drop 64 (queued t)" unfolding queued_def by (simp add: b' spans p drop_map min_def)
  show "tr_export_callback t'" "tr_shutdown t' = tr_shutdown t" by (fact cb)+
qed

text \<open>Work on a slot in use changes neither the queue nor what identifies its span.\<close>

lemma touch_inv:
  assumes "tracer_inv t" and "j < sb_capacity (tr_buffer t)" and "ss_state (sb_slots (tr_buffer t) ! j) \<noteq> SPAN_SLOT_EMPTY"
    and "tr_buffer t' = with_span_slot j f (tr_buffer t)"
    and "live_slot (sb_slots (tr_buffer t) ! j) \<Longrightarrow> live_slot (f (sb_slots (tr_buffer t) ! j))"
    and "span_key (ss_span (f (sb_slots (tr_buffer t) ! j))) = span_key (ss_span (sb_slots (tr_buffer t) ! j))"
  shows "tracer_inv t'" and "queued t' = queued t"
proof -
  let ?b = "tr_buffer t"
  note ok = tracer_invD [OF assms(1)]
  have win: "0 < sb_capacity ?b" "sb_capacity ?b \<le> 4096" "length (sb_slots ?b) = sb_capacity ?b" "sb_tail ?b \<le> sb_head ?b"
    "sb_head ?b \<le> sb_tail ?b + sb_capacity ?b"
    using ok(1) by (simp_all add: buffer_ok_def Let_def)
  have at: "slot_of t' i = (if i mod sb_capacity ?b = j then f (sb_slots ?b ! j) else slot_of t i)" for i
    using win(1,3) assms(2) by (auto simp: slot_of_def assms(4) nth_list_update)
  show "tracer_inv t'"
  proof (rule tracer_invI)
    show "buffer_ok t'" using win by (simp add: buffer_ok_def assms(4))
    show "live_slot (slot_of t' i)" if "sb_tail (tr_buffer t') \<le> i" "i < sb_head (tr_buffer t')" for i
      using that at [of i] ok(2) [of i] assms(5) by (auto simp: assms(4) slot_of_def)
    show "ss_state (slot_of t' i) = SPAN_SLOT_EMPTY"
      if "sb_head (tr_buffer t') \<le> i" "i < sb_tail (tr_buffer t') + sb_capacity (tr_buffer t')" for i
      using that at [of i] ok(3) [of i] assms(3) by (auto simp: assms(4) slot_of_def)
  qed
  have "span_key (ss_span (slot_of t' i)) = span_key (ss_span (slot_of t i))" for i
    using at [of i] assms(6) by (auto simp: slot_of_def)
  then show "queued t' = queued t" by (simp add: queued_def assms(4))
qed

lemma finish_buffer:
  "tr_buffer (trace_finish_span now t (Some i)) = with_span_slot i (\<lambda>s. if sp_sampled (ss_span s) then \<lparr>ss_state = SPAN_SLOT_FILLED,
     ss_span = (ss_span s)\<lparr>sp_end_time_ns := (if now \<le> sp_start_time_ns (ss_span s) then sp_start_time_ns (ss_span s) + 1 else now)\<rparr>\<rparr> else s)
     (tr_buffer t)"
  "tr_export_callback (trace_finish_span now t span) = tr_export_callback t"
  "tr_shutdown (trace_finish_span now t span) = tr_shutdown t" "tr_sampling (trace_finish_span now t span) = tr_sampling t"
  by (auto simp: trace_finish_span_def Let_def with_span_slot_def split: option.splits)

lemma system_ok_event:
  assumes "system_ok y" and "timely ev (sy_tracer y)"
  shows "system_ok (tracer_event ev y)"
proof (cases ev)
  case (Start_Span now tid pid op)
  obtain e r seed t where st: "start_span_internal now (sy_seed y) (sy_tracer y) tid pid op = (e, r, seed, t)" by (metis prod_cases4)
  show ?thesis
    using start_inv [OF _ st] assms(1) by (auto simp: Start_Span st system_ok_def split: option.splits)
next
  case (Finish_Span now i)
  then show ?thesis
    using touch_inv [of "sy_tracer y" i "trace_finish_span now (sy_tracer y) (Some i)", OF _ _ _ finish_buffer(1)] assms
    by (auto simp: system_ok_def timely_def finish_buffer(2,3) live_slot_def span_key_def)
next
  case (Tag_Span i k v)
  then show ?thesis
    using touch_inv [of "sy_tracer y" i "on_span i (\<lambda>s. snd (trace_add_tag s k v)) (sy_tracer y)" "\<lambda>s. s\<lparr>ss_span := snd (trace_add_tag (ss_span s) k v)\<rparr>"] assms
    by (auto simp: system_ok_def timely_def live_slot_def span_key_def on_span_def trace_add_tag_def)
next
  case (Mark_Span i st)
  then show ?thesis
    using touch_inv [of "sy_tracer y" i "on_span i (\<lambda>s. trace_set_status s st) (sy_tracer y)" "\<lambda>s. s\<lparr>ss_span := trace_set_status (ss_span s) st\<rparr>"] assms
    by (auto simp: system_ok_def timely_def live_slot_def span_key_def on_span_def trace_set_status_def)
next
  case (Export_Spans now)
  obtain batch t where ex: "exporter_cycle now (sy_tracer y) = (batch, t)" by fastforce
  show ?thesis
    using export_inv [OF _ _ ex] assms(1) by (auto simp: Export_Spans ex system_ok_def)
qed

lemma system_ok_run: "system_ok y \<Longrightarrow> system_ok (timely_run evs y)"
  unfolding timely_run_def by (induction evs arbitrary: y) (auto simp: system_ok_event)

text \<open>Filled slots hold completed spans, so an exporter that waits for them hands over completed spans only.\<close>

lemma filled_with_span_slot:
  assumes "filled_slots_ok b"
    and "ss_state (f (sb_slots b ! i)) = SPAN_SLOT_FILLED \<Longrightarrow> i < length (sb_slots b) \<Longrightarrow> finished_span (ss_span (f (sb_slots b ! i)))"
  shows "filled_slots_ok (with_span_slot i f b)"
  using assms by (cases "i < length (sb_slots b)") (auto simp: filled_slots_ok_def list_all_length nth_list_update)

lemma filled_slot: "filled_slots_ok b \<Longrightarrow> i < length (sb_slots b) \<Longrightarrow> ss_state (sb_slots b ! i) = SPAN_SLOT_FILLED
     \<Longrightarrow> finished_span (ss_span (sb_slots b ! i))"
  by (auto simp: filled_slots_ok_def list_all_length)

lemma filled_head [simp]: "filled_slots_ok (b\<lparr>sb_head := n\<rparr>) = filled_slots_ok b"
  by (simp add: filled_slots_ok_def)

lemma finished_stamp:
  "finished_span (s\<lparr>sp_end_time_ns := (if now \<le> sp_start_time_ns s then sp_start_time_ns s + 1 else now)\<rparr>)"
proof -
  have "w < w + 1" if "w \<noteq> - 1" for w :: u64
  proof -
    have "1 + w \<noteq> 0" using that by (metis add.commute add_eq_0_iff)
    then have "unat (1 + w) = Suc (unat w)" by (rule unatSuc)
    then show ?thesis by (simp add: word_less_nat_alt add.commute)
  qed
  then show ?thesis by (auto simp: finished_span_def not_le)
qed

lemma export_completed:
  assumes "tracer_inv t" and "filled_slots_ok (tr_buffer t)" and "exporter_cycle now t = (batch, t')"
  shows "filled_slots_ok (tr_buffer t')" and "all_finished t \<Longrightarrow> list_all finished_span batch"
proof -
  let ?b = "tr_buffer t"
  note ok = tracer_invD [OF assms(1)]
  have win: "0 < sb_capacity ?b" "length (sb_slots ?b) = sb_capacity ?b" "sb_tail ?b \<le> sb_head ?b"
    using ok(1) by (simp_all add: buffer_ok_def Let_def)
  obtain sl p where p: "p = sb_tail ?b + min 64 (sb_head ?b - sb_tail ?b)"
    and batch: "batch = (if tr_export_callback t then map (\<lambda>i. ss_span (slot_of t i)) [sb_tail ?b..<p] else [])"
    and b': "tr_buffer t' = ?b\<lparr>sb_slots := sl, sb_tail := p\<rparr>" and len: "length sl = sb_capacity ?b"
    and sl: "\<And>j. j < sb_capacity ?b \<Longrightarrow> ss_span (sl ! j) = ss_span (sb_slots ?b ! j)
       \<and> ss_state (sl ! j) = (if j \<in> (\<lambda>i. i mod sb_capacity ?b) ` {sb_tail ?b..<p} then SPAN_SLOT_EMPTY else ss_state (sb_slots ?b ! j))"
    by (rule export_live [OF ok(1), of now]) (use ok(2) assms(3) in auto)
  show "filled_slots_ok (tr_buffer t')"
    using sl filled_slot [OF assms(2)] win(2) by (auto simp: filled_slots_ok_def b' list_all_length len)
  assume f: "all_finished t"
  have "finished_span (ss_span (slot_of t i))" if "sb_tail ?b \<le> i" "i < p" for i
  proof -
    have "i < sb_head ?b" using that p win(3) by auto
    then have "ss_state (slot_of t i) = SPAN_SLOT_FILLED" using f that(1) by (auto simp: all_finished_def slot_of_def list_all_iff)
    then show ?thesis using filled_slot [OF assms(2), of "i mod sb_capacity ?b"] win(1,2) by (simp add: slot_of_def)
  qed
  then show "list_all finished_span batch" by (auto simp: batch list_all_iff)
qed

lemma start_filled:
  assumes "buffer_ok t" and "filled_slots_ok (tr_buffer t)" and "start_span_internal now seed t tid pid op = (e, r, seed', t')"
  shows "filled_slots_ok (tr_buffer t')"
  using assms(1,3)
proof (cases rule: start_cases)
  case clash
  then show ?thesis unfolding clash(7) by (intro filled_with_span_slot) (simp_all add: assms(2))
next
  case (started span)
  then show ?thesis unfolding started(11) by (intro filled_with_span_slot) (simp_all add: assms(2))
qed (use assms(2) in simp)

lemma completed_ok_event:
  assumes "completed_ok y" and "system_ok y" and "timely ev (sy_tracer y)"
  shows "completed_ok (tracer_event ev y)"
proof -
  let ?t = "sy_tracer y"
  have inv: "tracer_inv ?t" "buffer_ok ?t" using assms(2) by (simp_all add: system_ok_def tracer_inv_def)
  have filled: "filled_slots_ok (tr_buffer ?t)" using assms(1) by (simp add: completed_ok_def)
  have touched: "finished_span (snd (trace_add_tag sp k v)) = finished_span sp" "finished_span (trace_set_status sp st) = finished_span sp" for sp k v st
    by (simp_all add: finished_span_def trace_add_tag_def trace_set_status_def)
  show ?thesis
  proof (cases ev)
    case (Start_Span now tid pid op)
    obtain e r seed t where st: "start_span_internal now (sy_seed y) ?t tid pid op = (e, r, seed, t)" by (metis prod_cases4)
    show ?thesis using start_filled [OF inv(2) filled st] assms(1) by (simp add: Start_Span st completed_ok_def)
  next
    case (Finish_Span now i)
    have "filled_slots_ok (tr_buffer (trace_finish_span now ?t (Some i)))"
      unfolding finish_buffer(1) by (rule filled_with_span_slot [OF filled]) (auto simp: finished_stamp intro: filled_slot [OF filled] split: if_splits)
    then show ?thesis using assms(1) by (simp add: Finish_Span completed_ok_def)
  next
    case (Tag_Span i k v)
    have "filled_slots_ok (with_span_slot i (\<lambda>s. s\<lparr>ss_span := snd (trace_add_tag (ss_span s) k v)\<rparr>) (tr_buffer ?t))"
      by (rule filled_with_span_slot [OF filled]) (simp add: touched filled_slot [OF filled])
    then show ?thesis using assms(1) by (simp add: Tag_Span completed_ok_def on_span_def)
  next
    case (Mark_Span i st)
    have "filled_slots_ok (with_span_slot i (\<lambda>s. s\<lparr>ss_span := trace_set_status (ss_span s) st\<rparr>) (tr_buffer ?t))"
      by (rule filled_with_span_slot [OF filled]) (simp add: touched filled_slot [OF filled])
    then show ?thesis using assms(1) by (simp add: Mark_Span completed_ok_def on_span_def)
  next
    case (Export_Spans now)
    obtain batch t where ex: "exporter_cycle now ?t = (batch, t)" by fastforce
    show ?thesis using export_completed [OF inv(1) filled ex] assms(1,3) by (simp add: Export_Spans ex completed_ok_def timely_def)
  qed
qed

lemma completed_ok_run: "completed_ok y \<Longrightarrow> system_ok y \<Longrightarrow> completed_ok (timely_run evs y)"
  unfolding timely_run_def by (induction evs arbitrary: y) (auto simp: system_ok_event completed_ok_event)

lemma trace_init_starts:
  assumes "tg_buffer_capacity cfg \<le> 2 ^ 63" and "tg_export_callback cfg"
  obtains t m where "trace_init_with_config now cfg = Some (Inr t)" "m \<le> 12"
    "tr_buffer t = \<lparr>sb_head = 0, sb_capacity = 2 ^ m, sb_tail = 0, sb_slots = replicate (2 ^ m) \<lparr>ss_state = SPAN_SLOT_EMPTY, ss_span = zero_span\<rparr>\<rparr>"
    "\<not> tr_shutdown t" "tr_export_callback t"
    "sa_always_drop (tr_sampling t) = sg_always_drop (tg_sampling cfg)" "sa_always_sample (tr_sampling t) = sg_always_sample (tg_sampling cfg)"
    "sa_backpressure_drop (tr_sampling t) = sg_backpressure_drop (tg_sampling cfg)"
    "sa_backpressure_sample (tr_sampling t) = sg_backpressure_sample (tg_sampling cfg)"
proof -
  obtain m where m: "m \<le> 12" "ring_capacity (tg_buffer_capacity cfg) SPAN_BUFFER_DEFAULT_CAPACITY DISTRIC_MAX_SPANS_BUFFER = Some (2 ^ m)"
    using ring_capacity_exp [OF assms(1), of SPAN_BUFFER_DEFAULT_CAPACITY DISTRIC_MAX_SPANS_BUFFER 12]
    by (auto simp: SPAN_BUFFER_DEFAULT_CAPACITY_def DISTRIC_MAX_SPANS_BUFFER_def)
  have u: "unat (2 ^ m :: u64) = 2 ^ m" using m(1) by (simp add: unat_pow2)
  have c: "sb_capacity (tr_buffer (the (tracer_alloc_and_init now cfg))) = 2 ^ m" by (simp add: tracer_alloc_and_init_def m(2) u)
  show thesis
    by (rule that [of "the (tracer_alloc_and_init now cfg)" m])
      (use assms(2) m u in \<open>auto simp: trace_init_with_config_def tracer_alloc_and_init_def\<close>)
qed

lemma trace_init_inv:
  assumes "trace_init_with_config now cfg = Some (Inr t)" and "tg_buffer_capacity cfg \<le> 2 ^ 63"
  shows "system_ok (tracer_start seed t)"
proof -
  have cb: "tg_export_callback cfg" using assms(1) by (auto simp: trace_init_with_config_def split: if_splits)
  obtain m where m: "m \<le> 12" "tr_export_callback t \<and> \<not> tr_shutdown t"
    "tr_buffer t = \<lparr>sb_head = 0, sb_capacity = 2 ^ m, sb_tail = 0, sb_slots = replicate (2 ^ m) \<lparr>ss_state = SPAN_SLOT_EMPTY, ss_span = zero_span\<rparr>\<rparr>"
    by (rule trace_init_starts [OF assms(2) cb, of now]) (use assms(1) in auto)
  have "(2 :: nat) ^ m \<le> 2 ^ 12" using m(1) by (intro power_increasing) auto
  then show ?thesis
    by (auto simp: system_ok_def tracer_start_def queued_def m(2,3) buffer_ok_def slot_of_def intro!: tracer_invI)
qed

lemma trace_init_completed:
  assumes "trace_init_with_config now cfg = Some (Inr t)" and "tg_buffer_capacity cfg \<le> 2 ^ 63"
  shows "completed_ok (tracer_start seed t)"
proof -
  have cb: "tg_export_callback cfg" using assms(1) by (auto simp: trace_init_with_config_def split: if_splits)
  show ?thesis
    by (rule trace_init_starts [OF assms(2) cb, of now])
      (use assms(1) in \<open>auto simp: completed_ok_def tracer_start_def filled_slots_ok_def list_all_iff\<close>)
qed

text \<open>C33.
  Completed spans are exported once and in the order of their starts: after any calls in which a span is used only
  while it is buffered and no exporter cycle meets an unfinished span, the spans started are the spans exported
  followed by the spans queued, every exported span is completed, and the queue fits the ring; when all queued spans
  are finished the next exporter cycle hands over exactly the first 64 of them. A start is refused only when the ring
  is full.
\<close>

theorem spans_exported_in_order:
  assumes "trace_init_with_config now cfg = Some (Inr t)" and "tg_buffer_capacity cfg \<le> 2 ^ 63"
  shows "let y = timely_run evs (tracer_start seed t); t' = sy_tracer y in
     map span_key (sy_started y) = map span_key (sy_exported y) @ queued t'
     \<and> list_all finished_span (sy_exported y)
     \<and> length (queued t') \<le> sb_capacity (tr_buffer t')
     \<and> (if all_finished t'
        then map span_key (fst (exporter_cycle now' t')) = take 64 (queued t')
           \<and> list_all finished_span (fst (exporter_cycle now' t'))
           \<and> queued (snd (exporter_cycle now' t')) = drop 64 (queued t')
        else True)
     \<and> fst (start_span_internal now' (sy_seed y) t' tid pid op)
         = (if length (queued t') < sb_capacity (tr_buffer t') then DISTRIC_OK else DISTRIC_ERR_BACKPRESSURE)"
proof -
  define y where "y = timely_run evs (tracer_start seed t)"
  have y: "system_ok y" unfolding y_def by (intro system_ok_run trace_init_inv [OF assms])
  then have inv: "tracer_inv (sy_tracer y)" "tr_export_callback (sy_tracer y)" "\<not> tr_shutdown (sy_tracer y)"
      "map span_key (sy_started y) = map span_key (sy_exported y) @ queued (sy_tracer y)"
    by (simp_all add: system_ok_def)
  have ended: "filled_slots_ok (tr_buffer (sy_tracer y))" "list_all finished_span (sy_exported y)"
    using completed_ok_run [OF trace_init_completed [OF assms] trace_init_inv [OF assms]] by (simp_all add: completed_ok_def y_def)
  have fits: "length (queued (sy_tracer y)) \<le> sb_capacity (tr_buffer (sy_tracer y))"
    using tracer_invD(1) [OF inv(1)] by (auto simp: buffer_ok_def queued_def Let_def)
  obtain batch t1 where ex: "exporter_cycle now' (sy_tracer y) = (batch, t1)" by fastforce
  obtain e r sd t2 where st: "start_span_internal now' (sy_seed y) (sy_tracer y) tid pid op = (e, r, sd, t2)" by (metis prod_cases4)
  show ?thesis
    using inv(4) ended(2) fits export_inv(2,3) [OF inv(1,2) ex] export_completed(2) [OF inv(1) ended(1) ex] start_inv(5) [OF inv(1) st inv(3)]
    unfolding y_def [symmetric] Let_def by (simp add: ex st)
qed

theorem spans_exported_in_order_witness:
  "\<exists>t. trace_init_with_config 9 sample_tracer_config = Some (Inr t) \<and>
     (let y = timely_run [Start_Span 1 trace_id_zero 0 [65], Finish_Span 2 0, Export_Spans 3, Start_Span 4 trace_id_zero 0 [66]] (tracer_start 77 t)
      in map span_key (sy_started y) = map span_key (sy_exported y) @ queued (sy_tracer y) \<and> list_all finished_span (sy_exported y))"
proof -
  obtain t where "trace_init_with_config 9 sample_tracer_config = Some (Inr t)"
    by (rule trace_init_starts [of sample_tracer_config 9]) (simp_all add: sample_tracer_config_def)
  moreover have "tg_buffer_capacity sample_tracer_config \<le> 2 ^ 63" by (simp add: sample_tracer_config_def)
  ultimately show ?thesis using spans_exported_in_order unfolding Let_def by blast
qed

text \<open>
  The code does not wait for a span to be finished, though its comments say so: an exporter cycle right after the
  start hands over the span without an end.
\<close>

lemma unfinished_span_exported:
  assumes "tracer_inv t" and "tr_export_callback t" and "queued t = []"
    and "start_span_internal now seed t tid pid op = (DISTRIC_OK, Some i, seed', t')"
  shows "map span_key (fst (exporter_cycle now' t')) = [span_key (span_at t' i)]"
proof -
  note st = start_inv [OF assms(1,4)]
  obtain batch t2 where ex: "exporter_cycle now' t' = (batch, t2)" by fastforce
  have "tr_export_callback t'" using st(3) assms(2) by simp
  from export_inv(2) [OF st(1) this ex] show ?thesis using st(2) assms(3) by (simp add: ex)
qed

section \<open>Propagation and sampling\<close>

text \<open>C34.
  A trace continues across services: the context of a sampled span that one service writes into a header of at
  least 50 bytes is read back by the next, and the span started from it is in the same trace with the first span as
  its parent; a shorter buffer is reported as an overflow.
\<close>

theorem trace_context_propagates:
  assumes "sp_sampled span" and "\<not> trace_id_is_zero (sp_trace_id span)" and "buffer_ok t"
  shows "fst (trace_inject_context span n)
       = (if n = 0 then DISTRIC_ERR_INVALID_ARG else if n < 50 then DISTRIC_ERR_BUFFER_OVERFLOW else DISTRIC_OK)
     \<and> (case trace_extract_context (snd (trace_inject_context span (50 + k))) of
          Inl e \<Rightarrow> False
        | Inr ctx \<Rightarrow>
            (case trace_start_span_from_context now seed t (Some ctx) op of
               (e, None, _, _) \<Rightarrow> if fst (sampling_should_sample (tr_sampling t)) then e \<noteq> DISTRIC_OK else True
             | (e, Some i, _, t') \<Rightarrow> sp_trace_id (span_at t' i) = sp_trace_id span \<and> sp_parent_span_id (span_at t' i) = sp_span_id span))"
proof -
  let ?ctx = "\<lparr>tc_trace_id = sp_trace_id span, tc_span_id = sp_span_id span\<rparr>"
  have ctx: "trace_extract_context (snd (trace_inject_context span (50 + k))) = Inr ?ctx"
    using assms(1) extract_injected by (simp add: trace_inject_context_def Let_def)
  obtain e r sd t' where st: "trace_start_span_from_context now seed t (Some ?ctx) op = (e, r, sd, t')" by (metis prod_cases4)
  have "case r of None \<Rightarrow> fst (sampling_should_sample (tr_sampling t)) \<longrightarrow> e \<noteq> DISTRIC_OK
      | Some i \<Rightarrow> sp_trace_id (span_at t' i) = sp_trace_id span \<and> sp_parent_span_id (span_at t' i) = sp_span_id span"
    using assms(3) st [unfolded trace_start_span_from_context_def option.case]
  proof (cases rule: start_cases)
    case (started child)
    then show ?thesis using assms(2,3) by (auto simp: span_at_def buffer_ok_def Let_def)
  qed auto
  then show ?thesis using assms(1) ctx st by (auto simp: trace_inject_context_def Let_def split: option.splits)
qed

theorem trace_context_propagates_witness:
  "\<exists>t. trace_init_with_config 9 sample_tracer_config = Some (Inr t) \<and>
     (case trace_extract_context (snd (trace_inject_context sample_span 64)) of
          Inl e \<Rightarrow> False
        | Inr ctx \<Rightarrow>
            (case trace_start_span_from_context 8 77 t (Some ctx) [65] of
               (e, None, _, _) \<Rightarrow> if fst (sampling_should_sample (tr_sampling t)) then e \<noteq> DISTRIC_OK else True
             | (e, Some i, _, t') \<Rightarrow> sp_trace_id (span_at t' i) = \<lparr>ti_high = 11, ti_low = 13\<rparr> \<and> sp_parent_span_id (span_at t' i) = 17))"
proof -
  obtain t where t: "trace_init_with_config 9 sample_tracer_config = Some (Inr t)"
    by (rule trace_init_starts [of sample_tracer_config 9]) (simp_all add: sample_tracer_config_def)
  have "system_ok (tracer_start 77 t)" by (rule trace_init_inv [OF t]) (simp add: sample_tracer_config_def)
  then have "buffer_ok t" by (simp add: system_ok_def tracer_start_def tracer_inv_def)
  moreover have w: "sp_trace_id sample_span = \<lparr>ti_high = 11, ti_low = 13\<rparr>" "sp_span_id sample_span = 17" "sp_sampled sample_span"
    by (simp_all add: sample_span_def)
  moreover have "\<not> trace_id_is_zero \<lparr>ti_high = 11, ti_low = 13\<rparr>" by (simp add: trace_id_is_zero_def)
  ultimately show ?thesis
    using t trace_context_propagates [where span = sample_span and t = t and n = 64 and k = 14 and now = 8 and seed = 77 and op = "[65]", unfolded w]
    by (intro exI [of _ t] conjI) simp_all
qed

lemma sampling_counts:
  assumes "sample_weight s + drop_weight s < 2 ^ 32" and "unat (sa_sample_counter s) + n \<le> 2 ^ 64" and "0 < drop_weight s"
  shows "sampled_in n s = length (filter (\<lambda>i. (unat (sa_sample_counter s) + i) mod (sample_weight s + drop_weight s) < sample_weight s) [0..<n])"
  using assms
proof (induction n arbitrary: s)
  case (Suc n)
  let ?sw = "if sa_in_backpressure s then sa_backpressure_sample s else sa_always_sample s"
  let ?dw = "if sa_in_backpressure s then sa_backpressure_drop s else sa_always_drop s"
  let ?T = "sample_weight s + drop_weight s" and ?c = "unat (sa_sample_counter s)"
  let ?s = "s\<lparr>sa_sample_counter := sa_sample_counter s + 1\<rparr>"
  have T: "unat (?sw + ?dw) = ?T" using Suc.prems(1) by (simp add: sample_weight_def drop_weight_def unat_word_ariths)
  have nz: "?sw + ?dw \<noteq> 0" "?dw \<noteq> 0" using T Suc.prems(3) by (auto simp: drop_weight_def simp flip: unat_eq_0)
  have "sampling_should_sample s = (sa_sample_counter s mod ucast (?sw + ?dw) < ucast ?sw, ?s)"
    using nz unfolding sampling_should_sample_def Let_def by simp
  moreover have "(sa_sample_counter s mod ucast (?sw + ?dw) < ucast ?sw) \<longleftrightarrow> ?c mod ?T < sample_weight s"
  proof -
    have "unat (ucast (?sw + ?dw) :: u64) = ?T" using T Suc.prems(1) by (simp add: unsigned_ucast_eq take_bit_nat_eq_self)
    moreover have "unat (ucast ?sw :: u64) = sample_weight s"
      using unsigned_less [of ?sw, where ?'a = nat] by (simp add: sample_weight_def unsigned_ucast_eq take_bit_nat_eq_self)
    ultimately show ?thesis by (simp add: word_less_nat_alt unat_mod)
  qed
  ultimately have step: "sampling_should_sample s = (?c mod ?T < sample_weight s, ?s)" by simp
  show ?case
  proof (cases "n = 0")
    case True
    then show ?thesis by (simp add: step)
  next
    case False
    then have c: "unat (sa_sample_counter s + 1) = Suc ?c" using Suc.prems(2) by (simp add: unat_word_ariths)
    have w: "sample_weight ?s = sample_weight s" "drop_weight ?s = drop_weight s" by (simp_all add: sample_weight_def drop_weight_def)
    have "sampled_in n ?s = length (filter (\<lambda>i. (Suc ?c + i) mod ?T < sample_weight s) [0..<n])"
      using Suc.IH [of ?s] Suc.prems by (simp add: w c)
    also have "\<dots> = length (filter (\<lambda>i. (?c + i) mod ?T < sample_weight s) (map Suc [0..<n]))"
      by (simp add: filter_map o_def)
    finally show ?thesis by (simp add: step upt_conv_Cons map_Suc_upt del: upt_Suc)
  qed
qed simp

lemma sampling_period:
  assumes "0 < T" and "sw \<le> (T :: nat)"
  shows "length (filter (\<lambda>i. (c + i) mod T < sw) [0..<m * T]) = m * sw"
proof (induction m)
  case (Suc m)
  let ?f = "\<lambda>i. (c + m * T + i) mod T"
  have "[0..<m * T + T] = [0..<m * T] @ [m * T..<m * T + T]" by (rule upt_add_eq_append) simp
  then have "[0..<Suc m * T] = [0..<m * T] @ map (\<lambda>i. i + m * T) [0..<T]" by (simp add: map_add_upt add.commute)
  moreover have "length (filter (\<lambda>i. (c + (i + m * T)) mod T < sw) [0..<T]) = length (filter (\<lambda>x. x < sw) (map ?f [0..<T]))"
    by (simp add: filter_map o_def ac_simps)
  moreover have "\<dots> = card (set (filter (\<lambda>x. x < sw) (map ?f [0..<T])))"
    using mod_probe(1) [OF assms(1), of "c + m * T"] by (metis distinct_card distinct_filter)
  moreover have "set (filter (\<lambda>x. x < sw) (map ?f [0..<T])) = {..<sw}"
  proof -
    have "set (filter (\<lambda>x. x < sw) (map ?f [0..<T])) = {x \<in> set (map ?f [0..<T]). x < sw}" by auto
    also have "\<dots> = {..<sw}" unfolding mod_probe(2) [OF assms(1)] using assms(2) by auto
    finally show ?thesis .
  qed
  ultimately show ?case using Suc by (simp add: filter_map o_def)
qed simp

text \<open>  The sampling ratio is exact: among \<open>m * (sample + drop)\<close> consecutive decisions in one mode exactly \<open>m * sample\<close>
  keep the span, wherever the counter stands, as long as neither the weights nor the counter wrap around.
\<close>

lemma sampling_ratio_exact:
  assumes "sample_weight s + drop_weight s < 2 ^ 32" and "unat (sa_sample_counter s) + m * (sample_weight s + drop_weight s) \<le> 2 ^ 64"
  shows "sampled_in (m * (sample_weight s + drop_weight s)) s = m * sample_weight s"
proof (cases "drop_weight s = 0")
  case True
  then have "sampling_should_sample s = (True, s)" if "sample_weight s \<noteq> 0"
    using that by (auto simp: sampling_should_sample_def sample_weight_def drop_weight_def Let_def unat_eq_0)
  then have "sampled_in n s = n" if "sample_weight s \<noteq> 0" for n using that by (induction n) simp_all
  then show ?thesis using True by (cases "sample_weight s = 0") simp_all
next
  case False
  then show ?thesis using sampling_counts [OF assms(1,2)] sampling_period [of "sample_weight s + drop_weight s" "sample_weight s"] by simp
qed

lemma sampling_ratio_exact_witness:
  "sampled_in (3 * (sample_weight sample_sampling + drop_weight sample_sampling)) sample_sampling = 3 * sample_weight sample_sampling
   \<and> drop_weight sample_sampling = 9"
  using sampling_ratio_exact [of sample_sampling 3] by (simp add: sample_weight_def drop_weight_def sample_sampling_def)

section \<open>A span finished late\<close>

lemma always_on_samples: "always_on s \<Longrightarrow> sampling_should_sample s = (True, s)"
  by (simp add: always_on_def sampling_should_sample_def Let_def)

lemma always_on_update: "always_on s \<Longrightarrow> always_on (sampling_state_update s b d now)"
  by (simp add: always_on_def sampling_state_update_def Let_def)

lemma always_on_start:
  assumes "start_span_internal now seed t tid pid op = (e, r, seed', t')" and "always_on (tr_sampling t)"
  shows "tr_sampling t' = tr_sampling t"
  using assms(1) always_on_samples [OF assms(2)]
  by (auto simp: start_span_internal_def Let_def split: if_splits prod.splits)

lemma stuckI:
  assumes "stuck p t" and "buffer_ok t'" and "sb_tail (tr_buffer t') = p" and "p < sb_head (tr_buffer t')"
    and "sb_capacity (tr_buffer t') = sb_capacity (tr_buffer t)"
    and "ss_state (sb_slots (tr_buffer t') ! (p mod sb_capacity (tr_buffer t))) = SPAN_SLOT_EMPTY"
  shows "stuck p t' \<and> sb_capacity (tr_buffer t') = sb_capacity (tr_buffer t)"
  using assms by (simp add: stuck_def slot_of_def)

lemma stuck_touch:
  assumes "stuck p t" and "j \<noteq> p mod sb_capacity (tr_buffer t)" and "tr_buffer t' = with_span_slot j f (tr_buffer t)"
  shows "stuck p t' \<and> sb_capacity (tr_buffer t') = sb_capacity (tr_buffer t)"
  by (rule stuckI [OF assms(1)]) (use assms in \<open>auto simp: stuck_def buffer_ok_def slot_of_def Let_def\<close>)

lemma stuck_event:
  assumes "stuck p (sy_tracer y)" and "event_slot ev \<noteq> Some (p mod sb_capacity (tr_buffer (sy_tracer y)))"
  shows "stuck p (sy_tracer (tracer_event ev y)) \<and> sb_capacity (tr_buffer (sy_tracer (tracer_event ev y))) = sb_capacity (tr_buffer (sy_tracer y))"
    and "sy_exported (tracer_event ev y) = sy_exported y"
proof -
  let ?t = "sy_tracer y" and ?C = "sb_capacity (tr_buffer (sy_tracer y))" and ?b = "tr_buffer (sy_tracer y)"
  have ok: "buffer_ok ?t" "sb_tail ?b = p" "p < sb_head ?b" "ss_state (sb_slots ?b ! (p mod ?C)) = SPAN_SLOT_EMPTY"
    using assms(1) by (simp_all add: stuck_def slot_of_def)
  then have win: "0 < ?C" "?C \<le> 4096" "length (sb_slots ?b) = ?C" "sb_head ?b \<le> p + ?C" by (simp_all add: buffer_ok_def Let_def)
  have "(stuck p (sy_tracer (tracer_event ev y)) \<and> sb_capacity (tr_buffer (sy_tracer (tracer_event ev y))) = ?C)
      \<and> sy_exported (tracer_event ev y) = sy_exported y"
  proof (cases ev)
    case (Start_Span now tid pid op)
    obtain e r seed t where st: "start_span_internal now (sy_seed y) ?t tid pid op = (e, r, seed, t)" by (metis prod_cases4)
    have slot: "stuck p t \<and> sb_capacity (tr_buffer t) = ?C"
      if "tr_buffer t = with_span_slot (sb_head ?b mod ?C) f (?b\<lparr>sb_head := Suc (sb_head ?b)\<rparr>)" "sb_head ?b < p + ?C" for f
    proof (rule stuckI [OF assms(1)])
      have "sb_head ?b mod ?C \<noteq> p mod ?C" using window_unique [of p "sb_head ?b" ?C p] that(2) ok(3) win(1) by auto
      then show "ss_state (sb_slots (tr_buffer t) ! (p mod ?C)) = SPAN_SLOT_EMPTY" using ok(4) by (simp add: that(1))
    qed (use that win ok in \<open>auto simp: buffer_ok_def Let_def\<close>)
    from ok(1) st have "stuck p t \<and> sb_capacity (tr_buffer t) = ?C"
    proof (cases rule: start_cases)
      case refused
      then show ?thesis using assms(1) by (simp add: stuck_def buffer_ok_def slot_of_def)
    next
      case clash
      show ?thesis by (rule slot [OF clash(7)]) (use clash(2) ok(2) in simp)
    next
      case (started span)
      show ?thesis by (rule slot [OF started(11)]) (use started(3) ok(2) in simp)
    qed
    then show ?thesis by (simp add: Start_Span st)
  next
    case (Finish_Span now i)
    then show ?thesis using stuck_touch [OF assms(1) _ finish_buffer(1)] assms(2) by simp
  next
    case (Tag_Span i k v)
    then show ?thesis using stuck_touch [OF assms(1), of i "sy_tracer (tracer_event ev y)"] assms(2) by (simp add: on_span_def)
  next
    case (Mark_Span i st)
    then show ?thesis using stuck_touch [OF assms(1), of i "sy_tracer (tracer_event ev y)"] assms(2) by (simp add: on_span_def)
  next
    case (Export_Spans now)
    have "drain ?b (sb_tail ?b) [] = (?b, sb_tail ?b, [])" using ok by (subst drain.simps) (simp add: Let_def)
    then show ?thesis using assms(1) by (simp add: Export_Spans exporter_cycle_def Let_def stuck_def buffer_ok_def slot_of_def)
  qed
  then show "stuck p (sy_tracer (tracer_event ev y)) \<and> sb_capacity (tr_buffer (sy_tracer (tracer_event ev y))) = ?C"
    "sy_exported (tracer_event ev y) = sy_exported y" by blast+
qed

lemma stuck_run:
  assumes "stuck p (sy_tracer y)" and "list_all (\<lambda>ev. event_slot ev \<noteq> Some (p mod sb_capacity (tr_buffer (sy_tracer y)))) evs"
  shows "sy_exported (tracer_run evs y) = sy_exported y"
  using assms unfolding tracer_run_def
proof (induction evs arbitrary: y)
  case (Cons ev evs)
  then show ?case using stuck_event [OF Cons.prems(1), of ev] by simp
qed simp

lemma idle_start:
  assumes "idle C n st t" and "start_span_internal now seed t tid pid op = (e, r, seed', t')" and "n mod C = 0 \<Longrightarrow> st = SPAN_SLOT_EMPTY"
  obtains span where "r = Some (n mod C)" "sp_sampled span"
    "tr_buffer t' = with_span_slot (n mod C) (\<lambda>s. \<lparr>ss_state = SPAN_SLOT_PROCESSING, ss_span = span\<rparr>) ((tr_buffer t)\<lparr>sb_head := Suc n\<rparr>)"
    "tr_export_callback t'" "\<not> tr_shutdown t'" "always_on (tr_sampling t')"
proof -
  have t: "buffer_ok t" "sb_capacity (tr_buffer t) = C" "sb_tail (tr_buffer t) = n" "sb_head (tr_buffer t) = n"
    "tr_export_callback t" "\<not> tr_shutdown t" "always_on (tr_sampling t)" using assms(1) by (simp_all add: idle_def)
  have C: "0 < C" using t(1,2) by (simp add: buffer_ok_def Let_def)
  then have free: "ss_state (slot_of t n) = SPAN_SLOT_EMPTY" using assms(1,3) by (simp add: idle_def slot_of_def)
  note on = always_on_start [OF assms(2) t(7)]
  from t(1) assms(2) show thesis
  proof (cases rule: start_cases)
    case refused
    then show ?thesis using t C always_on_samples [OF t(7)] by simp
  next
    case clash
    then show ?thesis using free t by simp
  next
    case (started span)
    then show ?thesis using that [of span] on t by simp
  qed
qed

text \<open>The exporter takes the one span of such a tracer.\<close>

lemma idle_export:
  assumes "buffer_ok t" "sb_capacity (tr_buffer t) = C" "sb_tail (tr_buffer t) = n" "sb_head (tr_buffer t) = Suc n"
    and "tr_export_callback t" "\<not> tr_shutdown t" "always_on (tr_sampling t)" and "live_slot (sb_slots (tr_buffer t) ! (n mod C))"
    and "\<And>j. j < C \<Longrightarrow> j \<noteq> n mod C \<Longrightarrow> ss_state (sb_slots (tr_buffer t) ! j) = (if j = 0 then st else SPAN_SLOT_EMPTY)"
    and "n mod C = 0 \<Longrightarrow> st = SPAN_SLOT_EMPTY"
  obtains t' where "exporter_cycle now t = ([ss_span (sb_slots (tr_buffer t) ! (n mod C))], t')" "idle C (Suc n) st t'"
    "ss_span (sb_slots (tr_buffer t') ! (n mod C)) = ss_span (sb_slots (tr_buffer t) ! (n mod C))"
proof -
  have C: "0 < C" "C \<le> 4096" using assms(1,2) by (simp_all add: buffer_ok_def Let_def)
  have live: "\<forall>i \<in> {sb_tail (tr_buffer t)..<sb_head (tr_buffer t)}. live_slot (slot_of t i)"
    using assms(2-4,8) by (simp add: slot_of_def)
  obtain sl t' where ex: "exporter_cycle now t = ([ss_span (slot_of t n)], t')"
      and b': "tr_buffer t' = (tr_buffer t)\<lparr>sb_slots := sl, sb_tail := Suc n\<rparr>" and len: "length sl = C"
      and sl: "\<And>j. j < C \<Longrightarrow> ss_span (sl ! j) = ss_span (sb_slots (tr_buffer t) ! j)
        \<and> ss_state (sl ! j) = (if j = n mod C then SPAN_SLOT_EMPTY else ss_state (sb_slots (tr_buffer t) ! j))"
      and rest: "tr_export_callback t'" "\<not> tr_shutdown t'" "always_on (tr_sampling t')"
    by (rule export_live [OF assms(1) live, of now]) (use assms(2-7) always_on_update in auto)
  have "ss_state (sl ! j) = (if j = 0 then st else SPAN_SLOT_EMPTY)" if "j < C" for j
    using sl [OF that] assms(9) [OF that] assms(10) by auto
  then have "idle C (Suc n) st t'" using C len rest assms(2,4) by (simp add: idle_def buffer_ok_def b')
  then show thesis using that [of t'] ex sl [of "n mod C"] C(1) assms(2) by (simp add: slot_of_def b')
qed

lemma timely_round:
  assumes "idle C n st (sy_tracer y)" and "n mod C = i" and "0 < i"
  shows "idle C (Suc n) st (sy_tracer (tracer_run [Start_Span n1 tid pid op, Finish_Span n2 i, Export_Spans n3] y))"
    and "length (sy_exported (tracer_run [Start_Span n1 tid pid op, Finish_Span n2 i, Export_Spans n3] y)) = Suc (length (sy_exported y))"
proof -
  let ?t = "sy_tracer y"
  have C: "buffer_ok ?t" "0 < C" "length (sb_slots (tr_buffer ?t)) = C" "sb_capacity (tr_buffer ?t) = C" "sb_tail (tr_buffer ?t) = n"
    using assms(1) by (auto simp: idle_def buffer_ok_def Let_def)
  then have iC: "i < C" using assms(2) by auto
  obtain e r sd t1 where st: "start_span_internal n1 (sy_seed y) ?t tid pid op = (e, r, sd, t1)" by (metis prod_cases4)
  obtain span where t1: "sp_sampled span" "r = Some i"
      "tr_buffer t1 = with_span_slot i (\<lambda>s. \<lparr>ss_state = SPAN_SLOT_PROCESSING, ss_span = span\<rparr>) ((tr_buffer ?t)\<lparr>sb_head := Suc n\<rparr>)"
      "tr_export_callback t1" "\<not> tr_shutdown t1" "always_on (tr_sampling t1)"
    by (rule idle_start [OF assms(1) st]) (use assms(2,3) in auto)
  define t2 where "t2 = trace_finish_span n2 t1 (Some i)"
  have slots: "sb_slots (tr_buffer t2) = (sb_slots (tr_buffer ?t))[i := sb_slots (tr_buffer t2) ! i]"
    "live_slot (sb_slots (tr_buffer t2) ! i)"
    using C(3) iC t1(1) by (simp_all add: t2_def finish_buffer t1(3) live_slot_def)
  have b2: "buffer_ok t2" "sb_capacity (tr_buffer t2) = C" "sb_tail (tr_buffer t2) = n" "sb_head (tr_buffer t2) = Suc n"
    using C by (auto simp: t2_def finish_buffer t1(3) buffer_ok_def Let_def)
  have b3: "tr_export_callback t2" "\<not> tr_shutdown t2" "always_on (tr_sampling t2)" using t1(4-6) by (simp_all add: t2_def finish_buffer)
  have other: "ss_state (sb_slots (tr_buffer t2) ! j) = (if j = 0 then st else SPAN_SLOT_EMPTY)" if "j < C" "j \<noteq> i" for j
  proof -
    have "sb_slots (tr_buffer t2) ! j = sb_slots (tr_buffer ?t) ! j" using that(2) by (subst slots(1)) simp
    then show ?thesis using assms(1) that(1) by (simp add: idle_def)
  qed
  obtain t3 where t3: "exporter_cycle n3 t2 = ([ss_span (sb_slots (tr_buffer t2) ! i)], t3)" "idle C (Suc n) st t3"
    by (rule idle_export [OF b2 b3, of st n3]) (use slots(2) other assms(2,3) in auto)
  show "idle C (Suc n) st (sy_tracer (tracer_run [Start_Span n1 tid pid op, Finish_Span n2 i, Export_Spans n3] y))"
    "length (sy_exported (tracer_run [Start_Span n1 tid pid op, Finish_Span n2 i, Export_Spans n3] y)) = Suc (length (sy_exported y))"
    using t3 by (simp_all add: tracer_run_def st flip: t2_def)
qed

lemma late_round:
  assumes "idle C 0 SPAN_SLOT_EMPTY (sy_tracer y)"
  shows "idle C 1 SPAN_SLOT_FILLED (sy_tracer (tracer_run [Start_Span n1 tid pid op, Export_Spans n2, Finish_Span n3 0] y))"
    and "length (sy_exported (tracer_run [Start_Span n1 tid pid op, Export_Spans n2, Finish_Span n3 0] y)) = Suc (length (sy_exported y))"
proof -
  let ?t = "sy_tracer y"
  have C: "buffer_ok ?t" "0 < C" "length (sb_slots (tr_buffer ?t)) = C" "sb_capacity (tr_buffer ?t) = C" "sb_tail (tr_buffer ?t) = 0"
    using assms(1) by (auto simp: idle_def buffer_ok_def Let_def)
  obtain e r sd t1 where st: "start_span_internal n1 (sy_seed y) ?t tid pid op = (e, r, sd, t1)" by (metis prod_cases4)
  obtain span where t1: "sp_sampled span" "r = Some 0"
      "tr_buffer t1 = with_span_slot 0 (\<lambda>s. \<lparr>ss_state = SPAN_SLOT_PROCESSING, ss_span = span\<rparr>) ((tr_buffer ?t)\<lparr>sb_head := Suc 0\<rparr>)"
      "tr_export_callback t1" "\<not> tr_shutdown t1" "always_on (tr_sampling t1)"
    by (rule idle_start [OF assms(1) st]) auto
  have b1: "buffer_ok t1" "sb_capacity (tr_buffer t1) = C" "sb_tail (tr_buffer t1) = 0" "sb_head (tr_buffer t1) = Suc 0"
    using C by (auto simp: t1(3) buffer_ok_def Let_def)
  have slot: "ss_span (sb_slots (tr_buffer t1) ! 0) = span" "live_slot (sb_slots (tr_buffer t1) ! 0)"
    using C t1(1) by (simp_all add: t1(3) live_slot_def)
  have other: "ss_state (sb_slots (tr_buffer t1) ! j) = SPAN_SLOT_EMPTY" if "j < C" "j \<noteq> 0" for j
    using assms that by (simp add: t1(3) idle_def)
  obtain t2 where t2: "exporter_cycle n2 t1 = ([span], t2)" "idle C 1 SPAN_SLOT_EMPTY t2" "ss_span (sb_slots (tr_buffer t2) ! 0) = span"
    by (rule idle_export [OF b1 t1(4-6), of SPAN_SLOT_EMPTY n2]) (use slot other in auto)
  have "idle C 1 SPAN_SLOT_FILLED (trace_finish_span n3 t2 (Some 0))"
    using t2(2,3) t1(1) by (auto simp: idle_def finish_buffer buffer_ok_def Let_def nth_list_update)
  then show "idle C 1 SPAN_SLOT_FILLED (sy_tracer (tracer_run [Start_Span n1 tid pid op, Export_Spans n2, Finish_Span n3 0] y))"
    "length (sy_exported (tracer_run [Start_Span n1 tid pid op, Export_Spans n2, Finish_Span n3 0] y)) = Suc (length (sy_exported y))"
    using t2(1) by (simp_all add: tracer_run_def st)
qed

lemma timely_rounds:
  assumes "idle C k st (sy_tracer y)" and "0 < k" and "k \<le> C"
    and "z = tracer_run (concat (map (\<lambda>i. [Start_Span n1 tid pid op, Finish_Span n2 i, Export_Spans n3]) [k..<C])) y"
  shows "idle C C st (sy_tracer z) \<and> length (sy_exported z) = length (sy_exported y) + (C - k)"
  using assms(1-3) unfolding assms(4)
proof (induction "C - k" arbitrary: k y)
  case (Suc d)
  let ?f = "\<lambda>i. [Start_Span n1 tid pid op, Finish_Span n2 i, Export_Spans n3]"
  have k: "k < C" using Suc.hyps(2) by simp
  define y' where "y' = tracer_run (?f k) y"
  have y': "idle C (Suc k) st (sy_tracer y')" "length (sy_exported y') = Suc (length (sy_exported y))"
    using timely_round [OF Suc.prems(1), of k n1 tid pid op n2 n3] k Suc.prems(2) by (simp_all add: y'_def)
  have "tracer_run (concat (map ?f [k..<C])) y = tracer_run (concat (map ?f [Suc k..<C])) y'"
    using k by (simp add: y'_def tracer_run_def upt_conv_Cons)
  then show ?case using Suc.hyps(1) [of "Suc k" y'] y' k Suc.hyps(2) by simp
qed (simp add: tracer_run_def)

lemma late_finish_sticks:
  assumes "idle C 0 SPAN_SLOT_EMPTY (sy_tracer y)"
  shows "stuck C (sy_tracer (tracer_run (late_finish_trace C) y)) \<and> sb_capacity (tr_buffer (sy_tracer (tracer_run (late_finish_trace C) y))) = C
    \<and> length (sy_exported (tracer_run (late_finish_trace C) y)) = length (sy_exported y) + C"
proof -
  have C: "0 < C" using assms by (auto simp: idle_def buffer_ok_def Let_def)
  define y1 where "y1 = tracer_run [Start_Span 1 trace_id_zero 0 [], Export_Spans 2, Finish_Span 3 0] y"
  define y2 where "y2 = tracer_run (concat (map (\<lambda>i. [Start_Span 4 trace_id_zero 0 [], Finish_Span 5 i, Export_Spans 6]) [1..<C])) y1"
  let ?t = "sy_tracer y2"
  have y2: "idle C C SPAN_SLOT_FILLED ?t" "length (sy_exported y2) = length (sy_exported y) + C"
    using timely_rounds [OF _ _ _ y2_def, of SPAN_SLOT_FILLED] late_round [OF assms] C y2_def by (simp_all add: y1_def)
  have run: "tracer_run (late_finish_trace C) y = tracer_event (Start_Span 7 trace_id_zero 0 []) y2"
    by (simp add: late_finish_trace_def y1_def y2_def tracer_run_def)
  have ok: "buffer_ok ?t" "sb_capacity (tr_buffer ?t) = C" "sb_tail (tr_buffer ?t) = C" "sb_head (tr_buffer ?t) = C" "\<not> tr_shutdown ?t"
    "always_on (tr_sampling ?t)" "ss_state (slot_of ?t C) = SPAN_SLOT_FILLED"
    using y2(1) C by (simp_all add: idle_def slot_of_def)
  obtain e r sd t where st: "start_span_internal 7 (sy_seed y2) ?t trace_id_zero 0 [] = (e, r, sd, t)" by (metis prod_cases4)
  from ok(1) st have "stuck C t \<and> sb_capacity (tr_buffer t) = C"
  proof (cases rule: start_cases)
    case refused
    then show ?thesis using ok C always_on_samples [OF ok(6)] by simp
  next
    case clash
    then show ?thesis using ok(1-4) C by (auto simp: stuck_def slot_of_def buffer_ok_def Let_def)
  next
    case (started span)
    then show ?thesis using ok by simp
  qed
  then show ?thesis using y2(2) by (simp add: run st)
qed

text \<open>  One span that outlives an exporter cycle ends the export of all others: the exporter takes it unfinished, its finish
  marks the slot it no longer owns as filled, the start that comes to that slot a ring later drops its own span and
  leaves the slot claimed and empty, and there the exporter stops. Whatever happens afterwards, unless somebody works on
  that slot again, no further span is exported.
\<close>

lemma late_finish_wedges_tracer:
  assumes "trace_init_with_config now cfg = Some (Inr t)" and "tg_buffer_capacity cfg \<le> 2 ^ 63" and "always_on (tr_sampling t)"
    and "list_all (\<lambda>ev. event_slot ev \<noteq> Some 0) evs"
  shows "length (sy_exported (tracer_run (late_finish_trace (sb_capacity (tr_buffer t)) @ evs) (tracer_start seed t))) = sb_capacity (tr_buffer t)"
proof -
  let ?y = "tracer_start seed t" and ?C = "sb_capacity (tr_buffer t)"
  have cb: "tg_export_callback cfg" using assms(1) by (auto simp: trace_init_with_config_def split: if_splits)
  have "system_ok ?y" by (rule trace_init_inv [OF assms(1,2)])
  then have "buffer_ok t" "tr_export_callback t" "\<not> tr_shutdown t" by (simp_all add: system_ok_def tracer_start_def tracer_inv_def)
  moreover have "sb_head (tr_buffer t) = 0" "sb_tail (tr_buffer t) = 0" "\<forall>j < ?C. ss_state (sb_slots (tr_buffer t) ! j) = SPAN_SLOT_EMPTY"
    by (rule trace_init_starts [OF assms(2) cb, of now], use assms(1) in auto)+
  ultimately have "idle ?C 0 SPAN_SLOT_EMPTY (sy_tracer ?y)" using assms(3) by (simp add: idle_def tracer_start_def)
  from late_finish_sticks [OF this] have wedged: "stuck ?C (sy_tracer (tracer_run (late_finish_trace ?C) ?y))"
      "sb_capacity (tr_buffer (sy_tracer (tracer_run (late_finish_trace ?C) ?y))) = ?C"
      "length (sy_exported (tracer_run (late_finish_trace ?C) ?y)) = ?C"
    by (simp_all add: tracer_start_def)
  have "tracer_run (late_finish_trace ?C @ evs) ?y = tracer_run evs (tracer_run (late_finish_trace ?C) ?y)" by (simp add: tracer_run_def)
  then show ?thesis using stuck_run [OF wedged(1), of evs] assms(4) wedged(2,3) by simp
qed

lemma late_finish_wedges_tracer_witness:
  "\<exists>t. trace_init_with_config 9 sample_tracer_config = Some (Inr t) \<and>
     length (sy_exported (tracer_run (late_finish_trace (sb_capacity (tr_buffer t)) @ [Start_Span 8 trace_id_zero 0 [65], Export_Spans 9])
       (tracer_start 77 t))) = sb_capacity (tr_buffer t)"
proof -
  obtain t where t: "trace_init_with_config 9 sample_tracer_config = Some (Inr t)" "always_on (tr_sampling t)"
    by (rule trace_init_starts [of sample_tracer_config 9]) (simp_all add: sample_tracer_config_def always_on_def)
  have "tg_buffer_capacity sample_tracer_config \<le> 2 ^ 63" by (simp add: sample_tracer_config_def)
  with t show ?thesis
    using late_finish_wedges_tracer [of 9 sample_tracer_config t "[Start_Span 8 trace_id_zero 0 [65], Export_Spans 9]" 77] by auto
qed

text \<open>
  The drop window is left open by one to four drops, however old they are: the fifth drop enters backpressure even when
  the drops came far more than a second apart.
\<close>

lemma drop_window_stays_open:
  assumes "\<not> sa_bp_drop_signal s" and "sa_drop_window_start_ns s \<noteq> 0" and "drops - sa_drops_at_window_start s \<noteq> 0"
  shows "sa_drop_window_start_ns (sampling_state_update s b drops now) = sa_drop_window_start_ns s"
    and "sa_drops_at_window_start (sampling_state_update s b drops now) = sa_drops_at_window_start s"
    and "sa_bp_drop_signal (sampling_state_update s b drops now) \<longleftrightarrow> drops - sa_drops_at_window_start s \<ge> DROP_RATE_ENTER_THRESHOLD"
  using assms by (simp_all add: sampling_state_update_def Let_def split: prod.splits)

end
