(* ===== verification/Metrics.thy ===== *)
theory Metrics
  imports Prelude
begin

unbundle bit_operations_syntax

text \<open>
  The metrics registry of \<^verbatim>\<open>libs/distric_obs/src/metrics.c\<close>: registration, the flat array of instances with
  one element per combination of label values, counters, gauges and histograms. A \<^verbatim>\<open>double\<close> is its bit
  pattern, as the code stores it; addition of doubles is a parameter. Every update is a few atomic
  operations on one instance and is one step here. The registry lists the metrics registered so far; a
  metric is known by its position.
\<close>

section \<open>Data\<close>

definition DISTRIC_MAX_METRICS :: nat where "DISTRIC_MAX_METRICS = 1024"
definition DISTRIC_MAX_METRIC_LABELS :: nat where "DISTRIC_MAX_METRIC_LABELS = 8"
definition DISTRIC_MAX_METRIC_CARDINALITY :: nat where "DISTRIC_MAX_METRIC_CARDINALITY = 10000"
definition HISTOGRAM_BUCKET_COUNT :: nat where "HISTOGRAM_BUCKET_COUNT = 10"

datatype metric_type = METRIC_TYPE_COUNTER | METRIC_TYPE_GAUGE | METRIC_TYPE_HISTOGRAM

datatype registry_state = REGISTRY_STATE_MUTABLE | REGISTRY_STATE_FROZEN | REGISTRY_STATE_DESTROYED

record metric_label =
  ml_key :: cstr
  ml_value :: cstr

text \<open>\<open>md_allowed_values\<close> is \<open>None\<close> for a null pointer; its elements may be null pointers as well.\<close>

record metric_label_definition =
  md_key :: cstr
  md_allowed_values :: "cstr option list option"

record metrics_config =
  mc_max_metrics :: nat
  mc_max_cardinality :: nat

record histogram_bucket =
  hb_upper_bound :: u64
  hb_count :: u64

record histogram_instance =
  hi_buckets :: "histogram_bucket list"
  hi_count :: u64
  hi_sum_bits :: u64

text \<open>The union of the three instance arrays, with the member last written.\<close>

datatype instance_array = Counters "u64 list" | Gauges "u64 list" | Histograms "histogram_instance list"

record metric =
  mt_name :: cstr
  mt_help :: cstr
  mt_type :: metric_type
  mt_label_defs :: "metric_label_definition list"
  mt_strides :: "nat list"
  mt_cardinality :: nat
  mt_labels_table :: "metric_label list"
  mt_instances :: instance_array

record metrics_registry =
  mr_metrics :: "metric list"
  mr_effective_max :: nat
  mr_effective_cardinality_cap :: nat
  mr_state :: registry_state
  mr_refcount :: u32

section \<open>Doubles\<close>

definition is_nan :: "u64 \<Rightarrow> bool" where
  "is_nan d \<longleftrightarrow> d AND 0x7FFFFFFFFFFFFFFF > 0x7FF0000000000000"

definition is_inf :: "u64 \<Rightarrow> bool" where
  "is_inf d \<longleftrightarrow> d AND 0x7FFFFFFFFFFFFFFF = 0x7FF0000000000000"

definition double_rank :: "u64 \<Rightarrow> int" where
  "double_rank d = (let magnitude = uint (d AND 0x7FFFFFFFFFFFFFFF) in if bit d 63 then - magnitude else magnitude)"

text \<open>The order of doubles: false as soon as one of them is not a number, and both zeros are equal.\<close>

definition double_le :: "u64 \<Rightarrow> u64 \<Rightarrow> bool" where
  "double_le a b \<longleftrightarrow> \<not> is_nan a \<and> \<not> is_nan b \<and> double_rank a \<le> double_rank b"

text \<open>0.001, 0.005, 0.01, 0.05, 0.1, 0.5, 1, 5, 10 and infinity.\<close>

definition HISTOGRAM_DEFAULT_BUCKETS :: "u64 list" where
  "HISTOGRAM_DEFAULT_BUCKETS = [4562254508917369340, 4572414629676717179, 4576918229304087675, 4587366580439587226,
     4591870180066957722, 4602678819172646912, 4607182418800017408, 4617315517961601024, 4621819117588971520,
     9218868437227405312]"

section \<open>Label combinations\<close>

definition num_values :: "metric_label_definition \<Rightarrow> nat" where
  "num_values d = (case md_allowed_values d of None \<Rightarrow> 0 | Some vs \<Rightarrow> length vs)"

fun compute_cardinality :: "nat \<Rightarrow> metric_label_definition list \<Rightarrow> nat" where
  "compute_cardinality combinations [] = combinations"
| "compute_cardinality combinations (d # defs) =
     (if num_values d = 0 then 0
      else if combinations > (2 ^ 64 - 1) div num_values d then 0
      else compute_cardinality (combinations * num_values d) defs)"

fun compute_strides :: "metric_label_definition list \<Rightarrow> nat list" where
  "compute_strides [] = []"
| "compute_strides [d] = [1]"
| "compute_strides (d # e # defs) = (let s = compute_strides (e # defs) in hd s * num_values e # s)"

definition label_value :: "metric_label list \<Rightarrow> cstr \<Rightarrow> cstr option" where
  "label_value labels key = map_option ml_value (find (\<lambda>l. ml_key l = key) labels)"

fun value_ordinal :: "cstr option list \<Rightarrow> cstr \<Rightarrow> nat option" where
  "value_ordinal [] val = None"
| "value_ordinal (v # vs) val = (if v = Some val then Some 0 else map_option Suc (value_ordinal vs val))"

fun flat_loop :: "metric_label list \<Rightarrow> nat \<Rightarrow> (metric_label_definition \<times> nat) list \<Rightarrow> nat option" where
  "flat_loop labels flat [] = Some flat"
| "flat_loop labels flat ((def, stride) # ds) =
     (case label_value labels (md_key def) of
        None \<Rightarrow> None
      | Some val \<Rightarrow>
          (case value_ordinal (case md_allowed_values def of None \<Rightarrow> [] | Some vs \<Rightarrow> vs) val of
             None \<Rightarrow> None
           | Some vi \<Rightarrow> flat_loop labels (flat + vi * stride) ds))"

text \<open>\<open>None\<close> is the result -1.\<close>

definition compute_flat_index :: "metric \<Rightarrow> metric_label list \<Rightarrow> nat option" where
  "compute_flat_index m labels =
     (if mt_label_defs m = [] \<and> labels = [] then Some 0
      else if length labels \<noteq> length (mt_label_defs m) then None
      else flat_loop labels 0 (zip (mt_label_defs m) (mt_strides m)))"

definition decode_label :: "nat \<Rightarrow> metric_label_definition \<times> nat \<Rightarrow> metric_label" where
  "decode_label fi = (\<lambda>(def, stride).
     let vs = (case md_allowed_values def of None \<Rightarrow> [] | Some vs \<Rightarrow> vs); vi = (fi div stride) mod num_values def
     in \<lparr>ml_key = strncpy 63 (md_key def), ml_value = strncpy 127 (case vs ! vi of None \<Rightarrow> [] | Some v \<Rightarrow> v)\<rparr>)"

definition decode_flat_index :: "metric \<Rightarrow> nat \<Rightarrow> metric_label list" where
  "decode_flat_index m fi = map (decode_label fi) (zip (mt_label_defs m) (mt_strides m))"

definition build_labels_table :: "metric \<Rightarrow> metric_label list" where
  "build_labels_table m = concat (map (decode_flat_index m) [0..<mt_cardinality m])"

section \<open>Registry\<close>

definition metrics_init_with_config :: "metrics_config option \<Rightarrow> metrics_registry" where
  "metrics_init_with_config config =
     (let limit = (case config of None \<Rightarrow> 0 | Some c \<Rightarrow> mc_max_metrics c);
          card_cap = (case config of None \<Rightarrow> 0 | Some c \<Rightarrow> mc_max_cardinality c)
      in \<lparr>mr_metrics = [],
          mr_effective_max = (if limit = 0 \<or> limit > DISTRIC_MAX_METRICS then DISTRIC_MAX_METRICS else limit),
          mr_effective_cardinality_cap = (if card_cap = 0 \<or> card_cap > DISTRIC_MAX_METRIC_CARDINALITY
            then DISTRIC_MAX_METRIC_CARDINALITY else card_cap),
          mr_state = REGISTRY_STATE_MUTABLE, mr_refcount = 1\<rparr>)"

definition metrics_init :: metrics_registry where
  "metrics_init = metrics_init_with_config (Some \<lparr>mc_max_metrics = 0, mc_max_cardinality = 0\<rparr>)"

definition metrics_retain :: "metrics_registry \<Rightarrow> metrics_registry" where
  "metrics_retain r = r\<lparr>mr_refcount := mr_refcount r + 1\<rparr>"

text \<open>The state every reader sees while \<^verbatim>\<open>metrics_destroy\<close> frees the registry.\<close>

definition metrics_destroy :: "metrics_registry \<Rightarrow> metrics_registry" where
  "metrics_destroy r = r\<lparr>mr_state := REGISTRY_STATE_DESTROYED, mr_metrics := []\<rparr>"

definition metrics_release :: "metrics_registry \<Rightarrow> bool \<times> metrics_registry" where
  "metrics_release r = (let r' = r\<lparr>mr_refcount := mr_refcount r - 1\<rparr>
     in if mr_refcount r = 1 then (True, metrics_destroy r') else (False, r'))"

definition metrics_freeze :: "metrics_registry \<Rightarrow> metrics_registry" where
  "metrics_freeze r = r\<lparr>mr_state := REGISTRY_STATE_FROZEN\<rparr>"

definition fresh_histogram :: histogram_instance where
  "fresh_histogram = \<lparr>hi_buckets = map (\<lambda>b. \<lparr>hb_upper_bound = b, hb_count = 0\<rparr>) HISTOGRAM_DEFAULT_BUCKETS,
     hi_count = 0, hi_sum_bits = 0\<rparr>"

definition alloc_instances :: "metric_type \<Rightarrow> nat \<Rightarrow> instance_array" where
  "alloc_instances ty alloc_slots =
     (case ty of
        METRIC_TYPE_COUNTER \<Rightarrow> Counters (replicate alloc_slots 0)
      | METRIC_TYPE_GAUGE \<Rightarrow> Gauges (replicate alloc_slots 0)
      | METRIC_TYPE_HISTOGRAM \<Rightarrow> Histograms (replicate alloc_slots fresh_histogram))"

definition new_metric :: "cstr \<Rightarrow> cstr \<Rightarrow> metric_type \<Rightarrow> metric_label_definition list \<Rightarrow> nat \<Rightarrow> metric" where
  "new_metric name help ty label_defs combinations =
     (let m = \<lparr>mt_name = strncpy 127 name, mt_help = strncpy 255 help, mt_type = ty, mt_label_defs = label_defs,
            mt_strides = compute_strides label_defs, mt_cardinality = combinations, mt_labels_table = [],
            mt_instances = alloc_instances ty (if label_defs \<noteq> [] then combinations + 1 else combinations)\<rparr>
      in m\<lparr>mt_labels_table := (if label_defs = [] then [] else build_labels_table m)\<rparr>)"

text \<open>The position of the new metric, and the registry.\<close>

definition register_metric ::
  "metrics_registry \<Rightarrow> cstr \<Rightarrow> cstr \<Rightarrow> metric_type \<Rightarrow> metric_label_definition list \<Rightarrow> nat result \<times> metrics_registry" where
  "register_metric r name help ty label_defs =
     (if length label_defs > DISTRIC_MAX_METRIC_LABELS then (Inl DISTRIC_ERR_INVALID_ARG, r)
      else
        let combinations = compute_cardinality 1 label_defs
        in if combinations = 0 \<and> label_defs \<noteq> [] then (Inl DISTRIC_ERR_HIGH_CARDINALITY, r)
           else if combinations > mr_effective_cardinality_cap r then (Inl DISTRIC_ERR_HIGH_CARDINALITY, r)
           else if mr_state r = REGISTRY_STATE_FROZEN then (Inl DISTRIC_ERR_REGISTRY_FROZEN, r)
           else if mr_state r = REGISTRY_STATE_DESTROYED then (Inl DISTRIC_ERR_SHUTDOWN, r)
           else
             let idx = length (mr_metrics r)
             in if idx \<ge> mr_effective_max r then (Inl DISTRIC_ERR_REGISTRY_FULL, r)
                else (Inr idx, r\<lparr>mr_metrics := mr_metrics r @ [new_metric name help ty label_defs combinations]\<rparr>))"

definition metrics_register_counter where
  "metrics_register_counter r name help ld = register_metric r name help METRIC_TYPE_COUNTER ld"

definition metrics_register_gauge where
  "metrics_register_gauge r name help ld = register_metric r name help METRIC_TYPE_GAUGE ld"

definition metrics_register_histogram where
  "metrics_register_histogram r name help ld = register_metric r name help METRIC_TYPE_HISTOGRAM ld"

section \<open>Updates\<close>

text \<open>
  Access to element \<open>idx\<close> through one member of the union. \<open>None\<close> is an access through a member that was
  not written, or outside the array.
\<close>

definition at_counter :: "nat \<Rightarrow> (u64 \<Rightarrow> u64) \<Rightarrow> metric \<Rightarrow> metric option" where
  "at_counter idx f m =
     (case mt_instances m of
        Counters vs \<Rightarrow> if idx < length vs then Some (m\<lparr>mt_instances := Counters (vs[idx := f (vs ! idx)])\<rparr>) else None
      | _ \<Rightarrow> None)"

definition at_gauge :: "nat \<Rightarrow> (u64 \<Rightarrow> u64) \<Rightarrow> metric \<Rightarrow> metric option" where
  "at_gauge idx f m =
     (case mt_instances m of
        Gauges vs \<Rightarrow> if idx < length vs then Some (m\<lparr>mt_instances := Gauges (vs[idx := f (vs ! idx)])\<rparr>) else None
      | _ \<Rightarrow> None)"

definition at_histogram :: "nat \<Rightarrow> (histogram_instance \<Rightarrow> histogram_instance) \<Rightarrow> metric \<Rightarrow> metric option" where
  "at_histogram idx f m =
     (case mt_instances m of
        Histograms vs \<Rightarrow> if idx < length vs then Some (m\<lparr>mt_instances := Histograms (vs[idx := f (vs ! idx)])\<rparr>) else None
      | _ \<Rightarrow> None)"

text \<open>The update of the instance a label set belongs to; \<open>access\<close> is one of the three above.\<close>

definition at_labels :: "(nat \<Rightarrow> metric \<Rightarrow> metric option) \<Rightarrow> metric \<Rightarrow> metric_label list \<Rightarrow> (distric_err \<times> metric) option" where
  "at_labels access m labels =
     (case compute_flat_index m labels of
        None \<Rightarrow> Some (DISTRIC_ERR_INVALID_LABEL, m)
      | Some idx \<Rightarrow> map_option (Pair DISTRIC_OK) (access idx m))"

definition base_slot :: "metric \<Rightarrow> nat" where
  "base_slot m = (if mt_label_defs m \<noteq> [] then mt_cardinality m else 0)"

definition metrics_counter_inc :: "metric \<Rightarrow> metric option" where
  "metrics_counter_inc m = at_counter (base_slot m) (\<lambda>v. v + 1) m"

definition metrics_counter_add :: "metric \<Rightarrow> u64 \<Rightarrow> metric option" where
  "metrics_counter_add m value = at_counter (base_slot m) (\<lambda>v. v + value) m"

definition metrics_counter_inc_labels :: "metric \<Rightarrow> metric_label list \<Rightarrow> (distric_err \<times> metric) option" where
  "metrics_counter_inc_labels m labels = at_labels (\<lambda>idx. at_counter idx (\<lambda>v. v + 1)) m labels"

definition metrics_counter_add_labels :: "metric \<Rightarrow> metric_label list \<Rightarrow> u64 \<Rightarrow> (distric_err \<times> metric) option" where
  "metrics_counter_add_labels m labels value = at_labels (\<lambda>idx. at_counter idx (\<lambda>v. v + value)) m labels"

definition counter_values :: "metric \<Rightarrow> u64 list" where
  "counter_values m = (case mt_instances m of Counters vs \<Rightarrow> vs | _ \<Rightarrow> [])"

definition metrics_counter_get :: "metric \<Rightarrow> u64" where
  "metrics_counter_get m = counter_values m ! base_slot m"

definition metrics_counter_get_labeled_total :: "metric \<Rightarrow> u64" where
  "metrics_counter_get_labeled_total m =
     (if mt_label_defs m = [] \<or> mt_cardinality m = 0 then counter_values m ! 0
      else foldl (\<lambda>total i. total + counter_values m ! i) 0 [0..<mt_cardinality m])"

definition metrics_gauge_set :: "metric \<Rightarrow> u64 \<Rightarrow> metric option" where
  "metrics_gauge_set m value = at_gauge 0 (\<lambda>_. value) m"

definition metrics_gauge_set_labels :: "metric \<Rightarrow> metric_label list \<Rightarrow> u64 \<Rightarrow> (distric_err \<times> metric) option" where
  "metrics_gauge_set_labels m labels value = at_labels (\<lambda>idx. at_gauge idx (\<lambda>_. value)) m labels"

definition gauge_values :: "metric \<Rightarrow> u64 list" where
  "gauge_values m = (case mt_instances m of Gauges vs \<Rightarrow> vs | _ \<Rightarrow> [])"

definition metrics_gauge_get :: "metric \<Rightarrow> u64" where
  "metrics_gauge_get m = gauge_values m ! 0"

definition observe :: "(u64 \<Rightarrow> u64 \<Rightarrow> u64) \<Rightarrow> u64 \<Rightarrow> histogram_instance \<Rightarrow> histogram_instance" where
  "observe fadd value inst = inst\<lparr>hi_count := hi_count inst + 1, hi_sum_bits := fadd (hi_sum_bits inst) value,
     hi_buckets := map (\<lambda>b. if double_le value (hb_upper_bound b) then b\<lparr>hb_count := hb_count b + 1\<rparr> else b) (hi_buckets inst)\<rparr>"

definition metrics_histogram_observe :: "(u64 \<Rightarrow> u64 \<Rightarrow> u64) \<Rightarrow> metric \<Rightarrow> u64 \<Rightarrow> metric option" where
  "metrics_histogram_observe fadd m value = at_histogram 0 (observe fadd value) m"

definition metrics_histogram_observe_labels ::
  "(u64 \<Rightarrow> u64 \<Rightarrow> u64) \<Rightarrow> metric \<Rightarrow> metric_label list \<Rightarrow> u64 \<Rightarrow> (distric_err \<times> metric) option" where
  "metrics_histogram_observe_labels fadd m labels value = at_labels (\<lambda>idx. at_histogram idx (observe fadd value)) m labels"

definition histogram_values :: "metric \<Rightarrow> histogram_instance list" where
  "histogram_values m = (case mt_instances m of Histograms vs \<Rightarrow> vs | _ \<Rightarrow> [])"

definition metrics_histogram_get_count :: "metric \<Rightarrow> u64" where
  "metrics_histogram_get_count m = hi_count (histogram_values m ! 0)"

definition metrics_histogram_get_sum :: "metric \<Rightarrow> u64" where
  "metrics_histogram_get_sum m = hi_sum_bits (histogram_values m ! 0)"

section \<open>Sequences of updates\<close>

datatype metric_op =
    Counter_Add u64
  | Counter_Add_Labels "metric_label list" u64
  | Gauge_Set u64
  | Gauge_Set_Labels "metric_label list" u64
  | Histogram_Observe u64
  | Histogram_Observe_Labels "metric_label list" u64

fun op_type :: "metric_op \<Rightarrow> metric_type" where
  "op_type (Counter_Add v) = METRIC_TYPE_COUNTER"
| "op_type (Counter_Add_Labels ls v) = METRIC_TYPE_COUNTER"
| "op_type (Gauge_Set v) = METRIC_TYPE_GAUGE"
| "op_type (Gauge_Set_Labels ls v) = METRIC_TYPE_GAUGE"
| "op_type (Histogram_Observe v) = METRIC_TYPE_HISTOGRAM"
| "op_type (Histogram_Observe_Labels ls v) = METRIC_TYPE_HISTOGRAM"

fun metric_step :: "(u64 \<Rightarrow> u64 \<Rightarrow> u64) \<Rightarrow> metric_op \<Rightarrow> metric \<Rightarrow> (distric_err \<times> metric) option" where
  "metric_step fadd (Counter_Add v) m = map_option (Pair DISTRIC_OK) (metrics_counter_add m v)"
| "metric_step fadd (Counter_Add_Labels ls v) m = metrics_counter_add_labels m ls v"
| "metric_step fadd (Gauge_Set v) m = map_option (Pair DISTRIC_OK) (metrics_gauge_set m v)"
| "metric_step fadd (Gauge_Set_Labels ls v) m = metrics_gauge_set_labels m ls v"
| "metric_step fadd (Histogram_Observe v) m = map_option (Pair DISTRIC_OK) (metrics_histogram_observe fadd m v)"
| "metric_step fadd (Histogram_Observe_Labels ls v) m = metrics_histogram_observe_labels fadd m ls v"

text \<open>\<open>None\<close> when an update of the sequence is undefined.\<close>

fun metric_run :: "(u64 \<Rightarrow> u64 \<Rightarrow> u64) \<Rightarrow> metric_op list \<Rightarrow> metric \<Rightarrow> metric option" where
  "metric_run fadd [] m = Some m"
| "metric_run fadd (op # ops) m = (case metric_step fadd op m of None \<Rightarrow> None | Some (e, m') \<Rightarrow> metric_run fadd ops m')"

text \<open>The instance an update goes to; \<open>None\<close> for labels that are refused.\<close>

fun op_slot :: "metric \<Rightarrow> metric_op \<Rightarrow> nat option" where
  "op_slot m (Counter_Add v) = Some (base_slot m)"
| "op_slot m (Counter_Add_Labels ls v) = compute_flat_index m ls"
| "op_slot m (Gauge_Set v) = Some 0"
| "op_slot m (Gauge_Set_Labels ls v) = compute_flat_index m ls"
| "op_slot m (Histogram_Observe v) = Some 0"
| "op_slot m (Histogram_Observe_Labels ls v) = compute_flat_index m ls"

fun op_value :: "metric_op \<Rightarrow> u64" where
  "op_value (Counter_Add v) = v"
| "op_value (Counter_Add_Labels ls v) = v"
| "op_value (Gauge_Set v) = v"
| "op_value (Gauge_Set_Labels ls v) = v"
| "op_value (Histogram_Observe v) = v"
| "op_value (Histogram_Observe_Labels ls v) = v"

text \<open>The values of the updates that go to one instance, in order.\<close>

definition values_at :: "metric \<Rightarrow> metric_op list \<Rightarrow> nat \<Rightarrow> u64 list" where
  "values_at m ops i = map op_value (filter (\<lambda>op. op_slot m op = Some i) ops)"

definition combinations_of :: "metric_label_definition list \<Rightarrow> nat" where
  "combinations_of defs = prod_list (map num_values defs)"

definition slots_of :: "metric \<Rightarrow> nat" where
  "slots_of m = (if mt_label_defs m \<noteq> [] then mt_cardinality m + 1 else mt_cardinality m)"

fun instances_ok :: "metric_type \<Rightarrow> nat \<Rightarrow> instance_array \<Rightarrow> bool" where
  "instances_ok METRIC_TYPE_COUNTER n (Counters vs) \<longleftrightarrow> length vs = n"
| "instances_ok METRIC_TYPE_GAUGE n (Gauges vs) \<longleftrightarrow> length vs = n"
| "instances_ok METRIC_TYPE_HISTOGRAM n (Histograms vs) \<longleftrightarrow> length vs = n"
| "instances_ok _ n _ \<longleftrightarrow> False"

definition metric_ok :: "metric \<Rightarrow> bool" where
  "metric_ok m \<longleftrightarrow> mt_strides m = compute_strides (mt_label_defs m) \<and> mt_cardinality m = combinations_of (mt_label_defs m)
     \<and> list_all (\<lambda>d. num_values d \<noteq> 0) (mt_label_defs m) \<and> instances_ok (mt_type m) (slots_of m) (mt_instances m)"

text \<open>Distinct keys and values that fit their arrays.\<close>

definition def_ok :: "metric_label_definition \<Rightarrow> bool" where
  "def_ok d \<longleftrightarrow> wf_cstr 64 (md_key d) \<and>
     (case md_allowed_values d of None \<Rightarrow> False
      | Some vs \<Rightarrow> distinct vs \<and> list_all (\<lambda>v. case v of None \<Rightarrow> False | Some v \<Rightarrow> wf_cstr 128 v) vs)"

definition defs_ok :: "metric_label_definition list \<Rightarrow> bool" where
  "defs_ok defs \<longleftrightarrow> distinct (map md_key defs) \<and> list_all def_ok defs"

definition label_of :: "metric_label list \<Rightarrow> metric_label_definition \<Rightarrow> metric_label" where
  "label_of labels d = \<lparr>ml_key = md_key d, ml_value = the (label_value labels (md_key d))\<rparr>"

text \<open>All instances after a sequence of updates.\<close>

definition updated_instances :: "(u64 \<Rightarrow> u64 \<Rightarrow> u64) \<Rightarrow> metric_op list \<Rightarrow> metric \<Rightarrow> instance_array" where
  "updated_instances fadd ops m =
     (case mt_instances m of
        Counters vs \<Rightarrow> Counters (map (\<lambda>i. foldl (+) (vs ! i) (values_at m ops i)) [0..<length vs])
      | Gauges vs \<Rightarrow> Gauges (map (\<lambda>i. foldl (\<lambda>_ v. v) (vs ! i) (values_at m ops i)) [0..<length vs])
      | Histograms hs \<Rightarrow> Histograms (map (\<lambda>i. foldl (\<lambda>h v. observe fadd v h) (hs ! i) (values_at m ops i)) [0..<length hs]))"

definition sample_defs :: "metric_label_definition list" where
  "sample_defs = [\<lparr>md_key = [109], md_allowed_values = Some [Some [71], Some [80]]\<rparr>,
     \<lparr>md_key = [115], md_allowed_values = Some [Some [50], Some [52], Some [53]]\<rparr>]"

section \<open>The flat index\<close>

lemma cardinality_combinations:
  assumes "compute_cardinality c defs \<noteq> 0"
  shows "compute_cardinality c defs = c * combinations_of defs" and "list_all (\<lambda>d. num_values d \<noteq> 0) defs"
  using assms by (induction c defs rule: compute_cardinality.induct) (simp_all add: combinations_of_def split: if_splits)

lemma strides_Cons: "compute_strides (d # ds) = combinations_of ds # compute_strides ds"
proof (induction ds arbitrary: d)
  case (Cons e ds)
  then show ?case by (simp add: combinations_of_def mult.commute)
qed (simp add: combinations_of_def)

lemma length_strides [simp]: "length (compute_strides ds) = length ds"
  by (induction ds) (simp_all add: strides_Cons)

lemma combinations_Cons: "combinations_of (d # ds) = num_values d * combinations_of ds"
  by (simp add: combinations_of_def)

lemma combinations_pos: "list_all (\<lambda>d. num_values d \<noteq> 0) ds \<Longrightarrow> 0 < combinations_of ds"
  by (induction ds) (auto simp: combinations_of_def)

lemma value_ordinal_SomeD: "value_ordinal vs v = Some i \<Longrightarrow> i < length vs \<and> vs ! i = Some v"
  by (induction vs arbitrary: i) (auto split: if_splits)

lemma value_ordinal_nth: "distinct vs \<Longrightarrow> i < length vs \<Longrightarrow> vs ! i = Some v \<Longrightarrow> value_ordinal vs v = Some i"
proof (induction vs arbitrary: i)
  case (Cons w vs)
  then show ?case by (cases i) (auto simp: in_set_conv_nth)
qed simp

text \<open>The row of the label table for an index depends only on the index modulo the number of combinations.\<close>

lemma decode_periodic:
  assumes "list_all (\<lambda>d. num_values d \<noteq> 0) ds"
  shows "map (decode_label (k * combinations_of ds + r)) (zip ds (compute_strides ds)) = map (decode_label r) (zip ds (compute_strides ds))"
  using assms
proof (induction ds arbitrary: k)
  case (Cons d ds)
  have "0 < combinations_of ds" using Cons.prems combinations_pos by simp
  then have "((k * (num_values d * combinations_of ds) + r) div combinations_of ds) mod num_values d = (r div combinations_of ds) mod num_values d"
    by (simp add: mult.assoc [symmetric] div_mult_self3)
  then show ?case
    using Cons.IH [of "k * num_values d"] Cons.prems by (simp add: strides_Cons combinations_Cons decode_label_def mult.assoc)
qed simp

lemma def_okD:
  assumes "def_ok d"
  shows "strncpy 63 (md_key d) = md_key d" and "\<exists>vs. md_allowed_values d = Some vs \<and> distinct vs \<and> num_values d = length vs
    \<and> (\<forall>i < length vs. \<exists>v. vs ! i = Some v \<and> strncpy 127 v = v)"
proof -
  show "strncpy 63 (md_key d) = md_key d" using assms strncpy_id [of 63 "md_key d"] by (simp add: def_ok_def)
  obtain vs where vs: "md_allowed_values d = Some vs" "distinct vs" "list_all (\<lambda>v. case v of None \<Rightarrow> False | Some v \<Rightarrow> wf_cstr 128 v) vs"
    using assms by (auto simp: def_ok_def split: option.splits)
  have "\<exists>v. vs ! i = Some v \<and> strncpy 127 v = v" if "i < length vs" for i
  proof -
    have "case vs ! i of None \<Rightarrow> False | Some v \<Rightarrow> wf_cstr 128 v" using vs(3) that by (simp add: list_all_length)
    then show ?thesis using strncpy_id [of 127] by (auto split: option.splits)
  qed
  then show "\<exists>vs. md_allowed_values d = Some vs \<and> distinct vs \<and> num_values d = length vs
    \<and> (\<forall>i < length vs. \<exists>v. vs ! i = Some v \<and> strncpy 127 v = v)" using vs(1,2) by (auto simp: num_values_def)
qed

lemma flat_loop_SomeD:
  assumes "list_all def_ok ds" and "flat_loop labels f (zip ds (compute_strides ds)) = Some g"
  shows "\<exists>r < combinations_of ds. g = f + r \<and> (\<forall>d \<in> set ds. label_value labels (md_key d) \<noteq> None)
    \<and> map (decode_label r) (zip ds (compute_strides ds)) = map (label_of labels) ds"
  using assms
proof (induction ds arbitrary: f)
  case (Cons d ds)
  let ?P = "combinations_of ds"
  obtain vs where vs: "md_allowed_values d = Some vs" "num_values d = length vs" "\<forall>i < length vs. \<exists>v. vs ! i = Some v \<and> strncpy 127 v = v"
    using def_okD(2) [of d] Cons.prems(1) by auto
  obtain val vi where val: "label_value labels (md_key d) = Some val" "value_ordinal vs val = Some vi"
      and rest: "flat_loop labels (f + vi * ?P) (zip ds (compute_strides ds)) = Some g"
    using Cons.prems(2) vs(1) by (auto simp: strides_Cons split: option.splits)
  have vi: "vi < length vs" "vs ! vi = Some val" using value_ordinal_SomeD [OF val(2)] by auto
  obtain r where r: "r < ?P" "g = f + vi * ?P + r" "\<forall>d \<in> set ds. label_value labels (md_key d) \<noteq> None"
      "map (decode_label r) (zip ds (compute_strides ds)) = map (label_of labels) ds"
    using Cons.IH [OF _ rest] Cons.prems(1) by auto
  have nz: "list_all (\<lambda>d. num_values d \<noteq> 0) ds"
  proof -
    have "combinations_of ds \<noteq> 0" using r(1) by simp
    then show ?thesis unfolding combinations_of_def by (induction ds) auto
  qed
  have "decode_label (vi * ?P + r) (d, ?P) = label_of labels d"
    using vi vs r(1) val(1) def_okD(1) [of d] Cons.prems(1) by (auto simp: decode_label_def label_of_def)
  moreover have "vi * ?P + r < combinations_of (d # ds)"
    using vi(1) r(1) vs(2) mult_le_mono1 [of "Suc vi" "length vs" ?P] by (simp add: combinations_Cons)
  ultimately show ?case
    using r val(1) decode_periodic [OF nz, of vi r] by (intro exI [of _ "vi * ?P + r"]) (simp add: strides_Cons)
qed (simp add: combinations_of_def)

lemma flat_loop_decoded:
  assumes "list_all def_ok ds" and "r < combinations_of ds"
    and "map (decode_label r) (zip ds (compute_strides ds)) = map (label_of labels) ds"
    and "\<forall>d \<in> set ds. label_value labels (md_key d) \<noteq> None"
  shows "flat_loop labels f (zip ds (compute_strides ds)) = Some (f + r)"
  using assms
proof (induction ds arbitrary: f r)
  case (Cons d ds)
  let ?P = "combinations_of ds"
  obtain vs where vs: "md_allowed_values d = Some vs" "distinct vs" "num_values d = length vs" "\<forall>i < length vs. \<exists>v. vs ! i = Some v \<and> strncpy 127 v = v"
    using def_okD(2) [of d] Cons.prems(1) by auto
  have P: "0 < ?P" using Cons.prems(2) by (cases ?P) (auto simp: combinations_Cons)
  have nz: "list_all (\<lambda>d. num_values d \<noteq> 0) ds" using P unfolding combinations_of_def by (induction ds) auto
  have vi: "r div ?P < length vs" using Cons.prems(2) P vs(3) by (simp add: combinations_Cons less_mult_imp_div_less)
  then obtain v where v: "vs ! (r div ?P) = Some v" "strncpy 127 v = v" using vs(4) by blast
  have "decode_label r (d, ?P) = label_of labels d" using Cons.prems(3) by (simp add: strides_Cons)
  then have "label_value labels (md_key d) = Some v"
    using Cons.prems(4) vi v vs(1,3) by (auto simp: decode_label_def label_of_def)
  moreover have "value_ordinal vs v = Some (r div ?P)" by (rule value_ordinal_nth [OF vs(2) vi v(1)])
  moreover have "map (decode_label (r mod ?P)) (zip ds (compute_strides ds)) = map (label_of labels) ds"
    using decode_periodic [OF nz, of "r div ?P" "r mod ?P", unfolded div_mult_mod_eq] Cons.prems(3) by (simp only: strides_Cons zip_Cons_Cons list.map list.inject)
  then have "flat_loop labels (f + (r div ?P) * ?P) (zip ds (compute_strides ds)) = Some (f + (r div ?P) * ?P + r mod ?P)"
    using Cons.IH [of "r mod ?P" "f + (r div ?P) * ?P"] Cons.prems(1,4) P by simp
  ultimately show ?case using vs(1) by (simp add: strides_Cons)
qed (simp add: combinations_of_def)

lemma find_key_nth: "distinct (map ml_key xs) \<Longrightarrow> j < length xs \<Longrightarrow> find (\<lambda>l. ml_key l = ml_key (xs ! j)) xs = Some (xs ! j)"
proof (induction xs arbitrary: j)
  case (Cons x xs)
  then show ?case by (cases j) (auto simp: image_iff)
qed simp

lemma label_value_label_of:
  assumes "distinct (map md_key ds)" and "d \<in> set ds"
  shows "label_value (map (label_of labels) ds) (md_key d) = Some (ml_value (label_of labels d))"
  using assms
proof (induction ds)
  case (Cons e ds)
  then show ?case by (cases "d = e") (auto simp: label_value_def label_of_def image_iff)
qed simp

text \<open>A label set with the right number of labels in which every key is found has exactly these keys.\<close>

lemma set_label_of:
  assumes "distinct (map md_key ds)" and "length labels = length ds" and "\<forall>d \<in> set ds. label_value labels (md_key d) \<noteq> None"
  shows "set (map (label_of labels) ds) = set labels"
proof -
  have "md_key ` set ds \<subseteq> ml_key ` set labels"
  proof
    fix k assume "k \<in> md_key ` set ds"
    then obtain d where "d \<in> set ds" "k = md_key d" by blast
    then have "find (\<lambda>l. ml_key l = k) labels \<noteq> None" using assms(3) by (auto simp: label_value_def)
    then show "k \<in> ml_key ` set labels" by (auto simp: find_None_iff)
  qed
  moreover have "card (md_key ` set ds) = length labels" using assms(1,2) distinct_card [OF assms(1)] by simp
  moreover have "card (ml_key ` set labels) \<le> length labels" using card_length [of "map ml_key labels"] by simp
  ultimately have keys: "md_key ` set ds = ml_key ` set labels" and "card (ml_key ` set labels) = length labels"
    using card_seteq [of "ml_key ` set labels" "md_key ` set ds"] by auto
  then have dist: "distinct (map ml_key labels)" by (simp add: card_distinct)
  have same: "label_of labels d = l" if "l \<in> set labels" "md_key d = ml_key l" for d l
    using that find_key_nth [OF dist] by (auto simp: label_of_def label_value_def in_set_conv_nth)
  show ?thesis
  proof (intro set_eqI iffI)
    fix x assume "x \<in> set (map (label_of labels) ds)"
    then obtain d where d: "d \<in> set ds" "x = label_of labels d" by auto
    then obtain l where "l \<in> set labels" "md_key d = ml_key l" using keys by (metis imageE imageI)
    then show "x \<in> set labels" using d(2) same by simp
  next
    fix x assume x: "x \<in> set labels"
    then obtain d where "d \<in> set ds" "md_key d = ml_key x" using keys by (metis imageE imageI)
    then show "x \<in> set (map (label_of labels) ds)" using same [OF x] by force
  qed
qed

lemma flat_index_row:
  assumes "metric_ok m" and "defs_ok (mt_label_defs m)" and "compute_flat_index m labels = Some fi"
  shows "fi < mt_cardinality m" and "set (decode_flat_index m fi) = set labels"
proof -
  have "fi < mt_cardinality m \<and> set (decode_flat_index m fi) = set labels"
  proof (cases "mt_label_defs m = []")
    case True
    then show ?thesis using assms by (auto simp: compute_flat_index_def metric_ok_def combinations_of_def decode_flat_index_def split: if_splits)
  next
    case False
    then have len: "length labels = length (mt_label_defs m)"
      and loop: "flat_loop labels 0 (zip (mt_label_defs m) (compute_strides (mt_label_defs m))) = Some fi"
      using assms(1,3) by (auto simp: compute_flat_index_def metric_ok_def split: if_splits)
    have "list_all def_ok (mt_label_defs m)" "distinct (map md_key (mt_label_defs m))" using assms(2) by (simp_all add: defs_ok_def)
    with flat_loop_SomeD [OF _ loop] set_label_of [OF _ len] assms(1) show ?thesis
      by (auto simp: metric_ok_def decode_flat_index_def)
  qed
  then show "fi < mt_cardinality m" "set (decode_flat_index m fi) = set labels" by blast+
qed

lemma flat_index_decoded:
  assumes "metric_ok m" and "defs_ok (mt_label_defs m)" and "fi < mt_cardinality m"
  shows "compute_flat_index m (decode_flat_index m fi) = Some fi"
proof (cases "mt_label_defs m = []")
  case True
  then show ?thesis using assms by (simp add: compute_flat_index_def decode_flat_index_def metric_ok_def combinations_of_def)
next
  case False
  let ?ds = "mt_label_defs m"
  let ?row = "map (decode_label fi) (zip ?ds (compute_strides ?ds))"
  have ok: "list_all def_ok ?ds" "distinct (map md_key ?ds)" "fi < combinations_of ?ds" using assms by (simp_all add: defs_ok_def metric_ok_def)
  have key: "map ml_key ?row = map md_key ?ds"
    using ok(1) def_okD(1) by (intro nth_equalityI) (auto simp: decode_label_def Let_def list_all_length)
  have lv: "label_value ?row (md_key (?ds ! i)) = Some (ml_value (?row ! i))" if "i < length ?ds" for i
  proof -
    have "ml_key (?row ! i) = md_key (?ds ! i)" using key that by (metis length_map nth_map)
    moreover have "find (\<lambda>l. ml_key l = ml_key (?row ! i)) ?row = Some (?row ! i)"
      by (rule find_key_nth) (use key ok(2) that in simp_all)
    ultimately show ?thesis unfolding label_value_def by simp
  qed
  have "?row = map (label_of ?row) ?ds"
  proof (rule nth_equalityI)
    fix i assume "i < length ?row"
    then have i: "i < length ?ds" by simp
    have "ml_key (?row ! i) = md_key (?ds ! i)" using key i by (metis length_map nth_map)
    then show "?row ! i = map (label_of ?row) ?ds ! i" using lv [OF i] i by (simp add: label_of_def)
  qed simp
  moreover have "\<forall>d \<in> set ?ds. label_value ?row (md_key d) \<noteq> None" using lv by (auto simp: in_set_conv_nth)
  ultimately have "flat_loop ?row 0 (zip ?ds (compute_strides ?ds)) = Some (0 + fi)" by (intro flat_loop_decoded [OF ok(1,3)])
  then show ?thesis using assms(1) False by (simp add: compute_flat_index_def decode_flat_index_def metric_ok_def)
qed

section \<open>Updates go to one instance\<close>

lemma flat_loop_bound:
  assumes "list_all (\<lambda>d. num_values d \<noteq> 0) ds" and "flat_loop labels f (zip ds (compute_strides ds)) = Some g"
  shows "g < f + combinations_of ds"
  using assms
proof (induction ds arbitrary: f)
  case (Cons d ds)
  let ?P = "combinations_of ds"
  obtain vs where vs: "md_allowed_values d = Some vs" "num_values d = length vs" using Cons.prems(1) by (auto simp: num_values_def split: option.splits)
  obtain val vi where val: "value_ordinal vs val = Some vi" and rest: "flat_loop labels (f + vi * ?P) (zip ds (compute_strides ds)) = Some g"
    using Cons.prems(2) vs(1) by (auto simp: strides_Cons split: option.splits)
  have "vi < length vs" using value_ordinal_SomeD [OF val] by simp
  then have "vi * ?P + ?P \<le> length vs * ?P" using mult_le_mono1 [of "Suc vi" "length vs" ?P] by simp
  then show ?case using Cons.IH [OF _ rest] Cons.prems(1) vs(2) by (simp add: combinations_Cons)
qed (simp add: combinations_of_def)

lemma op_slot_bound:
  assumes "metric_ok m" and "op_slot m op = Some i"
  shows "i < slots_of m"
proof -
  have pos: "0 < mt_cardinality m" using assms(1) combinations_pos by (simp add: metric_ok_def)
  have "fi < mt_cardinality m" if "compute_flat_index m ls = Some fi" for ls fi
  proof (cases "mt_label_defs m = []")
    case True
    then show ?thesis using that pos by (simp add: compute_flat_index_def split: if_splits)
  next
    case False
    then show ?thesis
      using that assms(1) flat_loop_bound [of "mt_label_defs m" ls 0 fi] by (auto simp: compute_flat_index_def metric_ok_def split: if_splits)
  qed
  then show ?thesis using assms(2) pos by (cases op) (auto simp: base_slot_def slots_of_def less_Suc_eq)
qed

lemma op_slot_instances [simp]: "op_slot (m\<lparr>mt_instances := x\<rparr>) op = op_slot m op"
  by (cases op) (simp_all add: base_slot_def compute_flat_index_def)

lemma values_at_instances [simp]: "values_at (m\<lparr>mt_instances := x\<rparr>) ops i = values_at m ops i"
  by (simp add: values_at_def)

lemma slots_of_instances [simp]: "slots_of (m\<lparr>mt_instances := x\<rparr>) = slots_of m"
  by (simp add: slots_of_def)

lemma values_at_Cons: "values_at m (op # ops) i = (if op_slot m op = Some i then [op_value op] else []) @ values_at m ops i"
  by (simp add: values_at_def)

lemma slotwise_update:
  assumes "j < length vs"
  shows "map (\<lambda>i. foldl g (vs[j := g (vs ! j) v] ! i) (W i)) [0..<length vs] = map (\<lambda>i. foldl g (vs ! i) ((if j = i then [v] else []) @ W i)) [0..<length vs]"
  using assms by (intro map_cong) (auto simp: nth_list_update)

text \<open>One update, whatever its kind: refused labels change nothing, everything else changes its instance only.\<close>

lemma step_instances:
  assumes "metric_ok m" and "op_type op = mt_type m"
  shows "metric_step fadd op m = Some (if op_slot m op = None then DISTRIC_ERR_INVALID_LABEL else DISTRIC_OK, m\<lparr>mt_instances := updated_instances fadd [op] m\<rparr>)"
proof -
  have inst: "instances_ok (mt_type m) (slots_of m) (mt_instances m)" using assms(1) by (simp add: metric_ok_def)
  have one: "map (\<lambda>i. foldl g (vs ! i) (values_at m [op] i)) [0..<length vs]
      = (case op_slot m op of None \<Rightarrow> vs | Some j \<Rightarrow> vs[j := g (vs ! j) (op_value op)])" if "length vs = slots_of m" for g and vs :: "'b list"
  proof (cases "op_slot m op")
    case None
    then show ?thesis by (simp add: values_at_def map_nth)
  next
    case (Some j)
    then have "j < length vs" using op_slot_bound [OF assms(1)] that by simp
    then show ?thesis using Some by (intro nth_equalityI) (auto simp: values_at_def nth_list_update)
  qed
  show ?thesis
  proof (cases "mt_instances m")
    case (Counters vs)
    then have "length vs = slots_of m" "mt_type m = METRIC_TYPE_COUNTER" using inst by (cases "mt_type m"; simp)+
    with Counters one [of vs "(+)"] assms op_slot_bound [OF assms(1), of op] show ?thesis
      by (cases op) (auto simp: updated_instances_def metrics_counter_add_def metrics_counter_add_labels_def at_counter_def at_labels_def split: option.splits)
  next
    case (Gauges vs)
    then have "length vs = slots_of m" "mt_type m = METRIC_TYPE_GAUGE" using inst by (cases "mt_type m"; simp)+
    with Gauges one [of vs "\<lambda>_ v. v"] assms op_slot_bound [OF assms(1), of op] show ?thesis
      by (cases op) (auto simp: updated_instances_def metrics_gauge_set_def metrics_gauge_set_labels_def at_gauge_def at_labels_def split: option.splits)
  next
    case (Histograms vs)
    then have "length vs = slots_of m" "mt_type m = METRIC_TYPE_HISTOGRAM" using inst by (cases "mt_type m"; simp)+
    with Histograms one [of vs "\<lambda>h v. observe fadd v h"] assms op_slot_bound [OF assms(1), of op] show ?thesis
      by (cases op) (auto simp: updated_instances_def metrics_histogram_observe_def metrics_histogram_observe_labels_def at_histogram_def at_labels_def
          split: option.splits)
  qed
qed

lemma metric_ok_updated:
  assumes "metric_ok m"
  shows "metric_ok (m\<lparr>mt_instances := updated_instances fadd ops m\<rparr>)"
  using assms by (cases "mt_instances m"; cases "mt_type m") (simp_all add: metric_ok_def updated_instances_def slots_of_def)

lemma updated_instances_Cons:
  assumes "metric_ok m"
  shows "updated_instances fadd ops (m\<lparr>mt_instances := updated_instances fadd [op] m\<rparr>) = updated_instances fadd (op # ops) m"
proof -
  have split: "values_at m (op # ops) i = values_at m [op] i @ values_at m ops i" for i by (simp add: values_at_def)
  show ?thesis
    by (cases "mt_instances m") (simp_all add: updated_instances_def split)
qed

lemma run_instances:
  assumes "metric_ok m" and "list_all (\<lambda>op. op_type op = mt_type m) ops"
  shows "metric_run fadd ops m = Some (m\<lparr>mt_instances := updated_instances fadd ops m\<rparr>)"
  using assms
proof (induction ops arbitrary: m)
  case Nil
  then show ?case by (cases "mt_instances m") (simp_all add: updated_instances_def values_at_def map_nth)
next
  case (Cons op ops)
  have "op_type op = mt_type m" using Cons.prems(2) by simp
  note step = step_instances [OF Cons.prems(1) this, of fadd]
  have "metric_run fadd ops (m\<lparr>mt_instances := updated_instances fadd [op] m\<rparr>)
      = Some ((m\<lparr>mt_instances := updated_instances fadd [op] m\<rparr>)\<lparr>mt_instances := updated_instances fadd ops (m\<lparr>mt_instances := updated_instances fadd [op] m\<rparr>)\<rparr>)"
    using Cons.prems by (intro Cons.IH metric_ok_updated) simp_all
  then show ?case using updated_instances_Cons [OF Cons.prems(1)] by (simp add: step)
qed

lemma registered_metric_ok:
  assumes "register_metric r name help ty defs = (Inr i, r')"
  shows "i < length (mr_metrics r')" and "metric_ok (mr_metrics r' ! i)" and "mt_type (mr_metrics r' ! i) = ty" and "mt_label_defs (mr_metrics r' ! i) = defs"
    and "mr_metrics r' ! i = new_metric name help ty defs (combinations_of defs)"
proof -
  let ?c = "compute_cardinality 1 defs"
  have nz: "?c \<noteq> 0" and i: "i = length (mr_metrics r)" "mr_metrics r' = mr_metrics r @ [new_metric name help ty defs ?c]"
    using assms by (cases "defs = []"; auto simp: register_metric_def Let_def split: if_splits)+
  have c: "?c = combinations_of defs" using cardinality_combinations(1) [OF nz] by simp
  show "i < length (mr_metrics r')" "mr_metrics r' ! i = new_metric name help ty defs (combinations_of defs)" using i c by simp_all
  then show "metric_ok (mr_metrics r' ! i)" "mt_type (mr_metrics r' ! i) = ty" "mt_label_defs (mr_metrics r' ! i) = defs"
    using cardinality_combinations(2) [OF nz]
    by (cases ty; simp add: metric_ok_def new_metric_def Let_def slots_of_def alloc_instances_def)+
qed

lemma decoded_keys:
  assumes "metric_ok m" and "defs_ok (mt_label_defs m)"
  shows "map ml_key (decode_flat_index m fi) = map md_key (mt_label_defs m)"
  using assms def_okD(1)
  by (intro nth_equalityI) (auto simp: decode_flat_index_def metric_ok_def decode_label_def Let_def defs_ok_def list_all_length)

text \<open>A permutation of a row of the label table addresses that row.\<close>

lemma flat_index_of_row:
  assumes "metric_ok m" and "defs_ok (mt_label_defs m)" and "fi < mt_cardinality m"
    and "length labels = length (mt_label_defs m)" and "set labels = set (decode_flat_index m fi)"
  shows "compute_flat_index m labels = Some fi"
proof (cases "mt_label_defs m = []")
  case True
  then show ?thesis using assms by (simp add: compute_flat_index_def metric_ok_def combinations_of_def)
next
  case False
  let ?ds = "mt_label_defs m" and ?row = "decode_flat_index m fi"
  have ok: "list_all def_ok ?ds" "distinct (map md_key ?ds)" "fi < combinations_of ?ds" using assms by (simp_all add: defs_ok_def metric_ok_def)
  note keys = decoded_keys [OF assms(1,2), of fi]
  have "card (ml_key ` set labels) = length labels"
    using distinct_card [OF ok(2)] arg_cong [OF keys, of set] assms(4,5) by simp
  then have dist: "distinct (map ml_key labels)" by (simp add: card_distinct)
  have at: "label_value labels (md_key (?ds ! j)) = Some (ml_value (?row ! j)) \<and> ml_key (?row ! j) = md_key (?ds ! j)" if j: "j < length ?ds" for j
  proof -
    have len: "length ?row = length ?ds" using arg_cong [OF keys, of length] by simp
    have k: "ml_key (?row ! j) = md_key (?ds ! j)" using keys len j by (metis nth_map)
    have "?row ! j \<in> set labels" using len j assms(5) by (metis nth_mem)
    then obtain l where "l < length labels" "labels ! l = ?row ! j" by (auto simp: in_set_conv_nth)
    then show ?thesis using find_key_nth [OF dist, of l] k by (simp add: label_value_def)
  qed
  have "?row = map (label_of labels) ?ds"
    using at arg_cong [OF keys, of length] by (intro nth_equalityI) (auto simp: label_of_def)
  moreover have "\<forall>d \<in> set ?ds. label_value labels (md_key d) \<noteq> None" using at by (auto simp: in_set_conv_nth)
  ultimately have "flat_loop labels 0 (zip ?ds (compute_strides ?ds)) = Some (0 + fi)"
    using assms(1) by (intro flat_loop_decoded [OF ok(1,3)]) (simp_all add: decode_flat_index_def metric_ok_def)
  then show ?thesis using assms(1,4) False by (simp add: compute_flat_index_def metric_ok_def)
qed

lemma flat_index_length: "compute_flat_index m labels = Some fi \<Longrightarrow> length labels = length (mt_label_defs m)"
  by (auto simp: compute_flat_index_def split: if_splits)

lemma row_of_concat: "(\<And>x. length (f x) = n) \<Longrightarrow> i < k \<Longrightarrow> take n (drop (i * n) (concat (map f [0..<k]))) = f i"
proof (induction k)
  case (Suc k)
  have len: "length (concat (map f [0..<j])) = j * n" for j using Suc.prems(1) by (induction j) simp_all
  show ?case
  proof (cases "i = k")
    case True
    then show ?thesis using Suc.prems(1) len by simp
  next
    case False
    then have i: "i < k" using Suc.prems(2) by simp
    then have "i * n + n \<le> k * n" using mult_le_mono1 [of "Suc i" k n] by simp
    then show ?thesis using Suc.IH [OF Suc.prems(1) i] len by simp
  qed
qed simp

lemma table_row:
  assumes "m = new_metric name help ty defs (combinations_of defs)" and "fi < mt_cardinality m"
  shows "take (length defs) (drop (fi * length defs) (mt_labels_table m)) = decode_flat_index m fi"
proof -
  have m: "mt_label_defs m = defs" "mt_strides m = compute_strides defs" "mt_cardinality m = combinations_of defs"
    by (simp_all add: assms(1) new_metric_def Let_def)
  have "length (decode_flat_index m i) = length defs" for i by (simp add: decode_flat_index_def m)
  note row = row_of_concat [where f = "decode_flat_index m", OF this assms(2)]
  have "mt_labels_table m = concat (map (\<lambda>fi. map (decode_label fi) (zip defs (compute_strides defs))) [0..<combinations_of defs])"
    by (cases "defs = []") (simp_all add: assms(1) new_metric_def Let_def build_labels_table_def decode_flat_index_def [abs_def])
  then show ?thesis using row by (simp add: decode_flat_index_def [abs_def] m)
qed

section \<open>Properties\<close>

text \<open>C35.
  Labels address exactly one instance: for a registered metric whose label definitions have distinct keys and
  values that fit, an update with given labels goes to the instance \<open>fi\<close> exactly when the labels are, in any
  order, the row of the label table under which the instance \<open>fi\<close> is exported. Different combinations never
  share an instance.
\<close>

theorem labels_address_one_instance:
  assumes "register_metric r name help ty defs = (Inr i, r')" and "defs_ok defs"
  shows "let m = mr_metrics r' ! i in
    (compute_flat_index m labels = Some fi) = (fi < mt_cardinality m \<and> length labels = length defs
       \<and> set labels = set (take (length defs) (drop (fi * length defs) (mt_labels_table m))))"
proof -
  note m = registered_metric_ok [OF assms(1)]
  let ?m = "mr_metrics r' ! i"
  have ok: "defs_ok (mt_label_defs ?m)" using assms(2) m(4) by simp
  show ?thesis unfolding Let_def
  proof (intro iffI conjI)
    assume fi: "compute_flat_index ?m labels = Some fi"
    note row = flat_index_row [OF m(2) ok fi]
    show "fi < mt_cardinality ?m" by (fact row(1))
    show "length labels = length defs" using flat_index_length [OF fi] m(4) by simp
    show "set labels = set (take (length defs) (drop (fi * length defs) (mt_labels_table ?m)))"
      unfolding table_row [OF m(5) row(1)] by (rule row(2) [symmetric])
  next
    assume fi: "fi < mt_cardinality ?m \<and> length labels = length defs
      \<and> set labels = set (take (length defs) (drop (fi * length defs) (mt_labels_table ?m)))"
    then show "compute_flat_index ?m labels = Some fi"
      using table_row [OF m(5), of fi] m(4) by (intro flat_index_of_row [OF m(2) ok]) simp_all
  qed
qed

lemma sample_registered: "\<exists>r'. register_metric metrics_init [99] [] METRIC_TYPE_COUNTER sample_defs = (Inr 0, r')"
  by (simp add: register_metric_def metrics_init_def metrics_init_with_config_def sample_defs_def num_values_def Let_def
      DISTRIC_MAX_METRIC_LABELS_def DISTRIC_MAX_METRICS_def DISTRIC_MAX_METRIC_CARDINALITY_def flip: numeral_2_eq_2 numeral_3_eq_3)

theorem labels_address_one_instance_witness:
  "let m = mr_metrics (snd (register_metric metrics_init [99] [] METRIC_TYPE_COUNTER sample_defs)) ! 0 in
    (compute_flat_index m [\<lparr>ml_key = [115], ml_value = [52]\<rparr>, \<lparr>ml_key = [109], ml_value = [80]\<rparr>] = Some 4)
      = (4 < mt_cardinality m \<and> set [\<lparr>ml_key = [115], ml_value = [52]\<rparr>, \<lparr>ml_key = [109], ml_value = [80]\<rparr>] = set (take 2 (drop (4 * 2) (mt_labels_table m))))"
proof -
  have "register_metric metrics_init [99] [] METRIC_TYPE_COUNTER sample_defs
      = (Inr 0, snd (register_metric metrics_init [99] [] METRIC_TYPE_COUNTER sample_defs))"
    using sample_registered by auto
  moreover have "defs_ok sample_defs" "length sample_defs = 2" by (simp_all add: defs_ok_def def_ok_def sample_defs_def wf_cstr_def)
  ultimately show ?thesis
    using labels_address_one_instance [of metrics_init "[99]" "[]" METRIC_TYPE_COUNTER sample_defs 0 _
      "[\<lparr>ml_key = [115], ml_value = [52]\<rparr>, \<lparr>ml_key = [109], ml_value = [80]\<rparr>]" 4] by (simp add: Let_def)
qed

text \<open>C36.
  Updates through the handle of a registered metric are always defined: whatever labels callers pass, no update
  of the metric's own type reads another member of the union or an element outside the array, and the metric
  keeps its type, its labels and the size of its array.
\<close>

theorem updates_are_defined:
  assumes "register_metric r name help ty defs = (Inr i, r')" and "list_all (\<lambda>op. op_type op = ty) ops"
  shows "case metric_run fadd ops (mr_metrics r' ! i) of
      None \<Rightarrow> False
    | Some m \<Rightarrow> mt_type m = ty \<and> mt_label_defs m = defs \<and> instances_ok ty (slots_of (mr_metrics r' ! i)) (mt_instances m)"
proof -
  note m = registered_metric_ok [OF assms(1)]
  have "metric_ok ((mr_metrics r' ! i)\<lparr>mt_instances := updated_instances fadd ops (mr_metrics r' ! i)\<rparr>)" by (rule metric_ok_updated [OF m(2)])
  then show ?thesis using run_instances [OF m(2), of ops fadd] assms(2) m(3,4) by (simp add: metric_ok_def)
qed

theorem updates_are_defined_witness:
  "case metric_run (+) [Gauge_Set_Labels [] 3, Gauge_Set 5] (mr_metrics (snd (register_metric metrics_init [99] [] METRIC_TYPE_GAUGE [])) ! 0) of
      None \<Rightarrow> False | Some m \<Rightarrow> mt_type m = METRIC_TYPE_GAUGE"
proof -
  have "register_metric metrics_init [99] [] METRIC_TYPE_GAUGE [] = (Inr 0, snd (register_metric metrics_init [99] [] METRIC_TYPE_GAUGE []))"
    by (simp add: register_metric_def metrics_init_def metrics_init_with_config_def Let_def DISTRIC_MAX_METRICS_def DISTRIC_MAX_METRIC_CARDINALITY_def)
  from updates_are_defined [OF this, of "[Gauge_Set_Labels [] 3, Gauge_Set 5]" "(+)"] show ?thesis by (auto simp del: metric_run.simps split: option.splits)
qed

lemma foldl_plus: "foldl (+) a xs = a + sum_list (xs :: u64 list)"
  by (induction xs arbitrary: a) (simp_all add: add.assoc)

lemma sum_values_at: "sum_list (values_at m ops i) = (\<Sum>op\<leftarrow>ops. if op_slot m op = Some i then op_value op else 0)"
  by (induction ops) (simp_all add: values_at_def)

lemma sum_list_swap: "(\<Sum>i\<leftarrow>is. \<Sum>op\<leftarrow>ops. f i op) = (\<Sum>op\<leftarrow>ops. \<Sum>i\<leftarrow>is. f i op :: u64)"
  by (induction ops) (simp_all add: sum_list_addf)

lemma sum_list_none: "(\<And>j. j \<in> set js \<Longrightarrow> f j = 0) \<Longrightarrow> sum_list (map f js) = (0 :: u64)"
  by (induction js) simp_all

lemma sum_list_one: "i < n \<Longrightarrow> (\<Sum>j\<leftarrow>[0..<n]. if i = j then v else 0) = (v :: u64)"
proof (induction n)
  case (Suc n)
  have "(\<Sum>j\<leftarrow>[0..<n]. if n = j then v else 0) = 0" by (rule sum_list_none) simp
  with Suc show ?case by (cases "i = n") simp_all
qed simp

text \<open>C37.
  A counter with labels refines a map from label sets to numbers: after any updates the instance of a label set
  holds the sum of the updates made with these labels in any order, \<^verbatim>\<open>metrics_counter_get\<close> returns the sum of the
  updates without labels, and \<^verbatim>\<open>metrics_counter_get_labeled_total\<close> the sum of all updates with accepted labels.
\<close>

theorem counter_refines_label_map:
  assumes "register_metric r name help METRIC_TYPE_COUNTER defs = (Inr i, r')" and "defs_ok defs" and "defs \<noteq> []"
    and "list_all (\<lambda>op. op_type op = METRIC_TYPE_COUNTER) ops" and "compute_flat_index (mr_metrics r' ! i) labels = Some fi"
  shows "case metric_run fadd ops (mr_metrics r' ! i) of
      None \<Rightarrow> False
    | Some m \<Rightarrow>
        counter_values m ! fi = (\<Sum>op\<leftarrow>ops. case op of Counter_Add_Labels ls v \<Rightarrow> if length ls = length labels \<and> set ls = set labels then v else 0 | _ \<Rightarrow> 0)
        \<and> metrics_counter_get m = (\<Sum>op\<leftarrow>ops. case op of Counter_Add v \<Rightarrow> v | _ \<Rightarrow> 0)
        \<and> metrics_counter_get_labeled_total m
            = (\<Sum>op\<leftarrow>ops. case op of Counter_Add_Labels ls v \<Rightarrow> if compute_flat_index (mr_metrics r' ! i) ls = None then 0 else v | _ \<Rightarrow> 0)"
proof -
  define m0 where "m0 = mr_metrics r' ! i"
  define m where "m = m0\<lparr>mt_instances := updated_instances fadd ops m0\<rparr>"
  note reg = registered_metric_ok [OF assms(1), folded m0_def]
  have run: "metric_run fadd ops m0 = Some m" unfolding m_def using assms(4) reg(3) by (intro run_instances reg(2)) simp
  have ok: "defs_ok (mt_label_defs m0)" using assms(2) reg(4) by simp
  have card: "mt_cardinality m0 = combinations_of defs" "slots_of m0 = combinations_of defs + 1" "base_slot m0 = combinations_of defs"
    using reg(2,4) assms(3) by (simp_all add: metric_ok_def slots_of_def base_slot_def)
  have bound: "j < combinations_of defs" if "compute_flat_index m0 ls = Some j" for ls j using flat_index_row(1) [OF reg(2) ok that] card by simp
  have inst: "mt_instances m0 = Counters (replicate (combinations_of defs + 1) 0)"
    using assms(3) by (simp add: reg(5) new_metric_def Let_def alloc_instances_def)
  have vals: "counter_values m ! j = sum_list (values_at m0 ops j)" if "j < combinations_of defs + 1" for j
    using that by (simp add: m_def counter_values_def updated_instances_def inst foldl_plus del: upt_Suc replicate.simps replicate_Suc)
  have lab: "op_slot m0 op = Some j \<longleftrightarrow> (case op of Counter_Add_Labels ls v \<Rightarrow> compute_flat_index m0 ls = Some j | Counter_Add v \<Rightarrow> j = combinations_of defs | _ \<Rightarrow> False)"
    if "op \<in> set ops" for op j
  proof -
    have "op_type op = METRIC_TYPE_COUNTER" using that assms(4) by (simp add: list_all_iff)
    then show ?thesis using card(3) by (cases op rule: metric_op.exhaust) auto
  qed
  have same: "compute_flat_index m0 ls = Some fi \<longleftrightarrow> length ls = length labels \<and> set ls = set labels" for ls
    using flat_index_row [OF reg(2) ok] flat_index_of_row [OF reg(2) ok] flat_index_length assms(5) [folded m0_def] by metis
  have "counter_values m ! fi = (\<Sum>op\<leftarrow>ops. case op of Counter_Add_Labels ls v \<Rightarrow> if length ls = length labels \<and> set ls = set labels then v else 0 | _ \<Rightarrow> 0)"
  proof -
    have fi: "fi < combinations_of defs" by (rule bound) (use assms(5) m0_def in simp)
    have "(if op_slot m0 op = Some fi then op_value op else 0)
        = (case op of Counter_Add_Labels ls v \<Rightarrow> if length ls = length labels \<and> set ls = set labels then v else 0 | _ \<Rightarrow> 0)" if "op \<in> set ops" for op
      using lab [OF that, of fi] same fi by (cases op) auto
    then show ?thesis using vals [of fi] fi by (simp add: sum_values_at cong: map_cong)
  qed
  moreover have "metrics_counter_get m = (\<Sum>op\<leftarrow>ops. case op of Counter_Add v \<Rightarrow> v | _ \<Rightarrow> 0)"
  proof -
    have "(if op_slot m0 op = Some (combinations_of defs) then op_value op else 0) = (case op of Counter_Add v \<Rightarrow> v | _ \<Rightarrow> 0)" if "op \<in> set ops" for op
      using lab [OF that, of "combinations_of defs"] bound by (cases op) auto
    moreover have "base_slot m = base_slot m0" by (simp add: m_def base_slot_def)
    ultimately show ?thesis
      using vals [of "combinations_of defs"] card(3) by (simp add: metrics_counter_get_def sum_values_at cong: map_cong)
  qed
  moreover have "metrics_counter_get_labeled_total m
      = (\<Sum>op\<leftarrow>ops. case op of Counter_Add_Labels ls v \<Rightarrow> if compute_flat_index m0 ls = None then 0 else v | _ \<Rightarrow> 0)"
  proof -
    have "metrics_counter_get_labeled_total m = (\<Sum>j\<leftarrow>[0..<combinations_of defs]. counter_values m ! j)"
    proof -
      have "foldl (\<lambda>t j. t + counter_values m ! j) a js = a + (\<Sum>j\<leftarrow>js. counter_values m ! j)" for a js
        by (induction js arbitrary: a) (simp_all add: add.assoc)
      moreover have "combinations_of defs \<noteq> 0" using reg(2,4) combinations_pos [of defs] by (simp add: metric_ok_def)
      ultimately show ?thesis using assms(3) reg(4) card(1) by (simp add: metrics_counter_get_labeled_total_def m_def)
    qed
    also have "\<dots> = (\<Sum>j\<leftarrow>[0..<combinations_of defs]. \<Sum>op\<leftarrow>ops. if op_slot m0 op = Some j then op_value op else 0)"
      using vals by (intro arg_cong [of _ _ sum_list] map_cong) (simp_all add: sum_values_at)
    also have "\<dots> = (\<Sum>op\<leftarrow>ops. \<Sum>j\<leftarrow>[0..<combinations_of defs]. if op_slot m0 op = Some j then op_value op else 0)" by (rule sum_list_swap)
    also have "\<dots> = (\<Sum>op\<leftarrow>ops. case op of Counter_Add_Labels ls v \<Rightarrow> if compute_flat_index m0 ls = None then 0 else v | _ \<Rightarrow> 0)"
    proof (intro arg_cong [of _ _ sum_list] map_cong refl)
      fix op assume op: "op \<in> set ops"
      show "(\<Sum>j\<leftarrow>[0..<combinations_of defs]. if op_slot m0 op = Some j then op_value op else 0)
          = (case op of Counter_Add_Labels ls v \<Rightarrow> if compute_flat_index m0 ls = None then 0 else v | _ \<Rightarrow> 0)"
      proof (cases "\<exists>ls v. op = Counter_Add_Labels ls v")
        case True
        then obtain ls v where op': "op = Counter_Add_Labels ls v" by blast
        show ?thesis using sum_list_one bound by (cases "compute_flat_index m0 ls") (simp_all add: op' sum_list_none)
      next
        case False
        have "op_type op = METRIC_TYPE_COUNTER" using op assms(4) by (simp add: list_all_iff)
        with False obtain v where v: "op = Counter_Add v" by (cases op rule: metric_op.exhaust) auto
        have "(\<Sum>j\<leftarrow>[0..<combinations_of defs]. if op_slot m0 op = Some j then op_value op else 0) = 0"
          by (rule sum_list_none) (simp add: v card(3))
        then show ?thesis by (simp add: v)
      qed
    qed
    finally show ?thesis .
  qed
  ultimately show ?thesis using run unfolding m0_def [symmetric] by simp
qed

theorem counter_refines_label_map_witness:
  "\<exists>r'. register_metric metrics_init [99] [] METRIC_TYPE_COUNTER sample_defs = (Inr 0, r') \<and>
    (case metric_run (+) [Counter_Add 7, Counter_Add_Labels [\<lparr>ml_key = [115], ml_value = [52]\<rparr>, \<lparr>ml_key = [109], ml_value = [80]\<rparr>] 3] (mr_metrics r' ! 0) of
       None \<Rightarrow> False
     | Some m \<Rightarrow> metrics_counter_get m = 7)"
proof -
  obtain r' where r': "register_metric metrics_init [99] [] METRIC_TYPE_COUNTER sample_defs = (Inr 0, r')"
    using sample_registered by blast
  have ok: "defs_ok sample_defs" by (simp add: defs_ok_def def_ok_def sample_defs_def wf_cstr_def)
  note m = registered_metric_ok [OF r']
  have "0 < mt_cardinality (mr_metrics r' ! 0)" using m(2) combinations_pos by (simp add: metric_ok_def)
  then have "compute_flat_index (mr_metrics r' ! 0) (decode_flat_index (mr_metrics r' ! 0) 0) = Some 0"
    using ok m(2,4) by (intro flat_index_decoded) simp_all
  from counter_refines_label_map [OF r' ok _ _ this, where fadd = "(+)"
      and ops = "[Counter_Add 7, Counter_Add_Labels [\<lparr>ml_key = [115], ml_value = [52]\<rparr>, \<lparr>ml_key = [109], ml_value = [80]\<rparr>] 3]"]
  show ?thesis using r' by (auto simp: sample_defs_def simp del: metric_run.simps split: option.splits)
qed

section \<open>Histograms\<close>

lemma observed:
  "foldl (\<lambda>h v. observe fadd v h) \<lparr>hi_buckets = map (\<lambda>b. \<lparr>hb_upper_bound = b, hb_count = c b\<rparr>) bs, hi_count = n, hi_sum_bits = sm\<rparr> vs
   = \<lparr>hi_buckets = map (\<lambda>b. \<lparr>hb_upper_bound = b, hb_count = c b + of_nat (length (filter (\<lambda>v. double_le v b) vs))\<rparr>) bs,
      hi_count = n + of_nat (length vs), hi_sum_bits = foldl fadd sm vs\<rparr>"
proof (induction vs arbitrary: c n sm)
  case (Cons v vs)
  have "observe fadd v \<lparr>hi_buckets = map (\<lambda>b. \<lparr>hb_upper_bound = b, hb_count = c b\<rparr>) bs, hi_count = n, hi_sum_bits = sm\<rparr>
      = \<lparr>hi_buckets = map (\<lambda>b. \<lparr>hb_upper_bound = b, hb_count = (if double_le v b then c b + 1 else c b)\<rparr>) bs, hi_count = n + 1, hi_sum_bits = fadd sm v\<rparr>"
    by (simp add: observe_def)
  then show ?case using Cons.IH [of "\<lambda>b. if double_le v b then c b + 1 else c b" "n + 1" "fadd sm v"] by (simp add: algebra_simps)
qed simp

lemma bucket_order:
  "sorted_wrt (\<lambda>a b. double_rank a \<le> double_rank b) HISTOGRAM_DEFAULT_BUCKETS" "list_all (\<lambda>b. \<not> is_nan b) HISTOGRAM_DEFAULT_BUCKETS"
  by (simp_all add: HISTOGRAM_DEFAULT_BUCKETS_def double_rank_def is_nan_def)

lemma double_le_trans: "double_le v a \<Longrightarrow> double_rank a \<le> double_rank b \<Longrightarrow> \<not> is_nan b \<Longrightarrow> double_le v b"
  by (simp add: double_le_def)

lemma counts_cumulative:
  "sorted (map (\<lambda>b. length (filter (\<lambda>v. double_le v b) vs)) HISTOGRAM_DEFAULT_BUCKETS)"
proof -
  have mono: "length (filter (\<lambda>v. double_le v a) xs) \<le> length (filter (\<lambda>v. double_le v b) xs)"
    if "double_rank a \<le> double_rank b" "\<not> is_nan b" for a b xs
    using double_le_trans [OF _ that] by (induction xs) auto
  have "sorted_wrt (\<lambda>a b. double_rank a \<le> double_rank b \<and> \<not> is_nan b) HISTOGRAM_DEFAULT_BUCKETS"
    using bucket_order by (auto simp: sorted_wrt_iff_nth_less list_all_length)
  then show ?thesis unfolding sorted_map by (rule sorted_wrt_mono_rel [rotated]) (blast intro: mono)
qed

lemma below_infinity: "double_le v (last HISTOGRAM_DEFAULT_BUCKETS) \<longleftrightarrow> \<not> is_nan v"
proof -
  have inf: "\<not> is_nan 9218868437227405312" "double_rank 9218868437227405312 = 9218868437227405312" by (simp_all add: is_nan_def double_rank_def)
  have "double_rank v \<le> 9218868437227405312" if "\<not> is_nan v"
  proof -
    have "uint (v AND 0x7FFFFFFFFFFFFFFF) \<le> uint (0x7FF0000000000000 :: u64)" using that by (simp add: is_nan_def not_less word_le_def)
    moreover have "- uint (v AND 0x7FFFFFFFFFFFFFFF) \<le> 9218868437227405312" by (rule order_trans [of _ 0]) simp_all
    ultimately show ?thesis by (simp add: double_rank_def Let_def)
  qed
  then show ?thesis using inf by (auto simp: double_le_def HISTOGRAM_DEFAULT_BUCKETS_def)
qed

text \<open>C38.
  A histogram counts correctly: after any observations every instance holds the number and the sum of the values
  observed for it and in each bucket the number of values not above its bound, and the bounds stay those of the
  registration; below 2 to the 64 observations the buckets are cumulative, and the last one counts everything except
  values that are not numbers. (The bounds themselves are those of the code, which differ from its documentation.)
\<close>

theorem histogram_counts:
  assumes "register_metric r name help METRIC_TYPE_HISTOGRAM defs = (Inr i, r')"
    and "list_all (\<lambda>op. op_type op = METRIC_TYPE_HISTOGRAM) ops" and "j < slots_of (mr_metrics r' ! i)"
  shows "case metric_run fadd ops (mr_metrics r' ! i) of
      None \<Rightarrow> False
    | Some m \<Rightarrow>
        (let h = histogram_values m ! j; vs = values_at (mr_metrics r' ! i) ops j in
         hi_count h = of_nat (length vs) \<and> hi_sum_bits h = foldl fadd 0 vs
         \<and> map hb_upper_bound (hi_buckets h) = map hb_upper_bound (hi_buckets (histogram_values (mr_metrics r' ! i) ! j))
         \<and> list_all (\<lambda>b. hb_count b = of_nat (length (filter (\<lambda>v. double_le v (hb_upper_bound b)) vs))) (hi_buckets h)
         \<and> (if length vs < 2 ^ 64 then sorted (map (\<lambda>b. unat (hb_count b)) (hi_buckets h))
              \<and> unat (hb_count (last (hi_buckets h))) = length (filter (\<lambda>v. \<not> is_nan v) vs) else True))"
proof -
  define m0 where "m0 = mr_metrics r' ! i"
  define vs where "vs = values_at m0 ops j"
  note reg = registered_metric_ok [OF assms(1), folded m0_def]
  have run: "metric_run fadd ops m0 = Some (m0\<lparr>mt_instances := updated_instances fadd ops m0\<rparr>)"
    using assms(2) reg(3) by (intro run_instances reg(2)) simp
  have inst: "mt_instances m0 = Histograms (replicate (slots_of m0) fresh_histogram)"
    by (simp add: reg(5) new_metric_def Let_def alloc_instances_def slots_of_def)
  define h where "h = histogram_values (m0\<lparr>mt_instances := updated_instances fadd ops m0\<rparr>) ! j"
  have "h = foldl (\<lambda>h v. observe fadd v h) fresh_histogram vs"
    using assms(3) [folded m0_def] by (simp add: h_def histogram_values_def updated_instances_def inst vs_def)
  then have h: "h = \<lparr>hi_buckets = map (\<lambda>b. \<lparr>hb_upper_bound = b, hb_count = of_nat (length (filter (\<lambda>v. double_le v b) vs))\<rparr>) HISTOGRAM_DEFAULT_BUCKETS,
      hi_count = of_nat (length vs), hi_sum_bits = foldl fadd 0 vs\<rparr>"
    using observed [of fadd "\<lambda>b. 0" HISTOGRAM_DEFAULT_BUCKETS 0 0 vs] by (simp add: fresh_histogram_def)
  have "sorted (map (\<lambda>b. unat (hb_count b)) (hi_buckets h)) \<and> unat (hb_count (last (hi_buckets h))) = length (filter (\<lambda>v. \<not> is_nan v) vs)"
    if len: "length vs < 2 ^ 64"
  proof -
    have small: "unat (of_nat (length (filter P vs)) :: u64) = length (filter P vs)" for P
      using le_less_trans [OF length_filter_le [of P vs] len] by (simp add: unsigned_of_nat take_bit_nat_eq_self)
    have "HISTOGRAM_DEFAULT_BUCKETS \<noteq> []" by (simp add: HISTOGRAM_DEFAULT_BUCKETS_def)
    then show ?thesis using counts_cumulative [of vs] by (simp add: h o_def small last_map below_infinity)
  qed
  then have "let h = h; vs = vs in
         hi_count h = of_nat (length vs) \<and> hi_sum_bits h = foldl fadd 0 vs
         \<and> map hb_upper_bound (hi_buckets h) = map hb_upper_bound (hi_buckets (histogram_values m0 ! j))
         \<and> list_all (\<lambda>b. hb_count b = of_nat (length (filter (\<lambda>v. double_le v (hb_upper_bound b)) vs))) (hi_buckets h)
         \<and> (if length vs < 2 ^ 64 then sorted (map (\<lambda>b. unat (hb_count b)) (hi_buckets h))
              \<and> unat (hb_count (last (hi_buckets h))) = length (filter (\<lambda>v. \<not> is_nan v) vs) else True)"
    using assms(3) [folded m0_def] by (simp add: h list_all_iff o_def Let_def histogram_values_def inst fresh_histogram_def)
  then show ?thesis unfolding m0_def [symmetric] run option.case h_def [symmetric] vs_def [symmetric] .
qed

theorem histogram_counts_witness:
  "case metric_run (\<lambda>a b. a) [Histogram_Observe 4607182418800017408]
      (mr_metrics (snd (register_metric metrics_init [99] [] METRIC_TYPE_HISTOGRAM [])) ! 0) of
      None \<Rightarrow> False | Some m \<Rightarrow> hi_count (histogram_values m ! 0) = 1"
proof -
  have reg: "register_metric metrics_init [99] [] METRIC_TYPE_HISTOGRAM [] = (Inr 0, snd (register_metric metrics_init [99] [] METRIC_TYPE_HISTOGRAM []))"
    by (simp add: register_metric_def metrics_init_def metrics_init_with_config_def Let_def DISTRIC_MAX_METRICS_def DISTRIC_MAX_METRIC_CARDINALITY_def)
  note m = registered_metric_ok [OF reg]
  have "0 < slots_of (mr_metrics (snd (register_metric metrics_init [99] [] METRIC_TYPE_HISTOGRAM [])) ! 0)"
    using m(2,4) by (simp add: slots_of_def metric_ok_def combinations_of_def)
  from histogram_counts [OF reg _ this, of "[Histogram_Observe 4607182418800017408]" "\<lambda>a b. a"] show ?thesis
    by (auto simp: Let_def values_at_def simp del: metric_run.simps split: option.splits)
qed

text \<open>A gauge with labels: an update without labels overwrites the first label combination.\<close>

lemma unlabelled_gauge_overwrites:
  assumes "register_metric r name help METRIC_TYPE_GAUGE defs = (Inr i, r')" and "defs_ok defs" and "defs \<noteq> []"
    and "labels = decode_flat_index (mr_metrics r' ! i) 0"
  shows "metric_run fadd [Gauge_Set_Labels labels v, Gauge_Set w] (mr_metrics r' ! i)
    = metric_run fadd [Gauge_Set_Labels labels w] (mr_metrics r' ! i)"
proof -
  note m = registered_metric_ok [OF assms(1)]
  have "0 < mt_cardinality (mr_metrics r' ! i)" using m(2) combinations_pos by (simp add: metric_ok_def)
  then have fi: "compute_flat_index (mr_metrics r' ! i) labels = Some 0"
    unfolding assms(4) using assms(2) m(2,4) by (intro flat_index_decoded) simp_all
  have "values_at (mr_metrics r' ! i) [Gauge_Set_Labels labels v, Gauge_Set w] j = (if j = 0 then [v, w] else [])"
    "values_at (mr_metrics r' ! i) [Gauge_Set_Labels labels w] j = (if j = 0 then [w] else [])" for j
    by (simp_all add: values_at_def fi)
  then have "updated_instances fadd [Gauge_Set_Labels labels v, Gauge_Set w] (mr_metrics r' ! i)
      = updated_instances fadd [Gauge_Set_Labels labels w] (mr_metrics r' ! i)"
    using m(2,3) by (cases "mt_instances (mr_metrics r' ! i)") (auto simp: updated_instances_def metric_ok_def)
  then show ?thesis using m(2,3) by (subst (1 2) run_instances) simp_all
qed

end
