(* ===== verification/MetricsExport.thy ===== *)
theory MetricsExport
  imports Metrics
begin

text \<open>
  The Prometheus export of \<^verbatim>\<open>libs/distric_obs/src/metrics.c\<close>: the text is written with \<^verbatim>\<open>snprintf\<close> into a
  buffer that \<^verbatim>\<open>ENSURE_SPACE\<close> doubles. What is written does not depend on the buffer, so the calls of an
  export are a list of commands; their execution on the buffer is modelled with its bounds. The text
  that \<^verbatim>\<open>%g\<close> prints for a double is a parameter.
\<close>

section \<open>The buffer\<close>

record out_buffer =
  ob_buf :: bytes
  ob_offset :: nat

text \<open>The loop doubles the buffer; the content of new memory is arbitrary.\<close>

partial_function (option) ensure_space :: "(nat \<Rightarrow> u8) \<Rightarrow> nat \<Rightarrow> out_buffer \<Rightarrow> out_buffer option" where
  "ensure_space junk needed b =
     (if ob_offset b + needed > length (ob_buf b)
      then ensure_space junk needed (b\<lparr>ob_buf := ob_buf b @ map junk [length (ob_buf b)..<2 * length (ob_buf b)]\<rparr>)
      else Some b)"

text \<open>
  \<^verbatim>\<open>w = snprintf(buf + offset, buf_size - offset, ...); offset += w\<close>: a text that is too long is cut, but
  the offset counts all of it. Once it lies beyond the buffer the size passed wraps around and the next
  call writes outside: \<open>None\<close>.
\<close>

definition snprintf_at :: "bytes \<Rightarrow> out_buffer \<Rightarrow> out_buffer option" where
  "snprintf_at s b =
     (let room = length (ob_buf b) - ob_offset b
      in if ob_offset b > length (ob_buf b) then None
         else Some (b\<lparr>ob_offset := ob_offset b + length s,
                ob_buf := (if room = 0 then ob_buf b
                           else take (ob_offset b) (ob_buf b) @ take (room - 1) s @ [0]
                                @ drop (ob_offset b + length (take (room - 1) s) + 1) (ob_buf b))\<rparr>))"

datatype command = Ensure nat | Put bytes

fun exec_command :: "(nat \<Rightarrow> u8) \<Rightarrow> command \<Rightarrow> out_buffer \<Rightarrow> out_buffer option" where
  "exec_command junk (Ensure needed) b = ensure_space junk needed b"
| "exec_command junk (Put s) b = snprintf_at s b"

fun exec_commands :: "(nat \<Rightarrow> u8) \<Rightarrow> command list \<Rightarrow> out_buffer \<Rightarrow> out_buffer option" where
  "exec_commands junk [] b = Some b"
| "exec_commands junk (c # cs) b = Option.bind (exec_command junk c b) (exec_commands junk cs)"

section \<open>The text of a metric\<close>

definition type_str :: "metric_type \<Rightarrow> bytes" where
  "type_str ty = (case ty of METRIC_TYPE_COUNTER \<Rightarrow> ascii ''counter'' | METRIC_TYPE_GAUGE \<Rightarrow> ascii ''gauge'' | METRIC_TYPE_HISTOGRAM \<Rightarrow> ascii ''histogram'')"

definition export_header :: "metric \<Rightarrow> command list" where
  "export_header m = [Ensure (512 + 128 + 256), Put (ascii ''# HELP '' @ mt_name m @ [32] @ mt_help m @ [10]),
     Put (ascii ''# TYPE '' @ mt_name m @ [32] @ type_str (mt_type m) @ [10])]"

definition label_text :: "metric_label \<Rightarrow> bytes" where
  "label_text l = ml_key l @ ascii ''=\"'' @ ml_value l @ [34]"

definition append_label_set :: "metric_label list \<Rightarrow> command list" where
  "append_label_set labels =
     (if labels = [] then []
      else [Put (ascii ''{'')] @ map (\<lambda>li. Put ((if li \<noteq> 0 then [44] else []) @ label_text (labels ! li))) [0..<length labels] @ [Put (ascii ''}'')])"

definition label_row :: "metric \<Rightarrow> nat \<Rightarrow> metric_label list" where
  "label_row m fi = (let n = length (mt_label_defs m) in take n (drop (fi * n) (mt_labels_table m)))"

definition print_number :: "u64 \<Rightarrow> bytes" where
  "print_number v = [32] @ dec_digits (unat v) @ [10]"

definition export_counter :: "metric \<Rightarrow> u64 list \<Rightarrow> command list" where
  "export_counter m vs = concat (map (\<lambda>fi.
     [Ensure (128 + 8 * (64 + 128 + 8) + 32), Put (mt_name m)] @ append_label_set (label_row m fi) @ [Put (print_number (vs ! fi))])
     [0..<mt_cardinality m])"

definition export_gauge :: "(u64 \<Rightarrow> bytes) \<Rightarrow> metric \<Rightarrow> u64 list \<Rightarrow> command list" where
  "export_gauge print_g m vs = concat (map (\<lambda>fi.
     [Ensure (128 + 8 * (64 + 128 + 8) + 32), Put (mt_name m)] @ append_label_set (label_row m fi) @ [Put ([32] @ print_g (vs ! fi) @ [10])])
     [0..<mt_cardinality m])"

definition bound_text :: "(u64 \<Rightarrow> bytes) \<Rightarrow> u64 \<Rightarrow> bytes" where
  "bound_text print_g ub = (if is_inf ub then ascii ''+Inf'' else take 31 (print_g ub))"

definition export_bucket :: "(u64 \<Rightarrow> bytes) \<Rightarrow> metric \<Rightarrow> metric_label list \<Rightarrow> histogram_bucket \<Rightarrow> command list" where
  "export_bucket print_g m lset b =
     [Ensure (128 + 256 + 64), Put (mt_name m @ ascii ''_bucket'')]
     @ (if lset \<noteq> []
        then [Put (ascii ''{'')] @ map (\<lambda>l. Put (label_text l @ [44])) lset
          @ [Put (ascii ''le=\"'' @ bound_text print_g (hb_upper_bound b) @ [34] @ ascii ''}'')]
        else [Put (ascii ''{le=\"'' @ bound_text print_g (hb_upper_bound b) @ [34] @ ascii ''}'')])
     @ [Put (print_number (hb_count b))]"

definition export_totals :: "(u64 \<Rightarrow> bytes) \<Rightarrow> metric \<Rightarrow> metric_label list \<Rightarrow> histogram_instance \<Rightarrow> command list" where
  "export_totals print_g m lset h =
     [Ensure (128 + 256 + 64), Put (mt_name m @ ascii ''_count'')] @ append_label_set lset @ [Put (print_number (hi_count h))]
     @ [Put (mt_name m @ ascii ''_sum'')] @ append_label_set lset @ [Put ([32] @ print_g (hi_sum_bits h) @ [10])]"

definition export_histogram :: "(u64 \<Rightarrow> bytes) \<Rightarrow> metric \<Rightarrow> histogram_instance list \<Rightarrow> command list" where
  "export_histogram print_g m hs = concat (map (\<lambda>fi.
     concat (map (export_bucket print_g m (label_row m fi)) (hi_buckets (hs ! fi))) @ export_totals print_g m (label_row m fi) (hs ! fi))
     [0..<mt_cardinality m])"

text \<open>A metric without instances, which registration never produces (\<open>registered_has_instances\<close>).\<close>

definition export_zero :: "metric \<Rightarrow> command list" where
  "export_zero m = [Ensure (128 + 8), Put (mt_name m @ ascii '' 0'' @ [10])]"

definition export_zero_histogram :: "metric \<Rightarrow> command list" where
  "export_zero_histogram m = [Ensure (128 + 32),
     Put (mt_name m @ ascii ''_count 0'' @ [10] @ mt_name m @ ascii ''_sum 0'' @ [10])]"

definition export_metric :: "(u64 \<Rightarrow> bytes) \<Rightarrow> metric \<Rightarrow> command list" where
  "export_metric print_g m = export_header m @
     (case mt_instances m of
        Counters vs \<Rightarrow> if vs = [] \<or> mt_cardinality m = 0 then export_zero m else export_counter m vs
      | Gauges vs \<Rightarrow> if vs = [] \<or> mt_cardinality m = 0 then export_zero m else export_gauge print_g m vs
      | Histograms hs \<Rightarrow> if hs = [] \<or> mt_cardinality m = 0 then export_zero_histogram m else export_histogram print_g m hs)"

text \<open>The bytes of the result; the terminating zero is written behind them.\<close>

definition metrics_export_prometheus :: "(u64 \<Rightarrow> bytes) \<Rightarrow> (nat \<Rightarrow> u8) \<Rightarrow> metrics_registry \<Rightarrow> bytes option" where
  "metrics_export_prometheus print_g junk r =
     (case exec_commands junk (concat (map (export_metric print_g) (mr_metrics r))) \<lparr>ob_buf = map junk [0..<65536], ob_offset = 0\<rparr> of
        None \<Rightarrow> None
      | Some b \<Rightarrow> if ob_offset b < length (ob_buf b) then Some (take (ob_offset b) (ob_buf b)) else None)"

section \<open>Safe sequences of commands\<close>

fun command_text :: "command \<Rightarrow> bytes" where
  "command_text (Ensure n) = []"
| "command_text (Put s) = s"

definition text_of :: "command list \<Rightarrow> bytes" where
  "text_of cs = concat (map command_text cs)"

fun is_put :: "command \<Rightarrow> bool" where
  "is_put (Ensure n) = False"
| "is_put (Put s) = True"

text \<open>With \<open>k\<close> bytes of room every text fits with its terminating zero.\<close>

fun budget_ok :: "nat \<Rightarrow> command list \<Rightarrow> bool" where
  "budget_ok k [] \<longleftrightarrow> 0 < k"
| "budget_ok k (Ensure n # cs) \<longleftrightarrow> budget_ok n cs"
| "budget_ok k (Put s # cs) \<longleftrightarrow> length s < k \<and> budget_ok (k - length s) cs"

definition safe :: "command list \<Rightarrow> bool" where
  "safe cs \<longleftrightarrow> (\<forall>k > 0. budget_ok k cs)"

definition row_size :: "metric_label list \<Rightarrow> nat" where
  "row_size labels = length (text_of (append_label_set labels))"

text \<open>The only case in which the space reserved is too small: histograms whose name and labels are long.\<close>

definition fits :: "metric \<Rightarrow> bool" where
  "fits m = (case mt_type m of
     METRIC_TYPE_HISTOGRAM \<Rightarrow> list_all (\<lambda>fi. 2 * length (mt_name m) + 2 * row_size (label_row m fi) + 58 < 448) [0..<mt_cardinality m]
   | _ \<Rightarrow> True)"

definition exportable :: "metric \<Rightarrow> bool" where
  "exportable m \<longleftrightarrow> metric_ok m \<and> length (mt_name m) < 128 \<and> length (mt_help m) < 256 \<and> length (mt_label_defs m) \<le> 8
     \<and> list_all (\<lambda>l. length (ml_key l) < 64 \<and> length (ml_value l) < 128) (mt_labels_table m)"

datatype registry_event = Register cstr cstr metric_type "metric_label_definition list" | Update nat metric_op | Freeze

fun registry_step :: "(u64 \<Rightarrow> u64 \<Rightarrow> u64) \<Rightarrow> metrics_registry \<Rightarrow> registry_event \<Rightarrow> metrics_registry" where
  "registry_step fadd r (Register name help ty defs) = snd (register_metric r name help ty defs)"
| "registry_step fadd r (Update i op) =
     (if i < length (mr_metrics r) \<and> op_type op = mt_type (mr_metrics r ! i)
      then r\<lparr>mr_metrics := (mr_metrics r)[i := snd (the (metric_step fadd op (mr_metrics r ! i)))]\<rparr> else r)"
| "registry_step fadd r Freeze = metrics_freeze r"

definition registry_run :: "(u64 \<Rightarrow> u64 \<Rightarrow> u64) \<Rightarrow> metrics_config option \<Rightarrow> registry_event list \<Rightarrow> metrics_registry" where
  "registry_run fadd config evs = foldl (registry_step fadd) (metrics_init_with_config config) evs"

lemma text_of_simps [simp]:
  "text_of [] = []" "text_of (c # cs) = command_text c @ text_of cs" "text_of (as @ bs) = text_of as @ text_of bs"
  by (simp_all add: text_of_def)

lemma ensure_space_returns:
  assumes "0 < length (ob_buf b)"
  shows "\<exists>b'. ensure_space junk n b = Some b' \<and> ob_offset b' = ob_offset b \<and> ob_offset b + n \<le> length (ob_buf b')
    \<and> length (ob_buf b) \<le> length (ob_buf b') \<and> take (length (ob_buf b)) (ob_buf b') = ob_buf b"
  using assms
proof (induction "ob_offset b + n - length (ob_buf b)" arbitrary: b rule: less_induct)
  case less
  let ?b = "b\<lparr>ob_buf := ob_buf b @ map junk [length (ob_buf b)..<2 * length (ob_buf b)]\<rparr>"
  show ?case
  proof (cases "ob_offset b + n > length (ob_buf b)")
    case True
    have "ensure_space junk n b = ensure_space junk n ?b" using True by (subst ensure_space.simps) simp
    moreover have lt: "ob_offset ?b + n - length (ob_buf ?b) < ob_offset b + n - length (ob_buf b)" and pos: "0 < length (ob_buf ?b)"
      using less.prems True by (simp_all del: length_greater_0_conv)
    moreover obtain b' where b': "ensure_space junk n ?b = Some b'" "ob_offset b' = ob_offset b" "ob_offset b + n \<le> length (ob_buf b')"
        "length (ob_buf ?b) \<le> length (ob_buf b')" "take (length (ob_buf ?b)) (ob_buf b') = ob_buf ?b"
      using less.hyps [OF lt pos] by auto
    moreover have "take (length (ob_buf b)) (ob_buf b') = ob_buf b"
      using arg_cong [OF b'(5), of "take (length (ob_buf b))"] by simp
    ultimately show ?thesis by (intro exI [of _ b']) auto
  next
    case False
    then show ?thesis by (subst ensure_space.simps) simp
  qed
qed

lemma snprintf_fits:
  assumes "ob_offset b + length s < length (ob_buf b)" and "take (ob_offset b) (ob_buf b) = t"
  shows "\<exists>b'. snprintf_at s b = Some b' \<and> ob_offset b' = ob_offset b + length s \<and> length (ob_buf b') = length (ob_buf b)
    \<and> take (ob_offset b + length s) (ob_buf b') = t @ s"
proof -
  have "take (length (ob_buf b) - ob_offset b - 1) s = s" using assms(1) by simp
  then show ?thesis using assms by (auto simp: snprintf_at_def Let_def min_def)
qed

text \<open>A sequence within its budget appends exactly its text and leaves room for the terminating zero.\<close>

lemma exec_within_budget:
  assumes "budget_ok k cs" and "ob_offset b + k \<le> length (ob_buf b)" and "0 < length (ob_buf b)" and "take (ob_offset b) (ob_buf b) = t"
  shows "\<exists>b'. exec_commands junk cs b = Some b' \<and> ob_offset b' = ob_offset b + length (text_of cs) \<and> ob_offset b' < length (ob_buf b')
    \<and> take (ob_offset b') (ob_buf b') = t @ text_of cs"
  using assms
proof (induction cs arbitrary: k b t)
  case (Cons c cs)
  show ?case
  proof (cases c)
    case (Ensure n)
    obtain b1 where b1: "ensure_space junk n b = Some b1" "ob_offset b1 = ob_offset b" "ob_offset b + n \<le> length (ob_buf b1)"
        "length (ob_buf b) \<le> length (ob_buf b1)" "take (length (ob_buf b)) (ob_buf b1) = ob_buf b"
      using ensure_space_returns [OF Cons.prems(3)] by blast
    have "take (ob_offset b) (ob_buf b1) = take (ob_offset b) (take (length (ob_buf b)) (ob_buf b1))" using Cons.prems(2) by (simp add: min_def)
    then have "take (ob_offset b1) (ob_buf b1) = t" using b1(2,5) Cons.prems(4) by simp
    moreover have "0 < length (ob_buf b1)" using Cons.prems(3) b1(4) by linarith
    ultimately show ?thesis using Cons.IH [of n b1 t] Cons.prems(1) b1(1-3) Ensure by simp
  next
    case (Put s)
    have s: "ob_offset b + length s < length (ob_buf b)" using Cons.prems(1,2) Put by simp
    obtain b1 where b1: "snprintf_at s b = Some b1" "ob_offset b1 = ob_offset b + length s" "length (ob_buf b1) = length (ob_buf b)"
        "take (ob_offset b + length s) (ob_buf b1) = t @ s"
      using snprintf_fits [OF s Cons.prems(4)] by blast
    then show ?thesis using Cons.IH [of "k - length s" b1 "t @ s"] Cons.prems Put by (simp add: add.assoc)
  qed
qed auto

lemma budget_puts: "list_all is_put cs \<Longrightarrow> length (text_of cs) < k \<Longrightarrow> budget_ok k cs"
proof (induction cs arbitrary: k)
  case (Cons c cs)
  then show ?case by (cases c) auto
qed simp

lemma safe_reserved: "list_all is_put cs \<Longrightarrow> length (text_of cs) < n \<Longrightarrow> safe (Ensure n # cs)"
  by (simp add: safe_def budget_puts)

lemma safe_append:
  assumes "safe as" and "safe bs"
  shows "safe (as @ bs)"
proof -
  have "budget_ok k cs \<Longrightarrow> budget_ok k (cs @ bs)" for k cs
    using assms(2) by (induction k cs rule: budget_ok.induct) (auto simp: safe_def)
  then show ?thesis using assms(1) by (simp add: safe_def)
qed

lemma safe_Nil: "safe []"
  by (simp add: safe_def)

lemma safe_concat: "(\<And>x. x \<in> set xs \<Longrightarrow> safe (f x)) \<Longrightarrow> safe (concat (map f xs))"
  by (induction xs) (simp_all add: safe_Nil safe_append)

section \<open>Every metric fits\<close>

lemma length_ascii [simp]: "length (ascii s) = length s"
  by (simp add: ascii_def)

lemma length_print_number: "length (print_number v) \<le> 22"
proof -
  have "unat v < 10 ^ Suc 19" using unsigned_less [of v, where ?'a = nat] by simp
  from length_dec_digits [OF this] show ?thesis by (simp add: print_number_def)
qed

lemma append_label_set_puts: "list_all is_put (append_label_set labels)"
  by (auto simp: append_label_set_def list_all_iff)

lemma text_of_map_Put: "length (text_of (map (\<lambda>x. Put (f x)) xs)) = (\<Sum>x\<leftarrow>xs. length (f x))"
  by (induction xs) simp_all

lemma label_text_bound:
  assumes "list_all (\<lambda>l. length (ml_key l) < 64 \<and> length (ml_value l) < 128) ls"
  shows "(\<Sum>l\<leftarrow>ls. length (label_text l) + 1) \<le> 194 * length ls"
  using assms by (induction ls) (auto simp: label_text_def)

lemma row_size_eq: "ls \<noteq> [] \<Longrightarrow> row_size ls = (\<Sum>l\<leftarrow>ls. length (label_text l) + 1) + 1"
proof -
  assume ls: "ls \<noteq> []"
  have "(\<Sum>li\<leftarrow>[0..<length ls]. length ((if li \<noteq> 0 then [44 :: u8] else []) @ label_text (ls ! li))) + 1 = (\<Sum>l\<leftarrow>ls. length (label_text l) + 1)"
    using ls
  proof (induction ls rule: rev_induct)
    case (snoc l ls)
    have "map (\<lambda>x. length (if 0 < x then [44 :: u8] else []) + length (label_text ((ls @ [l]) ! x))) [0..<length ls]
        = map (\<lambda>x. length (if 0 < x then [44 :: u8] else []) + length (label_text (ls ! x))) [0..<length ls]"
      by (intro map_cong) (simp_all add: nth_append)
    then show ?case using snoc.IH by (cases "ls = []") (simp_all del: map_eq_conv)
  qed simp
  then show ?thesis using ls by (simp add: row_size_def append_label_set_def text_of_map_Put)
qed

lemma row_size_bound:
  assumes "exportable m"
  shows "row_size (label_row m fi) \<le> 1553"
proof -
  let ?ls = "label_row m fi"
  have small: "list_all (\<lambda>l. length (ml_key l) < 64 \<and> length (ml_value l) < 128) ?ls"
    using assms unfolding exportable_def label_row_def Let_def list_all_iff by (meson in_set_dropD in_set_takeD)
  have "length ?ls \<le> 8" using assms by (simp add: exportable_def label_row_def Let_def min_le_iff_disj)
  then have "(\<Sum>l\<leftarrow>?ls. length (label_text l) + 1) \<le> 1552" using label_text_bound [OF small] by linarith
  then show ?thesis using row_size_eq [of ?ls] by (cases "?ls = []") (simp_all add: row_size_def append_label_set_def)
qed

lemma safe_header:
  assumes "exportable m"
  shows "safe (export_header m)"
proof -
  have "length (type_str (mt_type m)) \<le> 9" by (cases "mt_type m") (simp_all add: type_str_def)
  then show ?thesis using assms unfolding export_header_def by (intro safe_reserved) (simp_all add: exportable_def)
qed

lemma safe_line:
  assumes "exportable m" and "length v \<le> 26"
  shows "safe ([Ensure (128 + 8 * (64 + 128 + 8) + 32), Put (mt_name m)] @ append_label_set (label_row m fi) @ [Put v])"
  using assms row_size_bound [OF assms(1), of fi] append_label_set_puts
  by (simp only: append_Cons append_Nil) (intro safe_reserved, simp_all add: row_size_def exportable_def)

lemma safe_bucket:
  assumes "2 * length (mt_name m) + 2 * row_size ls + 58 < 448"
  shows "safe (export_bucket print_g m ls b)"
proof -
  have "length (bound_text print_g (hb_upper_bound b)) \<le> 31" by (simp add: bound_text_def)
  moreover have "(\<Sum>l\<leftarrow>ls. length (label_text l @ [44])) \<le> row_size ls" using row_size_eq [of ls] by (cases "ls = []") simp_all
  ultimately show ?thesis
    using assms length_print_number [of "hb_count b"] unfolding export_bucket_def append_Cons append_Nil
    by (intro safe_reserved) (auto simp: text_of_map_Put list_all_iff)
qed

lemma safe_totals:
  assumes "2 * length (mt_name m) + 2 * row_size ls + 58 < 448" and "\<forall>v. length (print_g v) \<le> 24"
  shows "safe (export_totals print_g m ls h)"
proof -
  have "length (print_g (hi_sum_bits h)) \<le> 24" using assms(2) by blast
  then show ?thesis
    using assms(1) length_print_number [of "hi_count h"] append_label_set_puts [of ls] unfolding export_totals_def append_Cons append_Nil
    by (intro safe_reserved) (simp_all add: row_size_def)
qed

lemma registered_has_instances:
  assumes "metric_ok m"
  shows "mt_cardinality m \<noteq> 0"
    and "(case mt_instances m of Counters vs \<Rightarrow> vs \<noteq> [] | Gauges vs \<Rightarrow> vs \<noteq> [] | Histograms hs \<Rightarrow> hs \<noteq> [])"
proof -
  show card: "mt_cardinality m \<noteq> 0" using assms combinations_pos by (simp add: metric_ok_def)
  have "slots_of m \<noteq> 0" using card by (simp add: slots_of_def)
  moreover have "instances_ok (mt_type m) (slots_of m) (mt_instances m)" using assms by (simp add: metric_ok_def)
  ultimately show "(case mt_instances m of Counters vs \<Rightarrow> vs \<noteq> [] | Gauges vs \<Rightarrow> vs \<noteq> [] | Histograms hs \<Rightarrow> hs \<noteq> [])"
    by (cases "mt_instances m"; cases "mt_type m") auto
qed

lemma safe_metric:
  assumes "exportable m" and "fits m" and "\<forall>v. length (print_g v) \<le> 24"
  shows "safe (export_metric print_g m)"
proof -
  have g: "length ([32] @ print_g v @ [10]) \<le> 26" for v using assms(3) by simp
  have n: "length (print_number v) \<le> 26" for v using length_print_number [of v] by simp
  have ty: "instances_ok (mt_type m) (slots_of m) (mt_instances m)" using assms(1) by (simp add: exportable_def metric_ok_def)
  have some: "mt_cardinality m \<noteq> 0" "(case mt_instances m of Counters vs \<Rightarrow> vs \<noteq> [] | Gauges vs \<Rightarrow> vs \<noteq> [] | Histograms hs \<Rightarrow> hs \<noteq> [])"
    using assms(1) registered_has_instances [of m] by (simp_all add: exportable_def)
  show ?thesis
  proof (cases "mt_instances m")
    case (Counters vs)
    then have "export_metric print_g m = export_header m @ export_counter m vs" using some by (simp add: export_metric_def)
    then show ?thesis unfolding export_counter_def
      by (simp only:) (intro safe_append safe_header safe_concat safe_line assms(1) n)
  next
    case (Gauges vs)
    then have "export_metric print_g m = export_header m @ export_gauge print_g m vs" using some by (simp add: export_metric_def)
    then show ?thesis unfolding export_gauge_def
      by (simp only:) (intro safe_append safe_header safe_concat safe_line assms(1) g)
  next
    case (Histograms hs)
    then have "mt_type m = METRIC_TYPE_HISTOGRAM" using ty by (cases "mt_type m") simp_all
    then have "2 * length (mt_name m) + 2 * row_size (label_row m fi) + 58 < 448" if "fi < mt_cardinality m" for fi
      using assms(2) that by (simp add: fits_def list_all_iff)
    moreover have "export_metric print_g m = export_header m @ export_histogram print_g m hs"
      using Histograms some by (simp add: export_metric_def)
    ultimately show ?thesis unfolding export_histogram_def
      by (simp only:) (intro safe_append safe_header safe_concat safe_bucket safe_totals assms(1,3); simp)
  qed
qed

section \<open>Reachable registries\<close>

lemma exportable_new:
  assumes "register_metric r name hlp ty defs = (Inr i, r')" and "length defs \<le> 8"
  shows "exportable (mr_metrics r' ! i)"
proof -
  note m = registered_metric_ok [OF assms(1)]
  have short: "length (strncpy 63 s) < 64" "length (strncpy 127 s) < 128" "length (strncpy 255 s) < 256" for s by (simp_all add: strncpy_def)
  have "length (ml_key l) < 64 \<and> length (ml_value l) < 128" if "l \<in> set (mt_labels_table (mr_metrics r' ! i))" for l
  proof -
    have "\<exists>fi d. l = decode_label fi d"
      using that unfolding m(5) new_metric_def Let_def by (auto simp: build_labels_table_def decode_flat_index_def split: if_splits)
    then show ?thesis using short by (auto simp: decode_label_def Let_def split: prod.splits)
  qed
  moreover have "mt_name (mr_metrics r' ! i) = strncpy 127 name" "mt_help (mr_metrics r' ! i) = strncpy 255 hlp"
    by (simp_all add: m(5) new_metric_def Let_def)
  ultimately show ?thesis
    using m(2,4) assms(2) short by (simp add: exportable_def list_all_iff)
qed

lemma exportable_run: "list_all exportable (mr_metrics (registry_run fadd config evs))"
proof -
  have step: "list_all exportable (mr_metrics (registry_step fadd r ev))" if ok: "list_all exportable (mr_metrics r)" for r ev
  proof (cases ev)
    case (Register name hlp ty defs)
    obtain res r' where reg: "register_metric r name hlp ty defs = (res, r')" by fastforce
    show ?thesis
    proof (cases res)
      case (Inl e)
      then have "r' = r" using reg by (auto simp: register_metric_def Let_def split: if_splits)
      then show ?thesis using ok reg Register by simp
    next
      case (Inr i)
      have "length defs \<le> 8" "i = length (mr_metrics r)" "\<exists>m. mr_metrics r' = mr_metrics r @ [m]"
        using reg Inr by (auto simp: register_metric_def Let_def DISTRIC_MAX_METRIC_LABELS_def split: if_splits)
      then show ?thesis using ok exportable_new [of r name hlp ty defs i r'] reg Inr Register by auto
    qed
  next
    case (Update i op)
    show ?thesis
    proof (cases "i < length (mr_metrics r) \<and> op_type op = mt_type (mr_metrics r ! i)")
      case True
      let ?m = "mr_metrics r ! i"
      have m: "exportable ?m" using ok True by (simp add: list_all_length)
      then have mok: "metric_ok ?m" by (simp add: exportable_def)
      have "exportable (?m\<lparr>mt_instances := updated_instances fadd [op] ?m\<rparr>)"
        using m metric_ok_updated [OF mok] by (simp add: exportable_def)
      then show ?thesis
        using ok True Update step_instances [OF mok, of op fadd] by (simp add: list_all_length nth_list_update)
    qed (use ok Update in auto)
  next
    case Freeze
    then show ?thesis using ok by (simp add: metrics_freeze_def)
  qed
  have "list_all exportable (mr_metrics (foldl (registry_step fadd) r evs))" if "list_all exportable (mr_metrics r)" for r
    using that by (induction evs arbitrary: r) (simp_all add: step)
  then show ?thesis by (simp add: registry_run_def metrics_init_with_config_def Let_def)
qed

text \<open>C39.
  The export is exact: for every registry that calls can produce, of any size, the export stays inside its buffer and
  returns the concatenation of the lines of all metrics, provided that no histogram has a name and labels too
  long for the space reserved for its two last lines.
\<close>

theorem export_text_exact:
  assumes "r = registry_run fadd config evs" and "list_all fits (mr_metrics r)" and "\<forall>v. length (print_g v) \<le> 24"
  shows "metrics_export_prometheus print_g junk r = Some (concat (map (\<lambda>m. text_of (export_metric print_g m)) (mr_metrics r)))"
proof -
  have "list_all exportable (mr_metrics r)" unfolding assms(1) by (rule exportable_run)
  then have "safe (concat (map (export_metric print_g) (mr_metrics r)))"
    using assms(2,3) by (intro safe_concat safe_metric) (simp_all add: list_all_iff)
  then have "budget_ok 65536 (concat (map (export_metric print_g) (mr_metrics r)))" by (simp add: safe_def)
  from exec_within_budget [OF this, of "\<lparr>ob_buf = map junk [0..<65536], ob_offset = 0\<rparr>" "[]" junk]
  obtain b where "exec_commands junk (concat (map (export_metric print_g) (mr_metrics r))) \<lparr>ob_buf = map junk [0..<65536], ob_offset = 0\<rparr> = Some b"
      "ob_offset b < length (ob_buf b)" "take (ob_offset b) (ob_buf b) = text_of (concat (map (export_metric print_g) (mr_metrics r)))"
    by auto
  moreover have "text_of (concat (map (export_metric print_g) ms)) = concat (map (\<lambda>m. text_of (export_metric print_g m)) ms)" for ms
    by (induction ms) simp_all
  ultimately show ?thesis by (simp add: metrics_export_prometheus_def)
qed

theorem export_text_exact_witness:
  "metrics_export_prometheus (\<lambda>v. [48]) (\<lambda>i. 7) (registry_run (+) None [Register [99] [104] METRIC_TYPE_COUNTER [], Update 0 (Counter_Add 5)])
   = Some (concat (map (\<lambda>m. text_of (export_metric (\<lambda>v. [48]) m))
       (mr_metrics (registry_run (+) None [Register [99] [104] METRIC_TYPE_COUNTER [], Update 0 (Counter_Add 5)]))))"
proof (rule export_text_exact [OF refl])
  show "list_all fits (mr_metrics (registry_run (+) None [Register [99] [104] METRIC_TYPE_COUNTER [], Update 0 (Counter_Add 5)]))"
    by (simp add: registry_run_def metrics_init_with_config_def register_metric_def new_metric_def alloc_instances_def metrics_counter_add_def
        at_counter_def base_slot_def fits_def Let_def DISTRIC_MAX_METRICS_def DISTRIC_MAX_METRIC_CARDINALITY_def)
qed simp

section \<open>Long labels\<close>

lemma exec_append: "exec_commands junk (as @ bs) b = Option.bind (exec_commands junk as b) (exec_commands junk bs)"
proof (induction as arbitrary: b)
  case (Cons a as)
  then show ?case by (cases "exec_command junk a b") simp_all
qed simp

lemma exec_puts:
  assumes "list_all is_put cs" and "exec_commands junk cs b = Some b'"
  shows "ob_offset b' = ob_offset b + length (text_of cs)" and "length (ob_buf b') = length (ob_buf b)"
proof -
  have "ob_offset b' = ob_offset b + length (text_of cs) \<and> length (ob_buf b') = length (ob_buf b)" using assms
  proof (induction cs arbitrary: b)
    case (Cons c cs)
    then obtain s b1 where c: "c = Put s" "snprintf_at s b = Some b1" "exec_commands junk cs b1 = Some b'"
      by (cases c) (auto simp: bind_eq_Some_conv)
    then have "ob_offset b1 = ob_offset b + length s" "length (ob_buf b1) = length (ob_buf b)"
      by (auto simp: snprintf_at_def Let_def split: if_splits)
    then show ?case using Cons.IH [of b1] Cons.prems(1) c by simp
  qed simp
  then show "ob_offset b' = ob_offset b + length (text_of cs)" "length (ob_buf b') = length (ob_buf b)" by blast+
qed

text \<open>
  The condition on histograms is needed: when the last lines of an instance start where the buffer has exactly
  the reserved space left, and name and labels are longer than that space, the line of the count passes the
  end of the buffer and the next \<^verbatim>\<open>snprintf\<close> gets a size that has wrapped around.
\<close>

lemma long_labels_overflow_export:
  assumes "ob_offset b + 448 = length (ob_buf b)" and "442 < length (mt_name m) + row_size (label_row m fi)"
  shows "exec_commands junk (export_totals print_g m (label_row m fi) h) b = None"
proof -
  let ?cs = "[Put (mt_name m @ ascii ''_count'')] @ append_label_set (label_row m fi)"
  have e: "ensure_space junk 448 b = Some b" using assms(1) by (subst ensure_space.simps) simp
  have "export_totals print_g m (label_row m fi) h = [Ensure 448] @ ?cs @ (Put (print_number (hi_count h)) # [Put (mt_name m @ ascii ''_sum'')]
      @ append_label_set (label_row m fi) @ [Put ([32] @ print_g (hi_sum_bits h) @ [10])])" by (simp add: export_totals_def)
  moreover have "exec_commands junk (cs @ Put s # rest) b = None" if puts: "list_all is_put cs" and long: "448 < length (text_of cs)" for cs s rest
  proof (cases "exec_commands junk cs b")
    case (Some b1)
    from exec_puts [OF puts this] have "ob_offset b1 > length (ob_buf b1)" using assms(1) long by simp
    then show ?thesis using Some by (simp add: exec_append snprintf_at_def)
  qed (simp add: exec_append)
  from this [of ?cs] have "exec_commands junk (?cs @ Put s # rest) b = None" for s rest
    using append_label_set_puts assms(2) by (simp add: row_size_def del: append_Cons append_Nil exec_commands.simps)
  ultimately show ?thesis by (simp add: e)
qed

lemma long_labels_overflow_export_witness:
  "exec_commands (\<lambda>i. 7) (export_totals (\<lambda>v. [48])
     (new_metric [99] [] METRIC_TYPE_HISTOGRAM (map (\<lambda>k. \<lparr>md_key = [k], md_allowed_values = Some [Some (replicate 127 118)]\<rparr>) [97, 98, 99, 100]) 1)
     (label_row (new_metric [99] [] METRIC_TYPE_HISTOGRAM (map (\<lambda>k. \<lparr>md_key = [k], md_allowed_values = Some [Some (replicate 127 118)]\<rparr>) [97, 98, 99, 100]) 1) 0)
     fresh_histogram) \<lparr>ob_buf = replicate 65536 7, ob_offset = 65088\<rparr> = None"
proof (rule long_labels_overflow_export)
  let ?m = "new_metric [99] [] METRIC_TYPE_HISTOGRAM (map (\<lambda>k. \<lparr>md_key = [k], md_allowed_values = Some [Some (replicate 127 118)]\<rparr>) [97, 98, 99, 100]) 1"
  have v: "strncpy 127 (replicate 127 118) = replicate 127 118" by (simp add: strncpy_def cstr_of_def takeWhile_replicate)
  have "label_row ?m 0 = map (\<lambda>k. \<lparr>ml_key = [k], ml_value = replicate 127 118\<rparr>) [97, 98, 99, 100]"
    by (simp add: label_row_def new_metric_def Let_def build_labels_table_def decode_flat_index_def decode_label_def num_values_def v strncpy_def cstr_of_def
        del: replicate.simps)
  then show "442 < length (mt_name ?m) + row_size (label_row ?m 0)"
    by (simp add: row_size_eq label_text_def new_metric_def Let_def strncpy_def cstr_of_def)
qed simp

end
