(* ===== verification/TransportConfig.thy ===== *)
theory TransportConfig
  imports Prelude
begin

text \<open>
  The process-wide configuration of the transport layer (\<^verbatim>\<open>libs/distric_transport/src/transport_config.c\<close>): defaults,
  environment variables, application, the memory budget of the send queues and the sampling of log output. The
  budget is modelled twice: as the result of a call that runs alone, and at the level of its atomic accesses, for any
  number of threads. The main lemma shows that the counter stays exact and below the limit whatever the
  interleaving. Metrics are left out.
\<close>

section \<open>Configuration\<close>

record transport_global_config =
  gc_max_transport_memory_bytes :: u64
  gc_observability_sample_pct :: u32
  gc_handler_warn_duration_ms :: u32

text \<open>The atomic variables of the module, and their static initial values.\<close>

record transport_globals =
  tg_memory_in_use :: u64
  tg_memory_limit :: u64
  tg_rejected_memory :: u64
  tg_obs_sample_pct :: u32
  tg_obs_dropped :: u64
  tg_handler_warn_ms :: u32

definition initial_globals :: transport_globals where
  "initial_globals = \<lparr>tg_memory_in_use = 0, tg_memory_limit = 0, tg_rejected_memory = 0, tg_obs_sample_pct = 100,
     tg_obs_dropped = 0, tg_handler_warn_ms = 0\<rparr>"

definition transport_config_init :: transport_global_config where
  "transport_config_init = \<lparr>gc_max_transport_memory_bytes = 0, gc_observability_sample_pct = 100,
     gc_handler_warn_duration_ms = 0\<rparr>"

definition effective_pct :: "u32 \<Rightarrow> u32" where
  "effective_pct pct = (let pct = (if pct = 0 then 100 else pct) in if pct > 100 then 100 else pct)"

definition transport_config_apply :: "transport_global_config \<Rightarrow> transport_globals \<Rightarrow> transport_globals" where
  "transport_config_apply cfg g = g\<lparr>tg_memory_limit := gc_max_transport_memory_bytes cfg,
     tg_obs_sample_pct := effective_pct (gc_observability_sample_pct cfg),
     tg_handler_warn_ms := gc_handler_warn_duration_ms cfg\<rparr>"

definition transport_config_get :: "transport_globals \<Rightarrow> transport_global_config" where
  "transport_config_get g = \<lparr>gc_max_transport_memory_bytes = tg_memory_limit g,
     gc_observability_sample_pct = tg_obs_sample_pct g, gc_handler_warn_duration_ms = tg_handler_warn_ms g\<rparr>"

text \<open>
  \<^verbatim>\<open>strtoull(s, NULL, 10)\<close>, also \<^verbatim>\<open>strtoul\<close> with its 64 bits: a value that does not fit gives the largest one, a
  minus sign negates modulo 2 to the 64.
\<close>

definition strtoull :: "cstr \<Rightarrow> u64" where
  "strtoull s =
     (let s = dropWhile is_space s;
          (neg, s) = (case s of c # r \<Rightarrow> if c = 45 then (True, r) else if c = 43 then (False, r) else (False, s)
                              | [] \<Rightarrow> (False, s));
          v = digits_val (takeWhile is_digit s)
      in if v \<ge> 2 ^ 64 then - 1 else if neg then - of_int v else of_int v)"

definition env_number :: "(cstr \<Rightarrow> cstr option) \<Rightarrow> cstr \<Rightarrow> u64 option" where
  "env_number getenv name =
     (case getenv name of None \<Rightarrow> None | Some v \<Rightarrow> if v = [] then None else Some (strtoull v))"

definition transport_config_load_env :: "(cstr \<Rightarrow> cstr option) \<Rightarrow> transport_global_config \<Rightarrow> transport_global_config" where
  "transport_config_load_env getenv cfg =
     (let cfg = (case env_number getenv (ascii ''DISTRIC_MAX_TRANSPORT_MEMORY_BYTES'') of
                   None \<Rightarrow> cfg
                 | Some val \<Rightarrow> if val > 0 then cfg\<lparr>gc_max_transport_memory_bytes := val\<rparr> else cfg);
          cfg = (case env_number getenv (ascii ''DISTRIC_OBS_SAMPLE_PCT'') of
                   None \<Rightarrow> cfg
                 | Some val \<Rightarrow> if val \<ge> 1 \<and> val \<le> 100 then cfg\<lparr>gc_observability_sample_pct := ucast val\<rparr> else cfg)
      in case env_number getenv (ascii ''DISTRIC_HANDLER_WARN_DURATION_MS'') of
           None \<Rightarrow> cfg
         | Some val \<Rightarrow> if val > 0 then cfg\<lparr>gc_handler_warn_duration_ms := ucast val\<rparr> else cfg)"

section \<open>Memory budget\<close>

text \<open>A call that no other thread interrupts.\<close>

definition transport_memory_acquire :: "u64 \<Rightarrow> transport_globals \<Rightarrow> bool \<times> transport_globals" where
  "transport_memory_acquire nbytes g =
     (if tg_memory_limit g = 0 then (True, g\<lparr>tg_memory_in_use := tg_memory_in_use g + nbytes\<rparr>)
      else if tg_memory_in_use g + nbytes > tg_memory_limit g then (False, g\<lparr>tg_rejected_memory := tg_rejected_memory g + 1\<rparr>)
      else (True, g\<lparr>tg_memory_in_use := tg_memory_in_use g + nbytes\<rparr>))"

definition transport_memory_release :: "u64 \<Rightarrow> transport_globals \<Rightarrow> transport_globals" where
  "transport_memory_release nbytes g =
     (if nbytes = 0 then g
      else let prev = tg_memory_in_use g; g = g\<lparr>tg_memory_in_use := prev - nbytes\<rparr>
           in if prev < nbytes then g\<lparr>tg_memory_in_use := 0\<rparr> else g)"

definition transport_memory_in_use :: "transport_globals \<Rightarrow> u64" where
  "transport_memory_in_use g = tg_memory_in_use g"

text \<open>
  Where a thread that acquires a reservation, holds it and releases it stands: before the limit is loaded,
  before the unconditional addition, before the counter is loaded, before the compare and exchange with the
  value \<open>current\<close> last seen, with the reservation, before the store of the guard, and at the two ends.
\<close>

datatype memory_thread =
    M_Limit u64
  | M_Add u64
  | M_Read u64 u64
  | M_Exchange u64 u64 u64
  | M_Granted u64
  | M_Guard
  | M_Rejected
  | M_Released

text \<open>The flag says whether a weak compare and exchange fails although the value is the expected one.\<close>

fun acquire_step :: "bool \<Rightarrow> transport_globals \<Rightarrow> memory_thread \<Rightarrow> transport_globals \<times> memory_thread" where
  "acquire_step spurious g (M_Limit nbytes) =
     (g, if tg_memory_limit g = 0 then M_Add nbytes else M_Read nbytes (tg_memory_limit g))"
| "acquire_step spurious g (M_Add nbytes) = (g\<lparr>tg_memory_in_use := tg_memory_in_use g + nbytes\<rparr>, M_Granted nbytes)"
| "acquire_step spurious g (M_Read nbytes limit) = (g, M_Exchange nbytes limit (tg_memory_in_use g))"
| "acquire_step spurious g (M_Exchange nbytes limit current) =
     (if current + nbytes > limit then (g\<lparr>tg_rejected_memory := tg_rejected_memory g + 1\<rparr>, M_Rejected)
      else if tg_memory_in_use g = current \<and> \<not> spurious then (g\<lparr>tg_memory_in_use := current + nbytes\<rparr>, M_Granted nbytes)
      else (g, M_Exchange nbytes limit (tg_memory_in_use g)))"
| "acquire_step spurious g t = (g, t)"

fun release_step :: "transport_globals \<Rightarrow> memory_thread \<Rightarrow> transport_globals \<times> memory_thread" where
  "release_step g (M_Granted nbytes) =
     (if nbytes = 0 then (g, M_Released)
      else (g\<lparr>tg_memory_in_use := tg_memory_in_use g - nbytes\<rparr>, if tg_memory_in_use g < nbytes then M_Guard else M_Released))"
| "release_step g M_Guard = (g\<lparr>tg_memory_in_use := 0\<rparr>, M_Released)"
| "release_step g t = (g, t)"

section \<open>Sampling of log output\<close>

definition lcg_next :: "u64 \<Rightarrow> u64 \<Rightarrow> u64" where
  "lcg_next seed rng = (if rng = 0 then seed XOR 0xdeadbeefcafebabe else rng) * 6364136223846793005 + 1442695040888963407"

text \<open>The answer and the new state of the generator of the thread; \<open>seed\<close> is the address of that state.\<close>

definition transport_should_sample_obs :: "u64 \<Rightarrow> transport_globals \<Rightarrow> u64 \<Rightarrow> bool \<times> u64" where
  "transport_should_sample_obs seed g rng =
     (let pct = tg_obs_sample_pct g
      in if pct \<ge> 100 then (True, rng)
         else if pct = 0 then (False, rng)
         else let rng = lcg_next seed rng in ((ucast (drop_bit 33 rng) :: u32) mod 100 < pct, rng))"

definition transport_obs_record_drop :: "transport_globals \<Rightarrow> transport_globals" where
  "transport_obs_record_drop g = g\<lparr>tg_obs_dropped := tg_obs_dropped g + 1\<rparr>"

section \<open>Interleavings\<close>

record memory_system =
  ms_globals :: transport_globals
  ms_threads :: "memory_thread list"

text \<open>A call of acquire begins; a thread takes its next step (a thread with a reservation begins to release it);
  a configuration is applied.\<close>

datatype memory_event = Acquire u64 | Step nat bool | Configure transport_global_config

fun thread_step :: "bool \<Rightarrow> transport_globals \<Rightarrow> memory_thread \<Rightarrow> transport_globals \<times> memory_thread" where
  "thread_step spurious g (M_Granted nbytes) = release_step g (M_Granted nbytes)"
| "thread_step spurious g M_Guard = release_step g M_Guard"
| "thread_step spurious g t = acquire_step spurious g t"

fun memory_step :: "memory_system \<Rightarrow> memory_event \<Rightarrow> memory_system" where
  "memory_step s (Acquire nbytes) = s\<lparr>ms_threads := ms_threads s @ [M_Limit nbytes]\<rparr>"
| "memory_step s (Step i spurious) =
     (if i < length (ms_threads s)
      then case thread_step spurious (ms_globals s) (ms_threads s ! i) of
             (g, t) \<Rightarrow> \<lparr>ms_globals = g, ms_threads = (ms_threads s)[i := t]\<rparr>
      else s)"
| "memory_step s (Configure cfg) = s\<lparr>ms_globals := transport_config_apply cfg (ms_globals s)\<rparr>"

definition memory_run :: "transport_global_config \<Rightarrow> memory_event list \<Rightarrow> memory_system" where
  "memory_run cfg evs = foldl memory_step \<lparr>ms_globals = transport_config_apply cfg initial_globals, ms_threads = []\<rparr> evs"

fun held :: "memory_thread \<Rightarrow> nat" where
  "held (M_Granted nbytes) = unat nbytes"
| "held _ = 0"

text \<open>Limits between one byte and \<open>bound\<close>, and sizes that do not overflow when added to them.\<close>

fun event_ok :: "u64 \<Rightarrow> memory_event \<Rightarrow> bool" where
  "event_ok bound (Acquire nbytes) \<longleftrightarrow> unat nbytes + unat bound < 2 ^ 64"
| "event_ok bound (Step i spurious) \<longleftrightarrow> True"
| "event_ok bound (Configure cfg) \<longleftrightarrow> 0 < gc_max_transport_memory_bytes cfg \<and> gc_max_transport_memory_bytes cfg \<le> bound"

fun thread_ok :: "u64 \<Rightarrow> memory_thread \<Rightarrow> bool" where
  "thread_ok bound (M_Limit nbytes) \<longleftrightarrow> unat nbytes + unat bound < 2 ^ 64"
| "thread_ok bound (M_Read nbytes limit) \<longleftrightarrow> unat nbytes + unat bound < 2 ^ 64 \<and> limit \<le> bound"
| "thread_ok bound (M_Exchange nbytes limit current) \<longleftrightarrow> unat nbytes + unat bound < 2 ^ 64 \<and> limit \<le> bound \<and> current \<le> bound"
| "thread_ok bound (M_Add nbytes) \<longleftrightarrow> False"
| "thread_ok bound M_Guard \<longleftrightarrow> False"
| "thread_ok bound _ \<longleftrightarrow> True"

definition memory_inv :: "u64 \<Rightarrow> memory_system \<Rightarrow> bool" where
  "memory_inv bound s \<longleftrightarrow>
     0 < tg_memory_limit (ms_globals s) \<and> tg_memory_limit (ms_globals s) \<le> bound
     \<and> tg_memory_in_use (ms_globals s) \<le> bound
     \<and> unat (tg_memory_in_use (ms_globals s)) = (\<Sum>t\<leftarrow>ms_threads s. held t)
     \<and> list_all (thread_ok bound) (ms_threads s)"

section \<open>Calls that run alone\<close>

text \<open>The call without interference is the run of its atomic steps: it needs at most three.\<close>

lemma acquire_alone:
  "(case transport_memory_acquire nbytes g of (b, g') \<Rightarrow> (g', if b then M_Granted nbytes else M_Rejected))
   = (case acquire_step False g (M_Limit nbytes) of (g, t) \<Rightarrow> case acquire_step False g t of (g, t) \<Rightarrow> acquire_step False g t)"
  by (simp add: transport_memory_acquire_def)

lemma release_alone:
  "(transport_memory_release nbytes g, M_Released)
   = (case release_step g (M_Granted nbytes) of (g, t) \<Rightarrow> release_step g t)"
  by (simp add: transport_memory_release_def Let_def)

lemma release_acquire:
  assumes "transport_memory_acquire nbytes g = (True, g')" and "unat (tg_memory_in_use g) + unat nbytes < 2 ^ 64"
  shows "transport_memory_release nbytes g' = g"
  using assms by (auto simp: transport_memory_acquire_def transport_memory_release_def Let_def word_less_nat_alt unat_word_ariths split: if_splits)

text \<open>An applied configuration is read back, with the percentage brought into its range.\<close>

lemma effective_pct_range: "1 \<le> effective_pct pct \<and> effective_pct pct \<le> 100"
proof (cases "pct = 0")
  case False
  then have "1 \<le> pct" by (metis word_less_1 linorder_not_less)
  then show ?thesis using False by (simp add: effective_pct_def Let_def not_less)
qed (simp add: effective_pct_def)

lemma config_applied:
  "transport_config_get (transport_config_apply cfg g)
   = cfg\<lparr>gc_observability_sample_pct := effective_pct (gc_observability_sample_pct cfg)\<rparr>"
  by (simp add: transport_config_get_def transport_config_apply_def)

text \<open>A configuration comes out of an empty environment unchanged, and the defaults are a fixed point of applying and reading.\<close>

lemma defaults_applied:
  "transport_config_load_env (\<lambda>_. None) cfg = cfg"
  "transport_config_get (transport_config_apply transport_config_init g) = transport_config_init"
  by (simp_all add: transport_config_load_env_def env_number_def config_applied transport_config_init_def effective_pct_def)

text \<open>
  A warning threshold of 2 to the 32 milliseconds is cut to 32 bits and disables the warning instead.
\<close>

lemma warn_duration_cut:
  "gc_handler_warn_duration_ms (transport_config_load_env
     [ascii ''DISTRIC_HANDLER_WARN_DURATION_MS'' \<mapsto> ascii ''4294967296''] transport_config_init) = 0"
  by code_simp

section \<open>The budget under interleaving\<close>

lemma sum_held_update:
  "i < length ts \<Longrightarrow> (\<Sum>t\<leftarrow>ts[i := t']. held t) + held (ts ! i) = (\<Sum>t\<leftarrow>ts. held t) + held t'"
  by (induction ts arbitrary: i) (auto split: nat.splits)

lemma held_le_sum: "i < length ts \<Longrightarrow> held (ts ! i) \<le> (\<Sum>t\<leftarrow>ts. held t)"
  by (rule member_le_sum_list) (simp_all add: nth_mem)

lemma add_below:
  fixes nbytes bound current :: u64
  assumes "unat nbytes + unat bound < 2 ^ 64" and "current \<le> bound"
  shows "unat (current + nbytes) = unat current + unat nbytes"
  using assms by (subst unat_add_lem [THEN iffD1]) (simp_all add: word_le_nat_alt)

lemma thread_step_inv:
  assumes "thread_step spurious g t = (g', t')" and "thread_ok bound t"
    and "0 < tg_memory_limit g" and "tg_memory_limit g \<le> bound" and "tg_memory_in_use g \<le> bound"
    and "held t \<le> unat (tg_memory_in_use g)"
  shows "thread_ok bound t' \<and> tg_memory_limit g' = tg_memory_limit g \<and> tg_memory_in_use g' \<le> bound
    \<and> unat (tg_memory_in_use g') + held t = unat (tg_memory_in_use g) + held t'"
proof (cases t)
  case (M_Exchange nbytes limit current)
  with assms show ?thesis
    by (auto simp: add_below word_le_nat_alt word_less_nat_alt split: if_splits)
next
  case (M_Granted nbytes)
  with assms(6) have "nbytes \<le> tg_memory_in_use g" by (simp add: word_le_nat_alt)
  with M_Granted assms show ?thesis
    by (auto simp: unat_sub word_le_nat_alt word_less_nat_alt split: if_splits)
qed (use assms in auto)

lemma memory_step_inv:
  assumes "memory_inv bound s" and "event_ok bound e"
  shows "memory_inv bound (memory_step s e)"
proof (cases e)
  case (Step i spurious)
  show ?thesis
  proof (cases "i < length (ms_threads s)")
    case True
    obtain g' t' where st: "thread_step spurious (ms_globals s) (ms_threads s ! i) = (g', t')" by fastforce
    have "thread_ok bound (ms_threads s ! i)" using assms(1) True by (simp add: memory_inv_def list_all_length)
    note inv = thread_step_inv [OF st this]
    have "memory_inv bound \<lparr>ms_globals = g', ms_threads = (ms_threads s)[i := t']\<rparr>"
      using inv assms(1) sum_held_update [OF True, of t'] held_le_sum [OF True] True
      by (auto simp: memory_inv_def list_all_length nth_list_update)
    then show ?thesis using Step True st by simp
  qed (use assms Step in simp)
qed (use assms in \<open>auto simp: memory_inv_def transport_config_apply_def\<close>)

lemma memory_run_inv:
  assumes "0 < gc_max_transport_memory_bytes cfg" and "gc_max_transport_memory_bytes cfg \<le> bound" and "list_all (event_ok bound) evs"
  shows "memory_inv bound (memory_run cfg evs)"
proof -
  have "memory_inv bound (foldl memory_step s evs)" if "memory_inv bound s" for s
    using that assms(3) by (induction evs arbitrary: s) (simp_all add: memory_step_inv)
  then show ?thesis
    using assms(1,2) by (simp add: memory_run_def memory_inv_def transport_config_apply_def initial_globals_def)
qed

text \<open>
  C40. The memory budget holds under every interleaving: for any number of threads that acquire, hold and release
  reservations, step by step at the level of the atomic accesses and with spurious failures of the weak exchange,
  the counter is at every moment exactly the sum of the reservations held, it never exceeds the limit (the
  largest limit when the configuration is changed meanwhile), and the guard against underflow never runs.
\<close>

theorem memory_budget_exact:
  assumes "0 < gc_max_transport_memory_bytes cfg" and "gc_max_transport_memory_bytes cfg \<le> bound" and "list_all (event_ok bound) evs"
  shows "let s = memory_run cfg evs in
    unat (transport_memory_in_use (ms_globals s)) = (\<Sum>t\<leftarrow>ms_threads s. held t)
    \<and> transport_memory_in_use (ms_globals s) \<le> bound \<and> M_Guard \<notin> set (ms_threads s)"
proof -
  have "memory_inv bound (memory_run cfg evs)" by (rule memory_run_inv [OF assms])
  then show ?thesis by (auto simp: memory_inv_def transport_memory_in_use_def Let_def list_all_iff)
qed

theorem memory_budget_exact_witness:
  "unat (transport_memory_in_use (ms_globals (memory_run \<lparr>gc_max_transport_memory_bytes = 100, gc_observability_sample_pct = 0, gc_handler_warn_duration_ms = 0\<rparr>
       [Acquire 60, Acquire 60, Step 0 False, Step 1 False, Step 0 False, Step 1 False, Step 1 False, Step 0 False, Step 0 False]))) = 60"
  using memory_budget_exact [of "\<lparr>gc_max_transport_memory_bytes = 100, gc_observability_sample_pct = 0, gc_handler_warn_duration_ms = 0\<rparr>" 100
      "[Acquire 60, Acquire 60, Step 0 False, Step 1 False, Step 0 False, Step 1 False, Step 1 False, Step 0 False, Step 0 False]"]
  by (simp add: Let_def memory_run_def transport_config_apply_def initial_globals_def)

text \<open>
  The bound on sizes is needed: the test adds in 64 bits, and a size that wraps around is granted whatever the limit.
\<close>

lemma wrapped_size_granted:
  "transport_memory_acquire (- 10) \<lparr>tg_memory_in_use = 50, tg_memory_limit = 100, tg_rejected_memory = 0, tg_obs_sample_pct = 100,
     tg_obs_dropped = 0, tg_handler_warn_ms = 0\<rparr>
   = (True, \<lparr>tg_memory_in_use = 40, tg_memory_limit = 100, tg_rejected_memory = 0, tg_obs_sample_pct = 100,
     tg_obs_dropped = 0, tg_handler_warn_ms = 0\<rparr>)"
  by (simp add: transport_memory_acquire_def)

end
