(* ===== verification/Spec2Isabelle.thy ===== *)
theory Spec2Isabelle
  imports PeerMessages RaftCluster RaftRpc GossipWire CircuitBreaker WorkerPool ConfigManager Udp TcpPool Capability Tracing MetricsExport TransportConfig
begin

text \<open>
  Verification of \<^verbatim>\<open>distric\<close>, a C library for building distributed systems: a Raft replicated log, a
  binary wire protocol with an RPC framework on top of TCP, and their common parts. All paths are
  relative to \<^verbatim>\<open>src/libs/\<close>.

  \<^bold>\<open>The program.\<close> A Raft node (\<^verbatim>\<open>distric_raft/src/raft_core.c\<close>) keeps its log in memory and, through
  \<^verbatim>\<open>raft_persistence.c\<close>, in files. \<^verbatim>\<open>raft_rpc.c\<close> sends its requests to the peers and answers theirs.
  The requests are encoded as TLV fields (\<^verbatim>\<open>distric_protocol/src/messages.c\<close>, \<^verbatim>\<open>tlv.c\<close>), framed by a
  32 byte header with a CRC-32 (\<^verbatim>\<open>binary.c\<close>, \<^verbatim>\<open>crc32.c\<close>), and moved by the RPC framework (\<^verbatim>\<open>rpc.c\<close>) over
  non-blocking TCP connections with a send queue (\<^verbatim>\<open>distric_transport/src/tcp.c\<close>, \<^verbatim>\<open>send_queue.c\<close>). Beside it, every process
  can run the SWIM gossip protocol (\<^verbatim>\<open>distric_gossip\<close>) over UDP to know which nodes are alive. The
  cluster library (\<^verbatim>\<open>distric_cluster\<close>) keeps a pool of workers fed by gossip and a configuration
  replicated by Raft. The transport library adds a connection pool, per-host circuit breakers and a
  rate limited UDP socket. The protocol library can authenticate frames and negotiate features, and the
  observability library (\<^verbatim>\<open>distric_obs\<close>) gives every part a logger and a tracer, both with a ring between
  the callers and a background thread.

  \<^bold>\<open>How code becomes definitions.\<close> A struct is a \<^verbatim>\<open>record\<close> whose fields carry a short prefix
  (\<^verbatim>\<open>n_current_term\<close> for \<^verbatim>\<open>node->current_term\<close>); machine integers are words of their width, so that
  sums wrap; an operation takes the state first and returns the new state beside its results; error
  codes are the constructors of \<^typ>\<open>distric_err\<close> (Prelude), a fallible function returns
  \<^typ>\<open>'a result\<close>. \<^verbatim>\<open>char[N]\<close> arrays and C strings are byte lists without a zero byte, and
  \<^verbatim>\<open>strncpy\<close> is the truncation. Each operation holds its mutex throughout in the code, so it is one
  function here; the interleaving of operations is in the sequences of operations the theorems
  quantify over. The environment is explicit: the clock is an argument, the answers of the kernel
  to \<^verbatim>\<open>send\<close> and \<^verbatim>\<open>recv\<close> and of the disk to \<^verbatim>\<open>write\<close> are lists in the state, the network between two
  nodes and the connection pool are functions. The calls of the other
  components into the observability library and allocation failure are left out everywhere. Lock-free code is
  split: in the log ring and in the memory budget of the transport every atomic access of a thread is one step.

  \<^bold>\<open>Theories.\<close>
  \<^item> Prelude: error codes, C strings, big and little endian byte sequences.
  \<^item> Crc32 (\<^verbatim>\<open>crc32.c\<close>, \<^verbatim>\<open>crc32_compute\<close> of \<^verbatim>\<open>raft_persistence.c\<close>): both routines, their equality, and
    detection of every burst of up to four bytes.
  \<^item> Wire (\<^verbatim>\<open>binary.c\<close>): header layout, initialisation, message ids, validation, frame checksum; round
    trip, rejection of damaged frames, distinctness of ids.
  \<^item> Tlv (\<^verbatim>\<open>tlv.c\<close>): encoder with buffer growth, decoder with limits, owned decoding, sorted index,
    typed getters, validator; round trip, memory bounds, the validator accepts exactly the encodings,
    indexed lookup equals linear lookup.
  \<^item> MessageCodec, RaftMessages, PeerMessages (\<^verbatim>\<open>messages.c\<close>): the common shape of all serialisers and
    deserialisers as a locale, and the fifteen message types as its interpretations; round trips,
    required fields, what the decoder limits drop.
  \<^item> RaftPersist (\<^verbatim>\<open>raft_persistence.c\<close>): state file, log file and snapshot file as bytes, with failing
    writes; what is loaded after saves, appends, truncations, and after a torn append.
  \<^item> RaftLog, RaftNode (\<^verbatim>\<open>raft_core.c\<close>): the in-memory log, and every operation of the node: ticks,
    elections, votes, AppendEntries, commit, apply, replication, snapshots, restart. AppendEntries
    refines a list merge and keeps memory and file equal; acknowledged entries and granted votes
    survive a restart; commit index and state machine calls are characterised.
  \<^item> RaftCluster: the interleaving of the operations of all nodes with the vote broadcast of
    \<^verbatim>\<open>raft_rpc.c\<close> as an inductive step relation; election safety by rule induction.
  \<^item> SendQueue, Tcp (\<^verbatim>\<open>send_queue.c\<close>, \<^verbatim>\<open>tcp.c\<close>): the ring buffer as an instance of the locale of byte
    queues; the send path as a FIFO byte stream over any behaviour of the kernel.
  \<^item> HandlerTable, Rpc (\<^verbatim>\<open>rpc.c\<close>): the dispatch table as an instance of the locale of registries, the
    server loop of a connection, the client call and the retry loop.
  \<^item> RaftRpc (\<^verbatim>\<open>raft_rpc.c\<close>): RPC handlers, senders, vote broadcast and replication rounds; a request
    over the wire has the effect of a direct call.
  \<^item> Gossip (\<^verbatim>\<open>distric_gossip/src/gossip_membership.c\<close>, \<^verbatim>\<open>gossip_lifecycle.c\<close>,
    \<^verbatim>\<open>gossip_conflict_resolution.c\<close>): the membership list and its operations, a step relation over all of
    them, its invariant, the timeout sweep, convergence of views and refutation.
  \<^item> GossipWire (\<^verbatim>\<open>gossip_core.c\<close>): datagrams, probing, one round of the protocol thread and one
    iteration of the receiver thread; round trip, when a round returns, which probes are answered.
  \<^item> CircuitBreaker (\<^verbatim>\<open>distric_transport/src/circuit_breaker.c\<close>): the registry of per-host breakers; refinement
    of independent breakers, when a circuit opens, which probe it admits, which host is evicted.
  \<^item> ProbeTable: open addressing with linear probing as a locale, used by the UDP rate limiter.
  \<^item> TransportError, Udp (\<^verbatim>\<open>transport_error.c\<close>, \<^verbatim>\<open>udp.c\<close>): error classes; the UDP socket with its table of
    token buckets, which refines one ideal bucket per peer, bounds the admitted rate, and fails to do so
    once peers are evicted.
  \<^item> TcpPool (\<^verbatim>\<open>tcp_pool.c\<close>): the connection pool with its hash chains and LRU list; a step relation over
    interleaved users, exclusive use, which connection is evicted, what happens to failed ones.
  \<^item> TransportConfig (\<^verbatim>\<open>transport_config.c\<close>): the process-wide settings and the memory budget of the send
    queues, whose counter stays exact under every interleaving of its atomic accesses.
  \<^item> WorkerPool (\<^verbatim>\<open>distric_cluster/src/worker_pool.c\<close>): the pool of workers known from gossip, with utilisations rounded
    as doubles; correctness of the four selection strategies after all operations, fairness of round robin.
  \<^item> ConfigManager (\<^verbatim>\<open>config_manager.c\<close>): the replicated configuration; serialised changes, the state machine
    as an instance of the locale of keyed stores (twice: nodes and parameters), and the way of a proposal
    through the Raft node to its effect on the configuration.
  \<^item> Auth (\<^verbatim>\<open>auth.c\<close>, \<^verbatim>\<open>error_info.c\<close>): SHA-256 and HMAC, message authentication, the error record; the
    incremental hash, an instance of the locale of incremental hashes, equals the block by block definition, and
    verification accepts exactly the right code.
  \<^item> Capability (\<^verbatim>\<open>capability.c\<close>): round trip of the message, both sides of a handshake agree.
  \<^item> LogFormat, LogRing (\<^verbatim>\<open>distric_obs/src/logging.c\<close>): JSON lines and a strict reader for them; the ring of the
    asynchronous logger under every interleaving of producers and flush thread, the bound on the steps of a
    producer, and the race that disables it.
  \<^item> Tracing (\<^verbatim>\<open>tracing.c\<close>): identifiers, sampling, the ring of spans with its exporter, propagation of the
    context; spans are exported once and in order when the cycles of the exporter meet only finished spans, the
    sampling ratio is exact, a span finished late stops the exporter.
  \<^item> Metrics, MetricsExport (\<^verbatim>\<open>metrics.c\<close>): the registry, the index of label combinations, counters, gauges
    and histograms, and the Prometheus text. Label sets and instances correspond one to one, counters are maps
    from label sets to sums, the export through the growing buffer is exact where the reserved space suffices,
    and a label set beyond it overflows the buffer.
  \<^item> This theory: the Raft layer on top of the RPC framework.

  \<^bold>\<open>Termination and fuel.\<close> No definition uses fuel. Five loops can fail to return and are partial
  functions: the gossip timeout sweep, proved to return in every reachable state; the growth of
  the circuit breaker table and of the rings of logger and tracer, proved to return for the sizes that fit;
  the update loop of SHA-256, proved to return on every context the code can produce; and the growth of the
  export buffer, proved to return in every export. All other loops are structural or
  come with a measure: the receive loops consume the list of kernel answers (an exhausted list stands
  for a closed connection), decoders consume the buffer, probe loops count slots.

  \<^bold>\<open>Not modelled.\<close> Server socket, accept loop, event threads and connection setup of \<^verbatim>\<open>tcp.c\<close> are
  I/O; health checks and their HTTP export have no influence on protocol state; the cluster
  coordinator is a stub.
\<close>

section \<open>Raft over the RPC framework\<close>

text \<open>
  The network that the Raft layer really uses: \<^verbatim>\<open>rpc_call\<close> of the RPC framework on connections from
  the pool. Clock, message id counter and pool may answer differently at every attempt.
\<close>

definition rpc_network ::
  "(nat \<Rightarrow> timespec) \<Rightarrow> (nat \<Rightarrow> u64) \<Rightarrow> rpc_client \<Rightarrow> (nat \<Rightarrow> cstr \<Rightarrow> u16 \<Rightarrow> tcp_connection result) \<Rightarrow> network" where
  "rpc_network now counter client pool = (\<lambda>k address port mt request timeout_ms.
     let outcome = rpc_call (now k) (counter k) client (pool k address port) mt request timeout_ms
     in (ro_code outcome, ro_response outcome))"

text \<open>
  C17. Composition of the Raft layer with the RPC framework: since \<^verbatim>\<open>rpc_call\<close> never returns
  \<^verbatim>\<open>DISTRIC_OK\<close>, a vote broadcast over it always reports the candidate's own vote alone and leaves
  the node as it was, and a candidate with at least one peer is never promoted by that result: no
  leader can be elected in a cluster of more than one node.
\<close>

theorem no_election_over_rpc:
  assumes "\<forall>k a p. pool k a p \<noteq> Inl DISTRIC_OK" and "cfg_peers (n_config n) \<noteq> []"
  shows "raft_rpc_broadcast_request_vote now' ctx (rpc_network now counter client pool) n = (1, n)
    \<and> raft_process_election_result now' n
        (fst (raft_rpc_broadcast_request_vote now' ctx (rpc_network now counter client pool) n)) = n"
proof -
  let ?net = "rpc_network now counter client pool"
  have fails: "fst (?net k a p m r t) \<noteq> err_code DISTRIC_OK" for k a p m r t
    using rpc_call_code_nonzero assms(1) by (simp add: rpc_network_def Let_def)
  have "foldl (count_vote now' t) (v, m) (map (request_vote_thread ctx ?net c t li lt) peers) = (v, m)"
    for t v m c li lt peers
    by (induction peers) (simp_all add: request_vote_thread_fails [OF fails] count_vote_alt vote_of_def outdated_def)
  then have b: "raft_rpc_broadcast_request_vote now' ctx ?net n = (1, n)"
    by (simp add: raft_rpc_broadcast_request_vote_def Let_def)
  have "2 \<le> majority n" using assms(2) by (cases "cfg_peers (n_config n)") (auto simp: majority_def peer_count_def)
  then show ?thesis by (simp add: b raft_process_election_result_def)
qed

theorem no_election_over_rpc_witness:
  "raft_rpc_broadcast_request_vote 5 sample_context
     (rpc_network (\<lambda>k. \<lparr>tv_sec = 5, tv_nsec = 0\<rparr>) (\<lambda>k. of_nat k) rpc_client_create
        (\<lambda>k a p. Inr (sample_conn 64 [Accepts 99, Accepts 99]))) sample_node = (1, sample_node)"
  using no_election_over_rpc [of "\<lambda>k a p. Inr (sample_conn 64 [Accepts 99, Accepts 99])" sample_node 5 sample_context]
  by (simp add: sample_config_def)

end
